(* ===== verification/Prelude.thy ===== *)
theory Prelude
  imports Complex_Main "HOL-Library.AList" "HOL-Library.Sublist" "HOL-Library.List_Lexorder"
    "HOL-Library.Char_ord"
begin

text \<open>
  Shared vocabulary of the development: how JavaScript values are read in HOL, and the
  generic facts the component theories use.

  \<^item> A JavaScript \<open>Map\<close> is an association list in insertion order: \<open>get\<close> is
    \<^const>\<open>map_of\<close>, \<open>set\<close> is \<^const>\<open>AList.update\<close> (in place when the key is present, at
    the end otherwise, exactly the order a \<open>Map\<close> iterates in), \<open>delete\<close> is
    \<^const>\<open>AList.delete\<close>, and mutating the object a \<open>get\<close> returned is \<^const>\<open>AList.map_entry\<close>.
  \<^item> Numbers that the code keeps integral (counts, milliseconds, micro-USD) are \<^typ>\<open>int\<close>;
    prices and dollar amounts are \<^typ>\<open>rat\<close>, so binary rounding of decimal fractions is
    not modelled. \<open>Math.round\<close> is \<open>js_round\<close>, \<open>Math.floor(a / b)\<close> on integers is \<open>div\<close>.
  \<^item> \<open>undefined\<close> is \<^term>\<open>None\<close>; a thrown error is an \<^term>\<open>Inl\<close>.
  \<^item> A clock is an argument: every operation that reads \<open>Date.now()\<close> takes the instant it
    runs at, and one synchronous call reads one instant.
\<close>

section \<open>Collections of facts\<close>

named_theorems jmap_simps \<open>lookup laws of JavaScript maps\<close>

section \<open>JavaScript maps\<close>

type_synonym ('k, 'v) jmap = "('k \<times> 'v) list"

abbreviation jm_get :: "('k, 'v) jmap \<Rightarrow> 'k \<Rightarrow> 'v option" where
  "jm_get m k \<equiv> map_of m k"

abbreviation jm_set :: "('k, 'v) jmap \<Rightarrow> 'k \<Rightarrow> 'v \<Rightarrow> ('k, 'v) jmap" where
  "jm_set m k v \<equiv> AList.update k v m"

abbreviation jm_delete :: "('k, 'v) jmap \<Rightarrow> 'k \<Rightarrow> ('k, 'v) jmap" where
  "jm_delete m k \<equiv> AList.delete k m"

abbreviation jm_modify :: "('k, 'v) jmap \<Rightarrow> 'k \<Rightarrow> ('v \<Rightarrow> 'v) \<Rightarrow> ('k, 'v) jmap" where
  "jm_modify m k f \<equiv> AList.map_entry k f m"

abbreviation jm_has :: "('k, 'v) jmap \<Rightarrow> 'k \<Rightarrow> bool" where
  "jm_has m k \<equiv> map_of m k \<noteq> None"

abbreviation jm_values :: "('k, 'v) jmap \<Rightarrow> 'v list" where
  "jm_values m \<equiv> map snd m"

text \<open>A map holds each key once. Every operation above keeps this.\<close>

abbreviation jm_ok :: "('k, 'v) jmap \<Rightarrow> bool" where
  "jm_ok m \<equiv> distinct (map fst m)"

lemma get_set [jmap_simps, simp]:
  "jm_get (jm_set m k v) k' = (if k' = k then Some v else jm_get m k')"
  by (simp add: update_conv')

lemma get_delete [jmap_simps, simp]:
  "jm_get (jm_delete m k) k' = (if k' = k then None else jm_get m k')"
  by (simp add: delete_conv')

lemma get_modify [jmap_simps, simp]:
  "jm_get (jm_modify m k f) k' = (if k' = k then map_option f (jm_get m k) else jm_get m k')"
  by (induction m) auto

lemma jm_ok_set [simp]: "jm_ok m \<Longrightarrow> jm_ok (jm_set m k v)"
  by (rule distinct_update)

lemma jm_ok_delete [simp]: "jm_ok m \<Longrightarrow> jm_ok (jm_delete m k)"
  by (rule distinct_delete)

lemma keys_modify [simp]: "map fst (jm_modify m k f) = map fst m"
  by (induction m) auto

lemma set_absent: "jm_get m k = None \<Longrightarrow> jm_set m k v = m @ [(k, v)]"
  by (induction m) auto

lemma modify_twice:
  "jm_modify (jm_modify m k f) k g = jm_modify m k (\<lambda>v. g (f v))"
  by (induction m) auto

lemma modify_id: "(\<And>v. jm_get m k = Some v \<Longrightarrow> f v = v) \<Longrightarrow> jm_modify m k f = m"
  by (induction m) (auto split: if_splits)

lemma get_values: "jm_get m k = Some v \<Longrightarrow> v \<in> set (jm_values m)"
  by (force dest: map_of_SomeD)

lemma get_iff_mem: "jm_ok m \<Longrightarrow> (jm_get m k = Some v) = ((k, v) \<in> set m)"
  by simp

section \<open>Numbers\<close>

definition js_round :: "rat \<Rightarrow> int" where
  "js_round x = \<lfloor>x + 1 / 2\<rfloor>"

lemma js_round_int [simp]: "js_round (of_int n) = n"
  by (simp add: js_round_def floor_unique)

lemma js_round_mono: "x \<le> y \<Longrightarrow> js_round x \<le> js_round y"
  unfolding js_round_def by (rule floor_mono) simp

lemma js_round_nonneg: "0 \<le> x \<Longrightarrow> 0 \<le> js_round x"
  using js_round_mono [of 0 x] js_round_int [of 0] by simp

text \<open>Decimal rendering, \<open>String(n)\<close> for an integer.\<close>

fun nat_str :: "nat \<Rightarrow> string" where
  "nat_str n = (if n < 10 then [char_of (48 + n)] else nat_str (n div 10) @ [char_of (48 + n mod 10)])"

declare nat_str.simps [simp del]

definition int_str :: "int \<Rightarrow> string" where
  "int_str i = (if i < 0 then CHR ''-'' # nat_str (nat (- i)) else nat_str (nat i))"

text \<open>Reading digits back shows that the rendering is injective.\<close>

definition digits_val :: "string \<Rightarrow> nat" where
  "digits_val = foldl (\<lambda>a c. 10 * a + (of_char c - 48)) 0"

lemma digits_val_snoc [simp]: "digits_val (s @ [c]) = 10 * digits_val s + (of_char c - 48)"
  by (simp add: digits_val_def)

lemma of_char_digit [simp]: "n < 10 \<Longrightarrow> of_char (char_of (48 + n :: nat)) = 48 + n"
  by simp

lemma digits_val_nat_str [simp]: "digits_val (nat_str n) = n"
proof (induction n rule: nat_str.induct)
  case (1 n)
  show ?case
  proof (cases "n < 10")
    case True
    then show ?thesis
      using digits_val_snoc [of "[]" "char_of (48 + n)"]
      by (simp add: nat_str.simps [of n] digits_val_def)
  next
    case False
    with 1 show ?thesis
      by (simp add: nat_str.simps [of n])
  qed
qed

lemma nat_str_inj: "nat_str m = nat_str n \<Longrightarrow> m = n"
  by (metis digits_val_nat_str)

lemma nat_str_chars: "c \<in> set (nat_str n) \<Longrightarrow> of_char c \<in> {48..(57::nat)}"
proof (induction n rule: nat_str.induct)
  case (1 n)
  then show ?case
    by (cases "n < 10") (auto simp: nat_str.simps [of n])
qed

lemma nat_str_no_minus: "CHR ''-'' \<notin> set (nat_str n)"
  using nat_str_chars [of "CHR ''-''" n] by auto

lemma int_str_inj: "int_str i = int_str j \<Longrightarrow> i = j"
proof -
  assume eq: "int_str i = int_str j"
  have minus: "nat_str n \<noteq> CHR ''-'' # s" for n s
    using nat_str_no_minus [of n] by (metis list.set_intros(1))
  from eq show "i = j"
    by (auto simp: int_str_def minus minus [symmetric] dest: nat_str_inj split: if_splits)
qed

lemma int_str_chars:
  "c \<in> set (int_str i) \<Longrightarrow> c = CHR ''-'' \<or> of_char c \<in> {48..(57::nat)}"
  by (auto simp: int_str_def dest: nat_str_chars split: if_splits)

section \<open>Strings\<close>

fun join :: "string \<Rightarrow> string list \<Rightarrow> string" where
  "join sep [] = ''''"
| "join sep [x] = x"
| "join sep (x # xs) = x @ sep @ join sep xs"

text \<open>\<open>s.split(c)\<close> for a one-character separator.\<close>

fun split_on :: "char \<Rightarrow> string \<Rightarrow> string list" where
  "split_on c [] = [[]]"
| "split_on c (x # xs) =
     (if x = c then [] # split_on c xs
      else (x # hd (split_on c xs)) # tl (split_on c xs))"

lemma split_on_nonempty [simp]: "split_on c s \<noteq> []"
  by (induction s) auto

lemma split_on_free: "c \<notin> set s \<Longrightarrow> split_on c s = [s]"
  by (induction s) auto

lemma split_on_append:
  "c \<notin> set s \<Longrightarrow> split_on c (s @ c # t) = s # split_on c t"
  by (induction s) auto

lemma split_on_join:
  "ps \<noteq> [] \<Longrightarrow> \<forall>p \<in> set ps. c \<notin> set p \<Longrightarrow> split_on c (join [c] ps) = ps"
  by (induction "[c]" ps rule: join.induct) (auto simp: split_on_free split_on_append)

lemma join_split_on: "join [c] (split_on c s) = s"
proof (induction s)
  case (Cons x s)
  obtain y ys where "split_on c s = y # ys" by (cases "split_on c s") auto
  with Cons show ?case by (cases ys) auto
qed simp

lemma split_on_parts_free: "p \<in> set (split_on c s) \<Longrightarrow> c \<notin> set p"
proof (induction s arbitrary: p)
  case (Cons x s)
  obtain y ys where "split_on c s = y # ys" by (cases "split_on c s") auto
  with Cons show ?case by (auto split: if_splits)
qed simp

text \<open>Cutting at a separator the pieces do not contain.\<close>

lemma cut_first:
  "a @ c # x = b @ c # y \<Longrightarrow> c \<notin> set a \<Longrightarrow> c \<notin> set b \<Longrightarrow> a = b \<and> x = y"
proof (induction a arbitrary: b)
  case Nil
  then show ?case by (cases b) auto
next
  case (Cons z a)
  then show ?case by (cases b) auto
qed

lemma cut_last:
  assumes "x @ c # a = y @ c # b" and "c \<notin> set a" and "c \<notin> set b"
  shows "x = y \<and> a = b"
proof -
  have "rev a @ c # rev x = rev b @ c # rev y"
    using arg_cong [OF assms(1), of rev] by simp
  then show ?thesis using cut_first assms(2,3) by (metis rev_rev_ident set_rev)
qed

section \<open>Sorting with a comparator\<close>

text \<open>
  \<open>Array.prototype.sort(cmp)\<close> is a stable sort by a comparator; insertion from the right
  gives its result.
\<close>

fun insort_by :: "('a \<Rightarrow> 'a \<Rightarrow> int) \<Rightarrow> 'a \<Rightarrow> 'a list \<Rightarrow> 'a list" where
  "insort_by cmp x [] = [x]"
| "insort_by cmp x (y # ys) = (if cmp x y \<le> 0 then x # y # ys else y # insort_by cmp x ys)"

definition sort_by :: "('a \<Rightarrow> 'a \<Rightarrow> int) \<Rightarrow> 'a list \<Rightarrow> 'a list" where
  "sort_by cmp xs = foldr (insort_by cmp) xs []"

lemma set_insort_by [simp]: "set (insort_by cmp x xs) = insert x (set xs)"
  by (induction xs) auto

lemma set_sort_by [simp]: "set (sort_by cmp xs) = set xs"
  by (induction xs) (auto simp: sort_by_def)

lemma length_insort_by [simp]: "length (insort_by cmp x xs) = Suc (length xs)"
  by (induction xs) auto

lemma length_sort_by [simp]: "length (sort_by cmp xs) = length xs"
  by (induction xs) (auto simp: sort_by_def)

lemma distinct_insort_by [simp]: "distinct (insort_by cmp x xs) = (x \<notin> set xs \<and> distinct xs)"
  by (induction xs) auto

lemma distinct_sort_by [simp]: "distinct (sort_by cmp xs) = distinct xs"
  by (induction xs) (auto simp: sort_by_def set_sort_by [unfolded sort_by_def])

text \<open>The contract a comparator must keep for \<open>sort\<close> to order the list.\<close>

locale comparator_order =
  fixes cmp :: "'a \<Rightarrow> 'a \<Rightarrow> int"
  assumes cmp_total: "cmp x y \<le> 0 \<or> cmp y x \<le> 0"
    and cmp_trans: "cmp x y \<le> 0 \<Longrightarrow> cmp y z \<le> 0 \<Longrightarrow> cmp x z \<le> 0"
begin

lemma insort_by_sorted:
  "sorted_wrt (\<lambda>a b. cmp a b \<le> 0) xs \<Longrightarrow> sorted_wrt (\<lambda>a b. cmp a b \<le> 0) (insort_by cmp x xs)"
proof (induction xs)
  case (Cons y ys)
  then show ?case
    using cmp_total [of x y] by (auto intro: cmp_trans)
qed simp

lemma sort_by_sorted: "sorted_wrt (\<lambda>a b. cmp a b \<le> 0) (sort_by cmp xs)"
  by (induction xs) (auto simp: sort_by_def intro: insort_by_sorted)

end

section \<open>Invariants of operation sequences\<close>

text \<open>
  A component is a state and an operation step; an invariant every step keeps holds after
  every history of operations.
\<close>

locale preserved =
  fixes step :: "'s \<Rightarrow> 'op \<Rightarrow> 's"
    and inv :: "'s \<Rightarrow> bool"
  assumes step_inv: "inv s \<Longrightarrow> inv (step s c)"
begin

lemma run_inv: "inv s \<Longrightarrow> inv (foldl step s cs)"
  by (induction cs arbitrary: s) (simp_all add: step_inv)

end

end
