(* ===== verification/RateLimit.thy ===== *)
theory RateLimit
  imports Prelude
begin

text \<open>
  The in-process fixed-window limiter, \<open>klanker-gate/packages/governance/src/rate_limit.ts\<close>:
  one window record per caller key, request counting (\<open>check\<close>), metered consumption
  (\<open>consume\<close>) and the Retry-After feed. The lemmas bound what a window and any interval of
  one window's length can admit.
\<close>

section \<open>State and operations\<close>

record rate_policy =
  rp_maxRequests :: int
  rp_windowMs :: int

record window =
  w_count :: int
  w_resetAt :: int

record rate_limiter =
  rl_defaults :: rate_policy
  rl_counts :: "(string, window) jmap"

definition rl_new :: "rate_policy \<Rightarrow> rate_limiter" where
  "rl_new defaults = \<lparr>rl_defaults = defaults, rl_counts = []\<rparr>"

definition rl_put :: "rate_limiter \<Rightarrow> string \<Rightarrow> int \<Rightarrow> int \<Rightarrow> rate_limiter" where
  "rl_put l key n reset = l\<lparr>rl_counts := jm_set (rl_counts l) key \<lparr>w_count = n, w_resetAt = reset\<rparr>\<rparr>"

definition rl_check :: "rate_limiter \<Rightarrow> string \<Rightarrow> rate_policy \<Rightarrow> int \<Rightarrow> bool \<times> rate_limiter" where
  "rl_check l key policy now =
     (case jm_get (rl_counts l) key of
        None \<Rightarrow> (True, rl_put l key 1 (now + rp_windowMs policy))
      | Some r \<Rightarrow>
          if now > w_resetAt r then (True, rl_put l key 1 (now + rp_windowMs policy))
          else if w_count r \<ge> rp_maxRequests policy then (False, l)
          else (True, rl_put l key (w_count r + 1) (w_resetAt r)))"

definition rl_check_default :: "rate_limiter \<Rightarrow> string \<Rightarrow> int \<Rightarrow> bool \<times> rate_limiter" where
  "rl_check_default l key now = rl_check l key (rl_defaults l) now"

text \<open>A limit of \<open>Infinity\<close> is \<^term>\<open>None\<close>.\<close>

definition over :: "int \<Rightarrow> int option \<Rightarrow> bool" where
  "over n m = (case m of None \<Rightarrow> False | Some k \<Rightarrow> n > k)"

definition rl_consume ::
    "rate_limiter \<Rightarrow> string \<Rightarrow> int option \<Rightarrow> int \<Rightarrow> int \<Rightarrow> int \<Rightarrow> bool \<times> rate_limiter" where
  "rl_consume l key m windowMs amount now =
     (case jm_get (rl_counts l) key of
        None \<Rightarrow> if over amount m then (False, l) else (True, rl_put l key amount (now + windowMs))
      | Some r \<Rightarrow>
          if now > w_resetAt r then
            if over amount m then (False, l) else (True, rl_put l key amount (now + windowMs))
          else if over (w_count r + amount) m then (False, l)
          else (True, rl_put l key (w_count r + amount) (w_resetAt r)))"

definition rl_retryAfterMs :: "rate_limiter \<Rightarrow> string \<Rightarrow> int \<Rightarrow> int" where
  "rl_retryAfterMs l key now =
     (case jm_get (rl_counts l) key of None \<Rightarrow> 0 | Some r \<Rightarrow> max 0 (w_resetAt r - now))"

section \<open>Frame and case lemmas\<close>

lemma rl_put_get [simp]:
  "jm_get (rl_counts (rl_put l key n t)) k =
     (if k = key then Some \<lparr>w_count = n, w_resetAt = t\<rparr> else jm_get (rl_counts l) k)"
  by (simp add: rl_put_def)

lemma rl_check_frame:
  "rl_check l key p now = (b, l') \<Longrightarrow> k \<noteq> key \<Longrightarrow> jm_get (rl_counts l') k = jm_get (rl_counts l) k"
  by (auto simp: rl_check_def split: option.splits if_splits)

lemma rl_consume_frame:
  "rl_consume l key m w a now = (b, l') \<Longrightarrow> k \<noteq> key \<Longrightarrow>
     jm_get (rl_counts l') k = jm_get (rl_counts l) k"
  by (auto simp: rl_consume_def split: option.splits if_splits)

lemma rl_check_denied: "rl_check l key p now = (False, l') \<Longrightarrow> l' = l"
  by (auto simp: rl_check_def split: option.splits if_splits)

lemma rl_consume_denied: "rl_consume l key m w a now = (False, l') \<Longrightarrow> l' = l"
  by (auto simp: rl_consume_def split: option.splits if_splits)

text \<open>The request counter and the token counter of one caller read as one function.\<close>

definition in_window :: "rate_limiter \<Rightarrow> string \<Rightarrow> int \<Rightarrow> int" where
  "in_window l key now =
     (case jm_get (rl_counts l) key of
        None \<Rightarrow> 0 | Some r \<Rightarrow> if now > w_resetAt r then 0 else w_count r)"

lemma rl_consume_iff:
  "fst (rl_consume l key m w a now) \<longleftrightarrow> \<not> over (in_window l key now + a) m"
  by (auto simp: rl_consume_def in_window_def split: option.splits if_splits)

lemma rl_consume_count:
  assumes "0 \<le> w"
  shows "in_window (snd (rl_consume l key m w a now)) key now =
    in_window l key now + (if fst (rl_consume l key m w a now) then a else 0)"
  using assms by (auto simp: rl_consume_def in_window_def split: option.splits if_splits)

section \<open>What a window admits\<close>

text \<open>A run of \<open>check\<close> calls for one caller, with the answers.\<close>

fun rl_checks :: "rate_limiter \<Rightarrow> string \<Rightarrow> rate_policy \<Rightarrow> int list \<Rightarrow> bool list" where
  "rl_checks l key p [] = []"
| "rl_checks l key p (t # ts) =
     (let (b, l') = rl_check l key p t in b # rl_checks l' key p ts)"

lemma rl_checks_open_window:
  assumes "jm_get (rl_counts l) key = Some r" and "\<forall>t \<in> set ts. t \<le> w_resetAt r"
    and "n = nat (rp_maxRequests p - w_count r)"
  shows "rl_checks l key p ts =
    replicate (min n (length ts)) True @ replicate (length ts - n) False"
  using assms
proof (induction ts arbitrary: l r n)
  case (Cons t ts)
  show ?case
  proof (cases "w_count r \<ge> rp_maxRequests p")
    case True
    with Cons show ?thesis by (simp add: rl_check_def)
  next
    case False
    let ?l = "rl_put l key (w_count r + 1) (w_resetAt r)"
    obtain m where n: "n = Suc m" using False Cons.prems(3) gr0_implies_Suc [of n] by auto
    have "rl_checks ?l key p ts =
        replicate (min m (length ts)) True @ replicate (length ts - m) False"
      by (rule Cons.IH [of ?l "\<lparr>w_count = w_count r + 1, w_resetAt = w_resetAt r\<rparr>"])
        (use Cons.prems n False in auto)
    with Cons.prems(1,2) False show ?thesis by (simp add: rl_check_def n)
  qed
qed simp

text \<open>Admissions left in an interval that ends at \<open>e\<close>.\<close>

definition headroom :: "rate_limiter \<Rightarrow> string \<Rightarrow> rate_policy \<Rightarrow> int \<Rightarrow> nat" where
  "headroom l key p e =
     (case jm_get (rl_counts l) key of
        None \<Rightarrow> nat (rp_maxRequests p)
      | Some r \<Rightarrow> nat (rp_maxRequests p - w_count r) +
          (if w_resetAt r \<ge> e then 0 else nat (rp_maxRequests p)))"

lemma rl_checks_headroom:
  assumes "\<forall>t \<in> set ts. a \<le> t \<and> t \<le> a + rp_windowMs p" and "1 \<le> rp_maxRequests p"
  shows "count_list (rl_checks l key p ts) True \<le> headroom l key p (a + rp_windowMs p)"
  using assms(1)
proof (induction ts arbitrary: l)
  case (Cons t ts)
  obtain b l' where c: "rl_check l key p t = (b, l')" by fastforce
  have "headroom l' key p (a + rp_windowMs p) + (if b then 1 else 0)
      \<le> headroom l key p (a + rp_windowMs p)"
    using c Cons.prems assms(2)
    by (auto simp: rl_check_def headroom_def split: option.splits if_splits)
  moreover have "count_list (rl_checks l' key p ts) True \<le> headroom l' key p (a + rp_windowMs p)"
    using Cons by simp
  ultimately show ?case using c by auto
qed simp

text \<open>C6: A caller's first request opens a window; of the requests up to the window's end exactly
  the first \<open>maxRequests\<close> are admitted and every later one is refused.\<close>

theorem rate_window_exact:
  assumes "jm_get (rl_counts l) key = None" and "1 \<le> rp_maxRequests p"
    and "\<forall>t \<in> set ts. t \<le> t0 + rp_windowMs p"
  shows "rl_checks l key p (t0 # ts) =
    replicate (min (nat (rp_maxRequests p)) (Suc (length ts))) True @
    replicate (Suc (length ts) - nat (rp_maxRequests p)) False"
proof -
  let ?l = "rl_put l key 1 (t0 + rp_windowMs p)"
  obtain m where m: "nat (rp_maxRequests p) = Suc m" using assms(2) gr0_implies_Suc [of "nat (rp_maxRequests p)"] by auto
  have "rl_checks ?l key p ts =
      replicate (min m (length ts)) True @ replicate (length ts - m) False"
    by (rule rl_checks_open_window [where r = "\<lparr>w_count = 1, w_resetAt = t0 + rp_windowMs p\<rparr>"])
      (use assms m in auto)
  with assms(1) m show ?thesis by (simp add: rl_check_def)
qed

theorem rate_window_exact_witness:
  "rl_checks (rl_new \<lparr>rp_maxRequests = 60, rp_windowMs = 60000\<rparr>) ''k''
     \<lparr>rp_maxRequests = 2, rp_windowMs = 1000\<rparr> [5, 7, 9, 1005] = [True, True, False, False]"
  using rate_window_exact [of "rl_new \<lparr>rp_maxRequests = 60, rp_windowMs = 60000\<rparr>" "''k''"
      "\<lparr>rp_maxRequests = 2, rp_windowMs = 1000\<rparr>" "[7, 9, 1005]" 5]
  by (simp add: rl_new_def numeral_eq_Suc)

text \<open>Whatever the limiter has seen before, no interval of one window's length admits more than
  \<open>2 * maxRequests\<close> requests of one caller (the fixed-window boundary burst).\<close>

theorem rate_interval_bound:
  assumes "\<forall>t \<in> set ts. a \<le> t \<and> t \<le> a + rp_windowMs p" and "1 \<le> rp_maxRequests p"
    and "\<forall>r. jm_get (rl_counts l) key = Some r \<longrightarrow> 0 \<le> w_count r"
  shows "count_list (rl_checks l key p ts) True \<le> 2 * nat (rp_maxRequests p)"
proof -
  have "headroom l key p (a + rp_windowMs p) \<le> 2 * nat (rp_maxRequests p)"
    using assms(3) by (auto simp: headroom_def split: option.splits)
  with rl_checks_headroom [OF assms(1,2), of l key] show ?thesis by simp
qed

theorem rate_interval_bound_witness:
  "count_list (rl_checks (rl_new \<lparr>rp_maxRequests = 60, rp_windowMs = 60000\<rparr>) ''k''
     \<lparr>rp_maxRequests = 1, rp_windowMs = 10\<rparr> [0, 5, 10]) True \<le> 2"
  using rate_interval_bound [of "[0, 5, 10]" 0 "\<lparr>rp_maxRequests = 1, rp_windowMs = 10\<rparr>"
      "rl_new \<lparr>rp_maxRequests = 60, rp_windowMs = 60000\<rparr>" "''k''"]
  by (simp add: rl_new_def)

end
