(* ===== verification/StateStore.thy ===== *)
theory StateStore
  imports Prelude
begin

text \<open>
  The state store of the gateway (\<open>klanker-gate/packages/config/src/store.ts\<close> and
  \<open>store_memory.ts\<close>): key paths and their order, the store interface as a record of
  operations, the in-memory store, the locale \<open>counter_store\<close> with the laws clients rely on,
  and its interpretation on the in-memory store. Values and counters live in two separate
  maps. \<open>structuredClone\<close> on the way in and out is the identity here because HOL values
  are immutable.
\<close>

section \<open>Key paths\<close>

datatype state_key_part = KStr string | KNum int

type_synonym state_key = "state_key_part list"

fun part_str :: "state_key_part \<Rightarrow> string" where
  "part_str (KStr s) = s"
| "part_str (KNum n) = int_str n"

fun compareKeys :: "state_key \<Rightarrow> state_key \<Rightarrow> int" where
  "compareKeys (a # as) (b # bs) =
     (if part_str a < part_str b then - 1
      else if part_str b < part_str a then 1
      else compareKeys as bs)"
| "compareKeys as bs = int (length as) - int (length bs)"

definition hasPrefix :: "state_key \<Rightarrow> state_key \<Rightarrow> bool" where
  "hasPrefix key pre =
     (if length key \<le> length pre then False
      else list_all (\<lambda>(k, p). part_str k = part_str p) (zip key pre))"

abbreviation key_sep :: char where
  "key_sep \<equiv> CHR 0x1F"

definition keyId :: "state_key \<Rightarrow> string" where
  "keyId key = join [key_sep] (map part_str key)"

section \<open>The store interface\<close>

datatype reserve_verdict = Reserved | Exhausted | Conflict

record count_limit =
  cl_key :: state_key
  cl_max :: int
  cl_amount :: "int option"

definition limit_amount :: "count_limit \<Rightarrow> int" where
  "limit_amount l = (case cl_amount l of None \<Rightarrow> 1 | Some a \<Rightarrow> a)"

record ('s, 'v) store_ops =
  so_set :: "'s \<Rightarrow> state_key \<Rightarrow> 'v \<Rightarrow> 's"
  so_get :: "'s \<Rightarrow> state_key \<Rightarrow> 'v option"
  so_sum :: "'s \<Rightarrow> state_key \<Rightarrow> int \<Rightarrow> 's"
  so_getCount :: "'s \<Rightarrow> state_key \<Rightarrow> int"
  so_listCounts :: "'s \<Rightarrow> state_key \<Rightarrow> (state_key \<times> int) list"
  so_deleteCount :: "'s \<Rightarrow> state_key \<Rightarrow> 's"
  so_getOrSet :: "'s \<Rightarrow> state_key \<Rightarrow> 'v \<Rightarrow> 's \<times> 'v"
  so_reserveCounts :: "'s \<Rightarrow> count_limit list \<Rightarrow> 's \<times> reserve_verdict"

section \<open>The in-memory store\<close>

record 'v mem_store =
  ms_values :: "(string, state_key \<times> 'v) jmap"
  ms_counters :: "(string, state_key \<times> int) jmap"

definition mem_empty :: "'v mem_store" where
  "mem_empty = \<lparr>ms_values = [], ms_counters = []\<rparr>"

definition mem_set :: "'v mem_store \<Rightarrow> state_key \<Rightarrow> 'v \<Rightarrow> 'v mem_store" where
  "mem_set s key v = s\<lparr>ms_values := jm_set (ms_values s) (keyId key) (key, v)\<rparr>"

definition mem_get :: "'v mem_store \<Rightarrow> state_key \<Rightarrow> 'v option" where
  "mem_get s key = map_option snd (jm_get (ms_values s) (keyId key))"

record list_options =
  lo_reverse :: bool
  lo_limit :: "nat option"

definition mem_list :: "'v mem_store \<Rightarrow> state_key \<Rightarrow> list_options \<Rightarrow> (state_key \<times> 'v) list" where
  "mem_list s pre opts =
     (let rows = sort_by (\<lambda>a b. if lo_reverse opts then compareKeys (fst b) (fst a)
                                else compareKeys (fst a) (fst b))
                   (filter (\<lambda>row. hasPrefix (fst row) pre) (jm_values (ms_values s)))
      in case lo_limit opts of None \<Rightarrow> rows | Some n \<Rightarrow> take n rows)"

definition mem_keys :: "'v mem_store \<Rightarrow> state_key \<Rightarrow> state_key list" where
  "mem_keys s pre =
     map fst (sort_by (\<lambda>a b. compareKeys (fst a) (fst b))
       (filter (\<lambda>row. hasPrefix (fst row) pre) (jm_values (ms_values s))))"

definition mem_delete :: "'v mem_store \<Rightarrow> state_key \<Rightarrow> 'v mem_store" where
  "mem_delete s key = s\<lparr>ms_values := jm_delete (ms_values s) (keyId key)\<rparr>"

definition mem_count :: "'v mem_store \<Rightarrow> string \<Rightarrow> int" where
  "mem_count s i = (case jm_get (ms_counters s) i of None \<Rightarrow> 0 | Some (_, n) \<Rightarrow> n)"

definition mem_sum :: "'v mem_store \<Rightarrow> state_key \<Rightarrow> int \<Rightarrow> 'v mem_store" where
  "mem_sum s key d =
     s\<lparr>ms_counters := jm_set (ms_counters s) (keyId key) (key, mem_count s (keyId key) + d)\<rparr>"

definition mem_getCount :: "'v mem_store \<Rightarrow> state_key \<Rightarrow> int" where
  "mem_getCount s key = mem_count s (keyId key)"

definition mem_listCounts :: "'v mem_store \<Rightarrow> state_key \<Rightarrow> (state_key \<times> int) list" where
  "mem_listCounts s pre =
     sort_by (\<lambda>a b. compareKeys (fst a) (fst b))
       (filter (\<lambda>row. hasPrefix (fst row) pre) (jm_values (ms_counters s)))"

definition mem_deleteCount :: "'v mem_store \<Rightarrow> state_key \<Rightarrow> 'v mem_store" where
  "mem_deleteCount s key = s\<lparr>ms_counters := jm_delete (ms_counters s) (keyId key)\<rparr>"

definition mem_getOrSet :: "'v mem_store \<Rightarrow> state_key \<Rightarrow> 'v \<Rightarrow> 'v mem_store \<times> 'v" where
  "mem_getOrSet s key v =
     (case jm_get (ms_values s) (keyId key) of
        Some (_, old) \<Rightarrow> (s, old)
      | None \<Rightarrow> (mem_set s key v, v))"

definition mem_reserveCounts ::
    "'v mem_store \<Rightarrow> count_limit list \<Rightarrow> 'v mem_store \<times> reserve_verdict" where
  "mem_reserveCounts s limits =
     (if list_ex (\<lambda>l. mem_getCount s (cl_key l) + limit_amount l > cl_max l) limits
      then (s, Exhausted)
      else (foldl (\<lambda>st l. mem_sum st (cl_key l) (limit_amount l)) s limits, Reserved))"

definition mem_ops :: "('v mem_store, 'v) store_ops" where
  "mem_ops = \<lparr>so_set = mem_set, so_get = mem_get, so_sum = mem_sum, so_getCount = mem_getCount,
     so_listCounts = mem_listCounts, so_deleteCount = mem_deleteCount,
     so_getOrSet = mem_getOrSet, so_reserveCounts = mem_reserveCounts\<rparr>"

lemma mem_ops_simps [simp]:
  "so_set mem_ops = mem_set" "so_get mem_ops = mem_get" "so_sum mem_ops = mem_sum"
  "so_getCount mem_ops = mem_getCount" "so_listCounts mem_ops = mem_listCounts"
  "so_deleteCount mem_ops = mem_deleteCount" "so_getOrSet mem_ops = mem_getOrSet"
  "so_reserveCounts mem_ops = mem_reserveCounts"
  by (simp_all add: mem_ops_def)

subsection \<open>Named instances\<close>

text \<open>
  The static registry of named stores: handles into a heap of instances, with the registry
  mapping a name to its handle.
\<close>

record 'v store_world =
  sw_heap :: "(nat, 'v mem_store) jmap"
  sw_named :: "(string, nat) jmap"
  sw_next :: nat

definition sw_fresh :: "'v store_world \<Rightarrow> 'v store_world \<times> nat" where
  "sw_fresh w =
     (w\<lparr>sw_heap := jm_set (sw_heap w) (sw_next w) mem_empty, sw_next := Suc (sw_next w)\<rparr>, sw_next w)"

definition store_named :: "'v store_world \<Rightarrow> string option \<Rightarrow> 'v store_world \<times> nat" where
  "store_named w name =
     (case name of
        None \<Rightarrow> sw_fresh w
      | Some n \<Rightarrow>
          if n = '''' \<or> n = '':memory:'' then sw_fresh w
          else (case jm_get (sw_named w) n of
                  Some h \<Rightarrow> (w, h)
                | None \<Rightarrow> (let (w', h) = sw_fresh w
                          in (w'\<lparr>sw_named := jm_set (sw_named w') n h\<rparr>, h))))"

definition store_resetAll :: "'v store_world \<Rightarrow> 'v store_world" where
  "store_resetAll w = w\<lparr>sw_named := []\<rparr>"

definition store_isNamed :: "'v store_world \<Rightarrow> nat \<Rightarrow> bool" where
  "store_isNamed w h = list_ex (\<lambda>h'. h' = h) (jm_values (sw_named w))"

definition store_close :: "'v store_world \<Rightarrow> nat \<Rightarrow> 'v store_world" where
  "store_close w h =
     (if store_isNamed w h then w
      else w\<lparr>sw_heap := jm_modify (sw_heap w) h (\<lambda>_. mem_empty)\<rparr>)"

section \<open>Order and identity of key paths\<close>

lemma compareKeys_le_iff: "compareKeys a b \<le> 0 \<longleftrightarrow> map part_str a \<le> map part_str b"
proof (induction a b rule: compareKeys.induct)
  case (1 a as b bs)
  then show ?case
    using less_linear [of "part_str a" "part_str b"] by (auto simp: Cons_le_Cons)
qed auto

lemma compareKeys_swap: "compareKeys a b = - compareKeys b a"
  by (induction a b rule: compareKeys.induct) auto

interpretation key_order: comparator_order compareKeys
  by unfold_locales (auto simp: compareKeys_le_iff)

lemma hasPrefix_iff:
  "hasPrefix key pre \<longleftrightarrow>
     (\<exists>rest. rest \<noteq> [] \<and> map part_str key = map part_str pre @ rest)"
proof -
  have zip_all: "list_all (\<lambda>(k, p). part_str k = part_str p) (zip key pre)
      \<longleftrightarrow> (\<exists>rest. map part_str key = map part_str pre @ rest)"
    if "length pre < length key" for key pre :: state_key
    using that
  proof (induction pre arbitrary: key)
    case (Cons p pre)
    then show ?case by (cases key) auto
  qed simp
  show ?thesis
  proof (cases "length key \<le> length pre")
    case True
    then show ?thesis
      by (auto simp: hasPrefix_def dest!: arg_cong [where f = length])
  next
    case False
    then show ?thesis
      using zip_all [of pre key] by (auto simp: hasPrefix_def) (metis length_map order_refl)
  qed
qed

definition sep_free :: "state_key \<Rightarrow> bool" where
  "sep_free key \<longleftrightarrow> key \<noteq> [] \<and> list_all (\<lambda>p. key_sep \<notin> set (part_str p)) key"

lemma keyId_eq_iff:
  assumes "sep_free a" and "sep_free b"
  shows "keyId a = keyId b \<longleftrightarrow> map part_str a = map part_str b"
proof
  assume "keyId a = keyId b"
  then have "split_on key_sep (keyId a) = split_on key_sep (keyId b)" by simp
  with assms show "map part_str a = map part_str b"
    by (simp add: keyId_def sep_free_def split_on_join list_all_iff)
qed (simp add: keyId_def)

lemma sep_not_digit: "key_sep \<notin> set (int_str n)"
  using int_str_chars [of key_sep n] by auto

section \<open>The contract of the counters\<close>

text \<open>Units a reservation asks of one counter.\<close>

definition asked :: "count_limit list \<Rightarrow> state_key \<Rightarrow> int" where
  "asked ls key =
     sum_list (map limit_amount (filter (\<lambda>l. keyId (cl_key l) = keyId key) ls))"

lemma asked_Nil [simp]: "asked [] key = 0"
  by (simp add: asked_def)

lemma asked_Cons [simp]:
  "asked (l # ls) key =
     (if keyId (cl_key l) = keyId key then limit_amount l else 0) + asked ls key"
  by (simp add: asked_def)

lemma asked_distinct:
  "distinct (map (keyId \<circ> cl_key) ls) \<Longrightarrow> l \<in> set ls \<Longrightarrow> asked ls (cl_key l) = limit_amount l"
proof (induction ls)
  case (Cons a ls)
  have none: "asked ls k = 0" if "keyId k \<notin> (keyId \<circ> cl_key) ` set ls" for k
    using that by (induction ls) auto
  show ?case
  proof (cases "l = a")
    case True
    with Cons.prems none [of "cl_key a"] show ?thesis by simp
  next
    case False
    with Cons.prems have "keyId (cl_key a) \<noteq> keyId (cl_key l)" by force
    with False Cons show ?thesis by simp
  qed
qed simp

locale counter_store =
  fixes ops :: "('s, 'v) store_ops"
  assumes reserve_adds:
      "so_reserveCounts ops s ls = (s', Reserved) \<Longrightarrow>
       so_getCount ops s' key = so_getCount ops s key + asked ls key"
    and reserve_fits:
      "so_reserveCounts ops s ls = (s', Reserved) \<Longrightarrow> l \<in> set ls \<Longrightarrow>
       so_getCount ops s (cl_key l) + limit_amount l \<le> cl_max l"
    and reserve_denied:
      "so_reserveCounts ops s ls = (s', v) \<Longrightarrow> v \<noteq> Reserved \<Longrightarrow>
       so_getCount ops s' key = so_getCount ops s key"
    and reserve_exhausted:
      "so_reserveCounts ops s ls = (s', Exhausted) \<Longrightarrow>
       \<exists>l \<in> set ls. cl_max l < so_getCount ops s (cl_key l) + limit_amount l"
    and sum_adds:
      "so_getCount ops (so_sum ops s key d) key' =
       so_getCount ops s key' + (if keyId key = keyId key' then d else 0)"
    and delete_clears:
      "so_getCount ops (so_deleteCount ops s key) key' =
       (if keyId key = keyId key' then 0 else so_getCount ops s key')"
    and count_key: "keyId a = keyId b \<Longrightarrow> so_getCount ops s a = so_getCount ops s b"
    and reserve_get: "so_reserveCounts ops s ls = (s', v) \<Longrightarrow> so_get ops s' key = so_get ops s key"
    and sum_get: "so_get ops (so_sum ops s key d) key' = so_get ops s key'"
    and set_get:
      "so_get ops (so_set ops s key x) key' =
       (if keyId key = keyId key' then Some x else so_get ops s key')"
    and set_count: "so_getCount ops (so_set ops s key x) key' = so_getCount ops s key'"
    and getOrSet_winner:
      "so_getOrSet ops s key x = (s', y) \<Longrightarrow>
       y = (case so_get ops s key of None \<Rightarrow> x | Some old \<Rightarrow> old) \<and>
       so_get ops s' key' = (if keyId key = keyId key' then Some y else so_get ops s key')"
    and getOrSet_count:
      "so_getOrSet ops s key x = (s', y) \<Longrightarrow> so_getCount ops s' key' = so_getCount ops s key'"
begin

lemma reserve_within:
  assumes "so_reserveCounts ops s ls = (s', Reserved)"
    and "distinct (map (keyId \<circ> cl_key) ls)" and "l \<in> set ls"
  shows "so_getCount ops s' (cl_key l) \<le> cl_max l"
  using reserve_adds [OF assms(1), of "cl_key l"] reserve_fits [OF assms(1,3)]
    asked_distinct [OF assms(2,3)]
  by simp

lemma reserve_cases:
  assumes "so_reserveCounts ops s ls = (s', v)"
  obtains (reserved) "v = Reserved" "\<And>key. so_getCount ops s' key = so_getCount ops s key + asked ls key"
  | (denied) "v \<noteq> Reserved" "\<And>key. so_getCount ops s' key = so_getCount ops s key"
  using assms reserve_adds reserve_denied by blast

end

section \<open>The in-memory store keeps the contract\<close>

lemma mem_count_sum [simp]:
  "mem_count (mem_sum s key d) i = mem_count s i + (if keyId key = i then d else 0)"
  by (simp add: mem_count_def mem_sum_def)

lemma mem_getCount_sum [simp]:
  "mem_getCount (mem_sum s key d) key' = mem_getCount s key' + (if keyId key = keyId key' then d else 0)"
  by (simp add: mem_getCount_def)

lemma mem_getCount_empty [simp]: "mem_getCount mem_empty key = 0"
  by (simp add: mem_getCount_def mem_count_def mem_empty_def)

lemma mem_get_sum [simp]: "mem_get (mem_sum s key d) key' = mem_get s key'"
  by (simp add: mem_get_def mem_sum_def)

lemma mem_count_foldl:
  "mem_count (foldl (\<lambda>st l. mem_sum st (cl_key l) (limit_amount l)) s ls) (keyId key) =
   mem_count s (keyId key) + asked ls key"
  by (induction ls arbitrary: s) auto

lemma mem_get_foldl:
  "mem_get (foldl (\<lambda>st l. mem_sum st (cl_key l) (limit_amount l)) s ls) key = mem_get s key"
  by (induction ls arbitrary: s) auto

interpretation mem: counter_store mem_ops
proof (unfold_locales, goal_cases)
  case (1 s ls s' key)
  then show ?case
    by (auto simp: mem_reserveCounts_def mem_getCount_def mem_count_foldl split: if_splits)
next
  case (2 s ls s' l)
  then show ?case
    by (auto simp: mem_reserveCounts_def list_ex_iff not_less split: if_splits)
qed (auto simp: mem_reserveCounts_def mem_getCount_def mem_count_def mem_deleteCount_def
    mem_set_def mem_getOrSet_def mem_get_def list_ex_iff
    mem_get_foldl [unfolded mem_get_def] mem_get_sum [unfolded mem_get_def]
    mem_count_sum [unfolded mem_count_def]
    split: if_splits option.splits prod.splits)

section \<open>What the store promises\<close>

interpretation row_order: comparator_order "\<lambda>a b. compareKeys (fst a) (fst b)"
  by unfold_locales (auto simp: compareKeys_le_iff)

interpretation row_order_rev: comparator_order "\<lambda>a b. compareKeys (fst b) (fst a)"
  by unfold_locales (auto simp: compareKeys_le_iff)

text \<open>A listing returns exactly the rows stored strictly below the prefix (never the row at
  the prefix itself), in ascending key order, or descending with \<open>reverse\<close>; a limit keeps the
  first rows of that order.\<close>

theorem mem_list_strict_sorted:
  "set (mem_list s pre \<lparr>lo_reverse = r, lo_limit = None\<rparr>) =
     {row \<in> set (jm_values (ms_values s)).
        \<exists>rest. rest \<noteq> [] \<and> map part_str (fst row) = map part_str pre @ rest}
   \<and> sorted_wrt (\<lambda>a b. if r then map part_str (fst b) \<le> map part_str (fst a)
                        else map part_str (fst a) \<le> map part_str (fst b))
       (mem_list s pre \<lparr>lo_reverse = r, lo_limit = None\<rparr>)
   \<and> mem_list s pre \<lparr>lo_reverse = r, lo_limit = Some n\<rparr> =
       take n (mem_list s pre \<lparr>lo_reverse = r, lo_limit = None\<rparr>)"
  using row_order.sort_by_sorted row_order_rev.sort_by_sorted
  by (cases r) (auto simp: mem_list_def hasPrefix_iff compareKeys_le_iff)

text \<open>\<open>reserveCounts\<close> is all or nothing. When it answers \<open>reserved\<close> every counter grew by
  exactly the units asked of it and, if the limits name distinct counters, none is above its
  maximum; otherwise the store is unchanged, the answer is \<open>exhausted\<close> and some limit had too
  little room.\<close>

theorem reserveCounts_all_or_nothing:
  assumes "mem_reserveCounts s ls = (s', v)"
  shows "if v = Reserved
         then (\<forall>key. mem_getCount s' key = mem_getCount s key + asked ls key) \<and>
              (distinct (map (keyId \<circ> cl_key) ls) \<longrightarrow>
                (\<forall>l \<in> set ls. mem_getCount s' (cl_key l) \<le> cl_max l))
         else s' = s \<and> v = Exhausted \<and>
              (\<exists>l \<in> set ls. cl_max l < mem_getCount s (cl_key l) + limit_amount l)"
proof (cases "v = Reserved")
  case True
  with assms have r: "so_reserveCounts mem_ops s ls = (s', Reserved)" by simp
  show ?thesis
    using mem.reserve_adds [OF r] mem.reserve_within [OF r] True by simp
next
  case False
  with assms show ?thesis
    by (auto simp: mem_reserveCounts_def list_ex_iff split: if_splits)
qed

theorem reserveCounts_all_or_nothing_witness:
  "\<exists>s'. mem_reserveCounts (mem_empty :: int mem_store)
      [\<lparr>cl_key = [KStr ''k''], cl_max = 2, cl_amount = None\<rparr>] = (s', Reserved) \<and>
    mem_getCount s' [KStr ''k''] = 1"
proof -
  let ?ls = "[\<lparr>cl_key = [KStr ''k''], cl_max = 2, cl_amount = None\<rparr>]"
  obtain s' v where r: "mem_reserveCounts (mem_empty :: int mem_store) ?ls = (s', v)"
    by fastforce
  have v: "v = Reserved"
    using r by (auto simp: mem_reserveCounts_def mem_getCount_def mem_count_def mem_empty_def
        limit_amount_def split: if_splits)
  have "mem_getCount s' [KStr ''k''] = mem_getCount (mem_empty :: int mem_store) [KStr ''k'']
      + asked ?ls [KStr ''k'']"
    using reserveCounts_all_or_nothing [OF r] v by (metis (full_types))
  then show ?thesis
    using r v by (simp add: mem_getCount_def mem_count_def mem_empty_def limit_amount_def)
qed

end
