(* ===== verification/JsText.thy ===== *)
theory JsText
  imports Prelude
begin

text \<open>
  The JavaScript string and number-reading functions the modelled code calls. A string is a
  list of code units below 256; the only character outside that range the modelled code writes
  (the ellipsis of a token hint) is written as three dots.
\<close>

section \<open>Case, blanks, prefixes\<close>

definition lower_char :: "char \<Rightarrow> char" where
  "lower_char c =
     (let n = of_char c :: nat in
      if 65 \<le> n \<and> n \<le> 90 \<or> 192 \<le> n \<and> n \<le> 222 \<and> n \<noteq> 215 then char_of (n + 32) else c)"

definition js_lower :: "string \<Rightarrow> string" where
  "js_lower = map lower_char"

definition is_space :: "char \<Rightarrow> bool" where
  "is_space c = (let n = of_char c :: nat in 9 \<le> n \<and> n \<le> 13 \<or> n = 32 \<or> n = 160)"

definition js_trimStart :: "string \<Rightarrow> string" where
  "js_trimStart s = dropWhile is_space s"

definition js_trimEnd :: "string \<Rightarrow> string" where
  "js_trimEnd s = rev (dropWhile is_space (rev s))"

definition js_trim :: "string \<Rightarrow> string" where
  "js_trim s = js_trimEnd (js_trimStart s)"

text \<open>\<open>s.startsWith(p)\<close> is \<^term>\<open>prefix p s\<close>; \<open>s.slice(n)\<close> is \<^term>\<open>drop n s\<close>;
  \<open>s.slice(-n)\<close> keeps the last \<open>n\<close>.\<close>

definition last_n :: "nat \<Rightarrow> 'a list \<Rightarrow> 'a list" where
  "last_n n s = drop (length s - n) s"

text \<open>\<open>s.indexOf(c)\<close> for one character, with \<^term>\<open>None\<close> for \<open>-1\<close>.\<close>

fun js_indexOf :: "char \<Rightarrow> string \<Rightarrow> nat option" where
  "js_indexOf c [] = None"
| "js_indexOf c (x # xs) = (if x = c then Some 0 else map_option Suc (js_indexOf c xs))"

lemma js_indexOf_Some:
  "js_indexOf c s = Some n \<Longrightarrow> n < length s \<and> s ! n = c \<and> c \<notin> set (take n s)"
proof (induction s arbitrary: n)
  case (Cons x xs)
  then show ?case by (cases n) (auto split: if_splits)
qed simp

lemma js_indexOf_None: "js_indexOf c s = None \<longleftrightarrow> c \<notin> set s"
  by (induction s) auto

lemma js_indexOf_append:
  "c \<notin> set s \<Longrightarrow> js_indexOf c (s @ c # t) = Some (length s)"
  by (induction s) auto

section \<open>Number(string)\<close>

text \<open>
  \<open>Number(s)\<close> for a string, when the result is finite; \<^term>\<open>None\<close> stands for
  \<open>NaN\<close> and the infinities, which every caller modelled here rejects with
  \<open>Number.isFinite\<close> or an equivalent test. Overflow to \<open>Infinity\<close> is not modelled.
\<close>

definition is_digit :: "char \<Rightarrow> bool" where
  "is_digit c = (let n = of_char c :: nat in 48 \<le> n \<and> n \<le> 57)"

definition digit_in :: "nat \<Rightarrow> char \<Rightarrow> nat option" where
  "digit_in base c =
     (let n = of_char c :: nat;
          d = (if 48 \<le> n \<and> n \<le> 57 then n - 48
               else if 97 \<le> n \<and> n \<le> 122 then n - 87
               else if 65 \<le> n \<and> n \<le> 90 then n - 55 else base)
      in if d < base then Some d else None)"

fun read_base :: "nat \<Rightarrow> nat \<Rightarrow> string \<Rightarrow> nat option" where
  "read_base base acc [] = Some acc"
| "read_base base acc (c # cs) =
     (case digit_in base c of None \<Rightarrow> None | Some d \<Rightarrow> read_base base (base * acc + d) cs)"

definition read_exponent :: "string \<Rightarrow> int option" where
  "read_exponent s =
     (case s of
        [] \<Rightarrow> None
      | c # cs \<Rightarrow>
          if c = CHR ''-'' then
            (if cs \<noteq> [] then map_option (\<lambda>n. - int n) (read_base 10 0 cs) else None)
          else if c = CHR ''+'' then
            (if cs \<noteq> [] then map_option int (read_base 10 0 cs) else None)
          else map_option int (read_base 10 0 s))"

definition pow10 :: "int \<Rightarrow> rat" where
  "pow10 e = (if e \<ge> 0 then 10 ^ nat e else 1 / 10 ^ nat (- e))"

definition read_decimal :: "string \<Rightarrow> rat option" where
  "read_decimal s =
     (let ip = takeWhile is_digit s;
          r1 = dropWhile is_digit s;
          fp = (case r1 of c # cs \<Rightarrow> if c = CHR ''.'' then takeWhile is_digit cs else [] | [] \<Rightarrow> []);
          r2 = (case r1 of c # cs \<Rightarrow> if c = CHR ''.'' then dropWhile is_digit cs else r1 | [] \<Rightarrow> []);
          m = of_nat (digits_val (ip @ fp)) * pow10 (- int (length fp))
      in if ip = [] \<and> fp = [] then None
         else case r2 of
                [] \<Rightarrow> Some m
              | c # cs \<Rightarrow>
                  if c = CHR ''e'' \<or> c = CHR ''E''
                  then map_option (\<lambda>e. m * pow10 e) (read_exponent cs) else None)"

definition js_number :: "string \<Rightarrow> rat option" where
  "js_number str =
     (let s = js_trim str in
      if s = [] then Some 0
      else if length s > 2 \<and> (take 2 s = ''0x'' \<or> take 2 s = ''0X'')
        then map_option of_nat (read_base 16 0 (drop 2 s))
      else if length s > 2 \<and> (take 2 s = ''0o'' \<or> take 2 s = ''0O'')
        then map_option of_nat (read_base 8 0 (drop 2 s))
      else if length s > 2 \<and> (take 2 s = ''0b'' \<or> take 2 s = ''0B'')
        then map_option of_nat (read_base 2 0 (drop 2 s))
      else if hd s = CHR ''-'' then map_option uminus (read_decimal (tl s))
      else if hd s = CHR ''+'' then read_decimal (tl s)
      else read_decimal s)"

subsection \<open>Reading back what \<open>String(n)\<close> wrote\<close>

lemma nat_str_nonempty [simp]: "nat_str n \<noteq> []"
  by (simp add: nat_str.simps [of n])

lemma nat_str_digit: "c \<in> set (nat_str n) \<Longrightarrow> is_digit c"
  using nat_str_chars [of c n] by (simp add: is_digit_def Let_def)

lemma read_decimal_nat_str: "read_decimal (nat_str n) = Some (of_nat n)"
proof -
  have all: "\<forall>c \<in> set (nat_str n). is_digit c" by (simp add: nat_str_digit)
  then have tw: "takeWhile is_digit (nat_str n) = nat_str n" and dw: "dropWhile is_digit (nat_str n) = []"
    by (simp_all add: takeWhile_eq_all_conv dropWhile_eq_Nil_conv)
  show ?thesis by (simp add: read_decimal_def pow10_def Let_def tw dw)
qed

lemma digit_not_space: "is_digit c \<Longrightarrow> \<not> is_space c"
  by (auto simp: is_digit_def is_space_def Let_def)

lemma js_trim_id:
  assumes "s \<noteq> []" and "\<forall>c \<in> set s. \<not> is_space c"
  shows "js_trim s = s"
proof -
  have "dropWhile is_space s = s" and "dropWhile is_space (rev s) = rev s"
    using assms by (cases s, auto) (metis assms(2) dropWhile_eq_self_iff hd_in_set set_rev)
  then show ?thesis by (simp add: js_trim_def js_trimEnd_def js_trimStart_def)
qed

lemma js_number_int_str: "js_number (int_str i) = Some (of_int i)"
proof -
  have sp: "\<forall>c \<in> set (int_str i). \<not> is_space c"
    by (auto simp: int_str_def is_space_def Let_def dest: nat_str_chars split: if_splits)
  have ne: "int_str i \<noteq> []" by (simp add: int_str_def)
  have trim: "js_trim (int_str i) = int_str i" by (rule js_trim_id [OF ne sp])
  have dig: "c \<in> set (nat_str n) \<Longrightarrow> of_char c \<in> {48..(57::nat)}" for c n
    by (rule nat_str_chars)
  have no2: "take 2 (nat_str n) \<noteq> [c, d]" if "of_char d > (57::nat)" for n c d
    using dig [of d n] that by (metis atLeastAtMost_iff in_set_takeD leD list.set_intros(1,2))
  have hd: "hd (nat_str n) \<noteq> CHR ''-''" "hd (nat_str n) \<noteq> CHR ''+''" for n
    using dig [OF hd_in_set [OF nat_str_nonempty], of n] by auto
  have minus2: "take 2 (CHR ''-'' # s) \<noteq> [CHR ''0'', c]" for s c by (cases s) auto
  show ?thesis
    by (simp add: js_number_def trim ne) (simp add: int_str_def no2 hd minus2 read_decimal_nat_str)
qed

end
