(* ===== verification/SharedRateLimit.thy ===== *)
theory SharedRateLimit
  imports StateStore JsText
begin

text \<open>
  The fleet-wide limiter, \<open>klanker-gate/packages/governance/src/shared_rate_limit.ts\<close>: windows
  addressed by their start time in the shared state store. Every operation takes the store's
  operations as an argument, as the class takes a \<open>StateStore\<close>; the lemmas are proved once from
  the store's contract and hold of the in-memory store by its interpretation.
\<close>

datatype shared_verdict = Admitted | Limited | Unavailable

record shared_window =
  sh_scope :: string
  sh_id :: string
  sh_max :: int
  sh_windowMs :: int
  sh_amount :: "int option"

definition RATE_PREFIX :: string where
  "RATE_PREFIX = ''ratelimit''"

definition windowStart :: "int \<Rightarrow> int \<Rightarrow> int" where
  "windowStart now windowMs = (now div windowMs) * windowMs"

definition shared_keyFor :: "shared_window \<Rightarrow> int \<Rightarrow> state_key" where
  "shared_keyFor w now =
     [KStr RATE_PREFIX, KStr (sh_scope w), KStr (sh_id w),
      KStr (int_str (windowStart now (sh_windowMs w)))]"

definition shared_limit :: "shared_window \<Rightarrow> int \<Rightarrow> count_limit" where
  "shared_limit w now =
     \<lparr>cl_key = shared_keyFor w now, cl_max = sh_max w,
      cl_amount = Some (case sh_amount w of None \<Rightarrow> 1 | Some a \<Rightarrow> a)\<rparr>"

definition shared_admit ::
    "('s, 'v) store_ops \<Rightarrow> 's \<Rightarrow> shared_window \<Rightarrow> int \<Rightarrow> 's \<times> shared_verdict" where
  "shared_admit ops s w now =
     (let (s', v) = so_reserveCounts ops s [shared_limit w now]
      in (s', case v of Reserved \<Rightarrow> Admitted | Exhausted \<Rightarrow> Limited | Conflict \<Rightarrow> Unavailable))"

definition shared_retryAfterMs :: "int \<Rightarrow> int \<Rightarrow> int" where
  "shared_retryAfterMs windowMs now = max 0 (windowStart now windowMs + windowMs - now)"

text \<open>\<open>Number(entry.key[entry.key.length - 1])\<close>, finite or not.\<close>

definition last_part_number :: "state_key \<Rightarrow> rat option" where
  "last_part_number key =
     (case rev key of [] \<Rightarrow> None | KNum n # _ \<Rightarrow> Some (of_int n) | KStr t # _ \<Rightarrow> js_number t)"

definition prunable :: "int \<Rightarrow> int \<Rightarrow> state_key \<Rightarrow> bool" where
  "prunable now graceMs key =
     (case last_part_number key of None \<Rightarrow> False | Some start \<Rightarrow> \<not> start \<ge> of_int (now - graceMs))"

fun prune_loop ::
    "('s, 'v) store_ops \<Rightarrow> int \<Rightarrow> int \<Rightarrow> 's \<Rightarrow> nat \<Rightarrow> (state_key \<times> int) list \<Rightarrow> 's \<times> nat" where
  "prune_loop ops now graceMs s removed [] = (s, removed)"
| "prune_loop ops now graceMs s removed (e # es) =
     (if prunable now graceMs (fst e)
      then prune_loop ops now graceMs (so_deleteCount ops s (fst e)) (Suc removed) es
      else prune_loop ops now graceMs s removed es)"

definition pruneRateWindows ::
    "('s, 'v) store_ops \<Rightarrow> 's \<Rightarrow> int \<Rightarrow> int \<Rightarrow> 's \<times> nat" where
  "pruneRateWindows ops s now graceMs =
     prune_loop ops now graceMs s 0 (so_listCounts ops s [KStr RATE_PREFIX])"

section \<open>Windows\<close>

lemma windowStart_le:
  assumes "0 < W"
  shows "windowStart now W \<le> now" and "now < windowStart now W + W"
  using assms by (simp_all add: windowStart_def minus_mod_eq_div_mult [symmetric] pos_mod_sign)

lemma windowStart_eq_iff:
  assumes "0 < W"
  shows "windowStart t W = windowStart now W \<longleftrightarrow>
    windowStart now W \<le> t \<and> t < windowStart now W + W"
proof
  assume "windowStart t W = windowStart now W"
  then show "windowStart now W \<le> t \<and> t < windowStart now W + W"
    using windowStart_le [OF assms, of t] by simp
next
  assume t: "windowStart now W \<le> t \<and> t < windowStart now W + W"
  have "t div W = now div W"
  proof (rule int_div_pos_eq [where r = "t - windowStart now W"])
    show "t = W * (now div W) + (t - windowStart now W)" by (simp add: windowStart_def)
  qed (use t assms in auto)
  then show "windowStart t W = windowStart now W" by (simp add: windowStart_def)
qed

section \<open>The fleet: any interleaving of admissions\<close>

text \<open>
  The workers of a fleet call \<open>admit\<close> in some order; each call is one atomic store operation,
  so a run is the sequence of calls.
\<close>

fun fleet_run ::
    "('s, 'v) store_ops \<Rightarrow> 's \<Rightarrow> (shared_window \<times> int) list \<Rightarrow> 's \<times> shared_verdict list" where
  "fleet_run ops s [] = (s, [])"
| "fleet_run ops s ((w, now) # calls) =
     (let (s', v) = shared_admit ops s w now; (s'', vs) = fleet_run ops s' calls in (s'', v # vs))"

fun units :: "(shared_window \<times> int) list \<Rightarrow> shared_verdict list \<Rightarrow> state_key \<Rightarrow> int" where
  "units ((w, now) # calls) (v # vs) key =
     (if v = Admitted \<and> keyId (shared_keyFor w now) = keyId key
      then limit_amount (shared_limit w now) else 0) + units calls vs key"
| "units calls vs key = 0"

context counter_store
begin

lemma admit_count:
  assumes "shared_admit ops s w now = (s', v)"
  shows "so_getCount ops s' key = so_getCount ops s key +
    (if v = Admitted \<and> keyId (shared_keyFor w now) = keyId key
     then limit_amount (shared_limit w now) else 0)"
proof -
  obtain r where r: "so_reserveCounts ops s [shared_limit w now] = (s', r)"
    and v: "v = (case r of Reserved \<Rightarrow> Admitted | Exhausted \<Rightarrow> Limited | Conflict \<Rightarrow> Unavailable)"
    using assms by (auto simp: shared_admit_def split: prod.splits)
  have lk: "cl_key (shared_limit w now) = shared_keyFor w now" by (simp add: shared_limit_def)
  show ?thesis
  proof (cases "r = Reserved")
    case True
    with r v reserve_adds [of s "[shared_limit w now]" s' key] lk show ?thesis by simp
  next
    case False
    then have "v \<noteq> Admitted" using v by (cases r) auto
    with reserve_denied [OF r False] show ?thesis by simp
  qed
qed

lemma admit_fits:
  assumes "shared_admit ops s w now = (s', Admitted)"
  shows "so_getCount ops s (shared_keyFor w now) + limit_amount (shared_limit w now) \<le> sh_max w"
proof -
  have "so_reserveCounts ops s [shared_limit w now] = (s', Reserved)"
    using assms by (auto simp: shared_admit_def split: prod.splits reserve_verdict.splits)
  from reserve_fits [OF this, of "shared_limit w now"] show ?thesis by (simp add: shared_limit_def)
qed

lemma fleet_count:
  "fleet_run ops s calls = (s', vs) \<Longrightarrow>
    so_getCount ops s' key = so_getCount ops s key + units calls vs key"
proof (induction calls arbitrary: s vs)
  case (Cons c calls)
  obtain w now where c: "c = (w, now)" by fastforce
  obtain s1 v where a: "shared_admit ops s w now = (s1, v)" by fastforce
  obtain us where "fleet_run ops s1 calls = (s', us)" and "vs = v # us"
    using Cons.prems a c by (auto split: prod.splits)
  with Cons.IH [of s1 us] admit_count [OF a, of key] c show ?case by simp
qed simp

lemma fleet_bound:
  assumes "fleet_run ops s calls = (s', vs)" and "so_getCount ops s key \<le> M"
    and "\<forall>(w, now) \<in> set calls. keyId (shared_keyFor w now) = keyId key \<longrightarrow> sh_max w \<le> M"
  shows "so_getCount ops s' key \<le> M"
  using assms
proof (induction calls arbitrary: s vs)
  case (Cons c calls)
  obtain w now where c: "c = (w, now)" by fastforce
  obtain s1 v where a: "shared_admit ops s w now = (s1, v)" by fastforce
  obtain us where r: "fleet_run ops s1 calls = (s', us)"
    using Cons.prems(1) a c by (auto split: prod.splits)
  have "so_getCount ops s1 key \<le> M"
  proof (cases "v = Admitted \<and> keyId (shared_keyFor w now) = keyId key")
    case True
    then have k: "keyId (shared_keyFor w now) = keyId key" and v: "v = Admitted" by auto
    have "sh_max w \<le> M" using Cons.prems(3) c k by simp
    moreover have "so_getCount ops s key + limit_amount (shared_limit w now) \<le> sh_max w"
      using admit_fits [of s w now s1] a v count_key [OF k, of s] by simp
    ultimately show ?thesis using admit_count [OF a, of key] k v by simp
  next
    case False
    with admit_count [OF a, of key] Cons.prems(2) show ?thesis by simp
  qed
  with Cons.IH [OF r] Cons.prems(3) show ?case by simp
qed simp

lemma prune_loop_count:
  "prune_loop ops now g s n es = (s', n') \<Longrightarrow>
    so_getCount ops s' key =
      (if \<exists>e \<in> set es. prunable now g (fst e) \<and> keyId (fst e) = keyId key then 0
       else so_getCount ops s key) \<and>
    n' = n + length (filter (\<lambda>e. prunable now g (fst e)) es)"
proof (induction es arbitrary: s n)
  case (Cons e es)
  show ?case
  proof (cases "prunable now g (fst e)")
    case True
    with Cons.prems have r: "prune_loop ops now g (so_deleteCount ops s (fst e)) (Suc n) es = (s', n')"
      by simp
    show ?thesis using Cons.IH [OF r] True by (auto simp: delete_clears)
  next
    case False
    with Cons.prems have r: "prune_loop ops now g s n es = (s', n')" by simp
    show ?thesis using Cons.IH [OF r] False by auto
  qed
qed simp

end

section \<open>What the limiter promises\<close>

text \<open>C7: Fleet-wide bound. Workers of a fleet that share one store admit in any order; each admission is one
  atomic operation of the store. For every store that keeps the counter contract (a reservation adds what it
  asks or nothing, and is granted only within its limits; the in-memory store does, by its interpretation),
  for every window and whatever its counter holds at first: the counter grows by exactly the admitted
  units; it is never taken above the limit when it was not above it before; and on a fresh window the sum of
  the admitted units is at most the limit.\<close>

theorem fleet_window_bound:
  assumes "counter_store ops" and "fleet_run ops s calls = (s', vs)"
    and "\<forall>(w, now) \<in> set calls. keyId (shared_keyFor w now) = keyId key \<longrightarrow> sh_max w \<le> M"
  shows "so_getCount ops s' key = so_getCount ops s key + units calls vs key \<and>
    (so_getCount ops s key \<le> M \<longrightarrow> so_getCount ops s' key \<le> M) \<and>
    (so_getCount ops s key = 0 \<and> 0 \<le> M \<longrightarrow> units calls vs key \<le> M)"
  using counter_store.fleet_bound [OF assms(1,2), of key M] counter_store.fleet_count [OF assms(1,2), of key] assms(3)
  by auto

theorem fleet_window_bound_witness:
  "let w = \<lparr>sh_scope = ''requests'', sh_id = ''k'', sh_max = 1, sh_windowMs = 10, sh_amount = None\<rparr>;
       r = fleet_run mem_ops (mem_empty :: int mem_store) [(w, 3), (w, 9)]
   in units [(w, 3), (w, 9)] (snd r) (shared_keyFor w 3) \<le> 1"
  using fleet_window_bound [where s = "mem_empty :: int mem_store" and M = 1
      and calls = "[(\<lparr>sh_scope = ''requests'', sh_id = ''k'', sh_max = 1, sh_windowMs = 10, sh_amount = None\<rparr>, 3),
        (\<lparr>sh_scope = ''requests'', sh_id = ''k'', sh_max = 1, sh_windowMs = 10, sh_amount = None\<rparr>, 9)]",
      OF mem.counter_store_axioms prod.collapse [symmetric]]
  by (simp add: mem_getCount_def mem_count_def mem_empty_def)

text \<open>Every worker computes the same counter key from the same clock: two instants share a
  window exactly when one lies within the window of the other, the current instant always lies
  in its window, and Retry-After is the positive time to the window's end, at most its length.\<close>

theorem window_addressing:
  assumes "0 < sh_windowMs w"
  shows "(shared_keyFor w t = shared_keyFor w now \<longleftrightarrow>
      windowStart now (sh_windowMs w) \<le> t \<and> t < windowStart now (sh_windowMs w) + sh_windowMs w)
    \<and> windowStart now (sh_windowMs w) \<le> now
    \<and> 0 < shared_retryAfterMs (sh_windowMs w) now
    \<and> shared_retryAfterMs (sh_windowMs w) now \<le> sh_windowMs w
    \<and> shared_keyFor w (now + shared_retryAfterMs (sh_windowMs w) now) \<noteq> shared_keyFor w now"
proof -
  have key: "shared_keyFor w a = shared_keyFor w b \<longleftrightarrow>
      windowStart a (sh_windowMs w) = windowStart b (sh_windowMs w)" for a b
    by (auto simp: shared_keyFor_def dest: int_str_inj)
  show ?thesis
    using windowStart_le [OF assms, of now]
    by (simp add: key windowStart_eq_iff [OF assms] shared_retryAfterMs_def)
qed

theorem window_addressing_witness:
  "shared_keyFor \<lparr>sh_scope = ''requests'', sh_id = ''k'', sh_max = 1, sh_windowMs = 10, sh_amount = None\<rparr> 13 =
   shared_keyFor \<lparr>sh_scope = ''requests'', sh_id = ''k'', sh_max = 1, sh_windowMs = 10, sh_amount = None\<rparr> 17"
  using window_addressing [where t = 13 and now = 17 and
      w = "\<lparr>sh_scope = ''requests'', sh_id = ''k'', sh_max = 1, sh_windowMs = 10, sh_amount = None\<rparr>"]
  by (simp add: windowStart_def)

section \<open>Pruning\<close>

lemma last_part_number_str:
  "key \<noteq> [] \<Longrightarrow> last_part_number key = js_number (part_str (last key))"
proof (cases key rule: rev_cases)
  case (snoc ys y)
  then show ?thesis
    by (cases y) (auto simp: last_part_number_def js_number_int_str)
qed simp

lemma prunable_key:
  assumes "sep_free a" and "sep_free b" and "keyId a = keyId b"
  shows "prunable now g a = prunable now g b"
proof -
  have "map part_str a = map part_str b" using assms by (simp add: keyId_eq_iff)
  then have "part_str (last a) = part_str (last b)"
    using assms by (metis last_map map_is_Nil_conv sep_free_def)
  then show ?thesis
    using assms by (simp add: prunable_def last_part_number_str sep_free_def)
qed

lemma sep_free_shared_keyFor:
  "key_sep \<notin> set (sh_scope w) \<Longrightarrow> key_sep \<notin> set (sh_id w) \<Longrightarrow> sep_free (shared_keyFor w t)"
  by (simp add: sep_free_def shared_keyFor_def RATE_PREFIX_def sep_not_digit)

lemma prunable_window:
  "prunable now g (shared_keyFor w t) \<longleftrightarrow> windowStart t (sh_windowMs w) < now - g"
  by (simp add: prunable_def last_part_number_def shared_keyFor_def js_number_int_str not_le
      flip: of_int_diff)

text \<open>Pruning never touches a live window: a counter whose window starts at or after
  \<open>now - graceMs\<close> keeps its count, and an older listed window is gone (its count reads 0). The
  returned number is the number of listed windows that were older.\<close>

theorem prune_keeps_live_windows:
  assumes "pruneRateWindows mem_ops s now g = (s', n)" and "sep_free (shared_keyFor w t)"
    and "\<forall>row \<in> set (mem_listCounts s [KStr RATE_PREFIX]). sep_free (fst row)"
  shows "(windowStart t (sh_windowMs w) \<ge> now - g \<longrightarrow>
      mem_getCount s' (shared_keyFor w t) = mem_getCount s (shared_keyFor w t))
    \<and> (windowStart t (sh_windowMs w) < now - g \<and>
        shared_keyFor w t \<in> fst ` set (mem_listCounts s [KStr RATE_PREFIX]) \<longrightarrow>
      mem_getCount s' (shared_keyFor w t) = 0)
    \<and> n = length (filter (\<lambda>row. prunable now g (fst row)) (mem_listCounts s [KStr RATE_PREFIX]))"
proof -
  let ?rows = "mem_listCounts s [KStr RATE_PREFIX]" and ?key = "shared_keyFor w t"
  have "mem_getCount s' ?key =
      (if \<exists>e \<in> set ?rows. prunable now g (fst e) \<and> keyId (fst e) = keyId ?key then 0
       else mem_getCount s ?key) \<and> n = length (filter (\<lambda>e. prunable now g (fst e)) ?rows)"
    using mem.prune_loop_count [of now g s 0 ?rows s' n ?key] assms(1)
    by (simp add: pruneRateWindows_def cong: if_cong)
  moreover have "prunable now g (fst e) \<longleftrightarrow> windowStart t (sh_windowMs w) < now - g"
    if "e \<in> set ?rows" "keyId (fst e) = keyId ?key" for e
    using prunable_key [OF _ assms(2) that(2)] that(1) assms(3) prunable_window by simp
  ultimately show ?thesis by force
qed

theorem prune_keeps_live_windows_witness:
  "let w = \<lparr>sh_scope = ''requests'', sh_id = ''k'', sh_max = 5, sh_windowMs = 10, sh_amount = None\<rparr>;
       s = fst (shared_admit mem_ops (mem_empty :: int mem_store) w 42)
   in mem_getCount (fst (pruneRateWindows mem_ops s 45 20)) (shared_keyFor w 42) = 1"
proof -
  let ?w = "\<lparr>sh_scope = ''requests'', sh_id = ''k'', sh_max = 5, sh_windowMs = 10, sh_amount = None\<rparr>"
  let ?s = "fst (shared_admit mem_ops (mem_empty :: int mem_store) ?w 42)"
  have free: "sep_free (shared_keyFor ?w 42)"
    by (simp add: sep_free_shared_keyFor)
  have s: "?s = mem_sum mem_empty (shared_keyFor ?w 42) 1"
    by (simp add: shared_admit_def mem_reserveCounts_def shared_limit_def
        limit_amount_def)
  have rows: "mem_listCounts ?s p = filter (\<lambda>r. hasPrefix (fst r) p) [(shared_keyFor ?w 42, 1)]" for p
    unfolding s by (simp add: mem_listCounts_def mem_sum_def mem_empty_def mem_count_def sort_by_def)
  have "mem_getCount (fst (pruneRateWindows mem_ops ?s 45 20)) (shared_keyFor ?w 42) =
      mem_getCount ?s (shared_keyFor ?w 42)"
    using prune_keeps_live_windows [OF prod.collapse [symmetric] free, of ?s 45 20] free
    by (simp add: rows windowStart_def)
  then show ?thesis
    unfolding Let_def s by simp
qed

end
