(* ===== verification/BudgetEpochs.thy ===== *)
theory BudgetEpochs
  imports StateStore
begin

text \<open>
  Resettable budgets, \<open>klanker-gate/packages/governance/src/budget_epochs.ts\<close>: the schedule of
  a budget (its anchor and current period), the scheduled request and cost counters, kept either
  in the state store or in the process, and the admission decision. The operations of the
  optional store are an argument. Lemmas: the period of an instant, isolation of the counters of
  different periods, the admission decision, and the equivalence of the two backends.
\<close>

section \<open>Data\<close>

definition MIN_BUDGET_RESET_INTERVAL_MS :: int where
  "MIN_BUDGET_RESET_INTERVAL_MS = 60000"

definition MAX_BUDGET_RESET_INTERVAL_MS :: int where
  "MAX_BUDGET_RESET_INTERVAL_MS = 31622400000"

datatype budget_kind = VirtualKeyKind | TeamKind | CustomerKind

datatype budget_dimension = Requests | CostMicroUsd

record budget =
  bg_maxRequests :: "int option"
  bg_maxCostUsd :: "rat option"
  bg_resetIntervalMs :: "int option"

record budget_subject =
  bs_kind :: budget_kind
  bs_id :: string
  bs_name :: string
  bs_budget :: "budget option"

record scheduled_budget =
  sb_kind :: budget_kind
  sb_id :: string
  sb_name :: string
  sb_budget :: budget
  sb_interval :: int
  sb_periodStartMs :: int

record denial =
  dn_status :: int
  dn_code :: string
  dn_message :: string

fun kind_str :: "budget_kind \<Rightarrow> string" where
  "kind_str VirtualKeyKind = ''virtual-key''"
| "kind_str TeamKind = ''team''"
| "kind_str CustomerKind = ''customer''"

fun dim_str :: "budget_dimension \<Rightarrow> string" where
  "dim_str Requests = ''requests''"
| "dim_str CostMicroUsd = ''cost-micro-usd''"

section \<open>Keys, codes, messages\<close>

definition anchorKey :: "budget_kind \<Rightarrow> string \<Rightarrow> state_key" where
  "anchorKey kind i =
     [KStr ''governance'', KStr ''budget-v2'', KStr ''anchor'', KStr (kind_str kind), KStr i]"

definition counterKey :: "scheduled_budget \<Rightarrow> budget_dimension \<Rightarrow> state_key" where
  "counterKey sch dm =
     [KStr ''governance'', KStr ''budget-v2'', KStr ''counter'', KStr (kind_str (sb_kind sch)),
      KStr (sb_id sch), KNum (sb_periodStartMs sch), KStr (dim_str dm)]"

definition anchorId :: "budget_kind \<Rightarrow> string \<Rightarrow> string" where
  "anchorId kind i = ''anchor:'' @ kind_str kind @ '':'' @ i"

definition counterId :: "scheduled_budget \<Rightarrow> budget_dimension \<Rightarrow> string" where
  "counterId sch dm =
     kind_str (sb_kind sch) @ '':'' @ sb_id sch @ '':'' @ int_str (sb_periodStartMs sch) @
     '':'' @ dim_str dm"

definition epoch_code :: "budget_kind \<Rightarrow> budget_dimension \<Rightarrow> string" where
  "epoch_code kind sfx =
     (if kind = VirtualKeyKind
      then (if sfx = CostMicroUsd then ''cost_budget_exhausted'' else ''budget_exhausted'')
      else (if sfx = CostMicroUsd then kind_str kind @ ''_cost_budget_exhausted''
            else kind_str kind @ ''_budget_exhausted''))"

definition epoch_message :: "budget_kind \<Rightarrow> string \<Rightarrow> budget_dimension \<Rightarrow> string" where
  "epoch_message kind name dm =
     (case kind of VirtualKeyKind \<Rightarrow> ''Virtual key'' | TeamKind \<Rightarrow> ''Team'' | CustomerKind \<Rightarrow> ''Customer'')
     @ '' \"'' @ name @ ''\" has exhausted its '' @
     (case dm of Requests \<Rightarrow> ''request'' | CostMicroUsd \<Rightarrow> ''cost'') @ '' budget.''"

definition usd_to_micro :: "rat \<Rightarrow> int" where
  "usd_to_micro usd = js_round (usd * 1000000)"

section \<open>The store of epochs\<close>

record 's epoch_state =
  ep_anchors :: "(string, int) jmap"
  ep_store :: "'s option"

definition ep_configure ::
    "('s, int) store_ops \<Rightarrow> 's epoch_state \<Rightarrow> budget_kind \<Rightarrow> string \<Rightarrow> budget option \<Rightarrow>
     budget option \<Rightarrow> int \<Rightarrow> 's epoch_state" where
  "ep_configure ops st kind i previous next_budget now =
     (let before = Option.bind previous bg_resetIntervalMs;
          after = Option.bind next_budget bg_resetIntervalMs
      in if after = None \<or> before = after then st
         else let st1 = st\<lparr>ep_anchors := jm_set (ep_anchors st) (anchorId kind i) now\<rparr>
              in (case ep_store st1 of
                    None \<Rightarrow> st1
                  | Some s \<Rightarrow> st1\<lparr>ep_store := Some (so_set ops s (anchorKey kind i) now)\<rparr>))"

definition ep_anchorFor ::
    "('s, int) store_ops \<Rightarrow> 's epoch_state \<Rightarrow> budget_kind \<Rightarrow> string \<Rightarrow> int \<Rightarrow> 's epoch_state \<times> int" where
  "ep_anchorFor ops st kind i now =
     (case jm_get (ep_anchors st) (anchorId kind i) of
        Some local \<Rightarrow> (st, local)
      | None \<Rightarrow>
          (case ep_store st of
             None \<Rightarrow> (st\<lparr>ep_anchors := jm_set (ep_anchors st) (anchorId kind i) now\<rparr>, now)
           | Some s \<Rightarrow>
               (let (s', anchor) = so_getOrSet ops s (anchorKey kind i) now
                in (st\<lparr>ep_anchors := jm_set (ep_anchors st) (anchorId kind i) anchor,
                       ep_store := Some s'\<rparr>, anchor))))"

definition period_start :: "int \<Rightarrow> int \<Rightarrow> int \<Rightarrow> int" where
  "period_start anchor interval instant = anchor + ((instant - anchor) div interval) * interval"

fun ep_schedules ::
    "('s, int) store_ops \<Rightarrow> 's epoch_state \<Rightarrow> budget_subject list \<Rightarrow> int \<Rightarrow>
     's epoch_state \<times> scheduled_budget list" where
  "ep_schedules ops st [] instant = (st, [])"
| "ep_schedules ops st (subj # subjects) instant =
     (case bs_budget subj of
        None \<Rightarrow> ep_schedules ops st subjects instant
      | Some b \<Rightarrow>
          (case bg_resetIntervalMs b of
             None \<Rightarrow> ep_schedules ops st subjects instant
           | Some interval \<Rightarrow>
               (let (st1, anchor) = ep_anchorFor ops st (bs_kind subj) (bs_id subj) instant;
                    (st2, rest) = ep_schedules ops st1 subjects instant
                in (st2, \<lparr>sb_kind = bs_kind subj, sb_id = bs_id subj, sb_name = bs_name subj,
                          sb_budget = b, sb_interval = interval,
                          sb_periodStartMs = period_start anchor interval instant\<rparr> # rest))))"

definition ep_memoryCount :: "'s epoch_state \<Rightarrow> scheduled_budget \<Rightarrow> budget_dimension \<Rightarrow> int" where
  "ep_memoryCount st sch dm =
     (case jm_get (ep_anchors st) (counterId sch dm) of None \<Rightarrow> 0 | Some n \<Rightarrow> n)"

definition ep_count ::
    "('s, int) store_ops \<Rightarrow> 's epoch_state \<Rightarrow> scheduled_budget \<Rightarrow> budget_dimension \<Rightarrow> int" where
  "ep_count ops st sch dm =
     (case ep_store st of
        Some s \<Rightarrow> so_getCount ops s (counterKey sch dm)
      | None \<Rightarrow> ep_memoryCount st sch dm)"

definition ep_bump :: "'s epoch_state \<Rightarrow> string \<Rightarrow> int \<Rightarrow> 's epoch_state" where
  "ep_bump st i d =
     st\<lparr>ep_anchors := jm_set (ep_anchors st) i
        ((case jm_get (ep_anchors st) i of None \<Rightarrow> 0 | Some n \<Rightarrow> n) + d)\<rparr>"

definition ep_reserveInMemory ::
    "'s epoch_state \<Rightarrow> (scheduled_budget \<times> int) list \<Rightarrow> 's epoch_state \<times> reserve_verdict" where
  "ep_reserveInMemory st limits =
     (if list_ex (\<lambda>(sch, m). ep_memoryCount st sch Requests \<ge> m) limits then (st, Exhausted)
      else (foldl (\<lambda>s (sch, m). ep_bump s (counterId sch Requests) 1) st limits, Reserved))"

definition request_limits :: "scheduled_budget list \<Rightarrow> (scheduled_budget \<times> int) list" where
  "request_limits schedules =
     concat (map (\<lambda>sch. case bg_maxRequests (sb_budget sch) of None \<Rightarrow> [] | Some m \<Rightarrow> [(sch, m)]) schedules)"

definition ep_reserve ::
    "('s, int) store_ops \<Rightarrow> 's epoch_state \<Rightarrow> (scheduled_budget \<times> int) list \<Rightarrow>
     's epoch_state \<times> reserve_verdict" where
  "ep_reserve ops st limits =
     (case ep_store st of
        Some s \<Rightarrow>
          (let (s', v) = so_reserveCounts ops s
             (map (\<lambda>(sch, m). \<lparr>cl_key = counterKey sch Requests, cl_max = m, cl_amount = None\<rparr>) limits)
           in (st\<lparr>ep_store := Some s'\<rparr>, v))
      | None \<Rightarrow> ep_reserveInMemory st limits)"

definition cost_exhausted :: "('s, int) store_ops \<Rightarrow> 's epoch_state \<Rightarrow> scheduled_budget \<Rightarrow> bool" where
  "cost_exhausted ops st sch =
     (case bg_maxCostUsd (sb_budget sch) of
        None \<Rightarrow> False
      | Some usd \<Rightarrow> ep_count ops st sch CostMicroUsd \<ge> usd_to_micro usd)"

definition exhausted_denial :: "scheduled_budget \<Rightarrow> budget_dimension \<Rightarrow> denial" where
  "exhausted_denial sch dm =
     \<lparr>dn_status = 402, dn_code = epoch_code (sb_kind sch) dm,
      dn_message = epoch_message (sb_kind sch) (sb_name sch) dm\<rparr>"

definition reservation_unavailable :: denial where
  "reservation_unavailable =
     \<lparr>dn_status = 503, dn_code = ''budget_reservation_unavailable'',
      dn_message = ''Budget reservation is temporarily unavailable.''\<rparr>"

definition ep_admit ::
    "('s, int) store_ops \<Rightarrow> 's epoch_state \<Rightarrow> budget_subject list \<Rightarrow> int \<Rightarrow>
     's epoch_state \<times> (denial + scheduled_budget list)" where
  "ep_admit ops st subjects now =
     (let (st1, schedules) = ep_schedules ops st subjects now
      in case find (cost_exhausted ops st1) schedules of
           Some sch \<Rightarrow> (st1, Inl (exhausted_denial sch CostMicroUsd))
         | None \<Rightarrow>
             (let limits = request_limits schedules
              in if limits = [] then (st1, Inr schedules)
                 else let (st2, v) = ep_reserve ops st1 limits
                      in case v of
                           Reserved \<Rightarrow> (st2, Inr schedules)
                         | Conflict \<Rightarrow> (st2, Inl reservation_unavailable)
                         | Exhausted \<Rightarrow>
                             (st2, Inl (exhausted_denial
                               (case find (\<lambda>(sch, m). ep_count ops st2 sch Requests \<ge> m) limits of
                                  Some (sch, _) \<Rightarrow> sch
                                | None \<Rightarrow> fst (hd limits)) Requests))))"

definition ep_recordCost ::
    "('s, int) store_ops \<Rightarrow> 's epoch_state \<Rightarrow> scheduled_budget \<Rightarrow> int \<Rightarrow> 's epoch_state" where
  "ep_recordCost ops st sch microUsd =
     (if microUsd \<le> 0 then st
      else case ep_store st of
             Some s \<Rightarrow> st\<lparr>ep_store := Some (so_sum ops s (counterKey sch CostMicroUsd) microUsd)\<rparr>
           | None \<Rightarrow> ep_bump st (counterId sch CostMicroUsd) microUsd)"

section \<open>Isolation of the counters\<close>

lemma kind_str_inj [simp]: "kind_str a = kind_str b \<longleftrightarrow> a = b"
  by (cases a; cases b) auto

lemma dim_str_inj [simp]: "dim_str a = dim_str b \<longleftrightarrow> a = b"
  by (cases a; cases b) auto

lemma kind_no_colon: "CHR '':'' \<notin> set (kind_str k)"
  by (cases k) auto

lemma dim_no_colon: "CHR '':'' \<notin> set (dim_str d)"
  by (cases d) auto

lemma int_no_colon: "CHR '':'' \<notin> set (int_str n)"
  using int_str_chars [of "CHR '':''" n] by auto

text \<open>The four coordinates of a scheduled counter.\<close>

definition slot :: "scheduled_budget \<Rightarrow> budget_dimension \<Rightarrow> budget_kind \<times> string \<times> int \<times> budget_dimension" where
  "slot sch dm = (sb_kind sch, sb_id sch, sb_periodStartMs sch, dm)"

lemma counterId_inj: "counterId a da = counterId b db \<longleftrightarrow> slot a da = slot b db"
proof
  assume eq: "counterId a da = counterId b db"
  have split: "counterId x d =
      kind_str (sb_kind x) @ CHR '':'' # (sb_id x @ CHR '':'' # int_str (sb_periodStartMs x)) @
        CHR '':'' # dim_str d" for x d
    by (simp add: counterId_def)
  from eq have kind: "kind_str (sb_kind a) = kind_str (sb_kind b)"
    and rest: "(sb_id a @ CHR '':'' # int_str (sb_periodStartMs a)) @ CHR '':'' # dim_str da =
      (sb_id b @ CHR '':'' # int_str (sb_periodStartMs b)) @ CHR '':'' # dim_str db"
    using cut_first [OF eq [unfolded split] kind_no_colon kind_no_colon] by auto
  from cut_last [OF rest dim_no_colon dim_no_colon]
  have mid: "sb_id a @ CHR '':'' # int_str (sb_periodStartMs a) =
      sb_id b @ CHR '':'' # int_str (sb_periodStartMs b)" and d: "da = db"
    by auto
  from cut_last [OF mid int_no_colon int_no_colon] kind d
  show "slot a da = slot b db" by (auto simp: slot_def dest: int_str_inj)
qed (simp add: slot_def counterId_def)

lemma anchorId_inj: "anchorId k i = anchorId k' i' \<longleftrightarrow> k = k' \<and> i = i'"
  using cut_first [of "kind_str k" "CHR '':''" i "kind_str k'" i'] kind_no_colon
  by (auto simp: anchorId_def)

lemma anchorId_not_counterId: "anchorId k i \<noteq> counterId sch dm"
proof
  assume "anchorId k i = counterId sch dm"
  then have "''anchor'' @ CHR '':'' # kind_str k @ '':'' @ i =
      kind_str (sb_kind sch) @ CHR '':'' # sb_id sch @ '':'' @ int_str (sb_periodStartMs sch) @
        '':'' @ dim_str dm"
    by (simp add: anchorId_def counterId_def)
  from cut_first [OF this _ kind_no_colon] have "''anchor'' = kind_str (sb_kind sch)" by auto
  then show False by (cases "sb_kind sch") auto
qed

lemma sep_free_keys:
  assumes "key_sep \<notin> set i"
  shows "sep_free (anchorKey k i)" and "sb_id sch = i \<Longrightarrow> sep_free (counterKey sch dm)"
proof -
  have "key_sep \<notin> set (kind_str k)" for k by (cases k) auto
  moreover have "key_sep \<notin> set (dim_str dm)" by (cases dm) auto
  ultimately show "sep_free (anchorKey k i)" and "sb_id sch = i \<Longrightarrow> sep_free (counterKey sch dm)"
    using assms by (simp_all add: sep_free_def anchorKey_def counterKey_def sep_not_digit)
qed

lemma counterKey_inj:
  assumes "key_sep \<notin> set (sb_id a)" and "key_sep \<notin> set (sb_id b)"
  shows "keyId (counterKey a da) = keyId (counterKey b db) \<longleftrightarrow> slot a da = slot b db"
  using sep_free_keys(2) [OF assms(1) refl] sep_free_keys(2) [OF assms(2) refl]
  by (auto simp: keyId_eq_iff counterKey_def slot_def dest: int_str_inj)

lemma anchorKey_inj:
  assumes "key_sep \<notin> set i" and "key_sep \<notin> set i'"
  shows "keyId (anchorKey k i) = keyId (anchorKey k' i') \<longleftrightarrow> k = k' \<and> i = i'"
  using sep_free_keys(1) [OF assms(1)] sep_free_keys(1) [OF assms(2)]
  by (auto simp: keyId_eq_iff anchorKey_def)

text \<open>Counters of different budgets, periods or dimensions never share a slot, in the process
  (plain ids) or in the store (ids without the key separator), and no counter slot is an anchor
  slot: a delayed write for one period cannot refill or drain another.\<close>

theorem counter_isolation:
  "(counterId a da = counterId b db \<longleftrightarrow> slot a da = slot b db)
   \<and> anchorId k i \<noteq> counterId a da
   \<and> (key_sep \<notin> set (sb_id a) \<and> key_sep \<notin> set (sb_id b) \<longrightarrow>
        (keyId (counterKey a da) = keyId (counterKey b db) \<longleftrightarrow> slot a da = slot b db))"
  using counterId_inj anchorId_not_counterId counterKey_inj by blast

theorem counter_isolation_witness:
  "counterId \<lparr>sb_kind = TeamKind, sb_id = ''a:1'', sb_name = [], sb_budget = \<lparr>bg_maxRequests = None, bg_maxCostUsd = None, bg_resetIntervalMs = None\<rparr>, sb_interval = 60000,
      sb_periodStartMs = 2\<rparr> Requests \<noteq>
   counterId \<lparr>sb_kind = TeamKind, sb_id = ''a'', sb_name = [], sb_budget = \<lparr>bg_maxRequests = None, bg_maxCostUsd = None, bg_resetIntervalMs = None\<rparr>, sb_interval = 60000,
      sb_periodStartMs = 12\<rparr> Requests"
  by (simp add: counter_isolation [THEN conjunct1] slot_def)

section \<open>Periods\<close>

lemma period_start_law:
  assumes "0 < interval"
  shows "period_start a interval t \<le> t" and "t < period_start a interval t + interval"
    and "interval dvd period_start a interval t - a"
proof -
  have t: "(t - a) div interval * interval = (t - a) - (t - a) mod interval"
    by (simp add: minus_mod_eq_div_mult [symmetric])
  show "period_start a interval t \<le> t" and "t < period_start a interval t + interval"
    using pos_mod_sign [OF assms, of "t - a"] pos_mod_bound [OF assms, of "t - a"]
    by (simp_all add: period_start_def t)
qed (simp add: period_start_def)

lemma anchorFor_get:
  "ep_anchorFor ops st k i now = (st', a) \<Longrightarrow> jm_get (ep_anchors st') (anchorId k i) = Some a"
  by (auto simp: ep_anchorFor_def split: option.splits prod.splits)

lemma anchorFor_keep:
  "ep_anchorFor ops st k i now = (st', a) \<Longrightarrow> jm_get (ep_anchors st) x = Some n \<Longrightarrow>
    jm_get (ep_anchors st') x = Some n"
  by (auto simp: ep_anchorFor_def split: option.splits prod.splits)

lemma schedules_Cons_cases:
  assumes "ep_schedules ops st (s # ss) now = (st', schs)"
  obtains (skip) "Option.bind (bs_budget s) bg_resetIntervalMs = None"
      "ep_schedules ops st ss now = (st', schs)"
  | (dated) b i a st1 rest where "bs_budget s = Some b" "bg_resetIntervalMs b = Some i"
      "ep_anchorFor ops st (bs_kind s) (bs_id s) now = (st1, a)"
      "ep_schedules ops st1 ss now = (st', rest)"
      "schs = \<lparr>sb_kind = bs_kind s, sb_id = bs_id s, sb_name = bs_name s, sb_budget = b,
         sb_interval = i, sb_periodStartMs = period_start a i now\<rparr> # rest"
proof (cases "Option.bind (bs_budget s) bg_resetIntervalMs")
  case None
  with assms skip show thesis by (auto split: option.splits)
next
  case (Some i)
  then obtain b where "bs_budget s = Some b" "bg_resetIntervalMs b = Some i"
    by (auto split: Option.bind_splits)
  with assms dated show thesis by (auto split: prod.splits)
qed

lemma schedules_invariant:
  assumes "ep_schedules ops st subjects now = (st', schs)" and "P st"
    and "\<And>st k i st' a. P st \<Longrightarrow> ep_anchorFor ops st k i now = (st', a) \<Longrightarrow> P st'"
  shows "P st'"
  using assms(1,2)
proof (induction subjects arbitrary: st schs)
  case (Cons s ss)
  from Cons.prems(1) show ?case
    by (cases rule: schedules_Cons_cases) (use Cons assms(3) in blast)+
qed simp

lemma schedules_keep:
  "ep_schedules ops st subjects now = (st', schs) \<Longrightarrow> jm_get (ep_anchors st) x = Some n \<Longrightarrow>
    jm_get (ep_anchors st') x = Some n"
  by (erule schedules_invariant) (auto dest: anchorFor_keep)

text \<open>Every schedule of an admission is the current period of its budget: it is counted in whole
  intervals from the anchor the store now holds for that budget, has begun, and ends after the
  admission's instant. An anchor once set stays.\<close>

theorem schedules_current_period:
  assumes "ep_schedules ops st subjects now = (st', schs)"
    and "\<forall>s \<in> set subjects. \<forall>b i. bs_budget s = Some b \<and> bg_resetIntervalMs b = Some i \<longrightarrow> 0 < i"
    and "sch \<in> set schs"
  shows "(\<exists>anchor. jm_get (ep_anchors st') (anchorId (sb_kind sch) (sb_id sch)) = Some anchor \<and>
        sb_interval sch dvd sb_periodStartMs sch - anchor)
    \<and> sb_periodStartMs sch \<le> now \<and> now < sb_periodStartMs sch + sb_interval sch
    \<and> (\<forall>x n. jm_get (ep_anchors st) x = Some n \<longrightarrow> jm_get (ep_anchors st') x = Some n)"
proof -
  have "(\<exists>anchor. jm_get (ep_anchors st') (anchorId (sb_kind sch) (sb_id sch)) = Some anchor \<and>
        sb_interval sch dvd sb_periodStartMs sch - anchor)
    \<and> sb_periodStartMs sch \<le> now \<and> now < sb_periodStartMs sch + sb_interval sch"
    using assms
  proof (induction subjects arbitrary: st schs)
    case (Cons s ss)
    from Cons.prems(1) show ?case
    proof (cases rule: schedules_Cons_cases)
      case skip
      with Cons show ?thesis by auto
    next
      case (dated b i a st1 rest)
      then have i: "0 < i" using Cons.prems(2) by auto
      have got: "jm_get (ep_anchors st') (anchorId (bs_kind s) (bs_id s)) = Some a"
        using schedules_keep dated(4) anchorFor_get [OF dated(3)] .
      show ?thesis
        using Cons.IH [OF dated(4)] Cons.prems(2,3) dated(5) got
          period_start_law [OF i, where a = a and t = now]
        by auto
    qed
  qed simp
  then show ?thesis using schedules_keep [OF assms(1)] by blast
qed

theorem schedules_current_period_witness:
  "\<exists>st' sch. ep_schedules mem_ops \<lparr>ep_anchors = [(anchorId TeamKind ''t'', 5)], ep_store = None\<rparr>
      [\<lparr>bs_kind = TeamKind, bs_id = ''t'', bs_name = ''T'',
        bs_budget = Some \<lparr>bg_maxRequests = Some 3, bg_maxCostUsd = None, bg_resetIntervalMs = Some 60000\<rparr>\<rparr>]
      130000 = (st', [sch]) \<and> sb_periodStartMs sch \<le> 130000 \<and> 130000 < sb_periodStartMs sch + 60000"
proof -
  let ?st = "\<lparr>ep_anchors = [(anchorId TeamKind ''t'', 5)], ep_store = (None :: int mem_store option)\<rparr>"
  let ?b = "\<lparr>bg_maxRequests = Some 3, bg_maxCostUsd = None, bg_resetIntervalMs = Some 60000\<rparr>"
  let ?s = "\<lparr>bs_kind = TeamKind, bs_id = ''t'', bs_name = ''T'', bs_budget = Some ?b\<rparr>"
  let ?sch = "\<lparr>sb_kind = TeamKind, sb_id = ''t'', sb_name = ''T'', sb_budget = ?b,
      sb_interval = 60000, sb_periodStartMs = period_start 5 60000 130000\<rparr>"
  have r: "ep_schedules mem_ops ?st [?s] 130000 = (?st, [?sch])"
    by (simp add: ep_anchorFor_def)
  show ?thesis using schedules_current_period [OF r, of ?sch] r by auto
qed

section \<open>The admission decision of the in-process backend\<close>

lemma memoryCount_anchor [simp]:
  "ep_memoryCount (st\<lparr>ep_anchors := jm_set (ep_anchors st) (anchorId k i) n\<rparr>) sch dm =
   ep_memoryCount st sch dm"
  by (simp add: ep_memoryCount_def anchorId_not_counterId [symmetric])

lemma anchorFor_memory:
  "ep_store st = None \<Longrightarrow> ep_anchorFor ops st k i now = (st', a) \<Longrightarrow>
    ep_store st' = None \<and> (\<forall>sch dm. ep_memoryCount st' sch dm = ep_memoryCount st sch dm)"
  by (auto simp: ep_anchorFor_def split: option.splits)

lemma schedules_memory:
  assumes "ep_store st = None" and "ep_schedules ops st subjects now = (st', schs)"
  shows "ep_store st' = None \<and> (\<forall>sch dm. ep_memoryCount st' sch dm = ep_memoryCount st sch dm)"
  by (rule schedules_invariant [OF assms(2)]) (use assms(1) in \<open>auto dest: anchorFor_memory\<close>)

lemma bump_count:
  "ep_memoryCount (ep_bump st (counterId x d) n) sch dm =
   ep_memoryCount st sch dm + (if slot x d = slot sch dm then n else 0)"
  by (auto simp: ep_memoryCount_def ep_bump_def simp flip: counterId_inj)

lemma bump_store [simp]: "ep_store (ep_bump st i n) = ep_store st"
  by (simp add: ep_bump_def)

definition takes :: "(scheduled_budget \<times> int) list \<Rightarrow> scheduled_budget \<Rightarrow> budget_dimension \<Rightarrow> int" where
  "takes limits sch dm = int (length (filter (\<lambda>(x, m). slot x Requests = slot sch dm) limits))"

lemma bumps_count:
  "ep_memoryCount (foldl (\<lambda>s (x, m). ep_bump s (counterId x Requests) 1) st limits) sch dm =
   ep_memoryCount st sch dm + takes limits sch dm"
proof (induction limits arbitrary: st)
  case (Cons l limits)
  obtain x m where "l = (x, m)" by fastforce
  with Cons show ?case by (simp add: bump_count takes_def)
qed (simp add: takes_def)

lemma bumps_store [simp]:
  "ep_store (foldl (\<lambda>s (x, m). ep_bump s (counterId x Requests) 1) st limits) = ep_store st"
  by (induction limits arbitrary: st) auto

lemma reserveInMemory_cases:
  assumes "ep_reserveInMemory st limits = (st', v)"
  shows "ep_store st' = ep_store st \<and>
    (v = Reserved \<and> (\<forall>(sch, m) \<in> set limits. ep_memoryCount st sch Requests < m) \<and>
       (\<forall>sch dm. ep_memoryCount st' sch dm = ep_memoryCount st sch dm + takes limits sch dm)
     \<or> v = Exhausted \<and> st' = st)"
  using assms by (auto simp: ep_reserveInMemory_def bumps_count list_ex_iff not_le split: if_splits)

lemma request_limits_iff:
  "(sch, m) \<in> set (request_limits schs) \<longleftrightarrow> sch \<in> set schs \<and> bg_maxRequests (sb_budget sch) = Some m"
  by (force simp: request_limits_def split: option.splits)

text \<open>C8: Admission against resettable budgets, in-process backend: an admitted request found every
  request counter below its maximum and every cost below its budget, and took exactly one unit of
  each limited request counter; a denied one took nothing and answers 402. Cost counters never
  move on admission.\<close>

theorem epoch_admission:
  assumes "ep_store st = None" and "ep_admit ops st subjects now = (st', r)"
  shows "case r of
      Inr schs \<Rightarrow>
        (\<forall>sch \<in> set schs.
           (\<forall>m. bg_maxRequests (sb_budget sch) = Some m \<longrightarrow> ep_memoryCount st sch Requests < m) \<and>
           (\<forall>usd. bg_maxCostUsd (sb_budget sch) = Some usd \<longrightarrow>
              ep_memoryCount st sch CostMicroUsd < usd_to_micro usd)) \<and>
        (\<forall>sch dm. ep_memoryCount st' sch dm =
           ep_memoryCount st sch dm + takes (request_limits schs) sch dm)
    | Inl d \<Rightarrow> dn_status d = 402 \<and>
        (\<forall>sch dm. ep_memoryCount st' sch dm = ep_memoryCount st sch dm)"
proof -
  obtain st1 schs where s: "ep_schedules ops st subjects now = (st1, schs)" by fastforce
  from schedules_memory [OF assms(1) s]
  have st1: "ep_store st1 = None" and same: "\<And>sch dm. ep_memoryCount st1 sch dm = ep_memoryCount st sch dm"
    by auto
  show ?thesis
  proof (cases "find (cost_exhausted ops st1) schs")
    case (Some sch)
    with assms(2) s same show ?thesis by (auto simp: ep_admit_def exhausted_denial_def)
  next
    case None
    then have cost: "\<forall>sch \<in> set schs. \<forall>usd. bg_maxCostUsd (sb_budget sch) = Some usd \<longrightarrow>
        ep_memoryCount st sch CostMicroUsd < usd_to_micro usd"
      by (auto simp: find_None_iff cost_exhausted_def ep_count_def st1 same not_le split: option.splits)
    show ?thesis
    proof (cases "request_limits schs = []")
      case True
      then have "bg_maxRequests (sb_budget sch) = None" if "sch \<in> set schs" for sch
        using request_limits_iff [of sch _ schs] that by (cases "bg_maxRequests (sb_budget sch)") auto
      with True assms(2) s None same cost show ?thesis by (auto simp: ep_admit_def takes_def)
    next
      case False
      obtain st2 v where v: "ep_reserveInMemory st1 (request_limits schs) = (st2, v)" by fastforce
      with st1 have r: "ep_reserve ops st1 (request_limits schs) = (st2, v)" by (simp add: ep_reserve_def)
      from reserveInMemory_cases [OF v] assms(2) s None False same cost r show ?thesis
        by (fastforce simp: ep_admit_def Let_def exhausted_denial_def request_limits_iff)
    qed
  qed
qed

theorem epoch_admission_witness:
  "\<exists>st' sch. ep_admit mem_ops \<lparr>ep_anchors = [], ep_store = None\<rparr>
      [\<lparr>bs_kind = TeamKind, bs_id = ''t'', bs_name = ''T'',
        bs_budget = Some \<lparr>bg_maxRequests = Some 1, bg_maxCostUsd = None, bg_resetIntervalMs = Some 60000\<rparr>\<rparr>]
      7 = (st', Inr [sch]) \<and> ep_memoryCount st' sch Requests = 1"
proof -
  let ?st = "\<lparr>ep_anchors = [], ep_store = (None :: int mem_store option)\<rparr>"
  let ?b = "\<lparr>bg_maxRequests = Some 1, bg_maxCostUsd = None, bg_resetIntervalMs = Some 60000\<rparr>"
  let ?s = "\<lparr>bs_kind = TeamKind, bs_id = ''t'', bs_name = ''T'', bs_budget = Some ?b\<rparr>"
  let ?sch = "\<lparr>sb_kind = TeamKind, sb_id = ''t'', sb_name = ''T'', sb_budget = ?b,
      sb_interval = 60000, sb_periodStartMs = period_start 7 60000 7\<rparr>"
  have ne: "counterId ?sch Requests \<noteq> anchorId TeamKind ''t''"
    using anchorId_not_counterId by metis
  obtain st' where r: "ep_admit mem_ops ?st [?s] 7 = (st', Inr [?sch])"
    using ne by (simp add: ep_admit_def ep_anchorFor_def cost_exhausted_def request_limits_def
        ep_reserve_def ep_reserveInMemory_def ep_memoryCount_def Let_def)
  have "ep_memoryCount ?st ?sch Requests = 0" by (simp add: ep_memoryCount_def)
  with epoch_admission [OF _ r] have "ep_memoryCount st' ?sch Requests = 1"
    by (simp add: takes_def request_limits_def)
  with r show ?thesis by blast
qed

section \<open>The two backends are equivalent\<close>

text \<open>
  The in-process maps simulate the store: same anchors, an anchor the process has not cached is
  not durable either, and every counter reads the same.
\<close>

definition backend_sim :: "'a epoch_state \<Rightarrow> int mem_store epoch_state \<Rightarrow> bool" where
  "backend_sim a b \<longleftrightarrow> ep_store a = None \<and>
     (\<exists>s. ep_store b = Some s \<and>
       (\<forall>k i. jm_get (ep_anchors a) (anchorId k i) = jm_get (ep_anchors b) (anchorId k i)) \<and>
       (\<forall>k i. key_sep \<notin> set i \<and> jm_get (ep_anchors b) (anchorId k i) = None \<longrightarrow>
          mem_get s (anchorKey k i) = None) \<and>
       (\<forall>sch dm. key_sep \<notin> set (sb_id sch) \<longrightarrow>
          ep_memoryCount a sch dm = mem_getCount s (counterKey sch dm)))"

lemma simE:
  assumes "backend_sim a b"
  obtains s where "ep_store a = None" "ep_store b = Some s"
    "\<And>k i. jm_get (ep_anchors a) (anchorId k i) = jm_get (ep_anchors b) (anchorId k i)"
    "\<And>k i. key_sep \<notin> set i \<Longrightarrow> jm_get (ep_anchors b) (anchorId k i) = None \<Longrightarrow>
       mem_get s (anchorKey k i) = None"
    "\<And>sch dm. key_sep \<notin> set (sb_id sch) \<Longrightarrow> ep_memoryCount a sch dm = mem_getCount s (counterKey sch dm)"
  using assms unfolding backend_sim_def by blast

lemma sim_count:
  "backend_sim a b \<Longrightarrow> key_sep \<notin> set (sb_id sch) \<Longrightarrow>
    ep_count ops a sch dm = ep_count mem_ops b sch dm"
  by (erule simE) (simp add: ep_count_def)

lemma sim_set_anchor:
  assumes "backend_sim a b" and "ep_store b = Some s" and "key_sep \<notin> set i"
    and "\<And>key. mem_getCount s' key = mem_getCount s key"
    and "\<And>key. keyId key \<noteq> keyId (anchorKey k i) \<Longrightarrow> mem_get s' key = mem_get s key"
  shows "backend_sim (a\<lparr>ep_anchors := jm_set (ep_anchors a) (anchorId k i) n\<rparr>)
    (b\<lparr>ep_anchors := jm_set (ep_anchors b) (anchorId k i) n, ep_store := Some s'\<rparr>)"
proof -
  have "mem_get s' (anchorKey k' i') = mem_get s (anchorKey k' i')"
    if "key_sep \<notin> set i'" "anchorId k' i' \<noteq> anchorId k i" for k' i'
    using assms(5) [of "anchorKey k' i'"] that anchorKey_inj [OF that(1) assms(3)]
    by (auto simp: anchorId_inj)
  then show ?thesis
    using assms(1,2,4) by (auto simp: backend_sim_def)
qed

lemma sim_anchorFor:
  assumes "backend_sim a b" and "key_sep \<notin> set i"
    and "ep_anchorFor ops a k i now = (a', n)" and "ep_anchorFor mem_ops b k i now = (b', n')"
  shows "backend_sim a' b' \<and> n' = n"
proof (cases "jm_get (ep_anchors b) (anchorId k i)")
  case (Some v)
  then have "jm_get (ep_anchors a) (anchorId k i) = Some v" using assms(1) by (auto elim: simE)
  with Some assms show ?thesis by (simp add: ep_anchorFor_def)
next
  case None
  from assms(1) obtain s where s: "ep_store a = None" "ep_store b = Some s"
    "jm_get (ep_anchors a) (anchorId k i) = None" "mem_get s (anchorKey k i) = None"
    using None assms(2) by (metis simE)
  then have "mem_getOrSet s (anchorKey k i) now = (mem_set s (anchorKey k i) now, now)"
    by (simp add: mem_getOrSet_def mem_get_def)
  then have eq: "a' = a\<lparr>ep_anchors := jm_set (ep_anchors a) (anchorId k i) now\<rparr>"
    "b' = b\<lparr>ep_anchors := jm_set (ep_anchors b) (anchorId k i) now,
        ep_store := Some (mem_set s (anchorKey k i) now)\<rparr>" "n = now" "n' = now"
    using assms(3,4) None s by (auto simp: ep_anchorFor_def)
  show ?thesis
    unfolding eq using mem.set_count [of s "anchorKey k i" now] mem.set_get [of s "anchorKey k i" now]
    by (intro conjI refl sim_set_anchor [OF assms(1) s(2) assms(2)]) simp_all
qed

lemma schedules_skip:
  "Option.bind (bs_budget s) bg_resetIntervalMs = None \<Longrightarrow>
    ep_schedules ops st (s # ss) now = ep_schedules ops st ss now"
  by (cases "bs_budget s") simp_all

lemma sim_schedules:
  assumes "backend_sim a b" and "\<forall>s \<in> set ss. key_sep \<notin> set (bs_id s)"
    and "ep_schedules ops a ss now = (a', x)" and "ep_schedules mem_ops b ss now = (b', y)"
  shows "backend_sim a' b' \<and> y = x \<and> (\<forall>sch \<in> set x. key_sep \<notin> set (sb_id sch))"
  using assms
proof (induction ss arbitrary: a b a' b' x y)
  case (Cons s ss)
  show ?case
  proof (cases "Option.bind (bs_budget s) bg_resetIntervalMs")
    case None
    show ?thesis
      by (rule Cons.IH [OF Cons.prems(1) _ Cons.prems(3) [unfolded schedules_skip [OF None]]
            Cons.prems(4) [unfolded schedules_skip [OF None]]])
        (use Cons.prems(2) in simp)
  next
    case (Some i)
    obtain a1 n where a1: "ep_anchorFor ops a (bs_kind s) (bs_id s) now = (a1, n)" by fastforce
    obtain b1 n' where b1: "ep_anchorFor mem_ops b (bs_kind s) (bs_id s) now = (b1, n')" by fastforce
    obtain a2 x2 where a2: "ep_schedules ops a1 ss now = (a2, x2)" by fastforce
    obtain b2 y2 where b2: "ep_schedules mem_ops b1 ss now = (b2, y2)" by fastforce
    from sim_anchorFor [OF Cons.prems(1) _ a1 b1] Cons.prems(2)
    have "backend_sim a1 b1" and n: "n' = n" by auto
    with Cons.IH [OF _ _ a2 b2] Cons.prems(2)
    have "backend_sim a2 b2 \<and> y2 = x2 \<and> (\<forall>sch \<in> set x2. key_sep \<notin> set (sb_id sch))" by simp
    moreover obtain bg where bg: "bs_budget s = Some bg" "bg_resetIntervalMs bg = Some i"
      using Some by (cases "bs_budget s") auto
    moreover from bg Cons.prems(3) a1 a2 have "a' = a2"
      "x = \<lparr>sb_kind = bs_kind s, sb_id = bs_id s, sb_name = bs_name s, sb_budget = bg,
         sb_interval = i, sb_periodStartMs = period_start n i now\<rparr> # x2" by simp_all
    moreover from bg Cons.prems(4) b1 b2 n have "b' = b2"
      "y = \<lparr>sb_kind = bs_kind s, sb_id = bs_id s, sb_name = bs_name s, sb_budget = bg,
         sb_interval = i, sb_periodStartMs = period_start n i now\<rparr> # y2" by simp_all
    ultimately show ?thesis using Cons.prems(2) by simp
  qed
qed simp

lemma sim_bump:
  assumes "backend_sim a b" and "ep_store b = Some s" and "key_sep \<notin> set (sb_id x)"
  shows "backend_sim (ep_bump a (counterId x d) n) (b\<lparr>ep_store := Some (mem_sum s (counterKey x d) n)\<rparr>)"
proof -
  have anch: "jm_get (ep_anchors (ep_bump a (counterId x d) n)) (anchorId k i) =
      jm_get (ep_anchors a) (anchorId k i)" for k i
    by (simp add: ep_bump_def anchorId_not_counterId)
  have cnt: "ep_memoryCount (ep_bump a (counterId x d) n) sch dm =
      mem_getCount (mem_sum s (counterKey x d) n) (counterKey sch dm)"
    if "key_sep \<notin> set (sb_id sch)" for sch dm
    using that assms(1,2) counterKey_inj [OF assms(3) that]
    by (simp add: bump_count) (auto elim: simE)
  show ?thesis
    using assms(1,2) anch cnt by (auto simp: backend_sim_def)
qed

lemma sim_reserve:
  assumes "backend_sim a b" and "\<forall>(sch, m) \<in> set limits. key_sep \<notin> set (sb_id sch)"
    and "ep_reserve ops a limits = (a', v)" and "ep_reserve mem_ops b limits = (b', w)"
  shows "backend_sim a' b' \<and> w = v"
proof -
  let ?ls = "map (\<lambda>(sch, m). \<lparr>cl_key = counterKey sch Requests, cl_max = m, cl_amount = None\<rparr>) limits"
  obtain s where s: "ep_store a = None" "ep_store b = Some s"
    "\<And>sch dm. key_sep \<notin> set (sb_id sch) \<Longrightarrow> ep_memoryCount a sch dm = mem_getCount s (counterKey sch dm)"
    using assms(1) by (rule simE) blast
  have full: "list_ex (\<lambda>l. mem_getCount s (cl_key l) + limit_amount l > cl_max l) ?ls =
      list_ex (\<lambda>(sch, m). ep_memoryCount a sch Requests \<ge> m) limits"
    using assms(2) s(3) by (induction limits) (auto simp: limit_amount_def)
  have step: "backend_sim (foldl (\<lambda>s (x, m). ep_bump s (counterId x Requests) 1) a limits)
      (b\<lparr>ep_store := Some (foldl (\<lambda>st l. mem_sum st (cl_key l) (limit_amount l)) s ?ls)\<rparr>)"
    using assms(1,2) s(2)
  proof (induction limits arbitrary: a b s)
    case Nil
    then show ?case by (simp add: backend_sim_def)
  next
    case (Cons l limits)
    obtain x m where l: "l = (x, m)" by fastforce
    let ?b = "b\<lparr>ep_store := Some (mem_sum s (counterKey x Requests) 1)\<rparr>"
    have "backend_sim (ep_bump a (counterId x Requests) 1) ?b"
      using sim_bump [OF Cons.prems(1,3)] Cons.prems(2) l by simp
    from Cons.IH [OF this, of "mem_sum s (counterKey x Requests) 1"] Cons.prems(2) l
    show ?case by (simp add: limit_amount_def)
  qed
  have a: "(a', v) = ep_reserveInMemory a limits" using assms(3) s(1) by (simp add: ep_reserve_def)
  show ?thesis
  proof (cases "list_ex (\<lambda>(sch, m). ep_memoryCount a sch Requests \<ge> m) limits")
    case True
    then have "a' = a" "v = Exhausted" using a by (simp_all add: ep_reserveInMemory_def)
    moreover have "b' = b\<lparr>ep_store := Some s\<rparr>" "w = Exhausted"
      using True assms(4) s(2) full by (simp_all add: ep_reserve_def mem_reserveCounts_def)
    ultimately show ?thesis using assms(1) s(2) by (simp add: backend_sim_def)
  next
    case False
    with a step full assms(4) s(2) show ?thesis
      by (simp add: ep_reserve_def mem_reserveCounts_def ep_reserveInMemory_def)
  qed
qed

lemma sim_find:
  assumes "backend_sim a b" and "\<forall>sch \<in> set schs. key_sep \<notin> set (sb_id sch)"
  shows "find (cost_exhausted mem_ops b) schs = find (cost_exhausted ops a) schs"
  using assms(2) sim_count [OF assms(1), of _ ops CostMicroUsd]
  by (intro find_cong) (auto simp: cost_exhausted_def split: option.splits)

lemma sim_admit:
  assumes "backend_sim a b" and "\<forall>s \<in> set ss. key_sep \<notin> set (bs_id s)"
    and "ep_admit ops a ss now = (a', x)" and "ep_admit mem_ops b ss now = (b', y)"
  shows "backend_sim a' b' \<and> y = x"
proof -
  obtain a1 schs where a1: "ep_schedules ops a ss now = (a1, schs)" by fastforce
  obtain b1 schs' where b1: "ep_schedules mem_ops b ss now = (b1, schs')" by fastforce
  from sim_schedules [OF assms(1,2) a1 b1]
  have sim: "backend_sim a1 b1" and eq: "schs' = schs"
    and ids: "\<forall>sch \<in> set schs. key_sep \<notin> set (sb_id sch)" by auto
  let ?ls = "request_limits schs"
  have lids: "\<forall>(sch, m) \<in> set ?ls. key_sep \<notin> set (sb_id sch)"
    using ids by (auto simp: request_limits_iff)
  obtain a2 v where a2: "ep_reserve ops a1 ?ls = (a2, v)" by fastforce
  obtain b2 w where b2: "ep_reserve mem_ops b1 ?ls = (b2, w)" by fastforce
  from sim_reserve [OF sim lids a2 b2] have sim2: "backend_sim a2 b2" and v: "w = v" by auto
  have found: "find (\<lambda>(sch, m). ep_count mem_ops b2 sch Requests \<ge> m) ?ls =
      find (\<lambda>(sch, m). ep_count ops a2 sch Requests \<ge> m) ?ls"
    using lids sim_count [OF sim2, of _ ops Requests] by (intro find_cong) auto
  show ?thesis
    using assms(3,4) a1 b1 a2 b2 sim sim2 eq v found sim_find [OF sim ids, of ops]
    by (auto simp: ep_admit_def Let_def split: option.splits if_splits reserve_verdict.splits)
qed

lemma configure_resets:
  assumes "\<not> (Option.bind n bg_resetIntervalMs = None \<or>
    Option.bind p bg_resetIntervalMs = Option.bind n bg_resetIntervalMs)"
  shows "ep_configure ops st k i p n now =
    (let st1 = st\<lparr>ep_anchors := jm_set (ep_anchors st) (anchorId k i) now\<rparr>
     in case ep_store st1 of None \<Rightarrow> st1
        | Some s \<Rightarrow> st1\<lparr>ep_store := Some (so_set ops s (anchorKey k i) now)\<rparr>)"
  unfolding ep_configure_def Let_def by (rule if_not_P [OF assms])

lemma sim_configure:
  assumes "backend_sim a b" and "key_sep \<notin> set i"
  shows "backend_sim (ep_configure ops a k i p n now) (ep_configure mem_ops b k i p n now)"
proof (cases "Option.bind n bg_resetIntervalMs = None \<or>
    Option.bind p bg_resetIntervalMs = Option.bind n bg_resetIntervalMs")
  case True
  with assms(1) show ?thesis by (simp add: ep_configure_def Let_def)
next
  case False
  obtain s where s: "ep_store a = None" "ep_store b = Some s" using assms(1) by (rule simE)
  have "backend_sim (a\<lparr>ep_anchors := jm_set (ep_anchors a) (anchorId k i) now\<rparr>)
      (b\<lparr>ep_anchors := jm_set (ep_anchors b) (anchorId k i) now,
         ep_store := Some (mem_set s (anchorKey k i) now)\<rparr>)"
    using mem.set_count [of s "anchorKey k i" now] mem.set_get [of s "anchorKey k i" now]
    by (intro sim_set_anchor [OF assms(1) s(2) assms(2)]) simp_all
  with s show ?thesis by (simp add: configure_resets [OF False] Let_def)
qed

lemma sim_recordCost:
  assumes "backend_sim a b" and "key_sep \<notin> set (sb_id sch)"
  shows "backend_sim (ep_recordCost ops a sch m) (ep_recordCost mem_ops b sch m)"
proof -
  obtain s where s: "ep_store a = None" "ep_store b = Some s" using assms(1) by (rule simE)
  with sim_bump [OF assms(1) s(2) assms(2)] assms(1) show ?thesis
    by (simp add: ep_recordCost_def)
qed

text \<open>The calls the gateway makes on the budgets, in any order.\<close>

datatype epoch_call =
    Configure budget_kind string "budget option" "budget option" int
  | Admit "budget_subject list" int
  | RecordCost scheduled_budget int

fun epoch_call_ok :: "epoch_call \<Rightarrow> bool" where
  "epoch_call_ok (Configure k i p n now) = (key_sep \<notin> set i)"
| "epoch_call_ok (Admit ss now) = list_all (\<lambda>s. key_sep \<notin> set (bs_id s)) ss"
| "epoch_call_ok (RecordCost sch m) = (key_sep \<notin> set (sb_id sch))"

fun epoch_step ::
    "('s, int) store_ops \<Rightarrow> 's epoch_state \<Rightarrow> epoch_call \<Rightarrow>
     's epoch_state \<times> (denial + scheduled_budget list)" where
  "epoch_step ops st (Configure k i p n now) = (ep_configure ops st k i p n now, Inr [])"
| "epoch_step ops st (Admit ss now) = ep_admit ops st ss now"
| "epoch_step ops st (RecordCost sch m) = (ep_recordCost ops st sch m, Inr [])"

fun epoch_run ::
    "('s, int) store_ops \<Rightarrow> 's epoch_state \<Rightarrow> epoch_call list \<Rightarrow> (denial + scheduled_budget list) list" where
  "epoch_run ops st [] = []"
| "epoch_run ops st (c # cs) = (let (st', ans) = epoch_step ops st c in ans # epoch_run ops st' cs)"

lemma sim_step:
  assumes "backend_sim a b" and "epoch_call_ok c"
    and "epoch_step ops a c = (a', x)" and "epoch_step mem_ops b c = (b', y)"
  shows "backend_sim a' b' \<and> y = x"
proof (cases c)
  case (Configure k i p n now)
  with assms sim_configure [OF assms(1), of i ops k p n now] show ?thesis by auto
next
  case (Admit ss now)
  with assms sim_admit [OF assms(1), of ss ops now a' x b' y] show ?thesis
    by (simp add: list_all_iff)
next
  case (RecordCost sch m)
  with assms sim_recordCost [OF assms(1), of sch ops m] show ?thesis by auto
qed

lemma sim_run:
  "backend_sim a b \<Longrightarrow> list_all epoch_call_ok cs \<Longrightarrow> epoch_run mem_ops b cs = epoch_run ops a cs"
proof (induction cs arbitrary: a b)
  case (Cons c cs)
  obtain a' x where a: "epoch_step ops a c = (a', x)" by fastforce
  obtain b' y where b: "epoch_step mem_ops b c = (b', y)" by fastforce
  from sim_step [OF Cons.prems(1) _ a b] Cons show ?case by (simp add: a b)
qed simp

lemma sim_initial:
  "backend_sim \<lparr>ep_anchors = [], ep_store = None\<rparr> \<lparr>ep_anchors = [], ep_store = Some mem_empty\<rparr>"
  by (simp add: backend_sim_def ep_memoryCount_def) (simp add: mem_get_def mem_empty_def)

text \<open>C9: The durable backend and the in-process backend are interchangeable. Starting empty,
  every sequence of configurations, admissions and cost recordings (at any instants) receives
  the same answers, denials and schedules included, whether the epochs live in the process maps
  or in a \<open>MemoryStateStore\<close>; the ids must not contain the store's key separator.\<close>

theorem epoch_backends_agree:
  assumes "list_all epoch_call_ok cs"
  shows "epoch_run mem_ops \<lparr>ep_anchors = [], ep_store = Some mem_empty\<rparr> cs =
    epoch_run ops \<lparr>ep_anchors = [], ep_store = None\<rparr> cs"
  by (rule sim_run [OF sim_initial assms])

theorem epoch_backends_agree_witness:
  "epoch_run mem_ops \<lparr>ep_anchors = [], ep_store = Some mem_empty\<rparr>
     [Admit [\<lparr>bs_kind = TeamKind, bs_id = ''t'', bs_name = ''T'',
        bs_budget = Some \<lparr>bg_maxRequests = Some 0, bg_maxCostUsd = None,
                          bg_resetIntervalMs = Some 60000\<rparr>\<rparr>] 7] =
   [Inl \<lparr>dn_status = 402, dn_code = ''team_budget_exhausted'',
         dn_message = ''Team \"T\" has exhausted its request budget.''\<rparr>]"
proof -
  let ?cs = "[Admit [\<lparr>bs_kind = TeamKind, bs_id = ''t'', bs_name = ''T'',
        bs_budget = Some \<lparr>bg_maxRequests = Some 0, bg_maxCostUsd = None,
                          bg_resetIntervalMs = Some 60000\<rparr>\<rparr>] 7]"
  have ne: "counterId s d \<noteq> anchorId k i" for s d k i
    using anchorId_not_counterId by metis
  have "epoch_run (mem_ops :: (int mem_store, int) store_ops) \<lparr>ep_anchors = [], ep_store = None\<rparr> ?cs =
     [Inl \<lparr>dn_status = 402, dn_code = ''team_budget_exhausted'',
           dn_message = ''Team \"T\" has exhausted its request budget.''\<rparr>]"
    using ne by (simp add: ep_admit_def ep_anchorFor_def cost_exhausted_def request_limits_def
        ep_reserve_def ep_reserveInMemory_def ep_memoryCount_def Let_def ep_count_def
        exhausted_denial_def epoch_code_def epoch_message_def)
  then show ?thesis by (subst epoch_backends_agree) (simp_all only: epoch_call_ok.simps, simp)
qed

end
