(* ===== verification/UsageLedger.thy ===== *)
theory UsageLedger
  imports Prelude
begin

text \<open>
  The contract of the reserve/commit/release protocol that \<open>VirtualKeyManager\<close> and
  \<open>GovernanceHierarchy\<close> both keep (\<open>recordUsage(id, false)\<close>, \<open>releaseRequest\<close>): a subject
  charges a chain of counters, a reservation adds one to each, a release takes one back unless
  the counter is already at zero. The client lemma is about any interleaving of the two calls by
  concurrent requests.
\<close>

datatype 'k ledger_call = Reserve 'k | Release 'k

text \<open>Reservations still in flight; a release must answer one of them.\<close>

fun in_flight :: "'k list \<Rightarrow> 'k ledger_call list \<Rightarrow> 'k list option" where
  "in_flight pend [] = Some pend"
| "in_flight pend (Reserve k # calls) = in_flight (k # pend) calls"
| "in_flight pend (Release k # calls) =
     (if k \<in> set pend then in_flight (remove1 k pend) calls else None)"

locale usage_ledger =
  fixes reserve :: "'s \<Rightarrow> 'k \<Rightarrow> 's"
    and release :: "'s \<Rightarrow> 'k \<Rightarrow> 's"
    and used :: "'s \<Rightarrow> 'c \<Rightarrow> int option"
    and chain :: "'s \<Rightarrow> 'k \<Rightarrow> 'c list"
    and ok :: "'s \<Rightarrow> bool"
  assumes used_reserve:
      "ok s \<Longrightarrow> used (reserve s k) c =
         map_option (\<lambda>n. if c \<in> set (chain s k) then n + 1 else n) (used s c)"
    and used_release:
      "ok s \<Longrightarrow> used (release s k) c =
         map_option (\<lambda>n. if c \<in> set (chain s k) \<and> n > 0 then n - 1 else n) (used s c)"
    and chain_reserve: "ok s \<Longrightarrow> chain (reserve s k) k' = chain s k'"
    and chain_release: "ok s \<Longrightarrow> chain (release s k) k' = chain s k'"
    and ok_reserve: "ok s \<Longrightarrow> ok (reserve s k)"
    and ok_release: "ok s \<Longrightarrow> ok (release s k)"
begin

definition ledger_step :: "'s \<Rightarrow> 'k ledger_call \<Rightarrow> 's" where
  "ledger_step s call = (case call of Reserve k \<Rightarrow> reserve s k | Release k \<Rightarrow> release s k)"

lemma step_frame:
  "ok s \<Longrightarrow> chain (ledger_step s call) k = chain s k" "ok s \<Longrightarrow> ok (ledger_step s call)"
  by (auto simp: ledger_step_def chain_reserve chain_release ok_reserve ok_release
      split: ledger_call.split)

definition charge :: "'s \<Rightarrow> 'c \<Rightarrow> 'k list \<Rightarrow> int" where
  "charge s c pend = int (length (filter (\<lambda>k. c \<in> set (chain s k)) pend))"

lemma charge_Nil [simp]: "charge s c [] = 0"
  by (simp add: charge_def)

lemma charge_Cons [simp]:
  "charge s c (k # pend) = (if c \<in> set (chain s k) then 1 else 0) + charge s c pend"
  by (simp add: charge_def)

lemma charge_remove1:
  "k \<in> set pend \<Longrightarrow>
    charge s c pend = (if c \<in> set (chain s k) then 1 else 0) + charge s c (remove1 k pend)"
  by (induction pend) auto

lemma charge_step: "ok s \<Longrightarrow> charge (ledger_step s call) c pend = charge s c pend"
  by (simp add: charge_def step_frame)

lemma charge_nonneg: "0 \<le> charge s c pend"
  by (simp add: charge_def)

lemma ledger_settles_from:
  assumes "ok s" and "used s c = Some (base + charge s c pend)" and "0 \<le> base"
    and "in_flight pend calls = Some rest"
  shows "used (foldl ledger_step s calls) c = Some (base + charge s c rest)"
  using assms
proof (induction pend calls arbitrary: s rule: in_flight.induct)
  case (2 pend k calls)
  have "used (ledger_step s (Reserve k)) c = Some (base + charge s c (k # pend))"
    using 2 by (auto simp: ledger_step_def used_reserve)
  with 2 show ?case by (simp add: step_frame charge_step)
next
  case (3 pend k calls)
  then have k: "k \<in> set pend" by (simp split: if_splits)
  have pos: "0 < base + (1 + charge s c (remove1 k pend))"
    using 3 charge_nonneg [of s c "remove1 k pend"] by linarith
  have "used (ledger_step s (Release k)) c = Some (base + charge s c (remove1 k pend))"
    using 3 charge_remove1 [OF k, of s c] by (auto simp: ledger_step_def used_release pos)
  with 3 k show ?case by (simp add: step_frame charge_step)
qed simp

text \<open>Whatever the interleaving, the counter ends at its start plus the reservations not rolled back.\<close>

lemma ledger_settles:
  assumes "ok s" and "used s c = Some n" and "0 \<le> n" and "in_flight [] calls = Some rest"
  shows "used (foldl ledger_step s calls) c = Some (n + charge s c rest)"
  using ledger_settles_from [of s c n "[]"] assms by simp

end

end
