(* ===== verification/VirtualKeys.thy ===== *)
theory VirtualKeys
  imports RateLimit BudgetEpochs UsageLedger JsText
begin

text \<open>
  Virtual keys, \<open>klanker-gate/packages/governance/src/virtual_keys.ts\<close>: the key schema, the
  manager's key and hash indexes, the admission check, the reserve/commit/release request
  accounting, cost and token accounting, hydration and the persistence sinks. SHA-256 is the
  argument \<open>hash\<close>. A sink is the log of the calls made to it, absent until registered. Budget,
  rate and token limits are whole numbers by type; the schema's range checks are code here.
\<close>

section \<open>Schema\<close>

record token_policy =
  tp_maxTokens :: int
  tp_windowMs :: int

record vk_input =
  vi_id :: string
  vi_name :: string
  vi_description :: "string option"
  vi_token :: "string option"
  vi_tokenHash :: "string option"
  vi_tokenHint :: "string option"
  vi_enabled :: "bool option"
  vi_rateLimit :: "rate_policy option"
  vi_tokenLimit :: "token_policy option"
  vi_budget :: "budget option"
  vi_allowedProviders :: "string list option"
  vi_allowedModels :: "string list option"
  vi_usedRequests :: "int option"
  vi_usedCostMicroUsd :: "int option"
  vi_teamId :: "string option"

record virtual_key =
  vk_id :: string
  vk_name :: string
  vk_description :: "string option"
  vk_token :: "string option"
  vk_tokenHash :: "string option"
  vk_tokenHint :: "string option"
  vk_enabled :: bool
  vk_rateLimit :: "rate_policy option"
  vk_tokenLimit :: "token_policy option"
  vk_budget :: "budget option"
  vk_allowedProviders :: "string list option"
  vk_allowedModels :: "string list option"
  vk_usedRequests :: int
  vk_usedCostMicroUsd :: int
  vk_teamId :: "string option"

definition opt_all :: "('a \<Rightarrow> bool) \<Rightarrow> 'a option \<Rightarrow> bool" where
  "opt_all P x = (case x of None \<Rightarrow> True | Some v \<Rightarrow> P v)"

definition budget_schema :: "budget \<Rightarrow> bool" where
  "budget_schema b \<longleftrightarrow>
     opt_all (\<lambda>n. n > 0) (bg_maxRequests b) \<and>
     opt_all (\<lambda>x. x > 0) (bg_maxCostUsd b) \<and>
     opt_all (\<lambda>i. MIN_BUDGET_RESET_INTERVAL_MS \<le> i \<and> i \<le> MAX_BUDGET_RESET_INTERVAL_MS)
       (bg_resetIntervalMs b) \<and>
     (bg_resetIntervalMs b = None \<or> bg_maxRequests b \<noteq> None \<or> bg_maxCostUsd b \<noteq> None)"

definition scope_schema :: "string list option \<Rightarrow> bool" where
  "scope_schema = opt_all (\<lambda>xs. xs \<noteq> [] \<and> list_all (\<lambda>s. s \<noteq> []) xs)"

definition vk_schema :: "vk_input \<Rightarrow> bool" where
  "vk_schema i \<longleftrightarrow>
     vi_id i \<noteq> [] \<and> vi_name i \<noteq> [] \<and>
     opt_all (\<lambda>t. length t \<ge> 8) (vi_token i) \<and>
     opt_all (\<lambda>h. length h = 64) (vi_tokenHash i) \<and>
     opt_all (\<lambda>r. rp_maxRequests r > 0 \<and> rp_windowMs r > 0) (vi_rateLimit i) \<and>
     opt_all (\<lambda>r. tp_maxTokens r > 0 \<and> tp_windowMs r > 0) (vi_tokenLimit i) \<and>
     opt_all budget_schema (vi_budget i) \<and>
     scope_schema (vi_allowedProviders i) \<and> scope_schema (vi_allowedModels i) \<and>
     opt_all (\<lambda>n. n \<ge> 0) (vi_usedRequests i) \<and> opt_all (\<lambda>n. n \<ge> 0) (vi_usedCostMicroUsd i) \<and>
     (vi_token i \<noteq> None \<or> vi_tokenHash i \<noteq> None)"

definition or_default :: "'a option \<Rightarrow> 'a \<Rightarrow> 'a" where
  "or_default x d = (case x of None \<Rightarrow> d | Some v \<Rightarrow> v)"

datatype vk_error = SchemaError | NoCredential string

definition vk_parse :: "vk_input \<Rightarrow> vk_error + virtual_key" where
  "vk_parse i =
     (if vk_schema i then
        Inr \<lparr>vk_id = vi_id i, vk_name = vi_name i, vk_description = vi_description i,
          vk_token = vi_token i, vk_tokenHash = vi_tokenHash i, vk_tokenHint = vi_tokenHint i,
          vk_enabled = or_default (vi_enabled i) True,
          vk_rateLimit = vi_rateLimit i, vk_tokenLimit = vi_tokenLimit i, vk_budget = vi_budget i,
          vk_allowedProviders = vi_allowedProviders i, vk_allowedModels = vi_allowedModels i,
          vk_usedRequests = or_default (vi_usedRequests i) 0,
          vk_usedCostMicroUsd = or_default (vi_usedCostMicroUsd i) 0,
          vk_teamId = vi_teamId i\<rparr>
      else Inl SchemaError)"

text \<open>The one character U+2026 before the last four characters is outside the eight-bit strings of the
  model; three full stops stand for it.\<close>

definition tokenHintFor :: "string \<Rightarrow> string" where
  "tokenHintFor token = ''...'' @ last_n 4 token"

record public_key =
  pk_rest :: virtual_key
  pk_usedCostUsd :: rat

definition publicVirtualKey :: "virtual_key \<Rightarrow> public_key" where
  "publicVirtualKey k =
     \<lparr>pk_rest = k\<lparr>vk_token := None, vk_tokenHash := None,
        vk_tokenHint := Some (case vk_tokenHint k of
            Some h \<Rightarrow> h
          | None \<Rightarrow> (case vk_token k of
                Some t \<Rightarrow> (if t = [] then ''...'' else tokenHintFor t)
              | None \<Rightarrow> ''...''))\<rparr>,
      pk_usedCostUsd = of_int (vk_usedCostMicroUsd k) / 1000000\<rparr>"

section \<open>The manager\<close>

record vk_manager =
  vm_keys :: "(string, virtual_key) jmap"
  vm_byHash :: "(string, string) jmap"
  vm_limiter :: rate_limiter
  vm_usageSink :: "string list option"
  vm_costSink :: "(string \<times> int) list option"
  vm_externalRateLimit :: bool

definition unindex :: "vk_manager \<Rightarrow> string \<Rightarrow> (string, string) jmap" where
  "unindex m i =
     (case Option.bind (jm_get (vm_keys m) i) vk_tokenHash of
        Some h \<Rightarrow> if h = [] then vm_byHash m else jm_delete (vm_byHash m) h
      | None \<Rightarrow> vm_byHash m)"

definition vk_register ::
    "(string \<Rightarrow> string) \<Rightarrow> vk_manager \<Rightarrow> vk_input \<Rightarrow> vk_error + (vk_manager \<times> virtual_key)" where
  "vk_register hash m input =
     (case vk_parse input of
        Inl e \<Rightarrow> Inl e
      | Inr parsed \<Rightarrow>
          (let tokenHash = (case vk_tokenHash parsed of
               Some h \<Rightarrow> h
             | None \<Rightarrow> (case vk_token parsed of
                 Some t \<Rightarrow> if t = [] then [] else hash t | None \<Rightarrow> []))
           in if tokenHash = [] then Inl (NoCredential (vk_id parsed))
              else
                (let tokenHint = (case vk_tokenHint parsed of
                       Some h \<Rightarrow> Some h
                     | None \<Rightarrow> (case vk_token parsed of
                         Some t \<Rightarrow> if t = [] then None else Some (tokenHintFor t) | None \<Rightarrow> None));
                     rec = parsed\<lparr>vk_token := None, vk_tokenHash := Some tokenHash,
                                  vk_tokenHint := tokenHint\<rparr>
                 in Inr (m\<lparr>vm_byHash := jm_set (unindex m (vk_id parsed)) tokenHash (vk_id parsed),
                           vm_keys := jm_set (vm_keys m) (vk_id parsed) rec\<rparr>, rec))))"

text \<open>The constructor skips the keys that do not parse.\<close>

definition vk_new :: "(string \<Rightarrow> string) \<Rightarrow> vk_input list \<Rightarrow> rate_policy \<Rightarrow> vk_manager" where
  "vk_new hash inputs defaults =
     foldl (\<lambda>m i. case vk_register hash m i of Inl _ \<Rightarrow> m | Inr (m', _) \<Rightarrow> m')
       \<lparr>vm_keys = [], vm_byHash = [], vm_limiter = rl_new defaults, vm_usageSink = None,
        vm_costSink = None, vm_externalRateLimit = False\<rparr> inputs"

definition vk_remove :: "vk_manager \<Rightarrow> string \<Rightarrow> vk_manager \<times> bool" where
  "vk_remove m i =
     (m\<lparr>vm_byHash := unindex m i, vm_keys := jm_delete (vm_keys m) i\<rparr>, jm_has (vm_keys m) i)"

definition vk_list :: "vk_manager \<Rightarrow> virtual_key list" where
  "vk_list m = jm_values (vm_keys m)"

definition vk_active :: "vk_manager \<Rightarrow> bool" where
  "vk_active m = (length (vm_keys m) > 0)"

definition vk_findByToken :: "(string \<Rightarrow> string) \<Rightarrow> vk_manager \<Rightarrow> string \<Rightarrow> virtual_key option" where
  "vk_findByToken hash m token =
     (case jm_get (vm_byHash m) (hash token) of
        None \<Rightarrow> None
      | Some i \<Rightarrow> if i = [] then None else jm_get (vm_keys m) i)"

record key_denial =
  kd_status :: int
  kd_code :: string
  kd_message :: string
  kd_retryAfterMs :: "int option"

definition tokens_key :: "string \<Rightarrow> string" where
  "tokens_key i = ''tokens:'' @ i"

text \<open>The lifetime budgets; a budget with a reset interval is admitted elsewhere.\<close>

definition lifetime_requests_out :: "budget option \<Rightarrow> int \<Rightarrow> bool" where
  "lifetime_requests_out b n =
     (Option.bind b bg_resetIntervalMs = None \<and>
      (case Option.bind b bg_maxRequests of None \<Rightarrow> False | Some m \<Rightarrow> n \<ge> m))"

definition lifetime_cost_out :: "budget option \<Rightarrow> int \<Rightarrow> bool" where
  "lifetime_cost_out b n =
     (Option.bind b bg_resetIntervalMs = None \<and>
      (case Option.bind b bg_maxCostUsd of None \<Rightarrow> False | Some usd \<Rightarrow> n \<ge> usd_to_micro usd))"

definition rate_gate :: "vk_manager \<Rightarrow> virtual_key \<Rightarrow> int \<Rightarrow> bool \<times> rate_limiter" where
  "rate_gate m key now =
     (if vm_externalRateLimit m then (True, vm_limiter m)
      else case vk_rateLimit key of
             None \<Rightarrow> (True, vm_limiter m)
           | Some p \<Rightarrow> rl_check (vm_limiter m) (vk_id key) p now)"

definition token_gate :: "bool \<Rightarrow> rate_limiter \<Rightarrow> virtual_key \<Rightarrow> int \<Rightarrow> int \<Rightarrow> bool \<times> rate_limiter" where
  "token_gate external l key estimated now =
     (if external then (True, l)
      else case vk_tokenLimit key of
             None \<Rightarrow> (True, l)
           | Some p \<Rightarrow> rl_consume l (tokens_key (vk_id key)) (Some (tp_maxTokens p)) (tp_windowMs p)
                         (max 1 estimated) now)"

definition vk_check ::
    "(string \<Rightarrow> string) \<Rightarrow> vk_manager \<Rightarrow> string option \<Rightarrow> int \<Rightarrow> int \<Rightarrow>
     vk_manager \<times> (key_denial + virtual_key)" where
  "vk_check hash m token estimated now =
     (if token = None \<or> token = Some [] then
        (m, Inl \<lparr>kd_status = 401, kd_code = ''missing_virtual_key'',
                 kd_message = ''Missing virtual key. Send Authorization: Bearer <key>.'',
                 kd_retryAfterMs = None\<rparr>)
      else case vk_findByToken hash m (the token) of
        None \<Rightarrow> (m, Inl \<lparr>kd_status = 401, kd_code = ''invalid_virtual_key'',
                 kd_message = ''Unknown or disabled virtual key.'', kd_retryAfterMs = None\<rparr>)
      | Some key \<Rightarrow>
          if \<not> vk_enabled key then
            (m, Inl \<lparr>kd_status = 401, kd_code = ''invalid_virtual_key'',
                 kd_message = ''Unknown or disabled virtual key.'', kd_retryAfterMs = None\<rparr>)
          else if lifetime_requests_out (vk_budget key) (vk_usedRequests key) then
            (m, Inl \<lparr>kd_status = 402, kd_code = ''budget_exhausted'',
                 kd_message = ''Virtual key \"'' @ vk_name key @ ''\" has exhausted its request budget.'',
                 kd_retryAfterMs = None\<rparr>)
          else if lifetime_cost_out (vk_budget key) (vk_usedCostMicroUsd key) then
            (m, Inl \<lparr>kd_status = 402, kd_code = ''cost_budget_exhausted'',
                 kd_message = ''Virtual key \"'' @ vk_name key @ ''\" has exhausted its cost budget.'',
                 kd_retryAfterMs = None\<rparr>)
          else
            (let (admitted, l1) = rate_gate m key now
             in if \<not> admitted then
                  (m\<lparr>vm_limiter := l1\<rparr>, Inl \<lparr>kd_status = 429, kd_code = ''rate_limited'',
                     kd_message = ''Virtual key \"'' @ vk_name key @ ''\" is rate limited.'',
                     kd_retryAfterMs = Some (rl_retryAfterMs l1 (vk_id key) now)\<rparr>)
                else
                  (let (fits, l2) = token_gate (vm_externalRateLimit m) l1 key estimated now
                   in if \<not> fits then
                        (m\<lparr>vm_limiter := l2\<rparr>, Inl \<lparr>kd_status = 429, kd_code = ''token_limited'',
                           kd_message = ''Virtual key \"'' @ vk_name key @ ''\" exceeded its token limit.'',
                           kd_retryAfterMs = Some (rl_retryAfterMs l2 (tokens_key (vk_id key)) now)\<rparr>)
                      else (m\<lparr>vm_limiter := l2\<rparr>, Inr key))))"

section \<open>Accounting\<close>

definition add_uses :: "int \<Rightarrow> virtual_key \<Rightarrow> virtual_key" where
  "add_uses n k = k\<lparr>vk_usedRequests := vk_usedRequests k + n\<rparr>"

definition vk_recordUsage :: "vk_manager \<Rightarrow> string \<Rightarrow> bool \<Rightarrow> vk_manager" where
  "vk_recordUsage m i persist =
     (if jm_has (vm_keys m) i then
        m\<lparr>vm_keys := jm_modify (vm_keys m) i (add_uses 1),
          vm_usageSink := (if persist then map_option (\<lambda>log. log @ [i]) (vm_usageSink m)
                           else vm_usageSink m)\<rparr>
      else m)"

definition vk_releaseRequest :: "vk_manager \<Rightarrow> string \<Rightarrow> vk_manager" where
  "vk_releaseRequest m i =
     m\<lparr>vm_keys := jm_modify (vm_keys m) i
         (\<lambda>k. if vk_usedRequests k > 0 then add_uses (- 1) k else k)\<rparr>"

definition vk_persistUsage :: "vk_manager \<Rightarrow> string \<Rightarrow> vk_manager" where
  "vk_persistUsage m i =
     (if jm_has (vm_keys m) i
      then m\<lparr>vm_usageSink := map_option (\<lambda>log. log @ [i]) (vm_usageSink m)\<rparr> else m)"

definition vk_recordCost :: "vk_manager \<Rightarrow> string \<Rightarrow> int \<Rightarrow> bool \<Rightarrow> vk_manager" where
  "vk_recordCost m i microUsd persist =
     (if jm_has (vm_keys m) i \<and> microUsd > 0 then
        m\<lparr>vm_keys := jm_modify (vm_keys m) i
            (\<lambda>k. k\<lparr>vk_usedCostMicroUsd := vk_usedCostMicroUsd k + microUsd\<rparr>),
          vm_costSink := (if persist then map_option (\<lambda>log. log @ [(i, microUsd)]) (vm_costSink m)
                          else vm_costSink m)\<rparr>
      else m)"

definition vk_recordTokens :: "vk_manager \<Rightarrow> string \<Rightarrow> int \<Rightarrow> int \<Rightarrow> vk_manager" where
  "vk_recordTokens m i tokens now =
     (case Option.bind (jm_get (vm_keys m) i) vk_tokenLimit of
        None \<Rightarrow> m
      | Some p \<Rightarrow>
          if tokens > 0
          then m\<lparr>vm_limiter := snd (rl_consume (vm_limiter m) (tokens_key i) None (tp_windowMs p) tokens now)\<rparr>
          else m)"

definition vk_retryAfterMs :: "vk_manager \<Rightarrow> string \<Rightarrow> int \<Rightarrow> int" where
  "vk_retryAfterMs m i now =
     max (rl_retryAfterMs (vm_limiter m) i now) (rl_retryAfterMs (vm_limiter m) (tokens_key i) now)"

definition vk_hydrateUsage :: "vk_manager \<Rightarrow> (string \<times> int) list \<Rightarrow> vk_manager" where
  "vk_hydrateUsage m usage =
     m\<lparr>vm_keys := foldl (\<lambda>ks (i, n). jm_modify ks i (\<lambda>k. k\<lparr>vk_usedRequests := n\<rparr>)) (vm_keys m) usage\<rparr>"

definition vk_hydrateCost :: "vk_manager \<Rightarrow> (string \<times> int) list \<Rightarrow> vk_manager" where
  "vk_hydrateCost m costs =
     m\<lparr>vm_keys := foldl (\<lambda>ks (i, n). jm_modify ks i (\<lambda>k. k\<lparr>vk_usedCostMicroUsd := n\<rparr>)) (vm_keys m) costs\<rparr>"

definition vk_onUsage :: "vk_manager \<Rightarrow> vk_manager" where
  "vk_onUsage m = m\<lparr>vm_usageSink := Some []\<rparr>"

definition vk_onCost :: "vk_manager \<Rightarrow> vk_manager" where
  "vk_onCost m = m\<lparr>vm_costSink := Some []\<rparr>"

definition vk_useExternalRateLimit :: "vk_manager \<Rightarrow> bool \<Rightarrow> vk_manager" where
  "vk_useExternalRateLimit m external = m\<lparr>vm_externalRateLimit := external\<rparr>"

section \<open>Histories of calls\<close>

datatype vk_call =
    CUpsert vk_input
  | CRemove string
  | CCheck "string option" int int
  | CRecordUsage string bool
  | CReleaseRequest string
  | CPersistUsage string
  | CRecordCost string int bool
  | CRecordTokens string int int
  | CHydrateUsage "(string \<times> int) list"
  | CHydrateCost "(string \<times> int) list"
  | COnUsage
  | COnCost
  | CExternal bool

fun vk_step :: "(string \<Rightarrow> string) \<Rightarrow> vk_manager \<Rightarrow> vk_call \<Rightarrow> vk_manager" where
  "vk_step hash m (CUpsert i) = (case vk_register hash m i of Inl _ \<Rightarrow> m | Inr (m', _) \<Rightarrow> m')"
| "vk_step hash m (CRemove i) = fst (vk_remove m i)"
| "vk_step hash m (CCheck token est now) = fst (vk_check hash m token est now)"
| "vk_step hash m (CRecordUsage i p) = vk_recordUsage m i p"
| "vk_step hash m (CReleaseRequest i) = vk_releaseRequest m i"
| "vk_step hash m (CPersistUsage i) = vk_persistUsage m i"
| "vk_step hash m (CRecordCost i c p) = vk_recordCost m i c p"
| "vk_step hash m (CRecordTokens i n now) = vk_recordTokens m i n now"
| "vk_step hash m (CHydrateUsage u) = vk_hydrateUsage m u"
| "vk_step hash m (CHydrateCost u) = vk_hydrateCost m u"
| "vk_step hash m COnUsage = vk_onUsage m"
| "vk_step hash m COnCost = vk_onCost m"
| "vk_step hash m (CExternal b) = vk_useExternalRateLimit m b"

section \<open>The credential index\<close>

text \<open>The part of a record the index and the limiter depend on.\<close>

definition credential :: "virtual_key \<Rightarrow> string \<times> string option \<times> string option \<times> rate_policy option" where
  "credential k = (vk_id k, vk_token k, vk_tokenHash k, vk_rateLimit k)"

definition vk_wf :: "vk_manager \<Rightarrow> bool" where
  "vk_wf m \<longleftrightarrow>
     jm_ok (vm_keys m) \<and>
     (\<forall>i k. jm_get (vm_keys m) i = Some k \<longrightarrow>
        vk_id k = i \<and> i \<noteq> [] \<and> vk_token k = None \<and> (\<exists>h. vk_tokenHash k = Some h \<and> h \<noteq> []) \<and>
        opt_all (\<lambda>p. rp_maxRequests p > 0) (vk_rateLimit k)) \<and>
     (\<forall>h i. jm_get (vm_byHash m) h = Some i \<longrightarrow>
        (\<exists>k. jm_get (vm_keys m) i = Some k \<and> vk_tokenHash k = Some h))"

lemma vk_wfD:
  assumes "vk_wf m"
  shows "jm_get (vm_keys m) i = Some k \<Longrightarrow> vk_id k = i \<and> i \<noteq> [] \<and> vk_token k = None"
    and "jm_get (vm_keys m) i = Some k \<Longrightarrow> \<exists>h. vk_tokenHash k = Some h \<and> h \<noteq> []"
    and "jm_get (vm_keys m) i = Some k \<Longrightarrow> opt_all (\<lambda>p. rp_maxRequests p > 0) (vk_rateLimit k)"
    and "jm_get (vm_byHash m) h = Some i \<Longrightarrow> \<exists>k. jm_get (vm_keys m) i = Some k \<and> vk_tokenHash k = Some h"
  using assms unfolding vk_wf_def by blast+

text \<open>Accounting touches no credential.\<close>

definition same_index :: "vk_manager \<Rightarrow> vk_manager \<Rightarrow> bool" where
  "same_index m m' \<longleftrightarrow> vm_byHash m' = vm_byHash m \<and>
     map fst (vm_keys m') = map fst (vm_keys m) \<and>
     (\<forall>i. map_option credential (jm_get (vm_keys m') i) = map_option credential (jm_get (vm_keys m) i))"

lemma same_index_wf:
  assumes "same_index m m'" and "vk_wf m"
  shows "vk_wf m'"
proof -
  have eq: "map_option credential (jm_get (vm_keys m') i) = map_option credential (jm_get (vm_keys m) i)" for i
    using assms(1) by (simp add: same_index_def)
  have prior: "\<exists>k0. jm_get (vm_keys m) i = Some k0 \<and> credential k = credential k0"
    if "jm_get (vm_keys m') i = Some k" for i k
    using eq [of i] that by (cases "jm_get (vm_keys m) i") auto
  have later: "\<exists>k. jm_get (vm_keys m') i = Some k \<and> credential k = credential k0"
    if "jm_get (vm_keys m) i = Some k0" for i k0
    using eq [of i] that by auto
  have "vk_id k = i \<and> i \<noteq> [] \<and> vk_token k = None \<and> (\<exists>h. vk_tokenHash k = Some h \<and> h \<noteq> []) \<and>
      opt_all (\<lambda>p. rp_maxRequests p > 0) (vk_rateLimit k)"
    if k: "jm_get (vm_keys m') i = Some k" for i k
    using prior [OF k] vk_wfD(1-3) [OF assms(2)] by (auto simp: credential_def)
  moreover have "\<exists>k. jm_get (vm_keys m') i = Some k \<and> vk_tokenHash k = Some h"
    if "jm_get (vm_byHash m') h = Some i" for h i
    using vk_wfD(4) [OF assms(2), of h i] that assms(1) later by (fastforce simp: same_index_def credential_def)
  ultimately show ?thesis
    using assms unfolding vk_wf_def same_index_def by simp
qed

lemma same_index_refl [simp]: "same_index m m"
  by (simp add: same_index_def)

lemma same_index_limiter [simp]: "same_index m (m\<lparr>vm_limiter := l\<rparr>)"
  by (simp add: same_index_def)

lemma vk_check_keys:
  "vk_check hash m token est now = (m', d) \<Longrightarrow> \<exists>l. m' = m\<lparr>vm_limiter := l\<rparr>"
  by (auto simp: vk_check_def Let_def split: if_splits option.splits prod.splits
      intro: exI [of _ "vm_limiter m"])

lemma credential_uses [simp]:
  "credential (add_uses n k) = credential k"
  "credential (k\<lparr>vk_usedRequests := n\<rparr>) = credential k"
  "credential (k\<lparr>vk_usedCostMicroUsd := n\<rparr>) = credential k"
  by (simp_all add: credential_def add_uses_def)

lemma credential_modify:
  assumes "\<And>k. credential (f k) = credential k"
  shows "map_option credential (jm_get (jm_modify ks i f) j) = map_option credential (jm_get ks j)"
  using assms by (cases "jm_get ks j") auto

lemma credential_hydrate:
  assumes "\<And>n k. credential (f n k) = credential k"
  shows "map_option credential (jm_get (foldl (\<lambda>ks (i, n). jm_modify ks i (f n)) ks us) j) =
      map_option credential (jm_get ks j)"
  by (induction us arbitrary: ks) (auto simp: credential_modify assms simp del: get_modify)

lemma keys_hydrate: "map fst (foldl (\<lambda>ks (i, n). jm_modify ks i (f n)) ks us) = map fst ks"
  by (induction us arbitrary: ks) auto

lemma accounting_same_index:
  "\<not> (\<exists>i. c = CUpsert i \<or> (\<exists>j. c = CRemove j)) \<Longrightarrow> same_index m (vk_step hash m c)"
proof (cases c)
  case (CCheck t est now)
  with vk_check_keys [of hash m t est now] show ?thesis
    by (cases "vk_check hash m t est now") auto
next
  case (CReleaseRequest i)
  then show ?thesis
    by (simp add: same_index_def vk_releaseRequest_def credential_modify del: get_modify)
next
  case (CHydrateUsage u)
  then show ?thesis
    by (auto simp: same_index_def vk_hydrateUsage_def keys_hydrate intro!: credential_hydrate)
next
  case (CHydrateCost u)
  then show ?thesis
    by (auto simp: same_index_def vk_hydrateCost_def keys_hydrate intro!: credential_hydrate)
qed (auto simp: same_index_def vk_recordUsage_def vk_persistUsage_def vk_recordCost_def
    vk_recordTokens_def vk_onUsage_def vk_onCost_def vk_useExternalRateLimit_def
    credential_modify simp del: get_modify split: option.splits)

lemma unindex_get:
  assumes "vk_wf m"
  shows "jm_get (unindex m i) h = Some j \<longleftrightarrow>
    jm_get (vm_byHash m) h = Some j \<and> (\<forall>k. jm_get (vm_keys m) i = Some k \<longrightarrow> vk_tokenHash k \<noteq> Some h)"
proof (cases "jm_get (vm_keys m) i")
  case None
  then show ?thesis by (simp add: unindex_def)
next
  case (Some k)
  with vk_wfD(2) [OF assms] obtain h' where "vk_tokenHash k = Some h'" "h' \<noteq> []" by blast
  with Some show ?thesis by (auto simp: unindex_def)
qed

lemma unindex_keys:
  assumes "vk_wf m" and "jm_get (unindex m i) h = Some j"
  shows "j \<noteq> i \<and> (\<exists>k. jm_get (vm_keys m) j = Some k \<and> vk_tokenHash k = Some h)"
  using assms vk_wfD(4) [OF assms(1), of h j] by (auto simp: unindex_get)

lemma vk_parse_Inr:
  "vk_parse inp = Inr p \<Longrightarrow> vk_schema inp \<and> vk_id p = vi_id inp \<and> vk_token p = vi_token inp \<and>
    vk_tokenHash p = vi_tokenHash inp \<and> vk_rateLimit p = vi_rateLimit inp"
  by (auto simp: vk_parse_def split: if_splits)

lemma register_cases:
  assumes "vk_register hash m inp = Inr (m', rec)"
  obtains h where "vk_schema inp" "h \<noteq> []" "vk_tokenHash rec = Some h" "vk_token rec = None"
    "vk_id rec = vi_id inp" "vk_rateLimit rec = vi_rateLimit inp"
    "\<And>t. vi_tokenHash inp = None \<Longrightarrow> vi_token inp = Some t \<Longrightarrow> h = hash t"
    "m' = m\<lparr>vm_byHash := jm_set (unindex m (vi_id inp)) h (vi_id inp),
            vm_keys := jm_set (vm_keys m) (vi_id inp) rec\<rparr>"
proof -
  obtain p where p: "vk_parse inp = Inr p"
    using assms by (auto simp: vk_register_def split: sum.splits)
  note inp = vk_parse_Inr [OF p]
  define h where "h = (case vk_tokenHash p of Some h \<Rightarrow> h
    | None \<Rightarrow> (case vk_token p of Some t \<Rightarrow> if t = [] then [] else hash t | None \<Rightarrow> []))"
  have h: "h \<noteq> []" and rec: "\<exists>hint. rec = p\<lparr>vk_token := None, vk_tokenHash := Some h, vk_tokenHint := hint\<rparr>"
    and m': "m' = m\<lparr>vm_byHash := jm_set (unindex m (vk_id p)) h (vk_id p),
            vm_keys := jm_set (vm_keys m) (vk_id p) rec\<rparr>"
    using assms unfolding vk_register_def p sum.case h_def [symmetric] Let_def
    by (auto split: if_splits)
  have tok: "h = hash t" if "vi_tokenHash inp = None" "vi_token inp = Some t" for t
    using that inp h by (simp add: h_def split: if_splits)
  from h rec m' inp tok that show thesis by auto
qed

lemma register_wf:
  assumes "vk_wf m" and "vk_register hash m inp = Inr (m', rec)"
  shows "vk_wf m'"
  using assms(2)
proof (rule register_cases)
  fix h
  assume r: "vk_schema inp" "h \<noteq> []" "vk_tokenHash rec = Some h" "vk_token rec = None"
    "vk_id rec = vi_id inp" "vk_rateLimit rec = vi_rateLimit inp"
    and m': "m' = m\<lparr>vm_byHash := jm_set (unindex m (vi_id inp)) h (vi_id inp),
            vm_keys := jm_set (vm_keys m) (vi_id inp) rec\<rparr>"
  have "vi_id inp \<noteq> []" and "opt_all (\<lambda>p. rp_maxRequests p > 0) (vi_rateLimit inp)"
    using r(1) by (auto simp: vk_schema_def opt_all_def split: option.splits)
  then show ?thesis
    using assms(1) r(2-) unindex_keys [OF assms(1)] unfolding m' vk_wf_def
    by (auto split: if_splits)
qed

lemma remove_wf:
  assumes "vk_wf m"
  shows "vk_wf (fst (vk_remove m i))"
proof -
  have "j \<noteq> i" if "jm_get (unindex m i) h = Some j" for h j
    using unindex_keys [OF assms that] by blast
  then show ?thesis
    using assms unindex_keys [OF assms] unfolding vk_wf_def vk_remove_def by auto
qed

lemma vk_step_wf: "vk_wf m \<Longrightarrow> vk_wf (vk_step hash m c)"
proof (cases "\<exists>i. c = CUpsert i \<or> (\<exists>j. c = CRemove j)")
  case True
  assume wf: "vk_wf m"
  from True consider i where "c = CUpsert i" | j where "c = CRemove j" by blast
  then show ?thesis
  proof cases
    case 1
    with wf register_wf show ?thesis by (fastforce split: sum.split)
  qed (simp add: wf remove_wf)
next
  case False
  then show "vk_wf m \<Longrightarrow> ?thesis" using accounting_same_index same_index_wf by blast
qed

interpretation vk_history: preserved "vk_step hash" vk_wf for hash
  by unfold_locales (rule vk_step_wf)

lemma vk_new_wf: "vk_wf (vk_new hash inputs d)"
proof -
  let ?m = "\<lparr>vm_keys = [], vm_byHash = [], vm_limiter = rl_new d, vm_usageSink = None,
        vm_costSink = None, vm_externalRateLimit = False\<rparr>"
  have "vk_new hash inputs d = foldl (vk_step hash) ?m (map CUpsert inputs)"
    by (simp add: vk_new_def foldl_map)
  moreover have "vk_wf ?m" by (simp add: vk_wf_def)
  ultimately show ?thesis by (simp add: vk_history.run_inv)
qed

lemma findByToken_wf:
  assumes "vk_wf m" and "vk_findByToken hash m t = Some k"
  shows "jm_get (vm_keys m) (vk_id k) = Some k" and "vk_tokenHash k = Some (hash t)"
    and "vk_token k = None"
  using assms vk_wfD [OF assms(1)] by (auto simp: vk_findByToken_def split: option.splits if_splits) fastforce+

section \<open>Authentication\<close>

text \<open>C4: After any history of calls on a freshly loaded manager, a presented token resolves only
  to a stored key whose persisted hash is the hash of that token; the record the caller gets is
  the stored one and carries no raw token.\<close>

theorem token_resolves_to_its_key:
  assumes "vk_findByToken hash (foldl (vk_step hash) (vk_new hash inputs d) calls) t = Some k"
  shows "vk_tokenHash k = Some (hash t) \<and> vk_token k = None \<and>
    jm_get (vm_keys (foldl (vk_step hash) (vk_new hash inputs d) calls)) (vk_id k) = Some k"
  using findByToken_wf [OF vk_history.run_inv [OF vk_new_wf] assms] by blast

definition demo_input :: "string \<Rightarrow> string \<Rightarrow> vk_input" where
  "demo_input i token =
     \<lparr>vi_id = i, vi_name = i, vi_description = None, vi_token = Some token, vi_tokenHash = None,
      vi_tokenHint = None, vi_enabled = None, vi_rateLimit = None, vi_tokenLimit = None,
      vi_budget = Some \<lparr>bg_maxRequests = Some 1, bg_maxCostUsd = None, bg_resetIntervalMs = None\<rparr>,
      vi_allowedProviders = None, vi_allowedModels = None, vi_usedRequests = None,
      vi_usedCostMicroUsd = None, vi_teamId = None\<rparr>"

definition demo_key :: "string \<Rightarrow> string \<Rightarrow> virtual_key" where
  "demo_key i token =
     \<lparr>vk_id = i, vk_name = i, vk_description = None, vk_token = None, vk_tokenHash = Some token,
      vk_tokenHint = Some (tokenHintFor token), vk_enabled = True, vk_rateLimit = None,
      vk_tokenLimit = None,
      vk_budget = Some \<lparr>bg_maxRequests = Some 1, bg_maxCostUsd = None, bg_resetIntervalMs = None\<rparr>,
      vk_allowedProviders = None, vk_allowedModels = None, vk_usedRequests = 0,
      vk_usedCostMicroUsd = 0, vk_teamId = None\<rparr>"

definition demo_manager :: vk_manager where
  "demo_manager = vk_new (\<lambda>t. t) [demo_input ''k'' ''secret-token''] \<lparr>rp_maxRequests = 60, rp_windowMs = 60000\<rparr>"

lemma demo_manager_eq:
  "demo_manager = \<lparr>vm_keys = [(''k'', demo_key ''k'' ''secret-token'')],
     vm_byHash = [(''secret-token'', ''k'')],
     vm_limiter = rl_new \<lparr>rp_maxRequests = 60, rp_windowMs = 60000\<rparr>, vm_usageSink = None,
     vm_costSink = None, vm_externalRateLimit = False\<rparr>"
  by (simp add: demo_manager_def vk_new_def vk_register_def vk_parse_def vk_schema_def
      demo_input_def demo_key_def opt_all_def budget_schema_def scope_schema_def or_default_def
      unindex_def Let_def)

lemma demo_find: "vk_findByToken (\<lambda>t. t) demo_manager ''secret-token'' = Some (demo_key ''k'' ''secret-token'')"
  by (simp add: demo_manager_eq vk_findByToken_def)

theorem token_resolves_to_its_key_witness:
  "vk_tokenHash (demo_key ''k'' ''secret-token'') = Some ''secret-token''"
  using token_resolves_to_its_key [of "\<lambda>t. t" "[demo_input ''k'' ''secret-token'']"
      "\<lparr>rp_maxRequests = 60, rp_windowMs = 60000\<rparr>" "[]" "''secret-token''"] demo_find
  by (simp add: demo_manager_def)

text \<open>Nothing but an upsert brings a removed key back.\<close>

fun upserts :: "string \<Rightarrow> vk_call \<Rightarrow> bool" where
  "upserts i (CUpsert inp) = (vi_id inp = i)"
| "upserts i _ = False"

lemma step_keeps_absent:
  assumes "jm_get (vm_keys m) i = None" and "\<not> upserts i c"
  shows "jm_get (vm_keys (vk_step hash m c)) i = None"
proof (cases "\<exists>i. c = CUpsert i \<or> (\<exists>j. c = CRemove j)")
  case True
  then consider inp where "c = CUpsert inp" | j where "c = CRemove j" by blast
  then show ?thesis
  proof cases
    case (1 inp)
    show ?thesis
    proof (cases "vk_register hash m inp")
      case (Inr r)
      obtain m' rec where r: "vk_register hash m inp = Inr (m', rec)" using Inr by (cases r) auto
      from r show ?thesis
        by (rule register_cases) (use assms 1 r in auto)
    qed (simp add: assms 1)
  qed (use assms in \<open>simp add: vk_remove_def\<close>)
next
  case False
  from accounting_same_index [OF this, of m hash] assms(1) show ?thesis
    by (auto simp: same_index_def) (metis map_option_is_None)
qed

lemma run_keeps_absent:
  "jm_get (vm_keys m) i = None \<Longrightarrow> \<forall>c \<in> set calls. \<not> upserts i c \<Longrightarrow>
    jm_get (vm_keys (foldl (vk_step hash) m calls)) i = None"
proof (induction calls arbitrary: m)
  case (Cons c calls)
  then have "jm_get (vm_keys (vk_step hash m c)) i = None" by (intro step_keeps_absent) auto
  with Cons show ?case by simp
qed simp

lemma revocation_facts:
  assumes "vk_wf m"
  shows "\<forall>c \<in> set calls. \<not> upserts i c \<Longrightarrow>
      vk_findByToken hash (foldl (vk_step hash) (fst (vk_remove m i)) calls) t = Some k \<Longrightarrow> vk_id k \<noteq> i"
    and "vk_register hash m inp = Inr (m', rec) \<Longrightarrow> vi_tokenHash inp = None \<Longrightarrow>
      vi_token inp = Some new \<Longrightarrow>
      vk_findByToken hash m' new = Some rec \<and>
      (\<forall>t k. vk_findByToken hash m' t = Some k \<and> vk_id k = vi_id inp \<longrightarrow> hash t = hash new)"
proof -
  let ?m = "foldl (vk_step hash) (fst (vk_remove m i)) calls"
  assume calls: "\<forall>c \<in> set calls. \<not> upserts i c" and found: "vk_findByToken hash ?m t = Some k"
  have "vk_wf ?m" by (intro vk_history.run_inv remove_wf assms)
  from findByToken_wf(1) [OF this found] run_keeps_absent [OF _ calls, of "fst (vk_remove m i)" hash]
  show "vk_id k \<noteq> i" by (auto simp: vk_remove_def)
next
  assume r: "vk_register hash m inp = Inr (m', rec)" and tok: "vi_tokenHash inp = None" "vi_token inp = Some new"
  have wf: "vk_wf m'" by (rule register_wf [OF assms r])
  from r show "vk_findByToken hash m' new = Some rec \<and>
      (\<forall>t k. vk_findByToken hash m' t = Some k \<and> vk_id k = vi_id inp \<longrightarrow> hash t = hash new)"
  proof (rule register_cases)
    fix h
    assume h: "vk_schema inp" "vk_tokenHash rec = Some h"
        "\<And>t. vi_tokenHash inp = None \<Longrightarrow> vi_token inp = Some t \<Longrightarrow> h = hash t"
      and m': "m' = m\<lparr>vm_byHash := jm_set (unindex m (vi_id inp)) h (vi_id inp),
            vm_keys := jm_set (vm_keys m) (vi_id inp) rec\<rparr>"
    have "h = hash new" using h(3) tok by simp
    moreover have "vi_id inp \<noteq> []" using h(1) by (simp add: vk_schema_def)
    then have "vk_findByToken hash m' h0 = Some rec" if "hash h0 = h" for h0
      using that by (simp add: vk_findByToken_def m')
    moreover have "hash t = h" if "vk_findByToken hash m' t = Some k" "vk_id k = vi_id inp" for t k
      using findByToken_wf(1,2) [OF wf that(1)] that(2) h(2) by (simp add: m')
    ultimately show ?thesis by metis
  qed
qed

text \<open>Revocation is immediate and lasting. Once a key is removed, no token authenticates as it,
  whatever calls follow, until it is upserted again; and replacing a key's credential leaves
  the new token as the only one that resolves to it.\<close>

theorem revocation:
  assumes "vk_wf m"
  shows "(\<forall>calls i t k. (\<forall>c \<in> set calls. \<not> upserts i c) \<and>
        vk_findByToken hash (foldl (vk_step hash) (fst (vk_remove m i)) calls) t = Some k \<longrightarrow> vk_id k \<noteq> i) \<and>
      (\<forall>inp m' rec new. vk_register hash m inp = Inr (m', rec) \<and> vi_tokenHash inp = None \<and>
        vi_token inp = Some new \<longrightarrow>
        vk_findByToken hash m' new = Some rec \<and>
        (\<forall>t k. vk_findByToken hash m' t = Some k \<and> vk_id k = vi_id inp \<longrightarrow> hash t = hash new))"
proof (intro conjI allI impI, goal_cases)
  case (1 calls i t k)
  then show ?case using revocation_facts(1) [OF assms, of calls i hash t k] by blast
next
  case (2 inp m' rec new)
  then show ?case using revocation_facts(2) [OF assms, of hash inp m' rec new] by blast
next
  case (3 inp m' rec new t k)
  then show ?case using revocation_facts(2) [OF assms, of hash inp m' rec new] by blast
qed

theorem revocation_witness:
  "vk_findByToken (\<lambda>t. t) (fst (vk_remove demo_manager ''k'')) ''secret-token'' = None"
proof -
  have wf: "vk_wf demo_manager" by (simp add: demo_manager_def vk_new_wf)
  have "vk_id k \<noteq> ''k''"
    if "vk_findByToken (\<lambda>t. t) (fst (vk_remove demo_manager ''k'')) ''secret-token'' = Some k" for k
    using revocation [OF wf, of "\<lambda>t. t", THEN conjunct1, rule_format, of "[]" "''k''" "''secret-token''" k]
      that by simp
  moreover have "jm_get (vm_keys demo_manager) j = Some k \<Longrightarrow> vk_id k = ''k''" for j k
    by (auto simp: demo_manager_eq demo_key_def split: if_splits)
  ultimately show ?thesis
    by (cases "vk_findByToken (\<lambda>t. t) (fst (vk_remove demo_manager ''k'')) ''secret-token''")
      (auto simp: vk_findByToken_def vk_remove_def split: option.splits if_splits)
qed

section \<open>The admission decision\<close>

definition rate_room :: "vk_manager \<Rightarrow> virtual_key \<Rightarrow> int \<Rightarrow> bool" where
  "rate_room m k now \<longleftrightarrow>
     opt_all (\<lambda>p. in_window (vm_limiter m) (vk_id k) now < rp_maxRequests p) (vk_rateLimit k)"

definition token_room :: "vk_manager \<Rightarrow> virtual_key \<Rightarrow> int \<Rightarrow> int \<Rightarrow> bool" where
  "token_room m k est now \<longleftrightarrow>
     opt_all (\<lambda>p. in_window (vm_limiter m) (tokens_key (vk_id k)) now + max 1 est \<le> tp_maxTokens p)
       (vk_tokenLimit k)"

lemma rl_check_iff:
  "rp_maxRequests p > 0 \<Longrightarrow> fst (rl_check l key p now) \<longleftrightarrow> in_window l key now < rp_maxRequests p"
  by (auto simp: rl_check_def in_window_def split: option.splits if_splits)

lemma in_window_frame:
  "jm_get (rl_counts l') k = jm_get (rl_counts l) k \<Longrightarrow> in_window l' k now = in_window l k now"
  by (simp add: in_window_def)

lemma tokens_key_neq [simp]: "tokens_key i \<noteq> i" "i \<noteq> tokens_key i"
  by (auto simp: tokens_key_def dest: arg_cong [where f = length])

lemma rate_gate_room:
  assumes "opt_all (\<lambda>p. rp_maxRequests p > 0) (vk_rateLimit k)" and "rate_gate m k now = (b, l)"
  shows "(b \<longleftrightarrow> vm_externalRateLimit m \<or> rate_room m k now) \<and>
    in_window l (tokens_key (vk_id k)) t = in_window (vm_limiter m) (tokens_key (vk_id k)) t"
proof (cases "vm_externalRateLimit m \<or> vk_rateLimit k = None")
  case True
  with assms(2) show ?thesis by (auto simp: rate_gate_def rate_room_def opt_all_def split: if_splits)
next
  case False
  then obtain p where p: "vk_rateLimit k = Some p" by blast
  with assms(2) False have c: "rl_check (vm_limiter m) (vk_id k) p now = (b, l)"
    by (simp add: rate_gate_def)
  with rl_check_iff [of p "vm_limiter m" "vk_id k" now] assms(1) p
    rl_check_frame [OF c, THEN in_window_frame, of "tokens_key (vk_id k)" t] False
  show ?thesis by (simp add: rate_room_def opt_all_def)
qed

lemma token_gate_room:
  assumes "token_gate (vm_externalRateLimit m) l k est now = (b, l')"
    and "in_window l (tokens_key (vk_id k)) now = in_window (vm_limiter m) (tokens_key (vk_id k)) now"
  shows "b \<longleftrightarrow> vm_externalRateLimit m \<or> token_room m k est now"
proof (cases "vm_externalRateLimit m \<or> vk_tokenLimit k = None")
  case True
  with assms(1) show ?thesis by (auto simp: token_gate_def token_room_def opt_all_def split: if_splits)
next
  case False
  then obtain p where p: "vk_tokenLimit k = Some p" by blast
  with assms(1) False have "rl_consume l (tokens_key (vk_id k)) (Some (tp_maxTokens p))
      (tp_windowMs p) (max 1 est) now = (b, l')"
    by (simp add: token_gate_def)
  with rl_consume_iff [of l "tokens_key (vk_id k)" "Some (tp_maxTokens p)" "tp_windowMs p" "max 1 est" now]
    assms(2) p False
  show ?thesis by (auto simp: token_room_def opt_all_def over_def)
qed

lemma check_decides:
  assumes "vk_wf m" and "vk_check hash m token est now = (m', d)"
  shows "(d = Inr k \<longleftrightarrow>
       (\<exists>t. token = Some t \<and> t \<noteq> [] \<and> vk_findByToken hash m t = Some k) \<and> vk_enabled k \<and>
       \<not> lifetime_requests_out (vk_budget k) (vk_usedRequests k) \<and>
       \<not> lifetime_cost_out (vk_budget k) (vk_usedCostMicroUsd k) \<and>
       (vm_externalRateLimit m \<or> rate_room m k now \<and> token_room m k est now))
     \<and> (\<exists>l. m' = m\<lparr>vm_limiter := l\<rparr>)
     \<and> (vm_externalRateLimit m \<or> (\<exists>e. d = Inl e \<and> kd_status e \<noteq> 429) \<longrightarrow> m' = m)"
proof -
  have rate: "opt_all (\<lambda>p. rp_maxRequests p > 0) (vk_rateLimit k)"
    if "vk_findByToken hash m t = Some k" for t k
    using vk_wfD(3) [OF assms(1)] findByToken_wf(1) [OF assms(1) that] by blast
  have ext: "rate_gate m k now = (True, vm_limiter m)" "token_gate True l k est now = (True, l)"
    if "vm_externalRateLimit m" for k l
    using that by (simp_all add: rate_gate_def token_gate_def)
  let ?exact = "(d = Inr k \<longleftrightarrow>
       (\<exists>t. token = Some t \<and> t \<noteq> [] \<and> vk_findByToken hash m t = Some k) \<and> vk_enabled k \<and>
       \<not> lifetime_requests_out (vk_budget k) (vk_usedRequests k) \<and>
       \<not> lifetime_cost_out (vk_budget k) (vk_usedCostMicroUsd k) \<and>
       (vm_externalRateLimit m \<or> rate_room m k now \<and> token_room m k est now))
     \<and> (vm_externalRateLimit m \<or> (\<exists>e. d = Inl e \<and> kd_status e \<noteq> 429) \<longrightarrow> m' = m)"
  have ?exact
  proof (cases "token = None \<or> token = Some []")
    case True
    with assms(2) show ?thesis by (auto simp: vk_check_def)
  next
    case False
    then obtain t where t: "token = Some t" "t \<noteq> []" by auto
    show ?thesis
    proof (cases "vk_findByToken hash m t")
      case None
      with assms(2) t show ?thesis by (auto simp: vk_check_def)
    next
      case (Some key)
      show ?thesis
      proof (cases "\<not> vk_enabled key \<or> lifetime_requests_out (vk_budget key) (vk_usedRequests key) \<or>
          lifetime_cost_out (vk_budget key) (vk_usedCostMicroUsd key)")
        case True
        with assms(2) t Some show ?thesis by (auto simp: vk_check_def split: if_splits)
      next
        case go: False
        obtain b l where g: "rate_gate m key now = (b, l)" by fastforce
        obtain b2 l2 where g2: "token_gate (vm_externalRateLimit m) l key est now = (b2, l2)" by fastforce
        note r = rate_gate_room [OF rate [OF Some] g]
        note r2 = token_gate_room [OF g2 r [THEN conjunct2]]
        show ?thesis
          using assms(2) t Some go g g2 r r2 ext
          by (cases b; cases b2) (auto simp: vk_check_def)
      qed
    qed
  qed
  with vk_check_keys [OF assms(2)] show ?thesis by blast
qed

text \<open>C3: The admission decision is exactly this: the token is present and resolves to an enabled
  key whose lifetime request and cost budgets have room and, unless a fleet-wide limiter is in
  charge, whose request window and token window have room for this request. The decision changes
  nothing but the limiter, and not even that when the answer is not about a window.\<close>

theorem admission_decision:
  assumes "vk_wf m" and "vk_check hash m token est now = (m', d)"
  shows "(d = Inr k \<longleftrightarrow>
       (\<exists>t. token = Some t \<and> t \<noteq> [] \<and> vk_findByToken hash m t = Some k) \<and> vk_enabled k \<and>
       \<not> lifetime_requests_out (vk_budget k) (vk_usedRequests k) \<and>
       \<not> lifetime_cost_out (vk_budget k) (vk_usedCostMicroUsd k) \<and>
       (vm_externalRateLimit m \<or> rate_room m k now \<and> token_room m k est now))
     \<and> (\<exists>l. m' = m\<lparr>vm_limiter := l\<rparr>)
     \<and> (vm_externalRateLimit m \<or> (\<exists>e. d = Inl e \<and> kd_status e \<noteq> 429) \<longrightarrow> m' = m)"
  using check_decides [OF assms] .

theorem admission_decision_witness:
  "vk_check (\<lambda>t. t) demo_manager (Some ''secret-token'') 10 0 =
     (demo_manager, Inr (demo_key ''k'' ''secret-token''))"
proof -
  have wf: "vk_wf demo_manager" by (simp add: demo_manager_def vk_new_wf)
  obtain m' d where r: "vk_check (\<lambda>t. t) demo_manager (Some ''secret-token'') 10 0 = (m', d)" by fastforce
  have "d = Inr (demo_key ''k'' ''secret-token'')"
    using admission_decision [OF wf r, of "demo_key ''k'' ''secret-token''"] demo_find
    by (simp add: demo_key_def lifetime_requests_out_def lifetime_cost_out_def rate_room_def
        token_room_def opt_all_def)
  moreover have "vk_enabled (demo_key i t)" "\<not> lifetime_requests_out (vk_budget (demo_key i t))
        (vk_usedRequests (demo_key i t))"
      "\<not> lifetime_cost_out (vk_budget (demo_key i t)) (vk_usedCostMicroUsd (demo_key i t))"
      "rate_gate demo_manager (demo_key i t) 0 = (True, vm_limiter demo_manager)"
      "token_gate e l (demo_key i t) 10 0 = (True, l)" for i t e l
    by (simp_all add: demo_key_def lifetime_requests_out_def lifetime_cost_out_def rate_gate_def
        token_gate_def)
  with r have "m' = demo_manager" by (simp add: vk_check_def demo_find)
  ultimately show ?thesis using r by simp
qed

section \<open>Reserve, commit, release\<close>

definition vk_used :: "vk_manager \<Rightarrow> string \<Rightarrow> int option" where
  "vk_used m i = map_option vk_usedRequests (jm_get (vm_keys m) i)"

lemma uses_modify:
  "map_option vk_usedRequests (jm_get (jm_modify ks i f) c) =
     (if c = i then map_option (\<lambda>k. vk_usedRequests (f k)) (jm_get ks i)
      else map_option vk_usedRequests (jm_get ks c))"
  by (simp add: option.map_comp comp_def)

interpretation vk_ledger: usage_ledger "\<lambda>m i. vk_recordUsage m i False" vk_releaseRequest vk_used
    "\<lambda>m i. [i]" "\<lambda>m. True"
  by unfold_locales
    (auto simp: vk_recordUsage_def vk_releaseRequest_def vk_used_def add_uses_def option.map_comp
      comp_def intro!: option.map_cong0)

text \<open>However the admissions of concurrent requests interleave, if every release answers an
  earlier reservation, a key's request count ends at its starting value plus one for each
  reservation of that key that was not rolled back.\<close>

theorem key_usage_settles:
  assumes "jm_get (vm_keys m) i = Some k" and "0 \<le> vk_usedRequests k"
    and "in_flight [] calls = Some kept"
  shows "vk_used (foldl (\<lambda>m c. case c of Reserve j \<Rightarrow> vk_recordUsage m j False
                                     | Release j \<Rightarrow> vk_releaseRequest m j) m calls) i =
    Some (vk_usedRequests k + int (count_list kept i))"
proof -
  have used: "vk_used m i = Some (vk_usedRequests k)" using assms(1) by (simp add: vk_used_def)
  have "vk_ledger.charge m i kept = int (count_list kept i)"
    by (induction kept) (simp_all add: vk_ledger.charge_Nil vk_ledger.charge_Cons)
  then show ?thesis
    using vk_ledger.ledger_settles [OF _ used assms(2,3)]
    by (simp add: vk_ledger.ledger_step_def [abs_def])
qed

theorem key_usage_settles_witness:
  "vk_used (foldl (\<lambda>m c. case c of Reserve j \<Rightarrow> vk_recordUsage m j False
      | Release j \<Rightarrow> vk_releaseRequest m j) demo_manager
      [Reserve ''k'', Reserve ''k'', Release ''k'']) ''k'' = Some 1"
proof -
  have "jm_get (vm_keys demo_manager) ''k'' = Some (demo_key ''k'' ''secret-token'')"
    by (simp add: demo_manager_eq)
  moreover have "vk_usedRequests (demo_key ''k'' ''secret-token'') = 0" by (simp add: demo_key_def)
  moreover have "in_flight [] [Reserve ''k'', Reserve ''k'', Release ''k''] = Some [''k'']" by simp
  ultimately show ?thesis
    using key_usage_settles [of demo_manager "''k''" "demo_key ''k'' ''secret-token''"
        "[Reserve ''k'', Reserve ''k'', Release ''k'']" "[''k'']"]
    by simp
qed

section \<open>A lifetime budget is never exceeded\<close>

text \<open>\<open>check\<close> and the reservation in one synchronous step, as the gateway runs them without a
  shared limiter.\<close>

definition check_and_reserve ::
    "(string \<Rightarrow> string) \<Rightarrow> vk_manager \<Rightarrow> string option \<Rightarrow> int \<Rightarrow> int \<Rightarrow> vk_manager" where
  "check_and_reserve hash m token est now =
     (case vk_check hash m token est now of
        (m', Inl _) \<Rightarrow> m' | (m', Inr key) \<Rightarrow> vk_recordUsage m' (vk_id key) False)"

datatype admission_event =
    Arrive "string option" int int
  | RollBack string
  | Commit string
  | Bill string int
  | Meter string int int

fun admission_step :: "(string \<Rightarrow> string) \<Rightarrow> vk_manager \<Rightarrow> admission_event \<Rightarrow> vk_manager" where
  "admission_step hash m (Arrive token est now) = check_and_reserve hash m token est now"
| "admission_step hash m (RollBack i) = vk_releaseRequest m i"
| "admission_step hash m (Commit i) = vk_persistUsage m i"
| "admission_step hash m (Bill i c) = vk_recordCost m i c True"
| "admission_step hash m (Meter i n now) = vk_recordTokens m i n now"

definition within_budget :: "vk_manager \<Rightarrow> bool" where
  "within_budget m \<longleftrightarrow> vk_wf m \<and>
     (\<forall>i k n. jm_get (vm_keys m) i = Some k \<and> Option.bind (vk_budget k) bg_maxRequests = Some n \<and>
        Option.bind (vk_budget k) bg_resetIntervalMs = None \<longrightarrow> vk_usedRequests k \<le> n)"

lemma within_budget_mono:
  assumes "within_budget m" and "same_index m m'"
    and "\<And>i k'. jm_get (vm_keys m') i = Some k' \<Longrightarrow>
      \<exists>k. jm_get (vm_keys m) i = Some k \<and> vk_budget k' = vk_budget k \<and> vk_usedRequests k' \<le> vk_usedRequests k"
  shows "within_budget m'"
  unfolding within_budget_def
proof (intro conjI allI impI, goal_cases)
  case 1
  then show ?case using assms(1,2) same_index_wf unfolding within_budget_def by blast
next
  case (2 i k' n)
  with assms(3) obtain k where "jm_get (vm_keys m) i = Some k" "vk_budget k' = vk_budget k"
    "vk_usedRequests k' \<le> vk_usedRequests k" by blast
  with 2 assms(1) show ?case unfolding within_budget_def by (metis order_trans)
qed

lemma reserve_within_budget:
  assumes "within_budget m" and "jm_get (vm_keys m) i = Some k"
    and "\<not> lifetime_requests_out (vk_budget k) (vk_usedRequests k)"
  shows "within_budget (vk_recordUsage m i False)"
  unfolding within_budget_def
proof (intro conjI allI impI, goal_cases)
  case 1
  have "same_index m (vk_recordUsage m i False)"
    using accounting_same_index [of "CRecordUsage i False" m] by simp
  then show ?case using assms(1) same_index_wf unfolding within_budget_def by blast
next
  case (2 j k' n)
  show ?case
  proof (cases "j = i")
    case True
    with 2 assms(2) have "k' = add_uses 1 k" by (simp add: vk_recordUsage_def)
    with 2 assms(3) show ?thesis by (simp add: add_uses_def lifetime_requests_out_def)
  next
    case False
    with 2 assms(1,2) show ?thesis by (auto simp: vk_recordUsage_def within_budget_def)
  qed
qed

lemma persistUsage_keys [simp]: "vm_keys (vk_persistUsage m i) = vm_keys m"
  by (simp add: vk_persistUsage_def)

lemma admission_step_within:
  assumes "within_budget m"
  shows "within_budget (admission_step hash m e)"
proof (cases e)
  case (Arrive token est now)
  obtain m' d where c: "vk_check hash m token est now = (m', d)" by fastforce
  have wf: "vk_wf m" using assms by (simp add: within_budget_def)
  obtain l where m': "m' = m\<lparr>vm_limiter := l\<rparr>" using vk_check_keys [OF c] by blast
  have m'_ok: "within_budget m'"
    by (rule within_budget_mono [OF assms]) (auto simp: m')
  show ?thesis
  proof (cases d)
    case (Inr k)
    from check_decides [OF wf c, of k] Inr obtain t where
      t: "vk_findByToken hash m t = Some k" "\<not> lifetime_requests_out (vk_budget k) (vk_usedRequests k)"
      by auto
    from findByToken_wf(1) [OF wf t(1)] have "jm_get (vm_keys m') (vk_id k) = Some k" by (simp add: m')
    with m'_ok t(2) Inr c Arrive show ?thesis by (simp add: check_and_reserve_def reserve_within_budget)
  qed (use Arrive c m'_ok in \<open>simp add: check_and_reserve_def\<close>)
next
  case (RollBack i)
  show ?thesis
    by (rule within_budget_mono [OF assms])
      (use RollBack accounting_same_index [of "CReleaseRequest i" m] in
        \<open>auto simp: vk_releaseRequest_def add_uses_def split: if_splits\<close>)
next
  case (Commit i)
  show ?thesis
    by (rule within_budget_mono [OF assms])
      (use Commit accounting_same_index [of "CPersistUsage i" m] in simp_all)
next
  case (Bill i c)
  show ?thesis
    by (rule within_budget_mono [OF assms])
      (use Bill accounting_same_index [of "CRecordCost i c True" m] in
        \<open>auto simp: vk_recordCost_def split: if_splits\<close>)
next
  case (Meter i n now)
  show ?thesis
    by (rule within_budget_mono [OF assms])
      (use Meter accounting_same_index [of "CRecordTokens i n now" m] in
        \<open>auto simp: vk_recordTokens_def split: option.splits if_splits\<close>)
qed

interpretation budget_history: preserved "admission_step hash" within_budget for hash
  by unfold_locales (rule admission_step_within)

text \<open>C1: With \<open>check\<close> and the reservation in one synchronous step, no interleaving of arrivals,
  rollbacks, commits, bills and token reconciliations takes a key past its lifetime request
  budget.\<close>

theorem lifetime_budget_never_exceeded:
  assumes "within_budget m"
    and "jm_get (vm_keys (foldl (admission_step hash) m events)) i = Some k"
    and "Option.bind (vk_budget k) bg_maxRequests = Some n"
    and "Option.bind (vk_budget k) bg_resetIntervalMs = None"
  shows "vk_usedRequests k \<le> n"
  using budget_history.run_inv [OF assms(1), of hash events] assms(2-) unfolding within_budget_def by blast

lemma demo_within: "within_budget demo_manager"
proof -
  have "vk_wf demo_manager" by (simp add: demo_manager_def vk_new_wf)
  then show ?thesis
    unfolding within_budget_def by (auto simp: demo_manager_eq demo_key_def split: if_splits)
qed

definition demo_arrivals :: "admission_event list" where
  "demo_arrivals = [Arrive (Some ''secret-token'') 0 0, Arrive (Some ''secret-token'') 0 1]"

lemma demo_arrivals_run:
  "jm_get (vm_keys (foldl (admission_step (\<lambda>t. t)) demo_manager demo_arrivals)) ''k'' =
     Some ((demo_key ''k'' ''secret-token'')\<lparr>vk_usedRequests := 1\<rparr>)"
  by (simp add: demo_arrivals_def check_and_reserve_def vk_check_def demo_manager_eq
      vk_findByToken_def demo_key_def lifetime_requests_out_def lifetime_cost_out_def rate_gate_def
      token_gate_def vk_recordUsage_def add_uses_def)

theorem lifetime_budget_never_exceeded_witness:
  "\<exists>k. jm_get (vm_keys (foldl (admission_step (\<lambda>t. t)) demo_manager demo_arrivals)) ''k'' = Some k \<and>
     vk_usedRequests k \<le> 1"
  using lifetime_budget_never_exceeded [OF demo_within demo_arrivals_run, of 1] demo_arrivals_run
  by (simp add: demo_key_def)

end
