(* ===== verification/Hierarchy.thy ===== *)
theory Hierarchy
  imports VirtualKeys
begin

text \<open>
  The governance hierarchy, \<open>klanker-gate/packages/governance/src/hierarchy.ts\<close>: teams and
  customers above a virtual key, the admission check up the chain, and the request and cost
  accounting with its persistence sink. It interprets the same ledger contract as the keys.
\<close>

section \<open>Schema and state\<close>

record entity =
  en_id :: string
  en_name :: string
  en_enabled :: bool
  en_budget :: "budget option"
  en_usedRequests :: int
  en_usedCostMicroUsd :: int

type_synonym customer = entity

record team = entity +
  tm_customerId :: "string option"

record entity_input =
  ei_id :: string
  ei_name :: string
  ei_enabled :: "bool option"
  ei_budget :: "budget option"
  ei_usedRequests :: "int option"
  ei_usedCostMicroUsd :: "int option"
  ei_customerId :: "string option"

definition entity_schema :: "entity_input \<Rightarrow> bool" where
  "entity_schema i \<longleftrightarrow> ei_id i \<noteq> [] \<and> ei_name i \<noteq> [] \<and> opt_all budget_schema (ei_budget i) \<and>
     opt_all (\<lambda>n. n \<ge> 0) (ei_usedRequests i) \<and> opt_all (\<lambda>n. n \<ge> 0) (ei_usedCostMicroUsd i)"

definition parse_team :: "entity_input \<Rightarrow> unit + team" where
  "parse_team i =
     (if entity_schema i then
        Inr \<lparr>en_id = ei_id i, en_name = ei_name i, en_enabled = or_default (ei_enabled i) True,
          en_budget = ei_budget i, en_usedRequests = or_default (ei_usedRequests i) 0,
          en_usedCostMicroUsd = or_default (ei_usedCostMicroUsd i) 0, tm_customerId = ei_customerId i\<rparr>
      else Inl ())"

definition parse_customer :: "entity_input \<Rightarrow> unit + customer" where
  "parse_customer i =
     (if entity_schema i then
        Inr \<lparr>en_id = ei_id i, en_name = ei_name i, en_enabled = or_default (ei_enabled i) True,
          en_budget = ei_budget i, en_usedRequests = or_default (ei_usedRequests i) 0,
          en_usedCostMicroUsd = or_default (ei_usedCostMicroUsd i) 0\<rparr>
      else Inl ())"

datatype entity_kind = TeamE | CustomerE

datatype account_field = UsageF | CostF

datatype persistence = PersistAll bool | PersistEach "bool option" "bool option"

record hierarchy =
  gh_teams :: "(string, team) jmap"
  gh_customers :: "(string, customer) jmap"
  gh_sink :: "(entity_kind \<times> string \<times> account_field \<times> int) list option"

definition gh_new :: "team list \<Rightarrow> customer list \<Rightarrow> hierarchy" where
  "gh_new teams customers =
     \<lparr>gh_teams = foldl (\<lambda>m t. jm_set m (en_id t) t) [] teams,
      gh_customers = foldl (\<lambda>m c. jm_set m (en_id c) c) [] customers, gh_sink = None\<rparr>"

definition gh_upsertTeam :: "hierarchy \<Rightarrow> entity_input \<Rightarrow> unit + hierarchy" where
  "gh_upsertTeam h i =
     (case parse_team i of Inl e \<Rightarrow> Inl e
      | Inr t \<Rightarrow> Inr (h\<lparr>gh_teams := jm_set (gh_teams h) (ei_id i) t\<rparr>))"

definition gh_removeTeam :: "hierarchy \<Rightarrow> string \<Rightarrow> hierarchy \<times> bool" where
  "gh_removeTeam h i = (h\<lparr>gh_teams := jm_delete (gh_teams h) i\<rparr>, jm_has (gh_teams h) i)"

definition gh_upsertCustomer :: "hierarchy \<Rightarrow> entity_input \<Rightarrow> unit + hierarchy" where
  "gh_upsertCustomer h i =
     (case parse_customer i of Inl e \<Rightarrow> Inl e
      | Inr c \<Rightarrow> Inr (h\<lparr>gh_customers := jm_set (gh_customers h) (ei_id i) c\<rparr>))"

definition gh_removeCustomer :: "hierarchy \<Rightarrow> string \<Rightarrow> hierarchy \<times> bool" where
  "gh_removeCustomer h i = (h\<lparr>gh_customers := jm_delete (gh_customers h) i\<rparr>, jm_has (gh_customers h) i)"

section \<open>Admission up the chain\<close>

fun entity_kind_str :: "entity_kind \<Rightarrow> string" where
  "entity_kind_str TeamE = ''team''"
| "entity_kind_str CustomerE = ''customer''"

definition checkEntity :: "entity_kind \<Rightarrow> 'a entity_scheme \<Rightarrow> denial option" where
  "checkEntity kind e =
     (let k = entity_kind_str kind in
      if \<not> en_enabled e then
        Some \<lparr>dn_status = 401, dn_code = k @ ''_disabled'',
              dn_message = k @ '' \"'' @ en_name e @ ''\" is disabled.''\<rparr>
      else if lifetime_requests_out (en_budget e) (en_usedRequests e) then
        Some \<lparr>dn_status = 402, dn_code = k @ ''_budget_exhausted'',
              dn_message = k @ '' \"'' @ en_name e @ ''\" has exhausted its request budget.''\<rparr>
      else if lifetime_cost_out (en_budget e) (en_usedCostMicroUsd e) then
        Some \<lparr>dn_status = 402, dn_code = k @ ''_cost_budget_exhausted'',
              dn_message = k @ '' \"'' @ en_name e @ ''\" has exhausted its cost budget.''\<rparr>
      else None)"

text \<open>An empty or absent id is falsy in the source; \<open>truthy\<close> reads such an id.\<close>

definition truthy :: "string option \<Rightarrow> string option" where
  "truthy s = (case s of None \<Rightarrow> None | Some t \<Rightarrow> if t = [] then None else Some t)"

definition gh_checkChain :: "hierarchy \<Rightarrow> string option \<Rightarrow> denial option" where
  "gh_checkChain h teamId =
     (case truthy teamId of
        None \<Rightarrow> None
      | Some tid \<Rightarrow>
          (case jm_get (gh_teams h) tid of
             None \<Rightarrow> Some \<lparr>dn_status = 401, dn_code = ''invalid_team'',
                dn_message = ''Virtual key references unknown team \"'' @ tid @ ''\".''\<rparr>
           | Some team \<Rightarrow>
               (case checkEntity TeamE team of
                  Some d \<Rightarrow> Some d
                | None \<Rightarrow>
                    (case truthy (tm_customerId team) of
                       None \<Rightarrow> None
                     | Some cid \<Rightarrow>
                         (case jm_get (gh_customers h) cid of
                            None \<Rightarrow> Some \<lparr>dn_status = 401, dn_code = ''invalid_customer'',
                              dn_message = ''Team \"'' @ en_name team @ ''\" references unknown customer \"''
                                @ cid @ ''\".''\<rparr>
                          | Some customer \<Rightarrow> checkEntity CustomerE customer)))))"

section \<open>Accounting\<close>

definition shouldPersist :: "persistence \<Rightarrow> entity_kind \<Rightarrow> bool" where
  "shouldPersist p kind =
     (case p of
        PersistAll b \<Rightarrow> b
      | PersistEach t c \<Rightarrow> or_default (case kind of TeamE \<Rightarrow> t | CustomerE \<Rightarrow> c) True)"

definition gh_emit :: "hierarchy \<Rightarrow> persistence \<Rightarrow> entity_kind \<Rightarrow> string \<Rightarrow> account_field \<Rightarrow> int \<Rightarrow> hierarchy" where
  "gh_emit h p kind i field amount =
     (if shouldPersist p kind
      then h\<lparr>gh_sink := map_option (\<lambda>log. log @ [(kind, i, field, amount)]) (gh_sink h)\<rparr> else h)"

definition team_of :: "hierarchy \<Rightarrow> string option \<Rightarrow> (string \<times> team) option" where
  "team_of h teamId =
     (case truthy teamId of None \<Rightarrow> None
      | Some tid \<Rightarrow> map_option (Pair tid) (jm_get (gh_teams h) tid))"

definition customer_of :: "hierarchy \<Rightarrow> team \<Rightarrow> (string \<times> customer) option" where
  "customer_of h team =
     (case truthy (tm_customerId team) of None \<Rightarrow> None
      | Some cid \<Rightarrow> map_option (Pair cid) (jm_get (gh_customers h) cid))"

definition bump_requests :: "int \<Rightarrow> 'a entity_scheme \<Rightarrow> 'a entity_scheme" where
  "bump_requests n e = e\<lparr>en_usedRequests := en_usedRequests e + n\<rparr>"

definition bump_cost :: "int \<Rightarrow> 'a entity_scheme \<Rightarrow> 'a entity_scheme" where
  "bump_cost n e = e\<lparr>en_usedCostMicroUsd := en_usedCostMicroUsd e + n\<rparr>"

definition drop_request :: "'a entity_scheme \<Rightarrow> 'a entity_scheme" where
  "drop_request e = (if en_usedRequests e > 0 then bump_requests (- 1) e else e)"

definition gh_recordUsage :: "hierarchy \<Rightarrow> string option \<Rightarrow> persistence \<Rightarrow> hierarchy" where
  "gh_recordUsage h teamId p =
     (case team_of h teamId of
        None \<Rightarrow> h
      | Some (tid, team) \<Rightarrow>
          (let h1 = h\<lparr>gh_teams := jm_modify (gh_teams h) tid (bump_requests 1)\<rparr>;
               h2 = gh_emit h1 p TeamE (en_id team) UsageF 1
           in case customer_of h2 team of
                None \<Rightarrow> h2
              | Some (cid, customer) \<Rightarrow>
                  gh_emit (h2\<lparr>gh_customers := jm_modify (gh_customers h2) cid (bump_requests 1)\<rparr>)
                    p CustomerE (en_id customer) UsageF 1))"

definition gh_releaseRequest :: "hierarchy \<Rightarrow> string option \<Rightarrow> hierarchy" where
  "gh_releaseRequest h teamId =
     (case team_of h teamId of
        None \<Rightarrow> h
      | Some (tid, team) \<Rightarrow>
          (let h1 = h\<lparr>gh_teams := jm_modify (gh_teams h) tid drop_request\<rparr>
           in case customer_of h1 team of
                None \<Rightarrow> h1
              | Some (cid, customer) \<Rightarrow>
                  h1\<lparr>gh_customers := jm_modify (gh_customers h1) cid drop_request\<rparr>))"

definition gh_persistUsage :: "hierarchy \<Rightarrow> string option \<Rightarrow> persistence \<Rightarrow> hierarchy" where
  "gh_persistUsage h teamId p =
     (case team_of h teamId of
        None \<Rightarrow> h
      | Some (tid, team) \<Rightarrow>
          (let h1 = gh_emit h p TeamE (en_id team) UsageF 1
           in case customer_of h1 team of
                None \<Rightarrow> h1
              | Some (cid, customer) \<Rightarrow> gh_emit h1 p CustomerE (en_id customer) UsageF 1))"

definition gh_recordCost :: "hierarchy \<Rightarrow> string option \<Rightarrow> int \<Rightarrow> persistence \<Rightarrow> hierarchy" where
  "gh_recordCost h teamId cost p =
     (case team_of h teamId of
        None \<Rightarrow> h
      | Some (tid, team) \<Rightarrow>
          if cost \<le> 0 then h
          else
          (let h1 = h\<lparr>gh_teams := jm_modify (gh_teams h) tid (bump_cost cost)\<rparr>;
               h2 = gh_emit h1 p TeamE (en_id team) CostF cost
           in case customer_of h2 team of
                None \<Rightarrow> h2
              | Some (cid, customer) \<Rightarrow>
                  gh_emit (h2\<lparr>gh_customers := jm_modify (gh_customers h2) cid (bump_cost cost)\<rparr>)
                    p CustomerE (en_id customer) CostF cost))"

definition hydrate_map ::
    "(string, 'a entity_scheme) jmap \<Rightarrow> (string \<times> int) list \<Rightarrow> (string \<times> int) list \<Rightarrow>
     (string, 'a entity_scheme) jmap" where
  "hydrate_map m usage costs =
     foldl (\<lambda>m (i, n). jm_modify m i (\<lambda>e. e\<lparr>en_usedCostMicroUsd := n\<rparr>))
       (foldl (\<lambda>m (i, n). jm_modify m i (\<lambda>e. e\<lparr>en_usedRequests := n\<rparr>)) m usage) costs"

definition gh_hydrate ::
    "hierarchy \<Rightarrow> entity_kind \<Rightarrow> (string \<times> int) list \<Rightarrow> (string \<times> int) list \<Rightarrow> hierarchy" where
  "gh_hydrate h kind usage costs =
     (case kind of
        TeamE \<Rightarrow> h\<lparr>gh_teams := hydrate_map (gh_teams h) usage costs\<rparr>
      | CustomerE \<Rightarrow> h\<lparr>gh_customers := hydrate_map (gh_customers h) usage costs\<rparr>)"

definition gh_onAccount :: "hierarchy \<Rightarrow> hierarchy" where
  "gh_onAccount h = h\<lparr>gh_sink := Some []\<rparr>"

section \<open>The chain as a ledger\<close>

definition gh_used :: "hierarchy \<Rightarrow> entity_kind \<times> string \<Rightarrow> int option" where
  "gh_used h c =
     (case c of
        (TeamE, i) \<Rightarrow> map_option en_usedRequests (jm_get (gh_teams h) i)
      | (CustomerE, i) \<Rightarrow> map_option en_usedRequests (jm_get (gh_customers h) i))"

definition gh_chain :: "hierarchy \<Rightarrow> string option \<Rightarrow> (entity_kind \<times> string) list" where
  "gh_chain h teamId =
     (case team_of h teamId of
        None \<Rightarrow> []
      | Some (tid, team) \<Rightarrow> (TeamE, tid) #
          (case customer_of h team of None \<Rightarrow> [] | Some (cid, _) \<Rightarrow> [(CustomerE, cid)]))"

lemma emit_frame [simp]:
  "gh_teams (gh_emit h p k i f n) = gh_teams h" "gh_customers (gh_emit h p k i f n) = gh_customers h"
  by (simp_all add: gh_emit_def)

lemma bump_frame [simp]:
  "en_usedRequests (bump_requests n e) = en_usedRequests e + n"
  "tm_customerId (bump_requests n t) = tm_customerId t"
  "en_id (bump_requests n e) = en_id e"
  "en_usedRequests (drop_request e) = (if en_usedRequests e > 0 then en_usedRequests e - 1 else en_usedRequests e)"
  "tm_customerId (drop_request t) = tm_customerId t"
  by (simp_all add: bump_requests_def drop_request_def)

lemmas chain_defs = gh_chain_def team_of_def customer_of_def gh_used_def

lemma recordUsage_maps:
  "gh_teams (gh_recordUsage h t p) =
     (case team_of h t of None \<Rightarrow> gh_teams h
      | Some (tid, _) \<Rightarrow> jm_modify (gh_teams h) tid (bump_requests 1))"
  "gh_customers (gh_recordUsage h t p) =
     (case Option.bind (team_of h t) (\<lambda>(_, team). customer_of h team) of None \<Rightarrow> gh_customers h
      | Some (cid, _) \<Rightarrow> jm_modify (gh_customers h) cid (bump_requests 1))"
  by (auto simp: gh_recordUsage_def Let_def customer_of_def split: option.splits)

lemma releaseRequest_maps:
  "gh_teams (gh_releaseRequest h t) =
     (case team_of h t of None \<Rightarrow> gh_teams h
      | Some (tid, _) \<Rightarrow> jm_modify (gh_teams h) tid drop_request)"
  "gh_customers (gh_releaseRequest h t) =
     (case Option.bind (team_of h t) (\<lambda>(_, team). customer_of h team) of None \<Rightarrow> gh_customers h
      | Some (cid, _) \<Rightarrow> jm_modify (gh_customers h) cid drop_request)"
  by (auto simp: gh_releaseRequest_def Let_def customer_of_def split: option.splits)

text \<open>The two maps seen through the fields that decide a chain.\<close>

lemma chain_frame:
  assumes "\<And>i. map_option tm_customerId (jm_get (gh_teams h') i) = map_option tm_customerId (jm_get (gh_teams h) i)"
    and "\<And>i. jm_has (gh_customers h') i = jm_has (gh_customers h) i"
  shows "gh_chain h' t = gh_chain h t"
proof (cases "truthy t")
  case (Some tid)
  show ?thesis
  proof (cases "jm_get (gh_teams h) tid")
    case None
    with Some assms(1) [of tid] show ?thesis by (simp add: chain_defs)
  next
    case (Some team)
    with assms(1) [of tid] obtain team' where t': "jm_get (gh_teams h') tid = Some team'"
      "tm_customerId team' = tm_customerId team" by (cases "jm_get (gh_teams h') tid") auto
    have "(case customer_of h' team' of None \<Rightarrow> [] | Some (cid, _) \<Rightarrow> [(CustomerE, cid)]) =
        (case customer_of h team of None \<Rightarrow> [] | Some (cid, _) \<Rightarrow> [(CustomerE, cid)])"
    proof (cases "truthy (tm_customerId team)")
      case (Some cid)
      with assms(2) [of cid] t'(2) show ?thesis
        by (cases "jm_get (gh_customers h) cid"; cases "jm_get (gh_customers h') cid")
          (auto simp: customer_of_def)
    qed (use t'(2) in \<open>simp add: customer_of_def\<close>)
    with \<open>truthy t = Some tid\<close> Some t'(1) show ?thesis by (simp add: gh_chain_def team_of_def)
  qed
qed (simp add: chain_defs)

lemma modify_customerId:
  "(\<And>t. tm_customerId (f t) = tm_customerId t) \<Longrightarrow>
    map_option tm_customerId (jm_get (jm_modify m k f) i) = map_option tm_customerId (jm_get m i)"
  by (cases "jm_get m i") auto

lemma modify_used:
  "map_option en_usedRequests (jm_get (jm_modify m k f) i) =
     map_option (\<lambda>e. if i = k then en_usedRequests (f e) else en_usedRequests e) (jm_get m i)"
  by (cases "jm_get m i") auto

lemma modify_has:
  "(\<exists>y. jm_get (jm_modify m k f) i = Some y) \<longleftrightarrow> (\<exists>y. jm_get m i = Some y)"
  by auto

lemma chain_mem:
  "(TeamE, i) \<in> set (gh_chain h t) \<longleftrightarrow> (\<exists>team. team_of h t = Some (i, team))"
  "(CustomerE, i) \<in> set (gh_chain h t) \<longleftrightarrow>
     (\<exists>c. Option.bind (team_of h t) (\<lambda>(_, team). customer_of h team) = Some (i, c))"
proof -
  show "(TeamE, i) \<in> set (gh_chain h t) \<longleftrightarrow> (\<exists>team. team_of h t = Some (i, team))"
    by (cases "team_of h t") (auto simp: gh_chain_def split: option.splits)
  show "(CustomerE, i) \<in> set (gh_chain h t) \<longleftrightarrow>
     (\<exists>c. Option.bind (team_of h t) (\<lambda>(_, team). customer_of h team) = Some (i, c))"
  proof (cases "team_of h t")
    case (Some tt)
    then show ?thesis by (cases "customer_of h (snd tt)") (auto simp: gh_chain_def split: prod.splits)
  qed (simp add: gh_chain_def)
qed

lemma recordUsage_used:
  "gh_used (gh_recordUsage h t p) c =
     map_option (\<lambda>n. if c \<in> set (gh_chain h t) then n + 1 else n) (gh_used h c)"
proof (cases c)
  case (Pair kind i)
  show ?thesis
  proof (cases kind)
    case TeamE
    then show ?thesis
      by (cases "team_of h t")
        (auto simp: Pair gh_used_def recordUsage_maps modify_used chain_mem option.map_comp comp_def
          simp del: get_modify intro!: option.map_cong0)
  next
    case CustomerE
    then show ?thesis
      by (cases "Option.bind (team_of h t) (\<lambda>(_, team). customer_of h team)")
        (auto simp: Pair gh_used_def recordUsage_maps modify_used chain_mem option.map_comp comp_def
          simp del: get_modify intro!: option.map_cong0)
  qed
qed

lemma releaseRequest_used:
  "gh_used (gh_releaseRequest h t) c =
     map_option (\<lambda>n. if c \<in> set (gh_chain h t) \<and> n > 0 then n - 1 else n) (gh_used h c)"
proof (cases c)
  case (Pair kind i)
  show ?thesis
  proof (cases kind)
    case TeamE
    then show ?thesis
      by (cases "team_of h t")
        (auto simp: Pair gh_used_def releaseRequest_maps modify_used chain_mem option.map_comp comp_def
          simp del: get_modify intro!: option.map_cong0)
  next
    case CustomerE
    then show ?thesis
      by (cases "Option.bind (team_of h t) (\<lambda>(_, team). customer_of h team)")
        (auto simp: Pair gh_used_def releaseRequest_maps modify_used chain_mem option.map_comp comp_def
          simp del: get_modify intro!: option.map_cong0)
  qed
qed

lemma recordUsage_chain: "gh_chain (gh_recordUsage h t p) t' = gh_chain h t'"
  by (rule chain_frame)
    (auto simp: recordUsage_maps modify_customerId modify_has simp del: get_modify split: option.splits)

lemma releaseRequest_chain: "gh_chain (gh_releaseRequest h t) t' = gh_chain h t'"
  by (rule chain_frame)
    (auto simp: releaseRequest_maps modify_customerId modify_has simp del: get_modify split: option.splits)

interpretation gh_ledger: usage_ledger "\<lambda>h t. gh_recordUsage h t (PersistAll False)" gh_releaseRequest
    gh_used gh_chain "\<lambda>h. True"
  by unfold_locales
    (simp_all add: recordUsage_used releaseRequest_used recordUsage_chain releaseRequest_chain)

section \<open>What the hierarchy promises\<close>

definition admits :: "'a entity_scheme \<Rightarrow> bool" where
  "admits e \<longleftrightarrow> en_enabled e \<and> \<not> lifetime_requests_out (en_budget e) (en_usedRequests e) \<and>
     \<not> lifetime_cost_out (en_budget e) (en_usedCostMicroUsd e)"

lemma checkEntity_None [simp]: "checkEntity kind e = None \<longleftrightarrow> admits e"
  by (auto simp: checkEntity_def admits_def Let_def)

lemma checkEntity_Some: "checkEntity kind e = Some d \<Longrightarrow> \<not> admits e"
  using checkEntity_None [of kind e] by simp

lemma checkEntity_status: "checkEntity kind e = Some d \<Longrightarrow> dn_status d = (if en_enabled e then 402 else 401)"
  by (auto simp: checkEntity_def Let_def split: if_splits)

lemma chain_admission_facts:
  "gh_checkChain h teamId = None \<longleftrightarrow>
     (truthy teamId = None \<or>
      (\<exists>tid team. truthy teamId = Some tid \<and> jm_get (gh_teams h) tid = Some team \<and> admits team \<and>
         (truthy (tm_customerId team) = None \<or>
          (\<exists>cid c. truthy (tm_customerId team) = Some cid \<and> jm_get (gh_customers h) cid = Some c \<and>
             admits c))))"
  "truthy teamId = Some tid \<Longrightarrow> jm_get (gh_teams h) tid = Some team \<Longrightarrow> \<not> admits team \<Longrightarrow>
     gh_checkChain h teamId = checkEntity TeamE team"
proof -
  show "gh_checkChain h teamId = None \<longleftrightarrow>
     (truthy teamId = None \<or>
      (\<exists>tid team. truthy teamId = Some tid \<and> jm_get (gh_teams h) tid = Some team \<and> admits team \<and>
         (truthy (tm_customerId team) = None \<or>
          (\<exists>cid c. truthy (tm_customerId team) = Some cid \<and> jm_get (gh_customers h) cid = Some c \<and>
             admits c))))"
    by (cases "truthy teamId")
      (auto simp: gh_checkChain_def dest: checkEntity_Some split: option.splits)
  show "truthy teamId = Some tid \<Longrightarrow> jm_get (gh_teams h) tid = Some team \<Longrightarrow> \<not> admits team \<Longrightarrow>
     gh_checkChain h teamId = checkEntity TeamE team"
    by (auto simp: gh_checkChain_def split: option.splits)
qed

text \<open>C5: The chain admits exactly when every link exists, is enabled and has lifetime budget left:
  a key without a team passes, a team id or customer id that names nothing is refused, and the
  customer is consulted only after the team admitted.\<close>

theorem chain_admission:
  "(gh_checkChain h teamId = None \<longleftrightarrow>
     (truthy teamId = None \<or>
      (\<exists>tid team. truthy teamId = Some tid \<and> jm_get (gh_teams h) tid = Some team \<and> admits team \<and>
         (truthy (tm_customerId team) = None \<or>
          (\<exists>cid c. truthy (tm_customerId team) = Some cid \<and> jm_get (gh_customers h) cid = Some c \<and>
             admits c))))) \<and>
   (\<forall>tid team. truthy teamId = Some tid \<and> jm_get (gh_teams h) tid = Some team \<and> \<not> admits team \<longrightarrow>
     gh_checkChain h teamId = checkEntity TeamE team)"
  using chain_admission_facts [where h = h and teamId = teamId] by blast

definition demo_team :: team where
  "demo_team = \<lparr>en_id = ''t'', en_name = ''T'', en_enabled = False, en_budget = None,
     en_usedRequests = 0, en_usedCostMicroUsd = 0, tm_customerId = Some ''c''\<rparr>"

definition demo_customer :: customer where
  "demo_customer = \<lparr>en_id = ''c'', en_name = ''C'', en_enabled = True, en_budget = None,
     en_usedRequests = 5, en_usedCostMicroUsd = 0\<rparr>"

definition demo_hierarchy :: hierarchy where
  "demo_hierarchy = gh_new [demo_team] [demo_customer]"

lemma demo_hierarchy_eq:
  "demo_hierarchy = \<lparr>gh_teams = [(''t'', demo_team)], gh_customers = [(''c'', demo_customer)], gh_sink = None\<rparr>"
  by (simp add: demo_hierarchy_def gh_new_def demo_team_def demo_customer_def)

theorem chain_admission_witness:
  "gh_checkChain demo_hierarchy (Some ''t'') =
     Some \<lparr>dn_status = 401, dn_code = ''team_disabled'', dn_message = ''team \"T\" is disabled.''\<rparr>"
proof -
  have t: "truthy (Some ''t'') = Some ''t''" "jm_get (gh_teams demo_hierarchy) ''t'' = Some demo_team"
    "\<not> admits demo_team"
    by (simp_all add: truthy_def demo_hierarchy_eq, simp add: admits_def demo_team_def)
  have "gh_checkChain demo_hierarchy (Some ''t'') = checkEntity TeamE demo_team"
    using chain_admission [where h = demo_hierarchy and teamId = "Some ''t''"] t by blast
  then show ?thesis by (simp add: checkEntity_def demo_team_def)
qed

text \<open>However the admissions of the keys of several teams interleave, if every release answers
  an earlier reservation, each team's and each customer's request count ends at its start plus
  the reservations charged to it that were not rolled back; a customer is charged for all its
  teams.\<close>

theorem chain_usage_settles:
  assumes "gh_used h c = Some n" and "0 \<le> n" and "in_flight [] calls = Some kept"
  shows "gh_used (foldl (\<lambda>h call. case call of Reserve t \<Rightarrow> gh_recordUsage h t (PersistAll False)
                                             | Release t \<Rightarrow> gh_releaseRequest h t) h calls) c =
    Some (n + int (length (filter (\<lambda>t. c \<in> set (gh_chain h t)) kept)))"
  using gh_ledger.ledger_settles [OF _ assms]
  by (simp add: gh_ledger.ledger_step_def [abs_def] gh_ledger.charge_def)

theorem chain_usage_settles_witness:
  "gh_used (foldl (\<lambda>h call. case call of Reserve t \<Rightarrow> gh_recordUsage h t (PersistAll False)
      | Release t \<Rightarrow> gh_releaseRequest h t) demo_hierarchy
      [Reserve (Some ''t''), Reserve None, Release None, Reserve (Some ''t'')]) (CustomerE, ''c'') = Some 7"
proof -
  have "gh_used demo_hierarchy (CustomerE, ''c'') = Some 5"
    by (simp add: gh_used_def demo_hierarchy_eq demo_customer_def)
  from chain_usage_settles [OF this, of "[Reserve (Some ''t''), Reserve None, Release None, Reserve (Some ''t'')]"]
  show ?thesis
    by (simp add: chain_defs demo_hierarchy_eq truthy_def demo_team_def)
qed

lemma shouldPersist_all [simp]: "shouldPersist (PersistAll b) k = b"
  by (simp add: shouldPersist_def)

lemma customer_of_frame [simp]:
  "customer_of (gh_emit g p k i f n) x = customer_of g x"
  "customer_of (g\<lparr>gh_teams := ts\<rparr>) x = customer_of g x"
  "customer_of (g\<lparr>gh_sink := l\<rparr>) x = customer_of g x"
  "customer_of g (bump_requests n x) = customer_of g x"
  by (simp_all add: customer_of_def split: option.split)

lemma record_is_reserve_then_commit_facts:
  "gh_recordUsage h t p = gh_persistUsage (gh_recordUsage h t (PersistAll False)) t p"
  "vk_recordUsage m i True = vk_persistUsage (vk_recordUsage m i False) i"
proof -
  have off: "gh_emit h (PersistAll False) k i f n = h" for h k i f n
    by (simp add: gh_emit_def shouldPersist_def)
  have team: "team_of (gh_recordUsage h t (PersistAll False)) t =
      map_option (\<lambda>(tid, team). (tid, bump_requests 1 team)) (team_of h t)"
    by (auto simp: team_of_def recordUsage_maps split: option.splits)
  show "gh_recordUsage h t p = gh_persistUsage (gh_recordUsage h t (PersistAll False)) t p"
  proof (cases "team_of h t")
    case None
    then show ?thesis by (simp add: gh_recordUsage_def gh_persistUsage_def)
  next
    case (Some tt)
    obtain tid tm where tt: "tt = (tid, tm)" by fastforce
    show ?thesis
    proof (cases "customer_of h tm")
      case None
      with Some team tt show ?thesis
        by (simp add: gh_recordUsage_def gh_persistUsage_def off Let_def)
    next
      case (Some cc)
      obtain cid cu where cc: "cc = (cid, cu)" by fastforce
      have "customer_of (h\<lparr>gh_teams := ts, gh_customers := jm_modify (gh_customers h) cid (bump_requests 1)\<rparr>) tm =
          Some (cid, bump_requests 1 cu)" for ts
        using Some cc by (auto simp: customer_of_def split: option.splits)
      with Some team \<open>team_of h t = Some tt\<close> tt cc show ?thesis
        by (cases "shouldPersist p TeamE"; cases "shouldPersist p CustomerE")
          (simp_all add: gh_recordUsage_def gh_persistUsage_def off Let_def gh_emit_def)
    qed
  qed
  show "vk_recordUsage m i True = vk_persistUsage (vk_recordUsage m i False) i"
    by (auto simp: vk_recordUsage_def vk_persistUsage_def)
qed

text \<open>The one-shot accounting call is the reservation followed by the commit, for keys and for
  the chain, with the same durable writes in the same order, whatever part of the chain is
  persisted elsewhere.\<close>

theorem record_is_reserve_then_commit:
  "gh_recordUsage h t p = gh_persistUsage (gh_recordUsage h t (PersistAll False)) t p \<and>
   vk_recordUsage m i True = vk_persistUsage (vk_recordUsage m i False) i"
  using record_is_reserve_then_commit_facts by blast

end
