(* ===== verification/ProviderConfig.thy ===== *)
theory ProviderConfig
  imports Hierarchy
begin

text \<open>
  Provider accounts: the configuration contract
  (\<open>klanker-gate/packages/contracts/src/config.ts\<close>) with its browser-safe redaction, and the
  construction of client options and adapters from an account
  (\<open>klanker-gate/packages/providers/src/manager.ts\<close>). An adapter is the arguments its
  constructor gets; the provider client is the argument \<open>'c\<close>. Header maps are lists of pairs.
\<close>

section \<open>The account record\<close>

datatype provider_type =
    OpenAI | Anthropic | Azure | Gemini | OpenRouter | Groq | Mistral | Ollama | XAI | Perplexity
  | Cerebras | Nebius | SGL | Parasail | HuggingFace | Cohere | Bedrock | Vertex | ElevenLabs
  | OpenAICompatible | AnthropicCompatible | LMStudio

datatype reset_period = Hourly | Daily | Weekly | Monthly

datatype proxy_type = HttpProxy | HttpsProxy | Socks5Proxy

datatype beta_mode = BetaDefault | BetaEnabled | BetaDisabled

record network_config =
  nw_timeoutSec :: "rat option"
  nw_streamIdleTimeoutSec :: "rat option"
  nw_maxRetries :: "int option"
  nw_initialBackoffMs :: "int option"
  nw_maxBackoffMs :: "int option"
  nw_maxConnectionsPerHost :: "int option"
  nw_enforceHttp2 :: "bool option"
  nw_extraHeaders :: "(string \<times> string) list option"
  nw_skipTlsVerify :: "bool option"
  nw_caCertPem :: "string option"

record proxy_config =
  px_proxyType :: "proxy_type option"
  px_proxyUsername :: "string option"
  px_proxyPassword :: "string option"
  px_noProxy :: "string list option"

record global_proxy =
  gp_proxyUrl :: string
  gp_proxyUsername :: "string option"
  gp_proxyPassword :: "string option"
  gp_noProxy :: "string list"

record governance_config =
  gv_budgetUsd :: "rat option"
  gv_budgetResetPeriod :: "reset_period option"
  gv_maxTokens :: "int option"
  gv_tokensResetPeriod :: "reset_period option"
  gv_maxRequests :: "int option"
  gv_requestsResetPeriod :: "reset_period option"

record debugging_config =
  db_sendBackRawRequest :: "bool option"
  db_sendBackRawResponse :: "bool option"
  db_storeRawReqResp :: "bool option"

record retry_config =
  rt_maxRetries :: rat
  rt_initialDelayMs :: "rat option"
  rt_maxDelayMs :: "rat option"

record account =
  ac_id :: string
  ac_type :: provider_type
  ac_baseUrl :: "string option"
  ac_endpoint :: "string option"
  ac_apiVersion :: "string option"
  ac_enabled :: bool
  ac_models :: "string list"
  ac_priority :: rat
  ac_weight :: "rat option"
  ac_retry :: "retry_config option"
  ac_awsRegion :: "string option"
  ac_awsAccessKeyId :: "string option"
  ac_awsBatchRoleArn :: "string option"
  ac_awsBatchOutputS3Uri :: "string option"
  ac_awsS3Bucket :: "string option"
  ac_awsS3Prefix :: "string option"
  ac_projectId :: "string option"
  ac_location :: "string option"
  ac_performance :: "int option option"
  ac_governance :: "governance_config option"
  ac_betaHeaders :: "(string \<times> beta_mode) list option option"
  ac_debugging :: "debugging_config option"

text \<open>The account is the fields a browser may see, plus the secret-bearing ones.\<close>

record provider_account = account +
  pa_apiKey :: "string option"
  pa_awsSecretAccessKey :: "string option"
  pa_awsSessionToken :: "string option"
  pa_serviceAccountJson :: "string option"
  pa_proxyUrl :: "string option"
  pa_network :: "network_config option"
  pa_proxy :: "proxy_config option"

section \<open>Redaction\<close>

record network_public =
  np_timeoutSec :: "rat option"
  np_streamIdleTimeoutSec :: "rat option"
  np_maxRetries :: "int option"
  np_initialBackoffMs :: "int option"
  np_maxBackoffMs :: "int option"
  np_maxConnectionsPerHost :: "int option"
  np_enforceHttp2 :: "bool option"
  np_extraHeaders :: "(string \<times> bool) list option"
  np_skipTlsVerify :: "bool option"

record proxy_public =
  pp_proxyType :: "proxy_type option"
  pp_proxyUsername :: "string option"
  pp_noProxyCount :: nat

record account_public = account +
  pb_network :: "network_public option"
  pb_proxy :: "proxy_public option"
  pb_hasApiKey :: bool
  pb_hasCloudCredentials :: bool
  pb_hasProxy :: bool
  pb_hasProxyPassword :: bool
  pb_hasCaCert :: bool

text \<open>\<open>Boolean(s)\<close> for an optional string.\<close>

definition present :: "string option \<Rightarrow> bool" where
  "present s = (case s of None \<Rightarrow> False | Some t \<Rightarrow> t \<noteq> [])"

definition redact_network :: "network_config \<Rightarrow> network_public" where
  "redact_network n =
     \<lparr>np_timeoutSec = nw_timeoutSec n, np_streamIdleTimeoutSec = nw_streamIdleTimeoutSec n,
      np_maxRetries = nw_maxRetries n, np_initialBackoffMs = nw_initialBackoffMs n,
      np_maxBackoffMs = nw_maxBackoffMs n, np_maxConnectionsPerHost = nw_maxConnectionsPerHost n,
      np_enforceHttp2 = nw_enforceHttp2 n,
      np_extraHeaders = map_option (map (\<lambda>(name, value). (name, length value > 0))) (nw_extraHeaders n),
      np_skipTlsVerify = nw_skipTlsVerify n\<rparr>"

definition redact_proxy :: "proxy_config \<Rightarrow> proxy_public" where
  "redact_proxy p =
     \<lparr>pp_proxyType = px_proxyType p, pp_proxyUsername = px_proxyUsername p,
      pp_noProxyCount = (case px_noProxy p of None \<Rightarrow> 0 | Some rules \<Rightarrow> length rules)\<rparr>"

definition redactProviderAccount :: "provider_account \<Rightarrow> account_public" where
  "redactProviderAccount c =
     account.extend (account.truncate c)
       \<lparr>pb_network = map_option redact_network (pa_network c),
        pb_proxy = map_option redact_proxy (pa_proxy c),
        pb_hasApiKey = present (pa_apiKey c),
        pb_hasCloudCredentials =
          (present (pa_awsSecretAccessKey c) \<or> present (pa_serviceAccountJson c)),
        pb_hasProxy = present (pa_proxyUrl c),
        pb_hasProxyPassword = present (Option.bind (pa_proxy c) px_proxyPassword),
        pb_hasCaCert = present (Option.bind (pa_network c) nw_caCertPem)\<rparr>"

text \<open>Every secret overwritten by a fixed mark that only keeps whether it was there.\<close>

definition mask :: "string \<Rightarrow> string" where
  "mask s = (if s = [] then [] else ''*'')"

definition scrub_network :: "network_config \<Rightarrow> network_config" where
  "scrub_network n = n\<lparr>nw_caCertPem := map_option mask (nw_caCertPem n),
     nw_extraHeaders := map_option (map (\<lambda>(name, value). (name, mask value))) (nw_extraHeaders n)\<rparr>"

definition scrub_proxy :: "proxy_config \<Rightarrow> proxy_config" where
  "scrub_proxy p = p\<lparr>px_proxyPassword := map_option mask (px_proxyPassword p),
     px_noProxy := map_option (map (\<lambda>_. ''*'')) (px_noProxy p)\<rparr>"

definition scrub :: "provider_account \<Rightarrow> provider_account" where
  "scrub c = c\<lparr>pa_apiKey := map_option mask (pa_apiKey c),
     pa_awsSecretAccessKey := map_option mask (pa_awsSecretAccessKey c), pa_awsSessionToken := None,
     pa_serviceAccountJson := map_option mask (pa_serviceAccountJson c),
     pa_proxyUrl := map_option mask (pa_proxyUrl c),
     pa_network := map_option scrub_network (pa_network c),
     pa_proxy := map_option scrub_proxy (pa_proxy c)\<rparr>"

lemma mask_empty [simp]: "mask s = [] \<longleftrightarrow> s = []"
  by (simp add: mask_def)

lemma present_mask [simp]: "present (map_option mask s) = present s"
  by (cases s) (simp_all add: present_def)

lemma redact_scrub_network [simp]: "redact_network (scrub_network n) = redact_network n"
  by (simp add: redact_network_def scrub_network_def option.map_comp comp_def case_prod_beta')

lemma redact_scrub_proxy [simp]: "redact_proxy (scrub_proxy p) = redact_proxy p"
  by (simp add: redact_proxy_def scrub_proxy_def split: option.split)

lemma scrub_truncate: "account.truncate (scrub c) = account.truncate c"
  by (simp add: scrub_def account.defs)

text \<open>C10: The browser-safe view of an account does not depend on any secret: overwriting every key,
  token, certificate, header value, proxy URL, proxy password and bypass rule by a mark that only
  keeps whether it was set (for the rules, how many) gives the same view.\<close>

theorem redaction_hides_secrets:
  "redactProviderAccount (scrub c) = redactProviderAccount c"
proof -
  have "present (Option.bind (map_option scrub_proxy p) px_proxyPassword) =
      present (Option.bind p px_proxyPassword)" for p
    by (cases p) (simp_all add: scrub_proxy_def)
  moreover have "present (Option.bind (map_option scrub_network n) nw_caCertPem) =
      present (Option.bind n nw_caCertPem)" for n
    by (cases n) (simp_all add: scrub_network_def)
  ultimately show ?thesis
    unfolding redactProviderAccount_def scrub_truncate
    by (simp add: scrub_def option.map_comp comp_def)
qed

section \<open>Client options and adapters\<close>

record client_options =
  co_maxRetries :: "rat option"
  co_initialDelayMs :: "rat option"
  co_maxDelayMs :: "rat option"
  co_proxyUrl :: "string option"
  co_proxyUsername :: "string option"
  co_proxyPassword :: "string option"
  co_noProxy :: "string list option"
  co_extraHeaders :: "(string \<times> string) list option"
  co_requestTimeoutMs :: "int option"
  co_streamIdleTimeoutMs :: "int option"
  co_caCertPem :: "string option"
  co_skipTlsVerify :: "bool option"

definition or_else :: "'a option \<Rightarrow> 'a option \<Rightarrow> 'a option" where
  "or_else a b = (case a of None \<Rightarrow> b | Some x \<Rightarrow> Some x)"

definition clientOptionsFor :: "provider_account \<Rightarrow> global_proxy option \<Rightarrow> client_options" where
  "clientOptionsFor config globalProxy =
     (let net = pa_network config;
          proxy = (if pa_proxyUrl config = None then globalProxy else None);
          ms = (\<lambda>f. map_option (\<lambda>s. js_round (s * 1000)) (Option.bind net f))
      in \<lparr>co_maxRetries = or_else (map_option of_int (Option.bind net nw_maxRetries))
            (map_option rt_maxRetries (ac_retry config)),
          co_initialDelayMs = or_else (map_option of_int (Option.bind net nw_initialBackoffMs))
            (Option.bind (ac_retry config) rt_initialDelayMs),
          co_maxDelayMs = or_else (map_option of_int (Option.bind net nw_maxBackoffMs))
            (Option.bind (ac_retry config) rt_maxDelayMs),
          co_proxyUrl = or_else (pa_proxyUrl config) (map_option gp_proxyUrl proxy),
          co_proxyUsername = or_else (Option.bind (pa_proxy config) px_proxyUsername)
            (Option.bind proxy gp_proxyUsername),
          co_proxyPassword = or_else (Option.bind (pa_proxy config) px_proxyPassword)
            (Option.bind proxy gp_proxyPassword),
          co_noProxy = or_else (Option.bind (pa_proxy config) px_noProxy)
            (map_option gp_noProxy proxy),
          co_extraHeaders = Option.bind net nw_extraHeaders,
          co_requestTimeoutMs = ms nw_timeoutSec,
          co_streamIdleTimeoutMs = ms nw_streamIdleTimeoutSec,
          co_caCertPem = Option.bind net nw_caCertPem,
          co_skipTlsVerify = Option.bind net nw_skipTlsVerify\<rparr>)"

record bedrock_args =
  ba_region :: string
  ba_accessKeyId :: string
  ba_secretAccessKey :: string
  ba_sessionToken :: "string option"
  ba_endpoint :: "string option"
  ba_batchRoleArn :: "string option"
  ba_batchOutputS3Uri :: "string option"
  ba_s3Bucket :: "string option"
  ba_s3Prefix :: "string option"

datatype 'c adapter =
    OpenAIAdapter string "string option" 'c bool
  | AnthropicAdapter string "string option" 'c "(string \<times> beta_mode) list option"
  | AzureOpenAIAdapter string string "string option" 'c
  | GeminiAdapter string "string option" 'c
  | CohereAdapter string "string option" 'c
  | BedrockAdapter bedrock_args 'c
  | VertexAdapter string string string "string option" 'c
  | ElevenLabsAdapter string "string option" 'c
  | HuggingFaceAdapter string "string option" 'c

fun compat_base_url :: "provider_type \<Rightarrow> string option" where
  "compat_base_url Groq = Some ''https://api.groq.com/openai/v1''"
| "compat_base_url Mistral = Some ''https://api.mistral.ai/v1''"
| "compat_base_url Ollama = Some ''http://localhost:11434/v1''"
| "compat_base_url XAI = Some ''https://api.x.ai/v1''"
| "compat_base_url Perplexity = Some ''https://api.perplexity.ai''"
| "compat_base_url Cerebras = Some ''https://api.cerebras.ai/v1''"
| "compat_base_url Nebius = Some ''https://api.studio.nebius.ai/v1''"
| "compat_base_url SGL = Some ''http://localhost:30000/v1''"
| "compat_base_url Parasail = Some ''https://api.parasail.io/v1''"
| "compat_base_url HuggingFace = Some ''https://router.huggingface.co/v1''"
| "compat_base_url LMStudio = Some ''http://localhost:1234/v1''"
| "compat_base_url _ = None"

definition buildAdapter :: "provider_account \<Rightarrow> 'c \<Rightarrow> 'c adapter" where
  "buildAdapter config client =
     (let key = or_default (pa_apiKey config) '''';
          base = ac_baseUrl config
      in case ac_type config of
           OpenAI \<Rightarrow> OpenAIAdapter key base client True
         | Anthropic \<Rightarrow> AnthropicAdapter key base client (Option.bind (ac_betaHeaders config) id)
         | AnthropicCompatible \<Rightarrow>
             AnthropicAdapter key base client (Option.bind (ac_betaHeaders config) id)
         | Azure \<Rightarrow>
             AzureOpenAIAdapter key (or_default (ac_endpoint config) '''') (ac_apiVersion config) client
         | Gemini \<Rightarrow> GeminiAdapter key base client
         | OpenRouter \<Rightarrow>
             OpenAIAdapter key (Some (or_default base ''https://openrouter.ai/api/v1'')) client False
         | Cohere \<Rightarrow> CohereAdapter key base client
         | Bedrock \<Rightarrow> BedrockAdapter
             \<lparr>ba_region = or_default (ac_awsRegion config) ''us-east-1'',
              ba_accessKeyId = or_default (ac_awsAccessKeyId config) '''',
              ba_secretAccessKey = or_default (pa_awsSecretAccessKey config) '''',
              ba_sessionToken = pa_awsSessionToken config, ba_endpoint = base,
              ba_batchRoleArn = ac_awsBatchRoleArn config,
              ba_batchOutputS3Uri = ac_awsBatchOutputS3Uri config,
              ba_s3Bucket = ac_awsS3Bucket config, ba_s3Prefix = ac_awsS3Prefix config\<rparr> client
         | Vertex \<Rightarrow> VertexAdapter (or_default (ac_projectId config) '''')
             (or_default (ac_location config) ''us-central1'')
             (or_default (pa_serviceAccountJson config) ''{}'') base client
         | ElevenLabs \<Rightarrow> ElevenLabsAdapter key base client
         | HuggingFace \<Rightarrow> HuggingFaceAdapter key (or_else base (compat_base_url HuggingFace)) client
         | t \<Rightarrow> OpenAIAdapter key (or_else base (compat_base_url t)) client False)"

text \<open>An account with its own proxy URL never uses any part of the global proxy.\<close>

lemma own_proxy_overrides:
  "pa_proxyUrl c \<noteq> None \<Longrightarrow> clientOptionsFor c gp = clientOptionsFor c None"
  by (auto simp: clientOptionsFor_def Let_def)

end
