(* ===== verification/ProviderBudgets.thy ===== *)
theory ProviderBudgets
  imports ProviderConfig
begin

text \<open>
  Per-provider windowed budgets,
  \<open>klanker-gate/packages/governance/src/provider_budgets.ts\<close>: lazily reset counters per
  account and dimension, the read-only check the provider manager consults, the recording
  operations with their count and anchor sinks, and hydration. An infinite window is
  \<^term>\<open>None\<close>. \<open>budget_guard\<close> is the interface \<open>ProviderManager\<close> declares
  (\<open>ProviderBudgetGuard\<close>), interpreted here on the tracker.
\<close>

section \<open>State\<close>

datatype pb_dimension = PRequests | PTokens | PCost

fun pb_dim_str :: "pb_dimension \<Rightarrow> string" where
  "pb_dim_str PRequests = ''requests''"
| "pb_dim_str PTokens = ''tokens''"
| "pb_dim_str PCost = ''cost''"

fun PERIOD_MS :: "reset_period \<Rightarrow> int" where
  "PERIOD_MS Hourly = 3600000"
| "PERIOD_MS Daily = 86400000"
| "PERIOD_MS Weekly = 604800000"
| "PERIOD_MS Monthly = 2592000000"

definition windowMsFor :: "reset_period option \<Rightarrow> int option" where
  "windowMsFor = map_option PERIOD_MS"

record pb_counter =
  pc_count :: int
  pc_windowStart :: int

record pb_tracker =
  pt_counters :: "(string, pb_counter) jmap"
  pt_sink :: "(pb_dimension \<times> string \<times> int) list option"
  pt_anchorSink :: "(pb_dimension \<times> string \<times> int) list option"

definition pb_new :: pb_tracker where
  "pb_new = \<lparr>pt_counters = [], pt_sink = None, pt_anchorSink = None\<rparr>"

definition pb_key :: "string \<Rightarrow> pb_dimension \<Rightarrow> string" where
  "pb_key i d = i @ ''::'' @ pb_dim_str d"

definition pb_periodFor :: "provider_account \<Rightarrow> pb_dimension \<Rightarrow> reset_period option" where
  "pb_periodFor config d =
     (case d of
        PRequests \<Rightarrow> Option.bind (ac_governance config) gv_requestsResetPeriod
      | PTokens \<Rightarrow> Option.bind (ac_governance config) gv_tokensResetPeriod
      | PCost \<Rightarrow> Option.bind (ac_governance config) gv_budgetResetPeriod)"

definition pb_limitFor :: "provider_account \<Rightarrow> pb_dimension \<Rightarrow> int option" where
  "pb_limitFor config d =
     (case d of
        PRequests \<Rightarrow> Option.bind (ac_governance config) gv_maxRequests
      | PTokens \<Rightarrow> Option.bind (ac_governance config) gv_maxTokens
      | PCost \<Rightarrow> map_option usd_to_micro (Option.bind (ac_governance config) gv_budgetUsd))"

section \<open>Operations\<close>

definition elapsed :: "int option \<Rightarrow> int \<Rightarrow> int \<Rightarrow> bool" where
  "elapsed window start now = (case window of None \<Rightarrow> False | Some w \<Rightarrow> now - start \<ge> w)"

definition pb_current :: "pb_tracker \<Rightarrow> provider_account \<Rightarrow> pb_dimension \<Rightarrow> int \<Rightarrow> int" where
  "pb_current t config d now =
     (case jm_get (pt_counters t) (pb_key (ac_id config) d) of
        None \<Rightarrow> 0
      | Some rec \<Rightarrow>
          if elapsed (windowMsFor (pb_periodFor config d)) (pc_windowStart rec) now then 0
          else pc_count rec)"

definition pb_bump :: "pb_tracker \<Rightarrow> provider_account \<Rightarrow> pb_dimension \<Rightarrow> int \<Rightarrow> int \<Rightarrow> pb_tracker" where
  "pb_bump t config d amount now =
     (if amount \<le> 0 then t
      else
        (let key = pb_key (ac_id config) d;
             fresh = t\<lparr>pt_counters := jm_set (pt_counters t) key
                         \<lparr>pc_count = amount, pc_windowStart = now\<rparr>,
                      pt_anchorSink := map_option (\<lambda>log. log @ [(d, ac_id config, now)]) (pt_anchorSink t)\<rparr>;
             t1 = (case jm_get (pt_counters t) key of
                     None \<Rightarrow> fresh
                   | Some rec \<Rightarrow>
                       if elapsed (windowMsFor (pb_periodFor config d)) (pc_windowStart rec) now then fresh
                       else t\<lparr>pt_counters := jm_modify (pt_counters t) key
                               (\<lambda>r. r\<lparr>pc_count := pc_count r + amount\<rparr>)\<rparr>)
         in t1\<lparr>pt_sink := map_option (\<lambda>log. log @ [(d, ac_id config, amount)]) (pt_sink t1)\<rparr>))"

record pb_denial =
  pd_dimension :: pb_dimension
  pd_code :: string
  pd_message :: string
  pd_retryAfterMs :: int

definition pb_deny ::
    "pb_tracker \<Rightarrow> provider_account \<Rightarrow> pb_dimension \<Rightarrow> string \<Rightarrow> string \<Rightarrow> int \<Rightarrow> pb_denial" where
  "pb_deny t config d code message now =
     \<lparr>pd_dimension = d, pd_code = code, pd_message = message,
      pd_retryAfterMs =
        (case (jm_get (pt_counters t) (pb_key (ac_id config) d), windowMsFor (pb_periodFor config d)) of
           (Some rec, Some w) \<Rightarrow> max 0 (pc_windowStart rec + w - now)
         | _ \<Rightarrow> 0)\<rparr>"

definition reached :: "int option \<Rightarrow> int \<Rightarrow> bool" where
  "reached limit n = (case limit of None \<Rightarrow> False | Some m \<Rightarrow> n \<ge> m)"

definition pb_check :: "pb_tracker \<Rightarrow> provider_account \<Rightarrow> int \<Rightarrow> pb_denial option" where
  "pb_check t config now =
     (case ac_governance config of
        None \<Rightarrow> None
      | Some gov \<Rightarrow>
          if reached (gv_maxRequests gov) (pb_current t config PRequests now) then
            Some (pb_deny t config PRequests ''provider_request_limit''
              (''Provider \"'' @ ac_id config @ ''\" has reached its request limit.'') now)
          else if reached (gv_maxTokens gov) (pb_current t config PTokens now) then
            Some (pb_deny t config PTokens ''provider_token_limit''
              (''Provider \"'' @ ac_id config @ ''\" has reached its token limit.'') now)
          else if reached (pb_limitFor config PCost) (pb_current t config PCost now) then
            Some (pb_deny t config PCost ''provider_budget_exhausted''
              (''Provider \"'' @ ac_id config @ ''\" has exhausted its cost budget.'') now)
          else None)"

definition pb_allows :: "pb_tracker \<Rightarrow> provider_account \<Rightarrow> int \<Rightarrow> bool" where
  "pb_allows t config now = (pb_check t config now = None)"

definition pb_recordRequest :: "pb_tracker \<Rightarrow> provider_account \<Rightarrow> int \<Rightarrow> pb_tracker" where
  "pb_recordRequest t config now =
     (if Option.bind (ac_governance config) gv_maxRequests = None then t
      else pb_bump t config PRequests 1 now)"

definition pb_recordTokens :: "pb_tracker \<Rightarrow> provider_account \<Rightarrow> int \<Rightarrow> int \<Rightarrow> pb_tracker" where
  "pb_recordTokens t config tokens now =
     (if Option.bind (ac_governance config) gv_maxTokens = None then t
      else pb_bump t config PTokens tokens now)"

definition pb_recordCost :: "pb_tracker \<Rightarrow> provider_account \<Rightarrow> int \<Rightarrow> int \<Rightarrow> pb_tracker" where
  "pb_recordCost t config microUsd now =
     (if Option.bind (ac_governance config) gv_budgetUsd = None then t
      else pb_bump t config PCost microUsd now)"

definition pb_onRecord :: "pb_tracker \<Rightarrow> pb_tracker" where
  "pb_onRecord t = t\<lparr>pt_sink := Some []\<rparr>"

definition pb_onAnchor :: "pb_tracker \<Rightarrow> pb_tracker" where
  "pb_onAnchor t = t\<lparr>pt_anchorSink := Some []\<rparr>"

definition pb_hydrate ::
    "pb_tracker \<Rightarrow> pb_dimension \<Rightarrow> (string \<times> int) list \<Rightarrow> (string \<times> int) list \<Rightarrow> int \<Rightarrow> pb_tracker" where
  "pb_hydrate t d counts anchors bootStart =
     t\<lparr>pt_counters := foldl (\<lambda>m (i, n).
          if n > 0 then jm_set m (pb_key i d)
             \<lparr>pc_count = n, pc_windowStart = or_default (map_of anchors i) bootStart\<rparr>
          else m) (pt_counters t) counts\<rparr>"

section \<open>Windows\<close>

lemma pb_key_inj [simp]: "pb_key i d = pb_key j e \<longleftrightarrow> i = j \<and> d = e"
proof
  have free: "CHR '':'' \<notin> set (pb_dim_str d)" for d by (cases d) auto
  have split: "pb_key i d = (i @ '':'') @ CHR '':'' # pb_dim_str d" for i d by (simp add: pb_key_def)
  assume "pb_key i d = pb_key j e"
  from cut_last [OF this [unfolded split] free free]
  have "i = j" and "pb_dim_str d = pb_dim_str e" by simp_all
  then show "i = j \<and> d = e" by (cases d; cases e) simp_all
qed simp

lemma current_bump:
  assumes "0 < amount"
  shows "pb_current (pb_bump t c d amount now) c d now = pb_current t c d now + amount"
proof -
  have "\<not> elapsed (windowMsFor p) now now" for p
    by (cases p; cases "the p") (auto simp: elapsed_def windowMsFor_def)
  with assms show ?thesis
    by (auto simp: pb_bump_def pb_current_def Let_def split: option.splits)
qed

lemma current_bump_other:
  assumes "(ac_id c, d) \<noteq> (ac_id c', d')"
  shows "pb_current (pb_bump t c d amount now) c' d' now' = pb_current t c' d' now'"
  using assms by (auto simp: pb_bump_def pb_current_def Let_def split: option.splits)

lemma bump_within_window:
  assumes "jm_get (pt_counters t) (pb_key (ac_id c) d) = Some r"
    and "\<not> elapsed (windowMsFor (pb_periodFor c d)) (pc_windowStart r) now"
  shows "jm_get (pt_counters (pb_bump t c d a now)) (pb_key (ac_id c) d) =
    Some (r\<lparr>pc_count := pc_count r + max 0 a\<rparr>)"
  using assms by (cases "a \<le> 0") (auto simp: pb_bump_def Let_def)

definition pb_exceeded :: "pb_tracker \<Rightarrow> provider_account \<Rightarrow> int \<Rightarrow> pb_dimension \<Rightarrow> bool" where
  "pb_exceeded t config now d = reached (pb_limitFor config d) (pb_current t config d now)"

lemma no_dimension_iff:
  "(\<forall>d. \<not> P d) \<longleftrightarrow> \<not> P PRequests \<and> \<not> P PTokens \<and> \<not> P PCost"
  by (metis pb_dimension.exhaust)

lemma pb_check_eq:
  "pb_check t c now =
      (if pb_exceeded t c now PRequests then Some (pb_deny t c PRequests ''provider_request_limit''
              (''Provider \"'' @ ac_id c @ ''\" has reached its request limit.'') now)
       else if pb_exceeded t c now PTokens then Some (pb_deny t c PTokens ''provider_token_limit''
              (''Provider \"'' @ ac_id c @ ''\" has reached its token limit.'') now)
       else if pb_exceeded t c now PCost then Some (pb_deny t c PCost ''provider_budget_exhausted''
              (''Provider \"'' @ ac_id c @ ''\" has exhausted its cost budget.'') now)
       else None)"
proof (cases "ac_governance c")
  case None
  then have "\<not> pb_exceeded t c now d" for d
    by (cases d) (simp_all add: pb_exceeded_def pb_limitFor_def reached_def)
  with None show ?thesis by (simp add: pb_check_def)
next
  case (Some gov)
  have ex: "pb_exceeded t c now PRequests = reached (gv_maxRequests gov) (pb_current t c PRequests now)"
    "pb_exceeded t c now PTokens = reached (gv_maxTokens gov) (pb_current t c PTokens now)"
    "pb_exceeded t c now PCost = reached (pb_limitFor c PCost) (pb_current t c PCost now)"
    using Some by (simp_all add: pb_exceeded_def pb_limitFor_def)
  show ?thesis by (simp add: pb_check_def Some ex)
qed

lemma pb_allows_iff: "pb_allows t c now \<longleftrightarrow> (\<forall>d. \<not> pb_exceeded t c now d)"
  unfolding no_dimension_iff by (simp add: pb_allows_def pb_check_eq)

text \<open>The check refuses exactly when some configured dimension has reached its limit in its
  current window, names the first such dimension in the order requests, tokens, cost, and its
  Retry-After is never negative and never longer than that dimension's window.\<close>

theorem provider_check_decision:
  "(pb_check t c now = None \<longleftrightarrow> (\<forall>d. \<not> pb_exceeded t c now d)) \<and>
   (\<forall>e. pb_check t c now = Some e \<longrightarrow>
      Some (pd_dimension e) = find (pb_exceeded t c now) [PRequests, PTokens, PCost] \<and>
      0 \<le> pd_retryAfterMs e \<and>
      (\<forall>r w. jm_get (pt_counters t) (pb_key (ac_id c) (pd_dimension e)) = Some r \<and>
         windowMsFor (pb_periodFor c (pd_dimension e)) = Some w \<and> pc_windowStart r \<le> now \<longrightarrow>
         pd_retryAfterMs e \<le> w))"
proof -
  have retry: "0 \<le> pd_retryAfterMs (pb_deny t c d code msg now)"
    "jm_get (pt_counters t) (pb_key (ac_id c) d) = Some r \<Longrightarrow> windowMsFor (pb_periodFor c d) = Some w \<Longrightarrow>
      pc_windowStart r \<le> now \<Longrightarrow> pd_retryAfterMs (pb_deny t c d code msg now) \<le> w" for d code msg r w
  proof -
    show "0 \<le> pd_retryAfterMs (pb_deny t c d code msg now)"
      by (simp add: pb_deny_def split: option.split)
    have "w \<ge> 0" if "windowMsFor (pb_periodFor c d) = Some w"
      using that by (cases "the (pb_periodFor c d)") (auto simp: windowMsFor_def)
    then show "jm_get (pt_counters t) (pb_key (ac_id c) d) = Some r \<Longrightarrow> windowMsFor (pb_periodFor c d) = Some w \<Longrightarrow>
      pc_windowStart r \<le> now \<Longrightarrow> pd_retryAfterMs (pb_deny t c d code msg now) \<le> w"
      by (simp add: pb_deny_def)
  qed
  have dim: "pd_dimension (pb_deny t c d code msg now) = d" for d code msg by (simp add: pb_deny_def)
  show ?thesis unfolding no_dimension_iff pb_check_eq using dim retry by (simp split: if_split)
qed

definition capped_account :: "string \<Rightarrow> int \<Rightarrow> provider_account" where
  "capped_account i n =
     \<lparr>ac_id = i, ac_type = OpenAI, ac_baseUrl = None, ac_endpoint = None, ac_apiVersion = None,
      ac_enabled = True, ac_models = [''m''], ac_priority = 0, ac_weight = None, ac_retry = None,
      ac_awsRegion = None, ac_awsAccessKeyId = None, ac_awsBatchRoleArn = None,
      ac_awsBatchOutputS3Uri = None, ac_awsS3Bucket = None, ac_awsS3Prefix = None,
      ac_projectId = None, ac_location = None, ac_performance = None,
      ac_governance = Some \<lparr>gv_budgetUsd = None, gv_budgetResetPeriod = None, gv_maxTokens = None,
        gv_tokensResetPeriod = None, gv_maxRequests = Some n, gv_requestsResetPeriod = Some Hourly\<rparr>,
      ac_betaHeaders = None, ac_debugging = None, pa_apiKey = None, pa_awsSecretAccessKey = None,
      pa_awsSessionToken = None, pa_serviceAccountJson = None, pa_proxyUrl = None,
      pa_network = None, pa_proxy = None\<rparr>"

lemma capped_account_simps [simp]:
  "ac_id (capped_account i n) = i" "ac_enabled (capped_account i n)"
  "ac_models (capped_account i n) = [''m'']" "ac_priority (capped_account i n) = 0"
  "ac_weight (capped_account i n) = None"
  "pb_periodFor (capped_account i n) PRequests = Some Hourly"
  "pb_limitFor (capped_account i n) PRequests = Some n"
  "pb_limitFor (capped_account i n) PTokens = None" "pb_limitFor (capped_account i n) PCost = None"
  by (simp_all add: capped_account_def pb_periodFor_def pb_limitFor_def)

theorem provider_check_decision_witness:
  "\<exists>e. pb_check (pb_bump pb_new (capped_account ''p'' 2) PRequests 2 10) (capped_account ''p'' 2) 20 = Some e \<and>
     pd_dimension e = PRequests \<and> pd_retryAfterMs e \<le> 3600000"
proof -
  let ?c = "capped_account ''p'' 2" and ?t = "pb_bump pb_new (capped_account ''p'' 2) PRequests 2 10"
  have t: "jm_get (pt_counters ?t) (pb_key ''p'' PRequests) = Some \<lparr>pc_count = 2, pc_windowStart = 10\<rparr>"
    by (simp add: pb_bump_def pb_new_def Let_def)
  have ex: "pb_exceeded ?t ?c 20 PRequests"
    by (simp add: pb_exceeded_def pb_current_def t elapsed_def windowMsFor_def reached_def)
  then obtain e where e: "pb_check ?t ?c 20 = Some e"
    using provider_check_decision [of ?t ?c 20] by (cases "pb_check ?t ?c 20") auto
  with provider_check_decision [of ?t ?c 20] ex have "pd_dimension e = PRequests" by simp
  moreover from this e provider_check_decision [of ?t ?c 20] t have "pd_retryAfterMs e \<le> 3600000"
    by (simp add: windowMsFor_def)
  ultimately show ?thesis using e by blast
qed

section \<open>The guard interface\<close>

text \<open>
  What \<open>ProviderManager\<close> relies on (\<open>ProviderBudgetGuard\<close>): recording is charged to one
  account only. \<open>admitting\<close> is \<open>check(config).ok\<close>.
\<close>

locale budget_guard =
  fixes admitting :: "'t \<Rightarrow> provider_account \<Rightarrow> int \<Rightarrow> bool"
    and charge :: "'t \<Rightarrow> provider_account \<Rightarrow> int \<Rightarrow> 't"
  assumes charge_local:
    "ac_id c \<noteq> ac_id c' \<Longrightarrow> admitting (charge t c now) c' now' = admitting t c' now'"
    and ungoverned: "ac_governance c = None \<Longrightarrow> admitting t c now"
begin

lemma charges_local:
  "\<forall>c \<in> set cs. ac_id c \<noteq> ac_id c' \<Longrightarrow>
    admitting (foldl (\<lambda>t c. charge t c now) t cs) c' now' = admitting t c' now'"
  by (induction cs arbitrary: t) (simp_all add: charge_local)

end

lemma recordRequest_local:
  assumes "ac_id c \<noteq> ac_id c'"
  shows "pb_allows (pb_recordRequest t c now) c' now' = pb_allows t c' now'"
proof -
  have "pb_current (pb_recordRequest t c now) c' d now' = pb_current t c' d now'" for d
    using assms by (simp add: pb_recordRequest_def current_bump_other)
  then show ?thesis by (simp add: pb_allows_iff pb_exceeded_def)
qed

interpretation pb_guard: budget_guard pb_allows pb_recordRequest
proof unfold_locales
  fix c c' :: provider_account and t now now'
  show "ac_id c \<noteq> ac_id c' \<Longrightarrow> pb_allows (pb_recordRequest t c now) c' now' = pb_allows t c' now'"
    by (rule recordRequest_local)
  show "ac_governance c = None \<Longrightarrow> pb_allows t c now"
    by (simp add: pb_allows_def pb_check_def)
qed

end
