(* ===== verification/ConfigService.thy ===== *)
theory ConfigService
  imports ProviderBudgets
begin

text \<open>
  The durable configuration service, \<open>klanker-gate/packages/config/src/service.ts\<close>, over the
  in-memory state store: CRUD for providers, settings, the global proxy, virtual keys, teams,
  customers, prices and MCP clients, the durable governance counters and window anchors, export
  and import, and the change announcements. The encryption engine is an optional pair of
  record transformations. MCP client records are the type variable \<open>'m\<close>, and the schema
  parsers of records other parts own are arguments. \<open>Async\<close> calls are steps.
\<close>

section \<open>Values and keys\<close>

type_synonym price_row = "string \<times> rat \<times> rat"

datatype 'm cfg_value =
    VProvider provider_account
  | VSettings "string option"
  | VProxy global_proxy
  | VKey virtual_key
  | VTeam team
  | VCustomer customer
  | VPricing "price_row list"
  | VMcp 'm
  | VAnchor int

datatype record_kind = ProviderRec | VirtualKeyRec | McpClientRec | GlobalProxyRec

record 'm record_crypto =
  rc_encrypt :: "record_kind \<Rightarrow> state_key \<Rightarrow> 'm cfg_value \<Rightarrow> 'm cfg_value"
  rc_decrypt :: "record_kind \<Rightarrow> state_key \<Rightarrow> 'm cfg_value \<Rightarrow> 'm cfg_value option"

record 'm config_service =
  cs_store :: "'m cfg_value mem_store"
  cs_crypto :: "'m record_crypto option"
  cs_announced :: nat

datatype cs_error = InvalidRecord | CryptoRequired | DecryptFailed

definition PROVIDERS_PREFIX :: state_key where
  "PROVIDERS_PREFIX = [KStr ''config'', KStr ''providers'']"

definition SETTINGS_KEY :: state_key where
  "SETTINGS_KEY = [KStr ''config'', KStr ''settings'']"

definition PRICING_KEY :: state_key where
  "PRICING_KEY = [KStr ''config'', KStr ''pricing'']"

definition GLOBAL_PROXY_KEY :: state_key where
  "GLOBAL_PROXY_KEY = [KStr ''config'', KStr ''global-proxy'']"

definition VIRTUAL_KEYS_PREFIX :: state_key where
  "VIRTUAL_KEYS_PREFIX = [KStr ''governance'', KStr ''virtual-keys'']"

definition USAGE_PREFIX :: state_key where
  "USAGE_PREFIX = [KStr ''governance'', KStr ''usage'']"

definition COST_PREFIX :: state_key where
  "COST_PREFIX = [KStr ''governance'', KStr ''cost'']"

definition TEAMS_PREFIX :: state_key where
  "TEAMS_PREFIX = [KStr ''governance'', KStr ''teams'']"

definition CUSTOMERS_PREFIX :: state_key where
  "CUSTOMERS_PREFIX = [KStr ''governance'', KStr ''customers'']"

definition MCP_CLIENTS_PREFIX :: state_key where
  "MCP_CLIENTS_PREFIX = [KStr ''mcp'', KStr ''clients'']"

section \<open>Records\<close>

definition cs_announce :: "'m config_service \<Rightarrow> 'm config_service" where
  "cs_announce c = c\<lparr>cs_announced := cs_announced c + 1\<rparr>"

definition cs_put :: "'m config_service \<Rightarrow> state_key \<Rightarrow> 'm cfg_value \<Rightarrow> 'm config_service" where
  "cs_put c key v = c\<lparr>cs_store := mem_set (cs_store c) key v\<rparr>"

definition cs_drop :: "'m config_service \<Rightarrow> state_key \<Rightarrow> 'm config_service" where
  "cs_drop c key = c\<lparr>cs_store := mem_delete (cs_store c) key\<rparr>"

definition cs_seal :: "'m config_service \<Rightarrow> record_kind \<Rightarrow> state_key \<Rightarrow> 'm cfg_value \<Rightarrow> 'm cfg_value" where
  "cs_seal c kind key v = (case cs_crypto c of None \<Rightarrow> v | Some cr \<Rightarrow> rc_encrypt cr kind key v)"

definition cs_open :: "'m config_service \<Rightarrow> record_kind \<Rightarrow> state_key \<Rightarrow> 'm cfg_value \<Rightarrow> 'm cfg_value option" where
  "cs_open c kind key v = (case cs_crypto c of None \<Rightarrow> Some v | Some cr \<Rightarrow> rc_decrypt cr kind key v)"

text \<open>\<open>Promise.all\<close> over decryptions: one failure fails the read.\<close>

fun cs_open_all ::
    "'m config_service \<Rightarrow> record_kind \<Rightarrow> (state_key \<times> 'm cfg_value) list \<Rightarrow> 'm cfg_value list option" where
  "cs_open_all c kind [] = Some []"
| "cs_open_all c kind ((k, v) # rows) =
     (case cs_open c kind k v of
        None \<Rightarrow> None
      | Some v' \<Rightarrow> map_option (Cons v') (cs_open_all c kind rows))"

definition plain_list :: list_options where
  "plain_list = \<lparr>lo_reverse = False, lo_limit = None\<rparr>"

definition cs_list ::
    "'m config_service \<Rightarrow> record_kind \<Rightarrow> state_key \<Rightarrow> cs_error + 'm cfg_value list" where
  "cs_list c kind pre =
     (case cs_open_all c kind (mem_list (cs_store c) pre plain_list) of
        None \<Rightarrow> Inl DecryptFailed | Some vs \<Rightarrow> Inr vs)"

definition cs_settings :: "'m config_service \<Rightarrow> string option" where
  "cs_settings c =
     (case mem_get (cs_store c) SETTINGS_KEY of Some (VSettings d) \<Rightarrow> d | _ \<Rightarrow> None)"

definition providers_of :: "'m cfg_value list \<Rightarrow> provider_account list" where
  "providers_of vs = concat (map (\<lambda>v. case v of VProvider p \<Rightarrow> [p] | _ \<Rightarrow> []) vs)"

definition cs_loadAll :: "'m config_service \<Rightarrow> cs_error + (string option \<times> provider_account list)" where
  "cs_loadAll c =
     (case cs_list c ProviderRec PROVIDERS_PREFIX of
        Inl e \<Rightarrow> Inl e | Inr vs \<Rightarrow> Inr (cs_settings c, providers_of vs))"

definition provider_key :: "string \<Rightarrow> state_key" where
  "provider_key i = PROVIDERS_PREFIX @ [KStr i]"

definition cs_upsertProvider ::
    "(provider_account \<Rightarrow> bool) \<Rightarrow> 'm config_service \<Rightarrow> provider_account \<Rightarrow> cs_error + 'm config_service" where
  "cs_upsertProvider schema c p =
     (if \<not> schema p then Inl InvalidRecord
      else Inr (cs_announce (cs_put c (provider_key (ac_id p))
             (cs_seal c ProviderRec (provider_key (ac_id p)) (VProvider p)))))"

definition cs_getProvider :: "'m config_service \<Rightarrow> string \<Rightarrow> cs_error + provider_account option" where
  "cs_getProvider c i =
     (case mem_get (cs_store c) (provider_key i) of
        None \<Rightarrow> Inr None
      | Some v \<Rightarrow>
          (case cs_open c ProviderRec (provider_key i) v of
             None \<Rightarrow> Inl DecryptFailed
           | Some (VProvider p) \<Rightarrow> Inr (Some p)
           | Some _ \<Rightarrow> Inr None))"

definition cs_deleteProvider :: "'m config_service \<Rightarrow> string \<Rightarrow> 'm config_service" where
  "cs_deleteProvider c i = cs_announce (cs_drop c (provider_key i))"

definition cs_setDefaultProvider :: "'m config_service \<Rightarrow> string option \<Rightarrow> 'm config_service" where
  "cs_setDefaultProvider c i = cs_announce (cs_put c SETTINGS_KEY (VSettings i))"

definition cs_getGlobalProxy ::
    "(global_proxy \<Rightarrow> bool) \<Rightarrow> 'm config_service \<Rightarrow> cs_error + global_proxy option" where
  "cs_getGlobalProxy schema c =
     (case mem_get (cs_store c) GLOBAL_PROXY_KEY of
        None \<Rightarrow> Inr None
      | Some v \<Rightarrow>
          if cs_crypto c = None then Inl CryptoRequired
          else (case cs_open c GlobalProxyRec GLOBAL_PROXY_KEY v of
                  None \<Rightarrow> Inl DecryptFailed
                | Some (VProxy g) \<Rightarrow> if schema g then Inr (Some g) else Inl InvalidRecord
                | Some _ \<Rightarrow> Inl InvalidRecord))"

definition cs_setGlobalProxy ::
    "(global_proxy \<Rightarrow> bool) \<Rightarrow> 'm config_service \<Rightarrow> global_proxy \<Rightarrow> cs_error + 'm config_service" where
  "cs_setGlobalProxy schema c g =
     (if cs_crypto c = None then Inl CryptoRequired
      else if \<not> schema g then Inl InvalidRecord
      else Inr (cs_announce (cs_put c GLOBAL_PROXY_KEY
             (cs_seal c GlobalProxyRec GLOBAL_PROXY_KEY (VProxy g)))))"

definition cs_deleteGlobalProxy :: "'m config_service \<Rightarrow> 'm config_service" where
  "cs_deleteGlobalProxy c = cs_announce (cs_drop c GLOBAL_PROXY_KEY)"

datatype provider_view = FullView provider_account | PublicView account_public

record config_export =
  ex_version :: nat
  ex_exportedAt :: string
  ex_defaultProvider :: "string option"
  ex_providers :: "provider_view list"

definition cs_exportConfig ::
    "'m config_service \<Rightarrow> bool \<Rightarrow> string \<Rightarrow> cs_error + config_export" where
  "cs_exportConfig c includeSecrets exportedAt =
     (case cs_loadAll c of
        Inl e \<Rightarrow> Inl e
      | Inr (d, ps) \<Rightarrow>
          Inr \<lparr>ex_version = 1, ex_exportedAt = exportedAt, ex_defaultProvider = d,
               ex_providers = map (\<lambda>p. if includeSecrets then FullView p
                                       else PublicView (redactProviderAccount p)) ps\<rparr>)"

text \<open>Import deletes every provider row and then upserts one by one; the first record that does
  not parse stops it with the rows written so far.\<close>

fun cs_upsertAll ::
    "(provider_account \<Rightarrow> bool) \<Rightarrow> 'm config_service \<Rightarrow> provider_account list \<Rightarrow> 'm config_service \<times> bool" where
  "cs_upsertAll schema c [] = (c, True)"
| "cs_upsertAll schema c (p # ps) =
     (case cs_upsertProvider schema c p of
        Inl _ \<Rightarrow> (c, False) | Inr c' \<Rightarrow> cs_upsertAll schema c' ps)"

definition cs_importConfig ::
    "(provider_account \<Rightarrow> bool) \<Rightarrow> 'm config_service \<Rightarrow> string option \<Rightarrow> provider_account list \<Rightarrow>
     'm config_service \<times> bool" where
  "cs_importConfig schema c d ps =
     (let c1 = foldl (\<lambda>c row. cs_drop c (fst row)) c (mem_list (cs_store c) PROVIDERS_PREFIX plain_list);
          (c2, ok) = cs_upsertAll schema c1 ps
      in if ok then (cs_setDefaultProvider c2 d, True) else (c2, False))"

section \<open>Virtual keys, teams, customers, prices, MCP clients\<close>

definition key_key :: "string \<Rightarrow> state_key" where
  "key_key i = VIRTUAL_KEYS_PREFIX @ [KStr i]"

definition cs_listVirtualKeys :: "'m config_service \<Rightarrow> cs_error + virtual_key list" where
  "cs_listVirtualKeys c =
     (case cs_list c VirtualKeyRec VIRTUAL_KEYS_PREFIX of
        Inl e \<Rightarrow> Inl e
      | Inr vs \<Rightarrow> Inr (concat (map (\<lambda>v. case v of VKey k \<Rightarrow> [k] | _ \<Rightarrow> []) vs)))"

definition cs_upsertVirtualKey :: "'m config_service \<Rightarrow> vk_input \<Rightarrow> cs_error + 'm config_service" where
  "cs_upsertVirtualKey c inp =
     (case vk_parse inp of
        Inl _ \<Rightarrow> Inl InvalidRecord
      | Inr k \<Rightarrow> Inr (cs_announce (cs_put c (key_key (vk_id k))
                   (cs_seal c VirtualKeyRec (key_key (vk_id k)) (VKey k)))))"

definition cs_deleteCount :: "'m config_service \<Rightarrow> state_key \<Rightarrow> 'm config_service" where
  "cs_deleteCount c key = c\<lparr>cs_store := mem_deleteCount (cs_store c) key\<rparr>"

definition cs_deleteVirtualKey :: "'m config_service \<Rightarrow> string \<Rightarrow> 'm config_service" where
  "cs_deleteVirtualKey c i =
     cs_announce (cs_deleteCount (cs_deleteCount (cs_drop c (key_key i))
       (USAGE_PREFIX @ [KStr i])) (COST_PREFIX @ [KStr i]))"

definition cs_listTeams :: "'m config_service \<Rightarrow> team list" where
  "cs_listTeams c =
     concat (map (\<lambda>(_, v). case v of VTeam t \<Rightarrow> [t] | _ \<Rightarrow> []) (mem_list (cs_store c) TEAMS_PREFIX plain_list))"

definition cs_upsertTeam :: "'m config_service \<Rightarrow> entity_input \<Rightarrow> cs_error + 'm config_service" where
  "cs_upsertTeam c i =
     (case parse_team i of
        Inl _ \<Rightarrow> Inl InvalidRecord
      | Inr t \<Rightarrow> Inr (cs_announce (cs_put c (TEAMS_PREFIX @ [KStr (ei_id i)]) (VTeam t))))"

definition cs_deleteTeam :: "'m config_service \<Rightarrow> string \<Rightarrow> 'm config_service" where
  "cs_deleteTeam c i =
     cs_announce (cs_drop (cs_drop (cs_drop c (TEAMS_PREFIX @ [KStr i]))
       [KStr ''governance'', KStr ''team-usage'', KStr i])
       [KStr ''governance'', KStr ''team-cost'', KStr i])"

definition cs_listCustomers :: "'m config_service \<Rightarrow> customer list" where
  "cs_listCustomers c =
     concat (map (\<lambda>(_, v). case v of VCustomer t \<Rightarrow> [t] | _ \<Rightarrow> [])
       (mem_list (cs_store c) CUSTOMERS_PREFIX plain_list))"

definition cs_upsertCustomer :: "'m config_service \<Rightarrow> entity_input \<Rightarrow> cs_error + 'm config_service" where
  "cs_upsertCustomer c i =
     (case parse_customer i of
        Inl _ \<Rightarrow> Inl InvalidRecord
      | Inr t \<Rightarrow> Inr (cs_announce (cs_put c (CUSTOMERS_PREFIX @ [KStr (ei_id i)]) (VCustomer t))))"

definition cs_deleteCustomer :: "'m config_service \<Rightarrow> string \<Rightarrow> 'm config_service" where
  "cs_deleteCustomer c i =
     cs_announce (cs_drop (cs_drop (cs_drop c (CUSTOMERS_PREFIX @ [KStr i]))
       [KStr ''governance'', KStr ''customer-usage'', KStr i])
       [KStr ''governance'', KStr ''customer-cost'', KStr i])"

definition cs_loadPricing :: "'m config_service \<Rightarrow> price_row list option" where
  "cs_loadPricing c = (case mem_get (cs_store c) PRICING_KEY of Some (VPricing p) \<Rightarrow> Some p | _ \<Rightarrow> None)"

definition cs_savePricing :: "'m config_service \<Rightarrow> price_row list \<Rightarrow> 'm config_service" where
  "cs_savePricing c p = cs_announce (cs_put c PRICING_KEY (VPricing p))"

definition cs_listMCPClients :: "'m config_service \<Rightarrow> cs_error + 'm list" where
  "cs_listMCPClients c =
     (case cs_list c McpClientRec MCP_CLIENTS_PREFIX of
        Inl e \<Rightarrow> Inl e
      | Inr vs \<Rightarrow> Inr (concat (map (\<lambda>v. case v of VMcp m \<Rightarrow> [m] | _ \<Rightarrow> []) vs)))"

definition cs_upsertMCPClient ::
    "('m \<Rightarrow> (string \<times> 'm) option) \<Rightarrow> 'm config_service \<Rightarrow> 'm \<Rightarrow> cs_error + 'm config_service" where
  "cs_upsertMCPClient parse c m =
     (case parse m of
        None \<Rightarrow> Inl InvalidRecord
      | Some (i, v) \<Rightarrow> Inr (cs_announce (cs_put c (MCP_CLIENTS_PREFIX @ [KStr i])
                        (cs_seal c McpClientRec (MCP_CLIENTS_PREFIX @ [KStr i]) (VMcp v)))))"

definition cs_deleteMCPClient :: "'m config_service \<Rightarrow> string \<Rightarrow> 'm config_service" where
  "cs_deleteMCPClient c i = cs_announce (cs_drop c (MCP_CLIENTS_PREFIX @ [KStr i]))"

section \<open>Durable counters and anchors\<close>

definition counter_path :: "string \<Rightarrow> string \<Rightarrow> state_key" where
  "counter_path kind i = [KStr ''governance'', KStr kind, KStr i]"

definition cs_sum :: "'m config_service \<Rightarrow> state_key \<Rightarrow> int \<Rightarrow> 'm config_service" where
  "cs_sum c key n = c\<lparr>cs_store := mem_sum (cs_store c) key n\<rparr>"

definition cs_addCost :: "'m config_service \<Rightarrow> string \<Rightarrow> int \<Rightarrow> 'm config_service" where
  "cs_addCost c i n = (if n > 0 then cs_sum c (COST_PREFIX @ [KStr i]) n else c)"

definition cs_addUsage :: "'m config_service \<Rightarrow> string \<Rightarrow> int \<Rightarrow> 'm config_service" where
  "cs_addUsage c i n = cs_sum c (USAGE_PREFIX @ [KStr i]) n"

definition cs_addCounter :: "'m config_service \<Rightarrow> string \<Rightarrow> string \<Rightarrow> int \<Rightarrow> 'm config_service" where
  "cs_addCounter c kind i n = (if n > 0 then cs_sum c (counter_path kind i) n else c)"

text \<open>\<open>record[id] = value\<close> over the listed rows, the id being the last part of the row's key.\<close>

definition last_part :: "state_key \<Rightarrow> string" where
  "last_part key = part_str (last key)"

definition rows_to_record :: "(state_key \<times> int) list \<Rightarrow> (string \<times> int) list" where
  "rows_to_record rows = foldl (\<lambda>m (k, n). jm_set m (last_part k) n) [] rows"

definition cs_loadCounts :: "'m config_service \<Rightarrow> state_key \<Rightarrow> (string \<times> int) list" where
  "cs_loadCounts c pre = rows_to_record (mem_listCounts (cs_store c) pre)"

definition cs_loadCounters :: "'m config_service \<Rightarrow> string \<Rightarrow> (string \<times> int) list" where
  "cs_loadCounters c kind = cs_loadCounts c [KStr ''governance'', KStr kind]"

definition cs_loadCosts :: "'m config_service \<Rightarrow> (string \<times> int) list" where
  "cs_loadCosts c = cs_loadCounts c COST_PREFIX"

definition cs_loadUsage :: "'m config_service \<Rightarrow> (string \<times> int) list" where
  "cs_loadUsage c = cs_loadCounts c USAGE_PREFIX"

definition anchor_kind :: "string \<Rightarrow> string" where
  "anchor_kind kind = kind @ ''-anchor''"

definition cs_setAnchor :: "'m config_service \<Rightarrow> string \<Rightarrow> string \<Rightarrow> int \<Rightarrow> 'm config_service" where
  "cs_setAnchor c kind i t = cs_put c (counter_path (anchor_kind kind) i) (VAnchor t)"

definition cs_loadAnchors :: "'m config_service \<Rightarrow> string \<Rightarrow> (string \<times> int) list" where
  "cs_loadAnchors c kind =
     rows_to_record (concat (map (\<lambda>(k, v). case v of VAnchor t \<Rightarrow> [(k, t)] | _ \<Rightarrow> [])
       (mem_list (cs_store c) [KStr ''governance'', KStr (anchor_kind kind)] plain_list)))"

section \<open>What the durable rows hold\<close>

text \<open>
  The rows of one governance kind lie exactly one level below \<open>["governance", kind]\<close>, each in
  the slot of its own key.
\<close>

definition flat_kind :: "(string, state_key \<times> 'a) jmap \<Rightarrow> string \<Rightarrow> bool" where
  "flat_kind rows kind \<longleftrightarrow> jm_ok rows \<and>
     (\<forall>slot key v. jm_get rows slot = Some (key, v) \<longrightarrow> slot = keyId key \<and> sep_free key \<and>
        (hasPrefix key [KStr ''governance'', KStr kind] \<longrightarrow>
          (\<exists>i. key_sep \<notin> set i \<and> key = counter_path kind i)))"

lemma flat_kindD:
  "flat_kind rows kind \<Longrightarrow> jm_get rows sl = Some (key, v) \<Longrightarrow>
    sl = keyId key \<and> sep_free key \<and> (hasPrefix key [KStr ''governance'', KStr kind] \<longrightarrow>
      (\<exists>i. key_sep \<notin> set i \<and> key = counter_path kind i))"
  unfolding flat_kind_def by blast

lemma counter_path_prefix [simp]:
  "hasPrefix (counter_path k i) [KStr ''governance'', KStr kind] \<longleftrightarrow> k = kind"
  by (simp add: hasPrefix_def counter_path_def)

lemma counter_path_sep_free:
  "key_sep \<notin> set k \<Longrightarrow> key_sep \<notin> set i \<Longrightarrow> sep_free (counter_path k i)"
  by (simp add: sep_free_def counter_path_def)

lemma counter_path_inj:
  assumes "key_sep \<notin> set k" "key_sep \<notin> set i" "key_sep \<notin> set k'" "key_sep \<notin> set i'"
  shows "keyId (counter_path k i) = keyId (counter_path k' i') \<longleftrightarrow> k = k' \<and> i = i'"
  using keyId_eq_iff [OF counter_path_sep_free counter_path_sep_free] assms
  by (simp add: counter_path_def)

lemma last_part_path [simp]: "last_part (counter_path k i) = i"
  by (simp add: last_part_def counter_path_def)

lemma flat_kind_set:
  assumes "flat_kind rows kind" and "sep_free key"
    and "hasPrefix key [KStr ''governance'', KStr kind] \<Longrightarrow> \<exists>i. key_sep \<notin> set i \<and> key = counter_path kind i"
  shows "flat_kind (jm_set rows (keyId key) (key, v)) kind"
  using assms unfolding flat_kind_def by (auto split: if_splits)

lemma record_fold_lookup:
  "map_of (foldl (\<lambda>m (k, n). jm_set m (last_part k) n) m0 rows) i =
     (case map_of (rev (map (\<lambda>(k, n). (last_part k, n)) rows)) i of None \<Rightarrow> map_of m0 i | Some n \<Rightarrow> Some n)"
proof (induction rows arbitrary: m0)
  case (Cons row rows)
  then show ?case by (cases row) (auto simp: map_add_def split: option.splits)
qed simp

lemma record_lookup:
  assumes "\<And>n m. (i, n) \<in> (\<lambda>(k, n). (last_part k, n)) ` set rows \<Longrightarrow>
      (i, m) \<in> (\<lambda>(k, n). (last_part k, n)) ` set rows \<Longrightarrow> n = m"
  shows "map_of (rows_to_record rows) i = Some n \<longleftrightarrow> (i, n) \<in> (\<lambda>(k, n). (last_part k, n)) ` set rows"
proof -
  let ?ps = "rev (map (\<lambda>(k, n). (last_part k, n)) rows)"
  have look: "map_of (rows_to_record rows) i = map_of ?ps i"
    by (simp add: rows_to_record_def record_fold_lookup split: option.split)
  show ?thesis
  proof
    assume "map_of (rows_to_record rows) i = Some n"
    then have "(i, n) \<in> set ?ps" using look map_of_SomeD by metis
    then show "(i, n) \<in> (\<lambda>(k, n). (last_part k, n)) ` set rows" by auto
  next
    assume mem: "(i, n) \<in> (\<lambda>(k, n). (last_part k, n)) ` set rows"
    then have "map_of ?ps i \<noteq> None" by (auto simp: map_of_eq_None_iff) force
    then obtain m where m: "map_of ?ps i = Some m" by blast
    then have "(i, m) \<in> (\<lambda>(k, n). (last_part k, n)) ` set rows"
      using map_of_SomeD [OF m] by auto
    with assms mem have "m = n" by blast
    with m look show "map_of (rows_to_record rows) i = Some n" by simp
  qed
qed

text \<open>Reading a kind back gives each id its own row.\<close>

lemma flat_lookup:
  assumes flat: "flat_kind rows kind" and kind: "key_sep \<notin> set kind" and i: "key_sep \<notin> set i"
    and rs: "set rs = {row \<in> set (jm_values rows). hasPrefix (fst row) [KStr ''governance'', KStr kind]}"
  shows "map_of (rows_to_record rs) i = map_option snd (jm_get rows (keyId (counter_path kind i)))"
proof -
  let ?slot = "keyId (counter_path kind i)"
  have row: "(i, n) \<in> (\<lambda>(k, n). (last_part k, n)) ` set rs \<longleftrightarrow>
      jm_get rows ?slot = Some (counter_path kind i, n)" for n
  proof
    assume "(i, n) \<in> (\<lambda>(k, n). (last_part k, n)) ` set rs"
    then obtain k slot where k: "(slot, k, n) \<in> set rows" "last_part k = i"
      "hasPrefix k [KStr ''governance'', KStr kind]"
      using rs by force
    with flat have "jm_get rows slot = Some (k, n)" by (simp add: flat_kind_def)
    with flat k obtain j where "k = counter_path kind j" "slot = keyId k" by (fastforce simp: flat_kind_def)
    with k flat show "jm_get rows ?slot = Some (counter_path kind i, n)"
      by (simp add: flat_kind_def)
  next
    assume "jm_get rows ?slot = Some (counter_path kind i, n)"
    then have "(counter_path kind i, n) \<in> set rs" using rs by (auto dest: get_values)
    then show "(i, n) \<in> (\<lambda>(k, n). (last_part k, n)) ` set rs" by force
  qed
  have key: "k = counter_path kind i" if "jm_get rows ?slot = Some (k, n)" for k n
  proof -
    have k: "keyId k = ?slot" "sep_free k" "hasPrefix k [KStr ''governance'', KStr kind] \<Longrightarrow>
        \<exists>j. key_sep \<notin> set j \<and> k = counter_path kind j"
      using flat_kindD [OF flat that] by auto
    then have "map part_str k = map part_str (counter_path kind i)"
      using keyId_eq_iff counter_path_sep_free [OF kind i] by blast
    then have "hasPrefix k [KStr ''governance'', KStr kind]"
      unfolding hasPrefix_iff by (simp add: counter_path_def)
    with k(3) obtain j where "k = counter_path kind j" "key_sep \<notin> set j" by blast
    with k(1) counter_path_inj kind i show ?thesis by metis
  qed
  show ?thesis
  proof (cases "jm_get rows ?slot")
    case None
    then have "map_of (rows_to_record rs) i \<noteq> Some n" for n
      using record_lookup [of i rs n] row by auto
    with None show ?thesis by (cases "map_of (rows_to_record rs) i") auto
  next
    case (Some kn)
    obtain n where n: "jm_get rows ?slot = Some (counter_path kind i, n)"
      using Some key by (cases kn) auto
    then have "map_of (rows_to_record rs) i = Some n"
      using record_lookup [of i rs n] row by auto
    with n show ?thesis by simp
  qed
qed

lemma load_counters:
  assumes "flat_kind (ms_counters (cs_store c)) kind" and "key_sep \<notin> set kind" and "key_sep \<notin> set i"
  shows "map_of (cs_loadCounters c kind) i =
    map_option snd (jm_get (ms_counters (cs_store c)) (keyId (counter_path kind i)))"
  unfolding cs_loadCounters_def cs_loadCounts_def
  by (rule flat_lookup [OF assms]) (auto simp: mem_listCounts_def)

end
