(* ===== verification/Recovery.thy ===== *)
theory Recovery
  imports ConfigService "HOL-Library.Multiset"
begin

text \<open>
  Restart recovery of the governance counters
  (\<open>klanker-gate/apps/gateway/context.ts\<close>, \<open>createDefaultContext\<close>): the sinks that write every
  increment and anchor to the configuration service, and the hydration at the next boot, for the
  provider budgets and for teams and virtual keys that are deleted. The sinks do not wait for
  their writes: a failed one is counted and logged once, and its amount is missing from the store at the
  next boot. What the sinks were told is the tracker's log; what the store holds is the log of the writes
  that completed, which is an argument of the restart.
\<close>

section \<open>Provider budgets across a restart\<close>

definition provider_kind :: "pb_dimension \<Rightarrow> string" where
  "provider_kind d = ''provider-'' @ pb_dim_str d"

text \<open>What the store holds after the given writes of the sinks have completed.\<close>

definition flush_counts ::
    "'m config_service \<Rightarrow> (pb_dimension \<times> string \<times> int) list \<Rightarrow> 'm config_service" where
  "flush_counts = foldl (\<lambda>c (d, i, n). cs_addCounter c (provider_kind d) i n)"

definition flush_anchors ::
    "'m config_service \<Rightarrow> (pb_dimension \<times> string \<times> int) list \<Rightarrow> 'm config_service" where
  "flush_anchors = foldl (\<lambda>c (d, i, t). cs_setAnchor c (provider_kind d) i t)"

definition pb_boot :: "'m config_service \<Rightarrow> int \<Rightarrow> pb_tracker" where
  "pb_boot c now =
     foldl (\<lambda>t d. pb_hydrate t d (cs_loadCounters c (provider_kind d))
                    (cs_loadAnchors c (provider_kind d)) now)
       pb_new [PRequests, PTokens, PCost]"

text \<open>The first process: a fresh tracker with its sinks, fed with recorded amounts.\<close>

definition pb_start :: pb_tracker where
  "pb_start = pb_onAnchor (pb_onRecord pb_new)"

definition pb_feed ::
    "(string \<Rightarrow> provider_account) \<Rightarrow> pb_tracker \<Rightarrow> (pb_dimension \<times> string \<times> int \<times> int) list \<Rightarrow> pb_tracker" where
  "pb_feed cfg = foldl (\<lambda>t (d, i, amount, now). pb_bump t (cfg i) d amount now)"

text \<open>The next process, when \<open>kept\<close> are the counter writes that completed and every anchor write did; and when
  all completed.\<close>

definition pb_restarted_after ::
    "'m config_service \<Rightarrow> pb_tracker \<Rightarrow> (pb_dimension \<times> string \<times> int) list \<Rightarrow> int \<Rightarrow> pb_tracker" where
  "pb_restarted_after c t kept now =
     pb_boot (flush_anchors (flush_counts c kept) (or_default (pt_anchorSink t) [])) now"

definition pb_restarted :: "'m config_service \<Rightarrow> pb_tracker \<Rightarrow> int \<Rightarrow> pb_tracker" where
  "pb_restarted c t now = pb_restarted_after c t (or_default (pt_sink t) []) now"

subsection \<open>The durable side\<close>

text \<open>What a log says about one counter: the sum of its entries, and its last entry.\<close>

definition log_total :: "(pb_dimension \<times> string \<times> int) list \<Rightarrow> pb_dimension \<Rightarrow> string \<Rightarrow> int" where
  "log_total L d i = sum_list (map (\<lambda>(d', i', n). if d' = d \<and> i' = i then n else 0) L)"

definition log_last :: "(pb_dimension \<times> string \<times> int) list \<Rightarrow> pb_dimension \<Rightarrow> string \<Rightarrow> int option" where
  "log_last L d i = map_of (rev (map (\<lambda>(d', i', n). ((d', i'), n)) L)) (d, i)"

lemma log_total_simps [simp]:
  "log_total [] d i = 0"
  "log_total (L @ [(d', i', n)]) d i = log_total L d i + (if d' = d \<and> i' = i then n else 0)"
  by (simp_all add: log_total_def)

lemma log_last_simps [simp]:
  "log_last [] d i = None"
  "log_last (L @ [(d', i', n)]) d i = (if d' = d \<and> i' = i then Some n else log_last L d i)"
  by (simp_all add: log_last_def)

definition ids_ok :: "(pb_dimension \<times> string \<times> int) list \<Rightarrow> bool" where
  "ids_ok L \<longleftrightarrow> (\<forall>(d, i, n) \<in> set L. key_sep \<notin> set i)"

lemma provider_kind_sep [simp]: "key_sep \<notin> set (provider_kind d)"
  "key_sep \<notin> set (anchor_kind (provider_kind d))"
  by (cases d; simp add: provider_kind_def anchor_kind_def)+

lemma provider_kind_inj [simp]:
  "provider_kind d = provider_kind e \<longleftrightarrow> d = e"
  "anchor_kind (provider_kind d) = anchor_kind (provider_kind e) \<longleftrightarrow> d = e"
  by (cases d; cases e; simp add: provider_kind_def anchor_kind_def)+

definition clean :: "'m config_service \<Rightarrow> bool" where
  "clean c \<longleftrightarrow>
     (\<forall>d. flat_kind (ms_counters (cs_store c)) (provider_kind d) \<and>
          flat_kind (ms_values (cs_store c)) (anchor_kind (provider_kind d)))"

definition durable :: "'m config_service \<Rightarrow> pb_dimension \<Rightarrow> string \<Rightarrow> int option" where
  "durable c d i = map_option snd (jm_get (ms_counters (cs_store c)) (keyId (counter_path (provider_kind d) i)))"

definition anchored :: "'m config_service \<Rightarrow> pb_dimension \<Rightarrow> string \<Rightarrow> 'm cfg_value option" where
  "anchored c d i =
     map_option snd (jm_get (ms_values (cs_store c)) (keyId (counter_path (anchor_kind (provider_kind d)) i)))"

lemma addCounter_counters:
  "ms_counters (cs_store (cs_addCounter c k i n)) =
     (if 0 < n then jm_set (ms_counters (cs_store c)) (keyId (counter_path k i))
        (counter_path k i, mem_count (cs_store c) (keyId (counter_path k i)) + n)
      else ms_counters (cs_store c))"
  by (simp add: cs_addCounter_def cs_sum_def mem_sum_def)

lemma addCounter_values [simp]:
  "ms_values (cs_store (cs_addCounter c k i n)) = ms_values (cs_store c)"
  by (simp add: cs_addCounter_def cs_sum_def mem_sum_def)

lemma setAnchor_values:
  "ms_values (cs_store (cs_setAnchor c k i n)) =
     jm_set (ms_values (cs_store c)) (keyId (counter_path (anchor_kind k) i))
       (counter_path (anchor_kind k) i, VAnchor n)"
  by (simp add: cs_setAnchor_def cs_put_def mem_set_def)

lemma setAnchor_counters [simp]:
  "ms_counters (cs_store (cs_setAnchor c k i n)) = ms_counters (cs_store c)"
  by (simp add: cs_setAnchor_def cs_put_def mem_set_def)

lemma path_set_flat:
  assumes "flat_kind rows kind" and "key_sep \<notin> set i" and "key_sep \<notin> set k"
  shows "flat_kind (jm_set rows (keyId (counter_path k i)) (counter_path k i, v)) kind"
  by (rule flat_kind_set) (use assms in \<open>auto simp: counter_path_sep_free\<close>)

lemma addCounter_clean:
  "clean c \<Longrightarrow> key_sep \<notin> set i \<Longrightarrow> clean (cs_addCounter c (provider_kind d) i n)"
  by (simp add: clean_def addCounter_counters path_set_flat)

lemma setAnchor_clean:
  "clean c \<Longrightarrow> key_sep \<notin> set i \<Longrightarrow> clean (cs_setAnchor c (provider_kind d) i n)"
  by (simp add: clean_def setAnchor_values path_set_flat)

lemma addCounter_durable:
  assumes "key_sep \<notin> set i" and "key_sep \<notin> set j" and "0 < n"
  shows "durable (cs_addCounter c (provider_kind d) i n) e j =
    (if d = e \<and> i = j then Some (or_default (durable c e j) 0 + n) else durable c e j)"
proof -
  have "keyId (counter_path (provider_kind e) j) = keyId (counter_path (provider_kind d) i) \<longleftrightarrow>
      d = e \<and> i = j"
    using counter_path_inj [of "provider_kind e" j "provider_kind d" i] assms by auto
  then show ?thesis
    using assms(3)
    by (cases "d = e \<and> i = j")
      (auto simp: durable_def addCounter_counters mem_count_def or_default_def split: option.split)
qed

lemma setAnchor_anchored:
  assumes "key_sep \<notin> set i" and "key_sep \<notin> set j"
  shows "anchored (cs_setAnchor c (provider_kind d) i n) e j =
    (if d = e \<and> i = j then Some (VAnchor n) else anchored c e j)"
proof -
  have "keyId (counter_path (anchor_kind (provider_kind e)) j) =
      keyId (counter_path (anchor_kind (provider_kind d)) i) \<longleftrightarrow> d = e \<and> i = j"
    using counter_path_inj [of "anchor_kind (provider_kind e)" j "anchor_kind (provider_kind d)" i] assms
    by auto
  then show ?thesis by (auto simp: anchored_def setAnchor_values)
qed

definition sink_ok :: "(pb_dimension \<times> string \<times> int) list \<Rightarrow> bool" where
  "sink_ok L \<longleftrightarrow> (\<forall>(d, i, n) \<in> set L. key_sep \<notin> set i \<and> 0 < n)"

lemma log_total_nonneg: "sink_ok L \<Longrightarrow> 0 \<le> log_total L d i"
  unfolding sink_ok_def log_total_def by (intro sum_list_nonneg) auto

lemma flush_counts_durable:
  assumes "clean c" and "durable c d i = None" and "sink_ok L" and "key_sep \<notin> set i"
  shows "clean (flush_counts c L) \<and> ms_values (cs_store (flush_counts c L)) = ms_values (cs_store c) \<and>
    durable (flush_counts c L) d i = (if log_total L d i = 0 then None else Some (log_total L d i))"
  using assms(3)
proof (induction L rule: rev_induct)
  case Nil
  with assms show ?case by (simp add: flush_counts_def)
next
  case (snoc e L)
  obtain d' j n where e: "e = (d', j, n)" by (cases e) auto
  have ok: "sink_ok L" "key_sep \<notin> set j" "0 < n" using snoc.prems e by (auto simp: sink_ok_def)
  have step: "flush_counts c (L @ [e]) = cs_addCounter (flush_counts c L) (provider_kind d') j n"
    by (simp add: flush_counts_def e)
  show ?case
    using snoc.IH [OF ok(1)] ok log_total_nonneg [OF ok(1), of d i] assms(4)
    unfolding step by (auto simp: e addCounter_clean addCounter_durable or_default_def)
qed

lemma flush_anchors_anchored:
  assumes "clean c" and "ids_ok A" and "key_sep \<notin> set i"
  shows "clean (flush_anchors c A) \<and> ms_counters (cs_store (flush_anchors c A)) = ms_counters (cs_store c) \<and>
    anchored (flush_anchors c A) d i =
      (case log_last A d i of None \<Rightarrow> anchored c d i | Some t \<Rightarrow> Some (VAnchor t))"
  using assms(2)
proof (induction A rule: rev_induct)
  case Nil
  with assms show ?case by (simp add: flush_anchors_def)
next
  case (snoc e A)
  obtain d' j n where e: "e = (d', j, n)" by (cases e) auto
  have ok: "ids_ok A" "key_sep \<notin> set j" using snoc.prems e by (auto simp: ids_ok_def)
  have step: "flush_anchors c (A @ [e]) = cs_setAnchor (flush_anchors c A) (provider_kind d') j n"
    by (simp add: flush_anchors_def e)
  show ?case
    using snoc.IH [OF ok(1)] ok assms(3)
    unfolding step by (auto simp: e setAnchor_clean setAnchor_anchored)
qed

text \<open>The anchors of a kind, as a map of their own.\<close>

definition anchor_rows :: "(string, state_key \<times> 'm cfg_value) jmap \<Rightarrow> (string, state_key \<times> int) jmap" where
  "anchor_rows rows = concat (map (\<lambda>(sl, k, v). case v of VAnchor t \<Rightarrow> [(sl, k, t)] | _ \<Rightarrow> []) rows)"

lemma anchor_rows_keys: "fst ` set (anchor_rows rows) \<subseteq> fst ` set rows"
  by (force simp: anchor_rows_def split: cfg_value.splits)

lemma anchor_rows_get:
  "jm_ok rows \<Longrightarrow> jm_ok (anchor_rows rows) \<and>
    jm_get (anchor_rows rows) sl =
      (case jm_get rows sl of Some (k, VAnchor t) \<Rightarrow> Some (k, t) | _ \<Rightarrow> None)"
proof (induction rows)
  case (Cons r rows)
  obtain s k v where r: "r = (s, k, v)" by (cases r) auto
  have rest: "jm_get (anchor_rows rows) s = None" "s \<notin> fst ` set (anchor_rows rows)"
    using Cons.prems r anchor_rows_keys [of rows] by (auto simp: map_of_eq_None_iff)
  have split: "anchor_rows (r # rows) =
      (case v of VAnchor t \<Rightarrow> [(s, k, t)] | _ \<Rightarrow> []) @ anchor_rows rows"
    by (simp add: anchor_rows_def r)
  show ?case
    using Cons r rest unfolding split by (cases v) auto
qed (simp add: anchor_rows_def)

lemma load_anchors:
  assumes "flat_kind (ms_values (cs_store c)) (anchor_kind k)" and "key_sep \<notin> set (anchor_kind k)"
    and "key_sep \<notin> set i"
  shows "map_of (cs_loadAnchors c k) i =
    (case map_option snd (jm_get (ms_values (cs_store c)) (keyId (counter_path (anchor_kind k) i))) of
       Some (VAnchor t) \<Rightarrow> Some t | _ \<Rightarrow> None)"
proof -
  let ?rows = "ms_values (cs_store c)"
  have ok: "jm_ok ?rows" using assms(1) by (simp add: flat_kind_def)
  have "\<exists>v'. jm_get ?rows sl = Some (key, v')" if "jm_get (anchor_rows ?rows) sl = Some (key, v)" for sl key v
    using that anchor_rows_get [OF ok, of sl] by (auto split: option.splits cfg_value.splits)
  then have flat: "flat_kind (anchor_rows ?rows) (anchor_kind k)"
    using anchor_rows_get [OF ok] flat_kindD [OF assms(1)] unfolding flat_kind_def [of "anchor_rows ?rows"]
    by blast
  have "map_of (cs_loadAnchors c k) i =
      map_option snd (jm_get (anchor_rows ?rows) (keyId (counter_path (anchor_kind k) i)))"
    unfolding cs_loadAnchors_def
    by (rule flat_lookup [OF flat assms(2,3)])
      (force simp: mem_list_def plain_list_def anchor_rows_def split: cfg_value.splits)
  then show ?thesis
    by (simp add: anchor_rows_get [OF ok] split: option.split cfg_value.split prod.split)
qed

lemma record_ok: "jm_ok (rows_to_record rows)"
proof -
  have "jm_ok m \<Longrightarrow> jm_ok (foldl (\<lambda>m (k, n). jm_set m (last_part k) n) m rows)" for m :: "(string \<times> int) list"
    by (induction rows arbitrary: m) auto
  then show ?thesis by (simp add: rows_to_record_def)
qed

lemma hydrate_get:
  assumes "jm_ok counts"
  shows "jm_get (pt_counters (pb_hydrate t d counts anchors now)) (pb_key i e) =
    (case (if e = d then map_of counts i else None) of
       Some n \<Rightarrow> if n > 0 then Some \<lparr>pc_count = n, pc_windowStart = or_default (map_of anchors i) now\<rparr>
                 else jm_get (pt_counters t) (pb_key i e)
     | None \<Rightarrow> jm_get (pt_counters t) (pb_key i e))"
proof -
  have "jm_get (foldl (\<lambda>m (i, n). if n > 0 then jm_set m (pb_key i d)
             \<lparr>pc_count = n, pc_windowStart = or_default (map_of anchors i) now\<rparr> else m) m counts) (pb_key i e) =
    (case (if e = d then map_of counts i else None) of
       Some n \<Rightarrow> if n > 0 then Some \<lparr>pc_count = n, pc_windowStart = or_default (map_of anchors i) now\<rparr>
                 else jm_get m (pb_key i e)
     | None \<Rightarrow> jm_get m (pb_key i e))" for m
    using assms
  proof (induction counts arbitrary: m)
    case (Cons cn counts)
    obtain j n where cn: "cn = (j, n)" by fastforce
    have "map_of counts j = None" using Cons.prems cn by (simp add: map_of_eq_None_iff)
    with Cons cn show ?case by (auto split: option.splits)
  qed simp
  then show ?thesis by (simp add: pb_hydrate_def)
qed

text \<open>What a booted tracker holds for one account and dimension.\<close>

lemma boot_get:
  assumes "clean c" and "key_sep \<notin> set i"
  shows "jm_get (pt_counters (pb_boot c now)) (pb_key i d) =
    (case durable c d i of
       Some n \<Rightarrow> if n > 0 then Some \<lparr>pc_count = n, pc_windowStart =
           (case anchored c d i of Some (VAnchor t) \<Rightarrow> t | _ \<Rightarrow> now)\<rparr> else None
     | None \<Rightarrow> None)"
proof -
  have counts: "map_of (cs_loadCounters c (provider_kind e)) i = durable c e i" for e
    using load_counters [of c "provider_kind e" i] assms by (simp add: clean_def durable_def)
  have ok: "jm_ok (cs_loadCounters c k)" for k
    by (simp add: cs_loadCounters_def cs_loadCounts_def record_ok)
  have anchors: "or_default (map_of (cs_loadAnchors c (provider_kind e)) i) now =
      (case anchored c e i of Some (VAnchor t) \<Rightarrow> t | _ \<Rightarrow> now)" for e
    using load_anchors [of c "provider_kind e" i] assms
    by (simp add: clean_def anchored_def or_default_def split: option.split cfg_value.split)
  show ?thesis
    by (cases d) (simp_all add: pb_boot_def hydrate_get [OF ok] counts anchors pb_new_def split: option.split)
qed

subsection \<open>The live side\<close>

definition logs_agree ::
    "(string \<Rightarrow> provider_account) \<Rightarrow> (pb_dimension \<times> string \<times> int) list \<Rightarrow>
     (pb_dimension \<times> string \<times> int) list \<Rightarrow> pb_dimension \<Rightarrow> string \<Rightarrow> pb_counter option \<Rightarrow> bool" where
  "logs_agree cfg L A d i r \<longleftrightarrow>
     (case r of
        None \<Rightarrow> log_total L d i = 0 \<and> log_last A d i = None
      | Some c \<Rightarrow> 0 < pc_count c \<and> pc_count c \<le> log_total L d i \<and>
          log_last A d i = Some (pc_windowStart c) \<and>
          (pb_periodFor (cfg i) d = None \<longrightarrow> pc_count c = log_total L d i))"

definition live_ok :: "(string \<Rightarrow> provider_account) \<Rightarrow> pb_tracker \<Rightarrow> bool" where
  "live_ok cfg t \<longleftrightarrow>
     (\<exists>L A. pt_sink t = Some L \<and> pt_anchorSink t = Some A \<and> sink_ok L \<and> ids_ok A \<and>
        (\<forall>d i. logs_agree cfg L A d i (jm_get (pt_counters t) (pb_key i d))))"

lemma live_start: "live_ok cfg pb_start"
  by (simp add: live_ok_def pb_start_def pb_onAnchor_def pb_onRecord_def pb_new_def sink_ok_def
      ids_ok_def logs_agree_def)

lemma live_bump:
  assumes "live_ok cfg t" and ids: "\<And>i. ac_id (cfg i) = i" and i: "key_sep \<notin> set i"
  shows "live_ok cfg (pb_bump t (cfg i) d amount now)"
proof (cases "amount \<le> 0")
  case True
  with assms(1) show ?thesis by (simp add: pb_bump_def)
next
  case False
  from assms(1) obtain L A where L: "pt_sink t = Some L" "pt_anchorSink t = Some A" "sink_ok L" "ids_ok A"
    and agree: "\<And>d i. logs_agree cfg L A d i (jm_get (pt_counters t) (pb_key i d))"
    by (auto simp: live_ok_def)
  let ?t = "pb_bump t (cfg i) d amount now"
  let ?fresh = "case jm_get (pt_counters t) (pb_key i d) of None \<Rightarrow> True
    | Some r \<Rightarrow> elapsed (windowMsFor (pb_periodFor (cfg i) d)) (pc_windowStart r) now"
  let ?A = "if ?fresh then A @ [(d, i, now)] else A"
  define B where "B = ?A"
  have sinks: "pt_sink ?t = Some (L @ [(d, i, amount)])" "pt_anchorSink ?t = Some B"
    using False L(1,2) ids by (auto simp: B_def pb_bump_def Let_def split: option.splits)
  have oks: "sink_ok (L @ [(d, i, amount)])" "ids_ok B"
    using L(3,4) i False by (auto simp: B_def sink_ok_def ids_ok_def)
  have "logs_agree cfg (L @ [(d, i, amount)]) B e j (jm_get (pt_counters ?t) (pb_key j e))" for e j
  proof (cases "e = d \<and> j = i")
    case True
    show ?thesis
    proof (cases ?fresh)
      case fresh: True
      have "pb_periodFor (cfg i) d = None \<Longrightarrow> jm_get (pt_counters t) (pb_key i d) = None"
        using fresh by (auto simp: elapsed_def windowMsFor_def split: option.splits)
      moreover have "jm_get (pt_counters ?t) (pb_key i d) = Some \<lparr>pc_count = amount, pc_windowStart = now\<rparr>"
        using fresh False ids by (auto simp: pb_bump_def Let_def split: option.splits)
      ultimately show ?thesis
        using True fresh False B_def agree [of d i] log_total_nonneg [OF L(3), of d i]
        by (auto simp: logs_agree_def split: option.splits)
    next
      case cont: False
      then obtain r where r: "jm_get (pt_counters t) (pb_key i d) = Some r" by (auto split: option.splits)
      with cont False ids
      have "jm_get (pt_counters ?t) (pb_key i d) = Some (r\<lparr>pc_count := pc_count r + amount\<rparr>)"
        by (simp add: pb_bump_def Let_def)
      with True cont False B_def agree [of d i] r show ?thesis by (auto simp: logs_agree_def)
    qed
  next
    case False
    then have "jm_get (pt_counters ?t) (pb_key j e) = jm_get (pt_counters t) (pb_key j e)"
      using ids by (auto simp: pb_bump_def Let_def split: option.splits)
    moreover have "log_total (L @ [(d, i, amount)]) e j = log_total L e j" "log_last B e j = log_last A e j"
      using False by (auto simp: B_def)
    ultimately show ?thesis using agree [of e j] False by (auto simp: logs_agree_def split: option.splits)
  qed
  with sinks oks show ?thesis unfolding live_ok_def by blast
qed

lemma live_feed:
  assumes "\<And>i. ac_id (cfg i) = i" and "\<forall>(d, i, a, n) \<in> set ops. key_sep \<notin> set i" and "live_ok cfg t"
  shows "live_ok cfg (pb_feed cfg t ops)"
  using assms(2,3)
proof (induction ops arbitrary: t)
  case (Cons x ops)
  obtain d i a n where x: "x = (d, i, a, n)" by (cases x) auto
  have "live_ok cfg (pb_bump t (cfg i) d a n)" using Cons.prems x live_bump [OF _ assms(1)] by simp
  with Cons.IH [OF _ this] Cons.prems(1) x show ?case by (simp add: pb_feed_def)
qed (simp add: pb_feed_def)

text \<open>Counter writes that completed, out of those the sinks were told.\<close>

lemma log_total_mset: "log_total L d i = sum_mset (image_mset (\<lambda>(d', i', n). if d' = d \<and> i' = i then n else 0) (mset L))"
  by (simp add: log_total_def sum_mset_sum_list flip: mset_map)

lemma kept_writes:
  assumes "sink_ok L" and "mset kept \<subseteq># mset L"
  shows "sink_ok kept" "log_total kept d i \<le> log_total L d i"
proof -
  show "sink_ok kept" using assms set_mset_mono [OF assms(2)] by (auto simp: sink_ok_def)
  obtain M where M: "mset L = mset kept + M" using assms(2) mset_subset_eq_exists_conv by blast
  obtain R where R: "mset R = M" using ex_mset by blast
  have "set_mset M \<subseteq> set L" using M by (metis set_mset_mset set_mset_union Un_upper2)
  then have "sink_ok R" using assms(1) R by (auto simp: sink_ok_def)
  from log_total_nonneg [OF this, of d i] show "log_total kept d i \<le> log_total L d i"
    by (simp add: log_total_mset M R)
qed

lemma restarted_get:
  assumes live: "live_ok cfg t" and clean: "clean c" and i: "key_sep \<notin> set i"
    and fresh: "durable c d i = None" "anchored c d i = None"
    and L: "pt_sink t = Some L" and kept: "mset kept \<subseteq># mset L"
  shows "jm_get (pt_counters (pb_restarted_after c t kept boot)) (pb_key i d) =
      (case jm_get (pt_counters t) (pb_key i d) of
         None \<Rightarrow> None
       | Some r \<Rightarrow> if log_total kept d i = 0 then None
           else Some \<lparr>pc_count = log_total kept d i, pc_windowStart = pc_windowStart r\<rparr>)"
    and "0 \<le> log_total kept d i" "log_total kept d i \<le> log_total L d i"
    and "case jm_get (pt_counters t) (pb_key i d) of
        None \<Rightarrow> log_total L d i = 0
      | Some r \<Rightarrow> pc_count r \<le> log_total L d i \<and> (pb_periodFor (cfg i) d = None \<longrightarrow> pc_count r = log_total L d i)"
proof -
  from live L obtain A where A: "pt_anchorSink t = Some A" "sink_ok L" "ids_ok A"
    and agree: "logs_agree cfg L A d i (jm_get (pt_counters t) (pb_key i d))"
    by (auto simp: live_ok_def)
  note k = kept_writes [OF A(2) kept]
  show bounds: "0 \<le> log_total kept d i" "log_total kept d i \<le> log_total L d i"
    using log_total_nonneg [OF k(1)] k(2) by auto
  let ?c1 = "flush_counts c kept" and ?c2 = "flush_anchors (flush_counts c kept) A"
  have c1: "clean ?c1" "ms_values (cs_store ?c1) = ms_values (cs_store c)"
    "durable ?c1 d i = (if log_total kept d i = 0 then None else Some (log_total kept d i))"
    using flush_counts_durable [OF clean fresh(1) k(1) i] by blast+
  have c2: "clean ?c2" "ms_counters (cs_store ?c2) = ms_counters (cs_store ?c1)"
    "anchored ?c2 d i = (case log_last A d i of None \<Rightarrow> anchored ?c1 d i | Some t \<Rightarrow> Some (VAnchor t))"
    using flush_anchors_anchored [OF c1(1) A(3) i] by blast+
  have dur: "durable ?c2 d i = durable ?c1 d i" by (simp add: durable_def c2(2))
  have "anchored ?c1 d i = None" using fresh(2) by (simp add: anchored_def c1(2))
  with boot_get [OF c2(1) i, of boot d] agree dur c1(3) c2(3) A(1) bounds
  show "jm_get (pt_counters (pb_restarted_after c t kept boot)) (pb_key i d) =
      (case jm_get (pt_counters t) (pb_key i d) of
         None \<Rightarrow> None
       | Some r \<Rightarrow> if log_total kept d i = 0 then None
           else Some \<lparr>pc_count = log_total kept d i, pc_windowStart = pc_windowStart r\<rparr>)"
    by (auto simp: pb_restarted_after_def logs_agree_def or_default_def split: option.splits)
  show "case jm_get (pt_counters t) (pb_key i d) of
        None \<Rightarrow> log_total L d i = 0
      | Some r \<Rightarrow> pc_count r \<le> log_total L d i \<and> (pb_periodFor (cfg i) d = None \<longrightarrow> pc_count r = log_total L d i)"
    using agree by (auto simp: logs_agree_def split: option.splits)
qed

subsection \<open>What a restart keeps\<close>

text \<open>C21: A restart forgives at most the usage whose writes were lost. Take an account with no durable row for
  a dimension yet, any sequence of recorded amounts in the first process, any selection of the counter
  writes that completed (the sinks do not wait for them), every anchor write completed, and any boot instant.
  Then the account's current count in the restarted process, plus the amounts whose writes were lost, is at
  least its count in the process that ran on; for a dimension without a reset period the two are equal, so
  nothing is forgiven when no write was lost. Ids do not contain the separator of key paths.\<close>

theorem restart_forgives_only_lost_writes:
  assumes "\<And>i. ac_id (cfg i) = i" and "\<forall>(d, i, a, n) \<in> set ops. key_sep \<notin> set i"
    and "clean c" and "key_sep \<notin> set i" and "durable c d i = None" and "anchored c d i = None"
    and "t = pb_feed cfg pb_start ops" and "pt_sink t = Some told" and "mset kept \<subseteq># mset told"
  shows "pb_current t (cfg i) d now \<le>
      pb_current (pb_restarted_after c t kept boot) (cfg i) d now + (log_total told d i - log_total kept d i) \<and>
    (pb_periodFor (cfg i) d = None \<longrightarrow>
      pb_current t (cfg i) d now =
      pb_current (pb_restarted_after c t kept boot) (cfg i) d now + (log_total told d i - log_total kept d i))"
proof -
  have "live_ok cfg t" unfolding assms(7) by (rule live_feed [OF assms(1,2) live_start])
  note r = restarted_get [OF this assms(3-6,8,9)]
  show ?thesis
    using r assms(1)
    by (cases "jm_get (pt_counters t) (pb_key i d)") (auto simp: pb_current_def elapsed_def windowMsFor_def split: option.splits)
qed

definition empty_service :: "unit config_service" where
  "empty_service = \<lparr>cs_store = mem_empty, cs_crypto = None, cs_announced = 0\<rparr>"

lemma empty_service_clean: "clean empty_service" "durable empty_service d i = None"
  "anchored empty_service d i = None"
  by (simp_all add: clean_def flat_kind_def durable_def anchored_def empty_service_def mem_empty_def)

text \<open>Of two recorded amounts the write of the second is lost.\<close>

theorem restart_forgives_only_lost_writes_witness:
  "let t = pb_feed (\<lambda>i. capped_account i 5) pb_start [(PRequests, ''p'', 3, 10), (PRequests, ''p'', 1, 11)]
   in pb_current t (capped_account ''p'' 5) PRequests 20 \<le>
      pb_current (pb_restarted_after empty_service t [(PRequests, ''p'', 3)] 15) (capped_account ''p'' 5) PRequests 20 + 1"
proof -
  let ?ops = "[(PRequests, ''p'', 3, 10), (PRequests, ''p'', 1, 11)]"
  let ?told = "[(PRequests, ''p'', 3), (PRequests, ''p'', 1)]"
  let ?t = "pb_feed (\<lambda>i. capped_account i 5) pb_start ?ops"
  have told: "pt_sink ?t = Some ?told"
    by (simp add: pb_feed_def pb_start_def pb_onAnchor_def pb_onRecord_def pb_new_def pb_bump_def Let_def
        capped_account_def pb_periodFor_def elapsed_def windowMsFor_def)
  have "log_total ?told PRequests ''p'' - log_total [(PRequests, ''p'', 3)] PRequests ''p'' = 1"
    by (simp add: log_total_def)
  with restart_forgives_only_lost_writes [where cfg = "\<lambda>i. capped_account i 5" and ops = ?ops and c = empty_service and
      i = "''p''" and d = PRequests and told = ?told and kept = "[(PRequests, ''p'', 3)]" and now = 20 and boot = 15,
      OF _ _ empty_service_clean(1) _ empty_service_clean(2,3) refl told]
  show ?thesis by (simp add: Let_def)
qed

text \<open>The counter the sinks write is never reset, only its anchor moves.\<close>

lemma two_windows_feed:
  assumes "\<And>i. ac_id (cfg i) = i" and "pb_periodFor (cfg i) d = Some p" and "PERIOD_MS p \<le> t2 - t1"
    and "0 < a1" and "0 < a2"
  shows "pb_feed cfg pb_start [(d, i, a1, t1), (d, i, a2, t2)] =
    \<lparr>pt_counters = [(pb_key i d, \<lparr>pc_count = a2, pc_windowStart = t2\<rparr>)],
     pt_sink = Some [(d, i, a1), (d, i, a2)], pt_anchorSink = Some [(d, i, t1), (d, i, t2)]\<rparr>"
  using assms by (simp add: pb_feed_def pb_start_def pb_onAnchor_def pb_onRecord_def pb_new_def
      pb_bump_def Let_def elapsed_def windowMsFor_def)

lemma provider_restart_revives_old_windows_facts:
  assumes "\<And>i. ac_id (cfg i) = i" and "pb_periodFor (cfg i) d = Some p" and "PERIOD_MS p \<le> t2 - t1"
    and "0 < a1" and "0 < a2" and "t2 \<le> now" and "now < t2 + PERIOD_MS p"
    and "clean c" and "key_sep \<notin> set i" and "durable c d i = None" and "anchored c d i = None"
  shows "pb_current (pb_feed cfg pb_start [(d, i, a1, t1), (d, i, a2, t2)]) (cfg i) d now = a2"
    and "pb_current (pb_restarted c (pb_feed cfg pb_start [(d, i, a1, t1), (d, i, a2, t2)]) boot)
      (cfg i) d now = a1 + a2"
    and "pb_limitFor (cfg i) d = Some n \<Longrightarrow> n \<le> a1 + a2 \<Longrightarrow>
      \<not> pb_allows (pb_restarted c (pb_feed cfg pb_start [(d, i, a1, t1), (d, i, a2, t2)]) boot) (cfg i) now"
proof -
  let ?t = "pb_feed cfg pb_start [(d, i, a1, t1), (d, i, a2, t2)]"
  let ?L = "[(d, i, a1), (d, i, a2)]" and ?A = "[(d, i, t1), (d, i, t2)]"
  note t = two_windows_feed [OF assms(1-5)]
  have in_window: "\<not> elapsed (windowMsFor (Some p)) t2 now"
    using assms(7) by (simp add: elapsed_def windowMsFor_def)
  show "pb_current ?t (cfg i) d now = a2"
    using assms(1,2) in_window by (simp add: t pb_current_def)
  have L: "sink_ok ?L" "ids_ok ?A" using assms(4,5,9) by (auto simp: sink_ok_def ids_ok_def)
  have total: "log_total ?L d i = a1 + a2" "log_last ?A d i = Some t2"
    by (simp_all add: log_total_def log_last_def)
  let ?c1 = "flush_counts c ?L" and ?c2 = "flush_anchors (flush_counts c ?L) ?A"
  have c1: "clean ?c1" "durable ?c1 d i = Some (a1 + a2)"
    using flush_counts_durable [OF assms(8,10) L(1) assms(9)] total assms(4,5) by auto
  have c2: "clean ?c2" "durable ?c2 d i = Some (a1 + a2)" "anchored ?c2 d i = Some (VAnchor t2)"
    using flush_anchors_anchored [OF c1(1) L(2) assms(9)] total c1(2)
    by (auto simp: durable_def)
  have "jm_get (pt_counters (pb_restarted c ?t boot)) (pb_key i d) =
      Some \<lparr>pc_count = a1 + a2, pc_windowStart = t2\<rparr>"
    using boot_get [OF c2(1) assms(9), of boot d] c2 assms(4,5)
    by (simp add: pb_restarted_def pb_restarted_after_def t or_default_def)
  then show cur: "pb_current (pb_restarted c ?t boot) (cfg i) d now = a1 + a2"
    using assms(1,2) in_window by (simp add: pb_current_def)
  show "pb_limitFor (cfg i) d = Some n \<Longrightarrow> n \<le> a1 + a2 \<Longrightarrow> \<not> pb_allows (pb_restarted c ?t boot) (cfg i) now"
    using cur by (auto simp: pb_allows_iff pb_exceeded_def reached_def intro!: exI [of _ d])
qed

text \<open>For a dimension with a reset period, a restart brings back the usage of the windows that
  are over: if an account used \<open>a1\<close> in one window and \<open>a2\<close> in the next, then within that next
  window the process that ran on counts \<open>a2\<close> but the restarted one counts \<open>a1 + a2\<close>, and refuses
  an account whose limit lies between the two.\<close>

theorem provider_restart_revives_old_windows:
  assumes "\<And>i. ac_id (cfg i) = i" and "pb_periodFor (cfg i) d = Some p" and "PERIOD_MS p \<le> t2 - t1"
    and "0 < a1" and "0 < a2" and "t2 \<le> now" and "now < t2 + PERIOD_MS p"
    and "clean c" and "key_sep \<notin> set i" and "durable c d i = None" and "anchored c d i = None"
  shows "pb_current (pb_feed cfg pb_start [(d, i, a1, t1), (d, i, a2, t2)]) (cfg i) d now = a2 \<and>
    pb_current (pb_restarted c (pb_feed cfg pb_start [(d, i, a1, t1), (d, i, a2, t2)]) boot)
      (cfg i) d now = a1 + a2 \<and>
    (\<forall>n. pb_limitFor (cfg i) d = Some n \<and> n \<le> a1 + a2 \<longrightarrow>
      \<not> pb_allows (pb_restarted c (pb_feed cfg pb_start [(d, i, a1, t1), (d, i, a2, t2)]) boot) (cfg i) now)"
  using provider_restart_revives_old_windows_facts [OF assms] by blast

theorem provider_restart_revives_old_windows_witness:
  "pb_current (pb_restarted empty_service
      (pb_feed (\<lambda>i. capped_account i 5) pb_start
        [(PRequests, ''p'', 4, 0), (PRequests, ''p'', 1, 3600000)]) 3600001)
      (capped_account ''p'' 5) PRequests 3600002 = 5"
proof -
  let ?cfg = "\<lambda>i. capped_account i 5"
  have "ac_id (?cfg i) = i" "pb_periodFor (?cfg i) PRequests = Some Hourly" for i
    by simp_all
  from provider_restart_revives_old_windows [where cfg = ?cfg and d = PRequests and i = "''p''",
      OF this, where c = empty_service, THEN conjunct2, THEN conjunct1]
  show ?thesis by (simp add: empty_service_clean)
qed

section \<open>Deleted subjects\<close>

lemma drop_counters [simp]: "ms_counters (cs_store (cs_drop c k)) = ms_counters (cs_store c)"
  by (simp add: cs_drop_def mem_delete_def)

lemma announce_store [simp]: "cs_store (cs_announce c) = cs_store c"
  by (simp add: cs_announce_def)

lemma usage_path: "USAGE_PREFIX @ [KStr i] = counter_path ''usage'' i"
  "COST_PREFIX @ [KStr i] = counter_path ''cost'' i"
  by (simp_all add: USAGE_PREFIX_def COST_PREFIX_def counter_path_def)

lemma deleteVirtualKey_counters:
  "ms_counters (cs_store (cs_deleteVirtualKey c i)) =
     jm_delete (jm_delete (ms_counters (cs_store c)) (keyId (counter_path ''usage'' i)))
       (keyId (counter_path ''cost'' i))"
  by (simp add: cs_deleteVirtualKey_def cs_deleteCount_def mem_deleteCount_def usage_path)

lemma flat_kind_delete: "flat_kind rows kind \<Longrightarrow> flat_kind (jm_delete rows k) kind"
  unfolding flat_kind_def by (auto split: if_splits)

lemma deletion_and_counters_facts:
  assumes "flat_kind (ms_counters (cs_store c)) ''usage''" and "flat_kind (ms_counters (cs_store c)) ''cost''"
    and "key_sep \<notin> set i"
  shows "map_of (cs_loadUsage (cs_deleteVirtualKey c i)) i = None"
    and "map_of (cs_loadCosts (cs_deleteVirtualKey c i)) i = None"
    and "cs_loadCounters (cs_deleteTeam c i) kind = cs_loadCounters c kind"
    and "cs_loadCounters (cs_deleteCustomer c i) kind = cs_loadCounters c kind"
proof -
  have kinds: "key_sep \<notin> set ''usage''" "key_sep \<notin> set ''cost''" by simp_all
  have flat: "flat_kind (ms_counters (cs_store (cs_deleteVirtualKey c i))) ''usage''"
    "flat_kind (ms_counters (cs_store (cs_deleteVirtualKey c i))) ''cost''"
    using assms(1,2) by (simp_all add: deleteVirtualKey_counters flat_kind_delete)
  have usage: "cs_loadUsage d = cs_loadCounters d ''usage''" "cs_loadCosts d = cs_loadCounters d ''cost''"
    for d :: "'a config_service"
    by (simp_all add: cs_loadUsage_def cs_loadCosts_def cs_loadCounters_def USAGE_PREFIX_def COST_PREFIX_def)
  show "map_of (cs_loadUsage (cs_deleteVirtualKey c i)) i = None"
    unfolding usage using load_counters [OF flat(1) kinds(1) assms(3)]
    by (simp add: deleteVirtualKey_counters)
  show "map_of (cs_loadCosts (cs_deleteVirtualKey c i)) i = None"
    unfolding usage using load_counters [OF flat(2) kinds(2) assms(3)]
    by (simp add: deleteVirtualKey_counters)
  show "cs_loadCounters (cs_deleteTeam c i) kind = cs_loadCounters c kind"
    by (simp add: cs_loadCounters_def cs_loadCounts_def mem_listCounts_def cs_deleteTeam_def)
  show "cs_loadCounters (cs_deleteCustomer c i) kind = cs_loadCounters c kind"
    by (simp add: cs_loadCounters_def cs_loadCounts_def mem_listCounts_def cs_deleteCustomer_def)
qed

text \<open>Deleting a virtual key removes its durable request and cost counters, so a key created
  later under the same id starts from zero at the next boot. Deleting a team or a customer
  removes neither of its counters: the next boot hydrates a re-created subject with the usage of
  the deleted one.\<close>

theorem deletion_and_counters:
  assumes "flat_kind (ms_counters (cs_store c)) ''usage''" and "flat_kind (ms_counters (cs_store c)) ''cost''"
    and "key_sep \<notin> set i"
  shows "map_of (cs_loadUsage (cs_deleteVirtualKey c i)) i = None \<and>
    map_of (cs_loadCosts (cs_deleteVirtualKey c i)) i = None \<and>
    cs_loadCounters (cs_deleteTeam c i) kind = cs_loadCounters c kind \<and>
    cs_loadCounters (cs_deleteCustomer c i) kind = cs_loadCounters c kind"
  using deletion_and_counters_facts [OF assms] by blast

theorem deletion_and_counters_witness:
  "map_of (cs_loadUsage (cs_deleteVirtualKey (cs_addUsage empty_service ''k'' 3) ''k'')) ''k'' = None"
proof -
  have "flat_kind (ms_counters (cs_store empty_service)) kind" for kind
    by (simp add: flat_kind_def empty_service_def mem_empty_def)
  then have "flat_kind (ms_counters (cs_store (cs_addUsage empty_service ''k'' 3))) kind" for kind
    unfolding cs_addUsage_def cs_sum_def usage_path
    by (simp add: mem_sum_def path_set_flat)
  then show ?thesis by (intro deletion_and_counters [THEN conjunct1]) simp_all
qed

end
