(* ===== verification/Pricing.thy ===== *)
theory Pricing
  imports JsText
begin

text \<open>
  The price catalog, \<open>klanker-gate/packages/governance/src/pricing.ts\<close>: model name resolution
  (exact, else the longest configured prefix that ends at a name boundary) and the integer
  micro-USD cost of a usage record. Rates are rationals; the rounding of binary floating point
  before the final \<open>Math.round\<close> is not modelled.
\<close>

section \<open>Data\<close>

record model_price =
  mp_input :: rat
  mp_output :: rat
  mp_cacheRead :: "rat option"
  mp_cacheCreation :: "rat option"
  mp_inputAbove128k :: "rat option"
  mp_outputAbove128k :: "rat option"
  mp_inputAbove200k :: "rat option"
  mp_outputAbove200k :: "rat option"
  mp_batchInput :: "rat option"
  mp_batchOutput :: "rat option"

record model_meta =
  mm_contextWindow :: "int option"
  mm_maxOutputTokens :: "int option"
  mm_modality :: "string option"

record usage_tokens =
  ut_prompt :: "int option"
  ut_completion :: "int option"
  ut_cached :: "int option"
  ut_cacheCreation :: "int option"
  ut_promptTotal :: "int option"
  ut_batch :: bool

record catalog =
  pr_prices :: "(string, model_price) jmap"
  pr_meta :: "(string, model_meta) jmap"

definition TIER_128K :: int where "TIER_128K = 128000"

definition TIER_200K :: int where "TIER_200K = 200000"

definition tierRate :: "rat \<Rightarrow> rat option \<Rightarrow> rat option \<Rightarrow> int \<Rightarrow> rat" where
  "tierRate base above128k above200k promptSize =
     (if promptSize > TIER_200K \<and> above200k \<noteq> None then the above200k
      else if promptSize > TIER_128K \<and> above128k \<noteq> None then the above128k
      else base)"

definition flat_price :: "rat \<Rightarrow> rat \<Rightarrow> model_price" where
  "flat_price i out = \<lparr>mp_input = i, mp_output = out, mp_cacheRead = None, mp_cacheCreation = None,
     mp_inputAbove128k = None, mp_outputAbove128k = None, mp_inputAbove200k = None,
     mp_outputAbove200k = None, mp_batchInput = None, mp_batchOutput = None\<rparr>"

definition DEFAULT_PRICES :: "(string \<times> model_price) list" where
  "DEFAULT_PRICES =
     [(''gpt-4o'', flat_price (25 / 10) 10),
      (''gpt-4o-mini'', flat_price (15 / 100) (6 / 10)),
      (''gpt-4-turbo'', flat_price 10 30),
      (''claude-sonnet-4-5'', flat_price 3 15),
      (''claude-opus-4-5'', flat_price 15 75),
      (''claude-haiku-4-5'', flat_price (8 / 10) 4),
      (''gemini-2.5-pro'', flat_price (125 / 100) 10),
      (''gemini-2.5-flash'', flat_price (15 / 100) (6 / 10)),
      (''mistral-large-latest'', flat_price 2 6),
      (''command-r-plus'', flat_price (25 / 10) 10)]"

section \<open>The catalog\<close>

definition pr_new :: "(string \<times> model_price) list \<Rightarrow> catalog" where
  "pr_new seed = \<lparr>pr_prices = foldl (\<lambda>m (k, p). jm_set m k p) [] seed, pr_meta = []\<rparr>"

definition pr_set :: "catalog \<Rightarrow> string \<Rightarrow> model_price \<Rightarrow> catalog" where
  "pr_set c model price = c\<lparr>pr_prices := jm_set (pr_prices c) model price\<rparr>"

definition pr_replace :: "catalog \<Rightarrow> (string \<times> model_price) list \<Rightarrow> catalog" where
  "pr_replace c prices = c\<lparr>pr_prices := foldl (\<lambda>m (k, p). jm_set m k p) [] prices\<rparr>"

definition pr_setMeta :: "catalog \<Rightarrow> string \<Rightarrow> model_meta \<Rightarrow> catalog" where
  "pr_setMeta c model meta = c\<lparr>pr_meta := jm_set (pr_meta c) model meta\<rparr>"

text \<open>The model name without its \<open>account/\<close> prefix.\<close>

definition bare_model :: "string \<Rightarrow> string" where
  "bare_model model =
     (case js_indexOf (CHR ''/'') model of None \<Rightarrow> model | Some n \<Rightarrow> drop (n + 1) model)"

definition at_boundary :: "string \<Rightarrow> string \<Rightarrow> bool" where
  "at_boundary query key =
     (case drop (length key) query of
        [] \<Rightarrow> True
      | c # _ \<Rightarrow> c = CHR ''-'' \<or> c = CHR ''/'' \<or> c = CHR ''@'')"

definition better_key :: "string \<Rightarrow> string option \<Rightarrow> string \<Rightarrow> string option" where
  "better_key query best key =
     (if \<not> prefix key query then best
      else if at_boundary query key \<and> (best = None \<or> length key > length (the best)) then Some key
      else best)"

definition pr_longestKeyFor :: "catalog \<Rightarrow> string \<Rightarrow> string option" where
  "pr_longestKeyFor c query =
     (if jm_has (pr_prices c) query then Some query
      else foldl (better_key query) None (map fst (pr_prices c)))"

definition pr_resolveKey :: "catalog \<Rightarrow> string \<Rightarrow> string option \<Rightarrow> string option" where
  "pr_resolveKey c model mode =
     (let bare = bare_model model;
          modeHit = (case mode of
              None \<Rightarrow> None
            | Some m \<Rightarrow> if m = [] then None else pr_longestKeyFor c (m @ ''::'' @ bare))
      in case modeHit of
           Some k \<Rightarrow> Some k
         | None \<Rightarrow>
             if jm_has (pr_prices c) bare then Some bare
             else if jm_has (pr_prices c) model then Some model
             else pr_longestKeyFor c bare)"

definition pr_get :: "catalog \<Rightarrow> string \<Rightarrow> string option \<Rightarrow> model_price option" where
  "pr_get c model mode = Option.bind (pr_resolveKey c model mode) (jm_get (pr_prices c))"

definition pr_modelKeys :: "catalog \<Rightarrow> string list" where
  "pr_modelKeys c = map fst (pr_prices c)"

definition pr_getMeta :: "catalog \<Rightarrow> string \<Rightarrow> model_meta option" where
  "pr_getMeta c model =
     (case jm_get (pr_meta c) (bare_model model) of
        Some m \<Rightarrow> Some m | None \<Rightarrow> jm_get (pr_meta c) model)"

definition num_or :: "int option \<Rightarrow> int \<Rightarrow> int" where
  "num_or x d = (case x of None \<Rightarrow> d | Some n \<Rightarrow> n)"

definition rat_or :: "rat option \<Rightarrow> rat \<Rightarrow> rat" where
  "rat_or x d = (case x of None \<Rightarrow> d | Some r \<Rightarrow> r)"

definition batch_rate :: "bool \<Rightarrow> rat option \<Rightarrow> rat \<Rightarrow> rat" where
  "batch_rate batch rate normal = (if batch then rat_or rate normal else normal)"

definition price_usage :: "model_price \<Rightarrow> usage_tokens \<Rightarrow> rat" where
  "price_usage price usage =
     (let prompt = num_or (ut_prompt usage) 0;
          completion = num_or (ut_completion usage) 0;
          promptSize = num_or (ut_promptTotal usage) prompt;
          inputRate = batch_rate (ut_batch usage) (mp_batchInput price)
            (tierRate (mp_input price) (mp_inputAbove128k price) (mp_inputAbove200k price) promptSize);
          outputRate = batch_rate (ut_batch usage) (mp_batchOutput price)
            (tierRate (mp_output price) (mp_outputAbove128k price) (mp_outputAbove200k price) promptSize);
          cached = min (max (num_or (ut_cached usage) 0) 0) prompt;
          cacheReadRate = rat_or (mp_cacheRead price) inputRate;
          created = max (num_or (ut_cacheCreation usage) 0) 0;
          cacheCreateCost = (case mp_cacheCreation price of None \<Rightarrow> 0 | Some r \<Rightarrow> of_int created * r)
      in of_int (prompt - cached) * inputRate + of_int cached * cacheReadRate + cacheCreateCost +
         of_int completion * outputRate)"

definition pr_costMicroUsd :: "catalog \<Rightarrow> string \<Rightarrow> usage_tokens \<Rightarrow> string option \<Rightarrow> int option" where
  "pr_costMicroUsd c model usage mode =
     map_option (\<lambda>price. js_round (price_usage price usage)) (pr_get c model mode)"

section \<open>Resolution\<close>

definition candidate :: "string \<Rightarrow> string \<Rightarrow> bool" where
  "candidate query key \<longleftrightarrow> prefix key query \<and> at_boundary query key"

lemma better_key_cases:
  "better_key query best key =
     (if candidate query key \<and> (best = None \<or> length key > length (the best)) then Some key else best)"
  by (auto simp: better_key_def candidate_def)

lemma longest_fold:
  assumes "\<And>b. best = Some b \<Longrightarrow> candidate query b"
  shows "(case foldl (better_key query) best keys of
      None \<Rightarrow> best = None \<and> (\<forall>k \<in> set keys. \<not> candidate query k)
    | Some b \<Rightarrow> candidate query b \<and> (best = Some b \<or> b \<in> set keys) \<and>
        (\<forall>k \<in> set keys. candidate query k \<longrightarrow> length k \<le> length b) \<and>
        (\<forall>b0. best = Some b0 \<longrightarrow> length b0 \<le> length b))"
  using assms
proof (induction keys arbitrary: best)
  case Nil
  then show ?case by (auto split: option.split)
next
  case (Cons k keys)
  define nb where "nb = better_key query best k"
  have nb: "nb = Some k \<and> candidate query k \<and> (\<forall>b. best = Some b \<longrightarrow> length b < length k) \<or>
      nb = best \<and> (candidate query k \<longrightarrow> (\<exists>b. best = Some b \<and> length k \<le> length b))"
    unfolding nb_def better_key_cases by auto
  then have ok: "candidate query b" if "nb = Some b" for b
    using that Cons.prems by auto
  have fold: "foldl (better_key query) best (k # keys) = foldl (better_key query) nb keys"
    by (simp add: nb_def)
  show ?case
    using Cons.IH [of nb, OF ok] nb unfolding fold
    by (cases "foldl (better_key query) nb keys"; elim disjE; cases best) auto
qed

lemma candidate_refl: "candidate q q"
  by (simp add: candidate_def at_boundary_def)

lemma candidate_length: "candidate q k \<Longrightarrow> length k \<le> length q"
  by (simp add: candidate_def prefix_length_le)

lemma longest_key_spec_facts:
  "(pr_longestKeyFor c query = None \<longleftrightarrow> (\<forall>k \<in> set (pr_modelKeys c). \<not> candidate query k))"
  "pr_longestKeyFor c query = Some b \<longleftrightarrow>
     b \<in> set (pr_modelKeys c) \<and> candidate query b \<and>
     (\<forall>k \<in> set (pr_modelKeys c). candidate query k \<longrightarrow> length k \<le> length b)"
proof -
  let ?keys = "map fst (pr_prices c)"
  have has: "jm_has (pr_prices c) query \<longleftrightarrow> query \<in> set ?keys"
    by (simp add: map_of_eq_None_iff del: not_None_eq)
  have same: "k = b" if "candidate query k" "candidate query b" "length k = length b" for k b
    using that unfolding candidate_def prefix_def by auto
  have spec: "case pr_longestKeyFor c query of
      None \<Rightarrow> \<forall>k \<in> set ?keys. \<not> candidate query k
    | Some b \<Rightarrow> b \<in> set ?keys \<and> candidate query b \<and>
        (\<forall>k \<in> set ?keys. candidate query k \<longrightarrow> length k \<le> length b)"
  proof (cases "query \<in> set ?keys")
    case True
    then have "pr_longestKeyFor c query = Some query"
      using has by (simp add: pr_longestKeyFor_def del: not_None_eq)
    with True show ?thesis by (auto simp: candidate_refl dest: candidate_length)
  next
    case False
    then have "pr_longestKeyFor c query = foldl (better_key query) None ?keys"
      using has by (simp add: pr_longestKeyFor_def del: not_None_eq)
    with longest_fold [of None query ?keys] show ?thesis by (auto split: option.splits)
  qed
  show "pr_longestKeyFor c query = None \<longleftrightarrow> (\<forall>k \<in> set (pr_modelKeys c). \<not> candidate query k)"
    using spec by (cases "pr_longestKeyFor c query") (auto simp: pr_modelKeys_def)
  show "pr_longestKeyFor c query = Some b \<longleftrightarrow>
     b \<in> set (pr_modelKeys c) \<and> candidate query b \<and>
     (\<forall>k \<in> set (pr_modelKeys c). candidate query k \<longrightarrow> length k \<le> length b)"
  proof (cases "pr_longestKeyFor c query")
    case None
    with spec show ?thesis by (auto simp: pr_modelKeys_def)
  next
    case (Some b')
    with spec same [of b' b] show ?thesis by (auto simp: pr_modelKeys_def intro: le_antisym)
  qed
qed

text \<open>Looking up a name finds the longest configured key that the name equals or extends at a
  boundary (\<open>-\<close>, \<open>/\<close> or \<open>@\<close>), and finds nothing only when there is none; two such keys of one
  length are one key, so the catalog's insertion order never decides.\<close>

theorem longest_key_spec:
  "(pr_longestKeyFor c query = None \<longleftrightarrow> (\<forall>k \<in> set (pr_modelKeys c). \<not> candidate query k)) \<and>
   (pr_longestKeyFor c query = Some b \<longleftrightarrow>
     b \<in> set (pr_modelKeys c) \<and> candidate query b \<and>
     (\<forall>k \<in> set (pr_modelKeys c). candidate query k \<longrightarrow> length k \<le> length b))"
  using longest_key_spec_facts [of c query] by blast

theorem longest_key_spec_witness:
  "pr_longestKeyFor (pr_new DEFAULT_PRICES) ''gpt-4o-mini-2024'' = Some ''gpt-4o-mini''"
  by (subst longest_key_spec [THEN conjunct2])
    (auto simp: pr_modelKeys_def pr_new_def DEFAULT_PRICES_def candidate_def at_boundary_def)

section \<open>Cost\<close>

lemma tierRate_flat [simp]: "tierRate base None None n = base"
  by (simp add: tierRate_def)

text \<open>The cached part of a prompt never exceeds the prompt.\<close>

definition cached_part :: "usage_tokens \<Rightarrow> int" where
  "cached_part u = min (max (num_or (ut_cached u) 0) 0) (num_or (ut_prompt u) 0)"

definition price_nonneg :: "model_price \<Rightarrow> bool" where
  "price_nonneg p \<longleftrightarrow> 0 \<le> mp_input p \<and> 0 \<le> mp_output p \<and>
     (\<forall>r \<in> set_option (mp_cacheRead p) \<union> set_option (mp_cacheCreation p) \<union>
       set_option (mp_inputAbove128k p) \<union> set_option (mp_outputAbove128k p) \<union>
       set_option (mp_inputAbove200k p) \<union> set_option (mp_outputAbove200k p) \<union>
       set_option (mp_batchInput p) \<union> set_option (mp_batchOutput p). 0 \<le> r)"

lemma rates_nonneg:
  assumes "price_nonneg p"
  shows "0 \<le> batch_rate b (mp_batchInput p) (tierRate (mp_input p) (mp_inputAbove128k p) (mp_inputAbove200k p) n)"
    and "0 \<le> batch_rate b (mp_batchOutput p) (tierRate (mp_output p) (mp_outputAbove128k p) (mp_outputAbove200k p) n)"
  using assms
  by (auto simp: price_nonneg_def batch_rate_def rat_or_def tierRate_def split: option.splits)

text \<open>A model that carries only the two base rates costs prompt tokens at the input rate plus
  completion tokens at the output rate, whatever richer breakdown (cached, cache-creation, total
  context, batch) the usage record brings.\<close>

theorem flat_price_ignores_breakdown:
  assumes "pr_get c model mode = Some (flat_price i out)"
  shows "pr_costMicroUsd c model u mode =
    Some (js_round (of_int (num_or (ut_prompt u) 0) * i + of_int (num_or (ut_completion u) 0) * out))"
  using assms
  by (simp add: pr_costMicroUsd_def price_usage_def Let_def flat_price_def batch_rate_def rat_or_def
      left_diff_distrib)

theorem flat_price_ignores_breakdown_witness:
  "pr_costMicroUsd (pr_new DEFAULT_PRICES) ''gpt-4-turbo''
     \<lparr>ut_prompt = Some 7, ut_completion = Some 2, ut_cached = Some 90, ut_cacheCreation = Some 5,
      ut_promptTotal = Some 300000, ut_batch = True\<rparr> None = Some 130"
proof -
  have "pr_get (pr_new DEFAULT_PRICES) ''gpt-4-turbo'' None = Some (flat_price 10 30)"
    by (simp add: pr_get_def pr_resolveKey_def pr_new_def DEFAULT_PRICES_def bare_model_def)
  from flat_price_ignores_breakdown [OF this] js_round_int [of 130] show ?thesis
    by (simp add: num_or_def)
qed

text \<open>A billed cost is never negative, and never falls when the completion grows: with
  non-negative rates and counts the cost is at least zero whatever cached count the provider
  reports, and one more completion token never lowers it.\<close>

theorem cost_nonneg_monotone:
  assumes "pr_get c model mode = Some p" and "price_nonneg p"
    and "0 \<le> num_or (ut_prompt u) 0" and "0 \<le> num_or (ut_completion u) 0"
    and "num_or (ut_completion u) 0 \<le> n"
  shows "\<exists>a b. pr_costMicroUsd c model u mode = Some a \<and>
    pr_costMicroUsd c model (u\<lparr>ut_completion := Some n\<rparr>) mode = Some b \<and> 0 \<le> a \<and> a \<le> b"
proof -
  note r = rates_nonneg [OF assms(2)]
  have created: "0 \<le> (case mp_cacheCreation p of None \<Rightarrow> 0 | Some x \<Rightarrow> of_int (max k 0) * x)" for k
    using assms(2) by (auto simp: price_nonneg_def split: option.split)
  have cacheRead: "0 \<le> rat_or (mp_cacheRead p) x" if "0 \<le> x" for x
    using assms(2) that by (auto simp: price_nonneg_def rat_or_def split: option.split)
  have cached: "0 \<le> min (max k 0) (num_or (ut_prompt u) 0)"
    "min (max k 0) (num_or (ut_prompt u) 0) \<le> num_or (ut_prompt u) 0" for k :: int
    using assms(3) by auto
  have a: "0 \<le> price_usage p u"
    unfolding price_usage_def Let_def
    by (intro add_nonneg_nonneg mult_nonneg_nonneg created cacheRead r)
      (use cached assms(3,4) in auto)
  have ab: "price_usage p u \<le> price_usage p (u\<lparr>ut_completion := Some n\<rparr>)"
    using r(2) assms(5) by (auto simp: price_usage_def Let_def num_or_def intro!: mult_right_mono)
  from assms(1) have "pr_costMicroUsd c model v mode = Some (js_round (price_usage p v))" for v
    by (simp add: pr_costMicroUsd_def)
  then show ?thesis using js_round_nonneg [OF a] js_round_mono [OF ab] by simp
qed

theorem cost_nonneg_monotone_witness:
  "\<exists>a b. pr_costMicroUsd (pr_new DEFAULT_PRICES) ''gpt-4-turbo''
       \<lparr>ut_prompt = Some 7, ut_completion = Some 2, ut_cached = Some 90, ut_cacheCreation = None,
        ut_promptTotal = None, ut_batch = False\<rparr> None = Some a \<and>
     pr_costMicroUsd (pr_new DEFAULT_PRICES) ''gpt-4-turbo''
       \<lparr>ut_prompt = Some 7, ut_completion = Some 3, ut_cached = Some 90, ut_cacheCreation = None,
        ut_promptTotal = None, ut_batch = False\<rparr> None = Some b \<and> 0 \<le> a \<and> a \<le> b"
proof -
  have "pr_get (pr_new DEFAULT_PRICES) ''gpt-4-turbo'' None = Some (flat_price 10 30)"
    by (simp add: pr_get_def pr_resolveKey_def pr_new_def DEFAULT_PRICES_def bare_model_def)
  from cost_nonneg_monotone [OF this, of "\<lparr>ut_prompt = Some 7, ut_completion = Some 2,
      ut_cached = Some 90, ut_cacheCreation = None, ut_promptTotal = None, ut_batch = False\<rparr>" 3]
  show ?thesis by (simp add: num_or_def price_nonneg_def flat_price_def)
qed

end
