(* ===== verification/ProviderManager.thy ===== *)
theory ProviderManager
  imports ProviderBudgets
begin

text \<open>
  The provider manager, \<open>klanker-gate/packages/providers/src/manager.ts\<close>: accounts with their
  clients and adapters, load balancing inside the top priority tier (plain round robin for
  uniform weights, smooth weighted round robin otherwise), routing of a model name to an account,
  and the failover chain. \<open>GatewayError\<close> is \<open>klanker-gate/packages/core/src/errors.ts\<close>. The
  construction of a client is the argument \<open>mk\<close>, which may fail; closing a client is recorded in
  a log. The weight signature of a tier, a string in the source, is the list of the pairs it is
  printed from. The budget guard is an optional \<open>ProviderBudgetTracker\<close>.
\<close>

section \<open>Errors and targets\<close>

record gateway_error =
  ge_status :: int
  ge_message :: string
  ge_type :: string
  ge_param :: "string option"
  ge_code :: "string option"

definition gw_error :: "int \<Rightarrow> string \<Rightarrow> string option \<Rightarrow> string option \<Rightarrow> string option \<Rightarrow> gateway_error" where
  "gw_error status msg ty param code =
     \<lparr>ge_status = status, ge_message = msg, ge_type = or_default ty ''invalid_request_error'',
      ge_param = param, ge_code = code\<rparr>"

record 'c target =
  tg_providerId :: string
  tg_type :: provider_type
  tg_adapter :: "'c adapter"
  tg_model :: string
  tg_account :: provider_account
  tg_records :: bool

record 'c provider_entry =
  pe_config :: provider_account
  pe_adapter :: "'c adapter"
  pe_client :: 'c

record 'c prov_manager =
  pm_accounts :: "(string, 'c provider_entry) jmap"
  pm_roundRobin :: "(string, nat) jmap"
  pm_swrr :: "(string, (string \<times> rat) list \<times> rat list) jmap"
  pm_defaultProvider :: "string option"
  pm_globalProxy :: "global_proxy option"
  pm_proxySupported :: bool
  pm_budgets :: "pb_tracker option"
  pm_closed :: "'c list"

section \<open>Load balancing\<close>

definition weightOf :: "provider_account \<Rightarrow> rat" where
  "weightOf config = or_default (ac_weight config) 1"

definition withinBudget :: "'c prov_manager \<Rightarrow> provider_account \<Rightarrow> int \<Rightarrow> bool" where
  "withinBudget m config now =
     (case pm_budgets m of None \<Rightarrow> True | Some t \<Rightarrow> pb_allows t config now)"

text \<open>One visit of the selection loop: add the weight, keep the first strict maximum.\<close>

definition swrr_visit :: "rat list \<Rightarrow> rat list \<times> nat \<Rightarrow> nat \<Rightarrow> rat list \<times> nat" where
  "swrr_visit weights st i =
     (let cur = (fst st)[i := fst st ! i + weights ! i]
      in (cur, if cur ! i > cur ! snd st then i else snd st))"

definition swrr_turn :: "rat list \<Rightarrow> rat list \<Rightarrow> rat list \<times> nat" where
  "swrr_turn weights current =
     (let (cur, best) = foldl (swrr_visit weights) (current, 0) [0..<length weights]
      in (cur[best := cur ! best - sum_list weights], best))"

definition selectHead ::
    "'c prov_manager \<Rightarrow> string \<Rightarrow> provider_account list \<Rightarrow> bool \<Rightarrow> 'c prov_manager \<times> nat" where
  "selectHead m model tier advance =
     (let weights = map weightOf tier
      in if list_all (\<lambda>w. w = weights ! 0) weights then
           (let turn = or_default (jm_get (pm_roundRobin m) model) 0;
                m1 = (if advance then m\<lparr>pm_roundRobin := jm_set (pm_roundRobin m) model (turn + 1)\<rparr> else m)
            in (m1, turn mod length tier))
         else
           (let sig = zip (map ac_id tier) weights;
                m1 = (case jm_get (pm_swrr m) model of
                        Some (sig', cur) \<Rightarrow>
                          if sig' = sig then m
                          else m\<lparr>pm_swrr := jm_set (pm_swrr m) model (sig, map (\<lambda>_. 0) weights)\<rparr>
                      | None \<Rightarrow> m\<lparr>pm_swrr := jm_set (pm_swrr m) model (sig, map (\<lambda>_. 0) weights)\<rparr>);
                current = snd (the (jm_get (pm_swrr m1) model));
                (next, best) = swrr_turn weights current
            in (if advance then m1\<lparr>pm_swrr := jm_set (pm_swrr m1) model (sig, next)\<rparr> else m1, best)))"

definition pm_list :: "'c prov_manager \<Rightarrow> provider_account list" where
  "pm_list m = map pe_config (jm_values (pm_accounts m))"

definition cmp_priority :: "provider_account \<Rightarrow> provider_account \<Rightarrow> int" where
  "cmp_priority a b =
     (if ac_priority a < ac_priority b then - 1 else if ac_priority a > ac_priority b then 1 else 0)"

definition pm_pool ::
    "'c prov_manager \<Rightarrow> string \<Rightarrow> bool \<Rightarrow> int \<Rightarrow> 'c prov_manager \<times> provider_account list" where
  "pm_pool m model advanceTurn now =
     (let advertising = filter (\<lambda>c. ac_enabled c \<and> model \<in> set (ac_models c) \<and> withinBudget m c now) (pm_list m)
      in if length advertising \<le> 1 then (m, advertising)
         else
           (let sorted = sort_by cmp_priority advertising;
                topPriority = ac_priority (sorted ! 0);
                tier = filter (\<lambda>c. ac_priority c = topPriority) sorted;
                rest = filter (\<lambda>c. ac_priority c \<noteq> topPriority) sorted;
                (m1, head) = selectHead m model tier advanceTurn
            in (m1, (drop head tier @ take head tier) @ rest)))"

section \<open>Accounts\<close>

definition makeEntry ::
    "(client_options \<Rightarrow> 'c option) \<Rightarrow> 'c prov_manager \<Rightarrow> provider_account \<Rightarrow> 'c provider_entry option" where
  "makeEntry mk m config =
     map_option (\<lambda>client. \<lparr>pe_config = config, pe_adapter = buildAdapter config client, pe_client = client\<rparr>)
       (mk (clientOptionsFor config (pm_globalProxy m)))"

definition close_client :: "'c prov_manager \<Rightarrow> string \<Rightarrow> 'c prov_manager" where
  "close_client m i =
     (case jm_get (pm_accounts m) i of
        None \<Rightarrow> m | Some e \<Rightarrow> m\<lparr>pm_closed := pm_closed m @ [pe_client e]\<rparr>)"

text \<open>The flag is false when the construction of the client threw.\<close>

definition pm_upsert ::
    "(client_options \<Rightarrow> 'c option) \<Rightarrow> 'c prov_manager \<Rightarrow> provider_account \<Rightarrow> 'c prov_manager \<times> bool" where
  "pm_upsert mk m config =
     (let m1 = close_client m (ac_id config)
      in case makeEntry mk m1 config of
           None \<Rightarrow> (m1, False)
         | Some e \<Rightarrow> (m1\<lparr>pm_accounts := jm_set (pm_accounts m1) (ac_id config) e\<rparr>, True))"

definition proxy_unsupported :: gateway_error where
  "proxy_unsupported =
     gw_error 409 ''Global proxy configuration requires Deno.createHttpClient support.'' None None None"

fun pm_upsertAll ::
    "(client_options \<Rightarrow> 'c option) \<Rightarrow> 'c prov_manager \<Rightarrow> provider_account list \<Rightarrow> 'c prov_manager option" where
  "pm_upsertAll mk m [] = Some m"
| "pm_upsertAll mk m (c # cs) =
     (let (m', ok) = pm_upsert mk m c in if ok then pm_upsertAll mk m' cs else None)"

text \<open>The constructor; \<^term>\<open>Inl None\<close> is an exception of a client's construction.\<close>

definition pm_new ::
    "(client_options \<Rightarrow> 'c option) \<Rightarrow> provider_account list \<Rightarrow> string option \<Rightarrow> pb_tracker option \<Rightarrow>
     global_proxy option \<Rightarrow> bool \<Rightarrow> gateway_error option + 'c prov_manager" where
  "pm_new mk configs def budgets globalProxy supported =
     (if globalProxy \<noteq> None \<and> \<not> supported then Inl (Some proxy_unsupported)
      else case pm_upsertAll mk
             \<lparr>pm_accounts = [], pm_roundRobin = [], pm_swrr = [], pm_defaultProvider = def,
              pm_globalProxy = globalProxy, pm_proxySupported = supported, pm_budgets = budgets,
              pm_closed = []\<rparr> configs of
             None \<Rightarrow> Inl None | Some m \<Rightarrow> Inr m)"

text \<open>The replacement entries, with the clients built so far when one cannot be built.\<close>

fun rebuild ::
    "(client_options \<Rightarrow> 'c option) \<Rightarrow> 'c prov_manager \<Rightarrow> (string, 'c provider_entry) jmap \<Rightarrow>
     provider_account list \<Rightarrow> 'c list + (string, 'c provider_entry) jmap" where
  "rebuild mk m acc [] = Inr acc"
| "rebuild mk m acc (c # cs) =
     (case makeEntry mk m c of
        None \<Rightarrow> Inl (map pe_client (jm_values acc))
      | Some e \<Rightarrow> rebuild mk m (jm_set acc (ac_id c) e) cs)"

definition pm_configureGlobalProxy ::
    "(client_options \<Rightarrow> 'c option) \<Rightarrow> 'c prov_manager \<Rightarrow> global_proxy option \<Rightarrow>
     'c prov_manager \<times> gateway_error option option" where
  "pm_configureGlobalProxy mk m config =
     (if config \<noteq> None \<and> \<not> pm_proxySupported m then (m, Some (Some proxy_unsupported))
      else case rebuild mk (m\<lparr>pm_globalProxy := config\<rparr>) [] (pm_list m) of
             Inl built \<Rightarrow> (m\<lparr>pm_closed := pm_closed m @ built\<rparr>, Some None)
           | Inr replacement \<Rightarrow>
               (m\<lparr>pm_globalProxy := config, pm_accounts := replacement,
                  pm_closed := pm_closed m @ map pe_client (jm_values (pm_accounts m))\<rparr>, None))"

definition pm_remove :: "'c prov_manager \<Rightarrow> string \<Rightarrow> 'c prov_manager \<times> bool" where
  "pm_remove m i =
     (let m1 = close_client m i
      in (m1\<lparr>pm_accounts := jm_delete (pm_accounts m1) i\<rparr>, jm_has (pm_accounts m) i))"

definition pm_get :: "'c prov_manager \<Rightarrow> string \<Rightarrow> provider_account option" where
  "pm_get m i = map_option pe_config (jm_get (pm_accounts m) i)"

definition pm_listPublic :: "'c prov_manager \<Rightarrow> account_public list" where
  "pm_listPublic m = map redactProviderAccount (pm_list m)"

definition pm_setDefaultProvider :: "'c prov_manager \<Rightarrow> string option \<Rightarrow> 'c prov_manager" where
  "pm_setDefaultProvider m i = m\<lparr>pm_defaultProvider := i\<rparr>"

record model_row =
  mr_id :: string
  mr_owned_by :: string

definition pm_models :: "'c prov_manager \<Rightarrow> model_row list" where
  "pm_models m =
     concat (map (\<lambda>c. if ac_enabled c
        then map (\<lambda>model. \<lparr>mr_id = ac_id c @ ''/'' @ model, mr_owned_by = ac_id c\<rparr>) (ac_models c)
        else []) (pm_list m))"

section \<open>Routing\<close>

definition pm_targetFor :: "'c prov_manager \<Rightarrow> string \<Rightarrow> string \<Rightarrow> gateway_error + 'c target" where
  "pm_targetFor m accountId model =
     (case jm_get (pm_accounts m) accountId of
        None \<Rightarrow> Inl (gw_error 404 (''Unknown provider \"'' @ accountId @ ''\".'')
                  (Some ''invalid_request_error'') (Some ''model'') None)
      | Some e \<Rightarrow>
          if \<not> ac_enabled (pe_config e) then
            Inl (gw_error 400 (''Provider \"'' @ accountId @ ''\" is disabled.'')
                  (Some ''invalid_request_error'') (Some ''model'') None)
          else Inr \<lparr>tg_providerId = accountId, tg_type = ac_type (pe_config e), tg_adapter = pe_adapter e,
                    tg_model = model, tg_account = pe_config e, tg_records = (pm_budgets m \<noteq> None)\<rparr>)"

text \<open>The account a prefixed model name addresses, with the model name left.\<close>

definition addressed :: "'c prov_manager \<Rightarrow> string \<Rightarrow> (string \<times> string) option" where
  "addressed m model =
     (case js_indexOf (CHR ''/'') model of
        None \<Rightarrow> None
      | Some n \<Rightarrow>
          if n > 0 \<and> jm_has (pm_accounts m) (take n model)
          then Some (take n model, drop (n + 1) model) else None)"

definition known_default :: "'c prov_manager \<Rightarrow> string option" where
  "known_default m =
     (case truthy (pm_defaultProvider m) of
        None \<Rightarrow> None | Some d \<Rightarrow> if jm_has (pm_accounts m) d then Some d else None)"

definition pm_tryProviderId :: "'c prov_manager \<Rightarrow> string \<Rightarrow> int \<Rightarrow> 'c prov_manager \<times> string option" where
  "pm_tryProviderId m model now =
     (case addressed m model of
        Some (i, _) \<Rightarrow> (m, Some i)
      | None \<Rightarrow>
          (case known_default m of
             Some d \<Rightarrow> (m, Some d)
           | None \<Rightarrow>
               (let enabled = filter ac_enabled (pm_list m)
                in if length enabled = 1 then (m, Some (ac_id (enabled ! 0)))
                   else let (m1, p) = pm_pool m model False now
                        in (m1, case p of [] \<Rightarrow> None | c # _ \<Rightarrow> Some (ac_id c)))))"

definition pm_resolve :: "'c prov_manager \<Rightarrow> string \<Rightarrow> int \<Rightarrow> 'c prov_manager \<times> (gateway_error + 'c target)" where
  "pm_resolve m model now =
     (case addressed m model of
        Some (i, rest) \<Rightarrow> (m, pm_targetFor m i rest)
      | None \<Rightarrow>
          (case truthy (pm_defaultProvider m) of
             Some d \<Rightarrow> (m, pm_targetFor m d model)
           | None \<Rightarrow>
               (let enabled = filter ac_enabled (pm_list m)
                in if length enabled = 1 then (m, pm_targetFor m (ac_id (enabled ! 0)) model)
                   else if length enabled = 0 then
                     (m, Inl (gw_error 503 ''No providers are configured. Add one via /api/providers.''
                            (Some ''provider_error'') None None))
                   else
                     (let (m1, p) = pm_pool m model True now
                      in case p of
                           c # _ \<Rightarrow> (m1, pm_targetFor m1 (ac_id c) model)
                         | [] \<Rightarrow>
                             if pm_budgets m \<noteq> None \<and>
                                list_ex (\<lambda>c. ac_enabled c \<and> model \<in> set (ac_models c)) (pm_list m)
                             then (m1, Inl (gw_error 429
                                    (''All providers advertising model \"'' @ model @
                                     ''\" are over their configured budget or rate limit.'')
                                    (Some ''provider_error'') None (Some ''provider_budget_exhausted'')))
                             else (m1, Inl (gw_error 400
                                    (''Model \"'' @ model @
                                     ''\" has no provider prefix, no default provider is set, '' @
                                     ''and no configured provider advertises it. Use \"<provider>/<model>\" '' @
                                     ''or configure a default provider.'')
                                    (Some ''invalid_request_error'') (Some ''model'') None))))))"

record fallback =
  fb_provider :: string
  fb_model :: "string option"

definition push_target :: "'c target list \<Rightarrow> gateway_error + 'c target \<Rightarrow> 'c target list" where
  "push_target chain r = (case r of Inl _ \<Rightarrow> chain | Inr t \<Rightarrow> chain @ [t])"

definition pm_resolveChain ::
    "'c prov_manager \<Rightarrow> string \<Rightarrow> fallback list \<Rightarrow> int \<Rightarrow> 'c prov_manager \<times> (gateway_error + 'c target list)" where
  "pm_resolveChain m model fallbacks now =
     (case pm_resolve m model now of
        (m1, Inl e) \<Rightarrow> (m1, Inl e)
      | (m1, Inr primary) \<Rightarrow>
          (let chain1 = foldl (\<lambda>ch fb. push_target ch
                 (pm_targetFor m1 (fb_provider fb) (or_default (fb_model fb) (tg_model primary))))
                 [primary] fallbacks;
               (m2, candidates) = pm_pool m1 (tg_model primary) False now;
               chain2 = foldl (\<lambda>ch c.
                 if list_ex (\<lambda>t. tg_providerId t = ac_id c) ch then ch
                 else push_target ch (pm_targetFor m2 (ac_id c) (tg_model primary))) chain1 candidates
           in (m2, Inr chain2)))"

section \<open>Smooth weighted round robin\<close>

lemma swrr_visits:
  fixes w c :: "rat list"
  assumes "length w = length c" and "k \<le> length c"
  defines "A \<equiv> map2 (+) c w"
  shows "fst (foldl (swrr_visit w) (c, 0) [0..<k]) = take k A @ drop k c \<and>
    snd (foldl (swrr_visit w) (c, 0) [0..<k]) \<le> k - 1 \<and>
    (\<forall>i < k. A ! i \<le> A ! snd (foldl (swrr_visit w) (c, 0) [0..<k]))"
  using assms(2)
proof (induction k)
  case (Suc k)
  have len: "length A = length c" using assms(1) by (simp add: A_def)
  obtain cur b where st: "foldl (swrr_visit w) (c, 0) [0..<k] = (cur, b)" by fastforce
  with Suc have cur: "cur = take k A @ drop k c" and b: "b \<le> k - 1" and max: "\<forall>i < k. A ! i \<le> A ! b"
    by auto
  have next': "cur[k := cur ! k + w ! k] = take (Suc k) A @ drop (Suc k) c"
  proof (rule nth_equalityI)
    show "length (cur[k := cur ! k + w ! k]) = length (take (Suc k) A @ drop (Suc k) c)"
      using len Suc.prems by (simp add: cur)
    fix i
    assume "i < length (cur[k := cur ! k + w ! k])"
    then show "cur[k := cur ! k + w ! k] ! i = (take (Suc k) A @ drop (Suc k) c) ! i"
      using len Suc.prems assms(1)
      by (auto simp: cur nth_list_update nth_append A_def min_def less_Suc_eq)
  qed
  have look: "(take (Suc k) A @ drop (Suc k) c) ! i = A ! i" if "i \<le> k" for i
    using that len Suc.prems by (simp add: nth_append)
  have bk: "b \<le> k" using b by simp
  have step: "foldl (swrr_visit w) (c, 0) [0..<Suc k] =
      (take (Suc k) A @ drop (Suc k) c, if A ! k > A ! b then k else b)"
    using st next' look [OF bk] look [of k] by (simp add: swrr_visit_def Let_def)
  show ?case
    unfolding step using max bk by (auto simp: less_Suc_eq)
qed simp

lemma swrr_turn_spec:
  fixes w c :: "rat list"
  assumes "length w = length c" and "c \<noteq> []"
  obtains b where "swrr_turn w c = ((map2 (+) c w)[b := (map2 (+) c w) ! b - sum_list w], b)"
    and "b < length c" and "\<And>i. i < length c \<Longrightarrow> (map2 (+) c w) ! i \<le> (map2 (+) c w) ! b"
proof -
  let ?r = "foldl (swrr_visit w) (c, 0) [0..<length c]"
  from swrr_visits [OF assms(1) order_refl] assms
  have r: "fst ?r = map2 (+) c w" "snd ?r \<le> length c - 1"
    "\<And>i. i < length c \<Longrightarrow> (map2 (+) c w) ! i \<le> (map2 (+) c w) ! snd ?r"
    by auto
  show thesis
    by (rule that [of "snd ?r"])
      (use r assms in \<open>auto simp: swrr_turn_def case_prod_unfold Let_def neq_Nil_conv less_Suc_eq_le\<close>)
qed

fun swrr_run :: "rat list \<Rightarrow> rat list \<Rightarrow> nat \<Rightarrow> rat list \<times> nat list" where
  "swrr_run w c 0 = (c, [])"
| "swrr_run w c (Suc k) =
     (let (c', hs) = swrr_run w c k; (c'', b) = swrr_turn w c' in (c'', hs @ [b]))"

lemma sum_list_map2_add:
  "length xs = length ys \<Longrightarrow> sum_list (map2 (+) xs ys) = sum_list xs + sum_list (ys :: rat list)"
  by (induction xs ys rule: list_induct2) auto

lemma sum_list_set: "b < length xs \<Longrightarrow> sum_list (xs[b := x]) = sum_list xs + x - (xs ! b :: rat)"
proof (induction xs arbitrary: b)
  case (Cons y xs)
  then show ?case by (cases b) auto
qed simp

lemma sum_list_nonpos: "\<forall>x \<in> set xs. x \<le> (0 :: rat) \<Longrightarrow> sum_list xs \<le> 0"
  by (induction xs) auto

text \<open>After \<open>k\<close> turns each credit is what the weight earned minus what the turns spent.\<close>

lemma swrr_run_credit:
  fixes w :: "rat list"
  assumes pos: "\<forall>x \<in> set w. 0 < x" and ne: "w \<noteq> []"
  shows "length (fst (swrr_run w (map (\<lambda>_. 0) w) k)) = length w \<and>
    length (snd (swrr_run w (map (\<lambda>_. 0) w) k)) = k \<and>
    set (snd (swrr_run w (map (\<lambda>_. 0) w) k)) \<subseteq> {..<length w} \<and>
    sum_list (fst (swrr_run w (map (\<lambda>_. 0) w) k)) = 0 \<and>
    (\<forall>i < length w. fst (swrr_run w (map (\<lambda>_. 0) w) k) ! i =
        of_nat k * w ! i - sum_list w * of_nat (count_list (snd (swrr_run w (map (\<lambda>_. 0) w) k)) i) \<and>
      - sum_list w < fst (swrr_run w (map (\<lambda>_. 0) w) k) ! i)"
proof (induction k)
  case 0
  have "0 < sum_list w" using pos ne by (cases w) (auto intro: add_pos_nonneg sum_list_nonneg less_imp_le)
  then show ?case by (simp add: sum_list_replicate map_replicate_const)
next
  case (Suc k)
  obtain c hs where st: "swrr_run w (map (\<lambda>_. 0) w) k = (c, hs)" by fastforce
  let ?A = "map2 (+) c w"
  from Suc st have len: "length w = length c" "length hs = k" "set hs \<subseteq> {..<length w}" "sum_list c = 0"
    and credit: "\<And>i. i < length w \<Longrightarrow> c ! i = of_nat k * w ! i - sum_list w * of_nat (count_list hs i)"
    and low: "\<And>i. i < length w \<Longrightarrow> - sum_list w < c ! i"
    by auto
  have cne: "c \<noteq> []" using ne len(1) by auto
  obtain b where turn: "swrr_turn w c = (?A[b := ?A ! b - sum_list w], b)" and b: "b < length c"
    and max: "\<And>i. i < length c \<Longrightarrow> ?A ! i \<le> ?A ! b"
    using swrr_turn_spec [OF len(1) cne] by metis
  have W: "0 < sum_list w" using pos ne by (cases w) (auto intro: add_pos_nonneg sum_list_nonneg less_imp_le)
  have sumA: "sum_list ?A = sum_list w" using sum_list_map2_add [of c w] len by simp
  have top: "0 < ?A ! b"
  proof (rule ccontr)
    assume "\<not> 0 < ?A ! b"
    then have "x \<le> 0" if "x \<in> set ?A" for x
    proof -
      from that obtain i where "i < length ?A" "x = ?A ! i" by (metis in_set_conv_nth)
      with max [of i] len(1) \<open>\<not> 0 < ?A ! b\<close> show ?thesis by simp
    qed
    then have "\<forall>x \<in> set ?A. x \<le> 0" by blast
    then have "sum_list ?A \<le> 0" by (rule sum_list_nonpos)
    with sumA W show False by simp
  qed
  define cc where "cc = ?A[b := ?A ! b - sum_list w]"
  have run: "swrr_run w (map (\<lambda>_. 0) w) (Suc k) = (cc, hs @ [b])"
    by (simp add: st turn cc_def)
  have f1: "sum_list cc = 0"
    using sumA b len(1) by (simp add: sum_list_set cc_def)
  have f2: "length cc = length w" using len(1) by (simp add: cc_def)
  have f3: "cc ! i = of_nat (Suc k) * w ! i - sum_list w * of_nat (count_list (hs @ [b]) i) \<and>
      - sum_list w < cc ! i" if i: "i < length w" for i
  proof -
    have "0 < w ! i" using pos i by simp
    then show ?thesis
      using credit [OF i] low [OF i] top b len(1) i
      by (cases "i = b") (auto simp: algebra_simps cc_def)
  qed
  show ?case
    unfolding run fst_conv snd_conv
    by (intro conjI f1 f2 allI impI f3 [THEN conjunct1] f3 [THEN conjunct2]) (use len b in auto)
qed

lemma swrr_fair:
  assumes pos: "\<forall>n \<in> set ns. 0 < n" and i: "i < length ns"
  shows "count_list (snd (swrr_run (map of_nat ns) (map (\<lambda>_. 0) ns) (sum_list ns))) i = ns ! i"
proof -
  let ?w = "map of_nat ns :: rat list" and ?W = "sum_list ns"
  let ?hs = "snd (swrr_run ?w (map (\<lambda>_. 0) ns) ?W)"
  have ne: "?w \<noteq> []" using i by auto
  have zero: "map (\<lambda>_. 0) ?w = (map (\<lambda>_. 0) ns :: rat list)" by simp
  have sumw: "sum_list ?w = of_nat ?W" by (induction ns) auto
  from swrr_run_credit [of ?w ?W] pos ne
  have len: "length ?hs = ?W" "set ?hs \<subseteq> {..<length ns}"
    and low: "\<And>j. j < length ns \<Longrightarrow>
      - (of_nat ?W) < of_nat ?W * (of_nat (ns ! j) :: rat) - of_nat ?W * of_nat (count_list ?hs j)"
    unfolding zero sumw by auto
  have le: "count_list ?hs j \<le> ns ! j" if j: "j < length ns" for j
  proof -
    have W: "0 < ?W" using pos i by (metis elem_le_sum_list not_gr_zero nth_mem le_zero_eq)
    have "- (of_nat ?W) < of_nat ?W * ((of_nat (ns ! j) :: rat) - of_nat (count_list ?hs j))"
      using low [OF j] by (simp add: algebra_simps)
    then have "of_nat ?W * (- 1) < of_nat ?W * ((of_nat (ns ! j) :: rat) - of_nat (count_list ?hs j))"
      by simp
    then have "- 1 < (of_nat (ns ! j) :: rat) - of_nat (count_list ?hs j)"
      using W by (simp only: mult_less_cancel_left_pos of_nat_0_less_iff)
    then have "of_nat (count_list ?hs j) < (of_nat (ns ! j + 1) :: rat)" by simp
    then show ?thesis by (simp only: of_nat_less_iff)
  qed
  have "sum (count_list ?hs) {..<length ns} = length ?hs"
    by (rule sum_count_set [OF len(2)]) simp
  also have "\<dots> = ?W" by (rule len(1))
  also have "?W = (\<Sum>j<length ns. ns ! j)" by (simp add: sum_list_sum_nth atLeast0LessThan)
  finally have tot: "sum (count_list ?hs) {..<length ns} = (\<Sum>j<length ns. ns ! j)" .
  have "count_list ?hs i = ns ! i"
  proof (rule ccontr)
    assume "count_list ?hs i \<noteq> ns ! i"
    with le [OF i] have "count_list ?hs i < ns ! i" by simp
    then have "sum (count_list ?hs) {..<length ns} < (\<Sum>j<length ns. ns ! j)"
      by (intro sum_strict_mono_ex1) (use le i in auto)
    with tot show False by simp
  qed
  then show ?thesis .
qed

section \<open>The rotation of a tier\<close>

text \<open>The heads of consecutive requests for one model over an unchanged tier.\<close>

fun heads :: "'c prov_manager \<Rightarrow> string \<Rightarrow> provider_account list \<Rightarrow> nat \<Rightarrow> 'c prov_manager \<times> nat list" where
  "heads m model tier 0 = (m, [])"
| "heads m model tier (Suc k) =
     (let (m1, hs) = heads m model tier k; (m2, h) = selectHead m1 model tier True in (m2, hs @ [h]))"

definition uniform :: "provider_account list \<Rightarrow> bool" where
  "uniform tier \<longleftrightarrow> list_all (\<lambda>w. w = map weightOf tier ! 0) (map weightOf tier)"

lemma heads_uniform:
  assumes "uniform tier"
  shows "jm_get (pm_roundRobin (fst (heads m model tier k))) model =
      (if k = 0 then jm_get (pm_roundRobin m) model
       else Some (or_default (jm_get (pm_roundRobin m) model) 0 + k)) \<and>
    snd (heads m model tier k) =
      map (\<lambda>j. (or_default (jm_get (pm_roundRobin m) model) 0 + j) mod length tier) [0..<k]"
proof (induction k)
  case (Suc k)
  obtain m1 hs where st: "heads m model tier k = (m1, hs)" by fastforce
  with Suc assms show ?case
    by (auto simp: selectHead_def Let_def uniform_def or_default_def split: if_splits)
qed simp

lemma count_upt: "count_list [0..<n] i = (if i < n then 1 else 0)"
  by (induction n) auto

lemma count_rotation:
  assumes "0 < n" and "i < n"
  shows "count_list (map (\<lambda>j. (r + j) mod n) [0..<n * q]) i = q"
proof (induction q)
  case (Suc q)
  have one: "count_list (map (\<lambda>j. (s + j) mod n) [0..<n]) i = 1" for s
  proof (induction s)
    case 0
    have "map (\<lambda>j. (0 + j) mod n) [0..<n] = [0..<n]" by (rule nth_equalityI) auto
    with assms show ?case by (simp add: count_upt)
  next
    case (Suc s)
    let ?f = "\<lambda>j. (s + j) mod n"
    have "map ?f [0..<n] @ [s mod n] = s mod n # map (\<lambda>j. (Suc s + j) mod n) [0..<n]"
      using map_upt_Suc [of ?f n] by simp
    then have "count_list (map ?f [0..<n] @ [s mod n]) i =
        count_list (s mod n # map (\<lambda>j. (Suc s + j) mod n) [0..<n]) i"
      by (simp only:)
    with Suc show ?case by (simp split: if_splits)
  qed
  have "[0..<n * Suc q] = [0..<n * q] @ [n * q..<n * q + n]"
    using upt_add_eq_append [of 0 "n * q" n] by (simp add: add.commute)
  moreover have "map (\<lambda>j. (r + j) mod n) [n * q..<n * q + n] = map (\<lambda>j. (r + n * q + j) mod n) [0..<n]"
    by (rule nth_equalityI) (auto simp: add.assoc)
  ultimately show ?case using Suc one [of "r + n * q"] by simp
qed simp

lemma heads_weighted:
  assumes "\<not> uniform tier" and "\<And>cur. jm_get (pm_swrr m) model \<noteq> Some (zip (map ac_id tier) (map weightOf tier), cur)"
  shows "snd (heads m model tier k) = snd (swrr_run (map weightOf tier) (map (\<lambda>_. 0) tier) k) \<and>
    (0 < k \<longrightarrow> jm_get (pm_swrr (fst (heads m model tier k))) model =
      Some (zip (map ac_id tier) (map weightOf tier), fst (swrr_run (map weightOf tier) (map (\<lambda>_. 0) tier) k)))"
proof (induction k)
  case (Suc k)
  let ?w = "map weightOf tier" and ?sig = "zip (map ac_id tier) (map weightOf tier)"
  obtain m1 hs where st: "heads m model tier k = (m1, hs)" by fastforce
  obtain c hs' where run: "swrr_run ?w (map (\<lambda>_. 0) tier) k = (c, hs')" by fastforce
  obtain c2 b where turn: "swrr_turn ?w c = (c2, b)" by fastforce
  have zeros: "map (\<lambda>_. 0) ?w = (map (\<lambda>_. 0) tier :: rat list)" by simp
  have head: "h = b \<and> jm_get (pm_swrr m2) model = Some (?sig, c2)"
    if sel: "selectHead m1 model tier True = (m2, h)" for m2 h
  proof (cases "k = 0")
    case True
    then have m: "m1 = m" "c = map (\<lambda>_. 0) tier" using st run by auto
    show ?thesis
    proof (cases "jm_get (pm_swrr m) model")
      case None
      with sel assms(1) turn m show ?thesis
        by (auto simp: selectHead_def uniform_def [symmetric] Let_def zeros comp_def)
    next
      case (Some sc)
      obtain sig' cur where "sc = (sig', cur)" by fastforce
      with Some assms(2) have "jm_get (pm_swrr m) model = Some (sig', cur)" "sig' \<noteq> ?sig" by auto
      with sel assms(1) turn m show ?thesis
        by (auto simp: selectHead_def uniform_def [symmetric] Let_def zeros comp_def)
    qed
  next
    case False
    then have "jm_get (pm_swrr m1) model = Some (?sig, c)" using Suc st run by simp
    with sel assms(1) turn show ?thesis
      by (auto simp: selectHead_def uniform_def [symmetric] Let_def)
  qed
  with Suc st run turn show ?case by (cases "selectHead m1 model tier True") auto
qed simp

lemma load_balancing_fair_facts:
  assumes "i < length tier"
  shows "map weightOf tier = map of_nat ns \<Longrightarrow> \<forall>n \<in> set ns. 0 < n \<Longrightarrow> \<not> uniform tier \<Longrightarrow>
      jm_get (pm_swrr m) model = None \<Longrightarrow>
      count_list (snd (heads m model tier (sum_list ns))) i = ns ! i"
    and "uniform tier \<Longrightarrow> count_list (snd (heads m model tier (length tier * q))) i = q"
proof -
  assume w: "map weightOf tier = map of_nat ns" and pos: "\<forall>n \<in> set ns. 0 < n"
    and nu: "\<not> uniform tier" and fresh: "jm_get (pm_swrr m) model = None"
  have len: "length ns = length tier" using arg_cong [OF w, of length] by simp
  have "(map (\<lambda>_. 0) tier :: rat list) = map (\<lambda>_. 0) ns" using len by (simp add: map_replicate_const)
  then have "snd (heads m model tier (sum_list ns)) =
      snd (swrr_run (map of_nat ns) (map (\<lambda>_. 0) ns) (sum_list ns))"
    using heads_weighted [OF nu, of m model "sum_list ns"] fresh w by simp
  with swrr_fair [OF pos, of i] assms len
  show "count_list (snd (heads m model tier (sum_list ns))) i = ns ! i" by simp
next
  assume "uniform tier"
  moreover have "0 < length tier" using assms by (cases tier) auto
  ultimately show "count_list (snd (heads m model tier (length tier * q))) i = q"
    using count_rotation [OF _ assms] heads_uniform [THEN conjunct2, of tier m model "length tier * q"]
    by (simp only:)
qed

text \<open>C31: Load balancing is exactly proportional. With integral weights that are not all equal, and
  no earlier rotation of this tier, the first \<open>sum\<close> of the weights requests for a model are headed
  by each account exactly as many times as its weight; with equal weights every run of
  \<open>q\<close> rounds is headed by each account exactly \<open>q\<close> times, wherever the rotation stood.\<close>

theorem load_balancing_fair:
  assumes "i < length tier"
  shows "(\<forall>ns. map weightOf tier = map of_nat ns \<and> (\<forall>n \<in> set ns. 0 < n) \<and> \<not> uniform tier \<and>
        jm_get (pm_swrr m) model = None \<longrightarrow>
        count_list (snd (heads m model tier (sum_list ns))) i = ns ! i) \<and>
      (uniform tier \<longrightarrow> count_list (snd (heads m model tier (length tier * q))) i = q)"
  using load_balancing_fair_facts [OF assms] by metis

definition idle_manager :: "provider_account list \<Rightarrow> unit prov_manager" where
  "idle_manager cs =
     \<lparr>pm_accounts = map (\<lambda>c. (ac_id c, \<lparr>pe_config = c, pe_adapter = buildAdapter c (), pe_client = ()\<rparr>)) cs,
      pm_roundRobin = [], pm_swrr = [], pm_defaultProvider = None, pm_globalProxy = None,
      pm_proxySupported = True, pm_budgets = None, pm_closed = []\<rparr>"

definition weighted :: "string \<Rightarrow> rat \<Rightarrow> provider_account" where
  "weighted i w = (capped_account i 9)\<lparr>ac_weight := Some w\<rparr>"

theorem load_balancing_fair_witness:
  "count_list (snd (heads (idle_manager []) ''m'' [weighted ''a'' 2, weighted ''b'' 1] 3)) 0 = 2"
  using load_balancing_fair [of 0 "[weighted ''a'' 2, weighted ''b'' 1]" "idle_manager []" "''m''",
      THEN conjunct1, THEN spec, of "[2, 1]"]
  by (simp add: weighted_def weightOf_def or_default_def uniform_def idle_manager_def)

section \<open>Peeking\<close>

definition tier_sig :: "provider_account list \<Rightarrow> (string \<times> rat) list" where
  "tier_sig tier = zip (map ac_id tier) (map weightOf tier)"

text \<open>The credits a tier starts its next turn from.\<close>

definition credits :: "'c prov_manager \<Rightarrow> string \<Rightarrow> provider_account list \<Rightarrow> rat list" where
  "credits m model tier =
     (case jm_get (pm_swrr m) model of
        Some (sig, cur) \<Rightarrow> if sig = tier_sig tier then cur else map (\<lambda>_. 0) tier
      | None \<Rightarrow> map (\<lambda>_. 0) tier)"

lemma selectHead_weighted:
  assumes "\<not> uniform tier"
  shows "snd (selectHead m model tier adv) = snd (swrr_turn (map weightOf tier) (credits m model tier))"
    and "jm_get (pm_swrr (fst (selectHead m model tier adv))) model =
      Some (tier_sig tier, if adv then fst (swrr_turn (map weightOf tier) (credits m model tier))
                           else credits m model tier)"
    and "pm_roundRobin (fst (selectHead m model tier adv)) = pm_roundRobin m"
  using assms
  by (auto simp: selectHead_def credits_def tier_sig_def uniform_def [symmetric] Let_def comp_def
      case_prod_unfold split: option.splits prod.splits)

lemma jm_set_set: "jm_set (jm_set m k v) k w = jm_set m k w"
  by (induction m) auto

lemma jm_set_same: "jm_get m k = Some v \<Longrightarrow> jm_set m k v = m"
  by (induction m) (auto split: if_splits)

lemma peek_is_neutral_facts:
  "snd (selectHead m model tier False) = snd (selectHead m model tier True)"
  "selectHead (fst (selectHead m model tier False)) model tier True = selectHead m model tier True"
proof -
  show "snd (selectHead m model tier False) = snd (selectHead m model tier True)"
    by (auto simp: selectHead_def Let_def case_prod_unfold)
  show "selectHead (fst (selectHead m model tier False)) model tier True = selectHead m model tier True"
  proof (cases "uniform tier")
    case True
    then show ?thesis by (simp add: selectHead_def uniform_def [symmetric] Let_def)
  next
    case False
    then show ?thesis
      by (auto simp: selectHead_def uniform_def [symmetric] Let_def case_prod_unfold jm_set_set
          split: option.splits)
  qed
qed

text \<open>Looking without taking a turn does not disturb the rotation of the tier looked at: a peek
  answers the head the next request will get, and the next turn, its head and the state it
  leaves are the same with or without the peek.\<close>

theorem peek_is_neutral:
  "snd (selectHead m model tier False) = snd (selectHead m model tier True) \<and>
   selectHead (fst (selectHead m model tier False)) model tier True = selectHead m model tier True"
  using peek_is_neutral_facts by blast

text \<open>A peek over another tier is not neutral: telemetry that labels a request after an account
  of the tier went over budget looks at a smaller tier, and that resets the weighted rotation,
  so the next head over the full tier is the one a fresh rotation starts with.\<close>

theorem peek_of_another_tier_restarts:
  assumes "\<not> uniform tier" and "\<not> uniform other" and "tier_sig other \<noteq> tier_sig tier"
  shows "snd (selectHead (fst (selectHead m model other False)) model tier True) =
    snd (swrr_turn (map weightOf tier) (map (\<lambda>_. 0) tier))"
proof -
  have "credits (fst (selectHead m model other False)) model tier = map (\<lambda>_. 0) tier"
    using selectHead_weighted(2) [OF assms(2), of m model False] assms(3) by (simp add: credits_def)
  then show ?thesis by (simp add: selectHead_weighted(1) [OF assms(1)])
qed

theorem peek_of_another_tier_restarts_witness:
  "\<exists>m :: unit prov_manager. \<exists>tier other.
     snd (selectHead m ''m'' tier True) = 1 \<and>
     snd (selectHead (fst (selectHead m ''m'' other False)) ''m'' tier True) = 0"
proof -
  let ?tier = "[weighted ''a'' 2, weighted ''b'' 1]"
  let ?other = "[weighted ''a'' 2, weighted ''c'' 1]"
  let ?m = "fst (selectHead (idle_manager []) ''m'' ?tier True)"
  have w: "weightOf (weighted i x) = x" "ac_id (weighted i x) = i" for i x
    by (simp_all add: weighted_def weightOf_def or_default_def)
  have nu: "\<not> uniform ?tier" "\<not> uniform ?other" by (simp_all add: uniform_def w)
  have turn0: "swrr_turn [2, 1] [0, 0] = ([- 1, 1], 0)" and turn1: "snd (swrr_turn [2, 1] [- 1, 1]) = 1"
    by (simp_all add: swrr_turn_def swrr_visit_def Let_def)
  have "credits (idle_manager []) ''m'' ?tier = [0, 0]" by (simp add: credits_def idle_manager_def)
  then have "credits ?m ''m'' ?tier = [- 1, 1]"
    using selectHead_weighted(2) [OF nu(1), of "idle_manager []" "''m''" True] turn0
    by (simp add: credits_def w)
  then have "snd (selectHead ?m ''m'' ?tier True) = 1"
    using selectHead_weighted(1) [OF nu(1), of ?m "''m''" True] turn1 by (simp add: w)
  moreover have "tier_sig ?other \<noteq> tier_sig ?tier" by (simp add: tier_sig_def w)
  then have "snd (selectHead (fst (selectHead ?m ''m'' ?other False)) ''m'' ?tier True) = 0"
    using peek_of_another_tier_restarts [OF nu] turn0 by (simp add: w)
  ultimately show ?thesis by blast
qed

section \<open>Pools and chains\<close>

interpretation priority_order: comparator_order cmp_priority
  by unfold_locales (auto simp: cmp_priority_def split: if_splits)

definition eligible :: "'c prov_manager \<Rightarrow> string \<Rightarrow> int \<Rightarrow> provider_account \<Rightarrow> bool" where
  "eligible m model now c \<longleftrightarrow> ac_enabled c \<and> model \<in> set (ac_models c) \<and> withinBudget m c now"

lemma cmp_priority_le: "cmp_priority a b \<le> 0 \<longleftrightarrow> ac_priority a \<le> ac_priority b"
  by (auto simp: cmp_priority_def)

lemma sorted_const:
  "(\<And>c. c \<in> set xs \<Longrightarrow> ac_priority c = t) \<Longrightarrow> sorted_wrt (\<lambda>a b. ac_priority a \<le> ac_priority b) xs"
  by (induction xs) auto

lemma pool_members:
  assumes "pm_pool m model adv now = (m', p)"
  shows "set p = {c \<in> set (pm_list m). eligible m model now c}"
    and "sorted_wrt (\<lambda>a b. ac_priority a \<le> ac_priority b) p"
proof -
  let ?adv = "filter (eligible m model now) (pm_list m)"
  let ?s = "sort_by cmp_priority ?adv"
  let ?top = "ac_priority (?s ! 0)"
  let ?tier = "filter (\<lambda>c. ac_priority c = ?top) ?s" and ?rest = "filter (\<lambda>c. ac_priority c \<noteq> ?top) ?s"
  have sorted: "sorted_wrt (\<lambda>a b. ac_priority a \<le> ac_priority b) ?s"
    using priority_order.sort_by_sorted [of ?adv] by (simp add: cmp_priority_le)
  have shape: "length ?adv \<le> 1 \<and> p = ?adv \<or> (\<exists>h. p = (drop h ?tier @ take h ?tier) @ ?rest)"
    using assms by (auto simp: pm_pool_def eligible_def [abs_def] Let_def case_prod_unfold split: if_splits)
  have rot: "set (drop h xs @ take h xs) = set xs" for h and xs :: "provider_account list"
    by (metis Un_commute append_take_drop_id set_append)
  have part: "set ?tier \<union> set ?rest = set ?adv" by auto
  show "set p = {c \<in> set (pm_list m). eligible m model now c}"
    using shape
  proof
    assume "\<exists>h. p = (drop h ?tier @ take h ?tier) @ ?rest"
    then obtain h where "p = (drop h ?tier @ take h ?tier) @ ?rest" by blast
    then have "set p = set ?tier \<union> set ?rest" by (simp only: set_append [of _ ?rest] rot)
    then show ?thesis using part by auto
  qed auto
  have least: "?top \<le> ac_priority c" if "c \<in> set ?s" for c
  proof -
    from that obtain y ys where ys: "?s = y # ys" by (cases ?s) auto
    with sorted that show ?thesis by auto
  qed
  show "sorted_wrt (\<lambda>a b. ac_priority a \<le> ac_priority b) p"
    using shape
  proof
    assume "length ?adv \<le> 1 \<and> p = ?adv"
    then have "length p \<le> 1" by simp
    then show ?thesis by (cases p rule: remdups_adj.cases) auto
  next
    assume "\<exists>h. p = (drop h ?tier @ take h ?tier) @ ?rest"
    then obtain h where p: "p = (drop h ?tier @ take h ?tier) @ ?rest" by blast
    have top: "ac_priority c = ?top" if "c \<in> set (drop h ?tier @ take h ?tier)" for c
      using that unfolding rot by simp
    have "sorted_wrt (\<lambda>a b. ac_priority a \<le> ac_priority b) (drop h ?tier @ take h ?tier)"
      by (rule sorted_const) (rule top)
    moreover have "sorted_wrt (\<lambda>a b. ac_priority a \<le> ac_priority b) ?rest"
      by (rule sorted_wrt_filter [OF sorted])
    moreover have "ac_priority a \<le> ac_priority b"
      if "a \<in> set (drop h ?tier @ take h ?tier)" "b \<in> set ?rest" for a b
      using top [OF that(1)] least that(2) by auto
    ultimately show ?thesis unfolding p sorted_wrt_append by blast
  qed
qed

lemma pool_is_eligible_by_priority_facts:
  "set (snd (pm_pool m model adv now)) = {c \<in> set (pm_list m). eligible m model now c}"
  "sorted_wrt (\<lambda>a b. ac_priority a \<le> ac_priority b) (snd (pm_pool m model adv now))"
proof -
  obtain m' p where p: "pm_pool m model adv now = (m', p)" by fastforce
  from pool_members [OF p] p
  show "set (snd (pm_pool m model adv now)) = {c \<in> set (pm_list m). eligible m model now c}"
    and "sorted_wrt (\<lambda>a b. ac_priority a \<le> ac_priority b) (snd (pm_pool m model adv now))"
    by simp_all
qed

text \<open>The load-balancing pool of a model is exactly the enabled accounts that advertise it and
  are within budget, in ascending priority: rotating the top tier never promotes an account
  over a more important one, and never loses or adds one.\<close>

theorem pool_is_eligible_by_priority:
  "set (snd (pm_pool m model adv now)) = {c \<in> set (pm_list m). eligible m model now c} \<and>
   sorted_wrt (\<lambda>a b. ac_priority a \<le> ac_priority b) (snd (pm_pool m model adv now))"
  using pool_is_eligible_by_priority_facts by blast

lemma targetFor_Inr:
  "pm_targetFor m i model = Inr t \<Longrightarrow>
    tg_providerId t = i \<and> tg_model t = model \<and> ac_enabled (tg_account t) \<and>
    pm_get m i = Some (tg_account t)"
  by (auto simp: pm_targetFor_def pm_get_def split: option.splits if_splits)

lemma targetFor_enabled:
  "pm_get m i = Some c \<Longrightarrow> ac_enabled c \<Longrightarrow> \<exists>t. pm_targetFor m i model = Inr t"
  by (auto simp: pm_targetFor_def pm_get_def)

lemma selectHead_accounts [simp]: "pm_accounts (fst (selectHead m model tier adv)) = pm_accounts m"
  by (auto simp: selectHead_def Let_def case_prod_unfold split: option.split)

lemma pool_accounts [simp]: "pm_accounts (fst (pm_pool m model adv now)) = pm_accounts m"
  by (auto simp: pm_pool_def Let_def case_prod_unfold)

lemma resolve_accounts [simp]: "pm_accounts (fst (pm_resolve m model now)) = pm_accounts m"
  unfolding pm_resolve_def Let_def case_prod_unfold
  by (simp split: option.split list.split)

lemma resolve_Inr:
  assumes "pm_resolve m model now = (m1, Inr t)"
  shows "\<exists>i name. pm_targetFor m1 i name = Inr t"
  using assms by (auto simp: pm_resolve_def Let_def split: option.splits if_splits prod.splits list.splits)

text \<open>The failover loop: candidates not yet in the chain are appended.\<close>

lemma failover_fold:
  fixes m2 :: "'c prov_manager"
  assumes "\<forall>t \<in> set ch. pm_get m2 (tg_providerId t) = Some (tg_account t) \<and> ac_enabled (tg_account t)"
    and "\<forall>c \<in> set cs. \<exists>t. pm_targetFor m2 (ac_id c) name = Inr t"
  defines "step \<equiv> \<lambda>ch c. if list_ex (\<lambda>t. tg_providerId t = ac_id c) ch then ch
                 else push_target ch (pm_targetFor m2 (ac_id c) name)"
  shows "(\<forall>t \<in> set (foldl step ch cs). pm_get m2 (tg_providerId t) = Some (tg_account t) \<and>
      ac_enabled (tg_account t)) \<and>
    (\<exists>more. foldl step ch cs = ch @ more \<and>
       distinct (map tg_providerId more) \<and> set (map tg_providerId more) \<inter> set (map tg_providerId ch) = {}) \<and>
    (\<forall>c \<in> set cs. ac_id c \<in> set (map tg_providerId (foldl step ch cs)))"
  using assms(1,2)
proof (induction cs arbitrary: ch)
  case (Cons c cs)
  show ?case
  proof (cases "list_ex (\<lambda>t. tg_providerId t = ac_id c) ch")
    case True
    then have st: "step ch c = ch" by (simp add: step_def)
    obtain t0 where "t0 \<in> set ch" "tg_providerId t0 = ac_id c" using True by (auto simp: list_ex_iff)
    have eq: "foldl step ch (c # cs) = foldl step ch cs" by (simp add: st)
    have "\<forall>c \<in> set cs. \<exists>t. pm_targetFor m2 (ac_id c) name = Inr t" using Cons.prems(2) by simp
    note ih = Cons.IH [OF Cons.prems(1) this]
    then obtain more where "foldl step ch cs = ch @ more" by blast
    then have "ac_id c \<in> set (map tg_providerId (foldl step ch cs))"
      using \<open>t0 \<in> set ch\<close> \<open>tg_providerId t0 = ac_id c\<close> by force
    with ih show ?thesis unfolding eq by simp
  next
    case False
    obtain t where t: "pm_targetFor m2 (ac_id c) name = Inr t" using Cons.prems(2) by auto
    from False t have st: "step ch c = ch @ [t]" by (simp add: step_def push_target_def)
    have tid: "tg_providerId t = ac_id c" and "pm_get m2 (ac_id c) = Some (tg_account t)" "ac_enabled (tg_account t)"
      using targetFor_Inr [OF t] by auto
    with Cons.prems have ok: "\<forall>t \<in> set (ch @ [t]). pm_get m2 (tg_providerId t) = Some (tg_account t) \<and>
        ac_enabled (tg_account t)" by auto
    have "\<forall>c \<in> set cs. \<exists>t. pm_targetFor m2 (ac_id c) name = Inr t" using Cons.prems(2) by simp
    note ih = Cons.IH [OF ok this]
    then obtain more where more: "foldl step (ch @ [t]) cs = (ch @ [t]) @ more"
      "distinct (map tg_providerId more)" "set (map tg_providerId more) \<inter> set (map tg_providerId (ch @ [t])) = {}"
      by blast
    have rest: "\<forall>t \<in> set (foldl step (ch @ [t]) cs). pm_get m2 (tg_providerId t) = Some (tg_account t) \<and>
        ac_enabled (tg_account t)" "\<forall>c \<in> set cs. ac_id c \<in> set (map tg_providerId (foldl step (ch @ [t]) cs))"
      using ih by blast+
    have new: "tg_providerId t \<notin> set (map tg_providerId ch)" using False tid by (auto simp: list_ex_iff)
    have "foldl step ch (c # cs) = ch @ (t # more)" using st more(1) by simp
    moreover have "distinct (map tg_providerId (t # more))"
      "set (map tg_providerId (t # more)) \<inter> set (map tg_providerId ch) = {}"
      using more new by auto
    moreover have "ac_id c \<in> set (map tg_providerId (ch @ t # more))" using tid by simp
    ultimately show ?thesis using rest more(1) by (intro conjI) auto
  qed
qed (simp add: step_def)

lemma fallback_fold:
  assumes "\<forall>t \<in> set ch. pm_get m1 (tg_providerId t) = Some (tg_account t) \<and> ac_enabled (tg_account t)"
  shows "\<exists>more. foldl (\<lambda>ch fb. push_target ch (pm_targetFor m1 (fb_provider fb) (nm fb))) ch fbs = ch @ more \<and>
    (\<forall>t \<in> set (ch @ more). pm_get m1 (tg_providerId t) = Some (tg_account t) \<and> ac_enabled (tg_account t))"
  using assms
proof (induction fbs arbitrary: ch)
  case (Cons fb fbs)
  show ?case
  proof (cases "pm_targetFor m1 (fb_provider fb) (nm fb)")
    case (Inl e)
    with Cons.IH [OF Cons.prems] show ?thesis by (simp add: push_target_def)
  next
    case (Inr t)
    with Cons.prems targetFor_Inr [OF Inr] have "\<forall>t \<in> set (ch @ [t]).
        pm_get m1 (tg_providerId t) = Some (tg_account t) \<and> ac_enabled (tg_account t)" by auto
    from Cons.IH [OF this] Inr show ?thesis by (auto simp: push_target_def)
  qed
qed simp

text \<open>The explicit fallbacks that resolve, in their order, and where the automatic targets come from.\<close>

definition explicit_targets :: "'c prov_manager \<Rightarrow> string \<Rightarrow> fallback list \<Rightarrow> 'c target list" where
  "explicit_targets m model fbs =
     List.map_filter (\<lambda>fb. case pm_targetFor m (fb_provider fb) (or_default (fb_model fb) model) of
       Inr t \<Rightarrow> Some t | Inl e \<Rightarrow> None) fbs"

lemma explicit_fold:
  "foldl (\<lambda>ch fb. push_target ch (pm_targetFor m (fb_provider fb) (or_default (fb_model fb) model))) ch fbs =
     ch @ explicit_targets m model fbs"
  by (induction fbs arbitrary: ch)
    (simp_all add: explicit_targets_def push_target_def map_filter_simps split: sum.split)

lemma failover_source:
  assumes "t \<in> set (foldl (\<lambda>ch c. if list_ex (\<lambda>t. tg_providerId t = ac_id c) ch then ch
                 else push_target ch (pm_targetFor m (ac_id c) name)) ch cs)"
  shows "t \<in> set ch \<or> (\<exists>c \<in> set cs. pm_targetFor m (ac_id c) name = Inr t)"
  using assms
proof (induction cs arbitrary: ch)
  case (Cons c cs)
  from Cons.IH [OF Cons.prems [unfolded foldl.simps]] show ?case
    by (auto simp: push_target_def split: if_splits sum.splits)
qed simp

definition accounts_ok :: "'c prov_manager \<Rightarrow> bool" where
  "accounts_ok m \<longleftrightarrow> jm_ok (pm_accounts m) \<and>
     (\<forall>i e. jm_get (pm_accounts m) i = Some e \<longrightarrow> ac_id (pe_config e) = i)"

text \<open>C32: In a manager whose accounts are registered under their own ids, a failover chain is the resolved target, then the explicit fallbacks that resolve, in the caller's
  order, then an automatic part. Every target is an enabled, registered account. The automatic part holds,
  under the primary's model name, exactly the accounts of the model's pool that are not in the chain yet,
  whether as the primary or as an explicit fallback, and each of them once; so no account is added
  automatically that is tried anyway, and without explicit fallbacks no account is tried twice.\<close>

theorem failover_chain:
  assumes "accounts_ok m" and "pm_resolveChain m model fallbacks now = (m2, Inr chain)"
  shows "\<exists>m1 primary automatic. pm_resolve m model now = (m1, Inr primary) \<and>
      chain = primary # explicit_targets m1 (tg_model primary) fallbacks @ automatic \<and>
      (\<forall>t \<in> set chain. pm_get m (tg_providerId t) = Some (tg_account t) \<and> ac_enabled (tg_account t)) \<and>
      (\<forall>t \<in> set automatic. tg_model t = tg_model primary) \<and>
      distinct (map tg_providerId automatic) \<and>
      tg_providerId ` set automatic = ac_id ` set (snd (pm_pool m1 (tg_model primary) False now)) -
        tg_providerId ` set (primary # explicit_targets m1 (tg_model primary) fallbacks)"
proof -
  obtain m1 r where res: "pm_resolve m model now = (m1, r)" by fastforce
  from assms(2) res obtain primary where r: "r = Inr primary"
    by (cases r) (auto simp: pm_resolveChain_def)
  obtain mp cands where pool: "pm_pool m1 (tg_model primary) False now = (mp, cands)" by fastforce
  have acc: "pm_accounts m1 = pm_accounts m" "pm_accounts mp = pm_accounts m"
    using resolve_accounts [of m model now] pool_accounts [of m1 "tg_model primary" False now] res pool
    by simp_all
  have get: "pm_get m1 = pm_get m" "pm_get mp = pm_get m" by (auto simp: pm_get_def acc)
  let ?fb = "\<lambda>ch fb. push_target ch
      (pm_targetFor m1 (fb_provider fb) (or_default (fb_model fb) (tg_model primary)))"
  let ?st = "\<lambda>ch c. if list_ex (\<lambda>t. tg_providerId t = ac_id c) ch then ch
                 else push_target ch (pm_targetFor mp (ac_id c) (tg_model primary))"
  have chain: "chain = foldl ?st (foldl ?fb [primary] fallbacks) cands"
    using assms(2) res r pool by (simp add: pm_resolveChain_def Let_def)
  obtain i name where "pm_targetFor m1 i name = Inr primary" using resolve_Inr res r by blast
  then have p: "\<forall>t \<in> set [primary]. pm_get m1 (tg_providerId t) = Some (tg_account t) \<and> ac_enabled (tg_account t)"
    using targetFor_Inr by fastforce
  let ?known = "[primary] @ explicit_targets m1 (tg_model primary) fallbacks"
  have fb: "foldl ?fb [primary] fallbacks = ?known" by (rule explicit_fold)
  have known: "\<forall>t \<in> set ?known. pm_get m1 (tg_providerId t) = Some (tg_account t) \<and> ac_enabled (tg_account t)"
    using fallback_fold [OF p, of "\<lambda>fb. or_default (fb_model fb) (tg_model primary)" fallbacks] unfolding fb by auto
  have "\<exists>t. pm_targetFor mp (ac_id c) (tg_model primary) = Inr t" if "c \<in> set cands" for c
  proof (rule targetFor_enabled)
    have "c \<in> set (pm_list m1)" "ac_enabled c"
      using pool_members(1) [OF pool] that by (auto simp: eligible_def)
    then show "pm_get mp (ac_id c) = Some c" "ac_enabled c"
      using assms(1) acc by (auto simp: accounts_ok_def pm_get_def pm_list_def)
  qed
  then have c: "\<forall>c \<in> set cands. \<exists>t. pm_targetFor mp (ac_id c) (tg_model primary) = Inr t" by blast
  have b: "\<forall>t \<in> set ?known. pm_get mp (tg_providerId t) = Some (tg_account t) \<and> ac_enabled (tg_account t)"
    using known by (simp add: get)
  note f = failover_fold [OF b c, folded fb, folded chain]
  from f obtain more where more: "chain = ?known @ more" "distinct (map tg_providerId more)"
    "tg_providerId ` set more \<inter> tg_providerId ` set ?known = {}"
    by (auto simp: fb)
  have src: "\<exists>c \<in> set cands. pm_targetFor mp (ac_id c) (tg_model primary) = Inr t" if "t \<in> set more" for t
  proof -
    have "t \<in> set (foldl ?st ?known cands)" using that more(1) chain fb by simp
    moreover have "t \<notin> set ?known" using that more(3) by auto
    ultimately show ?thesis using failover_source by blast
  qed
  have all: "\<forall>t \<in> set chain. pm_get m (tg_providerId t) = Some (tg_account t) \<and> ac_enabled (tg_account t)"
    "\<forall>c \<in> set cands. ac_id c \<in> tg_providerId ` set chain"
    using f by (simp_all add: get)
  have "tg_providerId ` set more = ac_id ` set cands - tg_providerId ` set ?known"
    using src all(2) more(1,3) targetFor_Inr by (fastforce simp: image_iff)
  moreover have "\<forall>t \<in> set more. tg_model t = tg_model primary"
    using src targetFor_Inr by blast
  moreover have "chain = primary # explicit_targets m1 (tg_model primary) fallbacks @ more" using more(1) by simp
  ultimately show ?thesis
    using res r all(1) more(2) pool by (intro exI [of _ m1] exI [of _ primary] exI [of _ more]) simp
qed

lemma upsert_accounts_ok:
  "accounts_ok m \<Longrightarrow> accounts_ok (fst (pm_upsert mk m c))"
  by (auto simp: accounts_ok_def pm_upsert_def Let_def makeEntry_def close_client_def
      simp del: map_of_eq_Some_iff split: option.splits if_splits)

lemma remove_accounts_ok: "accounts_ok m \<Longrightarrow> accounts_ok (fst (pm_remove m i))"
  by (auto simp: accounts_ok_def pm_remove_def Let_def close_client_def
      simp del: map_of_eq_Some_iff split: option.splits if_splits)

interpretation pm_history: preserved "\<lambda>m c. case c of Inl a \<Rightarrow> fst (pm_upsert mk m a) | Inr i \<Rightarrow> fst (pm_remove m i)"
    accounts_ok for mk
  by unfold_locales (auto simp: upsert_accounts_ok remove_accounts_ok split: sum.split)

theorem failover_chain_witness:
  "\<exists>m2 chain. pm_resolveChain (idle_manager [capped_account ''a'' 9]) ''m'' [] 0 = (m2, Inr chain) \<and>
     map tg_providerId chain = [''a'']"
proof -
  let ?c = "capped_account ''a'' 9"
  let ?m = "idle_manager [?c]"
  let ?t = "\<lparr>tg_providerId = ''a'', tg_type = ac_type ?c, tg_adapter = buildAdapter ?c (),
      tg_model = ''m'', tg_account = ?c, tg_records = False\<rparr>"
  have res: "pm_resolve ?m ''m'' 0 = (?m, Inr ?t)"
    by (simp add: pm_resolve_def addressed_def idle_manager_def truthy_def pm_list_def pm_targetFor_def)
  obtain m2 r where r: "pm_resolveChain ?m ''m'' [] 0 = (m2, r)" by fastforce
  then obtain chain where chain: "r = Inr chain" using res by (auto simp: pm_resolveChain_def Let_def split: prod.splits)
  have ok: "accounts_ok ?m" by (simp add: accounts_ok_def idle_manager_def)
  from failover_chain [OF ok, of "''m''" "[]" 0 m2 chain] r chain res
  have d: "distinct (map tg_providerId chain)" and ne: "chain \<noteq> []"
    and all: "\<forall>t \<in> set chain. pm_get ?m (tg_providerId t) = Some (tg_account t)"
    by (auto simp: explicit_targets_def map_filter_simps)
  have "tg_providerId t = ''a''" if "t \<in> set chain" for t
    using all that by (auto simp: pm_get_def idle_manager_def split: if_splits)
  then have "set (map tg_providerId chain) \<subseteq> {''a''}" by auto
  with d ne have "map tg_providerId chain = [''a'']"
    by (cases chain; cases "tl chain") auto
  with r chain show ?thesis by auto
qed

end
