(* ===== verification/Fallback.thy ===== *)
theory Fallback
  imports ProviderManager
begin

text \<open>
  Dispatch with fallback, \<open>klanker-gate/packages/providers/src/fallback.ts\<close>, and the dispatch
  scope of a virtual key, \<open>scope.ts\<close>. The upstream call is the argument \<open>dispatch\<close>, indexed by
  the attempt so that a target may answer differently each time; an exception is \<^term>\<open>Inl\<close>.
  \<open>AsyncLocalStorage\<close> is an argument: the scope in force, if any.
\<close>

section \<open>Scope and eligibility\<close>

record dispatch_scope =
  sc_providers :: "string list option"
  sc_models :: "string list option"

definition targetInScope :: "dispatch_scope \<Rightarrow> 'c target \<Rightarrow> bool" where
  "targetInScope scope t =
     (if (case sc_providers scope of None \<Rightarrow> False | Some ps \<Rightarrow> tg_providerId t \<notin> set ps) then False
      else if (case sc_models scope of None \<Rightarrow> False | Some ms \<Rightarrow> js_lower (tg_model t) \<notin> set ms) then False
      else True)"

datatype dispatch_error =
    ProviderError int string
  | DOMException string
  | TypeError string
  | OtherError string

fun isFallbackEligible :: "dispatch_error \<Rightarrow> bool" where
  "isFallbackEligible (ProviderError status _) = (status = 429 \<or> status \<ge> 500)"
| "isFallbackEligible (DOMException name) = False"
| "isFallbackEligible (TypeError _) = True"
| "isFallbackEligible (OtherError _) = False"

section \<open>The loop\<close>

datatype ('c, 'r) dispatch_outcome =
    Served 'r "'c target" "('c target \<times> dispatch_error) list"
  | Thrown dispatch_error
  | AllProvidersFailed "('c target \<times> dispatch_error) list"

definition charge_attempt :: "pb_tracker \<Rightarrow> 'c target \<Rightarrow> int \<Rightarrow> pb_tracker" where
  "charge_attempt t target now =
     (if tg_records target then pb_recordRequest t (tg_account target) now else t)"

fun dispatch_loop ::
    "(nat \<Rightarrow> 'c target \<Rightarrow> dispatch_error + 'r) \<Rightarrow> int \<Rightarrow> pb_tracker \<Rightarrow> nat \<Rightarrow>
     ('c target \<times> dispatch_error) list \<Rightarrow> 'c target list \<Rightarrow> pb_tracker \<times> ('c, 'r) dispatch_outcome" where
  "dispatch_loop dispatch now t n failures [] = (t, AllProvidersFailed failures)"
| "dispatch_loop dispatch now t n failures (target # chain) =
     (let t1 = charge_attempt t target now
      in case dispatch n target of
           Inr response \<Rightarrow> (t1, Served response target failures)
         | Inl e \<Rightarrow>
             if \<not> isFallbackEligible e then (t1, Thrown e)
             else dispatch_loop dispatch now t1 (n + 1) (failures @ [(target, e)]) chain)"

definition dispatchWithFallback ::
    "(nat \<Rightarrow> 'c target \<Rightarrow> dispatch_error + 'r) \<Rightarrow> int \<Rightarrow> pb_tracker \<Rightarrow> dispatch_scope option \<Rightarrow>
     'c target list \<Rightarrow> pb_tracker \<times> ('c, 'r) dispatch_outcome" where
  "dispatchWithFallback dispatch now t scope targets =
     dispatch_loop dispatch now t 0 []
       (case scope of None \<Rightarrow> targets | Some s \<Rightarrow> filter (targetInScope s) targets)"

section \<open>What dispatch does\<close>

text \<open>How many attempts fail in a way that moves on to the next target.\<close>

fun moved_on :: "(nat \<Rightarrow> 'c target \<Rightarrow> dispatch_error + 'r) \<Rightarrow> nat \<Rightarrow> 'c target list \<Rightarrow> nat" where
  "moved_on dispatch n [] = 0"
| "moved_on dispatch n (t # ts) =
     (case dispatch n t of
        Inl e \<Rightarrow> if isFallbackEligible e then Suc (moved_on dispatch (n + 1) ts) else 0
      | Inr _ \<Rightarrow> 0)"

definition failure_of :: "(nat \<Rightarrow> 'c target \<Rightarrow> dispatch_error + 'r) \<Rightarrow> nat \<Rightarrow> 'c target \<Rightarrow> 'c target \<times> dispatch_error" where
  "failure_of dispatch n t = (t, projl (dispatch n t))"

lemma moved_on_le: "moved_on dispatch n ts \<le> length ts"
  by (induction dispatch n ts rule: moved_on.induct) (auto split: sum.split)

definition failures_of ::
    "(nat \<Rightarrow> 'c target \<Rightarrow> dispatch_error + 'r) \<Rightarrow> nat \<Rightarrow> 'c target list \<Rightarrow> ('c target \<times> dispatch_error) list" where
  "failures_of dispatch n ts = map (\<lambda>i. failure_of dispatch (n + i) (ts ! i)) [0..<length ts]"

lemma failures_of_Cons:
  "failures_of dispatch n (t # ts) = failure_of dispatch n t # failures_of dispatch (n + 1) ts"
  by (simp add: failures_of_def map_upt_Suc del: upt_Suc)

lemma length_failures_of [simp]: "length (failures_of dispatch n ts) = length ts"
  by (simp add: failures_of_def)

lemma dispatch_loop_spec:
  "dispatch_loop dispatch now t n failures chain =
     (let k = moved_on dispatch n chain
      in (foldl (\<lambda>t tg. charge_attempt t tg now) t (take (k + 1) chain),
          if k = length chain then AllProvidersFailed (failures @ failures_of dispatch n (take k chain))
          else case dispatch (n + k) (chain ! k) of
                 Inr r \<Rightarrow> Served r (chain ! k) (failures @ failures_of dispatch n (take k chain))
               | Inl e \<Rightarrow> Thrown e))"
proof (induction chain arbitrary: t n failures)
  case Nil
  show ?case by (simp add: failures_of_def)
next
  case (Cons target chain)
  show ?case
  proof (cases "dispatch n target")
    case (Inl e)
    show ?thesis
    proof (cases "isFallbackEligible e")
      case True
      with Inl show ?thesis
        by (simp add: Let_def Cons.IH failures_of_Cons failure_of_def cong: if_cong sum.case_cong)
    qed (simp add: Inl Let_def failures_of_def)
  qed (simp add: Let_def failures_of_def)
qed

lemma moved_on_errors:
  "i < moved_on dispatch n ts \<Longrightarrow> \<exists>e. dispatch (n + i) (ts ! i) = Inl e \<and> isFallbackEligible e"
proof (induction dispatch n ts arbitrary: i rule: moved_on.induct)
  case (2 dispatch n t ts)
  then show ?case by (cases i) (auto split: sum.splits if_splits)
qed simp

lemma charges_keep_others:
  assumes "\<forall>tg \<in> set tgs. ac_id (tg_account tg) \<noteq> ac_id c"
  shows "pb_allows (foldl (\<lambda>t tg. charge_attempt t tg now) t tgs) c now' = pb_allows t c now'"
proof -
  let ?cs = "map tg_account (filter tg_records tgs)"
  have "foldl (\<lambda>t tg. charge_attempt t tg now) t tgs = foldl (\<lambda>t c. pb_recordRequest t c now) t ?cs"
    by (induction tgs arbitrary: t) (simp_all add: charge_attempt_def)
  with pb_guard.charges_local [of ?cs c now t now'] assms show ?thesis by auto
qed

text \<open>C33: Dispatch tries the in-scope targets in order and stops at the first that answers or fails
  for good: the targets before it all failed with a 429, a 5xx or a network error and are the
  reported failures, a client abort or another 4xx is rethrown at once, and only when every
  target failed that way is the request lost. Nothing outside the scope is ever contacted.\<close>

theorem dispatch_tries_in_order:
  assumes "dispatchWithFallback dispatch now t (Some s) targets = (t', out)"
  shows "\<exists>tried. prefix tried (filter (targetInScope s) targets) \<and>
    t' = foldl (\<lambda>t tg. charge_attempt t tg now) t tried \<and>
    (case out of
       Served r tg fs \<Rightarrow> \<exists>before. tried = before @ [tg] \<and> dispatch (length before) tg = Inr r \<and>
         map fst fs = before \<and> (\<forall>f \<in> set fs. isFallbackEligible (snd f))
     | Thrown e \<Rightarrow> \<exists>before tg. tried = before @ [tg] \<and> dispatch (length before) tg = Inl e \<and>
         \<not> isFallbackEligible e
     | AllProvidersFailed fs \<Rightarrow> tried = filter (targetInScope s) targets \<and> map fst fs = tried \<and>
         (\<forall>f \<in> set fs. isFallbackEligible (snd f)))"
proof -
  let ?chain = "filter (targetInScope s) targets"
  let ?k = "moved_on dispatch 0 ?chain"
  have k: "?k \<le> length ?chain" by (rule moved_on_le)
  have fst_f: "map fst (failures_of dispatch 0 (take ?k ?chain)) = take ?k ?chain"
    by (rule nth_equalityI) (simp_all add: failures_of_def failure_of_def)
  have snd_f: "\<forall>f \<in> set (failures_of dispatch 0 (take ?k ?chain)). isFallbackEligible (snd f)"
  proof
    fix f
    assume "f \<in> set (failures_of dispatch 0 (take ?k ?chain))"
    then obtain i where i: "i < ?k" "f = failure_of dispatch i (take ?k ?chain ! i)"
      by (auto simp: failures_of_def)
    with moved_on_errors [OF i(1)] show "isFallbackEligible (snd f)"
      by (auto simp: failure_of_def)
  qed
  have res: "t' = foldl (\<lambda>t tg. charge_attempt t tg now) t (take (?k + 1) ?chain)"
    "out = (if ?k = length ?chain then AllProvidersFailed (failures_of dispatch 0 (take ?k ?chain))
          else case dispatch ?k (?chain ! ?k) of
                 Inr r \<Rightarrow> Served r (?chain ! ?k) (failures_of dispatch 0 (take ?k ?chain))
               | Inl e \<Rightarrow> Thrown e)"
    using assms unfolding dispatchWithFallback_def option.case dispatch_loop_spec Let_def append_Nil
      add_0 prod.inject by (blast, blast)
  show ?thesis
  proof (cases "?k = length ?chain")
    case True
    with res fst_f snd_f show ?thesis by (intro exI [of _ ?chain]) simp
  next
    case False
    with k have lt: "?k < length ?chain" by simp
    then have tried: "take (?k + 1) ?chain = take ?k ?chain @ [?chain ! ?k]"
      by (simp add: take_Suc_conv_app_nth)
    have stop: "\<not> isFallbackEligible e" if "dispatch ?k (?chain ! ?k) = Inl e" for e
    proof -
      have "moved_on dispatch n ts < length ts \<Longrightarrow>
          dispatch (n + moved_on dispatch n ts) (ts ! moved_on dispatch n ts) = Inl e \<Longrightarrow> \<not> isFallbackEligible e"
        for n ts e
        by (induction dispatch n ts rule: moved_on.induct) (auto split: sum.splits if_splits)
      from this [of 0 ?chain e] lt that show ?thesis by simp
    qed
    obtain bef x where bef: "take ?k ?chain = bef" and x: "?chain ! ?k = x" by blast
    have len: "length bef = ?k" using lt bef by auto
    have pre: "prefix (bef @ [x]) ?chain" using tried take_is_prefix [of "?k + 1" ?chain] by (simp add: bef x)
    have t': "t' = foldl (\<lambda>t tg. charge_attempt t tg now) t (bef @ [x])"
      using res(1) unfolding tried bef x .
    show ?thesis
    proof (cases "dispatch ?k x")
      case (Inl e)
      have "out = Thrown e" using res(2) False Inl by (simp add: x)
      with pre t' Inl stop x len show ?thesis by (intro exI [of _ "bef @ [x]"]) auto
    next
      case (Inr r)
      have "out = Served r x (failures_of dispatch 0 bef)" using res(2) False Inr by (simp add: x bef)
      with pre t' Inr fst_f snd_f bef len show ?thesis by (intro exI [of _ "bef @ [x]"]) auto
    qed
  qed
qed

text \<open>Dispatch charges only the accounts it contacted: an account that is not among the in-scope
  targets keeps its budget, whatever happened.\<close>

theorem dispatch_charges_only_contacted:
  assumes "dispatchWithFallback dispatch now t (Some s) targets = (t', out)"
    and "\<forall>tg \<in> set targets. targetInScope s tg \<longrightarrow> ac_id (tg_account tg) \<noteq> ac_id c"
  shows "pb_allows t' c now' = pb_allows t c now'"
proof -
  let ?chain = "filter (targetInScope s) targets"
  let ?k = "moved_on dispatch 0 ?chain"
  have "t' = foldl (\<lambda>t tg. charge_attempt t tg now) t (take (?k + 1) ?chain)"
    using assms(1) by (simp add: dispatchWithFallback_def dispatch_loop_spec Let_def)
  moreover have "\<forall>tg \<in> set (take (?k + 1) ?chain). ac_id (tg_account tg) \<noteq> ac_id c"
    using assms(2) by (auto dest: in_set_takeD)
  ultimately show ?thesis using charges_keep_others by simp
qed

definition plain_target :: "string \<Rightarrow> unit target" where
  "plain_target i = \<lparr>tg_providerId = i, tg_type = OpenAI, tg_adapter = OpenAIAdapter '''' None () True,
     tg_model = ''m'', tg_account = capped_account i 1, tg_records = True\<rparr>"

definition demo_scope :: dispatch_scope where
  "demo_scope = \<lparr>sc_providers = Some [''a'', ''b''], sc_models = None\<rparr>"

definition demo_dispatch :: "nat \<Rightarrow> unit target \<Rightarrow> dispatch_error + nat" where
  "demo_dispatch n t = (if n = 0 then Inl (ProviderError 503 '''') else Inr n)"

lemma demo_dispatch_run:
  "dispatchWithFallback demo_dispatch 0 pb_new (Some demo_scope) (map plain_target [''a'', ''x'', ''b'']) =
     (pb_recordRequest (pb_recordRequest pb_new (capped_account ''a'' 1) 0) (capped_account ''b'' 1) 0,
      Served 1 (plain_target ''b'') [(plain_target ''a'', ProviderError 503 '''')])"
proof -
  have f: "filter (targetInScope demo_scope) (map plain_target [''a'', ''x'', ''b'']) =
      [plain_target ''a'', plain_target ''b'']"
    by (simp add: targetInScope_def demo_scope_def plain_target_def)
  have "tg_records (plain_target i)" "tg_account (plain_target i) = capped_account i 1" for i
    by (simp_all add: plain_target_def)
  then show ?thesis
    unfolding dispatchWithFallback_def option.case f
    by (simp add: demo_dispatch_def charge_attempt_def)
qed

theorem dispatch_tries_in_order_witness:
  "\<exists>before. length before = 1 \<and> demo_dispatch 1 (plain_target ''b'') = Inr 1 \<and> before = [plain_target ''a'']"
  using dispatch_tries_in_order [OF demo_dispatch_run] by auto

theorem dispatch_charges_only_contacted_witness:
  "pb_allows (pb_recordRequest (pb_recordRequest pb_new (capped_account ''a'' 1) 0) (capped_account ''b'' 1) 0)
     (capped_account ''x'' 1) 5 = pb_allows pb_new (capped_account ''x'' 1) 5"
  by (rule dispatch_charges_only_contacted [OF demo_dispatch_run])
    (simp add: targetInScope_def demo_scope_def plain_target_def)

end
