(* ===== verification/Json.thy ===== *)
theory Json
  imports JsText
begin

text \<open>
  JSON values as JavaScript reads them, shared by the components that inspect parsed text. An
  object is its key-value list in insertion order, one entry per key; numbers are rationals. The
  texts inside are a type argument: \<^typ>\<open>string\<close> where the code only compares ASCII names, lists of
  code points where the text comes from a stream.
\<close>

datatype 's json =
    JNull
  | JBool bool
  | JNum rat
  | JStr 's
  | JArr "'s json list"
  | JObj "('s \<times> 's json) list"

text \<open>\<open>v?.k\<close>: absent on anything that is not an object with that key.\<close>

definition json_field :: "'s json \<Rightarrow> 's \<Rightarrow> 's json option" where
  "json_field v k = (case v of JObj fs \<Rightarrow> jm_get fs k | _ \<Rightarrow> None)"

definition json_string :: "'s json option \<Rightarrow> 's option" where
  "json_string v = (case v of Some (JStr s) \<Rightarrow> Some s | _ \<Rightarrow> None)"

definition json_number :: "'s json option \<Rightarrow> rat option" where
  "json_number v = (case v of Some (JNum n) \<Rightarrow> Some n | _ \<Rightarrow> None)"

end
