(* ===== verification/Admission.thy ===== *)
theory Admission
  imports Hierarchy SharedRateLimit Pricing Fallback Json
begin

text \<open>
  Inference admission, \<open>klanker-gate/apps/gateway/routes/governance.ts\<close>: the middleware that
  authenticates a request, checks the key, the hierarchy above it and its provider and model
  scope, takes the fleet-wide windows, reserves one request up the chain, admits the scheduled
  budgets and rolls the reservation back when they refuse.

  The handler awaits at two points: the fleet-wide limiter and the scheduled budgets. Each
  stretch between them is one definition, so that several requests can be interleaved; the whole
  handler is their composition. The limiter and the scheduled budgets share one state store, as
  \<open>context.ts\<close> wires them. \<open>Date.now()\<close> is an argument, \<open>decodeURIComponent\<close> is the argument
  \<open>dec\<close> with \<^term>\<open>None\<close> for an exception. A failing durable authority is an argument of the step that
  asks it: any of the store calls of one admission may throw, so a failure is what the calls before
  the failing one have made of the epoch state. An exception of the fleet-wide limiter leaves the
  handler before anything is reserved and is not modelled.
\<close>

section \<open>State and request\<close>

record ('s, 'c) gateway =
  gx_keys :: vk_manager
  gx_hierarchy :: "hierarchy option"
  gx_epochs :: "'s epoch_state option"
  gx_shared :: bool
  gx_providers :: "'c prov_manager"
  gx_metrics :: "string list"

datatype body_read = Unreadable | TooLarge | Text nat "string json option"

record request =
  rq_path :: string
  rq_method :: string
  rq_auth :: "string option"
  rq_contentType :: string
  rq_declaredBytes :: "rat option"
  rq_body :: "body_read option"

record gate_denial =
  gd_status :: int
  gd_code :: string
  gd_message :: string
  gd_retryAfter :: "int option"

definition MAX_JSON_BODY_BYTES :: int where
  "MAX_JSON_BODY_BYTES = 25 * 1024 * 1024"

definition count_metric :: "('s, 'c) gateway \<Rightarrow> string \<Rightarrow> ('s, 'c) gateway" where
  "count_metric g name = g\<lparr>gx_metrics := gx_metrics g @ [name]\<rparr>"

definition deny ::
    "('s, 'c) gateway \<Rightarrow> int \<Rightarrow> string \<Rightarrow> string \<Rightarrow> int option \<Rightarrow> ('s, 'c) gateway \<times> gate_denial" where
  "deny g status code msg retry =
     (count_metric g (''governance.denied.'' @ code),
      \<lparr>gd_status = status, gd_code = code, gd_message = msg, gd_retryAfter = retry\<rparr>)"

section \<open>The model a request names\<close>

text \<open>The path segment after \<open>p\<close>, up to a slash or a question mark, with what follows it.\<close>

definition segment :: "string \<Rightarrow> string \<Rightarrow> (string \<times> string) option" where
  "segment p path =
     (let stop = (\<lambda>c. c \<noteq> CHR ''/'' \<and> c \<noteq> CHR ''?''); rest = drop (length p) path
      in if prefix p path \<and> takeWhile stop rest \<noteq> []
         then Some (takeWhile stop rest, dropWhile stop rest) else None)"

definition azureDeploymentFromPath :: "(string \<Rightarrow> string option) \<Rightarrow> string \<Rightarrow> string option" where
  "azureDeploymentFromPath dec pathname =
     (case segment ''/openai/deployments/'' pathname of
        Some (seg, rest) \<Rightarrow> if prefix ''/'' rest then dec seg else None
      | None \<Rightarrow> None)"

text \<open>\<open>/genai/VERSION/models/SEGMENT\<close>, anywhere in the path.\<close>

fun genai_segment :: "string \<Rightarrow> string option" where
  "genai_segment [] = None"
| "genai_segment (c # cs) =
     (let rest = drop 7 (c # cs);
          ver = takeWhile (\<lambda>x. x \<noteq> CHR ''/'') rest;
          tl = dropWhile (\<lambda>x. x \<noteq> CHR ''/'') rest
      in if prefix ''/genai/'' (c # cs) \<and> ver \<noteq> [] \<and> segment ''/models/'' tl \<noteq> None
         then map_option fst (segment ''/models/'' tl)
         else genai_segment cs)"

definition js_lastIndexOf :: "char \<Rightarrow> string \<Rightarrow> nat option" where
  "js_lastIndexOf c s = map_option (\<lambda>n. length s - 1 - n) (js_indexOf c (rev s))"

text \<open>\<open>Inl ()\<close> is the exception of a malformed escape.\<close>

definition modelFromPath :: "(string \<Rightarrow> string option) \<Rightarrow> string \<Rightarrow> unit + string option" where
  "modelFromPath dec pathname =
     (case genai_segment pathname of
        None \<Rightarrow> Inr None
      | Some seg \<Rightarrow>
          (case dec seg of
             None \<Rightarrow> Inl ()
           | Some modelAction \<Rightarrow>
               (case js_lastIndexOf (CHR '':'') modelAction of
                  Some n \<Rightarrow> Inr (Some (if n > 0 then take n modelAction else modelAction))
                | None \<Rightarrow> Inr (Some modelAction))))"

definition isAzurePath :: "string \<Rightarrow> bool" where
  "isAzurePath pathname = prefix ''/openai/deployments/'' pathname"

definition governed :: "string \<Rightarrow> bool" where
  "governed pathname \<longleftrightarrow> prefix ''/v1/'' pathname \<or> pathname = ''/mcp'' \<or>
     prefix ''/genai/'' pathname \<or> prefix ''/cohere/'' pathname \<or>
     prefix ''/openai/deployments/'' pathname \<or> prefix ''/openrouter/'' pathname"

definition bearer :: "string option \<Rightarrow> string option" where
  "bearer auth = (case auth of None \<Rightarrow> None
     | Some a \<Rightarrow> if prefix ''Bearer '' a then Some (drop 7 a) else None)"

definition path_model :: "(string \<Rightarrow> string option) \<Rightarrow> string \<Rightarrow> unit + string option" where
  "path_model dec pathname =
     (case azureDeploymentFromPath dec pathname of
        Some d \<Rightarrow> Inr (Some d) | None \<Rightarrow> modelFromPath dec pathname)"

fun contains :: "string \<Rightarrow> string \<Rightarrow> bool" where
  "contains p [] = (p = [])"
| "contains p (c # cs) = (prefix p (c # cs) \<or> contains p cs)"

definition payload_too_large :: gate_denial where
  "payload_too_large =
     \<lparr>gd_status = 413, gd_code = ''payload_too_large'',
      gd_message = ''Request body exceeds the maximum allowed size.'', gd_retryAfter = None\<rparr>"

text \<open>The estimated tokens and the model of a request, or the 413 of an oversized body.\<close>

definition inspect_body :: "request \<Rightarrow> string option \<Rightarrow> gate_denial + int \<times> string option" where
  "inspect_body req requestModel =
     (case rq_body req of
        None \<Rightarrow> Inr (0, requestModel)
      | Some body \<Rightarrow>
          if rq_method req = ''POST'' \<and> contains ''application/json'' (rq_contentType req) then
            if (case rq_declaredBytes req of None \<Rightarrow> False | Some n \<Rightarrow> n > of_int MAX_JSON_BODY_BYTES)
            then Inl payload_too_large
            else (case body of
                    TooLarge \<Rightarrow> Inl payload_too_large
                  | Unreadable \<Rightarrow> Inr (0, requestModel)
                  | Text len parsed \<Rightarrow>
                      Inr (\<lceil>of_nat len / (4 :: rat)\<rceil>,
                        if truthy requestModel = None \<and> \<not> isAzurePath (rq_path req)
                        then (case truthy (json_string (Option.bind parsed (\<lambda>v. json_field v ''model''))) of
                                Some m \<Rightarrow> Some m | None \<Rightarrow> requestModel)
                        else requestModel))
          else Inr (0, requestModel))"

section \<open>Scope\<close>

text \<open>A bare model id, without the prefix of a known account; \<open>manager.get\<close> is the lookup.\<close>

definition strippedModelId :: "string \<Rightarrow> 'c prov_manager \<Rightarrow> string" where
  "strippedModelId model providers =
     (case js_indexOf (CHR ''/'') model of
        None \<Rightarrow> model
      | Some slash \<Rightarrow>
          if slash > 0 \<and> pm_get providers (take slash model) \<noteq> None
          then drop (slash + 1) model else model)"

definition checkScope ::
    "virtual_key \<Rightarrow> string option \<Rightarrow> 'c prov_manager \<Rightarrow> int \<Rightarrow> 'c prov_manager \<times> denial option" where
  "checkScope key model providers now =
     (let providerScope = or_default (vk_allowedProviders key) [];
          modelScope = or_default (vk_allowedModels key) []
      in if length providerScope = 0 \<and> length modelScope = 0 then (providers, None)
         else case truthy model of
           None \<Rightarrow> (providers, Some \<lparr>dn_status = 403, dn_code = ''model_not_permitted'',
             dn_message = ''Virtual key \"'' @ vk_name key @ ''\" is scoped to specific models; the '' @
               ''request model could not be determined.''\<rparr>)
         | Some mdl \<Rightarrow>
             (let (providers1, providerId) =
                    (if length providerScope > 0 then pm_tryProviderId providers mdl now else (providers, None))
              in if length providerScope > 0 \<and>
                    (case truthy providerId of None \<Rightarrow> True | Some i \<Rightarrow> i \<notin> set providerScope)
                 then (providers1, Some \<lparr>dn_status = 403, dn_code = ''provider_not_permitted'',
                   dn_message = ''Virtual key \"'' @ vk_name key @ ''\" is not permitted to use provider '' @
                     ''\"'' @ or_default providerId ''unknown'' @ ''\".''\<rparr>)
                 else if length modelScope > 0 \<and>
                    \<not> list_ex (\<lambda>m. js_lower m = js_lower (strippedModelId mdl providers1) \<or>
                                   js_lower m = js_lower mdl) modelScope
                 then (providers1, Some \<lparr>dn_status = 403, dn_code = ''model_not_permitted'',
                   dn_message = ''Virtual key \"'' @ vk_name key @ ''\" is not permitted to use model '' @
                     ''\"'' @ strippedModelId mdl providers1 @ ''\".''\<rparr>)
                 else (providers1, None)))"

definition dispatchScopeFor :: "virtual_key \<Rightarrow> dispatch_scope option" where
  "dispatchScopeFor key =
     (let listed = (\<lambda>xs. case xs of None \<Rightarrow> None | Some l \<Rightarrow> if l = [] then None else Some l)
      in if listed (vk_allowedProviders key) = None \<and> listed (vk_allowedModels key) = None then None
         else Some \<lparr>sc_providers = listed (vk_allowedProviders key),
                    sc_models = map_option (map js_lower) (listed (vk_allowedModels key))\<rparr>)"

section \<open>The stretches of the handler\<close>

text \<open>Up to the first wait: authentication, the hierarchy, the scope. The answer is a denial or
  the key the request runs under.\<close>

definition retry_after_seconds :: "int option \<Rightarrow> int" where
  "retry_after_seconds waitMs = max 1 \<lceil>of_int (or_default waitMs 60000) / (1000 :: rat)\<rceil>"

definition gate ::
    "(string \<Rightarrow> string) \<Rightarrow> ('s, 'c) gateway \<Rightarrow> request \<Rightarrow> int \<Rightarrow> string option \<Rightarrow> int \<Rightarrow>
     ('s, 'c) gateway \<times> (gate_denial + virtual_key)" where
  "gate hash g req estimatedTokens requestModel now =
     (let (keys, decision) = vk_check hash (gx_keys g) (bearer (rq_auth req)) estimatedTokens now;
          g1 = g\<lparr>gx_keys := keys\<rparr>
      in case decision of
           Inl d \<Rightarrow>
             map_prod id Inl (deny g1 (kd_status d) (kd_code d) (kd_message d)
               (if kd_status d = 429 then Some (retry_after_seconds (kd_retryAfterMs d)) else None))
         | Inr key \<Rightarrow>
             (case Option.bind (gx_hierarchy g1) (\<lambda>h. gh_checkChain h (vk_teamId key)) of
                Some d \<Rightarrow> map_prod id Inl (deny g1 (dn_status d) (dn_code d) (dn_message d) None)
              | None \<Rightarrow>
                  if rq_method req = ''POST'' then
                    (let (providers, denial) = checkScope key requestModel (gx_providers g1) now;
                         g2 = g1\<lparr>gx_providers := providers\<rparr>
                     in case denial of
                          Some d \<Rightarrow> map_prod id Inl (deny g2 (dn_status d) (dn_code d) (dn_message d) None)
                        | None \<Rightarrow> (g2, Inr key))
                  else (g1, Inr key)))"

text \<open>The fleet-wide windows of a key, and the loop over them.\<close>

definition shared_windows :: "virtual_key \<Rightarrow> int \<Rightarrow> (shared_window \<times> string \<times> string) list" where
  "shared_windows key estimatedTokens =
     (case vk_rateLimit key of
        None \<Rightarrow> []
      | Some p \<Rightarrow> [(\<lparr>sh_scope = ''requests'', sh_id = vk_id key, sh_max = rp_maxRequests p,
          sh_windowMs = rp_windowMs p, sh_amount = Some 1\<rparr>, ''rate_limited'',
          ''Virtual key \"'' @ vk_name key @ ''\" is rate limited.'')]) @
     (case vk_tokenLimit key of
        None \<Rightarrow> []
      | Some p \<Rightarrow> [(\<lparr>sh_scope = ''tokens'', sh_id = vk_id key, sh_max = tp_maxTokens p,
          sh_windowMs = tp_windowMs p, sh_amount = Some (max 1 estimatedTokens)\<rparr>, ''token_limited'',
          ''Virtual key \"'' @ vk_name key @ ''\" exceeded its token limit.'')])"

fun shared_loop ::
    "('s, int) store_ops \<Rightarrow> 's \<Rightarrow> (shared_window \<times> string \<times> string) list \<Rightarrow> int \<Rightarrow>
     's \<times> (int \<times> string \<times> string \<times> int option) option" where
  "shared_loop ops s [] now = (s, None)"
| "shared_loop ops s ((w, code, msg) # ws) now =
     (let (s1, verdict) = shared_admit ops s w now
      in case verdict of
           Admitted \<Rightarrow> shared_loop ops s1 ws now
         | Unavailable \<Rightarrow> (s1, Some (503, ''rate_limit_unavailable'',
             ''Rate limiting is temporarily unavailable.'', None))
         | Limited \<Rightarrow> (s1, Some (429, code, msg,
             Some \<lceil>of_int (shared_retryAfterMs (sh_windowMs w) now) / (1000 :: rat)\<rceil>)))"

definition shared_store :: "('s, 'c) gateway \<Rightarrow> 's option" where
  "shared_store g = (if gx_shared g then Option.bind (gx_epochs g) ep_store else None)"

definition put_store :: "('s, 'c) gateway \<Rightarrow> 's \<Rightarrow> ('s, 'c) gateway" where
  "put_store g s = g\<lparr>gx_epochs := map_option (\<lambda>e. e\<lparr>ep_store := Some s\<rparr>) (gx_epochs g)\<rparr>"

definition enforceSharedLimits ::
    "('s, int) store_ops \<Rightarrow> ('s, 'c) gateway \<Rightarrow> virtual_key \<Rightarrow> int \<Rightarrow> int \<Rightarrow>
     ('s, 'c) gateway \<times> gate_denial option" where
  "enforceSharedLimits ops g key estimatedTokens now =
     (case shared_store g of
        None \<Rightarrow> (g, None)
      | Some s \<Rightarrow>
          (let (s1, denial) = shared_loop ops s (shared_windows key estimatedTokens) now;
               g1 = put_store g s1
           in case denial of
                None \<Rightarrow> (g1, None)
              | Some (status, code, msg, retry) \<Rightarrow> map_prod id Some (deny g1 status code msg retry)))"

text \<open>The hierarchy above a key, resolved once.\<close>

definition tenant_of :: "('s, 'c) gateway \<Rightarrow> virtual_key \<Rightarrow> team option \<times> customer option" where
  "tenant_of g key =
     (let team = (case truthy (vk_teamId key) of None \<Rightarrow> None
            | Some t \<Rightarrow> Option.bind (gx_hierarchy g) (\<lambda>h. jm_get (gh_teams h) t));
          customer = (case Option.bind team (\<lambda>t. truthy (tm_customerId t)) of None \<Rightarrow> None
            | Some c \<Rightarrow> Option.bind (gx_hierarchy g) (\<lambda>h. jm_get (gh_customers h) c))
      in (team, customer))"

definition budget_subjects :: "virtual_key \<Rightarrow> team option \<Rightarrow> customer option \<Rightarrow> budget_subject list" where
  "budget_subjects key team customer =
     \<lparr>bs_kind = VirtualKeyKind, bs_id = vk_id key, bs_name = vk_name key, bs_budget = vk_budget key\<rparr> #
     (case team of None \<Rightarrow> [] | Some t \<Rightarrow>
        [\<lparr>bs_kind = TeamKind, bs_id = en_id t, bs_name = en_name t, bs_budget = en_budget t\<rparr>]) @
     (case customer of None \<Rightarrow> [] | Some c \<Rightarrow>
        [\<lparr>bs_kind = CustomerKind, bs_id = en_id c, bs_name = en_name c, bs_budget = en_budget c\<rparr>])"

text \<open>Between the two waits: one request reserved on the key and up the chain.\<close>

definition reserve_request :: "('s, 'c) gateway \<Rightarrow> virtual_key \<Rightarrow> ('s, 'c) gateway" where
  "reserve_request g key =
     g\<lparr>gx_keys := vk_recordUsage (gx_keys g) (vk_id key) False,
       gx_hierarchy := map_option (\<lambda>h. gh_recordUsage h (vk_teamId key) (PersistEach (Some False) (Some False)))
         (gx_hierarchy g)\<rparr>"

definition release_reservation :: "('s, 'c) gateway \<Rightarrow> virtual_key \<Rightarrow> ('s, 'c) gateway" where
  "release_reservation g key =
     g\<lparr>gx_keys := vk_releaseRequest (gx_keys g) (vk_id key),
       gx_hierarchy := map_option (\<lambda>h. gh_releaseRequest h (vk_teamId key)) (gx_hierarchy g)\<rparr>"

definition scheduled_for ::
    "scheduled_budget list \<Rightarrow> budget_kind \<Rightarrow> string \<Rightarrow> scheduled_budget option" where
  "scheduled_for schedules kind i = find (\<lambda>s. sb_kind s = kind \<and> sb_id s = i) schedules"

definition lifetime_requests :: "scheduled_budget option \<Rightarrow> bool" where
  "lifetime_requests s = (Option.bind s (\<lambda>s. bg_maxRequests (sb_budget s)) = None)"

definition lifetime_cost :: "scheduled_budget option \<Rightarrow> bool" where
  "lifetime_cost s = (Option.bind s (\<lambda>s. bg_maxCostUsd (sb_budget s)) = None)"

record admitted =
  ad_key :: virtual_key
  ad_team :: "team option"
  ad_customer :: "customer option"
  ad_keySchedule :: "scheduled_budget option"
  ad_teamSchedule :: "scheduled_budget option"
  ad_customerSchedule :: "scheduled_budget option"
  ad_scope :: "dispatch_scope option"
  ad_estimated :: int

text \<open>The scheduled budgets of the chain, when the gateway has them.\<close>

definition admit_schedules ::
    "('s, int) store_ops \<Rightarrow> ('s, 'c) gateway \<Rightarrow> virtual_key \<Rightarrow> team option \<Rightarrow> customer option \<Rightarrow>
     int \<Rightarrow> ('s, 'c) gateway \<times> (denial + scheduled_budget list)" where
  "admit_schedules ops g key team customer now =
     (case gx_epochs g of
        None \<Rightarrow> (g, Inr [])
      | Some e \<Rightarrow>
          (let (e', r) = ep_admit ops e (budget_subjects key team customer) now
           in (g\<lparr>gx_epochs := Some e'\<rparr>, r)))"

text \<open>Commit what the lifetime counters enforce; a scheduled request budget owns its own counter.\<close>

definition commit_request ::
    "('s, 'c) gateway \<Rightarrow> virtual_key \<Rightarrow> team option \<Rightarrow> customer option \<Rightarrow> int \<Rightarrow>
     scheduled_budget list \<Rightarrow> ('s, 'c) gateway \<times> admitted" where
  "commit_request g key team customer estimatedTokens schedules =
     (let keyS = scheduled_for schedules VirtualKeyKind (vk_id key);
          teamS = Option.bind team (\<lambda>t. scheduled_for schedules TeamKind (en_id t));
          customerS = Option.bind customer (\<lambda>c. scheduled_for schedules CustomerKind (en_id c));
          g1 = (if lifetime_requests keyS
                then g\<lparr>gx_keys := vk_persistUsage (gx_keys g) (vk_id key)\<rparr> else g);
          g2 = g1\<lparr>gx_hierarchy := map_option (\<lambda>h. gh_persistUsage h (vk_teamId key)
                (PersistEach (Some (lifetime_requests teamS)) (Some (lifetime_requests customerS))))
                (gx_hierarchy g1)\<rparr>
      in (count_metric g2 (''governance.allowed.'' @ vk_name key),
          \<lparr>ad_key = key, ad_team = team, ad_customer = customer, ad_keySchedule = keyS,
           ad_teamSchedule = teamS, ad_customerSchedule = customerS,
           ad_scope = dispatchScopeFor key, ad_estimated = estimatedTokens\<rparr>))"

text \<open>After the second wait: commit, or roll back. \<open>down\<close> is a failure of the authority, with the state it
  leaves there.\<close>

definition settle ::
    "('s, int) store_ops \<Rightarrow> ('s, 'c) gateway \<Rightarrow> virtual_key \<Rightarrow> team option \<Rightarrow> customer option \<Rightarrow>
     int \<Rightarrow> ('s epoch_state \<Rightarrow> 's epoch_state) option \<Rightarrow> int \<Rightarrow> ('s, 'c) gateway \<times> (gate_denial + admitted)" where
  "settle ops g key team customer estimatedTokens down now =
     (if gx_epochs g \<noteq> None \<and> down \<noteq> None then
        map_prod id Inl (deny (release_reservation (g\<lparr>gx_epochs := map_option (the down) (gx_epochs g)\<rparr>) key)
          503 ''budget_reservation_unavailable'' ''Budget reservation is temporarily unavailable.'' None)
      else case admit_schedules ops g key team customer now of
        (g1, Inl d) \<Rightarrow>
          map_prod id Inl (deny (release_reservation g1 key) (dn_status d) (dn_code d) (dn_message d) None)
      | (g1, Inr schedules) \<Rightarrow>
          map_prod id Inr (commit_request g1 key team customer estimatedTokens schedules))"

section \<open>The handler\<close>

datatype verdict = Bypassed | Threw | Denied gate_denial | AdmittedAs admitted

definition finish :: "('s, 'c) gateway \<times> (gate_denial + admitted) \<Rightarrow> ('s, 'c) gateway \<times> verdict" where
  "finish r = (fst r, case snd r of Inl d \<Rightarrow> Denied d | Inr a \<Rightarrow> AdmittedAs a)"

definition governance ::
    "(string \<Rightarrow> string) \<Rightarrow> (string \<Rightarrow> string option) \<Rightarrow> ('s, int) store_ops \<Rightarrow>
     ('s epoch_state \<Rightarrow> 's epoch_state) option \<Rightarrow> ('s, 'c) gateway \<Rightarrow> request \<Rightarrow> int \<Rightarrow> ('s, 'c) gateway \<times> verdict" where
  "governance hash dec ops down g req now =
     (if \<not> governed (rq_path req) \<or> \<not> vk_active (gx_keys g) then (g, Bypassed)
      else case path_model dec (rq_path req) of
        Inl _ \<Rightarrow> (g, Threw)
      | Inr pathModel \<Rightarrow>
          (case inspect_body req pathModel of
             Inl d \<Rightarrow> (g, Denied d)
           | Inr (estimatedTokens, requestModel) \<Rightarrow>
               (case gate hash g req estimatedTokens requestModel now of
                  (g1, Inl d) \<Rightarrow> (g1, Denied d)
                | (g1, Inr key) \<Rightarrow>
                    (case enforceSharedLimits ops g1 key estimatedTokens now of
                       (g2, Some d) \<Rightarrow> (g2, Denied d)
                     | (g2, None) \<Rightarrow>
                         (let (team, customer) = tenant_of g2 key
                          in finish (settle ops (reserve_request g2 key) key team customer
                               estimatedTokens down now))))))"

section \<open>Accounting after the response\<close>

text \<open>The account step of a completed response: the priced cost to the key, its chain and the
  scheduled cost budgets, and the tokens the estimate missed. A cost of zero is falsy.\<close>

definition bill_schedule ::
    "('s, int) store_ops \<Rightarrow> int \<Rightarrow> scheduled_budget option \<Rightarrow> 's epoch_state option \<Rightarrow> 's epoch_state option" where
  "bill_schedule ops cost s e =
     (case s of None \<Rightarrow> e
      | Some sch \<Rightarrow> if bg_maxCostUsd (sb_budget sch) \<noteq> None
                    then map_option (\<lambda>e. ep_recordCost ops e sch cost) e else e)"

definition account_cost ::
    "('s, int) store_ops \<Rightarrow> ('s, 'c) gateway \<Rightarrow> admitted \<Rightarrow> int \<Rightarrow> ('s, 'c) gateway" where
  "account_cost ops g a cost =
     (let key = ad_key a;
          g1 = g\<lparr>gx_keys := vk_recordCost (gx_keys g) (vk_id key) cost (lifetime_cost (ad_keySchedule a)),
                 gx_hierarchy := map_option (\<lambda>h. gh_recordCost h (vk_teamId key) cost
                   (PersistEach (Some (lifetime_cost (ad_teamSchedule a)))
                                (Some (lifetime_cost (ad_customerSchedule a))))) (gx_hierarchy g),
                 gx_epochs := bill_schedule ops cost (ad_customerSchedule a)
                   (bill_schedule ops cost (ad_teamSchedule a)
                     (bill_schedule ops cost (ad_keySchedule a) (gx_epochs g)))\<rparr>
      in count_metric g1 ''cost.micro_usd'')"

definition account ::
    "('s, int) store_ops \<Rightarrow> catalog option \<Rightarrow> ('s, 'c) gateway \<Rightarrow> admitted \<Rightarrow> string \<Rightarrow>
     int \<Rightarrow> int \<Rightarrow> int \<Rightarrow> int \<Rightarrow> int \<Rightarrow> ('s, 'c) gateway" where
  "account ops pricing g a model prompt completion cached cacheCreation now =
     (let cost = Option.bind pricing (\<lambda>c. pr_costMicroUsd c model
            \<lparr>ut_prompt = Some prompt, ut_completion = Some completion, ut_cached = Some cached,
             ut_cacheCreation = Some cacheCreation, ut_promptTotal = Some prompt, ut_batch = False\<rparr> None);
          g1 = (if cost \<noteq> None \<and> cost \<noteq> Some 0 then account_cost ops g a (the cost)
                else if pricing \<noteq> None \<and> prompt + completion > 0 then count_metric g ''cost.unpriced'' else g);
          actual = prompt + completion + cacheCreation
      in if actual > ad_estimated a
         then g1\<lparr>gx_keys := vk_recordTokens (gx_keys g1) (vk_id (ad_key a)) (actual - ad_estimated a) now\<rparr>
         else g1)"

section \<open>What a denial leaves behind\<close>

lemma count_metric_frame [simp]:
  "gx_keys (count_metric g n) = gx_keys g" "gx_hierarchy (count_metric g n) = gx_hierarchy g"
  "gx_epochs (count_metric g n) = gx_epochs g" "gx_providers (count_metric g n) = gx_providers g"
  "gx_shared (count_metric g n) = gx_shared g"
  by (simp_all add: count_metric_def)

lemma deny_frame [simp]: "fst (deny g st c m r) = count_metric g (''governance.denied.'' @ c)"
  by (simp add: deny_def)

lemma deny_snd [simp]: "snd (deny g st c m r) =
    \<lparr>gd_status = st, gd_code = c, gd_message = m, gd_retryAfter = r\<rparr>"
  by (simp add: deny_def)

text \<open>Up to the reservation, only the limiter, the rotation of the providers and the metrics move.\<close>

lemma gate_frame:
  assumes "gate hash g req est model now = (g', r)"
  shows "\<exists>l. gx_keys g' = gx_keys g\<lparr>vm_limiter := l\<rparr>" "gx_hierarchy g' = gx_hierarchy g"
    "gx_epochs g' = gx_epochs g" "gx_shared g' = gx_shared g"
proof -
  obtain keys d where c: "vk_check hash (gx_keys g) (bearer (rq_auth req)) est now = (keys, d)" by fastforce
  obtain l where l: "keys = gx_keys g\<lparr>vm_limiter := l\<rparr>" using vk_check_keys [OF c] by blast
  have "gx_keys g' = keys \<and> gx_hierarchy g' = gx_hierarchy g \<and> gx_epochs g' = gx_epochs g \<and>
      gx_shared g' = gx_shared g"
    using assms c
    by (auto simp: gate_def map_prod_def case_prod_unfold prod_eq_iff Let_def split: sum.splits option.splits if_splits)
  with l show "\<exists>l. gx_keys g' = gx_keys g\<lparr>vm_limiter := l\<rparr>" "gx_hierarchy g' = gx_hierarchy g"
    "gx_epochs g' = gx_epochs g" "gx_shared g' = gx_shared g" by auto
qed

lemma enforce_frame:
  assumes "enforceSharedLimits ops g key est now = (g', r)"
  shows "gx_keys g' = gx_keys g" "gx_hierarchy g' = gx_hierarchy g" "gx_providers g' = gx_providers g"
  using assms by (auto simp: enforceSharedLimits_def put_store_def map_prod_def case_prod_unfold prod_eq_iff Let_def
      split: option.splits)

text \<open>The request counters, of the keys and of the hierarchy above them.\<close>

definition key_count :: "('s, 'c) gateway \<Rightarrow> string \<Rightarrow> int option" where
  "key_count g = vk_used (gx_keys g)"

definition chain_count :: "('s, 'c) gateway \<Rightarrow> entity_kind \<times> string \<Rightarrow> int option" where
  "chain_count g c = Option.bind (gx_hierarchy g) (\<lambda>h. gh_used h c)"

definition counts_ok :: "('s, 'c) gateway \<Rightarrow> bool" where
  "counts_ok g \<longleftrightarrow> (\<forall>i n. key_count g i = Some n \<longrightarrow> 0 \<le> n) \<and> (\<forall>c n. chain_count g c = Some n \<longrightarrow> 0 \<le> n)"

text \<open>The log of durable writes of the request counters.\<close>

definition durable_writes :: "('s, 'c) gateway \<Rightarrow> string list option \<times> (entity_kind \<times> string \<times> account_field \<times> int) list option" where
  "durable_writes g = (vm_usageSink (gx_keys g), Option.bind (gx_hierarchy g) gh_sink)"

definition charged :: "virtual_key \<Rightarrow> ('s, 'c) gateway \<Rightarrow> ('s, 'c) gateway \<Rightarrow> bool" where
  "charged key g g' \<longleftrightarrow>
     (\<forall>i. key_count g' i = map_option (\<lambda>n. if i = vk_id key then n + 1 else n) (key_count g i)) \<and>
     (\<forall>c. chain_count g' c =
        map_option (\<lambda>n. if \<exists>h. gx_hierarchy g = Some h \<and> c \<in> set (gh_chain h (vk_teamId key)) then n + 1 else n)
          (chain_count g c))"

lemma used_limiter [simp]: "vk_used (m\<lparr>vm_limiter := l\<rparr>) = vk_used m"
  by (rule ext) (simp add: vk_used_def)

lemma used_persist [simp]: "vk_used (vk_persistUsage m i) = vk_used m"
  by (rule ext) (simp add: vk_used_def)

lemma record_each: "gh_recordUsage h t (PersistEach (Some False) (Some False)) = gh_recordUsage h t (PersistAll False)"
proof -
  have "gh_emit h (PersistEach (Some False) (Some False)) k i f n = gh_emit h (PersistAll False) k i f n" for h k i f n
    by (cases k) (simp_all add: gh_emit_def shouldPersist_def or_default_def)
  then show ?thesis unfolding gh_recordUsage_def by presburger
qed

lemma chain_used_persist [simp]: "gh_used (gh_persistUsage h t p) = gh_used h"
  by (rule ext) (auto simp: gh_persistUsage_def gh_used_def gh_emit_def Let_def
      split: option.splits entity_kind.splits prod.splits)

lemma reserve_charged: "charged key g (reserve_request g key)"
  unfolding charged_def key_count_def chain_count_def
proof (intro conjI allI, goal_cases)
  case (1 i)
  then show ?case using vk_ledger.used_reserve [of "gx_keys g" "vk_id key" i] by (simp add: reserve_request_def)
next
  case (2 c)
  show ?case
  proof (cases "gx_hierarchy g")
    case (Some h)
    then show ?thesis using gh_ledger.used_reserve [of h "vk_teamId key" c]
      by (simp add: reserve_request_def record_each)
  qed (simp add: reserve_request_def)
qed

lemma release_charged:
  assumes "counts_ok g" and "gx_keys g1 = vk_recordUsage (gx_keys g) (vk_id key) False"
    and "gx_hierarchy g1 = map_option (\<lambda>h. gh_recordUsage h (vk_teamId key) (PersistEach (Some False) (Some False))) (gx_hierarchy g)"
  shows "key_count (release_reservation g1 key) = key_count g" "chain_count (release_reservation g1 key) = chain_count g"
proof -
  show "key_count (release_reservation g1 key) = key_count g"
  proof
    fix i
    show "key_count (release_reservation g1 key) i = key_count g i"
      using vk_ledger.used_reserve [of "gx_keys g" "vk_id key" i] assms(1)
        vk_ledger.used_release [of "vk_recordUsage (gx_keys g) (vk_id key) False" "vk_id key" i]
      by (cases "vk_used (gx_keys g) i") (auto simp: key_count_def release_reservation_def assms(2) counts_ok_def)
  qed
  show "chain_count (release_reservation g1 key) = chain_count g"
  proof
    fix c
    show "chain_count (release_reservation g1 key) c = chain_count g c"
    proof (cases "gx_hierarchy g")
      case (Some h)
      from assms(1) have "\<forall>n. chain_count g c = Some n \<longrightarrow> 0 \<le> n" unfolding counts_ok_def by blast
      then show ?thesis
        using gh_ledger.used_reserve [of h "vk_teamId key" c] Some
          gh_ledger.used_release [of "gh_recordUsage h (vk_teamId key) (PersistAll False)" "vk_teamId key" c]
          gh_ledger.chain_reserve [of h "vk_teamId key" "vk_teamId key"]
        by (cases "gh_used h c") (auto simp: chain_count_def release_reservation_def assms(3) record_each)
    qed (simp add: chain_count_def release_reservation_def assms(3))
  qed
qed

lemma key_count_persist [simp]:
  "key_count (g\<lparr>gx_keys := vk_persistUsage (gx_keys g) i\<rparr>) = key_count g"
  "key_count (g\<lparr>gx_hierarchy := h\<rparr>) = key_count g" "key_count (g\<lparr>gx_epochs := e\<rparr>) = key_count g"
  "chain_count (g\<lparr>gx_keys := k\<rparr>) = chain_count g" "chain_count (g\<lparr>gx_epochs := e\<rparr>) = chain_count g"
  by (auto simp: key_count_def chain_count_def)

lemma counts_count_metric [simp]:
  "key_count (count_metric g n) = key_count g" "chain_count (count_metric g n) = chain_count g"
  by (auto simp: key_count_def chain_count_def)

lemma chain_count_persist [simp]:
  "chain_count (g\<lparr>gx_hierarchy := map_option (\<lambda>h. gh_persistUsage h t p) (gx_hierarchy g)\<rparr>) = chain_count g"
  by (rule ext) (auto simp: chain_count_def split: Option.bind_split)

lemma admit_schedules_frame:
  assumes "admit_schedules ops g key team customer now = (g', r)"
  shows "gx_keys g' = gx_keys g" "gx_hierarchy g' = gx_hierarchy g"
    "key_count g' = key_count g" "chain_count g' = chain_count g"
  using assms by (auto simp: admit_schedules_def key_count_def chain_count_def fun_eq_iff Let_def
      case_prod_unfold split: option.splits)

lemma commit_counts:
  assumes "commit_request g key team customer est ss = (g', a)"
  shows "key_count g' = key_count g" "chain_count g' = chain_count g" "ad_key a = key"
    "ad_scope a = dispatchScopeFor key"
  using assms by (auto simp: commit_request_def Let_def)

lemma settle_counts:
  fixes g :: "('s, 'c) gateway"
  assumes "settle ops g key team customer est down now = (g', r)"
  shows "case r of
      Inr a \<Rightarrow> ad_key a = key \<and> ad_scope a = dispatchScopeFor key \<and>
        key_count g' = key_count g \<and> chain_count g' = chain_count g
    | Inl d \<Rightarrow> \<exists>g1 :: ('s, 'c) gateway. gx_keys g1 = gx_keys g \<and> gx_hierarchy g1 = gx_hierarchy g \<and>
        key_count g' = key_count (release_reservation g1 key) \<and>
        chain_count g' = chain_count (release_reservation g1 key) \<and>
        durable_writes g' = durable_writes (release_reservation g1 key)"
proof (cases "gx_epochs g \<noteq> None \<and> down \<noteq> None")
  case True
  let ?g = "g\<lparr>gx_epochs := map_option (the down) (gx_epochs g)\<rparr>"
  from True assms have "g' = count_metric (release_reservation ?g key) ''governance.denied.budget_reservation_unavailable''"
    "\<exists>d. r = Inl d" unfolding settle_def if_P [OF True] by (auto simp: prod_eq_iff)
  then show ?thesis by (auto simp: durable_writes_def intro!: exI [of _ ?g])
next
  case False
  obtain g1 x where x: "admit_schedules ops g key team customer now = (g1, x)" by fastforce
  note frame = admit_schedules_frame [OF x]
  show ?thesis
  proof (cases x)
    case (Inl d)
    have "(g', r) = map_prod id Inl (deny (release_reservation g1 key) (dn_status d) (dn_code d) (dn_message d) None)"
      using assms unfolding settle_def if_not_P [OF False] x Inl by simp
    then have "g' = count_metric (release_reservation g1 key) (''governance.denied.'' @ dn_code d)"
      "\<exists>d. r = Inl d" by (auto simp: prod_eq_iff)
    with frame show ?thesis by (auto simp: durable_writes_def intro!: exI [of _ g1])
  next
    case (Inr ss)
    obtain g2 a where c: "commit_request g1 key team customer est ss = (g2, a)" by fastforce
    have "(g', r) = map_prod id Inr (commit_request g1 key team customer est ss)"
      using assms unfolding settle_def if_not_P [OF False] x Inr by simp
    then have "g' = g2" "r = Inr a" by (simp_all add: c)
    with commit_counts [OF c] frame show ?thesis by simp
  qed
qed

lemma durable_frame [simp]:
  "durable_writes (count_metric g n) = durable_writes g"
  "durable_writes (release_reservation g key) = durable_writes g"
  "durable_writes (reserve_request g key) = durable_writes g"
proof -
  have off: "gh_emit h (PersistAll False) k i f n = h" for h k i f n
    by (simp add: gh_emit_def shouldPersist_def)
  have rel: "gh_sink (gh_releaseRequest h t) = gh_sink h" for h t
    by (auto simp: gh_releaseRequest_def Let_def split: option.split prod.split)
  have res: "gh_sink (gh_recordUsage h t (PersistAll False)) = gh_sink h" for h t
    by (auto simp: gh_recordUsage_def off Let_def split: option.split prod.split)
  show "durable_writes (count_metric g n) = durable_writes g"
    by (simp add: durable_writes_def)
  show "durable_writes (release_reservation g key) = durable_writes g"
    by (cases "gx_hierarchy g") (simp_all add: durable_writes_def release_reservation_def vk_releaseRequest_def rel)
  show "durable_writes (reserve_request g key) = durable_writes g"
    by (cases "gx_hierarchy g")
      (simp_all add: durable_writes_def reserve_request_def vk_recordUsage_def record_each res split: option.split)
qed

text \<open>The reservation and what follows the second wait.\<close>

lemma reserve_and_settle:
  assumes "counts_ok g" and "settle ops (reserve_request g key) key team customer est down now = (g', r)"
  shows "case r of
      Inr a \<Rightarrow> ad_key a = key \<and> ad_scope a = dispatchScopeFor key \<and> charged key g g'
    | Inl d \<Rightarrow> key_count g' = key_count g \<and> chain_count g' = chain_count g \<and>
        durable_writes g' = durable_writes g"
proof (cases r)
  case (Inl d)
  with settle_counts [OF assms(2)] obtain g1 :: "('a, 'b) gateway" where
    g1: "gx_keys g1 = gx_keys (reserve_request g key)" "gx_hierarchy g1 = gx_hierarchy (reserve_request g key)"
    and g': "key_count g' = key_count (release_reservation g1 key)"
      "chain_count g' = chain_count (release_reservation g1 key)"
      "durable_writes g' = durable_writes (release_reservation g1 key)"
    by auto
  have "durable_writes g1 = durable_writes (reserve_request g key)"
    using g1 by (simp add: durable_writes_def)
  moreover have "key_count (release_reservation g1 key) = key_count g"
    "chain_count (release_reservation g1 key) = chain_count g"
    using release_charged [OF assms(1), of g1 key] g1 by (simp_all add: reserve_request_def)
  ultimately show ?thesis using g' Inl by simp
next
  case (Inr a)
  with settle_counts [OF assms(2)] reserve_charged [of key g] show ?thesis
    by (auto simp: charged_def)
qed

lemma gate_counts:
  assumes "gate hash g req est model now = (g', r)"
  shows "key_count g' = key_count g" "chain_count g' = chain_count g" "durable_writes g' = durable_writes g"
  using gate_frame(1-2) [OF assms] by (auto simp: key_count_def chain_count_def durable_writes_def fun_eq_iff)

lemma enforce_counts:
  assumes "enforceSharedLimits ops g key est now = (g', r)"
  shows "key_count g' = key_count g" "chain_count g' = chain_count g" "durable_writes g' = durable_writes g"
  using enforce_frame [OF assms] by (auto simp: key_count_def chain_count_def durable_writes_def fun_eq_iff)

text \<open>The ways through the handler.\<close>

lemma governance_cases:
  assumes "governance hash dec ops down g req now = (g', v)"
  obtains (Untouched) "g' = g" "v = Bypassed \<or> v = Threw \<or> (\<exists>d. v = Denied d)"
  | (Gate) est model d where "gate hash g req est model now = (g', Inl d)" "v = Denied d"
  | (Limited) est model key g1 d where "gate hash g req est model now = (g1, Inr key)"
      "enforceSharedLimits ops g1 key est now = (g', Some d)" "v = Denied d"
  | (Settled) est model key g1 g2 team customer r where
      "gate hash g req est model now = (g1, Inr key)"
      "enforceSharedLimits ops g1 key est now = (g2, None)"
      "tenant_of g2 key = (team, customer)"
      "settle ops (reserve_request g2 key) key team customer est down now = (g', r)"
      "v = (case r of Inl d \<Rightarrow> Denied d | Inr a \<Rightarrow> AdmittedAs a)"
proof (cases "\<not> governed (rq_path req) \<or> \<not> vk_active (gx_keys g)")
  case True
  with assms Untouched show thesis by (simp add: governance_def)
next
  case go: False
  note run = assms [unfolded governance_def if_not_P [OF go]]
  show thesis
  proof (cases "path_model dec (rq_path req)")
    case (Inl u)
    with run Untouched show thesis by auto
  next
    case pm: (Inr pathModel)
    show thesis
    proof (cases "inspect_body req pathModel")
      case (Inl d)
      with run pm Untouched show thesis by auto
    next
      case insp: (Inr b)
      obtain est model where b: "b = (est, model)" by fastforce
      obtain g1 r1 where gt: "gate hash g req est model now = (g1, r1)" by fastforce
      show thesis
      proof (cases r1)
        case (Inl d)
        with run pm insp b gt Gate show thesis by auto
      next
        case k: (Inr key)
        obtain g2 x where en: "enforceSharedLimits ops g1 key est now = (g2, x)" by fastforce
        show thesis
        proof (cases x)
          case (Some d)
          with run pm insp b gt k en Limited show thesis by auto
        next
          case None
          obtain team customer where tn: "tenant_of g2 key = (team, customer)" by fastforce
          obtain g3 r where st: "settle ops (reserve_request g2 key) key team customer est down now = (g3, r)"
            by fastforce
          have "g' = g3" "v = (case r of Inl d \<Rightarrow> Denied d | Inr a \<Rightarrow> AdmittedAs a)"
            using run pm insp b gt k en None tn st by (auto simp: finish_def)
          with gt k en None tn st Settled show thesis by simp
        qed
      qed
    qed
  qed
qed

text \<open>C2: Admission charges all or nothing to the keys and the hierarchy. A request that is admitted is charged
  exactly once: its key, its team and its customer each count one request more, and no other key, team or
  customer changes. A request that is refused, at whatever stage and for whatever reason (a malformed path, a
  large body, the key, the hierarchy, the scope, a fleet-wide window, a scheduled budget, a store that fails at
  any point of the reservation), leaves the request count of every key, team and customer as it was and asks
  the usage sinks of keys and hierarchy for no write. The windows and epochs of the shared store are not part
  of this: a fleet-wide window that admitted before a later refusal stays counted there. The state the request
  finds is one in which no request count is negative.\<close>

theorem admission_all_or_nothing:
  assumes "counts_ok g" and "governance hash dec ops down g req now = (g', v)"
  shows "case v of
      AdmittedAs a \<Rightarrow> charged (ad_key a) g g'
    | _ \<Rightarrow> key_count g' = key_count g \<and> chain_count g' = chain_count g \<and> durable_writes g' = durable_writes g"
  using assms(2)
proof (cases rule: governance_cases)
  case Untouched
  then show ?thesis by auto
next
  case (Gate est model d)
  then show ?thesis using gate_counts [OF Gate(1)] by simp
next
  case (Limited est model key g1 d)
  then show ?thesis using gate_counts [OF Limited(1)] enforce_counts [OF Limited(2)] by simp
next
  case (Settled est model key g1 g2 team customer r)
  note same = gate_counts [OF Settled(1)] enforce_counts [OF Settled(2)]
  have hier: "gx_hierarchy g2 = gx_hierarchy g"
    using gate_frame(2) [OF Settled(1)] enforce_frame(2) [OF Settled(2)] by simp
  have "counts_ok g2" using assms(1) same by (simp add: counts_ok_def)
  from reserve_and_settle [OF this Settled(4)] show ?thesis
    using Settled(5) same hier by (cases r) (auto simp: charged_def)
qed

text \<open>What a refused request leaves behind in the shared store: when the request window admits and the token
  window refuses, the request window keeps the unit.\<close>

lemma refused_request_keeps_its_window:
  assumes "shared_admit mem_ops s w1 now = (s1, Admitted)" and "shared_admit mem_ops s1 w2 now = (s2, Limited)"
  shows "\<exists>r. shared_loop mem_ops s [(w1, c1, m1), (w2, c2, m2)] now = (s2, Some (429, c2, m2, r))"
    "mem_getCount s2 (shared_keyFor w1 now) = mem_getCount s (shared_keyFor w1 now) + limit_amount (shared_limit w1 now)"
  using assms(1,2) mem.admit_count [OF assms(1), of "shared_keyFor w1 now"] mem.admit_count [OF assms(2), of "shared_keyFor w1 now"]
  by simp_all

definition demo_gateway :: "(int mem_store, unit) gateway" where
  "demo_gateway = \<lparr>gx_keys = demo_manager, gx_hierarchy = Some demo_hierarchy, gx_epochs = None,
     gx_shared = False, gx_providers = idle_manager [], gx_metrics = []\<rparr>"

definition demo_request :: request where
  "demo_request = \<lparr>rq_path = ''/v1/chat/completions'', rq_method = ''POST'',
     rq_auth = Some ''Bearer secret-token'', rq_contentType = ''text/plain'',
     rq_declaredBytes = None, rq_body = None\<rparr>"

lemma demo_gate:
  "gate (\<lambda>t. t) demo_gateway demo_request 0 None 0 = (demo_gateway, Inr (demo_key ''k'' ''secret-token''))"
proof -
  have "vk_check (\<lambda>t. t) demo_manager (Some ''secret-token'') 0 0 =
      (demo_manager, Inr (demo_key ''k'' ''secret-token''))"
    by (simp add: vk_check_def demo_find demo_key_def lifetime_requests_out_def lifetime_cost_out_def
        rate_gate_def token_gate_def)
  moreover have "bearer (rq_auth demo_request) = Some ''secret-token''"
    by (simp add: bearer_def demo_request_def)
  ultimately show ?thesis
    by (simp add: gate_def demo_gateway_def demo_request_def demo_key_def gh_checkChain_def truthy_def
        checkScope_def or_default_def Let_def)
qed

lemma demo_governance:
  "\<exists>g a. governance (\<lambda>t. t) Some mem_ops None demo_gateway demo_request 0 = (g, AdmittedAs a) \<and>
     ad_key a = demo_key ''k'' ''secret-token''"
proof -
  let ?k = "demo_key ''k'' ''secret-token''"
  have "enforceSharedLimits mem_ops demo_gateway ?k 0 0 = (demo_gateway, None)"
    by (simp add: enforceSharedLimits_def shared_store_def demo_gateway_def)
  moreover have "governed (rq_path demo_request)" "vk_active (gx_keys demo_gateway)"
    "path_model Some (rq_path demo_request) = Inr None" "inspect_body demo_request None = Inr (0, None)"
    by (simp_all add: demo_request_def governed_def demo_gateway_def demo_manager_eq vk_active_def
        path_model_def azureDeploymentFromPath_def modelFromPath_def segment_def inspect_body_def)
  moreover obtain g a where "settle mem_ops (reserve_request demo_gateway ?k) ?k None None 0 None 0 = (g, Inr a)"
      "ad_key a = ?k"
    by (simp add: settle_def admit_schedules_def reserve_request_def demo_gateway_def commit_request_def Let_def)
  moreover have "tenant_of demo_gateway ?k = (None, None)"
    by (simp add: tenant_of_def demo_key_def truthy_def)
  ultimately show ?thesis using demo_gate by (simp add: governance_def finish_def)
qed

lemma demo_counts_ok: "counts_ok demo_gateway"
  by (auto simp: counts_ok_def key_count_def chain_count_def demo_gateway_def vk_used_def
      demo_manager_eq demo_key_def gh_used_def demo_hierarchy_eq demo_team_def demo_customer_def
      split: if_splits entity_kind.splits)

theorem admission_all_or_nothing_witness:
  "\<exists>g a. governance (\<lambda>t. t) Some mem_ops None demo_gateway demo_request 0 = (g, AdmittedAs a) \<and>
     key_count g ''k'' = Some 1"
proof -
  obtain g a where r: "governance (\<lambda>t. t) Some mem_ops None demo_gateway demo_request 0 = (g, AdmittedAs a)"
    "ad_key a = demo_key ''k'' ''secret-token''" using demo_governance by blast
  have "charged (ad_key a) demo_gateway g"
    using admission_all_or_nothing [OF demo_counts_ok r(1)] by simp
  moreover have "key_count demo_gateway ''k'' = Some 0"
    by (simp add: key_count_def demo_gateway_def vk_used_def demo_manager_eq demo_key_def)
  ultimately show ?thesis using r by (auto simp: charged_def demo_key_def)
qed

section \<open>Scope and routing\<close>

lemma selectHead_frame [simp]:
  "pm_list (fst (selectHead m model tier adv)) = pm_list m"
  "withinBudget (fst (selectHead m model tier adv)) = withinBudget m"
  "pm_budgets (fst (selectHead m model tier adv)) = pm_budgets m"
  "pm_defaultProvider (fst (selectHead m model tier adv)) = pm_defaultProvider m"
  by (simp_all add: selectHead_def pm_list_def withinBudget_def Let_def case_prod_unfold fun_eq_iff
      split: option.split)

lemma pool_frame [simp]:
  "pm_list (fst (pm_pool m model adv now)) = pm_list m"
  "pm_budgets (fst (pm_pool m model adv now)) = pm_budgets m"
  "pm_defaultProvider (fst (pm_pool m model adv now)) = pm_defaultProvider m"
  by (simp_all add: pm_pool_def Let_def case_prod_unfold)

text \<open>The pool of a model, with its tier named.\<close>

definition advertisers :: "'c prov_manager \<Rightarrow> string \<Rightarrow> int \<Rightarrow> provider_account list" where
  "advertisers m model now =
     filter (\<lambda>c. ac_enabled c \<and> model \<in> set (ac_models c) \<and> withinBudget m c now) (pm_list m)"

definition top_tier :: "provider_account list \<Rightarrow> provider_account list" where
  "top_tier cs = filter (\<lambda>c. ac_priority c = ac_priority (sort_by cmp_priority cs ! 0)) (sort_by cmp_priority cs)"

lemma pool_tier:
  "pm_pool m model adv now =
     (let cs = advertisers m model now
      in if length cs \<le> 1 then (m, cs)
         else (fst (selectHead m model (top_tier cs) adv),
               rotate_tier (snd (selectHead m model (top_tier cs) adv)) cs))"
  if "rotate_tier = (\<lambda>head cs. (drop head (top_tier cs) @ take head (top_tier cs)) @
       filter (\<lambda>c. ac_priority c \<noteq> ac_priority (sort_by cmp_priority cs ! 0)) (sort_by cmp_priority cs))"
  by (simp only: that pm_pool_def advertisers_def top_tier_def Let_def case_prod_unfold)

lemma advertisers_frame [simp]:
  "advertisers (fst (selectHead m model tier adv)) = advertisers m"
  by (intro ext) (simp add: advertisers_def)

lemma pool_peek:
  "snd (pm_pool m model True now) = snd (pm_pool m model False now)"
  "pm_pool (fst (pm_pool m model False now)) model True now = pm_pool m model True now"
  by (simp_all add: pool_tier Let_def peek_is_neutral_facts)

lemma try_frame:
  "pm_accounts (fst (pm_tryProviderId m model now)) = pm_accounts m"
  "pm_list (fst (pm_tryProviderId m model now)) = pm_list m"
  "pm_budgets (fst (pm_tryProviderId m model now)) = pm_budgets m"
  "pm_defaultProvider (fst (pm_tryProviderId m model now)) = pm_defaultProvider m"
  by (simp_all add: pm_tryProviderId_def Let_def case_prod_unfold split: option.split)

lemma try_addressed [simp]: "addressed (fst (pm_tryProviderId m model now)) = addressed m"
  by (rule ext) (simp add: addressed_def try_frame split: option.split)

lemma targetFor_frame:
  "pm_accounts m1 = pm_accounts m \<Longrightarrow> pm_budgets m1 = pm_budgets m \<Longrightarrow> pm_targetFor m1 = pm_targetFor m"
  by (intro ext) (simp add: pm_targetFor_def split: option.split)

text \<open>Asking which account would serve does not change which one serves.\<close>

lemma resolve_after_try:
  "snd (pm_resolve (fst (pm_tryProviderId m model now)) model now) = snd (pm_resolve m model now)"
proof -
  let ?m1 = "fst (pm_tryProviderId m model now)"
  note tf = targetFor_frame [OF try_frame(1,3), of m model now]
  show ?thesis
  proof (cases "addressed m model")
    case (Some a)
    then show ?thesis by (simp add: pm_resolve_def tf split: prod.split)
  next
    case None
    show ?thesis
    proof (cases "truthy (pm_defaultProvider m)")
      case (Some d)
      with None show ?thesis by (simp add: pm_resolve_def try_frame tf)
    next
      case nd: None
      let ?n = "length (filter ac_enabled (pm_list m))"
      have peek: "?m1 = (if ?n = 1 then m else fst (pm_pool m model False now))"
        using None nd by (simp add: pm_tryProviderId_def known_default_def Let_def case_prod_unfold)
      show ?thesis
      proof (cases "?n = 1")
        case True
        with peek show ?thesis by simp
      next
        case False
        with peek have m1: "?m1 = fst (pm_pool m model False now)" by simp
        have "addressed ?m1 model = None" using None by simp
        then show ?thesis
          using None nd False
          by (simp add: pm_resolve_def m1 pool_peek Let_def case_prod_unfold
              targetFor_frame [OF pool_accounts pool_frame(2)] split: list.split)
      qed
    qed
  qed
qed

lemma targetFor_fields:
  assumes "pm_targetFor p i x = Inr t"
  shows "tg_providerId t = i" "tg_model t = x" "jm_has (pm_accounts p) i"
  using assms by (auto simp: pm_targetFor_def split: option.splits if_splits)

lemma resolve_target:
  assumes "pm_resolve m model now = (m', Inr t)"
  shows "snd (pm_tryProviderId m model now) = Some (tg_providerId t) \<and>
    tg_model t = (case addressed m model of Some (i, rest) \<Rightarrow> rest | None \<Rightarrow> model)"
proof (cases "addressed m model")
  case (Some a)
  then obtain i rest where a: "addressed m model = Some (i, rest)" by (cases a) simp
  with assms have "pm_targetFor m i rest = Inr t" by (auto simp: pm_resolve_def)
  from targetFor_fields [OF this] a show ?thesis by (simp add: pm_tryProviderId_def)
next
  case None
  show ?thesis
  proof (cases "truthy (pm_defaultProvider m)")
    case (Some d)
    with assms None have "pm_targetFor m d model = Inr t" by (auto simp: pm_resolve_def)
    from targetFor_fields [OF this] have "known_default m = Some d" "tg_providerId t = d" "tg_model t = model"
      using Some by (simp_all add: known_default_def)
    with None show ?thesis by (simp add: pm_tryProviderId_def)
  next
    case nd: None
    then have kd: "known_default m = None" by (simp add: known_default_def)
    show ?thesis
    proof (cases "length (filter ac_enabled (pm_list m)) = 1")
      case True
      with assms None nd have "pm_targetFor m (ac_id (filter ac_enabled (pm_list m) ! 0)) model = Inr t"
        by (auto simp: pm_resolve_def Let_def)
      from targetFor_fields [OF this] True None kd show ?thesis
        by (simp add: pm_tryProviderId_def Let_def)
    next
      case False
      with assms None nd obtain c cs where "snd (pm_pool m model True now) = c # cs"
        "pm_targetFor (fst (pm_pool m model True now)) (ac_id c) model = Inr t"
        by (auto simp: pm_resolve_def Let_def case_prod_unfold split: if_splits list.splits)
      with targetFor_fields [OF this(2)] False None kd show ?thesis
        by (simp add: pm_tryProviderId_def Let_def case_prod_unfold pool_peek)
    qed
  qed
qed

lemma stripped_addressed:
  "strippedModelId model m = (case addressed m model of Some (i, rest) \<Rightarrow> rest | None \<Rightarrow> model)"
  by (auto simp: strippedModelId_def addressed_def pm_get_def split: option.split)

lemma list_ex_either: "list_ex (\<lambda>x. f x = a \<or> f x = b) xs \<longleftrightarrow> a \<in> f ` set xs \<or> b \<in> f ` set xs"
  by (auto simp: list_ex_iff)

lemma checkScope_admits:
  assumes "checkScope key (Some model) m now = (m1, None)" and "dispatchScopeFor key = Some s"
  shows "snd (pm_resolve m1 model now) = snd (pm_resolve m model now) \<and>
    (\<forall>ps. sc_providers s = Some ps \<longrightarrow> (\<exists>i. snd (pm_tryProviderId m model now) = Some i \<and> i \<in> set ps)) \<and>
    (\<forall>ms. sc_models s = Some ms \<longrightarrow>
       js_lower (strippedModelId model m) \<in> set ms \<or> js_lower model \<in> set ms)"
proof -
  let ?P = "or_default (vk_allowedProviders key) []" and ?M = "or_default (vk_allowedModels key) []"
  have sc: "sc_providers s = (if ?P = [] then None else Some ?P)"
    "sc_models s = (if ?M = [] then None else Some (map js_lower ?M))" "\<not> (?P = [] \<and> ?M = [])"
    using assms(2) by (auto simp: dispatchScopeFor_def or_default_def Let_def split: option.splits if_splits)
  have ne: "truthy (Some model) = Some model"
    using assms(1) sc(3) by (auto simp: checkScope_def Let_def truthy_def split: if_splits)
  have strip: "strippedModelId model (fst (pm_tryProviderId m model now)) = strippedModelId model m"
    by (simp add: stripped_addressed)
  show ?thesis
  proof (cases "?P = []")
    case True
    then have "?M \<noteq> []" using sc(3) by blast
    with assms(1) True ne have "m1 = m"
      "list_ex (\<lambda>x. js_lower x = js_lower (strippedModelId model m) \<or> js_lower x = js_lower model) ?M"
      by (auto simp: checkScope_def Let_def split: if_splits)
    then show ?thesis using sc True by (simp add: list_ex_either)
  next
    case False
    obtain i where i: "snd (pm_tryProviderId m model now) = Some i" "i \<in> set ?P"
      using assms(1) False ne
      by (auto simp: checkScope_def Let_def case_prod_unfold truthy_def split: if_splits option.splits)
    have m1: "m1 = fst (pm_tryProviderId m model now)"
      using assms(1) False ne by (auto simp: checkScope_def Let_def case_prod_unfold split: if_splits)
    have "?M = [] \<or>
      list_ex (\<lambda>x. js_lower x = js_lower (strippedModelId model m) \<or> js_lower x = js_lower model) ?M"
      using assms(1) False ne by (auto simp: checkScope_def Let_def case_prod_unfold strip split: if_splits)
    with sc False i m1 show ?thesis by (auto simp: resolve_after_try list_ex_either)
  qed
qed

text \<open>Scope is checked on what routing will do. When the admission check lets a scoped key's model
  through, the account and model that resolution then picks are inside the scope dispatch
  enforces, with one exception: a key that lists a model under its account-prefixed name.\<close>

theorem scope_admission_matches_routing:
  assumes "checkScope key (Some model) m now = (m1, None)" and "dispatchScopeFor key = Some s"
    and "pm_resolve m1 model now = (m2, Inr t)"
  shows "targetInScope s t \<or>
    (\<exists>i rest ms. addressed m model = Some (i, rest) \<and> sc_models s = Some ms \<and>
       js_lower rest \<notin> set ms \<and> js_lower model \<in> set ms)"
proof -
  note adm = checkScope_admits [OF assms(1,2)]
  obtain m' where r: "pm_resolve m model now = (m', Inr t)"
    using adm assms(3) by (metis prod.collapse snd_conv)
  note tgt = resolve_target [OF r]
  have model: "tg_model t = strippedModelId model m" using tgt by (simp add: stripped_addressed)
  have prov: "\<forall>ps. sc_providers s = Some ps \<longrightarrow> tg_providerId t \<in> set ps" using adm tgt by auto
  show ?thesis
  proof (cases "targetInScope s t")
    case False
    with prov obtain ms where ms: "sc_models s = Some ms" "js_lower (tg_model t) \<notin> set ms"
      by (auto simp: targetInScope_def split: option.splits if_splits)
    with adm model have raw: "js_lower model \<in> set ms" by auto
    with ms tgt obtain a where "addressed m model = Some a"
      by (cases "addressed m model") auto
    with raw ms tgt show ?thesis by (cases a) auto
  qed simp
qed

text \<open>That exception loses every request: a key whose one allowed model is written as
  \<open>account/model\<close> passes admission for that name, and dispatch then finds no target in scope,
  because its scope compares the bare name, so the request fails with no provider contacted.\<close>

theorem prefixed_allowlist_never_dispatches:
  assumes "addressed m model = Some (i, rest)" and "vk_allowedModels key = Some [model]"
    and "vk_allowedProviders key = None" and "list_all (\<lambda>t. tg_model t = rest) targets"
  shows "snd (checkScope key (Some model) m now) = None \<and>
    dispatchWithFallback dispatch now b (dispatchScopeFor key) targets = (b, AllProvidersFailed [])"
proof -
  have ne: "model \<noteq> []" using assms(1) by (auto simp: addressed_def)
  then have longer: "length rest < length model"
    using assms(1) by (auto simp: addressed_def split: option.splits if_splits intro: diff_less)
  have "snd (checkScope key (Some model) m now) = None"
    using ne by (simp add: checkScope_def assms(2,3) or_default_def Let_def truthy_def)
  moreover have "js_lower rest \<noteq> js_lower model"
    using longer by (auto simp: js_lower_def dest: map_eq_imp_length_eq)
  then have "filter (targetInScope \<lparr>sc_providers = None, sc_models = Some [js_lower model]\<rparr>) targets = []"
    using assms(4) by (auto simp: filter_empty_conv list_all_iff targetInScope_def)
  then have "dispatchWithFallback dispatch now b (dispatchScopeFor key) targets = (b, AllProvidersFailed [])"
    by (simp add: dispatchWithFallback_def dispatchScopeFor_def assms(2,3) Let_def)
  ultimately show ?thesis by simp
qed

definition demo_account_manager :: "unit prov_manager" where
  "demo_account_manager = (idle_manager [])\<lparr>pm_accounts :=
     [(''a'', \<lparr>pe_config = capped_account ''a'' 5, pe_adapter = OpenAIAdapter '''' None () True, pe_client = ()\<rparr>)]\<rparr>"

definition scoped_key :: "string \<Rightarrow> virtual_key" where
  "scoped_key model = (demo_key ''k'' ''secret-token'')\<lparr>vk_allowedModels := Some [model]\<rparr>"

lemma demo_resolve: "\<exists>t. pm_resolve demo_account_manager ''m'' 0 = (demo_account_manager, Inr t)"
  by (simp add: pm_resolve_def addressed_def demo_account_manager_def idle_manager_def pm_list_def
      pm_targetFor_def truthy_def Let_def)

lemma lower_M: "js_lower ''M'' = ''m''" "js_lower ''m'' = ''m''"
  by code_simp+

theorem scope_admission_matches_routing_witness:
  "\<exists>s. dispatchScopeFor (scoped_key ''M'') = Some s \<and>
     (\<exists>t. pm_resolve demo_account_manager ''m'' 0 = (demo_account_manager, Inr t) \<and> targetInScope s t)"
proof -
  have c: "checkScope (scoped_key ''M'') (Some ''m'') demo_account_manager 0 = (demo_account_manager, None)"
    by (simp add: checkScope_def scoped_key_def demo_key_def or_default_def truthy_def Let_def lower_M)
  have s: "dispatchScopeFor (scoped_key ''M'') = Some \<lparr>sc_providers = None, sc_models = Some [''m'']\<rparr>"
    by (simp add: dispatchScopeFor_def scoped_key_def demo_key_def Let_def lower_M)
  obtain t where t: "pm_resolve demo_account_manager ''m'' 0 = (demo_account_manager, Inr t)"
    using demo_resolve by blast
  have "addressed demo_account_manager ''m'' = None" by (simp add: addressed_def)
  with scope_admission_matches_routing [OF c s t] s t show ?thesis by auto
qed

theorem prefixed_allowlist_never_dispatches_witness:
  "dispatchWithFallback demo_dispatch 0 pb_new (dispatchScopeFor (scoped_key ''a/m'')) [plain_target ''a''] =
     (pb_new, AllProvidersFailed [])"
proof -
  have "addressed demo_account_manager ''a/m'' = Some (''a'', ''m'')"
    by (simp add: addressed_def demo_account_manager_def)
  moreover have "vk_allowedModels (scoped_key ''a/m'') = Some [''a/m'']"
    "vk_allowedProviders (scoped_key ''a/m'') = None" by (simp_all add: scoped_key_def demo_key_def)
  moreover have "list_all (\<lambda>t. tg_model t = ''m'') [plain_target ''a'']" by (simp add: plain_target_def)
  ultimately show ?thesis using prefixed_allowlist_never_dispatches by blast
qed

section \<open>What the wait for the fleet-wide limiter costs\<close>

text \<open>With the fleet-wide limiter attached, a lifetime request budget can be exceeded. The check
  and the reservation are then separated by a wait: of two requests of a key with one request
  left, both pass the check before either reserves, both are let through by the limiter, and the
  key ends above its budget.\<close>

theorem shared_limiter_over_admits:
  assumes "vm_externalRateLimit (gx_keys g)" and "gx_hierarchy g = None" and "rq_method req \<noteq> ''POST''"
    and "bearer (rq_auth req) = Some t" and "t \<noteq> []" and "vk_findByToken hash (gx_keys g) t = Some k"
    and "vk_enabled k" and "jm_get (vm_keys (gx_keys g)) (vk_id k) = Some k"
    and "vk_budget k = Some \<lparr>bg_maxRequests = Some n, bg_maxCostUsd = None, bg_resetIntervalMs = None\<rparr>"
    and "vk_usedRequests k = n - 1"
    and "enforceSharedLimits ops g k est now = (g1, None)"
    and "enforceSharedLimits ops (reserve_request g1 k) k est now' = (g2, None)"
  shows "gate hash g req est model now = (g, Inr k) \<and>
    key_count (reserve_request g2 k) (vk_id k) = Some (n + 1)"
proof -
  have "vk_check hash (gx_keys g) (Some t) est now = (gx_keys g, Inr k)"
    using assms(1,5-10)
    by (simp add: vk_check_def lifetime_requests_out_def lifetime_cost_out_def rate_gate_def token_gate_def)
  then have "gate hash g req est model now = (g, Inr k)"
    using assms(2-4) by (simp add: gate_def Let_def)
  moreover have "key_count g (vk_id k) = Some (n - 1)"
    using assms(8,10) by (simp add: key_count_def vk_used_def)
  then have "key_count g1 (vk_id k) = Some (n - 1)" using enforce_counts(1) [OF assms(11)] by simp
  then have "key_count (reserve_request g1 k) (vk_id k) = Some n"
    using reserve_charged [of k g1] by (simp add: charged_def)
  then have "key_count g2 (vk_id k) = Some n" using enforce_counts(1) [OF assms(12)] by simp
  then have "key_count (reserve_request g2 k) (vk_id k) = Some (n + 1)"
    using reserve_charged [of k g2] by (simp add: charged_def)
  ultimately show ?thesis by blast
qed

definition fleet_gateway :: "(int mem_store, unit) gateway" where
  "fleet_gateway = demo_gateway\<lparr>gx_keys := vk_useExternalRateLimit demo_manager True, gx_hierarchy := None,
     gx_epochs := Some \<lparr>ep_anchors = [], ep_store = Some mem_empty\<rparr>, gx_shared := True\<rparr>"

lemma enforce_no_windows:
  "shared_windows k est = [] \<Longrightarrow> \<exists>g1. enforceSharedLimits ops g k est now = (g1, None)"
  by (simp add: enforceSharedLimits_def Let_def split: option.split)

theorem shared_limiter_over_admits_witness:
  "\<exists>g2 :: (int mem_store, unit) gateway.
     key_count (reserve_request g2 (demo_key ''k'' ''secret-token'')) ''k'' = Some 2"
proof -
  let ?k = "demo_key ''k'' ''secret-token''"
  have windows: "shared_windows ?k 0 = []" by (simp add: shared_windows_def demo_key_def)
  obtain g1 where g1: "enforceSharedLimits mem_ops fleet_gateway ?k 0 0 = (g1, None)"
    using enforce_no_windows [OF windows] by blast
  obtain g2 where g2: "enforceSharedLimits mem_ops (reserve_request g1 ?k) ?k 0 5 = (g2, None)"
    using enforce_no_windows [OF windows] by blast
  have k: "vk_id ?k = ''k''" "vk_usedRequests ?k = 1 - 1" "vk_enabled ?k"
    "vk_budget ?k = Some \<lparr>bg_maxRequests = Some 1, bg_maxCostUsd = None, bg_resetIntervalMs = None\<rparr>"
    by (simp_all add: demo_key_def)
  have f: "vm_externalRateLimit (gx_keys fleet_gateway)" "gx_hierarchy fleet_gateway = None"
    "vk_findByToken (\<lambda>t. t) (gx_keys fleet_gateway) ''secret-token'' = Some ?k"
    "jm_get (vm_keys (gx_keys fleet_gateway)) (vk_id ?k) = Some ?k"
    by (simp_all add: fleet_gateway_def vk_useExternalRateLimit_def vk_findByToken_def demo_manager_eq k)
  have r: "rq_method (demo_request\<lparr>rq_method := ''GET''\<rparr>) \<noteq> ''POST''"
    "bearer (rq_auth (demo_request\<lparr>rq_method := ''GET''\<rparr>)) = Some ''secret-token''" "''secret-token'' \<noteq> []"
    by (simp_all add: demo_request_def bearer_def)
  from shared_limiter_over_admits [OF f(1,2) r f(3) k(3) f(4) k(4,2) g1 g2, of None] k(1)
  show ?thesis by auto
qed

end
