(* ===== verification/FesterScheduler.thy ===== *)
theory FesterScheduler
  imports Prelude
begin

text \<open>
  The build service's scheduler, target catalog and node registry:
  \<open>web/mini-services/fester/scheduler.ts\<close>, \<open>targets.ts\<close>, \<open>nodes.ts\<close>. Loads, temperatures and
  scores are rationals. A node's state record is shared between the registry and the scheduler,
  which writes the last score into it, so choosing a node returns the registry updated.
\<close>

section \<open>Nodes\<close>

datatype node_policy = Preferred | Avoid

datatype node_status = Online | Degraded | Offline

record node_config =
  nc_name :: string
  nc_host :: string
  nc_max_jobs :: int
  nc_runtime :: string
  nc_policy :: "node_policy option"
  nc_arch :: "string option"

record node_state =
  nd_name :: string
  nd_state :: node_status
  nd_cpu :: rat
  nd_memory :: rat
  nd_temp :: rat
  nd_active :: int
  nd_max :: int
  nd_instability :: rat
  nd_host :: string
  nd_runtime :: string
  nd_arch :: string
  nd_score :: "rat option"

definition cluster_node ::
    "string \<Rightarrow> string \<Rightarrow> int \<Rightarrow> string \<Rightarrow> string \<Rightarrow> node_policy option \<Rightarrow> node_config" where
  "cluster_node name host jobs runtime arch policy =
     \<lparr>nc_name = name, nc_host = host, nc_max_jobs = jobs, nc_runtime = runtime, nc_policy = policy,
      nc_arch = Some arch\<rparr>"

definition CLUSTER :: "node_config list" where
  "CLUSTER =
     [cluster_node ''localhost'' ''127.0.0.1'' 4 ''host'' ''x86_64'' (Some Preferred),
      cluster_node ''x99-v3'' ''192.168.1.10'' 24 ''host'' ''x86_64'' None,
      cluster_node ''x99-v4'' ''192.168.1.11'' 30 ''host'' ''x86_64'' None,
      cluster_node ''rpi-1'' ''192.168.1.12'' 4 ''lxc'' ''arm64'' (Some Avoid),
      cluster_node ''ryzen-1'' ''192.168.1.13'' 16 ''podman'' ''x86_64'' None]"

type_synonym node_registry = "(string, node_state) jmap"

text \<open>The three random draws of each node at start are arguments.\<close>

definition nodes_new :: "(string \<Rightarrow> rat \<times> rat \<times> rat) \<Rightarrow> node_registry" where
  "nodes_new draws =
     foldl (\<lambda>m c. let (a, b, t) = draws (nc_name c) in
        jm_set m (nc_name c)
          \<lparr>nd_name = nc_name c, nd_state = Online, nd_cpu = 10 + a * 30, nd_memory = 20 + b * 40,
           nd_temp = 40 + t * 20, nd_active = 0, nd_max = nc_max_jobs c, nd_instability = 0,
           nd_host = nc_host c, nd_runtime = nc_runtime c,
           nd_arch = (case nc_arch c of None \<Rightarrow> ''x86_64'' | Some x \<Rightarrow> x), nd_score = None\<rparr>) [] CLUSTER"

definition clamp :: "rat \<Rightarrow> rat \<Rightarrow> rat \<Rightarrow> rat" where
  "clamp v lo hi = max lo (min hi v)"

text \<open>One tick of the ambient loop; \<open>local\<close> is what \<open>/proc\<close> says, the draws are random.\<close>

definition drift_node :: "rat \<times> rat \<Rightarrow> (string \<Rightarrow> rat \<times> rat \<times> rat) \<Rightarrow> node_state \<Rightarrow> node_state" where
  "drift_node local draws s =
     (let (a, b, t) = draws (nd_name s);
          s1 = (if nd_name s = ''localhost''
                then s\<lparr>nd_cpu := fst local, nd_memory := snd local, nd_temp := 45 + t * 5\<rparr>
                else s\<lparr>nd_cpu := clamp (nd_cpu s + (a - 1/2) * 14) 4 96,
                       nd_memory := clamp (nd_memory s + (b - 1/2) * 6) 10 92,
                       nd_temp := clamp (nd_temp s + (t - 1/2) * 3) 32 78\<rparr>)
      in s1\<lparr>nd_state := (if nd_cpu s1 > 90 \<or> nd_temp s1 > 75 then Degraded else Online), nd_score := None\<rparr>)"

definition nodes_tick ::
    "bool \<Rightarrow> rat \<times> rat \<Rightarrow> (string \<Rightarrow> rat \<times> rat \<times> rat) \<Rightarrow> node_registry \<Rightarrow> node_registry" where
  "nodes_tick stopped local draws m =
     (if stopped then m else map (\<lambda>(k, s). (k, drift_node local draws s)) m)"

section \<open>The weighted scheduler\<close>

definition round1 :: "rat \<Rightarrow> rat" where
  "round1 x = of_int (js_round (x * 10)) / 10"

definition node_score :: "(string, node_policy) jmap \<Rightarrow> node_state \<Rightarrow> rat" where
  "node_score policy s =
     (100 - nd_cpu s - nd_temp s)
     + (if jm_get policy (nd_name s) = Some Preferred then 20 else 0)
     - (if jm_get policy (nd_name s) = Some Avoid then 50 else 0)
     - nd_instability s * 10
     - (of_int (nd_active s) / of_int (max 1 (nd_max s))) * 30"

definition to_fixed0 :: "rat \<Rightarrow> string" where
  "to_fixed0 x = (if x < 0 then CHR ''-'' # int_str (js_round (- x)) else int_str (js_round x))"

definition decision_reason :: "node_state \<Rightarrow> string" where
  "decision_reason s =
     ''cpu '' @ to_fixed0 (nd_cpu s) @ ''% '' @ [char_of (183 :: nat)] @ '' temp '' @ to_fixed0 (nd_temp s) @
     [char_of (176 :: nat)] @ ''C '' @ [char_of (183 :: nat)] @ '' jobs '' @ int_str (nd_active s) @ ''/'' @
     int_str (nd_max s)"

text \<open>The loop keeps the first node with the strictly greatest score; offline nodes are passed over
  and keep their old score.\<close>

definition visit_node ::
    "(string, node_policy) jmap \<Rightarrow> (node_state \<times> rat) option \<times> (string \<times> rat) list \<Rightarrow> node_state \<Rightarrow>
     (node_state \<times> rat) option \<times> (string \<times> rat) list" where
  "visit_node policy acc s =
     (if nd_state s = Offline then acc
      else let score = node_score policy s; s' = s\<lparr>nd_score := Some (round1 score)\<rparr>
           in (case fst acc of
                 None \<Rightarrow> Some (s', score)
               | Some (b, m) \<Rightarrow> if score > m then Some (s', score) else Some (b, m),
               snd acc @ [(nd_name s, round1 score)]))"

definition scored_node :: "(string, node_policy) jmap \<Rightarrow> node_state \<Rightarrow> node_state" where
  "scored_node policy s =
     (if nd_state s = Offline then s else s\<lparr>nd_score := Some (round1 (node_score policy s))\<rparr>)"

definition by_score_desc :: "string \<times> rat \<Rightarrow> string \<times> rat \<Rightarrow> int" where
  "by_score_desc a b = (if snd b > snd a then 1 else if snd b < snd a then - 1 else 0)"

text \<open>No node at all is an exception. With every node offline the first is chosen all the same; its
  score is then its old one, or minus infinity, which is \<^term>\<open>None\<close> here.\<close>

definition chooseBestNode ::
    "node_state list \<Rightarrow> (string, node_policy) jmap \<Rightarrow> (node_state list \<times> string \<times> rat option \<times> string \<times> (string \<times> rat) list) option" where
  "chooseBestNode states policy =
     (case states of
        [] \<Rightarrow> None
      | first # _ \<Rightarrow>
          (let (best, scores) = foldl (visit_node policy) (None, []) states;
               chosen = (case best of Some (b, _) \<Rightarrow> b | None \<Rightarrow> first)
           in Some (map (scored_node policy) states, nd_name chosen, map_option round1 (nd_score chosen),
                    decision_reason chosen, sort_by by_score_desc scores)))"

section \<open>The target catalog\<close>

record build_step =
  st_name :: string
  st_command :: string
  st_deps :: "string list"

record project_target =
  pt_name :: string
  pt_command :: string
  pt_system :: string
  pt_arch :: string

record project =
  pj_name :: string
  pj_repo :: string
  pj_targets :: "project_target list"

definition make_target :: "string \<Rightarrow> project_target" where
  "make_target n = \<lparr>pt_name = n, pt_command = ''make clean && make '' @ n, pt_system = ''make'', pt_arch = ''x86_64''\<rparr>"

definition cast_target :: "string \<Rightarrow> string \<Rightarrow> project_target" where
  "cast_target n arch = \<lparr>pt_name = n, pt_command = ''cast smgl-core'', pt_system = ''sourcemage'', pt_arch = arch\<rparr>"

definition PROJECTS :: "project list" where
  "PROJECTS =
     [\<lparr>pj_name = ''linux-tool'', pj_repo = ''https://forgejo.local/linux-tool.git'',
       pj_targets = map make_target [''debian'', ''arch'', ''fedora'']\<rparr>,
      \<lparr>pj_name = ''smgl-core'', pj_repo = ''https://forgejo.local/smgl-core.git'',
       pj_targets = [cast_target ''x86_64'' ''x86_64'', cast_target ''armv7'' ''arm'']\<rparr>,
      \<lparr>pj_name = ''gentoo-stage3'', pj_repo = ''https://forgejo.local/gentoo-stage3.git'',
       pj_targets = [\<lparr>pt_name = ''mipsel'', pt_command = ''emerge -e world'', pt_system = ''gentoo'', pt_arch = ''mipsel''\<rparr>]\<rparr>,
      \<lparr>pj_name = ''openwrt-image'', pj_repo = ''https://forgejo.local/openwrt-image.git'',
       pj_targets = [\<lparr>pt_name = ''arm64'', pt_command = ''make world'', pt_system = ''openwrt'', pt_arch = ''arm64''\<rparr>]\<rparr>,
      \<lparr>pj_name = ''buildroot-rootfs'', pj_repo = ''https://forgejo.local/buildroot-rootfs.git'',
       pj_targets = [\<lparr>pt_name = ''arm64'', pt_command = ''make'', pt_system = ''buildroot'', pt_arch = ''arm64''\<rparr>]\<rparr>]"

definition stepsFor :: "string \<Rightarrow> string \<Rightarrow> build_step list" where
  "stepsFor project targetName =
     (let q = (\<lambda>s. project @ '':'' @ targetName @ '':'' @ s);
          mk = (\<lambda>s command deps. \<lparr>st_name = q s, st_command = command, st_deps = map q deps\<rparr>)
      in [mk ''fetch'' ''git clone --depth 1'' [],
          mk ''toolchain'' ''btc --verify golden-image'' [''fetch''],
          mk ''configure'' ''./configure --prefix=/usr'' [''toolchain''],
          mk ''compile'' ''make -j$(nproc)'' [''configure''],
          mk ''test'' ''make check'' [''compile''],
          mk ''package'' ''make package'' [''compile'', ''test''],
          mk ''stamp'' ''btc --stamp outputs'' [''package'']])"

section \<open>What the scheduler promises\<close>

text \<open>\<open>best\<close> is the first position of the greatest score among the nodes that are not offline.\<close>

definition first_best :: "(string, node_policy) jmap \<Rightarrow> node_state list \<Rightarrow> nat \<Rightarrow> bool" where
  "first_best policy states i \<longleftrightarrow> i < length states \<and> nd_state (states ! i) \<noteq> Offline \<and>
     (\<forall>j < length states. nd_state (states ! j) \<noteq> Offline \<longrightarrow>
        node_score policy (states ! j) \<le> node_score policy (states ! i) \<and>
        (j < i \<longrightarrow> node_score policy (states ! j) < node_score policy (states ! i)))"

lemma fst_visit_node:
  "fst (visit_node policy acc s) =
     (if nd_state s = Offline then fst acc
      else case fst acc of
             None \<Rightarrow> Some (scored_node policy s, node_score policy s)
           | Some (b, m) \<Rightarrow> if node_score policy s > m then Some (scored_node policy s, node_score policy s)
                            else Some (b, m))"
  by (simp add: visit_node_def scored_node_def Let_def split: option.split)

lemma first_bestD:
  assumes "first_best policy states i"
  shows "j < length states \<Longrightarrow> nd_state (states ! j) \<noteq> Offline \<Longrightarrow>
      node_score policy (states ! j) \<le> node_score policy (states ! i)" and "i < length states"
  using assms by (simp_all add: first_best_def)

lemma first_best_offline:
  assumes "nd_state s = Offline" and "first_best policy states i"
  shows "first_best policy (states @ [s]) i" "(states @ [s]) ! i = states ! i"
  using assms unfolding first_best_def by (auto simp: nth_append less_Suc_eq)

lemma visit_spec:
  "case fst (foldl (visit_node policy) (None, []) states) of
     None \<Rightarrow> list_all (\<lambda>s. nd_state s = Offline) states
   | Some (b, m) \<Rightarrow> \<exists>i. first_best policy states i \<and> b = scored_node policy (states ! i) \<and>
       m = node_score policy (states ! i)"
proof (induction states rule: rev_induct)
  case (snoc s states)
  let ?r = "foldl (visit_node policy) (None, []) states"
  have nth: "(states @ [s]) ! j = (if j < length states then states ! j else s)" if "j < Suc (length states)" for j
    using that by (auto simp: nth_append less_Suc_eq)
  show ?case
  proof (cases "nd_state s = Offline")
    case True
    then have same: "fst (foldl (visit_node policy) (None, []) (states @ [s])) = fst ?r"
      by (simp add: fst_visit_node)
    show ?thesis
    proof (cases "fst ?r")
      case None
      with same snoc True show ?thesis by simp
    next
      case (Some p)
      obtain b m where p: "p = (b, m)" by fastforce
      with snoc Some obtain i where "first_best policy states i" "b = scored_node policy (states ! i)"
        "m = node_score policy (states ! i)" by auto
      with first_best_offline [OF True] same Some p show ?thesis by (auto intro!: exI [of _ i])
    qed
  next
    case False
    show ?thesis
    proof (cases "fst ?r")
      case None
      with snoc have off: "\<forall>j < length states. nd_state (states ! j) = Offline" by (simp add: list_all_length)
      with None False show ?thesis
        by (auto simp: fst_visit_node first_best_def nth intro!: exI [of _ "length states"])
    next
      case (Some p)
      obtain b m where p: "p = (b, m)" by fastforce
      with snoc Some obtain i where i: "first_best policy states i" "b = scored_node policy (states ! i)"
        "m = node_score policy (states ! i)" by auto
      show ?thesis
      proof (cases "node_score policy s > m")
        case True
        have "first_best policy (states @ [s]) (length states)"
          using i True False unfolding first_best_def
          by (fastforce simp: nth_append less_Suc_eq)
        with True False Some p show ?thesis
          by (auto simp: fst_visit_node intro!: exI [of _ "length states"])
      next
        case le: False
        have "first_best policy (states @ [s]) i"
          using i le False unfolding first_best_def by (auto simp: nth_append less_Suc_eq)
        with le False Some p i show ?thesis
          by (auto simp: fst_visit_node nth_append first_best_def intro!: exI [of _ i])
      qed
    qed
  qed
qed simp

text \<open>The scheduler sends an action to the best node: unless every node is offline, the chosen
  node is online or degraded, no other such node has a greater score, and of equal scores the
  first listed wins. Choosing changes no node except for its displayed score.\<close>

theorem scheduler_picks_best:
  assumes "chooseBestNode states policy = Some (states', name, score, reason, scores)"
  shows "(list_all (\<lambda>s. nd_state s = Offline) states \<longrightarrow> name = nd_name (hd states)) \<and>
    (\<not> list_all (\<lambda>s. nd_state s = Offline) states \<longrightarrow>
       (\<exists>i. first_best policy states i \<and> name = nd_name (states ! i) \<and>
          score = Some (round1 (round1 (node_score policy (states ! i)))))) \<and>
    map (nd_score_update (\<lambda>_. None)) states' = map (nd_score_update (\<lambda>_. None)) states"
proof -
  obtain first rest where st: "states = first # rest" using assms by (cases states) (simp_all add: chooseBestNode_def)
  let ?r = "foldl (visit_node policy) (None, []) states"
  have res: "states' = map (scored_node policy) states"
    "name = nd_name (case fst ?r of Some (b, _) \<Rightarrow> b | None \<Rightarrow> first)"
    "score = map_option round1 (nd_score (case fst ?r of Some (b, _) \<Rightarrow> b | None \<Rightarrow> first))"
    using assms by (auto simp: chooseBestNode_def st Let_def case_prod_unfold)
  have "map (nd_score_update (\<lambda>_. None)) states' = map (nd_score_update (\<lambda>_. None)) states"
    unfolding res(1) by (simp add: scored_node_def)
  moreover note spec = visit_spec [where policy = policy and states = states]
  show ?thesis
  proof (cases "fst ?r")
    case None
    with spec res st calculation show ?thesis by simp
  next
    case (Some p)
    obtain b m where p: "p = (b, m)" by fastforce
    with spec Some obtain i where i: "first_best policy states i" "b = scored_node policy (states ! i)" by auto
    then have on: "nd_state (states ! i) \<noteq> Offline" "\<not> list_all (\<lambda>s. nd_state s = Offline) states"
      by (auto simp: first_best_def list_all_length)
    with i res Some p calculation show ?thesis
      by (auto simp: scored_node_def intro!: exI [of _ i])
  qed
qed

definition demo_node :: "string \<Rightarrow> rat \<Rightarrow> node_state" where
  "demo_node name cpu =
     \<lparr>nd_name = name, nd_state = Online, nd_cpu = cpu, nd_memory = 30, nd_temp = 45, nd_active = 0,
      nd_max = 4, nd_instability = 0, nd_host = ''h'', nd_runtime = ''host'', nd_arch = ''x86_64'',
      nd_score = None\<rparr>"

theorem scheduler_picks_best_witness:
  "\<exists>r. chooseBestNode [demo_node ''a'' 50, demo_node ''b'' 20] [] = Some r \<and> fst (snd r) = ''b''"
proof -
  let ?ns = "[demo_node ''a'' 50, demo_node ''b'' 20]"
  obtain st name score reason scores where r: "chooseBestNode ?ns [] = Some (st, name, score, reason, scores)"
    by (simp add: chooseBestNode_def Let_def case_prod_unfold)
  have "\<not> list_all (\<lambda>s. nd_state s = Offline) ?ns" by (simp add: demo_node_def)
  with scheduler_picks_best [OF r] obtain i where i: "first_best [] ?ns i" "name = nd_name (?ns ! i)" by blast
  have "node_score [] (?ns ! 0) < node_score [] (?ns ! 1)" by (simp add: node_score_def demo_node_def)
  moreover have "nd_state (?ns ! 1) \<noteq> Offline" by (simp add: demo_node_def)
  then have "node_score [] (?ns ! 1) \<le> node_score [] (?ns ! i)"
    by (intro first_bestD(1) [OF i(1)]) simp_all
  moreover have "i < 2" using first_bestD(2) [OF i(1)] by simp
  ultimately have "i = 1" by (cases "i = 0") auto
  with i(2) have "name = ''b''" by (simp add: demo_node_def)
  with r show ?thesis by simp
qed

end
