(* ===== verification/FesterEngine.thy ===== *)
theory FesterEngine
  imports FesterScheduler
begin

text \<open>
  The build engine, \<open>web/mini-services/fester/engine.ts\<close>: a run of actions in dependency waves with
  scheduling, the content-addressed cache, retries, cancellation and the debugger's pause, resume
  and step.

  The code is concurrent: the actions of a wave run as coroutines of one thread. Each stretch of
  code between two awaits is one step, and a program counter per action says where it waits. The
  cache key (SHA-256 over the action) is the argument \<open>hash\<close>; \<open>Date.now()\<close> is an argument of the
  steps that read it. Events are kept as type, action and state.

  An \<open>engine\<close> here is one run with the node registry and the cache as it sees them. The code shares both
  among all runs; \<open>FesterFarm\<close> puts the steps of several runs over one registry and one cache.
\<close>

section \<open>State\<close>

datatype act_state = Pending | Scheduled | Running | Retry | Done | Failed | Skipped | Cancelled

record action_node =
  an_name :: string
  an_command :: string
  an_deps :: "string list"
  an_state :: act_state
  an_node :: "string option"
  an_score :: "rat option"
  an_reason :: "string option"
  an_cacheHit :: bool
  an_startedAt :: "int option"
  an_endedAt :: "int option"
  an_durationMs :: "int option"
  an_attempts :: "nat option"
  an_failScheduled :: bool

datatype run_state = RQueued | RRunning | RSucceeded | RFailed | RCancelled

type_synonym actions = "(string, action_node) jmap"

record build_run =
  br_buildId :: string
  br_project :: string
  br_targets :: "string list"
  br_state :: run_state
  br_actions :: actions
  br_critical :: "int option"
  br_startedAt :: int
  br_finishedAt :: "int option"
  br_cancel :: bool
  br_paused :: bool
  br_stepMode :: bool
  br_retries :: nat
  br_waiters :: "(string \<times> nat) list"
  br_tickets :: nat
  br_passes :: "(string, nat) jmap"

text \<open>Where an action's coroutine waits: at a gate it has passed, blocked at a gate, woken to look
  again, or in one of the sleeps. The chosen node, the attempt and its first start are its locals.\<close>

datatype pc =
    Passed1 | Blocked1 | Woken1
  | CacheWait string
  | Passed2 string nat int | Blocked2 string nat int | Woken2 string nat int
  | Working string nat int
  | Backoff string nat int
  | Stamping string
  | Over

datatype phase = Wave "string list" | Ended

record engine =
  eg_run :: build_run
  eg_nodes :: node_registry
  eg_cas :: "(string, string) jmap"
  eg_pcs :: "(string, pc) jmap"
  eg_phase :: phase
  eg_events :: "(string \<times> string option \<times> string) list"

record engine_opts =
  op_noCache :: bool
  op_hash :: "string \<times> string \<times> string list \<Rightarrow> string"
  op_policy :: "(string, node_policy) jmap"

definition TOTAL_GATES :: nat where "TOTAL_GATES = 2"

definition emit :: "engine \<Rightarrow> string \<Rightarrow> string option \<Rightarrow> string \<Rightarrow> engine" where
  "emit e ty a st = e\<lparr>eg_events := eg_events e @ [(ty, a, st)]\<rparr>"

definition upd_action :: "engine \<Rightarrow> string \<Rightarrow> (action_node \<Rightarrow> action_node) \<Rightarrow> engine" where
  "upd_action e a f = e\<lparr>eg_run := (eg_run e)\<lparr>br_actions := jm_modify (br_actions (eg_run e)) a f\<rparr>\<rparr>"

definition set_pc :: "engine \<Rightarrow> string \<Rightarrow> pc \<Rightarrow> engine" where
  "set_pc e a p = e\<lparr>eg_pcs := jm_set (eg_pcs e) a p\<rparr>"

definition set_run :: "engine \<Rightarrow> build_run \<Rightarrow> engine" where
  "set_run e r = e\<lparr>eg_run := r\<rparr>"

section \<open>Gates and the debugger\<close>

text \<open>The body of \<open>gate()\<close> up to its return or its wait.\<close>

definition gate_body :: "build_run \<Rightarrow> string \<Rightarrow> nat \<Rightarrow> build_run \<times> bool" where
  "gate_body r a g =
     (if \<not> br_paused r then (r, True)
      else let pass = (case jm_get (br_passes r) a of None \<Rightarrow> 0 | Some n \<Rightarrow> n)
           in if pass > 0 then (r\<lparr>br_passes := jm_set (br_passes r) a (pass - 1)\<rparr>, True)
              else if br_tickets r > 0 then
                (r\<lparr>br_tickets := br_tickets r - 1, br_passes := jm_set (br_passes r) a (TOTAL_GATES - g)\<rparr>, True)
              else (r\<lparr>br_waiters := br_waiters r @ [(a, g)]\<rparr>, False))"

definition enter_gate1 :: "engine \<Rightarrow> string \<Rightarrow> engine" where
  "enter_gate1 e a =
     (let (r, ok) = gate_body (eg_run e) a 1
      in set_pc (set_run e r) a (if ok then Passed1 else Blocked1))"

definition enter_gate2 :: "engine \<Rightarrow> string \<Rightarrow> string \<Rightarrow> nat \<Rightarrow> int \<Rightarrow> engine" where
  "enter_gate2 e a node attempt first =
     (let (r, ok) = gate_body (eg_run e) a 2
      in set_pc (set_run e r) a (if ok then Passed2 node attempt first else Blocked2 node attempt first))"

fun woken :: "pc \<Rightarrow> pc" where
  "woken Blocked1 = Woken1"
| "woken (Blocked2 n k f) = Woken2 n k f"
| "woken p = p"

definition wake :: "engine \<Rightarrow> string \<Rightarrow> engine" where
  "wake e a = e\<lparr>eg_pcs := jm_modify (eg_pcs e) a woken\<rparr>"

definition releaseGates :: "engine \<Rightarrow> engine" where
  "releaseGates e =
     foldl wake (set_run e ((eg_run e)\<lparr>br_paused := False, br_stepMode := False, br_tickets := 0,
                               br_passes := [], br_waiters := []\<rparr>))
       (map fst (br_waiters (eg_run e)))"

definition cancelBuild :: "engine \<Rightarrow> engine \<times> bool" where
  "cancelBuild e =
     (if br_state (eg_run e) \<noteq> RRunning then (e, False)
      else (releaseGates (set_run e ((eg_run e)\<lparr>br_cancel := True\<rparr>)), True))"

definition dbg_pause :: "engine \<Rightarrow> engine" where
  "dbg_pause e = emit (set_run e ((eg_run e)\<lparr>br_paused := True, br_stepMode := False, br_tickets := 0,
     br_passes := []\<rparr>)) ''debug'' None ''paused''"

definition dbg_resume :: "engine \<Rightarrow> engine" where
  "dbg_resume e = emit (releaseGates e) ''debug'' None ''resumed''"

definition dbg_step :: "engine \<Rightarrow> engine" where
  "dbg_step e =
     (let r = (eg_run e)\<lparr>br_stepMode := True\<rparr>
      in emit (case br_waiters r of
            (a, g) # rest \<Rightarrow>
              wake (set_run e (r\<lparr>br_waiters := rest,
                br_passes := jm_set (br_passes r) a
                  ((case jm_get (br_passes r) a of None \<Rightarrow> 0 | Some n \<Rightarrow> n) + (TOTAL_GATES - g + 1))\<rparr>)) a
          | [] \<Rightarrow> set_run e (r\<lparr>br_tickets := br_tickets r + 1\<rparr>)) ''debug'' None ''step'')"

section \<open>One action\<close>

definition claim_node :: "node_registry \<Rightarrow> string \<Rightarrow> node_registry" where
  "claim_node m n = jm_modify m n (\<lambda>s. s\<lparr>nd_active := nd_active s + 1\<rparr>)"

definition free_node :: "node_registry \<Rightarrow> string \<Rightarrow> node_registry" where
  "free_node m n = jm_modify m n (\<lambda>s. s\<lparr>nd_active := max 0 (nd_active s - 1)\<rparr>)"

definition round3 :: "rat \<Rightarrow> rat" where
  "round3 x = of_int (js_round (x * 1000)) / 1000"

definition bumpInstability :: "node_registry \<Rightarrow> string \<Rightarrow> rat \<Rightarrow> node_registry" where
  "bumpInstability m n delta =
     jm_modify m n (\<lambda>s. s\<lparr>nd_instability := round3
       (if delta > 0 then min 2 (nd_instability s + delta)
        else max 0 (nd_instability s + delta * nd_instability s))\<rparr>)"

definition set_nodes :: "engine \<Rightarrow> node_registry \<Rightarrow> engine" where
  "set_nodes e m = e\<lparr>eg_nodes := m\<rparr>"

definition cas_key :: "engine_opts \<Rightarrow> action_node \<Rightarrow> string" where
  "cas_key opts a = op_hash opts (an_name a, an_command a, an_deps a)"

definition action_cancelled :: "engine \<Rightarrow> string \<Rightarrow> string \<Rightarrow> engine" where
  "action_cancelled e a n =
     (let e1 = upd_action e a (an_state_update (\<lambda>_. Cancelled));
          e2 = set_nodes e1 (free_node (eg_nodes e1) n)
      in set_pc (emit e2 ''task_update'' (Some a) ''cancelled'') a Over)"

definition act :: "engine \<Rightarrow> string \<Rightarrow> action_node option" where
  "act e a = jm_get (br_actions (eg_run e)) a"

text \<open>After gate 1: schedule, then the cache or the first attempt's gate.\<close>

definition after_gate1 :: "engine_opts \<Rightarrow> engine \<Rightarrow> string \<Rightarrow> int \<Rightarrow> engine" where
  "after_gate1 opts e a now =
     (if br_cancel (eg_run e) then set_pc e a Over
      else case chooseBestNode (jm_values (eg_nodes e)) (op_policy opts) of
        None \<Rightarrow> e
      | Some (states, node, score, reason, scores) \<Rightarrow>
          (let e1 = set_nodes e (claim_node (zip (map fst (eg_nodes e)) states) node);
               e2 = upd_action e1 a (\<lambda>x. x\<lparr>an_node := Some node, an_score := score,
                      an_reason := Some reason, an_state := Scheduled\<rparr>);
               e3 = emit e2 ''task_update'' (Some a) ''scheduled''
           in if \<not> op_noCache opts \<and>
                 (case act e a of None \<Rightarrow> False | Some x \<Rightarrow> jm_has (eg_cas e3) (cas_key opts x))
              then set_pc e3 a (CacheWait node)
              else enter_gate2 e3 a node 1 now))"

definition after_cache :: "engine \<Rightarrow> string \<Rightarrow> string \<Rightarrow> int \<Rightarrow> engine" where
  "after_cache e a n now =
     (if br_cancel (eg_run e) then action_cancelled e a n
      else
        (let e1 = upd_action e a (\<lambda>x. x\<lparr>an_cacheHit := True, an_state := Done, an_durationMs := Some 150,
                    an_endedAt := Some now, an_attempts := Some 1\<rparr>);
             e2 = set_nodes e1 (free_node (eg_nodes e1) n);
             e3 = emit (emit e2 ''cache_update'' (Some a) ''hit'') ''task_update'' (Some a) ''done''
         in set_pc e3 a Over))"

definition after_gate2 :: "engine \<Rightarrow> string \<Rightarrow> string \<Rightarrow> nat \<Rightarrow> int \<Rightarrow> int \<Rightarrow> engine" where
  "after_gate2 e a n attempt first now =
     (if br_cancel (eg_run e) then action_cancelled e a n
      else
        (let e1 = upd_action e a (\<lambda>x. x\<lparr>an_state := Running, an_startedAt := Some now\<rparr>)
         in set_pc (emit e1 ''task_update'' (Some a) ''running'') a (Working n attempt first)))"

definition after_work :: "engine_opts \<Rightarrow> engine \<Rightarrow> string \<Rightarrow> string \<Rightarrow> nat \<Rightarrow> int \<Rightarrow> int \<Rightarrow> engine" where
  "after_work opts e a n attempt first now =
     (if br_cancel (eg_run e) then action_cancelled e a n
      else
        (let maxAttempts = 1 + br_retries (eg_run e);
             fails = (case act e a of None \<Rightarrow> False | Some x \<Rightarrow> an_failScheduled x);
             e1 = upd_action e a (an_endedAt_update (\<lambda>_. Some now))
         in if fails \<and> attempt < maxAttempts then
              (let e2 = upd_action e1 a (an_state_update (\<lambda>_. Retry))
               in set_pc (emit e2 ''task_update'' (Some a) ''retry'') a (Backoff n attempt first))
            else
              (let e2 = upd_action e1 a (\<lambda>x. x\<lparr>an_durationMs := Some (now - first), an_attempts := Some attempt\<rparr>)
               in if fails then
                    (let e3 = upd_action e2 a (an_state_update (\<lambda>_. Failed));
                         e4 = set_nodes e3 (bumpInstability (free_node (eg_nodes e3) n) n (1 / 4))
                     in set_pc (emit e4 ''failure'' (Some a) ''failed'') a Over)
                  else
                    (let e3 = upd_action e2 a (an_state_update (\<lambda>_. Done));
                         key = (case act e a of None \<Rightarrow> [] | Some x \<Rightarrow> cas_key opts x);
                         e4 = e3\<lparr>eg_cas := jm_set (eg_cas e3) key (br_buildId (eg_run e3))\<rparr>;
                         e5 = set_nodes e4 (bumpInstability (free_node (eg_nodes e4) n) n (- 1 / 20))
                     in set_pc (emit e5 ''task_update'' (Some a) ''done'') a (Stamping n)))))"

definition after_stamp :: "engine \<Rightarrow> string \<Rightarrow> engine" where
  "after_stamp e a = set_pc (emit e ''btc_stamp'' (Some a) ''stamped'') a Over"

text \<open>The next stretch of an action's coroutine; a blocked or finished one has none.\<close>

definition advance :: "engine_opts \<Rightarrow> engine \<Rightarrow> string \<Rightarrow> int \<Rightarrow> engine" where
  "advance opts e a now =
     (case jm_get (eg_pcs e) a of
        None \<Rightarrow> e
      | Some p \<Rightarrow>
          (case p of
             Passed1 \<Rightarrow> after_gate1 opts e a now
           | Blocked1 \<Rightarrow> e
           | Woken1 \<Rightarrow> enter_gate1 e a
           | CacheWait n \<Rightarrow> after_cache e a n now
           | Passed2 n k f \<Rightarrow> after_gate2 e a n k f now
           | Blocked2 n k f \<Rightarrow> e
           | Woken2 n k f \<Rightarrow> enter_gate2 e a n k f
           | Working n k f \<Rightarrow> after_work opts e a n k f now
           | Backoff n k f \<Rightarrow> enter_gate2 e a n (k + 1) f
           | Stamping n \<Rightarrow> after_stamp e a
           | Over \<Rightarrow> e))"

section \<open>Waves\<close>

definition dep_state :: "actions \<Rightarrow> string \<Rightarrow> act_state option" where
  "dep_state m d = map_option an_state (jm_get m d)"

definition deps_ok :: "actions \<Rightarrow> action_node \<Rightarrow> bool" where
  "deps_ok m a = list_all (\<lambda>d. dep_state m d = Some Done) (an_deps a)"

definition dep_failed :: "actions \<Rightarrow> action_node \<Rightarrow> bool" where
  "dep_failed m a = list_ex (\<lambda>d. dep_state m d \<in> {Some Failed, Some Cancelled, Some Skipped}) (an_deps a)"

text \<open>\<open>readyActions\<close>: one pass over the actions in insertion order, skipping those downstream of a
  failure as it goes and collecting those whose dependencies are done.\<close>

definition ready_visit :: "actions \<times> string list \<times> string list \<Rightarrow> string \<Rightarrow> actions \<times> string list \<times> string list" where
  "ready_visit acc k =
     (case acc of (m, wave, skipped) \<Rightarrow>
        (case jm_get m k of
           None \<Rightarrow> acc
         | Some a \<Rightarrow>
             if an_state a \<noteq> Pending then acc
             else if dep_failed m a then (jm_modify m k (an_state_update (\<lambda>_. Skipped)), wave, skipped @ [k])
             else if deps_ok m a then (m, wave @ [k], skipped)
             else acc))"

definition readyActions :: "engine \<Rightarrow> engine \<times> string list" where
  "readyActions e =
     (let (m, wave, skipped) = foldl ready_visit (br_actions (eg_run e), [], []) (map fst (br_actions (eg_run e)))
      in (foldl (\<lambda>e k. emit e ''task_update'' (Some k) ''skipped'')
            (set_run e ((eg_run e)\<lparr>br_actions := m\<rparr>)) skipped, wave))"

text \<open>The longest chain of durations. \<open>path\<close> recurses along the dependencies with a memo; the fuel
  bounds its depth, which on an acyclic graph never passes the number of actions.\<close>

fun crit_path :: "nat \<Rightarrow> actions \<Rightarrow> (string, int) jmap \<Rightarrow> string \<Rightarrow> ((string, int) jmap \<times> int) option"
and crit_deps :: "nat \<Rightarrow> actions \<Rightarrow> (string, int) jmap \<Rightarrow> int \<Rightarrow> string list \<Rightarrow> ((string, int) jmap \<times> int) option" where
  "crit_path 0 m memo k = None"
| "crit_path (Suc n) m memo k =
     (case jm_get memo k of
        Some v \<Rightarrow> Some (memo, v)
      | None \<Rightarrow>
          (case jm_get m k of
             None \<Rightarrow> Some (memo, 0)
           | Some a \<Rightarrow>
               (case crit_deps n m memo 0 (an_deps a) of
                  None \<Rightarrow> None
                | Some (memo1, depMax) \<Rightarrow>
                    (let v = depMax + (case an_durationMs a of None \<Rightarrow> 0 | Some d \<Rightarrow> d)
                     in Some (jm_set memo1 k v, v)))))"
| "crit_deps n m memo mx [] = Some (memo, mx)"
| "crit_deps n m memo mx (d # ds) =
     (case crit_path n m memo d of
        None \<Rightarrow> None
      | Some (memo1, v) \<Rightarrow> crit_deps n m memo1 (max mx v) ds)"

definition computeCriticalPath :: "actions \<Rightarrow> int option" where
  "computeCriticalPath m = map_option snd (crit_deps (Suc (length m)) m [] 0 (map fst m))"

text \<open>What is left of a cancelled build: pending actions never started get their event here.\<close>

definition wind_down :: "engine \<Rightarrow> engine" where
  "wind_down e =
     (let m = br_actions (eg_run e);
          pending = map fst (filter (\<lambda>(k, a). an_state a = Pending) m)
      in foldl (\<lambda>e k. emit e ''task_update'' (Some k) ''cancelled'')
           (set_run e ((eg_run e)\<lparr>br_actions := map (\<lambda>(k, a).
              (k, if an_state a \<in> {Pending, Scheduled, Running} then a\<lparr>an_state := Cancelled\<rparr> else a)) m\<rparr>))
           pending)"

definition run_outcome :: "actions \<Rightarrow> run_state" where
  "run_outcome m =
     (if list_ex (\<lambda>a. an_state a = Cancelled) (jm_values m) then RCancelled
      else if list_ex (\<lambda>a. an_state a = Failed) (jm_values m) then RFailed
      else RSucceeded)"

fun run_state_str :: "run_state \<Rightarrow> string" where
  "run_state_str RQueued = ''queued''"
| "run_state_str RRunning = ''running''"
| "run_state_str RSucceeded = ''succeeded''"
| "run_state_str RFailed = ''failed''"
| "run_state_str RCancelled = ''cancelled''"

text \<open>The end of \<open>executeRun\<close>; an endless critical path is an exception there, and the run then keeps
  its state for ever.\<close>

definition finish_run :: "engine \<Rightarrow> int \<Rightarrow> engine" where
  "finish_run e now =
     (let e1 = (if br_cancel (eg_run e) then wind_down e else e);
          m = br_actions (eg_run e1);
          e2 = e1\<lparr>eg_phase := Ended\<rparr>
      in case computeCriticalPath m of
           None \<Rightarrow> set_run e2 ((eg_run e2)\<lparr>br_finishedAt := Some now\<rparr>)
         | Some cp \<Rightarrow>
             emit (set_run e2 ((eg_run e2)\<lparr>br_finishedAt := Some now, br_critical := Some cp,
                     br_state := run_outcome m\<rparr>))
               ''pipeline_update'' None (run_state_str (run_outcome m)))"

text \<open>One turn of the wave loop: the coroutines of a wave all run up to their first wait.\<close>

definition wave_loop :: "engine \<Rightarrow> int \<Rightarrow> engine" where
  "wave_loop e now =
     (if br_cancel (eg_run e) then finish_run e now
      else let (e1, wave) = readyActions e
           in if wave = [] then finish_run e1 now
              else foldl enter_gate1 (e1\<lparr>eg_phase := Wave wave\<rparr>) wave)"

definition wave_over :: "engine \<Rightarrow> bool" where
  "wave_over e \<longleftrightarrow>
     (case eg_phase e of Ended \<Rightarrow> False | Wave ws \<Rightarrow> list_all (\<lambda>a. jm_get (eg_pcs e) a = Some Over) ws)"

definition next_wave :: "engine \<Rightarrow> int \<Rightarrow> engine" where
  "next_wave e now = (if wave_over e then wave_loop e now else e)"

text \<open>\<open>startBuild\<close>: the actions of every target, then the first turn of the loop. \<open>Math.trunc\<close> and the
  clamp make the retry budget 0 to 3.\<close>

definition step_action :: "string option \<Rightarrow> build_step \<Rightarrow> action_node" where
  "step_action failAction s =
     \<lparr>an_name = st_name s, an_command = st_command s, an_deps = st_deps s, an_state = Pending,
      an_node = None, an_score = None, an_reason = None, an_cacheHit = False, an_startedAt = None,
      an_endedAt = None, an_durationMs = None, an_attempts = None,
      an_failScheduled = (failAction = Some (st_name s))\<rparr>"

definition build_actions :: "string \<Rightarrow> string list \<Rightarrow> string option \<Rightarrow> actions" where
  "build_actions project targets failAction =
     foldl (\<lambda>m s. jm_set m (st_name s) (step_action failAction s)) []
       (concat (map (stepsFor project) targets))"

definition retry_budget :: "rat option \<Rightarrow> nat" where
  "retry_budget x = nat (max 0 (min 3 (case x of None \<Rightarrow> 0 | Some r \<Rightarrow> if r \<ge> 0 then \<lfloor>r\<rfloor> else \<lceil>r\<rceil>)))"

definition new_run :: "string \<Rightarrow> string \<Rightarrow> string list \<Rightarrow> string option \<Rightarrow> rat option \<Rightarrow> int \<Rightarrow> build_run" where
  "new_run buildId project targets failAction retries now =
     \<lparr>br_buildId = buildId, br_project = project, br_targets = targets, br_state = RRunning,
      br_actions = build_actions project targets failAction, br_critical = None, br_startedAt = now,
      br_finishedAt = None, br_cancel = False, br_paused = False, br_stepMode = False,
      br_retries = retry_budget retries, br_waiters = [], br_tickets = 0, br_passes = []\<rparr>"

definition startBuild ::
    "node_registry \<Rightarrow> (string, string) jmap \<Rightarrow> string \<Rightarrow> string \<Rightarrow> string list \<Rightarrow> string option \<Rightarrow>
     rat option \<Rightarrow> int \<Rightarrow> engine" where
  "startBuild nodes cas buildId project targets failAction retries now =
     wave_loop \<lparr>eg_run = new_run buildId project targets failAction retries now, eg_nodes = nodes,
       eg_cas = cas, eg_pcs = [], eg_phase = Wave [],
       eg_events = [(''pipeline_update'', None, ''queued''), (''pipeline_update'', None, ''running'')]\<rparr> now"

section \<open>A build as a state machine\<close>

datatype engine_event =
    Advance string int
  | NextWave int
  | Cancel
  | Pause
  | Resume
  | Step

fun engine_step :: "engine_opts \<Rightarrow> engine \<Rightarrow> engine_event \<Rightarrow> engine" where
  "engine_step opts e (Advance a now) = advance opts e a now"
| "engine_step opts e (NextWave now) = next_wave e now"
| "engine_step opts e Cancel = fst (cancelBuild e)"
| "engine_step opts e Pause = dbg_pause e"
| "engine_step opts e Resume = dbg_resume e"
| "engine_step opts e Step = dbg_step e"

definition engine_run :: "engine_opts \<Rightarrow> engine \<Rightarrow> engine_event list \<Rightarrow> engine" where
  "engine_run opts = foldl (engine_step opts)"

section \<open>The effect of one stretch\<close>

lemmas engine_defs = emit_def upd_action_def set_pc_def set_run_def set_nodes_def

text \<open>The moves a stretch may make, in the control state (program counter and action state) of the
  one action it belongs to; the flag says whether the build is being cancelled.\<close>

fun at_gate1 :: "pc \<Rightarrow> bool" where
  "at_gate1 Passed1 = True" | "at_gate1 Blocked1 = True" | "at_gate1 Woken1 = True" | "at_gate1 _ = False"

fun at_gate2 :: "pc \<Rightarrow> (string \<times> nat) option" where
  "at_gate2 (Passed2 n k f) = Some (n, k)" | "at_gate2 (Blocked2 n k f) = Some (n, k)"
| "at_gate2 (Woken2 n k f) = Some (n, k)" | "at_gate2 _ = None"

inductive move :: "bool \<Rightarrow> nat \<Rightarrow> bool \<Rightarrow> pc \<times> act_state \<Rightarrow> pc \<times> act_state \<Rightarrow> bool" for c r fl where
  stay: "move c r fl (p, s) (p, s)"
| regate1: "at_gate1 p \<Longrightarrow> p \<noteq> Passed1 \<Longrightarrow> at_gate1 p' \<Longrightarrow> move c r fl (p, s) (p', s)"
| regate2: "at_gate2 p = Some (n, k) \<Longrightarrow> (\<forall>f. p \<noteq> Passed2 n k f) \<Longrightarrow> at_gate2 p' = Some (n, k) \<Longrightarrow> move c r fl (p, s) (p', s)"
| drop1: "c \<Longrightarrow> move c r fl (Passed1, s) (Over, s)"
| cached: "\<not> c \<Longrightarrow> move c r fl (Passed1, s) (CacheWait n, Scheduled)"
| scheduled: "\<not> c \<Longrightarrow> at_gate2 p' = Some (n, 1) \<Longrightarrow> move c r fl (Passed1, s) (p', Scheduled)"
| hit: "\<not> c \<Longrightarrow> move c r fl (CacheWait n, s) (Over, Done)"
| drop_cache: "c \<Longrightarrow> move c r fl (CacheWait n, s) (Over, Cancelled)"
| started: "\<not> c \<Longrightarrow> move c r fl (Passed2 n k f, s) (Working n k f, Running)"
| drop2: "c \<Longrightarrow> move c r fl (Passed2 n k f, s) (Over, Cancelled)"
| drop_work: "c \<Longrightarrow> move c r fl (Working n k f, s) (Over, Cancelled)"
| retried: "\<not> c \<Longrightarrow> fl \<Longrightarrow> k < 1 + r \<Longrightarrow> move c r fl (Working n k f, s) (Backoff n k f, Retry)"
| failed: "\<not> c \<Longrightarrow> fl \<Longrightarrow> \<not> k < 1 + r \<Longrightarrow> move c r fl (Working n k f, s) (Over, Failed)"
| finished: "\<not> c \<Longrightarrow> \<not> fl \<Longrightarrow> move c r fl (Working n k f, s) (Stamping n, Done)"
| backed: "at_gate2 p' = Some (n, k + 1) \<Longrightarrow> move c r fl (Backoff n k f, s) (p', s)"
| stamped: "move c r fl (Stamping n, s) (Over, s)"

text \<open>What of the build a stretch of action \<open>a\<close> may touch.\<close>

definition touches :: "engine \<Rightarrow> string \<Rightarrow> engine \<Rightarrow> bool" where
  "touches e a e' \<longleftrightarrow>
     map fst (br_actions (eg_run e')) = map fst (br_actions (eg_run e)) \<and>
     (\<forall>k. k \<noteq> a \<longrightarrow> jm_get (br_actions (eg_run e')) k = jm_get (br_actions (eg_run e)) k \<and>
        jm_get (eg_pcs e') k = jm_get (eg_pcs e) k) \<and>
     br_cancel (eg_run e') = br_cancel (eg_run e) \<and> br_retries (eg_run e') = br_retries (eg_run e) \<and>
     br_state (eg_run e') = br_state (eg_run e) \<and> eg_phase e' = eg_phase e"

lemma gate_body_frame:
  assumes "gate_body r a g = (r', ok)"
  shows "br_actions r' = br_actions r" "br_cancel r' = br_cancel r" "br_retries r' = br_retries r"
    "br_state r' = br_state r"
  using assms by (auto simp: gate_body_def Let_def split: if_splits)

lemma enter_gate1_effect:
  "touches e a (enter_gate1 e a) \<and> act (enter_gate1 e a) a = act e a \<and>
     (\<exists>p. jm_get (eg_pcs (enter_gate1 e a)) a = Some p \<and> at_gate1 p)"
proof -
  obtain r ok where g: "gate_body (eg_run e) a 1 = (r, ok)" by fastforce
  from gate_body_frame [OF g] g show ?thesis
    by (simp add: enter_gate1_def engine_defs touches_def act_def)
qed

lemma enter_gate2_effect:
  "touches e a (enter_gate2 e a n k f) \<and> act (enter_gate2 e a n k f) a = act e a \<and>
     (\<exists>p. jm_get (eg_pcs (enter_gate2 e a n k f)) a = Some p \<and> at_gate2 p = Some (n, k))"
proof -
  obtain r ok where g: "gate_body (eg_run e) a 2 = (r, ok)" by fastforce
  from gate_body_frame [OF g] g show ?thesis
    by (simp add: enter_gate2_def engine_defs touches_def act_def)
qed

lemma touches_trans: "touches e a e1 \<Longrightarrow> touches e1 a e2 \<Longrightarrow> touches e a e2"
  by (simp add: touches_def)

definition moves :: "engine \<Rightarrow> string \<Rightarrow> engine \<Rightarrow> bool" where
  "moves e a e' \<longleftrightarrow> touches e a e' \<and>
     (\<exists>p x p' x'. jm_get (eg_pcs e) a = Some p \<and> act e a = Some x \<and>
        jm_get (eg_pcs e') a = Some p' \<and> act e' a = Some x' \<and>
        an_deps x' = an_deps x \<and> an_failScheduled x' = an_failScheduled x \<and>
        move (br_cancel (eg_run e)) (br_retries (eg_run e)) (an_failScheduled x)
          (p, an_state x) (p', an_state x'))"

lemma moves_refl: "jm_get (eg_pcs e) a = Some p \<Longrightarrow> act e a = Some x \<Longrightarrow> moves e a e"
  by (auto simp: moves_def touches_def intro: move.stay)

lemma cancelled_moves:
  assumes "jm_get (eg_pcs e) a = Some p" and "act e a = Some x" and "br_cancel (eg_run e)"
    and "(\<exists>n. p = CacheWait n) \<or> (\<exists>n k f. p = Passed2 n k f \<or> p = Working n k f)"
  shows "moves e a (action_cancelled e a n)"
  using assms
  by (auto simp: moves_def touches_def action_cancelled_def engine_defs act_def Let_def intro: move.intros)

lemma after_gate1_moves:
  assumes "jm_get (eg_pcs e) a = Some Passed1" and "act e a = Some x"
  shows "moves e a (after_gate1 opts e a now)"
proof (cases "br_cancel (eg_run e)")
  case True
  with assms show ?thesis
    by (auto simp: after_gate1_def moves_def touches_def engine_defs act_def intro: move.intros)
next
  case False
  show ?thesis
  proof (cases "chooseBestNode (jm_values (eg_nodes e)) (op_policy opts)")
    case None
    with False assms show ?thesis by (simp add: after_gate1_def moves_refl)
  next
    case (Some d)
    obtain states node score reason scores where d: "d = (states, node, score, reason, scores)"
      by (cases d) auto
    define e3 where "e3 = emit (upd_action (set_nodes e (claim_node (zip (map fst (eg_nodes e)) states) node)) a
      (\<lambda>x. x\<lparr>an_node := Some node, an_score := score, an_reason := Some reason, an_state := Scheduled\<rparr>))
      ''task_update'' (Some a) ''scheduled''"
    have t3: "touches e a e3"
      by (simp add: touches_def e3_def engine_defs)
    have a3: "act e3 a = Some (x\<lparr>an_node := Some node, an_score := score, an_reason := Some reason, an_state := Scheduled\<rparr>)"
      using assms(2) by (simp add: e3_def engine_defs act_def)
    have run: "after_gate1 opts e a now =
        (if \<not> op_noCache opts \<and> jm_has (eg_cas e3) (cas_key opts x) then set_pc e3 a (CacheWait node)
         else enter_gate2 e3 a node 1 now)"
      using False Some d assms(2) by (simp add: after_gate1_def e3_def Let_def)
    show ?thesis
    proof (cases "\<not> op_noCache opts \<and> jm_has (eg_cas e3) (cas_key opts x)")
      case True
      have eq: "after_gate1 opts e a now = set_pc e3 a (CacheWait node)" using run True by simp
      show ?thesis
        unfolding eq moves_def using t3 a3 assms False
        by (auto simp: touches_def engine_defs act_def intro: move.cached)
    next
      case nc: False
      have eq: "after_gate1 opts e a now = enter_gate2 e3 a node 1 now" using run nc by (simp only: if_False)
      obtain p where p: "jm_get (eg_pcs (enter_gate2 e3 a node 1 now)) a = Some p" "at_gate2 p = Some (node, 1)"
        using enter_gate2_effect [of e3 a node 1 now] by blast
      show ?thesis
        unfolding eq moves_def
        using touches_trans [OF t3] enter_gate2_effect [of e3 a node 1 now] a3 p assms False
        by (auto intro: move.scheduled)
    qed
  qed
qed

lemma advance_moves:
  assumes "jm_get (eg_pcs e) a = Some p" and "act e a = Some x"
  shows "moves e a (advance opts e a now)"
proof (cases p)
  case Passed1
  with assms show ?thesis by (simp add: advance_def after_gate1_moves)
next
  case Woken1
  with assms enter_gate1_effect [of e a] show ?thesis
    by (auto simp: advance_def moves_def intro!: move.regate1)
next
  case (CacheWait n)
  show ?thesis
  proof (cases "br_cancel (eg_run e)")
    case True
    with CacheWait assms show ?thesis by (simp add: advance_def after_cache_def cancelled_moves)
  next
    case False
    with CacheWait assms show ?thesis
      by (auto simp: advance_def after_cache_def moves_def touches_def engine_defs act_def Let_def intro: move.hit)
  qed
next
  case (Passed2 n k f)
  show ?thesis
  proof (cases "br_cancel (eg_run e)")
    case True
    with Passed2 assms show ?thesis by (simp add: advance_def after_gate2_def cancelled_moves)
  next
    case False
    with Passed2 assms show ?thesis
      by (auto simp: advance_def after_gate2_def moves_def touches_def engine_defs act_def Let_def intro: move.started)
  qed
next
  case (Woken2 n k f)
  with assms enter_gate2_effect [of e a n k f] show ?thesis
    by (auto simp: advance_def moves_def intro!: move.regate2)
next
  case (Working n k f)
  show ?thesis
  proof (cases "br_cancel (eg_run e)")
    case True
    with Working assms show ?thesis by (simp add: advance_def after_work_def cancelled_moves)
  next
    case False
    have m: "moves e a (after_work opts e a n k f now)"
    proof (cases "an_failScheduled x")
      case True
      with False Working assms show ?thesis
        by (auto simp: after_work_def moves_def touches_def engine_defs act_def Let_def
            intro: move.retried move.failed)
    next
      case fl: False
      with False Working assms show ?thesis
        by (auto simp: after_work_def moves_def touches_def engine_defs act_def Let_def intro: move.finished)
    qed
    with Working assms show ?thesis by (simp add: advance_def)
  qed
next
  case (Backoff n k f)
  with assms enter_gate2_effect [of e a n "k + 1" f] show ?thesis
    by (auto simp: advance_def moves_def intro!: move.backed)
next
  case (Stamping n)
  with assms show ?thesis
    by (auto simp: advance_def after_stamp_def moves_def touches_def engine_defs act_def intro: move.stamped)
qed (use assms in \<open>simp_all add: advance_def moves_refl\<close>)

section \<open>The pass over the actions\<close>

text \<open>What a pass does to the map: some pending actions become skipped.\<close>

definition skips :: "actions \<Rightarrow> actions \<Rightarrow> bool" where
  "skips m m' \<longleftrightarrow> map fst m' = map fst m \<and>
     (\<forall>k. jm_get m' k = jm_get m k \<or>
        (\<exists>a. jm_get m k = Some a \<and> an_state a = Pending \<and> jm_get m' k = Some (a\<lparr>an_state := Skipped\<rparr>) \<and>
             dep_failed m' a))"

lemma skips_cases:
  assumes "skips m m'"
  obtains "jm_get m' k = jm_get m k"
  | a where "jm_get m k = Some a" "an_state a = Pending" "jm_get m' k = Some (a\<lparr>an_state := Skipped\<rparr>)"
      "dep_failed m' a"
  using assms unfolding skips_def by blast

lemma skips_Done: "skips m m' \<Longrightarrow> dep_state m' d = Some Done \<longleftrightarrow> dep_state m d = Some Done"
  by (erule skips_cases [where k = d]) (auto simp: dep_state_def)

lemma skips_failed:
  "skips m m' \<Longrightarrow> dep_state m d \<in> {Some Failed, Some Cancelled, Some Skipped} \<Longrightarrow>
     dep_state m' d \<in> {Some Failed, Some Cancelled, Some Skipped}"
  by (erule skips_cases [where k = d]) (auto simp: dep_state_def)

lemma skips_deps_ok: "skips m m' \<Longrightarrow> deps_ok m' a = deps_ok m a"
  by (simp add: deps_ok_def skips_Done)

lemma skips_dep_failed: "skips m m' \<Longrightarrow> dep_failed m a \<Longrightarrow> dep_failed m' a"
  using skips_failed unfolding dep_failed_def list_ex_iff by blast

lemma skips_refl: "skips m m"
  by (simp add: skips_def)

lemma ready_fold:
  assumes "foldl ready_visit (m, [], []) ks = (m', wave, sk)" and "distinct ks"
  shows "skips m m' \<and> set wave \<subseteq> set ks \<and> distinct wave \<and>
    (\<forall>k. k \<notin> set ks \<longrightarrow> jm_get m' k = jm_get m k) \<and>
    (\<forall>k \<in> set wave. \<exists>a. jm_get m' k = Some a \<and> an_state a = Pending \<and> deps_ok m' a)"
  using assms
proof (induction ks arbitrary: m' wave sk rule: rev_induct)
  case Nil
  then show ?case by (simp add: skips_refl)
next
  case (snoc k ks)
  obtain m1 w1 s1 where f: "foldl ready_visit (m, [], []) ks = (m1, w1, s1)"
    by (cases "foldl ready_visit (m, [], []) ks") auto
  with snoc have IH: "skips m m1" "set w1 \<subseteq> set ks" "distinct w1" "\<forall>k. k \<notin> set ks \<longrightarrow> jm_get m1 k = jm_get m k"
    "\<forall>k \<in> set w1. \<exists>a. jm_get m1 k = Some a \<and> an_state a = Pending \<and> deps_ok m1 a"
    by auto
  have k: "k \<notin> set ks" "k \<notin> set w1" using snoc.prems(2) IH(2) by auto
  from snoc.prems(1) f have v: "ready_visit (m1, w1, s1) k = (m', wave, sk)" by simp
  consider (same) "m' = m1" "wave = w1"
    | (skip) a where "jm_get m1 k = Some a" "an_state a = Pending" "dep_failed m1 a"
        "m' = jm_modify m1 k (an_state_update (\<lambda>_. Skipped))" "wave = w1"
    | (add) a where "jm_get m1 k = Some a" "an_state a = Pending" "deps_ok m1 a" "m' = m1" "wave = w1 @ [k]"
    using v by (auto simp: ready_visit_def split: option.splits if_splits)
  then show ?case
  proof cases
    case same
    with IH show ?thesis by auto
  next
    case (skip a)
    have m'k: "jm_get m' j = (if j = k then Some (a\<lparr>an_state := Skipped\<rparr>) else jm_get m1 j)" for j
      using skip by simp
    have dm: "dep_state m' d = (if d = k then Some Skipped else dep_state m1 d)" for d
      by (simp add: dep_state_def m'k)
    have s1: "skips m1 m'"
      unfolding skips_def
    proof (intro conjI allI)
      show "map fst m' = map fst m1" using skip by simp
      have "dep_failed m' a"
        using skip(3) unfolding dep_failed_def list_ex_iff by (auto simp: dm)
      then show "jm_get m' j = jm_get m1 j \<or>
          (\<exists>a. jm_get m1 j = Some a \<and> an_state a = Pending \<and> jm_get m' j = Some (a\<lparr>an_state := Skipped\<rparr>) \<and> dep_failed m' a)" for j
        using m'k skip by auto
    qed
    have "skips m m'"
      unfolding skips_def
    proof (intro conjI allI)
      show "map fst m' = map fst m" using IH(1) skip by (simp add: skips_def)
      show "jm_get m' j = jm_get m j \<or>
          (\<exists>a. jm_get m j = Some a \<and> an_state a = Pending \<and> jm_get m' j = Some (a\<lparr>an_state := Skipped\<rparr>) \<and> dep_failed m' a)" for j
      proof (cases "j = k")
        case True
        with IH(4) k(1) s1 skip m'k show ?thesis unfolding skips_def by metis
      next
        case False
        with IH(1) m'k skips_dep_failed [OF s1] show ?thesis unfolding skips_def by metis
      qed
    qed
    moreover have "\<exists>a. jm_get m' j = Some a \<and> an_state a = Pending \<and> deps_ok m' a" if "j \<in> set w1" for j
      using IH(5) that k(2) m'k skips_deps_ok [OF s1] by metis
    ultimately show ?thesis using IH skip m'k by auto
  next
    case (add a)
    with IH k show ?thesis by auto
  qed
qed

section \<open>The invariant\<close>

text \<open>Which states an action may be in where its coroutine is; without one it has not started.\<close>

definition ctl_ok :: "bool \<Rightarrow> pc option \<Rightarrow> act_state \<Rightarrow> bool" where
  "ctl_ok c p s =
     (case p of
        None \<Rightarrow> s = Pending \<or> s = Skipped
      | Some p \<Rightarrow>
          (if at_gate1 p then s = Pending
           else case at_gate2 p of
             Some (n, k) \<Rightarrow> k \<ge> 1 \<and> s = (if k = 1 then Scheduled else Retry)
           | None \<Rightarrow>
               (case p of
                  CacheWait n \<Rightarrow> s = Scheduled
                | Working n k f \<Rightarrow> k \<ge> 1 \<and> s = Running
                | Backoff n k f \<Rightarrow> k \<ge> 1 \<and> s = Retry
                | Stamping n \<Rightarrow> s = Done
                | _ \<Rightarrow> s = Done \<or> s = Failed \<or> c \<and> (s = Cancelled \<or> s = Pending))))"

lemma gates_disjoint [simp]: "at_gate2 p = Some x \<Longrightarrow> \<not> at_gate1 p"
  by (cases p) auto

lemma gate1_not2 [simp]: "at_gate1 p \<Longrightarrow> at_gate2 p = None"
  by (cases p) auto

lemma move_ctl:
  assumes "move c r fl (p, s) (p', s')" and "ctl_ok c (Some p) s"
  shows "ctl_ok c (Some p') s' \<and> (s = Done \<longleftrightarrow> s' = Done \<and> (\<forall>n. p \<noteq> CacheWait n) \<and> (\<forall>n k f. p \<noteq> Working n k f)) \<and>
    (p = Over \<longrightarrow> p' = Over \<and> s' = s)"
  using assms by (cases rule: move.cases) (auto simp: ctl_ok_def split: if_splits)

text \<open>The same facts in the shape the invariant uses.\<close>

lemma move_keeps:
  assumes "move c r fl (p, s) (p', s')" and "ctl_ok c (Some p) s"
  shows "ctl_ok c (Some p') s'" "s = Done \<Longrightarrow> s' = Done" "p = Over \<Longrightarrow> p' = Over" "p = Over \<Longrightarrow> s' = s"
  using move_ctl [OF assms] by auto

definition started_ok :: "engine \<Rightarrow> bool" where
  "started_ok e \<longleftrightarrow> (\<forall>k p. jm_get (eg_pcs e) k = Some p \<longrightarrow>
     (\<exists>x. act e k = Some x \<and> (an_state x \<noteq> Cancelled \<longrightarrow> deps_ok (br_actions (eg_run e)) x)))"

definition eng_inv :: "engine \<Rightarrow> bool" where
  "eng_inv e \<longleftrightarrow> jm_ok (br_actions (eg_run e)) \<and> started_ok e \<and>
     (case eg_phase e of
        Wave ws \<Rightarrow>
          (\<forall>k x. act e k = Some x \<longrightarrow> ctl_ok (br_cancel (eg_run e)) (jm_get (eg_pcs e) k) (an_state x)) \<and>
          (\<forall>k p. jm_get (eg_pcs e) k = Some p \<and> p \<noteq> Over \<longrightarrow> k \<in> set ws)
      | Ended \<Rightarrow>
          (\<forall>k p. jm_get (eg_pcs e) k = Some p \<longrightarrow> p = Over) \<and>
          (\<forall>k x. act e k = Some x \<and> jm_get (eg_pcs e) k = None \<longrightarrow> an_state x \<in> {Pending, Skipped, Cancelled}))"

lemma eng_inv_wave:
  assumes "eng_inv e" and "eg_phase e = Wave ws"
  shows "act e k = Some x \<Longrightarrow> ctl_ok (br_cancel (eg_run e)) (jm_get (eg_pcs e) k) (an_state x)"
    and "jm_get (eg_pcs e) k = Some p \<Longrightarrow> p \<noteq> Over \<Longrightarrow> k \<in> set ws"
  using assms by (simp_all add: eng_inv_def)

lemma eng_inv_ended:
  assumes "eng_inv e" and "eg_phase e = Ended"
  shows "jm_get (eg_pcs e) k = Some p \<Longrightarrow> p = Over"
    and "act e k = Some x \<Longrightarrow> jm_get (eg_pcs e) k = None \<Longrightarrow> an_state x \<in> {Pending, Skipped, Cancelled}"
  using assms by (simp_all add: eng_inv_def)

lemma ctl_ok_mono: "ctl_ok c p s \<Longrightarrow> (c \<Longrightarrow> c') \<Longrightarrow> ctl_ok c' p s"
  unfolding ctl_ok_def by (auto split: option.splits pc.splits if_splits)

text \<open>A started action keeps its finished dependencies when no action leaves \<^term>\<open>Done\<close>.\<close>

lemma deps_ok_mono:
  assumes "\<And>d. dep_state m d = Some Done \<Longrightarrow> dep_state m' d = Some Done" and "deps_ok m x"
    and "an_deps x' = an_deps x"
  shows "deps_ok m' x'"
  using assms by (simp add: deps_ok_def list_all_iff)

lemma started_ok_step:
  assumes "started_ok e" and "jm_get (eg_pcs e) a = Some p" and "act e a = Some x" and "act e' a = Some x'"
    and "an_deps x' = an_deps x" and "an_state x = Cancelled \<Longrightarrow> an_state x' = Cancelled"
    and "an_state x = Done \<Longrightarrow> an_state x' = Done"
    and other: "\<And>k. k \<noteq> a \<Longrightarrow> act e' k = act e k" "\<And>k. k \<noteq> a \<Longrightarrow> jm_get (eg_pcs e') k = jm_get (eg_pcs e) k"
  shows "started_ok e'"
proof -
  have done_keep: "dep_state (br_actions (eg_run e)) d = Some Done \<Longrightarrow> dep_state (br_actions (eg_run e')) d = Some Done" for d
    using assms(3,4,7) other(1) [of d] by (cases "d = a") (auto simp: dep_state_def act_def)
  note mono = deps_ok_mono [where m = "br_actions (eg_run e)" and m' = "br_actions (eg_run e')", OF done_keep]
  show ?thesis
    unfolding started_ok_def
  proof (intro allI impI)
    fix k q
    assume q: "jm_get (eg_pcs e') k = Some q"
    show "\<exists>x. act e' k = Some x \<and> (an_state x \<noteq> Cancelled \<longrightarrow> deps_ok (br_actions (eg_run e')) x)"
    proof (cases "k = a")
      case True
      have "an_state x \<noteq> Cancelled \<Longrightarrow> deps_ok (br_actions (eg_run e)) x"
        using assms(1-3) unfolding started_ok_def by auto
      with True assms(4-6) mono [of x x'] show ?thesis by auto
    next
      case False
      with q other [of k] assms(1) obtain y where
        "act e' k = Some y" "an_state y \<noteq> Cancelled \<longrightarrow> deps_ok (br_actions (eg_run e)) y"
        unfolding started_ok_def by auto
      with mono [of y y] show ?thesis by auto
    qed
  qed
qed

lemma moves_inv:
  assumes "eng_inv e" and "moves e a e'"
  shows "eng_inv e'"
proof -
  from assms(2) obtain p x p' x' where t: "touches e a e'"
    and px: "jm_get (eg_pcs e) a = Some p" "act e a = Some x"
    and px': "jm_get (eg_pcs e') a = Some p'" "act e' a = Some x'" "an_deps x' = an_deps x"
    and mv: "move (br_cancel (eg_run e)) (br_retries (eg_run e)) (an_failScheduled x)
      (p, an_state x) (p', an_state x')"
    unfolding moves_def by blast
  have other: "k \<noteq> a \<Longrightarrow> act e' k = act e k" "k \<noteq> a \<Longrightarrow> jm_get (eg_pcs e') k = jm_get (eg_pcs e) k" for k
    using t by (simp_all add: touches_def act_def)
  have frame: "br_cancel (eg_run e') = br_cancel (eg_run e)" "eg_phase e' = eg_phase e"
    "map fst (br_actions (eg_run e')) = map fst (br_actions (eg_run e))"
    using t by (simp_all add: touches_def)
  show ?thesis
  proof (cases "eg_phase e")
    case (Wave ws)
    have ctl: "ctl_ok (br_cancel (eg_run e)) (Some p) (an_state x)"
      using eng_inv_wave(1) [OF assms(1) Wave px(2)] px(1) by simp
    note keep = move_keeps [OF mv ctl]
    have "an_state x = Cancelled \<Longrightarrow> an_state x' = Cancelled"
      using ctl keep(4) by (cases p) (auto simp: ctl_ok_def split: if_splits)
    then have "started_ok e'"
      using assms(1) px px' keep(2) other by (intro started_ok_step [of e a p x e' x']) (simp_all add: eng_inv_def)
    moreover have "ctl_ok (br_cancel (eg_run e')) (jm_get (eg_pcs e') k) (an_state y)" if "act e' k = Some y" for k y
      using that keep(1) px' other [of k] eng_inv_wave(1) [OF assms(1) Wave, of k y] frame
      by (cases "k = a") auto
    moreover have "k \<in> set ws" if "jm_get (eg_pcs e') k = Some q" "q \<noteq> Over" for k q
    proof (cases "k = a")
      case True
      with that px' keep(3) have "p \<noteq> Over" by auto
      with px True eng_inv_wave(2) [OF assms(1) Wave, of a p] show ?thesis by simp
    next
      case False
      with that other [of k] eng_inv_wave(2) [OF assms(1) Wave, of k q] show ?thesis by simp
    qed
    ultimately show ?thesis using assms(1) Wave frame unfolding eng_inv_def by simp
  next
    case Ended
    have p: "p = Over" using eng_inv_ended(1) [OF assms(1) Ended px(1)] .
    have "p' = Over" "an_state x' = an_state x" using mv p by (cases rule: move.cases; simp)+
    have "started_ok e'"
      using assms(1) px px' \<open>an_state x' = an_state x\<close> other
      by (intro started_ok_step [of e a p x e' x']) (simp_all add: eng_inv_def)
    moreover have "q = Over" if "jm_get (eg_pcs e') k = Some q" for k q
      using that px' \<open>p' = Over\<close> other [of k] eng_inv_ended(1) [OF assms(1) Ended, of k q]
      by (cases "k = a") auto
    moreover have "an_state y \<in> {Pending, Skipped, Cancelled}" if "act e' k = Some y" "jm_get (eg_pcs e') k = None" for k y
      using that px' other [of k] eng_inv_ended(2) [OF assms(1) Ended, of k y] by (cases "k = a") auto
    moreover have "jm_ok (br_actions (eg_run e'))" using assms(1) frame by (simp add: eng_inv_def)
    ultimately show ?thesis using Ended frame unfolding eng_inv_def by auto
  qed
qed

end
