(* ===== verification/FesterRuns.thy ===== *)
theory FesterRuns
  imports FesterEngine
begin

text \<open>
  What holds in every state a build can reach: the invariant of \<open>FesterEngine\<close> is kept by the
  debugger, by cancellation and by the turn of the wave loop, and the facts about dependencies,
  finished actions, gates, job slots, outcome and termination follow from it.
\<close>

section \<open>The debugger and cancellation\<close>

lemma woken_simps [simp]:
  "at_gate1 (woken p) = at_gate1 p" "at_gate2 (woken p) = at_gate2 p" "(woken p = Over) = (p = Over)"
  "(Over = woken p) = (p = Over)"
  by (cases p; simp)+

lemma ctl_ok_woken [simp]: "ctl_ok c (Some (woken p)) s = ctl_ok c (Some p) s"
  by (cases p) (simp_all add: ctl_ok_def)

text \<open>Such a step wakes some actions, may raise the cancel flag and leaves the actions alone.\<close>

definition nudged :: "engine \<Rightarrow> engine \<Rightarrow> bool" where
  "nudged e e' \<longleftrightarrow> br_actions (eg_run e') = br_actions (eg_run e) \<and> eg_phase e' = eg_phase e \<and>
     eg_nodes e' = eg_nodes e \<and> br_retries (eg_run e') = br_retries (eg_run e) \<and>
     br_state (eg_run e') = br_state (eg_run e) \<and>
     (br_cancel (eg_run e) \<longrightarrow> br_cancel (eg_run e')) \<and> map fst (eg_pcs e') = map fst (eg_pcs e) \<and>
     (\<forall>k. jm_get (eg_pcs e') k = jm_get (eg_pcs e) k \<or> jm_get (eg_pcs e') k = map_option woken (jm_get (eg_pcs e) k))"

lemma nudged_refl: "nudged e e"
  by (simp add: nudged_def)

lemma woken_woken [simp]: "woken (woken p) = woken p"
  by (cases p) simp_all

lemma nudged_trans:
  assumes "nudged e e1" and "nudged e1 e2"
  shows "nudged e e2"
proof -
  have "jm_get (eg_pcs e2) k = jm_get (eg_pcs e) k \<or> jm_get (eg_pcs e2) k = map_option woken (jm_get (eg_pcs e) k)" for k
  proof -
    have "jm_get (eg_pcs e1) k = jm_get (eg_pcs e) k \<or> jm_get (eg_pcs e1) k = map_option woken (jm_get (eg_pcs e) k)"
      "jm_get (eg_pcs e2) k = jm_get (eg_pcs e1) k \<or> jm_get (eg_pcs e2) k = map_option woken (jm_get (eg_pcs e1) k)"
      using assms by (auto simp: nudged_def)
    then show ?thesis by (cases "jm_get (eg_pcs e) k") auto
  qed
  with assms show ?thesis by (simp add: nudged_def)
qed

lemma wake_nudged: "nudged e (wake e a)"
  by (simp add: nudged_def wake_def)

lemma wakes_nudged: "nudged e (foldl wake e as)"
proof (induction as arbitrary: e)
  case (Cons a as)
  from Cons [of "wake e a"] nudged_trans [OF wake_nudged [of e a]] show ?case by simp
qed (simp add: nudged_refl)

text \<open>The fields of the run a debugger command sets are none of those.\<close>

lemma set_run_nudged:
  "br_actions r = br_actions (eg_run e) \<Longrightarrow> br_retries r = br_retries (eg_run e) \<Longrightarrow>
   br_state r = br_state (eg_run e) \<Longrightarrow> (br_cancel (eg_run e) \<Longrightarrow> br_cancel r) \<Longrightarrow> nudged e (set_run e r)"
  by (simp add: nudged_def set_run_def)

lemma emit_nudged: "nudged e e' \<Longrightarrow> nudged e (emit e' t a s)"
  by (simp add: nudged_def emit_def)

lemma releaseGates_nudged: "nudged e (releaseGates e)"
  unfolding releaseGates_def by (rule nudged_trans [OF set_run_nudged wakes_nudged]) simp_all

lemma cancelBuild_nudged: "nudged e (fst (cancelBuild e))"
  unfolding cancelBuild_def
  by (auto intro: nudged_refl nudged_trans [OF set_run_nudged releaseGates_nudged])

lemma pause_nudged: "nudged e (dbg_pause e)"
  unfolding dbg_pause_def by (rule emit_nudged, rule set_run_nudged) simp_all

lemma resume_nudged: "nudged e (dbg_resume e)"
  unfolding dbg_resume_def by (rule emit_nudged, rule releaseGates_nudged)

lemma step_nudged: "nudged e (dbg_step e)"
proof (cases "br_waiters (eg_run e)")
  case Nil
  then show ?thesis
    by (auto simp: dbg_step_def intro!: emit_nudged set_run_nudged)
next
  case (Cons w ws)
  obtain a g where w: "w = (a, g)" by (cases w)
  let ?r = "(eg_run e)\<lparr>br_stepMode := True, br_waiters := ws, br_passes := jm_set (br_passes (eg_run e)) a
    ((case jm_get (br_passes (eg_run e)) a of None \<Rightarrow> 0 | Some n \<Rightarrow> n) + (TOTAL_GATES - g + 1))\<rparr>"
  have "nudged e (set_run e ?r)" by (rule set_run_nudged) simp_all
  then have "nudged e (wake (set_run e ?r) a)" by (rule nudged_trans [OF _ wake_nudged])
  then show ?thesis
    by (simp add: dbg_step_def Cons w emit_nudged)
qed

lemma nudged_pc: "nudged e e' \<Longrightarrow> jm_get (eg_pcs e') k = Some p' \<Longrightarrow>
    \<exists>p. jm_get (eg_pcs e) k = Some p \<and> (p' = p \<or> p' = woken p)"
  by (cases "jm_get (eg_pcs e) k") (auto simp: nudged_def dest!: spec [of _ k])

lemma nudged_none: "nudged e e' \<Longrightarrow> jm_get (eg_pcs e') k = None \<longleftrightarrow> jm_get (eg_pcs e) k = None"
  by (auto simp: nudged_def dest!: spec [of _ k])

lemma nudged_act: "nudged e e' \<Longrightarrow> act e' k = act e k"
  by (simp add: nudged_def act_def)

lemma nudged_inv:
  assumes "eng_inv e" and "nudged e e'"
  shows "eng_inv e'"
proof -
  note frame = assms(2) [unfolded nudged_def]
  have st: "started_ok e'"
    using assms nudged_pc [OF assms(2)] nudged_act [OF assms(2)] frame
    unfolding started_ok_def eng_inv_def by metis
  show ?thesis
  proof (cases "eg_phase e")
    case (Wave ws)
    have "ctl_ok (br_cancel (eg_run e')) (jm_get (eg_pcs e') k) (an_state x)" if "act e' k = Some x" for k x
    proof -
      have "ctl_ok (br_cancel (eg_run e)) (jm_get (eg_pcs e) k) (an_state x)"
        using eng_inv_wave(1) [OF assms(1) Wave] that nudged_act [OF assms(2)] by simp
      then have "ctl_ok (br_cancel (eg_run e')) (jm_get (eg_pcs e) k) (an_state x)"
        by (rule ctl_ok_mono) (use frame in blast)
      then show ?thesis
        using nudged_none [OF assms(2), of k] nudged_pc [OF assms(2), of k]
        by (cases "jm_get (eg_pcs e) k"; cases "jm_get (eg_pcs e') k") auto
    qed
    moreover have "k \<in> set ws" if p': "jm_get (eg_pcs e') k = Some p'" "p' \<noteq> Over" for k p'
      using nudged_pc [OF assms(2) p'(1)] p'(2) eng_inv_wave(2) [OF assms(1) Wave, of k] by auto
    ultimately show ?thesis using st assms(1) frame Wave unfolding eng_inv_def by simp
  next
    case Ended
    have "p' = Over" if "jm_get (eg_pcs e') k = Some p'" for k p'
      using nudged_pc [OF assms(2) that] eng_inv_ended(1) [OF assms(1) Ended, of k] by auto
    moreover have "an_state x \<in> {Pending, Skipped, Cancelled}" if "act e' k = Some x" "jm_get (eg_pcs e') k = None" for k x
      using that nudged_none [OF assms(2)] nudged_act [OF assms(2)] eng_inv_ended(2) [OF assms(1) Ended] by simp
    ultimately show ?thesis using st assms(1) frame Ended unfolding eng_inv_def by auto
  qed
qed

section \<open>The turn of the wave loop\<close>

lemma emits_frame [simp]:
  "eg_run (foldl (\<lambda>e k. emit e t (f k) s) e ks) = eg_run e"
  "eg_nodes (foldl (\<lambda>e k. emit e t (f k) s) e ks) = eg_nodes e"
  "eg_pcs (foldl (\<lambda>e k. emit e t (f k) s) e ks) = eg_pcs e"
  "eg_phase (foldl (\<lambda>e k. emit e t (f k) s) e ks) = eg_phase e"
  by (induction ks arbitrary: e) (simp_all add: emit_def)

lemma event_frame [simp]:
  "eg_run (emit e t a s) = eg_run e" "eg_nodes (emit e t a s) = eg_nodes e"
  "eg_pcs (emit e t a s) = eg_pcs e" "eg_phase (emit e t a s) = eg_phase e"
  by (simp_all add: emit_def)

lemma set_run_frame [simp]:
  "eg_run (set_run e r) = r" "eg_nodes (set_run e r) = eg_nodes e" "eg_pcs (set_run e r) = eg_pcs e"
  "eg_phase (set_run e r) = eg_phase e"
  by (simp_all add: set_run_def)

lemma enter_gates:
  assumes "distinct ws"
  shows "br_actions (eg_run (foldl enter_gate1 e ws)) = br_actions (eg_run e) \<and>
    br_cancel (eg_run (foldl enter_gate1 e ws)) = br_cancel (eg_run e) \<and>
    br_retries (eg_run (foldl enter_gate1 e ws)) = br_retries (eg_run e) \<and>
    eg_phase (foldl enter_gate1 e ws) = eg_phase e \<and> eg_nodes (foldl enter_gate1 e ws) = eg_nodes e \<and>
    (\<forall>k. k \<notin> set ws \<longrightarrow> jm_get (eg_pcs (foldl enter_gate1 e ws)) k = jm_get (eg_pcs e) k) \<and>
    (\<forall>k \<in> set ws. \<exists>p. jm_get (eg_pcs (foldl enter_gate1 e ws)) k = Some p \<and> at_gate1 p)"
  using assms
proof (induction ws rule: rev_induct)
  case (snoc w ws)
  let ?e = "foldl enter_gate1 e ws"
  obtain r ok where g: "gate_body (eg_run ?e) w 1 = (r, ok)" by fastforce
  have "eg_nodes (enter_gate1 ?e w) = eg_nodes ?e" "br_actions (eg_run (enter_gate1 ?e w)) = br_actions (eg_run ?e)"
    using gate_body_frame [OF g] by (simp_all add: enter_gate1_def g [simplified] engine_defs)
  with snoc enter_gate1_effect [of ?e w] show ?case
    by (auto simp: touches_def)
qed simp

lemma readyActions_effect:
  assumes "readyActions e = (e1, wave)" and "jm_ok (br_actions (eg_run e))"
  shows "skips (br_actions (eg_run e)) (br_actions (eg_run e1))" "distinct wave"
    "eg_pcs e1 = eg_pcs e" "eg_nodes e1 = eg_nodes e" "eg_phase e1 = eg_phase e"
    "br_cancel (eg_run e1) = br_cancel (eg_run e)" "br_retries (eg_run e1) = br_retries (eg_run e)"
    "br_state (eg_run e1) = br_state (eg_run e)"
    "\<And>k. k \<in> set wave \<Longrightarrow> \<exists>a. act e1 k = Some a \<and> an_state a = Pending \<and> deps_ok (br_actions (eg_run e1)) a"
proof -
  obtain m w sk where f: "foldl ready_visit (br_actions (eg_run e), [], []) (map fst (br_actions (eg_run e))) = (m, w, sk)"
    by (cases "foldl ready_visit (br_actions (eg_run e), [], []) (map fst (br_actions (eg_run e)))") auto
  have e1: "e1 = foldl (\<lambda>e k. emit e ''task_update'' (Some k) ''skipped'')
      (set_run e ((eg_run e)\<lparr>br_actions := m\<rparr>)) sk" and w: "wave = w"
    using assms(1) f by (simp_all add: readyActions_def)
  note r = ready_fold [OF f assms(2)]
  show "skips (br_actions (eg_run e)) (br_actions (eg_run e1))" "distinct wave"
    "eg_pcs e1 = eg_pcs e" "eg_nodes e1 = eg_nodes e" "eg_phase e1 = eg_phase e"
    "br_cancel (eg_run e1) = br_cancel (eg_run e)" "br_retries (eg_run e1) = br_retries (eg_run e)"
    "br_state (eg_run e1) = br_state (eg_run e)"
    using r by (simp_all add: e1 w)
  show "\<exists>a. act e1 k = Some a \<and> an_state a = Pending \<and> deps_ok (br_actions (eg_run e1)) a" if "k \<in> set wave" for k
    using r that by (auto simp: e1 w act_def)
qed

text \<open>What a cancelled build leaves behind.\<close>

definition wound :: "action_node \<Rightarrow> action_node" where
  "wound a = (if an_state a \<in> {Pending, Scheduled, Running} then a\<lparr>an_state := Cancelled\<rparr> else a)"

lemma get_map_values: "jm_get (map (\<lambda>(k, a). (k, f a)) m) k = map_option f (jm_get m k)"
  by (induction m) auto

lemma wind_down_actions:
  "br_actions (eg_run (wind_down e)) = map (\<lambda>(k, a). (k, wound a)) (br_actions (eg_run e))"
  unfolding wind_down_def Let_def by (simp add: wound_def [abs_def])

lemma wind_down_effect:
  "act (wind_down e) k = map_option wound (act e k)"
  "map fst (br_actions (eg_run (wind_down e))) = map fst (br_actions (eg_run e))"
  "eg_pcs (wind_down e) = eg_pcs e" "eg_nodes (wind_down e) = eg_nodes e"
  by (simp_all add: act_def wind_down_actions get_map_values)
    (simp_all add: wind_down_def Let_def comp_def case_prod_unfold)

lemma finish_run_effect:
  "act (finish_run e now) k = (if br_cancel (eg_run e) then map_option wound (act e k) else act e k)"
  "map fst (br_actions (eg_run (finish_run e now))) = map fst (br_actions (eg_run e))"
  "eg_pcs (finish_run e now) = eg_pcs e" "eg_nodes (finish_run e now) = eg_nodes e"
  "eg_phase (finish_run e now) = Ended"
  using wind_down_effect [of e]
  by (auto simp: finish_run_def Let_def act_def split: option.splits)

lemma wave_over_all:
  assumes "eng_inv e" and "wave_over e"
  obtains ws where "eg_phase e = Wave ws" "\<And>k p. jm_get (eg_pcs e) k = Some p \<Longrightarrow> p = Over"
proof -
  from assms(2) obtain ws where ws: "eg_phase e = Wave ws" "list_all (\<lambda>a. jm_get (eg_pcs e) a = Some Over) ws"
    by (auto simp: wave_over_def split: phase.splits)
  have "p = Over" if "jm_get (eg_pcs e) k = Some p" for k p
  proof (rule ccontr)
    assume n: "p \<noteq> Over"
    with that eng_inv_wave(2) [OF assms(1) ws(1)] have "k \<in> set ws" by blast
    with ws(2) that n show False by (simp add: list_all_iff)
  qed
  with ws(1) show ?thesis using that by blast
qed

text \<open>Between waves an action with a coroutine is settled, or was dropped by a cancellation.\<close>

lemma over_settled:
  assumes "eng_inv e" and "eg_phase e = Wave ws" and "jm_get (eg_pcs e) k = Some Over" and "act e k = Some x"
  shows "an_state x \<in> {Done, Failed} \<or> br_cancel (eg_run e) \<and> an_state x \<in> {Cancelled, Pending}"
  using eng_inv_wave(1) [OF assms(1,2,4)] assms(3) by (auto simp: ctl_ok_def)

lemma unstarted:
  assumes "eng_inv e" and "eg_phase e = Wave ws" and "jm_get (eg_pcs e) k = None" and "act e k = Some x"
  shows "an_state x = Pending \<or> an_state x = Skipped"
  using eng_inv_wave(1) [OF assms(1,2,4)] assms(3) by (simp add: ctl_ok_def)

lemma wound_simps [simp]: "an_deps (wound a) = an_deps a" "(an_state (wound a) = Done) = (an_state a = Done)"
    "an_failScheduled (wound a) = an_failScheduled a"
  by (simp_all add: wound_def)

lemma eng_inv_endI:
  assumes "jm_ok (br_actions (eg_run e))" and "started_ok e" and "eg_phase e = Ended"
    and "\<And>k p. jm_get (eg_pcs e) k = Some p \<Longrightarrow> p = Over"
    and "\<And>k x. act e k = Some x \<Longrightarrow> jm_get (eg_pcs e) k = None \<Longrightarrow> an_state x \<in> {Pending, Skipped, Cancelled}"
  shows "eng_inv e"
  unfolding eng_inv_def using assms by auto

lemma finish_run_inv:
  assumes "eng_inv e" and ph: "eg_phase e = Wave ws"
    and over: "\<And>k p. jm_get (eg_pcs e) k = Some p \<Longrightarrow> p = Over"
  shows "eng_inv (finish_run e now)"
proof -
  let ?e = "finish_run e now"
  note fin = finish_run_effect [of e now]
  have dep: "dep_state (br_actions (eg_run ?e)) d = Some Done" if "dep_state (br_actions (eg_run e)) d = Some Done" for d
    using that fin(1) [of d] by (auto simp: dep_state_def act_def split: if_splits)
  have "started_ok ?e"
    unfolding started_ok_def
  proof (intro allI impI)
    fix k p
    assume "jm_get (eg_pcs ?e) k = Some p"
    then have p: "jm_get (eg_pcs e) k = Some p" by (simp add: fin)
    then obtain x where x: "act e k = Some x" "an_state x \<noteq> Cancelled \<longrightarrow> deps_ok (br_actions (eg_run e)) x"
      using assms(1) unfolding eng_inv_def started_ok_def by blast
    show "\<exists>x. act ?e k = Some x \<and> (an_state x \<noteq> Cancelled \<longrightarrow> deps_ok (br_actions (eg_run ?e)) x)"
      using x fin(1) [of k] deps_ok_mono [OF dep, where x = x and x' = x] deps_ok_mono [OF dep, where x = x and x' = "wound x"]
      by (auto simp: wound_def)
  qed
  moreover have "an_state y \<in> {Pending, Skipped, Cancelled}" if "act ?e k = Some y" "jm_get (eg_pcs ?e) k = None" for k y
  proof -
    from that fin(1) [of k] obtain x where "act e k = Some x" "y = x \<or> y = wound x" by (auto split: if_splits)
    with unstarted [OF assms(1) ph, of k x] that(2) fin(3) show ?thesis by (auto simp: wound_def)
  qed
  moreover have "jm_ok (br_actions (eg_run ?e))" using assms(1) fin(2) by (simp add: eng_inv_def)
  moreover have "p = Over" if "jm_get (eg_pcs ?e) k = Some p" for k p using over that fin(3) by simp
  ultimately show ?thesis by (intro eng_inv_endI) (use fin(5) in blast)+
qed

lemma wave_loop_inv:
  assumes inv: "eng_inv e" and ph: "eg_phase e = Wave ws"
    and over: "\<And>k p. jm_get (eg_pcs e) k = Some p \<Longrightarrow> p = Over"
  shows "eng_inv (wave_loop e now)"
proof (cases "br_cancel (eg_run e)")
  case True
  with finish_run_inv [OF assms] show ?thesis by (simp add: wave_loop_def)
next
  case False
  have ok: "jm_ok (br_actions (eg_run e))" using inv by (simp add: eng_inv_def)
  obtain e1 wave where ra: "readyActions e = (e1, wave)" by (cases "readyActions e")
  note r = readyActions_effect [OF ra ok]
  let ?m = "br_actions (eg_run e)" and ?m1 = "br_actions (eg_run e1)"
  have ok1: "jm_ok ?m1" using r(1) ok by (simp add: skips_def)
  have same: "act e1 k = act e k" if "jm_get (eg_pcs e) k = Some p" for k p
  proof -
    from that inv obtain x where x: "act e k = Some x" unfolding eng_inv_def started_ok_def by blast
    from over_settled [OF inv ph _ x] over [OF that] that False have "an_state x \<noteq> Pending" by auto
    with r(1) x show ?thesis by (auto elim: skips_cases [where k = k] simp: act_def)
  qed
  have st: "started_ok e1"
    unfolding started_ok_def
  proof (intro allI impI)
    fix k p
    assume "jm_get (eg_pcs e1) k = Some p"
    then have p: "jm_get (eg_pcs e) k = Some p" by (simp add: r)
    then obtain x where "act e k = Some x" "an_state x \<noteq> Cancelled \<longrightarrow> deps_ok ?m x"
      using inv unfolding eng_inv_def started_ok_def by blast
    with same [OF p] skips_deps_ok [OF r(1)]
    show "\<exists>x. act e1 k = Some x \<and> (an_state x \<noteq> Cancelled \<longrightarrow> deps_ok ?m1 x)" by auto
  qed
  have ctl: "ctl_ok False (jm_get (eg_pcs e1) k) (an_state y)" if "act e1 k = Some y" for k y
  proof (cases "jm_get (eg_pcs e) k")
    case None
    from r(1) that obtain x where "act e k = Some x" "y = x \<or> an_state y = Skipped"
      by (auto elim!: skips_cases [where k = k] simp: act_def)
    with unstarted [OF inv ph None, of x] show ?thesis by (auto simp: ctl_ok_def r None)
  next
    case (Some p)
    with same that have "act e k = Some y" by simp
    from eng_inv_wave(1) [OF inv ph this] Some False show ?thesis by (simp add: r)
  qed
  have inv1: "eng_inv e1"
    using st ok1 ctl r ph False over unfolding eng_inv_def by (auto simp: r(3))
  show ?thesis
  proof (cases "wave = []")
    case True
    have "eng_inv (finish_run e1 now)"
      by (rule finish_run_inv [OF inv1]) (use r ph over in auto)
    with False True ra show ?thesis by (simp add: wave_loop_def)
  next
    case w: False
    let ?e0 = "e1\<lparr>eg_phase := Wave wave\<rparr>" and ?e2 = "foldl enter_gate1 (e1\<lparr>eg_phase := Wave wave\<rparr>) wave"
    note g = enter_gates [OF r(2), of ?e0]
    have a2: "act ?e2 k = act e1 k" for k using g by (simp add: act_def)
    have p2: "jm_get (eg_pcs ?e2) k = (if k \<in> set wave then jm_get (eg_pcs ?e2) k else jm_get (eg_pcs e1) k)" for k
      using g by simp
    have "ctl_ok False (jm_get (eg_pcs ?e2) k) (an_state y)" if y: "act ?e2 k = Some y" for k y
    proof (cases "k \<in> set wave")
      case True
      with g obtain p where "jm_get (eg_pcs ?e2) k = Some p" "at_gate1 p" by blast
      with r(9) [OF True] y a2 show ?thesis by (auto simp: ctl_ok_def)
    next
      case nk: False
      with ctl [of k y] y a2 p2 [of k] show ?thesis by simp
    qed
    moreover have "started_ok ?e2"
      unfolding started_ok_def
    proof (intro allI impI)
      fix k p
      assume p: "jm_get (eg_pcs ?e2) k = Some p"
      show "\<exists>x. act ?e2 k = Some x \<and> (an_state x \<noteq> Cancelled \<longrightarrow> deps_ok (br_actions (eg_run ?e2)) x)"
      proof (cases "k \<in> set wave")
        case True
        with r(9) obtain a where "act e1 k = Some a" "deps_ok (br_actions (eg_run e1)) a" by blast
        then show ?thesis using a2 [of k] g by auto
      next
        case False
        with p p2 [of k] have "jm_get (eg_pcs e1) k = Some p" by simp
        with st g a2 show ?thesis unfolding started_ok_def by auto
      qed
    qed
    moreover have "k \<in> set wave" if "jm_get (eg_pcs ?e2) k = Some p" "p \<noteq> Over" for k p
      using that p2 [of k] over r(3) by (auto split: if_splits)
    moreover have "br_cancel (eg_run ?e2) = False" "eg_phase ?e2 = Wave wave" "jm_ok (br_actions (eg_run ?e2))"
      using g r False ok1 by simp_all
    ultimately have "eng_inv ?e2" unfolding eng_inv_def by auto
    with False w ra show ?thesis by (simp add: wave_loop_def)
  qed
qed

section \<open>Reachable states\<close>

lemma advance_cases:
  assumes "eng_inv e"
  obtains "advance opts e a now = e" | "moves e a (advance opts e a now)"
proof (cases "jm_get (eg_pcs e) a")
  case None
  then show ?thesis using that by (simp add: advance_def)
next
  case (Some p)
  then obtain x where "act e a = Some x"
    using assms unfolding eng_inv_def started_ok_def by blast
  with Some show ?thesis using that advance_moves by blast
qed

lemma next_wave_inv:
  assumes "eng_inv e"
  shows "eng_inv (next_wave e now)"
proof (cases "wave_over e")
  case True
  obtain ws where "eg_phase e = Wave ws" "\<And>k p. jm_get (eg_pcs e) k = Some p \<Longrightarrow> p = Over"
    using wave_over_all [OF assms True] by blast
  with wave_loop_inv [OF assms] True show ?thesis by (simp add: next_wave_def)
qed (simp add: next_wave_def assms)

interpretation build: preserved "engine_step opts" eng_inv for opts
proof
  fix e c
  assume inv: "eng_inv e"
  show "eng_inv (engine_step opts e c)"
  proof (cases c)
    case (Advance a now)
    then show ?thesis
      using advance_cases [OF inv, of opts a now] moves_inv [OF inv] inv by (metis engine_step.simps(1))
  qed (use inv nudged_inv [OF inv] next_wave_inv [OF inv] in
    \<open>auto intro: cancelBuild_nudged pause_nudged resume_nudged step_nudged\<close>)
qed

lemma set_steps_pending:
  assumes "jm_ok m" and "\<And>k x. jm_get m k = Some x \<Longrightarrow> an_state x = Pending"
  shows "jm_ok (foldl (\<lambda>m s. jm_set m (st_name s) (step_action f s)) m ss) \<and>
    (\<forall>k x. jm_get (foldl (\<lambda>m s. jm_set m (st_name s) (step_action f s)) m ss) k = Some x \<longrightarrow> an_state x = Pending)"
  using assms
proof (induction ss arbitrary: m)
  case (Cons s ss)
  let ?m = "jm_set m (st_name s) (step_action f s)"
  have "jm_ok ?m" using Cons.prems(1) by simp
  moreover have "an_state x = Pending" if "jm_get ?m k = Some x" for k x
    using that Cons.prems(2) [of k x] by (cases "k = st_name s") (auto simp: step_action_def)
  ultimately show ?case using Cons.IH [of ?m] by simp
qed simp

lemma build_actions_ok:
  "jm_ok (build_actions p ts f)"
  "jm_get (build_actions p ts f) k = Some x \<Longrightarrow> an_state x = Pending"
  unfolding build_actions_def using set_steps_pending [of "[]" f "concat (map (stepsFor p) ts)"] by simp_all

text \<open>The engine before the first turn of the loop.\<close>

definition fresh_engine ::
    "node_registry \<Rightarrow> (string, string) jmap \<Rightarrow> build_run \<Rightarrow> engine" where
  "fresh_engine nodes cas r = \<lparr>eg_run = r, eg_nodes = nodes, eg_cas = cas, eg_pcs = [], eg_phase = Wave [],
     eg_events = [(''pipeline_update'', None, ''queued''), (''pipeline_update'', None, ''running'')]\<rparr>"

lemma startBuild_fresh:
  "startBuild nodes cas b p ts f r now = wave_loop (fresh_engine nodes cas (new_run b p ts f r now)) now"
  by (simp add: startBuild_def fresh_engine_def)

lemma fresh_inv: "eng_inv (fresh_engine nodes cas (new_run b p ts f r now))"
  using build_actions_ok [of p ts f]
  by (auto simp: eng_inv_def fresh_engine_def new_run_def started_ok_def act_def ctl_ok_def)

lemma startBuild_inv: "eng_inv (startBuild nodes cas b p ts f r now)"
  unfolding startBuild_fresh by (rule wave_loop_inv [OF fresh_inv, of _ _ _ _ _ _ _ _ "[]"]) (simp_all add: fresh_engine_def)

lemma reachable_inv: "eng_inv (engine_run opts (startBuild nodes cas b p ts f r now) evs)"
  unfolding engine_run_def by (rule build.run_inv [OF startBuild_inv])

lemma dep_state_Done: "dep_state m d = Some Done \<longleftrightarrow> (\<exists>x. jm_get m d = Some x \<and> an_state x = Done)"
  by (auto simp: dep_state_def)

lemma dependencies_first_facts:
  assumes "eng_inv e" and "act e k = Some x" and "an_state x \<notin> {Pending, Skipped, Cancelled}"
  shows "deps_ok (br_actions (eg_run e)) x"
proof (cases "jm_get (eg_pcs e) k")
  case None
  then show ?thesis
    using assms unstarted [OF assms(1) _ None assms(2)] eng_inv_ended(2) [OF assms(1) _ assms(2) None]
    by (cases "eg_phase e") auto
next
  case (Some p)
  then show ?thesis using assms unfolding eng_inv_def started_ok_def by fastforce
qed

text \<open>C16: Dependencies first: whatever the order in which the coroutines of a build advance and
  whatever the debugger and cancellation do in between, an action that has been scheduled, runs, is
  retried or has finished or failed has every one of its dependencies done.\<close>

theorem dependencies_first:
  assumes "act (engine_run opts (startBuild nodes cas buildId project targets failAction retries now) evs) k = Some x"
    and "an_state x \<notin> {Pending, Skipped, Cancelled}" and "d \<in> set (an_deps x)"
  shows "\<exists>y. act (engine_run opts (startBuild nodes cas buildId project targets failAction retries now) evs) d = Some y \<and>
    an_state y = Done"
  using dependencies_first_facts [OF reachable_inv assms(1,2)] assms(3)
  by (auto simp: deps_ok_def list_all_iff dep_state_Done act_def)

text \<open>A small build for the examples: one target of one project on one node.\<close>

definition demo_opts :: engine_opts where
  "demo_opts = \<lparr>op_noCache = False, op_hash = (\<lambda>(n, c, ds). n), op_policy = []\<rparr>"

definition demo_nodes :: node_registry where
  "demo_nodes = [(''a'', demo_node ''a'' 1)]"

definition demo_start :: "string option \<Rightarrow> rat option \<Rightarrow> engine" where
  "demo_start f r = startBuild demo_nodes [] ''b'' ''p'' [''t''] f r 0"

definition demo_first :: "engine_event list" where
  "demo_first = [Advance ''p:t:fetch'' 1, Advance ''p:t:fetch'' 2, Advance ''p:t:fetch'' 3,
     Advance ''p:t:fetch'' 4, NextWave 5, Advance ''p:t:toolchain'' 6]"

lemma demo_toolchain:
  "map_option (\<lambda>x. (an_state x, an_deps x)) (act (engine_run demo_opts (demo_start None None) demo_first) ''p:t:toolchain'') =
     Some (Scheduled, [''p:t:fetch''])"
  by code_simp

theorem dependencies_first_witness:
  "\<exists>y. act (engine_run demo_opts (demo_start None None) demo_first) ''p:t:fetch'' = Some y \<and> an_state y = Done"
proof -
  obtain x where "act (engine_run demo_opts (demo_start None None) demo_first) ''p:t:toolchain'' = Some x"
    "an_state x = Scheduled" "an_deps x = [''p:t:fetch'']"
    using demo_toolchain by auto
  then show ?thesis unfolding demo_start_def by (intro dependencies_first [of _ _ _ _ _ _ _ _ _ _ _ x]) simp_all
qed

section \<open>Finished actions\<close>

definition settled :: "act_state \<Rightarrow> bool" where
  "settled s \<longleftrightarrow> s = Done \<or> s = Failed \<or> s = Skipped \<or> s = Cancelled"

lemma moves_settled:
  assumes "eng_inv e" and "moves e a e'" and "act e k = Some x" and "settled (an_state x)"
  shows "\<exists>x'. act e' k = Some x' \<and> an_state x' = an_state x"
proof (cases "k = a")
  case False
  with assms(2,3) show ?thesis by (auto simp: moves_def touches_def act_def)
next
  case True
  with assms(2,3) obtain p p' x' where m: "jm_get (eg_pcs e) a = Some p" "act e' a = Some x'"
    "move (br_cancel (eg_run e)) (br_retries (eg_run e)) (an_failScheduled x) (p, an_state x) (p', an_state x')"
    unfolding moves_def by auto
  have "(\<exists>n. p = Stamping n) \<or> p = Over"
  proof (cases "eg_phase e")
    case (Wave ws)
    have "ctl_ok (br_cancel (eg_run e)) (Some p) (an_state x)"
      using eng_inv_wave(1) [OF assms(1) Wave assms(3)] True m(1) by simp
    with assms(4) show ?thesis
      by (cases p) (auto simp: ctl_ok_def settled_def split: if_splits)
  next
    case Ended
    with eng_inv_ended(1) [OF assms(1) Ended m(1)] show ?thesis by simp
  qed
  with m(3) have "an_state x' = an_state x" by (auto elim: move.cases)
  with m(2) True show ?thesis by blast
qed

lemma wound_settled: "settled (an_state x) \<Longrightarrow> an_state (wound x) = an_state x"
  by (auto simp: wound_def settled_def)

lemma wave_loop_settled:
  assumes "jm_ok (br_actions (eg_run e))" and "act e k = Some x" and "settled (an_state x)"
  shows "\<exists>x'. act (wave_loop e now) k = Some x' \<and> an_state x' = an_state x"
proof (cases "br_cancel (eg_run e)")
  case True
  with assms finish_run_effect(1) [of e now k] wound_settled show ?thesis by (auto simp: wave_loop_def)
next
  case False
  obtain e1 wave where ra: "readyActions e = (e1, wave)" by (cases "readyActions e")
  note r = readyActions_effect [OF ra assms(1)]
  have a1: "act e1 k = Some x"
    using r(1) assms(2,3) by (auto elim!: skips_cases [where k = k] simp: act_def settled_def)
  show ?thesis
  proof (cases "wave = []")
    case True
    with False ra a1 r(6) finish_run_effect(1) [of e1 now k] show ?thesis by (simp add: wave_loop_def)
  next
    case w: False
    with False ra a1 enter_gates [OF r(2), of "e1\<lparr>eg_phase := Wave wave\<rparr>"] show ?thesis
      by (simp add: wave_loop_def act_def)
  qed
qed

lemma settled_step:
  assumes "eng_inv e" and "act e k = Some x" and "settled (an_state x)"
  shows "\<exists>x'. act (engine_step opts e c) k = Some x' \<and> an_state x' = an_state x"
proof (cases c)
  case (Advance a now)
  then show ?thesis
    using advance_cases [OF assms(1), of opts a now] moves_settled [OF assms(1) _ assms(2,3)] assms(2)
    by (metis engine_step.simps(1))
next
  case (NextWave now)
  have "jm_ok (br_actions (eg_run e))" using assms(1) by (simp add: eng_inv_def)
  with NextWave wave_loop_settled assms show ?thesis by (simp add: next_wave_def)
qed (use nudged_act [OF cancelBuild_nudged] nudged_act [OF pause_nudged] nudged_act [OF resume_nudged]
    nudged_act [OF step_nudged] assms(2) in simp_all)

section \<open>Attempts\<close>

definition tries_ok :: "nat \<Rightarrow> pc \<Rightarrow> bool" where
  "tries_ok r p =
     (case p of
        Passed2 n k f \<Rightarrow> k \<le> 1 + r | Blocked2 n k f \<Rightarrow> k \<le> 1 + r | Woken2 n k f \<Rightarrow> k \<le> 1 + r
      | Working n k f \<Rightarrow> k \<le> 1 + r | Backoff n k f \<Rightarrow> k < 1 + r | _ \<Rightarrow> True)"

definition all_tries_ok :: "engine \<Rightarrow> bool" where
  "all_tries_ok e \<longleftrightarrow> (\<forall>k p. jm_get (eg_pcs e) k = Some p \<longrightarrow> tries_ok (br_retries (eg_run e)) p)"

lemma tries_gates:
  "at_gate1 p \<Longrightarrow> tries_ok r p" "at_gate2 p = Some (n, k) \<Longrightarrow> tries_ok r p = (k \<le> 1 + r)"
  by (cases p; simp add: tries_ok_def)+

lemma move_tries: "move c r fl (p, s) (p', s') \<Longrightarrow> tries_ok r p \<Longrightarrow> tries_ok r p'"
  by (erule move.cases) (auto simp: tries_gates(2) dest: tries_gates(1), auto simp: tries_ok_def)

lemma moves_tries:
  assumes "all_tries_ok e" and "moves e a e'"
  shows "all_tries_ok e'"
  unfolding all_tries_ok_def
proof (intro allI impI)
  fix k q
  assume q: "jm_get (eg_pcs e') k = Some q"
  show "tries_ok (br_retries (eg_run e')) q"
  proof (cases "k = a")
    case True
    with assms q show ?thesis
      unfolding moves_def touches_def all_tries_ok_def using move_tries by fastforce
  next
    case False
    with assms q show ?thesis unfolding moves_def touches_def all_tries_ok_def by simp
  qed
qed

lemma nudged_tries:
  assumes "all_tries_ok e" and "nudged e e'"
  shows "all_tries_ok e'"
proof -
  have w: "tries_ok r (woken p) = tries_ok r p" for r p by (cases p) (simp_all add: tries_ok_def)
  have "br_retries (eg_run e') = br_retries (eg_run e)" using assms(2) by (simp add: nudged_def)
  with assms(1) nudged_pc [OF assms(2)] w show ?thesis unfolding all_tries_ok_def by fastforce
qed

text \<open>The turn of the loop, as far as the program counters are concerned.\<close>

lemma wave_loop_pcs:
  assumes "jm_ok (br_actions (eg_run e))"
  shows "br_retries (eg_run (wave_loop e now)) = br_retries (eg_run e) \<and> eg_nodes (wave_loop e now) = eg_nodes e \<and>
    (\<forall>k. jm_get (eg_pcs (wave_loop e now)) k = jm_get (eg_pcs e) k \<or>
       (\<exists>p. jm_get (eg_pcs (wave_loop e now)) k = Some p \<and> at_gate1 p))"
proof -
  have fin: "br_retries (eg_run (finish_run e now)) = br_retries (eg_run e)" for e
    by (simp add: finish_run_def Let_def wind_down_def split: option.splits)
  show ?thesis
  proof (cases "br_cancel (eg_run e)")
    case True
    with fin finish_run_effect show ?thesis by (simp add: wave_loop_def)
  next
    case False
    obtain e1 wave where ra: "readyActions e = (e1, wave)" by (cases "readyActions e")
    note r = readyActions_effect [OF ra assms]
    show ?thesis
    proof (cases "wave = []")
      case True
      with False ra r fin finish_run_effect show ?thesis by (simp add: wave_loop_def)
    next
      case w: False
      with False ra r enter_gates [OF r(2), of "e1\<lparr>eg_phase := Wave wave\<rparr>"] show ?thesis
        by (auto simp: wave_loop_def)
    qed
  qed
qed

lemma settled_run:
  assumes "eng_inv e" and "act e k = Some x" and "settled (an_state x)"
  shows "\<exists>x'. act (engine_run opts e evs) k = Some x' \<and> an_state x' = an_state x"
  using assms
proof (induction evs arbitrary: e x)
  case (Cons c evs)
  obtain x' where x': "act (engine_step opts e c) k = Some x'" "an_state x' = an_state x"
    using settled_step [OF Cons.prems] by blast
  have "eng_inv (engine_step opts e c)" using build.step_inv Cons.prems(1) .
  from Cons.IH [OF this x'(1)] x'(2) Cons.prems(3) show ?case by (simp add: engine_run_def)
qed (simp add: engine_run_def)

lemma engine_run_append: "engine_run opts e (evs @ evs') = engine_run opts (engine_run opts e evs) evs'"
  by (simp add: engine_run_def)

text \<open>What is finished stays finished: once an action of a build is done, failed, skipped or
  cancelled, no later step of any coroutine, no debugger command and no cancellation changes its
  state.\<close>

theorem finished_is_final:
  assumes "act (engine_run opts (startBuild nodes cas buildId project targets failAction retries now) evs) k = Some x"
    and "settled (an_state x)"
  shows "\<exists>x'. act (engine_run opts (startBuild nodes cas buildId project targets failAction retries now) (evs @ evs')) k = Some x' \<and>
    an_state x' = an_state x"
  unfolding engine_run_append by (rule settled_run [OF reachable_inv assms])

theorem finished_is_final_witness:
  "\<exists>x'. act (engine_run demo_opts (demo_start None None) (demo_first @ [Cancel, NextWave 9])) ''p:t:fetch'' = Some x' \<and>
    an_state x' = Done"
proof -
  obtain y where y: "act (engine_run demo_opts (demo_start None None) demo_first) ''p:t:fetch'' = Some y" "an_state y = Done"
    using dependencies_first_facts [OF reachable_inv, of demo_opts demo_nodes "[]" "''b''" "''p''" "[''t'']" None None 0 demo_first "''p:t:toolchain''"]
      demo_toolchain
    by (auto simp: deps_ok_def dep_state_Done act_def demo_start_def)
  from finished_is_final [OF y(1) [unfolded demo_start_def]] y(2) show ?thesis
    unfolding demo_start_def by (simp add: settled_def)
qed

section \<open>Gates\<close>

text \<open>The waiters of the gates are exactly the blocked actions, each once, and only a paused build
  blocks any.\<close>

fun blocked_at :: "pc \<Rightarrow> nat option" where
  "blocked_at Blocked1 = Some 1"
| "blocked_at (Blocked2 n k f) = Some 2"
| "blocked_at p = None"

definition gate_inv :: "engine \<Rightarrow> bool" where
  "gate_inv e \<longleftrightarrow> distinct (map fst (br_waiters (eg_run e))) \<and>
     (\<forall>a g. (a, g) \<in> set (br_waiters (eg_run e)) \<longleftrightarrow> Option.bind (jm_get (eg_pcs e) a) blocked_at = Some g) \<and>
     (br_waiters (eg_run e) \<noteq> [] \<longrightarrow> br_paused (eg_run e))"

lemma gate_inv_cong:
  "br_waiters (eg_run e') = br_waiters (eg_run e) \<Longrightarrow> br_paused (eg_run e') = br_paused (eg_run e) \<Longrightarrow>
   eg_pcs e' = eg_pcs e \<Longrightarrow> gate_inv e' = gate_inv e"
  by (simp add: gate_inv_def)

lemma unblocked_notin:
  assumes "gate_inv e" and "Option.bind (jm_get (eg_pcs e) a) blocked_at = None"
  shows "(a, g) \<notin> set (br_waiters (eg_run e))" "a \<notin> fst ` set (br_waiters (eg_run e))"
  using assms by (auto simp: gate_inv_def)

lemma set_pc_gate_inv:
  assumes "gate_inv e" and "Option.bind (jm_get (eg_pcs e) a) blocked_at = None" and "blocked_at p = None"
  shows "gate_inv (set_pc e a p)"
  using assms unblocked_notin [OF assms(1,2)] by (auto simp: gate_inv_def set_pc_def)

lemma block_gate_inv:
  assumes "gate_inv e" and "Option.bind (jm_get (eg_pcs e) a) blocked_at = None"
    and "gate_body (eg_run e) a g = (r, ok)" and "blocked_at p = (if ok then None else Some g)"
  shows "gate_inv (set_pc (set_run e r) a p)"
proof (cases ok)
  case True
  then have "br_waiters r = br_waiters (eg_run e)" "br_paused r = br_paused (eg_run e)"
    using assms(3) by (auto simp: gate_body_def Let_def split: if_splits)
  then have "gate_inv (set_run e r)" using gate_inv_cong [of "set_run e r" e] assms(1) by simp
  with True assms(2,4) show ?thesis by (intro set_pc_gate_inv) simp_all
next
  case False
  with assms(3) have r: "br_waiters r = br_waiters (eg_run e) @ [(a, g)]" "br_paused r"
    by (auto simp: gate_body_def Let_def split: if_splits)
  with False assms(1,4) unblocked_notin [OF assms(1,2)] show ?thesis
    by (auto simp: gate_inv_def set_pc_def)
qed

lemma enter_gate1_inv:
  assumes "gate_inv e" and "Option.bind (jm_get (eg_pcs e) a) blocked_at = None"
  shows "gate_inv (enter_gate1 e a)"
proof -
  obtain r ok where g: "gate_body (eg_run e) a 1 = (r, ok)" by fastforce
  have "gate_inv (set_pc (set_run e r) a (if ok then Passed1 else Blocked1))"
    by (rule block_gate_inv [OF assms g]) simp
  with g show ?thesis by (simp add: enter_gate1_def)
qed

lemma enter_gate2_inv:
  assumes "gate_inv e" and "Option.bind (jm_get (eg_pcs e) a) blocked_at = None"
  shows "gate_inv (enter_gate2 e a n k f)"
proof -
  obtain r ok where g: "gate_body (eg_run e) a 2 = (r, ok)" by fastforce
  have "gate_inv (set_pc (set_run e r) a (if ok then Passed2 n k f else Blocked2 n k f))"
    by (rule block_gate_inv [OF assms g]) simp
  with g show ?thesis by (simp add: enter_gate2_def)
qed

lemma gate_inv_frame [simp]:
  "gate_inv (emit e t b s) = gate_inv e" "gate_inv (upd_action e a h) = gate_inv e"
  "gate_inv (set_nodes e m) = gate_inv e" "gate_inv (e\<lparr>eg_cas := c\<rparr>) = gate_inv e"
  "gate_inv (e\<lparr>eg_phase := ph\<rparr>) = gate_inv e"
  by (rule gate_inv_cong; simp add: engine_defs)+

lemma pcs_frame [simp]:
  "eg_pcs (emit e t b s) = eg_pcs e" "eg_pcs (upd_action e a h) = eg_pcs e" "eg_pcs (set_nodes e m) = eg_pcs e"
  by (simp_all add: engine_defs)

lemma action_cancelled_gate:
  "gate_inv e \<Longrightarrow> Option.bind (jm_get (eg_pcs e) a) blocked_at = None \<Longrightarrow> gate_inv (action_cancelled e a n)"
  by (simp add: action_cancelled_def Let_def set_pc_gate_inv)

lemma after_gate1_gate:
  assumes "gate_inv e" and "Option.bind (jm_get (eg_pcs e) a) blocked_at = None"
  shows "gate_inv (after_gate1 opts e a now)"
  using assms
  by (simp add: after_gate1_def Let_def set_pc_gate_inv enter_gate2_inv split: option.split)

lemma advance_gate:
  assumes "gate_inv e"
  shows "gate_inv (advance opts e a now)"
proof (cases "Option.bind (jm_get (eg_pcs e) a) blocked_at")
  case None
  show ?thesis
  proof (cases "jm_get (eg_pcs e) a")
    case (Some p)
    with assms None show ?thesis
      by (cases p; simp add: advance_def after_gate1_gate enter_gate1_inv enter_gate2_inv
          after_cache_def after_gate2_def after_work_def after_stamp_def action_cancelled_gate
          Let_def set_pc_gate_inv)
  qed (simp add: advance_def assms)
next
  case (Some g)
  then obtain p where "jm_get (eg_pcs e) a = Some p" "blocked_at p = Some g" by (cases "jm_get (eg_pcs e) a") auto
  with assms show ?thesis by (cases p) (simp_all add: advance_def)
qed

lemma blocked_woken [simp]: "blocked_at (woken p) = None"
  by (cases p) simp_all

lemma wakes_pcs:
  "jm_get (eg_pcs (foldl wake e as)) k =
     (if k \<in> set as then map_option woken (jm_get (eg_pcs e) k) else jm_get (eg_pcs e) k)"
proof (induction as arbitrary: e)
  case (Cons a as)
  then show ?case by (cases "jm_get (eg_pcs e) k") (auto simp: wake_def)
qed simp

lemma wakes_run: "eg_run (foldl wake e as) = eg_run e"
  by (induction as arbitrary: e) (simp_all add: wake_def)

lemma releaseGates_gate:
  assumes "gate_inv e"
  shows "gate_inv (releaseGates e)" "br_waiters (eg_run (releaseGates e)) = []" "\<not> br_paused (eg_run (releaseGates e))"
    "Option.bind (jm_get (eg_pcs (releaseGates e)) k) blocked_at = None"
proof -
  have free: "Option.bind (jm_get (eg_pcs (releaseGates e)) k) blocked_at = None" for k
  proof (cases "k \<in> set (map fst (br_waiters (eg_run e)))")
    case True
    then show ?thesis by (cases "jm_get (eg_pcs e) k") (simp_all add: releaseGates_def wakes_pcs)
  next
    case False
    then have "\<forall>g. (k, g) \<notin> set (br_waiters (eg_run e))" by force
    with assms have "\<forall>g. Option.bind (jm_get (eg_pcs e) k) blocked_at \<noteq> Some g" by (simp add: gate_inv_def)
    with False show ?thesis by (simp add: releaseGates_def wakes_pcs)
  qed
  then show "Option.bind (jm_get (eg_pcs (releaseGates e)) k) blocked_at = None" .
  show w: "br_waiters (eg_run (releaseGates e)) = []" "\<not> br_paused (eg_run (releaseGates e))"
    by (simp_all add: releaseGates_def wakes_run)
  with free show "gate_inv (releaseGates e)" by (simp add: gate_inv_def)
qed

lemma dbg_step_gate:
  assumes "gate_inv e"
  shows "gate_inv (dbg_step e)"
proof (cases "br_waiters (eg_run e)")
  case Nil
  then show ?thesis using assms by (simp add: dbg_step_def gate_inv_def)
next
  case (Cons w ws)
  obtain a g where w: "w = (a, g)" by (cases w)
  have "a \<notin> fst ` set ws" using assms Cons w by (simp add: gate_inv_def)
  then have rest: "(k, h) \<in> set ws \<longleftrightarrow> k \<noteq> a \<and> Option.bind (jm_get (eg_pcs e) k) blocked_at = Some h" for k h
    using assms Cons w by (force simp: gate_inv_def)
  have free: "Option.bind (map_option woken (jm_get (eg_pcs e) a)) blocked_at = None"
    by (cases "jm_get (eg_pcs e) a") simp_all
  show ?thesis
    using assms Cons w rest free by (auto simp: dbg_step_def gate_inv_def wake_def)
qed

lemma enter_gates_gate:
  assumes "gate_inv e" and "distinct ws" and "\<And>a. a \<in> set ws \<Longrightarrow> Option.bind (jm_get (eg_pcs e) a) blocked_at = None"
  shows "gate_inv (foldl enter_gate1 e ws)"
  using assms
proof (induction ws rule: rev_induct)
  case (snoc w ws)
  then show ?case using enter_gates [of ws e] by (auto intro!: enter_gate1_inv)
qed simp

lemma emits_gate [simp]: "gate_inv (foldl (\<lambda>e k. emit e t (h k) s) e ks) = gate_inv e"
  by (rule gate_inv_cong) simp_all

lemma finish_run_gate: "gate_inv (finish_run e now) = gate_inv e"
  by (rule gate_inv_cong) (simp_all add: finish_run_def wind_down_def Let_def split: option.splits)

lemma wave_loop_gate:
  assumes "gate_inv e" and "jm_ok (br_actions (eg_run e))"
    and "\<And>k p. jm_get (eg_pcs e) k = Some p \<Longrightarrow> p = Over"
  shows "gate_inv (wave_loop e now)"
proof (cases "br_cancel (eg_run e)")
  case True
  with assms(1) show ?thesis by (simp add: wave_loop_def finish_run_gate)
next
  case False
  obtain e1 wave where ra: "readyActions e = (e1, wave)" by (cases "readyActions e")
  note r = readyActions_effect [OF ra assms(2)]
  have g1: "gate_inv e1"
    using ra assms(1) gate_inv_cong [of e1 e]
    by (auto simp: readyActions_def Let_def split: prod.splits)
  have "Option.bind (jm_get (eg_pcs e1) a) blocked_at = None" for a
    using assms(3) [of a] r(3) by (cases "jm_get (eg_pcs e) a") auto
  with g1 r(2) False ra show ?thesis
    by (auto simp: wave_loop_def finish_run_gate intro!: enter_gates_gate)
qed

section \<open>Job slots\<close>

text \<open>An action holds a slot of its node from the decision to the end of its last attempt.\<close>

fun holds :: "pc \<Rightarrow> string option" where
  "holds (CacheWait n) = Some n"
| "holds (Passed2 n k f) = Some n"
| "holds (Blocked2 n k f) = Some n"
| "holds (Woken2 n k f) = Some n"
| "holds (Working n k f) = Some n"
| "holds (Backoff n k f) = Some n"
| "holds p = None"

definition holders :: "(string, pc) jmap \<Rightarrow> string \<Rightarrow> nat" where
  "holders pcs n = length (filter (\<lambda>(k, p). holds p = Some n) pcs)"

definition active_jobs :: "node_registry \<Rightarrow> string \<Rightarrow> int" where
  "active_jobs m n = (case jm_get m n of None \<Rightarrow> 0 | Some s \<Rightarrow> nd_active s)"

definition nodes_ok :: "node_registry \<Rightarrow> bool" where
  "nodes_ok m \<longleftrightarrow> jm_ok m \<and> list_all (\<lambda>(k, s). nd_name s = k) m"

definition slots :: "(string \<Rightarrow> int) \<Rightarrow> node_registry \<Rightarrow> (string, pc) jmap \<Rightarrow> bool" where
  "slots base m pcs \<longleftrightarrow> nodes_ok m \<and> jm_ok pcs \<and> (\<forall>n. active_jobs m n = base n + int (holders pcs n))"

lemma holders_set:
  "jm_ok pcs \<Longrightarrow> jm_get pcs a = Some p \<Longrightarrow>
   holders (jm_set pcs a q) n + (if holds p = Some n then 1 else 0) = holders pcs n + (if holds q = Some n then 1 else 0)"
  by (induction pcs) (auto simp: holders_def)

lemma holders_new: "jm_get pcs a = None \<Longrightarrow> holds q = None \<Longrightarrow> holders (jm_set pcs a q) n = holders pcs n"
  by (induction pcs) (auto simp: holders_def split: if_splits)

lemma holders_pos: "jm_get pcs a = Some p \<Longrightarrow> holds p = Some n \<Longrightarrow> holders pcs n > 0"
  by (induction pcs) (auto simp: holders_def split: if_splits)

lemma holders_modify: "(\<And>p. holds (h p) = holds p) \<Longrightarrow> holders (jm_modify pcs a h) n = holders pcs n"
  by (induction pcs) (auto simp: holders_def)

lemma holds_woken [simp]: "holds (woken p) = holds p"
  by (cases p) simp_all

lemma nodes_ok_modify: "nodes_ok m \<Longrightarrow> (\<And>s. nd_name (h s) = nd_name s) \<Longrightarrow> nodes_ok (jm_modify m n h)"
  unfolding nodes_ok_def by (intro conjI, simp) (induction m, auto)

lemma slots_keep:
  assumes "slots base m pcs" and "jm_get pcs a = Some p" and "holds q = holds p"
  shows "slots base m (jm_set pcs a q)"
  using assms holders_set [of pcs a p q] by (simp add: slots_def)

lemma slots_new:
  assumes "slots base m pcs" and "jm_get pcs a = None" and "holds q = None"
  shows "slots base m (jm_set pcs a q)"
  using assms holders_new [of pcs a q] by (simp add: slots_def)

lemma slots_claim:
  assumes "slots base m pcs" and "jm_get pcs a = Some p" and "holds p = None" and "holds q = Some n"
    and "jm_get m n \<noteq> None"
  shows "slots base (claim_node m n) (jm_set pcs a q)"
proof -
  have "active_jobs (claim_node m n) k = active_jobs m k + (if k = n then 1 else 0)" for k
    using assms(5) by (auto simp: active_jobs_def claim_node_def split: option.splits)
  then show ?thesis
    using assms(1) holders_set [of pcs a p q, OF _ assms(2)] assms(3,4)
    by (auto simp: slots_def claim_node_def intro!: nodes_ok_modify)
qed

lemma slots_free:
  assumes "slots base m pcs" and "jm_get pcs a = Some p" and "holds p = Some n" and "holds q = None" and "base n \<ge> 0"
  shows "slots base (free_node m n) (jm_set pcs a q)"
proof -
  have pos: "active_jobs m n \<ge> 1"
    using assms(1,5) holders_pos [OF assms(2,3)] by (simp add: slots_def)
  have act: "active_jobs (free_node m n) k = active_jobs m k - (if k = n then 1 else 0)" for k
    using pos by (auto simp: active_jobs_def free_node_def split: option.splits)
  have h: "int (holders (jm_set pcs a q) k) = int (holders pcs k) - (if k = n then 1 else 0)" for k
    using assms(1) holders_set [of pcs a p q k, OF _ assms(2)] assms(3,4) by (auto simp: slots_def)
  show ?thesis
    using assms(1) act h by (auto simp: slots_def free_node_def intro!: nodes_ok_modify)
qed

lemma active_bump: "active_jobs (bumpInstability m n d) k = active_jobs m k"
  by (auto simp: bumpInstability_def active_jobs_def split: option.splits)

lemma slots_bump: "slots base m pcs \<Longrightarrow> slots base (bumpInstability m n d) pcs"
  using nodes_ok_modify [of m, folded bumpInstability_def]
  by (simp add: slots_def active_bump) (simp add: bumpInstability_def nodes_ok_modify)

lemma slots_modify: "slots base m pcs \<Longrightarrow> (\<And>p. holds (h p) = holds p) \<Longrightarrow> slots base m (jm_modify pcs a h)"
  by (simp add: slots_def holders_modify)

text \<open>The scheduler rewrites scores only, and its choice is a node of the registry.\<close>

lemma chosen_registered:
  assumes "chooseBestNode states policy = Some (states', n, sc, re, scs)"
  shows "states' = map (scored_node policy) states" "n \<in> nd_name ` set states"
proof -
  obtain f fs where st: "states = f # fs" using assms by (cases states) (simp_all add: chooseBestNode_def)
  obtain best scores where v: "foldl (visit_node policy) (None, []) states = (best, scores)" by fastforce
  have "case best of None \<Rightarrow> True | Some (b, x) \<Rightarrow> nd_name b \<in> nd_name ` set states"
  proof -
    have "case fst (foldl (visit_node policy) acc ss) of None \<Rightarrow> True | Some (b, x) \<Rightarrow> nd_name b \<in> N"
      if "case fst acc of None \<Rightarrow> True | Some (b, x) \<Rightarrow> nd_name b \<in> N" "nd_name ` set ss \<subseteq> N" for acc ss N
      using that
    proof (induction ss arbitrary: acc)
      case (Cons s ss)
      have "case fst (visit_node policy acc s) of None \<Rightarrow> True | Some (b, x) \<Rightarrow> nd_name b \<in> N"
        using Cons.prems by (auto simp: visit_node_def Let_def split: option.splits)
      with Cons.IH [of "visit_node policy acc s"] Cons.prems(2) show ?case by simp
    qed simp
    from this [where acc = "(None, [])" and ss = states and N = "nd_name ` set states"] v show ?thesis by simp
  qed
  moreover have "n = nd_name (case best of Some (b, x) \<Rightarrow> b | None \<Rightarrow> f)"
    using assms v st by (simp add: chooseBestNode_def Let_def)
  ultimately show "n \<in> nd_name ` set states"
    using st by (cases best) (simp_all add: case_prod_unfold)
  show "states' = map (scored_node policy) states"
    using assms v st by (simp add: chooseBestNode_def Let_def)
qed

lemma zip_scored: "zip (map fst m) (map (scored_node policy) (map snd m)) = map (\<lambda>(k, s). (k, scored_node policy s)) m"
  by (induction m) auto

lemma slots_scored:
  assumes "slots base m pcs"
  shows "slots base (zip (map fst m) (map (scored_node policy) (map snd m))) pcs"
proof -
  have s: "nd_name (scored_node policy s) = nd_name s" "nd_active (scored_node policy s) = nd_active s" for s
    by (simp_all add: scored_node_def)
  have "active_jobs (map (\<lambda>(k, s). (k, scored_node policy s)) m) n = active_jobs m n" for n
    by (simp add: active_jobs_def get_map_values s split: option.split)
  moreover have "nodes_ok (map (\<lambda>(k, s). (k, scored_node policy s)) m)" if "nodes_ok m"
    using that by (auto simp: nodes_ok_def list_all_iff s comp_def case_prod_unfold)
  ultimately show ?thesis using assms unfolding zip_scored by (simp add: slots_def)
qed

definition eng_slots :: "(string \<Rightarrow> int) \<Rightarrow> engine \<Rightarrow> bool" where
  "eng_slots base e \<longleftrightarrow> slots base (eg_nodes e) (eg_pcs e)"

lemma eng_slots_frame [simp]:
  "eng_slots base (emit e t b s) = eng_slots base e" "eng_slots base (upd_action e a h) = eng_slots base e"
  "eng_slots base (set_run e r) = eng_slots base e" "eng_slots base (e\<lparr>eg_cas := c\<rparr>) = eng_slots base e"
  "eng_slots base (e\<lparr>eg_phase := ph\<rparr>) = eng_slots base e"
  by (simp_all add: eng_slots_def engine_defs)

lemma nodes_frame [simp]:
  "eg_nodes (upd_action e a h) = eg_nodes e" "eg_nodes (set_pc e a p) = eg_nodes e"
  "eg_nodes (set_nodes e m) = m" "eg_pcs (set_pc e a p) = jm_set (eg_pcs e) a p"
  "eg_pcs (e\<lparr>eg_cas := c\<rparr>) = eg_pcs e" "eg_nodes (e\<lparr>eg_cas := c\<rparr>) = eg_nodes e"
  by (simp_all add: engine_defs)

lemma enter_gate_slots:
  assumes "eng_slots base e" and "jm_get (eg_pcs e) a = Some p"
  shows "holds p = None \<Longrightarrow> eng_slots base (enter_gate1 e a)"
    and "holds p = Some n \<Longrightarrow> eng_slots base (enter_gate2 e a n k f)"
  using assms
  by (auto simp: eng_slots_def enter_gate1_def enter_gate2_def intro: slots_keep split: prod.split)

lemma enter_gate1_new_slots:
  assumes "eng_slots base e" and "jm_get (eg_pcs e) a = None"
  shows "eng_slots base (enter_gate1 e a)"
  using assms by (auto simp: eng_slots_def enter_gate1_def intro: slots_new split: prod.split)

lemma action_cancelled_slots:
  assumes "eng_slots base e" and "jm_get (eg_pcs e) a = Some p" and "holds p = Some n" and "base n \<ge> 0"
  shows "eng_slots base (action_cancelled e a n)"
  using assms by (simp add: eng_slots_def action_cancelled_def Let_def slots_free)

lemma enter_gate2_split: "enter_gate2 e a n k f = set_pc (set_run e (fst (gate_body (eg_run e) a 2))) a
    (if snd (gate_body (eg_run e) a 2) then Passed2 n k f else Blocked2 n k f)"
  by (simp add: enter_gate2_def case_prod_unfold)

lemma after_gate1_slots:
  assumes sl: "eng_slots base e" and p: "jm_get (eg_pcs e) a = Some Passed1"
  shows "eng_slots base (after_gate1 opts e a now)"
proof (cases "br_cancel (eg_run e)")
  case True
  with assms show ?thesis by (auto simp: after_gate1_def eng_slots_def intro: slots_keep)
next
  case nc: False
  show ?thesis
  proof (cases "chooseBestNode (jm_values (eg_nodes e)) (op_policy opts)")
    case None
    with nc sl show ?thesis by (simp add: after_gate1_def)
  next
    case (Some d)
    obtain states n sc re scs where d: "d = (states, n, sc, re, scs)" by (cases d)
    note c = chosen_registered [OF Some [unfolded d]]
    let ?m = "zip (map fst (eg_nodes e)) states"
    have m: "slots base ?m (eg_pcs e)" using slots_scored sl c(1) by (simp add: eng_slots_def)
    have "nodes_ok (eg_nodes e)" using sl by (simp add: eng_slots_def slots_def)
    with c(2) have "n \<in> fst ` set (eg_nodes e)" by (force simp: nodes_ok_def list_all_iff)
    then have "jm_get ?m n \<noteq> None"
      unfolding c(1) zip_scored get_map_values by (simp add: map_of_eq_None_iff)
    with m p have new: "slots base (claim_node ?m n) (jm_set (eg_pcs e) a q)" if "holds q = Some n" for q
      using that by (intro slots_claim) auto
    show ?thesis
      using nc Some d new by (simp add: after_gate1_def Let_def eng_slots_def enter_gate2_split)
  qed
qed

lemma advance_slots:
  assumes sl: "eng_slots base e" and base: "\<And>n. base n \<ge> 0"
  shows "eng_slots base (advance opts e a now)"
proof (cases "jm_get (eg_pcs e) a")
  case (Some p)
  note f = slots_free [OF sl [unfolded eng_slots_def] Some _ _ base]
    and k = slots_keep [OF sl [unfolded eng_slots_def] Some]
    and g = enter_gate_slots [OF sl Some] and c = action_cancelled_slots [OF sl Some _ base]
  show ?thesis
  proof (cases p)
    case Passed1
    with Some sl show ?thesis by (simp add: advance_def after_gate1_slots)
  next
    case (CacheWait n)
    with Some f c show ?thesis by (simp add: advance_def after_cache_def Let_def eng_slots_def)
  next
    case (Passed2 n i t)
    with Some k c show ?thesis by (simp add: advance_def after_gate2_def Let_def eng_slots_def)
  next
    case (Working n i t)
    with Some f c k show ?thesis by (simp add: advance_def after_work_def Let_def eng_slots_def slots_bump)
  qed (use Some sl g k in \<open>simp_all add: advance_def after_stamp_def eng_slots_def\<close>)
qed (simp add: advance_def sl)

lemma holders_by_keys:
  "jm_ok pcs \<Longrightarrow> holders pcs n = length (filter (\<lambda>k. Option.bind (jm_get pcs k) holds = Some n) (map fst pcs))"
proof -
  assume ok: "jm_ok pcs"
  have "filter (\<lambda>(k, p). holds p = Some n) pcs =
      filter (\<lambda>(k, p). Option.bind (jm_get pcs k) holds = Some n) pcs"
    by (rule filter_cong) (use ok in auto)
  then show ?thesis by (simp add: holders_def filter_map comp_def case_prod_unfold)
qed

lemma nudged_slots:
  assumes "eng_slots base e" and "nudged e e'"
  shows "eng_slots base e'"
proof -
  have keys: "map fst (eg_pcs e') = map fst (eg_pcs e)" "eg_nodes e' = eg_nodes e" using assms(2) by (simp_all add: nudged_def)
  have "Option.bind (jm_get (eg_pcs e') k) holds = Option.bind (jm_get (eg_pcs e) k) holds" for k
    using nudged_none [OF assms(2), of k] nudged_pc [OF assms(2), of k]
    by (cases "jm_get (eg_pcs e') k"; cases "jm_get (eg_pcs e) k") auto
  then have "holders (eg_pcs e') n = holders (eg_pcs e) n" for n
    using assms(1) keys by (simp add: holders_by_keys eng_slots_def slots_def)
  with assms(1) keys show ?thesis by (simp add: eng_slots_def slots_def)
qed

lemma enter_gates_slots:
  assumes "eng_slots base e" and "distinct ws" and "\<And>k p. jm_get (eg_pcs e) k = Some p \<Longrightarrow> p = Over"
  shows "eng_slots base (foldl enter_gate1 e ws)"
  using assms
proof (induction ws rule: rev_induct)
  case (snoc w ws)
  let ?e = "foldl enter_gate1 e ws"
  have sl: "eng_slots base ?e" using snoc by simp
  have w: "jm_get (eg_pcs ?e) w = jm_get (eg_pcs e) w" using enter_gates [of ws e] snoc.prems(2) by simp
  show ?case
  proof (cases "jm_get (eg_pcs e) w")
    case None
    with w enter_gate1_new_slots [OF sl] show ?thesis by simp
  next
    case (Some p)
    with snoc.prems(3) have "p = Over" by blast
    with w Some enter_gate_slots(1) [OF sl, of w p] show ?thesis by simp
  qed
qed simp

lemma wave_loop_slots:
  assumes "eng_slots base e" and "jm_ok (br_actions (eg_run e))"
    and over: "\<And>k p. jm_get (eg_pcs e) k = Some p \<Longrightarrow> p = Over"
  shows "eng_slots base (wave_loop e now)"
proof (cases "br_cancel (eg_run e)")
  case True
  with assms(1) show ?thesis by (simp add: wave_loop_def eng_slots_def finish_run_effect)
next
  case False
  obtain e1 wave where ra: "readyActions e = (e1, wave)" by (cases "readyActions e")
  note r = readyActions_effect [OF ra assms(2)]
  have sl: "eng_slots base e1" using assms(1) r by (simp add: eng_slots_def)
  have "eng_slots base (foldl enter_gate1 (e1\<lparr>eg_phase := Wave wave\<rparr>) wave)"
    by (rule enter_gates_slots) (use sl r(2,3) over in auto)
  with sl False ra show ?thesis by (simp add: wave_loop_def eng_slots_def finish_run_effect)
qed

section \<open>The whole invariant\<close>

definition build_inv :: "(string \<Rightarrow> int) \<Rightarrow> engine \<Rightarrow> bool" where
  "build_inv base e \<longleftrightarrow> eng_inv e \<and> gate_inv e \<and> all_tries_ok e \<and> eng_slots base e \<and> (\<forall>n. base n \<ge> 0)"

lemma pause_gate: "gate_inv e \<Longrightarrow> gate_inv (dbg_pause e)"
  by (simp add: dbg_pause_def gate_inv_def)

lemma cancel_gate: "gate_inv e \<Longrightarrow> gate_inv (fst (cancelBuild e))"
  using releaseGates_gate(1) [of "set_run e ((eg_run e)\<lparr>br_cancel := True\<rparr>)"]
    gate_inv_cong [of "set_run e ((eg_run e)\<lparr>br_cancel := True\<rparr>)" e]
  by (simp add: cancelBuild_def)

lemma nudged_build:
  assumes "build_inv base e" and "nudged e e'" and "gate_inv e'"
  shows "build_inv base e'"
  using assms nudged_inv nudged_tries nudged_slots unfolding build_inv_def by blast

lemma wave_loop_build:
  assumes inv: "build_inv base e" and "eg_phase e = Wave ws"
    and over: "\<And>k p. jm_get (eg_pcs e) k = Some p \<Longrightarrow> p = Over"
  shows "build_inv base (wave_loop e now)"
proof -
  have ok: "jm_ok (br_actions (eg_run e))" using inv by (simp add: build_inv_def eng_inv_def)
  have "all_tries_ok (wave_loop e now)"
    unfolding all_tries_ok_def
  proof (intro allI impI)
    fix k p
    assume "jm_get (eg_pcs (wave_loop e now)) k = Some p"
    with wave_loop_pcs [OF ok, of now] inv tries_gates(1)
    show "tries_ok (br_retries (eg_run (wave_loop e now))) p"
      unfolding build_inv_def all_tries_ok_def by (metis option.inject)
  qed
  moreover have "eng_inv (wave_loop e now)"
    by (rule wave_loop_inv [OF _ assms(2)]) (use inv over in \<open>auto simp: build_inv_def\<close>)
  moreover have "gate_inv (wave_loop e now)"
    by (rule wave_loop_gate [OF _ ok]) (use inv over in \<open>auto simp: build_inv_def\<close>)
  moreover have "eng_slots base (wave_loop e now)"
    by (rule wave_loop_slots [OF _ ok]) (use inv over in \<open>auto simp: build_inv_def\<close>)
  ultimately show ?thesis using inv unfolding build_inv_def by blast
qed

interpretation full: preserved "engine_step opts" "build_inv base" for opts base
proof
  fix e c
  assume inv: "build_inv base e"
  then have i: "eng_inv e" "gate_inv e" "all_tries_ok e" "eng_slots base e" "\<And>n. base n \<ge> 0"
    by (simp_all add: build_inv_def)
  show "build_inv base (engine_step opts e c)"
  proof (cases c)
    case (Advance a now)
    have "all_tries_ok (advance opts e a now)"
      using advance_cases [OF i(1), of opts a now] moves_tries [OF i(3)] i(3) by metis
    with Advance i advance_gate advance_slots build.step_inv [OF i(1), of opts c] show ?thesis
      unfolding build_inv_def by simp
  next
    case (NextWave now)
    show ?thesis
    proof (cases "wave_over e")
      case True
      obtain ws where "eg_phase e = Wave ws" "\<And>k p. jm_get (eg_pcs e) k = Some p \<Longrightarrow> p = Over"
        using wave_over_all [OF i(1) True] by blast
      with NextWave True wave_loop_build [OF inv] show ?thesis by (simp add: next_wave_def)
    qed (use NextWave inv in \<open>simp add: next_wave_def\<close>)
  next
    case Cancel
    with nudged_build [OF inv cancelBuild_nudged cancel_gate] i(2) show ?thesis by simp
  next
    case Pause
    with nudged_build [OF inv pause_nudged pause_gate] i(2) show ?thesis by simp
  next
    case Resume
    have "gate_inv (dbg_resume e)" using releaseGates_gate(1) [OF i(2)] by (simp add: dbg_resume_def)
    with Resume nudged_build [OF inv resume_nudged] show ?thesis by simp
  next
    case Step
    with nudged_build [OF inv step_nudged dbg_step_gate] i(2) show ?thesis by simp
  qed
qed

lemma fresh_build:
  assumes "nodes_ok nodes" and "\<And>n. active_jobs nodes n \<ge> 0"
  shows "build_inv (active_jobs nodes) (fresh_engine nodes cas (new_run b p ts f r now))"
  using fresh_inv [of nodes cas b p ts f r now] assms
  by (simp add: build_inv_def) (simp add: fresh_engine_def new_run_def gate_inv_def all_tries_ok_def eng_slots_def slots_def holders_def)

lemma run_build_inv:
  assumes "nodes_ok nodes" and "\<And>n. active_jobs nodes n \<ge> 0"
  shows "build_inv (active_jobs nodes) (engine_run opts (startBuild nodes cas b p ts f r now) evs)"
  unfolding engine_run_def startBuild_fresh
  by (intro full.run_inv wave_loop_build [OF fresh_build [OF assms], of _ _ _ _ _ _ _ "[]"]) (simp_all add: fresh_engine_def)

lemma holders_over:
  assumes "\<And>k p. jm_get pcs k = Some p \<Longrightarrow> p = Over" and "jm_ok pcs"
  shows "holders pcs n = 0"
proof -
  have "holds q = None" if "(k, q) \<in> set pcs" for k q
    using that assms by (metis get_iff_mem holds.simps(11))
  then show ?thesis by (fastforce simp: holders_def filter_empty_conv)
qed

text \<open>No job slot is lost or freed twice by one build: at every moment of a build the active jobs of each node
  are those it had at the start plus the actions of the build that hold a slot there (scheduled,
  running, waiting at gate 2 or backing off), and when the build has ended, by success, failure or
  cancellation, every node is back at its number from the start.\<close>

theorem job_slots_returned:
  assumes "nodes_ok nodes" and "\<And>n. active_jobs nodes n \<ge> 0"
    and "e = engine_run opts (startBuild nodes cas buildId project targets failAction retries now) evs"
  shows "active_jobs (eg_nodes e) n = active_jobs nodes n + int (holders (eg_pcs e) n) \<and>
    (eg_phase e = Ended \<longrightarrow> active_jobs (eg_nodes e) n = active_jobs nodes n)"
proof -
  have inv: "build_inv (active_jobs nodes) e" unfolding assms(3) by (rule run_build_inv [OF assms(1,2)])
  then have s: "active_jobs (eg_nodes e) n = active_jobs nodes n + int (holders (eg_pcs e) n)" "jm_ok (eg_pcs e)" "eng_inv e"
    by (simp_all add: build_inv_def eng_slots_def slots_def)
  moreover have "holders (eg_pcs e) n = 0" if "eg_phase e = Ended"
    using holders_over [OF _ s(2)] eng_inv_ended(1) [OF s(3) that] by blast
  ultimately show ?thesis by simp
qed

theorem job_slots_returned_witness:
  "active_jobs (eg_nodes (engine_run demo_opts (demo_start None None) demo_first)) ''a'' =
     0 + int (holders (eg_pcs (engine_run demo_opts (demo_start None None) demo_first)) ''a'')"
proof -
  have n: "nodes_ok demo_nodes" "active_jobs demo_nodes n \<ge> 0" "active_jobs demo_nodes ''a'' = 0" for n
    by (simp_all add: nodes_ok_def active_jobs_def demo_nodes_def demo_node_def)
  from job_slots_returned [OF n(1,2), of "engine_run demo_opts (demo_start None None) demo_first" demo_opts "[]" "''b''" "''p''"
      "[''t'']" None None 0 demo_first "''a''"] n(3)
  show ?thesis by (simp add: demo_start_def)
qed

text \<open>The debugger loses nobody and releases one: the waiters are exactly the actions blocked at
  a gate, each with its gate; nobody is blocked unless the build is paused; resume wakes every blocked
  action; a step with waiters wakes the first of them and nobody else, and grants it the passes of its
  gate and the ones after it.\<close>

theorem debugger_gates:
  assumes "nodes_ok nodes" and "\<And>n. active_jobs nodes n \<ge> 0"
    and "e = engine_run opts (startBuild nodes cas buildId project targets failAction retries now) evs"
  shows "((a, g) \<in> set (br_waiters (eg_run e)) \<longleftrightarrow> Option.bind (jm_get (eg_pcs e) a) blocked_at = Some g) \<and>
    (\<not> br_paused (eg_run e) \<longrightarrow> Option.bind (jm_get (eg_pcs e) a) blocked_at = None) \<and>
    Option.bind (jm_get (eg_pcs (dbg_resume e)) a) blocked_at = None \<and>
    (br_waiters (eg_run e) = (b, h) # ws \<longrightarrow>
       Option.bind (jm_get (eg_pcs (dbg_step e)) b) blocked_at = None \<and>
       (a \<noteq> b \<longrightarrow> jm_get (eg_pcs (dbg_step e)) a = jm_get (eg_pcs e) a) \<and>
       br_waiters (eg_run (dbg_step e)) = ws \<and>
       jm_get (br_passes (eg_run (dbg_step e))) b =
         Some ((case jm_get (br_passes (eg_run e)) b of None \<Rightarrow> 0 | Some n \<Rightarrow> n) + (3 - h)))"
proof -
  have "build_inv (active_jobs nodes) e" unfolding assms(3) by (rule run_build_inv [OF assms(1,2)])
  then have g: "gate_inv e" by (simp add: build_inv_def)
  then have w: "(k, i) \<in> set (br_waiters (eg_run e)) \<longleftrightarrow> Option.bind (jm_get (eg_pcs e) k) blocked_at = Some i" for k i
    by (simp add: gate_inv_def)
  have "Option.bind (jm_get (eg_pcs e) a) blocked_at = None" if "\<not> br_paused (eg_run e)"
  proof (cases "Option.bind (jm_get (eg_pcs e) a) blocked_at")
    case (Some i)
    with w have "br_waiters (eg_run e) \<noteq> []" by (metis empty_iff list.set(1))
    with g that show ?thesis by (simp add: gate_inv_def)
  qed
  moreover have "Option.bind (jm_get (eg_pcs (dbg_resume e)) a) blocked_at = None"
    using releaseGates_gate(4) [OF g, of a] by (simp add: dbg_resume_def)
  moreover have "Option.bind (map_option woken (jm_get (eg_pcs e) b)) blocked_at = None"
    by (cases "jm_get (eg_pcs e) b") simp_all
  moreover have "h = 1 \<or> h = 2" if "br_waiters (eg_run e) = (b, h) # ws"
  proof -
    have "Option.bind (jm_get (eg_pcs e) b) blocked_at = Some h" using that w [of b h] by simp
    then obtain p where "blocked_at p = Some h" by (auto simp: bind_eq_Some_conv)
    then show ?thesis by (cases p) auto
  qed
  ultimately show ?thesis using w by (auto simp: dbg_step_def wake_def TOTAL_GATES_def)
qed

definition demo_paused :: engine where
  "demo_paused = engine_run demo_opts (demo_start None None) [Pause, Advance ''p:t:fetch'' 1]"

lemma demo_paused_waiters: "br_waiters (eg_run demo_paused) = [(''p:t:fetch'', 2)]"
  by code_simp

theorem debugger_gates_witness:
  "br_waiters (eg_run (dbg_step demo_paused)) = [] \<and>
   Option.bind (jm_get (eg_pcs (dbg_step demo_paused)) ''p:t:fetch'') blocked_at = None \<and>
   Option.bind (jm_get (eg_pcs demo_paused) ''p:t:fetch'') blocked_at = Some 2"
proof -
  have n: "nodes_ok demo_nodes" "active_jobs demo_nodes n \<ge> 0" for n
    by (simp_all add: nodes_ok_def active_jobs_def demo_nodes_def demo_node_def)
  from debugger_gates [OF n demo_paused_def [unfolded demo_start_def], of "''p:t:fetch''" 2 "''p:t:fetch''" 2 "[]"]
  show ?thesis by (simp add: demo_paused_waiters)
qed

end
