(* ===== verification/FesterOutcome.thy ===== *)
theory FesterOutcome
  imports FesterRuns
begin

text \<open>
  How a build ends: every catalog build lists its actions after their dependencies, so a build that
  ends without cancellation leaves no action behind, its outcome is what its actions say, the critical
  path is the heaviest chain of dependencies, and an unpaused build always has a next step and only
  finitely many.
\<close>

section \<open>Actions in dependency order\<close>

text \<open>Every action comes after the actions it depends on.\<close>

fun topo :: "string set \<Rightarrow> actions \<Rightarrow> bool" where
  "topo S [] = True"
| "topo S ((k, a) # m) = (set (an_deps a) \<subseteq> S \<and> topo (insert k S) m)"

lemma topo_set:
  "topo S m \<Longrightarrow> (jm_get m k = None \<Longrightarrow> set (an_deps v) \<subseteq> S \<union> set (map fst m)) \<Longrightarrow>
   (\<And>u. jm_get m k = Some u \<Longrightarrow> an_deps u = an_deps v) \<Longrightarrow> topo S (jm_set m k v)"
  by (induction S m rule: topo.induct) (auto split: if_splits)

lemma topo_prefix: "topo S (xs @ (k, a) # ys) \<Longrightarrow> set (an_deps a) \<subseteq> S \<union> fst ` set xs"
  by (induction S xs rule: topo.induct) auto

definition shape :: "actions \<Rightarrow> (string \<times> string list) list" where
  "shape m = map (\<lambda>(k, a). (k, an_deps a)) m"

lemma topo_shape: "shape m = shape m' \<Longrightarrow> topo S m = topo S m'"
proof (induction m arbitrary: m' S)
  case Nil
  then show ?case by (simp add: shape_def)
next
  case (Cons x m)
  obtain y n where m': "m' = y # n" using Cons.prems by (cases m') (simp_all add: shape_def)
  then have "shape m = shape n" "fst x = fst y" "an_deps (snd x) = an_deps (snd y)"
    using Cons.prems by (simp_all add: shape_def case_prod_unfold)
  with Cons.IH [of n "insert (fst x) S"] m' show ?case by (cases x; cases y) simp
qed

lemma shape_eqI:
  assumes "map fst m = map fst m'" and "jm_ok m"
    and "\<And>k a a'. jm_get m k = Some a \<Longrightarrow> jm_get m' k = Some a' \<Longrightarrow> an_deps a' = an_deps a"
  shows "shape m = shape m'"
proof (rule nth_equalityI)
  show len: "length (shape m) = length (shape m')"
    using assms(1) by (metis length_map shape_def)
  fix i
  assume "i < length (shape m)"
  then have i: "i < length m" "i < length m'" using len by (simp_all add: shape_def)
  have k: "fst (m ! i) = fst (m' ! i)" using assms(1) i by (metis nth_map)
  have ok': "jm_ok m'" using assms(1,2) by simp
  have "jm_get m (fst (m ! i)) = Some (snd (m ! i))" "jm_get m' (fst (m' ! i)) = Some (snd (m' ! i))"
    using i assms(2) ok' by (simp_all add: get_iff_mem)
  with assms(3) k have "an_deps (snd (m' ! i)) = an_deps (snd (m ! i))" by metis
  with i k show "shape m ! i = shape m' ! i" by (simp add: shape_def case_prod_unfold)
qed

text \<open>The name of a step determines its dependencies, so setting it again changes nothing.\<close>

definition qualify :: "string \<Rightarrow> string \<Rightarrow> string \<Rightarrow> string" where
  "qualify p t s = p @ '':'' @ t @ '':'' @ s"

definition step_table :: "(string \<times> string list) list" where
  "step_table = [(''fetch'', []), (''toolchain'', [''fetch'']), (''configure'', [''toolchain'']),
     (''compile'', [''configure'']), (''test'', [''compile'']), (''package'', [''compile'', ''test'']),
     (''stamp'', [''package''])]"

lemma stepsFor_table:
  "map (\<lambda>s. (st_name s, st_deps s)) (stepsFor p t) = map (\<lambda>(s, ds). (qualify p t s, map (qualify p t) ds)) step_table"
  by (simp add: stepsFor_def step_table_def qualify_def Let_def)

lemma qualify_inj:
  assumes "qualify p t s = qualify p t' s'" and "CHR '':'' \<notin> set s" and "CHR '':'' \<notin> set s'"
  shows "t = t' \<and> s = s'"
  using assms cut_last [of t "CHR '':''" s t' s'] by (simp add: qualify_def)

lemma step_table_plain: "(s, ds) \<in> set step_table \<Longrightarrow> CHR '':'' \<notin> set s"
  by (auto simp: step_table_def)

lemma step_table_fun: "(s, ds) \<in> set step_table \<Longrightarrow> (s, ds') \<in> set step_table \<Longrightarrow> ds = ds'"
  by (auto simp: step_table_def)

definition catalog_step :: "string \<Rightarrow> string \<Rightarrow> string list \<Rightarrow> bool" where
  "catalog_step p k ds \<longleftrightarrow> (\<exists>t s ss. (s, ss) \<in> set step_table \<and> k = qualify p t s \<and> ds = map (qualify p t) ss)"

lemma catalog_step_fun: "catalog_step p k ds \<Longrightarrow> catalog_step p k ds' \<Longrightarrow> ds = ds'"
  unfolding catalog_step_def using qualify_inj step_table_plain step_table_fun by metis

lemma stepsFor_catalog: "s \<in> set (stepsFor p t) \<Longrightarrow> catalog_step p (st_name s) (st_deps s)"
proof -
  assume "s \<in> set (stepsFor p t)"
  then have "(st_name s, st_deps s) \<in> set (map (\<lambda>s. (st_name s, st_deps s)) (stepsFor p t))" by auto
  then show ?thesis unfolding stepsFor_table catalog_step_def by auto
qed

definition catalog_ok :: "string \<Rightarrow> actions \<Rightarrow> bool" where
  "catalog_ok p m \<longleftrightarrow> topo {} m \<and> (\<forall>k a. jm_get m k = Some a \<longrightarrow> catalog_step p k (an_deps a))"

lemma set_step_catalog:
  assumes "catalog_ok p m" and "catalog_step p (st_name s) (st_deps s)" and "set (st_deps s) \<subseteq> set (map fst m)"
  shows "catalog_ok p (jm_set m (st_name s) (step_action f s))"
proof -
  have d: "an_deps (step_action f s) = st_deps s" by (simp add: step_action_def)
  have "topo {} (jm_set m (st_name s) (step_action f s))"
  proof (rule topo_set)
    show "topo {} m" "set (an_deps (step_action f s)) \<subseteq> {} \<union> set (map fst m)"
      using assms d by (simp_all add: catalog_ok_def)
    show "an_deps u = an_deps (step_action f s)" if "jm_get m (st_name s) = Some u" for u
      using that assms(1,2) d catalog_step_fun [of p "st_name s" "st_deps s" "an_deps u"] by (simp add: catalog_ok_def)
  qed
  moreover have "catalog_step p k (an_deps a)" if "jm_get (jm_set m (st_name s) (step_action f s)) k = Some a" for k a
    using that assms d by (auto simp: catalog_ok_def split: if_splits)
  ultimately show ?thesis by (simp add: catalog_ok_def)
qed

text \<open>The same order on a list of steps.\<close>

fun closed_steps :: "string set \<Rightarrow> build_step list \<Rightarrow> bool" where
  "closed_steps S [] = True"
| "closed_steps S (s # ss) = (set (st_deps s) \<subseteq> S \<and> closed_steps (insert (st_name s) S) ss)"

lemma closed_mono: "closed_steps S ss \<Longrightarrow> S \<subseteq> T \<Longrightarrow> closed_steps T ss"
proof (induction ss arbitrary: S T)
  case (Cons s ss)
  from Cons.prems Cons.IH [of "insert (st_name s) S" "insert (st_name s) T"] show ?case by auto
qed simp

lemma closed_append: "closed_steps S xs \<Longrightarrow> closed_steps S ys \<Longrightarrow> closed_steps S (xs @ ys)"
proof (induction xs arbitrary: S)
  case (Cons x xs)
  then show ?case using closed_mono [of S ys "insert (st_name x) S"] by auto
qed simp

lemma closed_catalog: "closed_steps {} (concat (map (stepsFor p) ts))"
proof (induction ts)
  case (Cons t ts)
  have "closed_steps {} (stepsFor p t)" by (simp add: stepsFor_def Let_def)
  with Cons show ?case by (simp add: closed_append)
qed simp

lemma set_steps_catalog:
  assumes "catalog_ok p m" and "\<And>s. s \<in> set ss \<Longrightarrow> catalog_step p (st_name s) (st_deps s)"
    and "closed_steps (set (map fst m)) ss"
  shows "catalog_ok p (foldl (\<lambda>m s. jm_set m (st_name s) (step_action f s)) m ss)"
  using assms
proof (induction ss arbitrary: m)
  case (Cons s ss)
  let ?m = "jm_set m (st_name s) (step_action f s)"
  have "set (map fst ?m) = insert (st_name s) (set (map fst m))" by (auto simp: update_keys)
  with Cons.prems(3) have "closed_steps (set (map fst ?m)) ss" by simp
  moreover have "catalog_ok p ?m" using set_step_catalog Cons.prems by simp
  ultimately show ?case using Cons.IH [of ?m] Cons.prems(2) by simp
qed simp

lemma build_catalog: "catalog_ok p (build_actions p ts f)"
  unfolding build_actions_def
  by (rule set_steps_catalog) (auto simp: catalog_ok_def stepsFor_catalog closed_catalog)

section \<open>The shape of a build does not change\<close>

lemma moves_shape:
  assumes "jm_ok (br_actions (eg_run e))" and "moves e a e'"
  shows "shape (br_actions (eg_run e')) = shape (br_actions (eg_run e))"
proof (rule shape_eqI [symmetric])
  show "map fst (br_actions (eg_run e)) = map fst (br_actions (eg_run e'))" "jm_ok (br_actions (eg_run e))"
    using assms by (simp_all add: moves_def touches_def)
  show "an_deps x' = an_deps x" if "jm_get (br_actions (eg_run e)) k = Some x" "jm_get (br_actions (eg_run e')) k = Some x'" for k x x'
    using assms(2) that by (cases "k = a") (auto simp: moves_def touches_def act_def)
qed

lemma skips_shape:
  assumes "jm_ok m" and "skips m m'"
  shows "shape m' = shape m"
proof (rule shape_eqI [symmetric])
  show "map fst m = map fst m'" "jm_ok m" using assms by (simp_all add: skips_def)
  show "an_deps x' = an_deps x" if "jm_get m k = Some x" "jm_get m' k = Some x'" for k x x'
    using assms(2) that by (auto elim!: skips_cases [where k = k])
qed

lemma finish_run_shape: "shape (br_actions (eg_run (finish_run e now))) = shape (br_actions (eg_run e))"
  by (auto simp: finish_run_def Let_def shape_def wind_down_actions case_prod_unfold split: option.splits)

lemma wave_loop_shape:
  assumes "jm_ok (br_actions (eg_run e))"
  shows "shape (br_actions (eg_run (wave_loop e now))) = shape (br_actions (eg_run e))"
proof (cases "br_cancel (eg_run e)")
  case False
  obtain e1 wave where ra: "readyActions e = (e1, wave)" by (cases "readyActions e")
  note r = readyActions_effect [OF ra assms]
  have "shape (br_actions (eg_run e1)) = shape (br_actions (eg_run e))" using skips_shape assms r(1) by blast
  with False ra enter_gates [OF r(2), of "e1\<lparr>eg_phase := Wave wave\<rparr>"] show ?thesis
    by (simp add: wave_loop_def finish_run_shape)
qed (simp add: wave_loop_def finish_run_shape)

lemma nudged_actions: "nudged e e' \<Longrightarrow> br_actions (eg_run e') = br_actions (eg_run e)"
  by (simp add: nudged_def)

lemma step_shape:
  assumes "eng_inv e"
  shows "shape (br_actions (eg_run (engine_step opts e c))) = shape (br_actions (eg_run e))"
proof -
  have ok: "jm_ok (br_actions (eg_run e))" using assms by (simp add: eng_inv_def)
  show ?thesis
  proof (cases c)
    case (Advance a now)
    then show ?thesis
      using advance_cases [OF assms, of opts a now] moves_shape [OF ok, of a] by (metis engine_step.simps(1))
  next
    case (NextWave now)
    with wave_loop_shape [OF ok] show ?thesis by (simp add: next_wave_def)
  qed (simp_all add: nudged_actions [OF cancelBuild_nudged] nudged_actions [OF pause_nudged]
      nudged_actions [OF resume_nudged] nudged_actions [OF step_nudged])
qed

section \<open>Nothing is left behind\<close>

lemma topo_deps:
  assumes "topo {} m" and "jm_ok m" and "map fst m = xs @ k # ys" and "jm_get m k = Some a"
  shows "set (an_deps a) \<subseteq> set xs"
proof -
  from assms(3) obtain m1 y m2 where m: "m = m1 @ y # m2" "map fst m1 = xs" "fst y = k"
    by (auto simp: map_eq_append_conv)
  have "jm_get m k = Some (snd y)"
    by (rule map_of_is_SomeI [OF assms(2)]) (use m in \<open>cases y; simp\<close>)
  with assms(4) m have "m = m1 @ (k, a) # m2" by (cases y) simp
  with topo_prefix [of "{}" m1 k a m2] assms(1) m(2) show ?thesis by auto
qed

definition open_or_settled :: "actions \<Rightarrow> bool" where
  "open_or_settled m \<longleftrightarrow> (\<forall>k a. jm_get m k = Some a \<longrightarrow> an_state a = Pending \<or> settled (an_state a))"

lemma settled_dep_state:
  assumes "jm_get m d = Some b" and "settled (an_state b)" and "dep_state m d \<noteq> Some Done"
  shows "dep_state m d \<in> {Some Failed, Some Cancelled, Some Skipped}"
  using assms by (auto simp: dep_state_def settled_def)

lemma pass_settles:
  assumes "topo {} m" and "jm_ok m" and "open_or_settled m" and "map fst m = xs @ rest"
    and "foldl ready_visit (m, [], []) xs = (m1, w1, s1)"
  shows "shape m1 = shape m \<and> map fst m1 = map fst m \<and> open_or_settled m1 \<and>
    (w1 = [] \<longrightarrow> (\<forall>k \<in> set xs. \<forall>a. jm_get m1 k = Some a \<longrightarrow> settled (an_state a)))"
  using assms(4,5)
proof (induction xs arbitrary: rest m1 w1 s1 rule: rev_induct)
  case Nil
  with assms(3) show ?case by simp
next
  case (snoc k xs)
  obtain m0 w0 s0 where f: "foldl ready_visit (m, [], []) xs = (m0, w0, s0)"
    by (cases "foldl ready_visit (m, [], []) xs") auto
  have keys: "map fst m = xs @ k # rest" using snoc.prems(1) by simp
  note IH = snoc.IH [OF keys f]
  have v: "ready_visit (m0, w0, s0) k = (m1, w1, s1)" using snoc.prems(2) f by simp
  have t0: "topo {} m0" using IH topo_shape assms(1) by blast
  have ok0: "jm_ok m0" using IH assms(2) by simp
  have nk: "k \<notin> set xs" using keys assms(2) by simp
  show ?case
  proof (cases "\<exists>a. jm_get m0 k = Some a \<and> an_state a = Pending")
    case False
    then have "m1 = m0" "w1 = w0" using v by (auto simp: ready_visit_def split: option.splits if_splits)
    with IH False show ?thesis by (auto simp: open_or_settled_def)
  next
    case True
    then obtain a where a: "jm_get m0 k = Some a" "an_state a = Pending" by blast
    have keys0: "map fst m0 = xs @ k # rest" using IH keys by simp
    have deps: "set (an_deps a) \<subseteq> set xs" by (rule topo_deps [OF t0 ok0 keys0 a(1)])
    show ?thesis
    proof (cases "dep_failed m0 a")
      case True
      with v a have m1: "m1 = jm_modify m0 k (an_state_update (\<lambda>_. Skipped))" "w1 = w0"
        by (simp_all add: ready_visit_def)
      have "shape m1 = shape m0"
        by (rule shape_eqI [symmetric]) (use m1 ok0 in \<open>auto split: if_splits\<close>)
      moreover have "open_or_settled m1" using IH m1 a by (auto simp: open_or_settled_def settled_def)
      moreover have "settled (an_state b)" if "w1 = []" "j \<in> set (xs @ [k])" "jm_get m1 j = Some b" for j b
        using that m1 a IH by (cases "j = k") (auto simp: settled_def)
      ultimately show ?thesis using IH m1 by simp
    next
      case nf: False
      show ?thesis
      proof (cases "deps_ok m0 a")
        case True
        with v a nf have "m1 = m0" "w1 = w0 @ [k]" by (simp_all add: ready_visit_def)
        with IH show ?thesis by simp
      next
        case nok: False
        then obtain d where d: "d \<in> set (an_deps a)" "dep_state m0 d \<noteq> Some Done"
          by (auto simp: deps_ok_def list_all_iff)
        have m1: "m1 = m0" "w1 = w0" using v a nf nok by (simp_all add: ready_visit_def)
        have "w0 \<noteq> []"
        proof
          assume "w0 = []"
          have "d \<in> set (map fst m0)" using d(1) deps keys0 by auto
          then obtain b where b: "jm_get m0 d = Some b" by (auto dest: weak_map_of_SomeI)
          with IH \<open>w0 = []\<close> d(1) deps have "settled (an_state b)" by blast
          with settled_dep_state [OF b _ d(2)] d(1) nf show False
            by (auto simp: dep_failed_def list_ex_iff)
        qed
        with m1 IH show ?thesis by simp
      qed
    qed
  qed
qed

lemma readyActions_settles:
  assumes "readyActions e = (e1, [])" and "topo {} (br_actions (eg_run e))" and "jm_ok (br_actions (eg_run e))"
    and "open_or_settled (br_actions (eg_run e))" and "act e1 k = Some a"
  shows "settled (an_state a)"
proof -
  let ?m = "br_actions (eg_run e)"
  obtain m1 w1 s1 where f: "foldl ready_visit (?m, [], []) (map fst ?m) = (m1, w1, s1)"
    by (cases "foldl ready_visit (?m, [], []) (map fst ?m)") auto
  with assms(1) have w: "w1 = []" "br_actions (eg_run e1) = m1" by (auto simp: readyActions_def)
  have "k \<in> set (map fst m1)" using assms(5) w(2) by (force simp: act_def dest: map_of_SomeD)
  with pass_settles [OF assms(2-4) _ f, of "[]"] w assms(5) show ?thesis by (auto simp: act_def)
qed

section \<open>The critical path\<close>

text \<open>A chain of an action: it, one of its dependencies, one of that one's, and so on, stopping
  anywhere. An unknown dependency ends it.\<close>

inductive chain :: "actions \<Rightarrow> string \<Rightarrow> string list \<Rightarrow> bool" for m where
  unknown: "jm_get m k = None \<Longrightarrow> chain m k []"
| stop: "jm_get m k = Some a \<Longrightarrow> chain m k [k]"
| dep: "jm_get m k = Some a \<Longrightarrow> d \<in> set (an_deps a) \<Longrightarrow> chain m d ks \<Longrightarrow> chain m k (k # ks)"

definition duration :: "actions \<Rightarrow> string \<Rightarrow> int" where
  "duration m k = (case jm_get m k of None \<Rightarrow> 0 | Some a \<Rightarrow> (case an_durationMs a of None \<Rightarrow> 0 | Some d \<Rightarrow> d))"

definition weight :: "actions \<Rightarrow> string list \<Rightarrow> int" where
  "weight m ks = sum_list (map (duration m) ks)"

definition longest :: "actions \<Rightarrow> string \<Rightarrow> int \<Rightarrow> bool" where
  "longest m k v \<longleftrightarrow> (\<forall>ks. chain m k ks \<longrightarrow> weight m ks \<le> v) \<and> (\<exists>ks. chain m k ks \<and> weight m ks = v)"

definition memo_ok :: "actions \<Rightarrow> (string, int) jmap \<Rightarrow> bool" where
  "memo_ok m memo \<longleftrightarrow> (\<forall>k v. jm_get memo k = Some v \<longrightarrow> longest m k v)"

lemma longest_unknown: "jm_get m k = None \<Longrightarrow> longest m k 0"
  by (auto simp: longest_def weight_def intro: chain.unknown elim: chain.cases)

lemma longest_known:
  assumes a: "jm_get m k = Some a" and r: "r = 0 \<or> (\<exists>d \<in> set (an_deps a). longest m d r)" "0 \<le> r"
    and all: "\<And>d. d \<in> set (an_deps a) \<Longrightarrow> \<exists>v. longest m d v \<and> v \<le> r"
  shows "longest m k (r + (case an_durationMs a of None \<Rightarrow> 0 | Some d \<Rightarrow> d))"
proof -
  have dur: "duration m k = (case an_durationMs a of None \<Rightarrow> 0 | Some d \<Rightarrow> d)" using a by (simp add: duration_def)
  have "weight m ks \<le> r + duration m k" if "chain m k ks" for ks
    using that
  proof cases
    case (dep b d ks')
    then have "d \<in> set (an_deps a)" using a by simp
    with all obtain v where "longest m d v" "v \<le> r" by blast
    with dep(4) have "weight m ks' \<le> r" unfolding longest_def by fastforce
    with dep show ?thesis by (simp add: weight_def)
  qed (use a r(2) in \<open>simp_all add: weight_def\<close>)
  moreover have "\<exists>ks. chain m k ks \<and> weight m ks = r + duration m k"
  proof (cases "r = 0")
    case True
    with chain.stop [OF a] show ?thesis by (intro exI [of _ "[k]"]) (simp add: weight_def)
  next
    case False
    with r obtain d ks where "d \<in> set (an_deps a)" "chain m d ks" "weight m ks = r"
      unfolding longest_def by blast
    with chain.dep [OF a] show ?thesis by (intro exI [of _ "k # ks"]) (simp add: weight_def)
  qed
  ultimately show ?thesis unfolding dur [symmetric] longest_def by blast
qed

lemma crit_sound:
  "crit_path n m memo k = Some (memo', v) \<Longrightarrow> memo_ok m memo \<Longrightarrow> memo_ok m memo' \<and> longest m k v"
  "crit_deps n m memo mx ds = Some (memo', r) \<Longrightarrow> memo_ok m memo \<Longrightarrow>
     memo_ok m memo' \<and> (r = mx \<or> (\<exists>d \<in> set ds. longest m d r)) \<and> mx \<le> r \<and>
     (\<forall>d \<in> set ds. \<exists>v. longest m d v \<and> v \<le> r)"
proof (induction n m memo k and n m memo mx ds arbitrary: memo' v and memo' r rule: crit_path_crit_deps.induct)
  case (2 n m memo k)
  show ?case
  proof (cases "jm_get memo k")
    case (Some w)
    with 2 show ?thesis by (auto simp: memo_ok_def)
  next
    case None
    show ?thesis
    proof (cases "jm_get m k")
      case kn: None
      with 2 None longest_unknown [OF kn] show ?thesis by auto
    next
      case (Some a)
      with 2 None obtain memo1 dm where d: "crit_deps n m memo 0 (an_deps a) = Some (memo1, dm)"
        "memo' = jm_set memo1 k v" "v = dm + (case an_durationMs a of None \<Rightarrow> 0 | Some d \<Rightarrow> d)"
        by (auto simp: Let_def split: option.splits)
      note IH = 2(1) [OF None Some d(1) 2(3)]
      have "longest m k v" unfolding d(3) by (rule longest_known [OF Some]) (use IH in auto)
      with IH d(2) show ?thesis by (auto simp: memo_ok_def)
    qed
  qed
next
  case (4 n m memo mx d ds)
  obtain memo1 v where p: "crit_path n m memo d = Some (memo1, v)" "crit_deps n m memo1 (max mx v) ds = Some (memo', r)"
    using 4(3) by (auto split: option.splits)
  note h = 4(1) [OF p(1) 4(4)]
  note t = 4(2) [OF p(1) refl p(2)]
  show ?case using h t by (auto simp: max_def split: if_splits)
qed simp_all

lemma crit_deps_total:
  "(\<And>d memo. d \<in> set ds \<Longrightarrow> crit_path n m memo d \<noteq> None) \<Longrightarrow> crit_deps n m memo mx ds \<noteq> None"
proof (induction ds arbitrary: memo mx)
  case (Cons d ds)
  obtain memo1 v where "crit_path n m memo d = Some (memo1, v)"
    using Cons.prems [of d memo] by auto
  with Cons show ?case by simp
qed simp

lemma crit_path_total:
  assumes "topo {} m" and "jm_ok m"
  shows "map fst m = xs @ k # ys \<Longrightarrow> length xs < n \<Longrightarrow> crit_path n m memo k \<noteq> None"
proof (induction n arbitrary: xs k ys memo)
  case (Suc n)
  show ?case
  proof (cases "jm_get memo k = None \<and> jm_get m k \<noteq> None")
    case True
    then obtain a where a: "jm_get m k = Some a" by auto
    have "crit_path n m memo1 d \<noteq> None" if "d \<in> set (an_deps a)" for d memo1
    proof -
      have "d \<in> set xs" using topo_deps [OF assms Suc.prems(1) a] that by blast
      then obtain us vs where "xs = us @ d # vs" by (auto dest: split_list)
      with Suc.prems show ?thesis by (intro Suc.IH [of us d "vs @ k # ys"]) simp_all
    qed
    then obtain z where "crit_deps n m memo 0 (an_deps a) = Some z"
      using crit_deps_total [of "an_deps a" n m memo 0] by auto
    with True a show ?thesis by (cases z) (simp add: Let_def)
  qed (auto split: option.splits)
qed simp

lemma critical_path_facts:
  assumes "topo {} m" and "jm_ok m"
  shows "\<exists>c. computeCriticalPath m = Some c \<and> 0 \<le> c \<and>
    (c = 0 \<or> (\<exists>k ks. jm_get m k \<noteq> None \<and> chain m k ks \<and> weight m ks = c)) \<and>
    (\<forall>k ks. jm_get m k \<noteq> None \<and> chain m k ks \<longrightarrow> weight m ks \<le> c)"
proof -
  have "crit_path (Suc (length m)) m memo k \<noteq> None" if "k \<in> set (map fst m)" for k memo
  proof -
    from that obtain xs ys where k: "map fst m = xs @ k # ys" by (auto dest: split_list)
    then have "length xs < length (map fst m)" by simp
    then show ?thesis by (intro crit_path_total [OF assms k]) simp
  qed
  then obtain memo c where c: "crit_deps (Suc (length m)) m [] 0 (map fst m) = Some (memo, c)"
    using crit_deps_total [of "map fst m" "Suc (length m)" m "[]" 0] by fastforce
  have "memo_ok m []" by (simp add: memo_ok_def)
  note s = crit_sound(2) [OF c this]
  have upper: "weight m ks \<le> c" if k: "jm_get m k \<noteq> None" "chain m k ks" for k ks
  proof -
    have "k \<in> set (map fst m)" using k(1) by (force dest: map_of_SomeD)
    with s obtain v where "longest m k v" "v \<le> c" by blast
    with k(2) show ?thesis unfolding longest_def by fastforce
  qed
  have attained: "c = 0 \<or> (\<exists>k ks. jm_get m k \<noteq> None \<and> chain m k ks \<and> weight m ks = c)"
  proof (cases "c = 0")
    case False
    with s obtain k where "k \<in> set (map fst m)" "longest m k c" by auto
    moreover from this(1) have "jm_get m k \<noteq> None" by (simp add: map_of_eq_None_iff)
    ultimately show ?thesis unfolding longest_def by blast
  qed simp
  have "computeCriticalPath m = Some c" "0 \<le> c" using c s by (simp_all add: computeCriticalPath_def)
  with attained show ?thesis by (intro exI [of _ c] conjI allI impI) (assumption | elim conjE, rule upper)+
qed

section \<open>The outcome\<close>

lemma shape_get: "map_of (shape m) k = map_option an_deps (jm_get m k)"
  by (simp add: shape_def get_map_values)

lemma shape_deps:
  assumes "shape m' = shape m" and "jm_get m' k = Some a'"
  obtains a where "jm_get m k = Some a" "an_deps a' = an_deps a"
proof -
  have "map_option an_deps (jm_get m k) = Some (an_deps a')"
    using assms shape_get [of m' k] shape_get [of m k] by simp
  with that show ?thesis by auto
qed

definition skipped_ok :: "actions \<Rightarrow> bool" where
  "skipped_ok m \<longleftrightarrow> (\<forall>k a. jm_get m k = Some a \<and> an_state a = Skipped \<longrightarrow> dep_failed m a)"

definition end_inv :: "engine \<Rightarrow> bool" where
  "end_inv e \<longleftrightarrow> eng_inv e \<and> topo {} (br_actions (eg_run e)) \<and> skipped_ok (br_actions (eg_run e)) \<and>
     (case eg_phase e of
        Wave ws \<Rightarrow> br_state (eg_run e) = RRunning
      | Ended \<Rightarrow> (\<forall>k a. act e k = Some a \<longrightarrow> settled (an_state a)) \<and>
          br_state (eg_run e) = run_outcome (br_actions (eg_run e)))"

lemma dep_failed_persists:
  assumes "\<And>d b. jm_get m d = Some b \<Longrightarrow> settled (an_state b) \<Longrightarrow> \<exists>b'. jm_get m' d = Some b' \<and> an_state b' = an_state b"
    and "dep_failed m a" and "an_deps a' = an_deps a"
  shows "dep_failed m' a'"
proof -
  obtain d where d: "d \<in> set (an_deps a)" "dep_state m d \<in> {Some Failed, Some Cancelled, Some Skipped}"
    using assms(2) by (auto simp: dep_failed_def list_ex_iff)
  then obtain b where b: "jm_get m d = Some b" "an_state b \<in> {Failed, Cancelled, Skipped}"
    by (auto simp: dep_state_def)
  then obtain b' where "jm_get m' d = Some b'" "an_state b' = an_state b"
    using assms(1) [of d b] by (auto simp: settled_def)
  with b(2) have "dep_state m' d \<in> {Some Failed, Some Cancelled, Some Skipped}" by (auto simp: dep_state_def)
  with d(1) assms(3) show ?thesis by (auto simp: dep_failed_def list_ex_iff)
qed

lemma move_not_skipped: "move c r fl (p, s) (p', Skipped) \<Longrightarrow> s = Skipped"
  by (erule move.cases) auto

lemma wound_skipped [simp]: "(an_state (wound a) = Skipped) = (an_state a = Skipped)"
  by (simp add: wound_def)

lemma finish_run_actions:
  "\<not> br_cancel (eg_run e) \<Longrightarrow> br_actions (eg_run (finish_run e now)) = br_actions (eg_run e)"
  by (simp add: finish_run_def Let_def split: option.split)

text \<open>An action becomes skipped in the pass over the actions only, because of a dependency.\<close>

lemma newly_skipped:
  assumes inv: "eng_inv e" and "act (engine_step opts e c) k = Some a'" and "an_state a' = Skipped"
    and "act e k = Some a" and "an_state a \<noteq> Skipped"
  shows "dep_failed (br_actions (eg_run (engine_step opts e c))) a'"
proof (cases c)
  case (Advance b now)
  have False
    using advance_cases [OF inv, of opts b now]
  proof cases
    case 1
    with Advance assms show False by simp
  next
    case 2
    show False
    proof (cases "k = b")
      case True
      with 2 Advance assms obtain p p' where
        "move (br_cancel (eg_run e)) (br_retries (eg_run e)) (an_failScheduled a) (p, an_state a) (p', an_state a')"
        unfolding moves_def by auto
      with assms(3,5) move_not_skipped show False by simp
    next
      case False
      with 2 Advance assms show False by (simp add: moves_def touches_def act_def)
    qed
  qed
  then show ?thesis ..
next
  case (NextWave now)
  have ok: "jm_ok (br_actions (eg_run e))" using inv by (simp add: eng_inv_def)
  show ?thesis
  proof (cases "wave_over e")
    case True
    with NextWave have e': "engine_step opts e c = wave_loop e now" by (simp add: next_wave_def)
    show ?thesis
    proof (cases "br_cancel (eg_run e)")
      case True
      with e' assms finish_run_effect(1) [of e now k] show ?thesis by (auto simp: wave_loop_def)
    next
      case False
      obtain e1 wave where ra: "readyActions e = (e1, wave)" by (cases "readyActions e")
      note r = readyActions_effect [OF ra ok]
      have same: "br_actions (eg_run (engine_step opts e c)) = br_actions (eg_run e1)"
        using e' False ra r enter_gates [OF r(2), of "e1\<lparr>eg_phase := Wave wave\<rparr>"]
        by (simp add: wave_loop_def finish_run_actions)
      then have "jm_get (br_actions (eg_run e1)) k = Some a'" using assms(2) by (simp add: act_def)
      with skips_cases [OF r(1), of k thesis for thesis] assms(3-5)
      obtain b where "jm_get (br_actions (eg_run e)) k = Some b" "a' = b\<lparr>an_state := Skipped\<rparr>"
        "dep_failed (br_actions (eg_run e1)) b"
        by (fastforce simp: act_def)
      with same show ?thesis by (simp add: dep_failed_def)
    qed
  qed (use NextWave assms in \<open>simp add: next_wave_def\<close>)
qed (use assms nudged_act [OF cancelBuild_nudged] nudged_act [OF pause_nudged] nudged_act [OF resume_nudged]
    nudged_act [OF step_nudged] in simp_all)

lemma step_skipped_ok:
  assumes inv: "eng_inv e" and sk: "skipped_ok (br_actions (eg_run e))"
  shows "skipped_ok (br_actions (eg_run (engine_step opts e c)))"
  unfolding skipped_ok_def
proof (intro allI impI, elim conjE)
  let ?e = "engine_step opts e c"
  fix k a'
  assume a': "jm_get (br_actions (eg_run ?e)) k = Some a'" "an_state a' = Skipped"
  obtain a where a: "act e k = Some a" "an_deps a' = an_deps a"
    using shape_deps [OF step_shape [OF inv] a'(1)] by (auto simp: act_def)
  show "dep_failed (br_actions (eg_run ?e)) a'"
  proof (cases "an_state a = Skipped")
    case True
    with sk a(1) have "dep_failed (br_actions (eg_run e)) a" by (simp add: skipped_ok_def act_def)
    then show ?thesis
    proof (rule dep_failed_persists [OF _ _ a(2), rotated])
      show "\<exists>b'. jm_get (br_actions (eg_run ?e)) d = Some b' \<and> an_state b' = an_state b"
        if "jm_get (br_actions (eg_run e)) d = Some b" "settled (an_state b)" for d b
        using settled_step [OF inv, of d b opts c] that unfolding act_def .
    qed
  next
    case False
    with newly_skipped [OF inv _ a'(2) a(1)] a'(1) show ?thesis by (simp add: act_def)
  qed
qed

lemma finish_run_state:
  assumes "topo {} (br_actions (eg_run e))" and "jm_ok (br_actions (eg_run e))"
  shows "br_state (eg_run (finish_run e now)) = run_outcome (br_actions (eg_run (finish_run e now)))"
proof -
  let ?e1 = "if br_cancel (eg_run e) then wind_down e else e"
  have "shape (br_actions (eg_run ?e1)) = shape (br_actions (eg_run e))"
    by (simp add: shape_def wind_down_actions case_prod_unfold)
  then have "topo {} (br_actions (eg_run ?e1))" using assms(1) topo_shape by blast
  moreover have "jm_ok (br_actions (eg_run ?e1))" using assms(2) wind_down_effect(2) [of e] by simp
  ultimately obtain c where "computeCriticalPath (br_actions (eg_run ?e1)) = Some c"
    using critical_path_facts by blast
  then show ?thesis by (simp add: finish_run_def Let_def)
qed

lemma between_waves:
  assumes "eng_inv e" and "eg_phase e = Wave ws" and over: "\<And>k p. jm_get (eg_pcs e) k = Some p \<Longrightarrow> p = Over"
    and "act e k = Some a"
  shows "settled (an_state a) \<or> an_state a = Pending"
proof (cases "jm_get (eg_pcs e) k")
  case None
  with unstarted [OF assms(1,2) None assms(4)] show ?thesis by (auto simp: settled_def)
next
  case (Some p)
  with over have "p = Over" by blast
  with over_settled [OF assms(1,2) _ assms(4)] Some show ?thesis by (auto simp: settled_def)
qed

lemma wave_loop_end:
  assumes inv: "eng_inv e" and ph: "eg_phase e = Wave ws" and run: "br_state (eg_run e) = RRunning"
    and over: "\<And>k p. jm_get (eg_pcs e) k = Some p \<Longrightarrow> p = Over" and t: "topo {} (br_actions (eg_run e))"
  shows "case eg_phase (wave_loop e now) of
      Wave ws \<Rightarrow> br_state (eg_run (wave_loop e now)) = RRunning
    | Ended \<Rightarrow> (\<forall>k a. act (wave_loop e now) k = Some a \<longrightarrow> settled (an_state a)) \<and>
        br_state (eg_run (wave_loop e now)) = run_outcome (br_actions (eg_run (wave_loop e now)))"
proof -
  have ok: "jm_ok (br_actions (eg_run e))" using inv by (simp add: eng_inv_def)
  show ?thesis
  proof (cases "br_cancel (eg_run e)")
    case True
    have "settled (an_state a)" if "act (finish_run e now) k = Some a" for k a
    proof -
      have "map_option wound (act e k) = Some a" using that True finish_run_effect(1) [of e now k] by simp
      then obtain b where "act e k = Some b" "a = wound b" by auto
      moreover from this have "settled (an_state b) \<or> an_state b = Pending"
        using over by (intro between_waves [OF inv ph, of k]) blast+
      ultimately show ?thesis by (auto simp: wound_def settled_def)
    qed
    with True finish_run_state [OF t ok] finish_run_effect(5) show ?thesis by (auto simp: wave_loop_def)
  next
    case False
    obtain e1 wave where ra: "readyActions e = (e1, wave)" by (cases "readyActions e")
    note r = readyActions_effect [OF ra ok]
    have ok1: "jm_ok (br_actions (eg_run e1))" using r(1) ok by (simp add: skips_def)
    have t1: "topo {} (br_actions (eg_run e1))" using topo_shape [OF skips_shape [OF ok r(1)]] t by simp
    show ?thesis
    proof (cases "wave = []")
      case True
      have os: "open_or_settled (br_actions (eg_run e))"
        using between_waves [OF inv ph] over unfolding open_or_settled_def act_def by blast
      have "settled (an_state a)" if "act (finish_run e1 now) k = Some a" for k a
        using readyActions_settles [OF ra [unfolded True] t ok os] that False r(6) finish_run_effect(1) [of e1 now k] by simp
      with True False ra finish_run_state [OF t1 ok1] finish_run_effect(5) [of e1 now] show ?thesis
        by (auto simp: wave_loop_def)
    next
      case w: False
      let ?e2 = "foldl enter_gate1 (e1\<lparr>eg_phase := Wave wave\<rparr>) wave"
      have "br_state (eg_run (foldl enter_gate1 e' ws')) = br_state (eg_run e')" for e' ws'
      proof (induction ws' rule: rev_induct)
        case (snoc x ws')
        then show ?case using enter_gate1_effect [of "foldl enter_gate1 e' ws'" x] by (simp add: touches_def)
      qed simp
      with w False ra r(8) run enter_gates [OF r(2), of "e1\<lparr>eg_phase := Wave wave\<rparr>"] show ?thesis
        by (simp add: wave_loop_def)
    qed
  qed
qed

lemma nudged_end:
  assumes "end_inv e" and "nudged e e'"
  shows "end_inv e'"
  using assms nudged_inv [OF _ assms(2)] nudged_act [OF assms(2)] unfolding end_inv_def
  by (simp add: nudged_def split: phase.splits)

interpretation ending: preserved "engine_step opts" end_inv for opts
proof
  fix e c
  assume inv: "end_inv e"
  then have i: "eng_inv e" "topo {} (br_actions (eg_run e))" "skipped_ok (br_actions (eg_run e))"
    by (simp_all add: end_inv_def)
  let ?e = "engine_step opts e c"
  have base: "eng_inv ?e" "topo {} (br_actions (eg_run ?e))" "skipped_ok (br_actions (eg_run ?e))"
    using build.step_inv [OF i(1)] topo_shape [OF step_shape [OF i(1)]] i(2) step_skipped_ok [OF i(1,3)] by simp_all
  show "end_inv ?e"
  proof (cases c)
    case (Advance a now)
    show ?thesis
    proof (cases "eg_phase e")
      case (Wave ws)
      have "eg_phase ?e = eg_phase e \<and> br_state (eg_run ?e) = br_state (eg_run e)"
        using advance_cases [OF i(1), of opts a now] Advance by cases (simp_all add: moves_def touches_def)
      with inv base Wave show ?thesis by (simp add: end_inv_def)
    next
      case Ended
      have "jm_get (eg_pcs e) a = None \<or> jm_get (eg_pcs e) a = Some Over"
        using eng_inv_ended(1) [OF i(1) Ended, of a] by (cases "jm_get (eg_pcs e) a") auto
      then have "?e = e" using Advance by (auto simp: advance_def)
      with inv show ?thesis by simp
    qed
  next
    case (NextWave now)
    show ?thesis
    proof (cases "wave_over e")
      case True
      obtain ws where ws: "eg_phase e = Wave ws" "\<And>k p. jm_get (eg_pcs e) k = Some p \<Longrightarrow> p = Over"
        using wave_over_all [OF i(1) True] by blast
      have "br_state (eg_run e) = RRunning" using inv ws(1) by (simp add: end_inv_def)
      note fin = wave_loop_end [OF i(1) ws(1) this _ i(2), where now = now]
      have eq: "?e = wave_loop e now" using NextWave True by (simp add: next_wave_def)
      have "end_inv (wave_loop e now)"
        using fin ws(2) base [unfolded eq] unfolding end_inv_def by simp
      with eq show ?thesis by simp
    qed (use NextWave inv in \<open>simp add: next_wave_def\<close>)
  qed (use inv in \<open>auto intro: nudged_end cancelBuild_nudged pause_nudged resume_nudged step_nudged\<close>)
qed

lemma run_end_inv: "end_inv (engine_run opts (startBuild nodes cas b p ts f r now) evs)"
proof -
  let ?e = "fresh_engine nodes cas (new_run b p ts f r now)"
  have e: "eng_inv ?e" by (rule fresh_inv)
  have ph: "eg_phase ?e = Wave []" "br_state (eg_run ?e) = RRunning" "jm_get (eg_pcs ?e) k = None" for k
    by (simp_all add: fresh_engine_def new_run_def)
  have acts: "br_actions (eg_run ?e) = build_actions p ts f" by (simp add: fresh_engine_def new_run_def)
  have t: "topo {} (br_actions (eg_run ?e))" using build_catalog by (simp add: acts catalog_ok_def)
  have wo: "wave_over ?e" by (simp add: wave_over_def ph)
  then have s: "startBuild nodes cas b p ts f r now = engine_step opts ?e (NextWave now)"
    by (simp add: startBuild_fresh next_wave_def)
  have "skipped_ok (br_actions (eg_run ?e))"
    using build_actions_ok(2) [of p ts f] by (auto simp: skipped_ok_def acts)
  with e t ph have "end_inv ?e" by (simp add: end_inv_def)
  then have "end_inv (startBuild nodes cas b p ts f r now)"
    unfolding s by (rule ending.step_inv)
  then show ?thesis unfolding engine_run_def by (rule ending.run_inv)
qed

lemma skipped_has_cause:
  assumes "topo {} m" and "jm_ok m" and "skipped_ok m"
    and "jm_get m k = Some a" and "an_state a = Skipped"
  shows "\<exists>d b. jm_get m d = Some b \<and> (an_state b = Failed \<or> an_state b = Cancelled)"
proof -
  have "map fst m = xs @ k # ys \<Longrightarrow> jm_get m k = Some a \<Longrightarrow> an_state a = Skipped \<Longrightarrow> ?thesis" for xs ys k a
  proof (induction "length xs" arbitrary: xs k a ys rule: less_induct)
    case less
    have "dep_failed m a" using assms(3) less.prems unfolding skipped_ok_def by blast
    then obtain d where d: "d \<in> set (an_deps a)" "dep_state m d \<in> {Some Failed, Some Cancelled, Some Skipped}"
      by (auto simp: dep_failed_def list_ex_iff)
    then obtain b where b: "jm_get m d = Some b" "an_state b \<in> {Failed, Cancelled, Skipped}"
      by (auto simp: dep_state_def)
    show ?case
    proof (cases "an_state b = Skipped")
      case True
      have "d \<in> set xs" using topo_deps [OF assms(1,2) less.prems(1,2)] d(1) by blast
      then obtain us vs where "xs = us @ d # vs" by (auto dest: split_list)
      with less.prems(1) show ?thesis
        by (intro less.hyps [of us d "vs @ k # ys" b]) (use b True in simp_all)
    qed (use b in auto)
  qed
  moreover have "k \<in> set (map fst m)" using assms(4) by (force dest: map_of_SomeD)
  then obtain xs ys where "map fst m = xs @ k # ys" by (auto dest: split_list)
  ultimately show ?thesis using assms(4,5) by blast
qed

lemma outcome_meaning:
  assumes "topo {} m" and "jm_ok m" and "skipped_ok m"
    and settled: "\<forall>k a. jm_get m k = Some a \<longrightarrow> settled (an_state a)"
  shows "(run_outcome m = RSucceeded \<longleftrightarrow> (\<forall>k a. jm_get m k = Some a \<longrightarrow> an_state a = Done)) \<and>
    (run_outcome m = RCancelled \<longleftrightarrow> (\<exists>k a. jm_get m k = Some a \<and> an_state a = Cancelled)) \<and>
    (run_outcome m = RFailed \<longleftrightarrow> (\<exists>k a. jm_get m k = Some a \<and> an_state a = Failed) \<and>
       (\<forall>k a. jm_get m k = Some a \<longrightarrow> an_state a \<noteq> Cancelled))"
proof -
  have ex: "list_ex P (jm_values m) \<longleftrightarrow> (\<exists>k a. jm_get m k = Some a \<and> P a)" for P
    using assms(2) by (force simp: list_ex_iff)
  have "(\<forall>k a. jm_get m k = Some a \<longrightarrow> an_state a = Done) \<longleftrightarrow>
      \<not> (\<exists>k a. jm_get m k = Some a \<and> an_state a = Cancelled) \<and> \<not> (\<exists>k a. jm_get m k = Some a \<and> an_state a = Failed)"
  proof
    assume r: "\<not> (\<exists>k a. jm_get m k = Some a \<and> an_state a = Cancelled) \<and> \<not> (\<exists>k a. jm_get m k = Some a \<and> an_state a = Failed)"
    show "\<forall>k a. jm_get m k = Some a \<longrightarrow> an_state a = Done"
    proof (intro allI impI)
      fix k a
      assume a: "jm_get m k = Some a"
      have "an_state a \<noteq> Skipped" using skipped_has_cause [OF assms(1-3) a] r by blast
      moreover have "settled (an_state a)" using settled a by blast
      ultimately show "an_state a = Done" using r a by (auto simp: settled_def)
    qed
  qed fastforce
  then show ?thesis unfolding run_outcome_def ex by auto
qed

text \<open>C18: A build that ends leaves nothing behind. For every project, target list, failure injection
  and retry budget, and whatever happened meanwhile: in the ended state every action is done, failed,
  skipped or cancelled, an action is skipped only with a failed, cancelled or skipped dependency, and
  the build's state is succeeded exactly when every action is done, cancelled exactly when some action
  is, and failed exactly when one failed and none was cancelled.\<close>

theorem build_settles:
  assumes "e = engine_run opts (startBuild nodes cas buildId project targets failAction retries now) evs"
    and "eg_phase e = Ended"
  shows "(\<forall>k a. act e k = Some a \<longrightarrow> settled (an_state a)) \<and>
    (\<forall>k a. act e k = Some a \<and> an_state a = Skipped \<longrightarrow> dep_failed (br_actions (eg_run e)) a) \<and>
    (br_state (eg_run e) = RSucceeded \<longleftrightarrow> (\<forall>k a. act e k = Some a \<longrightarrow> an_state a = Done)) \<and>
    (br_state (eg_run e) = RCancelled \<longleftrightarrow> (\<exists>k a. act e k = Some a \<and> an_state a = Cancelled)) \<and>
    (br_state (eg_run e) = RFailed \<longleftrightarrow> (\<exists>k a. act e k = Some a \<and> an_state a = Failed) \<and>
       (\<forall>k a. act e k = Some a \<longrightarrow> an_state a \<noteq> Cancelled))"
proof -
  have inv: "end_inv e" unfolding assms(1) by (rule run_end_inv)
  then have i: "topo {} (br_actions (eg_run e))" "jm_ok (br_actions (eg_run e))" "skipped_ok (br_actions (eg_run e))"
    "\<forall>k a. jm_get (br_actions (eg_run e)) k = Some a \<longrightarrow> settled (an_state a)"
    "br_state (eg_run e) = run_outcome (br_actions (eg_run e))"
    using assms(2) by (simp_all add: end_inv_def eng_inv_def act_def)
  show ?thesis
    using i(3,4) outcome_meaning [OF i(1-4)] unfolding skipped_ok_def act_def i(5) by (intro conjI) simp_all
qed

text \<open>C20: The critical path is the heaviest chain. In every state of a build \<open>computeCriticalPath\<close>
  returns, and its value is the greatest total duration along a chain of actions each depending on the
  next: no chain is heavier, and one has that weight unless it is zero. The memo changes nothing.\<close>

theorem critical_path_is_heaviest_chain:
  assumes "m = br_actions (eg_run (engine_run opts (startBuild nodes cas buildId project targets failAction retries now) evs))"
  shows "\<exists>c. computeCriticalPath m = Some c \<and> 0 \<le> c \<and>
    (c = 0 \<or> (\<exists>k ks. jm_get m k \<noteq> None \<and> chain m k ks \<and> weight m ks = c)) \<and>
    (\<forall>k ks. jm_get m k \<noteq> None \<and> chain m k ks \<longrightarrow> weight m ks \<le> c)"
proof -
  have "end_inv (engine_run opts (startBuild nodes cas buildId project targets failAction retries now) evs)"
    by (rule run_end_inv)
  then have "topo {} m" "jm_ok m" by (simp_all add: assms end_inv_def eng_inv_def)
  then show ?thesis by (rule critical_path_facts)
qed

text \<open>A build whose first action fails: everything after it is skipped.\<close>

definition demo_failed :: engine where
  "demo_failed = engine_run demo_opts (demo_start (Some ''p:t:fetch'') None)
     [Advance ''p:t:fetch'' 1, Advance ''p:t:fetch'' 2, Advance ''p:t:fetch'' 30, NextWave 40]"

definition digest :: "engine \<Rightarrow> bool \<times> (string \<times> act_state \<times> int option) list" where
  "digest e = (eg_phase e = Ended, map (\<lambda>(k, a). (k, an_state a, an_durationMs a)) (br_actions (eg_run e)))"

lemma demo_failed_digest:
  "digest demo_failed =
     (True, (''p:t:fetch'', Failed, Some 29) #
        map (\<lambda>s. (''p:t:'' @ s, Skipped, None)) [''toolchain'', ''configure'', ''compile'', ''test'', ''package'', ''stamp''])"
  by code_simp

lemma demo_failed_ends:
  "eg_phase demo_failed = Ended \<and> map_option an_state (act demo_failed ''p:t:fetch'') = Some Failed \<and>
   map_option an_durationMs (act demo_failed ''p:t:fetch'') = Some (Some 29) \<and>
   map_option an_state (act demo_failed ''p:t:stamp'') = Some Skipped"
proof -
  have "map_option (\<lambda>a. (an_state a, an_durationMs a)) (act demo_failed k) = map_of (snd (digest demo_failed)) k" for k
    by (simp add: digest_def act_def get_map_values)
  from this [of "''p:t:fetch''"] this [of "''p:t:stamp''"] demo_failed_digest show ?thesis
    by (auto simp: digest_def)
qed

theorem build_settles_witness:
  "br_state (eg_run demo_failed) \<noteq> RSucceeded \<and>
   (\<exists>a. act demo_failed ''p:t:stamp'' = Some a \<and> dep_failed (br_actions (eg_run demo_failed)) a)"
proof -
  note s = build_settles [OF demo_failed_def [unfolded demo_start_def] conjunct1 [OF demo_failed_ends]]
  obtain a where a: "act demo_failed ''p:t:stamp'' = Some a" "an_state a = Skipped" using demo_failed_ends by auto
  have "dep_failed (br_actions (eg_run demo_failed)) a" by (rule conjunct1 [OF conjunct2 [OF s], rule_format, OF conjI [OF a]])
  moreover have "br_state (eg_run demo_failed) = RSucceeded \<longrightarrow> an_state a = Done"
    unfolding conjunct1 [OF conjunct2 [OF conjunct2 [OF s]]] using a(1) by iprover
  ultimately show ?thesis using a by auto
qed

theorem critical_path_is_heaviest_chain_witness:
  "\<exists>c. computeCriticalPath (br_actions (eg_run demo_failed)) = Some c \<and> 29 \<le> c"
proof -
  let ?m = "br_actions (eg_run demo_failed)"
  obtain a where a: "jm_get ?m ''p:t:fetch'' = Some a" "an_durationMs a = Some 29"
    using demo_failed_ends by (auto simp: act_def)
  then have w: "weight ?m [''p:t:fetch''] = 29" by (simp add: weight_def duration_def)
  obtain c where c: "computeCriticalPath ?m = Some c" "\<forall>k ks. jm_get ?m k \<noteq> None \<and> chain ?m k ks \<longrightarrow> weight ?m ks \<le> c"
    using critical_path_is_heaviest_chain [OF arg_cong [OF demo_failed_def [unfolded demo_start_def], of "\<lambda>e. br_actions (eg_run e)"]]
    by blast
  have "weight ?m [''p:t:fetch''] \<le> c" using c(2) chain.stop [OF a(1)] a(1) by blast
  with w c(1) show ?thesis by simp
qed

section \<open>Progress\<close>

text \<open>The work an action has left, with \<open>r\<close> retries allowed.\<close>

definition pc_work :: "nat \<Rightarrow> pc \<Rightarrow> nat" where
  "pc_work r p =
     (case p of
        Passed1 \<Rightarrow> 6 * r + 11 | Blocked1 \<Rightarrow> 6 * r + 12 | Woken1 \<Rightarrow> 6 * r + 12 | CacheWait n \<Rightarrow> 1
      | Passed2 n k f \<Rightarrow> 6 * (r + 2 - k) + 3 | Blocked2 n k f \<Rightarrow> 6 * (r + 2 - k) + 4
      | Woken2 n k f \<Rightarrow> 6 * (r + 2 - k) + 4 | Working n k f \<Rightarrow> 6 * (r + 2 - k) + 2
      | Backoff n k f \<Rightarrow> 6 * (r + 2 - k) + 1 | Stamping n \<Rightarrow> 1 | Over \<Rightarrow> 0)"

definition action_work :: "engine \<Rightarrow> string \<Rightarrow> nat" where
  "action_work e k =
     (case jm_get (eg_pcs e) k of
        Some p \<Rightarrow> pc_work (br_retries (eg_run e)) p
      | None \<Rightarrow> if map_option an_state (act e k) = Some Pending then 6 * br_retries (eg_run e) + 13 else 0)"

definition work_left :: "engine \<Rightarrow> nat" where
  "work_left e =
     (case eg_phase e of
        Ended \<Rightarrow> 0
      | Wave ws \<Rightarrow> 1 + sum_list (map (action_work e) (map fst (br_actions (eg_run e)))))"

lemma action_work_cong:
  "br_retries (eg_run e') = br_retries (eg_run e) \<Longrightarrow> jm_get (eg_pcs e') k = jm_get (eg_pcs e) k \<Longrightarrow>
   act e' k = act e k \<Longrightarrow> action_work e' k = action_work e k"
  by (simp only: action_work_def)

lemma sum_list_less:
  fixes f g :: "'a \<Rightarrow> nat"
  assumes "\<And>x. x \<in> set xs \<Longrightarrow> f x \<le> g x" and "x \<in> set xs" and "f x < g x"
  shows "sum_list (map f xs) < sum_list (map g xs)"
proof -
  obtain us vs where xs: "xs = us @ x # vs" using assms(2) by (auto dest: split_list)
  have "sum_list (map f us) \<le> sum_list (map g us)" "sum_list (map f vs) \<le> sum_list (map g vs)"
    using assms(1) by (auto simp: xs intro!: sum_list_mono)
  with assms(3) show ?thesis by (simp add: xs)
qed

lemma gate_body_unpaused: "\<not> br_paused r \<Longrightarrow> gate_body r a g = (r, True)"
  by (simp add: gate_body_def)

lemma enter_gate2_unpaused: "\<not> br_paused (eg_run e) \<Longrightarrow> enter_gate2 e a n k f = set_pc e a (Passed2 n k f)"
  by (simp add: enter_gate2_def gate_body_unpaused set_run_def)

lemma enter_gate1_unpaused: "\<not> br_paused (eg_run e) \<Longrightarrow> enter_gate1 e a = set_pc e a Passed1"
  by (simp add: enter_gate1_def gate_body_unpaused set_run_def)

lemma paused_frame [simp]:
  "br_paused (eg_run (upd_action e a h)) = br_paused (eg_run e)" "br_paused (eg_run (set_nodes e m)) = br_paused (eg_run e)"
  "br_paused (eg_run (set_pc e a p)) = br_paused (eg_run e)"
  by (simp_all add: engine_defs)

lemma choose_some: "states \<noteq> [] \<Longrightarrow> \<exists>d. chooseBestNode states policy = Some d"
  by (cases states) (auto simp: chooseBestNode_def Let_def split: prod.split)

lemma advance_work:
  assumes "\<not> br_paused (eg_run e)" and p: "jm_get (eg_pcs e) a = Some p" and "tries_ok (br_retries (eg_run e)) p"
    and "p \<noteq> Over" and "blocked_at p = None" and "eg_nodes e \<noteq> []"
  shows "\<exists>p'. jm_get (eg_pcs (advance opts e a now)) a = Some p' \<and>
    pc_work (br_retries (eg_run e)) p' < pc_work (br_retries (eg_run e)) p \<and> \<not> br_paused (eg_run (advance opts e a now))"
proof (cases p)
  case Passed1
  obtain st n sc re scs where d: "chooseBestNode (jm_values (eg_nodes e)) (op_policy opts) = Some (st, n, sc, re, scs)"
    using choose_some [of "jm_values (eg_nodes e)" "op_policy opts"] assms(6) by auto
  show ?thesis
    using assms(1) p Passed1 d
    by (auto simp: advance_def after_gate1_def Let_def enter_gate2_unpaused pc_work_def)
qed (use assms in \<open>auto simp: advance_def after_cache_def after_gate2_def after_work_def after_stamp_def
      action_cancelled_def Let_def enter_gate1_unpaused enter_gate2_unpaused pc_work_def tries_ok_def\<close>)

text \<open>What the argument needs of a state beside the invariants: its wave has coroutines, the registry
  has nodes, and the build is not paused.\<close>

definition going :: "(string \<Rightarrow> int) \<Rightarrow> engine \<Rightarrow> bool" where
  "going base e \<longleftrightarrow> build_inv base e \<and> eg_nodes e \<noteq> [] \<and> \<not> br_paused (eg_run e) \<and>
     (case eg_phase e of Ended \<Rightarrow> True | Wave ws \<Rightarrow> \<forall>k \<in> set ws. jm_get (eg_pcs e) k \<noteq> None)"

lemma going_unblocked:
  assumes "going base e" and "jm_get (eg_pcs e) a = Some p"
  shows "blocked_at p = None"
proof (cases "blocked_at p")
  case (Some g)
  have "gate_inv e" "\<not> br_paused (eg_run e)" using assms(1) by (simp_all add: going_def build_inv_def)
  then have "\<not> Option.bind (jm_get (eg_pcs e) a) blocked_at = Some g"
    unfolding gate_inv_def by (metis empty_iff list.set(1))
  with Some assms(2) show ?thesis by simp
qed

lemma advance_nodes: "eg_nodes e \<noteq> [] \<Longrightarrow> eg_nodes (advance opts e a now) \<noteq> []"
proof -
  have mod: "jm_modify m n h \<noteq> []" if "m \<noteq> []" for m :: node_registry and n h
    using that by (cases m) auto
  have g: "eg_nodes (enter_gate1 e a) = eg_nodes e" "eg_nodes (enter_gate2 e a n k f) = eg_nodes e" for e n k f
    by (simp_all add: enter_gate1_def enter_gate2_def split: prod.split)
  have z: "zip (map fst m) st \<noteq> []" if "m \<noteq> []" "chooseBestNode (jm_values m) pol = Some (st, d)" for m st d pol
  proof -
    obtain n sc re scs where "d = (n, sc, re, scs)" by (cases d)
    with that chosen_registered(1) [of "jm_values m" pol st n sc re scs] show ?thesis by (cases m) auto
  qed
  assume "eg_nodes e \<noteq> []"
  then show ?thesis
    by (auto simp: advance_def after_gate1_def after_cache_def after_gate2_def after_work_def after_stamp_def
        action_cancelled_def claim_node_def free_node_def bumpInstability_def Let_def g mod
        dest: z split: option.split pc.split)
qed

lemma advance_going:
  assumes g: "going base e"
  shows "advance opts e a now = e \<or>
    going base (advance opts e a now) \<and> eg_phase (advance opts e a now) = eg_phase e \<and>
      work_left (advance opts e a now) < work_left e"
proof (cases "jm_get (eg_pcs e) a = None \<or> jm_get (eg_pcs e) a = Some Over")
  case True
  then show ?thesis by (auto simp: advance_def)
next
  case False
  then obtain p where p: "jm_get (eg_pcs e) a = Some p" "p \<noteq> Over" by auto
  let ?e = "advance opts e a now"
  have inv: "build_inv base e" "eng_inv e" "all_tries_ok e" "\<not> br_paused (eg_run e)" "eg_nodes e \<noteq> []"
    using g by (simp_all add: going_def build_inv_def)
  obtain ws where ws: "eg_phase e = Wave ws"
    using p eng_inv_ended(1) [OF inv(2)] by (cases "eg_phase e") auto
  obtain p' where p': "jm_get (eg_pcs ?e) a = Some p'" "pc_work (br_retries (eg_run e)) p' < pc_work (br_retries (eg_run e)) p"
    "\<not> br_paused (eg_run ?e)"
    using advance_work [OF inv(4) p(1) _ p(2) going_unblocked [OF g p(1)] inv(5), of opts now] inv(3) p(1)
    by (auto simp: all_tries_ok_def)
  obtain x where x: "act e a = Some x" using inv(2) p(1) unfolding eng_inv_def started_ok_def by blast
  have t: "touches e a ?e" using advance_moves [OF p(1) x] by (simp add: moves_def)
  have same: "action_work ?e k = action_work e k" if "k \<noteq> a" for k
    by (rule action_work_cong) (use t that in \<open>simp_all add: touches_def act_def\<close>)
  have less: "action_work ?e a < action_work e a"
    using p p' t by (simp add: action_work_def touches_def)
  have keys: "map fst (br_actions (eg_run ?e)) = map fst (br_actions (eg_run e))" "eg_phase ?e = eg_phase e"
    using t by (simp_all add: touches_def)
  have "a \<in> set (map fst (br_actions (eg_run e)))" using x by (force simp: act_def dest: map_of_SomeD)
  then have "sum_list (map (action_work ?e) (map fst (br_actions (eg_run e)))) <
      sum_list (map (action_work e) (map fst (br_actions (eg_run e))))"
    by (rule sum_list_less [rotated]) (use less same in \<open>auto, metis less_imp_le order_refl\<close>)
  then have "work_left ?e < work_left e" using keys ws by (simp add: work_left_def)
  moreover have "jm_get (eg_pcs ?e) k \<noteq> None" if "k \<in> set ws" for k
    using that t p' g ws by (cases "k = a") (auto simp: touches_def going_def)
  moreover have "build_inv base ?e" using full.step_inv [OF inv(1), of opts "Advance a now"] by simp
  ultimately show ?thesis
    using keys ws p'(3) advance_nodes [OF inv(5)] by (simp add: going_def)
qed

lemma wave_going:
  assumes g: "going base e" and wo: "wave_over e"
  shows "going base (wave_loop e now) \<and> work_left (wave_loop e now) < work_left e"
proof -
  have inv: "build_inv base e" "eng_inv e" "\<not> br_paused (eg_run e)" "eg_nodes e \<noteq> []"
    using g by (simp_all add: going_def build_inv_def)
  have ok: "jm_ok (br_actions (eg_run e))" using inv(2) by (simp add: eng_inv_def)
  obtain ws where ws: "eg_phase e = Wave ws" "\<And>k p. jm_get (eg_pcs e) k = Some p \<Longrightarrow> p = Over"
    using wave_over_all [OF inv(2) wo] by blast
  have binv: "build_inv base (wave_loop e now)" by (rule wave_loop_build [OF inv(1) ws])
  have nodes: "eg_nodes (wave_loop e now) \<noteq> []" using wave_loop_pcs [OF ok] inv(4) by simp
  have fp: "br_paused (eg_run (finish_run e' now)) = br_paused (eg_run e')" for e'
    by (simp add: finish_run_def Let_def wind_down_def split: option.split)
  have stop: ?thesis if "wave_loop e now = finish_run e' now" "\<not> br_paused (eg_run e')" for e'
    using that binv nodes fp [of e'] finish_run_effect(5) [of e' now] ws(1) by (simp add: going_def work_left_def)
  show ?thesis
  proof (cases "br_cancel (eg_run e)")
    case True
    then show ?thesis using stop [of e] inv(3) by (simp add: wave_loop_def)
  next
    case False
    obtain e1 wave where ra: "readyActions e = (e1, wave)" by (cases "readyActions e")
    note r = readyActions_effect [OF ra ok]
    have p1: "\<not> br_paused (eg_run e1)" using ra inv(3) by (auto simp: readyActions_def Let_def split: prod.splits)
    show ?thesis
    proof (cases "wave = []")
      case True
      with False ra show ?thesis using stop [OF _ p1] by (simp add: wave_loop_def)
    next
      case w: False
      let ?e2 = "foldl enter_gate1 (e1\<lparr>eg_phase := Wave wave\<rparr>) wave"
      note eg = enter_gates [OF r(2), of "e1\<lparr>eg_phase := Wave wave\<rparr>"]
      have loop: "wave_loop e now = ?e2" using False ra w by (simp add: wave_loop_def)
      have "\<not> br_paused (eg_run (foldl enter_gate1 e' ks))" if "\<not> br_paused (eg_run e')" for e' ks
        using that by (induction ks arbitrary: e') (simp_all add: enter_gate1_unpaused)
      then have p2: "\<not> br_paused (eg_run ?e2)" using p1 by simp
      have keys: "map fst (br_actions (eg_run ?e2)) = map fst (br_actions (eg_run e))" "br_retries (eg_run ?e2) = br_retries (eg_run e)"
        using eg r by (simp_all add: skips_def)
      have act2: "act ?e2 k = act e1 k" for k using eg by (simp add: act_def)
      have new: "jm_get (eg_pcs e) k = None \<and> map_option an_state (act e k) = Some Pending" if k: "k \<in> set wave" for k
      proof -
        obtain a where a: "act e1 k = Some a" "an_state a = Pending" using r(9) [OF k] by blast
        have e: "act e k = Some a"
          by (rule skips_cases [OF r(1), of k]) (use a in \<open>auto simp: act_def\<close>)
        with a(2) have "jm_get (eg_pcs e) k = None"
          using over_settled [OF inv(2) ws(1) _ e] ws(2) False by (cases "jm_get (eg_pcs e) k") auto
        with e a(2) show ?thesis by simp
      qed
      have wave_less: "action_work ?e2 k < action_work e k" if k: "k \<in> set wave" for k
      proof -
        obtain p where p: "jm_get (eg_pcs ?e2) k = Some p" "at_gate1 p" using eg k by blast
        then have "pc_work r p < 6 * r + 13" for r by (cases p) (simp_all add: pc_work_def)
        with p new [OF k] keys(2) show ?thesis by (simp add: action_work_def)
      qed
      have other: "action_work ?e2 k \<le> action_work e k" if k: "k \<notin> set wave" for k
      proof -
        have "jm_get (eg_pcs ?e2) k = jm_get (eg_pcs e) k" using eg k r(3) by simp
        moreover have "map_option an_state (act ?e2 k) = Some Pending \<Longrightarrow> map_option an_state (act e k) = Some Pending"
          by (rule skips_cases [OF r(1), of k]) (use act2 [of k] in \<open>auto simp: act_def\<close>)
        ultimately show ?thesis using keys(2) by (auto simp: action_work_def split: option.split)
      qed
      obtain k where k: "k \<in> set wave" using w by (cases wave) auto
      then have "k \<in> set (map fst (br_actions (eg_run e)))"
        using new by (force simp: act_def dest: map_of_SomeD)
      then have "sum_list (map (action_work ?e2) (map fst (br_actions (eg_run e)))) <
          sum_list (map (action_work e) (map fst (br_actions (eg_run e))))"
        by (rule sum_list_less [rotated]) (use wave_less [OF k] wave_less other in \<open>auto, metis less_imp_le\<close>)
      then have "work_left ?e2 < work_left e" using keys eg ws(1) by (simp add: work_left_def)
      moreover have "jm_get (eg_pcs ?e2) k \<noteq> None" if "k \<in> set wave" for k using eg that by auto
      ultimately show ?thesis using binv nodes p2 eg unfolding loop by (simp add: going_def)
    qed
  qed
qed

text \<open>The state at the start of an unpaused continuation.\<close>

lemma wave_started:
  assumes "case eg_phase e of Ended \<Rightarrow> True | Wave ws \<Rightarrow> \<forall>k \<in> set ws. jm_get (eg_pcs e) k \<noteq> None"
    and "eng_inv e"
  shows "case eg_phase (engine_step opts e c) of Ended \<Rightarrow> True
    | Wave ws \<Rightarrow> \<forall>k \<in> set ws. jm_get (eg_pcs (engine_step opts e c)) k \<noteq> None"
proof -
  have keep: ?thesis if "eg_phase (engine_step opts e c) = eg_phase e"
    "\<And>k. jm_get (eg_pcs e) k \<noteq> None \<Longrightarrow> jm_get (eg_pcs (engine_step opts e c)) k \<noteq> None"
    using that assms(1) by (auto split: phase.splits)
  have ok: "jm_ok (br_actions (eg_run e))" using assms(2) by (simp add: eng_inv_def)
  show ?thesis
  proof (cases c)
    case (Advance a now)
    have "eg_phase (advance opts e a now) = eg_phase e \<and>
        (\<forall>k. jm_get (eg_pcs e) k \<noteq> None \<longrightarrow> jm_get (eg_pcs (advance opts e a now)) k \<noteq> None)"
      using advance_cases [OF assms(2), of opts a now]
    proof cases
      case 2
      then show ?thesis by (auto simp: moves_def touches_def)
    qed simp
    with Advance keep show ?thesis by simp
  next
    case (NextWave now)
    show ?thesis
    proof (cases "wave_over e \<and> \<not> br_cancel (eg_run e)")
      case True
      obtain e1 wave where ra: "readyActions e = (e1, wave)" by (cases "readyActions e")
      note eg = enter_gates [OF readyActions_effect(2) [OF ra ok], of "e1\<lparr>eg_phase := Wave wave\<rparr>"]
      have "\<forall>k \<in> set wave. jm_get (eg_pcs (foldl enter_gate1 (e1\<lparr>eg_phase := Wave wave\<rparr>) wave)) k \<noteq> None"
        using eg by auto
      with NextWave True ra eg show ?thesis
        by (simp add: next_wave_def wave_loop_def finish_run_effect(5))
    next
      case False
      have "engine_step opts e c = e \<or> eg_phase (engine_step opts e c) = Ended"
        using False NextWave by (auto simp: next_wave_def wave_loop_def finish_run_effect(5))
      then show ?thesis
      proof
        assume "engine_step opts e c = e"
        show ?thesis unfolding \<open>engine_step opts e c = e\<close> by (rule assms(1))
      qed simp
    qed
  qed (use keep nudged_none [OF cancelBuild_nudged] nudged_none [OF pause_nudged] nudged_none [OF resume_nudged]
      nudged_none [OF step_nudged] in \<open>simp_all add: nudged_def [THEN iffD1, OF cancelBuild_nudged]
        nudged_def [THEN iffD1, OF pause_nudged] nudged_def [THEN iffD1, OF resume_nudged]
        nudged_def [THEN iffD1, OF step_nudged]\<close>)
qed

definition ready_inv :: "(string \<Rightarrow> int) \<Rightarrow> engine \<Rightarrow> bool" where
  "ready_inv base e \<longleftrightarrow> build_inv base e \<and> eg_nodes e \<noteq> [] \<and>
     (case eg_phase e of Ended \<Rightarrow> True | Wave ws \<Rightarrow> \<forall>k \<in> set ws. jm_get (eg_pcs e) k \<noteq> None)"

interpretation ready: preserved "engine_step opts" "ready_inv base" for opts base
proof
  fix e c
  assume r: "ready_inv base e"
  then have inv: "build_inv base e" "eng_inv e" "jm_ok (br_actions (eg_run e))"
    by (simp_all add: ready_inv_def build_inv_def eng_inv_def)
  have "eg_nodes (engine_step opts e c) \<noteq> []"
  proof (cases c)
    case (Advance a now)
    with r advance_nodes show ?thesis by (simp add: ready_inv_def)
  next
    case (NextWave now)
    with r wave_loop_pcs [OF inv(3), of now] show ?thesis by (simp add: ready_inv_def next_wave_def)
  qed (use r cancelBuild_nudged [of e] pause_nudged [of e] resume_nudged [of e] step_nudged [of e] in
      \<open>simp_all add: nudged_def ready_inv_def\<close>)
  with r full.step_inv [OF inv(1), of opts c] wave_started [OF _ inv(2), of opts c]
  show "ready_inv base (engine_step opts e c)" unfolding ready_inv_def by blast
qed

lemma run_ready:
  assumes "nodes_ok nodes" and "\<And>n. active_jobs nodes n \<ge> 0" and "nodes \<noteq> []"
  shows "ready_inv (active_jobs nodes) (engine_run opts (startBuild nodes cas b p ts f r now) evs)"
proof -
  let ?e = "fresh_engine nodes cas (new_run b p ts f r now)"
  have "ready_inv (active_jobs nodes) ?e"
    using fresh_build [OF assms(1,2), of cas b p ts f r now] assms(3)
    by (simp add: ready_inv_def) (simp add: fresh_engine_def)
  then have "ready_inv (active_jobs nodes) (engine_step opts ?e (NextWave now))" by (rule ready.step_inv)
  moreover have "engine_step opts ?e (NextWave now) = startBuild nodes cas b p ts f r now"
    by (simp add: startBuild_fresh next_wave_def wave_over_def) (simp add: fresh_engine_def)
  ultimately show ?thesis unfolding engine_run_def by (auto intro: ready.run_inv)
qed

lemma going_ready: "going base e \<longleftrightarrow> ready_inv base e \<and> \<not> br_paused (eg_run e)"
  by (auto simp: going_def ready_inv_def)

text \<open>The steps of the scheduler of the JavaScript runtime.\<close>

fun own_step :: "engine_event \<Rightarrow> bool" where
  "own_step (Advance a now) = True" | "own_step (NextWave now) = True" | "own_step c = False"

lemma own_step_progress:
  assumes "going base e" and "own_step c"
  shows "engine_step opts e c = e \<or> going base (engine_step opts e c) \<and> work_left (engine_step opts e c) < work_left e"
proof (cases c)
  case (Advance a now)
  with advance_going [OF assms(1), of opts a now] show ?thesis by auto
next
  case (NextWave now)
  with wave_going [OF assms(1)] show ?thesis by (simp add: next_wave_def)
qed (use assms(2) in simp_all)

lemma own_step_enabled:
  assumes g: "going base e" and "eg_phase e \<noteq> Ended"
  obtains c where "own_step c" "going base (engine_step opts e c)" "work_left (engine_step opts e c) < work_left e"
proof -
  have inv: "build_inv base e" "eng_inv e" "all_tries_ok e" "\<not> br_paused (eg_run e)" "eg_nodes e \<noteq> []"
    using g by (simp_all add: going_def build_inv_def)
  obtain ws where ws: "eg_phase e = Wave ws" using assms(2) by (cases "eg_phase e") auto
  show ?thesis
  proof (cases "wave_over e")
    case True
    with that [of "NextWave 0"] wave_going [OF g True, of 0] show ?thesis by (simp add: next_wave_def)
  next
    case False
    then obtain a where a: "a \<in> set ws" "jm_get (eg_pcs e) a \<noteq> Some Over"
      using ws by (auto simp: wave_over_def list_all_iff)
    have "jm_get (eg_pcs e) a \<noteq> None" using g ws a(1) by (simp add: going_def)
    then obtain p where p: "jm_get (eg_pcs e) a = Some p" "p \<noteq> Over" using a(2) by auto
    have tr: "tries_ok (br_retries (eg_run e)) p" using inv(3) p(1) by (simp add: all_tries_ok_def)
    obtain p' where "jm_get (eg_pcs (advance opts e a 0)) a = Some p'" "pc_work (br_retries (eg_run e)) p' < pc_work (br_retries (eg_run e)) p"
      using advance_work [OF inv(4) p(1) tr p(2) going_unblocked [OF g p(1)] inv(5), of opts 0] by blast
    with p(1) have "advance opts e a 0 \<noteq> e" by auto
    with advance_going [OF g, of opts a 0] that [of "Advance a 0"] show ?thesis by auto
  qed
qed

lemma going_ends:
  "going base e \<Longrightarrow> \<exists>evs. list_all own_step evs \<and> length evs \<le> work_left e \<and> eg_phase (engine_run opts e evs) = Ended"
proof (induction "work_left e" arbitrary: e rule: less_induct)
  case less
  show ?case
  proof (cases "eg_phase e = Ended")
    case True
    then show ?thesis by (intro exI [of _ "[]"]) (simp add: engine_run_def)
  next
    case False
    obtain c where c: "own_step c" "going base (engine_step opts e c)" "work_left (engine_step opts e c) < work_left e"
      using own_step_enabled [OF less.prems False] by blast
    obtain evs where "list_all own_step evs" "length evs \<le> work_left (engine_step opts e c)"
      "eg_phase (engine_run opts (engine_step opts e c) evs) = Ended"
      using less.hyps [OF c(3,2)] by blast
    with c show ?thesis by (intro exI [of _ "c # evs"]) (simp add: engine_run_def)
  qed
qed

text \<open>C17: An unpaused build cannot hang or run for ever. With at least one node in the registry, from
  every unpaused state a build can reach, each step of the engine's own (a coroutine advances, the next
  wave starts) either changes nothing or strictly reduces the work left, and at most that many such
  steps lead to the ended state. In particular retries, cache hits, failures and cancellation never leave
  a build waiting.\<close>

theorem unpaused_build_ends:
  assumes "nodes_ok nodes" and "\<And>n. active_jobs nodes n \<ge> 0" and "nodes \<noteq> []"
    and "e = engine_run opts (startBuild nodes cas buildId project targets failAction retries now) evs"
    and "\<not> br_paused (eg_run e)"
  shows "(\<forall>c. own_step c \<longrightarrow> engine_step opts e c = e \<or> work_left (engine_step opts e c) < work_left e) \<and>
    (\<exists>evs'. list_all own_step evs' \<and> length evs' \<le> work_left e \<and> eg_phase (engine_run opts e evs') = Ended)"
proof -
  have g: "going (active_jobs nodes) e"
    unfolding going_ready assms(4) using run_ready [OF assms(1-3)] assms(4,5) by simp
  show ?thesis using own_step_progress [OF g] going_ends [OF g] by blast
qed

theorem unpaused_build_ends_witness:
  "\<exists>evs'. list_all own_step evs' \<and> eg_phase (engine_run demo_opts (demo_start (Some ''p:t:test'') (Some 2)) evs') = Ended"
proof -
  let ?e = "demo_start (Some ''p:t:test'') (Some 2)"
  have n: "nodes_ok demo_nodes" "active_jobs demo_nodes n \<ge> 0" "demo_nodes \<noteq> []" for n
    by (simp_all add: nodes_ok_def active_jobs_def demo_nodes_def demo_node_def)
  have "br_paused (eg_run ?e) = False" by code_simp
  then show ?thesis
    using unpaused_build_ends [OF n, of ?e demo_opts "[]" "''b''" "''p''" "[''t'']" "Some ''p:t:test''" "Some 2" 0 "[]"]
    by (auto simp: demo_start_def engine_run_def)
qed

end
