(* ===== verification/FesterFarm.thy ===== *)
theory FesterFarm
  imports FesterRuns
begin

text \<open>
  Several builds at once, \<open>web/mini-services/fester/engine.ts\<close>: the engine holds one node registry and
  one content-addressed cache for all its runs, and the coroutines of different builds interleave. Each
  build keeps its own run state; the ambient loop of the registry may tick in between. Builds are listed
  in the order they were started.
\<close>

record farm =
  fm_nodes :: node_registry
  fm_cas :: "(string, string) jmap"
  fm_builds :: "engine list"

datatype farm_event =
    FarmStart string string "string list" "string option" "rat option" int
  | FarmStep nat engine_event
  | FarmTick "rat \<times> rat" "string \<Rightarrow> rat \<times> rat \<times> rat" bool

definition no_builds :: "node_registry \<Rightarrow> (string, string) jmap \<Rightarrow> farm" where
  "no_builds nodes cas = \<lparr>fm_nodes = nodes, fm_cas = cas, fm_builds = []\<rparr>"

text \<open>A build as it sees the shared registry and cache, and what it leaves there.\<close>

definition joined :: "farm \<Rightarrow> engine \<Rightarrow> engine" where
  "joined fm e = e\<lparr>eg_nodes := fm_nodes fm, eg_cas := fm_cas fm\<rparr>"

definition shared_back :: "farm \<Rightarrow> engine \<Rightarrow> farm" where
  "shared_back fm e = fm\<lparr>fm_nodes := eg_nodes e, fm_cas := eg_cas e\<rparr>"

fun farm_step :: "(nat \<Rightarrow> engine_opts) \<Rightarrow> farm \<Rightarrow> farm_event \<Rightarrow> farm" where
  "farm_step opts fm (FarmStart b p ts f r now) =
     (let e = startBuild (fm_nodes fm) (fm_cas fm) b p ts f r now
      in (shared_back fm e)\<lparr>fm_builds := fm_builds fm @ [e]\<rparr>)"
| "farm_step opts fm (FarmStep i ev) =
     (if i < length (fm_builds fm) then
        (let e = engine_step (opts i) (joined fm (fm_builds fm ! i)) ev
         in (shared_back fm e)\<lparr>fm_builds := (fm_builds fm)[i := e]\<rparr>)
      else fm)"
| "farm_step opts fm (FarmTick local draws stopped) = fm\<lparr>fm_nodes := nodes_tick stopped local draws (fm_nodes fm)\<rparr>"

definition farm_run :: "(nat \<Rightarrow> engine_opts) \<Rightarrow> farm \<Rightarrow> farm_event list \<Rightarrow> farm" where
  "farm_run opts = foldl (farm_step opts)"

section \<open>Slots\<close>

definition held :: "engine list \<Rightarrow> string \<Rightarrow> int" where
  "held es n = sum_list (map (\<lambda>e. int (holders (eg_pcs e) n)) es)"

definition own_inv :: "engine \<Rightarrow> bool" where
  "own_inv e \<longleftrightarrow> eng_inv e \<and> gate_inv e \<and> all_tries_ok e \<and> jm_ok (eg_pcs e)"

definition farm_inv :: "(string \<Rightarrow> int) \<Rightarrow> farm \<Rightarrow> bool" where
  "farm_inv base fm \<longleftrightarrow> nodes_ok (fm_nodes fm) \<and> (\<forall>n. base n \<ge> 0) \<and>
     (\<forall>n. active_jobs (fm_nodes fm) n = base n + held (fm_builds fm) n) \<and> list_all own_inv (fm_builds fm)"

lemma held_nonneg: "held es n \<ge> 0"
  by (induction es) (simp_all add: held_def)

lemma held_replace:
  "i < length es \<Longrightarrow> held (es[i := e]) n = held es n - int (holders (eg_pcs (es ! i)) n) + int (holders (eg_pcs e) n)"
proof (induction es arbitrary: i)
  case (Cons x xs)
  then show ?case by (cases i) (simp_all add: held_def)
qed simp

lemma held_member: "i < length es \<Longrightarrow> int (holders (eg_pcs (es ! i)) n) \<le> held es n"
proof (induction es arbitrary: i)
  case (Cons x xs)
  then show ?case using held_nonneg [of xs n] by (cases i) (fastforce simp: held_def)+
qed simp

lemma own_joined [simp]: "own_inv (joined fm e) = own_inv e" "eg_pcs (joined fm e) = eg_pcs e"
  "eg_nodes (joined fm e) = fm_nodes fm"
  by (simp_all add: own_inv_def joined_def eng_inv_def act_def started_ok_def gate_inv_def all_tries_ok_def
      split: phase.splits)

text \<open>For one build, the slots the others hold are part of what was there before.\<close>

lemma build_in_farm:
  "build_inv base e \<longleftrightarrow> own_inv e \<and> nodes_ok (eg_nodes e) \<and> (\<forall>n. base n \<ge> 0) \<and>
     (\<forall>n. active_jobs (eg_nodes e) n = base n + int (holders (eg_pcs e) n))"
  by (auto simp: build_inv_def own_inv_def eng_slots_def slots_def)

lemma tick_slots:
  assumes "nodes_ok m"
  shows "nodes_ok (nodes_tick stopped local draws m)" "active_jobs (nodes_tick stopped local draws m) n = active_jobs m n"
proof -
  have same: "nd_name (drift_node local draws s) = nd_name s" "nd_active (drift_node local draws s) = nd_active s" for s
    by (simp_all add: drift_node_def Let_def case_prod_unfold)
  have "jm_get (map (\<lambda>(k, s). (k, drift_node local draws s)) m) n = map_option (drift_node local draws) (jm_get m n)"
    by (induction m) auto
  then show "active_jobs (nodes_tick stopped local draws m) n = active_jobs m n"
    by (simp add: active_jobs_def nodes_tick_def same split: option.split)
  show "nodes_ok (nodes_tick stopped local draws m)"
    using assms by (auto simp: nodes_ok_def nodes_tick_def same list_all_iff comp_def case_prod_unfold)
qed

lemma farm_kept:
  assumes inv: "farm_inv base fm" and e: "build_inv (\<lambda>n. base n + rest n) e" and rest: "\<And>n. rest n + int (holders (eg_pcs e) n) = held es n"
    and es: "list_all own_inv es"
  shows "farm_inv base ((shared_back fm e)\<lparr>fm_builds := es\<rparr>)"
proof -
  have "base n + held es n = base n + rest n + int (holders (eg_pcs e) n)" for n using rest [of n] by simp
  with inv e es show ?thesis by (simp add: farm_inv_def shared_back_def build_in_farm)
qed

interpretation farm: preserved "farm_step opts" "farm_inv base" for opts base
proof
  fix fm c
  assume inv: "farm_inv base fm"
  let ?es = "fm_builds fm"
  show "farm_inv base (farm_step opts fm c)"
  proof (cases c)
    case (FarmStart b p ts f r now)
    let ?e = "startBuild (fm_nodes fm) (fm_cas fm) b p ts f r now"
    have nodes: "active_jobs (fm_nodes fm) = (\<lambda>n. base n + held ?es n)" using inv by (auto simp: farm_inv_def)
    have e: "build_inv (\<lambda>n. base n + held ?es n) ?e"
      using run_build_inv [of "fm_nodes fm" opts "fm_cas fm" b p ts f r now "[]" for opts] inv held_nonneg [of ?es]
      by (simp add: farm_inv_def engine_run_def nodes)
    then have "list_all own_inv (?es @ [?e])" using inv by (simp add: farm_inv_def build_in_farm)
    with farm_kept [OF inv e, of "?es @ [?e]"] FarmStart show ?thesis by (simp add: held_def Let_def)
  next
    case (FarmStep i ev)
    show ?thesis
    proof (cases "i < length ?es")
      case True
      let ?b = "?es ! i"
      let ?e = "engine_step (opts i) (joined fm ?b) ev"
      let ?rest = "\<lambda>n. held ?es n - int (holders (eg_pcs ?b) n)"
      have "?rest n \<ge> 0" for n
        using held_member [OF True, of n] by simp
      then have "build_inv (\<lambda>n. base n + ?rest n) (joined fm ?b)"
        using inv True by (auto simp: build_in_farm farm_inv_def list_all_length)
      from full.step_inv [OF this, of "opts i" ev] have e: "build_inv (\<lambda>n. base n + ?rest n) ?e" .
      then have "list_all own_inv (?es[i := ?e])"
        using inv True by (simp add: farm_inv_def build_in_farm list_all_length nth_list_update)
      with farm_kept [OF inv e, of "?es[i := ?e]"] FarmStep True show ?thesis
        by (simp add: held_replace Let_def)
    qed (use FarmStep inv in simp)
  next
    case (FarmTick local draws stopped)
    with inv tick_slots show ?thesis by (simp add: farm_inv_def)
  qed
qed

text \<open>C19: No job slot is lost or freed twice, however many builds share the nodes. At every moment of any
  interleaving of builds that are started, advanced, cancelled, paused, resumed and stepped, with the
  ambient loop ticking in between, the active jobs of each node are those it had before the first build plus
  the actions, over all builds, that hold a slot there (scheduled, running, waiting at gate 2 or backing
  off); and once every build has ended, by success, failure or cancellation, every node is back at its
  number from the start. Before the first build each node is registered under its own name with a number of
  active jobs that is not negative.\<close>

theorem shared_job_slots_returned:
  assumes "nodes_ok nodes" and "\<And>n. active_jobs nodes n \<ge> 0"
    and "fm = farm_run opts (no_builds nodes cas) evs"
  shows "active_jobs (fm_nodes fm) n = active_jobs nodes n + held (fm_builds fm) n \<and>
    ((\<forall>e \<in> set (fm_builds fm). eg_phase e = Ended) \<longrightarrow> active_jobs (fm_nodes fm) n = active_jobs nodes n)"
proof -
  have "farm_inv (active_jobs nodes) (no_builds nodes cas)"
    using assms(1,2) by (simp add: farm_inv_def no_builds_def held_def)
  then have inv: "farm_inv (active_jobs nodes) fm"
    unfolding assms(3) farm_run_def by (rule farm.run_inv)
  have "held (fm_builds fm) n = 0" if "\<forall>e \<in> set (fm_builds fm). eg_phase e = Ended"
  proof -
    have "holders (eg_pcs e) n = 0" if "e \<in> set (fm_builds fm)" for e
    proof -
      have "own_inv e" using inv that by (auto simp: farm_inv_def list_all_iff)
      then show ?thesis
        using holders_over [of "eg_pcs e"] eng_inv_ended(1) [of e] that \<open>\<forall>e \<in> set (fm_builds fm). eg_phase e = Ended\<close>
        unfolding own_inv_def by blast
    qed
    then have "map (\<lambda>e. int (holders (eg_pcs e) n)) (fm_builds fm) = map (\<lambda>e. 0) (fm_builds fm)" by simp
    then show ?thesis by (simp only: held_def) simp
  qed
  with inv show ?thesis by (simp add: farm_inv_def)
qed

text \<open>Two builds side by side.\<close>

definition demo_farm :: "farm_event list" where
  "demo_farm = [FarmStart ''b1'' ''p'' [''t''] None None 0, FarmStart ''b2'' ''p'' [''t''] None None 0,
     FarmStep 0 (NextWave 1), FarmStep 1 Cancel]"

lemma shared_job_slots_returned_witness:
  "active_jobs (fm_nodes (farm_run (\<lambda>i. demo_opts) (no_builds demo_nodes []) demo_farm)) ''a'' =
     0 + held (fm_builds (farm_run (\<lambda>i. demo_opts) (no_builds demo_nodes []) demo_farm)) ''a''"
proof -
  have n: "nodes_ok demo_nodes" "active_jobs demo_nodes n \<ge> 0" "active_jobs demo_nodes ''a'' = 0" for n
    by (simp_all add: nodes_ok_def active_jobs_def demo_nodes_def demo_node_def)
  from shared_job_slots_returned [OF n(1,2) refl, of "\<lambda>i. demo_opts" "[]" demo_farm "''a''"] n(3) show ?thesis by simp
qed

end
