(* ===== verification/Utf8.thy ===== *)
theory Utf8
  imports Prelude "HOL-Library.Word"
begin

text \<open>
  Text and bytes: the runtime's \<open>TextEncoder\<close> and \<open>TextDecoder\<close>, as the streaming code uses them.
  A text is a list of Unicode scalar values. The decoder is the automaton of the Encoding standard
  with replacement characters; it keeps its state between chunks, and \<open>finish\<close> is its end of input.
\<close>

type_synonym byte = "8 word"

type_synonym codepoints = "nat list"

definition text_of :: "string \<Rightarrow> codepoints" where
  "text_of s = map of_char s"

definition replacement :: nat where
  "replacement = 0xFFFD"

definition scalar :: "nat \<Rightarrow> bool" where
  "scalar c \<longleftrightarrow> c < 0xD800 \<or> 0xDFFF < c \<and> c < 0x110000"

section \<open>Encoding\<close>

definition cont :: "nat \<Rightarrow> byte" where
  "cont n = word_of_nat (0x80 + n mod 64)"

definition utf8_char :: "nat \<Rightarrow> byte list" where
  "utf8_char c =
     (if c < 0x80 then [word_of_nat c]
      else if c < 0x800 then [word_of_nat (0xC0 + c div 64), cont c]
      else if c < 0x10000 then [word_of_nat (0xE0 + c div 4096), cont (c div 64), cont c]
      else [word_of_nat (0xF0 + c div 262144), cont (c div 4096), cont (c div 64), cont c])"

definition utf8_encode :: "codepoints \<Rightarrow> byte list" where
  "utf8_encode cs = concat (map utf8_char cs)"

section \<open>Decoding\<close>

text \<open>Between bytes the decoder knows how many continuation bytes it still needs, the bounds of the
  next one and the value so far.\<close>

datatype utf8_state = Start | Need nat nat nat nat

fun utf8_first :: "nat \<Rightarrow> utf8_state \<times> codepoints" where
  "utf8_first b =
     (if b < 0x80 then (Start, [b])
      else if 0xC2 \<le> b \<and> b \<le> 0xDF then (Need 1 0x80 0xBF (b - 0xC0), [])
      else if 0xE0 \<le> b \<and> b \<le> 0xEF then
        (Need 2 (if b = 0xE0 then 0xA0 else 0x80) (if b = 0xED then 0x9F else 0xBF) (b - 0xE0), [])
      else if 0xF0 \<le> b \<and> b \<le> 0xF4 then
        (Need 3 (if b = 0xF0 then 0x90 else 0x80) (if b = 0xF4 then 0x8F else 0xBF) (b - 0xF0), [])
      else (Start, [replacement]))"

text \<open>A byte out of bounds ends the character with a replacement and is read again.\<close>

fun utf8_byte :: "utf8_state \<Rightarrow> nat \<Rightarrow> utf8_state \<times> codepoints" where
  "utf8_byte Start b = utf8_first b"
| "utf8_byte (Need n lo hi v) b =
     (if lo \<le> b \<and> b \<le> hi then
        (if n = 1 then (Start, [v * 64 + (b - 0x80)])
         else (Need (n - 1) 0x80 0xBF (v * 64 + (b - 0x80)), []))
      else (let (s, out) = utf8_first b in (s, replacement # out)))"

fun utf8_run :: "utf8_state \<Rightarrow> byte list \<Rightarrow> utf8_state \<times> codepoints" where
  "utf8_run s [] = (s, [])"
| "utf8_run s (b # bs) =
     (let (s1, o1) = utf8_byte s (unat b); (s2, o2) = utf8_run s1 bs in (s2, o1 @ o2))"

definition utf8_finish :: "utf8_state \<Rightarrow> codepoints" where
  "utf8_finish s = (case s of Start \<Rightarrow> [] | Need n lo hi v \<Rightarrow> [replacement])"

text \<open>\<open>decoder.decode(bytes)\<close> of a fresh decoder drops a byte order mark.\<close>

definition strip_bom :: "codepoints \<Rightarrow> codepoints" where
  "strip_bom cs = (case cs of [] \<Rightarrow> [] | c # ds \<Rightarrow> if c = 0xFEFF then ds else cs)"

definition utf8_decode :: "byte list \<Rightarrow> codepoints" where
  "utf8_decode bs = (let (s, out) = utf8_run Start bs in strip_bom (out @ utf8_finish s))"

section \<open>Round trip\<close>

lemma utf8_run_append:
  "utf8_run s (xs @ ys) =
     (fst (utf8_run (fst (utf8_run s xs)) ys), snd (utf8_run s xs) @ snd (utf8_run (fst (utf8_run s xs)) ys))"
  by (induction xs arbitrary: s) (simp_all add: case_prod_unfold Let_def)

lemma unat_byte: "n < 256 \<Longrightarrow> unat (word_of_nat n :: byte) = n"
  by (simp add: unat_of_nat)

lemma unat_cont [simp]: "unat (cont n) = 0x80 + n mod 64"
  unfolding cont_def by (rule unat_byte) (use mod_less_divisor [of 64 n] in linarith)

declare utf8_first.simps [simp del]

lemma utf8_two: "0x80 \<le> c \<Longrightarrow> c < 0x800 \<Longrightarrow> utf8_run Start (utf8_char c) = (Start, [c])"
proof -
  assume c: "0x80 \<le> c" "c < 0x800"
  then have d: "2 \<le> c div 64" "c div 64 < 32" by auto
  have u: "unat (word_of_nat (0xC0 + c div 64) :: byte) = 0xC0 + c div 64" by (rule unat_byte) (use d in simp)
  have f: "utf8_first (0xC0 + c div 64) = (Need 1 0x80 0xBF (c div 64), [])"
    using d by (simp add: utf8_first.simps)
  have "c mod 64 \<le> 63" by simp
  then show ?thesis using c u f by (simp add: utf8_char_def Let_def)
qed

lemma split_digits: "c div 4096 * 64 + c div 64 mod 64 = c div 64" for c :: nat
  using div_mult_mod_eq [of "c div 64" 64] by (simp flip: div_mult2_eq)

lemma split_digits3: "c div 262144 * 64 + c div 4096 mod 64 = c div 4096" for c :: nat
  using div_mult_mod_eq [of "c div 4096" 64] by (simp flip: div_mult2_eq)

lemma utf8_run3:
  assumes "v < 16" and "m1 \<le> 63" and "m0 \<le> 63" and "v = 0 \<Longrightarrow> 32 \<le> m1" and "v = 13 \<Longrightarrow> m1 < 32"
    and "unat w = 0xE0 + v" and "unat w1 = 0x80 + m1" and "unat w0 = 0x80 + m0"
  shows "utf8_run Start [w, w1, w0] = (Start, [(v * 64 + m1) * 64 + m0])"
  using assms by (cases "v = 0"; cases "v = 13") (simp_all add: utf8_first.simps)

lemma utf8_run4:
  assumes "v \<le> 4" and "m2 \<le> 63" and "m1 \<le> 63" and "m0 \<le> 63" and "v = 0 \<Longrightarrow> 16 \<le> m2" and "v = 4 \<Longrightarrow> m2 \<le> 15"
    and "unat w = 0xF0 + v" and "unat w2 = 0x80 + m2" and "unat w1 = 0x80 + m1" and "unat w0 = 0x80 + m0"
  shows "utf8_run Start [w, w2, w1, w0] = (Start, [((v * 64 + m2) * 64 + m1) * 64 + m0])"
  using assms by (cases "v = 0"; cases "v = 4") (simp_all add: utf8_first.simps)

lemma utf8_three: "0x800 \<le> c \<Longrightarrow> c < 0x10000 \<Longrightarrow> scalar c \<Longrightarrow> utf8_run Start (utf8_char c) = (Start, [c])"
proof -
  assume c: "0x800 \<le> c" "c < 0x10000" "scalar c"
  then have d: "c div 4096 < 16" by auto
  have u: "unat (word_of_nat (0xE0 + c div 4096) :: byte) = 0xE0 + c div 4096" by (rule unat_byte) (use d in simp)
  have m: "c mod 64 \<le> 63" "c div 64 mod 64 \<le> 63" by simp_all
  have lo: "32 \<le> c div 64 mod 64" if "c div 4096 = 0"
  proof -
    have "c div 64 < 64" "32 \<le> c div 64" using that c(1) by auto
    then show ?thesis by simp
  qed
  have hi: "c div 64 mod 64 < 32" if "c div 4096 = 0xD"
  proof -
    have "c div 64 = 64 * 13 + c div 64 mod 64" using that split_digits [of c] by simp
    moreover have "c div 64 < 864 \<or> 896 \<le> c div 64" using c(3) unfolding scalar_def by auto
    ultimately show ?thesis using m(2) by linarith
  qed
  have v: "(c div 4096 * 64 + c div 64 mod 64) * 64 + c mod 64 = c"
    by (simp only: split_digits) simp
  have "utf8_char c = [word_of_nat (0xE0 + c div 4096), cont (c div 64), cont c]"
    unfolding utf8_char_def using c by simp
  then show ?thesis
    by (simp only: utf8_run3 [OF d m(2,1) lo hi u unat_cont unat_cont] v)
qed

lemma utf8_four: "0x10000 \<le> c \<Longrightarrow> scalar c \<Longrightarrow> utf8_run Start (utf8_char c) = (Start, [c])"
proof -
  assume c: "0x10000 \<le> c" "scalar c"
  then have c': "c < 0x110000" by (auto simp: scalar_def)
  then have d: "c div 262144 \<le> 4" by auto
  have u: "unat (word_of_nat (0xF0 + c div 262144) :: byte) = 0xF0 + c div 262144" by (rule unat_byte) (use d in simp)
  have m: "c mod 64 \<le> 63" "c div 64 mod 64 \<le> 63" "c div 4096 mod 64 \<le> 63" by simp_all
  have lo: "16 \<le> c div 4096 mod 64" if "c div 262144 = 0"
  proof -
    have "c div 4096 < 64" "16 \<le> c div 4096" using that c(1) by auto
    then show ?thesis by simp
  qed
  have hi: "c div 4096 mod 64 \<le> 15" if "c div 262144 = 4"
  proof -
    have "c div 4096 = 64 * 4 + c div 4096 mod 64" using that split_digits3 [of c] by simp
    moreover have "c div 4096 < 272" using c' by auto
    ultimately show ?thesis by linarith
  qed
  have v: "((c div 262144 * 64 + c div 4096 mod 64) * 64 + c div 64 mod 64) * 64 + c mod 64 = c"
    by (simp only: split_digits split_digits3) simp
  have "utf8_char c = [word_of_nat (0xF0 + c div 262144), cont (c div 4096), cont (c div 64), cont c]"
    unfolding utf8_char_def using c by simp
  then show ?thesis
    by (simp only: utf8_run4 [OF d m(3,2,1) lo hi u unat_cont unat_cont unat_cont] v)
qed

lemma utf8_char_run: "scalar c \<Longrightarrow> utf8_run Start (utf8_char c) = (Start, [c])"
proof -
  assume s: "scalar c"
  have "utf8_run Start (utf8_char c) = (Start, [c])" if "c < 0x80"
    using that by (simp add: utf8_char_def unat_byte utf8_first.simps)
  with s utf8_two utf8_three utf8_four show ?thesis by (metis not_less)
qed

lemma utf8_encode_run: "list_all scalar cs \<Longrightarrow> utf8_run Start (utf8_encode cs) = (Start, cs)"
  by (induction cs) (simp_all add: utf8_encode_def utf8_run_append utf8_char_run)

definition plain_text :: "codepoints \<Rightarrow> bool" where
  "plain_text cs \<longleftrightarrow> list_all scalar cs \<and> (cs \<noteq> [] \<longrightarrow> hd cs \<noteq> 0xFEFF)"

lemma utf8_roundtrip: "plain_text cs \<Longrightarrow> utf8_decode (utf8_encode cs) = cs"
  by (cases cs) (simp_all add: utf8_decode_def utf8_encode_run plain_text_def utf8_finish_def strip_bom_def)

end
