(* ===== verification/EventStream.thy ===== *)
theory EventStream
  imports Utf8
begin

unbundle bit_operations_syntax

text \<open>
  The binary framing of Amazon's event streams, \<open>packages/providers/src/eventstream.ts\<close>: CRC-32,
  the message decoder, the streaming decoder over network chunks and the encoder.
\<close>

section \<open>CRC-32\<close>

definition crc_bit :: "32 word \<Rightarrow> 32 word" where
  "crc_bit c = (if bit c 0 then 0xEDB88320 XOR drop_bit 1 c else drop_bit 1 c)"

definition CRC_TABLE :: "32 word list" where
  "CRC_TABLE = map (\<lambda>n. (crc_bit ^^ 8) (word_of_nat n)) [0..<256]"

definition crc_update :: "32 word \<Rightarrow> byte \<Rightarrow> 32 word" where
  "crc_update crc b = CRC_TABLE ! unat ((crc XOR ucast b) AND 0xFF) XOR drop_bit 8 crc"

definition crc32 :: "byte list \<Rightarrow> 32 word" where
  "crc32 bytes = foldl crc_update 0xFFFFFFFF bytes XOR 0xFFFFFFFF"

section \<open>Reading\<close>

datatype es_error =
    OutOfRange
  | UnknownType nat
  | FrameLength nat
  | HeadersLength nat
  | PreludeCrc nat nat
  | MessageCrc nat nat
  | MidFrame nat

text \<open>Big-endian unsigned and two's complement readings of a \<open>DataView\<close>; a reading past the end of
  the view is an exception.\<close>

definition be_nat :: "byte list \<Rightarrow> nat" where
  "be_nat = foldl (\<lambda>a b. a * 256 + unat b) 0"

definition read_uint :: "nat \<Rightarrow> byte list \<Rightarrow> es_error + nat" where
  "read_uint n bytes = (if n \<le> length bytes then Inr (be_nat (take n bytes)) else Inl OutOfRange)"

definition read_int :: "nat \<Rightarrow> byte list \<Rightarrow> es_error + int" where
  "read_int n bytes =
     (case read_uint n bytes of
        Inl e \<Rightarrow> Inl e
      | Inr u \<Rightarrow> Inr (if u < 2 ^ (8 * n - 1) then int u else int u - 2 ^ (8 * n)))"

datatype header_value = HBool bool | HInt int | HBig int | HText codepoints | HBytes "byte list"

type_synonym es_headers = "(codepoints, header_value) jmap"

record es_message =
  es_headers :: es_headers
  es_payload :: "byte list"

definition headerString :: "es_message \<Rightarrow> codepoints \<Rightarrow> codepoints option" where
  "headerString m name = (case jm_get (es_headers m) name of Some (HText t) \<Rightarrow> Some t | _ \<Rightarrow> None)"

text \<open>The value of one header and what follows it. A byte array, text or UUID that is cut off by the end of the
  block is taken as far as it goes: \<open>slice\<close> and \<open>subarray\<close> clamp.\<close>

definition sized_value :: "(byte list \<Rightarrow> header_value) \<Rightarrow> byte list \<Rightarrow> es_error + header_value \<times> byte list" where
  "sized_value mk r =
     (case read_uint 2 r of
        Inl e \<Rightarrow> Inl e
      | Inr len \<Rightarrow> Inr (mk (take len (drop 2 r)), drop len (drop 2 r)))"

definition fixed_value :: "nat \<Rightarrow> (int \<Rightarrow> header_value) \<Rightarrow> byte list \<Rightarrow> es_error + header_value \<times> byte list" where
  "fixed_value n mk r = (case read_int n r of Inl e \<Rightarrow> Inl e | Inr i \<Rightarrow> Inr (mk i, drop n r))"

definition header_value :: "nat \<Rightarrow> byte list \<Rightarrow> es_error + header_value \<times> byte list" where
  "header_value ty r =
     (if ty = 0 then Inr (HBool True, r)
      else if ty = 1 then Inr (HBool False, r)
      else if ty = 2 then fixed_value 1 HInt r
      else if ty = 3 then fixed_value 2 HInt r
      else if ty = 4 then fixed_value 4 HInt r
      else if ty = 5 then fixed_value 8 HBig r
      else if ty = 6 then sized_value HBytes r
      else if ty = 7 then sized_value (\<lambda>bs. HText (utf8_decode bs)) r
      else if ty = 8 then fixed_value 8 HBig r
      else if ty = 9 then Inr (HBytes (take 16 r), drop 16 r)
      else Inl (UnknownType ty))"

text \<open>Assigning the property \<open>__proto__\<close> of an object literal makes no property of its own.\<close>

definition set_header :: "es_headers \<Rightarrow> codepoints \<Rightarrow> header_value \<Rightarrow> es_headers" where
  "set_header hs name v = (if name = text_of ''__proto__'' then hs else jm_set hs name v)"

lemma header_value_shrinks: "header_value ty r = Inr (v, r') \<Longrightarrow> length r' \<le> length r"
  by (auto simp: header_value_def fixed_value_def sized_value_def split: if_splits sum.splits)

function parseHeaders :: "byte list \<Rightarrow> es_headers \<Rightarrow> es_error + es_headers" where
  "parseHeaders bytes hs =
     (case bytes of
        [] \<Rightarrow> Inr hs
      | n # r \<Rightarrow>
          (case drop (unat n) r of
             [] \<Rightarrow> Inl OutOfRange
           | ty # r1 \<Rightarrow>
               (case header_value (unat ty) r1 of
                  Inl e \<Rightarrow> Inl e
                | Inr (v, r2) \<Rightarrow> parseHeaders r2 (set_header hs (utf8_decode (take (unat n) r)) v))))"
  by pat_completeness auto
termination
proof (relation "measure (\<lambda>(bytes, hs). length bytes)")
  fix bytes r r1 r2 :: "byte list" and n ty x v and hs
  assume a: "bytes = n # r" "drop (unat n) r = ty # r1" "header_value (unat ty) r1 = Inr x" "(v, r2) = x"
  have "length r2 \<le> length r1" using header_value_shrinks [of "unat ty" r1 v r2] a(3,4) by simp
  moreover have "Suc (length r1) \<le> length r" using arg_cong [OF a(2), of length] by simp
  ultimately have "length r2 < length bytes" using a(1) by simp
  then show "((r2, set_header hs (utf8_decode (take (unat n) r)) v), bytes, hs) \<in> measure (\<lambda>(bytes, hs). length bytes)"
    by simp
qed simp

declare parseHeaders.simps [simp del]

section \<open>Messages\<close>

definition MIN_MESSAGE_LENGTH :: nat where
  "MIN_MESSAGE_LENGTH = 16"

text \<open>The message of a frame whose lengths and checksums are right.\<close>

definition frame_message :: "nat \<Rightarrow> nat \<Rightarrow> byte list \<Rightarrow> es_error + es_message \<times> nat" where
  "frame_message totalLength headersLength buf =
     (let headersEnd = 12 + headersLength
      in case parseHeaders (take headersLength (drop 12 buf)) [] of
           Inl e \<Rightarrow> Inl e
         | Inr hs \<Rightarrow>
             Inr (\<lparr>es_headers = hs, es_payload = take (totalLength - 4 - headersEnd) (drop headersEnd buf)\<rparr>,
               totalLength))"

definition decodeEventStreamMessage :: "byte list \<Rightarrow> (es_error + es_message \<times> nat) option" where
  "decodeEventStreamMessage buf =
     (if length buf < 4 then None
      else let totalLength = be_nat (take 4 buf)
      in if totalLength < MIN_MESSAGE_LENGTH then Some (Inl (FrameLength totalLength))
      else if length buf < totalLength then None
      else let headersLength = be_nat (take 4 (drop 4 buf))
      in if headersLength > totalLength - MIN_MESSAGE_LENGTH then Some (Inl (HeadersLength headersLength))
      else let preludeCrc = be_nat (take 4 (drop 8 buf)); computedPrelude = unat (crc32 (take 8 buf))
      in if preludeCrc \<noteq> computedPrelude then Some (Inl (PreludeCrc preludeCrc computedPrelude))
      else let messageCrc = be_nat (take 4 (drop (totalLength - 4) buf));
               computedMessage = unat (crc32 (take (totalLength - 4) buf))
      in if messageCrc \<noteq> computedMessage then Some (Inl (MessageCrc messageCrc computedMessage))
      else Some (frame_message totalLength headersLength buf))"

lemma frame_message_size: "frame_message n h buf = Inr (m, k) \<Longrightarrow> k = n"
  by (auto simp: frame_message_def Let_def split: sum.splits)

lemma decode_size:
  assumes "decodeEventStreamMessage buf = Some (Inr (m, n))"
  shows "16 \<le> n" "n \<le> length buf"
  using assms unfolding decodeEventStreamMessage_def MIN_MESSAGE_LENGTH_def
  by (auto simp: Let_def dest: frame_message_size split: if_splits)

section \<open>The streaming decoder\<close>

record es_decoder =
  es_buffer :: "byte list"
  es_out :: "es_message list"
  es_failed :: "es_error option"

definition concat_bytes :: "byte list \<Rightarrow> byte list \<Rightarrow> byte list" where
  "concat_bytes a b = (if a = [] then b else a @ b)"

text \<open>The loop of \<open>transform\<close>: every message takes at least sixteen bytes.\<close>

function drain :: "byte list \<Rightarrow> es_message list \<times> byte list \<times> es_error option" where
  "drain buf =
     (case decodeEventStreamMessage buf of
        None \<Rightarrow> ([], buf, None)
      | Some (Inl e) \<Rightarrow> ([], buf, Some e)
      | Some (Inr (m, n)) \<Rightarrow> (let (ms, rest, e) = drain (drop n buf) in (m # ms, rest, e)))"
  by pat_completeness auto
termination
proof (relation "measure length")
  fix buf :: "byte list" and x y m n
  assume "decodeEventStreamMessage buf = Some x" "x = Inr y" "(m, n) = y"
  then have "16 \<le> n" "n \<le> length buf" using decode_size [of buf m n] by simp_all
  then show "(drop n buf, buf) \<in> measure length" by simp
qed simp

declare drain.simps [simp del]

definition es_transform :: "es_decoder \<Rightarrow> byte list \<Rightarrow> es_decoder" where
  "es_transform d chunk =
     (if es_failed d \<noteq> None then d
      else let (ms, rest, e) = drain (concat_bytes (es_buffer d) chunk)
           in d\<lparr>es_buffer := rest, es_out := es_out d @ ms, es_failed := e\<rparr>)"

definition es_flush :: "es_decoder \<Rightarrow> es_decoder" where
  "es_flush d =
     (if es_failed d = None \<and> es_buffer d \<noteq> [] then d\<lparr>es_failed := Some (MidFrame (length (es_buffer d)))\<rparr> else d)"

definition es_start :: es_decoder where
  "es_start = \<lparr>es_buffer = [], es_out = [], es_failed = None\<rparr>"

definition es_decode_chunks :: "byte list list \<Rightarrow> es_decoder" where
  "es_decode_chunks chunks = es_flush (foldl es_transform es_start chunks)"

section \<open>The encoder\<close>

definition be_bytes :: "nat \<Rightarrow> nat \<Rightarrow> byte list" where
  "be_bytes n v = map (\<lambda>i. word_of_nat (v div 256 ^ i)) (rev [0..<n])"

definition encode_header :: "codepoints \<times> codepoints \<Rightarrow> byte list" where
  "encode_header h =
     (let name = utf8_encode (fst h); val = utf8_encode (snd h)
      in word_of_nat (length name) # name @ [7] @ be_bytes 2 (length val) @ val)"

definition encodeEventStreamMessage :: "(codepoints \<times> codepoints) list \<Rightarrow> byte list \<Rightarrow> byte list" where
  "encodeEventStreamMessage headers payload =
     (let hb = concat (map encode_header headers);
          totalLength = 12 + length hb + length payload + 4;
          prelude = be_bytes 4 totalLength @ be_bytes 4 (length hb);
          body = prelude @ be_bytes 4 (unat (crc32 prelude)) @ hb @ payload
      in body @ be_bytes 4 (unat (crc32 body)))"

section \<open>The checksum\<close>

text \<open>The table computes eight steps of the bitwise algorithm, which is linear and loses nothing.\<close>

definition crc_byte :: "32 word \<Rightarrow> byte \<Rightarrow> 32 word" where
  "crc_byte crc b = (crc_bit ^^ 8) (crc XOR ucast b)"

lemma crc_bit_xor: "crc_bit (x XOR y) = crc_bit x XOR crc_bit y"
  by (cases "bit x 0"; cases "bit y 0")
    (simp_all add: crc_bit_def bit_xor_iff drop_bit_xor xor.assoc xor.left_commute)

lemma crc_bits_xor: "(crc_bit ^^ n) (x XOR y) = (crc_bit ^^ n) x XOR (crc_bit ^^ n) y"
  by (induction n) (simp_all add: crc_bit_xor)

lemma crc_bits_high: "(\<And>i. i < n \<Longrightarrow> \<not> bit x i) \<Longrightarrow> (crc_bit ^^ n) x = drop_bit n x"
  by (induction n) (simp_all add: crc_bit_def bit_drop_bit_eq drop_bit_drop_bit)

lemma bit_mask8: "bit (0xFF :: 32 word) i \<longleftrightarrow> i < 8"
proof -
  have "(0xFF :: 32 word) = mask 8" by (simp add: mask_eq_exp_minus_1)
  then show ?thesis by (simp only: bit_mask_iff) auto
qed

lemma crc_update_bitwise: "crc_update crc b = crc_byte crc b"
proof -
  define z where "z = crc XOR ucast b"
  have lo: "unat (z AND 0xFF) < 256"
  proof -
    have "z AND 0xFF = take_bit 8 z" by (rule bit_eqI) (simp only: bit_and_iff bit_take_bit_iff bit_mask8 conj_commute)
    then show ?thesis by (simp add: unsigned_take_bit_eq take_bit_nat_less_exp [of 8, simplified])
  qed
  have "CRC_TABLE ! unat (z AND 0xFF) = (crc_bit ^^ 8) (z AND 0xFF)"
    using lo by (simp add: CRC_TABLE_def)
  moreover have "(crc_bit ^^ 8) (z AND NOT 0xFF) = drop_bit 8 (z AND NOT 0xFF)"
    by (rule crc_bits_high) (simp only: bit_and_iff bit_not_iff bit_mask8 simp_thms)
  moreover have "drop_bit 8 (z AND NOT 0xFF) = drop_bit 8 crc"
  proof (rule bit_word_eqI)
    fix n
    assume "n < LENGTH(32)"
    have "\<not> bit b (8 + n)" using bit_imp_le_length [of b "8 + n"] by auto
    then show "bit (drop_bit 8 (z AND NOT 0xFF)) n = bit (drop_bit 8 crc) n"
      by (simp only: z_def bit_drop_bit_eq bit_and_iff bit_not_iff bit_mask8 bit_xor_iff bit_ucast_iff o_def)
        (auto dest: bit_imp_le_length)
  qed
  moreover have "z = (z AND 0xFF) XOR (z AND NOT 0xFF)"
    by (rule bit_eqI) (simp only: bit_xor_iff bit_and_iff bit_not_iff, blast)
  ultimately show ?thesis
    using crc_bits_xor [of 8 "z AND 0xFF" "z AND NOT 0xFF"]
    unfolding crc_update_def crc_byte_def z_def [symmetric] by (simp only:)
qed

lemma xor_cancel: "v XOR w = v XOR w' \<Longrightarrow> w = w'" for v w w' :: "'a::len word"
proof -
  assume "v XOR w = v XOR w'"
  then have "v XOR (v XOR w) = v XOR (v XOR w')" by (rule arg_cong)
  then show ?thesis by (simp flip: xor.assoc)
qed

lemma top_bit: "bit (crc_bit x) 31 \<longleftrightarrow> bit x 0"
proof -
  have "bit (0xEDB88320 :: 32 word) 31" by code_simp
  then show ?thesis by (auto simp: crc_bit_def bit_xor_iff bit_drop_bit_eq dest: bit_imp_le_length)
qed

lemma crc_bit_inj: "crc_bit x = crc_bit y \<Longrightarrow> x = y"
proof -
  assume eq: "crc_bit x = crc_bit y"
  then have b: "bit x 0 = bit y 0" by (metis top_bit)
  with eq have d: "drop_bit 1 x = drop_bit 1 y"
    by (auto simp: crc_bit_def split: if_splits dest: xor_cancel)
  show ?thesis
  proof (rule bit_eqI)
    fix n
    show "bit x n = bit y n"
      using b arg_cong [OF d, of "\<lambda>w. bit w (n - 1)"] by (cases n) (simp_all add: bit_drop_bit_eq)
  qed
qed

lemma crc_bits_inj: "(crc_bit ^^ n) x = (crc_bit ^^ n) y \<Longrightarrow> x = y"
  by (induction n) (auto dest: crc_bit_inj)

lemma crc_update_inj:
  "crc_update s b = crc_update s' b \<Longrightarrow> s = s'"
  "crc_update s b = crc_update s b' \<Longrightarrow> b = b'"
proof -
  show "s = s'" if "crc_update s b = crc_update s' b"
  proof -
    have "ucast b XOR s = ucast b XOR s'"
      using crc_bits_inj [of 8 "s XOR ucast b" "s' XOR ucast b"] that
      unfolding crc_update_bitwise crc_byte_def by (simp only: xor.commute)
    then show ?thesis by (rule xor_cancel)
  qed
  show "b = b'" if "crc_update s b = crc_update s b'"
  proof -
    have "s XOR ucast b = s XOR ucast b'"
      using that unfolding crc_update_bitwise crc_byte_def by (rule crc_bits_inj)
    then have "(ucast b :: 32 word) = ucast b'" by (rule xor_cancel)
    then have "unat (ucast b :: 32 word) = unat (ucast b' :: 32 word)" by simp
    moreover have "unat c < 2 ^ 32" for c :: byte
    proof -
      have "unat c < 2 ^ LENGTH(8)" by (rule unsigned_less)
      then show ?thesis by simp
    qed
    ultimately show ?thesis by (simp add: unsigned_ucast_eq word_unat_eq_iff take_bit_nat_eq_self)
  qed
qed

lemma crc_fold_inj: "foldl crc_update s bs = foldl crc_update s' bs \<Longrightarrow> s = s'"
  by (induction bs arbitrary: s s') (auto dest: crc_update_inj(1))

lemma crc32_one_byte:
  assumes "b \<noteq> b'"
  shows "crc32 (xs @ b # ys) \<noteq> crc32 (xs @ b' # ys)"
proof
  assume "crc32 (xs @ b # ys) = crc32 (xs @ b' # ys)"
  then have "foldl crc_update 0xFFFFFFFF (xs @ b # ys) = foldl crc_update 0xFFFFFFFF (xs @ b' # ys)"
    unfolding crc32_def by (simp only: xor.commute [of _ "0xFFFFFFFF"] xor_cancel)
  then have "crc_update (foldl crc_update 0xFFFFFFFF xs) b = crc_update (foldl crc_update 0xFFFFFFFF xs) b'"
    by (auto dest: crc_fold_inj)
  with assms crc_update_inj(2) show False by blast
qed

section \<open>Numbers on the wire\<close>

lemma be_nat_snoc: "be_nat (xs @ [b]) = be_nat xs * 256 + unat b"
  by (simp add: be_nat_def)

lemma be_nat_less: "be_nat xs < 256 ^ length xs"
proof (induction xs rule: rev_induct)
  case (snoc b xs)
  have "unat b < 2 ^ LENGTH(8)" by (rule unsigned_less)
  with snoc show ?case by (simp add: be_nat_snoc)
qed (simp add: be_nat_def)

lemma be_nat_inj: "be_nat xs = be_nat ys \<Longrightarrow> length xs = length ys \<Longrightarrow> xs = ys"
proof (induction xs arbitrary: ys rule: rev_induct)
  case (snoc b xs)
  obtain zs c where ys: "ys = zs @ [c]" using snoc.prems(2) by (cases ys rule: rev_cases) auto
  have l: "unat b < 256" "unat c < 256"
    using unsigned_less [of b] unsigned_less [of c] by simp_all
  have eq: "be_nat xs * 256 + unat b = be_nat zs * 256 + unat c"
    using snoc.prems(1) ys by (simp add: be_nat_snoc)
  have "unat b = unat c" using arg_cong [OF eq, of "\<lambda>n. n mod 256"] l by simp
  moreover have "be_nat xs = be_nat zs" using eq calculation by simp
  then have "xs = zs" using snoc.IH snoc.prems(2) ys by simp
  ultimately show ?case by (simp add: ys word_unat_eq_iff)
qed simp

lemma length_be_bytes [simp]: "length (be_bytes n v) = n"
  by (simp add: be_bytes_def)

lemma be_bytes_Suc: "be_bytes (Suc n) v = be_bytes n (v div 256) @ [word_of_nat v]"
proof -
  have "rev [0..<Suc n] = map Suc (rev [0..<n]) @ [0]"
    by (metis map_Suc_upt rev.simps(2) rev_map upt_rec zero_less_Suc)
  then show ?thesis by (simp add: be_bytes_def div_mult2_eq)
qed

lemma be_nat_bytes: "v < 256 ^ n \<Longrightarrow> be_nat (be_bytes n v) = v"
proof (induction n arbitrary: v)
  case 0
  then show ?case by (simp add: be_nat_def be_bytes_def)
next
  case (Suc n)
  have "v div 256 < 256 ^ n" using Suc.prems by (simp add: less_mult_imp_div_less mult.commute)
  with Suc.IH have "be_nat (be_bytes n (v div 256)) = v div 256" by blast
  then show ?case by (simp add: be_bytes_Suc be_nat_snoc unat_of_nat)
qed

section \<open>More bytes do not change a decoded message\<close>

lemma decode_prefix:
  assumes "decodeEventStreamMessage buf = Some r"
  shows "decodeEventStreamMessage (buf @ suf) = Some r"
proof -
  have l4: "4 \<le> length buf" using assms by (auto simp: decodeEventStreamMessage_def split: if_splits)
  define n where "n = be_nat (take 4 buf)"
  have n: "be_nat (take 4 (buf @ suf)) = n" using l4 by (simp add: n_def)
  show ?thesis
  proof (cases "n < 16")
    case True
    with assms l4 n show ?thesis
      by (simp add: decodeEventStreamMessage_def MIN_MESSAGE_LENGTH_def Let_def n_def)
  next
    case False
    have len: "n \<le> length buf"
      using assms l4 False by (auto simp: decodeEventStreamMessage_def MIN_MESSAGE_LENGTH_def Let_def n_def split: if_splits)
    have t: "take k (drop j (buf @ suf)) = take k (drop j buf)" if "j + k \<le> n" for j k
      using that len by (simp add: drop_append)
    have t0: "take k (buf @ suf) = take k buf" if "k \<le> n" for k
      using that len by simp
    have fm: "frame_message n h (buf @ suf) = frame_message n h buf" if "h \<le> n - 16" for h
    proof -
      have a: "take h (drop 12 (buf @ suf)) = take h (drop 12 buf)" by (rule t) (use that False in simp)
      have b: "take (n - 4 - (12 + h)) (drop (12 + h) (buf @ suf)) = take (n - 4 - (12 + h)) (drop (12 + h) buf)"
        by (rule t) (use that False in simp)
      show ?thesis unfolding frame_message_def Let_def a b ..
    qed
    define h where "h = be_nat (take 4 (drop 4 buf))"
    show ?thesis
    proof (cases "h \<le> n - 16")
      case True
      then show ?thesis
        using assms l4 False len n t [of 4 4] t [of 8 4] t [of "n - 4" 4] fm [of h]
          t0 [of 8] t0 [of "n - 4"]
        unfolding decodeEventStreamMessage_def MIN_MESSAGE_LENGTH_def Let_def n_def [symmetric]
        by (simp add: h_def [symmetric] n split: if_split_asm)
    next
      case nh: False
      then show ?thesis
        using assms l4 False len n t [of 4 4]
        unfolding decodeEventStreamMessage_def MIN_MESSAGE_LENGTH_def Let_def n_def [symmetric]
        by (simp add: h_def [symmetric] n)
    qed
  qed
qed

text \<open>Draining in two steps is draining at once.\<close>

lemma drain_append:
  "drain buf = (ms, rest, e) \<Longrightarrow>
     (case e of
        Some x \<Rightarrow> \<exists>rest'. drain (buf @ suf) = (ms, rest', Some x)
      | None \<Rightarrow> drain (buf @ suf) = (ms @ fst (drain (rest @ suf)), snd (drain (rest @ suf))))"
proof (induction buf arbitrary: ms rest e rule: drain.induct)
  case (1 buf)
  show ?case
  proof (cases "decodeEventStreamMessage buf")
    case None
    with "1.prems" show ?thesis by (simp add: drain.simps [of buf])
  next
    case (Some r)
    note dp = decode_prefix [OF Some, of suf]
    show ?thesis
    proof (cases r)
      case (Inl x)
      have "drain buf = ([], buf, Some x)" by (subst drain.simps) (simp add: Some Inl)
      moreover have "drain (buf @ suf) = ([], buf @ suf, Some x)" by (subst drain.simps) (simp add: dp Inl)
      ultimately show ?thesis using "1.prems" by auto
    next
      case (Inr z)
      obtain m n where z: "z = (m, n)" by (cases z)
      have n: "n \<le> length buf" using decode_size(2) [of buf m n] Some Inr z by simp
      obtain ms1 rest1 e1 where d: "drain (drop n buf) = (ms1, rest1, e1)" by (cases "drain (drop n buf)")
      have b: "ms = m # ms1" "rest = rest1" "e = e1"
        using "1.prems" Some Inr z d by (simp_all add: drain.simps [of buf])
      have b2: "drain (buf @ suf) =
          (m # fst (drain (drop n buf @ suf)), snd (drain (drop n buf @ suf)))"
        using dp Inr z n by (simp add: drain.simps [of "buf @ suf"] case_prod_unfold Let_def)
      show ?thesis
        using "1.IH" [OF Some Inr z [symmetric] d] b b2 by (auto split: option.splits)
    qed
  qed
qed

lemma chunks_drain:
  "drain (concat cs) = (ms, rest, e) \<Longrightarrow>
     es_out (foldl es_transform es_start cs) = ms \<and> es_failed (foldl es_transform es_start cs) = e \<and>
     (e = None \<longrightarrow> es_buffer (foldl es_transform es_start cs) = rest)"
proof (induction cs arbitrary: ms rest e rule: rev_induct)
  case Nil
  then show ?case
    by (simp add: es_start_def drain.simps [of "[]"] decodeEventStreamMessage_def)
next
  case (snoc c cs)
  let ?d = "foldl es_transform es_start cs"
  obtain ms1 rest1 e1 where d: "drain (concat cs) = (ms1, rest1, e1)" by (cases "drain (concat cs)")
  note IH = snoc.IH [OF d]
  show ?case
  proof (cases e1)
    case (Some x)
    with drain_append [OF d, of c] snoc.prems IH show ?thesis
      by (auto simp: es_transform_def)
  next
    case None
    have "concat_bytes (es_buffer ?d) c = rest1 @ c" using IH None by (simp add: concat_bytes_def)
    moreover have "drain (concat cs @ c) = (ms1 @ fst (drain (rest1 @ c)), snd (drain (rest1 @ c)))"
      using drain_append [OF d, of c] None by simp
    ultimately show ?thesis
      using snoc.prems IH None by (cases "drain (rest1 @ c)") (auto simp: es_transform_def)
  qed
qed

text \<open>How the network cuts the stream does not matter: for every way to cut the same bytes into
  chunks the streaming decoder emits the same messages, in the same order, and ends in the same way,
  with no error, the same framing or checksum error, or a trailing partial frame.\<close>

theorem chunking_is_invisible:
  assumes "concat cs = concat cs'"
  shows "es_out (es_decode_chunks cs) = es_out (es_decode_chunks cs') \<and>
    es_failed (es_decode_chunks cs) = es_failed (es_decode_chunks cs')"
proof -
  obtain ms rest e where d: "drain (concat cs) = (ms, rest, e)" by (cases "drain (concat cs)")
  note c = chunks_drain [OF d] chunks_drain [OF d [unfolded assms]]
  show ?thesis
    using c by (cases e) (auto simp: es_decode_chunks_def es_flush_def)
qed

section \<open>One wrong byte is always noticed\<close>

lemma decode_accepts:
  assumes "decodeEventStreamMessage buf = Some (Inr (m, k))"
  shows "k = be_nat (take 4 buf)" "16 \<le> k" "k \<le> length buf"
    "be_nat (take 4 (drop 8 buf)) = unat (crc32 (take 8 buf))"
    "be_nat (take 4 (drop (k - 4) buf)) = unat (crc32 (take (k - 4) buf))"
proof -
  define n where "n = be_nat (take 4 buf)"
  have "16 \<le> n \<and> n \<le> length buf \<and> be_nat (take 4 (drop 8 buf)) = unat (crc32 (take 8 buf)) \<and>
      be_nat (take 4 (drop (n - 4) buf)) = unat (crc32 (take (n - 4) buf)) \<and>
      frame_message n (be_nat (take 4 (drop 4 buf))) buf = Inr (m, k)"
    using assms unfolding decodeEventStreamMessage_def MIN_MESSAGE_LENGTH_def Let_def n_def [symmetric]
    by (simp split: if_split_asm)
  moreover from this have "k = n" using frame_message_size by blast
  ultimately show "k = be_nat (take 4 buf)" "16 \<le> k" "k \<le> length buf"
    "be_nat (take 4 (drop 8 buf)) = unat (crc32 (take 8 buf))"
    "be_nat (take 4 (drop (k - 4) buf)) = unat (crc32 (take (k - 4) buf))"
    by (simp_all add: n_def)
qed

lemma crc_changed:
  assumes "i < k" and "k \<le> length buf" and "y \<noteq> buf ! i"
  shows "crc32 (take k (buf[i := y])) \<noteq> crc32 (take k buf)"
proof -
  have i: "i < length (take k buf)" using assms by simp
  have "take k buf = take i (take k buf) @ buf ! i # drop (Suc i) (take k buf)"
    using id_take_nth_drop [OF i] assms(1) by simp
  moreover have "take k (buf[i := y]) = take i (take k buf) @ y # drop (Suc i) (take k buf)"
    using upd_conv_take_nth_drop [OF i, of y] by (simp add: take_update_swap)
  ultimately show ?thesis using crc32_one_byte [OF assms(3)] by metis
qed

lemma stored_changed:
  assumes "j \<le> i" and "i < j + 4" and "j + 4 \<le> length buf" and "y \<noteq> buf ! i"
  shows "be_nat (take 4 (drop j (buf[i := y]))) \<noteq> be_nat (take 4 (drop j buf))"
proof
  assume "be_nat (take 4 (drop j (buf[i := y]))) = be_nat (take 4 (drop j buf))"
  then have "take 4 (drop j (buf[i := y])) = take 4 (drop j buf)" by (rule be_nat_inj) simp
  then have "take 4 (drop j (buf[i := y])) ! (i - j) = take 4 (drop j buf) ! (i - j)" by simp
  with assms show False by simp
qed

lemma kept:
  "i < j \<or> j + k \<le> i \<Longrightarrow> take k (drop j (buf[i := y])) = take k (drop j buf)"
  "k \<le> i \<Longrightarrow> take k (buf[i := y]) = take k buf"
  by (auto simp: drop_update_swap not_less take_update_cancel)

text \<open>A frame with one wrong byte is never taken for a message: if the decoder accepts a frame,
  then with any single byte of it changed it accepts nothing, and unless the byte belongs to the length
  field, where the decoder may wait for more bytes, it reports an error at once.\<close>

theorem wrong_byte_is_noticed:
  assumes ok: "decodeEventStreamMessage buf = Some (Inr (m, n))" and i: "i < n" and y: "y \<noteq> buf ! i"
  shows "(\<forall>r. decodeEventStreamMessage (buf[i := y]) \<noteq> Some (Inr r)) \<and>
    (4 \<le> i \<longrightarrow> (\<exists>e. decodeEventStreamMessage (buf[i := y]) = Some (Inl e)))"
proof -
  note a = decode_accepts [OF ok]
  have no: False if ok': "decodeEventStreamMessage (buf[i := y]) = Some (Inr (m', n'))" for m' n'
  proof -
    note b = decode_accepts [OF ok']
    show False
    proof (cases "i < 8")
      case True
      have "unat (crc32 (take 8 (buf[i := y]))) = unat (crc32 (take 8 buf))"
        using a(4) b(4) kept(1) [of i 8 4 buf y] True by simp
      with crc_changed [OF True _ y] a(2,3) show False by (simp add: word_unat_eq_iff)
    next
      case ge8: False
      have n': "n' = n" using a(1) b(1) kept(2) [of 4 i buf y] ge8 by simp
      show False
      proof (cases "i < 12")
        case True
        have "take 8 (buf[i := y]) = take 8 buf" by (rule kept(2)) (use ge8 in simp)
        then have "be_nat (take 4 (drop 8 (buf[i := y]))) = be_nat (take 4 (drop 8 buf))"
          unfolding a(4) b(4) by (simp only:)
        moreover have "8 \<le> i" "i < 8 + 4" "8 + 4 \<le> length buf" using ge8 True a(2,3) by simp_all
        ultimately show False using stored_changed [OF _ _ _ y, of 8] by blast
      next
        case ge12: False
        show False
        proof (cases "i < n - 4")
          case True
          have "unat (crc32 (take (n - 4) (buf[i := y]))) = unat (crc32 (take (n - 4) buf))"
            using a(5) b(5) kept(1) [of i "n - 4" 4 buf y] True n' by simp
          moreover have "n - 4 \<le> length buf" using a(3) by simp
          ultimately show False using crc_changed [OF True _ y] by (simp add: word_unat_eq_iff)
        next
          case False
          have "take (n - 4) (buf[i := y]) = take (n - 4) buf" by (rule kept(2)) (use False in simp)
          then have "be_nat (take 4 (drop (n - 4) (buf[i := y]))) = be_nat (take 4 (drop (n - 4) buf))"
            unfolding a(5) b(5) [unfolded n'] by (simp only:)
          moreover have "n - 4 \<le> i" "i < n - 4 + 4" "n - 4 + 4 \<le> length buf" using False i a(2,3) by simp_all
          ultimately show False using stored_changed [OF _ _ _ y, of "n - 4"] by blast
        qed
      qed
    qed
  qed
  then have none: "decodeEventStreamMessage (buf[i := y]) \<noteq> Some (Inr r)" for r by (cases r) auto
  moreover have "\<exists>e. decodeEventStreamMessage (buf[i := y]) = Some (Inl e)" if "4 \<le> i"
  proof -
    have "be_nat (take 4 (buf[i := y])) = n" using that kept(2) [of 4 i buf y] a(1) by simp
    then have "decodeEventStreamMessage (buf[i := y]) \<noteq> None"
      using a(2,3) by (simp add: decodeEventStreamMessage_def MIN_MESSAGE_LENGTH_def Let_def)
    then obtain r where r: "decodeEventStreamMessage (buf[i := y]) = Some r" by blast
    with none show ?thesis by (cases r) auto
  qed
  ultimately show ?thesis by blast
qed

section \<open>Decoding what was encoded\<close>

definition header_ok :: "codepoints \<times> codepoints \<Rightarrow> bool" where
  "header_ok h \<longleftrightarrow> plain_text (fst h) \<and> plain_text (snd h) \<and> fst h \<noteq> text_of ''__proto__'' \<and>
     length (utf8_encode (fst h)) < 256 \<and> length (utf8_encode (snd h)) < 65536"

lemma parse_encoded:
  assumes "header_ok h"
  shows "parseHeaders (encode_header h @ rest) hs = parseHeaders rest (jm_set hs (fst h) (HText (snd h)))"
proof -
  let ?n = "utf8_encode (fst h)" and ?v = "utf8_encode (snd h)"
  have ok: "length ?n < 256" "length ?v < 65536" "utf8_decode ?n = fst h" "utf8_decode ?v = snd h"
    "fst h \<noteq> text_of ''__proto__''"
    using assms by (simp_all add: header_ok_def utf8_roundtrip)
  have len: "unat (word_of_nat (length ?n) :: byte) = length ?n" by (rule unat_byte) (rule ok(1))
  have "be_nat (be_bytes 2 (length ?v)) = length ?v" by (rule be_nat_bytes) (use ok(2) in simp)
  then have "header_value 7 (be_bytes 2 (length ?v) @ ?v @ rest) = Inr (HText (snd h), rest)"
    using ok(4) by (simp add: header_value_def sized_value_def read_uint_def)
  then show ?thesis
    using len ok(3,5) by (subst parseHeaders.simps) (simp add: encode_header_def Let_def set_header_def)
qed

lemma parse_all:
  assumes "list_all header_ok hs"
  shows "parseHeaders (concat (map encode_header hs)) acc =
    Inr (foldl (\<lambda>m h. jm_set m (fst h) (HText (snd h))) acc hs)"
  using assms
proof (induction hs arbitrary: acc)
  case Nil
  then show ?case by (simp add: parseHeaders.simps)
next
  case (Cons h hs)
  then show ?case by (simp add: parse_encoded)
qed

lemma set_new: "k \<notin> fst ` set m \<Longrightarrow> jm_set m k v = m @ [(k, v)]"
  by (induction m) auto

lemma fold_sets:
  assumes "distinct (map fst hs)" and "fst ` set acc \<inter> fst ` set hs = {}"
  shows "foldl (\<lambda>m h. jm_set m (fst h) (HText (snd h))) acc hs = acc @ map (\<lambda>h. (fst h, HText (snd h))) hs"
  using assms
proof (induction hs arbitrary: acc)
  case (Cons h hs)
  then have "jm_set acc (fst h) (HText (snd h)) = acc @ [(fst h, HText (snd h))]" by (intro set_new) auto
  with Cons show ?case by (auto simp: image_iff)
qed simp

lemma roundtrip_facts:
  assumes "list_all header_ok hs" and "distinct (map fst hs)"
    and "length (encodeEventStreamMessage hs payload) < 2 ^ 32"
  shows "decodeEventStreamMessage (encodeEventStreamMessage hs payload @ suf) =
    Some (Inr (\<lparr>es_headers = map (\<lambda>h. (fst h, HText (snd h))) hs, es_payload = payload\<rparr>,
      length (encodeEventStreamMessage hs payload)))"
proof -
  define hb where "hb = concat (map encode_header hs)"
  define n where "n = 12 + length hb + length payload + 4"
  define pre where "pre = be_bytes 4 n @ be_bytes 4 (length hb)"
  define body where "body = pre @ be_bytes 4 (unat (crc32 pre)) @ hb @ payload"
  have enc: "encodeEventStreamMessage hs payload = body @ be_bytes 4 (unat (crc32 body))"
    by (simp add: encodeEventStreamMessage_def hb_def n_def pre_def body_def Let_def)
  have lp: "length pre = 8" "length body = n - 4" by (simp_all add: pre_def body_def n_def)
  have len: "length (encodeEventStreamMessage hs payload) = n" by (simp add: enc lp n_def)
  have small: "n < 256 ^ 4" "length hb < 256 ^ 4" using assms(3) len by (simp_all add: n_def)
  have crc: "unat c < 256 ^ 4" for c :: "32 word"
  proof -
    have "unat c < 2 ^ LENGTH(32)" by (rule unsigned_less)
    then show ?thesis by simp
  qed
  note be = be_nat_bytes [OF small(1)] be_nat_bytes [OF small(2)] be_nat_bytes [OF crc]
  let ?buf = "encodeEventStreamMessage hs payload @ suf"
  have r: "take 4 ?buf = be_bytes 4 n" "take 4 (drop 4 ?buf) = be_bytes 4 (length hb)"
    "take 8 ?buf = pre" "take 4 (drop 8 ?buf) = be_bytes 4 (unat (crc32 pre))"
    "take (n - 4) ?buf = body" "take 4 (drop (n - 4) ?buf) = be_bytes 4 (unat (crc32 body))"
    "take (length hb) (drop 12 ?buf) = hb" "take (n - 4 - (12 + length hb)) (drop (12 + length hb) ?buf) = payload"
    using lp by (simp_all add: enc body_def pre_def n_def)
  have "parseHeaders hb [] = Inr (map (\<lambda>h. (fst h, HText (snd h))) hs)"
    unfolding hb_def parse_all [OF assms(1)] using fold_sets [of hs "[]"] assms(2) by simp
  then have fm: "frame_message n (length hb) ?buf =
      Inr (\<lparr>es_headers = map (\<lambda>h. (fst h, HText (snd h))) hs, es_payload = payload\<rparr>, n)"
    unfolding frame_message_def Let_def r by simp
  have "\<not> length ?buf < 4" "\<not> n < 16" "\<not> length ?buf < n" "\<not> n - 16 < length hb"
    using len by (simp_all add: n_def)
  then show ?thesis
    unfolding decodeEventStreamMessage_def MIN_MESSAGE_LENGTH_def Let_def r be fm len by simp
qed

text \<open>Round trip: an encoded message, followed by any bytes, decodes to exactly its headers, in
  order, and its payload, and takes exactly its own bytes, for text headers with distinct names that
  fit the one-byte name and two-byte value lengths and a frame below four gigabytes.\<close>

theorem event_stream_roundtrip:
  assumes "list_all header_ok hs" and "distinct (map fst hs)"
    and "length (encodeEventStreamMessage hs payload) < 2 ^ 32"
  shows "decodeEventStreamMessage (encodeEventStreamMessage hs payload @ suf) =
    Some (Inr (\<lparr>es_headers = map (\<lambda>h. (fst h, HText (snd h))) hs, es_payload = payload\<rparr>,
      length (encodeEventStreamMessage hs payload)))"
  by (rule roundtrip_facts [OF assms])

text \<open>Examples.\<close>

definition demo_headers :: "(codepoints \<times> codepoints) list" where
  "demo_headers = [(text_of '':event-type'', text_of ''chunk'')]"

lemma utf8_char_length: "length (utf8_char c) \<le> 4"
  by (simp add: utf8_char_def)

lemma utf8_length: "length (utf8_encode cs) \<le> 4 * length cs"
proof (induction cs)
  case (Cons c cs)
  with utf8_char_length [of c] show ?case by (simp add: utf8_encode_def)
qed (simp add: utf8_encode_def)

lemma header_okI:
  assumes "plain_text n" and "plain_text v" and "n \<noteq> text_of ''__proto__''" and "length n < 64" and "length v < 16384"
  shows "header_ok (n, v)"
  using assms utf8_length [of n] utf8_length [of v] by (simp add: header_ok_def)

lemma demo_headers_ok: "list_all header_ok demo_headers" "distinct (map fst demo_headers)"
  by (simp_all add: demo_headers_def header_okI plain_text_def scalar_def text_of_def)

lemma demo_frame_length: "length (encodeEventStreamMessage demo_headers [1, 2]) < 2 ^ 32"
  using utf8_length [of "text_of '':event-type''"] utf8_length [of "text_of ''chunk''"]
  by (simp add: encodeEventStreamMessage_def Let_def demo_headers_def encode_header_def text_of_def)

theorem event_stream_roundtrip_witness:
  "decodeEventStreamMessage (encodeEventStreamMessage demo_headers [1, 2] @ [0]) =
     Some (Inr (\<lparr>es_headers = [(text_of '':event-type'', HText (text_of ''chunk''))], es_payload = [1, 2]\<rparr>,
       length (encodeEventStreamMessage demo_headers [1, 2])))"
  using event_stream_roundtrip [OF demo_headers_ok demo_frame_length, of "[0]"] by (simp add: demo_headers_def)

theorem wrong_byte_is_noticed_witness:
  "\<exists>e. decodeEventStreamMessage ((encodeEventStreamMessage demo_headers [1, 2])
     [4 := encodeEventStreamMessage demo_headers [1, 2] ! 4 + 1]) = Some (Inl e)"
proof -
  let ?b = "encodeEventStreamMessage demo_headers [1, 2]"
  have "decodeEventStreamMessage (?b @ []) =
      Some (Inr (\<lparr>es_headers = map (\<lambda>h. (fst h, HText (snd h))) demo_headers, es_payload = [1, 2]\<rparr>, length ?b))"
    by (rule roundtrip_facts [OF demo_headers_ok demo_frame_length])
  moreover have "4 < length ?b" by (simp add: encodeEventStreamMessage_def Let_def)
  ultimately show ?thesis
    using wrong_byte_is_noticed [of ?b _ "length ?b" 4 "?b ! 4 + 1"] by simp
qed

theorem chunking_is_invisible_witness:
  "es_out (es_decode_chunks [[1, 2], [3], []]) = es_out (es_decode_chunks [[1], [2, 3]])"
  using chunking_is_invisible [of "[[1, 2], [3], []]" "[[1], [2, 3]]"] by simp

end
