(* ===== verification/JsonText.thy ===== *)
theory JsonText
  imports Json Utf8
begin

text \<open>
  JSON text: \<open>JSON.parse\<close> and \<open>JSON.stringify\<close> of ECMA-404 on Unicode texts, as the streaming and
  orchestration code uses them. A syntax error is \<^term>\<open>None\<close>. Numbers are exact rationals; the
  rendering of a number is the argument \<open>num_text\<close>, of which only the rendering of integers is used.
  The parser recurses on fuel; \<open>json_parse\<close> starts it with twice the length of the text, and
  \<open>json_fuel\<close> shows that more fuel never changes the answer.
\<close>

type_synonym jtext = codepoints

section \<open>Reading\<close>

definition json_space :: "nat \<Rightarrow> bool" where
  "json_space c \<longleftrightarrow> c = 32 \<or> c = 9 \<or> c = 10 \<or> c = 13"

abbreviation skip_ws :: "jtext \<Rightarrow> jtext" where
  "skip_ws s \<equiv> dropWhile json_space s"

definition cp_digit :: "nat \<Rightarrow> bool" where
  "cp_digit c \<longleftrightarrow> 48 \<le> c \<and> c \<le> 57"

definition dec_val :: "jtext \<Rightarrow> nat" where
  "dec_val = foldl (\<lambda>a c. 10 * a + (c - 48)) 0"

definition hex_val :: "nat \<Rightarrow> nat option" where
  "hex_val c =
     (if cp_digit c then Some (c - 48)
      else if 97 \<le> c \<and> c \<le> 102 then Some (c - 87)
      else if 65 \<le> c \<and> c \<le> 70 then Some (c - 55) else None)"

definition hex4 :: "jtext \<Rightarrow> nat option" where
  "hex4 s =
     (case map hex_val s of
        [Some a, Some b, Some c, Some d] \<Rightarrow> Some (((a * 16 + b) * 16 + c) * 16 + d)
      | _ \<Rightarrow> None)"

definition simple_escape :: "nat \<Rightarrow> nat option" where
  "simple_escape e =
     (if e = 34 \<or> e = 92 \<or> e = 47 then Some e
      else if e = 98 then Some 8 else if e = 102 then Some 12 else if e = 110 then Some 10
      else if e = 114 then Some 13 else if e = 116 then Some 9 else None)"

definition cons_unit :: "nat \<Rightarrow> (jtext \<times> jtext) option \<Rightarrow> (jtext \<times> jtext) option" where
  "cons_unit u p = map_option (\<lambda>(us, r). (u # us, r)) p"

text \<open>The characters of a string up to its closing quote, and what follows it.\<close>

fun parse_units :: "jtext \<Rightarrow> (jtext \<times> jtext) option" where
  "parse_units [] = None"
| "parse_units (c # r) =
     (if c = 34 then Some ([], r)
      else if c = 92 then
        (case r of
           [] \<Rightarrow> None
         | e # r1 \<Rightarrow>
             if e = 117 then
               (case hex4 (take 4 r1) of
                  None \<Rightarrow> None
                | Some u \<Rightarrow> cons_unit u (parse_units (drop 4 r1)))
             else (case simple_escape e of None \<Rightarrow> None | Some u \<Rightarrow> cons_unit u (parse_units r1)))
      else if c < 32 then None
      else cons_unit c (parse_units r))"

text \<open>Two escapes of a surrogate pair are one code point.\<close>

fun join_surrogates :: "jtext \<Rightarrow> jtext" where
  "join_surrogates (h # l # r) =
     (if 0xD800 \<le> h \<and> h < 0xDC00 \<and> 0xDC00 \<le> l \<and> l < 0xE000
      then (0x10000 + (h - 0xD800) * 0x400 + (l - 0xDC00)) # join_surrogates r
      else h # join_surrogates (l # r))"
| "join_surrogates s = s"

definition parse_string :: "jtext \<Rightarrow> (jtext \<times> jtext) option" where
  "parse_string r = map_option (\<lambda>(us, r'). (join_surrogates us, r')) (parse_units r)"

definition parse_exponent :: "jtext \<Rightarrow> (int \<times> jtext) option" where
  "parse_exponent s =
     (case s of
        c # r \<Rightarrow>
          if c = 101 \<or> c = 69 then
            (let neg = (case r of d # _ \<Rightarrow> d = 45 | [] \<Rightarrow> False);
                 r1 = (case r of d # r2 \<Rightarrow> if d = 45 \<or> d = 43 then r2 else r | [] \<Rightarrow> r);
                 ds = takeWhile cp_digit r1;
                 e = int (dec_val ds)
             in if ds = [] then None
                else Some (if neg then - e else e, dropWhile cp_digit r1))
          else Some (0, s)
      | [] \<Rightarrow> Some (0, s))"

definition parse_fraction :: "jtext \<Rightarrow> (jtext \<times> jtext) option" where
  "parse_fraction s =
     (case s of
        c # r \<Rightarrow>
          if c = 46 then
            (let ds = takeWhile cp_digit r
             in if ds = [] then None else Some (ds, dropWhile cp_digit r))
          else Some ([], s)
      | [] \<Rightarrow> Some ([], s))"

definition parse_unsigned :: "jtext \<Rightarrow> (rat \<times> jtext) option" where
  "parse_unsigned s =
     (let ip = (case s of c # _ \<Rightarrow> if c = 48 then [c] else takeWhile cp_digit s | [] \<Rightarrow> []);
          r = drop (length ip) s
      in if ip = [] then None
         else case parse_fraction r of
                None \<Rightarrow> None
              | Some (fp, r1) \<Rightarrow>
                  (case parse_exponent r1 of
                     None \<Rightarrow> None
                   | Some (e, r2) \<Rightarrow>
                       Some (of_nat (dec_val (ip @ fp)) * pow10 (e - int (length fp)), r2)))"

definition parse_number :: "jtext \<Rightarrow> (rat \<times> jtext) option" where
  "parse_number s =
     (case s of
        c # r \<Rightarrow>
          if c = 45 then map_option (\<lambda>(q, r'). (- q, r')) (parse_unsigned r) else parse_unsigned s
      | [] \<Rightarrow> None)"

text \<open>The JavaScript object gets one entry per key; a repeated key keeps its place and takes the
  last value.\<close>

definition object_of :: "(jtext \<times> jtext json) list \<Rightarrow> jtext json" where
  "object_of ms = JObj (foldl (\<lambda>m (k, v). jm_set m k v) [] ms)"

definition parse_word :: "string \<Rightarrow> jtext json \<Rightarrow> jtext \<Rightarrow> (jtext json \<times> jtext) option" where
  "parse_word w v s =
     (if take (length w) s = text_of w then Some (v, drop (length w) s) else None)"

fun parse_value :: "nat \<Rightarrow> jtext \<Rightarrow> (jtext json \<times> jtext) option"
  and parse_elements :: "nat \<Rightarrow> jtext \<Rightarrow> (jtext json list \<times> jtext) option"
  and parse_members :: "nat \<Rightarrow> jtext \<Rightarrow> ((jtext \<times> jtext json) list \<times> jtext) option" where
  "parse_value 0 s = None"
| "parse_value (Suc n) s =
     (case skip_ws s of
        [] \<Rightarrow> None
      | c # r \<Rightarrow>
          if c = 34 then map_option (\<lambda>(t, r'). (JStr t, r')) (parse_string r)
          else if c = 91 then
            (case skip_ws r of
               [] \<Rightarrow> None
             | d # r1 \<Rightarrow>
                 if d = 93 then Some (JArr [], r1)
                 else map_option (\<lambda>(vs, r'). (JArr vs, r')) (parse_elements n r))
          else if c = 123 then
            (case skip_ws r of
               [] \<Rightarrow> None
             | d # r1 \<Rightarrow>
                 if d = 125 then Some (JObj [], r1)
                 else map_option (\<lambda>(ms, r'). (object_of ms, r')) (parse_members n r))
          else if c = 110 then parse_word ''null'' JNull (c # r)
          else if c = 116 then parse_word ''true'' (JBool True) (c # r)
          else if c = 102 then parse_word ''false'' (JBool False) (c # r)
          else map_option (\<lambda>(q, r'). (JNum q, r')) (parse_number (c # r)))"
| "parse_elements 0 s = None"
| "parse_elements (Suc n) s =
     (case parse_value n s of
        None \<Rightarrow> None
      | Some (v, r) \<Rightarrow>
          (case skip_ws r of
             [] \<Rightarrow> None
           | c # r1 \<Rightarrow>
               if c = 44 then map_option (\<lambda>(vs, r'). (v # vs, r')) (parse_elements n r1)
               else if c = 93 then Some ([v], r1) else None))"
| "parse_members 0 s = None"
| "parse_members (Suc n) s =
     (case skip_ws s of
        [] \<Rightarrow> None
      | q # r0 \<Rightarrow>
          if q \<noteq> 34 then None
          else case parse_string r0 of
             None \<Rightarrow> None
           | Some (k, r1) \<Rightarrow>
               (case skip_ws r1 of
                  [] \<Rightarrow> None
                | c # r2 \<Rightarrow>
                    if c \<noteq> 58 then None
                    else case parse_value n r2 of
                       None \<Rightarrow> None
                     | Some (v, r3) \<Rightarrow>
                         (case skip_ws r3 of
                            [] \<Rightarrow> None
                          | d # r4 \<Rightarrow>
                              if d = 44 then
                                map_option (\<lambda>(ms, r'). ((k, v) # ms, r')) (parse_members n r4)
                              else if d = 125 then Some ([(k, v)], r4) else None)))"

definition json_parse :: "jtext \<Rightarrow> jtext json option" where
  "json_parse s =
     (case parse_value (2 * length s + 2) s of
        Some (v, r) \<Rightarrow> if skip_ws r = [] then Some v else None
      | None \<Rightarrow> None)"

section \<open>Writing\<close>

definition hex_digit :: "nat \<Rightarrow> nat" where
  "hex_digit n = (if n < 10 then 48 + n else 87 + n)"

definition u_escape :: "nat \<Rightarrow> jtext" where
  "u_escape c =
     [92, 117, hex_digit (c div 4096 mod 16), hex_digit (c div 256 mod 16),
      hex_digit (c div 16 mod 16), hex_digit (c mod 16)]"

definition print_char :: "nat \<Rightarrow> jtext" where
  "print_char c =
     (if c = 34 \<or> c = 92 then [92, c]
      else if c = 8 then [92, 98] else if c = 12 then [92, 102] else if c = 10 then [92, 110]
      else if c = 13 then [92, 114] else if c = 9 then [92, 116]
      else if c < 32 \<or> 0xD800 \<le> c \<and> c < 0xE000 then u_escape c
      else [c])"

definition print_string :: "jtext \<Rightarrow> jtext" where
  "print_string s = 34 # concat (map print_char s) @ [34]"

fun commas :: "jtext list \<Rightarrow> jtext" where
  "commas [] = []"
| "commas [x] = x"
| "commas (x # xs) = x @ 44 # commas xs"

fun json_stringify :: "(rat \<Rightarrow> jtext) \<Rightarrow> jtext json \<Rightarrow> jtext" where
  "json_stringify num_text JNull = text_of ''null''"
| "json_stringify num_text (JBool b) = text_of (if b then ''true'' else ''false'')"
| "json_stringify num_text (JNum q) = num_text q"
| "json_stringify num_text (JStr s) = print_string s"
| "json_stringify num_text (JArr vs) = 91 # commas (map (json_stringify num_text) vs) @ [93]"
| "json_stringify num_text (JObj ms) =
     123 # commas (map (\<lambda>(k, v). print_string k @ 58 # json_stringify num_text v) ms) @ [125]"

section \<open>What is written is read back\<close>

subsection \<open>Strings\<close>

lemma hex_val_digit: "n < 16 \<Longrightarrow> hex_val (hex_digit n) = Some n"
  by (auto simp: hex_val_def hex_digit_def cp_digit_def)

lemma hex4_digits:
  "hex4 [hex_digit (a mod 16), hex_digit (b mod 16), hex_digit (c mod 16), hex_digit (d mod 16)] =
     Some (((a mod 16 * 16 + b mod 16) * 16 + c mod 16) * 16 + d mod 16)"
  by (simp add: hex4_def hex_val_digit)

lemma hex4_escape: "c < 65536 \<Longrightarrow> hex4 (drop 2 (u_escape c)) = Some c"
proof -
  assume c: "c < 65536"
  have d: "c div 256 = c div 16 div 16" "c div 4096 = c div 16 div 16 div 16"
    by (simp_all add: div_mult2_eq [symmetric])
  have "c div 16 div 16 div 16 mod 16 = c div 16 div 16 div 16"
    using c by (simp add: d(2) [symmetric])
  then have "((c div 4096 mod 16 * 16 + c div 256 mod 16) * 16 + c div 16 mod 16) * 16 + c mod 16 = c"
    by (simp only: d div_mult_mod_eq)
  moreover have "drop 2 (u_escape c) =
      [hex_digit (c div 4096 mod 16), hex_digit (c div 256 mod 16), hex_digit (c div 16 mod 16),
       hex_digit (c mod 16)]"
    by (simp add: u_escape_def)
  ultimately show ?thesis
    by (simp only: hex4_digits)
qed

lemma parse_escape:
  assumes "c < 65536"
  shows "parse_units (u_escape c @ r) = cons_unit c (parse_units r)"
proof -
  have "u_escape c = 92 # 117 # drop 2 (u_escape c)" "length (drop 2 (u_escape c)) = 4"
    by (simp_all add: u_escape_def)
  then obtain d where d: "u_escape c = 92 # 117 # d" "length d = 4" "d = drop 2 (u_escape c)"
    by blast
  then have "hex4 d = Some c"
    using hex4_escape [OF assms] by simp
  with d(1,2) show ?thesis
    by simp
qed

lemma parse_print_char: "scalar c \<Longrightarrow> parse_units (print_char c @ r) = cons_unit c (parse_units r)"
  using parse_escape [of c r]
  by (auto simp: print_char_def simple_escape_def scalar_def)

lemma parse_units_print:
  "list_all scalar s \<Longrightarrow> parse_units (concat (map print_char s) @ 34 # r) = Some (s, r)"
  by (induction s) (simp_all add: parse_print_char cons_unit_def)

lemma join_scalars: "list_all scalar s \<Longrightarrow> join_surrogates s = s"
  by (induction s rule: join_surrogates.induct) (auto simp: scalar_def)

lemma parse_print_string:
  "list_all scalar s \<Longrightarrow> parse_string (concat (map print_char s) @ 34 # r) = Some (s, r)"
  by (simp add: parse_string_def parse_units_print join_scalars)

lemma print_string_quote: "print_string s @ r = 34 # concat (map print_char s) @ 34 # r"
  by (simp add: print_string_def)

subsection \<open>Integers\<close>

definition ends_number :: "jtext \<Rightarrow> bool" where
  "ends_number r \<longleftrightarrow> (case r of [] \<Rightarrow> True | c # _ \<Rightarrow> \<not> cp_digit c \<and> c \<notin> {46, 69, 101})"

lemma digit_text: "is_digit c \<Longrightarrow> cp_digit (of_char c)"
  by (simp add: is_digit_def cp_digit_def Let_def)

lemma nat_text_digits: "list_all cp_digit (text_of (nat_str n))"
  by (auto simp: text_of_def list_all_iff dest: nat_str_digit intro: digit_text)

lemma dec_val_text: "dec_val (text_of s) = digits_val s"
  unfolding dec_val_def digits_val_def text_of_def by (simp add: foldl_map)

lemma nat_str_zero_head: "n \<noteq> 0 \<Longrightarrow> hd (nat_str n) \<noteq> CHR ''0''"
proof (induction n rule: nat_str.induct)
  case (1 n)
  show ?case
  proof (cases "n < 10")
    case True
    then have "of_char (char_of (48 + n) :: char) \<noteq> (of_char (CHR ''0'') :: nat)"
      using 1(2) by simp
    then have "char_of (48 + n) \<noteq> CHR ''0''"
      by (rule contrapos_nn) (rule arg_cong)
    then show ?thesis
      using True by (simp add: nat_str.simps [of n])
  next
    case False
    then show ?thesis
      using 1 by (simp add: nat_str.simps [of n])
  qed
qed

lemma takeWhile_digits:
  assumes "list_all cp_digit ds" "ends_number r"
  shows "takeWhile cp_digit (ds @ r) = ds"
  using assms by (induction ds) (auto simp: ends_number_def split: list.splits)

lemma parse_nat_text:
  assumes "ends_number r"
  shows "parse_unsigned (text_of (nat_str n) @ r) = Some (of_nat n, r)"
proof -
  define ds where "ds = text_of (nat_str n)"
  have ds: "list_all cp_digit ds" "ds \<noteq> []" "dec_val ds = n"
    using nat_text_digits [of n] by (simp_all add: ds_def dec_val_text) (simp add: text_of_def)
  have ip: "(case ds @ r of c # _ \<Rightarrow> if c = 48 then [c] else takeWhile cp_digit (ds @ r) | [] \<Rightarrow> []) = ds"
  proof (cases "n = 0")
    case True
    then have "ds = [48]"
      by (simp add: ds_def text_of_def nat_str.simps [of 0])
    then show ?thesis by simp
  next
    case False
    have "hd ds \<noteq> 48"
    proof
      assume "hd ds = 48"
      then have "of_char (hd (nat_str n)) = (of_char (CHR ''0'') :: nat)"
        by (simp add: ds_def text_of_def hd_map)
      then show False
        using nat_str_zero_head [OF False] by (simp only: of_char_eq_iff)
    qed
    then show ?thesis
      using ds takeWhile_digits [OF ds(1) assms] by (cases ds) auto
  qed
  have f: "parse_fraction r = Some ([], r)" "parse_exponent r = Some (0, r)"
    using assms by (auto simp: parse_fraction_def parse_exponent_def ends_number_def split: list.splits)
  show ?thesis
    unfolding parse_unsigned_def ds_def [symmetric] Let_def ip using ds f by (simp add: pow10_def)
qed

lemma nat_text_head: "\<exists>c cs. text_of (nat_str n) = c # cs \<and> cp_digit c"
  using nat_text_digits [of n] by (cases "text_of (nat_str n)") (auto simp: text_of_def)

lemma parse_int_text:
  assumes "ends_number r"
  shows "parse_number (text_of (int_str i) @ r) = Some (of_int i, r)"
proof (cases "i < 0")
  case True
  then show ?thesis
    using parse_nat_text [OF assms, of "nat (- i)"]
    by (simp add: parse_number_def int_str_def text_of_def)
next
  case False
  obtain c cs where c: "text_of (nat_str (nat i)) = c # cs" "cp_digit c"
    using nat_text_head by blast
  then have "c \<noteq> 45" by (auto simp: cp_digit_def)
  with False c show ?thesis
    using parse_nat_text [OF assms, of "nat i"] by (simp add: parse_number_def int_str_def)
qed

subsection \<open>Values\<close>

fun plain_json :: "jtext json \<Rightarrow> bool" where
  "plain_json JNull = True"
| "plain_json (JBool b) = True"
| "plain_json (JNum q) = (of_int \<lfloor>q\<rfloor> = q)"
| "plain_json (JStr s) = list_all scalar s"
| "plain_json (JArr vs) = (\<forall>v \<in> set vs. plain_json v)"
| "plain_json (JObj ms) =
     (distinct (map fst ms) \<and> (\<forall>(k, v) \<in> set ms. list_all scalar k \<and> plain_json v))"

definition after_value :: "jtext \<Rightarrow> bool" where
  "after_value r \<longleftrightarrow> (case r of [] \<Rightarrow> True | c # _ \<Rightarrow> c \<in> {44, 93, 125})"

lemma after_value_simps [simp]: "after_value []" "after_value (44 # r)" "after_value (93 # r)" "after_value (125 # r)"
  by (simp_all add: after_value_def)

lemma after_value_ends: "after_value r \<Longrightarrow> ends_number r"
  by (auto simp: after_value_def ends_number_def cp_digit_def split: list.splits)

text \<open>\<open>num_text\<close> renders an integer in decimal.\<close>

definition renders_integers :: "(rat \<Rightarrow> jtext) \<Rightarrow> bool" where
  "renders_integers num_text \<longleftrightarrow> (\<forall>i. num_text (of_int i) = text_of (int_str i))"

definition opens_value :: "jtext \<Rightarrow> bool" where
  "opens_value s \<longleftrightarrow> (case s of [] \<Rightarrow> False | c # _ \<Rightarrow> \<not> json_space c \<and> c \<notin> {93, 125})"

lemma opens_append: "opens_value s \<Longrightarrow> opens_value (s @ r)"
  by (cases s) (auto simp: opens_value_def)

lemma opens_commas: "xs \<noteq> [] \<Longrightarrow> opens_value (hd xs) \<Longrightarrow> opens_value (commas xs @ r)"
  by (cases xs rule: commas.cases) (auto simp: opens_append)

lemma int_text_opens:
  "\<exists>c cs. text_of (int_str i) = c # cs \<and> (cp_digit c \<or> c = 45)"
  using nat_text_head [of "nat i"] by (auto simp: int_str_def) (auto simp: text_of_def)

text \<open>A value all of whose numbers \<open>num_text\<close> renders so that they are read back.\<close>

fun rendered_json :: "(rat \<Rightarrow> jtext) \<Rightarrow> jtext json \<Rightarrow> bool" where
  "rendered_json num_text JNull = True"
| "rendered_json num_text (JBool b) = True"
| "rendered_json num_text (JNum q) =
     (opens_value (num_text q) \<and>
      (\<forall>n r. after_value r \<longrightarrow> 2 * length (num_text q) \<le> n \<longrightarrow> parse_value n (num_text q @ r) = Some (JNum q, r)))"
| "rendered_json num_text (JStr s) = list_all scalar s"
| "rendered_json num_text (JArr vs) = (\<forall>v \<in> set vs. rendered_json num_text v)"
| "rendered_json num_text (JObj ms) =
     (distinct (map fst ms) \<and> (\<forall>(k, v) \<in> set ms. list_all scalar k \<and> rendered_json num_text v))"

lemma rendered_opens: "rendered_json num_text v \<Longrightarrow> opens_value (json_stringify num_text v)"
  by (cases v) (auto simp: opens_value_def text_of_def json_space_def print_string_def)

lemma skip_opened: "opens_value s \<Longrightarrow> skip_ws s = s"
  by (cases s) (auto simp: opens_value_def)

lemma skip_after: "after_value r \<Longrightarrow> skip_ws r = r"
  by (cases r) (auto simp: after_value_def json_space_def)

text \<open>What \<open>reads\<close> one value also reads a list of them and a list of members.\<close>

definition reads :: "(rat \<Rightarrow> jtext) \<Rightarrow> jtext json \<Rightarrow> bool" where
  "reads num_text v \<longleftrightarrow>
     opens_value (json_stringify num_text v) \<and>
     (\<forall>n r. after_value r \<longrightarrow> 2 * length (json_stringify num_text v) \<le> n \<longrightarrow>
        parse_value n (json_stringify num_text v @ r) = Some (v, r))"

lemma readsD:
  "reads num_text v \<Longrightarrow> after_value r \<Longrightarrow> 2 * length (json_stringify num_text v) \<le> n \<Longrightarrow>
     parse_value n (json_stringify num_text v @ r) = Some (v, r)"
  by (simp add: reads_def)

lemma read_elements:
  assumes "vs \<noteq> []" "\<forall>v \<in> set vs. reads num_text v"
    "2 * length (commas (map (json_stringify num_text) vs)) + 1 \<le> n"
  shows "parse_elements n (commas (map (json_stringify num_text) vs) @ 93 # r) = Some (vs, r)"
  using assms
proof (induction vs arbitrary: n)
  case (Cons v vs)
  then obtain m where n: "n = Suc m" by (cases n) auto
  show ?case
  proof (cases vs)
    case Nil
    with Cons.prems n show ?thesis
      by (simp add: readsD json_space_def)
  next
    case (Cons w ws)
    have "parse_value m (json_stringify num_text v @ 44 # commas (map (json_stringify num_text) vs) @ 93 # r) =
        Some (v, 44 # commas (map (json_stringify num_text) vs) @ 93 # r)"
      using Cons.prems(2,3) n Cons by (intro readsD) auto
    moreover have "parse_elements m (commas (map (json_stringify num_text) vs) @ 93 # r) = Some (vs, r)"
      using Cons.prems(2,3) n Cons by (intro Cons.IH) auto
    ultimately show ?thesis
      using n Cons by (simp add: json_space_def)
  qed
qed simp

abbreviation print_member :: "(rat \<Rightarrow> jtext) \<Rightarrow> jtext \<times> jtext json \<Rightarrow> jtext" where
  "print_member num_text \<equiv> \<lambda>(k, v). print_string k @ 58 # json_stringify num_text v"

lemma read_member:
  assumes "list_all scalar k" "reads num_text v" "after_value s" "s \<noteq> []"
    "2 * length (json_stringify num_text v) \<le> m"
  shows "parse_members (Suc m) (print_member num_text (k, v) @ s) =
      (if hd s = 44 then map_option (\<lambda>(ms, r'). ((k, v) # ms, r')) (parse_members m (tl s))
       else if hd s = 125 then Some ([(k, v)], tl s) else None)"
proof -
  have "skip_ws (print_member num_text (k, v) @ s) = print_member num_text (k, v) @ s"
    by (simp add: print_string_def json_space_def)
  moreover have "parse_value m (json_stringify num_text v @ s) = Some (v, s)"
    using assms by (intro readsD)
  moreover obtain d t where d: "s = d # t" using assms(4) by (cases s) auto
  moreover have "\<not> json_space d"
    using assms(3) d by (auto simp: after_value_def json_space_def)
  ultimately show ?thesis
    using assms(1)
    by (simp add: print_string_quote parse_print_string json_space_def [of 58] json_space_def [of 34])
qed

lemma read_members:
  assumes "ms \<noteq> []" "\<forall>(k, v) \<in> set ms. list_all scalar k \<and> reads num_text v"
    "2 * length (commas (map (print_member num_text) ms)) + 1 \<le> n"
  shows "parse_members n (commas (map (print_member num_text) ms) @ 125 # r) = Some (ms, r)"
  using assms
proof (induction ms arbitrary: n)
  case (Cons m ms)
  obtain k v where m: "m = (k, v)" by (cases m)
  obtain j where n: "n = Suc j" using Cons.prems(3) by (cases n) auto
  show ?case
  proof (cases ms)
    case Nil
    have "parse_members (Suc j) (print_member num_text (k, v) @ 125 # r) = Some ([(k, v)], r)"
      using Cons.prems m n Nil by (subst read_member) auto
    with m n Nil show ?thesis
      by (simp del: parse_members.simps)
  next
    case (Cons w ws)
    let ?s = "44 # commas (map (print_member num_text) ms) @ 125 # r"
    have "parse_members j (commas (map (print_member num_text) ms) @ 125 # r) = Some (ms, r)"
      using Cons.prems(2,3) n Cons by (intro Cons.IH) auto
    moreover have "parse_members n (print_member num_text (k, v) @ ?s) =
      map_option (\<lambda>(ms, r'). ((k, v) # ms, r')) (parse_members j (tl ?s))"
      using Cons.prems m n Cons by (subst n, subst read_member) auto
    ultimately show ?thesis
      using m Cons by (simp del: parse_members.simps)
  qed
qed simp

lemma object_of_distinct: "distinct (map fst ms) \<Longrightarrow> object_of ms = JObj ms"
proof -
  have "distinct (map fst (acc @ ms)) \<Longrightarrow>
      foldl (\<lambda>m (k, v). jm_set m k v) acc ms = acc @ ms" for acc
  proof (induction ms arbitrary: acc)
    case (Cons m ms)
    obtain k v where m: "m = (k, v)" by (cases m)
    have "k \<notin> fst ` set acc" using Cons.prems m by auto
    then have "jm_set acc k v = acc @ [(k, v)]"
      by (intro set_absent) (simp add: map_of_eq_None_iff)
    with Cons m show ?case by simp
  qed simp
  from this [of "[]"] show "distinct (map fst ms) \<Longrightarrow> object_of ms = JObj ms"
    by (simp add: object_of_def)
qed

lemma rendered_reads: "rendered_json num_text v \<Longrightarrow> reads num_text v"
proof (induction v rule: json.induct)
  case (JNum q)
  then show ?case by (simp add: reads_def)
next
  case (JStr s)
  have "parse_value n (print_string s @ r) = Some (JStr s, r)" if "2 \<le> n" for n r
    using that JStr by (cases n) (simp_all add: print_string_quote parse_print_string json_space_def)
  then show ?case
    using rendered_opens [OF JStr] by (auto simp: reads_def print_string_def)
next
  case (JArr vs)
  then have all: "\<forall>v \<in> set vs. reads num_text v" by simp
  let ?p = "commas (map (json_stringify num_text) vs)"
  have "parse_value n (91 # ?p @ 93 # r) = Some (JArr vs, r)" if n: "2 * length ?p + 4 \<le> n" for n r
  proof (cases "vs = []")
    case True
    then show ?thesis using n by (cases n) (simp_all add: json_space_def)
  next
    case False
    then have o: "opens_value (?p @ 93 # r)"
      using all by (intro opens_commas) (auto simp: reads_def hd_map)
    obtain m where m: "n = Suc m" using n by (cases n) auto
    have "parse_elements m (?p @ 93 # r) = Some (vs, r)"
      using False all n m by (intro read_elements) auto
    then show ?thesis
      using o m skip_opened [OF o] by (simp add: json_space_def opens_value_def split: list.splits)
  qed
  then show ?case
    using rendered_opens [OF JArr.prems] by (auto simp: reads_def)
next
  case (JObj ms)
  then have all: "\<forall>(k, v) \<in> set ms. list_all scalar k \<and> reads num_text v"
    by (force simp: case_prod_beta)
  have dist: "distinct (map fst ms)" using JObj.prems by simp
  let ?p = "commas (map (print_member num_text) ms)"
  have "parse_value n (123 # ?p @ 125 # r) = Some (JObj ms, r)" if n: "2 * length ?p + 4 \<le> n" for n r
  proof (cases "ms = []")
    case True
    then show ?thesis using n by (cases n) (simp_all add: json_space_def)
  next
    case False
    then have o: "opens_value (?p @ 125 # r)"
      by (intro opens_commas)
        (auto simp: hd_map case_prod_beta opens_value_def print_string_def json_space_def)
    obtain m where m: "n = Suc m" using n by (cases n) auto
    have "parse_members m (?p @ 125 # r) = Some (ms, r)"
      using False all n m by (intro read_members) auto
    then show ?thesis
      using o m skip_opened [OF o] object_of_distinct [OF dist]
      by (simp add: json_space_def opens_value_def split: list.splits)
  qed
  then show ?case
    using rendered_opens [OF JObj.prems] by (auto simp: reads_def)
next
  case (JBool b)
  have "parse_value n (text_of (if b then ''true'' else ''false'') @ r) = Some (JBool b, r)" if "2 \<le> n" for n r
    using that by (cases n) (simp_all add: text_of_def json_space_def parse_word_def)
  then show ?case
    using rendered_opens [of num_text "JBool b"] by (auto simp: reads_def text_of_def)
next
  case JNull
  have "parse_value n (text_of ''null'' @ r) = Some (JNull, r)" if "2 \<le> n" for n r
    using that by (cases n) (simp_all add: text_of_def json_space_def parse_word_def)
  then show ?case
    using rendered_opens [of num_text JNull] by (auto simp: reads_def text_of_def)
qed

lemma plain_rendered:
  assumes "renders_integers num_text"
  shows "plain_json v \<Longrightarrow> rendered_json num_text v"
proof (induction v rule: json.induct)
  case (JNum q)
  then obtain i where q: "q = of_int i" "num_text (of_int i) = text_of (int_str i)"
    using assms by (metis plain_json.simps(3) renders_integers_def)
  obtain c cs where c: "text_of (int_str i) = c # cs" "cp_digit c \<or> c = 45"
    using int_text_opens by blast
  have "c \<notin> {34, 91, 123, 110, 116, 102}" "\<not> json_space c"
    using c(2) by (auto simp: cp_digit_def json_space_def)
  then have "parse_value n (text_of (int_str i) @ r) = Some (JNum q, r)" if "after_value r" "2 \<le> n" for n r
    using that c q parse_int_text [of r i] by (cases n) (simp_all add: after_value_ends)
  moreover have "opens_value (text_of (int_str i))"
    using c by (auto simp: opens_value_def json_space_def cp_digit_def)
  moreover have "length (text_of (int_str i)) \<ge> 1" unfolding c by simp
  ultimately show ?case unfolding q(1) rendered_json.simps q(2) by (metis One_nat_def Suc_1 le_trans mult_le_mono2 mult.right_neutral)
next
  case (JArr vs)
  then show ?case by simp
next
  case (JObj ms)
  then show ?case by (force simp: case_prod_beta)
qed simp_all

lemma stringify_opens:
  "renders_integers num_text \<Longrightarrow> plain_json v \<Longrightarrow> opens_value (json_stringify num_text v)"
  by (rule rendered_opens [OF plain_rendered])

lemma rendered_roundtrip:
  assumes "rendered_json num_text v"
  shows "json_parse (json_stringify num_text v) = Some v"
proof -
  let ?s = "json_stringify num_text v"
  have "parse_value (2 * length ?s + 2) (?s @ []) = Some (v, [])"
    by (rule readsD [OF rendered_reads [OF assms]]) simp_all
  then show ?thesis
    by (simp add: json_parse_def del: parse_value.simps)
qed

lemma json_roundtrip:
  assumes "renders_integers num_text" "plain_json v"
  shows "json_parse (json_stringify num_text v) = Some v"
  by (rule rendered_roundtrip [OF plain_rendered [OF assms]])

lemma stringify_inj:
  assumes "rendered_json num_text v" "rendered_json num_text w" "json_stringify num_text v = json_stringify num_text w"
  shows "v = w"
  using rendered_roundtrip [OF assms(1)] rendered_roundtrip [OF assms(2)] unfolding assms(3) by (metis option.inject)

section \<open>The fuel is enough\<close>

text \<open>Every part of the grammar consumes text.\<close>

lemma parse_units_shorter: "parse_units s = Some (t, r) \<Longrightarrow> length r < length s"
proof (induction s arbitrary: t r rule: parse_units.induct)
  case (2 c s)
  have unit: "length r < Suc (length s)"
    if "cons_unit u p = Some (t, r)" "\<And>t' r'. p = Some (t', r') \<Longrightarrow> length r' < length s" for u p
    using that by (cases p) (auto simp: cons_unit_def less_SucI)
  show ?case
  proof (cases "c = 34 \<or> c < 32 \<and> c \<noteq> 92")
    case False
    show ?thesis
    proof (cases "c = 92")
      case True
      then obtain e s1 where s: "s = e # s1"
        using 2(4) by (cases s) auto
      show ?thesis
      proof (cases "e = 117")
        case True
        with \<open>c = 92\<close> s 2(4) obtain u where u: "hex4 (take 4 s1) = Some u"
            "cons_unit u (parse_units (drop 4 s1)) = Some (t, r)"
          by (auto split: option.splits)
        have "length r' < length s" if "parse_units (drop 4 s1) = Some (t', r')" for t' r'
          using 2(1) [OF _ \<open>c = 92\<close> s True u(1) that] \<open>c = 92\<close> s by simp
        with u(2) show ?thesis
          using unit by simp
      next
        case False
        with \<open>c = 92\<close> s 2(4) obtain u where u: "simple_escape e = Some u"
            "cons_unit u (parse_units s1) = Some (t, r)"
          by (auto split: option.splits)
        have "length r' < length s" if "parse_units s1 = Some (t', r')" for t' r'
          using 2(2) [OF _ \<open>c = 92\<close> s False u(1) that] \<open>c = 92\<close> s by simp
        with u(2) show ?thesis
          using unit by simp
      qed
    next
      case no_escape: False
      with False 2(4) have "cons_unit c (parse_units s) = Some (t, r)"
        by (auto split: if_splits)
      moreover have "length r' < length s" if "parse_units s = Some (t', r')" for t' r'
        using 2(3) [OF _ no_escape _ that] False by simp
      ultimately show ?thesis
        using unit by simp
    qed
  qed (use 2(4) in auto)
qed simp

lemma parse_string_shorter: "parse_string s = Some (t, r) \<Longrightarrow> length r < length s"
  by (auto simp: parse_string_def dest: parse_units_shorter)

lemma parse_fraction_shorter: "parse_fraction s = Some (fp, r) \<Longrightarrow> length r \<le> length s"
  by (auto simp: parse_fraction_def Let_def length_dropWhile_le le_SucI split: list.splits if_splits)

lemma parse_unsigned_shorter: "parse_unsigned s = Some (q, r) \<Longrightarrow> length r < length s"
proof -
  assume p: "parse_unsigned s = Some (q, r)"
  define ip where "ip = (case s of c # _ \<Rightarrow> if c = 48 then [c] else takeWhile cp_digit s | [] \<Rightarrow> [])"
  obtain fp r1 e where ip: "ip \<noteq> []" "parse_fraction (drop (length ip) s) = Some (fp, r1)"
      "parse_exponent r1 = Some (e, r)"
    using p by (auto simp: parse_unsigned_def ip_def [symmetric] Let_def split: if_splits option.splits prod.splits)
  have "length r \<le> length r1"
    using ip(3) by (auto simp: parse_exponent_def Let_def length_dropWhile_le le_SucI
        split: list.splits if_splits intro: le_trans [OF length_dropWhile_le])
  also have "length r1 \<le> length (drop (length ip) s)"
    using ip(2) by (rule parse_fraction_shorter)
  also have "\<dots> < length s"
    using ip(1) by (cases s) (auto simp: ip_def)
  finally show "length r < length s" .
qed

lemma parse_number_shorter: "parse_number s = Some (q, r) \<Longrightarrow> length r < length s"
  by (fastforce simp: parse_number_def split: list.splits if_splits dest: parse_unsigned_shorter)

lemma parse_word_shorter: "w \<noteq> [] \<Longrightarrow> parse_word w v s = Some (x, r) \<Longrightarrow> length r < length s"
  by (cases s; cases w) (auto simp: parse_word_def text_of_def split: if_splits)

lemma skip_ws_shorter: "skip_ws s = c # r \<Longrightarrow> length r < length s"
  by (metis Suc_le_eq length_Cons length_dropWhile_le)

lemma parse_shorter:
  "parse_value n s = Some (v, r) \<Longrightarrow> length r < length s"
  "parse_elements n s = Some (vs, r) \<Longrightarrow> length r < length s"
  "parse_members n s = Some (ms, r) \<Longrightarrow> length r < length s"
proof (induction n arbitrary: s v vs ms r)
  case (Suc n)
  {
    case 1
    then obtain c t where t: "skip_ws s = c # t" by (auto split: list.splits)
    have le: "length t < length s" "length (c # t) \<le> length s"
      using skip_ws_shorter [OF t] by simp_all
    have "length r < length (c # t)"
      using 1 t Suc.IH(2) [of t] Suc.IH(3) [of t] skip_ws_shorter [of t]
      by (auto dest!: parse_string_shorter parse_word_shorter [rotated] parse_number_shorter
          simp: less_SucI simp del: dropWhile_eq_Nil_conv split: list.splits if_splits)
    with le show ?case by simp
  next
    case 2
    then obtain v' t where t: "parse_value n s = Some (v', t)" by (auto split: option.splits)
    from 2 t obtain c u where u: "skip_ws t = c # u" by (auto split: list.splits)
    have "length r < length (c # u)"
      using 2 t u Suc.IH(2) [of u] by (auto simp: less_SucI split: if_splits)
    then show ?case
      using Suc.IH(1) [OF t] skip_ws_shorter [OF u] by simp
  next
    case 3
    then obtain q r0 where q: "skip_ws s = q # r0" by (auto split: list.splits)
    with 3 obtain k r1 where k: "parse_string r0 = Some (k, r1)" by (auto split: option.splits if_splits)
    with 3 q obtain c r2 where c: "skip_ws r1 = c # r2" by (auto split: list.splits if_splits)
    with 3 q k obtain w r3 where w: "parse_value n r2 = Some (w, r3)" by (auto split: option.splits if_splits)
    with 3 q k c obtain d r4 where d: "skip_ws r3 = d # r4" by (auto split: list.splits if_splits)
    have "length r < length (d # r4)"
      using 3 q k c w d Suc.IH(3) [of r4] by (auto simp: less_SucI split: if_splits)
    then show ?case
      using Suc.IH(1) [OF w] skip_ws_shorter [OF q] skip_ws_shorter [OF c] skip_ws_shorter [OF d]
        parse_string_shorter [OF k] by simp
  }
qed simp_all

lemma fuel_step:
  "2 * length s + 1 \<le> n \<Longrightarrow> parse_value (Suc n) s = parse_value n s"
  "2 * length s + 2 \<le> n \<Longrightarrow> parse_elements (Suc n) s = parse_elements n s"
  "2 * length s + 2 \<le> n \<Longrightarrow> parse_members (Suc n) s = parse_members n s"
proof (induction n arbitrary: s)
  case (Suc n)
  {
    case 1
    show ?case
    proof (cases "skip_ws s")
      case (Cons c r)
      then have "2 * length r + 2 \<le> n"
        using skip_ws_shorter [OF Cons] 1 by simp
      then have eqs: "parse_elements (Suc n) r = parse_elements n r" "parse_members (Suc n) r = parse_members n r"
        using Suc.IH by blast+
      show ?thesis
        by (simp only: parse_value.simps Cons list.case eqs)
    qed (simp only: parse_value.simps list.case)
  next
    case 2
    have v: "parse_value (Suc n) s = parse_value n s"
      using 2 by (intro Suc.IH) simp
    have "parse_elements (Suc n) r1 = parse_elements n r1"
      if "parse_value n s = Some (v, r)" "skip_ws r = c # r1" for v r c r1
      using 2 skip_ws_shorter [OF that(2)] parse_shorter(1) [OF that(1)] by (intro Suc.IH) simp
    then show ?case
      unfolding parse_elements.simps(2) [of "Suc n" s] parse_elements.simps(2) [of n s] v
      by (auto simp del: parse_elements.simps dropWhile_eq_Nil_conv split: option.splits list.splits)
  next
    case 3
    have v: "parse_value (Suc n) r2 = parse_value n r2"
      if "skip_ws s = q # r0" "parse_string r0 = Some (k, r1)" "skip_ws r1 = c # r2" for q r0 k r1 c r2
      using 3 skip_ws_shorter [OF that(1)] skip_ws_shorter [OF that(3)] parse_string_shorter [OF that(2)]
      by (intro Suc.IH) simp
    have m: "parse_members (Suc n) r4 = parse_members n r4"
      if "skip_ws s = q # r0" "parse_string r0 = Some (k, r1)" "skip_ws r1 = c # r2"
        "parse_value n r2 = Some (v, r3)" "skip_ws r3 = d # r4" for q r0 k r1 c r2 v r3 d r4
      using 3 skip_ws_shorter [OF that(1)] skip_ws_shorter [OF that(3)] parse_string_shorter [OF that(2)]
        parse_shorter(1) [OF that(4)] skip_ws_shorter [OF that(5)]
      by (intro Suc.IH) simp
    show ?case
      unfolding parse_members.simps(2) [of "Suc n" s] parse_members.simps(2) [of n s]
      using v m
      by (auto simp del: parse_members.simps parse_value.simps dropWhile_eq_Nil_conv
          split: option.splits list.splits)
  }
qed simp_all

lemma json_fuel: "2 * length s + 2 \<le> n \<Longrightarrow> parse_value n s = parse_value (2 * length s + 2) s"
proof (induction n)
  case (Suc n)
  then show ?case
    using fuel_step(1) [of s n] by (cases "2 * length s + 2 \<le> n") (simp_all add: le_Suc_eq)
qed simp

end
