(* ===== verification/Sse.thy ===== *)
theory Sse
  imports JsonText
begin

text \<open>
  The server-sent-event plumbing of \<open>packages/core/src/sse.ts\<close> and \<open>stream.ts\<close>: the frame encoder,
  the line splitter, the streaming text decoder in front of it, and the data lines the edge
  translators read (\<open>parseDataLine\<close> of \<open>translate.ts\<close>). A transform stage is its state, the
  function that consumes a chunk and the one that runs at the end of the stream.
\<close>

section \<open>Encoding frames\<close>

fun split_lines :: "jtext \<Rightarrow> jtext list" where
  "split_lines [] = [[]]"
| "split_lines (c # s) =
     (if c = 10 then [] # split_lines s
      else (case split_lines s of l # ls \<Rightarrow> (c # l) # ls | [] \<Rightarrow> [[c]]))"

definition event_line :: "jtext option \<Rightarrow> jtext" where
  "event_line ev =
     (case ev of Some e \<Rightarrow> if e \<noteq> [] then text_of ''event: '' @ e @ [10] else [] | None \<Rightarrow> [])"

definition sseEncode_text :: "jtext option \<Rightarrow> jtext \<Rightarrow> jtext" where
  "sseEncode_text ev s =
     event_line ev @ concat (map (\<lambda>l. text_of ''data: '' @ l @ [10]) (split_lines s)) @ [10]"

definition sseEncode :: "(rat \<Rightarrow> jtext) \<Rightarrow> jtext option \<Rightarrow> jtext json \<Rightarrow> jtext" where
  "sseEncode num_text ev v =
     event_line ev @ text_of ''data: '' @ json_stringify num_text v @ [10, 10]"

text \<open>A canonical chunk is an object or the literal \<open>"[DONE]"\<close>.\<close>

datatype canonical = Chunk "jtext json" | DoneMark

definition normalize :: "(rat \<Rightarrow> jtext) \<Rightarrow> canonical \<Rightarrow> jtext" where
  "normalize num_text c =
     (case c of
        DoneMark \<Rightarrow> sseEncode_text None (text_of ''[DONE]'')
      | Chunk v \<Rightarrow> sseEncode num_text None v)"

section \<open>Splitting lines\<close>

definition strip_cr :: "jtext \<Rightarrow> jtext" where
  "strip_cr l = (if l \<noteq> [] \<and> last l = 13 then butlast l else l)"

definition line_transform :: "jtext \<Rightarrow> jtext \<Rightarrow> jtext \<times> jtext list" where
  "line_transform buffer chunk =
     (let lines = split_lines (buffer @ chunk)
      in (last lines, map strip_cr (butlast lines)))"

definition line_flush :: "jtext \<Rightarrow> jtext list" where
  "line_flush buffer = (if buffer \<noteq> [] then [buffer] else [])"

fun line_run :: "jtext \<Rightarrow> jtext list \<Rightarrow> jtext \<times> jtext list" where
  "line_run buffer [] = (buffer, [])"
| "line_run buffer (chunk # chunks) =
     (let (b1, o1) = line_transform buffer chunk; (b2, o2) = line_run b1 chunks in (b2, o1 @ o2))"

definition line_split :: "jtext list \<Rightarrow> jtext list" where
  "line_split chunks = (let (b, ls) = line_run [] chunks in ls @ line_flush b)"

section \<open>Decoding bytes as they arrive\<close>

text \<open>A \<open>TextDecoder\<close> in streaming mode: the automaton, and whether anything was produced yet (the
  first code point is dropped when it is a byte order mark).\<close>

record text_decoder =
  td_state :: utf8_state
  td_started :: bool

definition td_new :: text_decoder where
  "td_new = \<lparr>td_state = Start, td_started = False\<rparr>"

definition td_emit :: "text_decoder \<Rightarrow> utf8_state \<Rightarrow> jtext \<Rightarrow> text_decoder \<times> jtext" where
  "td_emit d s out =
     (if td_started d \<or> out = [] then (d\<lparr>td_state := s\<rparr>, out)
      else (\<lparr>td_state = s, td_started = True\<rparr>, strip_bom out))"

definition td_decode :: "text_decoder \<Rightarrow> byte list \<Rightarrow> text_decoder \<times> jtext" where
  "td_decode d bytes = (let (s, out) = utf8_run (td_state d) bytes in td_emit d s out)"

definition td_flush :: "text_decoder \<Rightarrow> jtext" where
  "td_flush d = snd (td_emit d Start (utf8_finish (td_state d)))"

fun td_run :: "text_decoder \<Rightarrow> byte list list \<Rightarrow> text_decoder \<times> jtext list" where
  "td_run d [] = (d, [])"
| "td_run d (c # cs) =
     (let (d1, t1) = td_decode d c; (d2, ts) = td_run d1 cs in (d2, t1 # ts))"

text \<open>\<open>body.pipeThrough(new TextDecoderStream()).pipeThrough(new LineSplitterStream())\<close>.\<close>

definition body_lines :: "byte list list \<Rightarrow> jtext list" where
  "body_lines chunks = (let (d, ts) = td_run td_new chunks in line_split (ts @ [td_flush d]))"

section \<open>Data lines\<close>

definition cp_space :: "nat \<Rightarrow> bool" where
  "cp_space c \<longleftrightarrow>
     c \<in> {9, 10, 11, 12, 13, 32, 160, 0x1680, 0x2028, 0x2029, 0x202F, 0x205F, 0x3000, 0xFEFF} \<or>
     0x2000 \<le> c \<and> c \<le> 0x200A"

definition cp_trim :: "jtext \<Rightarrow> jtext" where
  "cp_trim s = rev (dropWhile cp_space (rev (dropWhile cp_space s)))"

datatype data_line = Skip | DoneLine | Payload "jtext json"

text \<open>\<open>JSON.parse(data) as CanonicalChatChunk\<close>: the text \<open>null\<close> parses to \<open>null\<close>, which the callers
  skip like a line that is not data.\<close>

definition parseDataLine :: "jtext \<Rightarrow> data_line" where
  "parseDataLine line =
     (if take 5 line \<noteq> text_of ''data:'' then Skip
      else let data = cp_trim (drop 5 line) in
        if data = text_of ''[DONE]'' then DoneLine
        else case json_parse data of
               None \<Rightarrow> Skip
             | Some JNull \<Rightarrow> Skip
             | Some v \<Rightarrow> Payload v)"

section \<open>Lines do not depend on the chunks\<close>

lemma split_lines_nonempty [simp]: "split_lines s \<noteq> []"
  by (cases s) (auto split: list.splits)

lemma split_lines_append:
  "split_lines (s @ t) =
     butlast (split_lines s) @ (last (split_lines s) @ hd (split_lines t)) # tl (split_lines t)"
proof (induction s)
  case Nil
  then show ?case by (cases "split_lines t") auto
next
  case (Cons c s)
  then show ?case
    by (cases "split_lines s") (auto split: list.splits)
qed

lemma split_lines_line: "10 \<notin> set s \<Longrightarrow> split_lines s = [s]"
  by (induction s) auto

lemma split_lines_last: "10 \<notin> set (last (split_lines s))"
  by (induction s) (auto split: list.splits)

lemma line_run_concat:
  assumes "10 \<notin> set b"
  shows "line_run b chunks =
    (last (split_lines (b @ concat chunks)), map strip_cr (butlast (split_lines (b @ concat chunks))))"
  using assms
proof (induction chunks arbitrary: b)
  case Nil
  then show ?case by (simp add: split_lines_line)
next
  case (Cons c cs)
  have "split_lines (last (split_lines (b @ c)) @ concat cs) =
      (last (split_lines (b @ c)) @ hd (split_lines (concat cs))) # tl (split_lines (concat cs))"
    using split_lines_last [of "b @ c"]
    by (simp add: split_lines_append split_lines_line)
  moreover have "split_lines ((b @ c) @ concat cs) = butlast (split_lines (b @ c)) @
      (last (split_lines (b @ c)) @ hd (split_lines (concat cs))) # tl (split_lines (concat cs))"
    by (rule split_lines_append)
  ultimately show ?case
    using Cons.IH [OF split_lines_last [of "b @ c"]]
    by (simp add: line_transform_def Let_def butlast_append)
qed

lemma line_split_concat:
  "line_split chunks =
     map strip_cr (butlast (split_lines (concat chunks))) @ line_flush (last (split_lines (concat chunks)))"
  by (simp add: line_split_def line_run_concat)

lemma td_emit_append:
  "td_emit d s (o1 @ o2) =
     (fst (td_emit (fst (td_emit d s1 o1)) s o2), snd (td_emit d s1 o1) @ snd (td_emit (fst (td_emit d s1 o1)) s o2))"
  by (cases d; cases o1) (auto simp: td_emit_def strip_bom_def)

lemma td_emit_state [simp]: "td_state (fst (td_emit d s out)) = s"
  by (simp add: td_emit_def)

lemma td_decode_append:
  "td_decode d (xs @ ys) =
     (fst (td_decode (fst (td_decode d xs)) ys),
      snd (td_decode d xs) @ snd (td_decode (fst (td_decode d xs)) ys))"
proof -
  let ?r = "utf8_run (td_state d) xs"
  let ?q = "utf8_run (fst ?r) ys"
  have "td_decode d (xs @ ys) = td_emit d (fst ?q) (snd ?r @ snd ?q)"
    by (simp add: td_decode_def utf8_run_append)
  moreover have "td_decode d xs = td_emit d (fst ?r) (snd ?r)"
    by (simp add: td_decode_def case_prod_unfold Let_def)
  ultimately show ?thesis
    using td_emit_append [of d "fst ?q" "snd ?r" "snd ?q" "fst ?r"]
    by (simp add: td_decode_def case_prod_unfold Let_def)
qed

lemma td_run_concat:
  "td_run d chunks = (d', ts) \<Longrightarrow> td_decode d (concat chunks) = (d', concat ts)"
proof (induction chunks arbitrary: d d' ts)
  case Nil
  then show ?case by (simp add: td_decode_def td_emit_def)
next
  case (Cons c cs)
  then show ?case
    by (auto simp: td_decode_append split: prod.splits)
qed

lemma body_lines_concat: "body_lines chunks = body_lines [concat chunks]"
proof -
  obtain d ts where d: "td_run td_new chunks = (d, ts)" by (cases "td_run td_new chunks")
  then have "td_run td_new [concat chunks] = (d, [concat ts])"
    by (simp add: td_run_concat)
  with d show ?thesis
    by (simp add: body_lines_def line_split_concat)
qed

section \<open>What is encoded is read back\<close>

definition readable :: "nat \<Rightarrow> bool" where
  "readable c \<longleftrightarrow> scalar c \<and> 32 \<le> c"

lemma readable_ascii: "32 \<le> c \<Longrightarrow> c < 128 \<Longrightarrow> readable c"
  by (simp add: readable_def scalar_def)

lemma readable_escape: "list_all readable (u_escape c)"
  by (simp add: u_escape_def hex_digit_def readable_ascii)

lemma readable_char: "scalar c \<Longrightarrow> list_all readable (print_char c)"
  using readable_escape [of c] unfolding print_char_def
  by (simp add: readable_ascii) (auto simp: readable_def)

lemma readable_string: "list_all scalar s \<Longrightarrow> list_all readable (print_string s)"
  by (induction s) (auto simp: print_string_def readable_char readable_ascii)

lemma readable_commas: "\<forall>x \<in> set xs. list_all readable x \<Longrightarrow> list_all readable (commas xs)"
  by (induction xs rule: commas.induct) (auto simp: readable_ascii)

lemma readable_text: "list_all (\<lambda>c. 32 \<le> c \<and> c < 128) (text_of s) \<Longrightarrow> list_all readable (text_of s)"
  by (auto simp: list_all_iff intro: readable_ascii)

lemma readable_int: "list_all readable (text_of (int_str i))"
proof -
  have "cp_digit c \<Longrightarrow> readable c" for c
    by (simp add: cp_digit_def readable_ascii)
  then have "list_all readable (text_of (nat_str n))" for n
    using nat_text_digits [of n] by (simp add: list_all_iff)
  then show ?thesis
    by (simp add: int_str_def) (simp add: text_of_def readable_ascii)
qed

lemma readable_stringify:
  assumes "renders_integers num_text"
  shows "plain_json v \<Longrightarrow> list_all readable (json_stringify num_text v)"
proof (induction v rule: json.induct)
  case (JNum q)
  then obtain i where "q = of_int i" by (metis plain_json.simps(3))
  with assms show ?case
    by (simp add: renders_integers_def readable_int)
next
  case (JObj ms)
  then have "\<forall>x \<in> set (map (print_member num_text) ms). list_all readable x"
    by (fastforce simp: readable_string readable_ascii)
  then show ?case
    by (simp add: readable_commas readable_ascii)
qed (auto simp: readable_string readable_ascii readable_text text_of_def intro!: readable_commas)

definition plain_event :: "jtext option \<Rightarrow> bool" where
  "plain_event ev \<longleftrightarrow> (case ev of Some e \<Rightarrow> list_all readable e | None \<Rightarrow> True)"

lemma readable_no_newline: "list_all readable s \<Longrightarrow> 10 \<notin> set s"
  by (auto simp: list_all_iff readable_def)

lemma readable_scalar: "list_all readable s \<Longrightarrow> list_all scalar s"
  by (auto simp: list_all_iff readable_def)

lemma split_lines_one: "10 \<notin> set l \<Longrightarrow> split_lines (l @ 10 # r) = l # split_lines r"
  by (simp add: split_lines_append split_lines_line)

text \<open>The lines one frame becomes.\<close>

definition frame_lines :: "(rat \<Rightarrow> jtext) \<Rightarrow> jtext option \<times> jtext json \<Rightarrow> jtext list" where
  "frame_lines num_text = (\<lambda>(ev, v).
     (case ev of Some e \<Rightarrow> if e \<noteq> [] then [text_of ''event: '' @ e] else [] | None \<Rightarrow> []) @
     [text_of ''data: '' @ json_stringify num_text v, []])"

abbreviation frame_text :: "(rat \<Rightarrow> jtext) \<Rightarrow> jtext option \<times> jtext json \<Rightarrow> jtext" where
  "frame_text num_text \<equiv> \<lambda>(ev, v). sseEncode num_text ev v"

lemma frame_readable:
  assumes "renders_integers num_text" "plain_event ev" "plain_json v"
  shows "split_lines (sseEncode num_text ev v @ r) = frame_lines num_text (ev, v) @ split_lines r"
    "list_all scalar (sseEncode num_text ev v)"
proof -
  have nl: "10 \<notin> set (json_stringify num_text v)"
    using readable_stringify [OF assms(1,3)] by (rule readable_no_newline)
  have data: "split_lines (text_of ''data: '' @ json_stringify num_text v @ 10 # 10 # r) =
      [text_of ''data: '' @ json_stringify num_text v, []] @ split_lines r"
    using nl split_lines_one [of "text_of ''data: '' @ json_stringify num_text v" "10 # r"]
    by (simp add: text_of_def)
  have "split_lines (text_of ''event: '' @ e @ 10 # s) = (text_of ''event: '' @ e) # split_lines s"
    if "list_all readable e" for e s
    using readable_no_newline [OF that] split_lines_one [of "text_of ''event: '' @ e" s]
    by (simp add: text_of_def)
  with data assms(2) show "split_lines (sseEncode num_text ev v @ r) = frame_lines num_text (ev, v) @ split_lines r"
    by (auto simp: sseEncode_def event_line_def frame_lines_def plain_event_def split: option.splits)
  have "list_all scalar (text_of ''data: '')" "list_all scalar (text_of ''event: '')" "scalar 10"
    by (simp_all add: text_of_def scalar_def)
  with assms(2) show "list_all scalar (sseEncode num_text ev v)"
    using readable_scalar [OF readable_stringify [OF assms(1,3)]]
    by (auto simp: sseEncode_def event_line_def plain_event_def readable_scalar split: option.splits)
qed

definition payload_lines :: "jtext list \<Rightarrow> data_line list" where
  "payload_lines ls = filter (\<lambda>d. d \<noteq> Skip) (map parseDataLine ls)"

lemma payload_lines_append: "payload_lines (xs @ ys) = payload_lines xs @ payload_lines ys"
  by (simp add: payload_lines_def)

lemma event_line_skipped: "parseDataLine (strip_cr (text_of ''event: '' @ e)) = Skip"
proof -
  have "take 5 (strip_cr (text_of ''event: '' @ e)) = text_of ''event''"
    by (cases e rule: rev_cases) (simp_all add: strip_cr_def text_of_def)
  then show ?thesis by (simp add: parseDataLine_def text_of_def)
qed

lemma trim_object: "cp_trim (32 # 123 # s @ [125]) = 123 # s @ [125]"
  by (simp add: cp_trim_def cp_space_def)

lemma data_line_read:
  assumes "renders_integers num_text" "plain_json (JObj ms)"
  shows "parseDataLine (text_of ''data: '' @ json_stringify num_text (JObj ms)) = Payload (JObj ms)"
proof -
  obtain s where s: "json_stringify num_text (JObj ms) = 123 # s @ [125]" by simp
  then have "parseDataLine (text_of ''data: '' @ 123 # s @ [125]) =
      (case json_parse (123 # s @ [125]) of None \<Rightarrow> Skip | Some JNull \<Rightarrow> Skip | Some v \<Rightarrow> Payload v)"
    by (simp add: parseDataLine_def text_of_def trim_object del: json_stringify.simps)
  with json_roundtrip [OF assms] s show ?thesis
    by (simp del: json_stringify.simps)
qed

lemma object_line_read:
  assumes "renders_integers num_text" "plain_json (JObj ms)"
  shows "parseDataLine (strip_cr (text_of ''data: '' @ json_stringify num_text (JObj ms))) = Payload (JObj ms)"
proof -
  have "strip_cr (text_of ''data: '' @ json_stringify num_text (JObj ms)) =
      text_of ''data: '' @ json_stringify num_text (JObj ms)"
    by (simp add: strip_cr_def)
  with data_line_read [OF assms] show ?thesis
    by (simp only:)
qed

lemma blank_line_skipped: "parseDataLine [] = Skip"
  by (simp add: parseDataLine_def text_of_def)

lemma done_line_read: "parseDataLine (text_of ''data: [DONE]'') = DoneLine"
  by (simp add: parseDataLine_def text_of_def cp_trim_def cp_space_def)

lemma frame_payload:
  assumes "renders_integers num_text" "plain_json (JObj ms)"
  shows "payload_lines (map strip_cr (frame_lines num_text (ev, JObj ms))) = [Payload (JObj ms)]"
proof -
  have "parseDataLine (strip_cr []) = Skip"
    by (simp add: parseDataLine_def strip_cr_def text_of_def)
  then show ?thesis
    using object_line_read [OF assms] event_line_skipped
    by (auto simp: frame_lines_def payload_lines_def split: option.splits simp del: json_stringify.simps)
qed

definition wire_chunk :: "canonical \<Rightarrow> bool" where
  "wire_chunk c \<longleftrightarrow> (case c of DoneMark \<Rightarrow> True | Chunk (JObj ms) \<Rightarrow> plain_json (JObj ms) | Chunk _ \<Rightarrow> False)"

definition read_back :: "canonical \<Rightarrow> data_line" where
  "read_back c = (case c of DoneMark \<Rightarrow> DoneLine | Chunk v \<Rightarrow> Payload v)"

lemma done_frame: "normalize num_text DoneMark = text_of ''data: [DONE]'' @ [10, 10]"
  by (simp add: normalize_def sseEncode_text_def event_line_def text_of_def)

lemma normalize_lines:
  assumes "renders_integers num_text" "wire_chunk c"
  obtains ls where "\<And>r. split_lines (normalize num_text c @ r) = ls @ split_lines r"
    "payload_lines (map strip_cr ls) = [read_back c]" "list_all scalar (normalize num_text c)"
    "\<exists>t. normalize num_text c = 100 # t"
proof (cases c)
  case (Chunk v)
  with assms(2) obtain ms where ms: "v = JObj ms" "plain_json (JObj ms)"
    by (auto simp: wire_chunk_def split: json.splits)
  have "\<exists>t. sseEncode num_text None v = 100 # t"
    by (simp add: sseEncode_def event_line_def text_of_def)
  with Chunk ms show ?thesis
    using frame_readable [OF assms(1), of None "JObj ms"] frame_payload [OF assms(1) ms(2), of None]
    by (intro that [of "frame_lines num_text (None, JObj ms)"])
      (simp_all add: normalize_def read_back_def plain_event_def del: plain_json.simps json_stringify.simps)
next
  case DoneMark
  have "split_lines (text_of ''data: [DONE]'' @ [10, 10] @ r) = [text_of ''data: [DONE]'', []] @ split_lines r" for r
    by (simp add: text_of_def)
  moreover have "payload_lines (map strip_cr [text_of ''data: [DONE]'', []]) = [DoneLine]"
    by (simp add: payload_lines_def parseDataLine_def strip_cr_def text_of_def cp_trim_def cp_space_def)
  moreover have "list_all scalar (text_of ''data: [DONE]'' @ [10, 10])"
    by (simp add: text_of_def scalar_def)
  moreover have "\<exists>t. text_of ''data: [DONE]'' @ [10, 10] = 100 # t"
    by (simp add: text_of_def)
  ultimately show ?thesis
    using that [of "[text_of ''data: [DONE]'', []]"]
    by (simp only: DoneMark done_frame read_back_def canonical.case append_assoc append.simps)
qed

lemma wire_lines:
  assumes "renders_integers num_text" "\<forall>c \<in> set cs. wire_chunk c"
  shows "\<exists>ls. split_lines (concat (map (normalize num_text) cs)) = ls @ [[]] \<and>
      payload_lines (map strip_cr ls) = map read_back cs \<and>
      list_all scalar (concat (map (normalize num_text) cs))"
  using assms(2)
proof (induction cs)
  case Nil
  show ?case by (auto simp: payload_lines_def)
next
  case (Cons c cs)
  then obtain ls where ls: "split_lines (concat (map (normalize num_text) cs)) = ls @ [[]]"
      "payload_lines (map strip_cr ls) = map read_back cs"
      "list_all scalar (concat (map (normalize num_text) cs))"
    by auto
  obtain l1 where l1: "\<And>r. split_lines (normalize num_text c @ r) = l1 @ split_lines r"
    "payload_lines (map strip_cr l1) = [read_back c]" "list_all scalar (normalize num_text c)"
    using normalize_lines [OF assms(1)] Cons.prems by (metis list.set_intros(1))
  show ?case
    using ls l1 by (intro exI [of _ "l1 @ ls"]) (simp add: payload_lines_append)
qed

lemma body_lines_text:
  assumes "list_all scalar t" "t = [] \<or> hd t \<noteq> 0xFEFF" "concat chunks = utf8_encode t"
  shows "body_lines chunks = map strip_cr (butlast (split_lines t)) @ line_flush (last (split_lines t))"
proof -
  have "td_run td_new [utf8_encode t] = (if t = [] then td_new else \<lparr>td_state = Start, td_started = True\<rparr>, [t])"
    using assms(2) utf8_encode_run [OF assms(1)]
    by (cases t) (auto simp: td_decode_def td_new_def td_emit_def strip_bom_def)
  moreover have "td_flush (if t = [] then td_new else \<lparr>td_state = Start, td_started = True\<rparr>) = []"
    by (simp add: td_flush_def td_new_def td_emit_def utf8_finish_def)
  ultimately have "body_lines [utf8_encode t] = line_split [t, []]"
    by (simp add: body_lines_def)
  with body_lines_concat [of chunks] assms(3) show ?thesis
    by (simp add: line_split_concat)
qed

text \<open>C22: An OpenAI-shaped stream survives the gateway's own wire: whatever canonical chunks and
  \<open>[DONE]\<close> marks the normalisation stage encodes into frames and bytes, and however the network cuts
  those bytes into chunks (in the middle of a character or of a line), the edge translators read back
  exactly the same chunks in the same order. Number rendering is only used on integers.\<close>

lemma wire_roundtrip:
  assumes "renders_integers num_text" "\<forall>c \<in> set cs. wire_chunk c"
    "concat chunks = utf8_encode (concat (map (normalize num_text) cs))"
  shows "payload_lines (body_lines chunks) = map read_back cs"
proof -
  let ?t = "concat (map (normalize num_text) cs)"
  obtain ls where ls: "split_lines ?t = ls @ [[]]" "payload_lines (map strip_cr ls) = map read_back cs"
      "list_all scalar ?t"
    using wire_lines [OF assms(1,2)] by blast
  have "?t = [] \<or> hd ?t \<noteq> 0xFEFF"
  proof (cases cs)
    case (Cons c cs')
    then obtain t where "normalize num_text c = 100 # t"
      using normalize_lines [OF assms(1), of c] assms(2) by (metis list.set_intros(1))
    with Cons show ?thesis by simp
  qed simp
  with ls(1,2) body_lines_text [OF ls(3) _ assms(3)] show ?thesis
    by (simp add: line_flush_def)
qed

definition demo_num_text :: "rat \<Rightarrow> jtext" where
  "demo_num_text q = text_of (int_str \<lfloor>q\<rfloor>)"

lemma demo_renders: "renders_integers demo_num_text"
  by (simp add: renders_integers_def demo_num_text_def)

definition demo_chunks :: "canonical list" where
  "demo_chunks =
     [Chunk (JObj [(text_of ''model'', JStr [233]),
        (text_of ''choices'', JArr [JObj [(text_of ''index'', JNum 0)]])]), DoneMark]"

lemma wire_roundtrip_witness:
  "payload_lines (body_lines
     (map (\<lambda>b. [b]) (utf8_encode (concat (map (normalize demo_num_text) demo_chunks))))) =
   [Payload (JObj [(text_of ''model'', JStr [233]),
        (text_of ''choices'', JArr [JObj [(text_of ''index'', JNum 0)]])]), DoneLine]"
proof -
  have c: "concat (map (\<lambda>b. [b]) xs) = xs" for xs :: "byte list"
    by (induction xs) auto
  have "list_all scalar (text_of ''model'')" "list_all scalar (text_of ''choices'')"
    "list_all scalar (text_of ''index'')" "text_of ''model'' \<noteq> text_of ''choices''" "scalar 233"
    by (simp_all add: text_of_def scalar_def)
  then have "\<forall>c \<in> set demo_chunks. wire_chunk c"
    by (simp add: demo_chunks_def wire_chunk_def)
  then show ?thesis
    using wire_roundtrip [of demo_num_text demo_chunks, OF demo_renders _ c]
    by (simp add: demo_chunks_def read_back_def)
qed

end
