(* ===== verification/Effects.thy ===== *)
theory Effects
  imports Sse
begin

text \<open>
  Code that awaits: an effectful call takes the world (everything outside the program's own
  variables: upstreams, tools, other requests) and returns a value or a thrown error together with
  the world it leaves. The thrown values are those the orchestration code distinguishes.
\<close>

datatype thrown =
    SideEffectDenied jtext
  | LoopExceeded int
  | AbortError jtext
  | OtherError jtext

type_synonym ('w, 'a) io = "'w \<Rightarrow> (thrown + 'a) \<times> 'w"

definition io_return :: "'a \<Rightarrow> ('w, 'a) io" where
  "io_return x w = (Inr x, w)"

definition io_throw :: "thrown \<Rightarrow> ('w, 'a) io" where
  "io_throw e w = (Inl e, w)"

definition io_bind :: "('w, 'a) io \<Rightarrow> ('a \<Rightarrow> ('w, 'b) io) \<Rightarrow> ('w, 'b) io" where
  "io_bind m k w = (case m w of (Inl e, w1) \<Rightarrow> (Inl e, w1) | (Inr x, w1) \<Rightarrow> k x w1)"

definition io_catch :: "('w, 'a) io \<Rightarrow> (thrown \<Rightarrow> ('w, 'a) io) \<Rightarrow> ('w, 'a) io" where
  "io_catch m h w = (case m w of (Inl e, w1) \<Rightarrow> h e w1 | (Inr x, w1) \<Rightarrow> (Inr x, w1))"

text \<open>\<open>for (const x of xs) { v = await f(x, v) }\<close>.\<close>

fun io_fold :: "('x \<Rightarrow> 'a \<Rightarrow> ('w, 'a) io) \<Rightarrow> 'x list \<Rightarrow> 'a \<Rightarrow> ('w, 'a) io" where
  "io_fold f [] v = io_return v"
| "io_fold f (x # xs) v = io_bind (f x v) (io_fold f xs)"

lemma io_fold_Nil [simp]: "io_fold f [] = io_return"
  by (rule ext) simp

lemma return_bind [simp]: "io_bind (io_return x) k = k x"
  by (rule ext) (simp add: io_bind_def io_return_def)

lemma bind_return [simp]: "io_bind m io_return = m"
  by (rule ext) (simp add: io_bind_def io_return_def split: prod.split sum.split)

lemma bind_assoc: "io_bind (io_bind m k) l = io_bind m (\<lambda>x. io_bind (k x) l)"
  by (rule ext) (simp add: io_bind_def split: prod.split sum.split)

lemma throw_bind [simp]: "io_bind (io_throw e) k = io_throw e"
  by (rule ext) (simp add: io_bind_def io_throw_def)

lemma io_fold_append: "io_fold f (xs @ ys) v = io_bind (io_fold f xs v) (io_fold f ys)"
proof (induction xs arbitrary: v)
  case (Cons x xs)
  have "io_fold f (xs @ ys) = (\<lambda>v. io_bind (io_fold f xs v) (io_fold f ys))"
    by (rule ext) (rule Cons.IH)
  then show ?case by (simp add: bind_assoc)
qed simp

text \<open>Two programs agree when they agree step by step.\<close>

lemma bind_cong: "m = n \<Longrightarrow> (\<And>x. k x = l x) \<Longrightarrow> io_bind m k = io_bind n l"
  by (simp add: io_bind_def fun_eq_iff split: prod.split sum.split)

lemma io_fold_cong: "(\<And>x v. x \<in> set xs \<Longrightarrow> f x v = g x v) \<Longrightarrow> io_fold f xs v = io_fold g xs v"
  by (induction xs arbitrary: v) (simp_all cong: bind_cong)

text \<open>Every run of \<open>m\<close> moves a measure of the world by at most \<open>n\<close>.\<close>

definition costs :: "('w \<Rightarrow> nat) \<Rightarrow> nat \<Rightarrow> ('w, 'a) io \<Rightarrow> bool" where
  "costs f n m \<longleftrightarrow> (\<forall>w. f (snd (m w)) \<le> f w + n)"

lemma costs_return [simp]: "costs f n (io_return x)"
  by (simp add: costs_def io_return_def)

lemma costs_throw [simp]: "costs f n (io_throw e)"
  by (simp add: costs_def io_throw_def)

lemma costs_bind:
  assumes "costs f a m" "\<And>x. costs f b (k x)"
  shows "costs f (a + b) (io_bind m k)"
  unfolding costs_def
proof
  fix w
  obtain r w1 where m: "m w = (r, w1)" by (cases "m w")
  then have w1: "f w1 \<le> f w + a"
    using assms(1) by (metis costs_def snd_conv)
  have "f (snd (k x w1)) \<le> f w1 + b" for x
    using assms(2) by (simp add: costs_def)
  then have "f (snd (k x w1)) \<le> f w + (a + b)" for x
    using w1 by (metis add.assoc add_le_cancel_right le_trans)
  with m w1 show "f (snd (io_bind m k w)) \<le> f w + (a + b)"
    by (cases r) (simp_all add: io_bind_def)
qed

lemma costs_catch:
  assumes "costs f a m" "\<And>e. costs f b (h e)"
  shows "costs f (a + b) (io_catch m h)"
  unfolding costs_def
proof
  fix w
  obtain r w1 where m: "m w = (r, w1)" by (cases "m w")
  then have w1: "f w1 \<le> f w + a"
    using assms(1) by (metis costs_def snd_conv)
  have "f (snd (h e w1)) \<le> f w1 + b" for e
    using assms(2) by (simp add: costs_def)
  then have "f (snd (h e w1)) \<le> f w + (a + b)" for e
    using w1 by (metis add.assoc add_le_cancel_right le_trans)
  with m w1 show "f (snd (io_catch m h w)) \<le> f w + (a + b)"
    by (cases r) (simp_all add: io_catch_def)
qed

lemma costs_free_fold:
  "(\<And>x v. costs f 0 (g x v)) \<Longrightarrow> costs f 0 (io_fold g xs v)"
proof (induction xs arbitrary: v)
  case (Cons x xs)
  then show ?case
    using costs_bind [of f 0 "g x v" 0 "io_fold g xs"] by simp
qed simp

end
