(* ===== verification/StreamTranslate.thy ===== *)
theory StreamTranslate
  imports Sse
begin

text \<open>
  The edge translators of \<open>packages/core/src/translate.ts\<close>, first part: the canonical chunk they
  read, the shape of a stateful translator, protocols as acceptors of event sequences, and the
  Anthropic translator. A translator emits events; \<open>an_frame\<close> gives the frame each becomes.

  The cast \<open>JSON.parse(data) as CanonicalChatChunk\<close> trusts the sender. \<open>canonical_chunk\<close> says that it is
  right: every field the translators read is absent, null where the code reads it under \<open>?.\<close> or \<open>??\<close>, or of
  its declared type. \<open>chunk_of\<close> reads canonical chunks only. On any other payload the code throws (a
  number under \<open>id\<close> has no \<open>replace\<close>, a null tool call no \<open>index\<close>), which fails the stream without its last
  events, or copies the value into a frame as it is; that is outside the model, and the theorems about
  streams take \<open>canonical_line\<close> of every payload as a hypothesis. Fields declared \<open>unknown\<close> keep any value,
  and the code tests their type.
\<close>

section \<open>The canonical chunk\<close>

record tool_delta =
  td_index :: "rat option"
  td_id :: "jtext option"
  td_name :: "jtext option"
  td_arguments :: "jtext option"

record stream_choice =
  sc_content :: "jtext json option"
  sc_tool_calls :: "tool_delta list"
  sc_reasoning :: "jtext json option"
  sc_reasoning_content :: "jtext json option"
  sc_finish_reason :: "jtext option"

record stream_usage =
  su_prompt :: "rat option"
  su_completion :: "rat option"

record chat_chunk =
  cc_id :: "jtext option"
  cc_created :: "rat option"
  cc_model :: "jtext option"
  cc_choice :: "stream_choice option"
  cc_usage :: "stream_usage option"

definition opt_field :: "jtext json option \<Rightarrow> string \<Rightarrow> jtext json option" where
  "opt_field v k = Option.bind v (\<lambda>j. json_field j (text_of k))"

text \<open>Conformance to the declared type \<open>CanonicalChatChunk\<close>, as far as the translators read it.\<close>

definition field_ok :: "jtext json \<Rightarrow> string \<Rightarrow> (jtext json \<Rightarrow> bool) \<Rightarrow> bool" where
  "field_ok v k ok = (case json_field v (text_of k) of None \<Rightarrow> True | Some x \<Rightarrow> ok x)"

fun or_null :: "(jtext json \<Rightarrow> bool) \<Rightarrow> jtext json \<Rightarrow> bool" where
  "or_null ok JNull = True"
| "or_null ok v = ok v"

fun is_str :: "jtext json \<Rightarrow> bool" where
  "is_str (JStr t) = True"
| "is_str _ = False"

fun is_num :: "jtext json \<Rightarrow> bool" where
  "is_num (JNum q) = True"
| "is_num _ = False"

fun is_obj :: "jtext json \<Rightarrow> bool" where
  "is_obj (JObj ms) = True"
| "is_obj _ = False"

fun arr_of :: "(jtext json list \<Rightarrow> bool) \<Rightarrow> jtext json \<Rightarrow> bool" where
  "arr_of ok (JArr vs) = ok vs"
| "arr_of ok _ = False"

definition canonical_call :: "jtext json \<Rightarrow> bool" where
  "canonical_call v \<longleftrightarrow>
     is_obj v \<and> field_ok v ''index'' (or_null is_num) \<and> field_ok v ''id'' (or_null is_str) \<and>
     field_ok v ''function'' (or_null (\<lambda>f. is_obj f \<and>
       field_ok f ''name'' (or_null is_str) \<and> field_ok f ''arguments'' (or_null is_str)))"

definition canonical_delta :: "jtext json \<Rightarrow> bool" where
  "canonical_delta v \<longleftrightarrow> is_obj v \<and> field_ok v ''tool_calls'' (or_null (arr_of (list_all canonical_call)))"

definition canonical_choice :: "jtext json \<Rightarrow> bool" where
  "canonical_choice v \<longleftrightarrow>
     is_obj v \<and> field_ok v ''delta'' (or_null canonical_delta) \<and> field_ok v ''finish_reason'' (or_null is_str)"

definition canonical_usage :: "jtext json \<Rightarrow> bool" where
  "canonical_usage v \<longleftrightarrow>
     is_obj v \<and> field_ok v ''prompt_tokens'' is_num \<and> field_ok v ''completion_tokens'' is_num"

definition canonical_chunk :: "jtext json \<Rightarrow> bool" where
  "canonical_chunk v \<longleftrightarrow>
     is_obj v \<and> field_ok v ''id'' (or_null is_str) \<and> field_ok v ''created'' (or_null is_num) \<and>
     field_ok v ''model'' (or_null is_str) \<and> field_ok v ''usage'' (or_null canonical_usage) \<and>
     field_ok v ''choices'' (or_null (arr_of (\<lambda>cs. cs = [] \<or> or_null canonical_choice (hd cs))))"

fun canonical_line :: "data_line \<Rightarrow> bool" where
  "canonical_line (Payload v) = canonical_chunk v"
| "canonical_line _ = True"

definition tool_delta_of :: "jtext json \<Rightarrow> tool_delta" where
  "tool_delta_of v =
     (let fn = opt_field (Some v) ''function'' in
      \<lparr>td_index = json_number (opt_field (Some v) ''index''),
       td_id = json_string (opt_field (Some v) ''id''),
       td_name = json_string (opt_field fn ''name''),
       td_arguments = json_string (opt_field fn ''arguments'')\<rparr>)"

definition choice_of :: "jtext json \<Rightarrow> stream_choice" where
  "choice_of v =
     (let delta = opt_field (Some v) ''delta'' in
      \<lparr>sc_content = opt_field delta ''content'',
       sc_tool_calls =
         (case opt_field delta ''tool_calls'' of Some (JArr ts) \<Rightarrow> map tool_delta_of ts | _ \<Rightarrow> []),
       sc_reasoning = opt_field delta ''reasoning'',
       sc_reasoning_content = opt_field delta ''reasoning_content'',
       sc_finish_reason = json_string (opt_field (Some v) ''finish_reason'')\<rparr>)"

definition chunk_of :: "jtext json \<Rightarrow> chat_chunk" where
  "chunk_of v =
     \<lparr>cc_id = json_string (opt_field (Some v) ''id''),
      cc_created = json_number (opt_field (Some v) ''created''),
      cc_model = json_string (opt_field (Some v) ''model''),
      cc_choice =
        (case opt_field (Some v) ''choices'' of
           Some (JArr (c # _)) \<Rightarrow> (case c of JObj _ \<Rightarrow> Some (choice_of c) | _ \<Rightarrow> None)
         | _ \<Rightarrow> None),
      cc_usage =
        (case opt_field (Some v) ''usage'' of
           Some (JObj us) \<Rightarrow>
             Some \<lparr>su_prompt = json_number (json_field (JObj us) (text_of ''prompt_tokens'') ),
                   su_completion = json_number (json_field (JObj us) (text_of ''completion_tokens''))\<rparr>
         | _ \<Rightarrow> None)\<rparr>"

text \<open>\<open>typeof content === "string" ? content : ""\<close>, and the first reasoning fragment.\<close>

definition text_value :: "jtext json option \<Rightarrow> jtext" where
  "text_value v = (case json_string v of Some t \<Rightarrow> t | None \<Rightarrow> [])"

definition nullish_or :: "jtext json option \<Rightarrow> jtext json option \<Rightarrow> jtext json option" where
  "nullish_or a b = (case a of None \<Rightarrow> b | Some JNull \<Rightarrow> b | Some v \<Rightarrow> Some v)"

text \<open>Null, false, zero and the empty text are not truthy.\<close>

definition js_truthy :: "jtext json option \<Rightarrow> bool" where
  "js_truthy v =
     (case v of None \<Rightarrow> False | Some JNull \<Rightarrow> False | Some (JBool b) \<Rightarrow> b | Some (JNum q) \<Rightarrow> q \<noteq> 0
      | Some (JStr s) \<Rightarrow> s \<noteq> [] | Some _ \<Rightarrow> True)"

definition reasoningDelta :: "stream_choice \<Rightarrow> jtext" where
  "reasoningDelta ch = text_value (nullish_or (sc_reasoning ch) (sc_reasoning_content ch))"

definition truthy_text :: "jtext option \<Rightarrow> jtext option" where
  "truthy_text t = (case t of Some s \<Rightarrow> if s \<noteq> [] then Some s else None | None \<Rightarrow> None)"

text \<open>\<open>id.replace(/^chatcmpl-/, prefix)\<close>.\<close>

definition rename_id :: "string \<Rightarrow> jtext \<Rightarrow> jtext" where
  "rename_id new i =
     (if take 9 i = text_of ''chatcmpl-'' then text_of new @ drop 9 i else i)"

section \<open>Stateful translators\<close>

text \<open>A step changes the translator's variables and enqueues events.\<close>

type_synonym ('s, 'e) emitter = "'s \<Rightarrow> 's \<times> 'e list"

definition andThen :: "('s, 'e) emitter \<Rightarrow> ('s, 'e) emitter \<Rightarrow> ('s, 'e) emitter" where
  "andThen f g s = (let (s1, o1) = f s; (s2, o2) = g s1 in (s2, o1 @ o2))"

fun forEach :: "('x \<Rightarrow> ('s, 'e) emitter) \<Rightarrow> 'x list \<Rightarrow> ('s, 'e) emitter" where
  "forEach f [] s = (s, [])"
| "forEach f (x # xs) s = andThen (f x) (forEach f xs) s"

definition quiet :: "('s \<Rightarrow> 's) \<Rightarrow> ('s, 'e) emitter" where
  "quiet f s = (f s, [])"

text \<open>\<open>transform\<close> reads a line and hands chunks and \<open>[DONE]\<close> on; \<open>flush\<close> finalizes.\<close>

definition on_line :: "(chat_chunk \<Rightarrow> ('s, 'e) emitter) \<Rightarrow> ('s, 'e) emitter \<Rightarrow> jtext \<Rightarrow> ('s, 'e) emitter" where
  "on_line chunk finalize line s =
     (case parseDataLine line of
        Skip \<Rightarrow> (s, [])
      | DoneLine \<Rightarrow> finalize s
      | Payload v \<Rightarrow> chunk (chunk_of v) s)"

definition run_stream ::
  "(chat_chunk \<Rightarrow> ('s, 'e) emitter) \<Rightarrow> ('s, 'e) emitter \<Rightarrow> ('s, 'e) emitter \<Rightarrow> 's \<Rightarrow> jtext list \<Rightarrow> 'e list" where
  "run_stream chunk on_done flush s lines =
     snd (andThen (forEach (on_line chunk on_done) lines) flush s)"

lemma andThen_fst [simp]: "fst (andThen f g s) = fst (g (fst (f s)))"
  by (simp add: andThen_def case_prod_unfold Let_def)

lemma andThen_snd [simp]: "snd (andThen f g s) = snd (f s) @ snd (g (fst (f s)))"
  by (simp add: andThen_def case_prod_unfold Let_def)

lemma quiet_simps [simp]: "fst (quiet f s) = f s" "snd (quiet f s) = []"
  by (simp_all add: quiet_def)

lemma forEach_Cons: "forEach f (x # xs) = andThen (f x) (forEach f xs)"
  by (rule ext) simp

lemma forEach_append: "forEach f (xs @ ys) s = andThen (forEach f xs) (forEach f ys) s"
  by (induction xs arbitrary: s) (simp_all add: andThen_def case_prod_unfold Let_def)

text \<open>Only the lines that carry data matter.\<close>

fun on_data :: "(chat_chunk \<Rightarrow> ('s, 'e) emitter) \<Rightarrow> ('s, 'e) emitter \<Rightarrow> data_line \<Rightarrow> ('s, 'e) emitter" where
  "on_data chunk finalize Skip s = (s, [])"
| "on_data chunk finalize DoneLine s = finalize s"
| "on_data chunk finalize (Payload v) s = chunk (chunk_of v) s"

lemma forEach_lines:
  "forEach (on_line chunk finalize) lines s = forEach (on_data chunk finalize) (payload_lines lines) s"
proof (induction lines arbitrary: s)
  case (Cons l ls)
  have "on_line chunk finalize l s = on_data chunk finalize (parseDataLine l) s"
    by (cases "parseDataLine l") (simp_all add: on_line_def)
  with Cons show ?case
    by (cases "parseDataLine l") (simp_all add: payload_lines_def andThen_def case_prod_unfold Let_def)
qed (simp add: payload_lines_def)

text \<open>After the first \<open>[DONE]\<close> no chunk follows.\<close>

fun done_is_last :: "data_line list \<Rightarrow> bool" where
  "done_is_last [] = True"
| "done_is_last (Payload v # ds) = done_is_last ds"
| "done_is_last (DoneLine # ds) = list_all (\<lambda>d. case d of Payload v \<Rightarrow> False | _ \<Rightarrow> True) ds"
| "done_is_last (Skip # ds) = done_is_last ds"

lemma done_is_last_shape:
  "done_is_last ds \<Longrightarrow> Skip \<notin> set ds \<Longrightarrow> \<exists>vs k. ds = map Payload vs @ replicate k DoneLine"
proof (induction ds rule: done_is_last.induct)
  case (2 v ds)
  then obtain vs k where "ds = map Payload vs @ replicate k DoneLine" by auto
  then have "Payload v # ds = map Payload (v # vs) @ replicate k DoneLine" by simp
  then show ?case by blast
next
  case (3 ds)
  have "d = DoneLine" if "d \<in> set ds" for d
    using 3 that by (cases d) (auto simp: list_all_iff)
  then have "DoneLine # ds = map Payload [] @ replicate (Suc (length ds)) DoneLine"
    using replicate_length_same [of ds DoneLine] by simp
  then show ?case by blast
qed simp_all

section \<open>Protocols\<close>

text \<open>An acceptor reads events one by one and refuses an event out of place.\<close>

fun accept_all :: "('p \<Rightarrow> 'e \<Rightarrow> 'p option) \<Rightarrow> 'p \<Rightarrow> 'e list \<Rightarrow> 'p option" where
  "accept_all acc p [] = Some p"
| "accept_all acc p (e # es) = (case acc p e of None \<Rightarrow> None | Some q \<Rightarrow> accept_all acc q es)"

lemma accept_all_append:
  "accept_all acc p (xs @ ys) =
     (case accept_all acc p xs of None \<Rightarrow> None | Some q \<Rightarrow> accept_all acc q ys)"
  by (induction xs arbitrary: p) (simp_all split: option.split)

text \<open>From related states a step emits what the acceptor takes and ends in related states.\<close>

definition follows ::
  "('p \<Rightarrow> 'e \<Rightarrow> 'p option) \<Rightarrow> ('s \<Rightarrow> 'p \<Rightarrow> bool) \<Rightarrow> ('s, 'e) emitter \<Rightarrow> ('s \<Rightarrow> 'p \<Rightarrow> bool) \<Rightarrow> bool" where
  "follows acc P f Q \<longleftrightarrow>
     (\<forall>s p. P s p \<longrightarrow> (\<exists>q. accept_all acc p (snd (f s)) = Some q \<and> Q (fst (f s)) q))"

lemma followsI:
  "(\<And>s p. P s p \<Longrightarrow> \<exists>q. accept_all acc p (snd (f s)) = Some q \<and> Q (fst (f s)) q) \<Longrightarrow> follows acc P f Q"
  by (simp add: follows_def)

lemma followsD:
  "follows acc P f Q \<Longrightarrow> P s p \<Longrightarrow> \<exists>q. accept_all acc p (snd (f s)) = Some q \<and> Q (fst (f s)) q"
  by (simp add: follows_def)

lemma follows_andThen:
  assumes "follows acc P f Q" "follows acc Q g R"
  shows "follows acc P (andThen f g) R"
proof (rule followsI)
  fix s p assume "P s p"
  then obtain q where q: "accept_all acc p (snd (f s)) = Some q" "Q (fst (f s)) q"
    using followsD [OF assms(1)] by blast
  with followsD [OF assms(2) q(2)]
  show "\<exists>q. accept_all acc p (snd (andThen f g s)) = Some q \<and> R (fst (andThen f g s)) q"
    by (auto simp: accept_all_append)
qed

lemma follows_quiet: "(\<And>s p. P s p \<Longrightarrow> Q (f s) p) \<Longrightarrow> follows acc P (quiet f) Q"
  by (rule followsI) simp

lemma follows_forEach: "(\<And>x. follows acc P (f x) P) \<Longrightarrow> follows acc P (forEach f xs) P"
proof (induction xs)
  case Nil
  show ?case by (rule followsI) simp
next
  case (Cons x xs)
  then have "follows acc P (andThen (f x) (forEach f xs)) P"
    by (blast intro: follows_andThen)
  then show ?case by (simp add: follows_def)
qed

text \<open>A translator follows a protocol when a simulation relates its variables to the acceptor's
  state and every step keeps it.\<close>

locale protocol =
  fixes acc :: "'p \<Rightarrow> 'e \<Rightarrow> 'p option"
    and sim :: "'s \<Rightarrow> 'p \<Rightarrow> bool"
    and chunk :: "chat_chunk \<Rightarrow> ('s, 'e) emitter"
    and finalize :: "('s, 'e) emitter"
    and final :: "'s \<Rightarrow> 'p \<Rightarrow> bool"
  assumes chunk_sim: "follows acc sim (chunk c) sim"
    and finalize_sim: "follows acc sim finalize final"
    and finalize_again: "final s p \<Longrightarrow> finalize s = (s, [])"
begin

lemma chunks_sim:
  "sim s p \<Longrightarrow>
     \<exists>q. accept_all acc p (snd (forEach (on_data chunk finalize) (map Payload vs) s)) = Some q \<and>
         sim (fst (forEach (on_data chunk finalize) (map Payload vs) s)) q"
proof (induction vs arbitrary: s p)
  case (Cons v vs)
  obtain q where q: "accept_all acc p (snd (chunk (chunk_of v) s)) = Some q" "sim (fst (chunk (chunk_of v) s)) q"
    using followsD [OF chunk_sim Cons.prems] by blast
  with Cons.IH [OF q(2)] show ?case
    by (auto simp: accept_all_append)
qed simp

lemma dones_quiet: "final s p \<Longrightarrow> forEach (on_data chunk finalize) (replicate k DoneLine) s = (s, [])"
  by (induction k) (simp_all add: finalize_again andThen_def)

lemma stream_accepted:
  assumes "sim s p" "done_is_last (payload_lines lines)"
  shows "\<exists>q s'. accept_all acc p (run_stream chunk finalize finalize s lines) = Some q \<and> final s' q"
proof -
  obtain vs k where lines: "payload_lines lines = map Payload vs @ replicate k DoneLine"
    using done_is_last_shape [OF assms(2)] by (auto simp: payload_lines_def)
  let ?f = "on_data chunk finalize"
  obtain q where q: "accept_all acc p (snd (forEach ?f (map Payload vs) s)) = Some q"
      "sim (fst (forEach ?f (map Payload vs) s)) q"
    using chunks_sim [OF assms(1)] by blast
  let ?s = "fst (forEach ?f (map Payload vs) s)"
  obtain r where r: "accept_all acc q (snd (finalize ?s)) = Some r" "final (fst (finalize ?s)) r"
    using followsD [OF finalize_sim q(2)] by blast
  have out: "run_stream chunk finalize finalize s lines = snd (forEach ?f (map Payload vs) s) @ snd (finalize ?s)"
  proof (cases k)
    case 0
    with lines show ?thesis
      by (simp add: run_stream_def forEach_lines)
  next
    case (Suc j)
    with lines r(2) show ?thesis
      by (simp add: run_stream_def forEach_lines forEach_append dones_quiet finalize_again)
  qed
  with q r show ?thesis
    by (auto simp: accept_all_append)
qed

end

section \<open>Anthropic Messages stream\<close>

definition mapStopReason :: "jtext \<Rightarrow> jtext" where
  "mapStopReason reason =
     (if reason = text_of ''length'' then text_of ''max_tokens''
      else if reason = text_of ''tool_calls'' then text_of ''tool_use''
      else text_of ''end_turn'')"

datatype block_type = TextType | ThinkingType | ToolUseType

datatype an_block = TextBlock | ThinkingBlock | ToolUseBlock jtext jtext

datatype an_delta = TextDelta jtext | ThinkingDelta jtext | InputJsonDelta jtext

datatype an_event =
    MessageStart jtext jtext
  | BlockStart nat an_block
  | BlockDelta nat an_delta
  | BlockStop nat
  | MessageDelta jtext rat rat
  | MessageStop

record anthropic_state =
  an_started :: bool
  an_finalized :: bool
  an_nextBlockIndex :: nat
  an_openBlockIndex :: "nat option"
  an_openBlockType :: "block_type option"
  an_toolBlocks :: "(rat, nat) jmap"
  an_stopReason :: "jtext option"
  an_inputTokens :: rat
  an_outputTokens :: rat
  an_messageId :: jtext

definition an_init :: anthropic_state where
  "an_init = \<lparr>an_started = False, an_finalized = False, an_nextBlockIndex = 0,
     an_openBlockIndex = None, an_openBlockType = None, an_toolBlocks = [],
     an_stopReason = None, an_inputTokens = 0, an_outputTokens = 0,
     an_messageId = text_of ''msg_stream''\<rparr>"

definition an_start :: "jtext \<Rightarrow> (anthropic_state, an_event) emitter" where
  "an_start model s =
     (if an_started s then (s, [])
      else (s\<lparr>an_started := True\<rparr>, [MessageStart (an_messageId s) model]))"

definition an_closeOpenBlock :: "(anthropic_state, an_event) emitter" where
  "an_closeOpenBlock s =
     (case an_openBlockIndex s of
        None \<Rightarrow> (s, [])
      | Some i \<Rightarrow> (s\<lparr>an_openBlockIndex := None, an_openBlockType := None\<rparr>, [BlockStop i]))"

definition an_message_end :: "(anthropic_state, an_event) emitter" where
  "an_message_end s =
     (s, [MessageDelta (case an_stopReason s of Some r \<Rightarrow> r | None \<Rightarrow> text_of ''end_turn'')
            (an_inputTokens s) (an_outputTokens s),
          MessageStop])"

definition an_finalize :: "jtext \<Rightarrow> (anthropic_state, an_event) emitter" where
  "an_finalize model s =
     (if an_finalized s then (s, [])
      else andThen (an_start model) (andThen an_closeOpenBlock an_message_end)
             (s\<lparr>an_finalized := True\<rparr>))"

text \<open>\<open>openBlockIndex = nextBlockIndex++; openBlockType = ...\<close> and the frame that opens it.\<close>

definition an_open :: "block_type \<Rightarrow> an_block \<Rightarrow> (anthropic_state, an_event) emitter" where
  "an_open ty b s =
     (s\<lparr>an_openBlockIndex := Some (an_nextBlockIndex s), an_openBlockType := Some ty,
        an_nextBlockIndex := an_nextBlockIndex s + 1\<rparr>,
      [BlockStart (an_nextBlockIndex s) b])"

definition an_delta :: "an_delta \<Rightarrow> (anthropic_state, an_event) emitter" where
  "an_delta d s =
     (case an_openBlockIndex s of Some i \<Rightarrow> (s, [BlockDelta i d]) | None \<Rightarrow> (s, []))"

text \<open>The text and thinking branches: open a block of the type unless one is open, then the
  fragment. The index is never null there (\<open>an_delta_open\<close> below).\<close>

definition an_fragment :: "block_type \<Rightarrow> an_block \<Rightarrow> an_delta \<Rightarrow> (anthropic_state, an_event) emitter" where
  "an_fragment ty b d s =
     (if an_openBlockType s \<noteq> Some ty
      then andThen an_closeOpenBlock (andThen (an_open ty b) (an_delta d)) s
      else an_delta d s)"

definition an_thinking :: "jtext \<Rightarrow> (anthropic_state, an_event) emitter" where
  "an_thinking t s =
     (if t \<noteq> [] then an_fragment ThinkingType ThinkingBlock (ThinkingDelta t) s else (s, []))"

definition an_content :: "jtext \<Rightarrow> (anthropic_state, an_event) emitter" where
  "an_content t s =
     (if t \<noteq> [] then an_fragment TextType TextBlock (TextDelta t) s else (s, []))"

definition tool_index :: "tool_delta \<Rightarrow> rat" where
  "tool_index tc = (case td_index tc of Some i \<Rightarrow> i | None \<Rightarrow> 0)"

definition an_openTool :: "(rat \<Rightarrow> jtext) \<Rightarrow> tool_delta \<Rightarrow> (anthropic_state, an_event) emitter" where
  "an_openTool num_text tc s =
     (if jm_has (an_toolBlocks s) (tool_index tc) then (s, [])
      else andThen an_closeOpenBlock
             (andThen (quiet (\<lambda>s. s\<lparr>an_toolBlocks := jm_set (an_toolBlocks s) (tool_index tc) (an_nextBlockIndex s)\<rparr>))
               (an_open ToolUseType
                 (ToolUseBlock
                   (case td_id tc of Some i \<Rightarrow> i | None \<Rightarrow> text_of ''toolu_'' @ num_text (tool_index tc))
                   (case td_name tc of Some n \<Rightarrow> n | None \<Rightarrow> [])))) s)"

definition an_toolArguments :: "tool_delta \<Rightarrow> (anthropic_state, an_event) emitter" where
  "an_toolArguments tc s =
     (case truthy_text (td_arguments tc) of
        None \<Rightarrow> (s, [])
      | Some args \<Rightarrow>
          (case jm_get (an_toolBlocks s) (tool_index tc) of
             None \<Rightarrow> (s, [])
           | Some b \<Rightarrow>
               if an_openBlockIndex s = Some b then (s, [BlockDelta b (InputJsonDelta args)])
               else (s, [])))"

definition an_tool :: "(rat \<Rightarrow> jtext) \<Rightarrow> tool_delta \<Rightarrow> (anthropic_state, an_event) emitter" where
  "an_tool num_text tc = andThen (an_openTool num_text tc) (an_toolArguments tc)"

definition an_setId :: "chat_chunk \<Rightarrow> anthropic_state \<Rightarrow> anthropic_state" where
  "an_setId c s =
     (case truthy_text (cc_id c) of
        Some i \<Rightarrow>
          if an_messageId s = text_of ''msg_stream'' then s\<lparr>an_messageId := rename_id ''msg_'' i\<rparr> else s
      | None \<Rightarrow> s)"

definition an_setUsage :: "chat_chunk \<Rightarrow> anthropic_state \<Rightarrow> anthropic_state" where
  "an_setUsage c s =
     (case cc_usage c of
        None \<Rightarrow> s
      | Some u \<Rightarrow>
          s\<lparr>an_outputTokens := (case su_completion u of Some n \<Rightarrow> n | None \<Rightarrow> an_outputTokens s),
            an_inputTokens := (case su_prompt u of Some n \<Rightarrow> n | None \<Rightarrow> an_inputTokens s)\<rparr>)"

definition an_setStop :: "stream_choice \<Rightarrow> anthropic_state \<Rightarrow> anthropic_state" where
  "an_setStop ch s =
     (case truthy_text (sc_finish_reason ch) of
        Some r \<Rightarrow> s\<lparr>an_stopReason := Some (mapStopReason r)\<rparr>
      | None \<Rightarrow> s)"

definition an_choice :: "(rat \<Rightarrow> jtext) \<Rightarrow> stream_choice \<Rightarrow> (anthropic_state, an_event) emitter" where
  "an_choice num_text ch =
     andThen (quiet (an_setStop ch))
       (andThen (an_thinking (reasoningDelta ch))
         (andThen (an_content (text_value (sc_content ch)))
           (forEach (an_tool num_text) (sc_tool_calls ch))))"

definition an_chunk :: "(rat \<Rightarrow> jtext) \<Rightarrow> jtext \<Rightarrow> chat_chunk \<Rightarrow> (anthropic_state, an_event) emitter" where
  "an_chunk num_text model c =
     andThen (quiet (an_setId c))
       (andThen (an_start model)
         (andThen (quiet (an_setUsage c))
           (case cc_choice c of None \<Rightarrow> quiet id | Some ch \<Rightarrow> an_choice num_text ch)))"

definition anthropic_stream :: "(rat \<Rightarrow> jtext) \<Rightarrow> jtext \<Rightarrow> jtext list \<Rightarrow> an_event list" where
  "anthropic_stream num_text model lines =
     run_stream (an_chunk num_text model) (an_finalize model) (an_finalize model) an_init lines"

subsection \<open>The frames\<close>

definition jt :: "string \<Rightarrow> jtext json" where
  "jt s = JStr (text_of s)"

definition jobj :: "(string \<times> jtext json) list \<Rightarrow> jtext json" where
  "jobj ms = JObj (map (\<lambda>(k, v). (text_of k, v)) ms)"

abbreviation jnat :: "nat \<Rightarrow> jtext json" where
  "jnat n \<equiv> JNum (of_nat n)"

fun an_block_json :: "an_block \<Rightarrow> jtext json" where
  "an_block_json TextBlock = jobj [(''type'', jt ''text''), (''text'', jt '''')]"
| "an_block_json ThinkingBlock = jobj [(''type'', jt ''thinking''), (''thinking'', jt '''')]"
| "an_block_json (ToolUseBlock i n) =
     jobj [(''type'', jt ''tool_use''), (''id'', JStr i), (''name'', JStr n), (''input'', jobj [])]"

fun an_delta_json :: "an_delta \<Rightarrow> jtext json" where
  "an_delta_json (TextDelta t) = jobj [(''type'', jt ''text_delta''), (''text'', JStr t)]"
| "an_delta_json (ThinkingDelta t) = jobj [(''type'', jt ''thinking_delta''), (''thinking'', JStr t)]"
| "an_delta_json (InputJsonDelta t) = jobj [(''type'', jt ''input_json_delta''), (''partial_json'', JStr t)]"

fun an_frame :: "an_event \<Rightarrow> string \<times> jtext json" where
  "an_frame (MessageStart i model) =
     (''message_start'',
      jobj [(''type'', jt ''message_start''),
            (''message'', jobj [(''id'', JStr i), (''type'', jt ''message''), (''role'', jt ''assistant''),
               (''content'', JArr []), (''model'', JStr model), (''stop_reason'', JNull),
               (''stop_sequence'', JNull),
               (''usage'', jobj [(''input_tokens'', jnat 0), (''output_tokens'', jnat 0)])])])"
| "an_frame (BlockStart n b) =
     (''content_block_start'',
      jobj [(''type'', jt ''content_block_start''), (''index'', jnat n), (''content_block'', an_block_json b)])"
| "an_frame (BlockDelta n d) =
     (''content_block_delta'',
      jobj [(''type'', jt ''content_block_delta''), (''index'', jnat n), (''delta'', an_delta_json d)])"
| "an_frame (BlockStop n) =
     (''content_block_stop'', jobj [(''type'', jt ''content_block_stop''), (''index'', jnat n)])"
| "an_frame (MessageDelta r i out) =
     (''message_delta'',
      jobj [(''type'', jt ''message_delta''),
            (''delta'', jobj [(''stop_reason'', JStr r), (''stop_sequence'', JNull)]),
            (''usage'', jobj [(''input_tokens'', JNum i), (''output_tokens'', JNum out)])])"
| "an_frame MessageStop = (''message_stop'', jobj [(''type'', jt ''message_stop'')])"

definition render_frames :: "(rat \<Rightarrow> jtext) \<Rightarrow> ('e \<Rightarrow> string \<times> jtext json) \<Rightarrow> 'e list \<Rightarrow> jtext" where
  "render_frames num_text frame es =
     concat (map (\<lambda>e. sseEncode num_text (Some (text_of (fst (frame e)))) (snd (frame e))) es)"

text \<open>\<open>translateSSEBody(body, new AnthropicStreamTranslator(model))\<close>.\<close>

definition anthropic_body :: "(rat \<Rightarrow> jtext) \<Rightarrow> jtext \<Rightarrow> byte list list \<Rightarrow> byte list" where
  "anthropic_body num_text model body =
     utf8_encode (render_frames num_text an_frame (anthropic_stream num_text model (body_lines body)))"

subsection \<open>The Messages protocol\<close>

text \<open>One \<open>message_start\<close>; then blocks numbered from 0, each started, fed with fragments of its own
  type and stopped before the next; then \<open>message_delta\<close> and \<open>message_stop\<close>.\<close>

datatype an_phase = AwaitStart | Between nat | Inside nat block_type | Ending | Ended

fun an_block_type :: "an_block \<Rightarrow> block_type" where
  "an_block_type TextBlock = TextType"
| "an_block_type ThinkingBlock = ThinkingType"
| "an_block_type (ToolUseBlock i n) = ToolUseType"

fun an_delta_type :: "an_delta \<Rightarrow> block_type" where
  "an_delta_type (TextDelta t) = TextType"
| "an_delta_type (ThinkingDelta t) = ThinkingType"
| "an_delta_type (InputJsonDelta t) = ToolUseType"

fun an_accept :: "an_phase \<Rightarrow> an_event \<Rightarrow> an_phase option" where
  "an_accept AwaitStart (MessageStart i m) = Some (Between 0)"
| "an_accept (Between n) (BlockStart i b) = (if i = n then Some (Inside n (an_block_type b)) else None)"
| "an_accept (Inside n ty) (BlockDelta i d) = (if i = n \<and> an_delta_type d = ty then Some (Inside n ty) else None)"
| "an_accept (Inside n ty) (BlockStop i) = (if i = n then Some (Between (n + 1)) else None)"
| "an_accept (Between n) (MessageDelta r i out) = Some Ending"
| "an_accept Ending MessageStop = Some Ended"
| "an_accept _ _ = None"

definition tools_below :: "anthropic_state \<Rightarrow> bool" where
  "tools_below s \<longleftrightarrow>
     (\<forall>k b. jm_get (an_toolBlocks s) k = Some b \<longrightarrow>
        b < an_nextBlockIndex s \<and>
        (an_openBlockIndex s = Some b \<longrightarrow> an_openBlockType s = Some ToolUseType))"

definition an_live :: "anthropic_state \<Rightarrow> an_phase \<Rightarrow> bool" where
  "an_live s p \<longleftrightarrow>
     \<not> an_finalized s \<and> an_started s \<and> tools_below s \<and>
     (case p of
        Between n \<Rightarrow> an_openBlockIndex s = None \<and> an_openBlockType s = None \<and> an_nextBlockIndex s = n
      | Inside n ty \<Rightarrow>
          an_openBlockIndex s = Some n \<and> an_openBlockType s = Some ty \<and> an_nextBlockIndex s = n + 1
      | _ \<Rightarrow> False)"

definition an_sim :: "anthropic_state \<Rightarrow> an_phase \<Rightarrow> bool" where
  "an_sim s p \<longleftrightarrow>
     an_live s p \<or>
     p = AwaitStart \<and> \<not> an_finalized s \<and> \<not> an_started s \<and> an_openBlockIndex s = None \<and>
     an_openBlockType s = None \<and> an_nextBlockIndex s = 0 \<and> an_toolBlocks s = []"

definition an_closed :: "anthropic_state \<Rightarrow> an_phase \<Rightarrow> bool" where
  "an_closed s p \<longleftrightarrow> an_live s p \<and> p = Between (an_nextBlockIndex s)"

definition an_final :: "anthropic_state \<Rightarrow> an_phase \<Rightarrow> bool" where
  "an_final s p \<longleftrightarrow> an_finalized s \<and> p = Ended"

lemma an_start_follows: "follows an_accept an_sim (an_start model) an_live"
  by (rule followsI) (auto simp: an_sim_def an_live_def an_start_def tools_below_def split: an_phase.splits)

lemma an_close_follows: "follows an_accept an_live an_closeOpenBlock an_closed"
  by (rule followsI)
    (auto simp: an_live_def an_closed_def an_closeOpenBlock_def tools_below_def split: an_phase.splits)

lemma tools_below_open:
  "tools_below s \<Longrightarrow> tools_below (s\<lparr>an_openBlockIndex := Some (an_nextBlockIndex s),
      an_openBlockType := ty, an_nextBlockIndex := Suc (an_nextBlockIndex s)\<rparr>)"
  by (fastforce simp: tools_below_def less_Suc_eq)

lemma tools_below_new:
  "tools_below s \<Longrightarrow> tools_below (s\<lparr>an_toolBlocks := jm_set (an_toolBlocks s) k (an_nextBlockIndex s),
      an_openBlockIndex := Some (an_nextBlockIndex s), an_openBlockType := Some ToolUseType,
      an_nextBlockIndex := Suc (an_nextBlockIndex s)\<rparr>)"
  by (auto simp: tools_below_def less_Suc_eq)

lemma an_fragment_follows:
  assumes "an_block_type b = ty" "an_delta_type d = ty" "ty \<noteq> ToolUseType"
  shows "follows an_accept an_live (an_fragment ty b d) an_live"
proof (rule followsI)
  fix s p assume p: "an_live s p"
  show "\<exists>q. accept_all an_accept p (snd (an_fragment ty b d s)) = Some q \<and> an_live (fst (an_fragment ty b d s)) q"
  proof (cases "an_openBlockType s = Some ty")
    case True
    with p assms(2) show ?thesis
      by (auto simp: an_fragment_def an_live_def an_delta_def split: an_phase.splits)
  next
    case False
    obtain q where q: "accept_all an_accept p (snd (an_closeOpenBlock s)) = Some q" "an_closed (fst (an_closeOpenBlock s)) q"
      using followsD [OF an_close_follows p] by blast
    with False assms show ?thesis
      by (auto simp: an_fragment_def accept_all_append an_closed_def an_live_def an_open_def an_delta_def
          tools_below_open)
  qed
qed

lemma an_openTool_follows: "follows an_accept an_live (an_openTool num_text tc) an_live"
proof (rule followsI)
  fix s p assume p: "an_live s p"
  obtain q where q: "accept_all an_accept p (snd (an_closeOpenBlock s)) = Some q" "an_closed (fst (an_closeOpenBlock s)) q"
    using followsD [OF an_close_follows p] by blast
  show "\<exists>q. accept_all an_accept p (snd (an_openTool num_text tc s)) = Some q \<and>
      an_live (fst (an_openTool num_text tc s)) q"
  proof (cases "jm_has (an_toolBlocks s) (tool_index tc)")
    case False
    with q show ?thesis
      by (auto simp: an_openTool_def accept_all_append an_closed_def an_live_def an_open_def tools_below_new)
  qed (use p in \<open>simp add: an_openTool_def\<close>)
qed

lemma an_arguments_follows: "follows an_accept an_live (an_toolArguments tc) an_live"
proof (rule followsI)
  fix s p assume p: "an_live s p"
  show "\<exists>q. accept_all an_accept p (snd (an_toolArguments tc s)) = Some q \<and>
      an_live (fst (an_toolArguments tc s)) q"
  proof (cases "snd (an_toolArguments tc s) = []")
    case True
    with p show ?thesis
      by (auto simp: an_toolArguments_def split: option.splits if_splits)
  next
    case False
    then obtain args b where b: "an_toolArguments tc s = (s, [BlockDelta b (InputJsonDelta args)])"
        "jm_get (an_toolBlocks s) (tool_index tc) = Some b" "an_openBlockIndex s = Some b"
      by (auto simp: an_toolArguments_def split: option.splits if_splits)
    then have "an_openBlockType s = Some ToolUseType"
      using p by (auto simp: an_live_def tools_below_def)
    with p b show ?thesis
      by (auto simp: an_live_def split: an_phase.splits)
  qed
qed

lemma an_choice_follows: "follows an_accept an_live (an_choice num_text ch) an_live"
proof -
  have "follows an_accept an_live (quiet (an_setStop ch)) an_live"
    by (rule follows_quiet)
      (auto simp: an_setStop_def an_live_def tools_below_def split: option.splits an_phase.splits)
  moreover have "follows an_accept an_live (an_thinking t) an_live" for t
    using an_fragment_follows [of ThinkingBlock ThinkingType "ThinkingDelta t"]
    by (auto simp: follows_def an_thinking_def)
  moreover have "follows an_accept an_live (an_content t) an_live" for t
    using an_fragment_follows [of TextBlock TextType "TextDelta t"]
    by (auto simp: follows_def an_content_def)
  moreover have "follows an_accept an_live (an_tool num_text tc) an_live" for tc
    unfolding an_tool_def by (rule follows_andThen [OF an_openTool_follows an_arguments_follows])
  ultimately show ?thesis
    unfolding an_choice_def by (blast intro: follows_andThen follows_forEach)
qed

lemma an_chunk_follows: "follows an_accept an_sim (an_chunk num_text model c) an_sim"
proof -
  have id: "follows an_accept an_sim (quiet (an_setId c)) an_sim"
    by (rule follows_quiet)
      (auto simp: an_setId_def an_sim_def an_live_def tools_below_def split: option.splits an_phase.splits)
  have usage: "follows an_accept an_live (quiet (an_setUsage c)) an_live"
    by (rule follows_quiet)
      (auto simp: an_setUsage_def an_live_def tools_below_def split: option.splits an_phase.splits)
  have rest: "follows an_accept an_live (case cc_choice c of None \<Rightarrow> quiet id | Some ch \<Rightarrow> an_choice num_text ch) an_sim"
    using an_choice_follows by (fastforce simp: follows_def an_sim_def split: option.split)
  show ?thesis
    unfolding an_chunk_def
    by (rule follows_andThen [OF id follows_andThen [OF an_start_follows follows_andThen [OF usage rest]]])
qed

lemma an_finalize_follows: "follows an_accept an_sim (an_finalize model) an_final"
proof (rule followsI)
  fix s p assume p: "an_sim s p"
  let ?f = "andThen (an_start model) (andThen an_closeOpenBlock an_message_end)"
  have "follows an_accept an_closed an_message_end (\<lambda>s p. p = Ended)"
    by (rule followsI) (auto simp: an_message_end_def an_closed_def)
  then have "follows an_accept an_sim ?f (\<lambda>s p. p = Ended)"
    by (intro follows_andThen [OF an_start_follows] follows_andThen [OF an_close_follows])
  from followsD [OF this p] obtain q where "accept_all an_accept p (snd (?f s)) = Some q" "q = Ended"
    by blast
  moreover have "\<not> an_finalized s"
    using p by (auto simp: an_sim_def an_live_def)
  moreover have "snd (?f (s\<lparr>an_finalized := True\<rparr>)) = snd (?f s)" "an_finalized (fst (?f (s\<lparr>an_finalized := True\<rparr>)))"
    by (simp_all add: an_start_def an_closeOpenBlock_def an_message_end_def split: option.split)
  ultimately show "\<exists>q. accept_all an_accept p (snd (an_finalize model s)) = Some q \<and> an_final (fst (an_finalize model s)) q"
    by (simp add: an_finalize_def an_final_def)
qed

interpretation anthropic: protocol an_accept an_sim "an_chunk num_text model" "an_finalize model" an_final
  by unfold_locales (rule an_chunk_follows an_finalize_follows | simp add: an_final_def an_finalize_def)+

text \<open>C23: The Anthropic translator speaks the Messages protocol on every stream of canonical chunks.
  For any lines whose payloads conform to the declared chunk type and in which no chunk follows the
  first \<open>[DONE]\<close> (there may be no such mark, or several, and lines that carry no data anywhere), the
  emitted events are one \<open>message_start\<close>, content blocks numbered 0, 1, 2, ... that never overlap, each
  started, fed only with fragments of its own type and stopped, and then exactly one \<open>message_delta\<close> and
  one \<open>message_stop\<close>.\<close>

lemma anthropic_stream_conforms:
  assumes "list_all canonical_line (payload_lines lines)" "done_is_last (payload_lines lines)"
  shows "accept_all an_accept AwaitStart (anthropic_stream num_text model lines) = Some Ended"
proof -
  have "an_sim an_init AwaitStart"
    by (simp add: an_sim_def an_init_def)
  from anthropic.stream_accepted [OF this assms(2)] show ?thesis
    by (auto simp: anthropic_stream_def an_final_def)
qed

definition demo_text_chunk :: "jtext json" where
  "demo_text_chunk = jobj [(''id'', jt ''chatcmpl-7''),
     (''choices'', JArr [jobj [(''delta'', jobj [(''content'', jt ''Hi'')])]])]"

definition demo_tool_chunk :: "jtext json" where
  "demo_tool_chunk = jobj [(''choices'', JArr [jobj [(''delta'', jobj [(''tool_calls'', JArr [jobj
     [(''index'', JNum 1), (''id'', jt ''t''), (''function'', jobj [(''name'', jt ''f''), (''arguments'', jt ''{}'')])]])])]])]"

definition demo_lines :: "jtext list" where
  "demo_lines =
     [text_of ''data: '' @ json_stringify demo_num_text demo_text_chunk, [],
      text_of ''data: '' @ json_stringify demo_num_text demo_tool_chunk, [], text_of ''data: [DONE]'']"

lemma text_of_eq [simp]: "text_of s = text_of t \<longleftrightarrow> s = t"
  by (auto simp: text_of_def inj_map_eq_map [OF inj_of_char])

lemma ascii_scalar: "list_all scalar (text_of s)"
  using order_less_trans [OF nat_of_char_less_256, of "0xD800"]
  by (auto simp: text_of_def list_all_iff scalar_def)

lemma demo_payloads: "payload_lines demo_lines = [Payload demo_text_chunk, Payload demo_tool_chunk, DoneLine]"
proof -
  have "parseDataLine (text_of ''data: '' @ json_stringify demo_num_text demo_text_chunk) = Payload demo_text_chunk"
    unfolding demo_text_chunk_def jobj_def
    by (rule data_line_read [OF demo_renders]) (simp add: jt_def jobj_def ascii_scalar)
  moreover have "parseDataLine (text_of ''data: '' @ json_stringify demo_num_text demo_tool_chunk) = Payload demo_tool_chunk"
    unfolding demo_tool_chunk_def jobj_def
    by (rule data_line_read [OF demo_renders]) (simp add: jt_def jobj_def ascii_scalar)
  ultimately show ?thesis
    by (simp add: demo_lines_def payload_lines_def blank_line_skipped done_line_read)
qed

lemma demo_canonical: "list_all canonical_line (payload_lines demo_lines)"
  by (simp add: demo_payloads demo_text_chunk_def demo_tool_chunk_def jobj_def jt_def field_ok_def json_field_def
      canonical_chunk_def canonical_choice_def canonical_delta_def canonical_call_def)

lemma anthropic_stream_conforms_witness:
  "accept_all an_accept AwaitStart (anthropic_stream demo_num_text (text_of ''m'') demo_lines) = Some Ended"
  by (rule anthropic_stream_conforms [OF demo_canonical]) (simp add: demo_payloads)

subsection \<open>No text is lost\<close>

definition chunk_content :: "chat_chunk \<Rightarrow> jtext" where
  "chunk_content c = (case cc_choice c of None \<Rightarrow> [] | Some ch \<Rightarrow> text_value (sc_content ch))"

definition chunk_reasoning :: "chat_chunk \<Rightarrow> jtext" where
  "chunk_reasoning c = (case cc_choice c of None \<Rightarrow> [] | Some ch \<Rightarrow> reasoningDelta ch)"

fun chunks_in :: "data_line list \<Rightarrow> chat_chunk list" where
  "chunks_in [] = []"
| "chunks_in (Payload v # ds) = chunk_of v # chunks_in ds"
| "chunks_in (_ # ds) = chunks_in ds"

fun event_text :: "an_event \<Rightarrow> jtext" where
  "event_text (BlockDelta i (TextDelta t)) = t"
| "event_text _ = []"

fun event_thinking :: "an_event \<Rightarrow> jtext" where
  "event_thinking (BlockDelta i (ThinkingDelta t)) = t"
| "event_thinking _ = []"

abbreviation all_text :: "an_event list \<Rightarrow> jtext \<times> jtext" where
  "all_text es \<equiv> (concat (map event_text es), concat (map event_thinking es))"

definition an_paired :: "anthropic_state \<Rightarrow> bool" where
  "an_paired s \<longleftrightarrow> (an_openBlockIndex s = None \<longleftrightarrow> an_openBlockType s = None)"

text \<open>\<open>carries f ts\<close>: the step emits exactly these texts, and keeps index and type of the open block
  together.\<close>

definition carries :: "(anthropic_state, an_event) emitter \<Rightarrow> jtext \<times> jtext \<Rightarrow> bool" where
  "carries f ts \<longleftrightarrow> (\<forall>s. an_paired s \<longrightarrow> all_text (snd (f s)) = ts \<and> an_paired (fst (f s)))"

lemma carries_andThen:
  "carries f (a, b) \<Longrightarrow> carries g (c, d) \<Longrightarrow> carries (andThen f g) (a @ c, b @ d)"
  by (simp add: carries_def)

lemma carries_silent: "carries f ([], []) \<Longrightarrow> carries g ts \<Longrightarrow> carries (andThen f g) ts"
  by (cases ts) (simp add: carries_def)

lemma carries_forEach: "(\<And>x. carries (f x) ([], [])) \<Longrightarrow> carries (forEach f xs) ([], [])"
proof (induction xs)
  case Nil
  show ?case by (simp add: carries_def)
next
  case (Cons x xs)
  then show ?case
    by (simp only: forEach_Cons) (blast intro: carries_silent)
qed

lemma carries_close: "carries an_closeOpenBlock ([], [])"
  by (auto simp: carries_def an_closeOpenBlock_def an_paired_def split: option.splits)

lemma carries_open: "carries (an_open ty b) ([], [])"
  by (auto simp: carries_def an_open_def an_paired_def)

lemma carries_tool: "carries (an_tool num_text tc) ([], [])"
proof -
  have "carries (an_toolArguments tc) ([], [])"
    by (auto simp: carries_def an_toolArguments_def split: option.splits)
  moreover have "carries (an_openTool num_text tc) ([], [])"
    by (simp add: carries_def an_openTool_def an_closeOpenBlock_def an_open_def an_paired_def
        split: option.split)
  ultimately show ?thesis
    unfolding an_tool_def by (rule carries_silent [rotated])
qed

lemma carries_fragment:
  "carries (an_fragment ty b d) (event_text (BlockDelta 0 d), event_thinking (BlockDelta 0 d))"
  unfolding carries_def
proof (intro allI impI)
  fix s assume s: "an_paired s"
  have "event_text (BlockDelta i d) = event_text (BlockDelta 0 d)"
    "event_thinking (BlockDelta i d) = event_thinking (BlockDelta 0 d)" for i
    by (cases d; simp)+
  then show "all_text (snd (an_fragment ty b d s)) = (event_text (BlockDelta 0 d), event_thinking (BlockDelta 0 d)) \<and>
      an_paired (fst (an_fragment ty b d s))"
    using s
    by (auto simp: an_fragment_def an_open_def an_delta_def an_paired_def an_closeOpenBlock_def
        split: option.splits)
qed

lemma carries_choice: "carries (an_choice num_text ch) (text_value (sc_content ch), reasoningDelta ch)"
proof -
  have "carries (an_thinking t) ([], t)" for t
    using carries_fragment [of ThinkingType ThinkingBlock "ThinkingDelta t"]
    by (auto simp: carries_def an_thinking_def)
  moreover have "carries (an_content t) (t, [])" for t
    using carries_fragment [of TextType TextBlock "TextDelta t"]
    by (auto simp: carries_def an_content_def)
  moreover have "carries (quiet (an_setStop ch)) ([], [])"
    by (auto simp: carries_def an_setStop_def an_paired_def split: option.splits)
  moreover have "carries (forEach (an_tool num_text) (sc_tool_calls ch)) ([], [])"
    by (rule carries_forEach) (rule carries_tool)
  ultimately have "carries (an_choice num_text ch)
      ([] @ [] @ text_value (sc_content ch) @ [], [] @ reasoningDelta ch @ [] @ [])"
    unfolding an_choice_def by (intro carries_andThen)
  then show ?thesis by simp
qed

lemma carries_start: "carries (an_start model) ([], [])"
  by (auto simp: carries_def an_start_def an_paired_def)

lemma carries_chunk: "carries (an_chunk num_text model c) (chunk_content c, chunk_reasoning c)"
proof -
  have "carries (quiet (an_setId c)) ([], [])" "carries (quiet (an_setUsage c)) ([], [])"
    by (auto simp: carries_def an_setId_def an_setUsage_def an_paired_def split: option.splits)
  moreover have "carries (case cc_choice c of None \<Rightarrow> quiet id | Some ch \<Rightarrow> an_choice num_text ch)
      (chunk_content c, chunk_reasoning c)"
    using carries_choice
    by (auto simp: carries_def chunk_content_def chunk_reasoning_def split: option.splits)
  ultimately show ?thesis
    unfolding an_chunk_def by (blast intro: carries_silent carries_start)
qed

lemma carries_finalize: "carries (an_finalize model) ([], [])"
proof -
  let ?f = "andThen (an_start model) (andThen an_closeOpenBlock an_message_end)"
  have "carries an_message_end ([], [])"
    by (simp add: carries_def an_message_end_def)
  then have f: "carries ?f ([], [])"
    by (intro carries_silent [OF carries_start] carries_silent [OF carries_close])
  show ?thesis
    unfolding carries_def
  proof (intro allI impI)
    fix s assume s: "an_paired s"
    then have "an_paired (s\<lparr>an_finalized := True\<rparr>)" by (simp add: an_paired_def)
    with f have "all_text (snd (?f (s\<lparr>an_finalized := True\<rparr>))) = ([], [])"
        "an_paired (fst (?f (s\<lparr>an_finalized := True\<rparr>)))"
      unfolding carries_def by blast+
    with s show "all_text (snd (an_finalize model s)) = ([], []) \<and> an_paired (fst (an_finalize model s))"
      by (cases "an_finalized s") (simp_all only: an_finalize_def if_True if_False fst_conv snd_conv list.map concat.simps)
  qed
qed

lemma carries_lines:
  "carries (forEach (on_data (an_chunk num_text model) (an_finalize model)) ds)
     (concat (map chunk_content (chunks_in ds)), concat (map chunk_reasoning (chunks_in ds)))"
proof (induction ds)
  case (Cons d ds)
  have "carries (on_data (an_chunk num_text model) (an_finalize model) d)
      (concat (map chunk_content (chunks_in [d])), concat (map chunk_reasoning (chunks_in [d])))"
    using carries_chunk carries_finalize by (cases d) (auto simp: carries_def)
  with Cons show ?case
    by (cases d) (simp_all add: carries_def)
qed (simp add: carries_def)

text \<open>The Anthropic translator keeps the whole answer. On every input the text fragments it emits,
  in order, spell exactly the concatenated contents of the canonical chunks, and the thinking
  fragments exactly their concatenated reasoning, however text, reasoning and tool calls interleave.\<close>

lemma anthropic_stream_keeps_text:
  "concat (map event_text (anthropic_stream num_text model lines)) =
     concat (map chunk_content (chunks_in (payload_lines lines))) \<and>
   concat (map event_thinking (anthropic_stream num_text model lines)) =
     concat (map chunk_reasoning (chunks_in (payload_lines lines)))"
proof -
  have "an_paired an_init" by (simp add: an_paired_def an_init_def)
  then show ?thesis
    using carries_andThen [OF carries_lines [of num_text model "payload_lines lines"] carries_finalize [of model]]
    by (auto simp: carries_def anthropic_stream_def run_stream_def forEach_lines)
qed

end
