(* ===== verification/Grouping.thy ===== *)
theory Grouping
  imports Prelude "HOL-Library.Multiset"
begin

text \<open>
  The idiom \<open>let v = map.get(k); if (v === undefined) { v = fresh; map.set(k, v) }; update v\<close>, used
  wherever streamed fragments are merged by index, and the list such a map becomes when its values
  are sorted by that index.
\<close>

definition merge_at ::
  "('x \<Rightarrow> 'k) \<Rightarrow> ('k \<Rightarrow> 'v) \<Rightarrow> ('x \<Rightarrow> 'v \<Rightarrow> 'v) \<Rightarrow> ('k, 'v) jmap \<Rightarrow> 'x \<Rightarrow> ('k, 'v) jmap" where
  "merge_at key fresh upd m x =
     (let m1 = (if jm_has m (key x) then m else jm_set m (key x) (fresh (key x)))
      in jm_modify m1 (key x) (upd x))"

definition merge_all ::
  "('x \<Rightarrow> 'k) \<Rightarrow> ('k \<Rightarrow> 'v) \<Rightarrow> ('x \<Rightarrow> 'v \<Rightarrow> 'v) \<Rightarrow> 'x list \<Rightarrow> ('k, 'v) jmap" where
  "merge_all key fresh upd xs = foldl (merge_at key fresh upd) [] xs"

text \<open>What the fragments of one key amount to.\<close>

definition merged :: "('x \<Rightarrow> 'k) \<Rightarrow> ('k \<Rightarrow> 'v) \<Rightarrow> ('x \<Rightarrow> 'v \<Rightarrow> 'v) \<Rightarrow> 'x list \<Rightarrow> 'k \<Rightarrow> 'v" where
  "merged key fresh upd xs k = foldl (\<lambda>v x. upd x v) (fresh k) (filter (\<lambda>x. key x = k) xs)"

lemma merge_at_get:
  "jm_get (merge_at key fresh upd m x) k =
     (if k = key x then Some (upd x (case jm_get m k of Some v \<Rightarrow> v | None \<Rightarrow> fresh k)) else jm_get m k)"
  by (auto simp: merge_at_def Let_def)

lemma merge_all_get:
  "jm_get (merge_all key fresh upd xs) k =
     (if k \<in> set (map key xs) then Some (merged key fresh upd xs k) else None)"
proof (induction xs rule: rev_induct)
  case Nil
  show ?case by (simp add: merge_all_def)
next
  case (snoc x xs)
  have "merged key fresh upd xs k = fresh k" if "k \<notin> set (map key xs)"
  proof -
    have "filter (\<lambda>x. key x = k) xs = []"
      using that by (auto simp: filter_empty_conv)
    then show ?thesis by (simp add: merged_def)
  qed
  with snoc show ?case
    by (cases "k = key x"; cases "k \<in> set (map key xs)")
      (auto simp: merge_all_def merge_at_get merged_def)
qed

lemma merge_all_ok: "jm_ok (merge_all key fresh upd xs)"
  by (induction xs rule: rev_induct) (simp_all add: merge_all_def merge_at_def Let_def)

lemma merge_all_keys: "set (map fst (merge_all key fresh upd xs)) = set (map key xs)"
proof -
  have "i \<in> set (map fst (merge_all key fresh upd xs)) \<longleftrightarrow> jm_get (merge_all key fresh upd xs) i \<noteq> None" for i
    by (simp add: map_of_eq_None_iff)
  then show ?thesis
    by (intro set_eqI) (simp only: merge_all_get if_split, simp)
qed

lemma merge_all_entry:
  "(k, v) \<in> set (merge_all key fresh upd xs) \<Longrightarrow> v = merged key fresh upd xs k"
  using merge_all_ok [of key fresh upd xs] merge_all_get [of key fresh upd xs k]
  by (simp split: if_splits)

lemma merge_all_empty: "merge_all key fresh upd xs = [] \<longleftrightarrow> xs = []"
  using merge_all_keys [of key fresh upd xs] by auto

text \<open>Sorted by key, the entries are the merged values in increasing key order.\<close>

lemma merge_all_sorted:
  fixes key :: "'x \<Rightarrow> 'k :: linorder"
  shows "sort_key fst (merge_all key fresh upd xs) =
    map (\<lambda>k. (k, merged key fresh upd xs k)) (sorted_list_of_set (set (map key xs)))"
proof -
  let ?m = "merge_all key fresh upd xs"
  have keys: "map fst (sort_key fst ?m) = sorted_list_of_set (set (map key xs))"
  proof (rule sorted_distinct_set_unique)
    show "sorted (map fst (sort_key fst ?m))" by simp
    have "mset (map fst (sort_key fst ?m)) = mset (map fst ?m)"
      by (simp only: mset_map mset_sort)
    then show "distinct (map fst (sort_key fst ?m))"
      using merge_all_ok mset_eq_imp_distinct_iff by blast
    show "set (map fst (sort_key fst ?m)) = set (sorted_list_of_set (set (map key xs)))"
      using merge_all_keys [of key fresh upd xs] by simp
  qed simp_all
  have "sort_key fst ?m = map (\<lambda>k. (k, merged key fresh upd xs k)) (map fst (sort_key fst ?m))"
    unfolding map_map
    by (rule sym, rule map_idI) (use merge_all_entry [of _ _ key fresh upd xs] in auto)
  with keys show ?thesis by simp
qed

lemma insort_key_cong:
  "(\<And>y. y \<in> set (x # xs) \<Longrightarrow> f y = g y) \<Longrightarrow> insort_key f x xs = insort_key g x xs"
  by (induction xs) auto

lemma sort_key_cong: "(\<And>x. x \<in> set xs \<Longrightarrow> f x = g x) \<Longrightarrow> sort_key f xs = sort_key g xs"
proof (induction xs)
  case (Cons x xs)
  then show ?case
    using insort_key_cong [of x "sort_key g xs" f g] by simp
qed simp

lemma insort_key_map: "map h (insort_key (\<lambda>x. f (h x)) x xs) = insort_key f (h x) (map h xs)"
  by (induction xs) simp_all

lemma sort_key_map: "map h (sort_key (\<lambda>x. f (h x)) xs) = sort_key f (map h xs)"
  by (induction xs) (simp_all add: insort_key_map)

text \<open>The same when the values carry their key and are sorted by it.\<close>

lemma merge_all_values_sorted:
  fixes key :: "'x \<Rightarrow> 'k :: linorder"
  assumes "\<And>k. index (fresh k) = k" "\<And>x v. index (upd x v) = index v"
  shows "sort_key index (jm_values (merge_all key fresh upd xs)) =
    map (merged key fresh upd xs) (sorted_list_of_set (set (map key xs)))"
proof -
  let ?m = "merge_all key fresh upd xs"
  have "index (foldl (\<lambda>v x. upd x v) v ys) = index v" for v ys
    by (induction ys arbitrary: v) (simp_all add: assms(2))
  then have "index (merged key fresh upd xs k) = k" for k
    by (simp add: merged_def assms(1))
  then have "index (snd e) = fst e" if "e \<in> set ?m" for e
    using merge_all_entry [of "fst e" "snd e" key fresh upd xs] that by simp
  then have "sort_key (\<lambda>e. index (snd e)) ?m = sort_key fst ?m"
    by (rule sort_key_cong)
  moreover have "map snd (sort_key (\<lambda>e. index (snd e)) ?m) = sort_key index (map snd ?m)"
    by (rule sort_key_map)
  ultimately show ?thesis
    using merge_all_sorted [of key fresh upd xs] by (simp add: comp_def)
qed

end
