(* ===== verification/Accumulate.thy ===== *)
theory Accumulate
  imports StreamTranslate Grouping
begin

text \<open>
  \<open>StreamAccumulator\<close> of \<open>packages/core/src/accumulate.ts\<close>, which rebuilds the full assistant message
  from streamed chunks, and the passive tap \<open>withStreamCompletion\<close> of \<open>stream.ts\<close>. Unlike the edge
  translators this code tests the type of every field, so it reads the parsed JSON itself.
\<close>

section \<open>The message under reconstruction\<close>

record acc_call =
  ac_index :: rat
  ac_id :: "jtext option"
  ac_name :: jtext
  ac_arguments :: jtext

record acc_detail =
  ad_index :: rat
  ad_type :: "jtext option"
  ad_id :: "jtext option"
  ad_text :: "jtext option"
  ad_signature :: "jtext option"
  ad_summary :: "jtext option"
  ad_data :: "jtext option"

record acc_usage =
  au_prompt :: rat
  au_completion :: rat
  au_total :: rat

record accumulator =
  ac_content :: jtext
  ac_refusal :: "jtext option"
  ac_reasoning :: "jtext option"
  ac_details :: "(rat, acc_detail) jmap"
  ac_calls :: "(rat, acc_call) jmap"
  ac_finish :: "jtext option"
  ac_usage :: "acc_usage option"
  ac_envelope_id :: "jtext option"
  ac_model :: "jtext option"
  ac_created :: "rat option"

definition acc_new :: accumulator where
  "acc_new = \<lparr>ac_content = [], ac_refusal = None, ac_reasoning = None, ac_details = [], ac_calls = [],
     ac_finish = None, ac_usage = None, ac_envelope_id = None, ac_model = None, ac_created = None\<rparr>"

text \<open>\<open>v !== null && typeof v === "object"\<close>; arrays are objects too.\<close>

definition is_object :: "jtext json option \<Rightarrow> bool" where
  "is_object v = (case v of Some (JObj _) \<Rightarrow> True | Some (JArr _) \<Rightarrow> True | _ \<Rightarrow> False)"

definition array_of :: "jtext json option \<Rightarrow> jtext json list" where
  "array_of v = (case v of Some (JArr xs) \<Rightarrow> xs | _ \<Rightarrow> [])"

definition nonempty_string :: "jtext json option \<Rightarrow> jtext option" where
  "nonempty_string v = truthy_text (json_string v)"

definition or_else :: "'a option \<Rightarrow> 'a option \<Rightarrow> 'a option" where
  "or_else a b = (case a of Some x \<Rightarrow> Some x | None \<Rightarrow> b)"

text \<open>\<open>(old ?? "") + fragment\<close>, when there is a non-empty fragment.\<close>

definition append_text :: "jtext option \<Rightarrow> jtext option \<Rightarrow> jtext option" where
  "append_text old new =
     (case new of None \<Rightarrow> old | Some t \<Rightarrow> Some ((case old of Some o1 \<Rightarrow> o1 | None \<Rightarrow> []) @ t))"

definition delta_index :: "jtext json \<Rightarrow> rat" where
  "delta_index d = (case json_number (opt_field (Some d) ''index'') of Some i \<Rightarrow> i | None \<Rightarrow> 0)"

section \<open>Merging\<close>

definition fresh_call :: "rat \<Rightarrow> acc_call" where
  "fresh_call i = \<lparr>ac_index = i, ac_id = None, ac_name = [], ac_arguments = []\<rparr>"

definition merge_call :: "jtext json \<Rightarrow> acc_call \<Rightarrow> acc_call" where
  "merge_call d call =
     (let fn = opt_field (Some d) ''function'';
          call1 = call\<lparr>ac_id := or_else (ac_id call) (nonempty_string (opt_field (Some d) ''id''))\<rparr>
      in if is_object fn then
           call1\<lparr>ac_name := (if ac_name call1 = []
                             then (case nonempty_string (opt_field fn ''name'') of Some n \<Rightarrow> n | None \<Rightarrow> [])
                             else ac_name call1),
                 ac_arguments := ac_arguments call1 @ text_value (opt_field fn ''arguments'')\<rparr>
         else call1)"

definition mergeToolCalls :: "(rat, acc_call) jmap \<Rightarrow> jtext json list \<Rightarrow> (rat, acc_call) jmap" where
  "mergeToolCalls calls deltas =
     foldl (merge_at delta_index fresh_call merge_call) calls (filter (\<lambda>d. is_object (Some d)) deltas)"

definition fresh_detail :: "rat \<Rightarrow> acc_detail" where
  "fresh_detail i = \<lparr>ad_index = i, ad_type = None, ad_id = None, ad_text = None, ad_signature = None,
     ad_summary = None, ad_data = None\<rparr>"

definition merge_detail :: "jtext json \<Rightarrow> acc_detail \<Rightarrow> acc_detail" where
  "merge_detail d det =
     det\<lparr>ad_type := or_else (nonempty_string (opt_field (Some d) ''type'')) (ad_type det),
         ad_id := or_else (nonempty_string (opt_field (Some d) ''id'')) (ad_id det),
         ad_text := append_text (ad_text det) (nonempty_string (opt_field (Some d) ''text'')),
         ad_summary := append_text (ad_summary det) (nonempty_string (opt_field (Some d) ''summary'')),
         ad_data := append_text (ad_data det) (nonempty_string (opt_field (Some d) ''data'')),
         ad_signature := or_else (json_string (opt_field (Some d) ''signature'')) (ad_signature det)\<rparr>"

definition mergeReasoningDetails :: "(rat, acc_detail) jmap \<Rightarrow> jtext json list \<Rightarrow> (rat, acc_detail) jmap" where
  "mergeReasoningDetails details deltas =
     foldl (merge_at delta_index fresh_detail merge_detail) details (filter (\<lambda>d. is_object (Some d)) deltas)"

definition captureUsage :: "jtext json option \<Rightarrow> acc_usage option \<Rightarrow> acc_usage option" where
  "captureUsage usage old =
     (if \<not> is_object usage then old
      else let p = json_number (opt_field usage ''prompt_tokens'');
               c = json_number (opt_field usage ''completion_tokens'');
               t = json_number (opt_field usage ''total_tokens'');
               prompt = (case p of Some n \<Rightarrow> n | None \<Rightarrow> 0);
               completion = (case c of Some n \<Rightarrow> n | None \<Rightarrow> 0)
           in if p = None \<and> c = None \<and> t = None then old
              else Some \<lparr>au_prompt = prompt, au_completion = completion,
                         au_total = (case t of Some n \<Rightarrow> n | None \<Rightarrow> prompt + completion)\<rparr>)"

section \<open>Adding a chunk\<close>

definition acc_envelope :: "jtext json \<Rightarrow> accumulator \<Rightarrow> accumulator" where
  "acc_envelope chunk a =
     a\<lparr>ac_envelope_id := or_else (ac_envelope_id a) (nonempty_string (opt_field (Some chunk) ''id'')),
       ac_model := or_else (ac_model a) (nonempty_string (opt_field (Some chunk) ''model'')),
       ac_created := or_else (ac_created a) (json_number (opt_field (Some chunk) ''created'')),
       ac_usage := captureUsage (opt_field (Some chunk) ''usage'') (ac_usage a)\<rparr>"

definition acc_delta :: "jtext json option \<Rightarrow> accumulator \<Rightarrow> accumulator" where
  "acc_delta delta a =
     (if \<not> is_object delta then a
      else a\<lparr>ac_content := ac_content a @ text_value (opt_field delta ''content''),
             ac_refusal := append_text (ac_refusal a) (nonempty_string (opt_field delta ''refusal'')),
             ac_reasoning := append_text (ac_reasoning a) (nonempty_string (opt_field delta ''reasoning'')),
             ac_details := mergeReasoningDetails (ac_details a) (array_of (opt_field delta ''reasoning_details'')),
             ac_calls := mergeToolCalls (ac_calls a) (array_of (opt_field delta ''tool_calls''))\<rparr>)"

definition first_choice :: "jtext json \<Rightarrow> jtext json option" where
  "first_choice chunk =
     (case opt_field (Some chunk) ''choices'' of Some (JArr (c # _)) \<Rightarrow> Some c | _ \<Rightarrow> None)"

definition acc_choice :: "jtext json option \<Rightarrow> accumulator \<Rightarrow> accumulator" where
  "acc_choice choice a =
     (if \<not> is_object choice then a
      else acc_delta (opt_field choice ''delta'')
             (a\<lparr>ac_finish := or_else (nonempty_string (opt_field choice ''finish_reason'')) (ac_finish a)\<rparr>))"

definition acc_add :: "accumulator \<Rightarrow> jtext json \<Rightarrow> accumulator" where
  "acc_add a chunk =
     (if is_object (Some chunk) then acc_choice (first_choice chunk) (acc_envelope chunk a) else a)"

text \<open>An absent field of the result is \<^term>\<open>None\<close>; the two lists are absent when empty.\<close>

record message =
  ms_content :: jtext
  ms_refusal :: "jtext option"
  ms_reasoning :: "jtext option"
  ms_reasoning_details :: "acc_detail list"
  ms_tool_calls :: "acc_call list"
  ms_finish_reason :: "jtext option"
  ms_usage :: "acc_usage option"
  ms_id :: "jtext option"
  ms_model :: "jtext option"
  ms_created :: "rat option"

definition acc_result :: "accumulator \<Rightarrow> message" where
  "acc_result a =
     \<lparr>ms_content = ac_content a, ms_refusal = ac_refusal a, ms_reasoning = ac_reasoning a,
      ms_reasoning_details = sort_key ad_index (jm_values (ac_details a)),
      ms_tool_calls = sort_key ac_index (jm_values (ac_calls a)),
      ms_finish_reason = ac_finish a, ms_usage = ac_usage a, ms_id = ac_envelope_id a,
      ms_model = ac_model a, ms_created = ac_created a\<rparr>"

section \<open>The tap\<close>

text \<open>\<open>choices?.[0]\<close> also indexes a string, and reads the key \<open>"0"\<close> of an object; only the latter can
  have a delta. On \<open>null\<close> the first step throws, which the tap swallows after the chunk was added.\<close>

definition tap_content :: "jtext json \<Rightarrow> jtext" where
  "tap_content parsed =
     (let choices = opt_field (Some parsed) ''choices'';
          choice = (case choices of
              Some (JArr (c # _)) \<Rightarrow> Some c
            | Some (JObj fs) \<Rightarrow> jm_get fs (text_of ''0'')
            | _ \<Rightarrow> None)
      in text_value (opt_field (opt_field choice ''delta'') ''content''))"

record stream_tap =
  tp_decoder :: text_decoder
  tp_buffer :: jtext
  tp_text :: jtext
  tp_acc :: accumulator

definition tap_new :: stream_tap where
  "tap_new = \<lparr>tp_decoder = td_new, tp_buffer = [], tp_text = [], tp_acc = acc_new\<rparr>"

definition tap_account :: "jtext \<Rightarrow> jtext \<times> accumulator \<Rightarrow> jtext \<times> accumulator" where
  "tap_account payload = (\<lambda>(t, a).
     (case json_parse payload of
        None \<Rightarrow> (t, a)
      | Some parsed \<Rightarrow> (t @ tap_content parsed, acc_add a parsed)))"

definition tap_line :: "jtext \<times> accumulator \<Rightarrow> jtext \<Rightarrow> jtext \<times> accumulator" where
  "tap_line ta line =
     (if take 6 line = text_of ''data: '' then tap_account (drop 6 line) ta else ta)"

text \<open>The client gets the chunk itself; complete lines are accounted, the rest stays in the buffer.\<close>

definition tap_transform :: "stream_tap \<Rightarrow> byte list \<Rightarrow> stream_tap \<times> byte list" where
  "tap_transform s chunk =
     (let (d, out) = td_decode (tp_decoder s) chunk;
          lines = split_lines (tp_buffer s @ out);
          (t, a) = foldl tap_line (tp_text s, tp_acc s) (butlast lines)
      in (\<lparr>tp_decoder = d, tp_buffer = last lines, tp_text = t, tp_acc = a\<rparr>, chunk))"

definition tap_flush :: "stream_tap \<Rightarrow> jtext \<times> message" where
  "tap_flush s =
     (let (t, a) = tap_line (tp_text s, tp_acc s) (tp_buffer s @ td_flush (tp_decoder s))
      in (t, acc_result a))"

fun tap_run :: "stream_tap \<Rightarrow> byte list list \<Rightarrow> stream_tap \<times> byte list list" where
  "tap_run s [] = (s, [])"
| "tap_run s (c # cs) =
     (let (s1, out) = tap_transform s c; (s2, outs) = tap_run s1 cs in (s2, out # outs))"

text \<open>What the client receives and what \<open>onComplete\<close> is called with.\<close>

definition withStreamCompletion :: "byte list list \<Rightarrow> byte list list \<times> jtext \<times> message" where
  "withStreamCompletion chunks = (let (s, outs) = tap_run tap_new chunks in (outs, tap_flush s))"

section \<open>The tap neither changes nor depends on how the stream is cut\<close>

definition accounted :: "jtext \<Rightarrow> jtext \<times> accumulator" where
  "accounted s = foldl tap_line ([], acc_new) (butlast (split_lines s))"

text \<open>The tap's state after the bytes decoded to \<open>s\<close>.\<close>

definition tap_at :: "text_decoder \<Rightarrow> jtext \<Rightarrow> stream_tap" where
  "tap_at d s = \<lparr>tp_decoder = d, tp_buffer = last (split_lines s),
     tp_text = fst (accounted s), tp_acc = snd (accounted s)\<rparr>"

lemma split_lines_continue:
  "split_lines (last (split_lines s) @ t) =
     (last (split_lines s) @ hd (split_lines t)) # tl (split_lines t)"
  using split_lines_last [of s] by (simp add: split_lines_append split_lines_line)

lemma accounted_append:
  "accounted (s @ t) = foldl tap_line (accounted s) (butlast (split_lines (last (split_lines s) @ t)))"
  unfolding accounted_def split_lines_append [of s t] split_lines_continue by (simp add: butlast_append)

lemma split_lines_last_append: "last (split_lines (last (split_lines s) @ t)) = last (split_lines (s @ t))"
  unfolding split_lines_append [of s t] split_lines_continue by simp

lemma tap_transform_at:
  "td_decode d c = (d1, out) \<Longrightarrow> tap_transform (tap_at d s) c = (tap_at d1 (s @ out), c)"
  using accounted_append [of s out]
  by (simp add: tap_transform_def tap_at_def Let_def split_lines_last_append case_prod_unfold)

lemma tap_run_at:
  "td_decode d (concat chunks) = (d1, out) \<Longrightarrow> tap_run (tap_at d s) chunks = (tap_at d1 (s @ out), chunks)"
proof (induction chunks arbitrary: d s out)
  case Nil
  then show ?case by (simp add: td_decode_def td_emit_def)
next
  case (Cons c cs)
  obtain d2 o2 where c: "td_decode d c = (d2, o2)" by (cases "td_decode d c")
  obtain o3 where rest: "td_decode d2 (concat cs) = (d1, o3)" "out = o2 @ o3"
    using Cons.prems c by (auto simp: td_decode_append prod_eq_iff)
  show ?case
    using Cons.IH [OF rest(1), of "s @ o2"] rest(2) by (simp add: tap_transform_at [OF c])
qed

lemma td_flush_decode:
  assumes "td_decode td_new bs = (d, out)"
  shows "out @ td_flush d = utf8_decode bs"
proof -
  obtain s o1 where r: "utf8_run Start bs = (s, o1)" by (cases "utf8_run Start bs")
  have "utf8_finish s = [] \<or> utf8_finish s = [replacement]"
    by (cases s) (simp_all add: utf8_finish_def)
  with r assms show ?thesis
    by (cases o1) (auto simp: td_decode_def td_new_def td_emit_def td_flush_def utf8_decode_def strip_bom_def replacement_def)
qed

lemma utf8_finish_line: "10 \<notin> set (td_flush d)"
  by (cases "td_state d") (auto simp: td_flush_def td_emit_def utf8_finish_def strip_bom_def replacement_def)

text \<open>C26: The completion tap is passive and sees whole lines only. The client receives exactly the chunks
  of the provider, and \<open>onComplete\<close> gets what accounting every line of the whole decoded body in order
  yields, the last unterminated one included: nothing depends on where the network cut the bytes, not
  even in the middle of a character or a line.\<close>

lemma tap_is_passive_and_whole:
  "withStreamCompletion chunks =
     (chunks,
      let (t, a) = foldl tap_line ([], acc_new) (split_lines (utf8_decode (concat chunks)))
      in (t, acc_result a))"
proof -
  obtain d out where d: "td_decode td_new (concat chunks) = (d, out)"
    by (cases "td_decode td_new (concat chunks)")
  have new: "tap_new = tap_at td_new []"
    by (simp add: tap_new_def tap_at_def accounted_def)
  have run: "tap_run tap_new chunks = (tap_at d out, chunks)"
    using tap_run_at [OF d, of "[]"] by (simp add: new)
  have lines: "split_lines (out @ td_flush d) =
      butlast (split_lines out) @ [last (split_lines out) @ td_flush d]"
    using utf8_finish_line [of d] by (simp add: split_lines_append split_lines_line)
  then have "foldl tap_line ([], acc_new) (split_lines (utf8_decode (concat chunks))) =
      tap_line (accounted out) (last (split_lines out) @ td_flush d)"
    by (simp add: td_flush_decode [OF d, symmetric] accounted_def)
  then show ?thesis
    by (simp add: withStreamCompletion_def run tap_flush_def tap_at_def)
qed

section \<open>The rebuilt message\<close>

text \<open>The delta of a chunk, when chunk, choice and delta are objects.\<close>

definition delta_of :: "jtext json \<Rightarrow> jtext json option" where
  "delta_of chunk =
     (let choice = first_choice chunk; delta = opt_field choice ''delta''
      in if is_object (Some chunk) \<and> is_object choice \<and> is_object delta then delta else None)"

definition content_of :: "jtext json \<Rightarrow> jtext" where
  "content_of chunk = text_value (opt_field (delta_of chunk) ''content'')"

definition calls_of :: "jtext json \<Rightarrow> jtext json list" where
  "calls_of chunk = filter (\<lambda>d. is_object (Some d)) (array_of (opt_field (delta_of chunk) ''tool_calls''))"

lemma acc_add_effect:
  "ac_content (acc_add a chunk) = ac_content a @ content_of chunk"
  "ac_calls (acc_add a chunk) = foldl (merge_at delta_index fresh_call merge_call) (ac_calls a) (calls_of chunk)"
  by (auto simp: acc_add_def acc_choice_def acc_delta_def acc_envelope_def content_of_def calls_of_def
      delta_of_def Let_def mergeToolCalls_def opt_field_def array_of_def text_value_def json_string_def
      split: option.split)

lemma acc_fold_effect:
  "ac_content (foldl acc_add a chunks) = ac_content a @ concat (map content_of chunks) \<and>
   ac_calls (foldl acc_add a chunks) =
     foldl (merge_at delta_index fresh_call merge_call) (ac_calls a) (concat (map calls_of chunks))"
  by (induction chunks arbitrary: a) (simp_all add: acc_add_effect)

definition first_string :: "string \<Rightarrow> jtext json list \<Rightarrow> (jtext json \<Rightarrow> jtext json option) \<Rightarrow> jtext option" where
  "first_string k ds obj =
     (case List.map_filter (\<lambda>d. nonempty_string (opt_field (obj d) k)) ds of s # _ \<Rightarrow> Some s | [] \<Rightarrow> None)"

definition call_function :: "jtext json \<Rightarrow> jtext json option" where
  "call_function d = (let fn = opt_field (Some d) ''function'' in if is_object fn then fn else None)"

definition rebuilt_call :: "jtext json list \<Rightarrow> rat \<Rightarrow> acc_call" where
  "rebuilt_call ds i =
     \<lparr>ac_index = i, ac_id = first_string ''id'' ds Some,
      ac_name = (case first_string ''name'' ds call_function of Some n \<Rightarrow> n | None \<Rightarrow> []),
      ac_arguments = concat (map (\<lambda>d. text_value (opt_field (call_function d) ''arguments'')) ds)\<rparr>"

lemma nonempty_string_nonempty: "nonempty_string v = Some s \<Longrightarrow> s \<noteq> []"
  by (auto simp: nonempty_string_def truthy_text_def split: option.splits if_splits)

lemma opt_field_None [simp]: "opt_field None k = None"
  by (simp add: opt_field_def)

lemma nonempty_None [simp]: "nonempty_string None = None" "text_value None = []"
  by (simp_all add: nonempty_string_def truthy_text_def json_string_def text_value_def)

lemma first_string_snoc:
  "first_string k (ds @ [d]) obj = or_else (first_string k ds obj) (nonempty_string (opt_field (obj d) k))"
  by (auto simp: first_string_def or_else_def map_filter_def split: list.split option.split)

lemma first_string_nonempty: "first_string k ds obj = Some s \<Longrightarrow> s \<noteq> []"
proof (induction ds rule: rev_induct)
  case Nil
  then show ?case by (simp add: first_string_def map_filter_def)
next
  case (snoc d ds)
  then show ?case
    by (auto simp: first_string_snoc or_else_def dest: nonempty_string_nonempty split: option.splits)
qed

lemma merge_calls_fold:
  "foldl (\<lambda>c d. merge_call d c) (fresh_call i) ds = rebuilt_call ds i"
proof (induction ds rule: rev_induct)
  case Nil
  show ?case by (simp add: fresh_call_def rebuilt_call_def first_string_def map_filter_def)
next
  case (snoc d ds)
  have "(case first_string ''name'' ds call_function of Some n \<Rightarrow> n | None \<Rightarrow> []) = [] \<longleftrightarrow>
      first_string ''name'' ds call_function = None"
    using first_string_nonempty by (auto split: option.split)
  with snoc show ?case
    by (auto simp: merge_call_def rebuilt_call_def first_string_snoc or_else_def Let_def call_function_def
        split: option.split)
qed


end
