(* ===== verification/Plugins.thy ===== *)
theory Plugins
  imports Effects Accumulate
begin

text \<open>
  The plugin lifecycle of \<open>packages/plugins/src/lifecycle.ts\<close>. Hooks are arguments that act on the
  world and may throw; requests, responses and the raw HTTP values are type variables.
\<close>

record mcp_call =
  mc_name :: jtext
  mc_arguments :: "jtext json"

record mcp_result =
  mr_name :: jtext
  mr_result :: jtext
  mr_isError :: bool

record ('w, 'rq, 'rs, 'hq, 'hs) plugin =
  pl_name :: jtext
  onPreRequest :: "('rq \<Rightarrow> ('w, 'rq) io) option"
  onRequestShortCircuit :: "('rq \<Rightarrow> ('w, 'rs option) io) option"
  onPostRequest :: "('rs \<Rightarrow> ('w, 'rs) io) option"
  onTransportPre :: "('hq \<Rightarrow> ('w, 'hq) io) option"
  onTransportPost :: "('hs \<Rightarrow> ('w, 'hs) io) option"
  onMCPPre :: "(mcp_call \<Rightarrow> ('w, mcp_call) io) option"
  onMCPPost :: "(mcp_result \<Rightarrow> ('w, mcp_result) io) option"
  onStreamComplete :: "(jtext \<Rightarrow> message option \<Rightarrow> ('w, unit) io) option"

type_synonym ('w, 'rq, 'rs, 'hq, 'hs) plugins = "('w, 'rq, 'rs, 'hq, 'hs) plugin list"

definition pl_register ::
  "('w, 'rq, 'rs, 'hq, 'hs) plugin \<Rightarrow> ('w, 'rq, 'rs, 'hq, 'hs) plugins \<Rightarrow> ('w, 'rq, 'rs, 'hq, 'hs) plugins" where
  "pl_register p ps = ps @ [p]"

definition pl_list :: "('w, 'rq, 'rs, 'hq, 'hs) plugins \<Rightarrow> jtext list" where
  "pl_list ps = map pl_name ps"

text \<open>A plugin without the hook leaves the value alone.\<close>

definition apply_hook :: "('a \<Rightarrow> ('w, 'a) io) option \<Rightarrow> 'a \<Rightarrow> ('w, 'a) io" where
  "apply_hook h v = (case h of Some f \<Rightarrow> f v | None \<Rightarrow> io_return v)"

definition foldForward :: "('p \<Rightarrow> ('a \<Rightarrow> ('w, 'a) io) option) \<Rightarrow> 'p list \<Rightarrow> 'a \<Rightarrow> ('w, 'a) io" where
  "foldForward hook ps = io_fold (\<lambda>p. apply_hook (hook p)) ps"

definition foldReverse :: "('p \<Rightarrow> ('a \<Rightarrow> ('w, 'a) io) option) \<Rightarrow> 'p list \<Rightarrow> 'a \<Rightarrow> ('w, 'a) io" where
  "foldReverse hook ps = io_fold (\<lambda>p. apply_hook (hook p)) (rev ps)"

definition executePreHooks :: "('w, 'rq, 'rs, 'hq, 'hs) plugins \<Rightarrow> 'rq \<Rightarrow> ('w, 'rq) io" where
  "executePreHooks = foldForward onPreRequest"

definition executePostHooks :: "('w, 'rq, 'rs, 'hq, 'hs) plugins \<Rightarrow> 'rs \<Rightarrow> ('w, 'rs) io" where
  "executePostHooks = foldReverse onPostRequest"

definition executeTransportPre :: "('w, 'rq, 'rs, 'hq, 'hs) plugins \<Rightarrow> 'hq \<Rightarrow> ('w, 'hq) io" where
  "executeTransportPre = foldForward onTransportPre"

definition executeTransportPost :: "('w, 'rq, 'rs, 'hq, 'hs) plugins \<Rightarrow> 'hs \<Rightarrow> ('w, 'hs) io" where
  "executeTransportPost = foldReverse onTransportPost"

definition executeMCPPre :: "('w, 'rq, 'rs, 'hq, 'hs) plugins \<Rightarrow> mcp_call \<Rightarrow> ('w, mcp_call) io" where
  "executeMCPPre = foldForward onMCPPre"

definition executeMCPPost :: "('w, 'rq, 'rs, 'hq, 'hs) plugins \<Rightarrow> mcp_result \<Rightarrow> ('w, mcp_result) io" where
  "executeMCPPost = foldReverse onMCPPost"

fun executeShortCircuit :: "('w, 'rq, 'rs, 'hq, 'hs) plugins \<Rightarrow> 'rq \<Rightarrow> ('w, 'rs option) io" where
  "executeShortCircuit [] req = io_return None"
| "executeShortCircuit (p # ps) req =
     (case onRequestShortCircuit p of
        None \<Rightarrow> executeShortCircuit ps req
      | Some h \<Rightarrow>
          io_bind (h req) (\<lambda>short.
            case short of Some res \<Rightarrow> io_return (Some res) | None \<Rightarrow> executeShortCircuit ps req))"

text \<open>Completion hooks observe: a failing one is logged and the next still runs.\<close>

fun executeStreamComplete :: "('w, 'rq, 'rs, 'hq, 'hs) plugins \<Rightarrow> jtext \<Rightarrow> message option \<Rightarrow> ('w, unit) io" where
  "executeStreamComplete [] t m = io_return ()"
| "executeStreamComplete (p # ps) t m =
     (case onStreamComplete p of
        None \<Rightarrow> executeStreamComplete ps t m
      | Some h \<Rightarrow> io_bind (io_catch (h t m) (\<lambda>e. io_return ())) (\<lambda>_. executeStreamComplete ps t m))"

section \<open>The onion\<close>

lemma short_circuit_append:
  "executeShortCircuit (ps @ qs) req =
     io_bind (executeShortCircuit ps req)
       (\<lambda>short. case short of Some res \<Rightarrow> io_return (Some res) | None \<Rightarrow> executeShortCircuit qs req)"
proof (induction ps)
  case (Cons p ps)
  show ?case
  proof (cases "onRequestShortCircuit p")
    case None
    with Cons show ?thesis by simp
  next
    case (Some h)
    have step: "(case short of Some res \<Rightarrow> io_return (Some res) | None \<Rightarrow> executeShortCircuit (ps @ qs) req) =
        io_bind (case short of Some res \<Rightarrow> io_return (Some res) | None \<Rightarrow> executeShortCircuit ps req)
          (\<lambda>short. case short of Some res \<Rightarrow> io_return (Some res) | None \<Rightarrow> executeShortCircuit qs req)" for short
      using Cons by (simp split: option.split)
    show ?thesis
      unfolding append_Cons executeShortCircuit.simps Some option.case bind_assoc
      by (rule bind_cong [OF refl]) (rule step)
  qed
qed simp

lemma foldForward_register:
  "foldForward hook (ps @ [p]) v = io_bind (foldForward hook ps v) (apply_hook (hook p))"
proof -
  have "io_fold (\<lambda>p. apply_hook (hook p)) [p] = apply_hook (hook p)"
    by (rule ext) simp
  then show ?thesis
    by (simp only: foldForward_def io_fold_append)
qed

lemma foldReverse_register:
  "foldReverse hook (ps @ [p]) v = io_bind (apply_hook (hook p) v) (foldReverse hook ps)"
  by (simp add: foldReverse_def)

text \<open>The worlds the completion hooks pass on, failed or not.\<close>

definition observe :: "jtext \<Rightarrow> message option \<Rightarrow> ('w, 'rq, 'rs, 'hq, 'hs) plugin \<Rightarrow> 'w \<Rightarrow> 'w" where
  "observe t m p w = (case onStreamComplete p of None \<Rightarrow> w | Some h \<Rightarrow> snd (h t m w))"

lemma stream_complete_all: "executeStreamComplete ps t m w = (Inr (), fold (observe t m) ps w)"
  by (induction ps arbitrary: w)
    (auto simp: observe_def io_return_def io_bind_def io_catch_def split: option.split prod.split sum.split)

text \<open>Plugins form an onion. Registering a plugin makes it the innermost layer: its pre-hooks run last
  and its post-hooks first, for the request, the raw transport and MCP calls alike; it can only
  short-circuit requests that every earlier plugin let through; and on stream completion every hook
  runs, in registration order, whatever the others throw.\<close>

lemma plugin_onion:
  "executePreHooks (pl_register p ps) rq = io_bind (executePreHooks ps rq) (apply_hook (onPreRequest p)) \<and>
   executePostHooks (pl_register p ps) rs = io_bind (apply_hook (onPostRequest p) rs) (executePostHooks ps) \<and>
   executeTransportPre (pl_register p ps) hq = io_bind (executeTransportPre ps hq) (apply_hook (onTransportPre p)) \<and>
   executeTransportPost (pl_register p ps) hs = io_bind (apply_hook (onTransportPost p) hs) (executeTransportPost ps) \<and>
   executeMCPPre (pl_register p ps) c = io_bind (executeMCPPre ps c) (apply_hook (onMCPPre p)) \<and>
   executeMCPPost (pl_register p ps) r = io_bind (apply_hook (onMCPPost p) r) (executeMCPPost ps) \<and>
   executeShortCircuit (pl_register p ps) rq =
     io_bind (executeShortCircuit ps rq)
       (\<lambda>short. case short of Some res \<Rightarrow> io_return (Some res) | None \<Rightarrow> executeShortCircuit [p] rq) \<and>
   executeStreamComplete (pl_register p ps) t m w =
     (Inr (), observe t m p (snd (executeStreamComplete ps t m w)))"
proof -
  show ?thesis
    unfolding pl_register_def executePreHooks_def executePostHooks_def executeTransportPre_def
      executeTransportPost_def executeMCPPre_def executeMCPPost_def
    by (intro conjI foldForward_register foldReverse_register short_circuit_append)
      (simp add: stream_complete_all)
qed

end
