(* ===== verification/ToolLoop.thy ===== *)
theory ToolLoop
  imports Plugins
begin

text \<open>
  The multi-turn tool orchestration of \<open>packages/core/src/orchestrator.ts\<close>. The upstream dispatch, the
  tool executor and the plugin boundaries are effectful arguments. Messages are the JSON objects the
  clients and models exchange; an absent message reads as \<open>null\<close>.
\<close>

section \<open>Interfaces\<close>

type_synonym 'w tool_fun = "jtext json \<Rightarrow> ('w, jtext) io"

record 'w resolved_tool =
  rt_isSideEffect :: bool
  rt_execute :: "'w tool_fun"

text \<open>The synchronous methods read the world the call happens in.\<close>

record 'w tool_executor =
  ex_has :: "'w \<Rightarrow> jtext \<Rightarrow> bool"
  ex_isSideEffect :: "'w \<Rightarrow> jtext \<Rightarrow> bool"
  ex_execute :: "jtext \<Rightarrow> 'w tool_fun"
  ex_resolve :: "('w \<Rightarrow> jtext \<Rightarrow> 'w resolved_tool option) option"

record 'w loop_options =
  lo_maxTurns :: "int option"
  lo_sideEffectsConfirmed :: "bool option"
  lo_metaTools :: "(jtext, 'w tool_fun) jmap option"
  lo_onMCPPre :: "(mcp_call \<Rightarrow> ('w, mcp_call) io) option"
  lo_onMCPPost :: "(mcp_result \<Rightarrow> ('w, mcp_result) io) option"

record 'a chat_request =
  rq_messages :: "jtext json list"
  rq_stream :: bool
  rq_other :: 'a

record 'b chat_response =
  rp_choices :: "jtext json list"
  rp_other :: 'b

text \<open>\<open>rp_choices\<close> holds the message of each choice.\<close>

record tool_call =
  tl_id :: jtext
  tl_name :: jtext
  tl_arguments :: jtext

record 'b loop_result =
  lr_response :: "'b chat_response"
  lr_turns :: nat
  lr_executedTools :: "jtext list"

section \<open>Reading tool calls\<close>

text \<open>\<open>ToolCallSchema.safeParse\<close>.\<close>

definition parse_tool_call :: "jtext json \<Rightarrow> tool_call option" where
  "parse_tool_call raw =
     (let fn = opt_field (Some raw) ''function'' in
      case (json_string (opt_field (Some raw) ''id''), json_string (opt_field (Some raw) ''type''),
            json_string (opt_field fn ''name''), json_string (opt_field fn ''arguments'')) of
        (Some i, Some ty, Some n, Some a) \<Rightarrow>
          if ty = text_of ''function'' then Some \<lparr>tl_id = i, tl_name = n, tl_arguments = a\<rparr> else None
      | _ \<Rightarrow> None)"

definition message_calls :: "jtext json \<Rightarrow> tool_call list" where
  "message_calls m = List.map_filter parse_tool_call (array_of (opt_field (Some m) ''tool_calls''))"

definition extractToolCalls :: "'b chat_response \<Rightarrow> tool_call list" where
  "extractToolCalls response = concat (map message_calls (rp_choices response))"

section \<open>Answering one call\<close>

text \<open>\<open>String(err)\<close>.\<close>

fun thrown_text :: "thrown \<Rightarrow> jtext" where
  "thrown_text (SideEffectDenied n) =
     text_of ''SideEffectDeniedError: Tool \"'' @ n @
     text_of ''\" performs side effects and was not confirmed. Retry with explicit side-effect confirmation to execute it.''"
| "thrown_text (LoopExceeded n) =
     text_of ''ToolLoopExceededError: Tool orchestration exceeded the maximum of '' @ text_of (int_str n) @
     text_of '' turns.''"
| "thrown_text (AbortError m) = text_of ''AbortError: '' @ m"
| "thrown_text (OtherError m) = m"

definition error_json :: "jtext \<Rightarrow> jtext" where
  "error_json t = json_stringify (\<lambda>q. []) (jobj [(''error'', JStr t)])"

definition failure_json :: "thrown \<Rightarrow> jtext" where
  "failure_json e = error_json (text_of ''tool execution failed: '' @ thrown_text e)"

definition tool_message :: "jtext \<Rightarrow> jtext \<Rightarrow> jtext json" where
  "tool_message i content =
     jobj [(''role'', jt ''tool''), (''tool_call_id'', JStr i), (''content'', JStr content)]"

definition metaTools :: "'w loop_options \<Rightarrow> (jtext, 'w tool_fun) jmap" where
  "metaTools opts = (case lo_metaTools opts of Some m \<Rightarrow> m | None \<Rightarrow> [])"

definition confirmed :: "'w loop_options \<Rightarrow> bool" where
  "confirmed opts = (lo_sideEffectsConfirmed opts = Some True)"

definition gatewayOwns :: "'w loop_options \<Rightarrow> 'w tool_executor \<Rightarrow> 'w \<Rightarrow> jtext \<Rightarrow> bool" where
  "gatewayOwns opts ex w name \<longleftrightarrow> jm_has (metaTools opts) name \<or> ex_has ex w name"

definition applyPost :: "'w loop_options \<Rightarrow> jtext \<Rightarrow> jtext \<Rightarrow> bool \<Rightarrow> ('w, mcp_result) io" where
  "applyPost opts name result isError =
     apply_hook (lo_onMCPPost opts) \<lparr>mr_name = name, mr_result = result, mr_isError = isError\<rparr>"

text \<open>The state of a turn: the names executed so far and the transcript.\<close>

type_synonym loop_state = "jtext list \<times> jtext json list"

definition finish_call ::
  "'w loop_options \<Rightarrow> jtext \<Rightarrow> jtext \<Rightarrow> loop_state \<Rightarrow> jtext \<times> bool \<Rightarrow> ('w, loop_state) io" where
  "finish_call opts i name = (\<lambda>(executed, messages) (content, isError).
     io_bind (applyPost opts name content isError)
       (\<lambda>r. io_return (executed @ [name], messages @ [tool_message i (mr_result r)])))"

text \<open>A meta-tool: denials and aborts end the request, other failures become an error result.\<close>

definition run_meta :: "('w, jtext) io \<Rightarrow> ('w, jtext \<times> bool) io" where
  "run_meta m =
     io_catch (io_bind m (\<lambda>c. io_return (c, False)))
       (\<lambda>e. case e of
          SideEffectDenied n \<Rightarrow> io_throw e
        | AbortError t \<Rightarrow> io_throw e
        | _ \<Rightarrow> io_return (failure_json e, True))"

definition run_tool :: "('w, jtext) io \<Rightarrow> ('w, jtext \<times> bool) io" where
  "run_tool m =
     io_catch (io_bind m (\<lambda>c. io_return (c, False))) (\<lambda>e. io_return (failure_json e, True))"

text \<open>\<open>executor.resolve?.(name) ?? { isSideEffect, execute }\<close>, and the gate.\<close>

definition resolve_tool :: "'w tool_executor \<Rightarrow> 'w \<Rightarrow> jtext \<Rightarrow> 'w resolved_tool" where
  "resolve_tool ex w name =
     (case Option.bind (ex_resolve ex) (\<lambda>f. f w name) of
        Some t \<Rightarrow> t
      | None \<Rightarrow> \<lparr>rt_isSideEffect = ex_isSideEffect ex w name, rt_execute = ex_execute ex name\<rparr>)"

definition invoke_tool ::
  "'w loop_options \<Rightarrow> 'w tool_executor \<Rightarrow> jtext \<Rightarrow> jtext json \<Rightarrow> ('w, jtext \<times> bool) io" where
  "invoke_tool opts ex name args w =
     (let t = resolve_tool ex w name in
      if rt_isSideEffect t \<and> \<not> confirmed opts then io_throw (SideEffectDenied name) w
      else run_tool (rt_execute t args) w)"

definition parse_arguments :: "tool_call \<Rightarrow> jtext json option" where
  "parse_arguments call =
     json_parse (if tl_arguments call = [] then text_of ''{}'' else tl_arguments call)"

definition handle_call ::
  "'w loop_options \<Rightarrow> 'w tool_executor \<Rightarrow> tool_call \<Rightarrow> loop_state \<Rightarrow> ('w, loop_state) io" where
  "handle_call opts ex call st =
     (case parse_arguments call of
        None \<Rightarrow>
          finish_call opts (tl_id call) (tl_name call) st (error_json (text_of ''malformed tool arguments''), True)
      | Some args \<Rightarrow>
          io_bind (apply_hook (lo_onMCPPre opts) \<lparr>mc_name = tl_name call, mc_arguments = args\<rparr>)
            (\<lambda>tc. case jm_get (metaTools opts) (mc_name tc) of
                Some meta \<Rightarrow>
                  io_bind (run_meta (meta (mc_arguments tc))) (finish_call opts (tl_id call) (mc_name tc) st)
              | None \<Rightarrow>
                  io_bind (invoke_tool opts ex (mc_name tc) (mc_arguments tc))
                    (finish_call opts (tl_id call) (mc_name tc) st)))"

section \<open>The loop\<close>

definition maxTurns :: "'w loop_options \<Rightarrow> int" where
  "maxTurns opts = (case lo_maxTurns opts of Some n \<Rightarrow> n | None \<Rightarrow> 4)"

definition first_message :: "'b chat_response \<Rightarrow> jtext json" where
  "first_message response = (case rp_choices response of m # _ \<Rightarrow> m | [] \<Rightarrow> JNull)"

fun tool_turns ::
  "'a chat_request \<Rightarrow> ('a chat_request \<Rightarrow> ('w, 'b chat_response) io) \<Rightarrow> 'w tool_executor \<Rightarrow>
   'w loop_options \<Rightarrow> nat \<Rightarrow> nat \<Rightarrow> loop_state \<Rightarrow> ('w, 'b loop_result) io" where
  "tool_turns request dispatch ex opts 0 turn st = io_throw (LoopExceeded (maxTurns opts))"
| "tool_turns request dispatch ex opts (Suc n) turn (executed, messages) =
     io_bind (dispatch (request\<lparr>rq_messages := messages, rq_stream := False\<rparr>))
       (\<lambda>response w.
          let calls = extractToolCalls response in
          if calls = [] \<or> (\<exists>c \<in> set calls. \<not> gatewayOwns opts ex w (tl_name c))
          then io_return \<lparr>lr_response = response, lr_turns = turn, lr_executedTools = executed\<rparr> w
          else io_bind (io_fold (handle_call opts ex) calls (executed, messages @ [first_message response]))
                 (tool_turns request dispatch ex opts n (Suc turn)) w)"

definition runToolLoop ::
  "'a chat_request \<Rightarrow> ('a chat_request \<Rightarrow> ('w, 'b chat_response) io) \<Rightarrow> 'w tool_executor \<Rightarrow>
   'w loop_options \<Rightarrow> ('w, 'b loop_result) io" where
  "runToolLoop request dispatch ex opts =
     tool_turns request dispatch ex opts (nat (maxTurns opts)) 1 ([], rq_messages request)"

section \<open>Unconfirmed side effects do not happen\<close>

text \<open>The same executor, except that running a tool with side effects does something else entirely.\<close>

definition rearm :: "(jtext \<Rightarrow> 'w tool_fun) \<Rightarrow> 'w tool_executor \<Rightarrow> 'w tool_executor" where
  "rearm other ex =
     ex\<lparr>ex_execute := (\<lambda>n a w. if ex_isSideEffect ex w n then other n a w else ex_execute ex n a w),
        ex_resolve := map_option (\<lambda>f w n. map_option (\<lambda>t.
          if rt_isSideEffect t then t\<lparr>rt_execute := other n\<rparr> else t) (f w n)) (ex_resolve ex)\<rparr>"

lemma rearm_resolve:
  "rt_isSideEffect (resolve_tool (rearm other ex) w n) = rt_isSideEffect (resolve_tool ex w n)"
  "\<not> rt_isSideEffect (resolve_tool ex w n) \<Longrightarrow>
     rt_execute (resolve_tool (rearm other ex) w n) args w = rt_execute (resolve_tool ex w n) args w"
  by (auto simp: resolve_tool_def rearm_def split: option.splits bind_splits)

lemma rearm_invoke:
  "\<not> confirmed opts \<Longrightarrow> invoke_tool opts (rearm other ex) name args = invoke_tool opts ex name args"
  by (rule ext)
    (simp add: invoke_tool_def rearm_resolve Let_def run_tool_def io_catch_def io_bind_def)

lemma rearm_handle:
  assumes "\<not> confirmed opts"
  shows "handle_call opts (rearm other ex) = handle_call opts ex"
  unfolding handle_call_def [abs_def] rearm_invoke [OF assms] ..

lemma rearm_owns: "gatewayOwns opts (rearm other ex) = gatewayOwns opts ex"
  by (intro ext) (simp add: gatewayOwns_def rearm_def)

lemma rearm_turns:
  assumes "\<not> confirmed opts"
  shows "tool_turns request dispatch (rearm other ex) opts n turn st = tool_turns request dispatch ex opts n turn st"
proof (induction n arbitrary: turn st)
  case (Suc n)
  have "tool_turns request dispatch (rearm other ex) opts n turn = tool_turns request dispatch ex opts n turn" for turn
    by (rule ext) (rule Suc.IH)
  then show ?case
    by (cases st) (simp only: tool_turns.simps rearm_handle [OF assms] rearm_owns)
qed simp

text \<open>C13: Side effects need confirmation. Without an explicit confirmation the whole orchestration behaves
  the same whatever the tools that perform side effects would do, so none of them is ever executed:
  neither through \<open>resolve\<close> nor through the fallback, not after a plugin renamed the call, and not by
  a catalog that changes while the loop runs.\<close>

lemma unconfirmed_side_effects_never_run:
  assumes "lo_sideEffectsConfirmed opts \<noteq> Some True"
  shows "runToolLoop request dispatch ex opts = runToolLoop request dispatch (rearm other ex) opts"
proof -
  have "\<not> confirmed opts" using assms by (simp add: confirmed_def)
  then show ?thesis by (simp add: runToolLoop_def rearm_turns)
qed

section \<open>Every call is answered\<close>

text \<open>What a run returns, when it returns.\<close>

definition ensures :: "('w, 'a) io \<Rightarrow> ('a \<Rightarrow> bool) \<Rightarrow> bool" where
  "ensures m Q \<longleftrightarrow> (\<forall>w x w1. m w = (Inr x, w1) \<longrightarrow> Q x)"

lemma ensuresD: "ensures m Q \<Longrightarrow> m w = (Inr x, w1) \<Longrightarrow> Q x"
  unfolding ensures_def by blast

lemma ensures_return [simp]: "ensures (io_return x) Q \<longleftrightarrow> Q x"
  by (simp add: ensures_def io_return_def)

lemma ensures_bind: "ensures m P \<Longrightarrow> (\<And>x. P x \<Longrightarrow> ensures (k x) Q) \<Longrightarrow> ensures (io_bind m k) Q"
  by (fastforce simp: ensures_def io_bind_def split: prod.splits sum.splits)

lemma ensures_any: "(\<And>x. ensures (k x) Q) \<Longrightarrow> ensures (io_bind m k) Q"
  by (rule ensures_bind [where P = "\<lambda>x. True"]) (simp_all add: ensures_def)

lemma bind_cong_ensured:
  "ensures m P \<Longrightarrow> (\<And>x. P x \<Longrightarrow> k x = l x) \<Longrightarrow> io_bind m k = io_bind m l"
  by (rule ext) (auto simp: io_bind_def dest: ensuresD split: prod.split sum.split)

definition answer_id :: "jtext json \<Rightarrow> jtext option" where
  "answer_id m =
     (if json_string (opt_field (Some m) ''role'') = Some (text_of ''tool'')
      then json_string (opt_field (Some m) ''tool_call_id'') else None)"

lemma answer_id_tool_message [simp]: "answer_id (tool_message i c) = Some i"
  by (simp add: answer_id_def tool_message_def jobj_def jt_def opt_field_def json_field_def json_string_def)

definition answers :: "tool_call list \<Rightarrow> loop_state \<Rightarrow> loop_state \<Rightarrow> bool" where
  "answers calls = (\<lambda>(executed, messages) (executed', messages').
     \<exists>names replies. executed' = executed @ names \<and> length names = length calls \<and>
       messages' = messages @ replies \<and> map answer_id replies = map (\<lambda>c. Some (tl_id c)) calls)"

lemma finish_answers: "ensures (finish_call opts (tl_id call) name st c) (answers [call] st)"
  by (cases st; cases c)
    (auto simp: finish_call_def answers_def intro!: ensures_any)

lemma handle_answers: "ensures (handle_call opts ex call st) (answers [call] st)"
  unfolding handle_call_def
  by (auto intro!: finish_answers ensures_any split: option.split)

lemma calls_answered: "ensures (io_fold (handle_call opts ex) calls st) (answers calls st)"
proof (induction calls arbitrary: st)
  case Nil
  show ?case by (cases st) (simp add: answers_def)
next
  case (Cons call calls)
  have step: "answers [call] st st1 \<Longrightarrow> answers calls st1 st2 \<Longrightarrow> answers (call # calls) st st2" for st1 st2
    by (cases st; cases st1; cases st2) (force simp: answers_def)
  show ?case
    unfolding io_fold.simps
  proof (rule ensures_bind [OF handle_answers])
    fix st1 assume st1: "answers [call] st st1"
    show "ensures (io_fold (handle_call opts ex) calls st1) (answers (call # calls) st)"
      using Cons.IH [of st1] step [OF st1] by (simp add: ensures_def)
  qed
qed

text \<open>The transcripts the model may see: the request's messages, and after each round the assistant
  message followed by one tool message per extracted call, in order.\<close>

inductive transcript :: "jtext json list \<Rightarrow> jtext json list \<Rightarrow> bool" for base where
  request: "transcript base base"
| round: "transcript base ms \<Longrightarrow> concat (map message_calls (m # choices)) = calls \<Longrightarrow> calls \<noteq> [] \<Longrightarrow>
    map answer_id replies = map (\<lambda>c. Some (tl_id c)) calls \<Longrightarrow> transcript base (ms @ m # replies)"

lemma turns_see_transcripts:
  assumes same: "\<And>req. transcript (rq_messages request) (rq_messages req) \<Longrightarrow> dispatch req = dispatch' req"
  shows "transcript (rq_messages request) (snd st) \<Longrightarrow>
    tool_turns request dispatch ex opts n turn st = tool_turns request dispatch' ex opts n turn st"
proof (induction n arbitrary: turn st)
  case (Suc n)
  obtain executed messages where st: "st = (executed, messages)" by (cases st)
  let ?next = "\<lambda>d response. io_bind
    (io_fold (handle_call opts ex) (extractToolCalls response) (executed, messages @ [first_message response]))
    (tool_turns request d ex opts n (Suc turn))"
  have next_eq: "?next dispatch response = ?next dispatch' response" if calls: "extractToolCalls response \<noteq> []" for response
  proof (rule bind_cong_ensured [OF calls_answered])
    fix st1 assume a: "answers (extractToolCalls response) (executed, messages @ [first_message response]) st1"
    obtain m choices where c: "rp_choices response = m # choices"
      using calls by (cases "rp_choices response") (simp_all add: extractToolCalls_def)
    from a obtain replies where "snd st1 = messages @ m # replies"
        "map answer_id replies = map (\<lambda>c. Some (tl_id c)) (extractToolCalls response)"
      by (cases st1) (auto simp: answers_def first_message_def c)
    moreover have "transcript (rq_messages request) messages"
      using Suc.prems st by simp
    ultimately have "transcript (rq_messages request) (snd st1)"
      using calls transcript.round [of "rq_messages request" messages m choices _ replies]
      by (simp add: extractToolCalls_def c)
    then show "tool_turns request dispatch ex opts n (Suc turn) st1 = tool_turns request dispatch' ex opts n (Suc turn) st1"
      by (rule Suc.IH)
  qed
  have d: "dispatch (request\<lparr>rq_messages := messages, rq_stream := False\<rparr>) =
      dispatch' (request\<lparr>rq_messages := messages, rq_stream := False\<rparr>)"
    using same Suc.prems st by simp
  show ?case
    unfolding st tool_turns.simps
    by (rule bind_cong [OF d]) (rule ext, auto simp: Let_def next_eq)
qed simp

text \<open>C11: The model only ever sees complete transcripts. Whatever the tools, hooks and failures do, the
  orchestration depends on the upstream only through requests whose messages are the client's messages
  followed by rounds, each an assistant message and then exactly one tool message for every extracted
  call of that response, carrying the call's id, in the order of the calls: malformed arguments, thrown
  errors and meta-tools included.\<close>

lemma every_call_is_answered:
  assumes "\<forall>req. transcript (rq_messages request) (rq_messages req) \<longrightarrow> dispatch req = dispatch' req"
  shows "runToolLoop request dispatch ex opts = runToolLoop request dispatch' ex opts"
  unfolding runToolLoop_def
  by (rule turns_see_transcripts) (use assms in \<open>simp_all add: transcript.request\<close>)

section \<open>The loop is bounded\<close>

lemma handle_costs:
  assumes "\<forall>name args. costs f 0 (ex_execute ex name args)"
    "\<forall>g w name t args. ex_resolve ex = Some g \<longrightarrow> g w name = Some t \<longrightarrow> costs f 0 (rt_execute t args)"
    "\<forall>g args. g \<in> snd ` set (metaTools opts) \<longrightarrow> costs f 0 (g args)"
    "\<forall>c. costs f 0 (apply_hook (lo_onMCPPre opts) c)" "\<forall>r. costs f 0 (apply_hook (lo_onMCPPost opts) r)"
  shows "costs f 0 (handle_call opts ex call st)"
proof -
  have bind: "costs f 0 m \<Longrightarrow> (\<And>x. costs f 0 (k x)) \<Longrightarrow> costs f 0 (io_bind m k)" for m k
    using costs_bind [of f 0 m 0 k] by simp
  have catch: "costs f 0 m \<Longrightarrow> (\<And>e. costs f 0 (h e)) \<Longrightarrow> costs f 0 (io_catch m h)" for m h
    using costs_catch [of f 0 m 0 h] by simp
  have finish: "costs f 0 (finish_call opts i name st c)" for i name c
    using assms(5) by (cases st; cases c) (auto simp: finish_call_def applyPost_def intro!: bind)
  have tool: "costs f 0 m \<Longrightarrow> costs f 0 (run_tool m)" for m
    unfolding run_tool_def by (intro catch bind) simp_all
  have meta: "costs f 0 m \<Longrightarrow> costs f 0 (run_meta m)" for m
    unfolding run_meta_def by (intro catch bind) (simp_all split: thrown.split)
  have "costs f 0 (rt_execute (resolve_tool ex w name) args)" for w name args
    using assms(1,2) by (auto simp: resolve_tool_def split: option.split bind_split)
  then have invoke: "costs f 0 (invoke_tool opts ex name args)" for name args
    using tool by (simp add: costs_def invoke_tool_def Let_def io_throw_def)
  have "jm_get (metaTools opts) n = Some g \<Longrightarrow> costs f 0 (g args)" for n g args
    using assms(3) by (auto dest!: get_values)
  then show ?thesis
    unfolding handle_call_def
    using assms(4) finish meta invoke by (auto intro!: bind split: option.split)
qed

lemma turns_cost:
  assumes "\<And>call st. costs f 0 (handle_call opts ex call st)" "\<And>req. costs f 1 (dispatch req)"
  shows "costs f n (tool_turns request dispatch ex opts n turn st)"
proof (induction n arbitrary: turn st)
  case (Suc n)
  obtain executed messages where st: "st = (executed, messages)" by (cases st)
  let ?k = "\<lambda>response w.
     let calls = extractToolCalls response in
     if calls = [] \<or> (\<exists>c \<in> set calls. \<not> gatewayOwns opts ex w (tl_name c))
     then io_return \<lparr>lr_response = response, lr_turns = turn, lr_executedTools = executed\<rparr> w
     else io_bind (io_fold (handle_call opts ex) calls (executed, messages @ [first_message response]))
            (tool_turns request dispatch ex opts n (Suc turn)) w"
  have "costs f (0 + n) (io_bind (io_fold (handle_call opts ex) calls (executed, ms))
      (tool_turns request dispatch ex opts n (Suc turn)))" for calls ms
    by (rule costs_bind [OF costs_free_fold [OF assms(1)] Suc.IH])
  then have "costs f n (?k response)" for response
    by (simp add: costs_def Let_def io_return_def)
  then have "costs f (1 + n) (io_bind (dispatch (request\<lparr>rq_messages := messages, rq_stream := False\<rparr>)) ?k)"
    by (rule costs_bind [OF assms(2)])
  then show ?case
    by (simp only: st tool_turns.simps plus_1_eq_Suc)
qed simp

lemma turns_range:
  "ensures (tool_turns request dispatch ex opts n turn st) (\<lambda>r. turn \<le> lr_turns r \<and> lr_turns r < turn + n)"
proof (induction n arbitrary: turn st)
  case 0
  show ?case by (simp add: ensures_def io_throw_def)
next
  case (Suc n)
  obtain executed messages where st: "st = (executed, messages)" by (cases st)
  have step: "ensures (io_bind m (tool_turns request dispatch ex opts n (Suc turn)))
      (\<lambda>r. turn \<le> lr_turns r \<and> lr_turns r < turn + Suc n)" for m
    by (rule ensures_any) (use Suc.IH [of "Suc turn"] in \<open>force simp: ensures_def\<close>)
  show ?case
    unfolding st tool_turns.simps
    by (rule ensures_any) (use step in \<open>auto simp: ensures_def Let_def io_return_def\<close>)
qed

text \<open>C14: The orchestration is bounded. Whatever the model answers, a run calls the upstream at most
  \<open>maxTurns\<close> times (4 by default) and then returns or throws: for any measure of the world that one
  dispatch raises by at most one and tools and hooks do not raise, the whole run raises it by at most
  \<open>maxTurns\<close>. A returned result names a turn between 1 and \<open>maxTurns\<close>.\<close>

lemma orchestration_is_bounded:
  assumes "\<forall>req. costs f 1 (dispatch req)"
    "\<forall>name args. costs f 0 (ex_execute ex name args)"
    "\<forall>g w name t args. ex_resolve ex = Some g \<longrightarrow> g w name = Some t \<longrightarrow> costs f 0 (rt_execute t args)"
    "\<forall>g args. g \<in> snd ` set (metaTools opts) \<longrightarrow> costs f 0 (g args)"
    "\<forall>c. costs f 0 (apply_hook (lo_onMCPPre opts) c)" "\<forall>r. costs f 0 (apply_hook (lo_onMCPPost opts) r)"
  shows "f (snd (runToolLoop request dispatch ex opts w)) \<le> f w + nat (maxTurns opts) \<and>
    (\<forall>r. fst (runToolLoop request dispatch ex opts w) = Inr r \<longrightarrow>
       1 \<le> lr_turns r \<and> int (lr_turns r) \<le> maxTurns opts)"
proof -
  have "costs f 0 (handle_call opts ex call st)" for call st
    by (rule handle_costs) (use assms in blast)+
  then have "costs f (nat (maxTurns opts)) (runToolLoop request dispatch ex opts)"
    unfolding runToolLoop_def by (rule turns_cost) (use assms(1) in blast)
  moreover have "1 \<le> lr_turns r \<and> int (lr_turns r) \<le> maxTurns opts"
    if "fst (runToolLoop request dispatch ex opts w) = Inr r" for r
  proof -
    have "tool_turns request dispatch ex opts (nat (maxTurns opts)) 1 ([], rq_messages request) w =
        (Inr r, snd (runToolLoop request dispatch ex opts w))"
      using that by (simp add: runToolLoop_def prod_eq_iff)
    from ensuresD [OF turns_range this] show ?thesis by auto
  qed
  ultimately show ?thesis by (auto simp: costs_def)
qed

section \<open>Examples\<close>

text \<open>A model that always asks for the tool \<open>rm\<close>, which has side effects; the world counts dispatches.\<close>

definition ask_for :: "string \<Rightarrow> string \<Rightarrow> jtext json" where
  "ask_for i n = jobj [(''role'', jt ''assistant''),
     (''tool_calls'', JArr [jobj [(''id'', jt i), (''type'', jt ''function''),
        (''function'', jobj [(''name'', jt n), (''arguments'', jt '''')])]])]"

definition stubborn :: "unit chat_request \<Rightarrow> (nat, unit chat_response) io" where
  "stubborn req w = (Inr \<lparr>rp_choices = [ask_for ''1'' ''rm''], rp_other = ()\<rparr>, w + 1)"

definition rm_tools :: "nat tool_executor" where
  "rm_tools = \<lparr>ex_has = (\<lambda>w n. True), ex_isSideEffect = (\<lambda>w n. n = text_of ''rm''),
     ex_execute = (\<lambda>n args. io_return (text_of ''done'')), ex_resolve = None\<rparr>"

definition plain_options :: "nat loop_options" where
  "plain_options = \<lparr>lo_maxTurns = Some 2, lo_sideEffectsConfirmed = None, lo_metaTools = None,
     lo_onMCPPre = None, lo_onMCPPost = None\<rparr>"

definition plain_request :: "unit chat_request" where
  "plain_request = \<lparr>rq_messages = [], rq_stream = False, rq_other = ()\<rparr>"

lemma unconfirmed_side_effects_never_run_witness:
  "runToolLoop plain_request stubborn rm_tools plain_options =
   runToolLoop plain_request stubborn (rearm (\<lambda>n args. io_throw (OtherError [])) rm_tools) plain_options"
  by (rule unconfirmed_side_effects_never_run) (simp add: plain_options_def)

lemma transcript_not_single: "transcript [] ms \<Longrightarrow> length ms \<noteq> 1"
  by (induction rule: transcript.induct) (auto simp: length_Suc_conv)

lemma every_call_is_answered_witness:
  "runToolLoop plain_request stubborn rm_tools plain_options =
   runToolLoop plain_request
     (\<lambda>req. if length (rq_messages req) = 1 then io_throw (OtherError []) else stubborn req)
     rm_tools plain_options"
  by (rule every_call_is_answered) (use transcript_not_single in \<open>simp add: plain_request_def\<close>)

lemma orchestration_is_bounded_witness:
  "snd (runToolLoop plain_request stubborn rm_tools plain_options 0) \<le> 0 + nat (maxTurns plain_options) \<and>
   (case fst (runToolLoop plain_request stubborn rm_tools plain_options 0) of
      Inr r \<Rightarrow> 1 \<le> lr_turns r \<and> int (lr_turns r) \<le> maxTurns plain_options
    | Inl e \<Rightarrow> True)"
proof -
  have "snd (runToolLoop plain_request stubborn rm_tools plain_options 0) \<le> 0 + nat (maxTurns plain_options) \<and>
    (\<forall>r. fst (runToolLoop plain_request stubborn rm_tools plain_options 0) = Inr r \<longrightarrow>
       1 \<le> lr_turns r \<and> int (lr_turns r) \<le> maxTurns plain_options)"
    by (rule orchestration_is_bounded [of "\<lambda>n. n"])
      (simp_all add: costs_def stubborn_def rm_tools_def plain_options_def metaTools_def apply_hook_def io_return_def)
  then show ?thesis by (simp split: sum.split)
qed

text \<open>With several choices the calls of all of them run, but only the first choice's message joins the
  transcript: the next request answers call 2, which no message of it contains.\<close>

definition two_choices :: "unit chat_request \<Rightarrow> (jtext json list list, unit chat_response) io" where
  "two_choices req w =
     (Inr \<lparr>rp_choices = [ask_for ''1'' ''f'', ask_for ''2'' ''f''], rp_other = ()\<rparr>, w @ [rq_messages req])"

definition any_tools :: "'w tool_executor" where
  "any_tools = \<lparr>ex_has = (\<lambda>w n. True), ex_isSideEffect = (\<lambda>w n. False),
     ex_execute = (\<lambda>n args. io_return (text_of ''done'')), ex_resolve = None\<rparr>"

definition two_turns :: "'w loop_options" where
  "two_turns = \<lparr>lo_maxTurns = Some 2, lo_sideEffectsConfirmed = None, lo_metaTools = None,
     lo_onMCPPre = None, lo_onMCPPost = None\<rparr>"

lemma ask_for_calls:
  "message_calls (ask_for i n) = [\<lparr>tl_id = text_of i, tl_name = text_of n, tl_arguments = []\<rparr>]"
  by (simp add: message_calls_def ask_for_def jobj_def jt_def opt_field_def json_field_def array_of_def
      parse_tool_call_def json_string_def map_filter_def text_of_def [of "[]"])

lemma parse_no_arguments: "tl_arguments c = [] \<Longrightarrow> parse_arguments c = Some (JObj [])"
proof -
  have "json_parse (json_stringify demo_num_text (JObj [])) = Some (JObj [])"
    by (rule json_roundtrip [OF demo_renders]) simp
  moreover have "json_stringify demo_num_text (JObj []) = text_of ''{}''"
    by (simp add: text_of_def)
  ultimately show "tl_arguments c = [] \<Longrightarrow> parse_arguments c = Some (JObj [])"
    by (simp add: parse_arguments_def)
qed

lemma any_tools_answer:
  "tl_arguments c = [] \<Longrightarrow> handle_call two_turns any_tools c (executed, messages) =
     io_return (executed @ [tl_name c], messages @ [tool_message (tl_id c) (text_of ''done'')])"
  by (rule ext)
    (simp add: handle_call_def parse_no_arguments two_turns_def any_tools_def metaTools_def apply_hook_def
      invoke_tool_def resolve_tool_def run_tool_def io_catch_def io_return_def io_bind_def finish_call_def applyPost_def)

lemma second_choice_is_orphaned:
  "snd (runToolLoop plain_request two_choices any_tools two_turns []) =
     [[], [ask_for ''1'' ''f'', tool_message (text_of ''1'') (text_of ''done''),
           tool_message (text_of ''2'') (text_of ''done'')]]"
proof -
  have turns: "nat (maxTurns two_turns) = Suc (Suc 0)"
    by (simp add: maxTurns_def two_turns_def)
  have owns: "gatewayOwns two_turns any_tools w n" for w n
    by (simp add: gatewayOwns_def any_tools_def)
  show ?thesis
    by (simp add: runToolLoop_def turns owns any_tools_answer two_choices_def plain_request_def
        extractToolCalls_def ask_for_calls first_message_def Let_def
        io_bind_def io_throw_def io_return_def)
qed

end
