(* ===== verification/McpRegistry.thy ===== *)
theory McpRegistry
  imports ToolLoop
begin

text \<open>
  The MCP plane: the client registry and its tool executor (\<open>packages/mcp/src/registry.ts\<close>), tool calls
  and catalog refresh of a client (\<open>client.ts\<close>; the JSON-RPC exchange itself is the argument \<open>rpc\<close>) and
  the health monitor (\<open>monitor.ts\<close>). The registry is part of the world the tool loop runs in, because
  catalogs change while it waits.
\<close>

section \<open>Clients\<close>

datatype mcp_transport = AutoTransport | StreamableHttp | HttpSse | Stdio

record mcp_tool =
  mt_name :: jtext
  mt_description :: "jtext option"
  mt_inputSchema :: "jtext json option"
  mt_readOnlyHint :: "bool option"

record mcp_config =
  mf_id :: jtext
  mf_transport :: mcp_transport
  mf_enabled :: bool
  mf_toolsToExecute :: "jtext list option"
  mf_toolsToAutoExecute :: "jtext list option"

record mcp_client =
  mp_config :: mcp_config
  mp_tools :: "mcp_tool list"
  mp_lastSyncAt :: "int option"

type_synonym mcp_registry = "(jtext, mcp_client) jmap"

datatype mcp_error = StdioDisabled

text \<open>\<open>new MCPClient(parsed, fetch)\<close>.\<close>

definition new_client :: "mcp_config \<Rightarrow> mcp_client" where
  "new_client c = \<lparr>mp_config = c, mp_tools = [], mp_lastSyncAt = None\<rparr>"

definition mr_upsert :: "bool \<Rightarrow> mcp_config \<Rightarrow> mcp_registry \<Rightarrow> mcp_error + mcp_registry" where
  "mr_upsert allowStdio parsed clients =
     (if mf_transport parsed = Stdio \<and> \<not> allowStdio then Inl StdioDisabled
      else Inr (jm_set clients (mf_id parsed) (new_client parsed)))"

definition mr_remove :: "jtext \<Rightarrow> mcp_registry \<Rightarrow> bool \<times> mcp_registry" where
  "mr_remove i clients = (jm_has clients i, jm_delete clients i)"

text \<open>The constructor: a configuration the policy rejects is skipped.\<close>

definition mr_load :: "bool \<Rightarrow> mcp_config list \<Rightarrow> mcp_registry" where
  "mr_load allowStdio configs =
     foldl (\<lambda>m c. case mr_upsert allowStdio c m of Inl e \<Rightarrow> m | Inr m' \<Rightarrow> m') [] configs"

section \<open>Policy and catalog\<close>

definition qualifyToolName :: "jtext \<Rightarrow> jtext \<Rightarrow> jtext" where
  "qualifyToolName clientId toolName = clientId @ text_of ''__'' @ toolName"

definition isExposed :: "mcp_client \<Rightarrow> jtext \<Rightarrow> bool" where
  "isExposed c name =
     (case mf_toolsToExecute (mp_config c) of
        None \<Rightarrow> True
      | Some allow \<Rightarrow> allow = [] \<or> name \<in> set allow)"

definition isAutoExecutable :: "mcp_client \<Rightarrow> mcp_tool \<Rightarrow> bool" where
  "isAutoExecutable c tool =
     (case mf_toolsToAutoExecute (mp_config c) of
        Some auto \<Rightarrow> if auto \<noteq> [] then mt_name tool \<in> set auto else mt_readOnlyHint tool = Some True
      | None \<Rightarrow> mt_readOnlyHint tool = Some True)"

record catalog_entry =
  ce_tool :: mcp_tool
  ce_clientId :: jtext
  ce_qualifiedName :: jtext

definition exposed_tools :: "mcp_client \<Rightarrow> mcp_tool list" where
  "exposed_tools c = filter (\<lambda>t. isExposed c (mt_name t)) (mp_tools c)"

definition enabled_clients :: "mcp_registry \<Rightarrow> mcp_client list" where
  "enabled_clients clients = filter (\<lambda>c. mf_enabled (mp_config c)) (jm_values clients)"

definition toolCatalog :: "mcp_registry \<Rightarrow> catalog_entry list" where
  "toolCatalog clients =
     concat (map (\<lambda>c. map (\<lambda>t. \<lparr>ce_tool = t, ce_clientId = mf_id (mp_config c),
         ce_qualifiedName = qualifyToolName (mf_id (mp_config c)) (mt_name t)\<rparr>) (exposed_tools c))
       (enabled_clients clients))"

definition toolDefinitions :: "mcp_registry \<Rightarrow> jtext json list" where
  "toolDefinitions clients =
     map (\<lambda>e. jobj [(''type'', jt ''function''),
         (''function'', jobj ([(''name'', JStr (ce_qualifiedName e))] @
            (case mt_description (ce_tool e) of Some d \<Rightarrow> [(''description'', JStr d)] | None \<Rightarrow> []) @
            [(''parameters'', case mt_inputSchema (ce_tool e) of Some s \<Rightarrow> s | None \<Rightarrow> jobj [(''type'', jt ''object'')])]))])
       (toolCatalog clients)"

text \<open>First the client-qualified name; then the raw name, where only the first tool of that name of each
  client counts.\<close>

definition find_qualified :: "mcp_registry \<Rightarrow> jtext \<Rightarrow> (mcp_client \<times> mcp_tool) option" where
  "find_qualified clients name =
     List.find (\<lambda>(c, t). qualifyToolName (mf_id (mp_config c)) (mt_name t) = name)
       (concat (map (\<lambda>c. map (Pair c) (exposed_tools c)) (enabled_clients clients)))"

fun find_raw :: "mcp_client list \<Rightarrow> jtext \<Rightarrow> (mcp_client \<times> mcp_tool) option" where
  "find_raw [] name = None"
| "find_raw (c # cs) name =
     (case List.find (\<lambda>t. mt_name t = name) (mp_tools c) of
        Some t \<Rightarrow> if isExposed c (mt_name t) then Some (c, t) else find_raw cs name
      | None \<Rightarrow> find_raw cs name)"

definition findTool :: "mcp_registry \<Rightarrow> jtext \<Rightarrow> (mcp_client \<times> mcp_tool) option" where
  "findTool clients name =
     (case find_qualified clients name of
        Some x \<Rightarrow> Some x
      | None \<Rightarrow> find_raw (enabled_clients clients) name)"

section \<open>Calling\<close>

text \<open>\<open>callTool\<close>: the text blocks of the result, or an error.\<close>

definition callTool :: "(jtext \<Rightarrow> jtext \<Rightarrow> jtext json \<Rightarrow> ('w, jtext json) io) \<Rightarrow> mcp_client \<Rightarrow> jtext \<Rightarrow> 'w tool_fun" where
  "callTool rpc c name args =
     io_bind (rpc (mf_id (mp_config c)) (text_of ''tools/call'')
         (jobj [(''name'', JStr name), (''arguments'', if args = JNull then jobj [] else args)]))
       (\<lambda>result.
          let content = concat (map (\<lambda>b. text_value (opt_field (Some b) ''text''))
                (array_of (opt_field (Some result) ''content'')))
          in if opt_field (Some result) ''isError'' = Some (JBool True)
             then io_throw (OtherError (text_of ''MCPError: '' @
                    (if content \<noteq> [] then content
                     else text_of ''tool \"'' @ name @ text_of ''\" reported an error'')))
             else io_return content)"

text \<open>The executor over the registry found in the world.\<close>

definition mr_executor ::
  "('w \<Rightarrow> mcp_registry) \<Rightarrow> (mcp_client \<Rightarrow> jtext \<Rightarrow> 'w tool_fun) \<Rightarrow> 'w tool_executor" where
  "mr_executor reg call =
     \<lparr>ex_has = (\<lambda>w name. findTool (reg w) name \<noteq> None),
      ex_isSideEffect = (\<lambda>w name.
        case findTool (reg w) name of Some (c, t) \<Rightarrow> \<not> isAutoExecutable c t | None \<Rightarrow> True),
      ex_execute = (\<lambda>name args w.
        case findTool (reg w) name of
          None \<Rightarrow> io_throw (OtherError (text_of ''Error: unknown MCP tool \"'' @ name @ text_of ''\"'')) w
        | Some (c, t) \<Rightarrow> call c (mt_name t) args w),
      ex_resolve = Some (\<lambda>w name.
        case findTool (reg w) name of
          None \<Rightarrow> None
        | Some (c, t) \<Rightarrow> Some \<lparr>rt_isSideEffect = \<not> isAutoExecutable c t, rt_execute = call c (mt_name t)\<rparr>)\<rparr>"

section \<open>The contract of a tool executor\<close>

text \<open>A fail-closed executor: a policy says which names may run unconfirmed, and both ways to run a tool
  ask it in the world they run in.\<close>

locale fail_closed =
  fixes ex :: "'w tool_executor"
    and cleared :: "'w \<Rightarrow> jtext \<Rightarrow> bool"
  assumes side_effect_unless_cleared: "ex_isSideEffect ex w n \<longleftrightarrow> \<not> cleared w n"
    and resolved_unless_cleared:
      "ex_resolve ex = Some f \<Longrightarrow> f w n = Some t \<Longrightarrow> rt_isSideEffect t \<longleftrightarrow> \<not> cleared w n"
begin

lemma resolve_cleared: "rt_isSideEffect (resolve_tool ex w n) \<longleftrightarrow> \<not> cleared w n"
  using side_effect_unless_cleared resolved_unless_cleared
  by (auto simp: resolve_tool_def split: option.split bind_splits)

lemma denied: "\<not> confirmed opts \<Longrightarrow> \<not> cleared w n \<Longrightarrow> invoke_tool opts ex n args w = (Inl (SideEffectDenied n), w)"
  by (simp add: invoke_tool_def resolve_cleared io_throw_def Let_def)

lemma allowed:
  "confirmed opts \<or> cleared w n \<Longrightarrow>
     invoke_tool opts ex n args w = run_tool (rt_execute (resolve_tool ex w n) args) w"
  by (auto simp: invoke_tool_def resolve_cleared Let_def)

end

definition mr_cleared :: "('w \<Rightarrow> mcp_registry) \<Rightarrow> 'w \<Rightarrow> jtext \<Rightarrow> bool" where
  "mr_cleared reg w name = (case findTool (reg w) name of Some (c, t) \<Rightarrow> isAutoExecutable c t | None \<Rightarrow> False)"

interpretation mcp: fail_closed "mr_executor reg call" "mr_cleared reg"
  by unfold_locales (auto simp: mr_executor_def mr_cleared_def split: option.splits)

section \<open>What the executor does\<close>

definition offers :: "mcp_registry \<Rightarrow> mcp_client \<Rightarrow> mcp_tool \<Rightarrow> bool" where
  "offers clients c t \<longleftrightarrow>
     c \<in> set (jm_values clients) \<and> mf_enabled (mp_config c) \<and> t \<in> set (mp_tools c) \<and> isExposed c (mt_name t)"

abbreviation full_name :: "mcp_client \<Rightarrow> mcp_tool \<Rightarrow> jtext" where
  "full_name c t \<equiv> qualifyToolName (mf_id (mp_config c)) (mt_name t)"

lemma offers_listed:
  "(c, t) \<in> set (concat (map (\<lambda>c. map (Pair c) (exposed_tools c)) (enabled_clients clients))) \<longleftrightarrow> offers clients c t"
  by (auto simp: offers_def enabled_clients_def exposed_tools_def)

lemma find_member: "List.find P xs = Some x \<Longrightarrow> x \<in> set xs \<and> P x"
  by (induction xs) (auto split: if_splits)

lemma find_qualified_Some:
  "find_qualified clients name = Some (c, t) \<Longrightarrow> offers clients c t \<and> full_name c t = name"
  using offers_listed [of c t clients] by (auto simp: find_qualified_def dest!: find_member)

lemma find_qualified_None: "find_qualified clients name = None \<Longrightarrow> offers clients c t \<Longrightarrow> full_name c t \<noteq> name"
  using offers_listed [of c t clients] by (auto simp: find_qualified_def find_None_iff)

lemma find_raw_Some:
  "find_raw cs name = Some (c, t) \<Longrightarrow> c \<in> set cs \<and> t \<in> set (mp_tools c) \<and> isExposed c (mt_name t) \<and> mt_name t = name"
  by (induction cs) (auto split: option.splits if_splits dest!: find_member)

text \<open>Tool resolution is exact. Whatever name a model uses, the tool it resolves to is offered by an
  enabled client that exposes it and has that qualified or raw name; when any offered tool has it as its
  qualified name, the qualified name wins, so a raw name of another server can never shadow it; and the
  executor owns exactly the names that resolve, running the client's own raw tool.\<close>

lemma tool_resolution_exact:
  assumes "findTool clients name = Some (c, t)"
  shows "offers clients c t \<and> (full_name c t = name \<or> mt_name t = name) \<and>
    (\<forall>c' t'. offers clients c' t' \<longrightarrow> full_name c' t' = name \<longrightarrow> full_name c t = name) \<and>
    ex_has (mr_executor (\<lambda>w. clients) call) w name \<and>
    ex_execute (mr_executor (\<lambda>w. clients) call) name args w = call c (mt_name t) args w"
proof (cases "find_qualified clients name")
  case None
  with assms have "find_raw (enabled_clients clients) name = Some (c, t)"
    by (simp add: findTool_def)
  from find_raw_Some [OF this] have "offers clients c t" "mt_name t = name"
    by (auto simp: offers_def enabled_clients_def)
  then show ?thesis
    using assms find_qualified_None [OF None] by (auto simp: mr_executor_def)
next
  case (Some x)
  with assms have "find_qualified clients name = Some (c, t)"
    by (simp add: findTool_def)
  from find_qualified_Some [OF this] show ?thesis
    using assms by (simp add: mr_executor_def)
qed

text \<open>A call of a tool some entry of which the policy clears for automatic execution.\<close>

definition policy_clears :: "mcp_client \<Rightarrow> jtext \<Rightarrow> bool" where
  "policy_clears c name \<longleftrightarrow> (\<exists>t \<in> set (mp_tools c). mt_name t = name \<and> isAutoExecutable c t)"

definition recall ::
  "(mcp_client \<Rightarrow> jtext \<Rightarrow> 'w tool_fun) \<Rightarrow> (mcp_client \<Rightarrow> jtext \<Rightarrow> 'w tool_fun) \<Rightarrow> mcp_client \<Rightarrow> jtext \<Rightarrow> 'w tool_fun" where
  "recall call other c name = (if policy_clears c name then call c name else other c name)"

lemma found_in_client: "findTool clients name = Some (c, t) \<Longrightarrow> t \<in> set (mp_tools c)"
  using find_qualified_Some [of clients name c t] find_raw_Some [of "enabled_clients clients" name c t]
  by (auto simp: findTool_def offers_def split: option.splits)

lemma recall_invoke:
  assumes "\<not> confirmed opts"
  shows "invoke_tool opts (mr_executor reg (recall call other)) name args w =
    invoke_tool opts (mr_executor reg call) name args w"
proof (cases "mr_cleared reg w name")
  case True
  then obtain c t where t: "findTool (reg w) name = Some (c, t)" "isAutoExecutable c t"
    by (auto simp: mr_cleared_def split: option.splits)
  then have "policy_clears c (mt_name t)"
    using found_in_client by (auto simp: policy_clears_def)
  then have "rt_execute (resolve_tool (mr_executor reg (recall call other)) w name) =
      rt_execute (resolve_tool (mr_executor reg call) w name)"
    using t by (simp add: resolve_tool_def mr_executor_def recall_def)
  then show ?thesis
    using True by (simp add: mcp.allowed)
qed (simp add: mcp.denied assms)

lemma recall_turns:
  assumes "\<not> confirmed opts"
  shows "tool_turns request dispatch (mr_executor reg (recall call other)) opts n turn st =
    tool_turns request dispatch (mr_executor reg call) opts n turn st"
proof (induction n arbitrary: turn st)
  case (Suc n)
  have inv: "invoke_tool opts (mr_executor reg (recall call other)) = invoke_tool opts (mr_executor reg call)"
    by (intro ext) (rule recall_invoke [OF assms])
  have handle: "handle_call opts (mr_executor reg (recall call other)) = handle_call opts (mr_executor reg call)"
    unfolding handle_call_def [abs_def] inv ..
  have owns: "gatewayOwns opts (mr_executor reg (recall call other)) = gatewayOwns opts (mr_executor reg call)"
    by (intro ext) (simp add: gatewayOwns_def mr_executor_def)
  have "tool_turns request dispatch (mr_executor reg (recall call other)) opts n turn =
      tool_turns request dispatch (mr_executor reg call) opts n turn" for turn
    by (rule ext) (rule Suc.IH)
  then show ?case
    by (cases st) (simp only: tool_turns.simps handle owns)
qed simp

text \<open>C12: The gateway's tool loop calls an MCP server only within its policy. In a request without
  confirmation the whole run is the same whatever calls do that the client's policy does not clear for
  automatic execution (its allowlist when set, else the tool's read-only annotation): no such call is
  ever made, under any name, even while catalogs are replaced during the run.\<close>

lemma mcp_calls_within_policy:
  assumes "lo_sideEffectsConfirmed opts \<noteq> Some True"
  shows "runToolLoop request dispatch (mr_executor reg call) opts =
    runToolLoop request dispatch (mr_executor reg (recall call other)) opts"
proof -
  have "\<not> confirmed opts" using assms by (simp add: confirmed_def)
  then show ?thesis by (simp add: runToolLoop_def recall_turns)
qed

text \<open>Qualified names are not unique: an id and a tool name may both contain the separator.\<close>

lemma qualified_names_collide:
  "qualifyToolName (text_of ''a'') (text_of ''b__c'') = qualifyToolName (text_of ''a__b'') (text_of ''c'')"
  by (simp add: qualifyToolName_def text_of_def)

section \<open>Health\<close>

datatype health_status = Healthy | Unhealthy | Disconnected | DisabledClient

record mcp_health =
  mh_status :: health_status
  mh_toolCount :: nat
  mh_failures :: nat
  mh_lastError :: "jtext option"
  mh_checkedAt :: int

type_synonym health_map = "(jtext, mcp_health) jmap"

text \<open>One client of \<open>checkAll\<close>; \<open>sync\<close> refreshes the catalog in the world, \<open>dispose\<close> never throws here
  because the monitor swallows what it throws.\<close>

definition health_of :: "health_status \<Rightarrow> nat \<Rightarrow> nat \<Rightarrow> jtext option \<Rightarrow> int \<Rightarrow> mcp_health" where
  "health_of st n f e now =
     \<lparr>mh_status = st, mh_toolCount = n, mh_failures = f, mh_lastError = e, mh_checkedAt = now\<rparr>"

definition reconnect ::
  "(mcp_client \<Rightarrow> 'w \<Rightarrow> 'w) \<Rightarrow> (mcp_client \<Rightarrow> ('w, mcp_tool list) io) \<Rightarrow> mcp_client \<Rightarrow> 'w \<Rightarrow> mcp_tool list option \<times> 'w" where
  "reconnect dispose sync c w =
     (case sync c (dispose c w) of (Inr ts, w1) \<Rightarrow> (Some ts, w1) | (Inl e, w1) \<Rightarrow> (None, w1))"

definition check_client ::
  "(mcp_client \<Rightarrow> 'w \<Rightarrow> 'w) \<Rightarrow> (mcp_client \<Rightarrow> ('w, mcp_tool list) io) \<Rightarrow> nat \<Rightarrow> int \<Rightarrow> mcp_client \<Rightarrow>
   health_map \<times> 'w \<Rightarrow> health_map \<times> 'w" where
  "check_client dispose sync threshold now c = (\<lambda>(health, w).
     (let i = mf_id (mp_config c) in
      if \<not> mf_enabled (mp_config c)
      then (jm_set health i (health_of DisabledClient 0 0 None now), w)
      else case sync c w of
        (Inr tools, w1) \<Rightarrow> (jm_set health i (health_of Healthy (length tools) 0 None now), w1)
      | (Inl e, w1) \<Rightarrow>
          let failures = (case jm_get health i of Some h \<Rightarrow> mh_failures h | None \<Rightarrow> 0) + 1 in
          if failures \<ge> threshold then
            (case reconnect dispose sync c w1 of
               (Some ts, w2) \<Rightarrow> (jm_set health i (health_of Healthy (length ts) 0 None now), w2)
             | (None, w2) \<Rightarrow>
                 (jm_set health i (health_of Disconnected 0 failures (Some (thrown_text e)) now), w2))
          else (jm_set health i (health_of Unhealthy 0 failures (Some (thrown_text e)) now), w1)))"

text \<open>The client list is read once at the start; the records of clients no longer registered at the end
  are dropped.\<close>

definition checkAll ::
  "('w \<Rightarrow> mcp_registry) \<Rightarrow> (mcp_client \<Rightarrow> 'w \<Rightarrow> 'w) \<Rightarrow> (mcp_client \<Rightarrow> ('w, mcp_tool list) io) \<Rightarrow> nat \<Rightarrow> int \<Rightarrow>
   health_map \<times> 'w \<Rightarrow> health_map \<times> 'w" where
  "checkAll reg dispose sync threshold now = (\<lambda>(health, w).
     (let (health1, w1) = fold (check_client dispose sync threshold now) (jm_values (reg w)) (health, w);
          known = map (\<lambda>c. mf_id (mp_config c)) (jm_values (reg w1))
      in (filter (\<lambda>(i, h). i \<in> set known) health1, w1)))"

text \<open>A record is disconnected only after \<open>threshold\<close> failures in a row, and it is at least unhealthy
  from the first.\<close>

definition health_ok :: "nat \<Rightarrow> mcp_health \<Rightarrow> bool" where
  "health_ok threshold h \<longleftrightarrow>
     (case mh_status h of
        Healthy \<Rightarrow> mh_failures h = 0 \<and> mh_lastError h = None
      | DisabledClient \<Rightarrow> mh_failures h = 0 \<and> mh_toolCount h = 0
      | Unhealthy \<Rightarrow> 0 < mh_failures h \<and> mh_failures h < threshold \<and> mh_toolCount h = 0
      | Disconnected \<Rightarrow> threshold \<le> mh_failures h \<and> mh_toolCount h = 0 \<and> mh_lastError h \<noteq> None)"

definition healths_ok :: "nat \<Rightarrow> health_map \<Rightarrow> bool" where
  "healths_ok threshold m \<longleftrightarrow> (\<forall>i h. jm_get m i = Some h \<longrightarrow> health_ok threshold h)"

lemma check_client_ok:
  "healths_ok threshold (fst hw) \<Longrightarrow> healths_ok threshold (fst (check_client dispose sync threshold now c hw))"
  by (cases hw)
    (auto simp: check_client_def healths_ok_def health_ok_def health_of_def Let_def
      split: prod.split sum.split option.split)

lemma check_all_ok:
  assumes "healths_ok threshold (fst hw)"
  shows "healths_ok threshold (fst (fold (check_client dispose sync threshold now) cs hw))"
  using assms by (induction cs arbitrary: hw) (simp_all add: check_client_ok)

lemma get_filter_keys: "jm_get (filter (\<lambda>(i, h). P i) m) k = (if P k then jm_get m k else None)"
  by (induction m) auto

lemma check_client_keys:
  "jm_get (fst (check_client dispose sync threshold now c hw)) i \<noteq> None \<longleftrightarrow>
     i = mf_id (mp_config c) \<or> jm_get (fst hw) i \<noteq> None"
  by (cases hw) (auto simp: check_client_def Let_def split: prod.split sum.split option.split)

lemma check_all_keys:
  "jm_get (fst (fold (check_client dispose sync threshold now) cs hw)) i \<noteq> None \<longleftrightarrow>
     i \<in> set (map (\<lambda>c. mf_id (mp_config c)) cs) \<or> jm_get (fst hw) i \<noteq> None"
proof (induction cs arbitrary: hw)
  case (Cons c cs)
  show ?case
    unfolding fold.simps comp_def Cons.IH check_client_keys by auto
qed simp

text \<open>Health records can be believed. After a round of checks every client that was registered when
  the round began and still is has a record, nobody else has one, and each record is consistent: healthy
  means no failure and no error, unhealthy fewer consecutive failures than the threshold, disconnected
  at least that many and an error message, disabled neither tools nor failures.\<close>

lemma health_records_sound:
  assumes "healths_ok threshold health"
    "checkAll reg dispose sync threshold now (health, w) = (health', w')"
  shows "healths_ok threshold health' \<and>
    (\<forall>i. jm_get health' i \<noteq> None \<longrightarrow> i \<in> set (map (\<lambda>c. mf_id (mp_config c)) (jm_values (reg w')))) \<and>
    (\<forall>c \<in> set (jm_values (reg w)). mf_id (mp_config c) \<in> set (map (\<lambda>c. mf_id (mp_config c)) (jm_values (reg w'))) \<longrightarrow>
       jm_get health' (mf_id (mp_config c)) \<noteq> None)"
proof -
  obtain h1 w1 where f: "fold (check_client dispose sync threshold now) (jm_values (reg w)) (health, w) = (h1, w1)"
    by (cases "fold (check_client dispose sync threshold now) (jm_values (reg w)) (health, w)")
  let ?P = "\<lambda>i. i \<in> set (map (\<lambda>c. mf_id (mp_config c)) (jm_values (reg w1)))"
  have r: "health' = filter (\<lambda>(i, h). ?P i) h1" "w' = w1"
    using assms(2) f by (auto simp: checkAll_def Let_def)
  have ok: "healths_ok threshold h1"
    using check_all_ok [of threshold "(health, w)" dispose sync now "jm_values (reg w)"] assms(1) f by simp
  have keys: "jm_get h1 i \<noteq> None \<longleftrightarrow>
      i \<in> set (map (\<lambda>c. mf_id (mp_config c)) (jm_values (reg w))) \<or> jm_get health i \<noteq> None" for i
    using check_all_keys [of dispose sync threshold now "jm_values (reg w)" "(health, w)" i] f by simp
  have get: "jm_get health' i = (if ?P i then jm_get h1 i else None)" for i
    unfolding r(1) by (rule get_filter_keys)
  show ?thesis
  proof (intro conjI)
    show "healths_ok threshold health'"
      using ok unfolding healths_ok_def get by (simp split: if_splits)
    show "\<forall>i. jm_get health' i \<noteq> None \<longrightarrow> i \<in> set (map (\<lambda>c. mf_id (mp_config c)) (jm_values (reg w')))"
      unfolding get r(2) by simp
    show "\<forall>c \<in> set (jm_values (reg w)). mf_id (mp_config c) \<in> set (map (\<lambda>c. mf_id (mp_config c)) (jm_values (reg w'))) \<longrightarrow>
        jm_get health' (mf_id (mp_config c)) \<noteq> None"
      unfolding get r(2) using keys by auto
  qed
qed

section \<open>Examples\<close>

definition demo_client :: mcp_client where
  "demo_client = \<lparr>mp_config = \<lparr>mf_id = text_of ''files'', mf_transport = HttpSse, mf_enabled = True,
       mf_toolsToExecute = None, mf_toolsToAutoExecute = None\<rparr>,
     mp_tools = [\<lparr>mt_name = text_of ''rm'', mt_description = None, mt_inputSchema = None, mt_readOnlyHint = None\<rparr>],
     mp_lastSyncAt = Some 0\<rparr>"

definition demo_registry :: mcp_registry where
  "demo_registry = [(text_of ''files'', demo_client)]"

lemma tool_resolution_exact_witness:
  "findTool demo_registry (text_of ''rm'') = Some (demo_client, hd (mp_tools demo_client)) \<and>
   offers demo_registry demo_client (hd (mp_tools demo_client))"
proof -
  have f: "findTool demo_registry (text_of ''rm'') = Some (demo_client, hd (mp_tools demo_client))"
    by (simp add: findTool_def find_qualified_def demo_registry_def demo_client_def enabled_clients_def
        exposed_tools_def isExposed_def qualifyToolName_def text_of_def)
  show ?thesis
    using tool_resolution_exact [OF f, where call = "\<lambda>c n args. io_return []" and w = "0 :: nat"] f by blast
qed

lemma mcp_calls_within_policy_witness:
  "runToolLoop plain_request stubborn (mr_executor (\<lambda>w. demo_registry) (\<lambda>c n args. io_return [])) plain_options =
   runToolLoop plain_request stubborn
     (mr_executor (\<lambda>w. demo_registry) (recall (\<lambda>c n args. io_return []) (\<lambda>c n args. io_throw (OtherError []))))
     plain_options"
  by (rule mcp_calls_within_policy) (simp add: plain_options_def)

lemma health_records_sound_witness:
  "\<exists>health' w'. checkAll (\<lambda>w. demo_registry) (\<lambda>c w. w) (\<lambda>c. io_throw (OtherError (text_of ''down''))) 2 5 ([], 0 :: nat) =
       (health', w') \<and> healths_ok 2 health'"
proof -
  obtain health' w' where c: "checkAll (\<lambda>w. demo_registry) (\<lambda>c w. w) (\<lambda>c. io_throw (OtherError (text_of ''down''))) 2 5
      ([], 0 :: nat) = (health', w')"
    by fastforce
  have "healths_ok 2 []" by (simp add: healths_ok_def)
  from health_records_sound [OF this c] c show ?thesis by blast
qed

end
