(* ===== verification/ResponsesStream.thy ===== *)
theory ResponsesStream
  imports StreamTranslate "HOL-Library.Multiset"
begin

text \<open>
  The Responses API translator of \<open>packages/core/src/translate.ts\<close>: numbered events, output items
  that are added, filled and done, and the completed response. The random message item id is the
  argument \<open>mid\<close>.
\<close>

section \<open>Events\<close>

datatype rs_item =
    MessageItem jtext "jtext option"
  | FunctionItem jtext bool jtext jtext jtext

datatype rs_body =
    RespCreated jtext rat
  | RespInProgress jtext rat
  | ItemAdded nat rs_item
  | PartAdded jtext nat
  | OutTextDelta jtext nat jtext
  | OutTextDone jtext nat jtext
  | PartDone jtext nat jtext
  | ItemDone nat rs_item
  | ArgsDelta jtext nat jtext
  | ArgsDone jtext nat jtext
  | RespCompleted jtext rat "rs_item list" jtext "stream_usage option"

type_synonym rs_event = "nat \<times> rs_body"

record function_item =
  fi_itemId :: jtext
  fi_callId :: jtext
  fi_name :: jtext
  fi_args :: jtext
  fi_outputIndex :: nat

record responses_state =
  rs_seq :: nat
  rs_started :: bool
  rs_finalized :: bool
  rs_responseId :: jtext
  rs_created :: rat
  rs_messageItemOpen :: bool
  rs_text :: jtext
  rs_functionItems :: "(rat, function_item) jmap"
  rs_nextOutputIndex :: nat
  rs_messageOutputIndex :: nat
  rs_usage :: "stream_usage option"

definition rs_init :: responses_state where
  "rs_init = \<lparr>rs_seq = 0, rs_started = False, rs_finalized = False,
     rs_responseId = text_of ''resp_stream'', rs_created = 0, rs_messageItemOpen = False,
     rs_text = [], rs_functionItems = [], rs_nextOutputIndex = 0, rs_messageOutputIndex = 0,
     rs_usage = None\<rparr>"

section \<open>Steps\<close>

definition rs_emit :: "rs_body \<Rightarrow> (responses_state, rs_event) emitter" where
  "rs_emit b s = (s\<lparr>rs_seq := rs_seq s + 1\<rparr>, [(rs_seq s, b)])"

definition rs_start :: "(responses_state, rs_event) emitter" where
  "rs_start s =
     (if rs_started s then (s, [])
      else andThen (rs_emit (RespCreated (rs_responseId s) (rs_created s)))
             (rs_emit (RespInProgress (rs_responseId s) (rs_created s))) (s\<lparr>rs_started := True\<rparr>))"

definition rs_openMessageItem :: "jtext \<Rightarrow> (responses_state, rs_event) emitter" where
  "rs_openMessageItem mid s =
     (if rs_messageItemOpen s then (s, [])
      else let i = rs_nextOutputIndex s in
        andThen (rs_emit (ItemAdded i (MessageItem mid None))) (rs_emit (PartAdded mid i))
          (s\<lparr>rs_messageItemOpen := True, rs_messageOutputIndex := i, rs_nextOutputIndex := i + 1\<rparr>))"

definition rs_content :: "jtext \<Rightarrow> jtext \<Rightarrow> (responses_state, rs_event) emitter" where
  "rs_content mid t s =
     (if t = [] then (s, [])
      else andThen (rs_openMessageItem mid)
             (\<lambda>s. rs_emit (OutTextDelta mid (rs_messageOutputIndex s) t) (s\<lparr>rs_text := rs_text s @ t\<rparr>)) s)"

definition rs_newFunction :: "(rat \<Rightarrow> jtext) \<Rightarrow> tool_delta \<Rightarrow> nat \<Rightarrow> function_item" where
  "rs_newFunction num_text tc i =
     \<lparr>fi_itemId = text_of ''fc_'' @ num_text (tool_index tc),
      fi_callId = (case td_id tc of Some c \<Rightarrow> c | None \<Rightarrow> text_of ''call_'' @ num_text (tool_index tc)),
      fi_name = (case td_name tc of Some n \<Rightarrow> n | None \<Rightarrow> []),
      fi_args = [], fi_outputIndex = i\<rparr>"

definition rs_openFunction :: "(rat \<Rightarrow> jtext) \<Rightarrow> tool_delta \<Rightarrow> (responses_state, rs_event) emitter" where
  "rs_openFunction num_text tc s =
     (if jm_has (rs_functionItems s) (tool_index tc) then (s, [])
      else let fn = rs_newFunction num_text tc (rs_nextOutputIndex s) in
        rs_emit (ItemAdded (fi_outputIndex fn)
                   (FunctionItem (fi_itemId fn) False (fi_callId fn) (fi_name fn) []))
          (s\<lparr>rs_nextOutputIndex := rs_nextOutputIndex s + 1,
             rs_functionItems := jm_set (rs_functionItems s) (tool_index tc) fn\<rparr>))"

definition rs_arguments :: "tool_delta \<Rightarrow> (responses_state, rs_event) emitter" where
  "rs_arguments tc s =
     (case truthy_text (td_arguments tc) of
        None \<Rightarrow> (s, [])
      | Some args \<Rightarrow>
          (case jm_get (rs_functionItems s) (tool_index tc) of
             None \<Rightarrow> (s, [])
           | Some fn \<Rightarrow>
               rs_emit (ArgsDelta (fi_itemId fn) (fi_outputIndex fn) args)
                 (s\<lparr>rs_functionItems := jm_modify (rs_functionItems s) (tool_index tc)
                      (\<lambda>f. f\<lparr>fi_args := fi_args f @ args\<rparr>)\<rparr>)))"

definition rs_tool :: "(rat \<Rightarrow> jtext) \<Rightarrow> tool_delta \<Rightarrow> (responses_state, rs_event) emitter" where
  "rs_tool num_text tc = andThen (rs_openFunction num_text tc) (rs_arguments tc)"

definition rs_setId :: "chat_chunk \<Rightarrow> responses_state \<Rightarrow> responses_state" where
  "rs_setId c s =
     (case truthy_text (cc_id c) of
        Some i \<Rightarrow>
          if rs_responseId s = text_of ''resp_stream''
          then s\<lparr>rs_responseId := text_of ''resp_'' @ rename_id '''' i,
                 rs_created := (case cc_created c of Some n \<Rightarrow> n | None \<Rightarrow> 0)\<rparr>
          else s
      | None \<Rightarrow> s)"

definition rs_setUsage :: "chat_chunk \<Rightarrow> responses_state \<Rightarrow> responses_state" where
  "rs_setUsage c s = (case cc_usage c of None \<Rightarrow> s | Some u \<Rightarrow> s\<lparr>rs_usage := Some u\<rparr>)"

definition rs_chunk :: "(rat \<Rightarrow> jtext) \<Rightarrow> jtext \<Rightarrow> chat_chunk \<Rightarrow> (responses_state, rs_event) emitter" where
  "rs_chunk num_text mid c =
     andThen (quiet (rs_setId c))
       (andThen rs_start
         (andThen (quiet (rs_setUsage c))
           (case cc_choice c of
              None \<Rightarrow> quiet id
            | Some ch \<Rightarrow>
                andThen (rs_content mid (text_value (sc_content ch)))
                  (forEach (rs_tool num_text) (sc_tool_calls ch)))))"

definition message_done :: "jtext \<Rightarrow> responses_state \<Rightarrow> rs_item" where
  "message_done mid s = MessageItem mid (Some (rs_text s))"

definition function_done :: "function_item \<Rightarrow> rs_item" where
  "function_done fn = FunctionItem (fi_itemId fn) True (fi_callId fn) (fi_name fn) (fi_args fn)"

definition rs_closeMessage :: "jtext \<Rightarrow> (responses_state, rs_event) emitter" where
  "rs_closeMessage mid s =
     (if rs_messageItemOpen s then
        andThen (rs_emit (OutTextDone mid (rs_messageOutputIndex s) (rs_text s)))
          (andThen (rs_emit (PartDone mid (rs_messageOutputIndex s) (rs_text s)))
             (rs_emit (ItemDone (rs_messageOutputIndex s) (message_done mid s)))) s
      else (s, []))"

definition rs_closeFunction :: "function_item \<Rightarrow> (responses_state, rs_event) emitter" where
  "rs_closeFunction fn =
     andThen (rs_emit (ArgsDone (fi_itemId fn) (fi_outputIndex fn) (fi_args fn)))
       (rs_emit (ItemDone (fi_outputIndex fn) (function_done fn)))"

definition rs_output :: "jtext \<Rightarrow> responses_state \<Rightarrow> rs_item list" where
  "rs_output mid s =
     (if rs_messageItemOpen s then [message_done mid s] else []) @
     map function_done (jm_values (rs_functionItems s))"

definition rs_complete :: "jtext \<Rightarrow> (responses_state, rs_event) emitter" where
  "rs_complete mid s =
     rs_emit (RespCompleted (rs_responseId s) (rs_created s) (rs_output mid s) (rs_text s) (rs_usage s)) s"

definition rs_finalize :: "jtext \<Rightarrow> (responses_state, rs_event) emitter" where
  "rs_finalize mid s =
     (if rs_finalized s then (s, [])
      else andThen rs_start
             (andThen (rs_closeMessage mid)
               (andThen (\<lambda>s. forEach rs_closeFunction (jm_values (rs_functionItems s)) s)
                 (rs_complete mid))) (s\<lparr>rs_finalized := True\<rparr>))"

definition responses_stream :: "(rat \<Rightarrow> jtext) \<Rightarrow> jtext \<Rightarrow> jtext list \<Rightarrow> rs_event list" where
  "responses_stream num_text mid lines =
     run_stream (rs_chunk num_text mid) (rs_finalize mid) (rs_finalize mid) rs_init lines"

section \<open>The frames\<close>

definition text_part :: "jtext \<Rightarrow> jtext json" where
  "text_part t = jobj [(''type'', jt ''output_text''), (''text'', JStr t), (''annotations'', JArr [])]"

fun rs_item_json :: "rs_item \<Rightarrow> jtext json" where
  "rs_item_json (MessageItem i t) =
     jobj [(''id'', JStr i), (''type'', jt ''message''),
           (''status'', jt (if t = None then ''in_progress'' else ''completed'')),
           (''role'', jt ''assistant''),
           (''content'', JArr (case t of None \<Rightarrow> [] | Some x \<Rightarrow> [text_part x]))]"
| "rs_item_json (FunctionItem i d c n a) =
     jobj [(''id'', JStr i), (''type'', jt ''function_call''),
           (''status'', jt (if d then ''completed'' else ''in_progress'')),
           (''call_id'', JStr c), (''name'', JStr n), (''arguments'', JStr a)]"

definition responseSkeleton :: "jtext \<Rightarrow> jtext \<Rightarrow> rat \<Rightarrow> string \<Rightarrow> (string \<times> jtext json) list" where
  "responseSkeleton model i created status =
     [(''id'', JStr i), (''object'', jt ''response''), (''created_at'', JNum created),
      (''status'', jt status), (''model'', JStr model)]"

definition tokens :: "rat option \<Rightarrow> rat" where
  "tokens n = (case n of Some k \<Rightarrow> k | None \<Rightarrow> 0)"

definition usage_json :: "stream_usage option \<Rightarrow> (string \<times> jtext json) list" where
  "usage_json u =
     (case u of
        None \<Rightarrow> []
      | Some v \<Rightarrow>
          [(''usage'', jobj [(''input_tokens'', JNum (tokens (su_prompt v))),
             (''output_tokens'', JNum (tokens (su_completion v))),
             (''total_tokens'', JNum (tokens (su_prompt v) + tokens (su_completion v)))])])"

fun rs_payload :: "jtext \<Rightarrow> rs_body \<Rightarrow> string \<times> (string \<times> jtext json) list" where
  "rs_payload model (RespCreated i c) =
     (''response.created'', [(''response'', jobj (responseSkeleton model i c ''in_progress''))])"
| "rs_payload model (RespInProgress i c) =
     (''response.in_progress'', [(''response'', jobj (responseSkeleton model i c ''in_progress''))])"
| "rs_payload model (ItemAdded n item) =
     (''response.output_item.added'', [(''output_index'', jnat n), (''item'', rs_item_json item)])"
| "rs_payload model (PartAdded i n) =
     (''response.content_part.added'',
      [(''item_id'', JStr i), (''output_index'', jnat n), (''content_index'', jnat 0), (''part'', text_part [])])"
| "rs_payload model (OutTextDelta i n t) =
     (''response.output_text.delta'',
      [(''item_id'', JStr i), (''output_index'', jnat n), (''content_index'', jnat 0), (''delta'', JStr t)])"
| "rs_payload model (OutTextDone i n t) =
     (''response.output_text.done'',
      [(''item_id'', JStr i), (''output_index'', jnat n), (''content_index'', jnat 0), (''text'', JStr t)])"
| "rs_payload model (PartDone i n t) =
     (''response.content_part.done'',
      [(''item_id'', JStr i), (''output_index'', jnat n), (''content_index'', jnat 0), (''part'', text_part t)])"
| "rs_payload model (ItemDone n item) =
     (''response.output_item.done'', [(''output_index'', jnat n), (''item'', rs_item_json item)])"
| "rs_payload model (ArgsDelta i n t) =
     (''response.function_call_arguments.delta'',
      [(''item_id'', JStr i), (''output_index'', jnat n), (''delta'', JStr t)])"
| "rs_payload model (ArgsDone i n t) =
     (''response.function_call_arguments.done'',
      [(''item_id'', JStr i), (''output_index'', jnat n), (''arguments'', JStr t)])"
| "rs_payload model (RespCompleted i c output t u) =
     (''response.completed'',
      [(''response'', jobj (responseSkeleton model i c ''completed'' @
         [(''output'', JArr (map rs_item_json output)), (''output_text'', JStr t)] @ usage_json u))])"

definition rs_frame :: "jtext \<Rightarrow> rs_event \<Rightarrow> string \<times> jtext json" where
  "rs_frame model = (\<lambda>(n, b).
     (let (ty, ms) = rs_payload model b
      in (ty, jobj ((''type'', jt ty) # (''sequence_number'', jnat n) # ms))))"

definition responses_body :: "(rat \<Rightarrow> jtext) \<Rightarrow> jtext \<Rightarrow> jtext \<Rightarrow> byte list list \<Rightarrow> byte list" where
  "responses_body num_text model mid body =
     utf8_encode (render_frames num_text (rs_frame model) (responses_stream num_text mid (body_lines body)))"

section \<open>The Responses protocol\<close>

text \<open>The acceptor numbers the events itself and rebuilds every output item from its fragments. An item
  must be added under the next free index, a fragment belongs to an open item, what \<open>done\<close> events
  repeat must be what the fragments said, and the completed response lists exactly the closed items.\<close>

datatype rs_track =
    OpenMessage jtext jtext
  | OpenFunction jtext jtext jtext jtext
  | ClosedItem rs_item

datatype rs_phase = Fresh | Announced jtext rat | AwaitPart jtext nat | Running | Finished

record rs_reader =
  rr_next :: nat
  rr_phase :: rs_phase
  rr_tracks :: "rs_track list"

definition track :: "rs_reader \<Rightarrow> nat \<Rightarrow> rs_track option" where
  "track p n = (if n < length (rr_tracks p) then Some (rr_tracks p ! n) else None)"

definition set_track :: "rs_reader \<Rightarrow> nat \<Rightarrow> rs_track \<Rightarrow> rs_reader" where
  "set_track p n t = p\<lparr>rr_tracks := (rr_tracks p)[n := t]\<rparr>"

fun add_item :: "rs_reader \<Rightarrow> rs_item \<Rightarrow> rs_reader option" where
  "add_item p (MessageItem i None) =
     Some (p\<lparr>rr_phase := AwaitPart i (length (rr_tracks p)), rr_tracks := rr_tracks p @ [OpenMessage i []]\<rparr>)"
| "add_item p (FunctionItem i False c n []) =
     Some (p\<lparr>rr_tracks := rr_tracks p @ [OpenFunction i c n []]\<rparr>)"
| "add_item p _ = None"

fun finished_item :: "rs_track \<Rightarrow> rs_item" where
  "finished_item (OpenMessage i t) = MessageItem i (Some t)"
| "finished_item (OpenFunction i c n a) = FunctionItem i True c n a"
| "finished_item (ClosedItem item) = item"

fun is_closed :: "rs_track \<Rightarrow> bool" where
  "is_closed (ClosedItem item) = True"
| "is_closed _ = False"

definition same_text :: "jtext \<Rightarrow> rs_item \<Rightarrow> bool" where
  "same_text t item = (case item of MessageItem _ (Some x) \<Rightarrow> x = t | _ \<Rightarrow> True)"

fun accept_running :: "rs_reader \<Rightarrow> rs_body \<Rightarrow> rs_reader option" where
  "accept_running p (ItemAdded n item) = (if n = length (rr_tracks p) then add_item p item else None)"
| "accept_running p (OutTextDelta i n t) =
     (case track p n of
        Some (OpenMessage j x) \<Rightarrow> if i = j then Some (set_track p n (OpenMessage j (x @ t))) else None
      | _ \<Rightarrow> None)"
| "accept_running p (OutTextDone i n t) = (if track p n = Some (OpenMessage i t) then Some p else None)"
| "accept_running p (PartDone i n t) = (if track p n = Some (OpenMessage i t) then Some p else None)"
| "accept_running p (ArgsDelta i n t) =
     (case track p n of
        Some (OpenFunction j c nm a) \<Rightarrow>
          if i = j then Some (set_track p n (OpenFunction j c nm (a @ t))) else None
      | _ \<Rightarrow> None)"
| "accept_running p (ArgsDone i n t) =
     (case track p n of
        Some (OpenFunction j c nm a) \<Rightarrow> if i = j \<and> a = t then Some p else None
      | _ \<Rightarrow> None)"
| "accept_running p (ItemDone n item) =
     (case track p n of
        Some t \<Rightarrow>
          if \<not> is_closed t \<and> item = finished_item t then Some (set_track p n (ClosedItem item)) else None
      | None \<Rightarrow> None)"
| "accept_running p (RespCompleted i c output t u) =
     (if list_all is_closed (rr_tracks p) \<and> mset output = mset (map finished_item (rr_tracks p)) \<and>
         list_all (same_text t) output
      then Some (p\<lparr>rr_phase := Finished\<rparr>) else None)"
| "accept_running p _ = None"

definition accept_body :: "rs_reader \<Rightarrow> rs_body \<Rightarrow> rs_reader option" where
  "accept_body p b =
     (case rr_phase p of
        Fresh \<Rightarrow> (case b of RespCreated i c \<Rightarrow> Some (p\<lparr>rr_phase := Announced i c\<rparr>) | _ \<Rightarrow> None)
      | Announced i c \<Rightarrow> if b = RespInProgress i c then Some (p\<lparr>rr_phase := Running\<rparr>) else None
      | AwaitPart i n \<Rightarrow> if b = PartAdded i n then Some (p\<lparr>rr_phase := Running\<rparr>) else None
      | Running \<Rightarrow> accept_running p b
      | Finished \<Rightarrow> None)"

definition rs_accept :: "rs_reader \<Rightarrow> rs_event \<Rightarrow> rs_reader option" where
  "rs_accept p = (\<lambda>(n, b).
     (if n = rr_next p then map_option (\<lambda>q. q\<lparr>rr_next := n + 1\<rparr>) (accept_body p b) else None))"

definition rs_reader_init :: rs_reader where
  "rs_reader_init = \<lparr>rr_next = 0, rr_phase = Fresh, rr_tracks = []\<rparr>"

subsection \<open>The simulation\<close>

definition open_function :: "function_item \<Rightarrow> rs_track" where
  "open_function f = OpenFunction (fi_itemId f) (fi_callId f) (fi_name f) (fi_args f)"

definition open_message :: "jtext \<Rightarrow> responses_state \<Rightarrow> (nat \<times> rs_track) list" where
  "open_message mid s =
     (if rs_messageItemOpen s then [(rs_messageOutputIndex s, OpenMessage mid (rs_text s))] else [])"

definition open_functions :: "responses_state \<Rightarrow> (nat \<times> rs_track) list" where
  "open_functions s = map (\<lambda>f. (fi_outputIndex f, open_function f)) (jm_values (rs_functionItems s))"

definition tracks_ok :: "(nat \<times> rs_track) list \<Rightarrow> rs_track list \<Rightarrow> bool" where
  "tracks_ok items ts \<longleftrightarrow>
     length items = length ts \<and> distinct (map fst items) \<and>
     (\<forall>i t. (i, t) \<in> set items \<longrightarrow> i < length ts \<and> ts ! i = t)"

definition rs_live :: "bool \<Rightarrow> jtext \<Rightarrow> responses_state \<Rightarrow> rs_reader \<Rightarrow> bool" where
  "rs_live b mid s p \<longleftrightarrow>
     rs_finalized s = b \<and> rs_started s \<and> rr_phase p = Running \<and> rr_next p = rs_seq s \<and>
     length (rr_tracks p) = rs_nextOutputIndex s \<and>
     (\<not> rs_messageItemOpen s \<longrightarrow> rs_text s = []) \<and>
     tracks_ok (open_message mid s @ open_functions s) (rr_tracks p)"

definition rs_sim :: "bool \<Rightarrow> jtext \<Rightarrow> responses_state \<Rightarrow> rs_reader \<Rightarrow> bool" where
  "rs_sim b mid s p \<longleftrightarrow>
     rs_live b mid s p \<or>
     p = rs_reader_init \<and> rs_finalized s = b \<and> \<not> rs_started s \<and> rs_seq s = 0 \<and>
     rs_nextOutputIndex s = 0 \<and> \<not> rs_messageItemOpen s \<and> rs_text s = [] \<and> rs_functionItems s = []"

definition rs_final :: "responses_state \<Rightarrow> rs_reader \<Rightarrow> bool" where
  "rs_final s p \<longleftrightarrow> rs_finalized s \<and> rr_phase p = Finished"

lemma open_message_frame [simp]:
  "open_message mid (s\<lparr>rs_seq := n\<rparr>) = open_message mid s"
  "open_message mid (s\<lparr>rs_nextOutputIndex := i\<rparr>) = open_message mid s"
  "open_message mid (s\<lparr>rs_functionItems := fs\<rparr>) = open_message mid s"
  "open_message mid (s\<lparr>rs_usage := u\<rparr>) = open_message mid s"
  "open_functions (s\<lparr>rs_usage := u\<rparr>) = open_functions s"
  "open_message mid (s\<lparr>rs_finalized := d\<rparr>) = open_message mid s"
  "open_functions (s\<lparr>rs_finalized := d\<rparr>) = open_functions s"
  by (simp_all add: open_message_def open_functions_def)

lemma track_set_track:
  "track (set_track p i t) j = (if i = j \<and> i < length (rr_tracks p) then Some t else track p j)"
  by (simp add: track_def set_track_def)

lemma track_next [simp]: "track (p\<lparr>rr_next := n\<rparr>) j = track p j"
  by (simp add: track_def)

lemma emit_simps [simp]: "fst (rs_emit b s) = s\<lparr>rs_seq := rs_seq s + 1\<rparr>" "snd (rs_emit b s) = [(rs_seq s, b)]"
  by (simp_all add: rs_emit_def)

lemma tracks_ok_swap: "tracks_ok (xs @ ys) ts \<longleftrightarrow> tracks_ok (ys @ xs) ts"
  by (auto simp: tracks_ok_def)

lemma tracks_ok_cons:
  "tracks_ok items ts \<Longrightarrow> tracks_ok ((length ts, t) # items) (ts @ [t])"
  by (fastforce simp: tracks_ok_def nth_append)

lemma tracks_ok_snoc: "tracks_ok items ts \<Longrightarrow> tracks_ok (items @ [(length ts, t)]) (ts @ [t])"
  using tracks_ok_cons [of items ts t] tracks_ok_swap [of "[(length ts, t)]" items] by simp

lemma tracks_ok_update:
  assumes "tracks_ok (xs @ (n, t) # ys) ts"
  shows "tracks_ok (xs @ (n, u) # ys) (ts[n := u])"
proof -
  have "i < length ts \<and> ts[n := u] ! i = v" if "(i, v) \<in> set xs \<union> set ys" for i v
  proof -
    have "i \<noteq> n" "i < length ts" "ts ! i = v"
      using assms that by (auto simp: tracks_ok_def image_iff)
    then show ?thesis by simp
  qed
  then show ?thesis
    using assms by (auto simp: tracks_ok_def)
qed

lemma rs_start_follows: "follows rs_accept (rs_sim b mid) rs_start (rs_live b mid)"
proof (rule followsI)
  fix s p assume p: "rs_sim b mid s p"
  show "\<exists>q. accept_all rs_accept p (snd (rs_start s)) = Some q \<and> rs_live b mid (fst (rs_start s)) q"
  proof (cases "rs_started s")
    case True
    with p show ?thesis by (simp add: rs_start_def rs_sim_def)
  next
    case False
    with p have "p = rs_reader_init" "rs_finalized s = b" "rs_seq s = 0" "rs_nextOutputIndex s = 0"
      "\<not> rs_messageItemOpen s" "rs_text s = []" "rs_functionItems s = []"
      by (auto simp: rs_sim_def rs_live_def)
    with False show ?thesis
      by (simp add: rs_start_def rs_accept_def accept_body_def rs_reader_init_def rs_live_def
          tracks_ok_def open_message_def open_functions_def)
  qed
qed

lemma rs_openMessage_follows:
  "follows rs_accept (rs_live b mid) (rs_openMessageItem mid) (\<lambda>s p. rs_live b mid s p \<and> rs_messageItemOpen s)"
proof (rule followsI)
  fix s p assume p: "rs_live b mid s p"
  show "\<exists>q. accept_all rs_accept p (snd (rs_openMessageItem mid s)) = Some q \<and>
      rs_live b mid (fst (rs_openMessageItem mid s)) q \<and> rs_messageItemOpen (fst (rs_openMessageItem mid s))"
  proof (cases "rs_messageItemOpen s")
    case False
    then have "tracks_ok ((length (rr_tracks p), OpenMessage mid []) # open_functions s)
        (rr_tracks p @ [OpenMessage mid []])"
      using p by (intro tracks_ok_cons) (simp add: rs_live_def open_message_def)
    with p False show ?thesis
      by (simp add: rs_openMessageItem_def rs_accept_def accept_body_def rs_live_def Let_def
          open_message_def open_functions_def)
  qed (use p in \<open>simp add: rs_openMessageItem_def\<close>)
qed

lemma rs_content_follows: "follows rs_accept (rs_live b mid) (rs_content mid t) (rs_live b mid)"
proof (cases "t = []")
  case True
  then show ?thesis by (simp add: follows_def rs_content_def)
next
  case False
  let ?delta = "\<lambda>s. rs_emit (OutTextDelta mid (rs_messageOutputIndex s) t) (s\<lparr>rs_text := rs_text s @ t\<rparr>)"
  have "follows rs_accept (\<lambda>s p. rs_live b mid s p \<and> rs_messageItemOpen s) ?delta (rs_live b mid)"
  proof (rule followsI)
    fix s p assume live: "rs_live b mid s p \<and> rs_messageItemOpen s"
    then have p: "rs_live b mid s p" "rs_messageItemOpen s" by simp_all
    let ?n = "rs_messageOutputIndex s"
    have ok: "tracks_ok ([] @ (?n, OpenMessage mid (rs_text s)) # open_functions s) (rr_tracks p)"
      using p by (simp add: rs_live_def open_message_def)
    then have "track p ?n = Some (OpenMessage mid (rs_text s))"
      by (simp add: tracks_ok_def track_def)
    with p tracks_ok_update [OF ok, of "OpenMessage mid (rs_text s @ t)"]
    show "\<exists>q. accept_all rs_accept p (snd (?delta s)) = Some q \<and> rs_live b mid (fst (?delta s)) q"
      by (simp add: rs_accept_def accept_body_def rs_live_def set_track_def open_message_def open_functions_def)
  qed
  from follows_andThen [OF rs_openMessage_follows this] False show ?thesis
    by (simp add: follows_def rs_content_def)
qed

lemma rs_openFunction_follows:
  "follows rs_accept (rs_live b mid) (rs_openFunction num_text tc) (rs_live b mid)"
proof (rule followsI)
  fix s p assume p: "rs_live b mid s p"
  show "\<exists>q. accept_all rs_accept p (snd (rs_openFunction num_text tc s)) = Some q \<and>
      rs_live b mid (fst (rs_openFunction num_text tc s)) q"
  proof (cases "jm_get (rs_functionItems s) (tool_index tc)")
    case None
    define fn where "fn = rs_newFunction num_text tc (rs_nextOutputIndex s)"
    have fn: "fi_args fn = []" "fi_outputIndex fn = rs_nextOutputIndex s"
      by (simp_all add: fn_def rs_newFunction_def)
    have "tracks_ok ((open_message mid s @ open_functions s) @ [(length (rr_tracks p), open_function fn)])
        (rr_tracks p @ [open_function fn])"
      using p by (intro tracks_ok_snoc) (simp add: rs_live_def)
    with p None fn show ?thesis
      by (simp add: rs_openFunction_def rs_accept_def accept_body_def rs_live_def Let_def fn_def [symmetric]
          open_functions_def set_absent) (simp add: open_function_def)
  qed (use p in \<open>simp add: rs_openFunction_def\<close>)
qed

lemma get_split:
  assumes "jm_get m k = Some v"
  obtains xs ys where "m = xs @ (k, v) # ys" "jm_modify m k f = xs @ (k, f v) # ys"
proof -
  have "\<exists>xs ys. m = xs @ (k, v) # ys \<and> jm_modify m k f = xs @ (k, f v) # ys"
    using assms
  proof (induction m)
    case (Cons e m)
    obtain k' v' where e: "e = (k', v')" by (cases e)
    show ?case
    proof (cases "k' = k")
      case True
      with Cons.prems e have "e # m = [] @ (k, v) # m" "jm_modify (e # m) k f = [] @ (k, f v) # m"
        by simp_all
      then show ?thesis by blast
    next
      case False
      with Cons e obtain xs ys where "m = xs @ (k, v) # ys" "jm_modify m k f = xs @ (k, f v) # ys"
        by auto
      with e False have "e # m = (e # xs) @ (k, v) # ys" "jm_modify (e # m) k f = (e # xs) @ (k, f v) # ys"
        by simp_all
      then show ?thesis by blast
    qed
  qed simp
  with that show thesis by blast
qed

lemma rs_arguments_follows: "follows rs_accept (rs_live b mid) (rs_arguments tc) (rs_live b mid)"
proof (rule followsI)
  fix s p assume p: "rs_live b mid s p"
  let ?k = "tool_index tc"
  show "\<exists>q. accept_all rs_accept p (snd (rs_arguments tc s)) = Some q \<and> rs_live b mid (fst (rs_arguments tc s)) q"
  proof (cases "truthy_text (td_arguments tc) = None \<or> jm_get (rs_functionItems s) ?k = None")
    case True
    with p show ?thesis
      by (auto simp: rs_arguments_def split: option.split)
  next
    case False
    then obtain args fn where fn: "truthy_text (td_arguments tc) = Some args"
        "jm_get (rs_functionItems s) ?k = Some fn"
      by auto
    define fn' where "fn' = fn\<lparr>fi_args := fi_args fn @ args\<rparr>"
    obtain xs ys where m: "rs_functionItems s = xs @ (?k, fn) # ys"
        "jm_modify (rs_functionItems s) ?k (\<lambda>f. f\<lparr>fi_args := fi_args f @ args\<rparr>) = xs @ (?k, fn') # ys"
      using get_split [OF fn(2), of "\<lambda>f. f\<lparr>fi_args := fi_args f @ args\<rparr>"] by (auto simp: fn'_def)
    let ?tr = "map (\<lambda>f. (fi_outputIndex f, open_function f))"
    have ok: "tracks_ok ((open_message mid s @ ?tr (jm_values xs)) @
        (fi_outputIndex fn, open_function fn) # ?tr (jm_values ys)) (rr_tracks p)"
      using p m(1) by (simp add: rs_live_def open_functions_def)
    then have "track p (fi_outputIndex fn) = Some (open_function fn)"
      by (simp add: tracks_ok_def track_def)
    moreover have "open_function fn = OpenFunction (fi_itemId fn) (fi_callId fn) (fi_name fn) (fi_args fn)"
      "open_function fn' = OpenFunction (fi_itemId fn) (fi_callId fn) (fi_name fn) (fi_args fn @ args)"
      "fi_outputIndex fn' = fi_outputIndex fn"
      by (simp_all add: open_function_def fn'_def)
    ultimately show ?thesis
      using p fn m tracks_ok_update [OF ok, of "open_function fn'"]
      by (simp add: rs_arguments_def rs_accept_def accept_body_def rs_live_def set_track_def
          open_functions_def)
  qed
qed

lemma rs_chunk_follows: "follows rs_accept (rs_sim b mid) (rs_chunk num_text mid c) (rs_sim b mid)"
proof -
  have id: "follows rs_accept (rs_sim b mid) (quiet (rs_setId c)) (rs_sim b mid)"
  proof (rule follows_quiet)
    fix s p
    have "rs_sim b mid (rs_setId c s) p = rs_sim b mid s p"
      by (simp add: rs_setId_def rs_sim_def rs_live_def open_message_def open_functions_def split: option.split)
    then show "rs_sim b mid s p \<Longrightarrow> rs_sim b mid (rs_setId c s) p" by simp
  qed
  have usage: "follows rs_accept (rs_live b mid) (quiet (rs_setUsage c)) (rs_live b mid)"
    by (rule follows_quiet)
      (simp add: rs_setUsage_def rs_live_def split: option.split)
  have "follows rs_accept (rs_live b mid) (forEach (rs_tool num_text) tcs) (rs_live b mid)" for tcs
    unfolding rs_tool_def
    by (intro follows_forEach follows_andThen [OF rs_openFunction_follows rs_arguments_follows])
  then have "follows rs_accept (rs_live b mid)
      (andThen (rs_content mid t) (forEach (rs_tool num_text) tcs)) (rs_live b mid)" for t tcs
    by (rule follows_andThen [OF rs_content_follows])
  then have rest: "follows rs_accept (rs_live b mid)
      (case cc_choice c of None \<Rightarrow> quiet id
       | Some ch \<Rightarrow> andThen (rs_content mid (text_value (sc_content ch)))
                     (forEach (rs_tool num_text) (sc_tool_calls ch))) (rs_sim b mid)"
    by (fastforce simp: follows_def rs_sim_def split: option.split)
  show ?thesis
    unfolding rs_chunk_def
    by (rule follows_andThen [OF id follows_andThen [OF rs_start_follows follows_andThen [OF usage rest]]])
qed

subsection \<open>The end of the stream\<close>

lemma finished_open [simp]:
  "finished_item (open_function f) = function_done f" "\<not> is_closed (open_function f)"
  by (simp_all add: open_function_def function_done_def)

text \<open>Closing a list of open functions closes exactly their tracks.\<close>

lemma close_functions:
  assumes "rr_phase p = Running" "rr_next p = rs_seq s" "distinct (map fi_outputIndex fs)"
    "\<forall>f \<in> set fs. track p (fi_outputIndex f) = Some (open_function f)"
  shows "\<exists>q. accept_all rs_accept p (snd (forEach rs_closeFunction fs s)) = Some q \<and>
      rr_phase q = Running \<and> rr_next q = rs_seq (fst (forEach rs_closeFunction fs s)) \<and>
      fst (forEach rs_closeFunction fs s) = s\<lparr>rs_seq := rs_seq s + 2 * length fs\<rparr> \<and>
      rr_tracks q = foldl (\<lambda>ts f. ts[fi_outputIndex f := ClosedItem (function_done f)]) (rr_tracks p) fs"
  using assms
proof (induction fs arbitrary: p s)
  case (Cons f fs)
  let ?p = "set_track (p\<lparr>rr_next := rs_seq s + 2\<rparr>) (fi_outputIndex f) (ClosedItem (function_done f))"
  let ?s = "s\<lparr>rs_seq := rs_seq s + 2\<rparr>"
  have t: "track p (fi_outputIndex f) = Some (open_function f)" using Cons.prems by simp
  have "FunctionItem (fi_itemId f) True (fi_callId f) (fi_name f) (fi_args f) = function_done f"
    by (simp add: function_done_def)
  with t have one: "accept_all rs_accept p (snd (rs_closeFunction f s)) = Some ?p" "fst (rs_closeFunction f s) = ?s"
    using Cons.prems(1,2)
    by (simp_all add: rs_closeFunction_def rs_accept_def accept_body_def track_def set_track_def
        open_function_def split: if_splits)
  have "\<forall>g \<in> set fs. track ?p (fi_outputIndex g) = Some (open_function g)"
  proof
    fix g assume g: "g \<in> set fs"
    with Cons.prems(3) have "fi_outputIndex f \<noteq> fi_outputIndex g"
      by (metis distinct.simps(2) image_eqI list.set_map list.simps(9))
    with g Cons.prems(4) show "track ?p (fi_outputIndex g) = Some (open_function g)"
      by (simp add: track_set_track)
  qed
  with Cons.IH [of ?p ?s] Cons.prems show ?case
    using one by (simp add: accept_all_append set_track_def forEach_Cons del: forEach.simps(2))
qed simp

lemma closed_tracks:
  assumes "distinct (map fi_outputIndex fs)"
  shows "i < length ts \<Longrightarrow>
    foldl (\<lambda>ts f. ts[fi_outputIndex f := ClosedItem (function_done f)]) ts fs ! i =
      (case find (\<lambda>f. fi_outputIndex f = i) fs of
         Some f \<Rightarrow> ClosedItem (function_done f) | None \<Rightarrow> ts ! i)"
  using assms
proof (induction fs arbitrary: ts)
  case (Cons f fs)
  have "find (\<lambda>g. fi_outputIndex g = fi_outputIndex f) fs = None"
    using Cons.prems(2) unfolding find_None_iff by (simp add: image_iff) metis
  with Cons show ?case
    by (auto split: option.splits)
qed simp

lemma closed_tracks_length:
  "length (foldl (\<lambda>ts f. ts[fi_outputIndex f := ClosedItem (function_done f)]) ts fs) = length ts"
  by (induction fs arbitrary: ts) simp_all

text \<open>A list of items that covers every track, each with its finished value, is the multiset of
  finished tracks.\<close>

lemma covered_items:
  assumes "distinct (map fst items)" "length items = length ts"
    "\<forall>i v. (i, v) \<in> set items \<longrightarrow> i < length ts \<and> is_closed (ts ! i) \<and> finished_item (ts ! i) = v"
  shows "list_all is_closed ts" "mset (map snd items) = mset (map finished_item ts)"
proof -
  have sub: "set (map fst items) \<subseteq> {..<length ts}" using assms(3) by auto
  have "card (set (map fst items)) = length ts"
    using assms(1,2) distinct_card by fastforce
  then have eq: "set (map fst items) = {..<length ts}"
    using sub by (metis card_lessThan card_subset_eq finite_lessThan)
  show "list_all is_closed ts"
    unfolding list_all_length
  proof (intro allI impI)
    fix n assume "n < length ts"
    then have "n \<in> set (map fst items)" using eq by simp
    then obtain v where "(n, v) \<in> set items" by auto
    with assms(3) show "is_closed (ts ! n)" by blast
  qed
  have "set (map fst items) = set [0..<length ts]"
    using eq by auto
  then have "mset (map fst items) = mset [0..<length ts]"
    using set_eq_iff_mset_eq_distinct [OF assms(1) distinct_upt] by blast
  then have "image_mset (\<lambda>i. finished_item (ts ! i)) (mset (map fst items)) =
      image_mset (\<lambda>i. finished_item (ts ! i)) (mset [0..<length ts])"
    by (rule arg_cong)
  moreover have "map (\<lambda>i. finished_item (ts ! i)) (map fst items) = map snd items"
    unfolding map_map
  proof (rule map_cong [OF refl])
    fix x assume "x \<in> set items"
    then show "((\<lambda>i. finished_item (ts ! i)) \<circ> fst) x = snd x"
      using assms(3) [rule_format, of "fst x" "snd x"] by simp
  qed
  moreover have "map (\<lambda>i. finished_item (ts ! i)) [0..<length ts] = map finished_item (map (nth ts) [0..<length ts])"
    by (simp only: map_map comp_def)
  ultimately show "mset (map snd items) = mset (map finished_item ts)"
    by (metis map_nth mset_map)
qed

definition done_items :: "jtext \<Rightarrow> responses_state \<Rightarrow> (nat \<times> rs_item) list" where
  "done_items mid s =
     (if rs_messageItemOpen s then [(rs_messageOutputIndex s, message_done mid s)] else []) @
     map (\<lambda>f. (fi_outputIndex f, function_done f)) (jm_values (rs_functionItems s))"

lemma done_items_output: "map snd (done_items mid s) = rs_output mid s"
  by (simp add: done_items_def rs_output_def comp_def)

lemma done_items_fst: "map fst (done_items mid s) = map fst (open_message mid s @ open_functions s)"
  by (simp add: done_items_def open_message_def open_functions_def comp_def)

lemma rs_output_seq [simp]: "rs_output mid (s\<lparr>rs_seq := n\<rparr>) = rs_output mid s"
  by (simp add: rs_output_def message_done_def)

lemma find_distinct:
  "distinct (map g xs) \<Longrightarrow> x \<in> set xs \<Longrightarrow> find (\<lambda>y. g y = g x) xs = Some x"
proof (induction xs)
  case (Cons y ys)
  then show ?case
    by (cases "g y = g x") (auto simp: image_iff)
qed simp

text \<open>The closing frames of the message.\<close>

lemma rs_closeMessage_accepted:
  assumes "rs_live b mid s p"
  shows "\<exists>q. accept_all rs_accept p (snd (rs_closeMessage mid s)) = Some q \<and> rr_phase q = Running \<and>
      (\<exists>n. fst (rs_closeMessage mid s) = s\<lparr>rs_seq := n\<rparr> \<and> rr_next q = n) \<and>
      rr_tracks q = (if rs_messageItemOpen s
        then (rr_tracks p)[rs_messageOutputIndex s := ClosedItem (message_done mid s)] else rr_tracks p)"
proof (cases "rs_messageItemOpen s")
  case True
  let ?n = "rs_messageOutputIndex s"
  have "tracks_ok ((?n, OpenMessage mid (rs_text s)) # open_functions s) (rr_tracks p)"
    using assms True by (simp add: rs_live_def open_message_def)
  then have t: "?n < length (rr_tracks p)" "rr_tracks p ! ?n = OpenMessage mid (rs_text s)"
    by (simp_all add: tracks_ok_def)
  have "rr_phase p = Running" "rr_next p = rs_seq s"
    using assms by (simp_all add: rs_live_def)
  with t True show ?thesis
    by (simp add: rs_closeMessage_def rs_accept_def accept_body_def track_def set_track_def message_done_def)
next
  case False
  then show ?thesis
    using assms by (auto simp: rs_closeMessage_def rs_live_def intro!: exI [of _ "rs_seq s"])
qed

text \<open>What the tracks of a live translator say about its items, and the tracks after closing.\<close>

lemma live_tracks:
  assumes "tracks_ok (open_message mid s @ open_functions s) ts"
  shows "distinct (map fi_outputIndex (jm_values (rs_functionItems s)))"
    "length (done_items mid s) = length ts" "distinct (map fst (done_items mid s))"
    "rs_messageItemOpen s \<Longrightarrow> rs_messageOutputIndex s < length ts"
    "rs_messageItemOpen s \<Longrightarrow> g \<in> set (jm_values (rs_functionItems s)) \<Longrightarrow> fi_outputIndex g \<noteq> rs_messageOutputIndex s"
    "g \<in> set (jm_values (rs_functionItems s)) \<Longrightarrow>
       fi_outputIndex g < length ts \<and> ts ! fi_outputIndex g = open_function g"
proof -
  show "distinct (map fi_outputIndex (jm_values (rs_functionItems s)))"
    using assms by (simp add: tracks_ok_def open_functions_def comp_def)
  show "length (done_items mid s) = length ts"
    using assms arg_cong [OF done_items_fst, of length] by (simp add: tracks_ok_def)
  show "distinct (map fst (done_items mid s))"
    using assms by (simp only: done_items_fst tracks_ok_def)
  show "rs_messageItemOpen s \<Longrightarrow> rs_messageOutputIndex s < length ts"
    using assms by (simp add: tracks_ok_def open_message_def)
  show "rs_messageItemOpen s \<Longrightarrow> g \<in> set (jm_values (rs_functionItems s)) \<Longrightarrow>
      fi_outputIndex g \<noteq> rs_messageOutputIndex s"
    using assms by (auto simp: tracks_ok_def open_message_def open_functions_def image_iff)
  assume "g \<in> set (jm_values (rs_functionItems s))"
  then have "(fi_outputIndex g, open_function g) \<in> set (open_message mid s @ open_functions s)"
    by (auto simp: open_functions_def)
  with assms show "fi_outputIndex g < length ts \<and> ts ! fi_outputIndex g = open_function g"
    unfolding tracks_ok_def by blast
qed

lemma all_tracks_closed:
  assumes ok: "tracks_ok (open_message mid s @ open_functions s) ts"
    and ts': "ts' = foldl (\<lambda>ts f. ts[fi_outputIndex f := ClosedItem (function_done f)])
      (if rs_messageItemOpen s then ts[rs_messageOutputIndex s := ClosedItem (message_done mid s)] else ts)
      (jm_values (rs_functionItems s))"
  shows "list_all is_closed ts'" "mset (rs_output mid s) = mset (map finished_item ts')"
proof -
  let ?fs = "jm_values (rs_functionItems s)"
  note facts = live_tracks [OF ok]
  have len: "length ts' = length ts"
    by (simp add: ts' closed_tracks_length)
  have closed: "ts' ! i = ClosedItem v \<and> i < length ts" if iv: "(i, v) \<in> set (done_items mid s)" for i v
  proof (cases "\<exists>g \<in> set ?fs. i = fi_outputIndex g \<and> v = function_done g")
    case True
    then obtain g where "g \<in> set ?fs" "i = fi_outputIndex g" "v = function_done g" by blast
    with facts(6) show ?thesis
      by (simp add: ts' closed_tracks [OF facts(1)] find_distinct [OF facts(1)])
  next
    case False
    with iv have i: "rs_messageItemOpen s" "i = rs_messageOutputIndex s" "v = message_done mid s"
      by (auto simp: done_items_def split: if_splits)
    then have "find (\<lambda>f. fi_outputIndex f = i) ?fs = None"
      using facts(5) unfolding find_None_iff by blast
    with i facts(4) show ?thesis
      by (simp add: ts' closed_tracks [OF facts(1)])
  qed
  have "is_closed (ts' ! i) \<and> finished_item (ts' ! i) = v" if "(i, v) \<in> set (done_items mid s)" for i v
    using closed [OF that] by simp
  with closed show "list_all is_closed ts'" "mset (rs_output mid s) = mset (map finished_item ts')"
    using covered_items [of "done_items mid s" ts'] facts(2,3) len
    by (simp_all add: done_items_output)
qed

lemma rs_close_accepted:
  fixes mid s
  defines "f \<equiv> andThen (rs_closeMessage mid)
     (andThen (\<lambda>s. forEach rs_closeFunction (jm_values (rs_functionItems s)) s) (rs_complete mid))"
  assumes live: "rs_live b mid s p"
  shows "\<exists>q. accept_all rs_accept p (snd (f s)) = Some q \<and> rr_phase q = Finished"
    "rs_finalized (fst (f s)) = rs_finalized s"
proof -
  let ?fs = "jm_values (rs_functionItems s)"
  have ok: "tracks_ok (open_message mid s @ open_functions s) (rr_tracks p)"
    using live by (simp add: rs_live_def)
  obtain q n where q: "accept_all rs_accept p (snd (rs_closeMessage mid s)) = Some q" "rr_phase q = Running"
      "fst (rs_closeMessage mid s) = s\<lparr>rs_seq := n\<rparr>" "rr_next q = n"
      "rr_tracks q = (if rs_messageItemOpen s
        then (rr_tracks p)[rs_messageOutputIndex s := ClosedItem (message_done mid s)] else rr_tracks p)"
    using rs_closeMessage_accepted [OF live] by blast
  let ?s = "s\<lparr>rs_seq := n\<rparr>"
  have "\<forall>g \<in> set ?fs. track q (fi_outputIndex g) = Some (open_function g)"
  proof
    fix g assume "g \<in> set ?fs"
    then show "track q (fi_outputIndex g) = Some (open_function g)"
      using live_tracks(5,6) [OF ok, of g] by (auto simp: track_def q(5) nth_list_update)
  qed
  then obtain r where r: "accept_all rs_accept q (snd (forEach rs_closeFunction ?fs ?s)) = Some r"
      "rr_phase r = Running" "rr_next r = rs_seq (fst (forEach rs_closeFunction ?fs ?s))"
      "fst (forEach rs_closeFunction ?fs ?s) = s\<lparr>rs_seq := n + 2 * length ?fs\<rparr>"
      "rr_tracks r = foldl (\<lambda>ts f. ts[fi_outputIndex f := ClosedItem (function_done f)]) (rr_tracks q) ?fs"
    using close_functions [of q ?s ?fs] q(2,4) live_tracks(1) [OF ok] by auto
  note cover = all_tracks_closed [OF ok r(5) [unfolded q(5)]]
  have "list_all (same_text (rs_text s)) (rs_output mid s)"
    by (auto simp: rs_output_def same_text_def message_done_def function_done_def list_all_iff)
  with cover r(2,3,4) have "accept_all rs_accept r (snd (rs_complete mid (s\<lparr>rs_seq := n + 2 * length ?fs\<rparr>))) =
      Some (r\<lparr>rr_phase := Finished, rr_next := n + 2 * length ?fs + 1\<rparr>)"
    by (simp add: rs_complete_def rs_accept_def accept_body_def del: mset_map)
  with q(1,3) r(1,4) show "\<exists>q. accept_all rs_accept p (snd (f s)) = Some q \<and> rr_phase q = Finished"
    by (auto simp: f_def accept_all_append)
  show "rs_finalized (fst (f s)) = rs_finalized s"
    using q(3) r(4) by (simp add: f_def rs_complete_def)
qed

lemma rs_finalize_follows: "follows rs_accept (rs_sim False mid) (rs_finalize mid) rs_final"
proof (rule followsI)
  fix s p assume p: "rs_sim False mid s p"
  let ?s = "s\<lparr>rs_finalized := True\<rparr>"
  let ?close = "andThen (rs_closeMessage mid)
     (andThen (\<lambda>s. forEach rs_closeFunction (jm_values (rs_functionItems s)) s) (rs_complete mid))"
  have "rs_sim True mid ?s p"
    using p by (auto simp: rs_sim_def rs_live_def)
  then obtain q where q: "accept_all rs_accept p (snd (rs_start ?s)) = Some q" "rs_live True mid (fst (rs_start ?s)) q"
    using followsD [OF rs_start_follows] by blast
  then obtain r where r: "accept_all rs_accept q (snd (?close (fst (rs_start ?s)))) = Some r" "rr_phase r = Finished"
    using rs_close_accepted(1) by blast
  have "rs_finalized (fst (rs_start ?s))"
    using q(2) by (simp add: rs_live_def)
  then have "rs_finalized (fst (?close (fst (rs_start ?s))))"
    using rs_close_accepted(2) [OF q(2)] by simp
  moreover have "\<not> rs_finalized s"
    using p by (auto simp: rs_sim_def rs_live_def)
  then have "rs_finalize mid s = andThen rs_start ?close ?s"
    by (simp add: rs_finalize_def)
  ultimately show "\<exists>q. accept_all rs_accept p (snd (rs_finalize mid s)) = Some q \<and> rs_final (fst (rs_finalize mid s)) q"
    using q r by (auto simp: accept_all_append rs_final_def)
qed

interpretation responses: protocol rs_accept "rs_sim False mid" "rs_chunk num_text mid" "rs_finalize mid" rs_final
  by unfold_locales (rule rs_chunk_follows rs_finalize_follows | simp add: rs_final_def rs_finalize_def)+

text \<open>C24: The Responses translator keeps the Responses stream contract on every stream of canonical
  chunks: for any lines whose payloads conform to the declared chunk type and in which no chunk follows
  the first \<open>[DONE]\<close> (the code would go on emitting after \<open>response.completed\<close>), the events are numbered 0, 1, 2, ... without gaps; output items are added under indexes 0, 1, 2, ...; every fragment
  belongs to an item that is open; the text and arguments repeated by the closing events are exactly the
  concatenated fragments; every item is closed; and the stream ends with one completed response whose
  output is, as a multiset, exactly the closed items.\<close>

lemma responses_stream_conforms:
  assumes "list_all canonical_line (payload_lines lines)" "done_is_last (payload_lines lines)"
  shows "\<exists>q. accept_all rs_accept rs_reader_init (responses_stream num_text mid lines) = Some q \<and>
    rr_phase q = Finished \<and> map fst (responses_stream num_text mid lines) = [0..<rr_next q]"
proof -
  have "rs_sim False mid rs_init rs_reader_init"
    by (simp add: rs_sim_def rs_init_def)
  from responses.stream_accepted [OF this assms(2)] obtain q
    where q: "accept_all rs_accept rs_reader_init (responses_stream num_text mid lines) = Some q" "rr_phase q = Finished"
    by (auto simp: responses_stream_def rs_final_def)
  have "accept_all rs_accept p es = Some q \<Longrightarrow> map fst es = [rr_next p..<rr_next q] \<and> rr_next p \<le> rr_next q" for p es q
  proof (induction es arbitrary: p)
    case (Cons e es)
    then obtain p' where p': "rs_accept p e = Some p'" "accept_all rs_accept p' es = Some q"
      by (auto split: option.splits)
    then have "fst e = rr_next p" "rr_next p' = rr_next p + 1"
      by (auto simp: rs_accept_def split: prod.splits if_splits)
    with Cons.IH [OF p'(2)] show ?case
      by (simp add: upt_conv_Cons)
  qed simp
  from this [OF q(1)] q show ?thesis
    by (auto simp: rs_reader_init_def)
qed

lemma responses_stream_conforms_witness:
  "\<exists>q. accept_all rs_accept rs_reader_init (responses_stream demo_num_text (text_of ''msg_1'') demo_lines) = Some q \<and>
    rr_phase q = Finished \<and>
    map fst (responses_stream demo_num_text (text_of ''msg_1'') demo_lines) = [0..<rr_next q]"
  by (rule responses_stream_conforms [OF demo_canonical]) (simp add: demo_payloads)

text \<open>The items of the completed response are not always in the order of their indexes: when the model
  calls a tool before it speaks, the call has index 0 and the message index 1, but the message comes
  first in \<open>output\<close>.\<close>

definition late_message :: "rs_body list" where
  "late_message = map snd (snd (andThen
     (forEach (on_data (rs_chunk demo_num_text []) (rs_finalize [])) [Payload demo_tool_chunk, Payload demo_text_chunk])
     (rs_finalize []) rs_init))"

lemma message_listed_before_earlier_call:
  "ItemDone 0 (FunctionItem (text_of ''fc_1'') True (text_of ''t'') (text_of ''f'') (text_of ''{}'')) \<in> set late_message \<and>
   ItemDone 1 (MessageItem [] (Some (text_of ''Hi''))) \<in> set late_message \<and>
   last late_message =
     RespCompleted (text_of ''resp_7'') 0
       [MessageItem [] (Some (text_of ''Hi'')),
        FunctionItem (text_of ''fc_1'') True (text_of ''t'') (text_of ''f'') (text_of ''{}'')]
       (text_of ''Hi'') None"
  by (intro conjI; code_simp)

end
