(* ===== verification/EdgeStreams.thy ===== *)
theory EdgeStreams
  imports StreamTranslate Grouping
begin

text \<open>
  The remaining edge translators of \<open>packages/core/src/translate.ts\<close>: legacy text completions, Google
  GenAI and Cohere v2.
\<close>

section \<open>Legacy completions\<close>

datatype cm_event = CompletionChunk jtext rat jtext "jtext option" | CompletionDone

record completions_state =
  cm_id :: jtext
  cm_created :: rat
  cm_doneSent :: bool

definition cm_init :: completions_state where
  "cm_init = \<lparr>cm_id = text_of ''cmpl-stream'', cm_created = 0, cm_doneSent = False\<rparr>"

definition cm_setId :: "chat_chunk \<Rightarrow> completions_state \<Rightarrow> completions_state" where
  "cm_setId c s =
     (case truthy_text (cc_id c) of
        Some i \<Rightarrow>
          if cm_id s = text_of ''cmpl-stream''
          then s\<lparr>cm_id := rename_id ''cmpl-'' i,
                 cm_created := (case cc_created c of Some n \<Rightarrow> n | None \<Rightarrow> 0)\<rparr>
          else s
      | None \<Rightarrow> s)"

definition cm_choice :: "stream_choice \<Rightarrow> (completions_state, cm_event) emitter" where
  "cm_choice ch s =
     (let t = text_value (sc_content ch)
      in if t = [] \<and> truthy_text (sc_finish_reason ch) = None then (s, [])
         else (s, [CompletionChunk (cm_id s) (cm_created s) t (sc_finish_reason ch)]))"

definition cm_chunk :: "chat_chunk \<Rightarrow> (completions_state, cm_event) emitter" where
  "cm_chunk c =
     andThen (quiet (cm_setId c))
       (case cc_choice c of None \<Rightarrow> quiet id | Some ch \<Rightarrow> cm_choice ch)"

definition cm_done :: "(completions_state, cm_event) emitter" where
  "cm_done s = (s\<lparr>cm_doneSent := True\<rparr>, [CompletionDone])"

definition cm_flush :: "(completions_state, cm_event) emitter" where
  "cm_flush s = (if cm_doneSent s then (s, []) else (s, [CompletionDone]))"

definition completions_stream :: "jtext list \<Rightarrow> cm_event list" where
  "completions_stream lines = run_stream cm_chunk cm_done cm_flush cm_init lines"

definition json_or_null :: "jtext option \<Rightarrow> jtext json" where
  "json_or_null t = (case t of Some s \<Rightarrow> JStr s | None \<Rightarrow> JNull)"

fun cm_frame :: "(rat \<Rightarrow> jtext) \<Rightarrow> jtext \<Rightarrow> cm_event \<Rightarrow> jtext" where
  "cm_frame num_text model (CompletionChunk i created t fin) =
     sseEncode num_text None
       (jobj [(''id'', JStr i), (''object'', jt ''text_completion''), (''created'', JNum created),
              (''model'', JStr model),
              (''choices'', JArr [jobj [(''text'', JStr t), (''index'', jnat 0), (''logprobs'', JNull),
                 (''finish_reason'', json_or_null fin)]])])"
| "cm_frame num_text model CompletionDone = sseEncode_text None (text_of ''[DONE]'')"

section \<open>Google GenAI\<close>

definition mapGenAIFinish :: "jtext \<Rightarrow> jtext" where
  "mapGenAIFinish reason =
     (if reason = text_of ''length'' then text_of ''MAX_TOKENS''
      else if reason = text_of ''content_filter'' then text_of ''SAFETY''
      else text_of ''STOP'')"

record genai_call =
  gc_name :: jtext
  gc_args :: jtext

datatype ga_event =
    GenText jtext jtext
  | GenFinal "(jtext \<times> jtext json) list" jtext rat rat jtext

record genai_state =
  ga_finalized :: bool
  ga_finishReason :: jtext
  ga_modelVersion :: jtext
  ga_usage :: "stream_usage option"
  ga_toolCalls :: "(rat, genai_call) jmap"

definition ga_init :: "jtext \<Rightarrow> genai_state" where
  "ga_init model = \<lparr>ga_finalized = False, ga_finishReason = text_of ''STOP'',
     ga_modelVersion = model, ga_usage = None, ga_toolCalls = []\<rparr>"

definition empty_call :: genai_call where
  "empty_call = \<lparr>gc_name = [], gc_args = []\<rparr>"

text \<open>A delta starts a call under its index or continues it; a later name replaces the earlier one.\<close>

definition extend_call :: "tool_delta \<Rightarrow> genai_call \<Rightarrow> genai_call" where
  "extend_call tc call =
     \<lparr>gc_name = (case truthy_text (td_name tc) of Some n \<Rightarrow> n | None \<Rightarrow> gc_name call),
      gc_args = gc_args call @ (case td_arguments tc of Some a \<Rightarrow> a | None \<Rightarrow> [])\<rparr>"

definition ga_tool :: "(rat, genai_call) jmap \<Rightarrow> tool_delta \<Rightarrow> (rat, genai_call) jmap" where
  "ga_tool = merge_at tool_index (\<lambda>i. empty_call) extend_call"

definition parse_args :: "jtext \<Rightarrow> jtext json" where
  "parse_args args =
     (case json_parse (if args = [] then text_of ''{}'' else args) of Some v \<Rightarrow> v | None \<Rightarrow> JObj [])"

definition ga_parts :: "(rat, genai_call) jmap \<Rightarrow> (jtext \<times> jtext json) list" where
  "ga_parts calls = map (\<lambda>(i, c). (gc_name c, parse_args (gc_args c))) (sort_key fst calls)"

definition usage_tokens :: "(stream_usage \<Rightarrow> rat option) \<Rightarrow> stream_usage option \<Rightarrow> rat" where
  "usage_tokens f u = (case Option.bind u f of Some n \<Rightarrow> n | None \<Rightarrow> 0)"

definition ga_finalize :: "(genai_state, ga_event) emitter" where
  "ga_finalize s =
     (if ga_finalized s then (s, [])
      else (s\<lparr>ga_finalized := True\<rparr>,
            [GenFinal (ga_parts (ga_toolCalls s)) (ga_finishReason s)
               (usage_tokens su_prompt (ga_usage s)) (usage_tokens su_completion (ga_usage s))
               (ga_modelVersion s)]))"

definition ga_header :: "chat_chunk \<Rightarrow> genai_state \<Rightarrow> genai_state" where
  "ga_header c s =
     s\<lparr>ga_modelVersion := (case truthy_text (cc_model c) of Some m \<Rightarrow> m | None \<Rightarrow> ga_modelVersion s),
       ga_usage := (case cc_usage c of Some u \<Rightarrow> Some u | None \<Rightarrow> ga_usage s)\<rparr>"

definition ga_absorb :: "stream_choice \<Rightarrow> genai_state \<Rightarrow> genai_state" where
  "ga_absorb ch s =
     s\<lparr>ga_finishReason :=
         (case truthy_text (sc_finish_reason ch) of Some r \<Rightarrow> mapGenAIFinish r | None \<Rightarrow> ga_finishReason s),
       ga_toolCalls := foldl ga_tool (ga_toolCalls s) (sc_tool_calls ch)\<rparr>"

definition ga_content :: "jtext \<Rightarrow> (genai_state, ga_event) emitter" where
  "ga_content t s = (if t \<noteq> [] then (s, [GenText t (ga_modelVersion s)]) else (s, []))"

definition ga_chunk :: "chat_chunk \<Rightarrow> (genai_state, ga_event) emitter" where
  "ga_chunk c =
     andThen (quiet (ga_header c))
       (case cc_choice c of
          None \<Rightarrow> quiet id
        | Some ch \<Rightarrow> andThen (quiet (ga_absorb ch)) (ga_content (text_value (sc_content ch))))"

definition genai_stream :: "jtext \<Rightarrow> jtext list \<Rightarrow> ga_event list" where
  "genai_stream model lines = run_stream ga_chunk ga_finalize ga_finalize (ga_init model) lines"

fun ga_frame :: "ga_event \<Rightarrow> jtext json" where
  "ga_frame (GenText t mv) =
     jobj [(''candidates'', JArr [jobj [(''content'', jobj [(''role'', jt ''model''),
              (''parts'', JArr [jobj [(''text'', JStr t)]])]), (''index'', jnat 0)]]),
           (''modelVersion'', JStr mv)]"
| "ga_frame (GenFinal parts fin p c mv) =
     jobj [(''candidates'', JArr [jobj [(''content'', jobj [(''role'', jt ''model''),
              (''parts'', JArr (map (\<lambda>(n, a). jobj [(''functionCall'', jobj [(''name'', JStr n), (''args'', a)])]) parts))]),
              (''finishReason'', JStr fin), (''index'', jnat 0)]]),
           (''usageMetadata'', jobj [(''promptTokenCount'', JNum p), (''candidatesTokenCount'', JNum c),
              (''totalTokenCount'', JNum (p + c))]),
           (''modelVersion'', JStr mv)]"

section \<open>Cohere v2\<close>

definition mapCohereFinish :: "jtext \<Rightarrow> jtext" where
  "mapCohereFinish reason =
     (if reason = text_of ''length'' then text_of ''MAX_TOKENS''
      else if reason = text_of ''tool_calls'' then text_of ''TOOL_CALL''
      else text_of ''COMPLETE'')"

datatype co_event =
    CoMessageStart "jtext option"
  | CoContentStart
  | CoContentDelta jtext
  | CoContentEnd
  | CoToolStart rat jtext jtext
  | CoToolDelta rat jtext
  | CoToolEnd rat
  | CoMessageEnd jtext rat rat

record cohere_state =
  co_started :: bool
  co_finalized :: bool
  co_messageId :: jtext
  co_textOpen :: bool
  co_toolIndices :: "rat list"
  co_finishReason :: jtext
  co_usage :: "stream_usage option"

definition co_init :: cohere_state where
  "co_init = \<lparr>co_started = False, co_finalized = False, co_messageId = [], co_textOpen = False,
     co_toolIndices = [], co_finishReason = text_of ''COMPLETE'', co_usage = None\<rparr>"

definition co_start :: "(cohere_state, co_event) emitter" where
  "co_start s =
     (if co_started s then (s, [])
      else (s\<lparr>co_started := True\<rparr>,
            [CoMessageStart (if co_messageId s = [] then None else Some (co_messageId s))]))"

definition co_closeText :: "(cohere_state, co_event) emitter" where
  "co_closeText s =
     (if co_textOpen s then (s\<lparr>co_textOpen := False\<rparr>, [CoContentEnd]) else (s, []))"

definition co_message_end :: "(cohere_state, co_event) emitter" where
  "co_message_end s =
     (s, map CoToolEnd (co_toolIndices s) @
         [CoMessageEnd (co_finishReason s) (usage_tokens su_prompt (co_usage s))
            (usage_tokens su_completion (co_usage s))])"

definition co_finalize :: "(cohere_state, co_event) emitter" where
  "co_finalize s =
     (if co_finalized s then (s, [])
      else andThen co_start (andThen co_closeText co_message_end) (s\<lparr>co_finalized := True\<rparr>))"

definition co_content :: "jtext \<Rightarrow> (cohere_state, co_event) emitter" where
  "co_content t s =
     (if t = [] then (s, [])
      else (s\<lparr>co_textOpen := True\<rparr>,
            (if co_textOpen s then [] else [CoContentStart]) @ [CoContentDelta t]))"

definition co_openTool :: "(rat \<Rightarrow> jtext) \<Rightarrow> tool_delta \<Rightarrow> (cohere_state, co_event) emitter" where
  "co_openTool num_text tc s =
     (if tool_index tc \<in> set (co_toolIndices s) then (s, [])
      else andThen co_closeText
             (\<lambda>s. (s\<lparr>co_toolIndices := co_toolIndices s @ [tool_index tc]\<rparr>,
                [CoToolStart (tool_index tc)
                   (case td_id tc of Some i \<Rightarrow> i | None \<Rightarrow> text_of ''tool_'' @ num_text (tool_index tc))
                   (case td_name tc of Some n \<Rightarrow> n | None \<Rightarrow> [])])) s)"

definition co_arguments :: "tool_delta \<Rightarrow> (cohere_state, co_event) emitter" where
  "co_arguments tc s =
     (case truthy_text (td_arguments tc) of
        Some args \<Rightarrow> (s, [CoToolDelta (tool_index tc) args])
      | None \<Rightarrow> (s, []))"

definition co_tool :: "(rat \<Rightarrow> jtext) \<Rightarrow> tool_delta \<Rightarrow> (cohere_state, co_event) emitter" where
  "co_tool num_text tc = andThen (co_openTool num_text tc) (co_arguments tc)"

definition co_setId :: "chat_chunk \<Rightarrow> cohere_state \<Rightarrow> cohere_state" where
  "co_setId c s =
     (case truthy_text (cc_id c) of
        Some i \<Rightarrow> if co_messageId s = [] then s\<lparr>co_messageId := rename_id '''' i\<rparr> else s
      | None \<Rightarrow> s)"

definition co_setUsage :: "chat_chunk \<Rightarrow> cohere_state \<Rightarrow> cohere_state" where
  "co_setUsage c s = (case cc_usage c of Some u \<Rightarrow> s\<lparr>co_usage := Some u\<rparr> | None \<Rightarrow> s)"

definition co_setFinish :: "stream_choice \<Rightarrow> cohere_state \<Rightarrow> cohere_state" where
  "co_setFinish ch s =
     (case truthy_text (sc_finish_reason ch) of
        Some r \<Rightarrow> s\<lparr>co_finishReason := mapCohereFinish r\<rparr>
      | None \<Rightarrow> s)"

definition co_chunk :: "(rat \<Rightarrow> jtext) \<Rightarrow> chat_chunk \<Rightarrow> (cohere_state, co_event) emitter" where
  "co_chunk num_text c =
     andThen (quiet (co_setId c))
       (andThen co_start
         (andThen (quiet (co_setUsage c))
           (case cc_choice c of
              None \<Rightarrow> quiet id
            | Some ch \<Rightarrow>
                andThen (quiet (co_setFinish ch))
                  (andThen (co_content (text_value (sc_content ch)))
                    (forEach (co_tool num_text) (sc_tool_calls ch))))))"

definition cohere_stream :: "(rat \<Rightarrow> jtext) \<Rightarrow> jtext list \<Rightarrow> co_event list" where
  "cohere_stream num_text lines =
     run_stream (co_chunk num_text) co_finalize co_finalize co_init lines"

definition in_message :: "jtext json \<Rightarrow> jtext json" where
  "in_message v = jobj [(''message'', v)]"

fun co_frame :: "jtext \<Rightarrow> co_event \<Rightarrow> jtext json" where
  "co_frame model (CoMessageStart i) =
     jobj ([(''type'', jt ''message-start'')] @ (case i of Some x \<Rightarrow> [(''id'', JStr x)] | None \<Rightarrow> []) @
       [(''model'', JStr model), (''delta'', in_message (jobj [(''role'', jt ''assistant'')]))])"
| "co_frame model CoContentStart =
     jobj [(''type'', jt ''content-start''), (''index'', jnat 0),
       (''delta'', in_message (jobj [(''content'', jobj [(''type'', jt ''text''), (''text'', jt '''')])]))]"
| "co_frame model (CoContentDelta t) =
     jobj [(''type'', jt ''content-delta''), (''index'', jnat 0),
       (''delta'', in_message (jobj [(''content'', jobj [(''text'', JStr t)])]))]"
| "co_frame model CoContentEnd = jobj [(''type'', jt ''content-end''), (''index'', jnat 0)]"
| "co_frame model (CoToolStart i tid n) =
     jobj [(''type'', jt ''tool-call-start''), (''index'', JNum i),
       (''delta'', in_message (jobj [(''tool_calls'', jobj [(''id'', JStr tid), (''type'', jt ''function''),
          (''function'', jobj [(''name'', JStr n), (''arguments'', jt '''')])])]))]"
| "co_frame model (CoToolDelta i a) =
     jobj [(''type'', jt ''tool-call-delta''), (''index'', JNum i),
       (''delta'', in_message (jobj [(''tool_calls'', jobj [(''function'', jobj [(''arguments'', JStr a)])])]))]"
| "co_frame model (CoToolEnd i) = jobj [(''type'', jt ''tool-call-end''), (''index'', JNum i)]"
| "co_frame model (CoMessageEnd fin p c) =
     jobj [(''type'', jt ''message-end''),
       (''delta'', jobj [(''finish_reason'', JStr fin),
          (''usage'', jobj [(''billed_units'', jobj [(''input_tokens'', JNum p), (''output_tokens'', JNum c)])])])]"

section \<open>The Cohere protocol\<close>

text \<open>One \<open>message-start\<close>; content fragments only inside a content block; each tool call started once,
  outside a content block, before its fragments; all of them ended, in the order they were started,
  before the single \<open>message-end\<close>.\<close>

datatype co_phase = CoBefore | CoOpen bool "rat list" | CoEnding "rat list" | CoDone

fun co_accept :: "co_phase \<Rightarrow> co_event \<Rightarrow> co_phase option" where
  "co_accept CoBefore (CoMessageStart i) = Some (CoOpen False [])"
| "co_accept (CoOpen text ts) CoContentStart = (if text then None else Some (CoOpen True ts))"
| "co_accept (CoOpen text ts) (CoContentDelta t) = (if text then Some (CoOpen True ts) else None)"
| "co_accept (CoOpen text ts) CoContentEnd = (if text then Some (CoOpen False ts) else None)"
| "co_accept (CoOpen text ts) (CoToolStart i tid n) =
     (if text \<or> i \<in> set ts then None else Some (CoOpen False (ts @ [i])))"
| "co_accept (CoOpen text ts) (CoToolDelta i a) = (if i \<in> set ts then Some (CoOpen text ts) else None)"
| "co_accept (CoOpen text ts) (CoToolEnd i) =
     (if \<not> text \<and> ts \<noteq> [] \<and> hd ts = i then Some (CoEnding (tl ts)) else None)"
| "co_accept (CoOpen text ts) (CoMessageEnd fin p c) = (if \<not> text \<and> ts = [] then Some CoDone else None)"
| "co_accept (CoEnding ts) (CoToolEnd i) = (if ts \<noteq> [] \<and> hd ts = i then Some (CoEnding (tl ts)) else None)"
| "co_accept (CoEnding ts) (CoMessageEnd fin p c) = (if ts = [] then Some CoDone else None)"
| "co_accept _ _ = None"

definition co_live :: "cohere_state \<Rightarrow> co_phase \<Rightarrow> bool" where
  "co_live s p \<longleftrightarrow> \<not> co_finalized s \<and> co_started s \<and> p = CoOpen (co_textOpen s) (co_toolIndices s)"

definition co_sim :: "cohere_state \<Rightarrow> co_phase \<Rightarrow> bool" where
  "co_sim s p \<longleftrightarrow>
     co_live s p \<or>
     p = CoBefore \<and> \<not> co_finalized s \<and> \<not> co_started s \<and> \<not> co_textOpen s \<and> co_toolIndices s = []"

definition co_final :: "cohere_state \<Rightarrow> co_phase \<Rightarrow> bool" where
  "co_final s p \<longleftrightarrow> co_finalized s \<and> p = CoDone"

lemma co_chunk_follows: "follows co_accept co_sim (co_chunk num_text c) co_sim"
proof -
  have id: "follows co_accept co_sim (quiet (co_setId c)) co_sim"
    by (rule follows_quiet) (auto simp: co_setId_def co_sim_def co_live_def split: option.splits)
  have start: "follows co_accept co_sim co_start co_live"
    by (rule followsI) (auto simp: co_start_def co_sim_def co_live_def)
  have usage: "follows co_accept co_live (quiet (co_setUsage c)) co_live"
    by (rule follows_quiet) (auto simp: co_setUsage_def co_live_def split: option.splits)
  have fin: "follows co_accept co_live (quiet (co_setFinish ch)) co_live" for ch
    by (rule follows_quiet) (auto simp: co_setFinish_def co_live_def split: option.splits)
  have content: "follows co_accept co_live (co_content t) co_live" for t
    by (rule followsI) (auto simp: co_content_def co_live_def)
  have tool: "follows co_accept co_live (co_openTool num_text tc) (\<lambda>s p. co_live s p \<and> tool_index tc \<in> set (co_toolIndices s))"
    for tc
    by (rule followsI) (auto simp: co_openTool_def co_closeText_def co_live_def)
  have args: "follows co_accept (\<lambda>s p. co_live s p \<and> tool_index tc \<in> set (co_toolIndices s)) (co_arguments tc) co_live"
    for tc
    by (rule followsI) (auto simp: co_arguments_def co_live_def split: option.splits)
  have "follows co_accept co_live (co_tool num_text tc) co_live" for tc
    unfolding co_tool_def by (rule follows_andThen [OF tool args])
  then have choice: "follows co_accept co_live (andThen (quiet (co_setFinish ch)) (andThen (co_content t)
      (forEach (co_tool num_text) tcs))) co_live" for ch t tcs
    by (intro follows_andThen [OF fin] follows_andThen [OF content] follows_forEach)
  have rest: "follows co_accept co_live
      (case cc_choice c of None \<Rightarrow> quiet id
       | Some ch \<Rightarrow> andThen (quiet (co_setFinish ch)) (andThen (co_content (text_value (sc_content ch)))
                     (forEach (co_tool num_text) (sc_tool_calls ch)))) co_sim"
    using choice by (fastforce simp: follows_def co_sim_def split: option.split)
  show ?thesis
    unfolding co_chunk_def
    by (rule follows_andThen [OF id follows_andThen [OF start follows_andThen [OF usage rest]]])
qed

lemma co_ends_accepted:
  "accept_all co_accept (CoEnding ts) (map CoToolEnd ts @ [CoMessageEnd fin p c]) = Some CoDone"
  by (induction ts) simp_all

lemma co_finalize_follows: "follows co_accept co_sim co_finalize co_final"
proof (rule followsI)
  fix s p assume p: "co_sim s p"
  have tail: "accept_all co_accept (CoOpen False ts) (map CoToolEnd ts @ [CoMessageEnd fin q c]) = Some CoDone"
    for ts fin q c
    using co_ends_accepted by (cases ts) simp_all
  show "\<exists>q. accept_all co_accept p (snd (co_finalize s)) = Some q \<and> co_final (fst (co_finalize s)) q"
    using p tail
    by (auto simp: co_finalize_def co_sim_def co_live_def co_start_def co_closeText_def co_message_end_def
        co_final_def)
qed

interpretation cohere: protocol co_accept co_sim "co_chunk num_text" co_finalize co_final
  by unfold_locales (rule co_chunk_follows co_finalize_follows | simp add: co_final_def co_finalize_def)+

text \<open>The Cohere translator keeps the Cohere stream contract on every input: one \<open>message-start\<close>
  first; content fragments only between \<open>content-start\<close> and \<open>content-end\<close>; every tool call started once,
  never inside a content block, fed only after its start, and ended exactly once before the single
  \<open>message-end\<close> that closes the stream.\<close>

lemma cohere_stream_conforms:
  assumes "done_is_last (payload_lines lines)"
  shows "accept_all co_accept CoBefore (cohere_stream num_text lines) = Some CoDone"
proof -
  have "co_sim co_init CoBefore"
    by (simp add: co_sim_def co_init_def)
  from cohere.stream_accepted [OF this assms] show ?thesis
    by (auto simp: cohere_stream_def co_final_def)
qed

lemma cohere_stream_conforms_witness:
  "accept_all co_accept CoBefore (cohere_stream demo_num_text demo_lines) = Some CoDone"
  by (rule cohere_stream_conforms) (simp add: demo_payloads)

text \<open>The text does not always stream through a single block: content after a tool call opens block 0 a
  second time.\<close>

definition text_tool_text :: "co_event list" where
  "text_tool_text = snd (andThen
     (forEach (on_data (co_chunk demo_num_text) co_finalize)
       [Payload demo_text_chunk, Payload demo_tool_chunk, Payload demo_text_chunk])
     co_finalize co_init)"

lemma second_content_block: "length (filter (\<lambda>e. case e of CoContentStart \<Rightarrow> True | _ \<Rightarrow> False) text_tool_text) = 2"
  by code_simp

section \<open>GenAI calls are assembled from their fragments\<close>

definition chunk_tools :: "chat_chunk \<Rightarrow> tool_delta list" where
  "chunk_tools c = (case cc_choice c of None \<Rightarrow> [] | Some ch \<Rightarrow> sc_tool_calls ch)"

definition fragments :: "rat \<Rightarrow> tool_delta list \<Rightarrow> tool_delta list" where
  "fragments i tcs = filter (\<lambda>tc. tool_index tc = i) tcs"

definition last_name :: "tool_delta list \<Rightarrow> jtext" where
  "last_name tcs =
     (case rev (List.map_filter (\<lambda>tc. truthy_text (td_name tc)) tcs) of n # _ \<Rightarrow> n | [] \<Rightarrow> [])"

definition all_args :: "tool_delta list \<Rightarrow> jtext" where
  "all_args tcs = concat (map (\<lambda>tc. case td_arguments tc of Some a \<Rightarrow> a | None \<Rightarrow> []) tcs)"

definition assembled :: "tool_delta list \<Rightarrow> (jtext \<times> jtext json) list" where
  "assembled tcs =
     map (\<lambda>i. (last_name (fragments i tcs), parse_args (all_args (fragments i tcs))))
       (sorted_list_of_set (set (map tool_index tcs)))"

lemma extend_calls:
  "foldl (\<lambda>c tc. extend_call tc c) empty_call tcs = \<lparr>gc_name = last_name tcs, gc_args = all_args tcs\<rparr>"
  by (induction tcs rule: rev_induct)
    (auto simp: empty_call_def last_name_def all_args_def extend_call_def map_filter_def split: option.split)

lemma ga_parts_assembled: "ga_parts (foldl ga_tool [] tcs) = assembled tcs"
proof -
  have "merged tool_index (\<lambda>i. empty_call) extend_call tcs i =
      \<lparr>gc_name = last_name (fragments i tcs), gc_args = all_args (fragments i tcs)\<rparr>" for i
    by (simp add: merged_def extend_calls fragments_def)
  then show ?thesis
    using merge_all_sorted [of tool_index "\<lambda>i. empty_call" extend_call tcs]
    by (simp add: ga_parts_def ga_tool_def merge_all_def [symmetric] assembled_def)
qed

lemma map_filter_append: "List.map_filter f (xs @ ys) = List.map_filter f xs @ List.map_filter f ys"
  by (simp add: map_filter_def)

fun ga_text :: "ga_event \<Rightarrow> jtext option" where
  "ga_text (GenText t mv) = Some t"
| "ga_text (GenFinal parts fin p c mv) = None"

lemma ga_chunk_effect:
  "ga_finalized (fst (ga_chunk c s)) = ga_finalized s"
  "ga_toolCalls (fst (ga_chunk c s)) = foldl ga_tool (ga_toolCalls s) (chunk_tools c)"
  "None \<notin> ga_text ` set (snd (ga_chunk c s))"
  "concat (List.map_filter ga_text (snd (ga_chunk c s))) = chunk_content c"
  by (cases "cc_choice c";
      simp add: ga_chunk_def ga_header_def ga_absorb_def ga_content_def chunk_tools_def chunk_content_def map_filter_def)+

lemma ga_chunks_effect:
  fixes vs s
  defines "r \<equiv> forEach (on_data ga_chunk ga_finalize) (map Payload vs) s"
  shows "ga_finalized (fst r) = ga_finalized s \<and>
    ga_toolCalls (fst r) = foldl ga_tool (ga_toolCalls s) (concat (map chunk_tools (map chunk_of vs))) \<and>
    None \<notin> ga_text ` set (snd r) \<and>
    concat (List.map_filter ga_text (snd r)) = concat (map chunk_content (map chunk_of vs))"
  unfolding r_def
proof (induction vs arbitrary: s)
  case (Cons v vs)
  then show ?case
    by (simp add: forEach_Cons ga_chunk_effect map_filter_append image_Un del: forEach.simps(2))
qed (simp add: map_filter_def)

lemma chunks_in_shape: "chunks_in (map Payload vs @ replicate k DoneLine) = map chunk_of vs"
proof -
  have "chunks_in (replicate k DoneLine) = []" by (induction k) simp_all
  then show ?thesis by (induction vs) simp_all
qed

text \<open>The GenAI translator delivers the whole answer and every tool call exactly once. The text
  frames spell the concatenated contents, and the stream ends with exactly one terminal frame whose
  function calls are, in increasing index order, one per index the deltas used, each with the last
  non-empty name and with arguments parsed from the concatenation of all its fragments (the empty
  object when that is not JSON).\<close>

lemma genai_stream_complete:
  assumes "done_is_last (payload_lines lines)"
  shows "\<exists>es fin p c mv.
    genai_stream model lines =
      es @ [GenFinal (assembled (concat (map chunk_tools (chunks_in (payload_lines lines))))) fin p c mv] \<and>
    None \<notin> ga_text ` set es \<and>
    concat (List.map_filter ga_text es) = concat (map chunk_content (chunks_in (payload_lines lines)))"
proof -
  obtain vs k where ds: "payload_lines lines = map Payload vs @ replicate k DoneLine"
    using done_is_last_shape [OF assms] by (auto simp: payload_lines_def)
  let ?r = "forEach (on_data ga_chunk ga_finalize) (map Payload vs) (ga_init model)"
  have r: "\<not> ga_finalized (fst ?r)"
    "ga_toolCalls (fst ?r) = foldl ga_tool [] (concat (map chunk_tools (map chunk_of vs)))"
    "None \<notin> ga_text ` set (snd ?r)"
    "concat (List.map_filter ga_text (snd ?r)) = concat (map chunk_content (map chunk_of vs))"
    using ga_chunks_effect [of vs "ga_init model"] by (simp_all add: ga_init_def)
  have again: "ga_finalized s \<Longrightarrow> forEach (on_data ga_chunk ga_finalize) (replicate j DoneLine) s = (s, [])" for j s
    by (induction j) (simp_all add: ga_finalize_def andThen_def)
  have "genai_stream model lines = snd ?r @ snd (ga_finalize (fst ?r))"
    by (cases k) (simp_all add: genai_stream_def run_stream_def forEach_lines ds forEach_append again r(1) ga_finalize_def)
  then show ?thesis
    using r by (auto simp: ga_finalize_def ga_parts_assembled ds chunks_in_shape)
qed

lemma genai_stream_complete_witness:
  "\<exists>es fin p c mv.
    genai_stream (text_of ''m'') demo_lines =
      es @ [GenFinal (assembled (concat (map chunk_tools (chunks_in (payload_lines demo_lines))))) fin p c mv] \<and>
    None \<notin> ga_text ` set es \<and>
    concat (List.map_filter ga_text es) = concat (map chunk_content (chunks_in (payload_lines demo_lines)))"
  by (rule genai_stream_complete) (simp add: demo_payloads)

section \<open>Completions always end\<close>

fun cm_text :: "cm_event \<Rightarrow> jtext option" where
  "cm_text (CompletionChunk i c t fin) = Some t"
| "cm_text CompletionDone = None"

lemma cm_chunk_effect:
  "cm_doneSent (fst (cm_chunk c s)) = cm_doneSent s"
  "None \<notin> cm_text ` set (snd (cm_chunk c s))"
  "concat (List.map_filter cm_text (snd (cm_chunk c s))) = chunk_content c"
proof -
  have id: "cm_doneSent (cm_setId c s) = cm_doneSent s"
    by (simp add: cm_setId_def split: option.split)
  show "cm_doneSent (fst (cm_chunk c s)) = cm_doneSent s"
    "None \<notin> cm_text ` set (snd (cm_chunk c s))"
    "concat (List.map_filter cm_text (snd (cm_chunk c s))) = chunk_content c"
    by (cases "cc_choice c";
        simp add: cm_chunk_def cm_choice_def Let_def chunk_content_def map_filter_def id)+
qed

lemma cm_lines_effect:
  fixes ds s
  defines "r \<equiv> forEach (on_data cm_chunk cm_done) ds s"
  shows "cm_doneSent (fst r) = (cm_doneSent s \<or> DoneLine \<in> set ds) \<and>
    concat (List.map_filter cm_text (snd r)) = concat (map chunk_content (chunks_in ds)) \<and>
    (CompletionDone \<in> set (snd r) \<longleftrightarrow> DoneLine \<in> set ds)"
  unfolding r_def
proof (induction ds arbitrary: s)
  case (Cons d ds)
  have "CompletionDone \<notin> set (snd (cm_chunk c s))" for c
    using cm_chunk_effect(2) [of c s] by (auto simp: image_iff)
  with Cons show ?case
    by (cases d) (auto simp: forEach_Cons cm_chunk_effect map_filter_append cm_done_def map_filter_simps simp del: forEach.simps(2))
qed (simp add: map_filter_def)

lemma completions_stream_complete:
  "concat (List.map_filter cm_text (completions_stream lines)) =
     concat (map chunk_content (chunks_in (payload_lines lines))) \<and>
   CompletionDone \<in> set (completions_stream lines)"
  using cm_lines_effect [of "payload_lines lines" cm_init]
  by (simp add: completions_stream_def run_stream_def forEach_lines cm_flush_def map_filter_append
      map_filter_simps cm_init_def)

end
