(* ===== verification/ConcurrencyGauge.thy ===== *)
theory ConcurrencyGauge
  imports Prelude
begin

text \<open>
  \<open>packages/telemetry/src/concurrency.ts\<close>: the gauge of open connections. A connection is
  counted from \<open>open()\<close> until its handle is closed; the lifetimes of the last 1000 closed
  connections sit in a ring buffer with a running sum. \<open>performance.now()\<close> is an argument and
  the sums are exact rationals, so the resummation the code does against rounding drift does not
  change them.

  The abstract side is the list of things that happened: who opened and closed when. The gauge,
  with its tokens, ring buffer and counters, reports exactly what that list says.
\<close>

section \<open>The gauge\<close>

definition LIFETIME_WINDOW :: nat where
  "LIFETIME_WINDOW = 1000"

lemma window_pos [simp]: "0 < LIFETIME_WINDOW" "LIFETIME_WINDOW \<noteq> 0"
  by (simp_all add: LIFETIME_WINDOW_def)

record gauge =
  cg_active :: int
  cg_peak :: int
  cg_total :: int
  cg_completed :: int
  cg_maxLifetimeMs :: rat
  cg_dispatching :: int
  cg_peakDispatching :: int
  cg_open :: "(int, rat) jmap"
  cg_nextToken :: int
  cg_ring :: "rat list"
  cg_ringCount :: nat
  cg_ringIndex :: nat
  cg_ringSum :: rat

definition new_gauge :: gauge where
  "new_gauge = \<lparr>cg_active = 0, cg_peak = 0, cg_total = 0, cg_completed = 0, cg_maxLifetimeMs = 0,
     cg_dispatching = 0, cg_peakDispatching = 0, cg_open = [], cg_nextToken = 1,
     cg_ring = replicate LIFETIME_WINDOW 0, cg_ringCount = 0, cg_ringIndex = 0, cg_ringSum = 0\<rparr>"

text \<open>The ring alone: count, index, sum and slots after one more lifetime.\<close>

definition recordLifetime :: "gauge \<Rightarrow> rat \<Rightarrow> gauge" where
  "recordLifetime g ms =
     (let full = cg_ringCount g = LIFETIME_WINDOW;
          sum1 = (if full then cg_ringSum g - cg_ring g ! cg_ringIndex g else cg_ringSum g);
          count = (if full then cg_ringCount g else cg_ringCount g + 1);
          ring = (cg_ring g)[cg_ringIndex g := ms];
          index = (cg_ringIndex g + 1) mod LIFETIME_WINDOW
      in g\<lparr>cg_ringCount := count, cg_ring := ring, cg_ringIndex := index,
           cg_ringSum := (if index = 0 then sum_list (take count ring) else sum1 + ms)\<rparr>)"

text \<open>\<open>open()\<close> hands out a closure over the token and a flag of its own.\<close>

record handle =
  ch_token :: int
  ch_closed :: bool

definition gauge_open :: "gauge \<Rightarrow> rat \<Rightarrow> gauge \<times> handle" where
  "gauge_open g now =
     (let active = cg_active g + 1
      in (g\<lparr>cg_nextToken := cg_nextToken g + 1, cg_open := jm_set (cg_open g) (cg_nextToken g) now,
            cg_active := active, cg_total := cg_total g + 1,
            cg_peak := (if active > cg_peak g then active else cg_peak g)\<rparr>,
          \<lparr>ch_token = cg_nextToken g, ch_closed = False\<rparr>))"

definition gauge_close :: "gauge \<Rightarrow> int \<Rightarrow> rat \<Rightarrow> gauge" where
  "gauge_close g token now =
     (case jm_get (cg_open g) token of
        None \<Rightarrow> g
      | Some start \<Rightarrow>
          (let elapsed = now - start
           in recordLifetime
                (g\<lparr>cg_open := jm_delete (cg_open g) token, cg_active := cg_active g - 1,
                   cg_completed := cg_completed g + 1,
                   cg_maxLifetimeMs := (if elapsed > cg_maxLifetimeMs g then elapsed else cg_maxLifetimeMs g)\<rparr>)
                elapsed))"

definition handle_close :: "gauge \<Rightarrow> handle \<Rightarrow> rat \<Rightarrow> gauge \<times> handle" where
  "handle_close g h now =
     (if ch_closed h then (g, h) else (gauge_close g (ch_token h) now, h\<lparr>ch_closed := True\<rparr>))"

definition enterDispatch :: "gauge \<Rightarrow> gauge" where
  "enterDispatch g =
     (let d = cg_dispatching g + 1
      in g\<lparr>cg_dispatching := d,
           cg_peakDispatching := (if d > cg_peakDispatching g then d else cg_peakDispatching g)\<rparr>)"

definition exitDispatch :: "gauge \<Rightarrow> gauge" where
  "exitDispatch g = (if cg_dispatching g > 0 then g\<lparr>cg_dispatching := cg_dispatching g - 1\<rparr> else g)"

text \<open>\<open>trackDispatch\<close>: the \<open>finally\<close> runs whether the handler returns or throws.\<close>

definition trackDispatch :: "(gauge \<Rightarrow> ('e + 'a) \<times> gauge) \<Rightarrow> gauge \<Rightarrow> ('e + 'a) \<times> gauge" where
  "trackDispatch fn g = (let (r, g1) = fn (enterDispatch g) in (r, exitDispatch g1))"

definition longestOpenMs :: "gauge \<Rightarrow> rat \<Rightarrow> int" where
  "longestOpenMs g now =
     (case jm_values (cg_open g) of
        [] \<Rightarrow> 0
      | s # ss \<Rightarrow> js_round (now - foldl (\<lambda>oldest start. if start < oldest then start else oldest) s ss))"

record snapshot =
  sn_active :: int
  sn_peak :: int
  sn_total :: int
  sn_completed :: int
  sn_avgLifetimeMs :: int
  sn_maxLifetimeMs :: int
  sn_longestOpenMs :: int
  sn_dispatching :: int
  sn_peakDispatching :: int

definition gauge_snapshot :: "gauge \<Rightarrow> rat \<Rightarrow> snapshot" where
  "gauge_snapshot g now =
     \<lparr>sn_active = cg_active g, sn_peak = cg_peak g, sn_total = cg_total g, sn_completed = cg_completed g,
      sn_avgLifetimeMs = (if cg_ringCount g = 0 then 0 else js_round (cg_ringSum g / of_nat (cg_ringCount g))),
      sn_maxLifetimeMs = js_round (cg_maxLifetimeMs g), sn_longestOpenMs = longestOpenMs g now,
      sn_dispatching = cg_dispatching g, sn_peakDispatching = cg_peakDispatching g\<rparr>"

section \<open>What happened\<close>

datatype happening = Opened rat | Closed nat rat | DispatchBegan | DispatchEnded

text \<open>The process: the gauge and the handles given out so far. \<open>Closed k t\<close> is a call of
  \<open>close()\<close> on the \<open>k\<close>-th of them.\<close>

type_synonym gauged = "gauge \<times> handle list"

definition gauge_step :: "gauged \<Rightarrow> happening \<Rightarrow> gauged" where
  "gauge_step s e =
     (case e of
        Opened t \<Rightarrow> (let (g, h) = gauge_open (fst s) t in (g, snd s @ [h]))
      | Closed k t \<Rightarrow>
          (if k < length (snd s)
           then (let (g, h) = handle_close (fst s) (snd s ! k) t in (g, (snd s)[k := h])) else s)
      | DispatchBegan \<Rightarrow> (enterDispatch (fst s), snd s)
      | DispatchEnded \<Rightarrow> (exitDispatch (fst s), snd s))"

definition gauge_run :: "happening list \<Rightarrow> gauged" where
  "gauge_run = foldl gauge_step (new_gauge, [])"

text \<open>The reading of the list: each connection with its start and, once closed, its end; the
  lifetimes in the order they ended.\<close>

record history =
  hi_conns :: "(rat \<times> bool) list"
  hi_lifetimes :: "rat list"
  hi_depth :: nat

definition history_step :: "history \<Rightarrow> happening \<Rightarrow> history" where
  "history_step h e =
     (case e of
        Opened t \<Rightarrow> h\<lparr>hi_conns := hi_conns h @ [(t, True)]\<rparr>
      | Closed k t \<Rightarrow>
          (if k < length (hi_conns h) \<and> snd (hi_conns h ! k)
           then h\<lparr>hi_conns := (hi_conns h)[k := (fst (hi_conns h ! k), False)],
                  hi_lifetimes := hi_lifetimes h @ [t - fst (hi_conns h ! k)]\<rparr>
           else h)
      | DispatchBegan \<Rightarrow> h\<lparr>hi_depth := hi_depth h + 1\<rparr>
      | DispatchEnded \<Rightarrow> h\<lparr>hi_depth := hi_depth h - 1\<rparr>)"

definition history_of :: "happening list \<Rightarrow> history" where
  "history_of = foldl history_step \<lparr>hi_conns = [], hi_lifetimes = [], hi_depth = 0\<rparr>"

definition open_starts :: "history \<Rightarrow> rat list" where
  "open_starts h = map fst (filter snd (hi_conns h))"

definition max_over_time :: "(history \<Rightarrow> nat) \<Rightarrow> happening list \<Rightarrow> nat" where
  "max_over_time f es = Max ((\<lambda>n. f (history_of (take n es))) ` {..length es})"

definition last_lifetimes :: "history \<Rightarrow> rat list" where
  "last_lifetimes h = drop (length (hi_lifetimes h) - LIFETIME_WINDOW) (hi_lifetimes h)"

definition mean_of :: "rat list \<Rightarrow> rat" where
  "mean_of xs = sum_list xs / of_nat (length xs)"

definition history_snapshot :: "happening list \<Rightarrow> rat \<Rightarrow> snapshot" where
  "history_snapshot es now =
     (let h = history_of es
      in \<lparr>sn_active = int (length (open_starts h)),
          sn_peak = int (max_over_time (\<lambda>h. length (open_starts h)) es),
          sn_total = int (length (hi_conns h)), sn_completed = int (length (hi_lifetimes h)),
          sn_avgLifetimeMs = (if hi_lifetimes h = [] then 0 else js_round (mean_of (last_lifetimes h))),
          sn_maxLifetimeMs = js_round (Max (insert 0 (set (hi_lifetimes h)))),
          sn_longestOpenMs = (if open_starts h = [] then 0 else js_round (now - Min (set (open_starts h)))),
          sn_dispatching = int (hi_depth h), sn_peakDispatching = int (max_over_time hi_depth es)\<rparr>)"

section \<open>The ring buffer holds the last lifetimes\<close>

definition ring_holds :: "gauge \<Rightarrow> rat list \<Rightarrow> bool" where
  "ring_holds g ls \<longleftrightarrow>
     length (cg_ring g) = LIFETIME_WINDOW \<and> cg_ringCount g = min (length ls) LIFETIME_WINDOW \<and>
     cg_ringIndex g = length ls mod LIFETIME_WINDOW \<and>
     (\<forall>j<length ls. length ls \<le> j + LIFETIME_WINDOW \<longrightarrow> cg_ring g ! (j mod LIFETIME_WINDOW) = ls ! j) \<and>
     cg_ringSum g = sum_list (drop (length ls - LIFETIME_WINDOW) ls)"

lemma mod_window_inj:
  fixes i j W :: nat
  assumes "i mod W = j mod W" "i < j" "j < i + W"
  shows False
proof -
  from assms(1,2) have "W dvd j - i" using mod_eq_dvd_iff_nat [of i j W] by simp
  with assms(2,3) show False by (auto dest: dvd_imp_le)
qed

text \<open>On the wrap the slots are in the order of arrival.\<close>

lemma ring_in_order:
  assumes "length ring = W" "0 < W" "length ls mod W = 0" "ls \<noteq> []"
    "\<forall>j<length ls. length ls \<le> j + W \<longrightarrow> ring ! (j mod W) = ls ! j"
  shows "ring = drop (length ls - W) ls"
proof (rule nth_equalityI)
  from assms(2,3) have "W dvd length ls" by (simp add: mod_eq_0_iff_dvd)
  with assms(4) have le: "W \<le> length ls" by (simp add: dvd_imp_le)
  then show "length ring = length (drop (length ls - W) ls)" using assms(1) by simp
  fix i assume "i < length ring"
  then have i: "i < W" using assms(1) by simp
  have "(length ls - W + i) mod W = i"
    using \<open>W dvd length ls\<close> le i by (metis dvd_diff_nat dvd_refl mod_add_left_eq dvd_imp_mod_0 add_0 mod_less)
  then show "ring ! i = drop (length ls - W) ls ! i"
    using assms(5)[rule_format, of "length ls - W + i"] le i by simp
qed

lemma drop_window_snoc:
  fixes x :: rat
  assumes "W \<le> length ls" "0 < W"
  shows "sum_list (drop (Suc (length ls) - W) (ls @ [x])) = sum_list (drop (length ls - W) ls) - ls ! (length ls - W) + x"
proof -
  have "drop (length ls - W) ls = ls ! (length ls - W) # drop (Suc (length ls - W)) ls"
    using assms by (simp add: Cons_nth_drop_Suc)
  then show ?thesis using assms by (simp add: Suc_diff_le)
qed

lemma ring_slots:
  assumes "ring_holds g ls"
  shows "\<forall>j<length (ls @ [ms]). length (ls @ [ms]) \<le> j + LIFETIME_WINDOW \<longrightarrow>
    (cg_ring g)[cg_ringIndex g := ms] ! (j mod LIFETIME_WINDOW) = (ls @ [ms]) ! j"
proof (intro allI impI)
  fix j assume j: "j < length (ls @ [ms])" "length (ls @ [ms]) \<le> j + LIFETIME_WINDOW"
  show "(cg_ring g)[cg_ringIndex g := ms] ! (j mod LIFETIME_WINDOW) = (ls @ [ms]) ! j"
  proof (cases "j = length ls")
    case True
    with assms show ?thesis by (simp add: ring_holds_def)
  next
    case False
    with j have "j mod LIFETIME_WINDOW \<noteq> length ls mod LIFETIME_WINDOW"
      using mod_window_inj [of j LIFETIME_WINDOW "length ls"] by auto
    with assms False j show ?thesis by (simp add: ring_holds_def nth_append)
  qed
qed

lemma ring_kept:
  assumes "ring_holds g ls"
  shows "ring_holds (recordLifetime g ms) (ls @ [ms])"
proof -
  let ?r = "(cg_ring g)[cg_ringIndex g := ms]" and ?W = LIFETIME_WINDOW
  have len: "length ?r = ?W" and cnt: "cg_ringCount g = min (length ls) ?W"
    and idx: "cg_ringIndex g = length ls mod ?W"
    using assms by (simp_all add: ring_holds_def)
  have full: "cg_ring g ! cg_ringIndex g = ls ! (length ls - ?W)" if "?W \<le> length ls"
  proof -
    have "length ls - ?W < length ls" using that window_pos by linarith
    then have "cg_ring g ! ((length ls - ?W) mod ?W) = ls ! (length ls - ?W)"
      using assms that by (simp add: ring_holds_def)
    then show ?thesis unfolding idx using le_mod_geq [OF that] by simp
  qed
  have sum: "(if cg_ringCount g = ?W then cg_ringSum g - cg_ring g ! cg_ringIndex g else cg_ringSum g) + ms =
      sum_list (drop (Suc (length ls) - ?W) (ls @ [ms]))"
  proof (cases "?W \<le> length ls")
    case True
    show ?thesis unfolding drop_window_snoc [OF True window_pos(1)]
      using assms full [OF True] True by (simp add: ring_holds_def)
  next
    case False
    with assms show ?thesis by (simp add: ring_holds_def)
  qed
  have wrap: "sum_list (take (min (Suc (length ls)) ?W) ?r) = sum_list (drop (Suc (length ls) - ?W) (ls @ [ms]))"
    if "Suc (length ls) mod ?W = 0"
  proof -
    have "?r = drop (Suc (length ls) - ?W) (ls @ [ms])"
      using ring_in_order [OF len window_pos(1) _ _ ring_slots [OF assms]] that by simp
    moreover have "?W \<le> Suc (length ls)" using that by (metis dvd_imp_le mod_0_imp_dvd zero_less_Suc)
    ultimately show ?thesis using len by (simp add: min_absorb2)
  qed
  have count: "(if cg_ringCount g = ?W then cg_ringCount g else cg_ringCount g + 1) = min (Suc (length ls)) ?W"
    using cnt by auto
  have index: "(cg_ringIndex g + 1) mod ?W = Suc (length ls) mod ?W"
    unfolding idx by (simp add: mod_Suc_eq)
  show ?thesis
    unfolding ring_holds_def recordLifetime_def Let_def
    using ring_slots [OF assms, of ms] len count index sum wrap by simp
qed


section \<open>The counters follow the connections\<close>

fun open_map :: "int \<Rightarrow> (rat \<times> bool) list \<Rightarrow> (int, rat) jmap" where
  "open_map n [] = []"
| "open_map n ((t, opened) # cs) = (if opened then [(n, t)] else []) @ open_map (n + 1) cs"

lemma open_map_append: "open_map n (cs @ ds) = open_map n cs @ open_map (n + int (length cs)) ds"
  by (induction n cs rule: open_map.induct) (simp_all add: ac_simps)

lemma open_map_keys: "(k, v) \<in> set (open_map n cs) \<Longrightarrow> n \<le> k \<and> k < n + int (length cs)"
  by (induction n cs rule: open_map.induct) (force split: if_splits)+

lemma open_map_new: "jm_get (open_map n cs) (n + int (length cs)) = None"
  by (force simp: map_of_eq_None_iff dest: open_map_keys)

lemma open_map_before: "k < n \<Longrightarrow> jm_get (open_map n cs) k = None"
  by (force simp: map_of_eq_None_iff dest: open_map_keys)

lemma open_map_get:
  "k < length cs \<Longrightarrow>
   jm_get (open_map n cs) (n + int k) = (if snd (cs ! k) then Some (fst (cs ! k)) else None)"
proof (induction n cs arbitrary: k rule: open_map.induct)
  case (2 n t opened cs)
  then show ?case
  proof (cases k)
    case (Suc i)
    with 2 show ?thesis by (simp add: add.assoc [symmetric])
  qed (simp add: open_map_before)
qed simp

lemma open_map_delete:
  "k < length cs \<Longrightarrow> jm_delete (open_map n cs) (n + int k) = open_map n (cs[k := (t, False)])"
proof (induction n cs arbitrary: k rule: open_map.induct)
  case (2 n t opened cs)
  then show ?case
  proof (cases k)
    case 0
    then show ?thesis using open_map_before [of n "n + 1" cs] by (simp add: delete_id map_of_eq_None_iff)
  next
    case (Suc i)
    with 2 show ?thesis by (simp add: add.assoc [symmetric])
  qed
qed simp

lemma open_map_values: "map snd (open_map n cs) = map fst (filter snd cs)"
  by (induction n cs rule: open_map.induct) auto

lemma close_one:
  "k < length cs \<Longrightarrow> snd (cs ! k) \<Longrightarrow>
   Suc (length (filter snd (cs[k := (t, False)]))) = length (filter snd cs)"
  by (induction cs arbitrary: k) (auto simp: nth_Cons split: nat.splits)

definition tells :: "gauged \<Rightarrow> history \<Rightarrow> bool" where
  "tells s h \<longleftrightarrow>
     cg_open (fst s) = open_map 1 (hi_conns h) \<and> cg_nextToken (fst s) = 1 + int (length (hi_conns h)) \<and>
     snd s = map (\<lambda>k. \<lparr>ch_token = 1 + int k, ch_closed = \<not> snd (hi_conns h ! k)\<rparr>) [0..<length (hi_conns h)] \<and>
     cg_active (fst s) = int (length (open_starts h)) \<and> cg_total (fst s) = int (length (hi_conns h)) \<and>
     cg_completed (fst s) = int (length (hi_lifetimes h)) \<and>
     cg_maxLifetimeMs (fst s) = Max (insert 0 (set (hi_lifetimes h))) \<and>
     ring_holds (fst s) (hi_lifetimes h) \<and> cg_dispatching (fst s) = int (hi_depth h)"

lemma ring_frame [simp]:
  "cg_open (recordLifetime g ms) = cg_open g" "cg_nextToken (recordLifetime g ms) = cg_nextToken g"
  "cg_active (recordLifetime g ms) = cg_active g" "cg_total (recordLifetime g ms) = cg_total g"
  "cg_completed (recordLifetime g ms) = cg_completed g"
  "cg_maxLifetimeMs (recordLifetime g ms) = cg_maxLifetimeMs g"
  "cg_dispatching (recordLifetime g ms) = cg_dispatching g" "cg_peak (recordLifetime g ms) = cg_peak g"
  "cg_peakDispatching (recordLifetime g ms) = cg_peakDispatching g"
  by (simp_all add: recordLifetime_def Let_def)

lemma ring_holds_frame [simp]:
  "ring_holds (g\<lparr>cg_open := m\<rparr>) ls = ring_holds g ls" "ring_holds (g\<lparr>cg_nextToken := n\<rparr>) ls = ring_holds g ls"
  "ring_holds (g\<lparr>cg_active := n\<rparr>) ls = ring_holds g ls" "ring_holds (g\<lparr>cg_total := n\<rparr>) ls = ring_holds g ls"
  "ring_holds (g\<lparr>cg_completed := n\<rparr>) ls = ring_holds g ls" "ring_holds (g\<lparr>cg_peak := n\<rparr>) ls = ring_holds g ls"
  "ring_holds (g\<lparr>cg_maxLifetimeMs := x\<rparr>) ls = ring_holds g ls"
  "ring_holds (g\<lparr>cg_dispatching := n\<rparr>) ls = ring_holds g ls"
  "ring_holds (g\<lparr>cg_peakDispatching := n\<rparr>) ls = ring_holds g ls"
  by (simp_all add: ring_holds_def)

lemma tells_start: "tells (new_gauge, []) (history_of [])"
  by (simp add: tells_def new_gauge_def history_of_def ring_holds_def open_starts_def)

lemma tells_opened:
  assumes "tells s h"
  shows "tells (gauge_step s (Opened t)) (history_step h (Opened t))"
  using assms open_map_new [of 1 "hi_conns h"]
  by (simp add: tells_def gauge_step_def history_step_def gauge_open_def Let_def open_starts_def
      set_absent open_map_append nth_append)

lemma tells_dispatch:
  assumes "tells s h"
  shows "tells (gauge_step s DispatchBegan) (history_step h DispatchBegan)"
    "tells (gauge_step s DispatchEnded) (history_step h DispatchEnded)"
  using assms
  by (simp_all add: tells_def gauge_step_def history_step_def enterDispatch_def exitDispatch_def Let_def
      open_starts_def of_nat_diff)

lemma handles_after_close:
  "k < n \<Longrightarrow> (map f [0..<n])[k := x] = map (\<lambda>i. if i = k then x else f i) [0..<n]"
  by (rule nth_equalityI) (auto simp: nth_list_update)

lemma max_insert_max:
  fixes x :: rat
  shows "Max (insert 0 (set (ls @ [x]))) = (if x > Max (insert 0 (set ls)) then x else Max (insert 0 (set ls)))"
proof -
  define m where "m = Max (insert 0 (set ls))"
  have set: "insert 0 (set (ls @ [x])) = insert x (insert 0 (set ls))" by auto
  have "Max (insert x (insert 0 (set ls))) = max x m" unfolding m_def by (rule Max_insert) simp_all
  then show ?thesis unfolding set m_def [symmetric] by (auto simp: max_def)
qed

lemma tells_closed:
  assumes "tells s h"
  shows "tells (gauge_step s (Closed k t)) (history_step h (Closed k t))"
proof (cases "k < length (hi_conns h) \<and> snd (hi_conns h ! k)")
  case True
  have count: "int (length (filter snd ((hi_conns h)[k := (x, False)]))) = int (length (filter snd (hi_conns h))) - 1" for x
    using close_one [of k "hi_conns h" x] True by simp
  have "gauge_step s (Closed k t) =
      (recordLifetime ((fst s)\<lparr>cg_open := jm_delete (cg_open (fst s)) (1 + int k),
           cg_active := cg_active (fst s) - 1, cg_completed := cg_completed (fst s) + 1,
           cg_maxLifetimeMs := (if t - fst (hi_conns h ! k) > cg_maxLifetimeMs (fst s)
             then t - fst (hi_conns h ! k) else cg_maxLifetimeMs (fst s))\<rparr>) (t - fst (hi_conns h ! k)),
       (snd s)[k := \<lparr>ch_token = 1 + int k, ch_closed = True\<rparr>])"
    using assms True open_map_get [of k "hi_conns h" 1]
    by (simp add: tells_def gauge_step_def handle_close_def gauge_close_def Let_def)
  then show ?thesis
    using assms True open_map_delete [of k "hi_conns h" 1] count
      max_insert_max [of "hi_lifetimes h" "t - fst (hi_conns h ! k)"]
    by (simp add: tells_def history_step_def open_starts_def ring_kept handles_after_close nth_list_update
        del: set_append cong: map_cong)
next
  case False
  with assms show ?thesis
    by (auto simp: tells_def gauge_step_def history_step_def handle_close_def Let_def list_update_same_conv)
qed

lemma tells_run: "tells (gauge_run es) (history_of es)"
proof (induction es rule: rev_induct)
  case (snoc e es)
  then have "tells (gauge_step (gauge_run es) e) (history_step (history_of es) e)"
    by (cases e) (simp_all add: tells_opened tells_closed tells_dispatch)
  then show ?case by (simp add: gauge_run_def history_of_def)
qed (use tells_start in \<open>simp add: gauge_run_def\<close>)

lemma max_over_time_snoc:
  "max_over_time f (es @ [e]) = max (max_over_time f es) (f (history_of (es @ [e])))"
proof -
  have "(\<lambda>n. f (history_of (take n (es @ [e])))) ` {..length (es @ [e])} =
      insert (f (history_of (es @ [e]))) ((\<lambda>n. f (history_of (take n es))) ` {..length es})"
    by (auto simp: atMost_Suc image_iff)
  then show ?thesis by (simp only: max_over_time_def) (simp add: Max_insert max.commute)
qed

lemma max_over_time_Nil [simp]: "max_over_time f [] = f (history_of [])"
  by (simp add: max_over_time_def)

lemma peak_step:
  assumes "cg_active (fst s) \<le> cg_peak (fst s)" "cg_dispatching (fst s) \<le> cg_peakDispatching (fst s)"
  shows "cg_peak (fst (gauge_step s e)) = max (cg_peak (fst s)) (cg_active (fst (gauge_step s e))) \<and>
    cg_peakDispatching (fst (gauge_step s e)) =
      max (cg_peakDispatching (fst s)) (cg_dispatching (fst (gauge_step s e)))"
  using assms
  by (cases e) (auto simp: gauge_step_def gauge_open_def handle_close_def gauge_close_def enterDispatch_def
      exitDispatch_def Let_def split: option.splits)

lemma peaks_run:
  "cg_peak (fst (gauge_run es)) = int (max_over_time (\<lambda>h. length (open_starts h)) es) \<and>
   cg_peakDispatching (fst (gauge_run es)) = int (max_over_time hi_depth es)"
proof (induction es rule: rev_induct)
  case Nil
  then show ?case by (simp add: gauge_run_def new_gauge_def history_of_def open_starts_def)
next
  case (snoc e es)
  have step: "gauge_run (es @ [e]) = gauge_step (gauge_run es) e" by (simp add: gauge_run_def)
  have now: "cg_active (fst (gauge_run es)) = int (length (open_starts (history_of es)))"
    "cg_dispatching (fst (gauge_run es)) = int (hi_depth (history_of es))" for es
    using tells_run [of es] by (simp_all add: tells_def)
  have le: "f (history_of es) \<le> max_over_time f es" for f
    unfolding max_over_time_def by (rule Max_ge) (auto intro: image_eqI [of _ _ "length es"])
  show ?case
    using peak_step [of "gauge_run es" e] snoc now [of es] now [of "es @ [e]"]
      le [of "\<lambda>h. length (open_starts h)"] le [of hi_depth]
    by (simp add: step max_over_time_snoc of_nat_max)
qed

lemma longest_open:
  assumes "tells s h"
  shows "longestOpenMs (fst s) now =
    (if open_starts h = [] then 0 else js_round (now - Min (set (open_starts h))))"
proof -
  have "foldl (\<lambda>oldest start. if start < oldest then start else oldest) x xs = Min (set (x # xs))" for x :: rat and xs
  proof (induction xs rule: rev_induct)
    case (snoc y xs)
    define m where "m = Min (set (x # xs))"
    have "set (x # xs @ [y]) = insert y (set (x # xs))" by auto
    moreover have "Min (insert y (set (x # xs))) = min y m" unfolding m_def by (rule Min_insert) simp_all
    ultimately show ?case using snoc unfolding m_def [symmetric] by (auto simp: min_def)
  qed simp
  moreover have "jm_values (cg_open (fst s)) = open_starts h"
    using assms by (simp add: tells_def open_map_values open_starts_def)
  ultimately show ?thesis by (simp add: longestOpenMs_def split: list.split)
qed

lemma average_lifetime:
  assumes "ring_holds g (hi_lifetimes h)"
  shows "(if cg_ringCount g = 0 then 0 else js_round (cg_ringSum g / of_nat (cg_ringCount g))) =
    (if hi_lifetimes h = [] then 0 else js_round (mean_of (last_lifetimes h)))"
proof -
  have "length (last_lifetimes h) = min (length (hi_lifetimes h)) LIFETIME_WINDOW"
    by (simp add: last_lifetimes_def min_def)
  moreover have "(min (length (hi_lifetimes h)) LIFETIME_WINDOW = 0) = (hi_lifetimes h = [])"
    by (cases "hi_lifetimes h") (simp_all add: min_def)
  ultimately show ?thesis using assms by (simp add: ring_holds_def mean_of_def last_lifetimes_def)
qed

section \<open>The gauge tells what happened\<close>

text \<open>After any sequence of opens, closes (of any handle, any number of times) and dispatch
  entries and exits, the snapshot is the one read off the history: the open connections, the peak
  over all earlier moments, the mean of the last 1000 lifetimes, the longest lifetime, the age of
  the oldest connection still open, and the dispatch depth with its peak. So the token map, the
  counters and the ring buffer with its running sum implement the list of what happened, and a
  handle closed twice counts once.\<close>

theorem gauge_tells_history:
  "gauge_snapshot (fst (gauge_run es)) now = history_snapshot es now"
proof -
  let ?s = "gauge_run es" and ?h = "history_of es"
  have t: "tells ?s ?h" by (rule tells_run)
  then have "ring_holds (fst ?s) (hi_lifetimes ?h)" by (simp add: tells_def)
  from average_lifetime [OF this] longest_open [OF t, of now] peaks_run [of es] t
  show ?thesis by (simp add: gauge_snapshot_def history_snapshot_def Let_def tells_def)
qed

section \<open>Response bodies\<close>

text \<open>\<open>trackResponseLifetime\<close>: the wrapped body as a machine. A read of the upstream body has one
  of three results; the consumer pulls or cancels, and does neither once the wrapped stream has
  been closed, cancelled or has failed (the rule of streams).\<close>

datatype 'c read_result = ReadDone | ReadValue 'c | ReadFailed

datatype 'c consumer_act = Pull "'c read_result" | Cancel

record 'c tracked_body =
  tb_over :: bool
  tb_out :: "'c list"
  tb_handle :: handle

definition tracked_step :: "rat \<Rightarrow> gauge \<times> 'c tracked_body \<Rightarrow> 'c consumer_act \<Rightarrow> gauge \<times> 'c tracked_body" where
  "tracked_step now s act =
     (if tb_over (snd s) then s
      else case act of
        Pull (ReadValue c) \<Rightarrow> (fst s, (snd s)\<lparr>tb_out := tb_out (snd s) @ [c]\<rparr>)
      | _ \<Rightarrow> (let (g, h) = handle_close (fst s) (tb_handle (snd s)) now
              in (g, (snd s)\<lparr>tb_over := True, tb_handle := h\<rparr>)))"

text \<open>Without a handle, and without a body, there is nothing to wrap.\<close>

definition trackResponseLifetime ::
  "bool \<Rightarrow> handle option \<Rightarrow> gauge \<Rightarrow> rat \<Rightarrow> gauge \<times> 'c tracked_body option" where
  "trackResponseLifetime has_body handle g now =
     (case handle of
        None \<Rightarrow> (g, None)
      | Some h \<Rightarrow>
          (if has_body then (g, Some \<lparr>tb_over = False, tb_out = [], tb_handle = h\<rparr>)
           else (fst (handle_close g h now), None)))"

text \<open>What the consumer saw and whether the exchange is over, read off the acts alone.\<close>

fun body_seen :: "'c consumer_act list \<Rightarrow> 'c list \<times> bool" where
  "body_seen [] = ([], False)"
| "body_seen (Pull (ReadValue c) # acts) = (let (cs, over) = body_seen acts in (c # cs, over))"
| "body_seen (a # acts) = ([], True)"

definition tracked_run :: "rat \<Rightarrow> gauge \<times> 'c tracked_body \<Rightarrow> 'c consumer_act list \<Rightarrow> gauge \<times> 'c tracked_body" where
  "tracked_run now = foldl (tracked_step now)"

lemma tracked_over: "tb_over (snd s) \<Longrightarrow> tracked_run now s acts = s"
  by (induction acts arbitrary: s) (simp_all add: tracked_run_def tracked_step_def)

lemma tracked_run_Cons: "tracked_run now s (a # acts) = tracked_run now (tracked_step now s a) acts"
  by (simp add: tracked_run_def)

lemma tracked_read:
  "\<not> tb_over b \<Longrightarrow>
   tracked_run now (g, b) acts =
     (let (cs, over) = body_seen acts
      in if over
         then (fst (handle_close g (tb_handle b) now),
               b\<lparr>tb_over := True, tb_out := tb_out b @ cs, tb_handle := snd (handle_close g (tb_handle b) now)\<rparr>)
         else (g, b\<lparr>tb_out := tb_out b @ cs\<rparr>))"
proof (induction acts arbitrary: b rule: body_seen.induct)
  case 1
  then show ?case by (simp add: tracked_run_def)
next
  case (2 c acts)
  from 2(1) [of "b\<lparr>tb_out := tb_out b @ [c]\<rparr>"] 2(2) show ?case
    by (simp add: tracked_run_Cons tracked_step_def split: prod.split)
qed (simp_all add: tracked_run_Cons tracked_step_def tracked_over Let_def split: prod.split)

text \<open>A tracked response body passes the upstream chunks on unchanged and in order, and its
  connection is closed on the gauge exactly when the exchange ends: at the end of the body, at an
  upstream failure or when the client goes away, whichever comes first; later pulls, a cancel after
  the end included, change nothing.\<close>

theorem tracked_body_closes_once:
  "trackResponseLifetime True (Some (snd (gauge_open g t))) (fst (gauge_open g t)) now =
     (fst (gauge_open g t), Some \<lparr>tb_over = False, tb_out = [], tb_handle = snd (gauge_open g t)\<rparr>) \<and>
   (let s = tracked_run now (fst (gauge_open g t),
              \<lparr>tb_over = False, tb_out = [], tb_handle = snd (gauge_open g t)\<rparr>) acts
    in tb_out (snd s) = fst (body_seen acts) \<and> ch_closed (tb_handle (snd s)) = snd (body_seen acts) \<and>
       fst s = (if snd (body_seen acts) then gauge_close (fst (gauge_open g t)) (cg_nextToken g) now
                else fst (gauge_open g t)))"
  by (simp add: trackResponseLifetime_def tracked_read gauge_open_def handle_close_def Let_def split: prod.split)

end
