(* ===== verification/UsageCapture.thy ===== *)
theory UsageCapture
  imports StreamTranslate
begin

text \<open>
  \<open>packages/telemetry/src/usage.ts\<close>: how the usage of a response is read off its bytes, whatever
  the vendor's field names, and how a request's accounting settles once.

  A streamed body passes through a tap that keeps the first and the last 16384 characters and the
  last whole \<open>data:\<close> line of up to 131072; at the end the usage is searched in what was kept.
  Texts here are lists of UTF-16 units, as the code's lengths and slices count them.
\<close>

section \<open>Texts as UTF-16\<close>

definition utf16_char :: "nat \<Rightarrow> jtext" where
  "utf16_char c =
     (if c < 0x10000 then [c] else [0xD800 + (c - 0x10000) div 0x400, 0xDC00 + (c - 0x10000) mod 0x400])"

definition utf16 :: "jtext \<Rightarrow> jtext" where
  "utf16 s = concat (map utf16_char s)"

section \<open>Usage shapes\<close>

definition MAX_SAFE_INTEGER :: int where
  "MAX_SAFE_INTEGER = 2 ^ 53 - 1"

text \<open>\<open>Number.isFinite\<close>: a literal that rounds to infinity is not finite.\<close>

definition js_finite :: "rat \<Rightarrow> bool" where
  "js_finite q \<longleftrightarrow> \<bar>q\<bar> < 2 ^ 1024 - 2 ^ 970"

definition clamp_number :: "rat \<Rightarrow> int" where
  "clamp_number q = (if js_finite q \<and> q > 0 then min \<lfloor>q\<rfloor> MAX_SAFE_INTEGER else 0)"

definition clampCount :: "jtext json \<Rightarrow> int" where
  "clampCount v = (case v of JNum q \<Rightarrow> clamp_number q | _ \<Rightarrow> 0)"

definition clampSeconds :: "jtext json \<Rightarrow> rat option" where
  "clampSeconds v = (case v of JNum q \<Rightarrow> if js_finite q \<and> q \<ge> 0 then Some q else None | _ \<Rightarrow> None)"

text \<open>\<open>a ?? b ?? \<dots> ?? 0\<close>.\<close>

definition coalesce :: "jtext json option list \<Rightarrow> jtext json" where
  "coalesce vs =
     (case filter (\<lambda>v. v \<noteq> None \<and> v \<noteq> Some JNull) vs of Some v # _ \<Rightarrow> v | _ \<Rightarrow> JNum 0)"

text \<open>\<open>a + b\<close> is a number when both are numbers or truth values, otherwise a text, which counts
  nothing.\<close>

definition addend :: "jtext json \<Rightarrow> rat option" where
  "addend v = (case v of JNum q \<Rightarrow> Some q | JBool b \<Rightarrow> Some (if b then 1 else 0) | _ \<Rightarrow> None)"

definition clamp_sum :: "jtext json \<Rightarrow> jtext json \<Rightarrow> int" where
  "clamp_sum a b =
     (case (addend a, addend b) of (Some x, Some y) \<Rightarrow> clamp_number (x + y) | _ \<Rightarrow> 0)"

record figures =
  uf_prompt :: int
  uf_completion :: int
  uf_cached :: int
  uf_cacheCreation :: int

definition uf_total :: "figures \<Rightarrow> int" where
  "uf_total f = uf_prompt f + uf_completion f + uf_cacheCreation f"

definition normalizeUsage :: "jtext json \<Rightarrow> figures" where
  "normalizeUsage u =
     (let fld = (\<lambda>k. opt_field (Some u) k);
          billed = (\<lambda>k. opt_field (opt_field (Some u) ''billed_units'') k)
      in \<lparr>uf_prompt =
            (if fld ''prompt_tokens'' \<noteq> None \<and> fld ''prompt_tokens'' \<noteq> Some JNull
             then clampCount (coalesce [fld ''prompt_tokens''])
             else clamp_sum (coalesce [fld ''input_tokens'', fld ''promptTokenCount'', billed ''input_tokens''])
                    (coalesce [fld ''cache_read_input_tokens''])),
          uf_completion =
            clampCount (coalesce [fld ''completion_tokens'', fld ''output_tokens'',
              fld ''candidatesTokenCount'', billed ''output_tokens'']),
          uf_cached =
            clampCount (coalesce [opt_field (fld ''prompt_tokens_details'') ''cached_tokens'',
              fld ''cache_read_input_tokens'', fld ''cachedContentTokenCount'']),
          uf_cacheCreation = clampCount (coalesce [fld ''cache_creation_input_tokens''])\<rparr>)"

section \<open>The tap\<close>

definition SSE_TAP_CAP :: nat where
  "SSE_TAP_CAP = 16384"

definition SSE_FRAME_CAP :: nat where
  "SSE_FRAME_CAP = 131072"

definition line_payload :: "jtext \<Rightarrow> jtext option" where
  "line_payload line =
     (if take 5 line \<noteq> text_of ''data:'' then None
      else let payload = cp_trim (drop 5 line)
           in if payload = [] \<or> payload = text_of ''[DONE]'' then None else Some payload)"

definition keepLine :: "jtext \<Rightarrow> jtext \<Rightarrow> jtext" where
  "keepLine frame line = (if line_payload line = None then frame else line)"

record sse_tap =
  sp_decoder :: text_decoder
  sp_head :: jtext
  sp_tail :: jtext
  sp_frame :: jtext
  sp_partial :: jtext
  sp_dropped :: bool

definition sse_tap_new :: sse_tap where
  "sse_tap_new = \<lparr>sp_decoder = td_new, sp_head = [], sp_tail = [], sp_frame = [], sp_partial = [],
     sp_dropped = False\<rparr>"

text \<open>The parts of \<open>text.split("\n")\<close>: each but the last completes a line, the last starts one.\<close>

fun tap_parts :: "jtext list \<Rightarrow> jtext \<times> jtext \<times> bool \<Rightarrow> jtext \<times> jtext \<times> bool" where
  "tap_parts [] s = s"
| "tap_parts [rest] (frame, partial, dropped) =
     (if dropped then (frame, partial, True)
      else if length partial + length rest > SSE_FRAME_CAP then (frame, [], True)
      else (frame, partial @ rest, False))"
| "tap_parts (p # q # ps) (frame, partial, dropped) =
     tap_parts (q # ps)
       (if \<not> dropped \<and> length partial + length p \<le> SSE_FRAME_CAP then keepLine frame (partial @ p) else frame,
        [], False)"

definition sse_tap_text :: "sse_tap \<Rightarrow> jtext \<Rightarrow> sse_tap" where
  "sse_tap_text t s =
     (let (frame, partial, dropped) = tap_parts (split_lines s) (sp_frame t, sp_partial t, sp_dropped t)
      in t\<lparr>sp_head := (if length (sp_head t) < SSE_TAP_CAP
                       then sp_head t @ take (SSE_TAP_CAP - length (sp_head t)) s else sp_head t),
           sp_tail := last_n SSE_TAP_CAP (sp_tail t @ s),
           sp_frame := frame, sp_partial := partial, sp_dropped := dropped\<rparr>)"

text \<open>The chunk itself is enqueued untouched before it is read.\<close>

definition sse_tap_transform :: "sse_tap \<Rightarrow> byte list \<Rightarrow> sse_tap \<times> byte list" where
  "sse_tap_transform t chunk =
     (let (d, out) = td_decode (sp_decoder t) chunk
      in (sse_tap_text (t\<lparr>sp_decoder := d\<rparr>) (utf16 out), chunk))"

definition sse_tap_flush :: "sse_tap \<Rightarrow> jtext" where
  "sse_tap_flush t =
     (let frame = (if \<not> sp_dropped t \<and> sp_partial t \<noteq> [] then keepLine (sp_frame t) (sp_partial t) else sp_frame t)
      in if frame \<noteq> [] then sp_head t @ 10 # sp_tail t @ 10 # frame else sp_head t @ 10 # sp_tail t)"

fun tap_stream :: "sse_tap \<Rightarrow> byte list list \<Rightarrow> sse_tap \<times> byte list list" where
  "tap_stream t [] = (t, [])"
| "tap_stream t (c # cs) =
     (let (t1, o1) = sse_tap_transform t c; (t2, os) = tap_stream t1 cs in (t2, o1 # os))"

text \<open>What the client receives, and the text \<open>onDone\<close> is given.\<close>

definition tapSseTail :: "byte list list \<Rightarrow> byte list list \<times> jtext" where
  "tapSseTail chunks = (let (t, os) = tap_stream sse_tap_new chunks in (os, sse_tap_flush t))"

section \<open>Searching the captured text\<close>

definition line_chunk :: "jtext \<Rightarrow> jtext json option" where
  "line_chunk line = Option.bind (line_payload line) (\<lambda>p. json_parse (join_surrogates p))"

definition streamChunks :: "jtext \<Rightarrow> jtext json list" where
  "streamChunks s = List.map_filter line_chunk (split_lines s)"

text \<open>\<open>a || b\<close> on values: null, false, zero and the empty text are passed over.\<close>

definition js_or :: "jtext json option list \<Rightarrow> jtext json" where
  "js_or vs = (case filter js_truthy vs of Some v # _ \<Rightarrow> v | _ \<Rightarrow> JStr [])"

definition chunkModel :: "jtext json \<Rightarrow> jtext json" where
  "chunkModel chunk =
     js_or [opt_field (Some chunk) ''model'', opt_field (opt_field (Some chunk) ''message'') ''model'',
            opt_field (Some chunk) ''modelVersion'']"

text \<open>Reading a field of the chunk \<open>null\<close> throws, and so do both searches.\<close>

fun first_model :: "jtext json list \<Rightarrow> jtext json option" where
  "first_model [] = Some (JStr [])"
| "first_model (c # cs) =
     (if c = JNull then None
      else if js_truthy (Some (chunkModel c)) then Some (chunkModel c) else first_model cs)"

definition extractStreamModel :: "jtext \<Rightarrow> jtext json option" where
  "extractStreamModel s = first_model (streamChunks s)"

definition usage_blocks :: "jtext json \<Rightarrow> jtext json list" where
  "usage_blocks chunk =
     map the (filter js_truthy
       [opt_field (Some chunk) ''usage'', opt_field (opt_field (Some chunk) ''message'') ''usage'',
        opt_field (Some chunk) ''usageMetadata'', opt_field (opt_field (Some chunk) ''delta'') ''usage''])"

definition max_figures :: "figures \<Rightarrow> figures \<Rightarrow> figures" where
  "max_figures f n =
     \<lparr>uf_prompt = max (uf_prompt f) (uf_prompt n), uf_completion = max (uf_completion f) (uf_completion n),
      uf_cached = max (uf_cached f) (uf_cached n),
      uf_cacheCreation = max (uf_cacheCreation f) (uf_cacheCreation n)\<rparr>"

record usage_scan =
  us_model :: "jtext json"
  us_figures :: figures
  us_seen :: bool

definition usage_scan_new :: usage_scan where
  "usage_scan_new = \<lparr>us_model = JStr [], us_figures = \<lparr>uf_prompt = 0, uf_completion = 0, uf_cached = 0,
     uf_cacheCreation = 0\<rparr>, us_seen = False\<rparr>"

definition scan_chunk :: "usage_scan \<Rightarrow> jtext json \<Rightarrow> usage_scan" where
  "scan_chunk s chunk =
     \<lparr>us_model = (if js_truthy (Some (us_model s)) then us_model s else chunkModel chunk),
      us_figures = foldl (\<lambda>f u. max_figures f (normalizeUsage u)) (us_figures s) (usage_blocks chunk),
      us_seen = (us_seen s \<or> usage_blocks chunk \<noteq> [])\<rparr>"

datatype extracted = Throws | NoUsage | Usage "jtext json" figures

definition extractStreamUsage :: "jtext \<Rightarrow> extracted" where
  "extractStreamUsage s =
     (let chunks = streamChunks s; r = foldl scan_chunk usage_scan_new chunks
      in if JNull \<in> set chunks then Throws
         else if us_seen r then Usage (us_model r) (us_figures r) else NoUsage)"

section \<open>What the tap keeps does not depend on the chunks\<close>

lemma tap_parts_Cons:
  "r \<noteq> [] \<Longrightarrow> tap_parts (p # r) (frame, partial, dropped) =
     tap_parts r (if \<not> dropped \<and> length partial + length p \<le> SSE_FRAME_CAP then keepLine frame (partial @ p) else frame,
       [], False)"
  by (cases r) simp_all

lemma tap_parts_join:
  "tap_parts (y # ys) (tap_parts (xs @ [x]) s) = tap_parts (xs @ (x @ y) # ys) s"
proof (induction xs arbitrary: s)
  case Nil
  then show ?case by (cases s; cases ys) auto
next
  case (Cons p ps)
  then show ?case by (cases s) (simp add: tap_parts_Cons)
qed

lemma tap_parts_append:
  "tap_parts (split_lines b) (tap_parts (split_lines a) s) = tap_parts (split_lines (a @ b)) s"
  using tap_parts_join [of "hd (split_lines b)" "tl (split_lines b)" "butlast (split_lines a)" "last (split_lines a)"]
  by (simp add: split_lines_append)

lemma last_n_rev: "last_n n s = rev (take n (rev s))"
  by (simp add: last_n_def take_rev)

lemma length_last_n: "length (last_n n s) \<le> n"
  by (simp add: last_n_def)

lemma last_n_append: "last_n n (last_n n s @ b) = last_n n (s @ b)"
  by (simp add: last_n_rev)

definition grow_head :: "jtext \<Rightarrow> jtext \<Rightarrow> jtext" where
  "grow_head h s = (if length h < SSE_TAP_CAP then h @ take (SSE_TAP_CAP - length h) s else h)"

lemma grow_head_append: "grow_head (grow_head h a) b = grow_head h (a @ b)"
  by (auto simp: grow_head_def)

lemma tap_text_fields:
  "sse_tap_text t s =
     t\<lparr>sp_head := grow_head (sp_head t) s, sp_tail := last_n SSE_TAP_CAP (sp_tail t @ s),
       sp_frame := fst (tap_parts (split_lines s) (sp_frame t, sp_partial t, sp_dropped t)),
       sp_partial := fst (snd (tap_parts (split_lines s) (sp_frame t, sp_partial t, sp_dropped t))),
       sp_dropped := snd (snd (tap_parts (split_lines s) (sp_frame t, sp_partial t, sp_dropped t)))\<rparr>"
  by (simp add: sse_tap_text_def grow_head_def split: prod.split)

lemma tap_text_append: "sse_tap_text (sse_tap_text t a) b = sse_tap_text t (a @ b)"
  using last_n_append [of SSE_TAP_CAP "sp_tail t @ a" b]
  by (simp add: tap_text_fields grow_head_append tap_parts_append)

lemma utf16_append [simp]: "utf16 (a @ b) = utf16 a @ utf16 b"
  by (simp add: utf16_def)

lemma tap_text_decoder:
  "(sse_tap_text t s)\<lparr>sp_decoder := d\<rparr> = sse_tap_text (t\<lparr>sp_decoder := d\<rparr>) s"
  "sp_decoder (sse_tap_text t s) = sp_decoder t"
  by (simp_all add: sse_tap_text_def split: prod.split)

lemma tap_text_none:
  "sp_dropped t \<or> length (sp_partial t) \<le> SSE_FRAME_CAP \<Longrightarrow> length (sp_tail t) \<le> SSE_TAP_CAP \<Longrightarrow>
   sse_tap_text t [] = t"
  by (cases "sp_dropped t") (auto simp: sse_tap_text_def last_n_def)

lemma tap_stream_run:
  assumes "td_run (sp_decoder t) chunks = (d, ts)"
    "sp_dropped t \<or> length (sp_partial t) \<le> SSE_FRAME_CAP" "length (sp_tail t) \<le> SSE_TAP_CAP"
  shows "tap_stream t chunks = (sse_tap_text (t\<lparr>sp_decoder := d\<rparr>) (utf16 (concat ts)), chunks)"
  using assms
proof (induction chunks arbitrary: t d ts)
  case Nil
  then show ?case by (simp add: utf16_def tap_text_none)
next
  case (Cons c cs)
  obtain d1 o1 where dec: "td_decode (sp_decoder t) c = (d1, o1)" by (cases "td_decode (sp_decoder t) c")
  obtain d2 ts2 where run: "td_run d1 cs = (d2, ts2)" by (cases "td_run d1 cs")
  let ?t = "sse_tap_text (t\<lparr>sp_decoder := d1\<rparr>) (utf16 o1)"
  have inv: "sp_dropped ?t \<or> length (sp_partial ?t) \<le> SSE_FRAME_CAP" "length (sp_tail ?t) \<le> SSE_TAP_CAP"
  proof -
    have "snd (snd (tap_parts ps s)) \<or> length (fst (snd (tap_parts ps s))) \<le> SSE_FRAME_CAP"
      if "snd (snd s) \<or> length (fst (snd s)) \<le> SSE_FRAME_CAP" for ps s
      using that by (induction ps s rule: tap_parts.induct) auto
    from this [of "(sp_frame t, sp_partial t, sp_dropped t)" "split_lines (utf16 o1)"] Cons.prems
    show "sp_dropped ?t \<or> length (sp_partial ?t) \<le> SSE_FRAME_CAP"
      by (auto simp: sse_tap_text_def split: prod.splits)
    show "length (sp_tail ?t) \<le> SSE_TAP_CAP" by (auto simp: sse_tap_text_def length_last_n split: prod.split)
  qed
  from Cons.prems dec run have "d = d2" "ts = o1 # ts2" by (simp_all add: Let_def)
  with Cons.IH [of ?t d2 ts2] inv dec run show ?case
    by (simp add: sse_tap_transform_def tap_text_decoder tap_text_append)
qed

text \<open>The retained line: the last data line of the whole text that is not too long.\<close>

definition kept_lines :: "jtext \<Rightarrow> jtext list" where
  "kept_lines s = filter (\<lambda>l. length l \<le> SSE_FRAME_CAP) (split_lines s)"

lemma keepLine_Nil: "keepLine frame [] = frame"
  by (simp add: keepLine_def line_payload_def text_of_def)

lemma tap_parts_final:
  assumes "ps \<noteq> []" "\<not> dropped \<or> partial = []"
  shows "(let (f, p, d) = tap_parts ps (frame, partial, dropped)
      in if \<not> d \<and> p \<noteq> [] then keepLine f p else f) =
    foldl keepLine frame
      (filter (\<lambda>l. length l \<le> SSE_FRAME_CAP)
         ((if dropped then [] else [partial @ hd ps]) @ tl ps))"
  using assms
proof (induction ps "(frame, partial, dropped)" arbitrary: frame partial dropped rule: tap_parts.induct)
  case (2 rest frame partial dropped)
  then show ?case by (auto simp: keepLine_Nil)
next
  case (3 p q ps frame partial dropped)
  show ?case using 3(1) by (cases dropped) simp_all
qed simp

definition captured_frame :: "jtext \<Rightarrow> jtext" where
  "captured_frame s = foldl keepLine [] (kept_lines s)"

definition captured_text :: "jtext \<Rightarrow> jtext" where
  "captured_text s =
     take SSE_TAP_CAP s @ 10 # last_n SSE_TAP_CAP s @
       (if captured_frame s = [] then [] else 10 # captured_frame s)"

lemma flush_frame:
  "(if \<not> sp_dropped t \<and> sp_partial t \<noteq> [] then keepLine (sp_frame t) (sp_partial t) else sp_frame t) = F \<Longrightarrow>
   sse_tap_flush t = sp_head t @ 10 # sp_tail t @ (if F = [] then [] else 10 # F)"
  by (simp only: sse_tap_flush_def Let_def split: if_split) simp

lemma tap_of_text:
  assumes "td_run td_new chunks = (d, ts)"
  shows "tapSseTail chunks = (chunks, captured_text (utf16 (concat ts)))"
proof -
  have "tap_stream sse_tap_new chunks =
      (sse_tap_text (sse_tap_new\<lparr>sp_decoder := d\<rparr>) (utf16 (concat ts)), chunks)"
    by (rule tap_stream_run) (simp_all add: sse_tap_new_def assms)
  moreover obtain f p d1 where parts: "tap_parts (split_lines (utf16 (concat ts))) ([], [], False) = (f, p, d1)"
    by (cases "tap_parts (split_lines (utf16 (concat ts))) ([], [], False)")
  moreover from tap_parts_final [of "split_lines (utf16 (concat ts))" False "[]" "[]"] parts
  have frame: "(if \<not> d1 \<and> p \<noteq> [] then keepLine f p else f) = captured_frame (utf16 (concat ts))"
    by (simp add: captured_frame_def kept_lines_def)
  have "sse_tap_flush \<lparr>sp_decoder = d, sp_head = h, sp_tail = l, sp_frame = f, sp_partial = p, sp_dropped = d1\<rparr> =
      h @ 10 # l @ (if captured_frame (utf16 (concat ts)) = [] then [] else 10 # captured_frame (utf16 (concat ts)))"
    for h l
    using flush_frame [of "\<lparr>sp_decoder = d, sp_head = h, sp_tail = l, sp_frame = f, sp_partial = p, sp_dropped = d1\<rparr>"
        "captured_frame (utf16 (concat ts))"] frame by (simp only: sse_tap.simps)
  ultimately show ?thesis
    by (simp add: tapSseTail_def tap_text_fields sse_tap_new_def captured_text_def grow_head_def SSE_TAP_CAP_def)
qed

section \<open>What the search finds\<close>

lemma split_lines_join: "split_lines (a @ 10 # b) = split_lines a @ split_lines b"
  by (cases "split_lines a" rule: rev_cases) (simp_all add: split_lines_append)

lemma map_filter_join: "List.map_filter f (xs @ ys) = List.map_filter f xs @ List.map_filter f ys"
  by (simp add: List.map_filter_def)

lemma streamChunks_join: "streamChunks (a @ 10 # b) = streamChunks a @ streamChunks b"
  by (simp add: streamChunks_def split_lines_join map_filter_join)

lemma captured_frame_line: "captured_frame s = [] \<or> captured_frame s \<in> set (split_lines s)"
proof -
  have "foldl keepLine f ls = f \<or> foldl keepLine f ls \<in> set ls" for f ls
    by (induction ls arbitrary: f) (auto simp: keepLine_def)
  then show ?thesis unfolding captured_frame_def kept_lines_def by fastforce
qed

lemma streamChunks_line: "set (streamChunks s) = {v. \<exists>l \<in> set (split_lines s). line_chunk l = Some v}"
  by (force simp: streamChunks_def List.map_filter_def)

text \<open>The scan keeps the first model and the largest figures, so only the set of usage blocks and
  the first model matter.\<close>

definition blocks_of :: "jtext json list \<Rightarrow> jtext json list" where
  "blocks_of cs = concat (map usage_blocks cs)"

definition models_of :: "jtext json list \<Rightarrow> jtext json list" where
  "models_of cs = filter (\<lambda>m. js_truthy (Some m)) (map chunkModel cs)"

lemma chunkModel_empty: "\<not> js_truthy (Some (chunkModel c)) \<Longrightarrow> chunkModel c = JStr []"
proof -
  have "js_truthy (Some (js_or vs)) \<or> js_or vs = JStr []" for vs
  proof (cases "filter js_truthy vs")
    case (Cons v ws)
    then have "v \<in> set (filter js_truthy vs)" by simp
    then have "js_truthy v" by simp
    with Cons show ?thesis by (cases v) (auto simp: js_or_def js_truthy_def)
  qed (simp add: js_or_def)
  then show "\<not> js_truthy (Some (chunkModel c)) \<Longrightarrow> chunkModel c = JStr []" unfolding chunkModel_def by blast
qed

lemma scan_seen: "us_seen (foldl scan_chunk s cs) = (us_seen s \<or> blocks_of cs \<noteq> [])"
  by (induction cs arbitrary: s) (auto simp: scan_chunk_def blocks_of_def)

lemma scan_model:
  "us_model s = JStr [] \<Longrightarrow>
   us_model (foldl scan_chunk s cs) = (case models_of cs of m # _ \<Rightarrow> m | [] \<Rightarrow> JStr [])"
proof (induction cs arbitrary: s)
  case (Cons c cs)
  have keep: "js_truthy (Some (us_model t)) \<Longrightarrow> us_model (foldl scan_chunk t ds) = us_model t" for t ds
    by (induction ds arbitrary: t) (simp_all add: scan_chunk_def)
  have now: "us_model (scan_chunk s c) = chunkModel c" using Cons.prems by (simp add: scan_chunk_def js_truthy_def)
  show ?case
  proof (cases "js_truthy (Some (chunkModel c))")
    case True
    with now keep [of "scan_chunk s c" cs] show ?thesis by (simp add: models_of_def)
  next
    case False
    with now chunkModel_empty [OF False] Cons.IH [of "scan_chunk s c"] show ?thesis by (simp add: models_of_def)
  qed
qed (simp add: models_of_def)

lemma scan_figures:
  "us_figures (foldl scan_chunk s cs) =
     foldl max_figures (us_figures s) (map normalizeUsage (blocks_of cs))"
proof (induction cs arbitrary: s)
  case (Cons c cs)
  have "foldl (\<lambda>f u. max_figures f (normalizeUsage u)) g us = foldl max_figures g (map normalizeUsage us)" for g us
    by (induction us arbitrary: g) simp_all
  with Cons show ?case by (simp add: blocks_of_def scan_chunk_def)
qed (simp add: blocks_of_def)

lemma Max_insert_max: "finite A \<Longrightarrow> Max (insert (max x y) A) = max x (Max (insert y A))" for x y :: int
  by (cases "A = {}") (simp_all add: max.assoc)

lemma max_figures_fold:
  "uf_prompt (foldl max_figures z fs) = Max (insert (uf_prompt z) (uf_prompt ` set fs))"
  "uf_completion (foldl max_figures z fs) = Max (insert (uf_completion z) (uf_completion ` set fs))"
  "uf_cached (foldl max_figures z fs) = Max (insert (uf_cached z) (uf_cached ` set fs))"
  "uf_cacheCreation (foldl max_figures z fs) = Max (insert (uf_cacheCreation z) (uf_cacheCreation ` set fs))"
  by (induction fs arbitrary: z) (simp_all add: max_figures_def Max_insert_max)

lemma same_blocks_same_figures:
  assumes "set (blocks_of cs) = set (blocks_of ds)"
  shows "foldl max_figures z (map normalizeUsage (blocks_of cs)) = foldl max_figures z (map normalizeUsage (blocks_of ds))"
  using assms by (intro figures.equality) (simp_all add: max_figures_fold)

lemma extract_cong:
  assumes "set (streamChunks s) = set (streamChunks t)"
    "(case models_of (streamChunks s) of m # _ \<Rightarrow> m | [] \<Rightarrow> JStr []) =
     (case models_of (streamChunks t) of m # _ \<Rightarrow> m | [] \<Rightarrow> JStr [])"
  shows "extractStreamUsage s = extractStreamUsage t"
proof -
  have blocks: "set (blocks_of (streamChunks s)) = set (blocks_of (streamChunks t))"
    using assms(1) by (simp add: blocks_of_def)
  then have "(blocks_of (streamChunks s) = []) = (blocks_of (streamChunks t) = [])"
    by (metis set_empty)
  then show ?thesis
    using assms scan_model [of usage_scan_new "streamChunks s"] scan_model [of usage_scan_new "streamChunks t"]
      same_blocks_same_figures [OF blocks]
    by (simp add: extractStreamUsage_def scan_seen scan_figures Let_def usage_scan_new_def)
qed

lemma captured_short:
  assumes "length s \<le> SSE_TAP_CAP"
  shows "extractStreamUsage (captured_text s) = extractStreamUsage s"
proof (rule extract_cong)
  let ?f = "if captured_frame s = [] then [] else streamChunks (captured_frame s)"
  have whole: "take SSE_TAP_CAP s = s" "last_n SSE_TAP_CAP s = s" using assms by (simp_all add: last_n_def)
  have chunks: "streamChunks (captured_text s) = streamChunks s @ streamChunks s @ ?f"
    unfolding captured_text_def whole
    using streamChunks_join [of s "s @ 10 # captured_frame s"] streamChunks_join [of s s]
      streamChunks_join [of s "captured_frame s"] by simp
  have line: "set (split_lines l) = {l}" if "l \<in> set (split_lines s)" for l
  proof -
    have "10 \<notin> set m" if "m \<in> set (split_lines u)" for m u
      using that by (induction u arbitrary: m) (auto split: if_splits list.splits)
    with that show ?thesis by (simp add: split_lines_line)
  qed
  have sub: "set ?f \<subseteq> set (streamChunks s)"
    using captured_frame_line [of s] line [of "captured_frame s"] by (auto simp: streamChunks_line)
  then show "set (streamChunks (captured_text s)) = set (streamChunks s)" using chunks by auto
  have "models_of ?f = []" if "models_of (streamChunks s) = []"
    using that sub by (auto simp: models_of_def filter_empty_conv)
  then show "(case models_of (streamChunks (captured_text s)) of m # _ \<Rightarrow> m | [] \<Rightarrow> JStr []) =
      (case models_of (streamChunks s) of m # _ \<Rightarrow> m | [] \<Rightarrow> JStr [])"
    unfolding chunks by (cases "models_of (streamChunks s)") (simp_all add: models_of_def)
qed

section \<open>Nothing billed is lost\<close>

definition stream_text :: "byte list list \<Rightarrow> jtext" where
  "stream_text chunks = utf16 (concat (snd (td_run td_new chunks)))"

lemma tap_result: "tapSseTail chunks = (chunks, captured_text (stream_text chunks))"
  by (cases "td_run td_new chunks") (simp add: tap_of_text stream_text_def)

lemma captured_bound: "length (snd (tapSseTail chunks)) \<le> 2 * SSE_TAP_CAP + SSE_FRAME_CAP + 2"
proof -
  have "length (captured_frame s) \<le> SSE_FRAME_CAP" for s
  proof -
    have "length (foldl keepLine f ls) \<le> n" if "length f \<le> n" "\<forall>l \<in> set ls. length l \<le> n" for f ls and n :: nat
      using that by (induction ls arbitrary: f) (auto simp: keepLine_def)
    then show ?thesis by (simp add: captured_frame_def kept_lines_def)
  qed
  from this [of "stream_text chunks"] length_last_n [of SSE_TAP_CAP "stream_text chunks"]
  show ?thesis by (simp add: tap_result captured_text_def min_def)
qed

lemma captured_frame_is_last:
  assumes "split_lines s = pre @ f # post" "\<forall>l \<in> set post. line_payload l = None \<or> SSE_FRAME_CAP < length l"
    "length f \<le> SSE_FRAME_CAP" "line_payload f \<noteq> None"
  shows "captured_frame s = f"
proof -
  have "foldl keepLine g (filter (\<lambda>l. length l \<le> SSE_FRAME_CAP) post) = g" for g
    using assms(2) by (induction post) (auto simp: keepLine_def)
  with assms(1,3,4) show ?thesis by (auto simp: captured_frame_def kept_lines_def keepLine_def)
qed

lemma captured_chunk:
  assumes "captured_frame s = f" "f \<noteq> []" "10 \<notin> set f" "line_chunk f = Some v"
  shows "v \<in> set (streamChunks (captured_text s))"
proof -
  have "streamChunks f = [v]" using assms(3,4) by (simp add: streamChunks_def split_lines_line List.map_filter_def)
  then show ?thesis
    using assms(1,2) streamChunks_join [of "take SSE_TAP_CAP s" "last_n SSE_TAP_CAP s @ 10 # f"]
      streamChunks_join [of "last_n SSE_TAP_CAP s" f]
    by (simp add: captured_text_def)
qed

lemma split_lines_free: "l \<in> set (split_lines s) \<Longrightarrow> 10 \<notin> set l"
  by (induction s arbitrary: l) (auto split: if_splits list.splits)

lemma fold_figures_ge:
  assumes "u \<in> set us"
  shows "uf_prompt (normalizeUsage u) \<le> uf_prompt (foldl max_figures z (map normalizeUsage us)) \<and>
    uf_completion (normalizeUsage u) \<le> uf_completion (foldl max_figures z (map normalizeUsage us)) \<and>
    uf_cached (normalizeUsage u) \<le> uf_cached (foldl max_figures z (map normalizeUsage us)) \<and>
    uf_cacheCreation (normalizeUsage u) \<le> uf_cacheCreation (foldl max_figures z (map normalizeUsage us))"
  using assms by (simp add: max_figures_fold Max_ge)

lemma chunk_payload: "line_chunk f = Some v \<Longrightarrow> line_payload f \<noteq> None"
  by (cases "line_payload f") (simp_all add: line_chunk_def)

text \<open>A short stream is metered exactly: for a body of at most 16384 characters, however it was
  cut into chunks, the client receives the same chunks and the usage found in the captured text is
  the usage found in the whole text, model included.\<close>

theorem short_stream_metered_exactly:
  assumes "length (stream_text chunks) \<le> SSE_TAP_CAP"
  shows "fst (tapSseTail chunks) = chunks \<and>
    extractStreamUsage (snd (tapSseTail chunks)) = extractStreamUsage (stream_text chunks)"
  using captured_short [OF assms] by (simp add: tap_result)

text \<open>However long the stream and however it is cut into chunks, the usage of its last data
  line is billed in full when that line has at most 131072 characters: each figure found is at
  least the one that line reports. This holds although only the edges of the stream are kept, and
  also when that line is larger than the tail window.\<close>

theorem last_usage_line_counts:
  assumes "split_lines (stream_text chunks) = pre @ f # post"
    "\<forall>l \<in> set post. line_payload l = None \<or> SSE_FRAME_CAP < length l" "length f \<le> SSE_FRAME_CAP"
    "line_chunk f = Some v" "u \<in> set (usage_blocks v)" "JNull \<notin> set (streamChunks (snd (tapSseTail chunks)))"
  shows "\<exists>m g. extractStreamUsage (snd (tapSseTail chunks)) = Usage m g \<and>
    uf_prompt (normalizeUsage u) \<le> uf_prompt g \<and> uf_completion (normalizeUsage u) \<le> uf_completion g \<and>
    uf_cached (normalizeUsage u) \<le> uf_cached g \<and> uf_cacheCreation (normalizeUsage u) \<le> uf_cacheCreation g"
proof -
  let ?cs = "streamChunks (captured_text (stream_text chunks))"
  have payload: "line_payload f \<noteq> None" by (rule chunk_payload [OF assms(4)])
  then have "f \<noteq> []" by (auto simp: line_payload_def text_of_def)
  moreover have "10 \<notin> set f" using assms(1) split_lines_free [of f "stream_text chunks"] by simp
  ultimately have "v \<in> set ?cs"
    using captured_chunk [OF captured_frame_is_last [OF assms(1-3) payload]] assms(4) by blast
  then have "u \<in> set (blocks_of ?cs)" using assms(5) by (auto simp: blocks_of_def)
  moreover from this have "blocks_of ?cs \<noteq> []" by auto
  ultimately show ?thesis
    using assms(6) fold_figures_ge [of u "blocks_of ?cs"]
    by (simp add: tap_result extractStreamUsage_def Let_def scan_seen scan_figures)
qed

text \<open>One \<open>data: null\<close> line makes the search throw, and the stream is billed nothing.\<close>

lemma null_line_unbilled:
  "JNull \<in> set (streamChunks s) \<Longrightarrow> extractStreamUsage s = Throws"
  by (simp add: extractStreamUsage_def)

section \<open>Witnesses\<close>

lemma readable_units:
  assumes "list_all (\<lambda>c. c < 128) s"
  shows "utf16 s = s"
  using assms by (induction s) (simp_all add: utf16_def utf16_char_def)

lemma one_by_one: "concat (map (\<lambda>b. [b]) xs) = xs"
  by (induction xs) simp_all

lemma stream_text_of:
  assumes "list_all scalar s" "s = [] \<or> hd s \<noteq> 0xFEFF" "concat chunks = utf8_encode s"
  shows "stream_text chunks = utf16 s"
proof (cases "td_run td_new chunks")
  case (Pair d ts)
  from td_run_concat [OF this] assms have "td_decode td_new (utf8_encode s) = (d, concat ts)" by simp
  then have "concat ts = s"
    using assms(2) utf8_encode_run [OF assms(1)]
    by (cases s) (auto simp: td_decode_def td_new_def td_emit_def strip_bom_def split: if_splits)
  with Pair show ?thesis by (simp add: stream_text_def)
qed

definition usage_frame :: "jtext json" where
  "usage_frame = JObj [(text_of ''usage'', JObj [(text_of ''prompt_tokens'', JNum 7)])]"

lemma usage_frame_plain: "plain_json usage_frame"
  by (simp add: usage_frame_def text_of_def scalar_def)

text \<open>The bytes of one frame, one at a time.\<close>

definition usage_bytes :: "byte list list" where
  "usage_bytes = map (\<lambda>b. [b]) (utf8_encode (sseEncode demo_num_text None usage_frame))"

definition usage_line :: jtext where
  "usage_line = text_of ''data: {\"usage\":{\"prompt_tokens\":7}}''"

lemma usage_stringify: "text_of ''data: '' @ json_stringify demo_num_text usage_frame = usage_line"
  by (simp add: usage_frame_def usage_line_def demo_num_text_def text_of_def print_string_def print_char_def
      int_str_def nat_str.simps)

lemma usage_stream: "stream_text usage_bytes = usage_line @ [10, 10]"
proof -
  have enc: "sseEncode demo_num_text None usage_frame = usage_line @ [10, 10]"
    using usage_stringify by (simp add: sseEncode_def sseEncode_text_def event_line_def)
  have "list_all (\<lambda>c. c < 128) (usage_line @ [10, 10])" by (simp add: usage_line_def text_of_def)
  moreover have "list_all scalar (usage_line @ [10, 10])" by (simp add: usage_line_def text_of_def scalar_def)
  moreover have "hd (usage_line @ [10, 10]) \<noteq> 0xFEFF" by (simp add: usage_line_def text_of_def)
  ultimately show ?thesis
    using stream_text_of [of "usage_line @ [10, 10]" usage_bytes]
    by (simp add: usage_bytes_def one_by_one enc readable_units del: append_Cons)
qed

lemma parsed_payload: "parseDataLine l = Payload v \<Longrightarrow> json_parse (cp_trim (drop 5 l)) = Some v"
  unfolding parseDataLine_def Let_def by (auto split: if_splits option.splits json.splits)

lemma usage_line_chunk: "line_chunk usage_line = Some usage_frame"
proof -
  obtain ms where ms: "usage_frame = JObj ms" by (simp add: usage_frame_def)
  have "parseDataLine usage_line = Payload usage_frame"
    using data_line_read [OF demo_renders, of ms] usage_frame_plain usage_stringify ms by simp
  moreover have "line_payload usage_line = Some (drop 6 usage_line)" "join_surrogates (drop 6 usage_line) = drop 6 usage_line"
    "cp_trim (drop 5 usage_line) = drop 6 usage_line"
    by (simp_all add: line_payload_def usage_line_def text_of_def cp_trim_def cp_space_def)
  ultimately show ?thesis using parsed_payload [of usage_line usage_frame] by (simp add: line_chunk_def)
qed

lemma short_stream_metered_exactly_witness:
  "fst (tapSseTail usage_bytes) = usage_bytes \<and>
   extractStreamUsage (snd (tapSseTail usage_bytes)) = extractStreamUsage (usage_line @ [10, 10])"
  using short_stream_metered_exactly [of usage_bytes]
  by (simp add: usage_stream usage_line_def text_of_def SSE_TAP_CAP_def)

lemma usage_lines: "split_lines (stream_text usage_bytes) = [] @ usage_line # [[], []]"
  by (simp add: usage_stream usage_line_def text_of_def)

lemma usage_len: "length usage_line \<le> SSE_FRAME_CAP"
  by (simp add: usage_line_def text_of_def SSE_FRAME_CAP_def)

lemma usage_post: "\<forall>l \<in> set [[], []]. line_payload l = None \<or> SSE_FRAME_CAP < length l"
  by (simp add: line_payload_def text_of_def)

lemma usage_captured: "JNull \<notin> set (streamChunks (snd (tapSseTail usage_bytes)))"
proof -
  have frame: "captured_frame (stream_text usage_bytes) = usage_line"
    by (rule captured_frame_is_last [OF usage_lines usage_post usage_len chunk_payload [OF usage_line_chunk]])
  have "line_chunk [] = None" by (simp add: line_chunk_def line_payload_def text_of_def)
  then have whole: "streamChunks (usage_line @ [10, 10]) = [usage_frame]"
    using usage_lines usage_line_chunk by (simp add: streamChunks_def List.map_filter_def usage_stream)
  have line: "streamChunks usage_line = [usage_frame]"
    using usage_line_chunk by (simp add: streamChunks_def split_lines_line List.map_filter_def usage_line_def text_of_def)
  have short: "length (usage_line @ [10, 10]) \<le> SSE_TAP_CAP" by (simp add: usage_line_def text_of_def SSE_TAP_CAP_def)
  then have "take SSE_TAP_CAP (usage_line @ [10, 10]) = usage_line @ [10, 10]"
    "last_n SSE_TAP_CAP (usage_line @ [10, 10]) = usage_line @ [10, 10]"
    by (simp_all add: last_n_def)
  then have "snd (tapSseTail usage_bytes) =
      (usage_line @ [10, 10]) @ 10 # (usage_line @ [10, 10]) @ (if usage_line = [] then [] else 10 # usage_line)"
    using frame by (simp add: tap_result captured_text_def usage_stream)
  then have "streamChunks (snd (tapSseTail usage_bytes)) = [usage_frame, usage_frame, usage_frame]"
    using streamChunks_join [of "usage_line @ [10, 10]" "(usage_line @ [10, 10]) @ 10 # usage_line"]
      streamChunks_join [of "usage_line @ [10, 10]" usage_line] whole line
    by (simp add: usage_line_def text_of_def)
  then show ?thesis by (simp add: usage_frame_def)
qed

lemma last_usage_line_counts_witness:
  "\<exists>m g. extractStreamUsage (snd (tapSseTail usage_bytes)) = Usage m g \<and> 7 \<le> uf_prompt g"
proof -
  let ?u = "JObj [(text_of ''prompt_tokens'', JNum 7)]"
  have u: "?u \<in> set (usage_blocks usage_frame)"
    by (simp add: usage_blocks_def usage_frame_def opt_field_def json_field_def js_truthy_def text_of_def)
  have n: "uf_prompt (normalizeUsage ?u) = 7"
    by (simp add: normalizeUsage_def opt_field_def json_field_def coalesce_def clampCount_def clamp_number_def
        js_finite_def MAX_SAFE_INTEGER_def text_of_def Let_def)
  from last_usage_line_counts [OF usage_lines usage_post usage_len usage_line_chunk u usage_captured] n
  show ?thesis by auto
qed

end
