(* ===== verification/DispatchRecord.thy ===== *)
theory DispatchRecord
  imports Prelude
begin

text \<open>
  \<open>packages/telemetry/src/usage.ts\<close>, the per-request channel between a media route and the two
  accounting sites: what was dispatched, what the provider delivered, and who has settled. The code
  keeps it in a \<open>WeakMap\<close> keyed by the request object; here requests are a type variable. The
  governance and telemetry middlewares run as separate stretches of the same request, so the order
  of their calls is left open.
\<close>

section \<open>Records\<close>

record media_units =
  mu_imageCount :: "int option"
  mu_characterCount :: "int option"
  mu_audioSeconds :: "rat option"

record token_counts =
  tk_prompt :: int
  tk_completion :: int
  tk_cached :: int
  tk_cacheCreation :: int

record request_dispatch =
  rd_providerId :: string
  rd_model :: string
  rd_providerStatus :: "int option"
  rd_tokens :: "token_counts option"
  rd_units :: "media_units option"
  rd_governance :: bool
  rd_telemetry :: bool

datatype site = Governance | Telemetry

type_synonym 'r dispatches = "('r, request_dispatch) jmap"

section \<open>Operations\<close>

text \<open>First write wins; a refused write is counted.\<close>

definition setRequestDispatch :: "'r dispatches \<Rightarrow> 'r \<Rightarrow> request_dispatch \<Rightarrow> 'r dispatches \<times> bool" where
  "setRequestDispatch m req d = (if jm_has m req then (m, False) else (jm_set m req d, True))"

definition mergeRequestStatus :: "'r dispatches \<Rightarrow> 'r \<Rightarrow> int \<Rightarrow> 'r dispatches \<times> bool" where
  "mergeRequestStatus m req status =
     (case jm_get m req of
        None \<Rightarrow> (m, False)
      | Some d \<Rightarrow>
          if rd_providerStatus d \<noteq> None then (m, False)
          else (jm_modify m req (\<lambda>d. d\<lparr>rd_providerStatus := Some status\<rparr>), True))"

text \<open>\<open>{...existing, ...units}\<close>: the counted dimensions replace the earlier ones.\<close>

definition overlay :: "'a option \<Rightarrow> 'a option \<Rightarrow> 'a option" where
  "overlay new old = (case new of Some v \<Rightarrow> Some v | None \<Rightarrow> old)"

definition merge_units :: "media_units option \<Rightarrow> media_units \<Rightarrow> media_units" where
  "merge_units old u =
     (case old of
        None \<Rightarrow> u
      | Some o1 \<Rightarrow>
          \<lparr>mu_imageCount = overlay (mu_imageCount u) (mu_imageCount o1),
           mu_characterCount = overlay (mu_characterCount u) (mu_characterCount o1),
           mu_audioSeconds = overlay (mu_audioSeconds u) (mu_audioSeconds o1)\<rparr>)"

definition mergeRequestUnits :: "'r dispatches \<Rightarrow> 'r \<Rightarrow> media_units \<Rightarrow> 'r dispatches" where
  "mergeRequestUnits m req u = jm_modify m req (\<lambda>d. d\<lparr>rd_units := Some (merge_units (rd_units d) u)\<rparr>)"

definition mergeRequestTokens :: "'r dispatches \<Rightarrow> 'r \<Rightarrow> token_counts option \<Rightarrow> 'r dispatches" where
  "mergeRequestTokens m req tokens =
     (case tokens of None \<Rightarrow> m | Some t \<Rightarrow> jm_modify m req (\<lambda>d. d\<lparr>rd_tokens := Some t\<rparr>))"

definition settled_by :: "site \<Rightarrow> request_dispatch \<Rightarrow> bool" where
  "settled_by s d = (case s of Governance \<Rightarrow> rd_governance d | Telemetry \<Rightarrow> rd_telemetry d)"

definition set_settled :: "site \<Rightarrow> request_dispatch \<Rightarrow> request_dispatch" where
  "set_settled s d =
     (case s of Governance \<Rightarrow> d\<lparr>rd_governance := True\<rparr> | Telemetry \<Rightarrow> d\<lparr>rd_telemetry := True\<rparr>)"

definition markSettled :: "'r dispatches \<Rightarrow> 'r \<Rightarrow> site \<Rightarrow> 'r dispatches \<times> bool" where
  "markSettled m req s =
     (case jm_get m req of
        None \<Rightarrow> (m, False)
      | Some d \<Rightarrow> if settled_by s d then (m, False) else (jm_modify m req (set_settled s), True))"

section \<open>Histories\<close>

datatype 'r channel_op =
    Dispatch 'r request_dispatch
  | Status 'r int
  | Units 'r media_units
  | Tokens 'r "token_counts option"
  | Settle 'r site

text \<open>The channel, the counter \<open>accounting.dispatch_rewritten\<close>, and the settlements that were granted, in order.\<close>

record 'r channel =
  cx_map :: "'r dispatches"
  cx_rewritten :: nat
  cx_granted :: "('r \<times> site) list"

definition channel_step :: "'r channel \<Rightarrow> 'r channel_op \<Rightarrow> 'r channel" where
  "channel_step c op =
     (case op of
        Dispatch r d \<Rightarrow>
          (case setRequestDispatch (cx_map c) r d of
             (m, True) \<Rightarrow> c\<lparr>cx_map := m\<rparr>
           | (m, False) \<Rightarrow> c\<lparr>cx_rewritten := cx_rewritten c + 1\<rparr>)
      | Status r s \<Rightarrow> c\<lparr>cx_map := fst (mergeRequestStatus (cx_map c) r s)\<rparr>
      | Units r u \<Rightarrow> c\<lparr>cx_map := mergeRequestUnits (cx_map c) r u\<rparr>
      | Tokens r t \<Rightarrow> c\<lparr>cx_map := mergeRequestTokens (cx_map c) r t\<rparr>
      | Settle r s \<Rightarrow>
          (case markSettled (cx_map c) r s of
             (m, True) \<Rightarrow> c\<lparr>cx_map := m, cx_granted := cx_granted c @ [(r, s)]\<rparr>
           | (m, False) \<Rightarrow> c))"

definition channel_start :: "'r channel" where
  "channel_start = \<lparr>cx_map = [], cx_rewritten = 0, cx_granted = []\<rparr>"

text \<open>Every grant is on record with its flag set.\<close>

definition channel_inv :: "'r channel \<Rightarrow> bool" where
  "channel_inv c \<longleftrightarrow>
     distinct (cx_granted c) \<and>
     (\<forall>r s. (r, s) \<in> set (cx_granted c) \<longrightarrow> (\<exists>d. jm_get (cx_map c) r = Some d \<and> settled_by s d))"

lemma settled_frame [simp]:
  "settled_by s (d\<lparr>rd_providerStatus := x\<rparr>) = settled_by s d" "settled_by s (d\<lparr>rd_units := u\<rparr>) = settled_by s d"
  "settled_by s (d\<lparr>rd_tokens := t\<rparr>) = settled_by s d"
  "settled_by s (set_settled s' d) = (s = s' \<or> settled_by s d)"
  "rd_providerId (set_settled s d) = rd_providerId d" "rd_model (set_settled s d) = rd_model d"
  by (cases s; simp add: settled_by_def set_settled_def split: site.split)+

text \<open>Changing a record in place keeps the invariant when its settlements stay.\<close>

lemma channel_modify:
  assumes "channel_inv c" "\<And>d s. settled_by s d \<Longrightarrow> settled_by s (f d)"
  shows "channel_inv (c\<lparr>cx_map := jm_modify (cx_map c) r f\<rparr>)"
  using assms by (fastforce simp: channel_inv_def split: if_splits)

lemma channel_dispatch:
  assumes "channel_inv c"
  shows "channel_inv (channel_step c (Dispatch r d))"
  using assms by (fastforce simp: channel_step_def setRequestDispatch_def channel_inv_def split: if_splits)

lemma channel_settle:
  assumes "channel_inv c"
  shows "channel_inv (channel_step c (Settle r s))"
proof (cases "jm_get (cx_map c) r")
  case (Some d)
  show ?thesis
  proof (cases "settled_by s d")
    case False
    then have new: "(r, s) \<notin> set (cx_granted c)" using assms Some by (fastforce simp: channel_inv_def)
    have "channel_inv (c\<lparr>cx_map := jm_modify (cx_map c) r (set_settled s)\<rparr>)"
      by (rule channel_modify [OF assms]) simp_all
    with new Some False show ?thesis
      by (auto simp: channel_step_def markSettled_def channel_inv_def split: if_splits)
  qed (use assms Some in \<open>simp add: channel_step_def markSettled_def\<close>)
qed (use assms in \<open>simp add: channel_step_def markSettled_def\<close>)

interpretation cx: preserved channel_step "channel_inv :: 'r channel \<Rightarrow> bool"
proof
  fix c :: "'r channel" and op
  assume inv: "channel_inv c"
  show "channel_inv (channel_step c op)"
  proof (cases op)
    case (Status r s)
    then show ?thesis
      using inv channel_modify [OF inv, of "\<lambda>d. d\<lparr>rd_providerStatus := Some s\<rparr>" r]
      by (simp add: channel_step_def mergeRequestStatus_def split: option.split)
  next
    case (Units r u)
    then show ?thesis by (simp add: channel_step_def mergeRequestUnits_def channel_modify [OF inv])
  next
    case (Tokens r t)
    then show ?thesis
      using inv by (simp add: channel_step_def mergeRequestTokens_def channel_modify [OF inv] split: option.split)
  qed (simp_all add: inv channel_dispatch channel_settle)
qed

text \<open>The first dispatch of a request among the operations, and how many there were.\<close>

fun first_dispatch :: "'r \<Rightarrow> 'r channel_op list \<Rightarrow> request_dispatch option" where
  "first_dispatch r [] = None"
| "first_dispatch r (Dispatch q d # ops) = (if q = r then Some d else first_dispatch r ops)"
| "first_dispatch r (op # ops) = first_dispatch r ops"

lemma first_dispatch_snoc:
  "first_dispatch r (ops @ [op]) =
     (case first_dispatch r ops of
        Some d \<Rightarrow> Some d
      | None \<Rightarrow> (case op of Dispatch q d \<Rightarrow> if q = r then Some d else None | _ \<Rightarrow> None))"
  by (induction r ops rule: first_dispatch.induct) (simp_all split: channel_op.split)

definition same_target :: "request_dispatch option \<Rightarrow> request_dispatch option \<Rightarrow> bool" where
  "same_target x y \<longleftrightarrow>
     (case (x, y) of
        (Some d, Some d0) \<Rightarrow> rd_providerId d = rd_providerId d0 \<and> rd_model d = rd_model d0
      | (None, None) \<Rightarrow> True
      | _ \<Rightarrow> False)"

lemma same_target_frame:
  assumes "\<And>d. rd_providerId (f d) = rd_providerId d" "\<And>d. rd_model (f d) = rd_model d"
  shows "same_target (map_option f x) y = same_target x y"
  using assms by (cases x; cases y) (simp_all add: same_target_def)

definition and_then :: "request_dispatch option \<Rightarrow> 'r \<Rightarrow> 'r channel_op \<Rightarrow> request_dispatch option" where
  "and_then x r op =
     (case x of
        Some d \<Rightarrow> Some d
      | None \<Rightarrow> (case op of Dispatch q d \<Rightarrow> if q = r then Some d else None | _ \<Rightarrow> None))"

lemma target_step:
  assumes "same_target (jm_get (cx_map c) r) x"
  shows "same_target (jm_get (cx_map (channel_step c op)) r) (and_then x r op)"
proof (cases op)
  case (Dispatch q d)
  with assms show ?thesis
    by (cases x; cases "jm_get (cx_map c) q")
      (auto simp: channel_step_def setRequestDispatch_def and_then_def same_target_def split: option.splits)
next
  case (Status q s)
  with assms show ?thesis
    by (cases x) (auto simp: channel_step_def mergeRequestStatus_def and_then_def same_target_def split: option.splits)
next
  case (Units q u)
  with assms show ?thesis
    by (cases x) (auto simp: channel_step_def mergeRequestUnits_def and_then_def same_target_frame)
next
  case (Tokens q t)
  with assms show ?thesis
    by (cases x; cases t) (auto simp: channel_step_def mergeRequestTokens_def and_then_def same_target_frame)
next
  case (Settle q s)
  with assms show ?thesis
    by (cases x; cases "jm_get (cx_map c) q")
      (auto simp: channel_step_def markSettled_def and_then_def same_target_def split: option.splits)
qed

lemma target_is_first:
  "same_target (jm_get (cx_map (foldl channel_step channel_start ops)) r) (first_dispatch r ops)"
proof (induction ops rule: rev_induct)
  case Nil
  then show ?case by (simp add: channel_start_def same_target_def)
next
  case (snoc op ops)
  from target_step [OF this, of op] show ?case by (simp add: first_dispatch_snoc and_then_def)
qed

text \<open>Whatever order the routes and the two accounting sites call in, each request is settled at
  most once per site and only when something was dispatched for it, and the target billed is the
  first one dispatched to: later writes change neither provider nor model.\<close>

theorem request_settles_once:
  "(let c = foldl channel_step channel_start ops
    in distinct (cx_granted c) \<and>
       (\<forall>r. same_target (jm_get (cx_map c) r) (first_dispatch r ops)) \<and>
       fst ` set (cx_granted c) \<subseteq> {r. first_dispatch r ops \<noteq> None})"
proof -
  let ?c = "foldl channel_step channel_start ops"
  have inv: "channel_inv ?c"
    by (rule cx.run_inv) (simp add: channel_inv_def channel_start_def)
  have "first_dispatch r ops \<noteq> None" if g: "(r, s) \<in> set (cx_granted ?c)" for r s
  proof -
    from inv g obtain d where "jm_get (cx_map ?c) r = Some d" unfolding channel_inv_def by blast
    with target_is_first [of ops r] show ?thesis by (auto simp: same_target_def split: option.splits)
  qed
  with inv show ?thesis by (auto simp: channel_inv_def Let_def target_is_first)
qed

end
