(* ===== verification/Session.thy ===== *)
theory Session
  imports JsText Utf8
begin

text \<open>
  \<open>src/web/src/lib/sysdeck/session.ts\<close>: the signed session cookie of the web console. A token is
  \<open>v2.<expiry>.<user in base64url>.<mac>\<close> (or the older \<open>v1.<expiry>.<mac>\<close>); the key is a random
  value created once per install and kept in the database.

  HMAC-SHA-256 is an argument, as is the rendering of a number as text; both are used through the
  laws stated where a property needs them. Headers and tokens are 8-bit texts, user names are lists
  of code points.
\<close>

section \<open>Base64url\<close>

definition b64_alphabet :: string where
  "b64_alphabet = ''ABCDEFGHIJKLMNOPQRSTUVWXYZabcdefghijklmnopqrstuvwxyz0123456789-_''"

definition b64_char :: "nat \<Rightarrow> char" where
  "b64_char n = b64_alphabet ! n"

text \<open>Three bytes are four digits; one or two at the end are two or three, without padding.\<close>

fun b64_encode :: "nat list \<Rightarrow> string" where
  "b64_encode [] = []"
| "b64_encode [a] = [b64_char (a div 4), b64_char (a mod 4 * 16)]"
| "b64_encode [a, b] = [b64_char (a div 4), b64_char (a mod 4 * 16 + b div 16), b64_char (b mod 16 * 4)]"
| "b64_encode (a # b # c # r) =
     [b64_char (a div 4), b64_char (a mod 4 * 16 + b div 16), b64_char (b mod 16 * 4 + c div 64), b64_char (c mod 64)] @
     b64_encode r"

text \<open>The runtime's decoder reads both alphabets, passes over other characters and stops at the
  padding; a single digit left over is dropped.\<close>

definition b64_digit :: "char \<Rightarrow> nat option" where
  "b64_digit c =
     (let n = of_char c :: nat
      in if 65 \<le> n \<and> n \<le> 90 then Some (n - 65) else if 97 \<le> n \<and> n \<le> 122 then Some (n - 71)
         else if 48 \<le> n \<and> n \<le> 57 then Some (n + 4) else if n = 45 \<or> n = 43 then Some 62
         else if n = 95 \<or> n = 47 then Some 63 else None)"

fun b64_bytes :: "nat list \<Rightarrow> nat list" where
  "b64_bytes (p # q # r # s # ds) =
     [p * 4 + q div 16, q mod 16 * 16 + r div 4, r mod 4 * 64 + s] @ b64_bytes ds"
| "b64_bytes [p, q, r] = [p * 4 + q div 16, q mod 16 * 16 + r div 4]"
| "b64_bytes [p, q] = [p * 4 + q div 16]"
| "b64_bytes ds = []"

definition b64_decode :: "string \<Rightarrow> nat list" where
  "b64_decode s = b64_bytes (List.map_filter b64_digit (takeWhile (\<lambda>c. c \<noteq> CHR ''='') s))"

text \<open>\<open>Buffer.toString('utf8')\<close> keeps a byte order mark.\<close>

definition buffer_text :: "byte list \<Rightarrow> codepoints" where
  "buffer_text bytes = (let (s, out) = utf8_run Start bytes in out @ utf8_finish s)"

definition b64u :: "codepoints \<Rightarrow> string" where
  "b64u input = b64_encode (map unat (utf8_encode input))"

definition unb64u :: "string \<Rightarrow> codepoints" where
  "unb64u input = buffer_text (map word_of_nat (b64_decode input))"

section \<open>Tokens\<close>

definition AUTH_COOKIE :: string where
  "AUTH_COOKIE = ''sd_session''"

definition SESSION_TTL_MS :: int where
  "SESSION_TTL_MS = 12 * 60 * 60 * 1000"

record session_info =
  si_expiresAt :: rat
  si_user :: "codepoints option"
  si_version :: nat

type_synonym mac = "string \<Rightarrow> string \<Rightarrow> string"

definition createSessionToken ::
  "mac \<Rightarrow> (rat \<Rightarrow> string) \<Rightarrow> string \<Rightarrow> int \<Rightarrow> codepoints \<Rightarrow> int \<Rightarrow> string \<times> int" where
  "createSessionToken hmac num_str secret now username ttlMs =
     (let expiresAt = now + ttlMs;
          body = ''v2.'' @ num_str (of_int expiresAt) @ ''.'' @ b64u username
      in (body @ ''.'' @ hmac body secret, expiresAt))"

definition is_hex :: "char \<Rightarrow> bool" where
  "is_hex c \<longleftrightarrow> is_digit c \<or> (let n = of_char c :: nat in 97 \<le> n \<and> n \<le> 102)"

definition sameHex :: "string \<Rightarrow> string \<Rightarrow> bool" where
  "sameHex a b \<longleftrightarrow> length a = length b \<and> a \<noteq> [] \<and> list_all is_hex a \<and> a = b"

text \<open>The expiry must be the canonical text of a finite number and not lie in the past.\<close>

definition live_expiry :: "(rat \<Rightarrow> string) \<Rightarrow> int \<Rightarrow> string \<Rightarrow> rat option" where
  "live_expiry num_str now part =
     (case js_number part of
        None \<Rightarrow> None
      | Some e \<Rightarrow> if num_str e \<noteq> part then None else if e < of_int now then None else Some e)"

text \<open>The length of a name in UTF-16 units.\<close>

definition utf16_length :: "codepoints \<Rightarrow> nat" where
  "utf16_length u = sum_list (map (\<lambda>c. if c < 0x10000 then 1 else 2) u)"

definition verifySessionToken ::
  "mac \<Rightarrow> (rat \<Rightarrow> string) \<Rightarrow> string \<Rightarrow> int \<Rightarrow> string option \<Rightarrow> session_info option" where
  "verifySessionToken hmac num_str secret now token =
     (case token of
        None \<Rightarrow> None
      | Some t \<Rightarrow>
          if t = [] then None
          else (case split_on CHR ''.'' t of
            [v, e, u, m] \<Rightarrow>
              if v = ''v2'' then
                (case live_expiry num_str now e of
                   None \<Rightarrow> None
                 | Some expiresAt \<Rightarrow>
                     (let user = unb64u u
                      in if user = [] \<or> utf16_length user > 64 then None
                         else if \<not> sameHex m (hmac (''v2.'' @ e @ ''.'' @ u) secret) then None
                         else Some \<lparr>si_expiresAt = expiresAt, si_user = Some user, si_version = 2\<rparr>))
              else None
          | [v, e, m] \<Rightarrow>
              if v = ''v1'' then
                (case live_expiry num_str now e of
                   None \<Rightarrow> None
                 | Some expiresAt \<Rightarrow>
                     if \<not> sameHex m (hmac (''v1.'' @ e) secret) then None
                     else Some \<lparr>si_expiresAt = expiresAt, si_user = None, si_version = 1\<rparr>)
              else None
          | _ \<Rightarrow> None))"

section \<open>Cookies and guards\<close>

text \<open>\<open>part.indexOf('=')\<close> splits at the first equals sign.\<close>

definition cookie_part :: "string \<Rightarrow> string option" where
  "cookie_part part =
     (case js_indexOf CHR ''='' part of
        None \<Rightarrow> None
      | Some eq \<Rightarrow>
          if js_trim (take eq part) = AUTH_COOKIE then Some (js_trim (drop (eq + 1) part)) else None)"

fun first_some :: "('a \<Rightarrow> 'b option) \<Rightarrow> 'a list \<Rightarrow> 'b option" where
  "first_some f [] = None"
| "first_some f (x # xs) = (case f x of Some y \<Rightarrow> Some y | None \<Rightarrow> first_some f xs)"

definition tokenFromCookieHeader :: "string option \<Rightarrow> string option" where
  "tokenFromCookieHeader header =
     (case header of
        None \<Rightarrow> None
      | Some h \<Rightarrow> if h = [] then None else first_some cookie_part (split_on CHR '';'' h))"

definition sessionUserFor ::
  "mac \<Rightarrow> (rat \<Rightarrow> string) \<Rightarrow> string \<Rightarrow> int \<Rightarrow> string option \<Rightarrow> codepoints option" where
  "sessionUserFor hmac num_str secret now header =
     Option.bind (verifySessionToken hmac num_str secret now (tokenFromCookieHeader header)) si_user"

definition isRequestAuthed ::
  "mac \<Rightarrow> (rat \<Rightarrow> string) \<Rightarrow> string \<Rightarrow> int \<Rightarrow> string option \<Rightarrow> bool" where
  "isRequestAuthed hmac num_str secret now header \<longleftrightarrow>
     verifySessionToken hmac num_str secret now (tokenFromCookieHeader header) \<noteq> None"

text \<open>\<open>null\<close> lets the request through; otherwise the 401 answer.\<close>

datatype guard_answer = Unauthorized

definition requireSession ::
  "mac \<Rightarrow> (rat \<Rightarrow> string) \<Rightarrow> string \<Rightarrow> int \<Rightarrow> string option \<Rightarrow> guard_answer option" where
  "requireSession hmac num_str secret now header =
     (if isRequestAuthed hmac num_str secret now header then None else Some Unauthorized)"

definition mintServerCookie :: "mac \<Rightarrow> (rat \<Rightarrow> string) \<Rightarrow> string \<Rightarrow> int \<Rightarrow> string" where
  "mintServerCookie hmac num_str secret now =
     AUTH_COOKIE @ ''='' @ fst (createSessionToken hmac num_str secret now (text_of ''sysdeck-internal'') 90000)"

section \<open>Base64url reads back what it wrote\<close>

lemma b64_table:
  "list_all (\<lambda>n. b64_digit (b64_char n) = Some n \<and> b64_char n \<notin> {CHR ''='', CHR ''.'', CHR '';'', CHR '' ''}) [0..<64]"
  by (simp add: upt_rec b64_char_def b64_alphabet_def b64_digit_def)

lemma b64_char_facts:
  assumes "n < 64"
  shows "b64_digit (b64_char n) = Some n" "b64_char n \<noteq> CHR ''=''" "b64_char n \<noteq> CHR ''.''"
    "b64_char n \<noteq> CHR '';''" "b64_char n \<noteq> CHR '' ''"
  using b64_table assms by (auto simp: list_all_iff)

lemma sextets:
  fixes a b c :: nat
  assumes "a < 256" "b < 256" "c < 256"
  shows "a div 4 < 64" "a mod 4 * 16 + b div 16 < 64" "b mod 16 * 4 + c div 64 < 64" "c mod 64 < 64"
    "a mod 4 * 16 < 64" "b mod 16 * 4 < 64"
  using assms by auto

lemma octets:
  fixes b :: nat
  assumes "b < 256"
  shows "b div 16 div 16 = 0" "b div 16 mod 16 = b div 16" "b div 64 div 4 = 0" "b div 64 mod 4 = b div 64"
  using assms by (simp_all add: div_mult2_eq [symmetric])

fun b64_digits :: "nat list \<Rightarrow> nat list" where
  "b64_digits [] = []"
| "b64_digits [a] = [a div 4, a mod 4 * 16]"
| "b64_digits [a, b] = [a div 4, a mod 4 * 16 + b div 16, b mod 16 * 4]"
| "b64_digits (a # b # c # r) =
     [a div 4, a mod 4 * 16 + b div 16, b mod 16 * 4 + c div 64, c mod 64] @ b64_digits r"

lemma b64_encode_digits: "b64_encode bs = map b64_char (b64_digits bs)"
  by (induction bs rule: b64_digits.induct) simp_all

lemma b64_digits_bound: "\<forall>b \<in> set bs. b < 256 \<Longrightarrow> \<forall>d \<in> set (b64_digits bs). d < 64"
  by (induction bs rule: b64_digits.induct) (auto simp: sextets)

lemma b64_bytes_digits: "\<forall>b \<in> set bs. b < 256 \<Longrightarrow> b64_bytes (b64_digits bs) = bs"
  by (induction bs rule: b64_digits.induct) (simp_all add: octets)

lemma b64_roundtrip:
  assumes "\<forall>b \<in> set bs. b < 256"
  shows "b64_decode (b64_encode bs) = bs"
proof -
  have "List.map_filter b64_digit (map b64_char ds) = ds" if "\<forall>d \<in> set ds. d < 64" for ds
    using that by (induction ds) (simp_all add: b64_char_facts List.map_filter_def)
  moreover have tw: "takeWhile (\<lambda>c. c \<noteq> CHR ''='') (b64_encode bs) = b64_encode bs"
    using b64_digits_bound [OF assms] by (auto simp: b64_encode_digits takeWhile_eq_all_conv b64_char_facts)
  ultimately show ?thesis
    using b64_digits_bound [OF assms] b64_bytes_digits [OF assms]
    unfolding b64_decode_def tw by (simp add: b64_encode_digits)
qed

lemma byte_bound: "unat b < 256" for b :: byte
  using unsigned_less [of b] by simp

lemma user_roundtrip:
  assumes "list_all scalar u"
  shows "unb64u (b64u u) = u"
proof -
  have "map word_of_nat (map unat bs) = bs" for bs :: "byte list"
    by (induction bs) simp_all
  moreover have "\<forall>b \<in> set (map unat (utf8_encode u)). b < 256"
    using byte_bound by auto
  ultimately show ?thesis
    by (simp add: unb64u_def b64u_def b64_roundtrip buffer_text_def utf8_encode_run [OF assms] utf8_finish_def
        del: map_map)
qed

lemma b64u_chars: "c \<in> set (b64u u) \<Longrightarrow> c \<notin> {CHR ''='', CHR ''.'', CHR '';'', CHR '' ''}"
proof -
  have "\<forall>b \<in> set (map unat (utf8_encode u)). b < 256"
    using byte_bound by auto
  from b64_digits_bound [OF this] show "c \<in> set (b64u u) \<Longrightarrow> c \<notin> {CHR ''='', CHR ''.'', CHR '';'', CHR '' ''}"
    by (auto simp: b64u_def b64_encode_digits b64_char_facts)
qed

section \<open>What a valid token says\<close>

text \<open>The documented shape of the MAC: a non-empty lower-case hexadecimal text. Integers below
  \<open>10^21\<close> are rendered in decimal.\<close>

definition hex_mac :: "mac \<Rightarrow> bool" where
  "hex_mac hmac \<longleftrightarrow> (\<forall>b k. hmac b k \<noteq> [] \<and> list_all is_hex (hmac b k))"

definition decimal_rendering :: "(rat \<Rightarrow> string) \<Rightarrow> bool" where
  "decimal_rendering num_str \<longleftrightarrow> (\<forall>i. \<bar>i\<bar> < 10 ^ 21 \<longrightarrow> num_str (of_int i) = int_str i)"

lemma split_on_middle: "split_on c (a @ c # b) = split_on c a @ split_on c b"
proof (induction a)
  case (Cons x a)
  then show ?case by (cases "split_on c a") simp_all
qed simp

lemma dot_free_hex: "list_all is_hex s \<Longrightarrow> CHR ''.'' \<notin> set s"
  by (auto simp: list_all_iff is_hex_def is_digit_def)

lemma dot_free_int: "CHR ''.'' \<notin> set (int_str i)"
  by (auto simp: int_str_def dest!: nat_str_chars split: if_splits)

lemma sameHex_refl: "hex_mac hmac \<Longrightarrow> sameHex m (hmac b k) = (m = hmac b k)"
  by (auto simp: sameHex_def hex_mac_def)

text \<open>The reading of a signed text: nothing but what the MAC covers.\<close>

definition canonical_number :: "(rat \<Rightarrow> string) \<Rightarrow> string \<Rightarrow> rat option" where
  "canonical_number num_str part =
     (case js_number part of None \<Rightarrow> None | Some q \<Rightarrow> if num_str q = part then Some q else None)"

definition signed_info :: "(rat \<Rightarrow> string) \<Rightarrow> string \<Rightarrow> session_info option" where
  "signed_info num_str body =
     (case split_on CHR ''.'' body of
        [v, e, u] \<Rightarrow>
          if v = ''v2'' \<and> unb64u u \<noteq> [] \<and> utf16_length (unb64u u) \<le> 64
          then map_option (\<lambda>q. \<lparr>si_expiresAt = q, si_user = Some (unb64u u), si_version = 2\<rparr>) (canonical_number num_str e)
          else None
      | [v, e] \<Rightarrow>
          if v = ''v1'' then map_option (\<lambda>q. \<lparr>si_expiresAt = q, si_user = None, si_version = 1\<rparr>) (canonical_number num_str e)
          else None
      | _ \<Rightarrow> None)"

lemma live_expiry_canonical:
  "(live_expiry num_str now e = Some q) = (canonical_number num_str e = Some q \<and> of_int now \<le> q)"
  by (auto simp: live_expiry_def canonical_number_def split: option.splits)

lemma verified_body:
  assumes "hex_mac hmac" "verifySessionToken hmac num_str secret now (Some t) = Some i"
  shows "\<exists>body. t = body @ ''.'' @ hmac body secret \<and> signed_info num_str body = Some i \<and> of_int now \<le> si_expiresAt i"
proof -
  have t: "join ''.'' (split_on CHR ''.'' t) = t" by (rule join_split_on)
  have free: "\<forall>p \<in> set (split_on CHR ''.'' t). CHR ''.'' \<notin> set p" by (auto dest: split_on_parts_free)
  consider e u m q where "split_on CHR ''.'' t = [''v2'', e, u, m]" "live_expiry num_str now e = Some q"
      "unb64u u \<noteq> []" "utf16_length (unb64u u) \<le> 64" "m = hmac (''v2.'' @ e @ ''.'' @ u) secret"
      "i = \<lparr>si_expiresAt = q, si_user = Some (unb64u u), si_version = 2\<rparr>"
    | e m q where "split_on CHR ''.'' t = [''v1'', e, m]" "live_expiry num_str now e = Some q"
      "m = hmac (''v1.'' @ e) secret" "i = \<lparr>si_expiresAt = q, si_user = None, si_version = 1\<rparr>"
    using assms by (auto simp: verifySessionToken_def Let_def sameHex_refl not_le split: if_splits list.splits option.splits)
  then show ?thesis
  proof cases
    case 1
    then have "split_on CHR ''.'' (join ''.'' [''v2'', e, u]) = [''v2'', e, u]"
      using free by (intro split_on_join) auto
    with 1 t show ?thesis
      by (intro exI [of _ "join ''.'' [''v2'', e, u]"]) (auto simp: signed_info_def live_expiry_canonical)
  next
    case 2
    then have "split_on CHR ''.'' (join ''.'' [''v1'', e]) = [''v1'', e]"
      using free by (intro split_on_join) auto
    with 2 t show ?thesis
      by (intro exI [of _ "join ''.'' [''v1'', e]"]) (auto simp: signed_info_def live_expiry_canonical)
  qed
qed

lemma body_verified:
  assumes "hex_mac hmac" "signed_info num_str body = Some i" "of_int now \<le> si_expiresAt i"
  shows "verifySessionToken hmac num_str secret now (Some (body @ ''.'' @ hmac body secret)) = Some i"
proof -
  let ?m = "hmac body secret"
  have "list_all is_hex ?m" using assms(1) by (simp add: hex_mac_def)
  from split_on_free [OF dot_free_hex [OF this]]
  have parts: "split_on CHR ''.'' (body @ CHR ''.'' # ?m) = split_on CHR ''.'' body @ [?m]"
    by (simp add: split_on_middle)
  have body: "join ''.'' (split_on CHR ''.'' body) = body" by (rule join_split_on)
  from assms(2) consider e u q where "split_on CHR ''.'' body = [''v2'', e, u]" "canonical_number num_str e = Some q"
      "unb64u u \<noteq> []" "utf16_length (unb64u u) \<le> 64" "i = \<lparr>si_expiresAt = q, si_user = Some (unb64u u), si_version = 2\<rparr>"
    | e q where "split_on CHR ''.'' body = [''v1'', e]" "canonical_number num_str e = Some q"
      "i = \<lparr>si_expiresAt = q, si_user = None, si_version = 1\<rparr>"
    by (auto simp: signed_info_def split: if_splits list.splits)
  then show ?thesis
  proof cases
    case 1
    then have "live_expiry num_str now e = Some q" using assms(3) by (simp add: live_expiry_canonical)
    moreover have "body = ''v2.'' @ e @ ''.'' @ u" using body 1 by simp
    ultimately show ?thesis using 1 parts assms(1) by (simp add: verifySessionToken_def Let_def sameHex_refl)
  next
    case 2
    then have "live_expiry num_str now e = Some q" using assms(3) by (simp add: live_expiry_canonical)
    moreover have "body = ''v1.'' @ e" using body 2 by simp
    ultimately show ?thesis using 2 parts assms(1) by (simp add: verifySessionToken_def sameHex_refl)
  qed
qed

text \<open>C34: A token is accepted exactly when it is a signed text followed by that text's MAC and the
  text reads as a session that has not expired: version, user and expiry are functions of what the
  MAC covers, so no part of a session can be altered without a new MAC, and no text the key has not
  signed is a session.\<close>

theorem token_valid_iff_signed:
  assumes "hex_mac hmac"
  shows "verifySessionToken hmac num_str secret now (Some t) = Some i \<longleftrightarrow>
    (\<exists>body. t = body @ ''.'' @ hmac body secret \<and> signed_info num_str body = Some i \<and>
       of_int now \<le> si_expiresAt i)"
  using verified_body [OF assms] body_verified [OF assms] by blast

lemma created_info:
  assumes "decimal_rendering num_str" "list_all scalar user" "user \<noteq> []" "utf16_length user \<le> 64"
    "\<bar>now + ttl\<bar> < 10 ^ 21"
  shows "signed_info num_str (''v2.'' @ num_str (of_int (now + ttl)) @ ''.'' @ b64u user) =
    Some \<lparr>si_expiresAt = of_int (now + ttl), si_user = Some user, si_version = 2\<rparr>"
proof -
  have num: "num_str (of_int (now + ttl)) = int_str (now + ttl)"
    by (rule assms(1)[unfolded decimal_rendering_def, rule_format, OF assms(5)])
  have "canonical_number num_str (int_str (now + ttl)) = Some (of_int (now + ttl))"
    using num by (simp add: canonical_number_def js_number_int_str)
  moreover have "split_on CHR ''.'' (join ''.'' [''v2'', int_str (now + ttl), b64u user]) =
      [''v2'', int_str (now + ttl), b64u user]"
    by (rule split_on_join) (use b64u_chars [of "CHR ''.''" user] dot_free_int in auto)
  ultimately show ?thesis
    unfolding num using assms(3,4) by (simp add: signed_info_def user_roundtrip [OF assms(2)])
qed

lemma created_session:
  assumes "hex_mac hmac" "decimal_rendering num_str" "list_all scalar user" "user \<noteq> []" "utf16_length user \<le> 64"
    "\<bar>now + ttl\<bar> < 10 ^ 21"
  shows "verifySessionToken hmac num_str secret later
      (Some (fst (createSessionToken hmac num_str secret now user ttl))) =
    (if later \<le> now + ttl
     then Some \<lparr>si_expiresAt = of_int (now + ttl), si_user = Some user, si_version = 2\<rparr> else None)"
proof -
  let ?body = "''v2.'' @ num_str (of_int (now + ttl)) @ ''.'' @ b64u user"
  have token: "fst (createSessionToken hmac num_str secret now user ttl) = ?body @ ''.'' @ hmac ?body secret"
    by (simp add: createSessionToken_def Let_def)
  note info = created_info [OF assms(2-6)]
  show ?thesis
  proof (cases "later \<le> now + ttl")
    case True
    then have "of_int later \<le> si_expiresAt \<lparr>si_expiresAt = of_int (now + ttl), si_user = Some user, si_version = 2\<rparr>"
      by (simp only: session_info.simps of_int_le_iff)
    from body_verified [OF assms(1) info this] True show ?thesis unfolding token by simp
  next
    case False
    have "verifySessionToken hmac num_str secret later (Some (?body @ ''.'' @ hmac ?body secret)) = None"
    proof (rule ccontr)
      assume "verifySessionToken hmac num_str secret later (Some (?body @ ''.'' @ hmac ?body secret)) \<noteq> None"
      then obtain i where "verifySessionToken hmac num_str secret later (Some (?body @ ''.'' @ hmac ?body secret)) = Some i"
        by blast
      from verified_body [OF assms(1) this] obtain body where b: "?body @ ''.'' @ hmac ?body secret = body @ ''.'' @ hmac body secret"
        "signed_info num_str body = Some i" "of_int later \<le> si_expiresAt i" by blast
      have free: "CHR ''.'' \<notin> set (hmac x secret)" for x
        using assms(1) dot_free_hex by (simp add: hex_mac_def)
      have "?body = body"
        by (rule cut_last [THEN conjunct1, OF _ free free]) (use b(1) in simp)
      with b(2,3) info False show False by (auto simp: of_int_le_iff)
    qed
    with False show ?thesis unfolding token by (simp only: if_False)
  qed
qed

text \<open>The console's own token is read back as the user it was made for, until the millisecond it
  expires and not after. The user name may be any text of 1 to 64 UTF-16 units.\<close>

theorem session_roundtrip:
  assumes "hex_mac hmac" "decimal_rendering num_str" "list_all scalar user" "user \<noteq> []" "utf16_length user \<le> 64"
    "\<bar>now + ttl\<bar> < 10 ^ 21"
  shows "verifySessionToken hmac num_str secret later
      (Some (fst (createSessionToken hmac num_str secret now user ttl))) =
    (if later \<le> now + ttl
     then Some \<lparr>si_expiresAt = of_int (now + ttl), si_user = Some user, si_version = 2\<rparr> else None)"
  by (rule created_session [OF assms])

text \<open>The cookie the server mints for its own calls names the internal user.\<close>

lemma hex_plain: "list_all is_hex s \<Longrightarrow> c \<in> set s \<Longrightarrow> c \<noteq> CHR '';'' \<and> \<not> is_space c"
  by (auto simp: list_all_iff is_hex_def is_digit_def is_space_def Let_def)

lemma int_plain: "c \<in> set (int_str i) \<Longrightarrow> c \<noteq> CHR '';'' \<and> \<not> is_space c"
  by (auto simp: int_str_def is_space_def Let_def dest!: nat_str_chars split: if_splits)

lemma b64_plain_table: "list_all (\<lambda>n. \<not> is_space (b64_char n)) [0..<64]"
  by (simp add: upt_rec b64_char_def b64_alphabet_def is_space_def)

lemma b64u_plain: "c \<in> set (b64u u) \<Longrightarrow> c \<noteq> CHR '';'' \<and> \<not> is_space c"
proof -
  have "\<forall>b \<in> set (map unat (utf8_encode u)). b < 256" using byte_bound by auto
  from b64_digits_bound [OF this] b64_plain_table
  show "c \<in> set (b64u u) \<Longrightarrow> c \<noteq> CHR '';'' \<and> \<not> is_space c"
    by (auto simp: b64u_def b64_encode_digits b64_char_facts list_all_iff)
qed

lemma cookie_of_token:
  assumes "\<forall>c \<in> set t. c \<noteq> CHR '';'' \<and> \<not> is_space c" "t \<noteq> []"
  shows "tokenFromCookieHeader (Some (AUTH_COOKIE @ ''='' @ t)) = Some t"
proof -
  have "CHR '';'' \<notin> set (AUTH_COOKIE @ ''='' @ t)" using assms by (auto simp: AUTH_COOKIE_def)
  then have "split_on CHR '';'' (AUTH_COOKIE @ ''='' @ t) = [AUTH_COOKIE @ ''='' @ t]" by (rule split_on_free)
  moreover have "js_indexOf CHR ''='' (AUTH_COOKIE @ CHR ''='' # t) = Some (length AUTH_COOKIE)"
    by (rule js_indexOf_append) (simp add: AUTH_COOKIE_def)
  moreover have "js_trim AUTH_COOKIE = AUTH_COOKIE"
    by (rule js_trim_id) (auto simp: AUTH_COOKIE_def is_space_def)
  moreover have "js_trim t = t" by (rule js_trim_id) (use assms in auto)
  ultimately show ?thesis by (simp add: tokenFromCookieHeader_def cookie_part_def)
qed

lemma minted_cookie_accepted:
  assumes "hex_mac hmac" "decimal_rendering num_str" "\<bar>now + 90000\<bar> < 10 ^ 21" "later \<le> now + 90000"
  shows "sessionUserFor hmac num_str secret later (Some (mintServerCookie hmac num_str secret now)) =
    Some (text_of ''sysdeck-internal'')"
proof -
  let ?u = "text_of ''sysdeck-internal''"
  let ?t = "fst (createSessionToken hmac num_str secret now ?u 90000)"
  have num: "num_str (of_int (now + 90000)) = int_str (now + 90000)"
    by (rule assms(2)[unfolded decimal_rendering_def, rule_format, OF assms(3)])
  have "list_all is_hex (hmac b secret)" for b using assms(1) by (simp add: hex_mac_def)
  from hex_plain [OF this] int_plain [of _ "now + 90000"] b64u_plain [of _ ?u] num
  have plain: "\<forall>c \<in> set ?t. c \<noteq> CHR '';'' \<and> \<not> is_space c"
    by (auto simp: createSessionToken_def Let_def is_space_def)
  have ne: "?t \<noteq> []" by (simp add: createSessionToken_def Let_def)
  have "verifySessionToken hmac num_str secret later (Some ?t) =
      Some \<lparr>si_expiresAt = of_int (now + 90000), si_user = Some ?u, si_version = 2\<rparr>"
    using session_roundtrip [OF assms(1,2) _ _ _ assms(3), of ?u secret later] assms(4)
    by (simp add: text_of_def scalar_def utf16_length_def)
  with cookie_of_token [OF plain ne] show ?thesis
    by (simp only: sessionUserFor_def mintServerCookie_def) simp
qed

section \<open>One key per install\<close>

text \<open>\<open>sessionSecret\<close> as its atomic stretches. Any number of requests run it at once; they share the
  60-second cache of the process and the database row. A request reads the row, and when there is
  none creates one with a random value of its own (an upsert that never overwrites) and reads the row again.
  An upsert that fails, because another request won the race or for any other reason, is swallowed; a read
  that fails ends the request. \<open>ss_unsaved\<close> records the values whose upsert failed while there was no row.\<close>

datatype secret_pc =
    Idle
  | Finding int
  | Creating int string
  | Rereading int string
  | Got string
  | ReadFailed

record secret_state =
  ss_row :: "string option"
  ss_cache :: "(string \<times> int) option"
  ss_pc :: "nat \<Rightarrow> secret_pc"
  ss_unsaved :: "string set"

definition cache_hit :: "secret_state \<Rightarrow> int \<Rightarrow> string option" where
  "cache_hit s now =
     (case ss_cache s of Some (v, readAt) \<Rightarrow> if now - readAt < 60000 then Some v else None | None \<Rightarrow> None)"

definition set_pc :: "secret_state \<Rightarrow> nat \<Rightarrow> secret_pc \<Rightarrow> secret_state" where
  "set_pc s p pc = s\<lparr>ss_pc := (ss_pc s)(p := pc)\<rparr>"

definition found_row :: "secret_state \<Rightarrow> nat \<Rightarrow> int \<Rightarrow> string \<Rightarrow> secret_state" where
  "found_row s p now fresh =
     (case ss_row s of
        Some v \<Rightarrow> if v \<noteq> [] then set_pc (s\<lparr>ss_cache := Some (v, now)\<rparr>) p (Got v) else set_pc s p (Creating now fresh)
      | None \<Rightarrow> set_pc s p (Creating now fresh))"

definition reread_row :: "secret_state \<Rightarrow> nat \<Rightarrow> int \<Rightarrow> string \<Rightarrow> secret_state" where
  "reread_row s p now fresh =
     (let v = (case ss_row s of Some w \<Rightarrow> w | None \<Rightarrow> fresh)
      in set_pc (s\<lparr>ss_cache := Some (v, now)\<rparr>) p (Got v))"

inductive secret_step :: "secret_state \<Rightarrow> secret_state \<Rightarrow> bool" where
  hit: "ss_pc s p = Idle \<Longrightarrow> cache_hit s now = Some v \<Longrightarrow> secret_step s (set_pc s p (Got v))"
| miss: "ss_pc s p = Idle \<Longrightarrow> cache_hit s now = None \<Longrightarrow> secret_step s (set_pc s p (Finding now))"
| found: "ss_pc s p = Finding now \<Longrightarrow> secret_step s (found_row s p now fresh)"
| upsert: "ss_pc s p = Creating now fresh \<Longrightarrow>
    secret_step s (set_pc (s\<lparr>ss_row := Some (case ss_row s of Some w \<Rightarrow> w | None \<Rightarrow> fresh)\<rparr>) p (Rereading now fresh))"
| upsert_failed: "ss_pc s p = Creating now fresh \<Longrightarrow>
    secret_step s (set_pc (if ss_row s = None then s\<lparr>ss_unsaved := insert fresh (ss_unsaved s)\<rparr> else s) p (Rereading now fresh))"
| reread: "ss_pc s p = Rereading now fresh \<Longrightarrow> secret_step s (reread_row s p now fresh)"
| read_failed: "ss_pc s p = Finding now \<or> ss_pc s p = Rereading now fresh \<Longrightarrow> secret_step s (set_pc s p ReadFailed)"

definition secret_start :: "string option \<Rightarrow> secret_state" where
  "secret_start row = \<lparr>ss_row = row, ss_cache = None, ss_pc = (\<lambda>p. Idle), ss_unsaved = {}\<rparr>"

inductive secret_reachable :: "string option \<Rightarrow> secret_state \<Rightarrow> bool" for row where
  boot: "secret_reachable row (secret_start row)"
| step: "secret_reachable row s \<Longrightarrow> secret_step s s' \<Longrightarrow> secret_reachable row s'"

abbreviation known_key :: "secret_state \<Rightarrow> string \<Rightarrow> bool" where
  "known_key s v \<equiv> ss_row s = Some v \<or> v \<in> ss_unsaved s"

definition secret_inv :: "secret_state \<Rightarrow> bool" where
  "secret_inv s \<longleftrightarrow>
     (\<forall>v t. ss_cache s = Some (v, t) \<longrightarrow> known_key s v) \<and>
     (\<forall>p v. ss_pc s p = Got v \<longrightarrow> known_key s v) \<and>
     (\<forall>p now fresh. ss_pc s p = Rereading now fresh \<longrightarrow> ss_row s \<noteq> None \<or> fresh \<in> ss_unsaved s)"

lemma secret_step_inv: "secret_step s s' \<Longrightarrow> secret_inv s \<Longrightarrow> secret_inv s'"
  by (induction rule: secret_step.induct)
    (fastforce simp: secret_inv_def set_pc_def found_row_def reread_row_def cache_hit_def
       split: option.splits if_splits prod.splits)+

lemma row_stays: "secret_step s s' \<Longrightarrow> ss_row s = Some v \<Longrightarrow> ss_row s' = Some v"
  by (induction rule: secret_step.induct)
    (auto simp: set_pc_def found_row_def reread_row_def split: option.splits)

text \<open>C36: One signing key per install, as long as the database keeps what it is given. However many requests
  race to create the key on a fresh install, and in whatever order their reads and upserts interleave or
  fail, every key a request obtains, and the cached key, is the one in the database or a value whose own
  upsert failed while there was no row; so where no upsert fails on an empty table, all tokens are signed
  and checked with the one key of the database. The row once written never changes.\<close>

theorem one_key_per_install:
  assumes "secret_reachable row s"
  shows "(\<forall>p. case ss_pc s p of Got v \<Rightarrow> ss_row s = Some v \<or> v \<in> ss_unsaved s | _ \<Rightarrow> True) \<and>
    (case ss_cache s of Some (v, t) \<Rightarrow> ss_row s = Some v \<or> v \<in> ss_unsaved s | None \<Rightarrow> True) \<and>
    (case row of Some v \<Rightarrow> ss_row s = Some v | None \<Rightarrow> True)"
proof -
  from assms have "secret_inv s \<and> (case row of Some v \<Rightarrow> ss_row s = Some v | None \<Rightarrow> True)"
  proof induction
    case boot
    then show ?case by (simp add: secret_inv_def secret_start_def split: option.split)
  next
    case (step s s')
    then show ?case by (auto dest: secret_step_inv row_stays split: option.splits)
  qed
  then show ?thesis by (auto simp: secret_inv_def split: secret_pc.split option.split)
qed

text \<open>The path of a swallowed error: a request whose upsert fails on an empty table signs with a key no one
  else has, and the next request writes another.\<close>

lemma unsaved_key_splits_install:
  "\<exists>s. secret_reachable None s \<and> ss_pc s 0 = Got ''a'' \<and> ss_pc s 1 = Got ''b'' \<and> ss_row s = Some ''b''"
proof -
  let ?s0 = "secret_start None"
  let ?s1 = "set_pc ?s0 0 (Finding 1)" let ?s2 = "set_pc ?s1 1 (Finding 1)"
  let ?s3 = "found_row ?s2 0 1 ''a''" let ?s4 = "found_row ?s3 1 1 ''b''"
  let ?s5 = "set_pc (?s4\<lparr>ss_unsaved := {''a''}\<rparr>) 0 (Rereading 1 ''a'')"
  let ?s6 = "reread_row ?s5 0 1 ''a''"
  let ?s7 = "set_pc (?s6\<lparr>ss_row := Some ''b''\<rparr>) 1 (Rereading 1 ''b'')" let ?s8 = "reread_row ?s7 1 1 ''b''"
  note defs = secret_start_def set_pc_def cache_hit_def found_row_def reread_row_def Let_def
  have "secret_reachable None ?s1" by (rule step [OF boot]) (rule miss, simp_all add: defs)
  then have "secret_reachable None ?s2" by (rule step) (rule miss, simp_all add: defs)
  then have "secret_reachable None ?s3" by (rule step) (rule found, simp add: defs)
  then have "secret_reachable None ?s4" by (rule step) (rule found, simp add: defs)
  moreover have "secret_step ?s4 ?s5"
    using secret_step.upsert_failed [of ?s4 0 1 "''a''"] by (simp add: defs)
  ultimately have "secret_reachable None ?s5" by (rule step)
  then have "secret_reachable None ?s6" by (rule step) (rule reread, simp add: defs)
  moreover have "secret_step ?s6 ?s7"
    using secret_step.upsert [of ?s6 1 1 "''b''"] by (simp add: defs)
  ultimately have "secret_reachable None ?s7" by (rule step)
  then have "secret_reachable None ?s8" by (rule step) (rule reread, simp add: defs)
  then show ?thesis by (rule_tac x = ?s8 in exI) (simp add: defs)
qed

section \<open>Witnesses\<close>

definition demo_mac :: mac where
  "demo_mac b k = ''0a''"

definition demo_decimal :: "rat \<Rightarrow> string" where
  "demo_decimal q = int_str \<lfloor>q\<rfloor>"

lemma demo_mac_hex: "hex_mac demo_mac"
  by (simp add: hex_mac_def demo_mac_def is_hex_def is_digit_def)

lemma demo_decimal_ok: "decimal_rendering demo_decimal"
  by (simp add: decimal_rendering_def demo_decimal_def)

lemma demo_number: "canonical_number demo_decimal ''5'' = Some 5"
proof -
  have "char_of (53::nat) = CHR ''5''" by (simp add: char_of_def bit_0)
  then have "int_str 5 = ''5''" by (simp add: int_str_def nat_str.simps)
  with js_number_int_str [of 5] show ?thesis by (simp add: canonical_number_def demo_decimal_def)
qed

lemma token_valid_iff_signed_witness:
  "verifySessionToken demo_mac demo_decimal ''key'' 4 (Some ''v1.5.0a'') =
   Some \<lparr>si_expiresAt = 5, si_user = None, si_version = 1\<rparr>"
  unfolding token_valid_iff_signed [OF demo_mac_hex]
  by (rule exI [of _ "''v1.5''"]) (simp add: demo_mac_def signed_info_def demo_number)

lemma session_roundtrip_witness:
  "verifySessionToken demo_mac demo_decimal ''key'' 5000
     (Some (fst (createSessionToken demo_mac demo_decimal ''key'' 4000 (text_of ''ann'') 1000))) =
   Some \<lparr>si_expiresAt = 5000, si_user = Some (text_of ''ann''), si_version = 2\<rparr>"
  using session_roundtrip [OF demo_mac_hex demo_decimal_ok, of "text_of ''ann''" 4000 1000 "''key''" 5000]
  by (simp add: text_of_def scalar_def utf16_length_def)

text \<open>Two requests race on an empty database; the second one's value is never used.\<close>

lemma race_run:
  "\<exists>s. secret_reachable None s \<and> ss_pc s 0 = Got ''a'' \<and> ss_pc s 1 = Got ''a'' \<and> ss_unsaved s = {}"
proof -
  let ?s0 = "secret_start None"
  let ?s1 = "set_pc ?s0 0 (Finding 1)" let ?s2 = "set_pc ?s1 1 (Finding 1)"
  let ?s3 = "found_row ?s2 0 1 ''a''" let ?s4 = "found_row ?s3 1 1 ''b''"
  let ?s5 = "set_pc (?s4\<lparr>ss_row := Some ''a''\<rparr>) 0 (Rereading 1 ''a'')"
  let ?s6 = "set_pc ?s5 1 (Rereading 1 ''b'')"
  let ?s7 = "reread_row ?s6 0 1 ''a''" let ?s8 = "reread_row ?s7 1 1 ''b''"
  note defs = secret_start_def set_pc_def cache_hit_def found_row_def reread_row_def Let_def
  have "secret_reachable None ?s1" by (rule step [OF boot]) (rule miss, simp_all add: defs)
  then have "secret_reachable None ?s2" by (rule step) (rule miss, simp_all add: defs)
  then have "secret_reachable None ?s3" by (rule step) (rule found, simp add: defs)
  then have "secret_reachable None ?s4" by (rule step) (rule found, simp add: defs)
  moreover have "secret_step ?s4 ?s5"
    using secret_step.upsert [of ?s4 0 1 "''a''"] by (simp add: defs)
  ultimately have "secret_reachable None ?s5" by (rule step)
  moreover have "secret_step ?s5 ?s6"
    using secret_step.upsert_failed [of ?s5 1 1 "''b''"] by (simp add: defs)
  ultimately have "secret_reachable None ?s6" by (rule step)
  then have "secret_reachable None ?s7" by (rule step) (rule reread, simp add: defs)
  then have "secret_reachable None ?s8" by (rule step) (rule reread, simp add: defs)
  then show ?thesis by (rule_tac x = ?s8 in exI) (simp add: defs)
qed

lemma one_key_per_install_witness:
  "\<exists>s. secret_reachable None s \<and> ss_pc s 1 = Got ''a'' \<and> ss_row s = Some ''a''"
proof -
  obtain s where s: "secret_reachable None s" "ss_pc s 1 = Got ''a''" "ss_unsaved s = {}" using race_run by blast
  from one_key_per_install [OF s(1)]
  have "case ss_pc s 1 of Got v \<Rightarrow> ss_row s = Some v \<or> v \<in> ss_unsaved s | _ \<Rightarrow> True" by blast
  with s show ?thesis by auto
qed

end
