(* ===== verification/Accounts.thy ===== *)
theory Accounts
  imports Session
begin

text \<open>
  \<open>src/web/src/lib/sysdeck/users.ts\<close>: the account sources of the console login. Unix accounts are read
  from the text of \<open>/etc/passwd\<close> and \<open>/etc/group\<close>; local accounts are rows of a table with scrypt
  hashes. Scrypt is an argument; a call that throws is \<^term>\<open>None\<close>. The 60-second caches of the two
  files are left out: a file text is an argument of each call.
\<close>

section \<open>Modes and names\<close>

datatype auth_mode = PamOnly | LocalOnly | PamAndLocal

definition authMode :: "string option \<Rightarrow> auth_mode" where
  "authMode env =
     (let raw = js_lower (js_trim (case env of Some v \<Rightarrow> v | None \<Rightarrow> ''pam''))
      in if raw = ''local'' then LocalOnly else if raw = ''pam+local'' then PamAndLocal else PamOnly)"

text \<open>\<open>/^[a-z_][a-z0-9_.-]*\$?$/i\<close> on code points; ignoring case adds no character outside ASCII.\<close>

definition name_start :: "nat \<Rightarrow> bool" where
  "name_start c \<longleftrightarrow> 97 \<le> c \<and> c \<le> 122 \<or> 65 \<le> c \<and> c \<le> 90 \<or> c = 95"

definition name_char :: "nat \<Rightarrow> bool" where
  "name_char c \<longleftrightarrow> name_start c \<or> 48 \<le> c \<and> c \<le> 57 \<or> c = 46 \<or> c = 45"

definition username_pattern :: "codepoints \<Rightarrow> bool" where
  "username_pattern name =
     (case name of
        [] \<Rightarrow> False
      | c # cs \<Rightarrow>
          name_start c \<and> (list_all name_char cs \<or> cs \<noteq> [] \<and> list_all name_char (butlast cs) \<and> last cs = 36))"

definition validUsername :: "codepoints \<Rightarrow> bool" where
  "validUsername name \<longleftrightarrow> name \<noteq> [] \<and> utf16_length name \<le> 64 \<and> username_pattern name"

section \<open>Unix accounts\<close>

record passwd_row =
  pw_uid :: rat
  pw_gid :: "rat option"
  pw_gecos :: string
  pw_home :: string
  pw_shell :: string

text \<open>The fields by position; a missing one is undefined.\<close>

definition field_at :: "string list \<Rightarrow> nat \<Rightarrow> string option" where
  "field_at fs n = (if n < length fs then Some (fs ! n) else None)"

definition or_empty :: "string option \<Rightarrow> string" where
  "or_empty v = (case v of Some s \<Rightarrow> s | None \<Rightarrow> [])"

definition passwd_line :: "string \<Rightarrow> (string \<times> passwd_row) option" where
  "passwd_line line =
     (let fs = split_on CHR '':'' line
      in if line = [] \<or> fs ! 0 = [] then None
         else case field_at fs 2 of
                None \<Rightarrow> None
              | Some uidS \<Rightarrow>
                  (case js_number uidS of
                     None \<Rightarrow> None
                   | Some uid \<Rightarrow>
                       Some (fs ! 0, \<lparr>pw_uid = uid, pw_gid = Option.bind (field_at fs 3) js_number,
                         pw_gecos = or_empty (field_at fs 4), pw_home = or_empty (field_at fs 5),
                         pw_shell = or_empty (field_at fs 6)\<rparr>)))"

definition passwdRows :: "string option \<Rightarrow> (string, passwd_row) jmap" where
  "passwdRows file =
     (case file of
        None \<Rightarrow> []
      | Some t \<Rightarrow>
          foldl (\<lambda>m line. case passwd_line line of None \<Rightarrow> m | Some (n, r) \<Rightarrow> jm_set m n r) []
            (split_on (char_of (10::nat)) t))"

definition ADMIN_GROUPS :: "string list" where
  "ADMIN_GROUPS = [''wheel'', ''sudo'', ''adm'', ''administrator'', ''root'']"

definition group_members :: "string \<Rightarrow> string list" where
  "group_members line =
     (let fs = split_on CHR '':'' line
      in if line = [] \<or> fs ! 0 = [] \<or> fs ! 0 \<notin> set ADMIN_GROUPS then []
         else filter (\<lambda>m. m \<noteq> []) (map js_trim (split_on CHR '','' (or_empty (field_at fs 3)))))"

definition adminUsernames :: "string option \<Rightarrow> string set" where
  "adminUsernames file =
     (case file of
        None \<Rightarrow> {}
      | Some t \<Rightarrow> set (concat (map group_members (split_on (char_of (10::nat)) t))))"

section \<open>Local accounts\<close>

record sd_user =
  su_realname :: "string option"
  su_hash :: string
  su_disabled :: bool

type_synonym sd_users = "(string, sd_user) jmap"

datatype account_source = Unix | Local | Legacy

record console_user =
  cu_username :: string
  cu_realname :: "string option"
  cu_uid :: "rat option"
  cu_gid :: "rat option"
  cu_home :: "string option"
  cu_shell :: "string option"
  cu_isAdmin :: bool
  cu_source :: account_source

definition non_empty :: "string \<Rightarrow> string option" where
  "non_empty s = (if s = [] then None else Some s)"

definition consoleUser :: "string option \<Rightarrow> string option \<Rightarrow> sd_users \<Rightarrow> string \<Rightarrow> console_user option" where
  "consoleUser passwd_file group_file users username =
     (let admins = adminUsernames group_file
      in case jm_get (passwdRows passwd_file) username of
           Some row \<Rightarrow>
             Some \<lparr>cu_username = username,
               cu_realname = (if pw_gecos row = [] then None
                 else non_empty (js_trim (hd (split_on CHR '','' (pw_gecos row))))),
               cu_uid = Some (pw_uid row), cu_gid = pw_gid row, cu_home = non_empty (pw_home row),
               cu_shell = non_empty (pw_shell row), cu_isAdmin = (username \<in> admins \<or> pw_uid row = 0),
               cu_source = Unix\<rparr>
         | None \<Rightarrow>
             map_option (\<lambda>u. \<lparr>cu_username = username, cu_realname = su_realname u, cu_uid = None, cu_gid = None,
               cu_home = None, cu_shell = None, cu_isAdmin = (username = ''root'' \<or> username \<in> admins),
               cu_source = Local\<rparr>) (jm_get users username))"

definition legacyUser :: console_user where
  "legacyUser = \<lparr>cu_username = ''operator'', cu_realname = Some ''Shared session (pre-0.4.0 cookie)'',
     cu_uid = None, cu_gid = None, cu_home = None, cu_shell = None, cu_isAdmin = False, cu_source = Legacy\<rparr>"

text \<open>\<open>scryptSync(password, salt, 32, \<dots>)\<close>, with the cost parameters as numbers.\<close>

type_synonym scrypt = "codepoints \<Rightarrow> string \<Rightarrow> rat \<Rightarrow> rat \<Rightarrow> rat \<Rightarrow> nat list option"

definition hex_digits :: "nat list \<Rightarrow> string" where
  "hex_digits bs = concat (map (\<lambda>b. [''0123456789abcdef'' ! (b div 16), ''0123456789abcdef'' ! (b mod 16)]) bs)"

text \<open>\<open>Buffer.from(s, 'hex')\<close> reads digit pairs up to the first that is not one.\<close>

fun hex_bytes :: "string \<Rightarrow> nat list" where
  "hex_bytes (a # b # r) =
     (case (digit_in 16 a, digit_in 16 b) of
        (Some x, Some y) \<Rightarrow> (16 * x + y) # hex_bytes r
      | _ \<Rightarrow> [])"
| "hex_bytes r = []"

definition hashPassword :: "scrypt \<Rightarrow> string \<Rightarrow> codepoints \<Rightarrow> string option" where
  "hashPassword scrypt salt password =
     map_option (\<lambda>key. join ''$'' [salt, ''16384'', ''8'', ''1'', hex_digits key]) (scrypt password salt 16384 8 1)"

definition verifyLocalPassword :: "scrypt \<Rightarrow> codepoints \<Rightarrow> string \<Rightarrow> bool" where
  "verifyLocalPassword scrypt password stored =
     (case split_on CHR ''$'' stored of
        [salt, nS, rS, pS, hex] \<Rightarrow>
          (case (js_number nS, js_number rS, js_number pS) of
             (Some n, Some r, Some p) \<Rightarrow>
               (case scrypt password salt n r p of
                  None \<Rightarrow> False
                | Some expected \<Rightarrow>
                    (let candidate = hex_bytes hex
                     in length candidate = length expected \<and> expected = candidate))
           | _ \<Rightarrow> False)
      | _ \<Rightarrow> False)"

definition authenticateLocal ::
  "scrypt \<Rightarrow> string option \<Rightarrow> string option \<Rightarrow> sd_users \<Rightarrow> string \<Rightarrow> codepoints \<Rightarrow> console_user option" where
  "authenticateLocal scrypt passwd_file group_file users username password =
     (case jm_get users username of
        None \<Rightarrow> None
      | Some row \<Rightarrow>
          if su_disabled row then None
          else if \<not> verifyLocalPassword scrypt password (su_hash row) then None
          else consoleUser passwd_file group_file users username)"

text \<open>First boot: one account named after the service's own unix user, when the table is empty.\<close>

definition seedDefaultLocalAccount :: "scrypt \<Rightarrow> string \<Rightarrow> string \<Rightarrow> auth_mode \<Rightarrow> sd_users \<Rightarrow> sd_users" where
  "seedDefaultLocalAccount scrypt salt os_user mode users =
     (if mode = PamOnly \<or> users \<noteq> [] then users
      else case hashPassword scrypt salt (text_of ''sysdeck'') of
             None \<Rightarrow> users
           | Some h \<Rightarrow>
               [(if os_user = [] then ''sysdeck'' else os_user,
                 \<lparr>su_realname = Some ''Console operator (seeded default)'', su_hash = h, su_disabled = False\<rparr>)])"

definition hasDefaultPasswordAccount :: "scrypt \<Rightarrow> sd_users \<Rightarrow> bool" where
  "hasDefaultPasswordAccount scrypt users =
     list_ex (\<lambda>r. \<not> su_disabled r \<and> verifyLocalPassword scrypt (text_of ''sysdeck'') (su_hash r)) (jm_values users)"

section \<open>Stored passwords\<close>

lemma hex_table:
  "list_all (\<lambda>n. digit_in 16 (''0123456789abcdef'' ! n) = Some n \<and> ''0123456789abcdef'' ! n \<noteq> CHR ''$'') [0..<16]"
  by (simp add: upt_rec digit_in_def)

lemma hex_digit_facts:
  assumes "n < 16"
  shows "digit_in 16 (''0123456789abcdef'' ! n) = Some n" "''0123456789abcdef'' ! n \<noteq> CHR ''$''"
  using hex_table assms by (auto simp: list_all_iff)

lemma hex_roundtrip: "\<forall>b \<in> set bs. b < 256 \<Longrightarrow> hex_bytes (hex_digits bs) = bs"
proof (induction bs)
  case (Cons b bs)
  then have "b div 16 < 16" "b mod 16 < 16" by auto
  with Cons hex_digit_facts [of "b div 16"] hex_digit_facts [of "b mod 16"] show ?case
    by (simp add: hex_digits_def del: nth_Cons')
qed (simp add: hex_digits_def)

lemma hex_no_dollar: "\<forall>b \<in> set bs. b < 256 \<Longrightarrow> CHR ''$'' \<notin> set (hex_digits bs)"
proof (induction bs)
  case (Cons b bs)
  then have "b div 16 < 16" "b mod 16 < 16" by auto
  with Cons hex_digit_facts(2) [of "b div 16"] hex_digit_facts(2) [of "b mod 16"] show ?case
    by (auto simp: hex_digits_def simp del: nth_Cons')
qed (simp add: hex_digits_def)

lemma cost_numbers: "js_number ''16384'' = Some 16384" "js_number ''8'' = Some 8" "js_number ''1'' = Some 1"
proof -
  have "char_of (49::nat) = CHR ''1''" "char_of (54::nat) = CHR ''6''" "char_of (51::nat) = CHR ''3''"
    "char_of (56::nat) = CHR ''8''" "char_of (52::nat) = CHR ''4''"
    by (simp_all add: char_of_def bit_0)
  then have "int_str 16384 = ''16384''" "int_str 8 = ''8''" "int_str 1 = ''1''"
    by (simp_all add: int_str_def nat_str.simps)
  with js_number_int_str [of 16384] js_number_int_str [of 8] js_number_int_str [of 1]
  show "js_number ''16384'' = Some 16384" "js_number ''8'' = Some 8" "js_number ''1'' = Some 1" by simp_all
qed

lemma stored_password_verifies:
  assumes "hashPassword scrypt salt password = Some stored" "CHR ''$'' \<notin> set salt"
    "\<forall>k. scrypt password salt 16384 8 1 = Some k \<longrightarrow> (\<forall>b \<in> set k. b < 256)"
  shows "verifyLocalPassword scrypt other stored \<longleftrightarrow>
    scrypt other salt 16384 8 1 = scrypt password salt 16384 8 1"
proof -
  obtain key where key: "scrypt password salt 16384 8 1 = Some key" "stored = join ''$'' [salt, ''16384'', ''8'', ''1'', hex_digits key]"
    using assms(1) by (auto simp: hashPassword_def)
  have bytes: "\<forall>b \<in> set key. b < 256" using assms(3) key(1) by blast
  have "split_on CHR ''$'' stored = [salt, ''16384'', ''8'', ''1'', hex_digits key]"
    unfolding key(2) by (rule split_on_join) (use assms(2) hex_no_dollar [OF bytes] in auto)
  then show ?thesis
    by (auto simp: verifyLocalPassword_def cost_numbers hex_roundtrip [OF bytes] key(1) Let_def split: option.split)
qed

text \<open>A stored password hash verifies exactly the passwords that scrypt maps to the same key
  under the stored salt and costs, so the password it was made from is accepted and, where scrypt
  tells two passwords apart, the other one is refused.\<close>

theorem stored_password_roundtrip:
  assumes "hashPassword scrypt salt password = Some stored" "CHR ''$'' \<notin> set salt"
    "\<forall>k. scrypt password salt 16384 8 1 = Some k \<longrightarrow> (\<forall>b \<in> set k. b < 256)"
  shows "verifyLocalPassword scrypt other stored \<longleftrightarrow>
    scrypt other salt 16384 8 1 = scrypt password salt 16384 8 1"
  by (rule stored_password_verifies [OF assms])

text \<open>A fresh install in a mode with local accounts gets one account, and the login page nags about
  its password.\<close>

lemma seeded_account_nags:
  assumes "mode \<noteq> PamOnly" "CHR ''$'' \<notin> set salt" "scrypt (text_of ''sysdeck'') salt 16384 8 1 = Some k"
    "\<forall>b \<in> set k. b < 256"
  shows "hasDefaultPasswordAccount scrypt (seedDefaultLocalAccount scrypt salt os_user mode [])"
proof -
  obtain h where h: "hashPassword scrypt salt (text_of ''sysdeck'') = Some h"
    using assms(3) by (simp add: hashPassword_def)
  have "verifyLocalPassword scrypt (text_of ''sysdeck'') h"
    using stored_password_verifies [OF h assms(2)] assms(3,4) by simp
  with h assms(1) show ?thesis by (simp add: seedDefaultLocalAccount_def hasDefaultPasswordAccount_def)
qed

section \<open>Administrators\<close>

text \<open>Who the console calls an administrator: a unix account with user id 0 or a member of an
  administrative group, or a local account that is named root or listed in such a group. A unix entry
  hides the local account of the same name, and a name in neither store has no identity.\<close>

theorem administrator_iff:
  "(\<exists>u. consoleUser passwd_file group_file users name = Some u \<and> cu_isAdmin u) \<longleftrightarrow>
     (case jm_get (passwdRows passwd_file) name of
        Some row \<Rightarrow> name \<in> adminUsernames group_file \<or> pw_uid row = 0
      | None \<Rightarrow> jm_has users name \<and> (name = ''root'' \<or> name \<in> adminUsernames group_file))"
  by (auto simp: consoleUser_def Let_def split: option.split)

text \<open>An entry whose user id field is empty reads as user id 0.\<close>

lemma empty_uid_is_root:
  "passwd_line ''ann:x::100'' = Some (''ann'', \<lparr>pw_uid = 0, pw_gid = js_number ''100'', pw_gecos = [], pw_home = [], pw_shell = []\<rparr>)"
  by (simp add: passwd_line_def field_at_def js_number_def js_trim_def js_trimStart_def js_trimEnd_def or_empty_def)

lemma stored_password_roundtrip_witness:
  "verifyLocalPassword (\<lambda>p s n r q. Some p) [7] ''ab$16384$8$1$07'' \<and>
   \<not> verifyLocalPassword (\<lambda>p s n r q. Some p) [8] ''ab$16384$8$1$07''"
proof -
  have h: "hashPassword (\<lambda>p s n r q. Some p) ''ab'' [7] = Some ''ab$16384$8$1$07''"
    by (simp add: hashPassword_def hex_digits_def)
  have d: "CHR ''$'' \<notin> set ''ab''" by simp
  show ?thesis
    using stored_password_roundtrip [OF h d, of "[7]"] stored_password_roundtrip [OF h d, of "[8]"] by simp
qed

end
