(* ===== verification/Login.thy ===== *)
theory Login
  imports Accounts Sse
begin

text \<open>
  \<open>src/web/src/app/api/auth/login/route.ts\<close>: the sign-in route. A request is parsed, two failure
  counters (one per address, one per user name) are looked up and checked, the credentials go to the
  host's PAM stack or the local table, and the counters are raised or reset. The counters are mutable
  objects that a request keeps hold of while it waits for PAM, so they live in an explicit store and
  the map holds their addresses.

  A request is two stretches: up to the check of the counters, and from the verdict on. The answers
  of PAM and of the local table are arguments; audit writes are left out.
\<close>

section \<open>Counters\<close>

definition MAX_BODY_BYTES :: int where
  "MAX_BODY_BYTES = 4096"

definition FAIL_WINDOW_MS :: int where
  "FAIL_WINDOW_MS = 60000"

definition MAX_FAILURES :: int where
  "MAX_FAILURES = 5"

record bucket =
  bk_windowStart :: int
  bk_failures :: int

record lockout =
  lk_store :: "bucket list"
  lk_map :: "(codepoints, nat) jmap"

definition lockout_start :: lockout where
  "lockout_start = \<lparr>lk_store = [], lk_map = []\<rparr>"

definition expired :: "int \<Rightarrow> bucket \<Rightarrow> bool" where
  "expired now b \<longleftrightarrow> now - bk_windowStart b > FAIL_WINDOW_MS"

text \<open>\<open>bucket(key, now)\<close>: the live counter of the key, or a new one; a full map is first cleared of
  expired entries.\<close>

definition bucket_of :: "codepoints \<Rightarrow> int \<Rightarrow> lockout \<Rightarrow> lockout \<times> nat" where
  "bucket_of key now s =
     (let fresh =
        (let m = (if length (lk_map s) > 1024
                  then filter (\<lambda>(k, a). \<not> expired now (lk_store s ! a)) (lk_map s) else lk_map s);
             a = length (lk_store s)
         in (s\<lparr>lk_store := lk_store s @ [\<lparr>bk_windowStart = now, bk_failures = 0\<rparr>], lk_map := jm_set m key a\<rparr>, a))
      in case jm_get (lk_map s) key of
           None \<Rightarrow> fresh
         | Some a \<Rightarrow> if expired now (lk_store s ! a) then fresh else (s, a))"

definition set_failures :: "nat \<Rightarrow> int \<Rightarrow> lockout \<Rightarrow> lockout" where
  "set_failures a n s = s\<lparr>lk_store := (lk_store s)[a := (lk_store s ! a)\<lparr>bk_failures := n\<rparr>]\<rparr>"

definition failures_of :: "lockout \<Rightarrow> nat \<Rightarrow> int" where
  "failures_of s a = bk_failures (lk_store s ! a)"

section \<open>The request\<close>

text \<open>What arrives: the declared length, the body text, the forwarded-for header and whether it is
  trusted.\<close>

record login_request =
  lq_contentLength :: "string option"
  lq_raw :: codepoints
  lq_forwardedFor :: "string option"

definition clientIp :: "bool \<Rightarrow> login_request \<Rightarrow> string" where
  "clientIp trust_proxy req =
     (case if trust_proxy then lq_forwardedFor req else None of
        Some fwd \<Rightarrow> if fwd = [] then ''local'' else js_trim (hd (split_on CHR '','' fwd))
      | None \<Rightarrow> ''local'')"

text \<open>\<open>toLowerCase\<close> on a valid name, which is ASCII.\<close>

definition lower_name :: "codepoints \<Rightarrow> codepoints" where
  "lower_name = map (\<lambda>c. if 65 \<le> c \<and> c \<le> 90 then c + 32 else c)"

datatype via = ViaPam | ViaLocal

datatype login_answer =
    TooLarge
  | InvalidJson
  | Incorrect
  | TooMany int
  | PamUnavailable
  | Welcome via
  | Crashed

text \<open>Reading the body. A body \<open>null\<close> parses, and the field access on it throws.\<close>

datatype credentials = Rejected login_answer | Credentials codepoints codepoints

definition text_field :: "jtext json \<Rightarrow> string \<Rightarrow> codepoints" where
  "text_field body k = (case json_string (json_field body (text_of k)) of Some t \<Rightarrow> t | None \<Rightarrow> [])"

definition parse_login :: "login_request \<Rightarrow> credentials" where
  "parse_login req =
     (let declared = js_number (case lq_contentLength req of Some v \<Rightarrow> v | None \<Rightarrow> ''0'')
      in if (case declared of Some n \<Rightarrow> n > of_int MAX_BODY_BYTES | None \<Rightarrow> False) then Rejected TooLarge
         else if int (utf16_length (lq_raw req)) > MAX_BODY_BYTES then Rejected TooLarge
         else case (if lq_raw req = [] then Some (JObj []) else json_parse (lq_raw req)) of
                None \<Rightarrow> Rejected InvalidJson
              | Some JNull \<Rightarrow> Rejected Crashed
              | Some body \<Rightarrow>
                  (let username = cp_trim (text_field body ''username''); password = text_field body ''password''
                   in if \<not> validUsername username \<or> password = [] then Rejected Incorrect
                      else Credentials username password))"

text \<open>The check of both counters; a locked-out caller is told how long to wait.\<close>

definition user_key :: "codepoints \<Rightarrow> codepoints" where
  "user_key username = text_of ''user:'' @ lower_name username"

definition ip_key :: "string \<Rightarrow> codepoints" where
  "ip_key ip = text_of ''ip:'' @ text_of ip"

definition js_ceil :: "rat \<Rightarrow> int" where
  "js_ceil x = \<lceil>x\<rceil>"

datatype admission = Denied login_answer | InFlight nat nat

definition check_buckets :: "string \<Rightarrow> codepoints \<Rightarrow> int \<Rightarrow> lockout \<Rightarrow> lockout \<times> admission" where
  "check_buckets ip username now s =
     (let (s1, ia) = bucket_of (ip_key ip) now s;
          (s2, ua) = bucket_of (user_key username) now s1;
          ib = lk_store s2 ! ia; ub = lk_store s2 ! ua
      in if bk_failures ib \<ge> MAX_FAILURES \<or> bk_failures ub \<ge> MAX_FAILURES then
           (let left = max (bk_windowStart ib) (bk_windowStart ub) + FAIL_WINDOW_MS - now
            in (s2, Denied (TooMany (max (js_ceil (of_int left / 1000)) 1))))
         else (s2, InFlight ia ua))"

section \<open>The policy of the stores\<close>

text \<open>What the PAM helper reports: success, \<open>auth-failed\<close>, \<open>pam-unavailable\<close> (no libpam, no python3, a helper that
  does not start), or any other reason, such as a timeout. The route singles out the first two.\<close>

datatype pam_answer = PamOk | PamAuthFailed | PamMissing | PamProblem

datatype verdict = Accepted via | Refused | NoPam

definition authenticate :: "auth_mode \<Rightarrow> bool \<Rightarrow> pam_answer \<Rightarrow> bool \<Rightarrow> verdict" where
  "authenticate mode viable pam local_ok =
     (let pamAllowed = mode \<noteq> LocalOnly; localAllowed = mode \<noteq> PamOnly;
          try_local = (if localAllowed \<and> local_ok then Accepted ViaLocal else Refused)
      in if pamAllowed then
           (if viable then
              (case pam of PamOk \<Rightarrow> Accepted ViaPam | PamAuthFailed \<Rightarrow> try_local | PamMissing \<Rightarrow> Refused | PamProblem \<Rightarrow> Refused)
            else if \<not> localAllowed then NoPam
            else try_local)
         else try_local)"

section \<open>The end of the request\<close>

definition finish_login :: "nat \<Rightarrow> nat \<Rightarrow> verdict \<Rightarrow> lockout \<Rightarrow> lockout \<times> login_answer" where
  "finish_login ia ua v s =
     (case v of
        Accepted via \<Rightarrow> (set_failures ua 0 (set_failures ia 0 s), Welcome via)
      | Refused \<Rightarrow>
          (let s1 = set_failures ia (failures_of s ia + 1) s
           in (set_failures ua (failures_of s1 ua + 1) s1, Incorrect))
      | NoPam \<Rightarrow> (s, PamUnavailable))"

text \<open>A request with nothing running beside it.\<close>

definition login_once ::
  "bool \<Rightarrow> login_request \<Rightarrow> int \<Rightarrow> (codepoints \<Rightarrow> codepoints \<Rightarrow> verdict) \<Rightarrow> lockout \<Rightarrow> lockout \<times> login_answer" where
  "login_once trust_proxy req now check s =
     (case parse_login req of
        Rejected a \<Rightarrow> (s, a)
      | Credentials username password \<Rightarrow>
          (case check_buckets (clientIp trust_proxy req) username now s of
             (s1, Denied a) \<Rightarrow> (s1, a)
           | (s1, InFlight ia ua) \<Rightarrow> finish_login ia ua (check username password) s1))"

text \<open>On success the response carries a session of the user.\<close>

definition login_token ::
  "mac \<Rightarrow> (rat \<Rightarrow> string) \<Rightarrow> string \<Rightarrow> int \<Rightarrow> codepoints \<Rightarrow> string \<times> int" where
  "login_token hmac num_str secret now username =
     createSessionToken hmac num_str secret now username SESSION_TTL_MS"

section \<open>The counters as a table\<close>

text \<open>What the store and the map say together: the counter kept under each key.\<close>

definition counter :: "lockout \<Rightarrow> codepoints \<Rightarrow> bucket option" where
  "counter s k = map_option ((!) (lk_store s)) (jm_get (lk_map s) k)"

definition lockout_ok :: "lockout \<Rightarrow> bool" where
  "lockout_ok s \<longleftrightarrow> jm_ok (lk_map s) \<and>
     (\<forall>k a. jm_get (lk_map s) k = Some a \<longrightarrow> a < length (lk_store s)) \<and>
     (\<forall>k k' a. jm_get (lk_map s) k = Some a \<longrightarrow> jm_get (lk_map s) k' = Some a \<longrightarrow> k = k')"

definition live_failures :: "int \<Rightarrow> bucket option \<Rightarrow> int" where
  "live_failures now c = (case c of None \<Rightarrow> 0 | Some b \<Rightarrow> if expired now b then 0 else bk_failures b)"

definition live_bucket :: "int \<Rightarrow> bucket option \<Rightarrow> bucket" where
  "live_bucket now c =
     (case c of None \<Rightarrow> \<lparr>bk_windowStart = now, bk_failures = 0\<rparr>
      | Some b \<Rightarrow> if expired now b then \<lparr>bk_windowStart = now, bk_failures = 0\<rparr> else b)"

lemma live_bucket_failures [simp]: "bk_failures (live_bucket now c) = live_failures now c"
  by (simp add: live_bucket_def live_failures_def split: option.split)

lemma live_failures_live [simp]: "live_failures now (Some (live_bucket now c)) = live_failures now c"
  by (simp add: live_bucket_def live_failures_def expired_def FAIL_WINDOW_MS_def split: option.split)

lemma live_bucket_not_expired [simp]: "\<not> expired now (live_bucket now c)"
  by (simp add: live_bucket_def expired_def FAIL_WINDOW_MS_def split: option.split)

lemma lockout_okI:
  assumes "jm_ok m" "\<And>k k' a. jm_get m k = Some a \<Longrightarrow> jm_get m k' = Some a \<Longrightarrow> k = k'"
    "\<And>k a. jm_get m k = Some a \<Longrightarrow> a < length st"
  shows "lockout_ok \<lparr>lk_store = st, lk_map = m\<rparr>"
  unfolding lockout_ok_def lockout.simps using assms by blast

lemma lockout_okD:
  assumes "lockout_ok s"
  shows "jm_ok (lk_map s)" "jm_get (lk_map s) k = Some a \<Longrightarrow> a < length (lk_store s)"
    "jm_get (lk_map s) k = Some a \<Longrightarrow> jm_get (lk_map s) k' = Some a \<Longrightarrow> k = k'"
  using assms unfolding lockout_ok_def by blast+

lemma filter_get:
  "jm_ok m \<Longrightarrow> jm_get (filter (\<lambda>(k, a). P a) m) k = (case jm_get m k of Some a \<Rightarrow> if P a then Some a else None | None \<Rightarrow> None)"
  by (induction m) (auto split: option.splits simp: map_of_eq_None_iff image_iff dest: map_of_SomeD)

lemma filter_ok: "jm_ok m \<Longrightarrow> jm_ok (filter P m)"
  by (induction m) auto

text \<open>Looking a counter up: the key then has its live counter, and the other keys are as before or
  were swept out expired.\<close>

definition swept :: "int \<Rightarrow> bucket option \<Rightarrow> bucket option \<Rightarrow> bool" where
  "swept now old new \<longleftrightarrow> new = old \<or> new = None \<and> (case old of Some b \<Rightarrow> expired now b | None \<Rightarrow> True)"

lemma bucket_of_counter:
  assumes ok: "lockout_ok s" and eq: "bucket_of key now s = (s', a)"
  shows "lockout_ok s'" "jm_get (lk_map s') key = Some a" "counter s' key = Some (live_bucket now (counter s key))"
    "k \<noteq> key \<Longrightarrow> swept now (counter s k) (counter s' k)"
    "k \<noteq> key \<Longrightarrow> jm_get (lk_map s') k = Some x \<Longrightarrow> jm_get (lk_map s) k = Some x"
proof -
  define m where "m = (if length (lk_map s) > 1024
    then filter (\<lambda>(k, a). \<not> expired now (lk_store s ! a)) (lk_map s) else lk_map s)"
  define fresh where "fresh = \<lparr>bk_windowStart = now, bk_failures = 0 :: int\<rparr>"
  note d = lockout_okD [OF ok]
  have m_ok: "jm_ok m" using d(1) by (simp add: m_def filter_ok)
  have m_get: "jm_get m k = (case jm_get (lk_map s) k of None \<Rightarrow> None
      | Some a \<Rightarrow> if length (lk_map s) > 1024 \<and> expired now (lk_store s ! a) then None else Some a)" for k
    using d(1) by (simp add: m_def filter_get split: option.split)
  have sub: "jm_get m k = Some x \<Longrightarrow> jm_get (lk_map s) k = Some x" for k x
    by (auto simp: m_get split: option.splits if_splits)
  consider (old) x where "jm_get (lk_map s) key = Some x" "\<not> expired now (lk_store s ! x)" "s' = s" "a = x"
    | (new) "live_bucket now (counter s key) = fresh" "a = length (lk_store s)"
        "s' = \<lparr>lk_store = lk_store s @ [fresh], lk_map = jm_set m key a\<rparr>"
    using eq by (cases s) (auto simp: bucket_of_def Let_def m_def fresh_def counter_def live_bucket_def split: option.splits if_splits)
  then have "lockout_ok s' \<and> jm_get (lk_map s') key = Some a \<and> counter s' key = Some (live_bucket now (counter s key)) \<and>
    (k \<noteq> key \<longrightarrow> swept now (counter s k) (counter s' k)) \<and>
    (k \<noteq> key \<longrightarrow> jm_get (lk_map s') k = Some x \<longrightarrow> jm_get (lk_map s) k = Some x)"
  proof cases
    case old
    with ok show ?thesis by (simp add: counter_def live_bucket_def swept_def)
  next
    case new
    have "lockout_ok s'"
      unfolding new(3)
    proof (rule lockout_okI)
      show "jm_ok (jm_set m key a)" using m_ok by simp
      show "k1 = k2" if "jm_get (jm_set m key a) k1 = Some x" "jm_get (jm_set m key a) k2 = Some x" for k1 k2 x
        using that sub [of k1 x] sub [of k2 x] d(2) [of k1 x] d(2) [of k2 x] d(3) [of k1 x k2] new(2)
        by (auto split: if_splits)
      show "x < length (lk_store s @ [fresh])" if "jm_get (jm_set m key a) k1 = Some x" for k1 x
        using that sub [of k1 x] d(2) [of k1 x] new(2) by (auto split: if_splits)
    qed
    moreover have "counter s' key = Some fresh" by (simp add: new(2,3) counter_def)
    moreover have "swept now (counter s k) (counter s' k)" if "k \<noteq> key"
    proof (cases "jm_get (lk_map s) k")
      case (Some x)
      with d(2) [of k x] that show ?thesis
        by (auto simp: new(3) counter_def swept_def m_get nth_append)
    qed (use that in \<open>simp add: new(3) counter_def swept_def m_get\<close>)
    moreover have "jm_get (lk_map s) k = Some x" if "k \<noteq> key" "jm_get (lk_map s') k = Some x"
      by (rule sub) (use that in \<open>simp add: new(3) del: map_of_eq_Some_iff\<close>)
    ultimately show ?thesis using new(1) by (simp add: new(2,3))
  qed
  then show "lockout_ok s'" "jm_get (lk_map s') key = Some a" "counter s' key = Some (live_bucket now (counter s key))"
    "k \<noteq> key \<Longrightarrow> swept now (counter s k) (counter s' k)"
    "k \<noteq> key \<Longrightarrow> jm_get (lk_map s') k = Some x \<Longrightarrow> jm_get (lk_map s) k = Some x" by simp_all
qed

lemma set_failures_counter:
  assumes "lockout_ok s" "jm_get (lk_map s) key = Some a"
  shows "lockout_ok (set_failures a n s)" "lk_map (set_failures a n s) = lk_map s"
    "counter (set_failures a n s) k =
      (if k = key then map_option (bk_failures_update (\<lambda>_. n)) (counter s k) else counter s k)"
proof -
  show store: "lk_map (set_failures a n s) = lk_map s" by (simp add: set_failures_def)
  show "lockout_ok (set_failures a n s)"
    using assms(1) unfolding lockout_ok_def store by (simp add: set_failures_def)
  have a: "a < length (lk_store s)" by (rule lockout_okD(2) [OF assms])
  show "counter (set_failures a n s) k =
    (if k = key then map_option (bk_failures_update (\<lambda>_. n)) (counter s k) else counter s k)"
  proof (cases "jm_get (lk_map s) k")
    case (Some x)
    have x: "x = a" if "k = key" using that Some assms(2) by simp
    have y: "x \<noteq> a" if "k \<noteq> key" using that lockout_okD(3) [OF assms(1) Some, of key] assms(2) by blast
    have "counter (set_failures a n s) k = Some ((lk_store s)[a := (lk_store s ! a)\<lparr>bk_failures := n\<rparr>] ! x)"
      "counter s k = Some (lk_store s ! x)"
      unfolding counter_def store Some by (simp_all add: set_failures_def)
    with x y a show ?thesis by (cases "k = key") simp_all
  qed (auto simp: counter_def set_failures_def)
qed

lemma failures_of_counter:
  "jm_get (lk_map s) key = Some a \<Longrightarrow> counter s key = Some b \<Longrightarrow> failures_of s a = bk_failures b"
  by (simp add: counter_def failures_of_def)

lemma keys_differ: "ip_key ip \<noteq> user_key u"
  by (simp add: ip_key_def user_key_def text_of_def)

lemma swept_live: "swept now old new \<Longrightarrow> live_bucket now new = live_bucket now old"
  by (auto simp: swept_def live_bucket_def split: option.splits)

lemma swept_some: "swept now (Some b) new \<Longrightarrow> \<not> expired now b \<Longrightarrow> new = Some b"
  by (auto simp: swept_def)

lemma swept_trans: "swept now a b \<Longrightarrow> swept now b c \<Longrightarrow> swept now a c"
  by (auto simp: swept_def split: option.splits)

text \<open>The check as a statement about the table: both counters become live, and the caller goes on
  exactly when both are below the limit.\<close>

lemma check_buckets_counter:
  assumes ok: "lockout_ok s" and eq: "check_buckets ip u now s = (s2, r)"
  defines "fi \<equiv> live_bucket now (counter s (ip_key ip))" and "fu \<equiv> live_bucket now (counter s (user_key u))"
  shows "lockout_ok s2" "counter s2 (ip_key ip) = Some fi" "counter s2 (user_key u) = Some fu"
    "k \<noteq> ip_key ip \<Longrightarrow> k \<noteq> user_key u \<Longrightarrow> swept now (counter s k) (counter s2 k)"
    "case r of
       InFlight ia ua \<Rightarrow> bk_failures fi < MAX_FAILURES \<and> bk_failures fu < MAX_FAILURES \<and>
         jm_get (lk_map s2) (ip_key ip) = Some ia \<and> jm_get (lk_map s2) (user_key u) = Some ua
     | Denied a \<Rightarrow> (\<exists>w. a = TooMany w) \<and> (bk_failures fi \<ge> MAX_FAILURES \<or> bk_failures fu \<ge> MAX_FAILURES)"
proof -
  obtain s1 ia where e1: "bucket_of (ip_key ip) now s = (s1, ia)" by (cases "bucket_of (ip_key ip) now s")
  obtain s3 ua where e2: "bucket_of (user_key u) now s1 = (s3, ua)" by (cases "bucket_of (user_key u) now s1")
  have s3: "s3 = s2" using eq e1 e2 by (simp add: check_buckets_def Let_def split: if_splits)
  note b1 = bucket_of_counter [OF ok e1] and b2 = bucket_of_counter [OF bucket_of_counter(1) [OF ok e1] e2, unfolded s3]
  note ne = keys_differ [of ip u]
  show "lockout_ok s2" by (rule b2(1))
  have ip: "counter s2 (ip_key ip) = Some fi"
    using swept_some [of now fi "counter s2 (ip_key ip)"] b2(4) [OF ne] b1(3) by (simp add: fi_def)
  then show "counter s2 (ip_key ip) = Some fi" .
  have user: "counter s2 (user_key u) = Some fu"
    using b2(3) swept_live [OF b1(4) [OF ne [symmetric]]] by (simp add: fu_def)
  then show "counter s2 (user_key u) = Some fu" .
  show "swept now (counter s k) (counter s2 k)" if "k \<noteq> ip_key ip" "k \<noteq> user_key u"
    by (rule swept_trans [OF b1(4) [OF that(1)] b2(4) [OF that(2)]])
  obtain x where x: "jm_get (lk_map s2) (ip_key ip) = Some x" "lk_store s2 ! x = fi"
    using ip by (auto simp: counter_def)
  have "x = ia" using bucket_of_counter(5) [OF b1(1) e2 ne, unfolded s3, OF x(1)] b1(2) by simp
  with x have xi: "jm_get (lk_map s2) (ip_key ip) = Some ia" "lk_store s2 ! ia = fi" by simp_all
  have xu: "lk_store s2 ! ua = fu" using user b2(2) by (simp add: counter_def)
  have "r = (if bk_failures fi \<ge> MAX_FAILURES \<or> bk_failures fu \<ge> MAX_FAILURES
    then Denied (TooMany (max (js_ceil (of_int (max (bk_windowStart fi) (bk_windowStart fu) + FAIL_WINDOW_MS - now) / 1000)) 1))
    else InFlight ia ua)"
    using eq e1 e2 s3 xi xu by (auto simp: check_buckets_def Let_def)
  with xi b2(2) show "case r of
       InFlight ia ua \<Rightarrow> bk_failures fi < MAX_FAILURES \<and> bk_failures fu < MAX_FAILURES \<and>
         jm_get (lk_map s2) (ip_key ip) = Some ia \<and> jm_get (lk_map s2) (user_key u) = Some ua
     | Denied a \<Rightarrow> (\<exists>w. a = TooMany w) \<and> (bk_failures fi \<ge> MAX_FAILURES \<or> bk_failures fu \<ge> MAX_FAILURES)"
    by auto
qed

definition after_verdict :: "verdict \<Rightarrow> bucket \<Rightarrow> bucket" where
  "after_verdict v b =
     (case v of Accepted _ \<Rightarrow> b\<lparr>bk_failures := 0\<rparr> | Refused \<Rightarrow> b\<lparr>bk_failures := bk_failures b + 1\<rparr> | NoPam \<Rightarrow> b)"

definition verdict_answer :: "verdict \<Rightarrow> login_answer" where
  "verdict_answer v = (case v of Accepted w \<Rightarrow> Welcome w | Refused \<Rightarrow> Incorrect | NoPam \<Rightarrow> PamUnavailable)"

lemma finish_counter:
  assumes ok: "lockout_ok s" and ia: "jm_get (lk_map s) ki = Some ia" and ua: "jm_get (lk_map s) ku = Some ua"
    and ne: "ki \<noteq> ku"
  shows "lockout_ok (fst (finish_login ia ua v s))"
    "counter (fst (finish_login ia ua v s)) k =
       (if k = ki \<or> k = ku then map_option (after_verdict v) (counter s k) else counter s k)"
    "snd (finish_login ia ua v s) = verdict_answer v"
proof -
  have one: "lockout_ok (set_failures ia n s)" "jm_get (lk_map (set_failures ia n s)) ku = Some ua" for n
    using set_failures_counter(1,2) [OF ok ia] ua by simp_all
  note two = set_failures_counter [OF one]
  obtain bi bu where b: "counter s ki = Some bi" "counter s ku = Some bu" using ia ua by (simp add: counter_def)
  have fi: "failures_of s ia = bk_failures bi" by (rule failures_of_counter [OF ia b(1)])
  have "counter (set_failures ia n s) ku = Some bu" for n
    using set_failures_counter(3) [OF ok ia] ne b(2) by simp
  then have fu: "failures_of (set_failures ia n s) ua = bk_failures bu" for n
    by (rule failures_of_counter [OF one(2)])
  show "lockout_ok (fst (finish_login ia ua v s))"
    using ok two(1) by (simp add: finish_login_def Let_def split: verdict.split)
  show "counter (fst (finish_login ia ua v s)) k =
       (if k = ki \<or> k = ku then map_option (after_verdict v) (counter s k) else counter s k)"
    by (cases v; cases "k = ki"; cases "k = ku")
      (use ne b in \<open>simp_all add: finish_login_def Let_def after_verdict_def two(3) set_failures_counter(3) [OF ok ia] fi fu option.map_id0 [unfolded id_def]\<close>)
  show "snd (finish_login ia ua v s) = verdict_answer v"
    by (simp add: finish_login_def verdict_answer_def Let_def split: verdict.split)
qed

section \<open>Sequences of requests\<close>

text \<open>Each request brings its instant and what the stores would answer it.\<close>

type_synonym attempt = "login_request \<times> int \<times> (codepoints \<Rightarrow> codepoints \<Rightarrow> verdict)"

fun login_run :: "bool \<Rightarrow> attempt list \<Rightarrow> lockout \<Rightarrow> lockout \<times> login_answer list" where
  "login_run trust_proxy [] s = (s, [])"
| "login_run trust_proxy ((req, now, check) # rs) s =
     (let (s1, a) = login_once trust_proxy req now check s; (s2, as) = login_run trust_proxy rs s1 in (s2, a # as))"

text \<open>One request on the table of counters.\<close>

definition passes :: "lockout \<Rightarrow> string \<Rightarrow> codepoints \<Rightarrow> int \<Rightarrow> bool" where
  "passes s ip u now \<longleftrightarrow>
     live_failures now (counter s (ip_key ip)) < MAX_FAILURES \<and> live_failures now (counter s (user_key u)) < MAX_FAILURES"

lemma login_once_counter:
  fixes tp :: bool and now :: int and check :: "codepoints \<Rightarrow> codepoints \<Rightarrow> verdict"
  assumes ok: "lockout_ok s" and parsed: "parse_login req = Credentials u p"
  defines "ip \<equiv> clientIp tp req" and "v \<equiv> check u p"
  defines "keep \<equiv> if passes s ip u now then after_verdict v else (\<lambda>b. b)"
  shows "lockout_ok (fst (login_once tp req now check s))"
    "k \<noteq> ip_key ip \<Longrightarrow> k \<noteq> user_key u \<Longrightarrow> swept now (counter s k) (counter (fst (login_once tp req now check s)) k)"
    "counter (fst (login_once tp req now check s)) (user_key u) = Some (keep (live_bucket now (counter s (user_key u))))"
    "if passes s ip u now then snd (login_once tp req now check s) = verdict_answer v
     else \<exists>w. snd (login_once tp req now check s) = TooMany w"
proof -
  obtain s2 r where e: "check_buckets ip u now s = (s2, r)" by (cases "check_buckets ip u now s")
  note c = check_buckets_counter [OF ok e]
  have once: "login_once tp req now check s = (case r of Denied a \<Rightarrow> (s2, a) | InFlight ia ua \<Rightarrow> finish_login ia ua v s2)"
    using e unfolding login_once_def parsed ip_def v_def by simp
  have "lockout_ok (fst (login_once tp req now check s)) \<and>
    (k \<noteq> ip_key ip \<and> k \<noteq> user_key u \<longrightarrow> swept now (counter s k) (counter (fst (login_once tp req now check s)) k)) \<and>
    counter (fst (login_once tp req now check s)) (user_key u) = Some (keep (live_bucket now (counter s (user_key u)))) \<and>
    (if passes s ip u now then snd (login_once tp req now check s) = verdict_answer v
     else \<exists>w. snd (login_once tp req now check s) = TooMany w)"
  proof (cases r)
    case (Denied a)
    with c(5) have "\<not> passes s ip u now" "\<exists>w. a = TooMany w" by (auto simp: passes_def)
    with Denied c(1-4) show ?thesis by (simp add: once keep_def)
  next
    case (InFlight ia ua)
    with c(5) have p: "passes s ip u now" and m: "jm_get (lk_map s2) (ip_key ip) = Some ia" "jm_get (lk_map s2) (user_key u) = Some ua"
      by (simp_all add: passes_def)
    note f = finish_counter [OF c(1) m keys_differ]
    from p InFlight c(3,4) show ?thesis by (simp add: once keep_def f)
  qed
  then show "lockout_ok (fst (login_once tp req now check s))"
    "k \<noteq> ip_key ip \<Longrightarrow> k \<noteq> user_key u \<Longrightarrow> swept now (counter s k) (counter (fst (login_once tp req now check s)) k)"
    "counter (fst (login_once tp req now check s)) (user_key u) = Some (keep (live_bucket now (counter s (user_key u))))"
    "if passes s ip u now then snd (login_once tp req now check s) = verdict_answer v
     else \<exists>w. snd (login_once tp req now check s) = TooMany w" by simp_all
qed

lemma login_once_rejected: "parse_login req = Rejected a \<Longrightarrow> login_once tp req now check s = (s, a)"
  by (simp add: login_once_def)

lemma login_once_ok: "lockout_ok s \<Longrightarrow> lockout_ok (fst (login_once tp req now check s))"
  by (cases "parse_login req") (simp_all add: login_once_rejected login_once_counter(1))

lemma login_run_ok: "lockout_ok s \<Longrightarrow> lockout_ok (fst (login_run tp rs s))"
  by (induction tp rs s rule: login_run.induct)
    (simp_all add: Let_def split: prod.split, metis login_once_ok fst_conv)

lemma lockout_start_ok: "lockout_ok lockout_start"
  by (simp add: lockout_start_def lockout_ok_def)

section \<open>Lockout\<close>

text \<open>Every table that requests can produce, however their stretches interleave.\<close>

inductive lockout_reached :: "lockout \<Rightarrow> bool" where
  reached_start: "lockout_reached lockout_start"
| reached_check: "lockout_reached s \<Longrightarrow> lockout_reached (fst (check_buckets ip u now s))"
| reached_finish: "lockout_reached s \<Longrightarrow> lockout_reached (fst (finish_login ia ua v s))"

definition counts_up :: "lockout \<Rightarrow> bool" where
  "counts_up s \<longleftrightarrow> (\<forall>b \<in> set (lk_store s). 0 \<le> bk_failures b)"

lemma set_failures_keeps:
  "lockout_ok s \<Longrightarrow> lockout_ok (set_failures a n s)"
  "counts_up s \<Longrightarrow> (a < length (lk_store s) \<Longrightarrow> 0 \<le> n) \<Longrightarrow> counts_up (set_failures a n s)"
proof -
  show "lockout_ok s \<Longrightarrow> lockout_ok (set_failures a n s)" unfolding lockout_ok_def by (simp add: set_failures_def)
  show "counts_up s \<Longrightarrow> (a < length (lk_store s) \<Longrightarrow> 0 \<le> n) \<Longrightarrow> counts_up (set_failures a n s)"
    unfolding counts_up_def set_failures_def
    by (cases "a < length (lk_store s)") (auto simp: list_update_beyond dest!: set_update_subset_insert [THEN subsetD])
qed

lemma failures_nonneg: "counts_up s \<Longrightarrow> a < length (lk_store s) \<Longrightarrow> 0 \<le> failures_of s a"
  by (simp add: counts_up_def failures_of_def)

lemma length_set_failures [simp]: "length (lk_store (set_failures a n s)) = length (lk_store s)"
  by (simp add: set_failures_def)

lemma bucket_of_up: "counts_up s \<Longrightarrow> counts_up (fst (bucket_of k now s))"
  by (auto simp: bucket_of_def counts_up_def Let_def split: option.split)

lemma check_up: "counts_up s \<Longrightarrow> counts_up (fst (check_buckets ip u now s))"
  using bucket_of_up [of s "ip_key ip" now] bucket_of_up [of "fst (bucket_of (ip_key ip) now s)" "user_key u" now]
  by (auto simp: check_buckets_def Let_def split: prod.splits)

lemma set_failures_up:
  "counts_up s \<Longrightarrow> (a < length (lk_store s) \<Longrightarrow> 0 \<le> n) \<Longrightarrow> counts_up (set_failures a n s)"
  by (rule set_failures_keeps(2))

lemma finish_up: "counts_up s \<Longrightarrow> counts_up (fst (finish_login ia ua v s))"
proof (cases v)
  case Refused
  assume up: "counts_up s"
  let ?s1 = "set_failures ia (failures_of s ia + 1) s"
  have "counts_up ?s1" by (rule set_failures_keeps(2) [OF up]) (use failures_nonneg [OF up] in force)
  moreover from this have "ua < length (lk_store ?s1) \<Longrightarrow> 0 \<le> failures_of ?s1 ua + 1"
    using failures_nonneg [of ?s1 ua] by simp
  ultimately have "counts_up (set_failures ua (failures_of ?s1 ua + 1) ?s1)" by (rule set_failures_up) simp
  with Refused show ?thesis by (simp add: finish_login_def Let_def)
qed (simp_all add: finish_login_def set_failures_keeps(2))

lemma reached_ok: "lockout_reached s \<Longrightarrow> lockout_ok s \<and> counts_up s"
proof (induction rule: lockout_reached.induct)
  case (reached_check s ip u now)
  then show ?case
    using check_buckets_counter(1) [of s ip u now] check_up [of s ip u now]
    by (cases "check_buckets ip u now s") auto
next
  case (reached_finish s ia ua v)
  then show ?case
    using finish_up [of s ia ua v] by (cases v) (auto simp: finish_login_def Let_def set_failures_keeps(1))
qed (simp_all add: lockout_start_ok, simp add: lockout_start_def counts_up_def)

lemma login_once_reached: "lockout_reached s \<Longrightarrow> lockout_reached (fst (login_once tp req now check s))"
proof (cases "parse_login req")
  case (Credentials u p)
  assume s: "lockout_reached s"
  obtain s1 r where e: "check_buckets (clientIp tp req) u now s = (s1, r)" by (cases "check_buckets (clientIp tp req) u now s")
  have "lockout_reached s1" using reached_check [OF s, of "clientIp tp req" u now] e by simp
  then show ?thesis by (cases r) (simp_all add: login_once_def Credentials e lockout_reached.intros)
qed (simp add: login_once_def)

text \<open>How many wrong passwords a counter still lets through until the instant \<open>T + FAIL_WINDOW_MS\<close>: a
  window begun before \<open>T\<close> may be followed by another.\<close>

definition allowance :: "int \<Rightarrow> bucket option \<Rightarrow> int" where
  "allowance T c =
     (case c of None \<Rightarrow> MAX_FAILURES
      | Some b \<Rightarrow> (if T \<le> bk_windowStart b then 0 else MAX_FAILURES) + max 0 (MAX_FAILURES - bk_failures b))"

lemma allowance_live:
  "T \<le> now \<Longrightarrow> now \<le> T + FAIL_WINDOW_MS \<Longrightarrow> allowance T (Some (live_bucket now c)) \<le> allowance T c"
  by (auto simp: allowance_def live_bucket_def expired_def FAIL_WINDOW_MS_def MAX_FAILURES_def split: option.split)

lemma allowance_swept:
  "swept now old new \<Longrightarrow> now \<le> T + FAIL_WINDOW_MS \<Longrightarrow> allowance T new \<le> allowance T old"
  by (auto simp: swept_def allowance_def expired_def FAIL_WINDOW_MS_def MAX_FAILURES_def split: option.splits)

lemma allowance_verdict:
  assumes "bk_failures b < MAX_FAILURES" "0 \<le> bk_failures b"
  shows "allowance T (Some (after_verdict v b)) + (if v = Refused then 1 else 0) \<le>
    allowance T (Some b) + (case v of Accepted w \<Rightarrow> MAX_FAILURES | _ \<Rightarrow> 0)"
  using assms by (auto simp: allowance_def after_verdict_def split: verdict.split)

definition names_user :: "codepoints \<Rightarrow> login_request \<Rightarrow> bool" where
  "names_user u req = (case parse_login req of Credentials n p \<Rightarrow> lower_name n = u | Rejected a \<Rightarrow> False)"

text \<open>The requests for a user that reached the stores and were refused there.\<close>

definition wrong_passwords :: "codepoints \<Rightarrow> attempt list \<Rightarrow> login_answer list \<Rightarrow> nat" where
  "wrong_passwords u reqs answers = length (filter (\<lambda>((req, now, check), a). names_user u req \<and> a = Incorrect) (zip reqs answers))"

text \<open>The sign-ins of a user.\<close>

definition sign_ins :: "codepoints \<Rightarrow> attempt list \<Rightarrow> login_answer list \<Rightarrow> nat" where
  "sign_ins u reqs answers =
     length (filter (\<lambda>((req, now, check), a). names_user u req \<and> (\<exists>w. a = Welcome w)) (zip reqs answers))"

definition counter_up :: "lockout \<Rightarrow> bool" where
  "counter_up s \<longleftrightarrow> (\<forall>k b. counter s k = Some b \<longrightarrow> 0 \<le> bk_failures b)"

lemma counts_up_counter: "lockout_ok s \<Longrightarrow> counts_up s \<Longrightarrow> counter_up s"
  unfolding counter_up_def
proof (intro allI impI)
  fix k b assume "lockout_ok s" "counts_up s" "counter s k = Some b"
  then show "0 \<le> bk_failures b"
    using lockout_okD(2) [of s k] by (auto simp: counter_def counts_up_def simp del: map_of_eq_Some_iff)
qed

lemma one_wrong_password:
  fixes tp :: bool and req :: login_request and u :: codepoints and check :: "codepoints \<Rightarrow> codepoints \<Rightarrow> verdict"
  assumes ok: "lockout_ok s" and up: "counter_up s" and now: "T \<le> now" "now \<le> T + FAIL_WINDOW_MS"
  defines "k \<equiv> text_of ''user:'' @ u" and "r \<equiv> login_once tp req now check s"
  shows "(if names_user u req \<and> snd r = Incorrect then 1 else 0) + allowance T (counter (fst r) k) \<le>
    allowance T (counter s k) + (if names_user u req \<and> (\<exists>w. snd r = Welcome w) then MAX_FAILURES else 0)"
proof (cases "parse_login req")
  case (Credentials n p)
  note c = login_once_counter [OF ok Credentials, where tp = tp and now = now and check = check, folded r_def]
  let ?lb = "live_bucket now (counter s (user_key n))"
  have pos: "0 \<le> bk_failures ?lb"
    using up by (auto simp: live_failures_def counter_up_def split: option.split)
  show ?thesis
  proof (cases "lower_name n = u")
    case True
    then have k: "user_key n = k" by (simp add: user_key_def k_def)
    have named: "names_user u req" by (simp add: names_user_def Credentials True)
    have live: "allowance T (Some ?lb) \<le> allowance T (counter s k)" unfolding k by (rule allowance_live [OF now])
    show ?thesis
    proof (cases "passes s (clientIp tp req) n now")
      case True
      then have "bk_failures ?lb < MAX_FAILURES" by (simp add: passes_def)
      from allowance_verdict [OF this pos, of T "check n p"] live c(3,4) True named
      show ?thesis by (cases "check n p") (simp_all add: k verdict_answer_def)
    next
      case False
      with c(4) obtain w where "snd r = TooMany w" by auto
      with live c(3) False show ?thesis by (simp add: k)
    qed
  next
    case False
    then have "k \<noteq> user_key n" "k \<noteq> ip_key (clientIp tp req)"
      using keys_differ [of "clientIp tp req" u] by (auto simp: user_key_def k_def ip_key_def text_of_def)
    from allowance_swept [OF c(2) [OF this(2) this(1)] now(2)] False show ?thesis
      by (simp add: names_user_def Credentials)
  qed
qed (simp add: r_def login_once_def names_user_def)

lemma login_run_allowance:
  assumes "lockout_reached s" "list_all (\<lambda>(req, now, check). T \<le> now \<and> now \<le> T + FAIL_WINDOW_MS) rs"
  shows "int (wrong_passwords u rs (snd (login_run tp rs s))) +
      allowance T (counter (fst (login_run tp rs s)) (text_of ''user:'' @ u)) \<le>
    allowance T (counter s (text_of ''user:'' @ u)) + MAX_FAILURES * int (sign_ins u rs (snd (login_run tp rs s)))"
  using assms
proof (induction rs arbitrary: s)
  case (Cons r rs)
  obtain req now check where r: "r = (req, now, check)" by (cases r)
  obtain s1 a where e: "login_once tp req now check s = (s1, a)" by (cases "login_once tp req now check s")
  from Cons.prems have now: "T \<le> now" "now \<le> T + FAIL_WINDOW_MS" by (simp_all add: r)
  have s: "lockout_ok s" "counter_up s" using reached_ok [OF Cons.prems(1)] counts_up_counter by auto
  have "lockout_reached s1" using login_once_reached [OF Cons.prems(1), of tp req now check] e by simp
  from Cons.IH [OF this] Cons.prems(2) one_wrong_password [OF s now, where tp = tp and req = req and check = check and u = u] e
  show ?case by (auto simp: r wrong_passwords_def sign_ins_def Let_def MAX_FAILURES_def split: prod.split)
qed (simp add: wrong_passwords_def sign_ins_def)

lemma allowance_bound: "lockout_reached s \<Longrightarrow> allowance T (counter s k) \<le> 2 * MAX_FAILURES"
proof -
  assume s: "lockout_reached s"
  have "0 \<le> bk_failures b" if "counter s k = Some b" for b
    using reached_ok [OF s] lockout_okD(2) [of s k] that by (auto simp: counter_def counts_up_def simp del: map_of_eq_Some_iff)
  then show ?thesis by (auto simp: allowance_def MAX_FAILURES_def split: option.split)
qed

text \<open>C25: Guessing is bounded. Whatever happened before, requests served one after another (none in flight
  beside another) within one window of a minute get at most ten wrong passwords for one user past the
  lockout, five of a window begun earlier and five of its successor, plus five for every sign-in of that user
  among them, which resets the counter. This holds whatever the stores answer to each request, from whatever
  addresses the requests come, and however the letters of the user name are cased.\<close>

theorem lockout_bounds:
  assumes "lockout_reached s" "list_all (\<lambda>(req, now, check). T \<le> now \<and> now \<le> T + FAIL_WINDOW_MS) rs"
    and "answers = snd (login_run trust_proxy rs s)"
  shows "wrong_passwords u rs answers \<le> 10 + 5 * sign_ins u rs answers"
proof -
  have "0 \<le> allowance T (counter (fst (login_run trust_proxy rs s)) (text_of ''user:'' @ u))"
    by (simp add: allowance_def MAX_FAILURES_def split: option.split)
  with login_run_allowance [OF assms(1,2), where tp = trust_proxy and u = u] allowance_bound [OF assms(1), of T "text_of ''user:'' @ u"]
  show ?thesis by (simp add: MAX_FAILURES_def assms(3))
qed

text \<open>The counters rise only after the stores have answered: requests that are all in flight at once
  pass the check together, whatever their number.\<close>

lemma concurrent_guesses:
  "list_all (\<lambda>r. \<exists>ia ua. r = InFlight ia ua)
     (snd (foldl (\<lambda>(s, rs) i. let (s', r) = check_buckets ip u now s in (s', rs @ [r])) (lockout_start, []) [0..<n]))"
proof -
  have "lockout_ok (fst acc) \<and> (\<forall>k. live_failures now (counter (fst acc) k) = 0) \<and>
      list_all (\<lambda>r. \<exists>ia ua. r = InFlight ia ua) (snd acc)"
    if "acc = foldl (\<lambda>(s, rs) i. let (s', r) = check_buckets ip u now s in (s', rs @ [r])) (lockout_start, []) [0..<n]" for acc n
    using that
  proof (induction n arbitrary: acc)
    case (Suc n)
    obtain s rs where prev: "foldl (\<lambda>(s, rs) i. let (s', r) = check_buckets ip u now s in (s', rs @ [r])) (lockout_start, []) [0..<n] = (s, rs)"
      by (meson surj_pair)
    obtain s' r where e: "check_buckets ip u now s = (s', r)" by (cases "check_buckets ip u now s")
    from Suc.IH [OF prev [symmetric]] have ok: "lockout_ok s" and zero: "\<And>k. live_failures now (counter s k) = 0"
      and rs: "list_all (\<lambda>r. \<exists>ia ua. r = InFlight ia ua) rs" by simp_all
    note c = check_buckets_counter [OF ok e]
    have "live_failures now (counter s' k) = 0" for k
    proof (cases "k = ip_key ip \<or> k = user_key u")
      case True
      with c(2,3) zero show ?thesis by auto
    next
      case False
      with c(4) [of k] swept_live [of now "counter s k" "counter s' k"] zero [of k] live_bucket_failures [of now]
      show ?thesis by metis
    qed
    moreover have "\<exists>ia ua. r = InFlight ia ua"
      using c(5) zero by (cases r) (auto simp: MAX_FAILURES_def)
    ultimately show ?case using Suc.prems prev e c(1) rs by simp
  qed (simp add: lockout_start_ok, simp add: lockout_start_def counter_def live_failures_def)
  then show ?thesis by blast
qed

section \<open>Who is let in\<close>

text \<open>The stores behind the route: PAM's answer for a name and password is an argument, the local table
  is the one of the accounts. A valid name is ASCII, so it is also an 8-bit text.\<close>

definition local_store ::
  "scrypt \<Rightarrow> string option \<Rightarrow> string option \<Rightarrow> sd_users \<Rightarrow> codepoints \<Rightarrow> codepoints \<Rightarrow> bool" where
  "local_store scrypt passwd_file group_file users name password =
     (authenticateLocal scrypt passwd_file group_file users (map char_of name) password \<noteq> None)"

definition store_check ::
  "auth_mode \<Rightarrow> bool \<Rightarrow> (codepoints \<Rightarrow> codepoints \<Rightarrow> pam_answer) \<Rightarrow> (codepoints \<Rightarrow> codepoints \<Rightarrow> bool) \<Rightarrow>
   codepoints \<Rightarrow> codepoints \<Rightarrow> verdict" where
  "store_check mode viable pam local name password = authenticate mode viable (pam name password) (local name password)"

lemma authenticateLocal_iff:
  "authenticateLocal scrypt passwd_file group_file users name password \<noteq> None \<longleftrightarrow>
     (case jm_get users name of
        Some row \<Rightarrow> \<not> su_disabled row \<and> verifyLocalPassword scrypt password (su_hash row)
      | None \<Rightarrow> False)"
  by (auto simp: authenticateLocal_def consoleUser_def Let_def split: option.split)

lemma verdict_welcome: "verdict_answer v = Welcome w \<longleftrightarrow> v = Accepted w"
  by (simp add: verdict_answer_def split: verdict.split)


text \<open>On a host whose helper script is there but whose PAM is not, no local account can sign in under
  \<open>pam+local\<close>.\<close>

lemma missing_pam_locks_out: "authenticate PamAndLocal True PamMissing local_ok = Refused"
  by (simp add: authenticate_def)

text \<open>The session a sign-in leaves behind: every name the route lets through survives the token.\<close>

lemma name_char_ascii: "name_char c \<Longrightarrow> c < 128" "name_start c \<Longrightarrow> c < 128"
  by (auto simp: name_char_def name_start_def)

lemma valid_name:
  assumes "validUsername n"
  shows "list_all scalar n" "n \<noteq> []" "utf16_length n \<le> 64"
proof -
  obtain c cs where n: "n = c # cs" using assms by (cases n) (simp_all add: validUsername_def)
  have "\<forall>x \<in> set cs. x < 128"
  proof (cases "list_all name_char cs")
    case True
    then show ?thesis by (auto simp: list_all_iff dest: name_char_ascii)
  next
    case False
    with assms have "cs \<noteq> []" "list_all name_char (butlast cs)" "last cs = 36"
      by (simp_all add: n validUsername_def username_pattern_def)
    then show ?thesis
      by (cases cs rule: rev_cases) (auto simp: list_all_iff dest: name_char_ascii)
  qed
  moreover have "c < 128" using assms by (auto simp: n validUsername_def username_pattern_def dest: name_char_ascii)
  ultimately show "list_all scalar n" by (auto simp: n list_all_iff scalar_def)
  show "n \<noteq> []" "utf16_length n \<le> 64" using assms by (simp_all add: validUsername_def)
qed

lemma parsed_name: "parse_login req = Credentials n p \<Longrightarrow> validUsername n"
  by (auto simp: parse_login_def Let_def split: if_splits option.splits json.splits)

text \<open>The session minted at a sign-in identifies the user who signed in, whatever name the route let
  through, for twelve hours and not a millisecond longer.\<close>

theorem sign_in_session:
  assumes "hex_mac hmac" "decimal_rendering num_str" "parse_login req = Credentials name password"
    "\<bar>now + SESSION_TTL_MS\<bar> < 10 ^ 21"
  shows "verifySessionToken hmac num_str secret later (Some (fst (login_token hmac num_str secret now name))) =
    (if later \<le> now + 43200000
     then Some \<lparr>si_expiresAt = of_int (now + 43200000), si_user = Some name, si_version = 2\<rparr> else None)"
  using created_session [OF assms(1,2) valid_name [OF parsed_name [OF assms(3)]] assms(4)]
  by (simp add: login_token_def SESSION_TTL_MS_def)

section \<open>Examples\<close>

definition demo_login :: login_request where
  "demo_login = \<lparr>lq_contentLength = None, lq_raw = json_stringify demo_num_text
     (JObj [(text_of ''username'', JStr (text_of ''ann'')), (text_of ''password'', JStr [120])]), lq_forwardedFor = None\<rparr>"

lemma zero_text: "int_str 0 = ''0''"
  by (simp add: int_str_def nat_str.simps char_of_def bit_0)

lemma demo_parsed: "parse_login demo_login = Credentials (text_of ''ann'') [120]"
proof -
  let ?v = "JObj [(text_of ''username'', JStr (text_of ''ann'')), (text_of ''password'', JStr [120])] :: jtext json"
  have plain: "plain_json ?v" by (simp add: text_of_def scalar_def)
  have raw: "json_parse (lq_raw demo_login) = Some ?v"
    unfolding demo_login_def login_request.simps by (rule json_roundtrip [OF demo_renders plain])
  have raw_text: "lq_raw demo_login = text_of ''{\"username\":\"ann\",\"password\":\"x\"}''"
    by (simp add: demo_login_def text_of_def print_string_def print_char_def)
  have "utf16_length (lq_raw demo_login) = 33" "lq_raw demo_login \<noteq> []"
    unfolding raw_text by (simp_all add: text_of_def utf16_length_def)
  moreover have "js_number ''0'' = Some 0" using zero_text js_number_int_str [of 0] by simp
  moreover have "validUsername (text_of ''ann'')" "cp_trim (text_of ''ann'') = text_of ''ann''"
    by (simp_all add: text_of_def validUsername_def utf16_length_def username_pattern_def name_char_def name_start_def
      cp_trim_def cp_space_def)
  ultimately show ?thesis
    using raw by (simp add: parse_login_def Let_def demo_login_def MAX_BODY_BYTES_def text_field_def text_of_def
      json_field_def json_string_def)
qed

lemma lockout_bounds_witness:
  "let rs = [(demo_login, 5, \<lambda>n p. Refused), (demo_login, 7, \<lambda>n p. Accepted ViaPam)];
       answers = snd (login_run False rs lockout_start)
   in wrong_passwords (text_of ''ann'') rs answers \<le> 10 + 5 * sign_ins (text_of ''ann'') rs answers"
  unfolding Let_def by (rule lockout_bounds [OF reached_start _ refl, of 0]) (simp_all add: FAIL_WINDOW_MS_def)


lemma sign_in_session_witness:
  "verifySessionToken demo_mac demo_decimal ''k'' 43200005
     (Some (fst (login_token demo_mac demo_decimal ''k'' 5 (text_of ''ann'')))) =
     Some \<lparr>si_expiresAt = 43200005, si_user = Some (text_of ''ann''), si_version = 2\<rparr> \<and>
   verifySessionToken demo_mac demo_decimal ''k'' 43200006
     (Some (fst (login_token demo_mac demo_decimal ''k'' 5 (text_of ''ann'')))) = None"
  using sign_in_session [OF demo_mac_hex demo_decimal_ok demo_parsed, of 5 "''k''" 43200005]
    sign_in_session [OF demo_mac_hex demo_decimal_ok demo_parsed, of 5 "''k''" 43200006]
  by (simp add: SESSION_TTL_MS_def)

end
