(* ===== verification/ProviderChunks.thy ===== *)
theory ProviderChunks
  imports ToolLoop
begin

text \<open>
  What the stream transformers of \<open>packages/providers/src\<close> have in common: the canonical chunks they
  enqueue (\<open>chunk(delta, finish)\<close> and the usage chunk), the shape of a stream transformer that may
  fail, and the message the gateway's accumulator holds while such chunks arrive. The last lets each
  provider state what its stream amounts to.

  A member whose value is undefined is left out, as \<open>JSON.stringify\<close> does. What an upstream sends is
  passed on as it is, whatever its type: the fragments and token counts of a chunk are JSON values, read
  under \<open>??\<close> or a test of truth as the code reads them.
\<close>

section \<open>Values\<close>

text \<open>\<open>v ?? d\<close>.\<close>

definition nullish :: "jtext json option \<Rightarrow> jtext json \<Rightarrow> jtext json" where
  "nullish v d = (case v of None \<Rightarrow> d | Some JNull \<Rightarrow> d | Some x \<Rightarrow> x)"

text \<open>\<open>String(v)\<close>.\<close>

fun js_to_string :: "(rat \<Rightarrow> jtext) \<Rightarrow> jtext json \<Rightarrow> jtext" where
  "js_to_string num_text JNull = text_of ''null''"
| "js_to_string num_text (JBool b) = text_of (if b then ''true'' else ''false'')"
| "js_to_string num_text (JNum q) = num_text q"
| "js_to_string num_text (JStr s) = s"
| "js_to_string num_text (JArr vs) =
     commas (map (\<lambda>v. case v of JNull \<Rightarrow> [] | _ \<Rightarrow> js_to_string num_text v) vs)"
| "js_to_string num_text (JObj ms) = text_of ''[object Object]''"

text \<open>\<open>a + b\<close>: texts are joined, arrays and objects become texts, everything else is a number.\<close>

fun js_primitive :: "jtext json \<Rightarrow> rat option" where
  "js_primitive JNull = Some 0"
| "js_primitive (JBool b) = Some (if b then 1 else 0)"
| "js_primitive (JNum q) = Some q"
| "js_primitive _ = None"

definition js_plus :: "(rat \<Rightarrow> jtext) \<Rightarrow> jtext json \<Rightarrow> jtext json \<Rightarrow> jtext json" where
  "js_plus num_text a b =
     (case (js_primitive a, js_primitive b) of
        (Some x, Some y) \<Rightarrow> JNum (x + y)
      | _ \<Rightarrow> JStr (js_to_string num_text a @ js_to_string num_text b))"

lemma value_simps [simp]:
  "nullish None d = d" "nullish (Some JNull) d = d" "nullish (Some (JNum q)) d = JNum q"
  "nullish (Some (JStr t)) d = JStr t"
  "js_truthy None = False" "js_truthy (Some JNull) = False"
  "js_truthy (Some (JStr t)) \<longleftrightarrow> t \<noteq> []" "js_truthy (Some (JObj ms))" "js_truthy (Some (jobj nvs))"
  "js_plus num_text (JNum x) (JNum y) = JNum (x + y)"
  by (simp_all add: nullish_def js_truthy_def js_plus_def jobj_def)

section \<open>Chunks\<close>

definition opt_member :: "string \<Rightarrow> jtext json option \<Rightarrow> (string \<times> jtext json) list" where
  "opt_member k v = (case v of Some x \<Rightarrow> [(k, x)] | None \<Rightarrow> [])"

record chunk_env =
  ce_id :: jtext
  ce_created :: int
  ce_model :: jtext

definition provider_chunk :: "chunk_env \<Rightarrow> jtext json \<Rightarrow> jtext option \<Rightarrow> jtext json" where
  "provider_chunk env delta finish =
     jobj [(''id'', JStr (ce_id env)), (''object'', jt ''chat.completion.chunk''),
       (''created'', JNum (of_int (ce_created env))), (''model'', JStr (ce_model env)),
       (''choices'', JArr [jobj [(''index'', JNum 0), (''delta'', delta),
          (''finish_reason'', case finish of Some r \<Rightarrow> JStr r | None \<Rightarrow> JNull)]])]"

definition provider_usage :: "chunk_env \<Rightarrow> jtext json \<Rightarrow> jtext json \<Rightarrow> jtext json \<Rightarrow> jtext json" where
  "provider_usage env prompt completion all_tokens =
     jobj [(''id'', JStr (ce_id env)), (''object'', jt ''chat.completion.chunk''),
       (''created'', JNum (of_int (ce_created env))), (''model'', JStr (ce_model env)), (''choices'', JArr []),
       (''usage'', jobj [(''prompt_tokens'', prompt), (''completion_tokens'', completion),
          (''total_tokens'', all_tokens)])]"

definition role_delta :: "jtext json" where
  "role_delta = jobj [(''role'', jt ''assistant''), (''content'', jt '''')]"

definition text_delta :: "jtext json \<Rightarrow> jtext json" where
  "text_delta v = jobj [(''content'', v)]"

definition tool_open_delta :: "int \<Rightarrow> jtext json option \<Rightarrow> jtext json option \<Rightarrow> jtext json \<Rightarrow> jtext json" where
  "tool_open_delta i call_id name args =
     jobj [(''tool_calls'', JArr [jobj ((''index'', JNum (of_int i)) # opt_member ''id'' call_id @
       [(''type'', jt ''function''), (''function'', jobj (opt_member ''name'' name @ [(''arguments'', args)]))])])]"

definition tool_args_delta :: "int \<Rightarrow> jtext json \<Rightarrow> jtext json" where
  "tool_args_delta i args =
     jobj [(''tool_calls'', JArr [jobj [(''index'', JNum (of_int i)),
       (''function'', jobj [(''arguments'', args)])]])]"

section \<open>Transformers\<close>

text \<open>\<open>transform\<close> either enqueues chunks and goes on, or throws, which errors the stream; \<open>flush\<close> runs at
  the end of the input of a stream that did not fail. The flag tells whether it failed.\<close>

type_synonym ('s, 'x) transform = "'x \<Rightarrow> 's \<Rightarrow> ('s \<times> canonical list) option"

fun run_transform :: "('s, 'x) transform \<Rightarrow> ('s \<Rightarrow> canonical list) \<Rightarrow> 's \<Rightarrow> 'x list \<Rightarrow> canonical list \<times> bool" where
  "run_transform step flush s [] = (flush s, False)"
| "run_transform step flush s (x # xs) =
     (case step x s of
        None \<Rightarrow> ([], True)
      | Some (s1, out) \<Rightarrow> (let (rest, failed) = run_transform step flush s1 xs in (out @ rest, failed)))"

text \<open>\<open>if (!line.startsWith("data:")) return; try { JSON.parse(line.slice(5).trim()) } catch { return }\<close>.\<close>

definition data_event :: "jtext \<Rightarrow> jtext json option" where
  "data_event line = (if take 5 line = text_of ''data:'' then json_parse (cp_trim (drop 5 line)) else None)"

definition sse_step :: "('s, jtext json) transform \<Rightarrow> ('s, jtext) transform" where
  "sse_step step line s = (case data_event line of None \<Rightarrow> Some (s, []) | Some ev \<Rightarrow> step ev s)"

lemma run_sse: "run_transform (sse_step step) flush s lines = run_transform step flush s (List.map_filter data_event lines)"
  by (induction lines arbitrary: s) (simp_all add: sse_step_def map_filter_simps split: option.split)

lemma run_transform_append:
  "run_transform step flush s (xs @ ys) =
     (let (out, failed) = run_transform step (\<lambda>s. []) s xs
      in if failed then (out, True)
         else let (rest, failed2) = run_transform step flush
                (foldl (\<lambda>s x. case step x s of Some (s1, o1) \<Rightarrow> s1 | None \<Rightarrow> s) s xs) ys
              in (out @ rest, failed2))"
  by (induction xs arbitrary: s) (auto simp: Let_def split: option.split prod.split)

definition chunk_jsons :: "canonical list \<Rightarrow> jtext json list" where
  "chunk_jsons cs = List.map_filter (\<lambda>c. case c of Chunk v \<Rightarrow> Some v | DoneMark \<Rightarrow> None) cs"

text \<open>What the gateway's accumulator makes of a stream.\<close>

definition accumulated :: "canonical list \<Rightarrow> message" where
  "accumulated cs = acc_result (foldl acc_add acc_new (chunk_jsons cs))"

section \<open>The message so far\<close>

text \<open>A call is its id, name and argument text; calls are numbered in order.\<close>

type_synonym call_text = "jtext \<times> jtext \<times> jtext"

definition numbered_call :: "nat \<Rightarrow> call_text \<Rightarrow> acc_call" where
  "numbered_call n c = \<lparr>ac_index = of_nat n, ac_id = truthy_text (Some (fst c)), ac_name = fst (snd c),
     ac_arguments = snd (snd c)\<rparr>"

definition numbered :: "call_text list \<Rightarrow> acc_call list" where
  "numbered cs = map (\<lambda>(n, c). numbered_call n c) (enumerate 0 cs)"

definition so_far :: "chunk_env \<Rightarrow> jtext \<Rightarrow> call_text list \<Rightarrow> jtext option \<Rightarrow> acc_usage option \<Rightarrow> accumulator" where
  "so_far env content calls finish usage =
     \<lparr>ac_content = content, ac_refusal = None, ac_reasoning = None, ac_details = [],
      ac_calls = map (\<lambda>c. (ac_index c, c)) (numbered calls), ac_finish = finish, ac_usage = usage,
      ac_envelope_id = truthy_text (Some (ce_id env)), ac_model = truthy_text (Some (ce_model env)),
      ac_created = Some (of_int (ce_created env))\<rparr>"

definition reply_message :: "chunk_env \<Rightarrow> jtext \<Rightarrow> call_text list \<Rightarrow> jtext option \<Rightarrow> acc_usage option \<Rightarrow> message" where
  "reply_message env content calls finish usage =
     \<lparr>ms_content = content, ms_refusal = None, ms_reasoning = None, ms_reasoning_details = [],
      ms_tool_calls = numbered calls, ms_finish_reason = finish, ms_usage = usage,
      ms_id = truthy_text (Some (ce_id env)), ms_model = truthy_text (Some (ce_model env)),
      ms_created = Some (of_int (ce_created env))\<rparr>"

lemma numbered_snoc: "numbered (cs @ [c]) = numbered cs @ [numbered_call (length cs) c]"
  by (simp add: numbered_def enumerate_append_eq)

lemma numbered_index: "c \<in> set (numbered cs) \<Longrightarrow> \<exists>n < length cs. ac_index c = of_nat n"
  by (auto simp: numbered_def numbered_call_def in_set_enumerate_eq)

lemma numbered_fresh: "jm_get (map (\<lambda>c. (ac_index c, c)) (numbered cs)) (of_nat (length cs)) = None"
  by (auto simp: map_of_eq_None_iff dest: numbered_index)

lemma numbered_sorted: "sort_key ac_index (numbered cs) = numbered cs"
proof (rule sort_key_id_if_sorted)
  show "sorted (map ac_index (numbered cs))"
  proof (induction cs rule: rev_induct)
    case (snoc c cs)
    then show ?case
      by (auto simp: numbered_snoc sorted_append numbered_call_def dest!: numbered_index)
  qed (simp add: numbered_def)
qed

lemma so_far_result: "acc_result (so_far env content calls finish usage) = reply_message env content calls finish usage"
  by (simp add: acc_result_def so_far_def reply_message_def comp_def numbered_sorted)

lemmas chunk_reading = jobj_def jt_def opt_field_def json_field_def json_string_def json_number_def
  is_object_def nonempty_string_def truthy_text_def array_of_def text_value_def

lemma truthy_again [simp]: "or_else (truthy_text t) (truthy_text t) = truthy_text t"
  by (simp add: or_else_def truthy_text_def split: option.split)

text \<open>The members of a chunk.\<close>

lemma chunk_fields:
  "opt_field (Some (provider_chunk env delta finish)) ''id'' = Some (JStr (ce_id env))"
  "opt_field (Some (provider_chunk env delta finish)) ''model'' = Some (JStr (ce_model env))"
  "opt_field (Some (provider_chunk env delta finish)) ''created'' = Some (JNum (of_int (ce_created env)))"
  "opt_field (Some (provider_chunk env delta finish)) ''usage'' = None"
  "is_object (Some (provider_chunk env delta finish))"
  "first_choice (provider_chunk env delta finish) =
     Some (jobj [(''index'', JNum 0), (''delta'', delta), (''finish_reason'', case finish of Some r \<Rightarrow> JStr r | None \<Rightarrow> JNull)])"
  by (simp_all add: provider_chunk_def first_choice_def chunk_reading)

lemma usage_fields:
  "opt_field (Some (provider_usage env p c t)) ''id'' = Some (JStr (ce_id env))"
  "opt_field (Some (provider_usage env p c t)) ''model'' = Some (JStr (ce_model env))"
  "opt_field (Some (provider_usage env p c t)) ''created'' = Some (JNum (of_int (ce_created env)))"
  "captureUsage (opt_field (Some (provider_usage env (JNum x) (JNum y) (JNum z))) ''usage'') old =
     Some \<lparr>au_prompt = x, au_completion = y, au_total = z\<rparr>"
  "is_object (Some (provider_usage env p c t))"
  "first_choice (provider_usage env p c t) = None"
  by (simp_all add: provider_usage_def first_choice_def captureUsage_def chunk_reading)

lemma read_text [simp]:
  "nonempty_string (Some (JStr t)) = truthy_text (Some t)" "nonempty_string (Some JNull) = None"
  "text_value (Some (JStr t)) = t"
  "json_number (Some (JNum x)) = Some x" "json_string (Some (JStr t)) = Some t"
  by (simp_all add: nonempty_string_def json_string_def json_number_def text_value_def truthy_text_def)

lemma no_usage [simp]: "captureUsage None u = u"
  by (simp add: captureUsage_def is_object_def)

lemma envelope_again:
  "acc_envelope (provider_chunk env d r) (so_far env content calls finish usage) = so_far env content calls finish usage"
  "acc_envelope (provider_chunk env d r) acc_new = so_far env [] [] None None"
  "acc_envelope (provider_usage env (JNum p) (JNum c) (JNum t)) (so_far env content calls finish usage) =
     so_far env content calls finish (Some \<lparr>au_prompt = p, au_completion = c, au_total = t\<rparr>)"
  by (simp_all add: acc_envelope_def chunk_fields usage_fields so_far_def acc_new_def numbered_def or_else_def split: option.split)

lemma choice_step:
  "acc_choice (first_choice (provider_chunk env delta r)) (so_far env content calls finish usage) =
     acc_delta (Some delta) (so_far env content calls (or_else (truthy_text r) finish) usage)"
proof -
  let ?c = "jobj [(''index'', JNum 0), (''delta'', delta), (''finish_reason'', case r of Some r \<Rightarrow> JStr r | None \<Rightarrow> JNull)]"
  have "opt_field (Some ?c) ''delta'' = Some delta" "is_object (Some ?c)"
    "opt_field (Some ?c) ''finish_reason'' = Some (case r of Some r \<Rightarrow> JStr r | None \<Rightarrow> JNull)"
    by (simp_all add: jobj_def opt_field_def json_field_def is_object_def)
  then show ?thesis
    by (cases r) (simp_all add: acc_choice_def chunk_fields so_far_def truthy_text_def)
qed

lemma add_chunk:
  "acc_add (so_far env content calls finish usage) (provider_chunk env delta r) =
     acc_delta (Some delta) (so_far env content calls (or_else (truthy_text r) finish) usage)"
  by (simp add: acc_add_def chunk_fields(5) envelope_again choice_step)

lemma add_first_chunk:
  "acc_add acc_new (provider_chunk env delta r) = acc_delta (Some delta) (so_far env [] [] (truthy_text r) None)"
  by (simp add: acc_add_def chunk_fields(5) envelope_again choice_step, simp add: or_else_def split: option.split)

lemma add_usage:
  "acc_add (so_far env content calls finish usage) (provider_usage env (JNum p) (JNum c) (JNum t)) =
     so_far env content calls finish (Some \<lparr>au_prompt = p, au_completion = c, au_total = t\<rparr>)"
  by (simp add: acc_add_def usage_fields(5,6) envelope_again acc_choice_def, simp add: is_object_def)

lemma no_fragments [simp]: "append_text v None = v" "mergeReasoningDetails m [] = m" "mergeToolCalls m' [] = m'"
  by (simp_all add: append_text_def mergeReasoningDetails_def mergeToolCalls_def)

lemma add_delta:
  assumes "is_object (Some d)" "opt_field (Some d) ''refusal'' = None" "opt_field (Some d) ''reasoning'' = None"
    "opt_field (Some d) ''reasoning_details'' = None"
  shows "acc_delta (Some d) a = a\<lparr>ac_content := ac_content a @ text_value (opt_field (Some d) ''content''),
    ac_calls := mergeToolCalls (ac_calls a) (array_of (opt_field (Some d) ''tool_calls''))\<rparr>"
  using assms by (simp add: acc_delta_def array_of_def)

lemma add_empty: "acc_delta (Some (jobj [])) a = a"
  by (subst add_delta) (simp_all add: jobj_def opt_field_def json_field_def is_object_def array_of_def)

lemma add_role: "acc_delta (Some role_delta) a = a"
  by (subst add_delta)
    (simp_all add: role_delta_def jobj_def jt_def opt_field_def json_field_def is_object_def array_of_def, simp add: text_of_def)

lemma add_text: "acc_delta (Some (text_delta (JStr t))) (so_far env content calls f u) = so_far env (content @ t) calls f u"
  by (subst add_delta)
    (simp_all add: text_delta_def jobj_def jt_def opt_field_def json_field_def is_object_def array_of_def so_far_def)

text \<open>Opening a call, and adding to the last one.\<close>

abbreviation call_map :: "call_text list \<Rightarrow> (rat, acc_call) jmap" where
  "call_map cs \<equiv> map (\<lambda>c. (ac_index c, c)) (numbered cs)"

lemma so_far_fields [simp]:
  "ac_content (so_far env content calls f u) = content" "ac_calls (so_far env content calls f u) = call_map calls"
  by (simp_all add: so_far_def)

lemma so_far_update:
  "call_map cs = m \<Longrightarrow> (so_far env content calls f u)\<lparr>ac_content := t, ac_calls := m\<rparr> = so_far env t cs f u"
  by (auto simp: so_far_def)

definition open_call :: "int \<Rightarrow> jtext json option \<Rightarrow> jtext json option \<Rightarrow> jtext \<Rightarrow> jtext json" where
  "open_call i call_id name args =
     jobj ((''index'', JNum (of_int i)) # opt_member ''id'' call_id @
       [(''type'', jt ''function''), (''function'', jobj (opt_member ''name'' name @ [(''arguments'', JStr args)]))])"

definition more_call :: "int \<Rightarrow> jtext \<Rightarrow> jtext json" where
  "more_call i args = jobj [(''index'', JNum (of_int i)), (''function'', jobj [(''arguments'', JStr args)])]"

lemma open_call_fields:
  "delta_index (open_call i (Some (JStr c)) (Some (JStr n)) t) = of_int i"
  "opt_field (Some (open_call i (Some (JStr c)) (Some (JStr n)) t)) ''id'' = Some (JStr c)"
  "opt_field (Some (open_call i (Some (JStr c)) (Some (JStr n)) t)) ''function'' =
     Some (jobj [(''name'', JStr n), (''arguments'', JStr t)])"
  "delta_index (more_call i t) = of_int i" "opt_field (Some (more_call i t)) ''id'' = None"
  "opt_field (Some (more_call i t)) ''function'' = Some (jobj [(''arguments'', JStr t)])"
  by (simp_all add: open_call_def more_call_def opt_member_def jobj_def opt_field_def json_field_def delta_index_def json_number_def)

lemma merge_open:
  "merge_call (open_call (int k) (Some (JStr c)) (Some (JStr n)) t) (fresh_call (of_nat k)) = numbered_call k (c, n, t)"
  by (cases "n = []")
    (simp_all add: merge_call_def open_call_fields, simp_all add: fresh_call_def numbered_call_def jobj_def opt_field_def json_field_def
      is_object_def or_else_def truthy_text_def)

lemma merge_more:
  "merge_call (more_call (int k) t) (numbered_call k (c, n, a)) = numbered_call k (c, n, a @ t)"
  by (simp add: merge_call_def open_call_fields, simp add: numbered_call_def jobj_def opt_field_def json_field_def
      is_object_def or_else_def truthy_text_def)

lemma modify_last: "jm_get m k = None \<Longrightarrow> jm_modify (m @ [(k, v)]) k g = m @ [(k, g v)]"
  by (induction m) (auto split: if_splits)

lemma merge_new:
  "mergeToolCalls (call_map cs) [open_call (int (length cs)) (Some (JStr c)) (Some (JStr n)) t] = call_map (cs @ [(c, n, t)])"
proof -
  let ?d = "open_call (int (length cs)) (Some (JStr c)) (Some (JStr n)) t"
  have d: "is_object (Some ?d)" by (simp add: open_call_def jobj_def is_object_def)
  have idx: "delta_index ?d = of_nat (length cs)" by (simp add: open_call_fields)
  note modify_last [OF numbered_fresh [of cs]]
  then show ?thesis
    using d numbered_fresh [of cs] merge_open [of "length cs"]
    by (simp add: mergeToolCalls_def merge_at_def idx set_absent numbered_snoc del: map_of_eq_None_iff)
      (simp add: numbered_call_def)
qed

lemma merge_last:
  "mergeToolCalls (call_map (cs @ [(c, n, a)])) [more_call (int (length cs)) t] = call_map (cs @ [(c, n, a @ t)])"
proof -
  let ?d = "more_call (int (length cs)) t"
  have d: "is_object (Some ?d)" by (simp add: more_call_def jobj_def is_object_def)
  have idx: "delta_index ?d = of_nat (length cs)" by (simp add: open_call_fields)
  note modify_last [OF numbered_fresh [of cs]]
  moreover have "ac_index (numbered_call (length cs) x) = of_nat (length cs)" for x by (simp add: numbered_call_def)
  ultimately show ?thesis
    using d numbered_fresh [of cs] merge_more [of "length cs"]
    by (simp add: mergeToolCalls_def merge_at_def idx numbered_snoc)
qed

lemma add_tool_open:
  "acc_delta (Some (tool_open_delta (int (length calls)) (Some (JStr c)) (Some (JStr n)) (JStr t)))
      (so_far env content calls f u) = so_far env content (calls @ [(c, n, t)]) f u"
proof -
  let ?d = "tool_open_delta (int (length calls)) (Some (JStr c)) (Some (JStr n)) (JStr t)"
  have calls: "opt_field (Some ?d) ''tool_calls'' = Some (JArr [open_call (int (length calls)) (Some (JStr c)) (Some (JStr n)) t])"
    by (simp add: tool_open_delta_def open_call_def jobj_def opt_field_def json_field_def)
  have rest: "is_object (Some ?d)" "opt_field (Some ?d) ''refusal'' = None" "opt_field (Some ?d) ''reasoning'' = None"
    "opt_field (Some ?d) ''reasoning_details'' = None" "opt_field (Some ?d) ''content'' = None"
    by (simp_all add: tool_open_delta_def jobj_def opt_field_def json_field_def is_object_def)
  show ?thesis
    by (subst add_delta [OF rest(1-4)]) (simp add: calls rest(5) array_of_def merge_new, rule so_far_update, simp)
qed

lemma add_tool_args:
  "acc_delta (Some (tool_args_delta (int (length calls)) (JStr t))) (so_far env content (calls @ [(i, n, a)]) f u) =
     so_far env content (calls @ [(i, n, a @ t)]) f u"
proof -
  let ?d = "tool_args_delta (int (length calls)) (JStr t)"
  have calls: "opt_field (Some ?d) ''tool_calls'' = Some (JArr [more_call (int (length calls)) t])"
    by (simp add: tool_args_delta_def more_call_def jobj_def opt_field_def json_field_def)
  have rest: "is_object (Some ?d)" "opt_field (Some ?d) ''refusal'' = None" "opt_field (Some ?d) ''reasoning'' = None"
    "opt_field (Some ?d) ''reasoning_details'' = None" "opt_field (Some ?d) ''content'' = None"
    by (simp_all add: tool_args_delta_def jobj_def opt_field_def json_field_def is_object_def)
  show ?thesis
    by (subst add_delta [OF rest(1-4)]) (simp add: calls rest(5) array_of_def merge_last, rule so_far_update, simp)
qed

section \<open>Running a transformer into the accumulator\<close>

fun absorb :: "('s, 'x) transform \<Rightarrow> 'x list \<Rightarrow> 's \<times> accumulator \<Rightarrow> ('s \<times> accumulator) option" where
  "absorb step [] sa = Some sa"
| "absorb step (x # xs) sa =
     (case step x (fst sa) of
        None \<Rightarrow> None
      | Some (s1, out) \<Rightarrow> absorb step xs (s1, foldl acc_add (snd sa) (chunk_jsons out)))"

lemma absorb_append:
  "absorb step (xs @ ys) sa = (case absorb step xs sa of None \<Rightarrow> None | Some sb \<Rightarrow> absorb step ys sb)"
  by (induction xs arbitrary: sa) (auto split: option.split prod.split)

lemma chunk_jsons_simps [simp]:
  "chunk_jsons [] = []" "chunk_jsons (Chunk v # cs) = v # chunk_jsons cs" "chunk_jsons (DoneMark # cs) = chunk_jsons cs"
  "chunk_jsons (cs @ ds) = chunk_jsons cs @ chunk_jsons ds"
  by (simp_all add: chunk_jsons_def map_filter_simps, simp add: List.map_filter_def)

lemma absorbed_run:
  assumes "absorb step xs (s, a) = Some (s1, b)"
  shows "\<not> snd (run_transform step flush s xs)"
    "foldl acc_add a (chunk_jsons (fst (run_transform step flush s xs))) = foldl acc_add b (chunk_jsons (flush s1))"
proof -
  have "\<not> snd (run_transform step flush s xs) \<and>
    foldl acc_add a (chunk_jsons (fst (run_transform step flush s xs))) = foldl acc_add b (chunk_jsons (flush s1))"
    using assms
  proof (induction xs arbitrary: s a)
    case (Cons x xs)
    then obtain s2 out where x: "step x s = Some (s2, out)"
      and rest: "absorb step xs (s2, foldl acc_add a (chunk_jsons out)) = Some (s1, b)"
      by (auto split: option.splits prod.splits)
    from Cons.IH [OF rest] x show ?case by (simp add: case_prod_unfold Let_def)
  qed simp
  then show "\<not> snd (run_transform step flush s xs)"
    "foldl acc_add a (chunk_jsons (fst (run_transform step flush s xs))) = foldl acc_add b (chunk_jsons (flush s1))"
    by simp_all
qed

lemma run_filter:
  "(\<And>x s. \<not> P x \<Longrightarrow> step x s = Some (s, [])) \<Longrightarrow>
     run_transform step flush s xs = run_transform step flush s (filter P xs)"
  by (induction xs arbitrary: s) (auto split: option.split prod.split)

end
