(* ===== verification/AnthropicWire.thy ===== *)
theory AnthropicWire
  imports ProviderChunks
begin

text \<open>
  The Anthropic adapter of \<open>packages/providers/src/anthropic.ts\<close>: its stream transformer, which turns
  Messages events into canonical chunks, and the two field mappings \<open>mapToAnthropic\<close> and
  \<open>mapFromAnthropic\<close>. HTTP requests, the Files and the Batches passthrough are not modelled.

  What an event carries is passed on as it is, under the tests the code makes; a body of a whole reply is
  taken to have its declared type.
\<close>

section \<open>The stream\<close>

definition upstream_finish :: "jtext option \<Rightarrow> jtext option" where
  "upstream_finish reason =
     (if reason = Some (text_of ''end_turn'') \<or> reason = Some (text_of ''stop_sequence'') then Some (text_of ''stop'')
      else if reason = Some (text_of ''max_tokens'') then Some (text_of ''length'')
      else if reason = Some (text_of ''tool_use'') then Some (text_of ''tool_calls'')
      else None)"

record an_up =
  up_toolIndex :: int
  up_inToolBlock :: bool
  up_finishSent :: bool
  up_prompt :: "jtext json"
  up_completion :: "jtext json"

definition an_up_init :: an_up where
  "an_up_init = \<lparr>up_toolIndex = -1, up_inToolBlock = False, up_finishSent = False,
     up_prompt = JNum 0, up_completion = JNum 0\<rparr>"

text \<open>\<open>a?.b?.c\<close>.\<close>

definition at_path :: "jtext json \<Rightarrow> string list \<Rightarrow> jtext json option" where
  "at_path v ks = foldl opt_field (Some v) ks"

definition number_or :: "rat \<Rightarrow> jtext json option \<Rightarrow> rat" where
  "number_or d v = (case json_number v of Some n \<Rightarrow> n | None \<Rightarrow> d)"

definition an_up_env :: "jtext \<Rightarrow> int \<Rightarrow> chunk_env" where
  "an_up_env model created =
     \<lparr>ce_id = text_of ''chatcmpl-'' @ text_of (int_str created), ce_created = created, ce_model = model\<rparr>"

text \<open>One branch of the switch each.\<close>

definition up_block_start :: "chunk_env \<Rightarrow> jtext json \<Rightarrow> an_up \<Rightarrow> an_up \<times> canonical list" where
  "up_block_start env ev s =
     (if at_path ev [''content_block'', ''type''] = Some (jt ''tool_use'') then
        (let i = up_toolIndex s + 1
         in (s\<lparr>up_inToolBlock := True, up_toolIndex := i\<rparr>,
             [Chunk (provider_chunk env
                (tool_open_delta i (at_path ev [''content_block'', ''id'']) (at_path ev [''content_block'', ''name'']) (jt '''')) None)]))
      else (s, []))"

definition up_block_delta :: "chunk_env \<Rightarrow> jtext json \<Rightarrow> an_up \<Rightarrow> an_up \<times> canonical list" where
  "up_block_delta env ev s =
     (let ty = at_path ev [''delta'', ''type'']; t = at_path ev [''delta'', ''text'']
      in if ty = Some (jt ''text_delta'') \<and> js_truthy t
         then (s, [Chunk (provider_chunk env (text_delta (nullish t (jt ''''))) None)])
         else if ty = Some (jt ''input_json_delta'') \<and> up_inToolBlock s then
           (s, [Chunk (provider_chunk env
              (tool_args_delta (up_toolIndex s) (nullish (at_path ev [''delta'', ''partial_json'']) (jt ''''))) None)])
         else (s, []))"

definition up_message_delta :: "chunk_env \<Rightarrow> jtext json \<Rightarrow> an_up \<Rightarrow> an_up \<times> canonical list" where
  "up_message_delta env ev s =
     (let s1 = s\<lparr>up_completion := nullish (at_path ev [''usage'', ''output_tokens'']) (up_completion s)\<rparr>
      in case upstream_finish (json_string (at_path ev [''delta'', ''stop_reason''])) of
           Some r \<Rightarrow>
             if up_finishSent s1 then (s1, [])
             else (s1\<lparr>up_finishSent := True\<rparr>, [Chunk (provider_chunk env (jobj []) (Some r))])
         | None \<Rightarrow> (s1, []))"

definition up_message_stop :: "(rat \<Rightarrow> jtext) \<Rightarrow> chunk_env \<Rightarrow> an_up \<Rightarrow> an_up \<times> canonical list" where
  "up_message_stop num_text env s =
     (s\<lparr>up_finishSent := True\<rparr>,
      (if up_finishSent s then [] else [Chunk (provider_chunk env (jobj []) (Some (text_of ''stop'')))]) @
      [Chunk (provider_usage env (up_prompt s) (up_completion s)
         (js_plus num_text (up_prompt s) (up_completion s)))])"

text \<open>Reading a field of the event \<open>null\<close> throws.\<close>

definition an_up_event :: "(rat \<Rightarrow> jtext) \<Rightarrow> chunk_env \<Rightarrow> (an_up, jtext json) transform" where
  "an_up_event num_text env ev s =
     (let ty = opt_field (Some ev) ''type''
      in if ev = JNull then None
         else Some (
           if ty = Some (jt ''message_start'') then
             (s\<lparr>up_prompt := nullish (at_path ev [''message'', ''usage'', ''input_tokens'']) (up_prompt s)\<rparr>,
              [Chunk (provider_chunk env role_delta None)])
           else if ty = Some (jt ''content_block_start'') then up_block_start env ev s
           else if ty = Some (jt ''content_block_delta'') then up_block_delta env ev s
           else if ty = Some (jt ''content_block_stop'') then (s\<lparr>up_inToolBlock := False\<rparr>, [])
           else if ty = Some (jt ''message_delta'') then up_message_delta env ev s
           else if ty = Some (jt ''message_stop'') then up_message_stop num_text env s
           else (s, [])))"

text \<open>\<open>AnthropicSSETransformer\<close> over the lines of the body; the flag tells whether the stream failed.\<close>

definition anthropic_upstream :: "(rat \<Rightarrow> jtext) \<Rightarrow> jtext \<Rightarrow> int \<Rightarrow> jtext list \<Rightarrow> canonical list \<times> bool" where
  "anthropic_upstream num_text model created lines =
     run_transform (sse_step (an_up_event num_text (an_up_env model created))) (\<lambda>s. [DoneMark]) an_up_init lines"

section \<open>What Anthropic sends\<close>

text \<open>A reply: its content blocks, the text and the tool inputs cut into fragments, the reason it stopped
  and the tokens it took. Blocks of other kinds (thinking, server tools) are not for the gateway.\<close>

datatype reply_block =
    TextPart "jtext list"
  | ToolPart jtext jtext "jtext list"
  | OtherPart jtext

record reply =
  ry_blocks :: "reply_block list"
  ry_stop :: "jtext option"
  ry_input :: rat
  ry_output :: rat

text \<open>What the events of the Messages protocol say. An event may have any further members: the index of its
  block, the id, model, role and empty content of \<open>message_start\<close>, a stop sequence, cache token counts. A
  token count that is absent is zero.\<close>

definition type_is :: "jtext json \<Rightarrow> string \<Rightarrow> bool" where
  "type_is ev k \<longleftrightarrow> at_path ev [''type''] = Some (jt k)"

definition begins_message :: "reply \<Rightarrow> jtext json \<Rightarrow> bool" where
  "begins_message r ev \<longleftrightarrow> type_is ev ''message_start'' \<and>
     nullish (at_path ev [''message'', ''usage'', ''input_tokens'']) (JNum 0) = JNum (ry_input r)"

definition begins_call :: "jtext \<Rightarrow> jtext \<Rightarrow> jtext json \<Rightarrow> bool" where
  "begins_call i n ev \<longleftrightarrow> type_is ev ''content_block_start'' \<and>
     at_path ev [''content_block'', ''type''] = Some (jt ''tool_use'') \<and>
     at_path ev [''content_block'', ''id''] = Some (JStr i) \<and> at_path ev [''content_block'', ''name''] = Some (JStr n)"

definition adds_text :: "jtext \<Rightarrow> jtext json \<Rightarrow> bool" where
  "adds_text t ev \<longleftrightarrow> type_is ev ''content_block_delta'' \<and>
     at_path ev [''delta'', ''type''] = Some (jt ''text_delta'') \<and> at_path ev [''delta'', ''text''] = Some (JStr t)"

definition adds_json :: "jtext json \<Rightarrow> bool" where
  "adds_json ev \<longleftrightarrow> type_is ev ''content_block_delta'' \<and> at_path ev [''delta'', ''type''] = Some (jt ''input_json_delta'')"

definition adds_input :: "jtext \<Rightarrow> jtext json \<Rightarrow> bool" where
  "adds_input t ev \<longleftrightarrow> adds_json ev \<and> at_path ev [''delta'', ''partial_json''] = Some (JStr t)"

definition ends_block :: "jtext json \<Rightarrow> bool" where
  "ends_block ev \<longleftrightarrow> type_is ev ''content_block_stop''"

text \<open>Events that carry nothing of the reply: the start of a block that is no tool call, fragments of other
  kinds, and events of unknown types, such as pings.\<close>

definition idle_event :: "jtext json \<Rightarrow> bool" where
  "idle_event ev \<longleftrightarrow> ev \<noteq> JNull \<and>
     (if type_is ev ''content_block_start'' then at_path ev [''content_block'', ''type''] \<noteq> Some (jt ''tool_use'')
      else if type_is ev ''content_block_delta''
      then at_path ev [''delta'', ''type''] \<notin> {Some (jt ''text_delta''), Some (jt ''input_json_delta'')}
      else \<not> type_is ev ''message_start'' \<and> \<not> ends_block ev \<and> \<not> type_is ev ''message_delta'' \<and> \<not> type_is ev ''message_stop'')"

text \<open>The events of a block, idle ones aside; a text block may go without its end.\<close>

fun writes_block :: "reply_block \<Rightarrow> jtext json list \<Rightarrow> bool" where
  "writes_block (TextPart ts) evs \<longleftrightarrow>
     list_all2 adds_text ts (take (length ts) evs) \<and> list_all ends_block (drop (length ts) evs)"
| "writes_block (ToolPart i n ts) evs \<longleftrightarrow>
     (case evs of [] \<Rightarrow> False
      | ev # es \<Rightarrow> begins_call i n ev \<and> list_all2 adds_input ts (take (length ts) es) \<and>
          drop (length ts) es \<noteq> [] \<and> list_all ends_block (drop (length ts) es))"
| "writes_block (OtherPart ty) evs \<longleftrightarrow> list_all (\<lambda>ev. adds_json ev \<or> ends_block ev) evs"

text \<open>One or more \<open>message_delta\<close>: the last one has the reason, the last count that is given is the count.\<close>

definition stop_of :: "jtext json \<Rightarrow> jtext option" where
  "stop_of ev = json_string (at_path ev [''delta'', ''stop_reason''])"

definition counted :: "jtext json \<Rightarrow> jtext json list \<Rightarrow> jtext json" where
  "counted = foldl (\<lambda>n ev. nullish (at_path ev [''usage'', ''output_tokens'']) n)"

definition closes_message :: "reply \<Rightarrow> jtext json list \<Rightarrow> bool" where
  "closes_message r ds \<longleftrightarrow> ds \<noteq> [] \<and> list_all (\<lambda>ev. type_is ev ''message_delta'') ds \<and>
     list_all (\<lambda>ev. stop_of ev = None) (butlast ds) \<and> stop_of (last ds) = ry_stop r \<and>
     counted (JNum 0) ds = JNum (ry_output r)"

definition reply_events :: "reply \<Rightarrow> jtext json list \<Rightarrow> bool" where
  "reply_events r evs \<longleftrightarrow> (\<exists>ev blocks ds final. evs = ev # concat blocks @ ds @ [final] \<and>
     begins_message r ev \<and> list_all2 writes_block (ry_blocks r) blocks \<and> closes_message r ds \<and>
     type_is final ''message_stop'')"

fun block_text :: "reply_block \<Rightarrow> jtext" where
  "block_text (TextPart ts) = concat ts"
| "block_text _ = []"

fun block_call :: "reply_block \<Rightarrow> call_text option" where
  "block_call (ToolPart i n ts) = Some (i, n, concat ts)"
| "block_call _ = None"

definition reply_text :: "reply_block list \<Rightarrow> jtext" where
  "reply_text bs = concat (map block_text bs)"

definition reply_calls :: "reply_block list \<Rightarrow> call_text list" where
  "reply_calls bs = List.map_filter block_call bs"

definition reply_finish :: "reply \<Rightarrow> jtext" where
  "reply_finish r = (case upstream_finish (ry_stop r) of Some f \<Rightarrow> f | None \<Rightarrow> text_of ''stop'')"

definition reply_usage :: "reply \<Rightarrow> acc_usage" where
  "reply_usage r = \<lparr>au_prompt = ry_input r, au_completion = ry_output r, au_total = ry_input r + ry_output r\<rparr>"

section \<open>The reply is rebuilt\<close>

lemma jt_eq [simp]: "jt a = jt b \<longleftrightarrow> a = b"
  by (simp add: jt_def)

lemma at_path_simps [simp]:
  "at_path v [] = Some v"
  "at_path (jobj ms) (k # ks) = (case map_of ms k of Some x \<Rightarrow> at_path x ks | None \<Rightarrow> foldl opt_field None ks)"
proof -
  show "at_path v [] = Some v" by (simp add: at_path_def)
  have "map_of (map (\<lambda>(k, v). (text_of k, v)) ms) (text_of k) = map_of ms k"
    by (induction ms) auto
  then show "at_path (jobj ms) (k # ks) = (case map_of ms k of Some x \<Rightarrow> at_path x ks | None \<Rightarrow> foldl opt_field None ks)"
    by (simp add: at_path_def opt_field_def jobj_def json_field_def split: option.split)
qed

lemma field_path: "opt_field (Some v) k = at_path v [k]"
  by (simp add: at_path_def)

lemma is_object_jobj [simp]: "is_object (Some (jobj ms))"
  by (simp add: is_object_def jobj_def)

lemma jobj_not_null [simp]: "jobj ms \<noteq> JNull"
  by (simp add: jobj_def)

lemma type_is_jt: "type_is ev k \<Longrightarrow> type_is ev l \<longleftrightarrow> k = l"
  by (auto simp: type_is_def)

lemma type_is_object: "type_is ev k \<Longrightarrow> ev \<noteq> JNull"
  by (auto simp: type_is_def at_path_def opt_field_def json_field_def)

text \<open>The transformer's variables after \<open>k\<close> calls, not inside a block.\<close>

definition up_at :: "nat \<Rightarrow> bool \<Rightarrow> rat \<Rightarrow> an_up" where
  "up_at k tool prompt =
     \<lparr>up_toolIndex = int k - 1, up_inToolBlock = tool, up_finishSent = False, up_prompt = JNum prompt, up_completion = JNum 0\<rparr>"

abbreviation (input) takes ::
  "(rat \<Rightarrow> jtext) \<Rightarrow> chunk_env \<Rightarrow> jtext json list \<Rightarrow> an_up \<times> accumulator \<Rightarrow> (an_up \<times> accumulator) option" where
  "takes num_text env \<equiv> absorb (an_up_event num_text env)"

text \<open>The branch an event takes.\<close>

lemma event_branches:
  "type_is ev ''message_start'' \<Longrightarrow> an_up_event num_text env ev s =
     Some (s\<lparr>up_prompt := nullish (at_path ev [''message'', ''usage'', ''input_tokens'']) (up_prompt s)\<rparr>,
       [Chunk (provider_chunk env role_delta None)])"
  "type_is ev ''content_block_start'' \<Longrightarrow> an_up_event num_text env ev s = Some (up_block_start env ev s)"
  "type_is ev ''content_block_delta'' \<Longrightarrow> an_up_event num_text env ev s = Some (up_block_delta env ev s)"
  "ends_block ev \<Longrightarrow> an_up_event num_text env ev s = Some (s\<lparr>up_inToolBlock := False\<rparr>, [])"
  "type_is ev ''message_delta'' \<Longrightarrow> an_up_event num_text env ev s = Some (up_message_delta env ev s)"
  "type_is ev ''message_stop'' \<Longrightarrow> an_up_event num_text env ev s = Some (up_message_stop num_text env s)"
  unfolding ends_block_def
  by (frule type_is_object, simp add: an_up_event_def field_path type_is_def)+

lemma idle_skipped: "idle_event ev \<Longrightarrow> an_up_event num_text env ev s = Some (s, [])"
  by (auto simp: idle_event_def an_up_event_def field_path type_is_def ends_block_def up_block_start_def up_block_delta_def
      split: if_splits)

lemma takes_start:
  "begins_message r ev \<Longrightarrow>
     takes num_text env [ev] (an_up_init, acc_new) = Some (up_at 0 False (ry_input r), so_far env [] [] None None)"
  by (simp add: begins_message_def event_branches up_at_def an_up_init_def add_first_chunk add_role truthy_text_def)

lemma takes_ends:
  "list_all ends_block evs \<Longrightarrow>
     takes num_text env evs (up_at k b p, a) = Some (up_at k (b \<and> evs = []) p, a)"
proof (induction evs arbitrary: b)
  case (Cons ev evs)
  from Cons.prems Cons.IH [of False] show ?case
    by (simp add: event_branches) (simp add: up_at_def)
qed simp

lemma takes_text:
  "list_all2 adds_text ts evs \<Longrightarrow>
     takes num_text env evs (up_at k b p, so_far env c cs f u) = Some (up_at k b p, so_far env (c @ concat ts) cs f u)"
proof (induction arbitrary: c rule: list_all2_induct)
  case (Cons t ts ev evs)
  then have "an_up_event num_text env ev (up_at k b p) =
      Some (up_at k b p, if t = [] then [] else [Chunk (provider_chunk env (text_delta (JStr t)) None)])"
    by (simp add: adds_text_def event_branches up_block_delta_def)
  with Cons.IH [of c] Cons.IH [of "c @ t"] show ?case
    by (simp add: add_chunk add_text truthy_text_def or_else_def)
qed simp

lemma takes_input:
  "list_all2 adds_input ts evs \<Longrightarrow>
     takes num_text env evs (up_at (Suc (length cs)) True p, so_far env c (cs @ [(i, nm, a)]) f u) =
     Some (up_at (Suc (length cs)) True p, so_far env c (cs @ [(i, nm, a @ concat ts)]) f u)"
proof (induction arbitrary: a rule: list_all2_induct)
  case (Cons t ts ev evs)
  then have "an_up_event num_text env ev (up_at (Suc (length cs)) True p) =
      Some (up_at (Suc (length cs)) True p, [Chunk (provider_chunk env (tool_args_delta (int (length cs)) (JStr t)) None)])"
    by (simp add: adds_input_def adds_json_def event_branches up_block_delta_def) (simp add: up_at_def)
  with Cons.IH [of "a @ t"] show ?case
    by (simp add: add_chunk add_tool_args truthy_text_def or_else_def)
qed simp

lemma takes_foreign:
  "list_all (\<lambda>ev. adds_json ev \<or> ends_block ev) evs \<Longrightarrow>
     takes num_text env evs (up_at k False p, a) = Some (up_at k False p, a)"
proof (induction evs)
  case (Cons ev evs)
  then have "an_up_event num_text env ev (up_at k False p) = Some (up_at k False p, [])"
    by (auto simp: adds_json_def event_branches up_block_delta_def) (simp_all add: up_at_def)
  with Cons show ?case by simp
qed simp

lemma takes_block:
  assumes "writes_block b evs"
  shows "takes num_text env evs (up_at (length cs) False p, so_far env c cs f u) =
    Some (up_at (length (cs @ reply_calls [b])) False p, so_far env (c @ block_text b) (cs @ reply_calls [b]) f u)"
proof (cases b)
  case (TextPart ts)
  have evs: "evs = take (length ts) evs @ drop (length ts) evs" by simp
  from assms TextPart have parts: "list_all2 adds_text ts (take (length ts) evs)" "list_all ends_block (drop (length ts) evs)"
    by simp_all
  show ?thesis
    by (subst evs, subst absorb_append)
      (simp add: TextPart takes_text [OF parts(1)] takes_ends [OF parts(2)] reply_calls_def map_filter_simps)
next
  case (ToolPart i nm ts)
  then obtain ev es where evs: "evs = ev # es" "begins_call i nm ev" "list_all2 adds_input ts (take (length ts) es)"
      "drop (length ts) es \<noteq> []" "list_all ends_block (drop (length ts) es)"
    using assms by (cases evs) auto
  have first: "an_up_event num_text env ev (up_at (length cs) False p) =
      Some (up_at (Suc (length cs)) True p,
        [Chunk (provider_chunk env (tool_open_delta (int (length cs)) (Some (JStr i)) (Some (JStr nm)) (JStr [])) None)])"
    using evs(2) by (simp add: begins_call_def event_branches up_block_start_def up_at_def Let_def jt_def text_of_def)
  have es: "es = take (length ts) es @ drop (length ts) es" by simp
  have "takes num_text env es (up_at (Suc (length cs)) True p, so_far env c (cs @ [(i, nm, [])]) f u) =
      Some (up_at (Suc (length cs)) False p, so_far env c (cs @ [(i, nm, concat ts)]) f u)"
    using takes_input [OF evs(3), of num_text env cs p c i nm "[]" f u] evs(4)
    by (subst es, subst absorb_append) (simp add: takes_ends [OF evs(5)])
  then show ?thesis
    by (simp add: evs(1) first ToolPart reply_calls_def map_filter_simps add_chunk add_tool_open truthy_text_def or_else_def)
next
  case (OtherPart ty)
  with assms show ?thesis
    by (simp add: takes_foreign reply_calls_def map_filter_simps)
qed

lemma takes_blocks:
  assumes "list_all2 writes_block bs blocks"
  shows "takes num_text env (concat blocks) (up_at (length cs) False p, so_far env c cs f u) =
    Some (up_at (length (cs @ reply_calls bs)) False p, so_far env (c @ reply_text bs) (cs @ reply_calls bs) f u)"
  using assms
proof (induction arbitrary: c cs rule: list_all2_induct)
  case (Cons b bs evs blocks)
  have "reply_calls (b # bs) = reply_calls [b] @ reply_calls bs" "reply_text (b # bs) = block_text b @ reply_text bs"
    by (simp_all add: reply_calls_def reply_text_def map_filter_simps split: option.split)
  with takes_block [OF Cons.hyps(1), of num_text env cs p c f u]
    Cons.IH [of "cs @ reply_calls [b]" "c @ block_text b"] show ?case by (simp add: absorb_append)
qed (simp add: reply_calls_def reply_text_def map_filter_simps)

lemma takes_counts:
  "list_all (\<lambda>ev. type_is ev ''message_delta'') ds \<Longrightarrow> list_all (\<lambda>ev. stop_of ev = None) ds \<Longrightarrow>
     takes num_text env ds (s, a) = Some (s\<lparr>up_completion := counted (up_completion s) ds\<rparr>, a)"
proof (induction ds arbitrary: s)
  case (Cons ev ds)
  then have "an_up_event num_text env ev s =
      Some (s\<lparr>up_completion := nullish (at_path ev [''usage'', ''output_tokens'']) (up_completion s)\<rparr>, [])"
    by (simp add: event_branches up_message_delta_def stop_of_def upstream_finish_def)
  with Cons show ?case by (simp add: counted_def)
qed (simp add: counted_def)

lemma takes_closing:
  assumes "closes_message r ds" "type_is final ''message_stop''"
  shows "\<exists>s. takes num_text env (ds @ [final]) (up_at k False (ry_input r), so_far env c cs None u) =
     Some (s, so_far env c cs (Some (reply_finish r)) (Some (reply_usage r)))"
proof -
  have finish: "upstream_finish t = Some f \<Longrightarrow> f \<noteq> []" for t f
    by (auto simp: upstream_finish_def text_of_def split: if_splits)
  obtain d early where ds: "ds = early @ [d]" using assms(1) by (cases ds rule: rev_cases) (auto simp: closes_message_def)
  with assms(1) have d: "list_all (\<lambda>ev. type_is ev ''message_delta'') early" "list_all (\<lambda>ev. stop_of ev = None) early"
      "type_is d ''message_delta''" "stop_of d = ry_stop r"
      "nullish (at_path d [''usage'', ''output_tokens'']) (counted (JNum 0) early) = JNum (ry_output r)"
    by (simp_all add: closes_message_def, simp_all add: counted_def)
  show ?thesis
    using finish [of "ry_stop r"] d(3-5)
    by (cases "upstream_finish (ry_stop r)")
      (simp_all add: ds absorb_append takes_counts [OF d(1,2)] event_branches assms(2) up_message_delta_def up_message_stop_def
        stop_of_def up_at_def add_chunk add_empty add_usage truthy_text_def or_else_def reply_finish_def reply_usage_def text_of_def)
qed

lemma takes_reply:
  assumes "reply_events r evs"
  shows "\<exists>s. takes num_text env evs (an_up_init, acc_new) =
    Some (s, so_far env (reply_text (ry_blocks r)) (reply_calls (ry_blocks r)) (Some (reply_finish r)) (Some (reply_usage r)))"
proof -
  obtain ev blocks ds final where evs: "evs = [ev] @ concat blocks @ ds @ [final]" "begins_message r ev"
      "list_all2 writes_block (ry_blocks r) blocks" "closes_message r ds" "type_is final ''message_stop''"
    using assms by (auto simp: reply_events_def)
  show ?thesis
    using takes_blocks [OF evs(3), of num_text env "[]" "ry_input r" "[]" None None]
      takes_closing [OF evs(4,5), of num_text env "length (reply_calls (ry_blocks r))" "reply_text (ry_blocks r)"
        "reply_calls (ry_blocks r)" None]
    by (simp only: evs(1) absorb_append takes_start [OF evs(2)] option.case list.size append_Nil)
qed

lemma reply_is_rebuilt:
  assumes "reply_events r (filter (\<lambda>ev. \<not> idle_event ev) (List.map_filter data_event lines))"
  shows "\<not> snd (anthropic_upstream num_text model created lines) \<and>
    accumulated (fst (anthropic_upstream num_text model created lines)) =
      reply_message (an_up_env model created) (reply_text (ry_blocks r)) (reply_calls (ry_blocks r))
        (Some (reply_finish r)) (Some (reply_usage r))"
proof -
  let ?env = "an_up_env model created"
  let ?evs = "filter (\<lambda>ev. \<not> idle_event ev) (List.map_filter data_event lines)"
  have run: "anthropic_upstream num_text model created lines =
      run_transform (an_up_event num_text ?env) (\<lambda>s. [DoneMark]) an_up_init ?evs"
    unfolding anthropic_upstream_def run_sse by (rule run_filter) (simp add: idle_skipped)
  from takes_reply [OF assms] obtain s where "absorb (an_up_event num_text ?env) ?evs (an_up_init, acc_new) =
    Some (s, so_far ?env (reply_text (ry_blocks r)) (reply_calls (ry_blocks r)) (Some (reply_finish r)) (Some (reply_usage r)))"
    by blast
  note absorbed_run [OF this, of "\<lambda>s. [DoneMark]"]
  then show ?thesis by (simp add: run accumulated_def so_far_result)
qed

text \<open>C38: A reply that Anthropic streams is the message the gateway's accumulator rebuilds from the
  canonical stream. The events are those of the Messages protocol, from \<open>message_start\<close> to
  \<open>message_stop\<close>, with whatever further members they have, texts and tool inputs cut into fragments in any
  way, one or more \<open>message_delta\<close>, and blocks of other kinds, pings and unknown events anywhere. The
  accumulator then holds the whole text, the tool calls in order with their ids, names and argument texts,
  the mapped finish reason and the token counts, and the stream does not fail.\<close>

theorem anthropic_reply_rebuilt:
  assumes "reply_events r (filter (\<lambda>ev. \<not> idle_event ev) (List.map_filter data_event lines))"
  shows "\<not> snd (anthropic_upstream num_text model created lines) \<and>
    accumulated (fst (anthropic_upstream num_text model created lines)) =
      reply_message (an_up_env model created) (reply_text (ry_blocks r)) (reply_calls (ry_blocks r))
        (Some (reply_finish r)) (Some (reply_usage r))"
  by (rule reply_is_rebuilt [OF assms])

section \<open>Requests\<close>

text \<open>A null part throws.\<close>

definition contentToText :: "jtext json \<Rightarrow> jtext option" where
  "contentToText m =
     (case opt_field (Some m) ''content'' of
        Some (JStr t) \<Rightarrow> Some t
      | Some (JArr ps) \<Rightarrow>
          if JNull \<in> set ps then None
          else Some (concat (map (\<lambda>p. text_value (opt_field (Some p) ''text'')) ps))
      | _ \<Rightarrow> Some [])"

text \<open>\<open>url.match(/^data:([^;,]+);base64,(.*)$/s)\<close>.\<close>

definition data_url :: "jtext \<Rightarrow> (jtext \<times> jtext) option" where
  "data_url url =
     (let r = drop 5 url; media = takeWhile (\<lambda>c. c \<noteq> 59 \<and> c \<noteq> 44) r; rest = drop (length media) r
      in if take 5 url = text_of ''data:'' \<and> media \<noteq> [] \<and> take 8 rest = text_of '';base64,''
         then Some (media, drop 8 rest) else None)"

definition http_url :: "jtext \<Rightarrow> bool" where
  "http_url url \<longleftrightarrow> take 7 url = text_of ''http://'' \<or> take 8 url = text_of ''https://''"

definition part_url :: "(rat \<Rightarrow> jtext) \<Rightarrow> jtext json \<Rightarrow> jtext" where
  "part_url num_text p =
     (case opt_field (Some p) ''image_url'' of
        Some (JStr u) \<Rightarrow> u
      | iu \<Rightarrow> (case nullish_or (opt_field iu ''url'') None of Some v \<Rightarrow> js_to_string num_text v | None \<Rightarrow> []))"

definition text_block :: "jtext \<Rightarrow> jtext json" where
  "text_block t = jobj [(''type'', jt ''text''), (''text'', JStr t)]"

definition image_block :: "(string \<times> jtext json) list \<Rightarrow> jtext json" where
  "image_block source = jobj [(''type'', jt ''image''), (''source'', jobj source)]"

definition part_blocks :: "(rat \<Rightarrow> jtext) \<Rightarrow> jtext json \<Rightarrow> jtext json list" where
  "part_blocks num_text p =
     (if opt_field (Some p) ''type'' = Some (jt ''image_url'') then
        (let url = part_url num_text p
         in case data_url url of
              Some (media, data) \<Rightarrow>
                [image_block [(''type'', jt ''base64''), (''media_type'', JStr media), (''data'', JStr data)]]
            | None \<Rightarrow>
                if http_url url then [image_block [(''type'', jt ''url''), (''url'', JStr url)]] else [])
      else let t = text_value (opt_field (Some p) ''text'') in if t \<noteq> [] then [text_block t] else [])"

definition contentToBlocks :: "(rat \<Rightarrow> jtext) \<Rightarrow> jtext json option \<Rightarrow> jtext json option" where
  "contentToBlocks num_text content =
     (case content of
        Some (JStr t) \<Rightarrow> Some (JStr t)
      | Some (JArr ps) \<Rightarrow>
          if JNull \<in> set ps then None
          else (let blocks = concat (map (part_blocks num_text) ps)
                in Some (if blocks \<noteq> [] then JArr blocks else jt ''''))
      | _ \<Rightarrow> Some (jt ''''))"

definition mapToolChoice :: "jtext json option \<Rightarrow> jtext json option" where
  "mapToolChoice choice =
     (if choice = Some (jt ''auto'') then Some (jobj [(''type'', jt ''auto'')])
      else if choice = Some (jt ''required'') then Some (jobj [(''type'', jt ''any'')])
      else if choice = Some (jt ''none'') then Some (jobj [(''type'', jt ''none'')])
      else if opt_field choice ''type'' = Some (jt ''function'') then
        map_option (\<lambda>n. jobj [(''type'', jt ''tool''), (''name'', JStr n)])
          (json_string (opt_field (opt_field choice ''function'') ''name''))
      else None)"

definition tool_use_block :: "jtext \<Rightarrow> jtext \<Rightarrow> jtext json \<Rightarrow> jtext json" where
  "tool_use_block i n input =
     jobj [(''type'', jt ''tool_use''), (''id'', JStr i), (''name'', JStr n), (''input'', input)]"

text \<open>\<open>JSON.parse(arguments || "{}")\<close>, and an empty object when that throws.\<close>

definition call_input :: "jtext \<Rightarrow> jtext json" where
  "call_input args =
     (case json_parse (if args = [] then text_of ''{}'' else args) of Some v \<Rightarrow> v | None \<Rightarrow> JObj [])"

definition call_block :: "tool_call \<Rightarrow> jtext json" where
  "call_block c = tool_use_block (tl_id c) (tl_name c) (call_input (tl_arguments c))"

text \<open>The Anthropic message of one message, if it has one; the outer option tells a throw.\<close>

definition an_message :: "(rat \<Rightarrow> jtext) \<Rightarrow> jtext json \<Rightarrow> jtext json list option" where
  "an_message num_text m =
     (let role = json_string (opt_field (Some m) ''role'')
      in if role = Some (text_of ''system'') \<or> role = Some (text_of ''function'') then Some []
         else if role = Some (text_of ''tool'') then
           map_option (\<lambda>t. [jobj [(''role'', jt ''user''),
             (''content'', JArr [jobj ((''type'', jt ''tool_result'') #
                opt_member ''tool_use_id'' (opt_field (Some m) ''tool_call_id'') @ [(''content'', JStr t)])])]])
             (contentToText m)
         else if role = Some (text_of ''assistant'') \<and> array_of (opt_field (Some m) ''tool_calls'') \<noteq> [] then
           map_option (\<lambda>t. [jobj [(''role'', jt ''assistant''),
             (''content'', JArr ((if t \<noteq> [] then [text_block t] else []) @ map call_block (message_calls m)))]])
             (contentToText m)
         else map_option (\<lambda>c. [jobj [(''role'', if role = Some (text_of ''user'') then jt ''user'' else jt ''assistant''),
             (''content'', c)]]) (contentToBlocks num_text (opt_field (Some m) ''content'')))"

record completion_request =
  cq_model :: jtext
  cq_messages :: "jtext json list"
  cq_max_tokens :: "rat option"
  cq_stream :: "bool option"
  cq_temperature :: "rat option"
  cq_top_p :: "rat option"
  cq_stop :: "jtext json option"
  cq_tools :: "jtext json list option"
  cq_tool_choice :: "jtext json option"

definition an_tool_spec :: "jtext json \<Rightarrow> jtext json option" where
  "an_tool_spec t =
     (if t = JNull then None
      else let fn = nullish_or (opt_field (Some t) ''function'') (Some t)
           in Some (jobj (opt_member ''name'' (opt_field fn ''name'') @ opt_member ''description'' (opt_field fn ''description'') @
                opt_member ''input_schema'' (nullish_or (opt_field fn ''parameters'') (Some (jobj [(''type'', jt ''object'')]))))))"

definition join_lines :: "jtext list \<Rightarrow> jtext" where
  "join_lines ts = (case ts of [] \<Rightarrow> [] | t # rest \<Rightarrow> t @ concat (map (\<lambda>x. 10 # x) rest))"

definition mapToAnthropic :: "(rat \<Rightarrow> jtext) \<Rightarrow> completion_request \<Rightarrow> jtext json option" where
  "mapToAnthropic num_text req =
     (let is_system = (\<lambda>m. json_string (opt_field (Some m) ''role'') = Some (text_of ''system''))
      in case (those (map contentToText (filter is_system (cq_messages req))),
               those (map (an_message num_text) (cq_messages req)),
               case cq_tools req of None \<Rightarrow> Some None | Some ts \<Rightarrow> map_option Some (those (map an_tool_spec ts))) of
           (Some system, Some messages, Some tools) \<Rightarrow>
             Some (jobj
               ([(''model'', JStr (cq_model req))] @
                opt_member ''system'' (if join_lines system = [] then None else Some (JStr (join_lines system))) @
                [(''messages'', JArr (concat messages)),
                 (''max_tokens'', JNum (case cq_max_tokens req of Some n \<Rightarrow> n | None \<Rightarrow> 1024))] @
                opt_member ''stream'' (map_option JBool (cq_stream req)) @
                opt_member ''temperature'' (map_option JNum (cq_temperature req)) @
                opt_member ''top_p'' (map_option JNum (cq_top_p req)) @
                opt_member ''stop_sequences''
                  (map_option (\<lambda>v. case v of JArr vs \<Rightarrow> JArr vs | _ \<Rightarrow> JArr [v]) (cq_stop req)) @
                opt_member ''tools'' (map_option JArr tools) @
                opt_member ''tool_choice''
                  (case tools of Some (t # ts) \<Rightarrow> mapToolChoice (cq_tool_choice req) | _ \<Rightarrow> None)))
         | _ \<Rightarrow> None)"

section \<open>Whole replies\<close>

record response_body =
  rb_id :: "jtext option"
  rb_model :: "jtext option"
  rb_content :: "jtext json list"
  rb_stop_reason :: "jtext option"
  rb_input_tokens :: "rat option"
  rb_output_tokens :: "rat option"

text \<open>The call blocks of a reply in order, each with its position among them.\<close>

definition is_text_block :: "jtext json \<Rightarrow> bool" where
  "is_text_block b \<longleftrightarrow> opt_field (Some b) ''type'' = Some (jt ''text'') \<and> json_string (opt_field (Some b) ''text'') \<noteq> None"

definition is_tool_block :: "jtext json \<Rightarrow> bool" where
  "is_tool_block b \<longleftrightarrow> \<not> is_text_block b \<and> opt_field (Some b) ''type'' = Some (jt ''tool_use'')"

definition string_or :: "(rat \<Rightarrow> jtext) \<Rightarrow> jtext \<Rightarrow> jtext json option \<Rightarrow> jtext" where
  "string_or num_text d v = (case nullish_or v None of Some x \<Rightarrow> js_to_string num_text x | None \<Rightarrow> d)"

definition from_tool_block :: "(rat \<Rightarrow> jtext) \<Rightarrow> nat \<Rightarrow> jtext json \<Rightarrow> jtext json" where
  "from_tool_block num_text n b =
     jobj [(''id'', JStr (string_or num_text (text_of ''call_'' @ text_of (nat_str n)) (opt_field (Some b) ''id''))),
       (''type'', jt ''function''),
       (''function'', jobj [(''name'', JStr (string_or num_text [] (opt_field (Some b) ''name''))),
          (''arguments'', JStr (json_stringify num_text
             (case nullish_or (opt_field (Some b) ''input'') None of Some v \<Rightarrow> v | None \<Rightarrow> JObj [])))])]"

definition from_message :: "(rat \<Rightarrow> jtext) \<Rightarrow> jtext json list \<Rightarrow> jtext json" where
  "from_message num_text content =
     (let texts = map (\<lambda>b. text_value (opt_field (Some b) ''text'')) (filter is_text_block content);
          calls = map (\<lambda>(n, b). from_tool_block num_text n b) (enumerate 0 (filter is_tool_block content))
      in jobj ([(''role'', jt ''assistant''), (''content'', if texts \<noteq> [] then JStr (concat texts) else JNull)] @
           (if calls \<noteq> [] then [(''tool_calls'', JArr calls)] else [])))"

definition mapFromAnthropic :: "(rat \<Rightarrow> jtext) \<Rightarrow> response_body \<Rightarrow> jtext \<Rightarrow> int \<Rightarrow> jtext json" where
  "mapFromAnthropic num_text body requestModel created =
     (let p = (case rb_input_tokens body of Some n \<Rightarrow> n | None \<Rightarrow> 0);
          c = (case rb_output_tokens body of Some n \<Rightarrow> n | None \<Rightarrow> 0)
      in jobj
        [(''id'', JStr (text_of ''chatcmpl-'' @ (case rb_id body of Some i \<Rightarrow> i | None \<Rightarrow> text_of (int_str created)))),
         (''object'', jt ''chat.completion''), (''created'', JNum (of_int created)),
         (''model'', JStr (case rb_model body of Some m \<Rightarrow> m | None \<Rightarrow> requestModel)),
         (''choices'', JArr [jobj [(''index'', JNum 0), (''message'', from_message num_text (rb_content body)),
            (''finish_reason'', JStr (case upstream_finish (rb_stop_reason body) of Some f \<Rightarrow> f | None \<Rightarrow> text_of ''stop''))]]),
         (''usage'', jobj [(''prompt_tokens'', JNum p), (''completion_tokens'', JNum c), (''total_tokens'', JNum (p + c))])])"

text \<open>The body of a reply that is not streamed: its blocks, with parsed tool inputs.\<close>

definition whole_block :: "(rat \<Rightarrow> jtext) \<Rightarrow> reply_block \<Rightarrow> jtext json \<Rightarrow> bool" where
  "whole_block num_text b j =
     (case b of
        TextPart ts \<Rightarrow> j = text_block (concat ts)
      | ToolPart i n ts \<Rightarrow> (\<exists>v. v \<noteq> JNull \<and> j = tool_use_block i n v \<and> concat ts = json_stringify num_text v)
      | OtherPart ty \<Rightarrow> opt_field (Some j) ''type'' = Some (JStr ty) \<and> ty \<notin> {text_of ''text'', text_of ''tool_use''})"

lemma block_kinds:
  "is_text_block (text_block t)" "\<not> is_tool_block (text_block t)"
  "\<not> is_text_block (tool_use_block i n v)" "is_tool_block (tool_use_block i n v)"
  by (simp_all add: is_text_block_def is_tool_block_def text_block_def tool_use_block_def field_path)

lemma other_kind:
  "opt_field (Some j) ''type'' = Some (JStr ty) \<Longrightarrow> ty \<notin> {text_of ''text'', text_of ''tool_use''} \<Longrightarrow>
     \<not> is_text_block j \<and> \<not> is_tool_block j"
  by (simp add: is_text_block_def is_tool_block_def jt_def)

lemma from_tool_use:
  "v \<noteq> JNull \<Longrightarrow> parse_tool_call (from_tool_block num_text k (tool_use_block i n v)) =
     Some \<lparr>tl_id = i, tl_name = n, tl_arguments = json_stringify num_text v\<rparr>"
  by (cases v)
    (simp_all add: parse_tool_call_def from_tool_block_def string_or_def tool_use_block_def field_path nullish_or_def jt_def)

lemma from_message_fields:
  "text_value (opt_field (Some (from_message num_text content)) ''content'') =
     concat (map (\<lambda>b. text_value (opt_field (Some b) ''text'')) (filter is_text_block content))"
  "array_of (opt_field (Some (from_message num_text content)) ''tool_calls'') =
     map (\<lambda>(n, b). from_tool_block num_text n b) (enumerate 0 (filter is_tool_block content))"
  "opt_field (Some (from_message num_text content)) ''role'' = Some (jt ''assistant'')"
  by (auto simp: from_message_def field_path Let_def text_value_def json_string_def array_of_def filter_empty_conv)

lemma whole_text:
  "list_all2 (whole_block num_text) bs content \<Longrightarrow>
     concat (map (\<lambda>b. text_value (opt_field (Some b) ''text'')) (filter is_text_block content)) = reply_text bs"
proof (induction rule: list_all2_induct)
  case (Cons b bs j js)
  show ?case
  proof (cases b)
    case (TextPart ts)
    with Cons.hyps(1) have "j = text_block (concat ts)" by (simp add: whole_block_def)
    moreover have "text_value (opt_field (Some (text_block t)) ''text'') = t" for t
      by (simp add: text_block_def field_path)
    ultimately show ?thesis using Cons.IH TextPart by (simp add: block_kinds reply_text_def)
  next
    case (ToolPart i n ts)
    with Cons.hyps(1) obtain v where "j = tool_use_block i n v" by (auto simp: whole_block_def)
    with Cons.IH ToolPart show ?thesis by (simp add: block_kinds reply_text_def)
  next
    case (OtherPart ty)
    with Cons.hyps(1) have "\<not> is_text_block j" using other_kind [of j ty] by (simp add: whole_block_def)
    with Cons.IH OtherPart show ?thesis by (simp add: reply_text_def)
  qed
qed (simp add: reply_text_def)

lemma whole_calls:
  "list_all2 (whole_block num_text) bs content \<Longrightarrow>
     List.map_filter parse_tool_call (map (\<lambda>(n, b). from_tool_block num_text n b) (enumerate k (filter is_tool_block content))) =
       map (\<lambda>(i, n, a). \<lparr>tl_id = i, tl_name = n, tl_arguments = a\<rparr>) (reply_calls bs)"
proof (induction arbitrary: k rule: list_all2_induct)
  case (Cons b bs j js)
  show ?case
  proof (cases b)
    case (ToolPart i n ts)
    with Cons.hyps(1) obtain v where "v \<noteq> JNull" "j = tool_use_block i n v" "concat ts = json_stringify num_text v"
      by (auto simp: whole_block_def)
    then show ?thesis
      using Cons.IH [of "Suc k"] ToolPart by (simp add: block_kinds map_filter_simps from_tool_use reply_calls_def)
  qed (use Cons in \<open>auto simp: whole_block_def block_kinds reply_calls_def map_filter_simps dest: other_kind\<close>)
qed (simp add: reply_calls_def map_filter_simps)

lemma whole_message_calls:
  "list_all2 (whole_block num_text) bs content \<Longrightarrow>
     message_calls (from_message num_text content) =
       map (\<lambda>(i, n, a). \<lparr>tl_id = i, tl_name = n, tl_arguments = a\<rparr>) (reply_calls bs)"
  by (simp add: message_calls_def from_message_fields whole_calls)

lemma whole_fields:
  "first_choice (mapFromAnthropic num_text body model created) =
     Some (jobj [(''index'', JNum 0), (''message'', from_message num_text (rb_content body)),
       (''finish_reason'', JStr (case upstream_finish (rb_stop_reason body) of Some f \<Rightarrow> f | None \<Rightarrow> text_of ''stop''))])"
  "opt_field (Some (mapFromAnthropic num_text body model created)) ''usage'' =
     (let p = (case rb_input_tokens body of Some n \<Rightarrow> n | None \<Rightarrow> 0);
          c = (case rb_output_tokens body of Some n \<Rightarrow> n | None \<Rightarrow> 0)
      in Some (jobj [(''prompt_tokens'', JNum p), (''completion_tokens'', JNum c), (''total_tokens'', JNum (p + c))]))"
  by (simp_all add: mapFromAnthropic_def Let_def first_choice_def field_path)

text \<open>A client sees the same answer whether it streams or not: for one reply, the message rebuilt from
  the canonical stream and the message of the whole response have the same text, the same tool calls
  (id, name and argument text), the same finish reason and the same token counts. The fragments of a
  tool input are taken to spell its JSON text.\<close>

theorem streamed_and_whole_agree:
  assumes "reply_events r (filter (\<lambda>ev. \<not> idle_event ev) (List.map_filter data_event lines))"
    "list_all2 (whole_block num_text) (ry_blocks r) (rb_content body)"
    "rb_stop_reason body = ry_stop r" "rb_input_tokens body = Some (ry_input r)" "rb_output_tokens body = Some (ry_output r)"
  shows "let streamed = accumulated (fst (anthropic_upstream num_text model created lines));
             whole = mapFromAnthropic num_text body model created;
             message = opt_field (first_choice whole) ''message''
         in text_value (opt_field message ''content'') = ms_content streamed \<and>
            map_option message_calls message =
              Some (map (\<lambda>(i, n, a). \<lparr>tl_id = i, tl_name = n, tl_arguments = a\<rparr>) (reply_calls (ry_blocks r))) \<and>
            ms_tool_calls streamed = numbered (reply_calls (ry_blocks r)) \<and>
            json_string (opt_field (first_choice whole) ''finish_reason'') = ms_finish_reason streamed \<and>
            captureUsage (opt_field (Some whole) ''usage'') None = ms_usage streamed"
proof -
  note rebuilt = reply_is_rebuilt [OF assms(1), THEN conjunct2]
  have usage: "captureUsage (Some (jobj [(''prompt_tokens'', JNum p), (''completion_tokens'', JNum c), (''total_tokens'', JNum t)])) None =
      Some \<lparr>au_prompt = p, au_completion = c, au_total = t\<rparr>" for p c t
    by (simp add: captureUsage_def field_path Let_def)
  show ?thesis
    by (simp add: rebuilt Let_def whole_fields whole_fields(2) [unfolded field_path] field_path whole_message_calls [OF assms(2)] reply_message_def assms(3-5)
        from_message_fields [unfolded field_path] whole_text [OF assms(2), unfolded field_path] reply_finish_def usage reply_usage_def)
qed

section \<open>Histories\<close>

lemma stringify_nonempty:
  assumes "renders_integers num_text" "plain_json v"
  shows "json_stringify num_text v \<noteq> []"
  using stringify_opens [OF assms] by (auto simp: opens_value_def)

lemma input_roundtrip:
  "renders_integers num_text \<Longrightarrow> plain_json v \<Longrightarrow> call_input (json_stringify num_text v) = v"
  by (simp add: call_input_def stringify_nonempty json_roundtrip)

definition good_tool_block :: "jtext json \<Rightarrow> bool" where
  "good_tool_block b \<longleftrightarrow> (\<exists>i n v. b = tool_use_block i n v \<and> v \<noteq> JNull \<and> plain_json v)"

lemma calls_back:
  assumes "renders_integers num_text" "list_all good_tool_block bs"
  shows "map call_block (List.map_filter parse_tool_call (map (\<lambda>(n, b). from_tool_block num_text n b) (enumerate k bs))) = bs"
  using assms(2)
proof (induction bs arbitrary: k)
  case (Cons b bs)
  then obtain i n v where b: "b = tool_use_block i n v" "v \<noteq> JNull" "plain_json v"
    by (auto simp: good_tool_block_def)
  with Cons show ?case
    by (simp add: map_filter_simps from_tool_use call_block_def input_roundtrip [OF assms(1)])
qed (simp add: map_filter_simps)

lemma assistant_message_back:
  assumes "renders_integers num_text" "list_all good_tool_block (filter is_tool_block content)"
    "filter is_tool_block content \<noteq> []"
  shows "an_message num_text (from_message num_text content) =
    Some [jobj [(''role'', jt ''assistant''),
      (''content'', JArr ((let t = concat (map (\<lambda>b. text_value (opt_field (Some b) ''text'')) (filter is_text_block content))
         in if t \<noteq> [] then [text_block t] else []) @ filter is_tool_block content))]]"
proof -
  let ?m = "from_message num_text content"
  let ?t = "concat (map (\<lambda>b. text_value (opt_field (Some b) ''text'')) (filter is_text_block content))"
  have "array_of (opt_field (Some ?m) ''tool_calls'') \<noteq> []"
    using assms(3) by (cases "filter is_tool_block content") (simp_all add: from_message_fields)
  moreover have "contentToText ?m = Some ?t"
    by (auto simp: contentToText_def from_message_def field_path Let_def filter_empty_conv)
  moreover have "map call_block (message_calls ?m) = filter is_tool_block content"
    by (simp add: message_calls_def from_message_fields calls_back [OF assms(1,2)])
  ultimately show ?thesis
    by (simp add: an_message_def from_message_fields(3) json_string_def jt_def Let_def)
qed

lemma those_member: "those xs = Some ys \<Longrightarrow> Some y \<in> set xs \<Longrightarrow> y \<in> set ys"
  by (induction xs arbitrary: ys) (auto split: option.splits)

lemma map_of_opt_member: "map_of (opt_member k v) k' = (if k' = k then v else None)"
  by (simp add: opt_member_def split: option.split)

lemma sent_messages:
  assumes "mapToAnthropic num_text req = Some sent"
  shows "\<exists>messages. those (map (an_message num_text) (cq_messages req)) = Some messages \<and>
    opt_field (Some sent) ''messages'' = Some (JArr (concat messages))"
proof -
  let ?is_system = "\<lambda>m. json_string (opt_field (Some m) ''role'') = Some (text_of ''system'')"
  let ?tools = "case cq_tools req of None \<Rightarrow> Some None | Some ts \<Rightarrow> map_option Some (those (map an_tool_spec ts))"
  obtain system where system: "those (map contentToText (filter ?is_system (cq_messages req))) = Some system"
    using assms by (cases "those (map contentToText (filter ?is_system (cq_messages req)))") (simp_all add: mapToAnthropic_def)
  obtain messages where messages: "those (map (an_message num_text) (cq_messages req)) = Some messages"
    using assms system by (cases "those (map (an_message num_text) (cq_messages req))") (simp_all add: mapToAnthropic_def)
  obtain tools where tools: "?tools = Some tools"
    using assms system messages by (cases ?tools) (simp_all add: mapToAnthropic_def)
  from assms show ?thesis
    unfolding mapToAnthropic_def Let_def system messages tools option.case prod.case
    by (auto simp: field_path map_of_append map_add_def map_of_opt_member)
qed

text \<open>C30: Tool calls survive a conversation. When the message of a whole reply comes back as part of the
  history of the next request, the request that goes to Anthropic carries an assistant turn with the
  reply's text and then exactly its tool_use blocks, with the same ids, names and inputs, although the
  inputs went through a JSON text in between.\<close>

theorem tool_history_roundtrip:
  assumes "renders_integers num_text" "list_all good_tool_block (filter is_tool_block content)"
    "filter is_tool_block content \<noteq> []" "from_message num_text content \<in> set (cq_messages req)"
    "mapToAnthropic num_text req = Some sent"
  shows "jobj [(''role'', jt ''assistant''),
      (''content'', JArr ((let t = concat (map (\<lambda>b. text_value (opt_field (Some b) ''text'')) (filter is_text_block content))
         in if t \<noteq> [] then [text_block t] else []) @ filter is_tool_block content))]
    \<in> set (array_of (opt_field (Some sent) ''messages''))"
proof -
  from sent_messages [OF assms(5)] obtain messages where messages: "those (map (an_message num_text) (cq_messages req)) = Some messages"
      "opt_field (Some sent) ''messages'' = Some (JArr (concat messages))"
    by blast
  have "an_message num_text (from_message num_text content) \<in> set (map (an_message num_text) (cq_messages req))"
    using assms(4) by simp
  note turn = those_member [OF messages(1) this [unfolded assistant_message_back [OF assms(1-3)]]]
  show ?thesis unfolding messages(2) array_of_def option.case json.case set_concat
    by (rule UN_I [OF turn]) simp
qed

section \<open>Examples\<close>

lemma payload_event: "parseDataLine line = Payload v \<Longrightarrow> data_event line = Some v"
  by (auto simp: parseDataLine_def data_event_def Let_def split: if_splits option.splits json.splits)

lemma written_events:
  "list_all (\<lambda>ms. plain_json (JObj ms)) mss \<Longrightarrow>
     List.map_filter data_event (map (\<lambda>ms. text_of ''data: '' @ json_stringify demo_num_text (JObj ms)) mss) = map JObj mss"
  by (induction mss) (simp_all add: map_filter_simps payload_event [OF data_line_read [OF demo_renders]] del: plain_json.simps json_stringify.simps)

text \<open>A reply with the events Anthropic documents: thinking, a text and a tool call, a ping between them.\<close>

definition demo_reply :: reply where
  "demo_reply = \<lparr>ry_blocks = [OtherPart (text_of ''thinking''), TextPart [text_of ''H'', text_of ''i''],
       ToolPart (text_of ''t'') (text_of ''f'') [text_of ''{'', text_of ''}'']],
     ry_stop = Some (text_of ''tool_use''), ry_input = 3, ry_output = 4\<rparr>"

definition block_event :: "string \<Rightarrow> nat \<Rightarrow> string \<Rightarrow> (string \<times> jtext json) list \<Rightarrow> jtext json" where
  "block_event ty n k ms = jobj [(''type'', jt ty), (''index'', jnat n), (k, jobj ms)]"

definition demo_stop :: "nat \<Rightarrow> jtext json" where
  "demo_stop n = jobj [(''type'', jt ''content_block_stop''), (''index'', jnat n)]"

definition demo_texts :: "jtext json list" where
  "demo_texts = [block_event ''content_block_delta'' 1 ''delta'' [(''type'', jt ''text_delta''), (''text'', jt ''H'')],
     block_event ''content_block_delta'' 1 ''delta'' [(''type'', jt ''text_delta''), (''text'', jt ''i'')], demo_stop 1]"

definition demo_call :: "jtext json list" where
  "demo_call = [block_event ''content_block_start'' 2 ''content_block''
       [(''type'', jt ''tool_use''), (''id'', jt ''t''), (''name'', jt ''f''), (''input'', jobj [])],
     block_event ''content_block_delta'' 2 ''delta'' [(''type'', jt ''input_json_delta''), (''partial_json'', jt ''{'')],
     block_event ''content_block_delta'' 2 ''delta'' [(''type'', jt ''input_json_delta''), (''partial_json'', jt ''}'')], demo_stop 2]"

definition demo_first :: "jtext json" where
  "demo_first = jobj [(''type'', jt ''message_start''), (''message'', jobj [(''id'', jt ''msg_1''), (''type'', jt ''message''),
     (''role'', jt ''assistant''), (''content'', JArr []), (''model'', jt ''m''), (''stop_reason'', JNull), (''stop_sequence'', JNull),
     (''usage'', jobj [(''input_tokens'', JNum 3), (''cache_read_input_tokens'', JNum 0), (''output_tokens'', JNum 1)])])]"

definition demo_delta :: "jtext json" where
  "demo_delta = jobj [(''type'', jt ''message_delta''),
     (''delta'', jobj [(''stop_reason'', jt ''tool_use''), (''stop_sequence'', JNull)]),
     (''usage'', jobj [(''output_tokens'', JNum 4)])]"

definition demo_last :: "jtext json" where
  "demo_last = jobj [(''type'', jt ''message_stop'')]"

definition demo_events :: "jtext json list" where
  "demo_events =
     [demo_first, block_event ''content_block_start'' 0 ''content_block'' [(''type'', jt ''thinking''), (''thinking'', jt '''')],
      block_event ''content_block_delta'' 0 ''delta'' [(''type'', jt ''thinking_delta''), (''thinking'', jt ''why'')], demo_stop 0,
      block_event ''content_block_start'' 1 ''content_block'' [(''type'', jt ''text''), (''text'', jt '''')],
      jobj [(''type'', jt ''ping'')]] @ demo_texts @ demo_call @ [demo_delta, demo_last]"

definition members :: "jtext json \<Rightarrow> (jtext \<times> jtext json) list" where
  "members v = (case v of JObj ms \<Rightarrow> ms | _ \<Rightarrow> [])"

lemma members_jobj [simp]: "JObj (members (jobj ms)) = jobj ms"
  by (simp add: members_def jobj_def)

definition demo_reply_lines :: "jtext list" where
  "demo_reply_lines = map (\<lambda>ev. text_of ''data: '' @ json_stringify demo_num_text (JObj (members ev))) demo_events"

lemmas demo_parts = demo_first_def demo_delta_def demo_last_def demo_stop_def demo_texts_def demo_call_def block_event_def

lemma demo_relevant: "filter (\<lambda>ev. \<not> idle_event ev) demo_events =
    demo_first # concat [[demo_stop 0], demo_texts, demo_call] @ [demo_delta] @ [demo_last]"
  by (simp add: demo_events_def demo_parts idle_event_def type_is_def ends_block_def)

lemma demo_reply_read: "reply_events demo_reply (filter (\<lambda>ev. \<not> idle_event ev) (List.map_filter data_event demo_reply_lines))"
proof -
  have plain: "list_all (\<lambda>ms. plain_json (JObj ms)) (map members demo_events)"
    by (simp add: demo_events_def demo_parts del: plain_json.simps) (simp add: jobj_def jt_def ascii_scalar)
  have "map JObj (map members demo_events) = demo_events"
    by (simp add: demo_events_def demo_parts)
  moreover have "demo_reply_lines =
      map (\<lambda>ms. text_of ''data: '' @ json_stringify demo_num_text (JObj ms)) (map members demo_events)"
    by (simp add: demo_reply_lines_def comp_def)
  ultimately have read: "List.map_filter data_event demo_reply_lines = demo_events"
    using written_events [OF plain] by simp
  have blocks: "list_all2 writes_block (ry_blocks demo_reply) [[demo_stop 0], demo_texts, demo_call]"
    by (simp add: demo_reply_def demo_parts type_is_def ends_block_def adds_text_def adds_input_def adds_json_def begins_call_def
        jt_def text_of_def)
  have "begins_message demo_reply demo_first" "closes_message demo_reply [demo_delta]" "type_is demo_last ''message_stop''"
    by (simp_all add: begins_message_def closes_message_def demo_reply_def demo_parts type_is_def stop_of_def counted_def)
      (simp add: jt_def)
  with blocks show ?thesis
    unfolding read demo_relevant reply_events_def by blast
qed

lemma anthropic_reply_rebuilt_witness:
  "ms_content (accumulated (fst (anthropic_upstream demo_num_text (text_of ''m'') 5 demo_reply_lines))) = text_of ''Hi''"
  using anthropic_reply_rebuilt [OF demo_reply_read, of demo_num_text "text_of ''m''" 5]
  by (simp add: reply_message_def reply_text_def demo_reply_def text_of_def)

definition demo_whole :: response_body where
  "demo_whole = \<lparr>rb_id = None, rb_model = None,
     rb_content = [text_block (text_of ''Hi''), tool_use_block (text_of ''t'') (text_of ''f'') (JObj [])],
     rb_stop_reason = Some (text_of ''tool_use''), rb_input_tokens = Some 3, rb_output_tokens = Some 4\<rparr>"

definition demo_body :: response_body where
  "demo_body = demo_whole\<lparr>rb_content := jobj [(''type'', jt ''thinking''), (''thinking'', jt ''why'')] # rb_content demo_whole\<rparr>"

lemma streamed_and_whole_agree_witness:
  "text_value (opt_field (opt_field (first_choice (mapFromAnthropic demo_num_text demo_body (text_of ''m'') 5)) ''message'') ''content'') =
     ms_content (accumulated (fst (anthropic_upstream demo_num_text (text_of ''m'') 5 demo_reply_lines)))"
proof -
  have blocks: "list_all2 (whole_block demo_num_text) (ry_blocks demo_reply) (rb_content demo_body)"
    by (simp add: demo_reply_def demo_body_def demo_whole_def whole_block_def text_of_def text_block_def field_path jt_def) (auto simp: tool_use_block_def)
  show ?thesis
    using streamed_and_whole_agree [OF demo_reply_read blocks, of "text_of ''m''" 5]
    by (simp add: Let_def demo_body_def demo_whole_def demo_reply_def)
qed

lemma tool_history_roundtrip_witness:
  "let content = rb_content demo_whole;
       req = \<lparr>cq_model = [], cq_messages = [from_message demo_num_text content], cq_max_tokens = None, cq_stream = None,
         cq_temperature = None, cq_top_p = None, cq_stop = None, cq_tools = None, cq_tool_choice = None\<rparr>
   in mapToAnthropic demo_num_text req \<noteq> None \<and>
      jobj [(''role'', jt ''assistant''), (''content'', JArr content)] \<in>
        set (array_of (opt_field (mapToAnthropic demo_num_text req) ''messages''))"
proof -
  let ?content = "rb_content demo_whole"
  let ?req = "\<lparr>cq_model = [], cq_messages = [from_message demo_num_text ?content], cq_max_tokens = None, cq_stream = None,
         cq_temperature = None, cq_top_p = None, cq_stop = None, cq_tools = None, cq_tool_choice = None\<rparr>"
  have tools: "filter is_tool_block ?content = [tool_use_block (text_of ''t'') (text_of ''f'') (JObj [])]"
    "filter is_text_block ?content = [text_block (text_of ''Hi'')]"
    by (simp_all add: demo_whole_def block_kinds)
  have good: "list_all good_tool_block (filter is_tool_block ?content)"
    unfolding tools by (auto simp: good_tool_block_def intro!: exI)
  have some: "filter is_tool_block ?content \<noteq> []" by (simp add: tools)
  have role: "json_string (opt_field (Some (from_message demo_num_text ?content)) ''role'') \<noteq> Some (text_of ''system'')"
    by (simp add: from_message_fields json_string_def jt_def)
  from assistant_message_back [OF demo_renders good some]
  obtain ms where "an_message demo_num_text (from_message demo_num_text ?content) = Some ms" by blast
  with role have "mapToAnthropic demo_num_text ?req \<noteq> None" by (simp add: mapToAnthropic_def)
  then obtain sent where sent: "mapToAnthropic demo_num_text ?req = Some sent" by blast
  have reads: "text_value (opt_field (Some (text_block t)) ''text'') = t" for t
    by (simp add: text_block_def field_path)
  from tool_history_roundtrip [OF demo_renders good some _ sent] sent show ?thesis
    unfolding tools by (simp add: Let_def reads) (simp add: demo_whole_def text_of_def)
qed

section \<open>One gateway behind another\<close>

text \<open>A gateway whose upstream is another gateway's Messages endpoint: what the edge translator emits is
  what the Anthropic adapter reads.\<close>

definition relayed :: "(rat \<Rightarrow> jtext) \<Rightarrow> chunk_env \<Rightarrow> an_event list \<Rightarrow> canonical list" where
  "relayed num_text env es = fst (run_transform (an_up_event num_text env) (\<lambda>s. [DoneMark]) an_up_init (map (\<lambda>e. snd (an_frame e)) es))"

lemma chunk_contents:
  "content_of (provider_chunk env (text_delta (JStr t)) f) = t" "content_of (provider_chunk env role_delta f) = []"
  "content_of (provider_chunk env (tool_open_delta i c n a) f) = []" "content_of (provider_chunk env (tool_args_delta i a) f) = []"
  "content_of (provider_chunk env (jobj []) f) = []" "content_of (provider_usage env p q t2) = []"
  by (simp_all add: content_of_def delta_of_def Let_def chunk_fields usage_fields field_path)
    (simp_all add: text_delta_def role_delta_def tool_open_delta_def tool_args_delta_def jt_def text_of_def field_path)

lemma relay_step:
  "\<exists>s1 out. an_up_event num_text env (snd (an_frame e)) s = Some (s1, out) \<and> concat (map content_of (chunk_jsons out)) = event_text e"
proof (cases e)
  case (BlockDelta n d)
  then show ?thesis
    by (cases d) (auto simp: an_up_event_def field_path up_block_delta_def chunk_contents)
next
  case (BlockStart n b)
  then show ?thesis
    by (cases b) (auto simp: an_up_event_def field_path up_block_start_def chunk_contents Let_def)
qed (auto simp: an_up_event_def field_path up_message_delta_def up_message_stop_def chunk_contents Let_def split: option.split)

lemma relay_content:
  "concat (map content_of (chunk_jsons (fst (run_transform (an_up_event num_text env) (\<lambda>s. [DoneMark]) s (map (\<lambda>e. snd (an_frame e)) es))))) =
     concat (map event_text es)"
proof (induction es arbitrary: s)
  case (Cons e es)
  from relay_step [of num_text env e s] obtain s1 out where
    "an_up_event num_text env (snd (an_frame e)) s = Some (s1, out)" "concat (map content_of (chunk_jsons out)) = event_text e" by blast
  with Cons [of s1] show ?case by (simp add: case_prod_unfold Let_def)
qed simp

text \<open>Chained gateways keep the answer. A canonical stream that one gateway serves as Anthropic Messages
  events and another reads back through its Anthropic adapter accumulates to the same text, for
  canonical chunks with text, reasoning and tool calls interleaved in any way.\<close>

theorem relay_keeps_text:
  "ms_content (accumulated (relayed num_text env (anthropic_stream num_text model lines))) =
     concat (map chunk_content (chunks_in (payload_lines lines)))"
proof -
  have "ac_content (foldl acc_add acc_new cs) = concat (map content_of cs)" for cs
    using acc_fold_effect [of acc_new cs] by (simp add: acc_new_def)
  then show ?thesis
    using relay_content [of num_text env an_up_init "anthropic_stream num_text model lines"] anthropic_stream_keeps_text [of num_text model lines]
    by (simp add: accumulated_def acc_result_def relayed_def)
qed

text \<open>The prompt tokens do not get through: the edge announces zero in \<open>message_start\<close> and the real count in
  \<open>message_delta\<close>, where the adapter reads only the output tokens.\<close>

lemma relay_forgets_prompt:
  "an_up_event num_text env (snd (an_frame e)) s = Some (s1, out) \<Longrightarrow> up_prompt s = JNum 0 \<Longrightarrow> up_prompt s1 = JNum 0"
proof (cases e)
  case (BlockDelta n d)
  assume "an_up_event num_text env (snd (an_frame e)) s = Some (s1, out)" "up_prompt s = JNum 0"
  with BlockDelta show ?thesis
    by (cases d) (auto simp: an_up_event_def field_path up_block_delta_def split: if_splits)
next
  case (BlockStart n b)
  assume "an_up_event num_text env (snd (an_frame e)) s = Some (s1, out)" "up_prompt s = JNum 0"
  with BlockStart show ?thesis
    by (cases b) (auto simp: an_up_event_def field_path up_block_start_def Let_def split: if_splits)
qed (auto simp: an_up_event_def field_path up_message_delta_def up_message_stop_def Let_def
    split: option.splits if_splits)

text \<open>A call without argument fragments streams an empty argument text, where the whole response says \<open>{}\<close>.\<close>

lemma no_argument_fragments:
  "reply_calls [ToolPart i n []] = [(i, n, [])]" "json_stringify num_text (JObj []) = text_of ''{}''"
  by (simp_all add: reply_calls_def map_filter_simps text_of_def)

end
