(* ===== verification/BedrockWire.thy ===== *)
theory BedrockWire
  imports AnthropicWire EventStream
begin

text \<open>
  The Bedrock Converse adapter of \<open>packages/providers/src/bedrock.ts\<close>: the mapping of messages and tools
  into a Converse request, the transformer of decoded event-stream messages into canonical chunks, and
  the mapping of a whole response. Signing, batches, files and embeddings are not modelled.

  What a payload carries is passed on as it is, under the tests the code makes; a whole response is taken to
  have its declared type.
\<close>

section \<open>The stream\<close>

definition br_finish :: "jtext option \<Rightarrow> jtext" where
  "br_finish reason =
     (if reason = Some (text_of ''max_tokens'') then text_of ''length''
      else if reason = Some (text_of ''tool_use'') then text_of ''tool_calls''
      else if reason = Some (text_of ''content_filtered'') \<or> reason = Some (text_of ''guardrail_intervened'')
      then text_of ''content_filter''
      else text_of ''stop'')"

record br_state =
  br_toolIndex :: int
  br_finishSent :: bool

definition br_init :: br_state where
  "br_init = \<lparr>br_toolIndex = -1, br_finishSent = False\<rparr>"

definition br_env :: "jtext \<Rightarrow> int \<Rightarrow> chunk_env" where
  "br_env model created =
     \<lparr>ce_id = text_of ''chatcmpl-bedrock-'' @ text_of (int_str created), ce_created = created, ce_model = model\<rparr>"

definition br_payload :: "es_message \<Rightarrow> jtext json option" where
  "br_payload m = (if es_payload m = [] then Some (JObj []) else json_parse (utf8_decode (es_payload m)))"

definition br_block_start :: "chunk_env \<Rightarrow> jtext json \<Rightarrow> br_state \<Rightarrow> br_state \<times> canonical list" where
  "br_block_start env p s =
     (if js_truthy (at_path p [''start'', ''toolUse'']) then
        (let i = br_toolIndex s + 1
         in (s\<lparr>br_toolIndex := i\<rparr>,
             [Chunk (provider_chunk env
                (tool_open_delta i (at_path p [''start'', ''toolUse'', ''toolUseId'']) (at_path p [''start'', ''toolUse'', ''name'']) (jt '''')) None)]))
      else (s, []))"

definition br_block_delta :: "chunk_env \<Rightarrow> jtext json \<Rightarrow> br_state \<Rightarrow> br_state \<times> canonical list" where
  "br_block_delta env p s =
     (let t = text_value (at_path p [''delta'', ''text''])
      in if t \<noteq> [] then (s, [Chunk (provider_chunk env (text_delta (JStr t)) None)])
         else case json_string (at_path p [''delta'', ''toolUse'', ''input'']) of
                Some a \<Rightarrow> (s, [Chunk (provider_chunk env (tool_args_delta (br_toolIndex s) (JStr a)) None)])
              | None \<Rightarrow> (s, []))"

definition br_stop :: "chunk_env \<Rightarrow> jtext json \<Rightarrow> br_state \<Rightarrow> br_state \<times> canonical list" where
  "br_stop env p s =
     (s\<lparr>br_finishSent := True\<rparr>,
      [Chunk (provider_chunk env (jobj []) (Some (br_finish (json_string (at_path p [''stopReason''])))))])"

definition br_metadata :: "(rat \<Rightarrow> jtext) \<Rightarrow> chunk_env \<Rightarrow> jtext json \<Rightarrow> br_state \<Rightarrow> br_state \<times> canonical list" where
  "br_metadata num_text env p s =
     (let i = nullish (at_path p [''usage'', ''inputTokens'']) (JNum 0);
          out = nullish (at_path p [''usage'', ''outputTokens'']) (JNum 0)
      in (s, [Chunk (provider_usage env i out (nullish (at_path p [''usage'', ''totalTokens'']) (js_plus num_text i out)))]))"

text \<open>A payload that is no JSON throws; so does reading a field of the payload \<open>null\<close>; a message that is
  not an event errors the stream.\<close>

definition br_event :: "(rat \<Rightarrow> jtext) \<Rightarrow> chunk_env \<Rightarrow> (br_state, es_message) transform" where
  "br_event num_text env m s =
     (case br_payload m of
        None \<Rightarrow> None
      | Some p \<Rightarrow>
          (let kind = (case headerString m (text_of '':message-type'') of Some k \<Rightarrow> k | None \<Rightarrow> text_of ''event'');
               name = headerString m (text_of '':event-type'')
           in if kind \<noteq> text_of ''event'' then None
              else if name = Some (text_of ''messageStart'') then Some (s, [Chunk (provider_chunk env role_delta None)])
              else if name = Some (text_of ''contentBlockStart'') then (if p = JNull then None else Some (br_block_start env p s))
              else if name = Some (text_of ''contentBlockDelta'') then (if p = JNull then None else Some (br_block_delta env p s))
              else if name = Some (text_of ''messageStop'') then
                (if br_finishSent s then Some (s, []) else if p = JNull then None else Some (br_stop env p s))
              else if name = Some (text_of ''metadata'') then (if p = JNull then None else Some (br_metadata num_text env p s))
              else Some (s, [])))"

definition br_flush :: "chunk_env \<Rightarrow> br_state \<Rightarrow> canonical list" where
  "br_flush env s =
     (if br_finishSent s then [] else [Chunk (provider_chunk env (jobj []) (Some (text_of ''stop'')))]) @ [DoneMark]"

definition bedrock_upstream :: "(rat \<Rightarrow> jtext) \<Rightarrow> jtext \<Rightarrow> int \<Rightarrow> es_message list \<Rightarrow> canonical list \<times> bool" where
  "bedrock_upstream num_text model created ms =
     (let env = br_env model created in run_transform (br_event num_text env) (br_flush env) br_init ms)"

text \<open>The whole pipeline over the bytes of the response: a decoder that fails errors the stream after the
  messages it has read.\<close>

definition bedrock_bytes :: "(rat \<Rightarrow> jtext) \<Rightarrow> jtext \<Rightarrow> int \<Rightarrow> byte list list \<Rightarrow> canonical list \<times> bool" where
  "bedrock_bytes num_text model created chunks =
     (let d = es_decode_chunks chunks; env = br_env model created
      in if es_failed d = None then bedrock_upstream num_text model created (es_out d)
         else (fst (run_transform (br_event num_text env) (\<lambda>s. []) br_init (es_out d)), True))"

section \<open>Requests\<close>

definition toolResultContent :: "jtext \<Rightarrow> jtext json list" where
  "toolResultContent t =
     (case json_parse t of
        Some (JArr rs) \<Rightarrow> [jobj [(''json'', jobj [(''results'', JArr rs)])]]
      | Some v \<Rightarrow> [jobj [(''json'', v)]]
      | None \<Rightarrow> [jobj [(''text'', JStr t)]])"

definition message_role :: "jtext json \<Rightarrow> jtext option" where
  "message_role m = json_string (opt_field (Some m) ''role'')"

abbreviation tool_role :: "jtext json \<Rightarrow> bool" where
  "tool_role m \<equiv> message_role m = Some (text_of ''tool'')"

definition tool_use_content :: "tool_call \<Rightarrow> jtext json" where
  "tool_use_content c =
     jobj [(''toolUse'', jobj [(''toolUseId'', JStr (tl_id c)), (''name'', JStr (tl_name c)), (''input'', call_input (tl_arguments c))])]"

definition br_turn :: "jtext \<Rightarrow> jtext json \<Rightarrow> jtext json option" where
  "br_turn role m =
     map_option (\<lambda>t. jobj [(''role'', JStr role),
       (''content'', JArr ((if t \<noteq> [] then [jobj [(''text'', JStr t)]] else []) @
          (if role = text_of ''assistant'' then map tool_use_content (message_calls m) else [])))]) (contentToText m)"

definition br_tool_result :: "jtext json \<Rightarrow> jtext json option" where
  "br_tool_result m =
     map_option (\<lambda>t. jobj [(''toolResult'', jobj (opt_member ''toolUseId'' (opt_field (Some m) ''tool_call_id'') @
       [(''content'', JArr (toolResultContent t)), (''status'', jt ''success'')]))]) (contentToText m)"

definition br_tool_turn :: "jtext json list \<Rightarrow> jtext json option" where
  "br_tool_turn ms =
     map_option (\<lambda>rs. jobj [(''role'', jt ''user''), (''content'', JArr rs)]) (those (map br_tool_result ms))"

text \<open>\<open>convertMessages\<close>: the turns and the system texts. A run of tool messages is one user turn.\<close>

function convertMessages :: "jtext json list \<Rightarrow> (jtext json list \<times> jtext json list) option" where
  "convertMessages [] = Some ([], [])"
| "convertMessages (m # ms) =
     (if message_role m = Some (text_of ''system'') then
        (case (contentToText m, convertMessages ms) of
           (Some t, Some (out, sys)) \<Rightarrow> Some (out, jobj [(''text'', JStr t)] # sys) | _ \<Rightarrow> None)
      else if message_role m = Some (text_of ''user'') \<or> message_role m = Some (text_of ''assistant'') then
        (case (br_turn (the (message_role m)) m, convertMessages ms) of
           (Some v, Some (out, sys)) \<Rightarrow> Some (v # out, sys) | _ \<Rightarrow> None)
      else if tool_role m then
        (case (br_tool_turn (m # takeWhile tool_role ms), convertMessages (dropWhile tool_role ms)) of
           (Some v, Some (out, sys)) \<Rightarrow> Some (v # out, sys) | _ \<Rightarrow> None)
      else convertMessages ms)"
  by pat_completeness auto
termination
  by (relation "measure length") (simp_all add: length_dropWhile_le less_Suc_eq_le)

definition convertToolChoice :: "jtext json option \<Rightarrow> jtext json option" where
  "convertToolChoice choice =
     (if choice = Some (jt ''required'') then Some (jobj [(''any'', jobj [])])
      else if choice = Some (jt ''auto'') then Some (jobj [(''auto'', jobj [])])
      else if opt_field choice ''type'' = Some (jt ''function'') then
        map_option (\<lambda>n. jobj [(''tool'', jobj [(''name'', JStr n)])])
          (truthy_text (json_string (opt_field (opt_field choice ''function'') ''name'')))
      else None)"

definition br_tool_spec :: "jtext json \<Rightarrow> jtext json option" where
  "br_tool_spec t =
     (if t = JNull then None
      else let fn = nullish_or (opt_field (Some t) ''function'') (Some t)
           in Some (jobj [(''toolSpec'', jobj (opt_member ''name'' (opt_field fn ''name'') @
                opt_member ''description'' (nullish_or (opt_field fn ''description'') (Some (jt ''Function tool''))) @
                [(''inputSchema'', jobj (opt_member ''json''
                   (nullish_or (opt_field fn ''parameters'') (Some (jobj [(''type'', jt ''object''), (''properties'', jobj [])])))))]))]))"

text \<open>The outer option tells a throw, the inner one that there are no tools.\<close>

definition convertToolConfig :: "completion_request \<Rightarrow> jtext json option option" where
  "convertToolConfig req =
     (case cq_tools req of
        None \<Rightarrow> Some None
      | Some [] \<Rightarrow> Some None
      | Some ts \<Rightarrow>
          map_option (\<lambda>specs. Some (jobj ((''tools'', JArr specs) # opt_member ''toolChoice'' (convertToolChoice (cq_tool_choice req)))))
            (those (map br_tool_spec ts)))"

definition stop_list :: "jtext json option \<Rightarrow> jtext json option" where
  "stop_list = map_option (\<lambda>v. case v of JArr vs \<Rightarrow> JArr vs | _ \<Rightarrow> JArr [v])"

definition converse_body :: "completion_request \<Rightarrow> jtext json option" where
  "converse_body req =
     (case (convertMessages (cq_messages req), convertToolConfig req) of
        (Some (messages, system), Some config) \<Rightarrow>
          Some (jobj ((if system \<noteq> [] then [(''system'', JArr system)] else []) @
            [(''messages'', JArr messages),
             (''inferenceConfig'', jobj (opt_member ''maxTokens'' (map_option JNum (cq_max_tokens req)) @
                opt_member ''temperature'' (map_option JNum (cq_temperature req)) @
                opt_member ''topP'' (map_option JNum (cq_top_p req)) @
                opt_member ''stopSequences'' (stop_list (cq_stop req))))] @
            opt_member ''toolConfig'' config))
      | _ \<Rightarrow> None)"

section \<open>Whole responses\<close>

record converse_response =
  cv_content :: "jtext json list"
  cv_stopReason :: "jtext option"
  cv_inputTokens :: "rat option"
  cv_outputTokens :: "rat option"
  cv_totalTokens :: "rat option"

definition cv_text :: "jtext json \<Rightarrow> jtext" where
  "cv_text b = text_value (opt_field (Some b) ''text'')"

definition cv_is_call :: "jtext json \<Rightarrow> bool" where
  "cv_is_call b \<longleftrightarrow> cv_text b = [] \<and> js_truthy (opt_field (Some b) ''toolUse'')"

definition cv_call :: "(rat \<Rightarrow> jtext) \<Rightarrow> nat \<Rightarrow> jtext json \<Rightarrow> jtext json" where
  "cv_call num_text n b =
     (let use = opt_field (Some b) ''toolUse''
      in jobj [(''id'', the (nullish_or (opt_field use ''toolUseId'') (Some (JStr (text_of ''call_'' @ text_of (nat_str n)))))),
           (''type'', jt ''function''),
           (''function'', jobj [(''name'', the (nullish_or (opt_field use ''name'') (Some (jt '''')))),
              (''arguments'', JStr (json_stringify num_text (the (nullish_or (opt_field use ''input'') (Some (JObj []))))))])])"

definition cv_message :: "(rat \<Rightarrow> jtext) \<Rightarrow> jtext json list \<Rightarrow> jtext json" where
  "cv_message num_text content =
     (let t = concat (map cv_text content);
          calls = map (\<lambda>(n, b). cv_call num_text n b) (enumerate 0 (filter cv_is_call content))
      in if calls \<noteq> []
         then jobj [(''role'', jt ''assistant''), (''content'', if t \<noteq> [] then JStr t else JNull), (''tool_calls'', JArr calls)]
         else jobj [(''role'', jt ''assistant''), (''content'', JStr t)])"

definition default_to :: "rat \<Rightarrow> rat option \<Rightarrow> rat" where
  "default_to d v = (case v of Some n \<Rightarrow> n | None \<Rightarrow> d)"

definition from_converse :: "(rat \<Rightarrow> jtext) \<Rightarrow> jtext \<Rightarrow> int \<Rightarrow> jtext \<Rightarrow> converse_response \<Rightarrow> jtext json" where
  "from_converse num_text uuid created model r =
     (let i = default_to 0 (cv_inputTokens r); out = default_to 0 (cv_outputTokens r)
      in jobj
        [(''id'', JStr (text_of ''chatcmpl-bedrock-'' @ take 8 uuid)), (''object'', jt ''chat.completion''),
         (''created'', JNum (of_int created)), (''model'', JStr model),
         (''choices'', JArr [jobj [(''index'', JNum 0), (''message'', cv_message num_text (cv_content r)),
            (''finish_reason'', JStr (br_finish (cv_stopReason r)))]]),
         (''usage'', jobj [(''prompt_tokens'', JNum i), (''completion_tokens'', JNum out),
            (''total_tokens'', JNum (default_to (i + out) (cv_totalTokens r)))])])"

section \<open>What Bedrock sends\<close>

text \<open>A frame of the wire: its headers and the text of its payload, and the message it is on the other side.\<close>

type_synonym wire_frame = "(codepoints \<times> codepoints) list \<times> jtext"

definition frame_bytes :: "wire_frame \<Rightarrow> byte list" where
  "frame_bytes f = encodeEventStreamMessage (fst f) (utf8_encode (snd f))"

definition frame_read :: "wire_frame \<Rightarrow> es_message" where
  "frame_read f =
     \<lparr>es_headers = map (\<lambda>h. (fst h, HText (snd h))) (fst f), es_payload = utf8_encode (snd f)\<rparr>"

definition frame_ok :: "wire_frame \<Rightarrow> bool" where
  "frame_ok f \<longleftrightarrow> list_all header_ok (fst f) \<and> distinct (map fst (fst f)) \<and> plain_text (snd f) \<and>
     length (frame_bytes f) < 2 ^ 32"

text \<open>The event a frame carries: its name and its payload, an object. Whatever other headers a frame has do
  not matter.\<close>

type_synonym wire_event = "jtext \<times> jtext json"

definition frame_event :: "wire_frame \<Rightarrow> wire_event option" where
  "frame_event f =
     (if map_of (fst f) (text_of '':message-type'') \<in> {None, Some (text_of ''event'')} then
        (case (map_of (fst f) (text_of '':event-type''), if snd f = [] then Some (JObj []) else json_parse (snd f)) of
           (Some name, Some (JObj ms)) \<Rightarrow> Some (name, JObj ms)
         | _ \<Rightarrow> None)
      else None)"

text \<open>What the events of a Converse stream say, whatever further members their payloads have.\<close>

definition br_begins_call :: "jtext \<Rightarrow> jtext \<Rightarrow> wire_event \<Rightarrow> bool" where
  "br_begins_call i n ev \<longleftrightarrow> fst ev = text_of ''contentBlockStart'' \<and>
     at_path (snd ev) [''start'', ''toolUse'', ''toolUseId''] = Some (JStr i) \<and>
     at_path (snd ev) [''start'', ''toolUse'', ''name''] = Some (JStr n)"

definition br_adds_text :: "jtext \<Rightarrow> wire_event \<Rightarrow> bool" where
  "br_adds_text t ev \<longleftrightarrow> fst ev = text_of ''contentBlockDelta'' \<and>
     at_path (snd ev) [''delta'', ''text''] = Some (JStr t) \<and> at_path (snd ev) [''delta'', ''toolUse'', ''input''] = None"

definition br_adds_input :: "jtext \<Rightarrow> wire_event \<Rightarrow> bool" where
  "br_adds_input t ev \<longleftrightarrow> fst ev = text_of ''contentBlockDelta'' \<and>
     at_path (snd ev) [''delta'', ''text''] = None \<and> at_path (snd ev) [''delta'', ''toolUse'', ''input''] = Some (JStr t)"

definition br_ends :: "reply \<Rightarrow> wire_event \<Rightarrow> bool" where
  "br_ends r ev \<longleftrightarrow> fst ev = text_of ''messageStop'' \<and> json_string (at_path (snd ev) [''stopReason'']) = ry_stop r"

definition br_counts :: "reply \<Rightarrow> rat \<Rightarrow> wire_event \<Rightarrow> bool" where
  "br_counts r all_tokens ev \<longleftrightarrow> fst ev = text_of ''metadata'' \<and>
     nullish (at_path (snd ev) [''usage'', ''inputTokens'']) (JNum 0) = JNum (ry_input r) \<and>
     nullish (at_path (snd ev) [''usage'', ''outputTokens'']) (JNum 0) = JNum (ry_output r) \<and>
     nullish (at_path (snd ev) [''usage'', ''totalTokens'']) (JNum (ry_input r + ry_output r)) = JNum all_tokens"

text \<open>Events that carry nothing of the reply: the ends of blocks, starts of blocks that are no tool calls,
  fragments of other kinds (reasoning, for example), and events of unknown names.\<close>

definition br_idle :: "wire_event \<Rightarrow> bool" where
  "br_idle ev \<longleftrightarrow>
     (if fst ev = text_of ''contentBlockStart'' then \<not> js_truthy (at_path (snd ev) [''start'', ''toolUse''])
      else if fst ev = text_of ''contentBlockDelta''
      then json_string (at_path (snd ev) [''delta'', ''text'']) = None \<and>
        json_string (at_path (snd ev) [''delta'', ''toolUse'', ''input'']) = None
      else fst ev \<notin> text_of ` {''messageStart'', ''messageStop'', ''metadata''})"

fun br_writes :: "reply_block \<Rightarrow> wire_event list \<Rightarrow> bool" where
  "br_writes (TextPart ts) evs \<longleftrightarrow> list_all2 br_adds_text ts evs"
| "br_writes (ToolPart i n ts) evs \<longleftrightarrow>
     (case evs of [] \<Rightarrow> False | ev # es \<Rightarrow> br_begins_call i n ev \<and> list_all2 br_adds_input ts es)"
| "br_writes (OtherPart ty) evs \<longleftrightarrow> evs = []"

definition br_reply :: "reply \<Rightarrow> rat \<Rightarrow> wire_event list \<Rightarrow> bool" where
  "br_reply r all_tokens evs \<longleftrightarrow> (\<exists>ev blocks stop metadata. evs = ev # concat blocks @ [stop, metadata] \<and>
     fst ev = text_of ''messageStart'' \<and> list_all2 br_writes (ry_blocks r) blocks \<and> br_ends r stop \<and>
     br_counts r all_tokens metadata)"

section \<open>From bytes to messages\<close>

lemma drain_frames:
  "list_all frame_ok fs \<Longrightarrow> drain (concat (map frame_bytes fs)) = (map frame_read fs, [], None)"
proof (induction fs)
  case Nil
  show ?case by (simp add: drain.simps [of "[]"] decodeEventStreamMessage_def)
next
  case (Cons f fs)
  let ?rest = "concat (map frame_bytes fs)"
  from Cons.prems have "decodeEventStreamMessage (frame_bytes f @ ?rest) =
      Some (Inr (frame_read f, length (frame_bytes f)))"
    unfolding frame_bytes_def frame_read_def by (intro roundtrip_facts) (simp_all add: frame_ok_def frame_bytes_def)
  with Cons show ?case by (subst drain.simps) simp
qed

lemma decoded_frames:
  assumes "list_all frame_ok fs" "concat chunks = concat (map frame_bytes fs)"
  shows "es_failed (es_decode_chunks chunks) = None \<and> es_out (es_decode_chunks chunks) = map frame_read fs"
  using chunks_drain [of chunks, unfolded assms(2), OF drain_frames [OF assms(1)]]
  by (simp add: es_decode_chunks_def es_flush_def)

text \<open>The transformer on the event of a frame.\<close>

definition br_step :: "(rat \<Rightarrow> jtext) \<Rightarrow> chunk_env \<Rightarrow> (br_state, wire_event) transform" where
  "br_step num_text env ev s = Some
     (if fst ev = text_of ''messageStart'' then (s, [Chunk (provider_chunk env role_delta None)])
      else if fst ev = text_of ''contentBlockStart'' then br_block_start env (snd ev) s
      else if fst ev = text_of ''contentBlockDelta'' then br_block_delta env (snd ev) s
      else if fst ev = text_of ''messageStop'' then (if br_finishSent s then (s, []) else br_stop env (snd ev) s)
      else if fst ev = text_of ''metadata'' then br_metadata num_text env (snd ev) s
      else (s, []))"

lemma encode_empty:
  assumes "plain_text t"
  shows "utf8_encode t = [] \<longleftrightarrow> t = []"
proof
  assume "utf8_encode t = []"
  then show "t = []" using utf8_roundtrip [OF assms] by (simp add: utf8_decode_def utf8_finish_def strip_bom_def)
qed (simp add: utf8_encode_def)

lemma event_step:
  assumes "frame_ok f" "frame_event f = Some ev"
  shows "br_event num_text env (frame_read f) s = br_step num_text env ev s"
proof -
  have header: "headerString (frame_read f) k = map_of (fst f) k" for k
  proof -
    have "map_of (map (\<lambda>h. (fst h, HText (snd h))) hs) k = map_option HText (map_of hs k)" for hs :: "(codepoints \<times> codepoints) list"
      by (induction hs) auto
    then show ?thesis by (simp add: headerString_def frame_read_def split: option.split)
  qed
  have plain: "plain_text (snd f)" using assms(1) by (simp add: frame_ok_def)
  then have payload: "br_payload (frame_read f) = (if snd f = [] then Some (JObj []) else json_parse (snd f))"
    by (simp add: br_payload_def frame_read_def encode_empty utf8_roundtrip)
  from assms(2) obtain name ms where ev: "ev = (name, JObj ms)" "map_of (fst f) (text_of '':event-type'') = Some name"
      "br_payload (frame_read f) = Some (JObj ms)" "map_of (fst f) (text_of '':message-type'') \<in> {None, Some (text_of ''event'')}"
    by (auto simp: frame_event_def payload split: if_splits option.splits json.splits)
  from ev(4) have "(case map_of (fst f) (text_of '':message-type'') of Some k \<Rightarrow> k | None \<Rightarrow> text_of ''event'') = text_of ''event''"
    by auto
  then show ?thesis by (simp add: br_event_def header ev br_step_def)
qed

lemma events_run:
  "list_all frame_ok fs \<Longrightarrow> those (map frame_event fs) = Some evs \<Longrightarrow>
     run_transform (br_event num_text env) flush s (map frame_read fs) = run_transform (br_step num_text env) flush s evs"
proof (induction fs arbitrary: s evs)
  case (Cons f fs)
  from Cons.prems obtain ev rest where "frame_event f = Some ev" "those (map frame_event fs) = Some rest" "evs = ev # rest"
    by (auto split: option.splits)
  with Cons show ?case by (simp add: event_step split: option.split)
qed simp

section \<open>The reply is rebuilt\<close>

definition br_at :: "nat \<Rightarrow> br_state" where
  "br_at k = \<lparr>br_toolIndex = int k - 1, br_finishSent = False\<rparr>"

abbreviation (input) absorbs ::
  "(rat \<Rightarrow> jtext) \<Rightarrow> chunk_env \<Rightarrow> wire_event list \<Rightarrow> br_state \<times> accumulator \<Rightarrow> (br_state \<times> accumulator) option" where
  "absorbs num_text env \<equiv> absorb (br_step num_text env)"

lemma idle_nothing: "br_idle ev \<Longrightarrow> br_step num_text env ev s = Some (s, [])"
  by (auto simp: br_idle_def br_step_def br_block_start_def br_block_delta_def text_value_def split: if_splits)

lemma absorbs_text:
  "list_all2 br_adds_text ts evs \<Longrightarrow>
     absorbs num_text env evs (br_at k, so_far env c cs f u) = Some (br_at k, so_far env (c @ concat ts) cs f u)"
proof (induction arbitrary: c rule: list_all2_induct)
  case (Cons t ts ev evs)
  then have "br_step num_text env ev (br_at k) =
      Some (br_at k, if t = [] then [] else [Chunk (provider_chunk env (text_delta (JStr t)) None)])"
    by (simp add: br_adds_text_def br_step_def br_block_delta_def json_string_def)
  with Cons.IH [of c] Cons.IH [of "c @ t"] show ?case
    by (simp add: add_chunk add_text truthy_text_def or_else_def)
qed simp

lemma absorbs_input:
  "list_all2 br_adds_input ts evs \<Longrightarrow>
     absorbs num_text env evs (br_at (Suc (length cs)), so_far env c (cs @ [(i, nm, a)]) f u) =
     Some (br_at (Suc (length cs)), so_far env c (cs @ [(i, nm, a @ concat ts)]) f u)"
proof (induction arbitrary: a rule: list_all2_induct)
  case (Cons t ts ev evs)
  then have "br_step num_text env ev (br_at (Suc (length cs))) =
      Some (br_at (Suc (length cs)), [Chunk (provider_chunk env (tool_args_delta (int (length cs)) (JStr t)) None)])"
    by (simp add: br_adds_input_def br_step_def br_block_delta_def text_value_def) (simp add: json_string_def br_at_def)
  with Cons.IH [of "a @ t"] show ?case
    by (simp add: add_chunk add_tool_args truthy_text_def or_else_def)
qed simp

lemma object_above: "at_path p [k, l, m] = Some v \<Longrightarrow> \<exists>ms. at_path p [k, l] = Some (JObj ms)"
proof -
  assume "at_path p [k, l, m] = Some v"
  moreover have "at_path p [k, l, m] = opt_field (at_path p [k, l]) m" by (simp add: at_path_def)
  ultimately obtain y where "at_path p [k, l] = Some y" "json_field y (text_of m) = Some v"
    by (auto simp: opt_field_def bind_eq_Some_conv)
  then show "\<exists>ms. at_path p [k, l] = Some (JObj ms)"
    by (cases y) (simp_all add: json_field_def)
qed

lemma absorbs_block:
  assumes "br_writes b evs"
  shows "absorbs num_text env evs (br_at (length cs), so_far env c cs f u) =
    Some (br_at (length (cs @ reply_calls [b])), so_far env (c @ block_text b) (cs @ reply_calls [b]) f u)"
proof (cases b)
  case (TextPart ts)
  with assms show ?thesis
    by (simp add: absorbs_text reply_calls_def map_filter_simps)
next
  case (ToolPart i nm ts)
  then obtain ev es where evs: "evs = ev # es" "br_begins_call i nm ev" "list_all2 br_adds_input ts es"
    using assms by (cases evs) auto
  then obtain ms where "at_path (snd ev) [''start'', ''toolUse''] = Some (JObj ms)"
    using object_above [of "snd ev" "''start''" "''toolUse''"] unfolding br_begins_call_def by blast
  then have "br_step num_text env ev (br_at (length cs)) =
      Some (br_at (Suc (length cs)),
        [Chunk (provider_chunk env (tool_open_delta (int (length cs)) (Some (JStr i)) (Some (JStr nm)) (JStr [])) None)])"
    using evs(2) by (simp add: br_begins_call_def br_step_def br_block_start_def br_at_def Let_def jt_def text_of_def)
  then show ?thesis
    using absorbs_input [OF evs(3), of num_text env cs c i nm "[]" f u] ToolPart
    by (simp add: evs(1) reply_calls_def map_filter_simps add_chunk add_tool_open truthy_text_def or_else_def)
next
  case (OtherPart ty)
  with assms show ?thesis
    by (simp add: reply_calls_def map_filter_simps)
qed

lemma absorbs_blocks:
  assumes "list_all2 br_writes bs blocks"
  shows "absorbs num_text env (concat blocks) (br_at (length cs), so_far env c cs f u) =
    Some (br_at (length (cs @ reply_calls bs)), so_far env (c @ reply_text bs) (cs @ reply_calls bs) f u)"
  using assms
proof (induction arbitrary: c cs rule: list_all2_induct)
  case (Cons b bs evs blocks)
  have "reply_calls (b # bs) = reply_calls [b] @ reply_calls bs" "reply_text (b # bs) = block_text b @ reply_text bs"
    by (simp_all add: reply_calls_def reply_text_def map_filter_simps split: option.split)
  with absorbs_block [OF Cons.hyps(1), of num_text env cs c f u]
    Cons.IH [of "cs @ reply_calls [b]" "c @ block_text b"] show ?case by (simp add: absorb_append)
qed (simp add: reply_calls_def reply_text_def map_filter_simps)

lemma absorbs_reply:
  assumes "br_reply r all_tokens evs"
  shows "absorbs num_text env evs (br_init, acc_new) =
    Some (\<lparr>br_toolIndex = int (length (reply_calls (ry_blocks r))) - 1, br_finishSent = True\<rparr>,
      so_far env (reply_text (ry_blocks r)) (reply_calls (ry_blocks r)) (Some (br_finish (ry_stop r)))
        (Some \<lparr>au_prompt = ry_input r, au_completion = ry_output r, au_total = all_tokens\<rparr>))"
proof -
  obtain ev blocks stop metadata where evs: "evs = [ev] @ concat blocks @ [stop, metadata]" "fst ev = text_of ''messageStart''"
      "list_all2 br_writes (ry_blocks r) blocks" "br_ends r stop" "br_counts r all_tokens metadata"
    using assms by (auto simp: br_reply_def)
  have first: "absorbs num_text env [ev] (br_init, acc_new) = Some (br_at 0, so_far env [] [] None None)"
    by (simp add: evs(2) br_step_def add_first_chunk add_role truthy_text_def br_at_def br_init_def)
  have finish: "truthy_text (Some (br_finish t)) = Some (br_finish t)" for t
    by (simp add: br_finish_def truthy_text_def text_of_def)
  have last: "absorbs num_text env [stop, metadata] (br_at k, so_far env c cs None None) =
      Some (\<lparr>br_toolIndex = int k - 1, br_finishSent = True\<rparr>, so_far env c cs (Some (br_finish (ry_stop r)))
        (Some \<lparr>au_prompt = ry_input r, au_completion = ry_output r, au_total = all_tokens\<rparr>))" for k c cs
    using evs(4,5) by (simp add: br_ends_def br_counts_def br_step_def br_stop_def br_metadata_def br_at_def
      add_chunk add_empty add_usage finish or_else_def Let_def)
  show ?thesis
    using absorbs_blocks [OF evs(3), of num_text env "[]" "[]" None None]
    by (simp only: evs(1) absorb_append first last option.case list.size append_Nil)
qed

text \<open>C28: A Converse reply is rebuilt from its bytes. The bytes are well-formed frames, with whatever headers
  they have besides those that name the event, whose payloads spell the events of a Converse stream in
  any JSON text and with any further members (the role, block indexes, latency metrics): a start, the
  blocks with texts and tool inputs cut into fragments in any way, a stop reason and the token counts, with
  the ends of blocks, fragments of other kinds and unknown events anywhere. However the network cuts the
  bytes, the decoder accepts them, no frame fails, and the canonical stream of the transformer accumulates
  to the whole text, the tool calls in order with ids, names and argument texts, the mapped finish reason
  and the token counts, the total being the announced one or, without it, the sum.\<close>

theorem bedrock_reply_rebuilt:
  assumes "list_all frame_ok frames" "those (map frame_event frames) = Some events"
    "br_reply r all_tokens (filter (\<lambda>ev. \<not> br_idle ev) events)"
    "concat chunks = concat (map frame_bytes frames)"
  shows "\<not> snd (bedrock_bytes num_text model created chunks) \<and>
    accumulated (fst (bedrock_bytes num_text model created chunks)) =
      reply_message (br_env model created) (reply_text (ry_blocks r)) (reply_calls (ry_blocks r))
        (Some (br_finish (ry_stop r)))
        (Some \<lparr>au_prompt = ry_input r, au_completion = ry_output r, au_total = all_tokens\<rparr>)"
proof -
  let ?env = "br_env model created"
  note d = decoded_frames [OF assms(1,4)]
  have "run_transform (br_event num_text ?env) (br_flush ?env) br_init (map frame_read frames) =
      run_transform (br_step num_text ?env) (br_flush ?env) br_init (filter (\<lambda>ev. \<not> br_idle ev) events)"
    unfolding events_run [OF assms(1,2)] by (rule run_filter) (simp add: idle_nothing)
  then have bytes: "bedrock_bytes num_text model created chunks =
      run_transform (br_step num_text ?env) (br_flush ?env) br_init (filter (\<lambda>ev. \<not> br_idle ev) events)"
    using d by (simp add: bedrock_bytes_def bedrock_upstream_def Let_def)
  show ?thesis
    unfolding bytes accumulated_def
    using absorbed_run [OF absorbs_reply [OF assms(3), of num_text ?env], of "br_flush ?env"]
    by (simp add: br_flush_def so_far_result)
qed

text \<open>C29: A stream that fails is never passed off as finished. If the decoder fails (a bad checksum, a
  truncated frame) or a message is an exception, an error or no JSON, the canonical stream is marked
  failed and carries no \<open>[DONE]\<close>, whatever came before; the client sees it end without the mark of success.\<close>

theorem bedrock_failure_is_no_success:
  assumes "es_failed (es_decode_chunks chunks) \<noteq> None \<or>
    list_ex (\<lambda>m. br_payload m = None \<or> headerString m (text_of '':message-type'') \<notin> {None, Some (text_of ''event'')})
      (es_out (es_decode_chunks chunks))"
  shows "snd (bedrock_bytes num_text model created chunks) \<and> DoneMark \<notin> set (fst (bedrock_bytes num_text model created chunks))"
proof -
  let ?env = "br_env model created"
  have quiet: "br_event num_text ?env m s = Some (s1, out) \<Longrightarrow> DoneMark \<notin> set out" for m s s1 out
    by (auto simp: br_event_def Let_def br_block_start_def br_block_delta_def br_stop_def br_metadata_def
        split: option.splits if_splits)
  have bad: "br_event num_text ?env m s = None"
    if "br_payload m = None \<or> headerString m (text_of '':message-type'') \<notin> {None, Some (text_of ''event'')}" for m s
    using that by (auto simp: br_event_def Let_def split: option.splits)
  have partial: "DoneMark \<notin> set (fst (run_transform (br_event num_text ?env) (\<lambda>s. []) s ms))" for s ms
    by (induction ms arbitrary: s) (auto simp: case_prod_unfold Let_def split: option.split dest: quiet)
  have failing: "snd (run_transform (br_event num_text ?env) (br_flush ?env) s ms) \<and>
      DoneMark \<notin> set (fst (run_transform (br_event num_text ?env) (br_flush ?env) s ms))"
    if "list_ex (\<lambda>m. br_payload m = None \<or> headerString m (text_of '':message-type'') \<notin> {None, Some (text_of ''event'')}) ms" for s ms
    using that
  proof (induction ms arbitrary: s)
    case (Cons m ms)
    show ?case
    proof (cases "br_event num_text ?env m s")
      case (Some r)
      then obtain s1 out where r: "br_event num_text ?env m s = Some (s1, out)" by (cases r) simp
      with Cons.prems bad [of m s] have "list_ex (\<lambda>m. br_payload m = None \<or> headerString m (text_of '':message-type'') \<notin> {None, Some (text_of ''event'')}) ms"
        by auto
      from Cons.IH [OF this, of s1] quiet [OF r] r show ?thesis by (simp add: case_prod_unfold Let_def)
    qed simp
  qed simp
  show ?thesis
    using assms partial failing by (auto simp: bedrock_bytes_def bedrock_upstream_def Let_def)
qed

section \<open>Examples\<close>

lemma frame_small:
  assumes "list_all (\<lambda>h. length (fst h) < 64 \<and> length (snd h) < 64) hs" "length hs < 10" "length t < 1000000"
  shows "length (frame_bytes (hs, t)) < 2 ^ 32"
proof -
  have one: "length (encode_header h) \<le> 600" if "length (fst h) < 64" "length (snd h) < 64" for h
    using that utf8_length [of "fst h"] utf8_length [of "snd h"] by (simp add: encode_header_def Let_def)
  have "length (concat (map encode_header hs)) \<le> 600 * length hs"
    using assms(1)
  proof (induction hs)
    case (Cons h hs)
    with one [of h] show ?case by simp
  qed simp
  with assms(2,3) utf8_length [of t] show ?thesis
    by (simp add: frame_bytes_def encodeEventStreamMessage_def Let_def)
qed

text \<open>The stream of the adapter's own test, with the headers Bedrock documents.\<close>

definition demo_event_headers :: "string \<Rightarrow> (codepoints \<times> codepoints) list" where
  "demo_event_headers name = [(text_of '':event-type'', text_of name), (text_of '':content-type'', text_of ''application/json''),
     (text_of '':message-type'', text_of ''event'')]"

definition demo_block :: "string \<Rightarrow> nat \<Rightarrow> (string \<times> jtext json) list \<Rightarrow> string \<times> jtext json" where
  "demo_block name n ms = (name, jobj ((''contentBlockIndex'', jnat n) # ms))"

definition demo_converse :: "(string \<times> jtext json) list" where
  "demo_converse =
     [(''messageStart'', jobj [(''role'', jt ''assistant'')]),
      demo_block ''contentBlockDelta'' 0 [(''delta'', jobj [(''text'', jt ''Hello'')])],
      demo_block ''contentBlockDelta'' 0 [(''delta'', jobj [(''text'', jt '' there'')])],
      demo_block ''contentBlockStop'' 0 [],
      demo_block ''contentBlockStart'' 1 [(''start'', jobj [(''toolUse'', jobj [(''toolUseId'', jt ''tu1''), (''name'', jt ''get_weather'')])])],
      demo_block ''contentBlockDelta'' 1 [(''delta'', jobj [(''toolUse'', jobj [(''input'', jt ''{}'')])])],
      demo_block ''contentBlockStop'' 1 [],
      (''messageStop'', jobj [(''stopReason'', jt ''tool_use'')]),
      (''metadata'', jobj [(''usage'', jobj [(''inputTokens'', JNum 1), (''outputTokens'', JNum 0), (''totalTokens'', JNum 1)]),
         (''metrics'', jobj [(''latencyMs'', JNum 1)])])]"

definition demo_frames :: "wire_frame list" where
  "demo_frames = map (\<lambda>(name, v). (demo_event_headers name, json_stringify demo_num_text v)) demo_converse"

definition demo_turn :: reply where
  "demo_turn = \<lparr>ry_blocks = [TextPart [text_of ''Hello'', text_of '' there''], ToolPart (text_of ''tu1'') (text_of ''get_weather'') [text_of ''{}'']],
     ry_stop = Some (text_of ''tool_use''), ry_input = 1, ry_output = 0\<rparr>"

lemma demo_digits: "demo_num_text 0 = [48]" "demo_num_text 1 = [49]"
  by (simp_all add: demo_num_text_def text_of_def int_str_def nat_str.simps)

lemma plain_ascii: "plain_text (text_of s)"
proof -
  have "of_char c \<noteq> (65279 :: nat)" for c
    using nat_of_char_less_256 [of c] by linarith
  then show ?thesis
    using ascii_scalar [of s] by (cases s) (simp_all add: plain_text_def text_of_def)
qed

lemma stringify_plain:
  assumes "renders_integers num_text" "plain_json (jobj ms)"
  shows "plain_text (json_stringify num_text (jobj ms))"
proof -
  have "\<exists>r. json_stringify num_text (jobj ms) = 123 # r" by (simp add: jobj_def)
  with readable_scalar [OF readable_stringify [OF assms]] show ?thesis by (auto simp: plain_text_def)
qed

lemma jobj_plain:
  "plain_json (jobj ms) \<longleftrightarrow> distinct (map fst ms) \<and> (\<forall>(k, v) \<in> set ms. plain_json v)"
proof -
  have "map fst (map (\<lambda>(k, v). (text_of k, v)) ms) = map text_of (map fst ms)" by (simp add: case_prod_unfold comp_def)
  moreover have "inj text_of" by (rule injI) simp
  ultimately show ?thesis
    unfolding jobj_def by (auto simp: distinct_map inj_on_def ascii_scalar)
qed

lemma jt_plain: "plain_json (jt s)"
  by (simp add: jt_def ascii_scalar)

lemma demo_converse_shape:
  assumes "(name, v) \<in> set demo_converse"
  shows "\<exists>ms. v = jobj ms \<and> plain_json (jobj ms)" "length name < 64"
    "length (json_stringify demo_num_text v) < 1000000"
proof -
  from assms show "\<exists>ms. v = jobj ms \<and> plain_json (jobj ms)"
    by (simp add: demo_converse_def demo_block_def) (elim disjE; clarify; intro exI conjI; (rule refl)?; simp add: jobj_plain jt_plain)
  from assms show "length name < 64" by (auto simp: demo_converse_def demo_block_def)
  from assms show "length (json_stringify demo_num_text v) < 1000000"
    by (simp add: demo_converse_def demo_block_def)
      (elim disjE; clarify; simp add: jobj_def jt_def demo_digits print_string_def print_char_def text_of_def)
qed

lemma demo_frames_ok: "list_all frame_ok demo_frames"
proof -
  have "frame_ok (demo_event_headers name, json_stringify demo_num_text v)" if m: "(name, v) \<in> set demo_converse" for name v
  proof -
    from demo_converse_shape [OF m] obtain ms where v: "v = jobj ms" "plain_json (jobj ms)" "length name < 64"
        "length (json_stringify demo_num_text v) < 1000000" by auto
    have hs: "list_all (\<lambda>h. length (fst h) < 64 \<and> length (snd h) < 64) (demo_event_headers name)"
      using v(3) by (simp add: demo_event_headers_def text_of_def)
    have "list_all header_ok (demo_event_headers name)"
      using v(3) by (auto simp: demo_event_headers_def intro!: header_okI plain_ascii) (simp_all add: text_of_def)
    moreover have "distinct (map fst (demo_event_headers name))" by (simp add: demo_event_headers_def)
    moreover have "length (demo_event_headers name) < 10" by (simp add: demo_event_headers_def)
    ultimately show ?thesis
      using frame_small [OF hs _ v(4)] stringify_plain [OF demo_renders v(2)] by (simp add: frame_ok_def v(1))
  qed
  then show ?thesis by (auto simp: demo_frames_def list_all_iff)
qed

lemma demo_frames_read: "those (map frame_event demo_frames) = Some (map (\<lambda>(name, v). (text_of name, v)) demo_converse)"
proof -
  have one: "frame_event (demo_event_headers name, json_stringify demo_num_text v) = Some (text_of name, v)"
    if m: "(name, v) \<in> set demo_converse" for name v
  proof -
    from demo_converse_shape [OF m] obtain ms where v: "v = jobj ms" "plain_json (jobj ms)" by blast
    have "json_stringify demo_num_text v \<noteq> []" by (simp add: v(1) jobj_def)
    then show ?thesis
      using json_roundtrip [OF demo_renders v(2)] by (simp add: frame_event_def demo_event_headers_def v(1) jobj_def)
  qed
  have "those (map (\<lambda>x. Some (g x)) xs) = Some (map g xs)" for g :: "string \<times> jtext json \<Rightarrow> wire_event" and xs
    by (induction xs) simp_all
  moreover have "map frame_event demo_frames = map (\<lambda>x. Some (case x of (name, v) \<Rightarrow> (text_of name, v))) demo_converse"
    unfolding demo_frames_def by (auto simp: one)
  ultimately show ?thesis by simp
qed

lemma demo_converse_reply:
  "br_reply demo_turn 1 (filter (\<lambda>ev. \<not> br_idle ev) (map (\<lambda>(name, v). (text_of name, v)) demo_converse))"
proof -
  let ?ev = "\<lambda>n. (\<lambda>(name, v). (text_of name, v)) (demo_converse ! n)"
  have "filter (\<lambda>ev. \<not> br_idle ev) (map (\<lambda>(name, v). (text_of name, v)) demo_converse) =
      ?ev 0 # concat [[?ev 1, ?ev 2], [?ev 4, ?ev 5]] @ [?ev 7, ?ev 8]"
    by (simp add: demo_converse_def demo_block_def br_idle_def json_string_def jt_def)
  moreover have "fst (?ev 0) = text_of ''messageStart''"
    by (simp add: demo_converse_def)
  moreover have "list_all2 br_writes (ry_blocks demo_turn) [[?ev 1, ?ev 2], [?ev 4, ?ev 5]]"
    by (simp add: demo_turn_def demo_converse_def demo_block_def br_adds_text_def br_adds_input_def br_begins_call_def jt_def)
  moreover have "br_ends demo_turn (?ev 7)" "br_counts demo_turn 1 (?ev 8)"
    by (simp_all add: demo_turn_def demo_converse_def br_ends_def br_counts_def jt_def)
  ultimately show ?thesis unfolding br_reply_def by blast
qed

lemma bedrock_reply_rebuilt_witness:
  "ms_content (accumulated (fst (bedrock_bytes demo_num_text (text_of ''m'') 5 (map frame_bytes demo_frames)))) = text_of ''Hello there''"
  using bedrock_reply_rebuilt [OF demo_frames_ok demo_frames_read demo_converse_reply,
      of "map frame_bytes demo_frames" demo_num_text "text_of ''m''" 5]
  by (simp add: reply_message_def reply_text_def demo_turn_def text_of_def)

lemma bedrock_failure_is_no_success_witness:
  "snd (bedrock_bytes demo_num_text (text_of ''m'') 5 [[0, 0, 0, 1]]) \<and> DoneMark \<notin> set (fst (bedrock_bytes demo_num_text (text_of ''m'') 5 [[0, 0, 0, 1]]))"
proof -
  have "decodeEventStreamMessage [0, 0, 0, 1] = Some (Inl (FrameLength 1))"
    by (simp add: decodeEventStreamMessage_def be_nat_def MIN_MESSAGE_LENGTH_def)
  then have "drain [0, 0, 0, 1] = ([], [0, 0, 0, 1], Some (FrameLength 1))" by (simp add: drain.simps)
  then have "es_failed (es_decode_chunks [[0, 0, 0, 1]]) \<noteq> None"
    by (simp add: es_decode_chunks_def es_transform_def es_start_def es_flush_def concat_bytes_def)
  then show ?thesis by (intro bedrock_failure_is_no_success disjI1)
qed

end
