(* ===== verification/CohereWire.thy ===== *)
theory CohereWire
  imports BedrockWire
begin

text \<open>
  The Cohere adapter of \<open>packages/providers/src/cohere.ts\<close>: the stream transformer and the request and
  response mappings of the v2 chat interface. HTTP, embeddings and token counting are not modelled.

  What an event carries is passed on as it is, under the tests the code makes; a whole response is taken to
  have its declared type.
\<close>

section \<open>The stream\<close>

definition cw_finish :: "jtext option \<Rightarrow> jtext" where
  "cw_finish reason =
     (if reason = Some (text_of ''MAX_TOKENS'') then text_of ''length''
      else if reason = Some (text_of ''TOOL_CALL'') then text_of ''tool_calls''
      else text_of ''stop'')"

definition cw_env :: "jtext \<Rightarrow> int \<Rightarrow> jtext \<Rightarrow> chunk_env" where
  "cw_env uuid created model =
     \<lparr>ce_id = text_of ''chatcmpl-cohere-'' @ take 8 uuid, ce_created = created, ce_model = model\<rparr>"

definition cw_index :: "jtext json \<Rightarrow> rat" where
  "cw_index ev = number_or 0 (opt_field (Some ev) ''index'')"

definition cw_open_delta :: "rat \<Rightarrow> jtext json option \<Rightarrow> jtext json \<Rightarrow> jtext json \<Rightarrow> jtext json" where
  "cw_open_delta i call_id name args =
     jobj [(''tool_calls'', JArr [jobj ((''index'', JNum i) # opt_member ''id'' call_id @
       [(''type'', jt ''function''), (''function'', jobj [(''name'', name), (''arguments'', args)])])])]"

definition cw_args_delta :: "rat \<Rightarrow> jtext json \<Rightarrow> jtext json" where
  "cw_args_delta i args =
     jobj [(''tool_calls'', JArr [jobj [(''index'', JNum i), (''function'', jobj [(''arguments'', args)])]])]"

text \<open>\<open>v.length > 0\<close>: of an object the member \<open>length\<close> (one that is itself a text or an
  array is left aside); other values have none.\<close>

definition has_length :: "jtext json \<Rightarrow> bool" where
  "has_length v =
     (case v of
        JStr t \<Rightarrow> t \<noteq> []
      | JArr vs \<Rightarrow> vs \<noteq> []
      | JObj ms \<Rightarrow>
          (case Option.bind (opt_field (Some v) ''length'') js_primitive of Some q \<Rightarrow> q > 0 | None \<Rightarrow> False)
      | _ \<Rightarrow> False)"

definition cw_content :: "chunk_env \<Rightarrow> jtext json \<Rightarrow> canonical list" where
  "cw_content env ev =
     (let t = nullish (at_path ev [''delta'', ''message'', ''content'', ''text'']) (jt '''')
      in if has_length t then [Chunk (provider_chunk env (text_delta t) None)] else [])"

definition cw_call_start :: "chunk_env \<Rightarrow> jtext json \<Rightarrow> canonical list" where
  "cw_call_start env ev =
     (let tc = at_path ev [''delta'', ''message'', ''tool_calls'']; fn = opt_field tc ''function''
      in if js_truthy tc then
           [Chunk (provider_chunk env (cw_open_delta (cw_index ev) (opt_field tc ''id'')
              (nullish (opt_field fn ''name'') (jt '''')) (nullish (opt_field fn ''arguments'') (jt ''''))) None)]
         else [])"

definition cw_call_delta :: "chunk_env \<Rightarrow> jtext json \<Rightarrow> canonical list" where
  "cw_call_delta env ev =
     (let fn = at_path ev [''delta'', ''message'', ''tool_calls'', ''function'']
      in if js_truthy fn then
           [Chunk (provider_chunk env (cw_args_delta (cw_index ev) (nullish (opt_field fn ''arguments'') (jt ''''))) None)]
         else [])"

text \<open>The last chunk carries the finish reason and, when the event has them, the billed units.\<close>

definition cw_end_chunk :: "chunk_env \<Rightarrow> jtext \<Rightarrow> (jtext json \<times> jtext json) option \<Rightarrow> jtext json" where
  "cw_end_chunk env finish units =
     jobj ([(''id'', JStr (ce_id env)), (''object'', jt ''chat.completion.chunk''),
       (''created'', JNum (of_int (ce_created env))), (''model'', JStr (ce_model env)),
       (''choices'', JArr [jobj [(''index'', JNum 0), (''delta'', jobj []), (''finish_reason'', JStr finish)]])] @
       (case units of
          None \<Rightarrow> []
        | Some (i, out) \<Rightarrow> [(''usage'', jobj [(''prompt_tokens'', i), (''completion_tokens'', out)])]))"

definition cw_end :: "chunk_env \<Rightarrow> jtext json \<Rightarrow> canonical list" where
  "cw_end env ev =
     (let units = at_path ev [''delta'', ''usage'', ''billed_units'']
      in [Chunk (cw_end_chunk env (cw_finish (json_string (at_path ev [''delta'', ''finish_reason''])))
           (if js_truthy units
            then Some (nullish (opt_field units ''input_tokens'') (JNum 0), nullish (opt_field units ''output_tokens'') (JNum 0))
            else None))])"

text \<open>The transformer keeps nothing between events. Reading a field of the event \<open>null\<close> throws.\<close>

definition cw_event :: "chunk_env \<Rightarrow> (unit, jtext json) transform" where
  "cw_event env ev s =
     (let ty = opt_field (Some ev) ''type''
      in if ev = JNull then None
         else Some (s,
           if ty = Some (jt ''content-delta'') then cw_content env ev
           else if ty = Some (jt ''tool-call-start'') then cw_call_start env ev
           else if ty = Some (jt ''tool-call-delta'') then cw_call_delta env ev
           else if ty = Some (jt ''message-end'') then cw_end env ev
           else []))"

definition cohere_upstream :: "jtext \<Rightarrow> jtext \<Rightarrow> int \<Rightarrow> jtext list \<Rightarrow> canonical list \<times> bool" where
  "cohere_upstream uuid model created lines =
     run_transform (sse_step (cw_event (cw_env uuid created model))) (\<lambda>s. [DoneMark]) () lines"

section \<open>Requests\<close>

definition cw_tool_choice :: "jtext json option \<Rightarrow> jtext option" where
  "cw_tool_choice choice =
     (if choice = Some (jt ''none'') then Some (text_of ''NONE'')
      else if choice = Some (jt ''required'') \<or> opt_field choice ''type'' = Some (jt ''function'') then Some (text_of ''REQUIRED'')
      else None)"

definition cw_tool_spec :: "jtext json \<Rightarrow> jtext json option" where
  "cw_tool_spec t =
     (if t = JNull then None
      else let fn = nullish_or (opt_field (Some t) ''function'') (Some t)
           in Some (jobj [(''type'', jt ''function''),
                (''function'', jobj (opt_member ''name'' (opt_field fn ''name'') @ opt_member ''description'' (opt_field fn ''description'') @
                   opt_member ''parameters''
                     (nullish_or (opt_field fn ''parameters'') (Some (jobj [(''type'', jt ''object''), (''properties'', jobj [])])))))]))"

definition cw_call :: "tool_call \<Rightarrow> jtext json" where
  "cw_call c =
     jobj [(''id'', JStr (tl_id c)), (''type'', jt ''function''),
       (''function'', jobj [(''name'', JStr (tl_name c)), (''arguments'', JStr (tl_arguments c))])]"

definition cw_message :: "jtext json \<Rightarrow> jtext json list option" where
  "cw_message m =
     (let role = message_role m
      in if role = Some (text_of ''function'') then Some []
         else if role = Some (text_of ''tool'') then
           map_option (\<lambda>t. [jobj ([(''role'', jt ''tool'')] @ opt_member ''tool_call_id'' (opt_field (Some m) ''tool_call_id'') @
             [(''content'', JStr t)])]) (contentToText m)
         else if role = Some (text_of ''assistant'') \<and> array_of (opt_field (Some m) ''tool_calls'') \<noteq> [] then
           map_option (\<lambda>t. [jobj ([(''role'', jt ''assistant'')] @ (if t \<noteq> [] then [(''content'', JStr t)] else []) @
             [(''tool_calls'', JArr (map cw_call (message_calls m)))])]) (contentToText m)
         else map_option (\<lambda>t. [jobj (opt_member ''role'' (opt_field (Some m) ''role'') @ [(''content'', JStr t)])]) (contentToText m))"

definition cw_body :: "completion_request \<Rightarrow> jtext json option" where
  "cw_body req =
     (case (those (map cw_message (cq_messages req)),
            case cq_tools req of None \<Rightarrow> Some None | Some [] \<Rightarrow> Some None | Some ts \<Rightarrow> map_option Some (those (map cw_tool_spec ts))) of
        (Some messages, Some tools) \<Rightarrow>
          Some (jobj ([(''model'', JStr (cq_model req)), (''messages'', JArr (concat messages))] @
            opt_member ''max_tokens'' (map_option JNum (cq_max_tokens req)) @
            opt_member ''temperature'' (map_option JNum (cq_temperature req)) @
            opt_member ''p'' (map_option JNum (cq_top_p req)) @
            opt_member ''stop_sequences'' (stop_list (cq_stop req)) @
            opt_member ''tools'' (map_option JArr tools) @
            opt_member ''tool_choice'' (if tools = None then None else map_option JStr (cw_tool_choice (cq_tool_choice req))) @
            (if cq_stream req = Some True then [(''stream'', JBool True)] else [])))
      | _ \<Rightarrow> None)"

section \<open>Whole responses\<close>

record cohere_response =
  cx_id :: "jtext option"
  cx_content :: "jtext json list"
  cx_calls :: "jtext json list"
  cx_finish :: "jtext option"
  cx_input :: "rat option"
  cx_output :: "rat option"

definition cx_text :: "jtext json list \<Rightarrow> jtext" where
  "cx_text content =
     concat (map (\<lambda>c. text_value (opt_field (Some c) ''text'')) (filter (\<lambda>c. opt_field (Some c) ''type'' = Some (jt ''text'')) content))"

definition cx_call :: "nat \<Rightarrow> jtext json \<Rightarrow> jtext json" where
  "cx_call n tc =
     (let fn = opt_field (Some tc) ''function''
      in jobj [(''id'', the (nullish_or (opt_field (Some tc) ''id'') (Some (JStr (text_of ''call_'' @ text_of (nat_str n)))))),
           (''type'', jt ''function''),
           (''function'', jobj [(''name'', the (nullish_or (opt_field fn ''name'') (Some (jt '''')))),
              (''arguments'', the (nullish_or (opt_field fn ''arguments'') (Some (jt ''''))))])])"

definition cx_message :: "cohere_response \<Rightarrow> jtext json" where
  "cx_message r =
     (let t = cx_text (cx_content r); calls = map (\<lambda>(n, c). cx_call n c) (enumerate 0 (cx_calls r))
      in if calls \<noteq> []
         then jobj [(''role'', jt ''assistant''), (''content'', if t \<noteq> [] then JStr t else JNull), (''tool_calls'', JArr calls)]
         else jobj [(''role'', jt ''assistant''), (''content'', JStr t)])"

definition from_cohere :: "jtext \<Rightarrow> int \<Rightarrow> jtext \<Rightarrow> cohere_response \<Rightarrow> jtext json" where
  "from_cohere uuid created model r =
     (let i = default_to 0 (cx_input r); out = default_to 0 (cx_output r)
      in jobj
        [(''id'', JStr (case truthy_text (cx_id r) of
             Some t \<Rightarrow> text_of ''chatcmpl-'' @ t | None \<Rightarrow> text_of ''chatcmpl-cohere-'' @ take 8 uuid)),
         (''object'', jt ''chat.completion''), (''created'', JNum (of_int created)), (''model'', JStr model),
         (''choices'', JArr [jobj [(''index'', JNum 0), (''message'', cx_message r), (''finish_reason'', JStr (cw_finish (cx_finish r)))]]),
         (''usage'', jobj [(''prompt_tokens'', JNum i), (''completion_tokens'', JNum out), (''total_tokens'', JNum (i + out))])])"

section \<open>What Cohere sends\<close>

definition cw_delta :: "string \<Rightarrow> (string \<times> jtext json) list \<Rightarrow> (string \<times> jtext json) list \<Rightarrow> jtext json" where
  "cw_delta ty more_fields message = jobj ((''type'', jt ty) # more_fields @ [(''delta'', jobj [(''message'', jobj message)])])"

text \<open>The blocks of a reply, the calls numbered from \<open>k\<close>; blocks of other kinds appear as events the
  transformer does not know.\<close>

fun cw_blocks :: "nat \<Rightarrow> reply_block list \<Rightarrow> jtext json list" where
  "cw_blocks k [] = []"
| "cw_blocks k (TextPart ts # bs) =
     map (\<lambda>t. cw_delta ''content-delta'' [(''index'', JNum 0)] [(''content'', jobj [(''text'', JStr t)])]) ts @ cw_blocks k bs"
| "cw_blocks k (ToolPart i n ts # bs) =
     cw_delta ''tool-call-start'' [(''index'', jnat k)]
       [(''tool_calls'', jobj [(''id'', JStr i), (''type'', jt ''function''),
          (''function'', jobj [(''name'', JStr n), (''arguments'', jt '''')])])] #
     map (\<lambda>t. cw_delta ''tool-call-delta'' [(''index'', jnat k)]
       [(''tool_calls'', jobj [(''function'', jobj [(''arguments'', JStr t)])])]) ts @ cw_blocks (Suc k) bs"
| "cw_blocks k (OtherPart ty # bs) = cw_blocks k bs"

definition cw_events :: "reply \<Rightarrow> jtext json list" where
  "cw_events r =
     cw_blocks 0 (ry_blocks r) @
     [jobj [(''type'', jt ''message-end''),
        (''delta'', jobj (opt_member ''finish_reason'' (map_option JStr (ry_stop r)) @
          [(''usage'', jobj [(''billed_units'', jobj [(''input_tokens'', JNum (ry_input r)), (''output_tokens'', JNum (ry_output r))])])]))]]"

definition cw_unknown :: "jtext json \<Rightarrow> bool" where
  "cw_unknown ev \<longleftrightarrow> ev \<noteq> JNull \<and>
     opt_field (Some ev) ''type'' \<notin> (Some \<circ> jt) ` {''content-delta'', ''tool-call-start'', ''tool-call-delta'', ''message-end''}"

section \<open>The reply is rebuilt\<close>

lemma cw_deltas [simp]:
  "cw_open_delta (of_nat k) c n a = tool_open_delta (int k) c (Some n) a" "cw_args_delta (of_nat k) = tool_args_delta (int k)"
  by (simp_all add: fun_eq_iff cw_open_delta_def cw_args_delta_def tool_open_delta_def tool_args_delta_def opt_member_def)

lemma end_chunk_fields:
  "opt_field (Some (cw_end_chunk env finish units)) ''id'' = Some (JStr (ce_id env))"
  "opt_field (Some (cw_end_chunk env finish units)) ''model'' = Some (JStr (ce_model env))"
  "opt_field (Some (cw_end_chunk env finish units)) ''created'' = Some (JNum (of_int (ce_created env)))"
  "captureUsage (opt_field (Some (cw_end_chunk env finish (Some (JNum i, JNum out)))) ''usage'') old = Some \<lparr>au_prompt = i, au_completion = out, au_total = i + out\<rparr>"
  "is_object (Some (cw_end_chunk env finish units))"
  "first_choice (cw_end_chunk env finish units) =
     Some (jobj [(''index'', JNum 0), (''delta'', jobj []), (''finish_reason'', JStr finish)])"
  by (simp_all add: cw_end_chunk_def first_choice_def captureUsage_def chunk_reading split: option.split)

lemma add_end:
  assumes "finish \<noteq> []"
  shows "acc_add (so_far env content calls f u) (cw_end_chunk env finish (Some (JNum i, JNum out))) =
     so_far env content calls (Some finish) (Some \<lparr>au_prompt = i, au_completion = out, au_total = i + out\<rparr>)"
    "acc_add acc_new (cw_end_chunk env finish (Some (JNum i, JNum out))) =
     so_far env [] [] (Some finish) (Some \<lparr>au_prompt = i, au_completion = out, au_total = i + out\<rparr>)"
proof -
  let ?u = "Some \<lparr>au_prompt = i, au_completion = out, au_total = i + out\<rparr>"
  have env: "acc_envelope (cw_end_chunk env finish (Some (JNum i, JNum out))) (so_far env content calls f u) = so_far env content calls f ?u"
    "acc_envelope (cw_end_chunk env finish (Some (JNum i, JNum out))) acc_new = so_far env [] [] None ?u" for content calls f u
    by (simp_all add: acc_envelope_def end_chunk_fields so_far_def acc_new_def numbered_def or_else_def split: option.split)
  have same: "first_choice (cw_end_chunk env finish (Some (JNum i, JNum out))) = first_choice (provider_chunk env (jobj []) (Some finish))"
    by (simp add: end_chunk_fields chunk_fields)
  show "acc_add (so_far env content calls f u) (cw_end_chunk env finish (Some (JNum i, JNum out))) = so_far env content calls (Some finish) ?u"
    "acc_add acc_new (cw_end_chunk env finish (Some (JNum i, JNum out))) = so_far env [] [] (Some finish) ?u"
    using assms by (simp_all add: acc_add_def end_chunk_fields(5) env same choice_step add_empty truthy_text_def or_else_def)
qed

text \<open>The first chunk fills the envelope in, whatever it is.\<close>

definition started :: "chunk_env \<Rightarrow> accumulator \<Rightarrow> bool" where
  "started env a \<longleftrightarrow> a = acc_new \<or> a = so_far env [] [] None None"

lemma started_chunk: "started env a \<Longrightarrow> acc_add a (provider_chunk env d None) = acc_add (so_far env [] [] None None) (provider_chunk env d None)"
  by (auto simp: started_def add_chunk add_first_chunk truthy_text_def or_else_def)

lemma started_end:
  "started env a \<Longrightarrow> finish \<noteq> [] \<Longrightarrow>
     acc_add a (cw_end_chunk env finish (Some (JNum i, JNum out))) =
       acc_add (so_far env [] [] None None) (cw_end_chunk env finish (Some (JNum i, JNum out)))"
  by (auto simp: started_def add_end)

text \<open>The chunks of a reply's blocks.\<close>

definition cw_out :: "chunk_env \<Rightarrow> jtext json list \<Rightarrow> jtext json list" where
  "cw_out env evs = chunk_jsons (fst (run_transform (cw_event env) (\<lambda>s. [DoneMark]) () evs))"

lemma cw_run_ok: "JNull \<notin> set evs \<Longrightarrow> \<not> snd (run_transform (cw_event env) (\<lambda>s. [DoneMark]) () evs)"
  by (induction evs) (auto simp: cw_event_def Let_def case_prod_unfold)

lemma cw_out_simps:
  "cw_out env [] = []"
  "ev \<noteq> JNull \<Longrightarrow> cw_out env (ev # evs) = chunk_jsons (snd (the (cw_event env ev ()))) @ cw_out env evs"
  by (simp_all add: cw_out_def cw_event_def Let_def case_prod_unfold)

lemma cw_delta_not_null [simp]: "cw_delta ty ms m \<noteq> JNull"
  by (simp add: cw_delta_def)

lemma cw_event_text:
  "chunk_jsons (snd (the (cw_event env (cw_delta ''content-delta'' [(''index'', JNum 0)] [(''content'', jobj [(''text'', JStr t)])]) ()))) =
     (if t \<noteq> [] then [provider_chunk env (text_delta (JStr t)) None] else [])"
  by (simp add: cw_delta_def cw_event_def field_path cw_content_def has_length_def Let_def)

lemma cw_event_open:
  "chunk_jsons (snd (the (cw_event env (cw_delta ''tool-call-start'' [(''index'', jnat k)]
      [(''tool_calls'', jobj [(''id'', JStr i), (''type'', jt ''function''),
         (''function'', jobj [(''name'', JStr n), (''arguments'', jt '''')])])]) ()))) =
     [provider_chunk env (tool_open_delta (int k) (Some (JStr i)) (Some (JStr n)) (JStr [])) None]"
  by (simp add: cw_delta_def cw_event_def field_path cw_call_start_def cw_index_def number_or_def Let_def
      json_number_def jt_def, simp add: text_of_def)

lemma cw_event_args:
  "chunk_jsons (snd (the (cw_event env (cw_delta ''tool-call-delta'' [(''index'', jnat k)]
      [(''tool_calls'', jobj [(''function'', jobj [(''arguments'', JStr t)])])]) ()))) =
     [provider_chunk env (tool_args_delta (int k) (JStr t)) None]"
  by (simp add: cw_delta_def cw_event_def field_path cw_call_delta_def cw_index_def number_or_def Let_def json_number_def)

definition cw_last :: "reply \<Rightarrow> jtext json" where
  "cw_last r = jobj [(''type'', jt ''message-end''),
     (''delta'', jobj (opt_member ''finish_reason'' (map_option JStr (ry_stop r)) @
       [(''usage'', jobj [(''billed_units'', jobj [(''input_tokens'', JNum (ry_input r)), (''output_tokens'', JNum (ry_output r))])])]))]"

lemma cw_event_last:
  "cw_out env [cw_last r] = [cw_end_chunk env (cw_finish (ry_stop r)) (Some (JNum (ry_input r), JNum (ry_output r)))]"
proof -
  have n: "cw_last r \<noteq> JNull" by (simp add: cw_last_def)
  have "json_string (at_path (cw_last r) [''delta'', ''finish_reason'']) = ry_stop r"
    by (cases "ry_stop r") (simp_all add: cw_last_def opt_member_def, simp add: json_string_def)
  moreover have "at_path (cw_last r) [''delta'', ''usage'', ''billed_units''] =
      Some (jobj [(''input_tokens'', JNum (ry_input r)), (''output_tokens'', JNum (ry_output r))])"
    by (cases "ry_stop r") (simp_all add: cw_last_def opt_member_def)
  moreover have "opt_field (Some (cw_last r)) ''type'' = Some (jt ''message-end'')"
    by (simp add: cw_last_def field_path)
  ultimately show ?thesis
    using n by (simp add: cw_out_simps cw_event_def cw_end_def Let_def field_path number_or_def json_number_def)
qed

lemma cw_texts_out:
  "foldl acc_add (so_far env c cs f u) (cw_out env
      (map (\<lambda>t. cw_delta ''content-delta'' [(''index'', JNum 0)] [(''content'', jobj [(''text'', JStr t)])]) ts @ rest)) =
     foldl acc_add (so_far env (c @ concat ts) cs f u) (cw_out env rest)"
proof (induction ts arbitrary: c)
  case (Cons t ts)
  from Cons.IH [of "c @ t"] Cons.IH [of c] show ?case
    by (simp add: cw_out_simps cw_event_text add_chunk add_text truthy_text_def or_else_def)
qed simp

lemma cw_args_out:
  "foldl acc_add (so_far env c (cs @ [(i, n, a)]) f u) (cw_out env
      (map (\<lambda>t. cw_delta ''tool-call-delta'' [(''index'', jnat (length cs))]
        [(''tool_calls'', jobj [(''function'', jobj [(''arguments'', JStr t)])])]) ts @ rest)) =
     foldl acc_add (so_far env c (cs @ [(i, n, a @ concat ts)]) f u) (cw_out env rest)"
proof (induction ts arbitrary: a)
  case (Cons t ts)
  from Cons.IH [of "a @ t"] show ?case
    by (simp add: cw_out_simps cw_event_args add_chunk add_tool_args truthy_text_def or_else_def)
qed simp

lemma cw_blocks_out:
  "foldl acc_add (so_far env c cs f u) (cw_out env (cw_blocks (length cs) bs @ rest)) =
     foldl acc_add (so_far env (c @ reply_text bs) (cs @ reply_calls bs) f u) (cw_out env rest)"
proof (induction bs arbitrary: c cs)
  case Nil
  show ?case by (simp add: reply_text_def reply_calls_def map_filter_simps)
next
  case (Cons b bs)
  have split: "reply_calls (b # bs) = reply_calls [b] @ reply_calls bs" "reply_text (b # bs) = block_text b @ reply_text bs"
    by (simp_all add: reply_calls_def reply_text_def map_filter_simps split: option.split)
  show ?case
  proof (cases b)
    case (TextPart ts)
    with Cons.IH [of "c @ concat ts" cs] split show ?thesis
      by (simp add: cw_texts_out) (simp add: reply_calls_def map_filter_simps)
  next
    case (ToolPart i n ts)
    with Cons.IH [of c "cs @ [(i, n, concat ts)]"] split show ?thesis
      by (simp add: cw_out_simps cw_event_open add_chunk add_tool_open cw_args_out truthy_text_def or_else_def)
        (simp add: reply_calls_def map_filter_simps)
  next
    case (OtherPart ty)
    with Cons.IH [of c cs] split show ?thesis by simp (simp add: reply_calls_def map_filter_simps)
  qed
qed

lemma cw_started_out:
  assumes "started env a"
  shows "foldl acc_add a (cw_out env (cw_blocks k bs @ [cw_last r])) =
    foldl acc_add (so_far env [] [] None None) (cw_out env (cw_blocks k bs @ [cw_last r]))"
proof (induction bs arbitrary: k)
  case Nil
  have "cw_finish (ry_stop r) \<noteq> []" by (simp add: cw_finish_def text_of_def)
  then show ?case using started_end [OF assms] by (simp add: cw_event_last)
next
  case (Cons b bs)
  show ?case
  proof (cases b)
    case (TextPart ts)
    have "foldl acc_add a (cw_out env (map (\<lambda>t. cw_delta ''content-delta'' [(''index'', JNum 0)] [(''content'', jobj [(''text'', JStr t)])]) ts @
          cw_blocks k bs @ [cw_last r])) =
        foldl acc_add (so_far env [] [] None None) (cw_out env (map (\<lambda>t. cw_delta ''content-delta'' [(''index'', JNum 0)]
          [(''content'', jobj [(''text'', JStr t)])]) ts @ cw_blocks k bs @ [cw_last r]))"
      using Cons.IH [of k] by (induction ts) (simp_all add: cw_out_simps cw_event_text started_chunk [OF assms])
    then show ?thesis by (simp add: TextPart)
  next
    case (ToolPart i n ts)
    then show ?thesis by (simp add: cw_out_simps cw_event_open started_chunk [OF assms])
  next
    case (OtherPart ty)
    with Cons show ?thesis by simp
  qed
qed

definition cw_reply_usage :: "reply \<Rightarrow> acc_usage" where
  "cw_reply_usage r = \<lparr>au_prompt = ry_input r, au_completion = ry_output r, au_total = ry_input r + ry_output r\<rparr>"

lemma cw_blocks_not_null: "JNull \<notin> set (cw_blocks k bs)"
  by (induction k bs rule: cw_blocks.induct) (auto simp: image_iff dest: cw_delta_not_null [THEN not_sym, THEN notE])

lemma cohere_rebuilt:
  assumes "filter (\<lambda>ev. \<not> cw_unknown ev) (List.map_filter data_event lines) = cw_events r"
  shows "\<not> snd (cohere_upstream uuid model created lines) \<and>
    accumulated (fst (cohere_upstream uuid model created lines)) =
      reply_message (cw_env uuid created model) (reply_text (ry_blocks r)) (reply_calls (ry_blocks r))
        (Some (cw_finish (ry_stop r))) (Some (cw_reply_usage r))"
proof -
  let ?env = "cw_env uuid created model"
  have events: "cw_events r = cw_blocks 0 (ry_blocks r) @ [cw_last r]" by (simp add: cw_events_def cw_last_def)
  have skip: "cw_unknown ev \<Longrightarrow> cw_event ?env ev s = Some (s, [])" for ev s
    by (auto simp: cw_unknown_def cw_event_def image_iff)
  have run: "cohere_upstream uuid model created lines = run_transform (cw_event ?env) (\<lambda>s. [DoneMark]) () (cw_events r)"
    unfolding cohere_upstream_def run_sse assms [symmetric] by (rule run_filter) (simp add: skip)
  have "JNull \<notin> set (cw_events r)" using cw_blocks_not_null jobj_not_null [THEN not_sym] by (simp add: events cw_last_def)
  then have ok: "\<not> snd (cohere_upstream uuid model created lines)" unfolding run by (rule cw_run_ok)
  have fin: "cw_finish (ry_stop r) \<noteq> []" by (simp add: cw_finish_def text_of_def)
  have "accumulated (fst (cohere_upstream uuid model created lines)) = acc_result (foldl acc_add acc_new (cw_out ?env (cw_events r)))"
    by (simp add: run accumulated_def cw_out_def)
  also have "foldl acc_add acc_new (cw_out ?env (cw_events r)) = foldl acc_add (so_far ?env [] [] None None) (cw_out ?env (cw_events r))"
    unfolding events by (rule cw_started_out) (simp add: started_def)
  also have "\<dots> = so_far ?env (reply_text (ry_blocks r)) (reply_calls (ry_blocks r)) (Some (cw_finish (ry_stop r))) (Some (cw_reply_usage r))"
    using cw_blocks_out [of ?env "[]" "[]" None None "ry_blocks r" "[cw_last r]"] fin
    by (simp add: events cw_event_last add_end cw_reply_usage_def)
  finally show ?thesis using ok by (simp add: so_far_result)
qed

text \<open>A reply that Cohere streams is the message the gateway's accumulator rebuilds from the canonical
  stream, however texts and tool arguments are cut into fragments and whatever events the adapter does not
  know are mixed in, in order: the whole text, the tool calls with ids, names and arguments, the mapped
  finish reason and the billed tokens. The stream does not fail.\<close>

theorem cohere_reply_rebuilt:
  assumes "filter (\<lambda>ev. \<not> cw_unknown ev) (List.map_filter data_event lines) = cw_events r"
  shows "\<not> snd (cohere_upstream uuid model created lines) \<and>
    accumulated (fst (cohere_upstream uuid model created lines)) =
      reply_message (cw_env uuid created model) (reply_text (ry_blocks r)) (reply_calls (ry_blocks r))
        (Some (cw_finish (ry_stop r))) (Some (cw_reply_usage r))"
  by (rule cohere_rebuilt [OF assms])

text \<open>A generation that Cohere reports as failed reaches the client as one that stopped normally.\<close>

lemma cohere_error_is_stop: "cw_finish (Some (text_of ''ERROR'')) = text_of ''stop''"
  by (simp add: cw_finish_def)

section \<open>Example\<close>

definition cw_demo :: reply where
  "cw_demo = \<lparr>ry_blocks = [TextPart [text_of ''Hi'']], ry_stop = None, ry_input = 3, ry_output = 1\<rparr>"

lemma cohere_reply_rebuilt_witness:
  "\<exists>lines. accumulated (fst (cohere_upstream [] [] 0 lines)) =
     reply_message (cw_env [] 0 []) (text_of ''Hi'') [] (Some (text_of ''stop'')) (Some \<lparr>au_prompt = 3, au_completion = 1, au_total = 4\<rparr>)"
proof -
  define lines where "lines = map (\<lambda>ev. text_of ''data: '' @ json_stringify demo_num_text (JObj (members ev))) (cw_events cw_demo)"
  have events: "cw_events cw_demo = map (\<lambda>ev. JObj (members ev)) (cw_events cw_demo)"
    by (simp add: cw_events_def cw_demo_def cw_delta_def)
  have plain: "list_all (\<lambda>ms. plain_json (JObj ms)) (map members (cw_events cw_demo))"
    by (simp add: cw_events_def cw_demo_def cw_delta_def members_def jobj_def jt_def ascii_scalar opt_member_def)
  have "List.map_filter data_event lines = cw_events cw_demo"
    using written_events [OF plain] events by (simp add: lines_def comp_def)
  moreover have "filter (\<lambda>ev. \<not> cw_unknown ev) (cw_events cw_demo) = cw_events cw_demo"
    by (simp add: cw_events_def cw_demo_def cw_delta_def cw_unknown_def field_path)
  ultimately have "filter (\<lambda>ev. \<not> cw_unknown ev) (List.map_filter data_event lines) = cw_events cw_demo" by simp
  from cohere_reply_rebuilt [OF this, of "[]" "[]" 0] show ?thesis
    by (intro exI [of _ lines]) (simp add: cw_demo_def reply_text_def reply_calls_def cw_reply_usage_def cw_finish_def map_filter_simps)
qed

end
