(* ===== verification/Egress.thy ===== *)
theory Egress
  imports Session
begin

text \<open>
  The upstream HTTP client \<open>ProviderClient\<close> of \<open>packages/providers/src/client.ts\<close>: which hosts bypass the
  egress proxy, which native client a request uses, whose headers win, the request timeout, and the retry
  loop. The runtime's fetch is an argument: the result of each attempt; so are the random draws of the
  jitter. The timers that guard a response body are not modelled.
\<close>

section \<open>No-proxy patterns\<close>

definition splitCsv :: "string option \<Rightarrow> string list" where
  "splitCsv v =
     (case v of
        None \<Rightarrow> []
      | Some s \<Rightarrow> if s = [] then [] else filter (\<lambda>p. p \<noteq> []) (map js_trim (split_on CHR '','' s)))"

definition ends_with :: "string \<Rightarrow> string \<Rightarrow> bool" where
  "ends_with s t \<longleftrightarrow> length t \<le> length s \<and> drop (length s - length t) s = t"

definition matchesNoProxyPattern :: "string \<Rightarrow> string \<Rightarrow> bool" where
  "matchesNoProxyPattern host0 pattern0 =
     (let host = js_lower (js_trim host0); pat = js_lower (js_trim pattern0)
      in if pat = [] then False
         else if pat = ''*'' then True
         else if pat = host then True
         else if take 1 pat = ''.'' then host = drop 1 pat \<or> ends_with host pat
         else if take 2 pat = ''*.'' then ends_with host (drop 1 pat)
         else False)"

definition shouldBypassProxy :: "string \<Rightarrow> string list \<Rightarrow> bool" where
  "shouldBypassProxy host patterns = (if host = [] then False else list_ex (matchesNoProxyPattern host) patterns)"

section \<open>The client\<close>

text \<open>\<open>Deno.createHttpClient\<close> is an argument: what it makes of the proxy and certificate options, or a
  throw.\<close>

record http_options =
  ho_proxy :: "(string \<times> (string \<times> string) option) option"
  ho_caCerts :: "string list option"

record retry_options =
  ro_maxRetries :: "int option"
  ro_initialDelayMs :: "rat option"
  ro_maxDelayMs :: "rat option"
  ro_proxyUrl :: "string option"
  ro_proxyUsername :: "string option"
  ro_proxyPassword :: "string option"
  ro_extraHeaders :: "(string \<times> string) list"
  ro_requestTimeoutMs :: "rat option"
  ro_streamIdleTimeoutMs :: "rat option"
  ro_noProxy :: "string list"
  ro_caCertPem :: "string option"

record 'c provider_client =
  pc_maxRetries :: int
  pc_initialDelayMs :: rat
  pc_maxDelayMs :: rat
  pc_extraHeaders :: "(string \<times> string) list"
  pc_requestTimeoutMs :: rat
  pc_streamIdleTimeoutMs :: rat
  pc_noProxy :: "string list"
  pc_proxyClient :: "'c option"
  pc_directClient :: "'c option"

definition DEFAULT_TIMEOUT_MS :: rat where
  "DEFAULT_TIMEOUT_MS = 120000"

definition resolveTimeoutMs :: "rat option \<Rightarrow> string option \<Rightarrow> rat" where
  "resolveTimeoutMs explicit env =
     (case explicit of
        Some t \<Rightarrow> if t > 0 then t else 0
      | None \<Rightarrow>
          (case env of
             Some e \<Rightarrow>
               if js_trim e = [] then DEFAULT_TIMEOUT_MS
               else (case js_number e of
                       Some n \<Rightarrow> if n \<ge> 0 then n else DEFAULT_TIMEOUT_MS
                     | None \<Rightarrow> DEFAULT_TIMEOUT_MS)
           | None \<Rightarrow> DEFAULT_TIMEOUT_MS))"

definition nonempty_opt :: "string option \<Rightarrow> string option" where
  "nonempty_opt v = (case v of Some s \<Rightarrow> if s = [] then None else Some s | None \<Rightarrow> None)"

definition new_client ::
  "(http_options \<Rightarrow> 'c option) option \<Rightarrow> string option \<Rightarrow> string option \<Rightarrow> retry_options \<Rightarrow> 'c provider_client" where
  "new_client factory env_timeout env_noproxy o1 =
     (let ca = map_option (\<lambda>pem. [pem]) (nonempty_opt (ro_caCertPem o1));
          make = (\<lambda>ho. case factory of Some f \<Rightarrow> f ho | None \<Rightarrow> None);
          auth = map_option (\<lambda>u. (u, case ro_proxyPassword o1 of Some p \<Rightarrow> p | None \<Rightarrow> [])) (ro_proxyUsername o1);
          proxy = (case nonempty_opt (ro_proxyUrl o1) of
              None \<Rightarrow> None
            | Some url \<Rightarrow>
                (case make \<lparr>ho_proxy = Some (url, auth), ho_caCerts = ca\<rparr> of
                   Some c \<Rightarrow> Some c
                 | None \<Rightarrow> if ca = None then None else make \<lparr>ho_proxy = Some (url, auth), ho_caCerts = None\<rparr>));
          direct = (if ca = None then None else make \<lparr>ho_proxy = None, ho_caCerts = ca\<rparr>)
      in \<lparr>pc_maxRetries = (case ro_maxRetries o1 of Some n \<Rightarrow> n | None \<Rightarrow> 3),
          pc_initialDelayMs = (case ro_initialDelayMs o1 of Some d \<Rightarrow> d | None \<Rightarrow> 500),
          pc_maxDelayMs = (case ro_maxDelayMs o1 of Some d \<Rightarrow> d | None \<Rightarrow> 10000),
          pc_extraHeaders = ro_extraHeaders o1,
          pc_requestTimeoutMs = resolveTimeoutMs (ro_requestTimeoutMs o1) env_timeout,
          pc_streamIdleTimeoutMs = (case ro_streamIdleTimeoutMs o1 of Some t \<Rightarrow> if t > 0 then t else 0 | None \<Rightarrow> 0),
          pc_noProxy = ro_noProxy o1 @ splitCsv env_noproxy,
          pc_proxyClient = proxy, pc_directClient = direct\<rparr>)"

text \<open>The host name of the request is the runtime's reading of its URL, empty when there is none.\<close>

definition clientFor :: "'c provider_client \<Rightarrow> string \<Rightarrow> 'c option" where
  "clientFor c host =
     (case pc_proxyClient c of
        Some p \<Rightarrow>
          if pc_noProxy c \<noteq> [] \<and> shouldBypassProxy (js_lower host) (pc_noProxy c) then pc_directClient c else Some p
      | None \<Rightarrow> pc_directClient c)"

text \<open>Header names do not depend on letter case; \<open>Headers.set\<close> replaces. The request's own headers
  are given with distinct names, as the adapters write them.\<close>

type_synonym headers = "(string, string) jmap"

definition headers_set :: "headers \<Rightarrow> (string \<times> string) \<Rightarrow> headers" where
  "headers_set m h = jm_set m (js_lower (fst h)) (snd h)"

definition withExtraHeaders :: "(string \<times> string) list \<Rightarrow> (string \<times> string) list \<Rightarrow> headers" where
  "withExtraHeaders extra own =
     (if extra = [] then foldl headers_set [] own else foldl headers_set (foldl headers_set [] extra) own)"

section \<open>Retries\<close>

text \<open>\<open>parseInt(s, 10)\<close>: leading space, a sign, and the longest run of digits.\<close>

definition js_parseInt :: "string \<Rightarrow> int option" where
  "js_parseInt s =
     (let t = js_trimStart s;
          neg = (take 1 t = ''-'');
          u = (if neg \<or> take 1 t = ''+'' then drop 1 t else t);
          ds = takeWhile is_digit u
      in if ds = [] then None else Some (if neg then - int (digits_val ds) else int (digits_val ds)))"

record http_response =
  hr_status :: int
  hr_retryAfter :: "string option"

text \<open>A fetch that throws: an abort by the caller or a timeout, or anything else.\<close>

datatype fetch_error = Aborted | TimedOut | NetworkError

datatype fetch_result = Got http_response | Threw fetch_error

datatype fetch_outcome = Returned http_response | ProviderError http_response | Rethrown fetch_error

definition final_status :: "http_response \<Rightarrow> bool" where
  "final_status r \<longleftrightarrow> 200 \<le> hr_status r \<and> hr_status r < 300 \<or> hr_status r < 500 \<and> hr_status r \<noteq> 429"

definition retry_delay :: "rat \<Rightarrow> rat \<Rightarrow> http_response \<Rightarrow> rat" where
  "retry_delay maxDelay delay r =
     (case nonempty_opt (hr_retryAfter r) of
        None \<Rightarrow> delay
      | Some v \<Rightarrow> (case js_parseInt v of Some n \<Rightarrow> min maxDelay (of_int (n * 1000)) | None \<Rightarrow> delay))"

definition next_delay :: "rat \<Rightarrow> rat \<Rightarrow> rat \<Rightarrow> rat" where
  "next_delay maxDelay delay rnd = min maxDelay (delay * 2 * (1/2 + rnd))"

text \<open>The outcome, and the sleeps before each further attempt.\<close>

function retry_loop ::
  "int \<Rightarrow> rat \<Rightarrow> (int \<Rightarrow> fetch_result) \<Rightarrow> (int \<Rightarrow> rat) \<Rightarrow> int \<Rightarrow> rat \<Rightarrow> fetch_outcome \<times> rat list" where
  "retry_loop maxRetries maxDelay fetch rnd attempt delay =
     (case fetch attempt of
        Got r \<Rightarrow>
          if final_status r then (Returned r, [])
          else if attempt \<ge> maxRetries then (ProviderError r, [])
          else (let d = retry_delay maxDelay delay r;
                    (out, sleeps) = retry_loop maxRetries maxDelay fetch rnd (attempt + 1) (next_delay maxDelay d (rnd attempt))
                in (out, d # sleeps))
      | Threw e \<Rightarrow>
          if attempt \<ge> maxRetries then (Rethrown e, [])
          else if e = Aborted \<or> e = TimedOut then (Rethrown e, [])
          else (let (out, sleeps) = retry_loop maxRetries maxDelay fetch rnd (attempt + 1) (next_delay maxDelay delay (rnd attempt))
                in (out, delay # sleeps)))"
  by pat_completeness auto
termination
  by (relation "measure (\<lambda>(m, d, f, r, a, dl). nat (m - a))") auto

declare retry_loop.simps [simp del]

definition fetchWithRetry ::
  "'c provider_client \<Rightarrow> (int \<Rightarrow> fetch_result) \<Rightarrow> (int \<Rightarrow> rat) \<Rightarrow> fetch_outcome \<times> rat list" where
  "fetchWithRetry c fetch rnd = retry_loop (pc_maxRetries c) (pc_maxDelayMs c) fetch rnd 0 (pc_initialDelayMs c)"

section \<open>What the retry loop does\<close>

definition retryable :: "fetch_result \<Rightarrow> bool" where
  "retryable f = (case f of Got r \<Rightarrow> \<not> final_status r | Threw e \<Rightarrow> e = NetworkError)"

definition outcome_of :: "fetch_result \<Rightarrow> fetch_outcome" where
  "outcome_of f = (case f of Got r \<Rightarrow> if final_status r then Returned r else ProviderError r | Threw e \<Rightarrow> Rethrown e)"

text \<open>The attempts made from \<open>a\<close> on: the retryable ones in a row, but never one past the limit.\<close>

lemma retry_loop_exact:
  assumes "retry_loop m md fetch rnd a d = (out, sleeps)"
  shows "(\<forall>i. a \<le> i \<and> i < a + int (length sleeps) \<longrightarrow> retryable (fetch i)) \<and>
    out = outcome_of (fetch (a + int (length sleeps))) \<and>
    (a + int (length sleeps) < m \<longrightarrow> \<not> retryable (fetch (a + int (length sleeps)))) \<and>
    int (length sleeps) \<le> max 0 (m - a) \<and> list_all (\<lambda>s. s \<le> max d md) sleeps"
  using assms
proof (induction m md fetch rnd a d arbitrary: out sleeps rule: retry_loop.induct)
  case (1 m md fetch rnd a d)
  have go_on: ?case
    if d1: "d1 \<le> max d md" and r: "retryable (fetch a)" and lt: "a < m"
      and rec: "retry_loop m md fetch rnd (a + 1) (next_delay md d1 (rnd a)) = (out, rest)" and s: "sleeps = d1 # rest"
      and IH: "(\<forall>i. a + 1 \<le> i \<and> i < a + 1 + int (length rest) \<longrightarrow> retryable (fetch i)) \<and>
        out = outcome_of (fetch (a + 1 + int (length rest))) \<and>
        (a + 1 + int (length rest) < m \<longrightarrow> \<not> retryable (fetch (a + 1 + int (length rest)))) \<and>
        int (length rest) \<le> max 0 (m - (a + 1)) \<and> list_all (\<lambda>s. s \<le> max (next_delay md d1 (rnd a)) md) rest"
    for d1 rest
  proof -
    have "i = a \<or> a + 1 \<le> i" if "a \<le> i" for i using that by auto
    moreover have "next_delay md d1 (rnd a) \<le> md" by (simp add: next_delay_def)
    then have "list_all (\<lambda>s. s \<le> max d md) rest" using IH by (auto simp: list_all_iff max_def)
    ultimately show ?thesis using IH r d1 lt by (fastforce simp: s algebra_simps)
  qed
  show ?case
  proof (cases "fetch a")
    case (Got r)
    show ?thesis
    proof (cases "final_status r \<or> a \<ge> m")
      case True
      with "1.prems" Got show ?thesis
        by (subst (asm) retry_loop.simps) (auto simp: outcome_of_def retryable_def split: if_splits)
    next
      case False
      let ?d = "retry_delay md d r"
      obtain rest where rec: "retry_loop m md fetch rnd (a + 1) (next_delay md ?d (rnd a)) = (out, rest)" "sleeps = ?d # rest"
        using "1.prems" Got False by (subst (asm) retry_loop.simps) (auto simp: Let_def split: prod.splits)
      have "?d \<le> max d md" by (auto simp: retry_delay_def max_def min_def split: option.split)
      from go_on [OF this _ _ rec "1.IH"(1) [OF Got _ _ refl rec(1)]] False Got show ?thesis
        by (simp add: retryable_def)
    qed
  next
    case (Threw e)
    show ?thesis
    proof (cases "a \<ge> m \<or> e = Aborted \<or> e = TimedOut")
      case True
      with "1.prems" Threw show ?thesis
        by (subst (asm) retry_loop.simps) (auto simp: outcome_of_def retryable_def split: if_splits)
    next
      case False
      obtain rest where rec: "retry_loop m md fetch rnd (a + 1) (next_delay md d (rnd a)) = (out, rest)" "sleeps = d # rest"
        using "1.prems" Threw False by (subst (asm) retry_loop.simps) (auto simp: Let_def split: prod.splits)
      from go_on [OF _ _ _ rec "1.IH"(2) [OF Threw _ _ rec(1)]] False Threw show ?thesis
        by (cases e) (simp_all add: retryable_def)
    qed
  qed
qed

text \<open>C35: The retry loop always ends. It makes at most \<open>maxRetries\<close> further attempts; every attempt before
  the last failed in a retryable way (a 5xx, a 429 or a network error), the answer is that of the last
  attempt, and it stops short of the limit only at an attempt that is not retryable, so that an abort, a
  timeout or a final status is never tried again. No sleep is longer than the configured ceiling (or
  the initial delay, where that is larger), whatever \<open>Retry-After\<close> an upstream sends.\<close>

theorem retries_exact_and_bounded:
  assumes "fetchWithRetry c fetch rnd = (out, sleeps)"
  shows "let n = int (length sleeps)
     in n \<le> max 0 (pc_maxRetries c) \<and> (\<forall>i. 0 \<le> i \<and> i < n \<longrightarrow> retryable (fetch i)) \<and> out = outcome_of (fetch n) \<and>
        (n < pc_maxRetries c \<longrightarrow> \<not> retryable (fetch n)) \<and>
        list_all (\<lambda>s. s \<le> max (pc_initialDelayMs c) (pc_maxDelayMs c)) sleeps"
  using retry_loop_exact [OF assms [unfolded fetchWithRetry_def]] by (simp add: Let_def)

text \<open>A \<open>Retry-After: 0\<close> switches the backoff off: the delay stays zero from then on.\<close>

lemma zero_delay_stays:
  assumes "\<And>i. fetch i = Got \<lparr>hr_status = 503, hr_retryAfter = None\<rparr>" "0 \<le> md"
  shows "snd (retry_loop m md fetch rnd a 0) = replicate (nat (m - a)) 0"
proof (induction "nat (m - a)" arbitrary: a)
  case 0
  then show ?case by (subst retry_loop.simps) (simp add: assms(1) final_status_def)
next
  case (Suc k)
  then have "k = nat (m - (a + 1))" and lt: "a < m" by auto
  from Suc.hyps(1) [OF this(1)] Suc.hyps(2) lt assms(2) show ?case
    by (subst retry_loop.simps)
      (simp add: assms(1) final_status_def retry_delay_def nonempty_opt_def next_delay_def case_prod_unfold Let_def
        flip: replicate_Suc)
qed

section \<open>The proxy bypass is by domain\<close>

lemma ends_with_append: "ends_with s t \<longleftrightarrow> (\<exists>p. s = p @ t)"
proof
  show "ends_with s t \<Longrightarrow> \<exists>p. s = p @ t"
    by (metis append_take_drop_id ends_with_def)
qed (auto simp: ends_with_def)

lemma split_on_inj: "split_on c s = split_on c t \<Longrightarrow> s = t"
  by (metis join_split_on)

lemma split_join_parts:
  "split_on c s = xs @ split_on c t \<Longrightarrow> xs \<noteq> [] \<Longrightarrow> s = join [c] xs @ c # t"
proof -
  assume s: "split_on c s = xs @ split_on c t" "xs \<noteq> []"
  have j: "join [c] (xs @ ys) = join [c] xs @ c # join [c] ys" if "xs \<noteq> []" "ys \<noteq> []" for xs ys
    using that
  proof (induction xs)
    case (Cons x xs)
    then show ?case by (cases xs; cases ys) auto
  qed simp
  have "s = join [c] (split_on c s)" by (simp add: join_split_on)
  also have "\<dots> = join [c] xs @ c # t" unfolding s(1) by (simp add: j [OF s(2)] join_split_on)
  finally show ?thesis .
qed

text \<open>A domain with its labels: \<open>host\<close> is the domain or a name below it.\<close>

definition in_domain :: "string \<Rightarrow> string \<Rightarrow> bool" where
  "in_domain host domain \<longleftrightarrow> (\<exists>ls. split_on CHR ''.'' host = ls @ split_on CHR ''.'' domain)"

definition plain_name :: "string \<Rightarrow> bool" where
  "plain_name s \<longleftrightarrow> js_lower (js_trim s) = s"

lemma dotted_suffix:
  "(\<exists>p. host = p @ CHR ''.'' # d) \<longleftrightarrow> (\<exists>ls. ls \<noteq> [] \<and> split_on CHR ''.'' host = ls @ split_on CHR ''.'' d)"
proof
  assume "\<exists>p. host = p @ CHR ''.'' # d"
  then obtain p where "host = p @ CHR ''.'' # d" by blast
  then have "split_on CHR ''.'' host = split_on CHR ''.'' p @ split_on CHR ''.'' d" by (simp add: split_on_middle)
  then show "\<exists>ls. ls \<noteq> [] \<and> split_on CHR ''.'' host = ls @ split_on CHR ''.'' d" by (intro exI [of _ "split_on CHR ''.'' p"]) simp
next
  assume "\<exists>ls. ls \<noteq> [] \<and> split_on CHR ''.'' host = ls @ split_on CHR ''.'' d"
  then show "\<exists>p. host = p @ CHR ''.'' # d" using split_join_parts by blast
qed

text \<open>A no-proxy pattern bypasses by domain, never by accident of spelling. For a domain \<open>d\<close> in plain
  lower case, \<open>.d\<close> lets exactly the hosts of that domain past the proxy (the domain itself and every name
  below it, label by label) and \<open>*.d\<close> exactly those below it; \<open>evil-d\<close> is not among them.\<close>

theorem no_proxy_by_domain:
  assumes "plain_name host" "plain_name (CHR ''.'' # d)" "plain_name (''*.'' @ d)" "host \<noteq> []"
  shows "shouldBypassProxy host [CHR ''.'' # d] = (in_domain host d \<or> host = CHR ''.'' # d) \<and>
    shouldBypassProxy host [''*.'' @ d] =
      (in_domain host d \<and> split_on CHR ''.'' host \<noteq> split_on CHR ''.'' d \<or> host = ''*.'' @ d)"
proof -
  have pats: "matchesNoProxyPattern host (CHR ''.'' # d) \<longleftrightarrow> host = CHR ''.'' # d \<or> host = d \<or> ends_with host (CHR ''.'' # d)"
    "matchesNoProxyPattern host (''*.'' @ d) \<longleftrightarrow> host = ''*.'' @ d \<or> ends_with host (CHR ''.'' # d)"
    using assms(1-3) unfolding plain_name_def matchesNoProxyPattern_def Let_def by auto
  have below: "ends_with host (CHR ''.'' # d) \<longleftrightarrow> in_domain host d \<and> split_on CHR ''.'' host \<noteq> split_on CHR ''.'' d"
    unfolding ends_with_append dotted_suffix in_domain_def by (metis append_Nil self_append_conv2)
  have same: "host = d \<Longrightarrow> in_domain host d" "in_domain host d \<Longrightarrow> split_on CHR ''.'' host = split_on CHR ''.'' d \<Longrightarrow> host = d"
    unfolding in_domain_def by (auto dest: split_on_inj)
  show ?thesis
    using assms(4) same unfolding shouldBypassProxy_def list_ex_iff list.set Bex_def singleton_iff simp_thms pats below by auto
qed

section \<open>Whose headers win\<close>

lemma own_headers_kept:
  "(n, v) \<in> set own \<Longrightarrow> distinct (map (\<lambda>h. js_lower (fst h)) own) \<Longrightarrow> jm_get (foldl headers_set m own) (js_lower n) = Some v"
proof (induction own rule: rev_induct)
  case (snoc h own)
  show ?case
  proof (cases "(n, v) = h")
    case False
    with snoc.prems have "(n, v) \<in> set own" "js_lower n \<noteq> js_lower (fst h)" by (auto simp: rev_image_eqI)
    with snoc show ?thesis by (simp add: headers_set_def)
  qed (auto simp: headers_set_def)
qed simp

text \<open>An operator's extra header never replaces one the adapter sets, whatever its letter case: credentials
  and content types stay the adapter's.\<close>

lemma adapter_headers_win:
  "(n, v) \<in> set own \<Longrightarrow> distinct (map (\<lambda>h. js_lower (fst h)) own) \<Longrightarrow>
     jm_get (withExtraHeaders extra own) (js_lower n) = Some v"
  by (simp add: withExtraHeaders_def own_headers_kept)

section \<open>Examples\<close>

definition demo_client :: "unit provider_client" where
  "demo_client = \<lparr>pc_maxRetries = 3, pc_initialDelayMs = 500, pc_maxDelayMs = 10000, pc_extraHeaders = [],
     pc_requestTimeoutMs = 0, pc_streamIdleTimeoutMs = 0, pc_noProxy = [], pc_proxyClient = None, pc_directClient = None\<rparr>"

definition demo_fetch :: "int \<Rightarrow> fetch_result" where
  "demo_fetch i = (if i < 2 then Got \<lparr>hr_status = 503, hr_retryAfter = None\<rparr> else Got \<lparr>hr_status = 200, hr_retryAfter = None\<rparr>)"

lemma demo_run: "fetchWithRetry demo_client demo_fetch (\<lambda>i. 1/2) = (Returned \<lparr>hr_status = 200, hr_retryAfter = None\<rparr>, [500, 1000])"
  by (simp add: fetchWithRetry_def retry_loop.simps demo_client_def demo_fetch_def final_status_def retry_delay_def
      nonempty_opt_def next_delay_def min_def)

lemma retries_exact_and_bounded_witness:
  "outcome_of (demo_fetch 2) = Returned \<lparr>hr_status = 200, hr_retryAfter = None\<rparr> \<and> retryable (demo_fetch 0) \<and> retryable (demo_fetch 1)"
  using retries_exact_and_bounded [OF demo_run] by (simp add: Let_def demo_client_def)

lemma no_proxy_by_domain_witness:
  "shouldBypassProxy ''a.b.c'' [''.b.c''] \<and> \<not> shouldBypassProxy ''ab.c'' [''.b.c'']"
proof -
  have plain: "plain_name ''a.b.c''" "plain_name ''ab.c''" "plain_name ''.b.c''" "plain_name ''*.b.c''"
    by (simp_all add: plain_name_def js_trim_def js_trimStart_def js_trimEnd_def is_space_def js_lower_def lower_char_def)
  have "in_domain ''a.b.c'' ''b.c''" by (simp add: in_domain_def)
  moreover have "\<not> in_domain ''ab.c'' ''b.c''" by (auto simp: in_domain_def append_eq_Cons_conv Cons_eq_append_conv)
  ultimately show ?thesis
    using no_proxy_by_domain [of "''a.b.c''" "''b.c''"] no_proxy_by_domain [of "''ab.c''" "''b.c''"] plain by simp
qed

end
