(* ===== verification/SsrfGuard.thy ===== *)
theory SsrfGuard
  imports Egress
begin

unbundle bit_operations_syntax

text \<open>
  The audio-download guard of the HuggingFace adapter, \<open>packages/providers/src/huggingface.ts\<close>: which
  address texts the gateway never fetches, the checks on the URL an upstream hands out, and the check of the
  addresses its host resolves to. URL
  parsing and DNS resolution belong to the runtime and are arguments.
\<close>

section \<open>Blocked addresses\<close>

text \<open>\<open>replace(/%.*$/, "")\<close> cuts at the first percent sign with no line break after it;
  \<open>replace(/^\[|\]$/g, "")\<close> takes one bracket off each end.\<close>

fun strip_zone :: "string \<Rightarrow> string" where
  "strip_zone [] = []"
| "strip_zone (c # cs) =
     (if c = CHR ''%'' \<and> list_all (\<lambda>d. of_char d \<noteq> (10::nat) \<and> of_char d \<noteq> (13::nat)) cs then [] else c # strip_zone cs)"

definition strip_brackets :: "string \<Rightarrow> string" where
  "strip_brackets s =
     (let t = (if take 1 s = ''['' then drop 1 s else s)
      in if t \<noteq> [] \<and> last t = CHR '']'' then butlast t else t)"

definition is_quad :: "string \<Rightarrow> bool" where
  "is_quad s =
     (let ps = split_on CHR ''.'' s
      in length ps = 4 \<and> list_all (\<lambda>p. p \<noteq> [] \<and> length p \<le> 3 \<and> list_all is_digit p) ps)"

definition after_prefix :: "(string \<Rightarrow> 'a option) \<Rightarrow> string \<Rightarrow> string \<Rightarrow> 'a option" where
  "after_prefix rd s p = (if take (length p) s = p then rd (drop (length p) s) else None)"

definition embedded_quad :: "string \<Rightarrow> string option" where
  "embedded_quad host =
     first_some (after_prefix (\<lambda>r. if is_quad r then Some r else None) host)
       [''::'', ''::ffff:'', ''64:ff9b::'', ''64:ff9b::ffff:'']"

definition hextet :: "string \<Rightarrow> bool" where
  "hextet p \<longleftrightarrow> p \<noteq> [] \<and> length p \<le> 4 \<and> list_all is_hex p"

definition hex_val :: "string \<Rightarrow> nat" where
  "hex_val p = (case read_base 16 0 p of Some n \<Rightarrow> n | None \<Rightarrow> 0)"

definition hextet_pair :: "string \<Rightarrow> (nat \<times> nat) option" where
  "hextet_pair s =
     (case split_on CHR '':'' s of
        [h, l] \<Rightarrow> if hextet h \<and> hextet l then Some (hex_val h, hex_val l) else None
      | _ \<Rightarrow> None)"

definition embedded_hextets :: "string \<Rightarrow> (nat \<times> nat) option" where
  "embedded_hextets host = first_some (after_prefix hextet_pair host) [''::ffff:'', ''64:ff9b::'']"

definition six_to_four :: "string \<Rightarrow> (nat \<times> nat) option" where
  "six_to_four host =
     after_prefix (\<lambda>r. case split_on CHR '':'' r of
        h # l # _ # _ \<Rightarrow> if hextet h \<and> hextet l then Some (hex_val h, hex_val l) else None
      | _ \<Rightarrow> None) host ''2002:''"

definition quad :: "nat \<Rightarrow> nat \<Rightarrow> nat \<Rightarrow> nat \<Rightarrow> string" where
  "quad a b c d = join ''.'' [nat_str a, nat_str b, nat_str c, nat_str d]"

definition v4FromHextets :: "nat \<times> nat \<Rightarrow> string" where
  "v4FromHextets p =
     (case p of (hi, lo) \<Rightarrow>
        quad (drop_bit 8 hi AND 0xFF) (hi AND 0xFF) (drop_bit 8 lo AND 0xFF) (lo AND 0xFF))"

definition blocked_v4 :: "nat \<Rightarrow> nat \<Rightarrow> bool" where
  "blocked_v4 a b \<longleftrightarrow>
     a = 127 \<or> a = 10 \<or> a = 0 \<or> (a = 169 \<and> b = 254) \<or> (a = 172 \<and> 16 \<le> b \<and> b \<le> 31) \<or>
     (a = 192 \<and> b = 168) \<or> (a = 100 \<and> 64 \<le> b \<and> b \<le> 127) \<or> (a = 198 \<and> (b = 18 \<or> b = 19))"

definition unwrap4 :: "string \<Rightarrow> string" where
  "unwrap4 h0 =
     (let h1 = (case embedded_quad h0 of Some q \<Rightarrow> q | None \<Rightarrow> h0);
          h2 = (case embedded_hextets h1 of Some p \<Rightarrow> v4FromHextets p | None \<Rightarrow> h1)
      in case six_to_four h2 of Some p \<Rightarrow> v4FromHextets p | None \<Rightarrow> h2)"

definition isBlockedIp :: "string \<Rightarrow> bool" where
  "isBlockedIp ip =
     (let host = unwrap4 (strip_brackets (strip_zone (js_lower ip)))
      in if is_quad host
         then (let ps = map digits_val (split_on CHR ''.'' host) in blocked_v4 (ps ! 0) (ps ! 1))
         else if host = ''::1'' \<or> host = ''::'' then True
         else if take 3 host \<in> {''fe8'', ''fe9'', ''fea'', ''feb''} then True
         else take 2 host = ''fc'' \<or> take 2 host = ''fd'')"

section \<open>The audio URL of a speech answer\<close>

record url_parts =
  up_protocol :: string
  up_hostname :: string

definition assertSafeAudioUrl :: "(string \<Rightarrow> url_parts option) \<Rightarrow> string \<Rightarrow> string + url_parts" where
  "assertSafeAudioUrl parse_url raw =
     (case parse_url raw of
        None \<Rightarrow> Inl ''invalid upstream audio URL''
      | Some url \<Rightarrow>
          if up_protocol url \<noteq> ''https:'' then Inl (''refusing non-https upstream audio URL: '' @ up_protocol url)
          else (let host = strip_brackets (js_lower (up_hostname url))
                in if CHR '':'' \<in> set host \<or> \<not> list_ex (\<lambda>c. CHR ''a'' \<le> c \<and> c \<le> CHR ''z'') host
                   then Inl ''refusing IP-literal upstream audio host''
                   else if host = ''localhost'' \<or> ends_with host ''.localhost'' \<or> host = ''metadata.google.internal''
                   then Inl ''blocked upstream audio host''
                   else Inr url))"

datatype record_type = RecA | RecAAAA

definition resolved_addresses :: "(string \<Rightarrow> record_type \<Rightarrow> string list option) \<Rightarrow> string \<Rightarrow> string list" where
  "resolved_addresses resolveDns host =
     concat (map (\<lambda>rt. case resolveDns host rt of Some ips \<Rightarrow> ips | None \<Rightarrow> []) [RecA, RecAAAA])"

definition assertResolvedHostSafe ::
  "(string \<Rightarrow> record_type \<Rightarrow> string list option) \<Rightarrow> string \<Rightarrow> string option" where
  "assertResolvedHostSafe resolveDns host =
     (let ips = resolved_addresses resolveDns host
      in if ips = [] then Some ''cannot resolve upstream audio host''
         else if list_ex isBlockedIp ips then Some ''upstream audio host resolves to a blocked address''
         else None)"

text \<open>What the speech route does with the \<open>audio.url\<close> of the envelope: the URL of the guarded fetch, or the
  message of the error it answers with.\<close>

definition speech_audio ::
  "(string \<Rightarrow> url_parts option) \<Rightarrow> (string \<Rightarrow> record_type \<Rightarrow> string list option) \<Rightarrow> string option \<Rightarrow> string + url_parts" where
  "speech_audio parse_url resolveDns audioUrl =
     (case nonempty_opt audioUrl of
        None \<Rightarrow> Inl ''huggingface speech response did not include an audio URL''
      | Some u \<Rightarrow>
          (case assertSafeAudioUrl parse_url u of
             Inl e \<Rightarrow> Inl e
           | Inr url \<Rightarrow>
               (case assertResolvedHostSafe resolveDns (up_hostname url) of Some e \<Rightarrow> Inl e | None \<Rightarrow> Inr url)))"

section \<open>The networks the guard is for\<close>

definition ip4 :: "nat \<Rightarrow> nat \<Rightarrow> nat \<Rightarrow> nat \<Rightarrow> nat" where
  "ip4 a b c d = a * 2 ^ 24 + b * 2 ^ 16 + c * 2 ^ 8 + d"

definition in_cidr :: "nat \<Rightarrow> nat \<times> nat \<Rightarrow> bool" where
  "in_cidr w net = (drop_bit (32 - snd net) w = drop_bit (32 - snd net) (fst net))"

definition internal_networks :: "(nat \<times> nat) list" where
  "internal_networks =
     [(ip4 127 0 0 0, 8), (ip4 10 0 0 0, 8), (ip4 0 0 0 0, 8), (ip4 169 254 0 0, 16), (ip4 172 16 0 0, 12),
      (ip4 192 168 0 0, 16), (ip4 100 64 0 0, 10), (ip4 198 18 0 0, 15)]"

definition internal4 :: "nat \<Rightarrow> bool" where
  "internal4 w \<longleftrightarrow> list_ex (in_cidr w) internal_networks"

text \<open>The address texts that stand for the IPv4 address \<open>w\<close>: dotted, mapped, compatible and NAT64 with a
  dotted tail, mapped and NAT64 with a hexadecimal tail, and 6to4.\<close>

inductive denotes4 :: "string \<Rightarrow> nat \<Rightarrow> bool" where
  dotted: "a < 256 \<Longrightarrow> b < 256 \<Longrightarrow> c < 256 \<Longrightarrow> d < 256 \<Longrightarrow>
    p \<in> {[], ''::'', ''::ffff:'', ''64:ff9b::'', ''64:ff9b::ffff:''} \<Longrightarrow> denotes4 (p @ quad a b c d) (ip4 a b c d)"
| hextets: "hextet h \<Longrightarrow> hextet l \<Longrightarrow> p \<in> {''::ffff:'', ''64:ff9b::''} \<Longrightarrow>
    denotes4 (p @ h @ CHR '':'' # l) (hex_val h * 2 ^ 16 + hex_val l)"
| sixtofour: "hextet h \<Longrightarrow> hextet l \<Longrightarrow> denotes4 (''2002:'' @ h @ CHR '':'' # l @ CHR '':'' # r) (hex_val h * 2 ^ 16 + hex_val l)"

lemma ip4_drop:
  assumes "b < 256" "c < 256" "d < 256"
  shows "ip4 a b c d div 2 ^ 24 = a" "ip4 a b c d div 2 ^ 16 = a * 256 + b" "ip4 a b c d div 2 ^ 20 = a * 16 + b div 16"
    "ip4 a b c d div 2 ^ 22 = a * 4 + b div 64" "ip4 a b c d div 2 ^ 17 = a * 128 + b div 2"
  using assms unfolding ip4_def by simp_all

lemma radix_eq: "r < n \<Longrightarrow> a * n + r = k \<longleftrightarrow> a = k div n \<and> r = k mod n" for a n k r :: nat
  by (auto simp: div_mult_mod_eq)

lemma quotient_eq: "0 < n \<Longrightarrow> b div n = m \<longleftrightarrow> n * m \<le> b \<and> b < n * Suc m" for b n m :: nat
  by (auto intro: div_nat_eqI simp: dividend_less_times_div)

lemma internal4_octets:
  assumes "b < 256" "c < 256" "d < 256"
  shows "internal4 (ip4 a b c d) \<longleftrightarrow> blocked_v4 a b"
proof -
  have nets: "ip4 127 0 0 0 div 2 ^ 24 = 127" "ip4 10 0 0 0 div 2 ^ 24 = 10" "ip4 0 0 0 0 div 2 ^ 24 = 0"
    "ip4 169 254 0 0 div 2 ^ 16 = 169 * 256 + 254" "ip4 172 16 0 0 div 2 ^ 20 = 172 * 16 + 1"
    "ip4 192 168 0 0 div 2 ^ 16 = 192 * 256 + 168" "ip4 100 64 0 0 div 2 ^ 22 = 100 * 4 + 1"
    "ip4 198 18 0 0 div 2 ^ 17 = 198 * 128 + 9"
    by (simp_all add: ip4_def)
  have "b div 16 < 16" "b div 64 < 4" "b div 2 < 128" using assms(1) by (simp_all add: div_less_iff_less_mult)
  then have div: "a * 256 + b = 43518 \<longleftrightarrow> a = 169 \<and> b = 254" "a * 256 + b = 49320 \<longleftrightarrow> a = 192 \<and> b = 168"
    "a * 16 + b div 16 = 2753 \<longleftrightarrow> a = 172 \<and> 16 \<le> b \<and> b \<le> 31"
    "a * 4 + b div 64 = 401 \<longleftrightarrow> a = 100 \<and> 64 \<le> b \<and> b \<le> 127"
    "a * 128 + b div 2 = 25353 \<longleftrightarrow> a = 198 \<and> (b = 18 \<or> b = 19)"
    using assms(1) by (auto simp: radix_eq quotient_eq)
  show ?thesis
    using ip4_drop [OF assms, of a] nets div
    by (simp add: internal4_def internal_networks_def in_cidr_def blocked_v4_def drop_bit_eq_div)
qed

section \<open>Reading the address texts\<close>

lemma nat_str_octet: "n < 1000 \<Longrightarrow> length (nat_str n) \<le> 3"
  by (subst nat_str.simps, simp, subst nat_str.simps, simp, subst nat_str.simps) simp

lemma digits_free: "c \<in> set (nat_str n) \<Longrightarrow> is_hex c \<and> c \<noteq> CHR ''.'' \<and> c \<noteq> CHR '':''"
  using nat_str_digit [of c n] by (auto simp: is_hex_def is_digit_def Let_def)

lemma quad_parts: "split_on CHR ''.'' (quad a b c d) = [nat_str a, nat_str b, nat_str c, nat_str d]"
  unfolding quad_def by (rule split_on_join) (auto dest: digits_free)

lemma quad_is_quad: "a < 1000 \<Longrightarrow> b < 1000 \<Longrightarrow> c < 1000 \<Longrightarrow> d < 1000 \<Longrightarrow> is_quad (quad a b c d)"
  unfolding is_quad_def quad_parts by (simp add: nat_str_octet list_all_iff nat_str_digit)

lemma quad_chars: "x \<in> set (quad a b c d) \<Longrightarrow> is_hex x \<or> x = CHR ''.''"
  by (auto simp: quad_def dest: digits_free)

lemma join_chars: "c \<in> set (join [x] ps) \<Longrightarrow> c = x \<or> (\<exists>p \<in> set ps. c \<in> set p)"
  by (induction "[x]" ps rule: join.induct) auto

lemma quad_no_colon:
  assumes "is_quad s"
  shows "CHR '':'' \<notin> set s"
proof
  assume "CHR '':'' \<in> set s"
  then have "\<exists>p \<in> set (split_on CHR ''.'' s). CHR '':'' \<in> set p"
    using join_chars [of "CHR '':''" "CHR ''.''" "split_on CHR ''.'' s"] by (simp add: join_split_on)
  then have "is_digit CHR '':''" using assms unfolding is_quad_def Let_def list_all_iff by blast
  then show False by (simp add: is_digit_def)
qed

lemma after_prefix_colon: "CHR '':'' \<notin> set s \<Longrightarrow> CHR '':'' \<in> set p \<Longrightarrow> after_prefix rd s p = None"
  unfolding after_prefix_def by (metis in_set_takeD)

lemma colon_no_quad: "CHR '':'' \<in> set s \<Longrightarrow> \<not> is_quad s"
  using quad_no_colon by blast

lemma dotless_no_quad: "CHR ''.'' \<notin> set s \<Longrightarrow> \<not> is_quad s"
  by (simp add: is_quad_def split_on_free)

lemma quad_plain:
  assumes "is_quad s"
  shows "embedded_quad s = None" "embedded_hextets s = None" "six_to_four s = None"
  by (simp_all add: embedded_quad_def embedded_hextets_def six_to_four_def after_prefix_colon [OF quad_no_colon [OF assms]])

definition plain_char :: "char \<Rightarrow> bool" where
  "plain_char c \<longleftrightarrow> is_hex c \<or> c = CHR '':'' \<or> c = CHR ''.''"

lemma plain_chars:
  assumes "plain_char c"
  shows "lower_char c = c" "c \<noteq> CHR ''%''" "c \<noteq> CHR ''[''" "c \<noteq> CHR '']''"
  using assms by (auto simp: plain_char_def is_hex_def is_digit_def lower_char_def Let_def)

lemma plain_lower: "list_all plain_char s \<Longrightarrow> js_lower s = s"
  by (induction s) (auto simp: js_lower_def plain_chars)

lemma plain_zone: "list_all plain_char s \<Longrightarrow> strip_zone (s @ r) = s @ strip_zone r"
  by (induction s) (auto simp: plain_chars)

lemma plain_text:
  assumes "list_all plain_char s"
  shows "strip_brackets (strip_zone (js_lower s)) = s"
proof -
  have "take 1 s \<noteq> ''[''" using assms by (cases s) (auto simp: plain_chars)
  moreover have "s = [] \<or> last s \<noteq> CHR '']''"
    using assms plain_chars(4) by (metis last_in_set list_all_iff)
  ultimately show ?thesis using plain_zone [OF assms, of "[]"] by (auto simp: strip_brackets_def plain_lower [OF assms])
qed

lemma blocked_quad:
  assumes "a < 256" "b < 256" "c < 256" "d < 256" "strip_brackets (strip_zone (js_lower ip)) = h0"
    "embedded_quad h0 = Some (quad a b c d) \<or> embedded_quad h0 = None \<and>
      (h0 = quad a b c d \<or> (\<exists>p. embedded_hextets h0 = Some p \<and> v4FromHextets p = quad a b c d) \<or>
        embedded_hextets h0 = None \<and> (\<exists>p. six_to_four h0 = Some p \<and> v4FromHextets p = quad a b c d))"
  shows "isBlockedIp ip \<longleftrightarrow> internal4 (ip4 a b c d)"
proof -
  have q: "is_quad (quad a b c d)" using assms(1-4) by (intro quad_is_quad) simp_all
  have "unwrap4 h0 = quad a b c d" using assms(6) quad_plain [OF q] by (auto simp: unwrap4_def)
  then have "isBlockedIp ip \<longleftrightarrow> blocked_v4 a b" unfolding isBlockedIp_def Let_def assms(5) by (simp add: q quad_parts)
  with internal4_octets [OF assms(2-4)] show ?thesis by simp
qed

lemma hex_digit: "is_hex c \<Longrightarrow> \<exists>d < 16. digit_in 16 c = Some d"
  by (auto simp: is_hex_def is_digit_def digit_in_def Let_def)

lemma read_hex: "list_all is_hex s \<Longrightarrow> \<exists>n. read_base 16 acc s = Some n \<and> n < (acc + 1) * 16 ^ length s"
proof (induction s arbitrary: acc)
  case (Cons c s)
  then obtain d where d: "d < 16" "digit_in 16 c = Some d" using hex_digit by auto
  from Cons obtain n where n: "read_base 16 (16 * acc + d) s = Some n" "n < (16 * acc + d + 1) * 16 ^ length s" by auto
  have "(16 * acc + d + 1) * 16 ^ length s \<le> (16 * (acc + 1)) * 16 ^ length s" using d(1) by (intro mult_right_mono) auto
  moreover have "(16 * (acc + 1)) * 16 ^ length s = (acc + 1) * 16 ^ length (c # s)" by (simp only: list.size power_Suc mult_ac add_0_right One_nat_def add_Suc_right)
  ultimately show ?case using n d by simp
qed simp

lemma hextet_val:
  assumes "hextet h"
  shows "hex_val h < 65536"
proof -
  obtain n where n: "read_base 16 0 h = Some n" "n < 16 ^ length h"
    using read_hex [of h 0] assms by (auto simp: hextet_def)
  have "(16::nat) ^ length h \<le> 16 ^ 4" using assms unfolding hextet_def by (intro power_increasing) auto
  with n show ?thesis by (simp add: hex_val_def)
qed

lemma ip4_halves: "ip4 a b c d = (a * 256 + b) * 2 ^ 16 + (c * 256 + d)"
  by (simp add: ip4_def)

lemma from_hextets:
  assumes "hi < 65536" "lo < 65536"
  shows "v4FromHextets (hi, lo) = quad (hi div 256) (hi mod 256) (lo div 256) (lo mod 256)"
    "ip4 (hi div 256) (hi mod 256) (lo div 256) (lo mod 256) = hi * 2 ^ 16 + lo"
    "hi div 256 < 256" "lo div 256 < 256"
proof -
  have b: "x AND 255 = x mod 256" for x :: nat
    using take_bit_eq_mask [of 8 x] by (simp add: take_bit_eq_mod mask_eq_exp_minus_1)
  show d: "hi div 256 < 256" "lo div 256 < 256" using assms by (simp_all add: div_less_iff_less_mult)
  then show "v4FromHextets (hi, lo) = quad (hi div 256) (hi mod 256) (lo div 256) (lo mod 256)"
    by (simp add: v4FromHextets_def b drop_bit_eq_div)
  show "ip4 (hi div 256) (hi mod 256) (lo div 256) (lo mod 256) = hi * 2 ^ 16 + lo"
    unfolding ip4_halves div_mult_mod_eq ..
qed

lemma undotted: "CHR ''.'' \<notin> set s \<Longrightarrow> embedded_quad s = None"
proof -
  assume "CHR ''.'' \<notin> set s"
  then have "CHR ''.'' \<notin> set (drop n s)" for n by (meson in_set_dropD)
  then have "after_prefix (\<lambda>r. if is_quad r then Some r else None) s p = None" for p
    using dotless_no_quad by (simp add: after_prefix_def)
  then show ?thesis by (simp add: embedded_quad_def)
qed

lemma tail_kept:
  assumes "list_all plain_char s" "s \<noteq> []" "last s = CHR '':''"
  shows "\<exists>r'. strip_brackets (strip_zone (js_lower (s @ r))) = s @ r'"
proof -
  have "strip_zone (js_lower (s @ r)) = s @ strip_zone (js_lower r)"
    using plain_zone [OF assms(1)] plain_lower [OF assms(1)] by (simp add: js_lower_def)
  moreover have "take 1 (s @ t) \<noteq> ''[''" for t using assms(1,2) by (cases s) (auto simp: plain_chars)
  ultimately show ?thesis using assms(2,3) by (auto simp: strip_brackets_def Let_def butlast_append)
qed

lemma denoted_blocked:
  assumes "denotes4 ip w"
  shows "isBlockedIp ip \<longleftrightarrow> internal4 w"
  using assms
proof cases
  case (dotted a b c d p)
  have q: "is_quad (quad a b c d)" using dotted by (intro quad_is_quad) simp_all
  have colon: "\<not> is_quad (CHR ''f'' # CHR ''f'' # CHR ''f'' # CHR ''f'' # CHR '':'' # quad a b c d)"
    by (rule colon_no_quad) simp
  have plain: "list_all plain_char (quad a b c d)" using quad_chars [of _ a b c d] by (simp add: list_all_iff plain_char_def) blast
  have "list_all plain_char p" using dotted(7) by (auto simp: plain_char_def is_hex_def is_digit_def)
  with plain have "list_all plain_char (p @ quad a b c d)" by simp
  note host = plain_text [OF this]
  have "embedded_quad (p @ quad a b c d) = Some (quad a b c d) \<or> p = []"
    using dotted(7) unfolding insert_iff empty_iff embedded_quad_def
    by (elim disjE) (simp_all add: after_prefix_def q colon)
  with quad_plain [OF q] show ?thesis
    unfolding dotted(1,2) by (intro blocked_quad [OF dotted(3-6) host]) auto
next
  case (hextets h l p)
  let ?s = "p @ h @ CHR '':'' # l"
  have hl: "list_all is_hex h" "list_all is_hex l" using hextets by (auto simp: hextet_def)
  then have free: "CHR ''.'' \<notin> set ?s" "CHR '':'' \<notin> set h" "CHR '':'' \<notin> set l"
    using hextets(5) by (auto simp: list_all_iff is_hex_def is_digit_def)
  have "list_all plain_char ?s"
    using hl hextets(5) by (auto simp: list_all_iff plain_char_def is_hex_def is_digit_def)
  note host = plain_text [OF this]
  have "embedded_quad ?s = None" by (rule undotted [OF free(1)])
  moreover have pair: "hextet_pair (h @ CHR '':'' # l) = Some (hex_val h, hex_val l)"
    using hextets(3,4) by (simp add: hextet_pair_def split_on_append [OF free(2)] split_on_free [OF free(3)])
  then have "embedded_hextets ?s = Some (hex_val h, hex_val l)"
    using hextets(5) by (auto simp: embedded_hextets_def after_prefix_def)
  moreover note vals = from_hextets [OF hextet_val [OF hextets(3)] hextet_val [OF hextets(4)]]
  ultimately show ?thesis
    unfolding hextets(1,2) vals(2) [symmetric] by (intro blocked_quad [OF vals(3) _ vals(4) _ host]) auto
next
  case (sixtofour h l r)
  let ?s = "\<lambda>r. ''2002:'' @ h @ CHR '':'' # l @ CHR '':'' # r"
  have hl: "list_all is_hex h" "list_all is_hex l" using sixtofour by (auto simp: hextet_def)
  then have free: "CHR '':'' \<notin> set h" "CHR '':'' \<notin> set l" by (auto simp: list_all_iff is_hex_def is_digit_def)
  have plain: "list_all plain_char (''2002:'' @ h @ CHR '':'' # l @ '':'')"
    using hl by (auto simp: list_all_iff plain_char_def is_hex_def is_digit_def)
  obtain r' where host: "strip_brackets (strip_zone (js_lower (?s r))) = ?s r'"
    using tail_kept [OF plain, of r] by auto
  have "embedded_quad (?s r') = None" "embedded_hextets (?s r') = None"
    by (simp_all add: embedded_quad_def embedded_hextets_def after_prefix_def)
  moreover have "six_to_four (?s r') = Some (hex_val h, hex_val l)"
    using sixtofour(3,4) neq_Nil_conv [of "split_on CHR '':'' r'"]
    by (auto simp: six_to_four_def after_prefix_def split_on_append [OF free(1)] split_on_append [OF free(2)])
  moreover note vals = from_hextets [OF hextet_val [OF sixtofour(3)] hextet_val [OF sixtofour(4)]]
  ultimately show ?thesis
    unfolding sixtofour(1,2) vals(2) [symmetric] by (intro blocked_quad [OF vals(3) _ vals(4) _ host]) auto
qed

text \<open>C27: The address check knows every text of an IPv4 address the guard has to catch. An address written in
  dotted form, or carried by an IPv6 address as a mapped, compatible or NAT64 address with a dotted
  tail, a mapped or NAT64 address with a hexadecimal tail, or a 6to4 address, is blocked exactly when it lies in
  one of the internal networks (loopback, private, link-local, carrier-grade NAT, benchmarking, this network)
  as CIDR prefixes define them.\<close>

theorem blocked_ip_is_cidr:
  assumes "denotes4 ip w"
  shows "isBlockedIp ip \<longleftrightarrow> internal4 w"
  using assms by (rule denoted_blocked)

text \<open>The texts the check does not read: an IPv4-compatible address in hexadecimal form, which the comment on
  \<open>isBlockedIp\<close> says is unwrapped.\<close>

lemma compatible_hex_passes: "\<not> isBlockedIp ''::7f00:1''" "isBlockedIp ''::ffff:7f00:1''" "isBlockedIp ''::127.0.0.1''"
proof -
  have local: "hextet ''7f00''" "hextet ''1''" "hex_val ''7f00'' * 2 ^ 16 + hex_val ''1'' = ip4 127 0 0 1"
    by (simp_all add: hextet_def is_hex_def is_digit_def hex_val_def digit_in_def ip4_def)
  have dots: "''::127.0.0.1'' = ''::'' @ quad 127 0 0 1" by code_simp
  have inside: "internal4 (ip4 127 0 0 1)" using internal4_octets [of 0 0 1 127] by (simp only: blocked_v4_def) simp
  then show "isBlockedIp ''::ffff:7f00:1''" using denoted_blocked [OF hextets [of "''7f00''" "''1''" "''::ffff:''"]] local inside by simp
  show "isBlockedIp ''::127.0.0.1''" unfolding dots using denoted_blocked [OF dotted [of 127 0 0 1 "''::''"]] inside by simp
  show "\<not> isBlockedIp ''::7f00:1''" by code_simp
qed

section \<open>The guarded download\<close>

lemma letter_no_quad:
  assumes "list_ex (\<lambda>c. CHR ''a'' \<le> c \<and> c \<le> CHR ''z'') s"
  shows "\<not> is_quad s"
proof
  assume q: "is_quad s"
  obtain c where c: "c \<in> set s" "CHR ''a'' \<le> c" using assms by (auto simp: list_ex_iff)
  from c(1) have "c = CHR ''.'' \<or> (\<exists>p \<in> set (split_on CHR ''.'' s). c \<in> set p)"
    using join_chars [of c "CHR ''.''" "split_on CHR ''.'' s"] by (simp add: join_split_on)
  then have "c = CHR ''.'' \<or> is_digit c" using q unfolding is_quad_def Let_def list_all_iff by blast
  with c(2) show False by (auto simp: is_digit_def less_eq_char_def)
qed

lemma ex_record_type: "(\<exists>rt. P rt) \<longleftrightarrow> P RecA \<or> P RecAAAA"
  by (metis record_type.exhaust)

lemma speech_audio_iff:
  "speech_audio parse_url resolveDns u = Inr url \<longleftrightarrow>
     (\<exists>raw. u = Some raw \<and> raw \<noteq> [] \<and> parse_url raw = Some url) \<and> up_protocol url = ''https:'' \<and>
     (let host = strip_brackets (js_lower (up_hostname url))
      in CHR '':'' \<notin> set host \<and> list_ex (\<lambda>c. CHR ''a'' \<le> c \<and> c \<le> CHR ''z'') host \<and>
         host \<noteq> ''localhost'' \<and> \<not> ends_with host ''.localhost'' \<and> host \<noteq> ''metadata.google.internal'') \<and>
     resolved_addresses resolveDns (up_hostname url) \<noteq> [] \<and>
     (\<forall>ip \<in> set (resolved_addresses resolveDns (up_hostname url)). \<not> isBlockedIp ip)"
  unfolding speech_audio_def nonempty_opt_def assertSafeAudioUrl_def assertResolvedHostSafe_def Let_def list_ex_iff
  by (cases u) (auto split: option.splits if_splits)

text \<open>C40: Exactly which audio of a speech answer the gateway goes on to fetch on an upstream's word. The
  answer names a URL; it is an https URL; its host, in lower case and without brackets, has a letter and no
  colon (so it is not an address, IPv4 or IPv6), is not \<open>localhost\<close> or a name below it and not
  \<open>metadata.google.internal\<close>; at the moment of the check the name resolves in at least one record family; and no
  address it resolves to in either is blocked. In particular none of them is a text of an IPv4 address of an
  internal network in dotted form, mapped, compatible or NAT64 with a dotted tail, mapped or NAT64 with a
  hexadecimal tail, or 6to4. What the name resolves to later, when the fetch connects, is outside the check.\<close>

theorem audio_fetched_iff_guarded:
  "(speech_audio parse_url resolveDns u = Inr url \<longleftrightarrow>
     (\<exists>raw. u = Some raw \<and> raw \<noteq> [] \<and> parse_url raw = Some url) \<and> up_protocol url = ''https:'' \<and>
     (let host = strip_brackets (js_lower (up_hostname url))
      in CHR '':'' \<notin> set host \<and> list_ex (\<lambda>c. CHR ''a'' \<le> c \<and> c \<le> CHR ''z'') host \<and> \<not> is_quad host \<and>
         host \<noteq> ''localhost'' \<and> \<not> ends_with host ''.localhost'' \<and> host \<noteq> ''metadata.google.internal'') \<and>
     (\<exists>rt ips. resolveDns (up_hostname url) rt = Some ips \<and> ips \<noteq> []) \<and>
     (\<forall>rt ips. resolveDns (up_hostname url) rt = Some ips \<longrightarrow> (\<forall>ip \<in> set ips. \<not> isBlockedIp ip))) \<and>
   (speech_audio parse_url resolveDns u = Inr url \<longrightarrow>
     (\<forall>rt ips ip w. resolveDns (up_hostname url) rt = Some ips \<and> ip \<in> set ips \<and> denotes4 ip w \<longrightarrow> \<not> internal4 w))"
proof -
  let ?ips = "resolved_addresses resolveDns (up_hostname url)"
  have mem: "ip \<in> set ?ips \<longleftrightarrow> (\<exists>rt ips. resolveDns (up_hostname url) rt = Some ips \<and> ip \<in> set ips)" for ip
    unfolding resolved_addresses_def ex_record_type by (auto split: option.splits)
  have some: "?ips \<noteq> [] \<longleftrightarrow> (\<exists>rt ips. resolveDns (up_hostname url) rt = Some ips \<and> ips \<noteq> [])"
    unfolding resolved_addresses_def ex_record_type by (auto split: option.split)
  have all: "(\<forall>ip \<in> set ?ips. \<not> isBlockedIp ip) \<longleftrightarrow>
      (\<forall>rt ips. resolveDns (up_hostname url) rt = Some ips \<longrightarrow> (\<forall>ip \<in> set ips. \<not> isBlockedIp ip))"
    using mem by blast
  have iff: "speech_audio parse_url resolveDns u = Inr url \<longleftrightarrow>
     (\<exists>raw. u = Some raw \<and> raw \<noteq> [] \<and> parse_url raw = Some url) \<and> up_protocol url = ''https:'' \<and>
     (let host = strip_brackets (js_lower (up_hostname url))
      in CHR '':'' \<notin> set host \<and> list_ex (\<lambda>c. CHR ''a'' \<le> c \<and> c \<le> CHR ''z'') host \<and> \<not> is_quad host \<and>
         host \<noteq> ''localhost'' \<and> \<not> ends_with host ''.localhost'' \<and> host \<noteq> ''metadata.google.internal'') \<and>
     ?ips \<noteq> [] \<and> (\<forall>ip \<in> set ?ips. \<not> isBlockedIp ip)"
    unfolding speech_audio_iff Let_def using letter_no_quad by blast
  have "\<not> internal4 w" if "speech_audio parse_url resolveDns u = Inr url" "ip \<in> set ?ips" "denotes4 ip w" for ip w
    using that denoted_blocked unfolding iff by blast
  then have inside: "speech_audio parse_url resolveDns u = Inr url \<longrightarrow>
     (\<forall>rt ips ip w. resolveDns (up_hostname url) rt = Some ips \<and> ip \<in> set ips \<and> denotes4 ip w \<longrightarrow> \<not> internal4 w)"
    unfolding mem by blast
  show ?thesis by (rule conjI [OF iff [unfolded some all] inside])
qed

section \<open>Examples\<close>

definition demo_parse :: "string \<Rightarrow> url_parts option" where
  "demo_parse raw = Some \<lparr>up_protocol = ''https:'', up_hostname = ''cdn.example''\<rparr>"

definition demo_dns :: "string \<Rightarrow> record_type \<Rightarrow> string list option" where
  "demo_dns host rt = (if rt = RecA then Some [''93.184.216.34''] else None)"

lemma demo_download: "speech_audio demo_parse demo_dns (Some ''https://cdn.example/a'') = Inr \<lparr>up_protocol = ''https:'', up_hostname = ''cdn.example''\<rparr>"
  by code_simp

lemma audio_fetched_iff_guarded_witness:
  "\<not> internal4 (ip4 93 184 216 34)"
proof -
  have "quad 93 184 216 34 = ''93.184.216.34''" by code_simp
  then have "denotes4 ''93.184.216.34'' (ip4 93 184 216 34)" using dotted [of 93 184 216 34 "[]"] by simp
  moreover have "demo_dns ''cdn.example'' RecA = Some [''93.184.216.34'']" by (simp add: demo_dns_def)
  ultimately show ?thesis
    using audio_fetched_iff_guarded [THEN conjunct2, THEN mp, OF demo_download] by fastforce
qed

lemma blocked_ip_is_cidr_witness:
  "isBlockedIp (''64:ff9b::'' @ quad 169 254 169 254)"
proof -
  have "denotes4 (''64:ff9b::'' @ quad 169 254 169 254) (ip4 169 254 169 254)" by (intro dotted) simp_all
  from blocked_ip_is_cidr [OF this] show ?thesis by (simp add: internal4_octets blocked_v4_def)
qed

end
