(* ===== verification/ResponseCache.thy ===== *)
theory ResponseCache
  imports ProviderChunks
begin

text \<open>
  The response cache of \<open>packages/cache/src/semantic.ts\<close> with its in-process vector store
  (\<open>vector.ts\<close>) and the shared tier it is given (\<open>store.ts\<close>), and \<open>cacheScopeFor\<close> of
  \<open>apps/gateway/routes/inference.ts\<close>, which names the namespace of a caller.

  A cache operation is one step at one instant. In the code a lookup and a store wait for the digest, the
  shared tier and the embedder on their way; the model takes it that nothing else changes the same replica's
  cache in between, and lets other replicas write the shared tier before and after. Arguments of the model are the embedder, the similarity of two vectors
  (a cosine over floating-point numbers), SHA-256 and the rendering of numbers. The shared tier is a map
  that any replica may write and that may fail to answer; the in-process vector store is the one the cache
  creates when it is given an embedder.
\<close>

section \<open>Keys\<close>

record key_config =
  kc_byProvider :: bool
  kc_byModel :: "bool option"
  kc_excludeSystem :: bool

definition is_system :: "jtext json \<Rightarrow> bool" where
  "is_system m \<longleftrightarrow> opt_field (Some m) ''role'' = Some (jt ''system'')"

definition withoutSystem :: "jtext json option \<Rightarrow> jtext json option" where
  "withoutSystem messages =
     (case messages of Some (JArr ms) \<Rightarrow> Some (JArr (filter (\<lambda>m. \<not> is_system m) ms)) | v \<Rightarrow> v)"

definition keyed_messages :: "key_config \<Rightarrow> jtext json \<Rightarrow> jtext json option" where
  "keyed_messages config request =
     (let messages = opt_field (Some request) ''messages''
      in if kc_excludeSystem config then withoutSystem messages else messages)"

text \<open>An object or an array.\<close>

definition routing_prefs :: "jtext json option \<Rightarrow> bool" where
  "routing_prefs v = (case v of Some (JObj _) \<Rightarrow> True | Some (JArr _) \<Rightarrow> True | _ \<Rightarrow> False)"

definition keyed_params :: "string list" where
  "keyed_params =
     [''temperature'', ''top_p'', ''max_tokens'', ''tools'', ''response_format'', ''seed'', ''stop'', ''n'',
      ''frequency_penalty'', ''presence_penalty'', ''logit_bias'', ''top_k'', ''thinking'', ''transforms'', ''route'',
      ''reasoning'', ''safetySettings'', ''thinkingConfig'']"

definition key_fields :: "jtext json \<Rightarrow> key_config \<Rightarrow> jtext option \<Rightarrow> (string \<times> jtext json option) list" where
  "key_fields request config scope =
     [(''model'', if kc_byModel config = Some False then None else opt_field (Some request) ''model''),
      (''messages'', keyed_messages config request)] @
     map (\<lambda>f. (f, opt_field (Some request) f)) keyed_params @
     [(''provider'', let p = opt_field (Some request) ''provider''
                     in if kc_byProvider config \<or> routing_prefs p then p else None),
      (''scope'', map_option JStr scope)]"

text \<open>\<open>JSON.stringify\<close> leaves undefined members out.\<close>

definition members_of :: "(string \<times> jtext json option) list \<Rightarrow> (string \<times> jtext json) list" where
  "members_of fs = concat (map (\<lambda>(k, v). opt_member k v) fs)"

definition keyFor :: "(rat \<Rightarrow> jtext) \<Rightarrow> jtext json \<Rightarrow> key_config \<Rightarrow> jtext option \<Rightarrow> jtext" where
  "keyFor num_text request config scope = json_stringify num_text (jobj (members_of (key_fields request config scope)))"

section \<open>The text that is embedded\<close>

text \<open>\<^term>\<open>None\<close> stands for a throw: a message that is \<open>null\<close>, or messages that are no array.\<close>

fun joined :: "jtext \<Rightarrow> jtext list \<Rightarrow> jtext" where
  "joined sep [] = []"
| "joined sep [x] = x"
| "joined sep (x # xs) = x @ sep @ joined sep xs"

definition part_text :: "(rat \<Rightarrow> jtext) \<Rightarrow> jtext json \<Rightarrow> jtext" where
  "part_text num_text part =
     (case opt_field (Some part) ''text'' of Some (JStr t) \<Rightarrow> t | _ \<Rightarrow> json_stringify num_text part)"

definition content_text :: "(rat \<Rightarrow> jtext) \<Rightarrow> jtext json option \<Rightarrow> jtext" where
  "content_text num_text content =
     (case content of
        Some (JStr t) \<Rightarrow> t
      | None \<Rightarrow> []
      | Some JNull \<Rightarrow> []
      | Some (JArr parts) \<Rightarrow> joined (text_of '' '') (map (part_text num_text) parts)
      | Some v \<Rightarrow> json_stringify num_text v)"

definition promptText :: "(rat \<Rightarrow> jtext) \<Rightarrow> jtext json \<Rightarrow> key_config \<Rightarrow> jtext option" where
  "promptText num_text request config =
     (case nullish_or (opt_field (Some request) ''messages'') (Some (JArr [])) of
        Some (JArr raw) \<Rightarrow>
          (let ms = (if kc_excludeSystem config then filter (\<lambda>m. \<not> is_system m) raw else raw)
           in if JNull \<in> set ms then None
              else Some (joined [10] (map (\<lambda>m. content_text num_text (opt_field (Some m) ''content'')) ms)))
      | _ \<Rightarrow> None)"

section \<open>The in-process vector store\<close>

record 'p vector_match =
  vm_id :: jtext
  vm_score :: rat
  vm_payload :: 'p

type_synonym ('v, 'p) vectors = "(jtext, 'v \<times> 'p) jmap"

text \<open>\<open>while (size > maxEntries) delete the first key\<close>, for a bound that is not negative.\<close>

fun drop_oldest :: "int \<Rightarrow> 'a list \<Rightarrow> 'a list" where
  "drop_oldest bound [] = []"
| "drop_oldest bound (x # xs) = (if int (length (x # xs)) > bound then drop_oldest bound xs else x # xs)"

definition vs_upsert :: "int \<Rightarrow> jtext \<Rightarrow> 'v \<Rightarrow> 'p \<Rightarrow> ('v, 'p) vectors \<Rightarrow> ('v, 'p) vectors" where
  "vs_upsert bound i v p vs = drop_oldest bound (jm_set (jm_delete vs i) i (v, p))"

definition vs_search :: "('v \<Rightarrow> 'v \<Rightarrow> rat) \<Rightarrow> 'v \<Rightarrow> rat \<Rightarrow> nat \<Rightarrow> ('v, 'p) vectors \<Rightarrow> 'p vector_match list" where
  "vs_search similarity v threshold bound vs =
     (let ms = filter (\<lambda>m. threshold \<le> vm_score m)
                 (map (\<lambda>(i, (w, p)). \<lparr>vm_id = i, vm_score = similarity v w, vm_payload = p\<rparr>) vs)
      in take bound (sort_key (\<lambda>m. - vm_score m) ms))"

section \<open>The cache\<close>

record cached_entry =
  cd_response :: "jtext json"
  cd_storedAt :: int
  cd_requestId :: "jtext option"

record vector_payload =
  vp_response :: "jtext json"
  vp_storedAt :: int
  vp_requestId :: "jtext option"
  vp_scopeKey :: "jtext option"

record 'v cache =
  sc_entries :: "(jtext, cached_entry) jmap"
  sc_ttlMs :: rat
  sc_maxEntries :: int
  sc_similarity :: rat
  sc_keyConfig :: key_config
  sc_history :: rat
  sc_vectors :: "('v, vector_payload) vectors"

record 'v cache_deps =
  dp_num_text :: "rat \<Rightarrow> jtext"
  dp_digest :: "jtext \<Rightarrow> jtext"
  dp_embed :: "(jtext \<Rightarrow> 'v option) option"
  dp_similarity :: "'v \<Rightarrow> 'v \<Rightarrow> rat"

type_synonym shared_tier = "(jtext, cached_entry) jmap"

datatype hit_kind = DirectHit | SemanticHit | CacheMiss

datatype cache_tier = TierL1 | TierL2

record cache_debug =
  cg_type :: hit_kind
  cg_threshold :: rat
  cg_similarity :: "rat option"
  cg_tokens :: "rat option"
  cg_tier :: "cache_tier option"

definition fresh :: "rat \<Rightarrow> int \<Rightarrow> int \<Rightarrow> bool" where
  "fresh ttl now storedAt \<longleftrightarrow> of_int (now - storedAt) \<le> ttl"

definition cachingDisabledFor :: "'v cache \<Rightarrow> jtext json \<Rightarrow> bool" where
  "cachingDisabledFor c request =
     (if sc_history c \<le> 0 then False
      else (case opt_field (Some request) ''messages'' of Some (JArr ms) \<Rightarrow> of_nat (length ms) > sc_history c | _ \<Rightarrow> 0 > sc_history c))"

definition evict :: "int \<Rightarrow> 'v cache \<Rightarrow> 'v cache" where
  "evict now c =
     c\<lparr>sc_entries := drop_oldest (sc_maxEntries c) (filter (\<lambda>(k, e). fresh (sc_ttlMs c) now (cd_storedAt e)) (sc_entries c))\<rparr>"

text \<open>What the shared tier answers, when there is one and it answers.\<close>

definition getShared :: "'v cache_deps \<Rightarrow> int \<Rightarrow> shared_tier option \<Rightarrow> 'v cache \<Rightarrow> jtext \<Rightarrow> cached_entry option" where
  "getShared deps now shared c key =
     (case shared of
        None \<Rightarrow> None
      | Some m \<Rightarrow>
          (case jm_get m (dp_digest deps key) of
             Some e \<Rightarrow> if fresh (sc_ttlMs c) now (cd_storedAt e) then Some e else None
           | None \<Rightarrow> None))"

definition hitDebug :: "'v cache \<Rightarrow> bool \<Rightarrow> hit_kind \<Rightarrow> jtext json \<Rightarrow> rat option \<Rightarrow> cache_tier option \<Rightarrow> cache_debug" where
  "hitDebug c attached kind response similarity tier =
     \<lparr>cg_type = kind, cg_threshold = sc_similarity c, cg_similarity = similarity,
      cg_tokens = json_number (opt_field (opt_field (Some response) ''usage'') ''total_tokens''),
      cg_tier = (if attached then tier else None)\<rparr>"

definition missDebug :: "'v cache \<Rightarrow> cache_debug" where
  "missDebug c = \<lparr>cg_type = CacheMiss, cg_threshold = sc_similarity c, cg_similarity = None, cg_tokens = None, cg_tier = None\<rparr>"

text \<open>The live matches of the caller's namespace, best first; none when the embedder or the prompt fails.\<close>

definition semantic_match ::
  "'v cache_deps \<Rightarrow> int \<Rightarrow> 'v cache \<Rightarrow> jtext json \<Rightarrow> jtext option \<Rightarrow> vector_payload vector_match option" where
  "semantic_match deps now c request scope =
     (case dp_embed deps of
        None \<Rightarrow> None
      | Some em \<Rightarrow>
          (case promptText (dp_num_text deps) request (sc_keyConfig c) of
             None \<Rightarrow> None
           | Some t \<Rightarrow>
               (case em t of
                  None \<Rightarrow> None
                | Some v \<Rightarrow>
                    List.find (\<lambda>m. vp_scopeKey (vm_payload m) = scope \<and> fresh (sc_ttlMs c) now (vp_storedAt (vm_payload m)))
                      (vs_search (dp_similarity deps) v (sc_similarity c) 5 (sc_vectors c)))))"

text \<open>\<open>attached\<close>: a shared tier is configured; \<open>shared\<close>: what it holds, when it answers.\<close>

definition getWithDebug ::
  "'v cache_deps \<Rightarrow> int \<Rightarrow> bool \<Rightarrow> shared_tier option \<Rightarrow> 'v cache \<Rightarrow> jtext json \<Rightarrow> jtext option \<Rightarrow>
     'v cache \<times> jtext json option \<times> cache_debug" where
  "getWithDebug deps now attached shared c0 request scope =
     (if cachingDisabledFor c0 request then (c0, None, missDebug c0)
      else
        (let c = evict now c0; key = keyFor (dp_num_text deps) request (sc_keyConfig c) scope
         in case jm_get (sc_entries c) key of
              Some e \<Rightarrow>
                (c\<lparr>sc_entries := jm_set (jm_delete (sc_entries c) key) key e\<rparr>, Some (cd_response e),
                 hitDebug c attached DirectHit (cd_response e) None (Some TierL1))
            | None \<Rightarrow>
                (case getShared deps now (if attached then shared else None) c key of
                   Some e \<Rightarrow>
                     (evict now (c\<lparr>sc_entries := jm_set (sc_entries c) key e\<rparr>), Some (cd_response e),
                      hitDebug c attached DirectHit (cd_response e) None (Some TierL2))
                 | None \<Rightarrow>
                     (case semantic_match deps now c request scope of
                        Some m \<Rightarrow>
                          (c, Some (vp_response (vm_payload m)),
                           hitDebug c attached SemanticHit (vp_response (vm_payload m)) (Some (vm_score m)) None)
                      | None \<Rightarrow> (c, None, missDebug c)))))"

text \<open>The write path: this process, the shared tier, the vector store.\<close>

definition store_vector ::
  "'v cache_deps \<Rightarrow> jtext \<Rightarrow> vector_payload \<Rightarrow> jtext json \<Rightarrow> 'v cache \<Rightarrow> 'v cache" where
  "store_vector deps uuid payload request c =
     (case dp_embed deps of
        None \<Rightarrow> c
      | Some em \<Rightarrow>
          (case promptText (dp_num_text deps) request (sc_keyConfig c) of
             None \<Rightarrow> c
           | Some t \<Rightarrow>
               (case em t of
                  None \<Rightarrow> c
                | Some v \<Rightarrow>
                    c\<lparr>sc_vectors := vs_upsert (sc_maxEntries c)
                       (case vp_requestId payload of Some i \<Rightarrow> i | None \<Rightarrow> uuid) v payload (sc_vectors c)\<rparr>)))"

definition cache_store ::
  "'v cache_deps \<Rightarrow> int \<Rightarrow> jtext \<Rightarrow> jtext json \<Rightarrow> jtext json \<Rightarrow> jtext option \<Rightarrow> jtext option \<Rightarrow>
     'v cache \<times> shared_tier option \<Rightarrow> 'v cache \<times> shared_tier option" where
  "cache_store deps now uuid request response request_id scope cs =
     (case cs of (c, shared) \<Rightarrow>
        (let key = keyFor (dp_num_text deps) request (sc_keyConfig c) scope;
             e = \<lparr>cd_response = response, cd_storedAt = now, cd_requestId = request_id\<rparr>;
             p = \<lparr>vp_response = response, vp_storedAt = now, vp_requestId = request_id, vp_scopeKey = scope\<rparr>
         in (evict now (store_vector deps uuid p request (c\<lparr>sc_entries := jm_set (sc_entries c) key e\<rparr>)),
             map_option (\<lambda>m. jm_set m (dp_digest deps key) e) shared)))"

definition cache_set ::
  "'v cache_deps \<Rightarrow> int \<Rightarrow> jtext \<Rightarrow> jtext json \<Rightarrow> jtext json \<Rightarrow> jtext option \<Rightarrow> jtext option \<Rightarrow>
     'v cache \<times> shared_tier option \<Rightarrow> 'v cache \<times> shared_tier option" where
  "cache_set deps now uuid request response request_id scope cs =
     (if cachingDisabledFor (fst cs) request then cs
      else cache_store deps now uuid request response request_id scope cs)"

subsection \<open>Streamed answers\<close>

definition opt_text :: "string \<Rightarrow> jtext option \<Rightarrow> (string \<times> jtext json) list" where
  "opt_text k v = opt_member k (map_option JStr v)"

text \<open>The members of a reasoning detail, in the order the record declares them.\<close>

definition detail_json :: "acc_detail \<Rightarrow> jtext json" where
  "detail_json d =
     jobj ((''index'', JNum (ad_index d)) # opt_text ''type'' (ad_type d) @ opt_text ''id'' (ad_id d) @ opt_text ''text'' (ad_text d) @
       opt_text ''signature'' (ad_signature d) @ opt_text ''summary'' (ad_summary d) @ opt_text ''data'' (ad_data d))"

definition call_json :: "acc_call \<Rightarrow> jtext json" where
  "call_json c =
     jobj (opt_text ''id'' (ac_id c) @
       [(''type'', jt ''function''), (''function'', jobj [(''name'', JStr (ac_name c)), (''arguments'', JStr (ac_arguments c))])])"

definition responseFromReconstructed :: "jtext \<Rightarrow> int \<Rightarrow> jtext json \<Rightarrow> message \<Rightarrow> jtext json" where
  "responseFromReconstructed uuid created request m =
     (let message_obj = jobj ([(''role'', jt ''assistant''), (''content'', JStr (ms_content m))] @
            opt_text ''refusal'' (ms_refusal m) @ opt_text ''reasoning'' (ms_reasoning m) @
            (if ms_reasoning_details m = [] then [] else [(''reasoning_details'', JArr (map detail_json (ms_reasoning_details m)))]) @
            (if ms_tool_calls m = [] then [] else [(''tool_calls'', JArr (map call_json (ms_tool_calls m)))]))
      in jobj ([(''id'', JStr (case ms_id m of Some i \<Rightarrow> i | None \<Rightarrow> text_of ''chatcmpl-'' @ uuid)),
           (''object'', jt ''chat.completion''),
           (''created'', JNum (case ms_created m of Some t \<Rightarrow> t | None \<Rightarrow> of_int created)),
           (''model'', JStr (case ms_model m of Some t \<Rightarrow> t | None \<Rightarrow>
              (case json_string (opt_field (Some request) ''model'') of Some t \<Rightarrow> t | None \<Rightarrow> []))),
           (''choices'', JArr [jobj [(''index'', JNum 0), (''message'', message_obj),
              (''finish_reason'', JStr (case ms_finish_reason m of Some t \<Rightarrow> t | None \<Rightarrow> text_of ''stop''))]])] @
         (case ms_usage m of
            None \<Rightarrow> []
          | Some u \<Rightarrow> [(''usage'', jobj [(''prompt_tokens'', JNum (au_prompt u)), (''completion_tokens'', JNum (au_completion u)),
              (''total_tokens'', JNum (au_total u))])])))"

definition setStreamed ::
  "'v cache_deps \<Rightarrow> int \<Rightarrow> jtext \<Rightarrow> jtext json \<Rightarrow> message \<Rightarrow> jtext option \<Rightarrow> jtext option \<Rightarrow>
     'v cache \<times> shared_tier option \<Rightarrow> ('v cache \<times> shared_tier option) \<times> jtext json" where
  "setStreamed deps now uuid request m request_id scope cs =
     (let response = responseFromReconstructed uuid (now div 1000) request m
      in (cache_set deps now uuid request response request_id scope cs, response))"

subsection \<open>Settings and invalidation\<close>

record cache_settings =
  cs_ttlMs :: "rat option"
  cs_similarity :: "rat option"
  cs_byProvider :: "bool option"
  cs_byModel :: "bool option"
  cs_excludeSystem :: "bool option"
  cs_history :: "rat option"

definition kept_if :: "(rat \<Rightarrow> bool) \<Rightarrow> rat \<Rightarrow> rat option \<Rightarrow> rat" where
  "kept_if ok old v = (case v of Some n \<Rightarrow> if ok n then n else old | None \<Rightarrow> old)"

definition configure :: "cache_settings \<Rightarrow> 'v cache \<Rightarrow> 'v cache" where
  "configure o1 c =
     c\<lparr>sc_ttlMs := kept_if (\<lambda>n. n > 0) (sc_ttlMs c) (cs_ttlMs o1),
       sc_similarity := kept_if (\<lambda>n. 0 \<le> n \<and> n \<le> 1) (sc_similarity c) (cs_similarity o1),
       sc_keyConfig := \<lparr>kc_byProvider = (case cs_byProvider o1 of Some b \<Rightarrow> b | None \<Rightarrow> kc_byProvider (sc_keyConfig c)),
          kc_byModel = (case cs_byModel o1 of Some b \<Rightarrow> Some b | None \<Rightarrow> kc_byModel (sc_keyConfig c)),
          kc_excludeSystem = (case cs_excludeSystem o1 of Some b \<Rightarrow> b | None \<Rightarrow> kc_excludeSystem (sc_keyConfig c))\<rparr>,
       sc_history := kept_if (\<lambda>n. 0 \<le> n) (sc_history c) (cs_history o1)\<rparr>"

definition clearLocal :: "'v cache \<Rightarrow> 'v cache \<times> nat" where
  "clearLocal c = (c\<lparr>sc_entries := []\<rparr>, length (sc_entries c))"

definition cache_clear :: "'v cache \<times> shared_tier option \<Rightarrow> ('v cache \<times> shared_tier option) \<times> nat" where
  "cache_clear cs =
     (case cs of (c, shared) \<Rightarrow>
        (let (c1, n) = clearLocal c
         in ((c1, map_option (\<lambda>m. []) shared), case shared of Some m \<Rightarrow> max n (length m) | None \<Rightarrow> n)))"

definition without_request :: "jtext \<Rightarrow> (jtext, cached_entry) jmap \<Rightarrow> (jtext, cached_entry) jmap" where
  "without_request i m = filter (\<lambda>(k, e). cd_requestId e \<noteq> Some i) m"

definition deleteByRequestId :: "jtext \<Rightarrow> 'v cache \<times> shared_tier option \<Rightarrow> ('v cache \<times> shared_tier option) \<times> bool" where
  "deleteByRequestId i cs =
     (case cs of (c, shared) \<Rightarrow>
        ((c\<lparr>sc_entries := without_request i (sc_entries c), sc_vectors := jm_delete (sc_vectors c) i\<rparr>,
          map_option (without_request i) shared),
         without_request i (sc_entries c) \<noteq> sc_entries c \<or>
         (case shared of Some m \<Rightarrow> without_request i m \<noteq> m | None \<Rightarrow> False) \<or> jm_has (sc_vectors c) i))"

definition deleteEntryLocal :: "'v cache_deps \<Rightarrow> jtext json \<Rightarrow> 'v cache \<Rightarrow> 'v cache \<times> bool" where
  "deleteEntryLocal deps request c =
     (let key = keyFor (dp_num_text deps) request (sc_keyConfig c) None
      in (c\<lparr>sc_entries := jm_delete (sc_entries c) key\<rparr>, jm_has (sc_entries c) key))"

definition deleteEntry ::
  "'v cache_deps \<Rightarrow> jtext json \<Rightarrow> 'v cache \<times> shared_tier option \<Rightarrow> ('v cache \<times> shared_tier option) \<times> bool" where
  "deleteEntry deps request cs =
     (case cs of (c, shared) \<Rightarrow>
        (let (c1, deleted) = deleteEntryLocal deps request c;
             d = dp_digest deps (keyFor (dp_num_text deps) request (sc_keyConfig c) None)
         in ((c1, map_option (\<lambda>m. jm_delete m d) shared),
             (case shared of Some m \<Rightarrow> jm_has m d | None \<Rightarrow> False) \<or> deleted)))"

section \<open>Whose namespace\<close>

record request_tenant =
  rt_dispatchScoped :: bool
  rt_virtualKeyId :: "jtext option"

definition cacheScopeFor :: "request_tenant option \<Rightarrow> jtext option" where
  "cacheScopeFor tenant =
     (case tenant of
        None \<Rightarrow> None
      | Some t \<Rightarrow>
          if \<not> rt_dispatchScoped t then None
          else Some (case rt_virtualKeyId t of Some i \<Rightarrow> i | None \<Rightarrow> text_of ''scoped''))"

section \<open>A fleet of gateways\<close>

text \<open>Replicas with a cache each and one shared tier. The log, which no code reads, keeps what was stored:
  the request, the key settings of the replica at that time, the namespace, the answer and the time. Each
  event says whether the shared tier answers; its rows may go at any time.\<close>

record stored =
  sd_request :: "jtext json"
  sd_config :: key_config
  sd_scope :: "jtext option"
  sd_response :: "jtext json"
  sd_at :: int

record 'v fleet =
  ft_caches :: "nat \<Rightarrow> 'v cache"
  ft_shared :: "shared_tier option"
  ft_log :: "stored list"

datatype fleet_event =
    EvLookup nat int bool "jtext json" "jtext option"
  | EvStore nat int bool jtext "jtext json" "jtext json" "jtext option" "jtext option"
  | EvConfigure nat cache_settings
  | EvClear nat bool
  | EvClearLocal nat
  | EvDropRequest nat bool jtext
  | EvDropEntry nat bool "jtext json"
  | EvDropEntryLocal nat "jtext json"
  | EvSharedGone "jtext list"

definition reachable_tier :: "bool \<Rightarrow> 'v fleet \<Rightarrow> shared_tier option" where
  "reachable_tier up f = (if up then ft_shared f else None)"

definition put_back :: "nat \<Rightarrow> bool \<Rightarrow> 'v cache \<times> shared_tier option \<Rightarrow> 'v fleet \<Rightarrow> 'v fleet" where
  "put_back i up cs f =
     f\<lparr>ft_caches := (ft_caches f)(i := fst cs), ft_shared := (if up then snd cs else ft_shared f)\<rparr>"

definition fleet_lookup ::
  "'v cache_deps \<Rightarrow> nat \<Rightarrow> int \<Rightarrow> bool \<Rightarrow> jtext json \<Rightarrow> jtext option \<Rightarrow> 'v fleet \<Rightarrow> 'v cache \<times> jtext json option \<times> cache_debug" where
  "fleet_lookup deps i now up request scope f =
     getWithDebug deps now (ft_shared f \<noteq> None) (reachable_tier up f) (ft_caches f i) request scope"

fun fleet_step :: "'v cache_deps \<Rightarrow> 'v fleet \<Rightarrow> fleet_event \<Rightarrow> 'v fleet" where
  "fleet_step deps f (EvLookup i now up request scope) =
     f\<lparr>ft_caches := (ft_caches f)(i := fst (fleet_lookup deps i now up request scope f))\<rparr>"
| "fleet_step deps f (EvStore i now up uuid request response rid scope) =
     (put_back i up (cache_set deps now uuid request response rid scope (ft_caches f i, reachable_tier up f)) f)
       \<lparr>ft_log := ft_log f @
          (if cachingDisabledFor (ft_caches f i) request then []
           else [\<lparr>sd_request = request, sd_config = sc_keyConfig (ft_caches f i), sd_scope = scope,
             sd_response = response, sd_at = now\<rparr>])\<rparr>"
| "fleet_step deps f (EvConfigure i o1) = f\<lparr>ft_caches := (ft_caches f)(i := configure o1 (ft_caches f i))\<rparr>"
| "fleet_step deps f (EvClear i up) = put_back i up (fst (cache_clear (ft_caches f i, reachable_tier up f))) f"
| "fleet_step deps f (EvClearLocal i) = f\<lparr>ft_caches := (ft_caches f)(i := fst (clearLocal (ft_caches f i)))\<rparr>"
| "fleet_step deps f (EvDropRequest i up rid) = put_back i up (fst (deleteByRequestId rid (ft_caches f i, reachable_tier up f))) f"
| "fleet_step deps f (EvDropEntry i up request) = put_back i up (fst (deleteEntry deps request (ft_caches f i, reachable_tier up f))) f"
| "fleet_step deps f (EvDropEntryLocal i request) =
     f\<lparr>ft_caches := (ft_caches f)(i := fst (deleteEntryLocal deps request (ft_caches f i)))\<rparr>"
| "fleet_step deps f (EvSharedGone ds) = f\<lparr>ft_shared := map_option (filter (\<lambda>(d, e). d \<notin> set ds)) (ft_shared f)\<rparr>"

definition new_cache :: "rat \<Rightarrow> int \<Rightarrow> rat \<Rightarrow> key_config \<Rightarrow> rat \<Rightarrow> 'v cache" where
  "new_cache ttl bound similarity config history =
     \<lparr>sc_entries = [], sc_ttlMs = ttl, sc_maxEntries = bound, sc_similarity = similarity, sc_keyConfig = config,
      sc_history = history, sc_vectors = []\<rparr>"

definition fleet_start :: "(nat \<Rightarrow> 'v cache) \<Rightarrow> bool \<Rightarrow> 'v fleet" where
  "fleet_start caches attached =
     \<lparr>ft_caches = caches, ft_shared = (if attached then Some [] else None), ft_log = []\<rparr>"

definition blank :: "(nat \<Rightarrow> 'v cache) \<Rightarrow> bool" where
  "blank caches \<longleftrightarrow> (\<forall>i. sc_entries (caches i) = [] \<and> sc_vectors (caches i) = [])"

section \<open>Lists and maps\<close>

lemma set_of_jm_set: "set (jm_set m k v) \<subseteq> insert (k, v) (set m)"
  by (induction m) auto

lemma set_of_jm_delete: "set (jm_delete m k) \<subseteq> set m"
  by (induction m) auto

lemma drop_oldest_is_drop: "\<exists>n. drop_oldest b xs = drop n xs"
proof (induction xs)
  case (Cons x xs)
  then obtain n where n: "drop_oldest b xs = drop n xs" by blast
  show ?case
  proof (cases "int (length (x # xs)) > b")
    case True
    with n have "drop_oldest b (x # xs) = drop (Suc n) (x # xs)" by simp
    then show ?thesis by blast
  next
    case False
    then have "drop_oldest b (x # xs) = drop 0 (x # xs)" by simp
    then show ?thesis by blast
  qed
qed simp

lemma set_drop_oldest: "set (drop_oldest b xs) \<subseteq> set xs"
  using drop_oldest_is_drop [of b xs] set_drop_subset by fastforce

lemma drop_oldest_length: "0 \<le> b \<Longrightarrow> int (length (drop_oldest b xs)) \<le> b"
  by (induction xs) auto

lemma drop_oldest_ok: "jm_ok xs \<Longrightarrow> jm_ok (drop_oldest b xs)"
  using drop_oldest_is_drop [of b xs] by (auto simp: drop_map [symmetric])

lemma evict_entries: "set (sc_entries (evict now c)) \<subseteq> {(k, e) \<in> set (sc_entries c). fresh (sc_ttlMs c) now (cd_storedAt e)}"
  using set_drop_oldest [of "sc_maxEntries c" "filter (\<lambda>(k, e). fresh (sc_ttlMs c) now (cd_storedAt e)) (sc_entries c)"]
  by (auto simp: evict_def)

lemma evict_frame [simp]:
  "sc_ttlMs (evict now c) = sc_ttlMs c" "sc_maxEntries (evict now c) = sc_maxEntries c" "sc_vectors (evict now c) = sc_vectors c"
  "sc_keyConfig (evict now c) = sc_keyConfig c" "sc_similarity (evict now c) = sc_similarity c"
  by (simp_all add: evict_def)

section \<open>The key determines what it is made of\<close>

lemma members_get: "distinct (map fst fs) \<Longrightarrow> map_of (members_of fs) k = (case map_of fs k of Some v \<Rightarrow> v | None \<Rightarrow> None)"
proof (induction fs)
  case (Cons f fs)
  obtain j v where f: "f = (j, v)" by (cases f)
  from Cons have IH: "map_of (members_of fs) k = (case map_of fs k of Some v \<Rightarrow> v | None \<Rightarrow> None)" by simp
  have "j = k \<Longrightarrow> map_of fs k = None" using Cons.prems f by (auto simp: map_of_eq_None_iff)
  with IH f show ?case
    by (cases v) (auto simp: members_of_def opt_member_def map_add_def split: option.splits)
qed (simp add: members_of_def)

lemma key_fields_distinct: "distinct (map fst (key_fields request config scope))"
  by (simp add: key_fields_def keyed_params_def)

lemma jobj_inj: "jobj xs = jobj ys \<Longrightarrow> xs = ys"
proof -
  have "inj (\<lambda>(k :: string, v :: jtext json). (text_of k, v))" by (rule injI) auto
  then show "jobj xs = jobj ys \<Longrightarrow> xs = ys" by (simp add: jobj_def inj_map_eq_map)
qed

lemma fields_of_key:
  assumes "members_of (key_fields r1 c1 s1) = members_of (key_fields r2 c2 s2)"
  shows "s1 = s2" "keyed_messages c1 r1 = keyed_messages c2 r2"
    "f \<in> set keyed_params \<Longrightarrow> opt_field (Some r1) f = opt_field (Some r2) f"
    "kc_byModel c1 \<noteq> Some False \<Longrightarrow> kc_byModel c2 \<noteq> Some False \<Longrightarrow> opt_field (Some r1) ''model'' = opt_field (Some r2) ''model''"
proof -
  have eq: "(case map_of (key_fields r1 c1 s1) k of Some v \<Rightarrow> v | None \<Rightarrow> None) =
      (case map_of (key_fields r2 c2 s2) k of Some v \<Rightarrow> v | None \<Rightarrow> None)" for k
    using assms by (simp add: members_get [OF key_fields_distinct, symmetric])
  have get: "v = w" if "(k, v) \<in> set (key_fields r1 c1 s1)" "(k, w) \<in> set (key_fields r2 c2 s2)" for k v w
    using eq [of k] that by (simp add: map_of_is_SomeI [OF key_fields_distinct])
  have "map_option JStr s1 = map_option JStr s2" by (rule get [of "''scope''"]) (simp_all add: key_fields_def)
  then show "s1 = s2" by (cases s1; cases s2) simp_all
  show "keyed_messages c1 r1 = keyed_messages c2 r2" by (rule get [of "''messages''"]) (simp_all add: key_fields_def)
  show "f \<in> set keyed_params \<Longrightarrow> opt_field (Some r1) f = opt_field (Some r2) f"
    by (rule get [of f]) (simp_all add: key_fields_def)
  show "opt_field (Some r1) ''model'' = opt_field (Some r2) ''model''"
    if "kc_byModel c1 \<noteq> Some False" "kc_byModel c2 \<noteq> Some False"
    using that by (intro get [of "''model''"]) (simp_all add: key_fields_def)
qed

text \<open>The key of a request whose numbers are read back is read back.\<close>

lemma rendered_member: "rendered_json num_text r \<Longrightarrow> opt_field (Some r) f = Some v \<Longrightarrow> rendered_json num_text v"
  by (cases r) (auto simp: opt_field_def json_field_def dest: map_of_SomeD)

lemma rendered_messages: "rendered_json num_text r \<Longrightarrow> keyed_messages config r = Some v \<Longrightarrow> rendered_json num_text v"
  by (auto simp: keyed_messages_def withoutSystem_def Let_def dest: rendered_member split: if_splits option.splits json.splits)

lemma rendered_key:
  assumes "rendered_json num_text request" "\<And>t. scope = Some t \<Longrightarrow> list_all scalar t"
  shows "rendered_json num_text (jobj (members_of (key_fields request config scope)))"
proof -
  let ?ms = "members_of (key_fields request config scope)"
  have sc: "Some v = map_option JStr scope \<Longrightarrow> rendered_json num_text v" for v
    using assms(2) by (cases scope) simp_all
  have vals: "rendered_json num_text v" if "(k, Some v) \<in> set (key_fields request config scope)" for k v
    using that sc rendered_member [OF assms(1)] rendered_messages [OF assms(1)]
    by (auto simp: key_fields_def Let_def split: if_splits)
  have mem: "(k, v) \<in> set ?ms \<Longrightarrow> (k, Some v) \<in> set (key_fields request config scope)" for k v
    by (auto simp: members_of_def opt_member_def split: option.splits)
  have "distinct (map fst (members_of fs))" if "distinct (map fst fs)" for fs :: "(string \<times> jtext json option) list"
    using that by (induction fs) (auto simp: members_of_def opt_member_def rev_image_eqI split: option.splits)
  then have "distinct (map fst ?ms)" using key_fields_distinct by blast
  then have "distinct (map text_of (map fst ?ms))" by (subst distinct_map) (simp add: inj_on_def)
  moreover have "map fst (map (\<lambda>(k, v). (text_of k, v)) ?ms) = map text_of (map fst ?ms)" by (simp add: case_prod_beta)
  ultimately have "distinct (map fst (map (\<lambda>(k, v). (text_of k, v)) ?ms))" by (simp only:)
  moreover have "rendered_json num_text v" if "(k, v) \<in> set ?ms" for k v using vals [OF mem [OF that]] .
  ultimately show ?thesis unfolding jobj_def rendered_json.simps by (auto simp: ascii_scalar)
qed

section \<open>Where a cached answer comes from\<close>

definition sd_key :: "'v cache_deps \<Rightarrow> stored \<Rightarrow> jtext" where
  "sd_key deps s = keyFor (dp_num_text deps) (sd_request s) (sd_config s) (sd_scope s)"

definition entry_logged :: "'v cache_deps \<Rightarrow> stored list \<Rightarrow> jtext \<Rightarrow> cached_entry \<Rightarrow> bool" where
  "entry_logged deps lg k e \<longleftrightarrow>
     (\<exists>s \<in> set lg. k = sd_key deps s \<and> cd_response e = sd_response s \<and> cd_storedAt e = sd_at s)"

definition vector_of :: "'v cache_deps \<Rightarrow> jtext json \<Rightarrow> key_config \<Rightarrow> 'v option" where
  "vector_of deps request config =
     (case (dp_embed deps, promptText (dp_num_text deps) request config) of (Some em, Some t) \<Rightarrow> em t | _ \<Rightarrow> None)"

definition vector_logged :: "'v cache_deps \<Rightarrow> stored list \<Rightarrow> 'v \<Rightarrow> vector_payload \<Rightarrow> bool" where
  "vector_logged deps lg v p \<longleftrightarrow>
     (\<exists>s \<in> set lg. vp_response p = sd_response s \<and> vp_storedAt p = sd_at s \<and> vp_scopeKey p = sd_scope s \<and>
        vector_of deps (sd_request s) (sd_config s) = Some v)"

definition cache_logged :: "'v cache_deps \<Rightarrow> stored list \<Rightarrow> 'v cache \<Rightarrow> bool" where
  "cache_logged deps lg c \<longleftrightarrow>
     (\<forall>(k, e) \<in> set (sc_entries c). entry_logged deps lg k e) \<and> (\<forall>(i, v, p) \<in> set (sc_vectors c). vector_logged deps lg v p)"

definition tier_logged :: "'v cache_deps \<Rightarrow> stored list \<Rightarrow> shared_tier option \<Rightarrow> bool" where
  "tier_logged deps lg shared \<longleftrightarrow>
     (\<forall>m. shared = Some m \<longrightarrow> (\<forall>(d, e) \<in> set m. \<exists>k. d = dp_digest deps k \<and> entry_logged deps lg k e))"

definition fleet_logged :: "'v cache_deps \<Rightarrow> 'v fleet \<Rightarrow> bool" where
  "fleet_logged deps f \<longleftrightarrow> (\<forall>i. cache_logged deps (ft_log f) (ft_caches f i)) \<and> tier_logged deps (ft_log f) (ft_shared f)"

lemma logged_more:
  "cache_logged deps lg c \<Longrightarrow> cache_logged deps (lg @ more_log) c"
  "tier_logged deps lg t \<Longrightarrow> tier_logged deps (lg @ more_log) t"
  unfolding cache_logged_def tier_logged_def entry_logged_def vector_logged_def by (fastforce simp: case_prod_beta)+

lemma cache_logged_sub:
  "cache_logged deps lg c \<Longrightarrow> set (sc_entries c1) \<subseteq> set (sc_entries c) \<Longrightarrow> set (sc_vectors c1) \<subseteq> set (sc_vectors c) \<Longrightarrow>
     cache_logged deps lg c1"
  by (auto simp: cache_logged_def)

lemma tier_logged_sub: "tier_logged deps lg (Some m) \<Longrightarrow> set n \<subseteq> set m \<Longrightarrow> tier_logged deps lg (Some n)"
  by (auto simp: tier_logged_def)

lemma evict_logged: "cache_logged deps lg c \<Longrightarrow> cache_logged deps lg (evict now c)"
  by (erule cache_logged_sub) (use evict_entries [of now c] in auto)

lemma entry_put_logged:
  "cache_logged deps lg c \<Longrightarrow> entry_logged deps lg k e \<Longrightarrow> set m \<subseteq> set (sc_entries c) \<Longrightarrow>
     cache_logged deps lg (c\<lparr>sc_entries := jm_set m k e\<rparr>)"
  using set_of_jm_set [where m = m and k = k and v = e] by (fastforce simp: cache_logged_def)

lemma shared_hit_logged:
  assumes "tier_logged deps lg shared" "inj (dp_digest deps)" "getShared deps now shared c k = Some e"
  shows "entry_logged deps lg k e \<and> fresh (sc_ttlMs c) now (cd_storedAt e)"
proof -
  obtain m where m: "shared = Some m" "jm_get m (dp_digest deps k) = Some e" "fresh (sc_ttlMs c) now (cd_storedAt e)"
    using assms(3) by (auto simp: getShared_def split: option.splits if_splits)
  with assms(1) map_of_SomeD [OF m(2)] obtain k1 where "dp_digest deps k = dp_digest deps k1" "entry_logged deps lg k1 e"
    by (fastforce simp: tier_logged_def)
  with assms(2) m(3) show ?thesis by (auto dest: injD)
qed

lemma semantic_hit_logged:
  assumes "cache_logged deps lg c" "semantic_match deps now c request scope = Some m"
  shows "\<exists>s \<in> set lg. vp_response (vm_payload m) = sd_response s \<and> sd_scope s = scope \<and> fresh (sc_ttlMs c) now (sd_at s) \<and>
    (\<exists>v w. vector_of deps request (sc_keyConfig c) = Some v \<and> vector_of deps (sd_request s) (sd_config s) = Some w \<and>
       sc_similarity c \<le> dp_similarity deps v w)"
proof -
  obtain em t v where v: "dp_embed deps = Some em" "promptText (dp_num_text deps) request (sc_keyConfig c) = Some t" "em t = Some v"
    and f: "List.find (\<lambda>m. vp_scopeKey (vm_payload m) = scope \<and> fresh (sc_ttlMs c) now (vp_storedAt (vm_payload m)))
      (vs_search (dp_similarity deps) v (sc_similarity c) 5 (sc_vectors c)) = Some m"
    using assms(2) by (auto simp: semantic_match_def split: option.splits)
  have m: "m \<in> set (vs_search (dp_similarity deps) v (sc_similarity c) 5 (sc_vectors c))"
    "vp_scopeKey (vm_payload m) = scope" "fresh (sc_ttlMs c) now (vp_storedAt (vm_payload m))"
    using f by (auto simp: find_Some_iff)
  then obtain i w where "(i, w, vm_payload m) \<in> set (sc_vectors c)" "sc_similarity c \<le> dp_similarity deps v w"
    by (auto simp: vs_search_def dest!: in_set_takeD)
  with assms(1) m(2,3) v show ?thesis
    by (fastforce simp: cache_logged_def vector_logged_def vector_of_def)
qed

lemma direct_hit_logged:
  assumes "cache_logged deps lg c" "jm_get (sc_entries (evict now c)) k = Some e"
  shows "entry_logged deps lg k e \<and> fresh (sc_ttlMs c) now (cd_storedAt e)"
  using assms evict_entries [of now c] map_of_SomeD [OF assms(2)] by (fastforce simp: cache_logged_def)

lemma lookup_logged:
  assumes "cache_logged deps lg c" "tier_logged deps lg shared" "inj (dp_digest deps)"
  shows "cache_logged deps lg (fst (getWithDebug deps now attached shared c request scope))"
proof -
  let ?k = "keyFor (dp_num_text deps) request (sc_keyConfig c) scope"
  let ?e = "evict now c"
  have ev: "cache_logged deps lg ?e" by (rule evict_logged [OF assms(1)])
  have touched: "cache_logged deps lg (?e\<lparr>sc_entries := jm_set (jm_delete (sc_entries ?e) ?k) ?k e\<rparr>)"
    if "jm_get (sc_entries ?e) ?k = Some e" for e
    using direct_hit_logged [OF assms(1) that] by (intro entry_put_logged [OF ev] set_of_jm_delete) simp
  have promoted: "cache_logged deps lg (evict now (?e\<lparr>sc_entries := jm_set (sc_entries ?e) ?k e\<rparr>))"
    if "getShared deps now (if attached then shared else None) ?e ?k = Some e" for e
  proof -
    have "tier_logged deps lg (if attached then shared else None)" using assms(2) by (simp add: tier_logged_def)
    from shared_hit_logged [OF this assms(3) that] show ?thesis by (intro evict_logged entry_put_logged [OF ev]) simp_all
  qed
  show ?thesis
    using assms(1) ev touched promoted by (simp add: getWithDebug_def Let_def split: option.split)
qed

lemma store_vector_logged:
  assumes "cache_logged deps lg c" "s \<in> set lg" "vp_response p = sd_response s" "vp_storedAt p = sd_at s" "vp_scopeKey p = sd_scope s"
    "sd_request s = request" "sd_config s = sc_keyConfig c"
  shows "cache_logged deps lg (store_vector deps uuid p request c)"
proof -
  have new: "cache_logged deps lg (c\<lparr>sc_vectors := vs_upsert b i v p (sc_vectors c)\<rparr>)"
    if "vector_of deps request (sc_keyConfig c) = Some v" for b i v
  proof -
    have "set (vs_upsert b i v p (sc_vectors c)) \<subseteq> insert (i, v, p) (set (sc_vectors c))"
      unfolding vs_upsert_def using set_drop_oldest set_of_jm_set set_of_jm_delete by fastforce
    moreover have "vector_logged deps lg v p" unfolding vector_logged_def using assms(2-7) that by (intro bexI [of _ s]) simp_all
    ultimately show ?thesis using assms(1) by (fastforce simp: cache_logged_def)
  qed
  show ?thesis
    using assms(1) new unfolding store_vector_def vector_of_def by (auto split: option.splits)
qed

lemma store_logged:
  assumes "cache_logged deps lg c" "tier_logged deps lg shared"
    "s \<in> set lg" "sd_request s = request" "sd_config s = sc_keyConfig c" "sd_scope s = scope" "sd_response s = response" "sd_at s = now"
  shows "cache_logged deps lg (fst (cache_store deps now uuid request response rid scope (c, shared)))"
    "tier_logged deps lg (snd (cache_store deps now uuid request response rid scope (c, shared)))"
proof -
  let ?k = "keyFor (dp_num_text deps) request (sc_keyConfig c) scope"
  let ?e = "\<lparr>cd_response = response, cd_storedAt = now, cd_requestId = rid\<rparr>"
  have e: "entry_logged deps lg ?k ?e"
    unfolding entry_logged_def sd_key_def using assms(3-8) by (intro bexI [of _ s]) simp_all
  have "cache_logged deps lg (c\<lparr>sc_entries := jm_set (sc_entries c) ?k ?e\<rparr>)"
    by (rule entry_put_logged [OF assms(1) e]) simp
  with assms(3-8) show "cache_logged deps lg (fst (cache_store deps now uuid request response rid scope (c, shared)))"
    unfolding cache_store_def Let_def prod.case fst_conv by (intro evict_logged store_vector_logged [of _ _ _ s]) simp_all
  show "tier_logged deps lg (snd (cache_store deps now uuid request response rid scope (c, shared)))"
    using assms(2) e set_of_jm_set [where k = "dp_digest deps ?k" and v = ?e]
    unfolding cache_store_def Let_def prod.case snd_conv tier_logged_def by (fastforce simp: case_prod_beta)
qed

lemma fleet_loggedD:
  assumes "fleet_logged deps f"
  shows "cache_logged deps (ft_log f) (ft_caches f i)" "tier_logged deps (ft_log f) (reachable_tier up f)"
    "tier_logged deps (ft_log f) (ft_shared f)"
  using assms by (simp_all add: fleet_logged_def reachable_tier_def tier_logged_def)

lemma put_back_logged:
  assumes "fleet_logged deps f" "cache_logged deps (ft_log f @ lg) (fst cs)" "tier_logged deps (ft_log f @ lg) (snd cs)"
  shows "fleet_logged deps ((put_back i up cs f)\<lparr>ft_log := ft_log f @ lg\<rparr>)"
  using assms by (auto simp: fleet_logged_def put_back_def intro: logged_more)

lemma put_back_same:
  assumes "fleet_logged deps f" "cache_logged deps (ft_log f) (fst cs)" "tier_logged deps (ft_log f) (snd cs)"
  shows "fleet_logged deps (put_back i up cs f)"
  using assms by (auto simp: fleet_logged_def put_back_def)

lemma cache_only_logged:
  assumes "fleet_logged deps f" "cache_logged deps (ft_log f) c"
  shows "fleet_logged deps (f\<lparr>ft_caches := (ft_caches f)(i := c)\<rparr>)"
  using assms by (auto simp: fleet_logged_def)

lemma tier_map_logged:
  "tier_logged deps lg t \<Longrightarrow> (\<And>m. set (g m) \<subseteq> set m) \<Longrightarrow> tier_logged deps lg (map_option g t)"
  by (cases t) (fastforce simp: tier_logged_def)+

lemma deleteEntryLocal_logged: "cache_logged deps lg c \<Longrightarrow> cache_logged deps lg (fst (deleteEntryLocal deps' request c))"
  by (erule cache_logged_sub) (use set_of_jm_delete in \<open>force simp: deleteEntryLocal_def Let_def\<close>)+

lemma fleet_step_logged:
  assumes "fleet_logged deps f" "inj (dp_digest deps)"
  shows "fleet_logged deps (fleet_step deps f ev)"
proof (cases ev)
  case (EvLookup i now up request scope)
  then show ?thesis
    unfolding fleet_step.simps EvLookup fleet_lookup_def
    by (intro cache_only_logged [OF assms(1)] lookup_logged fleet_loggedD [OF assms(1)] assms(2))
next
  case (EvStore i now up uuid request response rid scope)
  let ?c = "ft_caches f i"
  show ?thesis
  proof (cases "cachingDisabledFor ?c request")
    case True
    then show ?thesis
      unfolding EvStore fleet_step.simps by (intro put_back_logged [OF assms(1)])
        (simp_all add: cache_set_def fleet_loggedD [OF assms(1)])
  next
    case False
    let ?s = "\<lparr>sd_request = request, sd_config = sc_keyConfig ?c, sd_scope = scope, sd_response = response, sd_at = now\<rparr>"
    note store = store_logged [OF logged_more(1) [OF fleet_loggedD(1) [OF assms(1)], of "[?s]" i]
        logged_more(2) [OF fleet_loggedD(2) [OF assms(1)], of "[?s]" up], of ?s request scope response now uuid rid]
    with False show ?thesis
      unfolding EvStore fleet_step.simps by (intro put_back_logged [OF assms(1)]) (simp_all add: cache_set_def)
  qed
next
  case (EvConfigure i o1)
  have "cache_logged deps (ft_log f) (configure o1 (ft_caches f i))"
    by (rule cache_logged_sub [OF fleet_loggedD(1) [OF assms(1), of i]]) (simp_all add: configure_def)
  then show ?thesis unfolding EvConfigure fleet_step.simps by (rule cache_only_logged [OF assms(1)])
next
  case (EvClear i up)
  have "cache_logged deps (ft_log f) (fst (clearLocal (ft_caches f i)))"
    by (rule cache_logged_sub [OF fleet_loggedD(1) [OF assms(1), of i]]) (simp_all add: clearLocal_def)
  then show ?thesis unfolding EvClear fleet_step.simps
    by (intro put_back_same [OF assms(1)])
      (simp_all add: cache_clear_def Let_def case_prod_beta tier_map_logged [OF fleet_loggedD(2) [OF assms(1)]])
next
  case (EvClearLocal i)
  have "cache_logged deps (ft_log f) (fst (clearLocal (ft_caches f i)))"
    by (rule cache_logged_sub [OF fleet_loggedD(1) [OF assms(1), of i]]) (simp_all add: clearLocal_def)
  then show ?thesis unfolding EvClearLocal fleet_step.simps by (rule cache_only_logged [OF assms(1)])
next
  case (EvDropRequest i up rid)
  have sub: "set (without_request rid m) \<subseteq> set m" for m by (auto simp: without_request_def)
  have "cache_logged deps (ft_log f) ((ft_caches f i)\<lparr>sc_entries := without_request rid (sc_entries (ft_caches f i)),
      sc_vectors := jm_delete (sc_vectors (ft_caches f i)) rid\<rparr>)"
    by (rule cache_logged_sub [OF fleet_loggedD(1) [OF assms(1), of i]]) (simp_all add: sub set_of_jm_delete)
  then show ?thesis unfolding EvDropRequest fleet_step.simps
    by (intro put_back_same [OF assms(1)])
      (simp_all add: deleteByRequestId_def tier_map_logged [OF fleet_loggedD(2) [OF assms(1)] sub])
next
  case (EvDropEntry i up request)
  show ?thesis unfolding EvDropEntry fleet_step.simps
    by (intro put_back_same [OF assms(1)])
      (simp_all add: deleteEntry_def Let_def case_prod_beta deleteEntryLocal_logged [OF fleet_loggedD(1) [OF assms(1)]]
        tier_map_logged [OF fleet_loggedD(2) [OF assms(1)] set_of_jm_delete])
next
  case (EvDropEntryLocal i request)
  show ?thesis unfolding EvDropEntryLocal fleet_step.simps
    by (intro cache_only_logged [OF assms(1)] deleteEntryLocal_logged fleet_loggedD(1) [OF assms(1)])
next
  case (EvSharedGone ds)
  have "tier_logged deps (ft_log f) (map_option (filter (\<lambda>(d, e). d \<notin> set ds)) (ft_shared f))"
    by (rule tier_map_logged [OF fleet_loggedD(3) [OF assms(1)]]) auto
  then show ?thesis using assms(1) unfolding EvSharedGone fleet_step.simps by (simp add: fleet_logged_def)
qed

definition fleet_run :: "'v cache_deps \<Rightarrow> 'v fleet \<Rightarrow> fleet_event list \<Rightarrow> 'v fleet" where
  "fleet_run deps f evs = foldl (fleet_step deps) f evs"

lemma fleet_run_logged:
  assumes "blank caches" "inj (dp_digest deps)"
  shows "fleet_logged deps (fleet_run deps (fleet_start caches attached) evs)"
proof (induction evs rule: rev_induct)
  case Nil
  show ?case using assms(1)
    by (simp add: fleet_run_def fleet_logged_def fleet_start_def cache_logged_def tier_logged_def blank_def)
next
  case (snoc ev evs)
  then show ?case using fleet_step_logged [OF _ assms(2)] by (simp add: fleet_run_def)
qed

definition request_rendered :: "'v cache_deps \<Rightarrow> jtext json \<Rightarrow> jtext option \<Rightarrow> bool" where
  "request_rendered deps request scope \<longleftrightarrow>
     rendered_json (dp_num_text deps) request \<and> (case scope of Some t \<Rightarrow> list_all scalar t | None \<Rightarrow> True)"

text \<open>Two requests agree on everything the key keeps.\<close>

definition same_key_parts :: "jtext json \<times> key_config \<Rightarrow> jtext json \<times> key_config \<Rightarrow> bool" where
  "same_key_parts a b \<longleftrightarrow>
     keyed_messages (snd a) (fst a) = keyed_messages (snd b) (fst b) \<and>
     (\<forall>f \<in> set keyed_params. opt_field (Some (fst a)) f = opt_field (Some (fst b)) f) \<and>
     (kc_byModel (snd a) \<noteq> Some False \<and> kc_byModel (snd b) \<noteq> Some False \<longrightarrow>
        opt_field (Some (fst a)) ''model'' = opt_field (Some (fst b)) ''model'')"

definition similar_prompt :: "'v cache_deps \<Rightarrow> rat \<Rightarrow> jtext json \<times> key_config \<Rightarrow> jtext json \<times> key_config \<Rightarrow> bool" where
  "similar_prompt deps threshold a b \<longleftrightarrow>
     (case (vector_of deps (fst a) (snd a), vector_of deps (fst b) (snd b)) of
        (Some v, Some w) \<Rightarrow> threshold \<le> dp_similarity deps v w
      | _ \<Rightarrow> False)"

lemma key_determines:
  assumes "request_rendered deps r1 s1" "request_rendered deps r2 s2"
    "keyFor (dp_num_text deps) r1 c1 s1 = keyFor (dp_num_text deps) r2 c2 s2"
  shows "s1 = s2 \<and> same_key_parts (r1, c1) (r2, c2)"
proof -
  have "members_of (key_fields r1 c1 s1) = members_of (key_fields r2 c2 s2)"
    using assms unfolding keyFor_def request_rendered_def
    by (intro jobj_inj stringify_inj [of "dp_num_text deps"] rendered_key) auto
  from fields_of_key [OF this] show ?thesis unfolding same_key_parts_def by auto
qed

lemma served_from_log:
  assumes "fleet_logged deps f" "inj (dp_digest deps)" "\<forall>s \<in> set (ft_log f). request_rendered deps (sd_request s) (sd_scope s)"
    "request_rendered deps request scope" "fleet_lookup deps i now up request scope f = (c, Some answer, debug)"
  shows "\<exists>s \<in> set (ft_log f). sd_response s = answer \<and> sd_scope s = scope \<and> fresh (sc_ttlMs (ft_caches f i)) now (sd_at s) \<and>
    (cg_type debug = DirectHit \<and> same_key_parts (sd_request s, sd_config s) (request, sc_keyConfig (ft_caches f i)) \<or>
     cg_type debug = SemanticHit \<and>
       similar_prompt deps (sc_similarity (ft_caches f i)) (request, sc_keyConfig (ft_caches f i)) (sd_request s, sd_config s))"
proof -
  let ?c = "ft_caches f i"
  let ?k = "keyFor (dp_num_text deps) request (sc_keyConfig ?c) scope"
  note logged = fleet_loggedD [OF assms(1)]
  have direct: ?thesis
    if "entry_logged deps (ft_log f) ?k e" "fresh (sc_ttlMs ?c) now (cd_storedAt e)" "answer = cd_response e" "cg_type debug = DirectHit" for e
  proof -
    from that(1) obtain s where s: "s \<in> set (ft_log f)" "?k = sd_key deps s" "cd_response e = sd_response s" "cd_storedAt e = sd_at s"
      by (auto simp: entry_logged_def)
    with key_determines [OF _ assms(4), of "sd_request s" "sd_scope s" "sd_config s" "sc_keyConfig ?c"] assms(3) that(2-4)
    show ?thesis by (intro bexI [of _ s]) (auto simp: sd_key_def)
  qed
  have shared: "tier_logged deps (ft_log f) (if ft_shared f \<noteq> None then reachable_tier up f else None)"
    using logged(2) by (simp add: tier_logged_def)
  have "\<not> cachingDisabledFor ?c request" using assms(5) by (auto simp: fleet_lookup_def getWithDebug_def split: if_splits)
  with assms(5) consider e where "jm_get (sc_entries (evict now ?c)) ?k = Some e" "answer = cd_response e" "cg_type debug = DirectHit"
    | e where "getShared deps now (if ft_shared f \<noteq> None then reachable_tier up f else None) (evict now ?c) ?k = Some e"
        "answer = cd_response e" "cg_type debug = DirectHit"
    | m where "semantic_match deps now (evict now ?c) request scope = Some m" "answer = vp_response (vm_payload m)"
        "cg_type debug = SemanticHit"
    by (auto simp: fleet_lookup_def getWithDebug_def Let_def hitDebug_def split: option.splits)
  then show ?thesis
  proof cases
    case 1
    then show ?thesis using direct_hit_logged [OF logged(1) 1(1)] by (intro direct) simp_all
  next
    case 2
    then show ?thesis using shared_hit_logged [OF shared assms(2) 2(1)] by (intro direct) simp_all
  next
    case 3
    from semantic_hit_logged [OF evict_logged [OF logged(1)] 3(1)] 3(2,3) show ?thesis
      by (fastforce simp: similar_prompt_def)
  qed
qed

text \<open>C37: A cached answer is never served across namespaces, and never without a store behind it. In a fleet of
  gateways that share a tier and start with empty caches, and whatever stores, lookups, retunings, clears and
  outages came before, each a step of its own, an answer a lookup returns was stored by some replica in the very
  namespace of the caller, is not older than the time to live, and is either an exact hit, stored for a request
  that agrees in everything the key keeps (the messages, the eighteen listed parameters, which do not include
  \<open>tool_choice\<close>, and, unless models are left out of the key, the model), or a semantic hit whose prompt embeds at
  least as close as the similarity cutoff. SHA-256 is taken not to collide, and the requests hold numbers and
  texts that \<open>JSON.stringify\<close> writes without ambiguity.\<close>

theorem cached_answers_have_an_origin:
  assumes "blank caches" "inj (dp_digest deps)" "f = fleet_run deps (fleet_start caches attached) evs"
    "\<forall>s \<in> set (ft_log f). request_rendered deps (sd_request s) (sd_scope s)" "request_rendered deps request scope"
    "fleet_lookup deps i now up request scope f = (c, Some answer, debug)"
  shows "\<exists>s \<in> set (ft_log f). sd_response s = answer \<and> sd_scope s = scope \<and> fresh (sc_ttlMs (ft_caches f i)) now (sd_at s) \<and>
    (cg_type debug = DirectHit \<and> same_key_parts (sd_request s, sd_config s) (request, sc_keyConfig (ft_caches f i)) \<or>
     cg_type debug = SemanticHit \<and>
       similar_prompt deps (sc_similarity (ft_caches f i)) (request, sc_keyConfig (ft_caches f i)) (sd_request s, sd_config s))"
  using fleet_run_logged [OF assms(1,2)] assms(2,4-6) unfolding assms(3) by (rule served_from_log)

section \<open>The bound\<close>

definition within_bound :: "'v cache \<Rightarrow> bool" where
  "within_bound c \<longleftrightarrow> 0 \<le> sc_maxEntries c \<and> jm_ok (sc_entries c) \<and> int (length (sc_entries c)) \<le> sc_maxEntries c \<and>
     jm_ok (sc_vectors c) \<and> int (length (sc_vectors c)) \<le> sc_maxEntries c"

lemma filtered_ok: "jm_ok m \<Longrightarrow> jm_ok (filter P m)"
  by (simp add: distinct_map_filter)

lemma evict_bound:
  assumes "0 \<le> sc_maxEntries c" "jm_ok (sc_entries c)" "jm_ok (sc_vectors c)" "int (length (sc_vectors c)) \<le> sc_maxEntries c"
  shows "within_bound (evict now c)"
  using assms by (simp add: within_bound_def evict_def drop_oldest_ok drop_oldest_length filtered_ok)

lemma length_refresh: "jm_ok m \<Longrightarrow> jm_get m k = Some v \<Longrightarrow> length (jm_set (jm_delete m k) k w) = length m"
proof (induction m)
  case (Cons x m)
  obtain j u where x: "x = (j, u)" by (cases x)
  show ?case
  proof (cases "j = k")
    case True
    then have n: "jm_get m k = None" using Cons.prems x by (auto simp: map_of_eq_None_iff)
    then have "jm_delete m k = m" by (induction m) (auto split: if_splits)
    with True x n show ?thesis by (simp add: set_absent)
  next
    case False
    with Cons x show ?thesis by simp
  qed
qed simp

lemma lookup_bound:
  assumes "within_bound c"
  shows "within_bound (fst (getWithDebug deps now attached shared c request scope))"
proof -
  note b = assms [unfolded within_bound_def]
  have ev: "within_bound (evict now c)" using b by (intro evict_bound) simp_all
  note e = ev [unfolded within_bound_def]
  have "within_bound ((evict now c)\<lparr>sc_entries := jm_set (jm_delete (sc_entries (evict now c)) k) k x\<rparr>)"
    if "jm_get (sc_entries (evict now c)) k = Some x" for k x
    using e length_refresh [OF _ that, of x] by (simp add: within_bound_def)
  moreover have "within_bound (evict now ((evict now c)\<lparr>sc_entries := jm_set (sc_entries (evict now c)) k x\<rparr>))" for k x
    using e by (intro evict_bound) simp_all
  ultimately show ?thesis using assms ev by (simp add: getWithDebug_def Let_def split: option.split)
qed

lemma store_vector_bound:
  "within_bound c \<Longrightarrow> sc_entries (store_vector deps uuid p request c) = sc_entries c \<and>
     sc_maxEntries (store_vector deps uuid p request c) = sc_maxEntries c \<and>
     jm_ok (sc_vectors (store_vector deps uuid p request c)) \<and>
     int (length (sc_vectors (store_vector deps uuid p request c))) \<le> sc_maxEntries c"
  by (auto simp: store_vector_def within_bound_def vs_upsert_def drop_oldest_ok drop_oldest_length split: option.split)

text \<open>No operation lets the cache or its vectors grow past \<open>maxEntries\<close>.\<close>

lemma fleet_step_bound:
  assumes "\<forall>i. within_bound (ft_caches f i)"
  shows "within_bound (ft_caches (fleet_step deps f ev) i)"
proof -
  have store: "within_bound (fst (cache_set deps now uuid request response rid scope (c, sh)))"
    if "within_bound c" for c now uuid request response rid scope sh
  proof -
    note b = that [unfolded within_bound_def]
    show ?thesis
      using that b
      by (simp add: cache_set_def cache_store_def Let_def, intro impI evict_bound)
        (simp_all add: store_vector_def vs_upsert_def drop_oldest_ok drop_oldest_length split: option.split)
  qed
  have keep: "within_bound c \<Longrightarrow> within_bound (configure o1 c)" "within_bound c \<Longrightarrow> within_bound (fst (clearLocal c))"
    "within_bound c \<Longrightarrow> within_bound (fst (deleteEntryLocal deps request c))"
    "within_bound c \<Longrightarrow> within_bound (c\<lparr>sc_entries := without_request rid (sc_entries c), sc_vectors := jm_delete (sc_vectors c) rid\<rparr>)"
    for c :: "'a cache" and o1 request rid
    by (auto simp: within_bound_def configure_def clearLocal_def deleteEntryLocal_def Let_def without_request_def filtered_ok
        intro: order_trans [OF _ _] dest: order_trans [OF iffD2 [OF of_nat_le_iff length_filter_le]]
        order_trans [OF iffD2 [OF of_nat_le_iff length_delete_le]])
  show ?thesis
    using assms store keep
    by (cases ev) (simp_all add: lookup_bound put_back_def fleet_lookup_def cache_clear_def deleteByRequestId_def deleteEntry_def Let_def case_prod_beta)
qed

section \<open>Limits of the cache\<close>

text \<open>The key leaves out \<open>tool_choice\<close>: a request that forbids tools is served the answer of one that
  demands them.\<close>

definition chat :: "string \<Rightarrow> (string \<times> jtext json) list \<Rightarrow> jtext json" where
  "chat model more_fields =
     jobj ([(''model'', jt model), (''messages'', JArr [jobj [(''role'', jt ''user''), (''content'', jt ''hi'')]])] @ more_fields)"

lemma chat_fields:
  "opt_field (Some (chat m [])) f =
     (if f = ''model'' then Some (jt m)
      else if f = ''messages'' then Some (JArr [jobj [(''role'', jt ''user''), (''content'', jt ''hi'')]]) else None)"
  "opt_field (Some (chat m [(''tool_choice'', jt c)])) f =
     (if f = ''model'' then Some (jt m)
      else if f = ''messages'' then Some (JArr [jobj [(''role'', jt ''user''), (''content'', jt ''hi'')]])
      else if f = ''tool_choice'' then Some (jt c) else None)"
  by (simp_all add: chat_def opt_field_def json_field_def jobj_def)

lemma tool_choice_not_keyed:
  "keyFor num_text (chat m [(''tool_choice'', jt ''none'')]) config scope =
     keyFor num_text (chat m [(''tool_choice'', jt ''required'')]) config scope"
  unfolding keyFor_def key_fields_def keyed_params_def keyed_messages_def by (simp add: chat_fields Let_def)

section \<open>Examples\<close>

definition demo_deps :: "unit cache_deps" where
  "demo_deps = \<lparr>dp_num_text = (\<lambda>q. []), dp_digest = id, dp_embed = Some (\<lambda>t. Some ()), dp_similarity = (\<lambda>v w. 1)\<rparr>"

definition demo_cache :: "unit cache" where
  "demo_cache = new_cache 300000 500 (19/20) \<lparr>kc_byProvider = False, kc_byModel = None, kc_excludeSystem = False\<rparr> 0"

definition demo_events :: "fleet_event list" where
  "demo_events = [EvStore 0 1000 True [] (chat ''small'' []) (jt ''answer'') None None]"

definition demo_fleet :: "unit fleet" where
  "demo_fleet = fleet_run demo_deps (fleet_start (\<lambda>i. demo_cache) False) demo_events"

lemma chat_rendered: "request_rendered demo_deps (chat m []) None"
  by (simp add: request_rendered_def chat_def jobj_def jt_def ascii_scalar)

lemma chat_keys_differ:
  assumes "m \<noteq> n"
  shows "keyFor (dp_num_text demo_deps) (chat m []) (sc_keyConfig demo_cache) None \<noteq>
    keyFor (dp_num_text demo_deps) (chat n []) (sc_keyConfig demo_cache) None"
proof
  assume "keyFor (dp_num_text demo_deps) (chat m []) (sc_keyConfig demo_cache) None =
    keyFor (dp_num_text demo_deps) (chat n []) (sc_keyConfig demo_cache) None"
  from key_determines [OF chat_rendered chat_rendered this] assms show False
    by (simp add: same_key_parts_def demo_cache_def new_cache_def chat_fields(1) [of _ "''model''"] jt_def)
qed

lemma chat_prompt: "promptText nt (chat m []) (sc_keyConfig demo_cache) = Some (text_of ''hi'')"
proof -
  have "opt_field (Some (jobj [(''role'', jt ''user''), (''content'', jt ''hi'')])) ''content'' = Some (jt ''hi'')"
    "JNull \<noteq> jobj [(''role'', jt ''user''), (''content'', jt ''hi'')]"
    by (simp_all add: opt_field_def json_field_def jobj_def)
  then show ?thesis
    by (simp add: promptText_def chat_fields nullish_or_def demo_cache_def new_cache_def content_text_def jt_def)
qed

lemma demo_stored:
  "ft_caches demo_fleet 0 = demo_cache\<lparr>
     sc_entries := [(keyFor (\<lambda>q. []) (chat ''small'' []) (sc_keyConfig demo_cache) None,
       \<lparr>cd_response = jt ''answer'', cd_storedAt = 1000, cd_requestId = None\<rparr>)],
     sc_vectors := [([], ((), \<lparr>vp_response = jt ''answer'', vp_storedAt = 1000, vp_requestId = None, vp_scopeKey = None\<rparr>))]\<rparr>"
  "ft_log demo_fleet = [\<lparr>sd_request = chat ''small'' [], sd_config = sc_keyConfig demo_cache, sd_scope = None,
     sd_response = jt ''answer'', sd_at = 1000\<rparr>]"
  "ft_shared demo_fleet = None"
proof -
  have "\<not> cachingDisabledFor demo_cache r" for r by (simp add: cachingDisabledFor_def demo_cache_def new_cache_def)
  then show "ft_caches demo_fleet 0 = demo_cache\<lparr>
     sc_entries := [(keyFor (\<lambda>q. []) (chat ''small'' []) (sc_keyConfig demo_cache) None,
       \<lparr>cd_response = jt ''answer'', cd_storedAt = 1000, cd_requestId = None\<rparr>)],
     sc_vectors := [([], ((), \<lparr>vp_response = jt ''answer'', vp_storedAt = 1000, vp_requestId = None, vp_scopeKey = None\<rparr>))]\<rparr>"
    "ft_log demo_fleet = [\<lparr>sd_request = chat ''small'' [], sd_config = sc_keyConfig demo_cache, sd_scope = None,
     sd_response = jt ''answer'', sd_at = 1000\<rparr>]"
    "ft_shared demo_fleet = None"
    by (simp_all add: demo_fleet_def fleet_run_def demo_events_def fleet_start_def put_back_def reachable_tier_def cache_set_def
        cache_store_def Let_def store_vector_def demo_deps_def chat_prompt, simp add: demo_cache_def new_cache_def evict_def fresh_def vs_upsert_def)
qed

lemma demo_lookup:
  "snd (fleet_lookup demo_deps 0 2000 False (chat m []) None demo_fleet) =
     (Some (jt ''answer''), if m = ''small'' then \<lparr>cg_type = DirectHit, cg_threshold = 19/20, cg_similarity = None, cg_tokens = None, cg_tier = None\<rparr>
        else \<lparr>cg_type = SemanticHit, cg_threshold = 19/20, cg_similarity = Some 1, cg_tokens = None, cg_tier = None\<rparr>)"
proof -
  let ?c = "ft_caches demo_fleet 0"
  have open_cache: "\<not> cachingDisabledFor ?c r" for r
    by (simp add: demo_stored cachingDisabledFor_def) (simp add: demo_cache_def new_cache_def)
  have "evict 2000 ?c = ?c" by (simp add: demo_stored evict_def fresh_def) (simp add: demo_cache_def new_cache_def)
  moreover have "json_number (opt_field (opt_field (Some (jt ''answer'')) ''usage'') ''total_tokens'') = None"
    by (simp add: opt_field_def json_field_def jt_def json_number_def)
  moreover have "jm_get (sc_entries ?c) (keyFor (dp_num_text demo_deps) (chat m []) (sc_keyConfig ?c) None) =
      (if m = ''small'' then Some \<lparr>cd_response = jt ''answer'', cd_storedAt = 1000, cd_requestId = None\<rparr> else None)"
    using chat_keys_differ [of m "''small''"] by (cases "m = ''small''") (simp_all add: demo_stored(1) demo_deps_def)
  moreover have "semantic_match demo_deps 2000 ?c (chat m []) None =
      Some \<lparr>vm_id = [], vm_score = 1, vm_payload = \<lparr>vp_response = jt ''answer'', vp_storedAt = 1000, vp_requestId = None, vp_scopeKey = None\<rparr>\<rparr>"
    by (simp add: semantic_match_def demo_deps_def demo_stored(1) chat_prompt vs_search_def fresh_def)
      (simp add: demo_cache_def new_cache_def)
  moreover have "sc_similarity ?c = 19/20" by (simp add: demo_stored(1)) (simp add: demo_cache_def new_cache_def)
  ultimately show ?thesis
    using open_cache by (simp add: fleet_lookup_def getWithDebug_def Let_def getShared_def demo_stored(3) hitDebug_def)
qed

text \<open>The semantic tier compares prompts and namespaces only: a request for another model is served the
  answer of the first.\<close>

lemma semantic_tier_ignores_model:
  "\<exists>d. snd (fleet_lookup demo_deps 0 2000 False (chat ''large'' []) None demo_fleet) = (Some (jt ''answer''), d) \<and>
     sd_request (hd (ft_log demo_fleet)) = chat ''small'' []"
  by (simp add: demo_lookup demo_stored(2))

lemma cached_answers_have_an_origin_witness:
  "\<exists>s \<in> set (ft_log demo_fleet). sd_response s = jt ''answer'' \<and> sd_scope s = None"
proof -
  obtain c a d where l: "fleet_lookup demo_deps 0 2000 False (chat ''small'' []) None demo_fleet = (c, a, d)"
    by (metis prod_cases3)
  with demo_lookup [of "''small''"] have "a = Some (jt ''answer'')" by simp
  then have run: "fleet_lookup demo_deps 0 2000 False (chat ''small'' []) None demo_fleet = (c, Some (jt ''answer''), d)"
    using l by simp
  have "blank (\<lambda>i. demo_cache)" by (simp add: blank_def demo_cache_def new_cache_def)
  moreover have "inj (dp_digest demo_deps)" by (simp add: demo_deps_def)
  moreover have "\<forall>s \<in> set (ft_log demo_fleet). request_rendered demo_deps (sd_request s) (sd_scope s)"
    by (simp add: demo_stored(2) chat_rendered)
  ultimately show ?thesis
    using cached_answers_have_an_origin [OF _ _ demo_fleet_def _ chat_rendered run] by blast
qed

end
