(* ===== verification/LogBus.thy ===== *)
theory LogBus
  imports StreamTranslate
begin

text \<open>
  The request log of \<open>packages/telemetry/src/logbus.ts\<close>: which paths are left out, what captured content
  may hold, and the ring buffer with its live subscribers. An entry is its members in order; subscribers are
  numbered, and an operation returns what it delivered to whom.
\<close>

section \<open>Settings\<close>

definition statusClass :: "rat option \<Rightarrow> string" where
  "statusClass status =
     (case status of
        None \<Rightarrow> ''unknown''
      | Some s \<Rightarrow> if s < 100 \<or> s \<ge> 600 then ''unknown'' else nat_str (nat \<lfloor>s / 100\<rfloor>) @ ''xx'')"

definition logContentEnabled :: "string option \<Rightarrow> bool" where
  "logContentEnabled raw =
     (let v = js_lower (js_trim (case raw of Some s \<Rightarrow> s | None \<Rightarrow> []))
      in v = ''on'' \<or> v = ''1'' \<or> v = ''true'' \<or> v = ''yes'')"

definition DEFAULT_LOG_EXCLUDE_PATHS :: string where
  "DEFAULT_LOG_EXCLUDE_PATHS = ''/healthz,/metrics,/favicon.ico''"

definition MAX_EXCLUDE_PATTERNS :: nat where "MAX_EXCLUDE_PATTERNS = 64"

definition MAX_PATTERN_LENGTH :: nat where "MAX_PATTERN_LENGTH = 256"

definition EXCLUDE_OFF :: "string list" where
  "EXCLUDE_OFF = [''off'', ''none'', ''0'', ''false'', ''disabled'']"

text \<open>The exact paths, each once, and the prefixes.\<close>

definition add_pattern :: "string \<Rightarrow> string list \<times> string list \<Rightarrow> string list \<times> string list" where
  "add_pattern part ep =
     (case ep of (exact, pres) \<Rightarrow>
        (let p = take MAX_PATTERN_LENGTH (js_trim part)
         in if p = [] \<or> length exact + length pres \<ge> MAX_EXCLUDE_PATTERNS then (exact, pres)
            else if last_n 2 p = ''/*'' then (exact, pres @ [butlast p])
            else (if p \<in> set exact then exact else exact @ [p], pres)))"

definition path_patterns :: "string option \<Rightarrow> string list \<times> string list" where
  "path_patterns raw =
     (let v = js_trim (case raw of Some s \<Rightarrow> s | None \<Rightarrow> []);
          src = (if v = [] then DEFAULT_LOG_EXCLUDE_PATHS else v)
      in if js_lower src \<in> set EXCLUDE_OFF then ([], [])
         else foldl (\<lambda>ep part. add_pattern part ep) ([], []) (split_on CHR '','' src))"

definition path_excluded :: "string option \<Rightarrow> string option \<Rightarrow> bool" where
  "path_excluded raw path =
     (case (path_patterns raw, path) of
        (_, None) \<Rightarrow> False
      | ((exact, pres), Some p) \<Rightarrow>
          if p = [] then False else p \<in> set exact \<or> list_ex (\<lambda>q. take (length q) p = q) pres)"

section \<open>Captured content\<close>

text \<open>The alternatives of \<open>SECRET_KEY_RE\<close>, each optional separator written out; the expression ignores the
  case of ASCII letters.\<close>

definition secret_words :: "string list" where
  "secret_words =
     [''authorization'', ''apikey'', ''api-key'', ''api_key'', ''secret'', ''token'', ''password'', ''passwd'', ''bearer'', ''cookie'',
      ''credential'', ''accesskey'', ''access-key'', ''access_key'', ''clientsecret'', ''client-secret'', ''client_secret'',
      ''privatekey'', ''private-key'', ''private_key'', ''sessionid'', ''session-id'', ''session_id'', ''x-api-key'']"

definition lower_point :: "nat \<Rightarrow> nat" where
  "lower_point c = (if 65 \<le> c \<and> c \<le> 90 then c + 32 else c)"

definition contains :: "jtext \<Rightarrow> jtext \<Rightarrow> bool" where
  "contains w s \<longleftrightarrow> list_ex (\<lambda>i. take (length w) (drop i s) = w) [0..<Suc (length s)]"

definition secret_key :: "jtext \<Rightarrow> bool" where
  "secret_key k \<longleftrightarrow> list_ex (\<lambda>w. contains (text_of w) (map lower_point k)) secret_words"

definition MAX_REDACT_DEPTH :: nat where "MAX_REDACT_DEPTH = 8"

abbreviation redacted :: "jtext json" where "redacted \<equiv> JStr (text_of ''[redacted]'')"

abbreviation truncated :: "jtext json" where "truncated \<equiv> JStr (text_of ''[truncated]'')"

fun redactContent :: "nat \<Rightarrow> jtext json \<Rightarrow> jtext json" where
  "redactContent depth (JArr vs) =
     (if depth \<ge> MAX_REDACT_DEPTH then truncated else JArr (map (\<lambda>v. redactContent (depth + 1) v) vs))"
| "redactContent depth (JObj ms) =
     (if depth \<ge> MAX_REDACT_DEPTH then truncated
      else JObj (map (\<lambda>(k, v). (k, if secret_key k then redacted else redactContent (depth + 1) v)) ms))"
| "redactContent depth v = v"

record log_content =
  lc_modality :: string
  lc_request :: "jtext json"
  lc_response :: "jtext json"

definition captureContent :: "string \<Rightarrow> jtext json \<Rightarrow> jtext json \<Rightarrow> bool \<Rightarrow> log_content option" where
  "captureContent modality request response enabled =
     (if \<not> enabled then None
      else Some \<lparr>lc_modality = modality, lc_request = redactContent 0 request, lc_response = redactContent 0 response\<rparr>)"

section \<open>The ring\<close>

type_synonym log_entry = "(string, jtext json) jmap"

record log_bus =
  lb_capacity :: int
  lb_buffer :: "log_entry list"
  lb_dropped :: int
  lb_subscribers :: "nat list"

definition new_bus :: "int \<Rightarrow> log_bus" where
  "new_bus capacity = \<lparr>lb_capacity = capacity, lb_buffer = [], lb_dropped = 0, lb_subscribers = []\<rparr>"

definition deliveries :: "log_bus \<Rightarrow> log_entry \<Rightarrow> (nat \<times> log_entry) list" where
  "deliveries b e = map (\<lambda>s. (s, e)) (lb_subscribers b)"

definition lb_publish :: "log_entry \<Rightarrow> log_bus \<Rightarrow> log_bus \<times> (nat \<times> log_entry) list" where
  "lb_publish e b =
     (let pushed = lb_buffer b @ [e];
          removed = int (length pushed) - lb_capacity b
      in (if removed > 0
          then b\<lparr>lb_buffer := drop (nat removed) pushed, lb_dropped := lb_dropped b + removed\<rparr>
          else b\<lparr>lb_buffer := pushed\<rparr>, deliveries b e))"

text \<open>The newest entry of a request, from the end.\<close>

definition same_request :: "jtext \<Rightarrow> log_entry \<Rightarrow> bool" where
  "same_request rid e \<longleftrightarrow> jm_get e ''requestId'' = Some (JStr rid)"

definition merged :: "log_entry \<Rightarrow> log_entry \<Rightarrow> log_entry" where
  "merged e patch = foldl (\<lambda>m (k, v). jm_set m k v) e patch"

fun patch_newest :: "jtext \<Rightarrow> log_entry \<Rightarrow> log_entry list \<Rightarrow> (log_entry list \<times> log_entry) option" where
  "patch_newest rid patch [] = None"
| "patch_newest rid patch (e # es) =
     (case patch_newest rid patch es of
        Some (es1, m) \<Rightarrow> Some (e # es1, m)
      | None \<Rightarrow> if same_request rid e then Some (merged e patch # es, merged e patch) else None)"

definition lb_update :: "jtext \<Rightarrow> log_entry \<Rightarrow> log_bus \<Rightarrow> log_bus \<times> log_entry option \<times> (nat \<times> log_entry) list" where
  "lb_update rid patch b =
     (case patch_newest rid patch (lb_buffer b) of
        Some (es, m) \<Rightarrow> (b\<lparr>lb_buffer := es\<rparr>, Some m, deliveries b m)
      | None \<Rightarrow> (b, None, []))"

text \<open>\<open>slice(-limit)\<close>.\<close>

definition lb_recent :: "int \<Rightarrow> log_bus \<Rightarrow> log_entry list" where
  "lb_recent limit b =
     (let n = int (length (lb_buffer b)) in drop (nat (if limit > 0 then max 0 (n - limit) else min (- limit) n)) (lb_buffer b))"

definition lb_subscribe :: "nat \<Rightarrow> log_bus \<Rightarrow> log_bus" where
  "lb_subscribe s b = b\<lparr>lb_subscribers := (if s \<in> set (lb_subscribers b) then lb_subscribers b else lb_subscribers b @ [s])\<rparr>"

definition lb_unsubscribe :: "nat \<Rightarrow> log_bus \<Rightarrow> log_bus" where
  "lb_unsubscribe s b = b\<lparr>lb_subscribers := filter (\<lambda>t. t \<noteq> s) (lb_subscribers b)\<rparr>"

section \<open>No secret is captured\<close>

fun no_secrets :: "jtext json \<Rightarrow> bool" where
  "no_secrets (JArr vs) = (\<forall>v \<in> set vs. no_secrets v)"
| "no_secrets (JObj ms) = (\<forall>(k, v) \<in> set ms. (secret_key k \<longrightarrow> v = redacted) \<and> no_secrets v)"
| "no_secrets v = True"

text \<open>How deep arrays and objects nest.\<close>

fun nesting :: "jtext json \<Rightarrow> nat" where
  "nesting (JArr vs) = Suc (Max (insert 0 (set (map nesting vs))))"
| "nesting (JObj ms) = Suc (Max (insert 0 (set (map (\<lambda>(k, v). nesting v) ms))))"
| "nesting v = 0"

lemma redacted_clean: "no_secrets (redactContent d v)"
  by (induction d v rule: redactContent.induct) (auto split: if_splits)

lemma one_below: "n \<le> m - Suc d \<Longrightarrow> d < m \<Longrightarrow> n < m - d" for n m d :: nat
  by arith

lemma redacted_nesting: "nesting (redactContent d v) \<le> MAX_REDACT_DEPTH - d"
proof (induction d v rule: redactContent.induct)
  case (1 depth vs)
  then show ?case by (cases "depth \<ge> MAX_REDACT_DEPTH") (auto simp: not_le intro!: Suc_leI intro: one_below)
next
  case (2 depth ms)
  show ?case
  proof (cases "depth \<ge> MAX_REDACT_DEPTH")
    case False
    have "nesting (redactContent (depth + 1) v) < MAX_REDACT_DEPTH - depth" if "(k, v) \<in> set ms" "\<not> secret_key k" for k v
      using "2.IH" [OF False that(1) refl that(2)] False by (intro one_below) auto
    with False show ?thesis by (fastforce intro!: Suc_leI)
  qed simp
qed simp_all

text \<open>What holds no secret and does not nest too deep is kept as it is.\<close>

fun secret_free :: "jtext json \<Rightarrow> bool" where
  "secret_free (JArr vs) = (\<forall>v \<in> set vs. secret_free v)"
| "secret_free (JObj ms) = (\<forall>(k, v) \<in> set ms. \<not> secret_key k \<and> secret_free v)"
| "secret_free v = True"

lemma secret_free_kept: "secret_free v \<Longrightarrow> nesting v + d \<le> MAX_REDACT_DEPTH \<Longrightarrow> redactContent d v = v"
proof (induction d v rule: redactContent.induct)
  case (1 depth vs)
  have "nesting v + (depth + 1) \<le> MAX_REDACT_DEPTH" if "v \<in> set vs" for v
  proof -
    have "nesting v \<le> Max (insert 0 (nesting ` set vs))" using that by (intro Max_ge) auto
    with "1.prems"(2) show ?thesis by simp
  qed
  with 1 show ?case by (auto intro!: map_idI)
next
  case (2 depth ms)
  have "nesting v + (depth + 1) \<le> MAX_REDACT_DEPTH" if "(k, v) \<in> set ms" for k v
  proof -
    have "nesting v \<le> Max (insert 0 ((\<lambda>(k, v). nesting v) ` set ms))" using that by (intro Max_ge) force+
    with "2.prems"(2) show ?thesis by simp
  qed
  with 2 show ?case by (force intro!: map_idI)
qed simp_all

text \<open>Captured content holds no credential. At every depth of what is captured, a member whose name
  looks like a credential holds the redaction mark and nothing else; arrays and objects nest at most eight deep;
  and content without such names that nests no deeper is captured unchanged. Nothing is captured unless
  capture is enabled.\<close>

theorem captured_content_has_no_secrets:
  "captureContent modality request response False = None \<and>
   (\<exists>c. captureContent modality request response True = Some c \<and>
      no_secrets (lc_request c) \<and> no_secrets (lc_response c) \<and> nesting (lc_request c) \<le> 8 \<and> nesting (lc_response c) \<le> 8 \<and>
      (secret_free request \<and> nesting request \<le> 8 \<longrightarrow> lc_request c = request) \<and>
      (secret_free response \<and> nesting response \<le> 8 \<longrightarrow> lc_response c = response))"
  using redacted_clean [of 0] redacted_nesting [of 0] secret_free_kept [of _ 0]
  by (simp add: captureContent_def MAX_REDACT_DEPTH_def)

text \<open>Token counts look like credentials.\<close>

lemma usage_is_redacted:
  "redactContent 0 (JObj [(text_of ''prompt_tokens'', JNum 7)]) = JObj [(text_of ''prompt_tokens'', redacted)]"
proof -
  have "secret_key (text_of ''prompt_tokens'')" by code_simp
  then show ?thesis by (simp add: MAX_REDACT_DEPTH_def)
qed

section \<open>The ring keeps the last entries\<close>

datatype log_op = LogPublish log_entry | LogUpdate jtext log_entry

fun bus_step :: "log_bus \<Rightarrow> log_op \<Rightarrow> log_bus" where
  "bus_step b (LogPublish e) = fst (lb_publish e b)"
| "bus_step b (LogUpdate rid patch) = fst (lb_update rid patch b)"

definition bus_run :: "int \<Rightarrow> log_op list \<Rightarrow> log_bus" where
  "bus_run capacity ops = foldl bus_step (new_bus capacity) ops"

text \<open>The whole log, never cut: an update changes the newest entry of its request if it is among the last.\<close>

fun full_step :: "nat \<Rightarrow> log_entry list \<Rightarrow> log_op \<Rightarrow> log_entry list" where
  "full_step cap es (LogPublish e) = es @ [e]"
| "full_step cap es (LogUpdate rid patch) =
     (case patch_newest rid patch (last_n cap es) of
        Some (es1, m) \<Rightarrow> take (length es - cap) es @ es1
      | None \<Rightarrow> es)"

definition full_log :: "nat \<Rightarrow> log_op list \<Rightarrow> log_entry list" where
  "full_log cap ops = foldl (full_step cap) [] ops"

lemma patch_length: "patch_newest rid patch es = Some (es1, m) \<Longrightarrow> length es1 = length es"
  by (induction es arbitrary: es1) (auto split: option.splits if_splits)

lemma bus_follows:
  "lb_buffer (bus_run (int cap) ops) = last_n cap (full_log cap ops) \<and>
   lb_dropped (bus_run (int cap) ops) = int (length (full_log cap ops)) - int (length (lb_buffer (bus_run (int cap) ops))) \<and>
   lb_capacity (bus_run (int cap) ops) = int cap"
proof (induction ops rule: rev_induct)
  case Nil
  show ?case by (simp add: bus_run_def full_log_def new_bus_def last_n_def)
next
  case (snoc x ops)
  let ?b = "bus_run (int cap) ops"
  let ?f = "full_log cap ops"
  have step: "bus_run (int cap) (ops @ [x]) = bus_step ?b x" "full_log cap (ops @ [x]) = full_step cap ?f x"
    by (simp_all add: bus_run_def full_log_def)
  show ?case
  proof (cases x)
    case (LogPublish e)
    show ?thesis
    proof (cases "length ?f < cap")
      case True
      with snoc LogPublish show ?thesis unfolding step by (auto simp: lb_publish_def last_n_def Let_def)
    next
      case False
      have "Suc (length ?f) - cap = (length ?f - cap) + 1" using False by arith
      with snoc LogPublish False show ?thesis unfolding step
        by (auto simp: lb_publish_def last_n_def Let_def)
    qed
  next
    case (LogUpdate rid patch)
    show ?thesis
    proof (cases "patch_newest rid patch (last_n cap ?f)")
      case None
      with snoc LogUpdate show ?thesis unfolding step by (simp add: lb_update_def)
    next
      case (Some r)
      obtain es1 m where r: "r = (es1, m)" by (cases r)
      have "length es1 = min cap (length ?f)" using patch_length Some r by (fastforce simp: last_n_def)
      with snoc LogUpdate Some r show ?thesis unfolding step by (simp add: lb_update_def last_n_def)
    qed
  qed
qed

lemma full_log_length: "length (full_log cap ops) = length (filter (\<lambda>x. case x of LogPublish e \<Rightarrow> True | LogUpdate r p \<Rightarrow> False) ops)"
proof (induction ops rule: rev_induct)
  case (snoc x ops)
  then show ?case
    by (cases x) (auto simp: full_log_def last_n_def dest!: patch_length split: option.split)
qed (simp add: full_log_def)

text \<open>The request log keeps the newest entries and counts the rest. After any publications and updates
  the ring holds the last \<open>capacity\<close> entries of the uncut log, in order and with their updates, and as
  many entries are counted as dropped as were published and are gone; an update never costs an entry.\<close>

theorem log_ring_keeps_the_newest:
  "lb_buffer (bus_run (int cap) ops) = last_n cap (full_log cap ops) \<and>
   lb_dropped (bus_run (int cap) ops) =
     int (length (filter (\<lambda>x. case x of LogPublish e \<Rightarrow> True | LogUpdate r p \<Rightarrow> False) ops)) - int (length (lb_buffer (bus_run (int cap) ops)))"
  using bus_follows [of cap ops] by (simp add: full_log_length)

text \<open>Asking for no entries returns all of them.\<close>

lemma recent_zero: "lb_recent 0 b = lb_buffer b"
  by (simp add: lb_recent_def)

section \<open>Which paths are left out\<close>

text \<open>However long the setting, at most 64 patterns are kept, none empty or longer than 256 characters.\<close>

abbreviation patterns_ok :: "string list \<times> string list \<Rightarrow> bool" where
  "patterns_ok ep \<equiv> distinct (fst ep) \<and> length (fst ep) + length (snd ep) \<le> MAX_EXCLUDE_PATTERNS \<and>
     (\<forall>p \<in> set (fst ep) \<union> set (snd ep). p \<noteq> [] \<and> length p \<le> MAX_PATTERN_LENGTH)"

lemma wildcard_long: "last_n 2 p = ''/*'' \<Longrightarrow> butlast p \<noteq> []"
  by (cases p rule: rev_cases) (auto simp: last_n_def)

lemma added_ok:
  assumes "patterns_ok ep"
  shows "patterns_ok (add_pattern part ep)"
proof (cases ep)
  case (Pair exact pres)
  let ?p = "take MAX_PATTERN_LENGTH (js_trim part)"
  have "length ?p \<le> MAX_PATTERN_LENGTH" by simp
  moreover have "length (butlast ?p) \<le> MAX_PATTERN_LENGTH" by simp
  ultimately show ?thesis
    using assms Pair wildcard_long [of ?p] unfolding add_pattern_def Let_def by (auto simp: not_le split: if_splits)
qed

lemma patterns_bounded: "patterns_ok (path_patterns raw)"
proof -
  have "patterns_ok (foldl (\<lambda>ep part. add_pattern part ep) ep parts)" if "patterns_ok ep" for ep parts
    using that
  proof (induction parts arbitrary: ep)
    case (Cons a parts)
    from Cons.IH [OF added_ok [OF Cons.prems]] show ?case by simp
  qed simp
  from this [of "([], [])"] show ?thesis by (simp add: path_patterns_def Let_def)
qed

lemma nothing_left_out: "path_patterns raw = ([], []) \<Longrightarrow> \<not> path_excluded raw path"
  by (simp add: path_excluded_def split: option.split)

end
