(* ===== verification/Spec2Isabelle.thy ===== *)
theory Spec2Isabelle
  imports RateLimit SharedRateLimit BudgetEpochs VirtualKeys Hierarchy ProviderBudgets Recovery
    Pricing ProviderManager Fallback Admission FesterOutcome FesterFarm EventStream
    McpRegistry ResponsesStream EdgeStreams ConcurrencyGauge UsageCapture DispatchRecord Login BedrockWire
    CohereWire SsrfGuard ResponseCache LogBus
begin

text \<open>
  SysDeck: the LLM gateway of \<open>src/klanker-gate\<close>, and the sign-in and the build service of the web
  console, \<open>src/web\<close>. Paths below are under \<open>src/klanker-gate/packages\<close> unless they start with
  \<open>apps\<close> (under \<open>src/klanker-gate\<close>) or \<open>web\<close> (under \<open>src\<close>).

  A request reaches the gateway's admission middleware, which authenticates a virtual key, checks the team
  and customer above it and the key's provider and model scope, takes the rate windows, reserves one
  request on every budget in the chain and rolls the reservation back when a scheduled budget refuses. The
  response cache may answer it. Otherwise the tool loop runs the turns of the conversation between the
  plugins' hooks, the provider manager picks an upstream account by priority, weight and budget, dispatch
  walks the failover chain, and the HTTP client sends and retries. An adapter turns the provider's stream
  into canonical chunks; a passive tap accumulates the whole message and the usage while an edge
  translator turns the chunks into the dialect of the client. The usage is priced and charged to every
  budget that admitted the request. Counters live in memory and are flushed to a state store, from which
  they are hydrated at boot.

  The basis.
  \<^item> \<open>Prelude\<close>, \<open>JsText\<close>, \<open>Json\<close>, \<open>Grouping\<close>: insertion-ordered maps (JavaScript's \<open>Map\<close>), number and
    text conversions of the language, stable sorting, JSON values, merging by index, and the contract
    \<open>preserved\<close> of an invariant that every operation keeps.
  \<^item> \<open>Utf8\<close>, \<open>JsonText\<close>: \<open>TextEncoder\<close>, \<open>TextDecoder\<close>, \<open>JSON.parse\<close> and \<open>JSON.stringify\<close>. Encoding and
    decoding, printing and parsing are round trips; the fuel of the parser, twice the length of the text
    and two more, is enough, and more changes nothing (\<open>json_fuel\<close>).

  Governance, \<open>governance/src\<close>, \<open>config/src\<close>, \<open>apps/gateway\<close>.
  \<^item> \<open>StateStore\<close>: \<open>store.ts\<close>, \<open>store_memory.ts\<close>. The store is a record of operations; the contract
    \<open>counter_store\<close> says what the governance code relies on and is interpreted on the in-memory store.
    Listings are strictly sorted and a reservation is all or nothing.
  \<^item> \<open>RateLimit\<close>, \<open>SharedRateLimit\<close>: \<open>rate_limit.ts\<close>, \<open>shared_rate_limit.ts\<close>. Exact admissions per window,
    bounds over any interval, bounds of the fleet over any store that keeps the contract, addressing and
    pruning of the windows.
  \<^item> \<open>BudgetEpochs\<close>: \<open>budget_epochs.ts\<close>. Periods, admission, isolation of the counters, and the
    simulation of the durable backend by the in-memory one.
  \<^item> \<open>UsageLedger\<close>, \<open>VirtualKeys\<close>, \<open>Hierarchy\<close>: \<open>virtual_keys.ts\<close>, \<open>hierarchy.ts\<close>. The ledger
    contract of reservations and releases, interpreted on keys and on the chain; the key indexes,
    the admission decision, lifetime budgets that no interleaving exceeds.
  \<^item> \<open>ProviderConfig\<close>, \<open>ProviderBudgets\<close>, \<open>Recovery\<close>, \<open>ConfigService\<close>: account records and their
    redaction (\<open>contracts/src/config.ts\<close>), windowed budgets (\<open>provider_budgets.ts\<close>), the durable service
    (\<open>service.ts\<close>), and what a restart (\<open>apps/gateway/context.ts\<close>) brings back when some of the writes are
    lost. \<open>Pricing\<close>: \<open>pricing.ts\<close>, the longest matching price and the cost of a usage block.
  \<^item> \<open>Admission\<close>: \<open>apps/gateway/routes/governance.ts\<close>, the middleware as its atomic stretches and their
    composition.

  Requests and tools.
  \<^item> \<open>ProviderManager\<close>, \<open>Fallback\<close>: \<open>providers/src/manager.ts\<close>, \<open>fallback.ts\<close>, \<open>scope.ts\<close>. Fair weighted
    rotation, eligibility and priority, failover chains, dispatch.
  \<^item> \<open>Egress\<close>, \<open>SsrfGuard\<close>: \<open>client.ts\<close>, proxy bypass, headers and the retry loop, whose termination measure
    is the number of retries left; the audio guard of \<open>huggingface.ts\<close>, whose address check is the
    membership in a list of networks.
  \<^item> \<open>Effects\<close>, \<open>Plugins\<close>, \<open>ToolLoop\<close>, \<open>McpRegistry\<close>: calls that await as functions on the world;
    \<open>plugins/src/lifecycle.ts\<close>, \<open>core/src/orchestrator.ts\<close> and \<open>mcp/src\<close>. Every tool call is answered,
    side effects need a confirmation, names resolve within the policy, and the loop ends: its fuel is the
    number of turns the code allows.
  \<^item> \<open>ResponseCache\<close>: \<open>cache/src/semantic.ts\<close>, \<open>vector.ts\<close>, \<open>store.ts\<close>. Every answer that is served was
    stored for the same namespace and key or a similar prompt, and is not expired or cleared.

  Streams.
  \<^item> \<open>Sse\<close>, \<open>EventStream\<close>: \<open>core/src/sse.ts\<close>, \<open>stream.ts\<close>, \<open>providers/src/eventstream.ts\<close>. Round trips, and
    independence of how the network cuts the bytes.
  \<^item> \<open>ProviderChunks\<close>, \<open>AnthropicWire\<close>, \<open>BedrockWire\<close>, \<open>CohereWire\<close>: the adapters \<open>anthropic.ts\<close>,
    \<open>bedrock.ts\<close>, \<open>cohere.ts\<close> of \<open>providers/src\<close>: request and response mappings and the stream
    transformers. What the provider documents as the events of a reply is a predicate on events; from any such
    stream the accumulator rebuilds the reply. Values of other types are passed on as the code does.
  \<^item> \<open>StreamTranslate\<close>, \<open>ResponsesStream\<close>, \<open>EdgeStreams\<close>: \<open>core/src/translate.ts\<close>, the five edge
    translators, against acceptors of the protocols they speak (the contract \<open>protocol\<close>). They read chunks
    of the declared type, \<open>canonical_chunk\<close>.
  \<^item> \<open>Accumulate\<close>: \<open>core/src/accumulate.ts\<close> and the tap of \<open>stream.ts\<close>. The tap passes every byte on and
    sees the same message however the bytes are cut.
  \<^item> \<open>UsageCapture\<close>, \<open>DispatchRecord\<close>, \<open>ConcurrencyGauge\<close>, \<open>LogBus\<close>: \<open>telemetry/src\<close>. Usage read off a body,
    settled once; the gauge against the list of what happened; the request log and its redaction.

  The console.
  \<^item> \<open>Session\<close>, \<open>Accounts\<close>, \<open>Login\<close>: \<open>session.ts\<close>, \<open>users.ts\<close> of \<open>web/src/lib/sysdeck\<close> and the route
    \<open>api/auth/login\<close>. Tokens are accepted exactly when signed and live, the creation race of the key, who is
    signed in, and how many guesses the failure counters let through.
  \<^item> \<open>FesterScheduler\<close>, \<open>FesterEngine\<close>, \<open>FesterRuns\<close>, \<open>FesterOutcome\<close>, \<open>FesterFarm\<close>: the build service
    \<open>web/mini-services/fester\<close> (\<open>nodes.ts\<close>, \<open>scheduler.ts\<close>, \<open>targets.ts\<close>, \<open>engine.ts\<close>). A build is a
    state machine: the coroutine of each action has a program counter, and a step is one stretch
    between two awaits, the turn of the wave loop, or a command of the debugger. In every reachable
    state dependencies are done first, finished actions stay finished, job slots balance (also over
    several builds on one registry) and the gates lose nobody; an ended build is settled, an unpaused one
    ends, and the critical path is the heaviest chain. The fuel of the critical path is one more than the
    number of actions.

  Conventions. A \<open>Date.now()\<close> is an argument. An \<open>await\<close> ends an atomic stretch where other
  requests may act in between; the properties about interleavings say so. Code outside the
  repository (SHA-256, HMAC, scrypt, PAM, DNS, fetch, the embedder, the database) is an argument.
  JavaScript numbers that the code keeps whole are \<^typ>\<open>int\<close> or \<^typ>\<open>nat\<close>, other ones exact
  rationals, \<^typ>\<open>rat\<close>; bytes and checksums are words. Names and keys are strings of 8-bit characters,
  streamed texts lists of Unicode code points.

  Not modelled: the SQL of the PostgreSQL stores and cache back ends, the adapters of the other providers
  with their HTTP calls, files and batches, credentials and request signing, the programs of code mode,
  the rendering and storage of metrics, the HTTP routes beyond admission and sign-in, the declarative
  schemas, the browser user interfaces, the host bridge, and the storage and HTTP interface of the build
  service.
\<close>

end
